(* ===== verification/Skynet_Prelude.thy ===== *)
theory Skynet_Prelude
  imports Main "HOL-Library.Word" "HOL-Library.Monad_Syntax"
begin

text \<open>
  What every component of the development shares: the machine types of the C code, the
  result type of an operation that can fail an assertion or touch invalid memory, the
  circular array that three components of skynet use, the big-endian and little-endian byte
  layouts of its wire formats, and the two interfaces (a FIFO queue, a decoder of a framed
  byte stream) whose client lemmas are proved once.
\<close>

unbundle bit_operations_syntax

section \<open>Machine types\<close>

type_synonym byte = "8 word"
type_synonym u16 = "16 word"
type_synonym u32 = "32 word"
type_synonym u64 = "64 word"

text \<open>The facts that unfold the records and rings of the components are collected here.\<close>

named_theorems ring_simps \<open>circular arrays\<close>
named_theorems byte_simps \<open>byte layouts\<close>

section \<open>Operations that can fail\<close>

text \<open>
  \<open>Err\<close> stands for the points where the C program stops or leaves its defined behaviour: a
  failed \<open>assert\<close>, a NULL or freed pointer, an index outside an array, a read of memory that
  was allocated and never written, an overflow of a signed integer, a loop that does not end. \<open>Lua_error\<close> is an error that a C
  function raises to the Lua code that called it.
\<close>

datatype c_error = Assert_fail | Null_deref | Use_after_free | Out_of_bounds | Uninit_read | Int_overflow
  | Diverge | Lua_error

datatype 'a res = Ok (the_Ok: 'a) | Err c_error

fun res_bind :: "'a res \<Rightarrow> ('a \<Rightarrow> 'b res) \<Rightarrow> 'b res" where
  "res_bind (Ok x) f = f x"
| "res_bind (Err e) f = Err e"

definition res_assert :: "bool \<Rightarrow> unit res" where
  "res_assert b = (if b then Ok () else Err Assert_fail)"

lemma res_bind_eq_Ok [simp]: "res_bind m f = Ok y \<longleftrightarrow> (\<exists>x. m = Ok x \<and> f x = Ok y)"
  by (cases m) auto

lemma res_bind_eq_Err: "res_bind m f = Err e \<longleftrightarrow> m = Err e \<or> (\<exists>x. m = Ok x \<and> f x = Err e)"
  by (cases m) auto

lemma res_assert_Ok [simp]: "res_assert b = Ok u \<longleftrightarrow> b"
  by (simp add: res_assert_def)

lemma res_assert_True [simp]: "res_assert True = Ok ()"
  by (simp add: res_assert_def)

lemma res_assert_False [simp]: "res_assert False = Err Assert_fail"
  by (simp add: res_assert_def)

lemma res_case_ex: "(case r of Ok x \<Rightarrow> P x | Err e \<Rightarrow> False) \<longleftrightarrow> (\<exists>x. r = Ok x \<and> P x)"
  by (cases r) auto

lemma res_bind_Ok [simp]: "res_bind m Ok = m"
  by (cases m) auto

lemma res_bind_assoc: "res_bind (res_bind m f) g = res_bind m (\<lambda>x. res_bind (f x) g)"
  by (cases m) auto

section \<open>Lists and numbers\<close>

lemma mod_hit:
  assumes "j < (n::nat)"
  obtains i where "i < n" "(a + i) mod n = j"
proof -
  have "(a + (j + (n - a mod n)) mod n) mod n = (a mod n + (j + (n - a mod n))) mod n" by (simp add: mod_simps)
  also have "a mod n + (j + (n - a mod n)) = j + n"
    using mod_less_divisor [of n a] assms by (simp del: mod_less_divisor)
  finally show thesis using assms by (intro that [of "(j + (n - a mod n)) mod n"]) simp_all
qed

lemma list_update_nth_if: "xs[i := x] ! j = (if i = j \<and> i < length xs then x else xs ! j)"
  by (cases "i < length xs") (auto simp: list_update_beyond nth_list_update)

text \<open>The conversion of a \<open>size_t\<close> to an \<open>int\<close>.\<close>

definition int_of_size :: "nat \<Rightarrow> int" where
  "int_of_size n = sint (of_nat n :: u32)"

lemma int_of_size [simp]: "n < 2 ^ 31 \<Longrightarrow> int_of_size n = int n"
  unfolding int_of_size_def by (simp add: signed_of_nat signed_take_bit_int_eq_self)

lemma byte_bit: "bit (b :: byte) n \<Longrightarrow> n < 8"
  using bit_imp_le_length [of b n] by simp

section \<open>Circular arrays\<close>

text \<open>
  A circular array holds its \<open>n\<close> live cells from index \<open>h\<close> on, wrapping at the end. A cell
  is \<open>None\<close> until it has been written.
\<close>

definition ring_list :: "'a list \<Rightarrow> nat \<Rightarrow> nat \<Rightarrow> 'a list" where
  "ring_list buf h n = map (\<lambda>i. buf ! ((h + i) mod length buf)) [0..<n]"

definition ring_len :: "nat \<Rightarrow> nat \<Rightarrow> nat \<Rightarrow> nat" where
  "ring_len cap h t = (if h \<le> t then t - h else t + cap - h)"

lemma length_ring_list [simp]: "length (ring_list buf h n) = n"
  by (simp add: ring_list_def)

lemma ring_list_0 [simp]: "ring_list buf h 0 = []"
  by (simp add: ring_list_def)

lemma ring_list_nth: "i < n \<Longrightarrow> ring_list buf h n ! i = buf ! ((h + i) mod length buf)"
  by (simp add: ring_list_def)

lemma ring_list_front [ring_simps]:
  assumes "h < length buf"
  shows "ring_list buf h (Suc n) = buf ! h # ring_list buf (Suc h mod length buf) n"
proof (rule nth_equalityI)
  fix i assume i: "i < length (ring_list buf h (Suc n))"
  show "ring_list buf h (Suc n) ! i = (buf ! h # ring_list buf (Suc h mod length buf) n) ! i"
    using assms i by (cases i) (simp_all add: ring_list_nth mod_simps)
qed simp

lemma ring_list_mod [ring_simps]: "ring_list buf (h mod length buf) n = ring_list buf h n"
  by (simp add: ring_list_def mod_simps)

lemma mod_shift_inj:
  fixes h i n cap :: nat
  assumes "i < n" and "n < cap"
  shows "(h + i) mod cap \<noteq> (h + n) mod cap"
proof
  assume eq: "(h + i) mod cap = (h + n) mod cap"
  then have "cap dvd (h + n) - (h + i)"
    using assms by (metis mod_eq_dvd_iff_nat add_le_cancel_left less_imp_le_nat)
  then have "cap dvd n - i" by simp
  moreover have "0 < n - i" "n - i < cap" using assms by auto
  ultimately show False using nat_dvd_not_less by blast
qed

lemma ring_list_snoc [ring_simps]:
  assumes "n < length buf"
  shows "ring_list (buf[(h + n) mod length buf := x]) h (Suc n) = ring_list buf h n @ [x]"
proof (rule nth_equalityI)
  let ?c = "length buf"
  fix i assume i: "i < length (ring_list (buf[(h + n) mod ?c := x]) h (Suc n))"
  have pos: "(h + n) mod ?c < ?c" using assms by (intro mod_less_divisor) linarith
  show "ring_list (buf[(h + n) mod ?c := x]) h (Suc n) ! i = (ring_list buf h n @ [x]) ! i"
  proof (cases "i < n")
    case True
    then show ?thesis
      using mod_shift_inj [OF True assms, of h] by (simp add: ring_list_nth nth_append)
  next
    case False
    then have "i = n" using i by simp
    then show ?thesis using pos by (simp add: ring_list_nth nth_append)
  qed
qed simp

text \<open>Unrolling a full ring to the front of a larger array keeps its contents.\<close>

lemma ring_list_unroll [ring_simps]:
  assumes "length xs = n" and "n \<le> length xs + length pad"
  shows "ring_list (xs @ pad) 0 n = xs"
proof (rule nth_equalityI)
  fix i assume "i < length (ring_list (xs @ pad) 0 n)"
  then have "i < n" by simp
  then show "ring_list (xs @ pad) 0 n ! i = xs ! i"
    using assms by (simp add: ring_list_nth nth_append)
qed (use assms in simp)

text \<open>The two ways the code wraps an index.\<close>

lemma wrap_Suc: "i < cap \<Longrightarrow> (if i + 1 \<ge> cap then 0 else i + 1) = Suc i mod (cap :: nat)"
  by (auto simp: mod_Suc)

lemma wrap_diff: "i < cap \<Longrightarrow> (if i + 1 \<ge> cap then i + 1 - cap else i + 1) = Suc i mod (cap :: nat)"
  by (auto simp: mod_Suc)

lemma ring_len_less: "h < cap \<Longrightarrow> t < cap \<Longrightarrow> ring_len cap h t < cap"
  by (auto simp: ring_len_def)

lemma ring_len_0 [simp]: "h < cap \<Longrightarrow> t < cap \<Longrightarrow> ring_len cap h t = 0 \<longleftrightarrow> h = t"
  by (auto simp: ring_len_def)

lemma ring_len_tail: "h < cap \<Longrightarrow> t < cap \<Longrightarrow> (h + ring_len cap h t) mod cap = t"
  by (auto simp: ring_len_def)

lemma ring_len_push:
  assumes "h < cap" "t < cap" "Suc t mod cap \<noteq> h"
  shows "ring_len cap h (Suc t mod cap) = Suc (ring_len cap h t)"
  using assms by (auto simp: ring_len_def mod_Suc split: if_splits)

lemma ring_len_full:
  assumes "h < cap" "t < cap" "Suc t mod cap = h"
  shows "Suc (ring_len cap h t) = cap"
  using assms by (auto simp: ring_len_def mod_Suc split: if_splits)

lemma ring_len_pop:
  assumes "h < cap" "t < cap" "h \<noteq> t"
  shows "ring_len cap h t = Suc (ring_len cap (Suc h mod cap) t)"
  using assms by (auto simp: ring_len_def mod_Suc split: if_splits)

section \<open>A FIFO queue as an interface\<close>

datatype 'a fifo_op = Push 'a | Pop

fun pushed :: "'a fifo_op list \<Rightarrow> 'a list" where
  "pushed [] = []"
| "pushed (Push x # ops) = x # pushed ops"
| "pushed (Pop # ops) = pushed ops"

text \<open>A run of operations: the elements popped, in order, and the queue at the end.\<close>

fun fifo_run ::
    "('a \<Rightarrow> 'q \<Rightarrow> 'q res) \<Rightarrow> ('q \<Rightarrow> ('a option \<times> 'q) res) \<Rightarrow> 'a fifo_op list \<Rightarrow> 'q \<Rightarrow> ('a list \<times> 'q) res"
  where
  "fifo_run push pop [] q = Ok ([], q)"
| "fifo_run push pop (Push x # ops) q = res_bind (push x q) (fifo_run push pop ops)"
| "fifo_run push pop (Pop # ops) q =
     res_bind (pop q) (\<lambda>(r, q').
       res_bind (fifo_run push pop ops q') (\<lambda>(out, q''). Ok (case r of None \<Rightarrow> out | Some x \<Rightarrow> x # out, q'')))"

text \<open>A loop that pops until the queue is empty: the elements, in order, and the empty queue.\<close>

partial_function (option) fifo_drain :: "('q \<Rightarrow> ('a option \<times> 'q) res) \<Rightarrow> 'q \<Rightarrow> ('a list \<times> 'q) res option" where
  "fifo_drain pop q =
     (case pop q of
        Err e \<Rightarrow> Some (Err e)
      | Ok (None, q1) \<Rightarrow> Some (Ok ([], q1))
      | Ok (Some x, q1) \<Rightarrow> Option.bind (fifo_drain pop q1) (\<lambda>r. Some (res_bind r (\<lambda>(xs, q2). Ok (x # xs, q2)))))"

declare fifo_drain.simps [code]

definition fifo_pop_all :: "('q \<Rightarrow> ('a option \<times> 'q) res) \<Rightarrow> 'q \<Rightarrow> ('a list \<times> 'q) res" where
  "fifo_pop_all pop q = (case fifo_drain pop q of None \<Rightarrow> Err Diverge | Some r \<Rightarrow> r)"

text \<open>Pushing several elements.\<close>

fun fifo_push_all :: "('a \<Rightarrow> 'q \<Rightarrow> 'q res) \<Rightarrow> 'a list \<Rightarrow> 'q \<Rightarrow> 'q res" where
  "fifo_push_all push [] q = Ok q"
| "fifo_push_all push (x # xs) q = res_bind (push x q) (fifo_push_all push xs)"

locale fifo =
  fixes inv :: "'q \<Rightarrow> bool"
    and items :: "'q \<Rightarrow> 'a list"
    and push :: "'a \<Rightarrow> 'q \<Rightarrow> 'q res"
    and pop :: "'q \<Rightarrow> ('a option \<times> 'q) res"
  assumes push_ok: "inv q \<Longrightarrow> \<exists>q'. push x q = Ok q' \<and> inv q' \<and> items q' = items q @ [x]"
    and pop_empty: "inv q \<Longrightarrow> items q = [] \<Longrightarrow> \<exists>q'. pop q = Ok (None, q') \<and> inv q' \<and> items q' = []"
    and pop_cons: "inv q \<Longrightarrow> items q = x # xs \<Longrightarrow> \<exists>q'. pop q = Ok (Some x, q') \<and> inv q' \<and> items q' = xs"
begin

lemma pop_ok: "inv q \<Longrightarrow> \<exists>r q'. pop q = Ok (r, q') \<and> inv q' \<and> items q = (case r of None \<Rightarrow> [] | Some x \<Rightarrow> [x]) @ items q'"
  by (cases "items q") (use pop_empty pop_cons in fastforce)+

text \<open>No operation fails, nothing is lost or reordered: what came out followed by what is
  still queued is what was queued followed by what went in.\<close>

lemma run_fifo:
  "inv q \<Longrightarrow> \<exists>out q'. fifo_run push pop ops q = Ok (out, q') \<and> inv q' \<and> out @ items q' = items q @ pushed ops"
proof (induction ops arbitrary: q rule: pushed.induct)
  case 1
  then show ?case by simp
next
  case (2 x ops)
  obtain q1 where q1: "push x q = Ok q1" "inv q1" "items q1 = items q @ [x]"
    using push_ok [OF "2.prems"] by blast
  from "2.IH" [OF q1(2)] q1 show ?case by simp
next
  case (3 ops)
  obtain r q1 where q1: "pop q = Ok (r, q1)" "inv q1"
      "items q = (case r of None \<Rightarrow> [] | Some x \<Rightarrow> [x]) @ items q1"
    using pop_ok [OF "3.prems"] by blast
  obtain out q2 where run: "fifo_run push pop ops q1 = Ok (out, q2)" "inv q2"
      "out @ items q2 = items q1 @ pushed ops"
    using "3.IH" [OF q1(2)] by blast
  have "fifo_run push pop (Pop # ops) q = Ok (case r of None \<Rightarrow> out | Some x \<Rightarrow> x # out, q2)"
    using q1 run by simp
  moreover have "(case r of None \<Rightarrow> out | Some x \<Rightarrow> x # out) @ items q2 = items q @ pushed (Pop # ops)"
    using q1(3) run(3) by (cases r) simp_all
  ultimately show ?case
    using run(2) by blast
qed

lemma drain_ok: "inv q \<Longrightarrow> \<exists>q'. fifo_drain pop q = Some (Ok (items q, q')) \<and> inv q' \<and> items q' = []"
proof (induction "items q" arbitrary: q)
  case Nil
  then obtain q' where "pop q = Ok (None, q')" "inv q'" "items q' = []" using pop_empty [of q] by auto
  then show ?case using Nil.hyps by (subst fifo_drain.simps) simp
next
  case (Cons x xs)
  obtain q1 where q1: "pop q = Ok (Some x, q1)" "inv q1" "items q1 = xs"
    using pop_cons [OF Cons.prems] Cons.hyps(2) by metis
  obtain q' where "fifo_drain pop q1 = Some (Ok (xs, q'))" "inv q'" "items q' = []"
    using Cons.hyps(1) [of q1] q1 by auto
  then show ?case using q1 Cons.hyps(2) [symmetric] by (subst fifo_drain.simps) simp
qed

lemma pop_all_ok: "inv q \<Longrightarrow> \<exists>q'. fifo_pop_all pop q = Ok (items q, q') \<and> inv q' \<and> items q' = []"
  using drain_ok [of q] by (auto simp: fifo_pop_all_def)

lemma push_all_ok: "inv q \<Longrightarrow> \<exists>q'. fifo_push_all push xs q = Ok q' \<and> inv q' \<and> items q' = items q @ xs"
proof (induction xs arbitrary: q)
  case (Cons x xs)
  obtain q1 where q1: "push x q = Ok q1" "inv q1" "items q1 = items q @ [x]" using push_ok [OF Cons.prems] by blast
  from Cons.IH [OF q1(2)] q1 show ?case by simp
qed simp

end

end
