(* ===== verification/Skynet_Lock.thy ===== *)
theory Skynet_Lock
  imports Skynet_Prelude
begin

text \<open>
  The locks of \<open>skynet-src/spinlock.h\<close> and \<open>skynet-src/rwlock.h\<close>, in the variants built on the atomic
  operations of the compiler (without USE_PTHREAD_LOCK). A thread is at a program point inside a lock operation; one
  rule per access to the lock words. The accesses interleave in any order (the \<open>__sync\<close> operations are
  taken as sequentially consistent).

  The lemmas show mutual exclusion: the other theories take a region between lock and unlock as one atomic
  operation, which rests on it.
\<close>

section \<open>The spin lock\<close>

datatype spin_pc = S_idle | S_spin | S_in

record spinlock =
  sp_lock :: int

definition spinlock_init :: spinlock where
  "spinlock_init = \<lparr>sp_lock = 0\<rparr>"

text \<open>\<open>__sync_lock_test_and_set(&lock->lock, 1)\<close>: the old value, and the lock word set.\<close>

definition spin_test_and_set :: "spinlock \<Rightarrow> int \<times> spinlock" where
  "spin_test_and_set l = (sp_lock l, l\<lparr>sp_lock := 1\<rparr>)"

definition spinlock_trylock :: "spinlock \<Rightarrow> bool \<times> spinlock" where
  "spinlock_trylock l = (case spin_test_and_set l of (old, l1) \<Rightarrow> (old = 0, l1))"

definition spinlock_unlock :: "spinlock \<Rightarrow> spinlock" where
  "spinlock_unlock l = l\<lparr>sp_lock := 0\<rparr>"

text \<open>One pass of the loop of \<open>spinlock_lock\<close>, a try, and the unlock by the thread that has the lock.\<close>

inductive spin_step :: "spinlock \<times> (nat \<Rightarrow> spin_pc) \<Rightarrow> spinlock \<times> (nat \<Rightarrow> spin_pc) \<Rightarrow> bool" where
  call: "pc t = S_idle \<Longrightarrow> spin_step (l, pc) (l, pc(t := S_spin))"
| spin: "pc t = S_spin \<Longrightarrow> spin_test_and_set l = (old, l1) \<Longrightarrow>
    spin_step (l, pc) (l1, pc(t := if old \<noteq> 0 then S_spin else S_in))"
| try_lock: "pc t = S_idle \<Longrightarrow> spinlock_trylock l = (ok, l1) \<Longrightarrow> spin_step (l, pc) (l1, pc(t := if ok then S_in else S_idle))"
| unlock: "pc t = S_in \<Longrightarrow> spin_step (l, pc) (spinlock_unlock l, pc(t := S_idle))"

inductive spin_reachable :: "spinlock \<times> (nat \<Rightarrow> spin_pc) \<Rightarrow> bool" where
  start: "spin_reachable (spinlock_init, \<lambda>_. S_idle)"
| step: "spin_reachable s \<Longrightarrow> spin_step s s' \<Longrightarrow> spin_reachable s'"

definition spin_inv :: "spinlock \<times> (nat \<Rightarrow> spin_pc) \<Rightarrow> bool" where
  "spin_inv s \<longleftrightarrow> (\<forall>t. snd s t = S_in \<longrightarrow> sp_lock (fst s) = 1 \<and> (\<forall>t'. snd s t' = S_in \<longrightarrow> t' = t))"

lemma spin_reachable_inv: "spin_reachable s \<Longrightarrow> spin_inv s"
proof (induction rule: spin_reachable.induct)
  case start
  then show ?case by (simp add: spin_inv_def)
next
  case (step s s')
  from step.hyps(2) step.IH show ?case
    by cases (auto simp: spin_inv_def spin_test_and_set_def spinlock_trylock_def spinlock_unlock_def split: if_splits)
qed

section \<open>The read-write lock\<close>

text \<open>
  \<open>R_wait\<close>: in the loop that waits for \<open>write\<close> to be 0; \<open>R_try\<close>: about to add to \<open>read\<close>; \<open>R_test\<close>: has added and looks at \<open>write\<close>
  again; \<open>R_back\<close>: has seen a writer and takes its count back; \<open>W_try\<close>: in the loop of the test and set; \<open>W_wait\<close>: has set
  \<open>write\<close> and waits for the readers.
\<close>

datatype rw_pc = RW_idle | R_wait | R_try | R_test | R_back | R_in | W_try | W_wait | W_in

record rwlock =
  rw_write :: int
  rw_read :: int

definition rwlock_init :: rwlock where
  "rwlock_init = \<lparr>rw_write = 0, rw_read = 0\<rparr>"

text \<open>What the next access of a thread inside a lock operation does: the lock words and its next program point.
  \<open>R_in\<close> and \<open>W_in\<close> are the calls of \<open>rwlock_runlock\<close> and \<open>rwlock_wunlock\<close>.\<close>

fun rw_access :: "rw_pc \<Rightarrow> rwlock \<Rightarrow> rw_pc \<times> rwlock" where
  "rw_access RW_idle l = (RW_idle, l)"
| "rw_access R_wait l = (if rw_write l \<noteq> 0 then R_wait else R_try, l)"
| "rw_access R_try l = (R_test, l\<lparr>rw_read := rw_read l + 1\<rparr>)"
| "rw_access R_test l = (if rw_write l \<noteq> 0 then R_back else R_in, l)"
| "rw_access R_back l = (R_wait, l\<lparr>rw_read := rw_read l - 1\<rparr>)"
| "rw_access R_in l = (RW_idle, l\<lparr>rw_read := rw_read l - 1\<rparr>)"
| "rw_access W_try l = (if rw_write l \<noteq> 0 then W_try else W_wait, l\<lparr>rw_write := 1\<rparr>)"
| "rw_access W_wait l = (if rw_read l \<noteq> 0 then W_wait else W_in, l)"
| "rw_access W_in l = (RW_idle, l\<lparr>rw_write := 0\<rparr>)"

inductive rw_step :: "rwlock \<times> (nat \<Rightarrow> rw_pc) \<Rightarrow> rwlock \<times> (nat \<Rightarrow> rw_pc) \<Rightarrow> bool" where
  rlock: "pc t = RW_idle \<Longrightarrow> rw_step (l, pc) (l, pc(t := R_wait))"
| wlock: "pc t = RW_idle \<Longrightarrow> rw_step (l, pc) (l, pc(t := W_try))"
| access: "rw_access (pc t) l = (p, l') \<Longrightarrow> rw_step (l, pc) (l', pc(t := p))"

inductive rw_reachable :: "rwlock \<times> (nat \<Rightarrow> rw_pc) \<Rightarrow> bool" where
  start: "rw_reachable (rwlock_init, \<lambda>_. RW_idle)"
| step: "rw_reachable s \<Longrightarrow> rw_step s s' \<Longrightarrow> rw_reachable s'"

text \<open>The threads that are counted in \<open>read\<close>, and those that have \<open>write\<close>.\<close>

definition counted :: "(nat \<Rightarrow> rw_pc) \<Rightarrow> nat set" where
  "counted pc = {t. pc t = R_test \<or> pc t = R_back \<or> pc t = R_in}"

definition writing :: "(nat \<Rightarrow> rw_pc) \<Rightarrow> nat set" where
  "writing pc = {t. pc t = W_wait \<or> pc t = W_in}"

definition rw_inv :: "rwlock \<times> (nat \<Rightarrow> rw_pc) \<Rightarrow> bool" where
  "rw_inv s \<longleftrightarrow>
     finite (counted (snd s)) \<and> rw_read (fst s) = int (card (counted (snd s))) \<and>
     (rw_write (fst s) = 0 \<longleftrightarrow> writing (snd s) = {}) \<and> (\<forall>t \<in> writing (snd s). \<forall>t' \<in> writing (snd s). t' = t) \<and>
     (\<forall>t t'. snd s t = W_in \<longrightarrow> snd s t' \<noteq> R_in)"

lemma counted_upd: "counted (pc(t := p)) = (if p = R_test \<or> p = R_back \<or> p = R_in then insert t (counted pc) else counted pc - {t})"
  by (auto simp: counted_def)

lemma writing_upd: "writing (pc(t := p)) = (if p = W_wait \<or> p = W_in then insert t (writing pc) else writing pc - {t})"
  by (auto simp: writing_def)

lemma in_counted [simp]: "t \<in> counted pc \<longleftrightarrow> pc t = R_test \<or> pc t = R_back \<or> pc t = R_in"
  by (simp add: counted_def)

lemma in_writing [simp]: "t \<in> writing pc \<longleftrightarrow> pc t = W_wait \<or> pc t = W_in"
  by (simp add: writing_def)

text \<open>The three parts of the invariant, each through one access.\<close>

lemma rw_access_count:
  assumes "finite (counted pc)" "rw_read l = int (card (counted pc))" "rw_access (pc t) l = (p, l')"
  shows "finite (counted (pc(t := p))) \<and> rw_read l' = int (card (counted (pc(t := p))))"
proof -
  have del: "int (card (counted pc - {t})) = rw_read l - 1" if "t \<in> counted pc"
  proof -
    have "card (counted pc) \<noteq> 0" using that assms(1) by (metis card_0_eq empty_iff)
    then obtain n where "card (counted pc) = Suc n" by (cases "card (counted pc)") auto
    then show ?thesis using card_Diff_singleton [OF that] assms(2) by simp
  qed
  have ins: "int (card (insert t (counted pc))) = rw_read l + 1" if "t \<notin> counted pc" using that assms(1,2) by simp
  have same: "insert t (counted pc) = counted pc" if "t \<in> counted pc" using that by (rule insert_absorb)
  have none: "counted pc - {t} = counted pc" if "t \<notin> counted pc" using that by (rule Diff_insert_absorb [OF _, simplified]) 
  show ?thesis using assms del ins same none by (cases "pc t") (auto simp: counted_upd simp del: card.insert split: if_splits)
qed

lemma rw_access_write:
  assumes "rw_write l = 0 \<longleftrightarrow> writing pc = {}" "\<forall>t \<in> writing pc. \<forall>t' \<in> writing pc. t' = t" "rw_access (pc t) l = (p, l')"
  shows "(rw_write l' = 0 \<longleftrightarrow> writing (pc(t := p)) = {}) \<and> (\<forall>t1 \<in> writing (pc(t := p)). \<forall>t2 \<in> writing (pc(t := p)). t2 = t1)"
proof -
  have own: "writing pc = {t}" if "t \<in> writing pc" using that assms(2) by blast
  have none: "writing pc - {t} = writing pc" if "t \<notin> writing pc" using that by blast
  show ?thesis
  proof (cases "t \<in> writing pc")
    case True
    then have "pc t = W_wait \<or> pc t = W_in" by simp
    then show ?thesis using own [OF True] assms(1,3) by (auto simp: writing_upd split: if_splits)
  next
    case False
    then have pt: "pc t \<noteq> W_wait" "pc t \<noteq> W_in" by simp_all
    show ?thesis
    proof (cases "p = W_wait \<or> p = W_in")
      case True
      then have "rw_write l = 0" "rw_write l' \<noteq> 0" using assms(3) pt by (cases "pc t"; auto split: if_splits)+
      then have "writing (pc(t := p)) = {t}" using assms(1) True unfolding writing_upd by simp
      then show ?thesis using \<open>rw_write l' \<noteq> 0\<close> by simp
    next
      case no: False
      then have "writing (pc(t := p)) = writing pc" unfolding writing_upd using none [OF False] by simp
      moreover have "rw_write l' = 0 \<longleftrightarrow> rw_write l = 0" using assms(3) pt no by (cases "pc t") (auto split: if_splits)
      ultimately show ?thesis using assms(1,2) by metis
    qed
  qed
qed

lemma rw_access_inv:
  assumes inv: "rw_inv (l, pc)" and acc: "rw_access (pc t) l = (p, l')"
  shows "rw_inv (l', pc(t := p))"
proof -
  have parts: "finite (counted pc)" "rw_read l = int (card (counted pc))" "rw_write l = 0 \<longleftrightarrow> writing pc = {}"
      "\<forall>t \<in> writing pc. \<forall>t' \<in> writing pc. t' = t" and ex: "\<And>t1 t2. pc t1 = W_in \<Longrightarrow> pc t2 \<noteq> R_in"
    using inv unfolding rw_inv_def by auto
  have "(pc(t := p)) t2 \<noteq> R_in" if w: "(pc(t := p)) t1 = W_in" for t1 t2
  proof
    assume r: "(pc(t := p)) t2 = R_in"
    then have ne: "t1 \<noteq> t2" using w by auto
    consider "t = t1" "pc t2 = R_in" | "t = t2" "pc t1 = W_in" | "pc t1 = W_in" "pc t2 = R_in"
      using w r by (auto split: if_splits)
    then show False
    proof cases
      case 1
      then have "p = W_in" using w by simp
      then have "rw_read l = 0 \<or> pc t = W_in" using acc by (cases "pc t") (auto split: if_splits)
      then show False using parts(1,2) 1 ex [of t t2] by (auto simp: counted_def)
    next
      case 2
      then have "p = R_in" using r by simp
      then have "rw_write l = 0 \<or> pc t = R_in" using acc by (cases "pc t") (auto split: if_splits)
      then show False using parts(3) 2 ex [of t1 t] by (auto simp: writing_def)
    qed (use ex in blast)
  qed
  with rw_access_count [OF parts(1,2) acc] rw_access_write [OF parts(3,4) acc] show ?thesis
    unfolding rw_inv_def by simp
qed

lemma rw_reachable_inv: "rw_reachable s \<Longrightarrow> rw_inv s"
proof (induction rule: rw_reachable.induct)
  case start
  then show ?case by (simp add: rw_inv_def rwlock_init_def counted_def writing_def)
next
  case (step s s')
  from step.hyps(2) step.IH show ?case
  proof cases
    case (access pc t l p l')
    then show ?thesis using step.IH rw_access_inv [of l pc t p l'] by (simp only:)
  qed (auto simp: rw_inv_def counted_upd writing_upd split: if_splits)
qed

text \<open>C13: the locks exclude. In every reachable state of the read-write lock a thread inside \<open>rwlock_wlock\<close> \<open>...\<close> \<open>rwlock_wunlock\<close>
  is alone: no other thread is inside as a writer or as a reader; and in every reachable state of the spin lock at most one
  thread is inside.\<close>

theorem locks_exclude:
  assumes "rw_reachable (l, pc)" and "spin_reachable (sl, spc)"
  shows "(\<forall>t t'. pc t = W_in \<and> t' \<noteq> t \<longrightarrow> pc t' \<noteq> W_in \<and> pc t' \<noteq> R_in) \<and> (\<forall>t t'. spc t = S_in \<and> spc t' = S_in \<longrightarrow> t = t')"
proof -
  have "rw_inv (l, pc)" "spin_inv (sl, spc)" using rw_reachable_inv spin_reachable_inv assms by blast+
  then have one: "\<And>t t'. t \<in> writing pc \<Longrightarrow> t' \<in> writing pc \<Longrightarrow> t' = t" and ex: "\<And>t t'. pc t = W_in \<Longrightarrow> pc t' \<noteq> R_in"
    and sp: "\<And>t t'. spc t = S_in \<Longrightarrow> spc t' = S_in \<Longrightarrow> t' = t"
    unfolding rw_inv_def spin_inv_def fst_conv snd_conv by blast+
  have "pc t' \<noteq> W_in \<and> pc t' \<noteq> R_in" if "pc t = W_in" "t' \<noteq> t" for t t' using one [of t t'] ex [of t t'] that by auto
  with sp show ?thesis by blast
qed

theorem locks_exclude_witness:
  "\<exists>l pc sl spc. rw_reachable (l, pc) \<and> pc 0 = W_in \<and> pc 1 = R_test \<and> spin_reachable (sl, spc) \<and> spc 3 = S_in \<and>
    pc 1 \<noteq> W_in \<and> (\<forall>t. spc t = S_in \<longrightarrow> t = 3)"
proof -
  let ?l = "\<lparr>rw_write = 1, rw_read = 1\<rparr>" and ?pc = "(\<lambda>_. RW_idle)(0 := W_in, 1 := R_test)"
  let ?p0 = "\<lambda>_::nat. RW_idle"
  have "rw_reachable (rwlock_init, ?p0(1 := R_wait))" using rw_reachable.step [OF rw_reachable.start rw_step.rlock [of _ 1]] by simp
  then have "rw_reachable (rwlock_init, ?p0(1 := R_wait, 0 := W_try))" by (rule rw_reachable.step) (rule rw_step.wlock, simp)
  then have "rw_reachable (rwlock_init, ?p0(1 := R_wait, 0 := W_try, 1 := R_try))"
    by (rule rw_reachable.step) (rule rw_step.access, simp add: rwlock_init_def)
  then have "rw_reachable (\<lparr>rw_write = 1, rw_read = 0\<rparr>, ?p0(1 := R_wait, 0 := W_try, 1 := R_try, 0 := W_wait))"
    by (rule rw_reachable.step) (rule rw_step.access, simp add: rwlock_init_def)
  then have "rw_reachable (\<lparr>rw_write = 1, rw_read = 0\<rparr>, ?p0(1 := R_wait, 0 := W_try, 1 := R_try, 0 := W_wait, 0 := W_in))"
    by (rule rw_reachable.step) (rule rw_step.access, simp)
  then have "rw_reachable (?l, ?p0(1 := R_wait, 0 := W_try, 1 := R_try, 0 := W_wait, 0 := W_in, 1 := R_test))"
    by (rule rw_reachable.step) (rule rw_step.access, simp)
  then have rw: "rw_reachable (?l, ?pc)" by (simp add: fun_upd_twist)
  have "spin_reachable (spinlock_init\<lparr>sp_lock := 1\<rparr>, (\<lambda>_. S_idle)(3 := S_in))"
    using spin_reachable.step [OF spin_reachable.start spin_step.try_lock [of "\<lambda>_. S_idle" 3 spinlock_init]]
    by (simp add: spinlock_trylock_def spin_test_and_set_def spinlock_init_def)
  moreover from locks_exclude [OF rw this] have "?pc 1 \<noteq> W_in" "\<forall>t. ((\<lambda>_. S_idle)(3 := S_in)) t = S_in \<longrightarrow> t = 3" by auto
  ultimately show ?thesis using rw
    by (intro exI [of _ ?l] exI [of _ ?pc] exI [of _ "spinlock_init\<lparr>sp_lock := 1\<rparr>"] exI [of _ "(\<lambda>_. S_idle)(3 := S_in)"]) simp
qed

end
