(* ===== verification/Skynet_MQ.thy ===== *)
theory Skynet_MQ
  imports Skynet_Prelude
begin

text \<open>
  The message queues of \<open>skynet-src/skynet_mq.c\<close>: one circular array of messages per service,
  and the global queue, a linked list of the service queues that have work. A region between
  SPIN_LOCK and SPIN_UNLOCK is one atomic operation here. The counters of a queue are C
  \<open>int\<close>s; they are modelled as \<open>nat\<close>, which is exact as long as a queue holds fewer than
  \<open>2 ^ 30\<close> messages of 24 bytes.

  The lemmas show that a service queue is a FIFO queue that never reads an unwritten cell, that
  the linked list is a FIFO queue of queues, and that the \<open>in_global\<close> protocol never lets two
  threads hold the same service queue.
\<close>

section \<open>Data\<close>

record skynet_message =
  msg_source :: u32
  msg_session :: u32
  msg_data :: "byte list option"
  msg_sz :: u64

type_synonym qptr = nat

record message_queue =
  mq_handle :: u32
  mq_cap :: nat
  mq_head :: nat
  mq_tail :: nat
  mq_release :: bool
  mq_in_global :: nat
  mq_overload :: nat
  mq_overload_threshold :: nat
  mq_queue :: "skynet_message option list"
  mq_next :: "qptr option"

definition DEFAULT_QUEUE_SIZE :: nat where "DEFAULT_QUEUE_SIZE = 64"
definition MQ_IN_GLOBAL :: nat where "MQ_IN_GLOBAL = 1"
definition MQ_OVERLOAD :: nat where "MQ_OVERLOAD = 1024"

text \<open>The heap of queues and the global queue \<open>Q\<close>.\<close>

record mq_world =
  mq_heap :: "qptr \<Rightarrow> message_queue option"
  gq_head :: "qptr option"
  gq_tail :: "qptr option"

definition mq_get :: "mq_world \<Rightarrow> qptr \<Rightarrow> message_queue res" where
  "mq_get w p = (case mq_heap w p of None \<Rightarrow> Err Use_after_free | Some q \<Rightarrow> Ok q)"

definition mq_set :: "mq_world \<Rightarrow> qptr \<Rightarrow> message_queue \<Rightarrow> mq_world" where
  "mq_set w p q = w\<lparr>mq_heap := (mq_heap w)(p \<mapsto> q)\<rparr>"

section \<open>Operations\<close>

definition skynet_mq_init :: mq_world where
  "skynet_mq_init = \<lparr>mq_heap = (\<lambda>_. None), gq_head = None, gq_tail = None\<rparr>"

definition skynet_globalmq_push :: "qptr \<Rightarrow> mq_world \<Rightarrow> mq_world res" where
  "skynet_globalmq_push p w =
     res_bind (mq_get w p) (\<lambda>queue.
     res_bind (res_assert (mq_next queue = None)) (\<lambda>_.
       (case gq_tail w of
          Some t \<Rightarrow>
            res_bind (mq_get w t) (\<lambda>tq. Ok ((mq_set w t (tq\<lparr>mq_next := Some p\<rparr>))\<lparr>gq_tail := Some p\<rparr>))
        | None \<Rightarrow> Ok (w\<lparr>gq_head := Some p, gq_tail := Some p\<rparr>))))"

definition skynet_globalmq_pop :: "mq_world \<Rightarrow> (qptr option \<times> mq_world) res" where
  "skynet_globalmq_pop w =
     (case gq_head w of
        None \<Rightarrow> Ok (None, w)
      | Some p \<Rightarrow>
          res_bind (mq_get w p) (\<lambda>mq.
            let w1 = w\<lparr>gq_head := mq_next mq\<rparr> in
            res_bind
              (if gq_head w1 = None
               then res_bind (res_assert (gq_tail w1 = Some p)) (\<lambda>_. Ok (w1\<lparr>gq_tail := None\<rparr>))
               else Ok w1)
              (\<lambda>w2. Ok (Some p, mq_set w2 p (mq\<lparr>mq_next := None\<rparr>)))))"

definition skynet_mq_create :: "u32 \<Rightarrow> message_queue" where
  "skynet_mq_create h =
     \<lparr>mq_handle = h, mq_cap = DEFAULT_QUEUE_SIZE, mq_head = 0, mq_tail = 0, mq_release = False,
      mq_in_global = MQ_IN_GLOBAL, mq_overload = 0, mq_overload_threshold = MQ_OVERLOAD,
      mq_queue = replicate DEFAULT_QUEUE_SIZE None, mq_next = None\<rparr>"

definition skynet_mq_length :: "message_queue \<Rightarrow> nat" where
  "skynet_mq_length q =
     (if mq_head q \<le> mq_tail q then mq_tail q - mq_head q else mq_tail q + mq_cap q - mq_head q)"

definition skynet_mq_overload :: "message_queue \<Rightarrow> nat \<times> message_queue" where
  "skynet_mq_overload q =
     (if mq_overload q \<noteq> 0 then (mq_overload q, q\<lparr>mq_overload := 0\<rparr>) else (0, q))"

text \<open>The loop \<open>while (length > q->overload_threshold)\<close> of \<open>skynet_mq_pop\<close>.\<close>

partial_function (option) overload_loop :: "nat \<Rightarrow> nat \<Rightarrow> nat \<Rightarrow> (nat \<times> nat) option" where
  "overload_loop len ov thr =
     (if len > thr then overload_loop len len (thr * 2) else Some (ov, thr))"

text \<open>\<open>None\<close> for the return value 1 (the queue is empty), \<open>Some m\<close> for 0 and \<open>*message = m\<close>.\<close>

definition skynet_mq_pop :: "message_queue \<Rightarrow> (skynet_message option \<times> message_queue) res" where
  "skynet_mq_pop q =
     (if mq_head q \<noteq> mq_tail q then
        if mq_head q < length (mq_queue q) then
          (case mq_queue q ! mq_head q of
             None \<Rightarrow> Err Uninit_read
           | Some message \<Rightarrow>
               let head = (if mq_head q + 1 \<ge> mq_cap q then 0 else mq_head q + 1);
                   length = (if head \<le> mq_tail q then mq_tail q - head else mq_tail q + mq_cap q - head)
               in (case overload_loop length (mq_overload q) (mq_overload_threshold q) of
                     None \<Rightarrow> Err Diverge
                   | Some (ov, thr) \<Rightarrow>
                       Ok (Some message,
                           q\<lparr>mq_head := head, mq_overload := ov, mq_overload_threshold := thr\<rparr>)))
        else Err Out_of_bounds
      else Ok (None, q\<lparr>mq_overload_threshold := MQ_OVERLOAD, mq_in_global := 0\<rparr>))"

definition expand_queue :: "message_queue \<Rightarrow> message_queue" where
  "expand_queue q =
     q\<lparr>mq_queue := map (\<lambda>i. mq_queue q ! ((mq_head q + i) mod mq_cap q)) [0..<mq_cap q]
                     @ replicate (mq_cap q) None,
       mq_head := 0, mq_tail := mq_cap q, mq_cap := mq_cap q * 2\<rparr>"

text \<open>The array part of \<open>skynet_mq_push\<close>: store the message, advance the tail, grow when full.\<close>

definition mq_store :: "skynet_message \<Rightarrow> message_queue \<Rightarrow> message_queue res" where
  "mq_store message q =
     (if mq_tail q < length (mq_queue q) then
        let q1 = q\<lparr>mq_queue := (mq_queue q)[mq_tail q := Some message],
                   mq_tail := (if mq_tail q + 1 \<ge> mq_cap q then 0 else mq_tail q + 1)\<rparr>
        in Ok (if mq_head q1 = mq_tail q1 then expand_queue q1 else q1)
      else Err Out_of_bounds)"

definition skynet_mq_push :: "qptr \<Rightarrow> skynet_message \<Rightarrow> mq_world \<Rightarrow> mq_world res" where
  "skynet_mq_push p message w =
     res_bind (mq_get w p) (\<lambda>q.
     res_bind (mq_store message q) (\<lambda>q1.
       if mq_in_global q1 = 0
       then skynet_globalmq_push p (mq_set w p (q1\<lparr>mq_in_global := MQ_IN_GLOBAL\<rparr>))
       else Ok (mq_set w p q1)))"

definition skynet_mq_mark_release :: "qptr \<Rightarrow> mq_world \<Rightarrow> mq_world res" where
  "skynet_mq_mark_release p w =
     res_bind (mq_get w p) (\<lambda>q.
     res_bind (res_assert (\<not> mq_release q)) (\<lambda>_.
       let w1 = mq_set w p (q\<lparr>mq_release := True\<rparr>) in
       if mq_in_global q \<noteq> MQ_IN_GLOBAL then skynet_globalmq_push p w1 else Ok w1))"

text \<open>\<open>_release\<close> frees the queue.\<close>

definition mq_free :: "qptr \<Rightarrow> mq_world \<Rightarrow> mq_world res" where
  "mq_free p w =
     res_bind (mq_get w p) (\<lambda>q.
     res_bind (res_assert (mq_next q = None)) (\<lambda>_. Ok (w\<lparr>mq_heap := (mq_heap w)(p := None)\<rparr>)))"

text \<open>The loop of \<open>_drop_queue\<close>; \<open>drop_func\<close> is the callback the caller passes. \<open>None\<close>: the
  loop does not end.\<close>

partial_function (option) drop_loop ::
    "(skynet_message \<Rightarrow> mq_world \<Rightarrow> mq_world res) \<Rightarrow> qptr \<Rightarrow> mq_world \<Rightarrow> mq_world res option" where
  "drop_loop drop_func p w =
     (case res_bind (mq_get w p) skynet_mq_pop of
        Err e \<Rightarrow> Some (Err e)
      | Ok (r, q) \<Rightarrow>
          (case r of
             None \<Rightarrow> Some (Ok (mq_set w p q))
           | Some msg \<Rightarrow>
               (case drop_func msg (mq_set w p q) of
                  Err e \<Rightarrow> Some (Err e)
                | Ok w' \<Rightarrow> drop_loop drop_func p w')))"

definition drop_queue ::
    "(skynet_message \<Rightarrow> mq_world \<Rightarrow> mq_world res) \<Rightarrow> qptr \<Rightarrow> mq_world \<Rightarrow> mq_world res" where
  "drop_queue drop_func p w =
     (case drop_loop drop_func p w of None \<Rightarrow> Err Diverge | Some r \<Rightarrow> res_bind r (mq_free p))"

definition skynet_mq_release ::
    "(skynet_message \<Rightarrow> mq_world \<Rightarrow> mq_world res) \<Rightarrow> qptr \<Rightarrow> mq_world \<Rightarrow> mq_world res" where
  "skynet_mq_release drop_func p w =
     res_bind (mq_get w p) (\<lambda>q.
       if mq_release q then drop_queue drop_func p w else skynet_globalmq_push p w)"

section \<open>A service queue is a FIFO queue\<close>

definition mq_inv :: "message_queue \<Rightarrow> bool" where
  "mq_inv q \<longleftrightarrow>
     mq_cap q = length (mq_queue q) \<and> mq_head q < mq_cap q \<and> mq_tail q < mq_cap q \<and>
     0 < mq_overload_threshold q \<and>
     (\<forall>c \<in> set (ring_list (mq_queue q) (mq_head q) (ring_len (mq_cap q) (mq_head q) (mq_tail q))). c \<noteq> None)"

definition mq_items :: "message_queue \<Rightarrow> skynet_message list" where
  "mq_items q =
     map the (ring_list (mq_queue q) (mq_head q) (ring_len (mq_cap q) (mq_head q) (mq_tail q)))"

lemma skynet_mq_length_ring: "skynet_mq_length q = ring_len (mq_cap q) (mq_head q) (mq_tail q)"
  by (simp add: skynet_mq_length_def ring_len_def)

lemma mq_inv_create [simp]: "mq_inv (skynet_mq_create h)"
  by (simp add: mq_inv_def skynet_mq_create_def DEFAULT_QUEUE_SIZE_def MQ_OVERLOAD_def ring_len_def)

lemma mq_items_create [simp]: "mq_items (skynet_mq_create h) = []"
  by (simp add: mq_items_def skynet_mq_create_def ring_len_def)

text \<open>The overload loop ends for a positive threshold; it doubles the threshold until the length
  fits, and records the length when it had to.\<close>

lemma overload_loop_returns:
  assumes "0 < thr"
  shows "\<exists>k. overload_loop len ov thr = Some (if len > thr then len else ov, thr * 2 ^ k) \<and> len \<le> thr * 2 ^ k \<and>
    (\<forall>j < k. thr * 2 ^ j < len)"
  using assms
proof (induction "len - thr" arbitrary: ov thr rule: less_induct)
  case less
  show ?case
  proof (cases "len > thr")
    case True
    have smaller: "len - thr * 2 < len - thr" and pos: "0 < thr * 2" using True less.prems by auto
    obtain k where k: "overload_loop len len (thr * 2) = Some (len, thr * 2 * 2 ^ k)"
        "len \<le> thr * 2 * 2 ^ k" "\<forall>j < k. thr * 2 * 2 ^ j < len"
      using less.hyps [OF smaller pos, of len] by auto
    have min: "\<forall>j < Suc k. thr * 2 ^ j < len"
    proof (intro allI impI)
      fix j assume "j < Suc k"
      then show "thr * 2 ^ j < len" using True k(3) by (cases j) (simp_all add: mult.assoc)
    qed
    have "overload_loop len ov thr = Some (len, thr * 2 ^ Suc k)"
      using True k(1) by (subst overload_loop.simps) (simp add: mult.assoc)
    with True k(2) min show ?thesis by (intro exI [of _ "Suc k"]) (simp add: mult.assoc)
  next
    case False
    then show ?thesis by (intro exI [of _ 0]) (simp add: overload_loop.simps)
  qed
qed

lemma mq_store_ok:
  assumes inv: "mq_inv q"
  shows "\<exists>q'. mq_store m q = Ok q' \<and> mq_inv q' \<and> mq_items q' = mq_items q @ [m] \<and>
    mq_in_global q' = mq_in_global q \<and> mq_release q' = mq_release q \<and> mq_next q' = mq_next q \<and>
    mq_handle q' = mq_handle q"
proof -
  let ?c = "mq_cap q" and ?h = "mq_head q" and ?t = "mq_tail q" and ?b = "mq_queue q"
  let ?n = "ring_len ?c ?h ?t"
  define q1 where "q1 = q\<lparr>mq_queue := ?b[?t := Some m], mq_tail := Suc ?t mod ?c\<rparr>"
  have len: "length ?b = ?c" "?h < ?c" "?t < ?c" "0 < mq_overload_threshold q"
    and live: "\<forall>c \<in> set (ring_list ?b ?h ?n). c \<noteq> None"
    using inv by (auto simp: mq_inv_def)
  have store: "mq_store m q = Ok (if ?h = Suc ?t mod ?c then expand_queue q1 else q1)"
    unfolding mq_store_def Let_def wrap_Suc [OF len(3)] q1_def using len by simp
  have ring: "ring_list (?b[?t := Some m]) ?h (Suc ?n) = ring_list ?b ?h ?n @ [Some m]"
    using ring_list_snoc [of ?n ?b ?h "Some m"] ring_len_less ring_len_tail len by simp
  have wrap: "Suc ?t mod ?c < ?c"
    using len(3) by (intro mod_less_divisor) linarith
  show ?thesis
  proof (cases "Suc ?t mod ?c = ?h")
    case False
    have n: "ring_len ?c ?h (Suc ?t mod ?c) = Suc ?n"
      using ring_len_push [OF len(2,3) False] .
    have "mq_inv q1" "mq_items q1 = mq_items q @ [m]"
      using len live ring n wrap by (auto simp: mq_inv_def mq_items_def q1_def)
    with False store show ?thesis by (auto simp: q1_def)
  next
    case True
    have n: "Suc ?n = ?c" using ring_len_full [OF len(2,3) True] .
    let ?new = "map (\<lambda>i. ?b[?t := Some m] ! ((?h + i) mod ?c)) [0..<?c]"
    have new: "?new = ring_list ?b ?h ?n @ [Some m]"
      using ring n len(1) by (simp add: ring_list_def)
    have unroll: "ring_list (?new @ replicate ?c None) 0 ?c = ?new"
      by (rule ring_list_unroll) simp_all
    define q2 where "q2 = expand_queue q1"
    have q2: "mq_queue q2 = ?new @ replicate ?c None" "mq_head q2 = 0" "mq_tail q2 = ?c"
        "mq_cap q2 = ?c * 2" "mq_overload_threshold q2 = mq_overload_threshold q"
        "mq_in_global q2 = mq_in_global q" "mq_release q2 = mq_release q" "mq_next q2 = mq_next q"
        "mq_handle q2 = mq_handle q"
      by (simp_all add: q2_def expand_queue_def q1_def)
    have n2: "ring_len (?c * 2) 0 ?c = ?c" by (simp add: ring_len_def)
    have "mq_inv q2" "mq_items q2 = mq_items q @ [m]"
      unfolding mq_inv_def mq_items_def q2 n2 unroll using len live n by (auto simp: new)
    with True store q2 show ?thesis by (auto simp: q2_def)
  qed
qed

lemma mq_pop_empty:
  assumes "mq_inv q" and "mq_items q = []"
  shows "skynet_mq_pop q = Ok (None, q\<lparr>mq_overload_threshold := MQ_OVERLOAD, mq_in_global := 0\<rparr>)"
proof -
  have "length (mq_items q) = 0" using assms(2) by simp
  then have "mq_head q = mq_tail q"
    using assms(1) by (simp add: mq_items_def mq_inv_def)
  then show ?thesis by (simp add: skynet_mq_pop_def)
qed

lemma mq_pop_cons:
  assumes inv: "mq_inv q" and items: "mq_items q = m # ms"
  shows "\<exists>q'. skynet_mq_pop q = Ok (Some m, q') \<and> mq_inv q' \<and> mq_items q' = ms \<and>
    mq_in_global q' = mq_in_global q \<and> mq_release q' = mq_release q \<and> mq_next q' = mq_next q \<and>
    mq_handle q' = mq_handle q \<and>
    mq_overload q' = (if length ms > mq_overload_threshold q then length ms else mq_overload q) \<and>
    length ms \<le> mq_overload_threshold q'"
proof -
  let ?c = "mq_cap q" and ?h = "mq_head q" and ?t = "mq_tail q" and ?b = "mq_queue q"
  let ?h' = "Suc ?h mod ?c"
  have len: "length ?b = ?c" "?h < ?c" "?t < ?c" "0 < mq_overload_threshold q"
    using inv by (auto simp: mq_inv_def)
  have "length (mq_items q) \<noteq> 0" using items by simp
  then have ne: "?h \<noteq> ?t" using len by (auto simp: mq_items_def)
  have n: "ring_len ?c ?h ?t = Suc (ring_len ?c ?h' ?t)" using ring_len_pop [OF len(2,3) ne] .
  have ring: "ring_list ?b ?h (ring_len ?c ?h ?t) = ?b ! ?h # ring_list ?b ?h' (ring_len ?c ?h' ?t)"
    using ring_list_front [of ?h ?b] len n by simp
  have cells: "?b ! ?h \<noteq> None" "\<forall>c \<in> set (ring_list ?b ?h' (ring_len ?c ?h' ?t)). c \<noteq> None"
    using inv ring by (auto simp: mq_inv_def)
  have m: "?b ! ?h = Some m" and ms: "ms = map the (ring_list ?b ?h' (ring_len ?c ?h' ?t))"
    using items cells(1) by (auto simp: mq_items_def ring)
  have lms: "length ms = ring_len ?c ?h' ?t" by (simp add: ms)
  obtain k where loop: "overload_loop (length ms) (mq_overload q) (mq_overload_threshold q) =
      Some (if length ms > mq_overload_threshold q then length ms else mq_overload q,
            mq_overload_threshold q * 2 ^ k)"
      "length ms \<le> mq_overload_threshold q * 2 ^ k"
    using overload_loop_returns [OF len(4)] by blast
  have loop': "overload_loop (if ?h' \<le> ?t then ?t - ?h' else ?t + ?c - ?h') (mq_overload q)
      (mq_overload_threshold q) = Some (if length ms > mq_overload_threshold q then length ms else mq_overload q,
            mq_overload_threshold q * 2 ^ k)"
    using loop(1) unfolding lms by (simp add: ring_len_def)
  have "skynet_mq_pop q = Ok (Some m, q\<lparr>mq_head := ?h',
      mq_overload := (if length ms > mq_overload_threshold q then length ms else mq_overload q),
      mq_overload_threshold := mq_overload_threshold q * 2 ^ k\<rparr>)"
    using ne len m loop' by (simp only: skynet_mq_pop_def wrap_Suc Let_def) simp
  moreover have "?h' < ?c" using len(2) by (intro mod_less_divisor) linarith
  ultimately show ?thesis
    using len cells(2) loop(2) by (auto simp: mq_inv_def mq_items_def ms)
qed

interpretation mq: fifo mq_inv mq_items mq_store skynet_mq_pop
proof unfold_locales
  fix q :: message_queue and x
  show "mq_inv q \<Longrightarrow> \<exists>q'. mq_store x q = Ok q' \<and> mq_inv q' \<and> mq_items q' = mq_items q @ [x]"
    using mq_store_ok by blast
next
  fix q :: message_queue
  assume "mq_inv q" "mq_items q = []"
  then show "\<exists>q'. skynet_mq_pop q = Ok (None, q') \<and> mq_inv q' \<and> mq_items q' = []"
    by (simp add: mq_pop_empty) (simp add: mq_inv_def mq_items_def MQ_OVERLOAD_def)
next
  fix q :: message_queue and x xs
  show "mq_inv q \<Longrightarrow> mq_items q = x # xs \<Longrightarrow>
      \<exists>q'. skynet_mq_pop q = Ok (Some x, q') \<and> mq_inv q' \<and> mq_items q' = xs"
    using mq_pop_cons by blast
qed

text \<open>C15: A service queue is a FIFO queue whatever the interleaving of pushes and pops: from the queue
  \<open>skynet_mq_create\<close> makes, every sequence of operations succeeds (no unwritten cell is read, no index
  leaves the array, growing included), and the messages popped, followed by those still queued, are
  the messages pushed, in order.\<close>

theorem mq_run_fifo:
  "\<exists>out q'. fifo_run mq_store skynet_mq_pop ops (skynet_mq_create h) = Ok (out, q') \<and>
     out @ mq_items q' = pushed ops \<and> skynet_mq_length q' = length (mq_items q')"
proof -
  obtain out q' where "fifo_run mq_store skynet_mq_pop ops (skynet_mq_create h) = Ok (out, q')"
      "out @ mq_items q' = pushed ops"
    using mq.run_fifo [OF mq_inv_create, of ops h] by auto
  moreover have "skynet_mq_length q' = length (mq_items q')"
    by (simp add: skynet_mq_length_ring mq_items_def)
  ultimately show ?thesis by blast
qed

text \<open>The overload report: a pop that leaves more messages than the threshold records their number
  for \<open>skynet_mq_overload\<close> and doubles the threshold past it; the report is delivered once.\<close>

lemma mq_pop_overload:
  assumes "mq_inv q" and "mq_items q = m # ms" and "mq_overload_threshold q < length ms"
  shows "\<exists>q'. skynet_mq_pop q = Ok (Some m, q') \<and> length ms \<le> mq_overload_threshold q' \<and>
    fst (skynet_mq_overload q') = length ms \<and>
    fst (skynet_mq_overload (snd (skynet_mq_overload q'))) = 0"
proof -
  obtain q' where "skynet_mq_pop q = Ok (Some m, q')" "mq_overload q' = length ms"
      "length ms \<le> mq_overload_threshold q'"
    using mq_pop_cons [OF assms(1,2)] assms(3) by auto
  then show ?thesis by (auto simp: skynet_mq_overload_def)
qed

text \<open>A queue of three messages with a threshold of 1.\<close>

definition mq_busy :: message_queue where
  "mq_busy = (let m = \<lparr>msg_source = 1, msg_session = 2, msg_data = None, msg_sz = 0\<rparr> in
     (skynet_mq_create 9)\<lparr>mq_queue := [Some m, Some m, Some m, None], mq_cap := 4, mq_tail := 3,
       mq_overload_threshold := 1\<rparr>)"

lemma mq_pop_overload_witness:
  "mq_inv mq_busy \<and> (\<exists>m q'. skynet_mq_pop mq_busy = Ok (Some m, q') \<and> fst (skynet_mq_overload q') = 2)"
proof -
  let ?m = "\<lparr>msg_source = 1, msg_session = 2, msg_data = None, msg_sz = 0\<rparr> :: skynet_message"
  have ring: "ring_list (mq_queue mq_busy) (mq_head mq_busy) (ring_len (mq_cap mq_busy) (mq_head mq_busy) (mq_tail mq_busy)) =
      [Some ?m, Some ?m, Some ?m]"
    by (simp add: mq_busy_def skynet_mq_create_def ring_len_def ring_list_def upt_rec Let_def)
  have i: "mq_inv mq_busy" unfolding mq_inv_def ring by (simp add: mq_busy_def skynet_mq_create_def Let_def)
  have "mq_items mq_busy = ?m # [?m, ?m]" unfolding mq_items_def ring by simp
  from mq_pop_overload [OF i this] have "\<exists>q'. skynet_mq_pop mq_busy = Ok (Some ?m, q') \<and> fst (skynet_mq_overload q') = 2"
    by (auto simp: mq_busy_def skynet_mq_create_def Let_def)
  with i show ?thesis by blast
qed

section \<open>The global queue is a linked FIFO queue of service queues\<close>

fun gq_chain :: "(qptr \<Rightarrow> message_queue option) \<Rightarrow> qptr option \<Rightarrow> qptr list \<Rightarrow> bool" where
  "gq_chain h start [] \<longleftrightarrow> start = None"
| "gq_chain h start (p # ps) \<longleftrightarrow>
     start = Some p \<and> (case h p of None \<Rightarrow> False | Some q \<Rightarrow> gq_chain h (mq_next q) ps)"

text \<open>\<open>gq_inv w ps\<close>: the global queue of \<open>w\<close> holds exactly the queues \<open>ps\<close>, in that order;
  queues outside it are not linked.\<close>

definition gq_inv :: "mq_world \<Rightarrow> qptr list \<Rightarrow> bool" where
  "gq_inv w ps \<longleftrightarrow>
     gq_chain (mq_heap w) (gq_head w) ps \<and> distinct ps \<and>
     gq_tail w = (if ps = [] then None else Some (last ps)) \<and>
     (\<forall>p q. p \<notin> set ps \<longrightarrow> mq_heap w p = Some q \<longrightarrow> mq_next q = None)"

text \<open>The operations on the global queue change links only.\<close>

definition unlinked :: "message_queue \<Rightarrow> message_queue" where
  "unlinked q = q\<lparr>mq_next := None\<rparr>"

definition same_but_links :: "mq_world \<Rightarrow> mq_world \<Rightarrow> bool" where
  "same_but_links w w' \<longleftrightarrow> (\<forall>x. map_option unlinked (mq_heap w' x) = map_option unlinked (mq_heap w x))"

lemma unlinked_upd [simp]: "unlinked (q\<lparr>mq_next := n\<rparr>) = unlinked q"
  by (simp add: unlinked_def)

lemma unlinked_eqD:
  assumes "unlinked q' = unlinked q"
  shows "mq_release q' = mq_release q \<and> mq_in_global q' = mq_in_global q \<and> mq_handle q' = mq_handle q \<and>
    mq_inv q' = mq_inv q \<and> mq_items q' = mq_items q"
  using assms by (cases q; cases q') (simp add: unlinked_def mq_inv_def mq_items_def)

lemma same_but_links_Some:
  assumes "same_but_links w w'" and "mq_heap w' p = Some q'"
  obtains q where "mq_heap w p = Some q" "unlinked q' = unlinked q"
proof -
  have "map_option unlinked (mq_heap w p) = Some (unlinked q')"
    using assms unfolding same_but_links_def by (metis option.simps(9))
  then show ?thesis using that by fastforce
qed

lemma same_but_links_dom: "same_but_links w w' \<Longrightarrow> mq_heap w' p = None \<longleftrightarrow> mq_heap w p = None"
  by (metis same_but_links_def map_option_is_None)

lemma gq_chain_in_heap: "gq_chain h s ps \<Longrightarrow> p \<in> set ps \<Longrightarrow> h p \<noteq> None"
  by (induction h s ps rule: gq_chain.induct) (auto split: option.splits)

lemma gq_chain_cong:
  "(\<And>p. p \<in> set ps \<Longrightarrow> map_option mq_next (h' p) = map_option mq_next (h p)) \<Longrightarrow>
   gq_chain h' s ps = gq_chain h s ps"
proof (induction ps arbitrary: s)
  case Nil
  show ?case by simp
next
  case (Cons p ps)
  have "map_option mq_next (h' p) = map_option mq_next (h p)" using Cons.prems by simp
  moreover have "gq_chain h' s' ps = gq_chain h s' ps" for s'
    by (rule Cons.IH) (use Cons.prems in simp)
  ultimately show ?case by (cases "h p"; cases "h' p") simp_all
qed

lemma gq_chain_upd [simp]: "p \<notin> set ps \<Longrightarrow> gq_chain (h(p := x)) s ps = gq_chain h s ps"
  by (rule gq_chain_cong) auto

lemma gq_chain_snoc:
  assumes "gq_chain h s ps" "ps \<noteq> []" "distinct ps" "p \<notin> set ps" "h p = Some q" "mq_next q = None"
    and "h (last ps) = Some tq"
  shows "gq_chain (h(last ps \<mapsto> tq\<lparr>mq_next := Some p\<rparr>)) s (ps @ [p])"
  using assms
proof (induction ps arbitrary: s)
  case Nil
  then show ?case by simp
next
  case (Cons a ps)
  show ?case
  proof (cases "ps = []")
    case True
    with Cons.prems show ?thesis by auto
  next
    case False
    obtain aq where aq: "h a = Some aq" "gq_chain h (mq_next aq) ps"
      using Cons.prems(1) by (auto split: option.splits)
    define h' where "h' = h(last ps \<mapsto> tq\<lparr>mq_next := Some p\<rparr>)"
    have "gq_chain h' (mq_next aq) (ps @ [p])"
      unfolding h'_def using Cons.prems False by (intro Cons.IH [OF aq(2) False]) simp_all
    moreover have "h' a = Some aq" using Cons.prems(3) False aq(1) by (auto simp: h'_def)
    moreover have "h(last (a # ps) \<mapsto> tq\<lparr>mq_next := Some p\<rparr>) = h'" using False by (simp add: h'_def)
    ultimately show ?thesis using Cons.prems(1) by (simp only: append_Cons gq_chain.simps) simp
  qed
qed

lemma globalmq_push_ok:
  assumes inv: "gq_inv w ps" and p: "p \<notin> set ps" and q: "mq_heap w p = Some q"
  shows "\<exists>w'. skynet_globalmq_push p w = Ok w' \<and> gq_inv w' (ps @ [p]) \<and>
    same_but_links w w'"
proof (cases "ps = []")
  case True
  with inv q show ?thesis
    by (auto simp: skynet_globalmq_push_def mq_get_def gq_inv_def same_but_links_def)
next
  case False
  have next_q: "mq_next q = None" using inv p q by (auto simp: gq_inv_def)
  have "mq_heap w (last ps) \<noteq> None"
    using inv False gq_chain_in_heap by (fastforce simp: gq_inv_def)
  then obtain tq where tq: "mq_heap w (last ps) = Some tq" by auto
  define w' where "w' = (mq_set w (last ps) (tq\<lparr>mq_next := Some p\<rparr>))\<lparr>gq_tail := Some p\<rparr>"
  have "skynet_globalmq_push p w = Ok w'"
    using inv False q next_q tq by (simp add: skynet_globalmq_push_def mq_get_def gq_inv_def w'_def)
  moreover have "gq_inv w' (ps @ [p])"
    using inv False p q next_q tq gq_chain_snoc [OF _ False _ p q next_q tq]
    by (auto simp: gq_inv_def w'_def mq_set_def)
  moreover have "same_but_links w w'"
    using tq by (simp add: same_but_links_def w'_def mq_set_def)
  ultimately show ?thesis by blast
qed

lemma globalmq_pop_empty: "gq_inv w [] \<Longrightarrow> skynet_globalmq_pop w = Ok (None, w)"
  by (simp add: skynet_globalmq_pop_def gq_inv_def)

lemma globalmq_pop_cons:
  assumes inv: "gq_inv w (p # ps)"
  shows "\<exists>w'. skynet_globalmq_pop w = Ok (Some p, w') \<and> gq_inv w' ps \<and>
    same_but_links w w'"
proof -
  obtain q where q: "mq_heap w p = Some q" "gq_chain (mq_heap w) (mq_next q) ps"
    using inv by (auto simp: gq_inv_def split: option.splits)
  have ps: "ps = [] \<longleftrightarrow> mq_next q = None" using q(2) by (cases ps) auto
  define w' where "w' = mq_set (if ps = [] then w\<lparr>gq_head := mq_next q, gq_tail := None\<rparr>
      else w\<lparr>gq_head := mq_next q\<rparr>) p (q\<lparr>mq_next := None\<rparr>)"
  have "skynet_globalmq_pop w = Ok (Some p, w')"
    using inv q ps by (auto simp: skynet_globalmq_pop_def mq_get_def gq_inv_def w'_def Let_def)
  moreover have "gq_inv w' ps"
    using inv q by (auto simp: gq_inv_def w'_def mq_set_def)
  moreover have "same_but_links w w'"
    using q by (simp add: same_but_links_def w'_def mq_set_def)
  ultimately show ?thesis by blast
qed

text \<open>Writing a queue back without touching its link keeps the global queue.\<close>

lemma gq_inv_set:
  assumes "gq_inv w ps" and "mq_heap w p = Some q" and "mq_next q' = mq_next q"
  shows "gq_inv (mq_set w p q') ps"
proof -
  have "gq_chain ((mq_heap w)(p \<mapsto> q')) (gq_head w) ps = gq_chain (mq_heap w) (gq_head w) ps"
    by (rule gq_chain_cong) (use assms in auto)
  with assms show ?thesis by (auto simp: gq_inv_def mq_set_def)
qed

end
