(* ===== verification/Skynet_Sched.thy ===== *)
theory Skynet_Sched
  imports Skynet_MQ
begin

text \<open>
  The protocol by which threads pass service queues around: \<open>skynet_context_new\<close> creates a
  queue and pushes it to the global queue, a worker takes one (\<open>skynet_globalmq_pop\<close>), pops
  messages from it, and gives it back or leaves it when it is empty; senders push messages at any
  time; \<open>delete_context\<close> marks it for release and the next worker that finds no context releases
  it. The threads interleave at the granularity of the locked regions. A rule of the step relation is for an operation
  that returns; that none of them fails, \<open>mq_free\<close> among them, is shown for the threads of \<open>Skynet_Life\<close>, whose steps refine these.
\<close>

text \<open>\<open>holds t\<close> is the queue that thread \<open>t\<close> has in hand (its local variable \<open>q\<close>).\<close>

record sched =
  world :: mq_world
  holds :: "nat \<Rightarrow> qptr option"

definition sched_init :: sched where
  "sched_init = \<lparr>world = skynet_mq_init, holds = (\<lambda>_. None)\<rparr>"

text \<open>
  One rule per locked region. \<open>put_back\<close> is the push of \<open>skynet_context_new\<close>, of
  \<open>skynet_context_message_dispatch\<close> and of \<open>skynet_mq_release\<close>; \<open>pop_message\<close> is a pop by
  the dispatcher or by \<open>_drop_queue\<close>; \<open>free_queue\<close> is the end of \<open>_drop_queue\<close>, \<open>report\<close> the read of the
  overload counter by the dispatcher. A thread that
  pushes a message, or a dispatcher that finds the queue empty, has grabbed the owning context, so
  \<open>delete_context\<close> has not marked the queue yet (\<open>\<not> mq_release\<close>).
\<close>

inductive sched_step :: "sched \<Rightarrow> sched \<Rightarrow> bool" where
  create: "mq_heap (world s) p = None \<Longrightarrow> holds s t = None \<Longrightarrow>
    sched_step s (s\<lparr>world := mq_set (world s) p (skynet_mq_create h), holds := (holds s)(t \<mapsto> p)\<rparr>)"
| put_back: "holds s t = Some p \<Longrightarrow> skynet_globalmq_push p (world s) = Ok w \<Longrightarrow>
    sched_step s (s\<lparr>world := w, holds := (holds s)(t := None)\<rparr>)"
| take: "holds s t = None \<Longrightarrow> skynet_globalmq_pop (world s) = Ok (Some p, w) \<Longrightarrow>
    sched_step s (s\<lparr>world := w, holds := (holds s)(t \<mapsto> p)\<rparr>)"
| pop_message: "holds s t = Some p \<Longrightarrow> mq_heap (world s) p = Some q \<Longrightarrow>
    skynet_mq_pop q = Ok (Some m, q') \<Longrightarrow> sched_step s (s\<lparr>world := mq_set (world s) p q'\<rparr>)"
| leave_empty: "holds s t = Some p \<Longrightarrow> mq_heap (world s) p = Some q \<Longrightarrow> \<not> mq_release q \<Longrightarrow>
    skynet_mq_pop q = Ok (None, q') \<Longrightarrow>
    sched_step s (s\<lparr>world := mq_set (world s) p q', holds := (holds s)(t := None)\<rparr>)"
| send: "mq_heap (world s) p = Some q \<Longrightarrow> \<not> mq_release q \<Longrightarrow> skynet_mq_push p m (world s) = Ok w \<Longrightarrow>
    sched_step s (s\<lparr>world := w\<rparr>)"
| mark: "mq_heap (world s) p = Some q \<Longrightarrow> skynet_mq_mark_release p (world s) = Ok w \<Longrightarrow>
    sched_step s (s\<lparr>world := w\<rparr>)"
| free_queue: "holds s t = Some p \<Longrightarrow> mq_heap (world s) p = Some q \<Longrightarrow> mq_release q \<Longrightarrow>
    skynet_mq_pop q = Ok (None, q') \<Longrightarrow> mq_free p (mq_set (world s) p q') = Ok w \<Longrightarrow>
    sched_step s (s\<lparr>world := w, holds := (holds s)(t := None)\<rparr>)"
| report: "holds s t = Some p \<Longrightarrow> mq_heap (world s) p = Some q \<Longrightarrow>
    sched_step s (s\<lparr>world := mq_set (world s) p (snd (skynet_mq_overload q))\<rparr>)"

inductive sched_reachable :: "sched \<Rightarrow> bool" where
  start: "sched_reachable sched_init"
| step: "sched_reachable s \<Longrightarrow> sched_step s s' \<Longrightarrow> sched_reachable s'"

text \<open>
  Who has a queue: \<open>owned s ps p\<close> when it is linked in the global queue \<open>ps\<close> or in the hand of
  a thread. The invariant ties this to the flag \<open>in_global\<close>: an unreleased queue has an owner
  exactly when the flag is set, a released one always has, and no queue has two.
\<close>

definition owned :: "sched \<Rightarrow> qptr list \<Rightarrow> qptr \<Rightarrow> bool" where
  "owned s ps p \<longleftrightarrow> p \<in> set ps \<or> (\<exists>t. holds s t = Some p)"

definition sched_inv :: "sched \<Rightarrow> qptr list \<Rightarrow> bool" where
  "sched_inv s ps \<longleftrightarrow>
     gq_inv (world s) ps \<and>
     (\<forall>t p. holds s t = Some p \<longrightarrow> p \<notin> set ps \<and> mq_heap (world s) p \<noteq> None) \<and>
     (\<forall>t t' p. holds s t = Some p \<longrightarrow> holds s t' = Some p \<longrightarrow> t = t') \<and>
     (\<forall>p q. mq_heap (world s) p = Some q \<longrightarrow>
        mq_inv q \<and> mq_in_global q \<le> MQ_IN_GLOBAL \<and> (mq_in_global q = 0 \<longrightarrow> mq_items q = []) \<and>
        owned s ps p = (mq_release q \<or> mq_in_global q = MQ_IN_GLOBAL))"

lemma sched_inv_init: "sched_inv sched_init []"
  by (simp add: sched_inv_def sched_init_def skynet_mq_init_def gq_inv_def)

text \<open>Every step is an update of at most one queue \<open>p\<close> and of links; all other queues keep their
  owner.\<close>

definition same_off :: "qptr \<Rightarrow> mq_world \<Rightarrow> mq_world \<Rightarrow> bool" where
  "same_off p w w' \<longleftrightarrow>
     (\<forall>x. x \<noteq> p \<longrightarrow>
        map_option unlinked (mq_heap w' x) = map_option unlinked (mq_heap w x))"

lemma same_off_Some:
  assumes "same_off p w w'" and "x \<noteq> p" and "mq_heap w' x = Some q'"
  obtains q where "mq_heap w x = Some q" "unlinked q' = unlinked q"
proof -
  have "map_option unlinked (mq_heap w x) = Some (unlinked q')"
    using assms unfolding same_off_def by (metis option.simps(9))
  then show ?thesis using that by fastforce
qed

lemma sched_inv_update:
  assumes inv: "sched_inv s ps" and gq: "gq_inv w ps'" and off: "same_off p (world s) w"
    and q': "\<And>q'. mq_heap w p = Some q' \<Longrightarrow> mq_inv q' \<and> mq_in_global q' \<le> MQ_IN_GLOBAL \<and> (mq_in_global q' = 0 \<longrightarrow> mq_items q' = []) \<and>
      owned \<lparr>world = w, holds = h\<rparr> ps' p = (mq_release q' \<or> mq_in_global q' = MQ_IN_GLOBAL)"
    and held: "\<And>t x. h t = Some x \<Longrightarrow> x \<notin> set ps' \<and> mq_heap w x \<noteq> None"
    and inj: "\<And>t t' x. h t = Some x \<Longrightarrow> h t' = Some x \<Longrightarrow> t = t'"
    and own: "\<And>x. x \<noteq> p \<Longrightarrow> owned \<lparr>world = w, holds = h\<rparr> ps' x = owned s ps x"
  shows "sched_inv \<lparr>world = w, holds = h\<rparr> ps'"
proof -
  have "mq_inv r \<and> mq_in_global r \<le> MQ_IN_GLOBAL \<and> (mq_in_global r = 0 \<longrightarrow> mq_items r = []) \<and>
      owned \<lparr>world = w, holds = h\<rparr> ps' x = (mq_release r \<or> mq_in_global r = MQ_IN_GLOBAL)"
    if x: "mq_heap w x = Some r" for x r
  proof (cases "x = p")
    case True
    with q' x show ?thesis by simp
  next
    case False
    from same_off_Some [OF off False x] obtain q where q: "mq_heap (world s) x = Some q" "unlinked r = unlinked q" .
    show ?thesis
      using inv q(1) own [OF False] unlinked_eqD [OF q(2)] by (simp add: sched_inv_def)
  qed
  with gq held inj show ?thesis by (simp add: sched_inv_def)
qed

lemma same_off_set: "same_off p w (mq_set w p q)"
  by (simp add: same_off_def mq_set_def)

lemma same_off_links: "same_but_links w w' \<Longrightarrow> same_off p w w'"
  by (simp add: same_off_def same_but_links_def)

lemma same_off_trans: "same_off p w w' \<Longrightarrow> same_off p w' w'' \<Longrightarrow> same_off p w w''"
  by (simp add: same_off_def)

lemma gq_inv_in_heap: "gq_inv w ps \<Longrightarrow> p \<in> set ps \<Longrightarrow> mq_heap w p \<noteq> None"
  using gq_chain_in_heap by (auto simp: gq_inv_def)

lemma sched_eta: "s\<lparr>world := w\<rparr> = \<lparr>world = w, holds = holds s\<rparr>"
  by (cases s) simp

lemma sched_eta2: "s\<lparr>world := w, holds := h\<rparr> = \<lparr>world = w, holds = h\<rparr>"
  by (cases s) simp

lemma gq_inv_new:
  assumes "gq_inv w ps" and "mq_heap w p = None" and "mq_next q = None"
  shows "gq_inv (mq_set w p q) ps"
proof -
  have "p \<notin> set ps" using assms gq_inv_in_heap by blast
  with assms show ?thesis by (auto simp: gq_inv_def mq_set_def)
qed

lemma gq_inv_free:
  assumes "gq_inv w ps" and "p \<notin> set ps"
  shows "gq_inv (w\<lparr>mq_heap := (mq_heap w)(p := None)\<rparr>) ps"
  using assms by (auto simp: gq_inv_def)

lemma sched_inv_gq: "sched_inv s ps \<Longrightarrow> gq_inv (world s) ps"
  by (simp add: sched_inv_def)

lemma sched_inv_held: "sched_inv s ps \<Longrightarrow> holds s t = Some p \<Longrightarrow> p \<notin> set ps"
  by (simp add: sched_inv_def)

lemma sched_inv_alive:
  assumes "sched_inv s ps" "holds s t = Some p"
  obtains q where "mq_heap (world s) p = Some q"
proof -
  have "mq_heap (world s) p \<noteq> None" using assms unfolding sched_inv_def by blast
  then show ?thesis using that by blast
qed

lemma sched_inv_inj: "sched_inv s ps \<Longrightarrow> holds s t = Some p \<Longrightarrow> holds s t' = Some p \<Longrightarrow> t = t'"
  unfolding sched_inv_def by blast

lemma sched_inv_queue:
  assumes "sched_inv s ps" "mq_heap (world s) p = Some q"
  shows "mq_inv q" "mq_in_global q \<le> MQ_IN_GLOBAL"
    "owned s ps p = (mq_release q \<or> mq_in_global q = MQ_IN_GLOBAL)"
    "mq_in_global q = 0 \<Longrightarrow> mq_items q = []"
  using assms by (simp_all add: sched_inv_def)

lemma sched_inv_fresh:
  assumes "sched_inv s ps" "mq_heap (world s) p = None"
  shows "p \<notin> set ps" "holds s t \<noteq> Some p"
  using assms gq_inv_in_heap [OF sched_inv_gq] sched_inv_alive by (blast, fastforce)

lemma sched_inv_held_not_None: "sched_inv s ps \<Longrightarrow> holds s t = Some p \<Longrightarrow> mq_heap (world s) p \<noteq> None"
  by (auto elim: sched_inv_alive)

lemma holds_take:
  assumes "holds s t = None" "x \<noteq> p"
  shows "(\<exists>t'. ((holds s)(t \<mapsto> p)) t' = Some x) \<longleftrightarrow> (\<exists>t'. holds s t' = Some x)"
  using assms by (metis fun_upd_apply option.inject option.distinct(1))

lemma sched_inv_create:
  assumes inv: "sched_inv s ps" and p: "mq_heap (world s) p = None" and t: "holds s t = None"
  shows "sched_inv \<lparr>world = mq_set (world s) p (skynet_mq_create h), holds = (holds s)(t \<mapsto> p)\<rparr> ps"
proof (rule sched_inv_update [OF inv _ same_off_set])
  show "gq_inv (mq_set (world s) p (skynet_mq_create h)) ps"
    using sched_inv_gq [OF inv] p by (rule gq_inv_new) (simp add: skynet_mq_create_def)
  fix q' assume "mq_heap (mq_set (world s) p (skynet_mq_create h)) p = Some q'"
  then have "q' = skynet_mq_create h" by (simp add: mq_set_def)
  then show "mq_inv q' \<and> mq_in_global q' \<le> MQ_IN_GLOBAL \<and> (mq_in_global q' = 0 \<longrightarrow> mq_items q' = []) \<and>
      owned \<lparr>world = mq_set (world s) p (skynet_mq_create h), holds = (holds s)(t \<mapsto> p)\<rparr> ps p =
        (mq_release q' \<or> mq_in_global q' = MQ_IN_GLOBAL)"
    by (auto simp: owned_def) (auto simp: skynet_mq_create_def MQ_IN_GLOBAL_def)
next
  fix t' x assume "((holds s)(t \<mapsto> p)) t' = Some x"
  then show "x \<notin> set ps \<and> mq_heap (mq_set (world s) p (skynet_mq_create h)) x \<noteq> None"
    using sched_inv_fresh [OF inv p] sched_inv_held [OF inv] sched_inv_held_not_None [OF inv]
    by (auto simp: mq_set_def split: if_splits)
next
  fix t1 t2 x assume "((holds s)(t \<mapsto> p)) t1 = Some x" "((holds s)(t \<mapsto> p)) t2 = Some x"
  then show "t1 = t2"
    using sched_inv_fresh [OF inv p] sched_inv_inj [OF inv] by (auto split: if_splits)
next
  fix x assume "x \<noteq> p"
  then show "owned \<lparr>world = mq_set (world s) p (skynet_mq_create h), holds = (holds s)(t \<mapsto> p)\<rparr> ps x = owned s ps x"
    using holds_take [OF t] by (simp add: owned_def)
qed

text \<open>The last four obligations are the same for every step in which thread \<open>t\<close> lets \<open>p\<close> go.\<close>

lemma holds_let_go:
  assumes "sched_inv s ps" "holds s t = Some p"
  shows "((holds s)(t := None)) t' = Some x \<Longrightarrow> x \<noteq> p"
    and "((holds s)(t := None)) t1 = Some x \<Longrightarrow> ((holds s)(t := None)) t2 = Some x \<Longrightarrow> t1 = t2"
    and "((holds s)(t := None)) t' = Some x \<Longrightarrow> holds s t' = Some x"
  using assms sched_inv_inj [OF assms(1)] by (auto split: if_splits)

lemma owned_let_go:
  assumes "holds s t = Some p" "x \<noteq> p"
  shows "(\<exists>t'. ((holds s)(t := None)) t' = Some x) \<longleftrightarrow> (\<exists>t'. holds s t' = Some x)"
  using assms by (metis fun_upd_apply option.inject option.distinct(1))

lemma sched_inv_put_back:
  assumes inv: "sched_inv s ps" and t: "holds s t = Some p"
  shows "\<exists>w. skynet_globalmq_push p (world s) = Ok w \<and> sched_inv \<lparr>world = w, holds = (holds s)(t := None)\<rparr> (ps @ [p])"
proof -
  obtain q where q: "mq_heap (world s) p = Some q" using sched_inv_alive [OF inv t] .
  obtain w where w: "skynet_globalmq_push p (world s) = Ok w" "gq_inv w (ps @ [p])" "same_but_links (world s) w"
    using globalmq_push_ok [OF sched_inv_gq [OF inv] sched_inv_held [OF inv t] q] by blast
  note go = holds_let_go [OF inv t]
  have "sched_inv \<lparr>world = w, holds = (holds s)(t := None)\<rparr> (ps @ [p])"
  proof (rule sched_inv_update [OF inv w(2) same_off_links [OF w(3)]])
    fix q' assume "mq_heap w p = Some q'"
    then have "unlinked q' = unlinked q" using same_but_links_Some [OF w(3)] q by force
    from unlinked_eqD [OF this] sched_inv_queue [OF inv q] t
    show "mq_inv q' \<and> mq_in_global q' \<le> MQ_IN_GLOBAL \<and> (mq_in_global q' = 0 \<longrightarrow> mq_items q' = []) \<and>
        owned \<lparr>world = w, holds = (holds s)(t := None)\<rparr> (ps @ [p]) p = (mq_release q' \<or> mq_in_global q' = MQ_IN_GLOBAL)"
      by (auto simp: owned_def)
  next
    fix t' x assume "((holds s)(t := None)) t' = Some x"
    from go(1,3) [OF this] show "x \<notin> set (ps @ [p]) \<and> mq_heap w x \<noteq> None"
      using sched_inv_held [OF inv] sched_inv_held_not_None [OF inv] same_but_links_dom [OF w(3)] by auto
  next
    fix x assume "x \<noteq> p"
    then show "owned \<lparr>world = w, holds = (holds s)(t := None)\<rparr> (ps @ [p]) x = owned s ps x"
      using owned_let_go [OF t] by (simp add: owned_def)
  qed (rule go(2))
  with w show ?thesis by blast
qed

lemma sched_inv_take:
  assumes inv: "sched_inv s (p # ps)" and t: "holds s t = None"
  shows "\<exists>w. skynet_globalmq_pop (world s) = Ok (Some p, w) \<and> sched_inv \<lparr>world = w, holds = (holds s)(t \<mapsto> p)\<rparr> ps"
proof -
  obtain w where w: "skynet_globalmq_pop (world s) = Ok (Some p, w)" "gq_inv w ps" "same_but_links (world s) w"
    using globalmq_pop_cons [OF sched_inv_gq [OF inv]] by blast
  have p: "p \<notin> set ps" using sched_inv_gq [OF inv] by (simp add: gq_inv_def)
  have free: "holds s t' \<noteq> Some p" for t' using sched_inv_held [OF inv] by fastforce
  have "sched_inv \<lparr>world = w, holds = (holds s)(t \<mapsto> p)\<rparr> ps"
  proof (rule sched_inv_update [OF inv w(2) same_off_links [OF w(3)]])
    fix q' assume "mq_heap w p = Some q'"
    from same_but_links_Some [OF w(3) this] obtain q where q: "mq_heap (world s) p = Some q" "unlinked q' = unlinked q" .
    have "owned \<lparr>world = w, holds = (holds s)(t \<mapsto> p)\<rparr> ps p" "owned s (p # ps) p"
      by (auto simp: owned_def intro: exI [of _ t])
    with unlinked_eqD [OF q(2)] sched_inv_queue [OF inv q(1)] show "mq_inv q' \<and> mq_in_global q' \<le> MQ_IN_GLOBAL \<and> (mq_in_global q' = 0 \<longrightarrow> mq_items q' = []) \<and>
        owned \<lparr>world = w, holds = (holds s)(t \<mapsto> p)\<rparr> ps p = (mq_release q' \<or> mq_in_global q' = MQ_IN_GLOBAL)"
      by simp
  next
    fix t' x assume x: "((holds s)(t \<mapsto> p)) t' = Some x"
    have "mq_heap (world s) p \<noteq> None" using gq_inv_in_heap [OF sched_inv_gq [OF inv]] by simp
    with x p same_but_links_dom [OF w(3)] show "x \<notin> set ps \<and> mq_heap w x \<noteq> None"
      using sched_inv_held [OF inv] sched_inv_held_not_None [OF inv] by (cases "t' = t") auto
  next
    fix t1 t2 x assume "((holds s)(t \<mapsto> p)) t1 = Some x" "((holds s)(t \<mapsto> p)) t2 = Some x"
    then show "t1 = t2" using free sched_inv_inj [OF inv] by (auto split: if_splits)
  next
    fix x assume "x \<noteq> p"
    then show "owned \<lparr>world = w, holds = (holds s)(t \<mapsto> p)\<rparr> ps x = owned s (p # ps) x"
      using holds_take [OF t] by (simp add: owned_def)
  qed
  with w show ?thesis by blast
qed

text \<open>An update of one queue in place: the holders and the global queue do not change.\<close>

lemma sched_inv_inplace:
  assumes inv: "sched_inv s ps" and q: "mq_heap (world s) p = Some q"
    and q': "mq_inv q'" "mq_in_global q' = mq_in_global q" "mq_next q' = mq_next q"
    and rel: "mq_release q' = mq_release q \<or> mq_in_global q = MQ_IN_GLOBAL"
    and items: "mq_in_global q = 0 \<Longrightarrow> mq_items q' = []"
  shows "sched_inv \<lparr>world = mq_set (world s) p q', holds = holds s\<rparr> ps"
proof (rule sched_inv_update [OF inv _ same_off_set])
  show "gq_inv (mq_set (world s) p q') ps"
    using sched_inv_gq [OF inv] q q'(3) by (rule gq_inv_set)
  fix r assume "mq_heap (mq_set (world s) p q') p = Some r"
  then have "r = q'" by (simp add: mq_set_def)
  with sched_inv_queue [OF inv q] q' rel items show "mq_inv r \<and> mq_in_global r \<le> MQ_IN_GLOBAL \<and> (mq_in_global r = 0 \<longrightarrow> mq_items r = []) \<and>
      owned \<lparr>world = mq_set (world s) p q', holds = holds s\<rparr> ps p = (mq_release r \<or> mq_in_global r = MQ_IN_GLOBAL)"
    by (auto simp: owned_def)
next
  fix t x assume "holds s t = Some x"
  then show "x \<notin> set ps \<and> mq_heap (mq_set (world s) p q') x \<noteq> None"
    using sched_inv_held [OF inv] sched_inv_held_not_None [OF inv] by (simp add: mq_set_def)
qed (use sched_inv_inj [OF inv] in \<open>auto simp: owned_def\<close>)

lemma sched_inv_leave_empty:
  assumes inv: "sched_inv s ps" and t: "holds s t = Some p" and q: "mq_heap (world s) p = Some q"
    and rel: "\<not> mq_release q" and items: "mq_items q = []"
  shows "\<exists>q'. skynet_mq_pop q = Ok (None, q') \<and> sched_inv \<lparr>world = mq_set (world s) p q', holds = (holds s)(t := None)\<rparr> ps"
proof -
  define q' where "q' = q\<lparr>mq_overload_threshold := MQ_OVERLOAD, mq_in_global := 0\<rparr>"
  have pop: "skynet_mq_pop q = Ok (None, q')"
    unfolding q'_def by (rule mq_pop_empty [OF sched_inv_queue(1) [OF inv q] items])
  note go = holds_let_go [OF inv t]
  have "sched_inv \<lparr>world = mq_set (world s) p q', holds = (holds s)(t := None)\<rparr> ps"
  proof (rule sched_inv_update [OF inv _ same_off_set])
    show "gq_inv (mq_set (world s) p q') ps"
      using sched_inv_gq [OF inv] q by (rule gq_inv_set) (simp add: q'_def)
    fix r assume "mq_heap (mq_set (world s) p q') p = Some r"
    then have "r = q'" by (simp add: mq_set_def)
    moreover have "\<not> owned \<lparr>world = mq_set (world s) p q', holds = (holds s)(t := None)\<rparr> ps p"
      using go(1) sched_inv_held [OF inv t] unfolding owned_def by fastforce
    moreover have "mq_inv q'" using sched_inv_queue(1) [OF inv q] by (simp add: q'_def mq_inv_def MQ_OVERLOAD_def)
    moreover have "mq_items q' = []" using items by (simp add: q'_def mq_items_def)
    ultimately show "mq_inv r \<and> mq_in_global r \<le> MQ_IN_GLOBAL \<and> (mq_in_global r = 0 \<longrightarrow> mq_items r = []) \<and>
        owned \<lparr>world = mq_set (world s) p q', holds = (holds s)(t := None)\<rparr> ps p =
          (mq_release r \<or> mq_in_global r = MQ_IN_GLOBAL)"
      using rel by (simp add: q'_def MQ_IN_GLOBAL_def)
  next
    fix t' x assume "((holds s)(t := None)) t' = Some x"
    from go(3) [OF this] show "x \<notin> set ps \<and> mq_heap (mq_set (world s) p q') x \<noteq> None"
      using sched_inv_held [OF inv] sched_inv_held_not_None [OF inv] by (simp add: mq_set_def)
  next
    fix x assume "x \<noteq> p"
    then show "owned \<lparr>world = mq_set (world s) p q', holds = (holds s)(t := None)\<rparr> ps x = owned s ps x"
      using owned_let_go [OF t] by (simp add: owned_def)
  qed (rule go(2))
  with pop show ?thesis by blast
qed

text \<open>A queue without an owner is linked into the global queue together with a change of its flags.\<close>

lemma sched_inv_enlist:
  assumes inv: "sched_inv s ps" and q: "mq_heap (world s) p = Some q" and free: "\<not> owned s ps p"
    and q': "mq_inv q'" "mq_next q' = mq_next q" "mq_in_global q' \<le> MQ_IN_GLOBAL" "mq_release q' \<or> mq_in_global q' = MQ_IN_GLOBAL"
      "mq_in_global q' = 0 \<Longrightarrow> mq_items q' = []"
  shows "\<exists>w. skynet_globalmq_push p (mq_set (world s) p q') = Ok w \<and> sched_inv \<lparr>world = w, holds = holds s\<rparr> (ps @ [p])"
proof -
  let ?w1 = "mq_set (world s) p q'"
  have p: "p \<notin> set ps" "\<And>t. holds s t \<noteq> Some p" using free by (auto simp: owned_def)
  have gq: "gq_inv ?w1 ps" using sched_inv_gq [OF inv] q q'(2) by (rule gq_inv_set)
  obtain w where w: "skynet_globalmq_push p ?w1 = Ok w" "gq_inv w (ps @ [p])" "same_but_links ?w1 w"
    using globalmq_push_ok [OF gq p(1), of q'] by (auto simp: mq_set_def)
  have "sched_inv \<lparr>world = w, holds = holds s\<rparr> (ps @ [p])"
  proof (rule sched_inv_update [OF inv w(2) same_off_trans [OF same_off_set same_off_links [OF w(3)]]])
    fix r assume r: "mq_heap w p = Some r"
    then have "unlinked r = unlinked q'" by (rule same_but_links_Some [OF w(3)]) (simp add: mq_set_def)
    from unlinked_eqD [OF this] q' show "mq_inv r \<and> mq_in_global r \<le> MQ_IN_GLOBAL \<and> (mq_in_global r = 0 \<longrightarrow> mq_items r = []) \<and>
        owned \<lparr>world = w, holds = holds s\<rparr> (ps @ [p]) p = (mq_release r \<or> mq_in_global r = MQ_IN_GLOBAL)"
      by (simp add: owned_def)
  next
    fix t x assume x: "holds s t = Some x"
    then have "mq_heap ?w1 x \<noteq> None" using sched_inv_held_not_None [OF inv] by (simp add: mq_set_def)
    then show "x \<notin> set (ps @ [p]) \<and> mq_heap w x \<noteq> None"
      using x p sched_inv_held [OF inv x] same_but_links_dom [OF w(3)] by auto
  next
    fix x assume "x \<noteq> p"
    then show "owned \<lparr>world = w, holds = holds s\<rparr> (ps @ [p]) x = owned s ps x"
      by (simp add: owned_def)
  qed (rule sched_inv_inj [OF inv])
  with w show ?thesis by blast
qed

lemma sched_inv_send:
  assumes inv: "sched_inv s ps" and q: "mq_heap (world s) p = Some q" and rel: "\<not> mq_release q"
  shows "\<exists>w ps'. skynet_mq_push p m (world s) = Ok w \<and> sched_inv \<lparr>world = w, holds = holds s\<rparr> ps'"
proof -
  obtain q1 where q1: "mq_store m q = Ok q1" "mq_inv q1" "mq_in_global q1 = mq_in_global q"
      "mq_release q1 = mq_release q" "mq_next q1 = mq_next q"
    using mq_store_ok [OF sched_inv_queue(1) [OF inv q]] by blast
  show ?thesis
  proof (cases "mq_in_global q = 0")
    case True
    let ?q2 = "q1\<lparr>mq_in_global := MQ_IN_GLOBAL\<rparr>"
    have "\<not> owned s ps p" using sched_inv_queue(3) [OF inv q] True rel by (simp add: MQ_IN_GLOBAL_def)
    moreover have "mq_inv ?q2" using q1(2) by (simp add: mq_inv_def)
    ultimately have "\<exists>w. skynet_globalmq_push p (mq_set (world s) p ?q2) = Ok w \<and>
        sched_inv \<lparr>world = w, holds = holds s\<rparr> (ps @ [p])"
      using q1 by (intro sched_inv_enlist [OF inv q]) (simp_all add: MQ_IN_GLOBAL_def)
    with True q1 q show ?thesis by (auto simp: skynet_mq_push_def mq_get_def)
  next
    case False
    have "skynet_mq_push p m (world s) = Ok (mq_set (world s) p q1)"
      using False q1 q by (simp add: skynet_mq_push_def mq_get_def)
    with sched_inv_inplace [OF inv q q1(2,3,5)] q1(4) False show ?thesis by blast
  qed
qed

lemma sched_inv_mark:
  assumes inv: "sched_inv s ps" and q: "mq_heap (world s) p = Some q" and rel: "\<not> mq_release q"
  shows "\<exists>w ps'. skynet_mq_mark_release p (world s) = Ok w \<and> sched_inv \<lparr>world = w, holds = holds s\<rparr> ps'"
proof -
  let ?q' = "q\<lparr>mq_release := True\<rparr>"
  have i: "mq_inv ?q'" using sched_inv_queue(1) [OF inv q] by (simp add: mq_inv_def)
  show ?thesis
  proof (cases "mq_in_global q = MQ_IN_GLOBAL")
    case True
    have "skynet_mq_mark_release p (world s) = Ok (mq_set (world s) p ?q')"
      using True q rel by (simp add: skynet_mq_mark_release_def mq_get_def)
    moreover have "sched_inv \<lparr>world = mq_set (world s) p ?q', holds = holds s\<rparr> ps"
      using True by (intro sched_inv_inplace [OF inv q i]) (simp_all add: MQ_IN_GLOBAL_def)
    ultimately show ?thesis by blast
  next
    case False
    have "\<not> owned s ps p" using sched_inv_queue(3) [OF inv q] False rel by simp
    then have "\<exists>w. skynet_globalmq_push p (mq_set (world s) p ?q') = Ok w \<and>
        sched_inv \<lparr>world = w, holds = holds s\<rparr> (ps @ [p])"
      using i sched_inv_queue(2,4) [OF inv q] by (intro sched_inv_enlist [OF inv q]) (simp_all add: mq_items_def)
    with False q rel show ?thesis by (auto simp: skynet_mq_mark_release_def mq_get_def)
  qed
qed

lemma sched_inv_free:
  assumes inv: "sched_inv s ps" and t: "holds s t = Some p" and q: "mq_heap (world s) p = Some q"
    and q': "mq_next q' = mq_next q"
  shows "\<exists>w. mq_free p (mq_set (world s) p q') = Ok w \<and> sched_inv \<lparr>world = w, holds = (holds s)(t := None)\<rparr> ps"
proof -
  let ?w = "(world s)\<lparr>mq_heap := (mq_heap (world s))(p := None)\<rparr>"
  have p: "p \<notin> set ps" by (rule sched_inv_held [OF inv t])
  have "mq_next q = None" using sched_inv_gq [OF inv] p q by (simp add: gq_inv_def)
  then have "mq_free p (mq_set (world s) p q') = Ok ?w"
    using q' by (simp add: mq_free_def mq_get_def mq_set_def)
  moreover note go = holds_let_go [OF inv t]
  have "sched_inv \<lparr>world = ?w, holds = (holds s)(t := None)\<rparr> ps"
  proof (rule sched_inv_update [OF inv])
    show "gq_inv ?w ps" using sched_inv_gq [OF inv] p by (rule gq_inv_free)
    show "same_off p (world s) ?w" by (simp add: same_off_def)
  next
    fix t' x assume "((holds s)(t := None)) t' = Some x"
    from go(1,3) [OF this] show "x \<notin> set ps \<and> mq_heap ?w x \<noteq> None"
      using sched_inv_held [OF inv] sched_inv_held_not_None [OF inv] by simp
  next
    fix x assume "x \<noteq> p"
    then show "owned \<lparr>world = ?w, holds = (holds s)(t := None)\<rparr> ps x = owned s ps x"
      using owned_let_go [OF t] by (simp add: owned_def)
  qed (simp, rule go(2))
  ultimately show ?thesis by blast
qed

lemma mq_pop_cases:
  assumes inv: "mq_inv q" and pop: "skynet_mq_pop q = Ok (r, q')"
  shows "mq_next q' = mq_next q" "mq_release q' = mq_release q"
    "r = Some m \<Longrightarrow> mq_inv q' \<and> mq_in_global q' = mq_in_global q \<and> mq_items q = m # mq_items q'"
    "r = None \<Longrightarrow> mq_items q = []"
  using mq_pop_empty [OF inv] mq_pop_cons [OF inv] pop by (cases "mq_items q"; fastforce)+

lemma sched_step_inv:
  assumes "sched_step s s'" and "sched_inv s ps"
  shows "\<exists>ps'. sched_inv s' ps'"
  using assms
proof (induction rule: sched_step.induct)
  case (create s p t h)
  then show ?case unfolding sched_eta2 using sched_inv_create by blast
next
  case (put_back s t p w)
  then show ?case unfolding sched_eta2 using sched_inv_put_back [of s ps t p] by auto
next
  case (take s t p w)
  show ?case
  proof (cases ps)
    case Nil
    with take globalmq_pop_empty [OF sched_inv_gq] show ?thesis by auto
  next
    case (Cons x xs)
    with take sched_inv_take [of s x xs t] show ?thesis unfolding sched_eta2 by auto
  qed
next
  case (pop_message s t p q m q')
  note i = sched_inv_queue(1) [OF pop_message.prems pop_message.hyps(2)]
  from mq_pop_cases [OF i pop_message.hyps(3)] show ?case
    unfolding sched_eta
    using sched_inv_inplace [OF pop_message.prems pop_message.hyps(2)] sched_inv_queue(4) [OF pop_message.prems pop_message.hyps(2)]
    by (metis list.distinct(1))
next
  case (leave_empty s t p q q')
  note i = sched_inv_queue(1) [OF leave_empty.prems leave_empty.hyps(2)]
  have "mq_items q = []" using mq_pop_cases(4) [OF i leave_empty.hyps(4)] by simp
  from sched_inv_leave_empty [OF leave_empty.prems leave_empty.hyps(1-3) this] leave_empty.hyps(4) show ?case
    unfolding sched_eta2 by auto
next
  case (send s p q m w)
  from sched_inv_send [OF send.prems send.hyps(1,2), of m] send.hyps(3) show ?case unfolding sched_eta by auto
next
  case (mark s p q w)
  have "\<not> mq_release q"
    using mark.hyps by (auto simp: skynet_mq_mark_release_def mq_get_def)
  from sched_inv_mark [OF mark.prems mark.hyps(1) this] mark.hyps(2) show ?case unfolding sched_eta by auto
next
  case (free_queue s t p q q' w)
  note i = sched_inv_queue(1) [OF free_queue.prems free_queue.hyps(2)]
  from sched_inv_free [OF free_queue.prems free_queue.hyps(1,2) mq_pop_cases(1) [OF i free_queue.hyps(4)]]
    free_queue.hyps(5)
  show ?case unfolding sched_eta2 by auto
next
  case (report s t p q)
  note i = sched_inv_queue [OF report.prems report.hyps(2)]
  have "sched_inv \<lparr>world = mq_set (world s) p (snd (skynet_mq_overload q)), holds = holds s\<rparr> ps"
    by (rule sched_inv_inplace [OF report.prems report.hyps(2)])
      (use i in \<open>auto simp: skynet_mq_overload_def mq_inv_def mq_items_def\<close>)
  then show ?case unfolding sched_eta by blast
qed

lemma sched_reachable_inv: "sched_reachable s \<Longrightarrow> \<exists>ps. sched_inv s ps"
proof (induction rule: sched_reachable.induct)
  case start
  then show ?case using sched_inv_init by blast
next
  case (step s s')
  then show ?case using sched_step_inv by blast
qed

section \<open>Properties of the protocol\<close>

inductive_simps sched_step_simps: "sched_step s s'"

text \<open>A run used by the witnesses: thread 0 creates queue 0.\<close>

definition sched_one :: sched where
  "sched_one = sched_init\<lparr>world := mq_set (world sched_init) 0 (skynet_mq_create 5), holds := (holds sched_init)(0 \<mapsto> 0)\<rparr>"

lemma sched_one_reachable: "sched_reachable sched_one"
  unfolding sched_one_def
  by (rule sched_reachable.step [OF sched_reachable.start], rule sched_step.create)
    (simp_all add: sched_init_def skynet_mq_init_def)

text \<open>C1: In every reachable state, a service queue that a thread has in hand is in no other
  thread's hand and cannot be handed out by the global queue: two workers never dispatch the same
  service at the same time.\<close>

theorem sched_exclusive:
  assumes "sched_reachable s" and "holds s t = Some p"
  shows "(\<forall>t'. holds s t' = Some p \<longrightarrow> t' = t) \<and> (\<forall>w. skynet_globalmq_pop (world s) \<noteq> Ok (Some p, w))"
proof -
  obtain ps where inv: "sched_inv s ps" using sched_reachable_inv [OF assms(1)] by blast
  have "skynet_globalmq_pop (world s) \<noteq> Ok (Some p, w)" for w
  proof (cases ps)
    case Nil
    with globalmq_pop_empty sched_inv_gq [OF inv] show ?thesis by simp
  next
    case (Cons x xs)
    then obtain w' where "skynet_globalmq_pop (world s) = Ok (Some x, w')"
      using globalmq_pop_cons sched_inv_gq [OF inv] by blast
    moreover have "x \<noteq> p" using sched_inv_held [OF inv assms(2)] Cons by auto
    ultimately show ?thesis by simp
  qed
  with sched_inv_inj [OF inv assms(2)] show ?thesis by blast
qed

theorem sched_exclusive_witness:
  "sched_reachable sched_one \<and> holds sched_one 0 = Some 0 \<and> (\<forall>w. skynet_globalmq_pop (world sched_one) \<noteq> Ok (Some 0, w))"
proof -
  have h: "holds sched_one 0 = Some 0" by (simp add: sched_one_def)
  show ?thesis using sched_exclusive [OF sched_one_reachable h] sched_one_reachable h by blast
qed

text \<open>C3: No lost wake-up: in every reachable state a queue with a pending message is linked in the
  global queue or in the hand of a thread, so its messages will be dispatched.\<close>

theorem sched_no_lost_wakeup:
  assumes "sched_reachable s" and "mq_heap (world s) p = Some q" and "mq_items q \<noteq> []"
  shows "\<exists>ps. gq_inv (world s) ps \<and> (p \<in> set ps \<or> (\<exists>t. holds s t = Some p))"
proof -
  obtain ps where inv: "sched_inv s ps" using sched_reachable_inv [OF assms(1)] by blast
  have "mq_in_global q = MQ_IN_GLOBAL"
    using sched_inv_queue(2,4) [OF inv assms(2)] assms(3)
    by (cases "mq_in_global q = 0") (simp_all add: MQ_IN_GLOBAL_def)
  then have "owned s ps p" using sched_inv_queue(3) [OF inv assms(2)] by simp
  with sched_inv_gq [OF inv] show ?thesis unfolding owned_def by blast
qed

definition sched_two :: sched where
  "sched_two = sched_one\<lparr>world := the_Ok (skynet_mq_push 0 \<lparr>msg_source = 1, msg_session = 0, msg_data = None, msg_sz = 0\<rparr> (world sched_one))\<rparr>"

lemma sched_two_world:
  "\<exists>q. skynet_mq_push 0 \<lparr>msg_source = 1, msg_session = 0, msg_data = None, msg_sz = 0\<rparr> (world sched_one) = Ok (mq_set (world sched_one) 0 q) \<and>
    mq_items q = [\<lparr>msg_source = 1, msg_session = 0, msg_data = None, msg_sz = 0\<rparr>]"
proof -
  let ?m = "\<lparr>msg_source = 1, msg_session = 0, msg_data = None, msg_sz = 0\<rparr> :: skynet_message"
  obtain q where q: "mq_store ?m (skynet_mq_create 5) = Ok q" "mq_items q = [?m]" "mq_in_global q = mq_in_global (skynet_mq_create 5)"
    using mq_store_ok [OF mq_inv_create, of ?m 5] by auto
  have "mq_in_global q \<noteq> 0" using q(3) by (simp add: skynet_mq_create_def MQ_IN_GLOBAL_def)
  with q show ?thesis
    by (intro exI [of _ q]) (simp add: skynet_mq_push_def mq_get_def sched_one_def mq_set_def)
qed

theorem sched_no_lost_wakeup_witness:
  "\<exists>q ps. mq_heap (world sched_two) 0 = Some q \<and> mq_items q \<noteq> [] \<and> gq_inv (world sched_two) ps \<and>
     (0 \<in> set ps \<or> (\<exists>t. holds sched_two t = Some 0))"
proof -
  obtain q where q: "skynet_mq_push 0 \<lparr>msg_source = 1, msg_session = 0, msg_data = None, msg_sz = 0\<rparr> (world sched_one) = Ok (mq_set (world sched_one) 0 q)"
      "mq_items q = [\<lparr>msg_source = 1, msg_session = 0, msg_data = None, msg_sz = 0\<rparr>]"
    using sched_two_world by blast
  have heap: "mq_heap (world sched_one) 0 = Some (skynet_mq_create 5)" by (simp add: sched_one_def mq_set_def)
  have "sched_step sched_one sched_two"
    unfolding sched_two_def q(1) res.sel
    by (rule sched_step.send [OF heap _ q(1)]) (simp add: skynet_mq_create_def)
  then have r: "sched_reachable sched_two" by (rule sched_reachable.step [OF sched_one_reachable])
  have h: "mq_heap (world sched_two) 0 = Some q" by (simp add: sched_two_def q(1) mq_set_def)
  have "mq_items q \<noteq> []" using q(2) by simp
  from sched_no_lost_wakeup [OF r h this] h this show ?thesis by blast
qed

end
