(* ===== verification/Skynet_Timer.thy ===== *)
theory Skynet_Timer
  imports Skynet_MQ
begin

text \<open>
  The timing wheel of \<open>skynet-src/skynet_timer.c\<close>: 256 near slots for the ticks of the current
  256-tick block and four levels of 64 slots for later blocks, each slot a linked list that grows at
  its tail (a HOL list here). A tick advances a 32-bit clock that wraps around, re-sorts one slot of
  one level, and dispatches the near slot of the new time.

  The lemmas show that the wheel refines the obvious specification, the list of pending timers in
  the order of their registration: a tick dispatches exactly the timers that expire at the new time,
  in registration order, whatever level they went through and across the wrap-around of the clock.
\<close>

section \<open>Data\<close>

record timer_node =
  expire :: u32
  ev_handle :: u32
  ev_session :: u32

record timer =
  near :: "timer_node list list"
  levels :: "timer_node list list list"
  ticks :: u32
  starttime :: u32
  current :: u64
  current_point :: u64

definition TIME_NEAR_SHIFT :: nat where "TIME_NEAR_SHIFT = 8"
definition TIME_NEAR :: nat where "TIME_NEAR = 256"
definition TIME_LEVEL_SHIFT :: nat where "TIME_LEVEL_SHIFT = 6"
definition TIME_LEVEL :: nat where "TIME_LEVEL = 64"
definition TIME_NEAR_MASK :: u32 where "TIME_NEAR_MASK = 255"
definition TIME_LEVEL_MASK :: u32 where "TIME_LEVEL_MASK = 63"

definition PTYPE_RESPONSE :: u64 where "PTYPE_RESPONSE = 1"
definition MESSAGE_TYPE_SHIFT :: nat where "MESSAGE_TYPE_SHIFT = 56"

lemmas timer_consts = TIME_NEAR_SHIFT_def TIME_NEAR_def TIME_LEVEL_SHIFT_def TIME_LEVEL_def
  TIME_NEAR_MASK_def TIME_LEVEL_MASK_def

section \<open>Operations\<close>

definition timer_create_timer :: timer where
  "timer_create_timer = \<lparr>near = replicate TIME_NEAR [], levels = replicate 4 (replicate TIME_LEVEL []),
     ticks = 0, starttime = 0, current = 0, current_point = 0\<rparr>"

text \<open>\<open>link\<close>: append a node to the list of a near slot or of a slot of a level.\<close>

definition link_near :: "timer \<Rightarrow> nat \<Rightarrow> timer_node \<Rightarrow> timer" where
  "link_near T i node = T\<lparr>near := (near T)[i := near T ! i @ [node]]\<rparr>"

definition link_level :: "timer \<Rightarrow> nat \<Rightarrow> nat \<Rightarrow> timer_node \<Rightarrow> timer" where
  "link_level T l i node = T\<lparr>levels := (levels T)[l := (levels T ! l)[i := levels T ! l ! i @ [node]]]\<rparr>"

text \<open>\<open>link_clear\<close>: the nodes of a slot, and the slot emptied.\<close>

definition clear_near :: "timer \<Rightarrow> nat \<Rightarrow> timer_node list \<times> timer" where
  "clear_near T i = (near T ! i, T\<lparr>near := (near T)[i := []]\<rparr>)"

definition clear_level :: "timer \<Rightarrow> nat \<Rightarrow> nat \<Rightarrow> timer_node list \<times> timer" where
  "clear_level T l i = (levels T ! l ! i, T\<lparr>levels := (levels T)[l := (levels T ! l)[i := []]]\<rparr>)"

text \<open>The loop of \<open>add_node\<close> over the levels.\<close>

function find_level :: "u32 \<Rightarrow> u32 \<Rightarrow> u32 \<Rightarrow> nat \<Rightarrow> nat" where
  "find_level time current_time msk i =
     (if i < 3 then
        if time OR (msk - 1) = current_time OR (msk - 1) then i
        else find_level time current_time (push_bit TIME_LEVEL_SHIFT msk) (Suc i)
      else i)"
  by pat_completeness auto
termination
  by (relation "measure (\<lambda>(_, _, _, i). 3 - i)") auto

declare find_level.simps [simp del]

definition add_node :: "timer \<Rightarrow> timer_node \<Rightarrow> timer" where
  "add_node T node =
     (let time = expire node; current_time = ticks T in
      if time OR TIME_NEAR_MASK = current_time OR TIME_NEAR_MASK
      then link_near T (unat (time AND TIME_NEAR_MASK)) node
      else
        let i = find_level time current_time (push_bit TIME_LEVEL_SHIFT 256) 0 in
        link_level T i
          (unat (drop_bit (TIME_NEAR_SHIFT + i * TIME_LEVEL_SHIFT) time AND TIME_LEVEL_MASK)) node)"

definition timer_add :: "timer \<Rightarrow> u32 \<Rightarrow> u32 \<Rightarrow> u32 \<Rightarrow> timer" where
  "timer_add T handle session time =
     add_node T \<lparr>expire = time + ticks T, ev_handle = handle, ev_session = session\<rparr>"

definition move_list :: "timer \<Rightarrow> nat \<Rightarrow> nat \<Rightarrow> timer" where
  "move_list T level idx =
     (case clear_level T level idx of (nodes, T1) \<Rightarrow> foldl add_node T1 nodes)"

text \<open>The loop of \<open>timer_shift\<close>: the level and slot to move, if any. \<open>None\<close> outside: the loop does
  not end.\<close>

partial_function (option) shift_loop :: "u32 \<Rightarrow> u32 \<Rightarrow> u32 \<Rightarrow> nat \<Rightarrow> (nat \<times> nat) option option" where
  "shift_loop ct msk time i =
     (if ct AND (msk - 1) = 0 then
        let idx = time AND TIME_LEVEL_MASK in
        if idx \<noteq> 0 then Some (Some (i, unat idx))
        else shift_loop ct (push_bit TIME_LEVEL_SHIFT msk) (drop_bit TIME_LEVEL_SHIFT time) (Suc i)
      else Some None)"

definition timer_shift :: "timer \<Rightarrow> timer res" where
  "timer_shift T =
     (let ct = ticks T + 1; T1 = T\<lparr>ticks := ct\<rparr> in
      if ct = 0 then Ok (move_list T1 3 0)
      else
        (case shift_loop ct 256 (drop_bit TIME_NEAR_SHIFT ct) 0 of
           None \<Rightarrow> Err Diverge
         | Some None \<Rightarrow> Ok T1
         | Some (Some (i, idx)) \<Rightarrow> if i < 4 then Ok (move_list T1 i idx) else Err Out_of_bounds))"

text \<open>\<open>dispatch_list\<close>: the message pushed for each node of a list, with the handle it goes to.\<close>

definition timeout_message :: "u32 \<Rightarrow> skynet_message" where
  "timeout_message session = \<lparr>msg_source = 0, msg_session = session, msg_data = None,
     msg_sz = push_bit MESSAGE_TYPE_SHIFT PTYPE_RESPONSE\<rparr>"

fun dispatch_list :: "timer_node list \<Rightarrow> (u32 \<times> skynet_message) list" where
  "dispatch_list [] = []"
| "dispatch_list (node # rest) = (ev_handle node, timeout_message (ev_session node)) # dispatch_list rest"

text \<open>\<open>timer_execute\<close> empties the near slot of the current time. Its loop re-reads the slot because
  it dispatches without the lock; nodes added meanwhile never go to this slot (lemma
  \<open>add_node_other_slot\<close>), so the second reading finds it empty.\<close>

definition timer_execute :: "timer \<Rightarrow> (u32 \<times> skynet_message) list \<times> timer" where
  "timer_execute T =
     (let idx = unat (ticks T AND TIME_NEAR_MASK) in
      if near T ! idx \<noteq> [] then (case clear_near T idx of (nodes, T1) \<Rightarrow> (dispatch_list nodes, T1))
      else ([], T))"

definition timer_update :: "timer \<Rightarrow> ((u32 \<times> skynet_message) list \<times> timer) res" where
  "timer_update T =
     (case timer_execute T of (out0, T0) \<Rightarrow>
      res_bind (timer_shift T0) (\<lambda>T1.
      (case timer_execute T1 of (out1, T2) \<Rightarrow> Ok (out0 @ out1, T2))))"

text \<open>\<open>skynet_timeout\<close>; \<open>push\<close> stands for \<open>skynet_context_push\<close> (0 for success). The argument
  \<open>time\<close> and the result are C \<open>int\<close>s.\<close>

definition skynet_timeout ::
    "(u32 \<Rightarrow> skynet_message \<Rightarrow> 'w \<Rightarrow> int \<times> 'w) \<Rightarrow> u32 \<Rightarrow> u32 \<Rightarrow> u32 \<Rightarrow> timer \<times> 'w \<Rightarrow> int \<times> timer \<times> 'w" where
  "skynet_timeout push handle time session = (\<lambda>(T, w).
     if sint time \<le> 0 then
       (case push handle (timeout_message session) w of
          (r, w') \<Rightarrow> (if r \<noteq> 0 then -1 else sint session, T, w'))
     else (sint session, timer_add T handle session time, w))"

text \<open>The clocks: \<open>ti\<close> is what \<open>clock_gettime\<close> filled in, seconds and nanoseconds.\<close>

definition systime :: "u64 \<Rightarrow> u64 \<Rightarrow> u32 \<times> u32" where
  "systime tv_sec tv_nsec = (ucast tv_sec, ucast (tv_nsec div 10000000))"

definition gettime :: "u64 \<Rightarrow> u64 \<Rightarrow> u64" where
  "gettime tv_sec tv_nsec = tv_sec * 100 + tv_nsec div 10000000"

fun update_loop :: "nat \<Rightarrow> timer \<Rightarrow> ((u32 \<times> skynet_message) list \<times> timer) res" where
  "update_loop 0 T = Ok ([], T)"
| "update_loop (Suc n) T =
     res_bind (timer_update T) (\<lambda>(out, T1).
     res_bind (update_loop n T1) (\<lambda>(out', T2). Ok (out @ out', T2)))"

text \<open>The report that the time went back is left out (it is one message to the logger). The counter of the loop is compared as
  unsigned, so the loop makes \<open>diff\<close> rounds (while \<open>diff\<close> is below 2^31 the counter does not overflow; that is 248 days).\<close>

definition skynet_updatetime :: "u64 \<Rightarrow> timer \<Rightarrow> ((u32 \<times> skynet_message) list \<times> timer) res" where
  "skynet_updatetime cp T =
     (if cp < current_point T then Ok ([], T\<lparr>current_point := cp\<rparr>)
      else if cp \<noteq> current_point T then
        let diff = ucast (cp - current_point T) :: u32 in
        update_loop (unat diff) (T\<lparr>current_point := cp, current := current T + ucast diff\<rparr>)
      else Ok ([], T))"

definition skynet_starttime :: "timer \<Rightarrow> u32" where "skynet_starttime T = starttime T"

definition skynet_now :: "timer \<Rightarrow> u64" where "skynet_now T = current T"

definition skynet_timer_init :: "u64 \<times> u64 \<Rightarrow> u64 \<times> u64 \<Rightarrow> timer" where
  "skynet_timer_init realtime monotonic =
     (case systime (fst realtime) (snd realtime) of (sec, cs) \<Rightarrow>
        timer_create_timer\<lparr>starttime := sec, current := ucast cs,
          current_point := gettime (fst monotonic) (snd monotonic)\<rparr>)"

section \<open>Where a node belongs\<close>

datatype place = Near nat | Level nat nat

fun slot :: "timer \<Rightarrow> place \<Rightarrow> timer_node list" where
  "slot T (Near i) = near T ! i"
| "slot T (Level l i) = levels T ! l ! i"

fun valid_place :: "place \<Rightarrow> bool" where
  "valid_place (Near i) \<longleftrightarrow> i < 256"
| "valid_place (Level l i) \<longleftrightarrow> l < 4 \<and> i < 64"

text \<open>The slot of an expiry time \<open>e\<close> at time \<open>ct\<close>, both read as numbers.\<close>

definition place_of :: "nat \<Rightarrow> nat \<Rightarrow> place" where
  "place_of ct e =
     (if e div 2 ^ 8 = ct div 2 ^ 8 then Near (e mod 2 ^ 8)
      else if e div 2 ^ 14 = ct div 2 ^ 14 then Level 0 (e div 2 ^ 8 mod 64)
      else if e div 2 ^ 20 = ct div 2 ^ 20 then Level 1 (e div 2 ^ 14 mod 64)
      else if e div 2 ^ 26 = ct div 2 ^ 26 then Level 2 (e div 2 ^ 20 mod 64)
      else Level 3 (e div 2 ^ 26 mod 64))"

lemma valid_place_of [simp]: "valid_place (place_of ct e)"
  by (simp add: place_of_def)

lemma or_mask_eq_iff:
  fixes x y :: u32
  shows "x OR mask k = y OR mask k \<longleftrightarrow> unat x div 2 ^ k = unat y div 2 ^ k"
proof -
  have "x OR mask k = y OR mask k \<longleftrightarrow> drop_bit k x = drop_bit k y"
  proof
    assume eq: "x OR mask k = y OR mask k"
    show "drop_bit k x = drop_bit k y"
    proof (rule bit_word_eqI)
      fix n assume "n < LENGTH(32)"
      have "bit (x OR mask k) (k + n) = bit (y OR mask k) (k + n)" using eq by simp
      then show "bit (drop_bit k x) n = bit (drop_bit k y) n"
        by (auto simp: bit_simps)
    qed
  next
    assume eq: "drop_bit k x = drop_bit k y"
    show "x OR mask k = y OR mask k"
    proof (rule bit_word_eqI)
      fix n assume n: "n < LENGTH(32)"
      have "bit (drop_bit k x) (n - k) = bit (drop_bit k y) (n - k)" using eq by simp
      then show "bit (x OR mask k) n = bit (y OR mask k) n"
        using n by (cases "n < k") (auto simp: bit_simps)
    qed
  qed
  also have "\<dots> \<longleftrightarrow> unat (drop_bit k x) = unat (drop_bit k y)" by (rule word_unat_eq_iff)
  also have "\<dots> \<longleftrightarrow> unat x div 2 ^ k = unat y div 2 ^ k"
    by (simp add: unat_drop_bit_eq) (simp add: drop_bit_eq_div)
  finally show ?thesis .
qed

lemma and_mask_unat: "unat (x AND mask k) = unat (x :: u32) mod 2 ^ k"
  by (simp add: take_bit_eq_mask [symmetric] unsigned_take_bit_eq) (simp add: take_bit_eq_mod)

lemma near_mask: "TIME_NEAR_MASK = mask 8" "TIME_LEVEL_MASK = mask 6"
  by (simp_all add: timer_consts mask_eq_exp_minus_1)

lemma level_masks:
  "push_bit 6 (256::u32) - 1 = mask 14" "push_bit 12 (256::u32) - 1 = mask 20"
  "push_bit 18 (256::u32) - 1 = mask 26" "(256::u32) - 1 = mask 8"
  by (simp_all add: push_bit_eq_mult mask_eq_exp_minus_1)

lemma find_level_place:
  "find_level time ct (push_bit TIME_LEVEL_SHIFT 256) 0 =
     (if unat time div 2 ^ 14 = unat ct div 2 ^ 14 then 0
      else if unat time div 2 ^ 20 = unat ct div 2 ^ 20 then 1
      else if unat time div 2 ^ 26 = unat ct div 2 ^ 26 then 2 else 3)"
  by (simp add: find_level.simps [of _ _ _ 0] find_level.simps [of _ _ _ "Suc 0"]
      find_level.simps [of _ _ _ "Suc (Suc 0)"] find_level.simps [of _ _ _ "Suc (Suc (Suc 0))"]
      TIME_LEVEL_SHIFT_def level_masks or_mask_eq_iff del: push_bit_numeral)

lemma shifted_index: "unat (drop_bit k (x :: u32) AND TIME_LEVEL_MASK) = unat x div 2 ^ k mod 64"
  by (simp add: near_mask and_mask_unat unat_drop_bit_eq) (simp add: drop_bit_eq_div)

fun link_place :: "timer \<Rightarrow> place \<Rightarrow> timer_node \<Rightarrow> timer" where
  "link_place T (Near i) node = link_near T i node"
| "link_place T (Level l i) node = link_level T l i node"

lemma link_pick:
  "(if a then link_near T x node
    else link_level T (if b then 0 else if c then 1 else if d then 2 else 3)
           (e div 2 ^ (8 + (if b then 0 else if c then 1 else if d then 2 else 3) * 6) mod 64) node) =
   link_place T (if a then Near x else if b then Level 0 (e div 2 ^ (8 + 0 * 6) mod 64)
     else if c then Level 1 (e div 2 ^ (8 + 1 * 6) mod 64) else if d then Level 2 (e div 2 ^ (8 + 2 * 6) mod 64)
     else Level 3 (e div 2 ^ (8 + 3 * 6) mod 64)) node"
  by (cases a; cases b; cases c; cases d; simp only: if_True if_False link_place.simps)

lemma level_shifts: "8 + 0 * 6 = (8::nat)" "8 + 1 * 6 = (14::nat)" "8 + 2 * 6 = (20::nat)" "8 + 3 * 6 = (26::nat)"
  by simp_all

lemma add_node_place: "add_node T node = link_place T (place_of (unat (ticks T)) (unat (expire node))) node"
proof -
  let ?e = "unat (expire node)" and ?c = "unat (ticks T)"
  let ?l = "find_level (expire node) (ticks T) (push_bit TIME_LEVEL_SHIFT 256) 0"
  have "add_node T node = (if ?e div 2 ^ 8 = ?c div 2 ^ 8 then link_near T (?e mod 2 ^ 8) node
      else link_level T ?l (?e div 2 ^ (8 + ?l * 6) mod 64) node)"
    by (simp only: add_node_def Let_def near_mask(1) or_mask_eq_iff and_mask_unat shifted_index
        TIME_NEAR_SHIFT_def TIME_LEVEL_SHIFT_def)
  also have "\<dots> = link_place T (place_of ?c ?e) node"
    unfolding find_level_place place_of_def link_pick by (simp only: level_shifts)
  finally show ?thesis .
qed

section \<open>Slots under the operations\<close>

definition timer_shape :: "timer \<Rightarrow> bool" where
  "timer_shape T \<longleftrightarrow> length (near T) = 256 \<and> length (levels T) = 4 \<and> (\<forall>l < 4. length (levels T ! l) = 64)"

lemma slot_link [simp]:
  assumes "timer_shape T" "valid_place pl" "valid_place pl'"
  shows "slot (link_place T pl node) pl' = slot T pl' @ (if pl = pl' then [node] else [])"
  using assms
  by (cases pl; cases pl')
    (auto simp: timer_shape_def link_near_def link_level_def nth_list_update)

lemma shape_link [simp]: "timer_shape T \<Longrightarrow> timer_shape (link_place T pl node)"
  by (cases pl) (auto simp: timer_shape_def link_near_def link_level_def list_update_nth_if)

lemma ticks_link [simp]: "ticks (link_place T pl node) = ticks T"
  by (cases pl) (auto simp: link_near_def link_level_def)

abbreviation placed :: "u32 \<Rightarrow> timer_node \<Rightarrow> place" where
  "placed t node \<equiv> place_of (unat t) (unat (expire node))"

lemma foldl_add_node:
  assumes "timer_shape T"
  shows "timer_shape (foldl add_node T nodes) \<and> ticks (foldl add_node T nodes) = ticks T \<and>
    (\<forall>pl. valid_place pl \<longrightarrow>
       slot (foldl add_node T nodes) pl = slot T pl @ filter (\<lambda>n. placed (ticks T) n = pl) nodes)"
  using assms
proof (induction nodes arbitrary: T)
  case Nil
  then show ?case by simp
next
  case (Cons node nodes)
  have "timer_shape (add_node T node)" "ticks (add_node T node) = ticks T"
    using Cons.prems by (simp_all add: add_node_place)
  moreover have "slot (add_node T node) pl = slot T pl @ (if placed (ticks T) node = pl then [node] else [])"
    if "valid_place pl" for pl
    using Cons.prems that by (simp add: add_node_place)
  ultimately show ?case using Cons.IH [of "add_node T node"] by auto
qed

lemma clear_level_slots:
  assumes "timer_shape T" "l < 4" "i < 64" "valid_place pl"
  shows "slot (snd (clear_level T l i)) pl = (if pl = Level l i then [] else slot T pl)"
  using assms by (cases pl) (auto simp: clear_level_def timer_shape_def nth_list_update)

lemma clear_level_shape [simp]: "timer_shape T \<Longrightarrow> timer_shape (snd (clear_level T l i))"
  by (auto simp: clear_level_def timer_shape_def list_update_nth_if)

lemma move_list_slots:
  assumes "timer_shape T" "l < 4" "i < 64"
  shows "timer_shape (move_list T l i) \<and> ticks (move_list T l i) = ticks T \<and>
    (\<forall>pl. valid_place pl \<longrightarrow> slot (move_list T l i) pl =
       (if pl = Level l i then [] else slot T pl) @ filter (\<lambda>n. placed (ticks T) n = pl) (slot T (Level l i)))"
proof -
  have nodes: "fst (clear_level T l i) = slot T (Level l i)" and t: "ticks (snd (clear_level T l i)) = ticks T"
    by (simp_all add: clear_level_def)
  have "move_list T l i = foldl add_node (snd (clear_level T l i)) (slot T (Level l i))"
    unfolding move_list_def nodes [symmetric] by (simp add: split_beta)
  with foldl_add_node [OF clear_level_shape [OF assms(1)], of l i "slot T (Level l i)"] t
    clear_level_slots [OF assms]
  show ?thesis by simp
qed

section \<open>One tick of the clock, on numbers\<close>

text \<open>\<open>live ct e\<close>: the expiry time \<open>e\<close> is 1 to \<open>2 ^ 31 - 1\<close> ticks after \<open>ct\<close>, modulo the wrap-around.\<close>

definition live :: "u32 \<Rightarrow> u32 \<Rightarrow> bool" where
  "live ct e \<longleftrightarrow> 0 < unat (e - ct) \<and> unat (e - ct) < 2 ^ 31"

lemma u32_less: "unat (x :: u32) < 2 ^ 32"
  using unsigned_less [where 'a = nat and 'b = 32, of x] by simp

lemma live_nat:
  assumes "live t e"
  shows "unat e \<noteq> unat t" "unat e < unat t \<Longrightarrow> 2 ^ 31 < unat t - unat e"
proof -
  show "unat e \<noteq> unat t" using assms by (auto simp: live_def word_unat_eq_iff [symmetric])
  have e: "unat (e - t) = (if unat t \<le> unat e then unat e - unat t else unat e + 2 ^ 32 - unat t)"
    using unat_sub_if' [of e t] by simp
  show "2 ^ 31 < unat t - unat e" if "unat e < unat t"
    using assms that u32_less [of t] by (simp add: live_def e)
qed

lemma unat_succ: "unat (t + 1 :: u32) = (if Suc (unat t) = 2 ^ 32 then 0 else Suc (unat t))"
proof -
  have "unat (t + 1) = Suc (unat t) mod 2 ^ 32" by (simp add: unat_word_ariths)
  then show ?thesis using u32_less [of t] by (auto simp: Suc_lessI)
qed

lemma succ_mod:
  assumes "k \<le> 32"
  shows "unat (t + 1 :: u32) mod 2 ^ k = Suc (unat t) mod 2 ^ k"
proof -
  have "(2 ^ 32 :: nat) mod 2 ^ k = 0" using le_imp_power_dvd [OF assms] by (rule dvd_imp_mod_0)
  then show ?thesis using unat_succ [of t] by (metis mod_0)
qed

lemma block_left:
  assumes "live t e" and "unat (t + 1) mod 2 ^ k = 0" and "k \<le> 26"
  shows "unat e div 2 ^ k \<noteq> unat t div 2 ^ k"
proof
  let ?B = "2 ^ k :: nat"
  assume eq: "unat e div ?B = unat t div ?B"
  have "Suc (unat t) mod ?B = 0" using assms succ_mod [of k t] by simp
  then have "Suc (unat t mod ?B) = ?B" by (metis mod_Suc nat.distinct(1))
  then have "unat e mod ?B \<le> unat t mod ?B"
    by (metis less_Suc_eq_le mod_less_divisor zero_less_numeral zero_less_power)
  moreover have "unat e = unat t div ?B * ?B + unat e mod ?B" "unat t = unat t div ?B * ?B + unat t mod ?B"
    using eq by (metis div_mult_mod_eq)+
  moreover have "unat t mod ?B < ?B" by simp
  ultimately have "unat e \<le> unat t" "unat t - unat e < ?B" by linarith+
  moreover have "?B \<le> 2 ^ 26" using assms(3) by (rule power_increasing) simp
  ultimately have "unat e < unat t" "unat t - unat e < 2 ^ 26" using live_nat(1) [OF assms(1)] by simp_all
  then have "(2::nat) ^ 31 < 2 ^ 26" using live_nat(2) [OF assms(1)] by (meson less_trans)
  then show False by simp
qed

lemma block_kept:
  assumes "unat (t + 1 :: u32) mod 2 ^ k \<noteq> 0" and "k \<le> 32"
  shows "unat (t + 1) div 2 ^ k = unat t div 2 ^ k"
proof -
  have "unat (t + 1) = Suc (unat t)" using assms by (auto simp: unat_succ split: if_splits)
  moreover have "Suc (unat t) mod 2 ^ k \<noteq> 0" using assms succ_mod by metis
  ultimately show ?thesis by (simp add: div_Suc)
qed

fun rank :: "place \<Rightarrow> nat" where
  "rank (Near _) = 0"
| "rank (Level l _) = Suc l"

text \<open>Where the nodes of a level go when the clock enters a block of that level: those of the slot
  entered move to lower levels, the lower levels hold nothing, the others stay.\<close>

definition moves :: "nat \<Rightarrow> nat \<Rightarrow> nat \<Rightarrow> nat \<Rightarrow> nat \<Rightarrow> bool" where
  "moves i idx old ct e \<longleftrightarrow>
     (place_of old e = Level i idx \<longrightarrow> rank (place_of ct e) \<le> i) \<and>
     (place_of old e \<noteq> Level i idx \<longrightarrow> place_of ct e = place_of old e \<and> i < rank (place_of old e))"

text \<open>Block \<open>j\<close> of a time; the place is decided by the first block the two times share.\<close>

definition blk :: "nat \<Rightarrow> nat \<Rightarrow> nat" where
  "blk j e = e div 2 ^ (8 + 6 * j)"

lemma blk_simps: "blk 0 e = e div 2 ^ 8" "blk (Suc 0) e = e div 2 ^ 14" "blk (Suc (Suc 0)) e = e div 2 ^ 20"
  "blk (Suc (Suc (Suc 0))) e = e div 2 ^ 26" "blk (Suc (Suc (Suc (Suc 0)))) e = e div 2 ^ 32"
  by (simp_all add: blk_def)

lemma blk_Suc: "blk (Suc j) e = blk j e div 64"
proof -
  have "(2::nat) ^ (8 + 6 * Suc j) = 2 ^ (8 + 6 * j) * 64" by (simp add: power_add)
  then show ?thesis by (simp only: blk_def div_mult2_eq)
qed

lemma blk_up: "blk j e = blk j c \<Longrightarrow> j \<le> i \<Longrightarrow> blk i e = blk i c"
  by (induction i) (auto simp: le_Suc_eq blk_Suc)

lemma blk_4: "e < 2 ^ 32 \<Longrightarrow> blk 4 e = 0"
  by (simp add: blk_def)

definition first_blk :: "nat \<Rightarrow> nat \<Rightarrow> nat" where
  "first_blk ct e = (LEAST j. blk j e = blk j ct)"

lemma place_pick:
  "(case (if a then 0 else if b then Suc 0 else if c then Suc (Suc 0) else if d then Suc (Suc (Suc 0)) else Suc (Suc (Suc (Suc 0)))) of
      0 \<Rightarrow> x | Suc l \<Rightarrow> Level l (f l mod 64)) =
   (if a then x else if b then Level 0 (f 0 mod 64) else if c then Level 1 (f (Suc 0) mod 64)
    else if d then Level 2 (f (Suc (Suc 0)) mod 64) else Level 3 (f (Suc (Suc (Suc 0))) mod 64))"
  by (cases a; cases b; cases c; cases d;
      simp only: if_True if_False nat.case One_nat_def numeral_2_eq_2 numeral_3_eq_3)

lemma least_le_4:
  assumes "P (Suc (Suc (Suc (Suc 0))))"
  shows "(LEAST j. P j) = (if P 0 then 0 else if P (Suc 0) then Suc 0 else if P (Suc (Suc 0)) then Suc (Suc 0)
      else if P (Suc (Suc (Suc 0))) then Suc (Suc (Suc 0)) else Suc (Suc (Suc (Suc 0))))"
  using assms by (auto simp: Least_Suc Least_eq_0)

lemma place_of_first:
  assumes "e < 2 ^ 32" "ct < 2 ^ 32"
  shows "place_of ct e = (case first_blk ct e of 0 \<Rightarrow> Near (e mod 2 ^ 8) | Suc l \<Rightarrow> Level l (blk l e mod 64))"
proof -
  define P where "P j \<longleftrightarrow> blk j e = blk j ct" for j
  have end4: "P (Suc (Suc (Suc (Suc 0))))"
    unfolding P_def blk_simps using assms by simp
  note least_le_4 [of P, OF end4]
  then have "first_blk ct e = (if P 0 then 0 else if P (Suc 0) then Suc 0 else if P (Suc (Suc 0)) then Suc (Suc 0)
      else if P (Suc (Suc (Suc 0))) then Suc (Suc (Suc 0)) else Suc (Suc (Suc (Suc 0))))"
    by (simp add: first_blk_def P_def)
  then show ?thesis unfolding place_of_def P_def blk_simps by (simp only: place_pick blk_simps)
qed

lemma moves_level:
  assumes bounds: "e < 2 ^ 32" "old < 2 ^ 32" "ct < 2 ^ 32" and i: "i < 4"
    and left: "\<And>j. j \<le> i \<Longrightarrow> blk j e \<noteq> blk j old"
    and kept: "\<And>j. i < j \<Longrightarrow> j < 4 \<Longrightarrow> blk j ct = blk j old"
  shows "moves i (blk i ct mod 64) old ct e"
proof -
  have kept': "blk j ct = blk j old" if "i < j" "j \<le> 4" for j
    using that kept blk_4 bounds by (cases "j = 4") auto
  have ex: "blk 4 e = blk 4 c" if "c < 2 ^ 32" for c using blk_4 bounds that by simp
  have P: "blk (first_blk c e) e = blk (first_blk c e) c" and least: "\<And>j. blk j e = blk j c \<Longrightarrow> first_blk c e \<le> j"
    if "c < 2 ^ 32" for c
    unfolding first_blk_def using LeastI [of "\<lambda>j. blk j e = blk j c", OF ex [OF that]] Least_le by fast+
  let ?f = "first_blk old e"
  have f: "i < ?f" "?f \<le> 4" using P [OF bounds(2)] left least [OF bounds(2) ex [OF bounds(2)]] by (meson not_less)+
  have old: "place_of old e = Level (?f - 1) (blk (?f - 1) e mod 64)"
    using f by (simp add: place_of_first [OF bounds(1,2)] split: nat.split)
  have old_L: "place_of old e = Level i (blk i ct mod 64) \<longleftrightarrow> blk i e = blk i ct"
  proof
    assume "place_of old e = Level i (blk i ct mod 64)"
    then have "?f = Suc i" and m: "blk i e mod 64 = blk i ct mod 64" using old f by auto
    then have "blk (Suc i) e = blk (Suc i) ct" using P [OF bounds(2)] kept' [of "Suc i"] f by simp
    with m show "blk i e = blk i ct" by (metis blk_Suc div_mult_mod_eq)
  next
    assume eq: "blk i e = blk i ct"
    then have "blk (Suc i) e = blk (Suc i) old" using blk_up [OF eq, of "Suc i"] kept' [of "Suc i"] i by simp
    then have "?f = Suc i" using least [OF bounds(2)] f by (meson Suc_leI le_antisym)
    with old eq show "place_of old e = Level i (blk i ct mod 64)" by simp
  qed
  have rank_ct: "rank (place_of ct e) = first_blk ct e"
    by (simp add: place_of_first [OF bounds(1,3)] split: nat.split)
  show ?thesis
  proof (cases "blk i e = blk i ct")
    case True
    then show ?thesis using old_L rank_ct least [OF bounds(3)] by (simp add: moves_def)
  next
    case False
    have "blk j e = blk j ct \<longleftrightarrow> blk j e = blk j old" if "j \<le> 4" for j
      using that False blk_up [of j e ct i] left kept' [of j] by (cases "j \<le> i") auto
    then have "first_blk ct e = ?f"
      using least P bounds f(2) by (metis dual_order.trans le_antisym ex)
    then have "place_of ct e = place_of old e"
      by (simp only: place_of_first [OF bounds(1,2)] place_of_first [OF bounds(1,3)])
    moreover have "i < rank (place_of old e)" using old f by simp
    ultimately show ?thesis using False old_L by (simp add: moves_def)
  qed
qed

section \<open>The level that a tick re-sorts\<close>

lemma and_pred_zero_iff:
  assumes "k < 32"
  shows "(ct :: u32) AND (2 ^ k - 1) = 0 \<longleftrightarrow> unat ct mod 2 ^ k = 0"
proof -
  have "ct AND (2 ^ k - 1) = 0 \<longleftrightarrow> unat (ct AND mask k) = 0"
    by (simp add: mask_eq_exp_minus_1 unat_eq_zero)
  then show ?thesis by (simp only: and_mask_unat)
qed

lemma shift_index: "drop_bit k (ct :: u32) AND TIME_LEVEL_MASK = 0 \<longleftrightarrow> unat ct div 2 ^ k mod 64 = 0"
  using shifted_index [of k ct] by (metis unat_eq_zero)

lemma mod_next_level: "(c::nat) mod 2 ^ k = 0 \<Longrightarrow> c mod 2 ^ (k + 6) = 2 ^ k * (c div 2 ^ k mod 64)"
  by (simp add: power_add mod_mult2_eq)

lemma top_level:
  assumes "ct \<noteq> 0" "i \<le> 3" "unat (ct :: u32) mod 2 ^ (8 + 6 * i) = 0" "unat ct div 2 ^ (8 + 6 * i) mod 64 = 0"
  shows "i < 3"
proof (rule ccontr)
  assume "\<not> i < 3"
  then have k: "8 + 6 * i = 26" using assms(2) by simp
  have "unat ct div 2 ^ 26 < 64" using u32_less [of ct] by (simp add: less_mult_imp_div_less)
  then have "unat ct div 2 ^ 26 = 0" using assms(4) unfolding k by simp
  then have "unat ct = 0" using assms(3) unfolding k by simp
  with assms(1) show False by (simp add: unat_eq_zero)
qed

lemma shift_loop_level:
  assumes "ct \<noteq> 0" "i \<le> 3" "unat ct mod 2 ^ (8 + 6 * i) = 0"
  shows "\<exists>j. i \<le> j \<and> j < 4 \<and> unat ct mod 2 ^ (8 + 6 * j) = 0 \<and> blk j (unat ct) mod 64 \<noteq> 0 \<and>
    shift_loop ct (2 ^ (8 + 6 * i)) (drop_bit (8 + 6 * i) ct) i = Some (Some (j, blk j (unat ct) mod 64))"
  using assms
proof (induction "3 - i" arbitrary: i rule: less_induct)
  case (less i)
  let ?k = "8 + 6 * i"
  have k: "?k < 32" "?k + 6 = 8 + 6 * Suc i" using less.prems by simp_all
  have cond: "ct AND (2 ^ ?k - 1) = 0" using less.prems(3) by (rule and_pred_zero_iff [OF k(1), THEN iffD2])
  show ?case
  proof (cases "unat ct div 2 ^ ?k mod 64 = 0")
    case True
    then have "unat ct mod 2 ^ (8 + 6 * Suc i) = 0"
      using mod_next_level [OF less.prems(3)] unfolding k(2) by simp
    moreover have "shift_loop ct (2 ^ ?k) (drop_bit ?k ct) i =
        shift_loop ct (2 ^ (8 + 6 * Suc i)) (drop_bit (8 + 6 * Suc i) ct) (Suc i)"
    proof -
      have p: "push_bit TIME_LEVEL_SHIFT (2 ^ ?k :: u32) = 2 ^ (8 + 6 * Suc i)"
        by (simp add: TIME_LEVEL_SHIFT_def push_bit_eq_mult power_add)
      have d: "drop_bit TIME_LEVEL_SHIFT (drop_bit ?k ct) = drop_bit (8 + 6 * Suc i) ct"
        by (simp add: TIME_LEVEL_SHIFT_def drop_bit_drop_bit add.commute add.left_commute)
      show ?thesis
        by (subst shift_loop.simps) (simp only: cond shift_index True Let_def if_True if_False simp_thms p d)
    qed
    moreover have "i < 3" using top_level [OF less.prems] True by blast
    moreover have "3 - Suc i < 3 - i" "Suc i \<le> 3" using \<open>i < 3\<close> by simp_all
    ultimately show ?thesis using less.hyps [of "Suc i"] assms(1) by (metis Suc_leD)
  next
    case False
    have "shift_loop ct (2 ^ ?k) (drop_bit ?k ct) i = Some (Some (i, unat ct div 2 ^ ?k mod 64))"
      by (subst shift_loop.simps) (simp only: cond shift_index shifted_index False Let_def if_True if_False simp_thms)
    with False less.prems show ?thesis unfolding blk_def by (intro exI [of _ i]) auto
  qed
qed

lemma level_not_crossed:
  assumes "unat (ct :: u32) mod 2 ^ (8 + 6 * j) = 0" "blk j (unat ct) mod 64 \<noteq> 0" "j < l"
  shows "unat ct mod 2 ^ (8 + 6 * l) \<noteq> 0"
proof
  assume "unat ct mod 2 ^ (8 + 6 * l) = 0"
  then have "(2::nat) ^ (8 + 6 * l) dvd unat ct" by (rule mod_0_imp_dvd)
  moreover have "(2::nat) ^ (8 + 6 * j + 6) dvd 2 ^ (8 + 6 * l)" using assms(3) by (intro le_imp_power_dvd) simp
  ultimately have "(2::nat) ^ (8 + 6 * j + 6) dvd unat ct" by (rule dvd_trans [rotated])
  then have "2 ^ (8 + 6 * j) * (unat ct div 2 ^ (8 + 6 * j) mod 64) = (0::nat)"
    using mod_next_level [OF assms(1)] by (simp add: dvd_eq_mod_eq_0)
  with assms(2) show False by (simp add: blk_def)
qed

section \<open>The wheel refines the list of pending timers\<close>

text \<open>\<open>pend\<close> lists the pending timers in registration order; every slot holds the timers that belong
  to it, in that order.\<close>

definition wheel :: "timer \<Rightarrow> timer_node list \<Rightarrow> bool" where
  "wheel T pend \<longleftrightarrow> timer_shape T \<and>
     (\<forall>pl. valid_place pl \<longrightarrow> slot T pl = filter (\<lambda>n. placed (ticks T) n = pl) pend)"

definition timer_inv :: "timer \<Rightarrow> timer_node list \<Rightarrow> bool" where
  "timer_inv T pend \<longleftrightarrow> wheel T pend \<and> (\<forall>n \<in> set pend. live (ticks T) (expire n))"

lemma filter_moved:
  fixes r :: "'b \<Rightarrow> nat"
  assumes "\<And>n. n \<in> set pend \<Longrightarrow> (old n = L \<longrightarrow> r (new n) \<le> i) \<and> (old n \<noteq> L \<longrightarrow> new n = old n \<and> i < r (old n))"
    and "i < r L"
  shows "(if pl = L then [] else filter (\<lambda>n. old n = pl) pend) @ filter (\<lambda>n. new n = pl) (filter (\<lambda>n. old n = L) pend) =
    filter (\<lambda>n. new n = pl) pend"
proof (cases "pl = L \<or> r pl \<le> i")
  case True
  have "(if pl = L then [] else filter (\<lambda>n. old n = pl) pend) = []"
  proof (cases "pl = L")
    case False
    then have "old n \<noteq> pl" if "n \<in> set pend" for n
      using assms(1) [OF that] True by auto
    with False show ?thesis by (simp add: filter_empty_conv)
  qed simp
  moreover have "filter (\<lambda>n. new n = pl) (filter (\<lambda>n. old n = L) pend) = filter (\<lambda>n. new n = pl) pend"
  proof -
    have "old n = L" if "n \<in> set pend" "new n = pl" for n
      using assms(1) [OF that(1)] assms(2) True that(2) by (cases "old n = L") auto
    then show ?thesis unfolding filter_filter by (intro filter_cong) auto
  qed
  ultimately show ?thesis by simp
next
  case False
  then have "filter (\<lambda>n. new n = pl) (filter (\<lambda>n. old n = L) pend) = []"
    using assms by (fastforce simp: filter_empty_conv)
  moreover have "filter (\<lambda>n. old n = pl) pend = filter (\<lambda>n. new n = pl) pend"
    using False assms by (intro filter_cong) fastforce+
  ultimately show ?thesis using False by simp
qed

lemma slot_clocks [simp]:
  "slot (T\<lparr>ticks := ct\<rparr>) pl = slot T pl" "slot (T\<lparr>current_point := p\<rparr>) pl = slot T pl"
  "slot (T\<lparr>current := c\<rparr>) pl = slot T pl" "slot (T\<lparr>starttime := st\<rparr>) pl = slot T pl"
  by (cases pl; simp)+

lemma wheel_clocks [simp]:
  "wheel (T\<lparr>current_point := p\<rparr>) pend = wheel T pend" "wheel (T\<lparr>current := c\<rparr>) pend = wheel T pend"
  "wheel (T\<lparr>starttime := st\<rparr>) pend = wheel T pend"
  by (simp_all add: wheel_def timer_shape_def)

lemma wheel_move:
  assumes wheel: "wheel T pend" and l: "i < 4" "idx < 64"
    and moves: "\<And>n. n \<in> set pend \<Longrightarrow> moves i idx (unat (ticks T)) (unat ct) (unat (expire n))"
  shows "wheel (move_list (T\<lparr>ticks := ct\<rparr>) i idx) pend \<and> ticks (move_list (T\<lparr>ticks := ct\<rparr>) i idx) = ct"
proof -
  let ?T1 = "T\<lparr>ticks := ct\<rparr>" and ?L = "Level i idx"
  have shape: "timer_shape ?T1" using wheel by (simp add: wheel_def timer_shape_def)
  have slots: "slot ?T1 pl = filter (\<lambda>n. placed (ticks T) n = pl) pend" if "valid_place pl" for pl
    using wheel that by (simp add: wheel_def)
  note m = move_list_slots [OF shape l]
  have "slot (move_list ?T1 i idx) pl = filter (\<lambda>n. placed ct n = pl) pend" if pl: "valid_place pl" for pl
  proof -
    have "slot (move_list ?T1 i idx) pl = (if pl = ?L then [] else filter (\<lambda>n. placed (ticks T) n = pl) pend) @
        filter (\<lambda>n. placed ct n = pl) (filter (\<lambda>n. placed (ticks T) n = ?L) pend)"
      using m pl slots [OF pl] slots [of ?L] l by simp
    also have "\<dots> = filter (\<lambda>n. placed ct n = pl) pend"
      using moves by (intro filter_moved [where r = rank and i = i]) (auto simp: moves_def)
    finally show ?thesis .
  qed
  with m show ?thesis by (simp add: wheel_def)
qed

lemma wheel_same:
  assumes "wheel T pend" and "\<And>n. n \<in> set pend \<Longrightarrow> placed ct n = placed (ticks T) n"
  shows "wheel (T\<lparr>ticks := ct\<rparr>) pend"
proof -
  have "slot (T\<lparr>ticks := ct\<rparr>) pl = filter (\<lambda>n. placed ct n = pl) pend" if "valid_place pl" for pl
  proof -
    have "slot (T\<lparr>ticks := ct\<rparr>) pl = filter (\<lambda>n. placed (ticks T) n = pl) pend"
      using assms(1) that by (simp add: wheel_def)
    then show ?thesis using assms(2) by (simp cong: filter_cong)
  qed
  with assms(1) show ?thesis by (simp add: wheel_def timer_shape_def)
qed

lemma moves_tick:
  assumes "live t e" and "j < 4" and zero: "unat (t + 1) mod 2 ^ (8 + 6 * j) = 0"
    and top: "\<And>l. j < l \<Longrightarrow> l < 4 \<Longrightarrow> unat (t + 1) mod 2 ^ (8 + 6 * l) \<noteq> 0"
  shows "moves j (blk j (unat (t + 1)) mod 64) (unat t) (unat (t + 1)) (unat e)"
proof (rule moves_level [OF u32_less u32_less u32_less assms(2)])
  fix l assume l: "l \<le> j"
  have "(2::nat) ^ (8 + 6 * l) dvd 2 ^ (8 + 6 * j)" using l by (intro le_imp_power_dvd) simp
  then have "unat (t + 1) mod 2 ^ (8 + 6 * l) = 0"
    using zero by (meson dvd_imp_mod_0 dvd_trans mod_0_imp_dvd)
  then show "blk l (unat e) \<noteq> blk l (unat t)"
    unfolding blk_def using l assms(2) by (intro block_left [OF assms(1)]) simp_all
next
  fix l assume l: "j < l" "l < 4"
  show "blk l (unat (t + 1)) = blk l (unat t)"
    unfolding blk_def using l by (intro block_kept top) simp_all
qed

lemma place_same_block:
  assumes "unat (t + 1 :: u32) mod 2 ^ 8 \<noteq> 0"
  shows "place_of (unat (t + 1)) e = place_of (unat t) e"
proof -
  have "unat (t + 1) mod 2 ^ k \<noteq> 0" if "8 \<le> k" for k
  proof
    assume "unat (t + 1) mod 2 ^ k = 0"
    then have "(2::nat) ^ 8 dvd unat (t + 1)"
      using le_imp_power_dvd [OF that, of "2::nat"] by (meson dvd_trans mod_0_imp_dvd)
    with assms show False by (simp only: dvd_imp_mod_0)
  qed
  then have kept: "unat (t + 1) div 2 ^ k = unat t div 2 ^ k" if "8 \<le> k" "k \<le> 32" for k
    using that by (intro block_kept) simp_all
  have "unat (t + 1) div 2 ^ 8 = unat t div 2 ^ 8" "unat (t + 1) div 2 ^ 14 = unat t div 2 ^ 14"
      "unat (t + 1) div 2 ^ 20 = unat t div 2 ^ 20" "unat (t + 1) div 2 ^ 26 = unat t div 2 ^ 26"
    by (rule kept; simp)+
  then show ?thesis by (simp only: place_of_def)
qed

lemma timer_shift_wheel:
  assumes "timer_inv T pend"
  shows "\<exists>T'. timer_shift T = Ok T' \<and> wheel T' pend \<and> ticks T' = ticks T + 1"
proof -
  let ?t = "ticks T" and ?ct = "ticks T + 1"
  have w: "wheel T pend" and lv: "\<And>n. n \<in> set pend \<Longrightarrow> live ?t (expire n)"
    using assms by (auto simp: timer_inv_def)
  show ?thesis
  proof (cases "?ct = 0")
    case True
    have "moves 3 (blk 3 (unat ?ct) mod 64) (unat ?t) (unat ?ct) (unat (expire n))" if "n \<in> set pend" for n
      by (rule moves_tick [OF lv [OF that]]) (simp_all add: True)
    then have "wheel (move_list (T\<lparr>ticks := ?ct\<rparr>) 3 0) pend \<and> ticks (move_list (T\<lparr>ticks := ?ct\<rparr>) 3 0) = ?ct"
      by (intro wheel_move [OF w]) (simp_all add: True blk_def)
    then show ?thesis using True by (simp add: timer_shift_def Let_def)
  next
    case nz: False
    show ?thesis
    proof (cases "unat ?ct mod 2 ^ 8 = 0")
      case False
      have "shift_loop ?ct 256 (drop_bit TIME_NEAR_SHIFT ?ct) 0 = Some None"
        using False and_pred_zero_iff [of 8 ?ct] by (subst shift_loop.simps) simp
      moreover have "wheel (T\<lparr>ticks := ?ct\<rparr>) pend"
        using place_same_block [OF False] by (intro wheel_same [OF w]) simp
      ultimately show ?thesis using nz by (simp add: timer_shift_def Let_def)
    next
      case True
      have "\<exists>j. 0 \<le> j \<and> j < 4 \<and> unat ?ct mod 2 ^ (8 + 6 * j) = 0 \<and> blk j (unat ?ct) mod 64 \<noteq> 0 \<and>
          shift_loop ?ct (2 ^ (8 + 6 * 0)) (drop_bit (8 + 6 * 0) ?ct) 0 = Some (Some (j, blk j (unat ?ct) mod 64))"
        using True by (intro shift_loop_level [OF nz]) simp_all
      then obtain j where j: "j < 4" "unat ?ct mod 2 ^ (8 + 6 * j) = 0" "blk j (unat ?ct) mod 64 \<noteq> 0"
          "shift_loop ?ct 256 (drop_bit TIME_NEAR_SHIFT ?ct) 0 = Some (Some (j, blk j (unat ?ct) mod 64))"
        by (auto simp: TIME_NEAR_SHIFT_def)
      have "moves j (blk j (unat ?ct) mod 64) (unat ?t) (unat ?ct) (unat (expire n))" if "n \<in> set pend" for n
        using level_not_crossed [OF j(2,3)] by (intro moves_tick [OF lv [OF that] j(1,2)])
      then have "wheel (move_list (T\<lparr>ticks := ?ct\<rparr>) j (blk j (unat ?ct) mod 64)) pend \<and>
          ticks (move_list (T\<lparr>ticks := ?ct\<rparr>) j (blk j (unat ?ct) mod 64)) = ?ct"
        by (intro wheel_move [OF w j(1)]) simp_all
      then show ?thesis using nz j by (simp add: timer_shift_def Let_def)
    qed
  qed
qed

lemma near_now_iff: "placed t n = Near (unat t mod 2 ^ 8) \<longleftrightarrow> expire n = t"
proof
  assume "placed t n = Near (unat t mod 2 ^ 8)"
  then have "unat (expire n) div 2 ^ 8 = unat t div 2 ^ 8" "unat (expire n) mod 2 ^ 8 = unat t mod 2 ^ 8"
    by (auto simp: place_of_def split: if_splits)
  then have "unat (expire n) = unat t" by (metis div_mult_mod_eq)
  then show "expire n = t" by (rule word_unat_eq_iff [THEN iffD2])
qed (simp add: place_of_def)

lemma near_index: "unat (t AND TIME_NEAR_MASK) = unat t mod 2 ^ 8"
  by (simp only: near_mask and_mask_unat)

text \<open>A node linked while the lock is released in \<open>timer_execute\<close> does not reach the slot being emptied:
  \<open>timer_add\<close> is only called with a positive time.\<close>

lemma add_node_other_slot:
  assumes "timer_shape T" and "expire n \<noteq> ticks T"
  shows "near (add_node T n) ! unat (ticks T AND TIME_NEAR_MASK) = near T ! unat (ticks T AND TIME_NEAR_MASK)"
proof -
  have "placed (ticks T) n \<noteq> Near (unat (ticks T) mod 2 ^ 8)" using assms(2) near_now_iff by blast
  moreover have "slot (add_node T n) (Near (unat (ticks T) mod 2 ^ 8)) =
      slot T (Near (unat (ticks T) mod 2 ^ 8)) @
      (if placed (ticks T) n = Near (unat (ticks T) mod 2 ^ 8) then [n] else [])"
    unfolding add_node_place using assms(1) by (intro slot_link) simp_all
  ultimately show ?thesis by (simp only: near_index slot.simps if_False append_Nil2)
qed

lemma timer_execute_wheel:
  assumes "wheel T pend"
  shows "\<exists>T'. timer_execute T = (dispatch_list (filter (\<lambda>n. expire n = ticks T) pend), T') \<and>
    wheel T' (filter (\<lambda>n. expire n \<noteq> ticks T) pend) \<and> ticks T' = ticks T"
proof -
  let ?i = "unat (ticks T) mod 2 ^ 8"
  let ?T' = "T\<lparr>near := (near T)[?i := []]\<rparr>"
  have len: "length (near T) = 256" and i: "?i < 256" using assms by (simp_all add: wheel_def timer_shape_def)
  have here: "near T ! ?i = filter (\<lambda>n. expire n = ticks T) pend"
    using assms [unfolded wheel_def, THEN conjunct2, rule_format, of "Near ?i"] near_now_iff by simp
  have "slot ?T' pl = filter (\<lambda>n. placed (ticks T) n = pl) (filter (\<lambda>n. expire n \<noteq> ticks T) pend)"
    if pl: "valid_place pl" for pl
  proof (cases "pl = Near ?i")
    case True
    then show ?thesis using len i near_now_iff by (simp add: filter_filter)
  next
    case False
    then have "slot ?T' pl = slot T pl" by (cases pl) auto
    also have "\<dots> = filter (\<lambda>n. placed (ticks T) n = pl) pend" using assms pl by (simp add: wheel_def)
    also have "\<dots> = filter (\<lambda>n. placed (ticks T) n = pl) (filter (\<lambda>n. expire n \<noteq> ticks T) pend)"
      using False near_now_iff unfolding filter_filter by (intro filter_cong) auto
    finally show ?thesis .
  qed
  then have w: "wheel ?T' (filter (\<lambda>n. expire n \<noteq> ticks T) pend)"
    using assms by (simp add: wheel_def timer_shape_def)
  have same: "?T' = T" if "near T ! ?i = []"
  proof -
    have "(near T)[?i := []] = near T" using list_update_id [of "near T" ?i] unfolding that .
    then show ?thesis by simp
  qed
  have "timer_execute T = (dispatch_list (near T ! ?i), ?T')"
    using same unfolding timer_execute_def near_index Let_def clear_near_def
    by (cases "near T ! ?i = []") (simp_all only: if_True if_False simp_thms prod.case dispatch_list.simps)
  then show ?thesis using w unfolding here by auto
qed

lemma live_succ:
  assumes "live t e" "e \<noteq> t + 1"
  shows "live (t + 1) e"
proof -
  have "unat (e - t) \<noteq> 0" "e - t \<noteq> 1" using assms by (auto simp: live_def algebra_simps)
  then have "unat (e - t - 1) = unat (e - t) - 1" by (intro unat_minus_one) auto
  moreover have "unat (e - t) \<noteq> 1" using \<open>e - t \<noteq> 1\<close> by (metis unat_1 word_unat_eq_iff)
  ultimately show ?thesis using assms(1) by (auto simp: live_def diff_diff_eq)
qed

lemma timer_update_wheel:
  assumes "timer_inv T pend"
  shows "\<exists>T'. timer_update T = Ok (dispatch_list (filter (\<lambda>n. expire n = ticks T + 1) pend), T') \<and>
    timer_inv T' (filter (\<lambda>n. expire n \<noteq> ticks T + 1) pend) \<and> ticks T' = ticks T + 1"
proof -
  have lv: "\<And>n. n \<in> set pend \<Longrightarrow> live (ticks T) (expire n)" and w: "wheel T pend"
    using assms by (auto simp: timer_inv_def)
  have none: "filter (\<lambda>n. expire n = ticks T) pend = []" "filter (\<lambda>n. expire n \<noteq> ticks T) pend = pend"
    using lv by (fastforce simp: filter_empty_conv filter_id_conv live_def)+
  obtain T0 where T0: "timer_execute T = ([], T0)" "wheel T0 pend" "ticks T0 = ticks T"
    using timer_execute_wheel [OF w] unfolding none by auto
  then have "timer_inv T0 pend" using lv by (simp add: timer_inv_def)
  from timer_shift_wheel [OF this] obtain T1 where T1: "timer_shift T0 = Ok T1" "wheel T1 pend" "ticks T1 = ticks T + 1"
    using T0 by auto
  obtain T2 where "timer_execute T1 = (dispatch_list (filter (\<lambda>n. expire n = ticks T + 1) pend), T2)"
      "wheel T2 (filter (\<lambda>n. expire n \<noteq> ticks T + 1) pend)" "ticks T2 = ticks T + 1"
    using timer_execute_wheel [OF T1(2)] T1(3) by auto
  then show ?thesis using T0 T1 lv live_succ by (auto simp: timer_update_def timer_inv_def)
qed

section \<open>The timer service against its specification\<close>

text \<open>The specification keeps an unbounded clock and the pending timers as (due time, handle, session),
  in registration order. A tick delivers the timers that are due, in that order.\<close>

record timer_spec =
  clk :: nat
  due :: "(nat \<times> u32 \<times> u32) list"
  point :: u64
  now :: u64

definition spec_tick :: "timer_spec \<Rightarrow> (u32 \<times> skynet_message) list \<times> timer_spec" where
  "spec_tick S =
     (map (\<lambda>(_, h, s). (h, timeout_message s)) (filter (\<lambda>(d, _). d = Suc (clk S)) (due S)),
      S\<lparr>clk := Suc (clk S), due := filter (\<lambda>(d, _). d \<noteq> Suc (clk S)) (due S)\<rparr>)"

fun spec_ticks :: "nat \<Rightarrow> timer_spec \<Rightarrow> (u32 \<times> skynet_message) list \<times> timer_spec" where
  "spec_ticks 0 S = ([], S)"
| "spec_ticks (Suc n) S =
     (case spec_tick S of (out, S1) \<Rightarrow> case spec_ticks n S1 of (out', S2) \<Rightarrow> (out @ out', S2))"

datatype timer_op = Timeout u32 u32 u32 | Updatetime u64

fun spec_op :: "timer_op \<Rightarrow> timer_spec \<Rightarrow> (u32 \<times> skynet_message) list \<times> timer_spec" where
  "spec_op (Timeout h t s) S =
     (if sint t \<le> 0 then ([(h, timeout_message s)], S)
      else ([], S\<lparr>due := due S @ [(clk S + unat t, h, s)]\<rparr>))"
| "spec_op (Updatetime cp) S =
     (if cp \<le> point S then ([], S\<lparr>point := cp\<rparr>)
      else let n = unat (cp - point S) mod 2 ^ 32 in
        spec_ticks n (S\<lparr>point := cp, now := now S + of_nat n\<rparr>))"

text \<open>The code's calls; the messages of \<open>skynet_context_push\<close> are logged.\<close>

definition log_push :: "u32 \<Rightarrow> skynet_message \<Rightarrow> (u32 \<times> skynet_message) list \<Rightarrow> int \<times> (u32 \<times> skynet_message) list" where
  "log_push h m w = (0, w @ [(h, m)])"

fun timer_call :: "timer_op \<Rightarrow> timer \<Rightarrow> ((u32 \<times> skynet_message) list \<times> timer) res" where
  "timer_call (Timeout h t s) T = (case skynet_timeout log_push h t s (T, []) of (_, T', out) \<Rightarrow> Ok (out, T'))"
| "timer_call (Updatetime cp) T = skynet_updatetime cp T"

fun timer_run :: "timer_op list \<Rightarrow> timer \<Rightarrow> ((u32 \<times> skynet_message) list \<times> timer) res" where
  "timer_run [] T = Ok ([], T)"
| "timer_run (x # xs) T =
     res_bind (timer_call x T) (\<lambda>(out, T1). res_bind (timer_run xs T1) (\<lambda>(out', T2). Ok (out @ out', T2)))"

fun spec_run :: "timer_op list \<Rightarrow> timer_spec \<Rightarrow> (u32 \<times> skynet_message) list \<times> timer_spec" where
  "spec_run [] S = ([], S)"
| "spec_run (x # xs) S =
     (case spec_op x S of (out, S1) \<Rightarrow> case spec_run xs S1 of (out', S2) \<Rightarrow> (out @ out', S2))"

definition node_of :: "nat \<times> u32 \<times> u32 \<Rightarrow> timer_node" where
  "node_of = (\<lambda>(d, h, s). \<lparr>expire = of_nat d, ev_handle = h, ev_session = s\<rparr>)"

definition timer_rel :: "timer \<Rightarrow> timer_spec \<Rightarrow> bool" where
  "timer_rel T S \<longleftrightarrow> timer_inv T (map node_of (due S)) \<and> ticks T = of_nat (clk S) \<and>
     (\<forall>(d, _) \<in> set (due S). clk S < d \<and> d < clk S + 2 ^ 31) \<and>
     current_point T = point S \<and> skynet_now T = now S"

lemma of_nat_u32_eq:
  assumes "c < d" "d < c + 2 ^ 31"
  shows "(of_nat d :: u32) = of_nat c + 1 \<longleftrightarrow> d = Suc c"
proof -
  have "(of_nat d :: u32) = of_nat c + 1 \<longleftrightarrow> (of_nat d :: u32) = of_nat (Suc c)" by (simp add: add.commute)
  also have "\<dots> \<longleftrightarrow> (of_nat (d - c) :: u32) = of_nat 1" using assms by (simp add: of_nat_diff algebra_simps)
  also have "\<dots> \<longleftrightarrow> d - c = 1"
  proof -
    have "d - c < 2 ^ LENGTH(32)" "1 < (2 ^ LENGTH(32) :: nat)" using assms by simp_all
    then show ?thesis by (metis of_nat_inverse)
  qed
  finally show ?thesis using assms by auto
qed

lemma dispatch_nodes: "dispatch_list (map node_of xs) = map (\<lambda>(_, h, s). (h, timeout_message s)) xs"
  by (induction xs) (auto simp: node_of_def)

lemma clocks_kept [simp]:
  "current_point (add_node T n) = current_point T" "current (add_node T n) = current T"
  by (simp_all add: add_node_def Let_def link_near_def link_level_def)

lemma clocks_foldl [simp]:
  "current_point (foldl add_node T ns) = current_point T" "current (foldl add_node T ns) = current T"
  by (induction ns arbitrary: T) simp_all

lemma timer_update_clocks:
  assumes "timer_update T = Ok (out, T')"
  shows "current_point T' = current_point T \<and> current T' = current T"
proof -
  have ml: "current_point (move_list T l i) = current_point T" "current (move_list T l i) = current T" for T l i
    by (simp_all add: move_list_def clear_level_def)
  have ex: "current_point T' = current_point T \<and> current T' = current T" if "timer_execute T = (out, T')" for T T' out
    using that by (auto simp: timer_execute_def Let_def clear_near_def split: if_splits)
  have sh: "current_point T' = current_point T \<and> current T' = current T" if "timer_shift T = Ok T'" for T T'
    using that by (auto simp: timer_shift_def Let_def ml split: if_splits option.splits)
  obtain out0 T0 T1 out1 where "timer_execute T = (out0, T0)" "timer_shift T0 = Ok T1" "timer_execute T1 = (out1, T')"
    using assms by (cases "timer_execute T") (auto simp: timer_update_def split_beta prod_eq_iff)
  then show ?thesis using ex sh by metis
qed

lemma timer_rel_tick:
  assumes "timer_rel T S"
  shows "\<exists>T'. timer_update T = Ok (fst (spec_tick S), T') \<and> timer_rel T' (snd (spec_tick S))"
proof -
  have inv: "timer_inv T (map node_of (due S))" and t: "ticks T = of_nat (clk S)"
    and range: "\<And>x. x \<in> set (due S) \<Longrightarrow> clk S < fst x \<and> fst x < clk S + 2 ^ 31"
    using assms by (auto simp: timer_rel_def)
  have "expire (node_of x) = ticks T + 1 \<longleftrightarrow> (\<lambda>(d, _). d = Suc (clk S)) x" if "x \<in> set (due S)" for x
    using range [OF that] of_nat_u32_eq [of "clk S" "fst x"] by (auto simp: node_of_def t split: prod.split)
  then have pick: "filter (\<lambda>n. expire n = ticks T + 1) (map node_of (due S)) =
        map node_of (filter (\<lambda>(d, _). d = Suc (clk S)) (due S))"
      "filter (\<lambda>n. expire n \<noteq> ticks T + 1) (map node_of (due S)) =
        map node_of (filter (\<lambda>(d, _). d \<noteq> Suc (clk S)) (due S))"
    by (auto simp: filter_map o_def split_beta intro!: arg_cong [where f = "map node_of"] filter_cong)
  obtain T' where T': "timer_update T = Ok (fst (spec_tick S), T')" "timer_inv T' (map node_of (due (snd (spec_tick S))))"
      "ticks T' = ticks T + 1"
    using timer_update_wheel [OF inv] unfolding pick dispatch_nodes by (auto simp: spec_tick_def)
  moreover have "\<forall>(d, _) \<in> set (due (snd (spec_tick S))). Suc (clk S) < d \<and> d < Suc (clk S) + 2 ^ 31"
    using range by (fastforce simp: spec_tick_def)
  ultimately have "timer_rel T' (snd (spec_tick S))"
    using timer_update_clocks [OF T'(1)] assms t by (simp add: timer_rel_def spec_tick_def skynet_now_def)
  with T'(1) show ?thesis by blast
qed

lemma timer_rel_ticks:
  "timer_rel T S \<Longrightarrow> \<exists>T'. update_loop n T = Ok (fst (spec_ticks n S), T') \<and> timer_rel T' (snd (spec_ticks n S))"
proof (induction n arbitrary: T S)
  case (Suc n)
  from timer_rel_tick [OF Suc.prems] obtain T1 where
    "timer_update T = Ok (fst (spec_tick S), T1)" "timer_rel T1 (snd (spec_tick S))" by blast
  moreover from Suc.IH [OF this(2)] obtain T2 where
    "update_loop n T1 = Ok (fst (spec_ticks n (snd (spec_tick S))), T2)"
    "timer_rel T2 (snd (spec_ticks n (snd (spec_tick S))))" by blast
  ultimately show ?case by (simp add: split_beta)
qed simp

lemma timer_rel_add:
  assumes "timer_rel T S" "0 < sint t"
  shows "timer_rel (timer_add T h s t) (S\<lparr>due := due S @ [(clk S + unat t, h, s)]\<rparr>)"
proof -
  let ?n = "node_of (clk S + unat t, h, s)"
  have n: "timer_add T h s t = add_node T ?n"
    using assms(1) by (simp add: timer_add_def node_of_def timer_rel_def add.commute)
  have inv: "timer_inv T (map node_of (due S))" and w: "wheel T (map node_of (due S))"
    using assms(1) by (auto simp: timer_rel_def timer_inv_def)
  have t: "0 < unat t" "unat t < 2 ^ 31"
  proof -
    have "uint t = sint t"
      using assms(2) sint_lt [of t] uint_sint [of t] by (simp add: take_bit_int_eq_self)
    then show "0 < unat t" "unat t < 2 ^ 31"
      using assms(2) sint_lt [of t] by (simp_all add: unat_eq_nat_uint nat_less_iff)
  qed
  have "unat (expire ?n - ticks T) = unat t" using assms(1) by (simp add: node_of_def timer_rel_def)
  then have live: "live (ticks T) (expire ?n)" using t by (simp add: live_def)
  have "timer_inv (add_node T ?n) (map node_of (due S) @ [?n])"
    using w inv live by (auto simp: timer_inv_def wheel_def add_node_place)
  moreover have "ticks (add_node T ?n) = ticks T" by (simp add: add_node_place)
  ultimately show ?thesis using assms(1) t unfolding n by (auto simp: timer_rel_def skynet_now_def)
qed

lemma timer_rel_op:
  assumes "timer_rel T S"
  shows "\<exists>T'. timer_call x T = Ok (fst (spec_op x S), T') \<and> timer_rel T' (snd (spec_op x S))"
proof (cases x)
  case (Timeout h t s)
  then show ?thesis using assms timer_rel_add [OF assms]
    by (auto simp: skynet_timeout_def log_push_def)
next
  case (Updatetime cp)
  have p: "current_point T = point S" using assms by (simp add: timer_rel_def)
  show ?thesis
  proof (cases "cp \<le> point S")
    case True
    then show ?thesis using assms p Updatetime
      by (auto simp: skynet_updatetime_def timer_rel_def skynet_now_def timer_inv_def)
  next
    case False
    let ?d = "ucast (cp - point S) :: u32" and ?n = "unat (cp - point S) mod 2 ^ 32"
    have d: "unat ?d = ?n" "(ucast ?d :: u64) = of_nat ?n"
      by (simp_all add: unsigned_ucast_eq take_bit_eq_mod word_unat_eq_iff unat_of_nat unat_mod_distrib)
    have "timer_rel (T\<lparr>current_point := cp, current := current T + ucast ?d\<rparr>) (S\<lparr>point := cp, now := now S + of_nat ?n\<rparr>)"
      using assms d by (auto simp: timer_rel_def skynet_now_def timer_inv_def)
    from timer_rel_ticks [OF this, of ?n] show ?thesis
      using False Updatetime p d by (auto simp: skynet_updatetime_def Let_def)
  qed
qed

lemma timer_rel_run:
  "timer_rel T S \<Longrightarrow> \<exists>T'. timer_run xs T = Ok (fst (spec_run xs S), T') \<and> timer_rel T' (snd (spec_run xs S))"
proof (induction xs arbitrary: T S)
  case (Cons x xs)
  from timer_rel_op [OF Cons.prems, of x] obtain T1 where
    "timer_call x T = Ok (fst (spec_op x S), T1)" "timer_rel T1 (snd (spec_op x S))" by blast
  moreover from Cons.IH [OF this(2)] obtain T2 where
    "timer_run xs T1 = Ok (fst (spec_run xs (snd (spec_op x S))), T2)"
    "timer_rel T2 (snd (spec_run xs (snd (spec_op x S))))" by blast
  ultimately show ?case by (simp add: split_beta)
qed simp

definition spec_init :: "u64 \<times> u64 \<Rightarrow> u64 \<times> u64 \<Rightarrow> timer_spec" where
  "spec_init realtime monotonic = \<lparr>clk = 0, due = [], point = fst monotonic * 100 + snd monotonic div 10000000,
     now = of_nat (unat (snd realtime) div 10000000 mod 2 ^ 32)\<rparr>"

lemma timer_rel_init: "timer_rel (skynet_timer_init realtime monotonic) (spec_init realtime monotonic)"
proof -
  have "timer_shape timer_create_timer"
    by (simp add: timer_shape_def timer_create_timer_def TIME_NEAR_def TIME_LEVEL_def)
  moreover have "slot timer_create_timer pl = []" if "valid_place pl" for pl
    using that by (cases pl) (simp_all add: timer_create_timer_def TIME_NEAR_def TIME_LEVEL_def)
  ultimately have "wheel timer_create_timer []" by (simp add: wheel_def)
  moreover have "ticks timer_create_timer = 0" by (simp add: timer_create_timer_def)
  ultimately show ?thesis
    by (simp add: timer_rel_def timer_inv_def skynet_timer_init_def spec_init_def systime_def gettime_def
        skynet_now_def unsigned_ucast_eq take_bit_eq_mod word_unat_eq_iff unat_of_nat unat_mod_distrib unat_div_distrib)
qed

section \<open>Properties\<close>

text \<open>C16: whatever calls of \<open>skynet_timeout\<close> and \<open>skynet_updatetime\<close> are made after
  \<open>skynet_timer_init\<close>, in any order and number, none of them fails or loops, and the messages pushed
  are those of the specification with an unbounded clock: a timeout of a time that is not positive is
  answered at once, a timer set for \<open>t\<close> ticks fires at the \<open>t\<close>th tick from then, once, and timers due
  at one tick fire in the order of their registration. The 32-bit clock of the wheel may wrap around.\<close>

theorem timer_service_correct:
  "\<exists>T'. timer_run xs (skynet_timer_init realtime monotonic) = Ok (fst (spec_run xs (spec_init realtime monotonic)), T') \<and>
    skynet_now T' = now (snd (spec_run xs (spec_init realtime monotonic)))"
  using timer_rel_run [OF timer_rel_init] by (meson timer_rel_def)

text \<open>The timing wheel refines the list of pending timers. In a state whose slots hold the timers
  \<open>pend\<close>, one call of \<open>timer_update\<close> returns, dispatches exactly the timers that expire at the new
  time, in registration order, and leaves a wheel for the others; the loop of \<open>timer_shift\<close> ends and
  its level index stays in the array.\<close>

lemma timer_update_refines:
  assumes "timer_inv T pend"
  shows "\<exists>T'. timer_update T = Ok (dispatch_list (filter (\<lambda>n. expire n = ticks T + 1) pend), T') \<and>
    timer_inv T' (filter (\<lambda>n. expire n \<noteq> ticks T + 1) pend) \<and> ticks T' = ticks T + 1"
  by (rule timer_update_wheel [OF assms])

definition wheel_at :: "u32 \<Rightarrow> timer" where
  "wheel_at t = timer_create_timer\<lparr>ticks := t\<rparr>"

lemma wheel_at_inv: "timer_inv (wheel_at t) []"
proof -
  have "slot (wheel_at t) pl = []" if "valid_place pl" for pl
    using that by (cases pl) (simp_all add: wheel_at_def timer_create_timer_def TIME_NEAR_def TIME_LEVEL_def)
  then show ?thesis
    by (simp add: timer_inv_def wheel_def timer_shape_def wheel_at_def timer_create_timer_def TIME_NEAR_def TIME_LEVEL_def)
qed

lemma timer_inv_add:
  assumes "timer_inv T pend" and "live (ticks T) (expire n)"
  shows "timer_inv (add_node T n) (pend @ [n])"
  using assms by (auto simp: timer_inv_def wheel_def add_node_place)

lemma timer_update_refines_witness:
  "\<exists>T'. timer_update (timer_add (wheel_at 0xFFFFFFFF) 7 9 1) = Ok ([(7, timeout_message 9)], T') \<and> ticks T' = 0"
proof -
  let ?n = "\<lparr>expire = 0, ev_handle = 7, ev_session = 9\<rparr>"
  have t: "ticks (wheel_at 0xFFFFFFFF) = 0xFFFFFFFF" by (simp add: wheel_at_def)
  have "timer_inv (add_node (wheel_at 0xFFFFFFFF) ?n) ([] @ [?n])"
    by (rule timer_inv_add [OF wheel_at_inv]) (simp add: t live_def)
  moreover have zero: "(0xFFFFFFFF :: u32) + 1 = 0" by simp
  moreover have "timer_add (wheel_at 0xFFFFFFFF) 7 9 1 = add_node (wheel_at 0xFFFFFFFF) ?n"
    unfolding timer_add_def t add.commute [of "1::u32"] zero ..
  ultimately show ?thesis
    using timer_update_refines [of "add_node (wheel_at 0xFFFFFFFF) ?n" "[] @ [?n]"]
    by (auto simp: add_node_place t zero simp del: add_numeral_special)
qed

end
