(* ===== verification/Skynet_Frames.thy ===== *)
theory Skynet_Frames
  imports Skynet_Prelude
begin

text \<open>
  The wire format that the gate, the harbor and the netpack library share: a packet is a big-endian
  length of a fixed number of bytes and as many bytes of payload. This theory has the
  specification, \<open>be_frames\<close>, which cuts a whole byte stream into packets, and the interface of a
  component that receives the stream in arbitrary pieces; what such a component delivers does not
  depend on the pieces.
\<close>

section \<open>Big-endian numbers\<close>

fun be_nat :: "byte list \<Rightarrow> nat" where
  "be_nat [] = 0"
| "be_nat (b # bs) = unat b * 256 ^ length bs + be_nat bs"

fun be_bytes :: "nat \<Rightarrow> nat \<Rightarrow> byte list" where
  "be_bytes 0 v = []"
| "be_bytes (Suc n) v = of_nat (v div 256 ^ n) # be_bytes n v"

lemma length_be_bytes [simp]: "length (be_bytes n v) = n"
  by (induction n) simp_all

lemma be_nat_less: "be_nat bs < 256 ^ length bs"
proof (induction bs)
  case (Cons b bs)
  have "unat b < 256" using unsigned_less [where 'a = nat and 'b = 8, of b] by simp
  then have "unat b * 256 ^ length bs + be_nat bs < unat b * 256 ^ length bs + 256 ^ length bs" using Cons by simp
  also have "\<dots> = Suc (unat b) * 256 ^ length bs" by simp
  also have "\<dots> \<le> 256 * 256 ^ length bs" using \<open>unat b < 256\<close> by (intro mult_right_mono) simp_all
  finally show ?case by simp
qed simp

lemma be_nat_bytes: "be_nat (be_bytes n v) = v mod 256 ^ n"
proof (induction n)
  case (Suc n)
  have "be_nat (be_bytes (Suc n) v) = v div 256 ^ n mod 256 * 256 ^ n + v mod 256 ^ n"
    using Suc by (simp add: unat_of_nat)
  also have "\<dots> = v mod (256 ^ n * 256)" unfolding mod_mult2_eq by simp
  finally show ?case by (simp only: power_Suc2)
qed simp

lemma be_bytes_nat: "be_bytes (length bs) (be_nat bs) = bs"
proof -
  have "be_bytes (length bs) (k * 256 ^ length bs + be_nat bs) = bs" for k
  proof (induction bs arbitrary: k)
    case (Cons b bs)
    have "k * 256 ^ length (b # bs) + be_nat (b # bs) = (k * 256 + unat b) * 256 ^ length bs + be_nat bs"
      by (simp add: algebra_simps)
    moreover have "((k * 256 + unat b) * 256 ^ length bs + be_nat bs) div 256 ^ length bs = k * 256 + unat b"
      using be_nat_less [of bs] by simp
    moreover have "(of_nat (k * 256 + unat b) :: byte) = b"
    proof -
      have zero: "(256 :: byte) = 0" by simp
      have "(of_nat (k * 256 + unat b) :: byte) = of_nat k * 256 + b" by simp
      then show ?thesis by (simp only: zero mult_zero_right add_0)
    qed
    ultimately show ?case using Cons [of "k * 256 + unat b"] by (simp only: list.size be_bytes.simps add_0_right add_Suc_right)
  qed simp
  from this [of 0] show ?thesis by simp
qed

text \<open>Four bytes put together with shifts.\<close>

lemma bit_shifted_byte: "bit (push_bit k (ucast (b :: byte) :: u32)) n \<longleftrightarrow> k \<le> n \<and> n < 32 \<and> n < k + 8 \<and> bit b (n - k)"
proof -
  have "bit b (n - k) \<Longrightarrow> n - k < 8" using bit_imp_le_length [of b "n - k"] by simp
  then show ?thesis by (auto simp: bit_simps)
qed

lemma bit_byte: "bit (ucast (b :: byte) :: u32) n \<longleftrightarrow> n < 8 \<and> bit b n"
  using bit_shifted_byte [of 0 b n] by auto

lemma be_word4:
  "(push_bit 24 (ucast a) OR push_bit 16 (ucast b) OR push_bit 8 (ucast c) OR ucast d :: u32) = of_nat (be_nat [a, b, c, d])"
proof -
  have "(of_nat (be_nat [a, b, c, d]) :: u32) =
      push_bit 24 (ucast a) + (push_bit 16 (ucast b) + (push_bit 8 (ucast c) + ucast d))"
    by (simp add: push_bit_eq_mult)
  also have "push_bit 8 (ucast c) + ucast d = push_bit 8 (ucast c) OR (ucast d :: u32)"
    by (rule disjunctive_add) (auto simp: bit_shifted_byte bit_byte)
  also have "push_bit 16 (ucast b) + (push_bit 8 (ucast c) OR ucast d) =
      push_bit 16 (ucast b) OR (push_bit 8 (ucast c) OR (ucast d :: u32))"
    by (rule disjunctive_add) (auto simp: bit_shifted_byte bit_byte bit_or_iff)
  also have "push_bit 24 (ucast a) + (push_bit 16 (ucast b) OR (push_bit 8 (ucast c) OR ucast d)) =
      push_bit 24 (ucast a) OR (push_bit 16 (ucast b) OR (push_bit 8 (ucast c) OR (ucast d :: u32)))"
    by (rule disjunctive_add) (auto simp: bit_shifted_byte bit_byte bit_or_iff)
  finally show ?thesis by simp
qed
section \<open>Cutting a stream into packets\<close>

text \<open>\<open>be_frames n bs\<close>: the payloads of the complete packets at the start of \<open>bs\<close>, and what is left.\<close>

function be_frames :: "nat \<Rightarrow> byte list \<Rightarrow> byte list list \<times> byte list" where
  "be_frames n bs =
     (if n = 0 \<or> length bs < n then ([], bs)
      else let len = be_nat (take n bs) in
        if length bs < n + len then ([], bs)
        else (case be_frames n (drop (n + len) bs) of
                (fs, r) \<Rightarrow> (take len (drop n bs) # fs, r)))"
  by pat_completeness auto
termination
  by (relation "measure (\<lambda>(_, bs). length bs)") auto

declare be_frames.simps [simp del]

text \<open>\<open>be_all n P bs\<close>: every announced length satisfies \<open>P\<close>.\<close>

function be_all :: "nat \<Rightarrow> (nat \<Rightarrow> bool) \<Rightarrow> byte list \<Rightarrow> bool" where
  "be_all n P bs \<longleftrightarrow>
     (if n = 0 \<or> length bs < n then True
      else let len = be_nat (take n bs) in
        if \<not> P len then False
        else if length bs < n + len then True else be_all n P (drop (n + len) bs))"
  by pat_completeness auto
termination
  by (relation "measure (\<lambda>(_, _, bs). length bs)") auto

declare be_all.simps [simp del]

abbreviation be_limit :: "nat \<Rightarrow> nat \<Rightarrow> byte list \<Rightarrow> bool" where
  "be_limit n lim \<equiv> be_all n (\<lambda>len. len < lim)"

lemma be_frames_short: "length bs < n \<Longrightarrow> be_frames n bs = ([], bs)"
  by (simp add: be_frames.simps)

lemma be_frames_partial:
  "n \<le> length bs \<Longrightarrow> length bs < n + be_nat (take n bs) \<Longrightarrow> be_frames n bs = ([], bs)"
  by (simp add: be_frames.simps [of n bs])

lemma be_frames_step:
  assumes "0 < n" "length h = n" "length p = be_nat h"
  shows "be_frames n (h @ p @ bs) = (p # fst (be_frames n bs), snd (be_frames n bs))"
  using assms by (simp add: be_frames.simps [of n "h @ p @ bs"] Let_def split_beta)

lemma be_frames_append:
  assumes "0 < n"
  shows "be_frames n (xs @ ys) =
    (fst (be_frames n xs) @ fst (be_frames n (snd (be_frames n xs) @ ys)), snd (be_frames n (snd (be_frames n xs) @ ys)))"
proof (induction "length xs" arbitrary: xs rule: less_induct)
  case less
  show ?case
  proof (cases "n \<le> length xs \<and> n + be_nat (take n xs) \<le> length xs")
    case False
    then have "be_frames n xs = ([], xs)" by (auto simp: be_frames.simps [of n xs] Let_def)
    then show ?thesis by simp
  next
    case True
    let ?len = "be_nat (take n xs)"
    obtain h p zs where xs: "xs = h @ p @ zs" "length h = n" "length p = be_nat h"
    proof (rule that [of "take n xs" "take ?len (drop n xs)" "drop (n + ?len) xs"])
      show "xs = take n xs @ take ?len (drop n xs) @ drop (n + ?len) xs"
        by (metis append_take_drop_id drop_drop add.commute)
    qed (use True in auto)
    have "length zs < length xs" using xs assms by simp
    from less [OF this] show ?thesis using xs be_frames_step [OF assms xs(2,3)] by simp
  qed
qed

lemma be_all_append:
  assumes "0 < n" "be_all n P (xs @ ys)"
  shows "be_all n P xs \<and> be_all n P (snd (be_frames n xs) @ ys)"
  using assms(2)
proof (induction "length xs" arbitrary: xs rule: less_induct)
  case less
  show ?case
  proof (cases "n \<le> length xs \<and> n + be_nat (take n xs) \<le> length xs")
    case False
    then have "be_frames n xs = ([], xs)" by (auto simp: be_frames.simps [of n xs] Let_def)
    moreover have "be_all n P xs"
    proof (cases "n \<le> length xs")
      case True
      then have "take n (xs @ ys) = take n xs" by simp
      then show ?thesis using less.prems False True assms(1)
        by (simp add: be_all.simps [of n P "xs @ ys"] be_all.simps [of n P xs] Let_def split: if_splits)
    qed (simp add: be_all.simps [of n P xs])
    ultimately show ?thesis using less.prems by simp
  next
    case True
    let ?k = "n + be_nat (take n xs)"
    have "be_all n P (drop ?k xs @ ys)" "P (be_nat (take n xs))"
      using less.prems True assms(1) by (auto simp: be_all.simps [of n P "xs @ ys"] Let_def split: if_splits)
    moreover have "length (drop ?k xs) < length xs" using True assms(1) by auto
    ultimately have IH: "be_all n P (drop ?k xs) \<and> be_all n P (snd (be_frames n (drop ?k xs)) @ ys)"
      using less.hyps by blast
    moreover have "snd (be_frames n xs) = snd (be_frames n (drop ?k xs))"
      using True assms(1) by (simp add: be_frames.simps [of n xs] Let_def split_beta)
    ultimately show ?thesis
      using \<open>P (be_nat (take n xs))\<close> by (simp add: be_all.simps [of n P xs] Let_def)
  qed
qed

lemma be_all_step:
  assumes "0 < n" "length h = n" "length p = be_nat h" "be_all n P (h @ p @ bs)"
  shows "be_all n P bs"
  using assms by (simp add: be_all.simps [of n P "h @ p @ bs"] Let_def split: if_splits)

text \<open>A limit that no header reaches is no restriction.\<close>

lemma be_all_wide: "(\<And>len. len < 256 ^ n \<Longrightarrow> P len) \<Longrightarrow> be_all n P bs"
proof (induction n P bs rule: be_all.induct)
  case (1 n P bs)
  show ?case
  proof (cases "n = 0 \<or> length bs < n")
    case False
    have "P (be_nat (take n bs))" using be_nat_less [of "take n bs"] False 1(2) by simp
    then show ?thesis using 1 False by (simp add: be_all.simps [of n P bs] Let_def)
  qed (simp add: be_all.simps)
qed

lemma be_limit_wide: "256 ^ n \<le> lim \<Longrightarrow> be_limit n lim bs"
  by (rule be_all_wide) simp

text \<open>Encoding, and the round trip.\<close>

definition be_frame :: "nat \<Rightarrow> byte list \<Rightarrow> byte list" where
  "be_frame n p = be_bytes n (length p) @ p"

lemma be_frames_encode:
  assumes "0 < n" "\<forall>p \<in> set ps. length p < 256 ^ n"
  shows "be_frames n (concat (map (be_frame n) ps) @ bs) = (ps @ fst (be_frames n bs), snd (be_frames n bs))"
  using assms(2)
proof (induction ps)
  case (Cons p ps)
  have "length p = be_nat (be_bytes n (length p))" using Cons.prems by (simp add: be_nat_bytes)
  from be_frames_step [OF assms(1) length_be_bytes this] Cons show ?case by (simp add: be_frame_def)
qed simp

lemma be_all_encode:
  assumes "0 < n" "\<forall>p \<in> set ps. length p < 256 ^ n \<and> P (length p)"
  shows "be_all n P (concat (map (be_frame n) ps))"
  using assms(2)
proof (induction ps)
  case (Cons p ps)
  then have "be_nat (be_bytes n (length p)) = length p" by (simp add: be_nat_bytes)
  with Cons assms(1) show ?case by (simp add: be_frame_def be_all.simps [of n P "be_bytes n (length p) @ q" for q] Let_def)
qed (simp add: be_all.simps assms(1))

section \<open>A receiver of a stream in pieces\<close>

text \<open>
  \<open>pending s\<close> is what the receiver in state \<open>s\<close> has got and not delivered, \<open>feed\<close> hands it the next
  piece and returns the packets it delivers. \<open>cut\<close> is the specification and \<open>ok\<close> says which streams
  the receiver accepts.
\<close>

fun feed_all :: "(byte list \<Rightarrow> 's \<Rightarrow> ('p list \<times> 's) res) \<Rightarrow> byte list list \<Rightarrow> 's \<Rightarrow> ('p list \<times> 's) res" where
  "feed_all feed [] s = Ok ([], s)"
| "feed_all feed (c # cs) s =
     res_bind (feed c s) (\<lambda>(out, s1). res_bind (feed_all feed cs s1) (\<lambda>(out', s2). Ok (out @ out', s2)))"

locale frame_decoder =
  fixes inv :: "'s \<Rightarrow> bool" and pending :: "'s \<Rightarrow> byte list"
    and feed :: "byte list \<Rightarrow> 's \<Rightarrow> ('p list \<times> 's) res"
    and cut :: "byte list \<Rightarrow> 'p list \<times> byte list" and ok :: "byte list \<Rightarrow> bool"
  assumes feed_ok: "inv s \<Longrightarrow> ok (pending s @ c) \<Longrightarrow>
      \<exists>s'. feed c s = Ok (fst (cut (pending s @ c)), s') \<and> inv s' \<and> pending s' = snd (cut (pending s @ c))"
    and cut_append: "cut (xs @ ys) = (fst (cut xs) @ fst (cut (snd (cut xs) @ ys)), snd (cut (snd (cut xs) @ ys)))"
    and ok_append: "ok (xs @ ys) \<Longrightarrow> ok xs \<and> ok (snd (cut xs) @ ys)"
begin

lemma feed_pieces:
  assumes "inv s" "ok (pending s @ concat cs)" "cut (pending s) = ([], pending s)"
  shows "\<exists>s'. feed_all feed cs s = Ok (fst (cut (pending s @ concat cs)), s') \<and> inv s' \<and>
    pending s' = snd (cut (pending s @ concat cs))"
  using assms
proof (induction cs arbitrary: s)
  case (Cons c cs)
  have ok: "ok (pending s @ c)" "ok (snd (cut (pending s @ c)) @ concat cs)"
    using ok_append [of "pending s @ c" "concat cs"] Cons.prems by simp_all
  obtain s1 where s1: "feed c s = Ok (fst (cut (pending s @ c)), s1)" "inv s1" "pending s1 = snd (cut (pending s @ c))"
    using feed_ok [OF Cons.prems(1) ok(1)] by blast
  have "cut (pending s1) = ([], pending s1)"
    using cut_append [of "pending s @ c" "[]"] s1(3) by (simp add: prod_eq_iff)
  from Cons.IH [OF s1(2) _ this] obtain s2 where s2: "feed_all feed cs s1 = Ok (fst (cut (pending s1 @ concat cs)), s2)"
      "inv s2" "pending s2 = snd (cut (pending s1 @ concat cs))"
    using ok(2) s1(3) by auto
  show ?case
    using s1 s2 cut_append [of "pending s @ c" "concat cs"] by (simp add: prod_eq_iff)
qed (simp add: prod_eq_iff)

corollary pieces_irrelevant:
  assumes "inv s" "pending s = []" "ok (concat cs)" "concat cs = concat ds" "cut [] = ([], [])"
  shows "\<exists>s1 s2. feed_all feed cs s = Ok (fst (cut (concat cs)), s1) \<and> feed_all feed ds s = Ok (fst (cut (concat cs)), s2) \<and>
    pending s1 = pending s2"
proof -
  have "ok (pending s @ concat cs)" "ok (pending s @ concat ds)" "cut (pending s) = ([], pending s)" using assms by simp_all
  from feed_pieces [OF assms(1) this(1,3)] feed_pieces [OF assms(1) this(2,3)]
  show ?thesis using assms(2,4) by auto
qed

end

end
