(* ===== verification/Skynet_Databuffer.thy ===== *)
theory Skynet_Databuffer
  imports Skynet_Frames
begin

text \<open>
  The receive buffer of a gate connection, \<open>service-src/databuffer.h\<close>: a linked list of the pieces
  that the socket delivered (a HOL list here), with an offset into the first one, from which packets
  are read across pieces, and the pool of list nodes shared by the connections (the number of its
  blocks and the length of its free list here).

  The lemmas show that a read returns the next bytes of the stream whatever the pieces are, that it
  never runs past the last piece, and that the pool accounts for every node.
\<close>

section \<open>Data\<close>

record databuffer =
  db_header :: int
  db_offset :: nat
  db_size :: int
  db_chunks :: "byte list list"

record messagepool =
  pool_blocks :: nat
  pool_free :: nat

definition MESSAGEPOOL :: nat where "MESSAGEPOOL = 1023"

definition databuffer_zero :: databuffer where
  "databuffer_zero = \<lparr>db_header = 0, db_offset = 0, db_size = 0, db_chunks = []\<rparr>"

section \<open>Operations\<close>

definition messagepool_free :: "messagepool \<Rightarrow> messagepool" where
  "messagepool_free mp = \<lparr>pool_blocks = 0, pool_free = 0\<rparr>"

definition return_message :: "databuffer \<Rightarrow> messagepool \<Rightarrow> (databuffer \<times> messagepool) res" where
  "return_message db mp =
     (case db_chunks db of
        [] \<Rightarrow> Err Null_deref
      | m # rest \<Rightarrow> Ok (db\<lparr>db_chunks := rest\<rparr>, mp\<lparr>pool_free := Suc (pool_free mp)\<rparr>))"

text \<open>The loop of \<open>databuffer_read\<close>: one turn per piece. The buffer that is filled is returned.\<close>

function read_loop :: "databuffer \<Rightarrow> messagepool \<Rightarrow> nat \<Rightarrow> (byte list \<times> databuffer \<times> messagepool) res" where
  "read_loop db mp sz =
     (case db_chunks db of
        [] \<Rightarrow> Err Null_deref
      | current # rest \<Rightarrow>
          if db_offset db > length current then Err Out_of_bounds
          else let bsz = length current - db_offset db in
          if bsz > sz then
            Ok (take sz (drop (db_offset db) current), db\<lparr>db_offset := db_offset db + sz\<rparr>, mp)
          else if bsz = sz then
            res_bind (return_message (db\<lparr>db_offset := 0\<rparr>) mp) (\<lambda>(db1, mp1).
            Ok (take sz (drop (db_offset db) current), db1, mp1))
          else
            res_bind
              (read_loop (db\<lparr>db_chunks := rest, db_offset := 0\<rparr>) (mp\<lparr>pool_free := Suc (pool_free mp)\<rparr>) (sz - bsz))
              (\<lambda>(bytes, db2, mp2). Ok (take bsz (drop (db_offset db) current) @ bytes, db2, mp2)))"
  by pat_completeness auto
termination
  by (relation "measure (\<lambda>(db, _, _). length (db_chunks db))") auto

declare read_loop.simps [simp del]

definition databuffer_read ::
    "databuffer \<Rightarrow> messagepool \<Rightarrow> nat \<Rightarrow> (byte list \<times> databuffer \<times> messagepool) res" where
  "databuffer_read db mp sz =
     res_bind (res_assert (db_size db \<ge> int sz)) (\<lambda>_.
     read_loop (db\<lparr>db_size := db_size db - int sz\<rparr>) mp sz)"

definition databuffer_push :: "databuffer \<Rightarrow> messagepool \<Rightarrow> byte list \<Rightarrow> databuffer \<times> messagepool" where
  "databuffer_push db mp data =
     (let mp1 = (if pool_free mp > 0 then mp\<lparr>pool_free := pool_free mp - 1\<rparr>
                 else mp\<lparr>pool_blocks := Suc (pool_blocks mp), pool_free := MESSAGEPOOL - 1\<rparr>) in
      (db\<lparr>db_size := db_size db + int (length data), db_chunks := db_chunks db @ [data]\<rparr>, mp1))"

text \<open>The big-endian length; with four bytes the first is shifted into the sign bit of an \<open>int\<close>.\<close>

definition header_value :: "nat \<Rightarrow> byte list \<Rightarrow> int" where
  "header_value header_size plen =
     (if header_size = 2 then int (unat (plen ! 0) * 256 + unat (plen ! 1))
      else sint (push_bit 24 (ucast (plen ! 0)) OR push_bit 16 (ucast (plen ! 1)) OR
                 push_bit 8 (ucast (plen ! 2)) OR ucast (plen ! 3) :: u32))"

definition databuffer_readheader ::
    "databuffer \<Rightarrow> messagepool \<Rightarrow> nat \<Rightarrow> (int \<times> databuffer \<times> messagepool) res" where
  "databuffer_readheader db mp header_size =
     (let check = (\<lambda>(db1, mp1). Ok (if db_size db1 < db_header db1 then -1 else db_header db1, db1, mp1)) in
      if db_header db = 0 then
        if db_size db < int header_size then Ok (-1, db, mp)
        else res_bind (databuffer_read db mp header_size) (\<lambda>(plen, db1, mp1).
          check (db1\<lparr>db_header := header_value header_size plen\<rparr>, mp1))
      else check (db, mp))"

definition databuffer_reset :: "databuffer \<Rightarrow> databuffer" where
  "databuffer_reset db = db\<lparr>db_header := 0\<rparr>"

fun clear_loop :: "byte list list \<Rightarrow> messagepool \<Rightarrow> messagepool" where
  "clear_loop [] mp = mp"
| "clear_loop (m # rest) mp = clear_loop rest (mp\<lparr>pool_free := Suc (pool_free mp)\<rparr>)"

definition databuffer_clear :: "databuffer \<Rightarrow> messagepool \<Rightarrow> databuffer \<times> messagepool" where
  "databuffer_clear db mp = (databuffer_zero, clear_loop (db_chunks db) mp)"

section \<open>The buffer as a byte stream\<close>

definition db_content :: "databuffer \<Rightarrow> byte list" where
  "db_content db = drop (db_offset db) (concat (db_chunks db))"

definition db_inv :: "databuffer \<Rightarrow> bool" where
  "db_inv db \<longleftrightarrow> (case db_chunks db of [] \<Rightarrow> db_offset db = 0 | m # _ \<Rightarrow> db_offset db \<le> length m) \<and>
     db_size db = int (length (db_content db))"

lemma header_irrelevant [simp]:
  "db_content (db\<lparr>db_header := h\<rparr>) = db_content db" "db_inv (db\<lparr>db_header := h\<rparr>) = db_inv db"
  by (simp_all add: db_content_def db_inv_def split: list.split)

text \<open>The nodes of the pool blocks are in use by a buffer or in the free list.\<close>

definition pool_nodes :: "messagepool \<Rightarrow> nat \<Rightarrow> bool" where
  "pool_nodes mp used \<longleftrightarrow> pool_free mp + used = MESSAGEPOOL * pool_blocks mp"

lemma read_loop_ok:
  assumes "case db_chunks db of [] \<Rightarrow> False | m # _ \<Rightarrow> db_offset db \<le> length m"
    and "0 < sz" "sz \<le> length (db_content db)"
  shows "\<exists>db' mp'. read_loop db mp sz = Ok (take sz (db_content db), db', mp') \<and>
    db_content db' = drop sz (db_content db) \<and>
    (case db_chunks db' of [] \<Rightarrow> db_offset db' = 0 | m # _ \<Rightarrow> db_offset db' \<le> length m) \<and>
    db_header db' = db_header db \<and> db_size db' = db_size db \<and>
    (\<exists>gone. db_chunks db = gone @ db_chunks db' \<and> mp' = mp\<lparr>pool_free := pool_free mp + length gone\<rparr>)"
  using assms
proof (induction "db_chunks db" arbitrary: db mp sz)
  case Nil
  then show ?case by (simp split: list.splits)
next
  case (Cons m rest)
  let ?off = "db_offset db"
  have m: "db_chunks db = m # rest" and off: "?off \<le> length m" using Cons.hyps(2) Cons.prems(1) by (auto split: list.splits)
  have content: "db_content db = drop ?off m @ concat rest" using m off by (simp add: db_content_def)
  consider "sz < length m - ?off" | "sz = length m - ?off" | "length m - ?off < sz" by linarith
  then show ?case
  proof cases
    case 1
    then show ?thesis using m off content
      by (subst read_loop.simps) (auto simp: Let_def db_content_def add.commute intro!: exI [of _ "[]"])
  next
    case 2
    then have "read_loop db mp sz = Ok (drop ?off m, db\<lparr>db_offset := 0, db_chunks := rest\<rparr>, mp\<lparr>pool_free := Suc (pool_free mp)\<rparr>)"
      using m off by (subst read_loop.simps) (simp add: return_message_def)
    then show ?thesis using m off content 2 by (auto simp: db_content_def split: list.split)
  next
    case 3
    let ?db = "db\<lparr>db_chunks := rest, db_offset := 0\<rparr>" and ?mp = "mp\<lparr>pool_free := Suc (pool_free mp)\<rparr>"
    let ?k = "sz - (length m - ?off)"
    have rest: "rest \<noteq> []" using 3 Cons.prems(3) content by auto
    have "\<exists>db' mp'. read_loop ?db ?mp ?k = Ok (take ?k (db_content ?db), db', mp') \<and>
      db_content db' = drop ?k (db_content ?db) \<and>
      (case db_chunks db' of [] \<Rightarrow> db_offset db' = 0 | m # _ \<Rightarrow> db_offset db' \<le> length m) \<and>
      db_header db' = db_header ?db \<and> db_size db' = db_size ?db \<and>
      (\<exists>gone. db_chunks ?db = gone @ db_chunks db' \<and> mp' = ?mp\<lparr>pool_free := pool_free ?mp + length gone\<rparr>)"
    proof (rule Cons.hyps(1))
      show "case db_chunks ?db of [] \<Rightarrow> False | m # _ \<Rightarrow> db_offset ?db \<le> length m" using rest by (simp split: list.split)
      have "sz \<le> length m - ?off + length (concat rest)" using Cons.prems(3) unfolding content by simp
      then show "?k \<le> length (db_content ?db)" by (simp add: db_content_def)
    qed (use 3 in simp_all)
    then obtain db' mp' gone where IH: "read_loop ?db ?mp ?k = Ok (take ?k (concat rest), db', mp')"
      "db_content db' = drop ?k (concat rest)"
      "case db_chunks db' of [] \<Rightarrow> db_offset db' = 0 | m # _ \<Rightarrow> db_offset db' \<le> length m"
      "db_header db' = db_header db" "db_size db' = db_size db"
      "rest = gone @ db_chunks db'" "mp' = mp\<lparr>pool_free := Suc (pool_free mp) + length gone\<rparr>"
      by (auto simp: db_content_def)
    have "read_loop db mp sz = Ok (take sz (db_content db), db', mp')"
      using m off 3 IH(1) content by (subst read_loop.simps) (simp add: Let_def)
    moreover have "db_content db' = drop sz (db_content db)" using IH(2) content 3 by simp
    ultimately show ?thesis using IH(3-) m by (intro exI [of _ db'] exI [of _ mp']) (auto intro!: exI [of _ "m # gone"])
  qed
qed

lemma databuffer_read_ok:
  assumes "db_inv db" "0 < sz" "sz \<le> length (db_content db)"
  shows "\<exists>db' mp'. databuffer_read db mp sz = Ok (take sz (db_content db), db', mp') \<and> db_inv db' \<and>
    db_content db' = drop sz (db_content db) \<and> db_header db' = db_header db \<and>
    (\<exists>gone. db_chunks db = gone @ db_chunks db' \<and> mp' = mp\<lparr>pool_free := pool_free mp + length gone\<rparr>)"
proof -
  let ?db = "db\<lparr>db_size := db_size db - int sz\<rparr>"
  have "case db_chunks ?db of [] \<Rightarrow> False | m # _ \<Rightarrow> db_offset ?db \<le> length m"
    using assms by (auto simp: db_inv_def db_content_def split: list.splits)
  moreover have c: "db_content ?db = db_content db" by (simp add: db_content_def)
  ultimately obtain db' mp' where r: "read_loop ?db mp sz = Ok (take sz (db_content db), db', mp')"
      "db_content db' = drop sz (db_content db)"
      "case db_chunks db' of [] \<Rightarrow> db_offset db' = 0 | m # _ \<Rightarrow> db_offset db' \<le> length m"
      "db_header db' = db_header db" "db_size db' = db_size db - int sz"
      "\<exists>gone. db_chunks db = gone @ db_chunks db' \<and> mp' = mp\<lparr>pool_free := pool_free mp + length gone\<rparr>"
    using read_loop_ok [of ?db sz mp] assms(2,3) by auto
  moreover have "db_size db \<ge> int sz" using assms by (simp add: db_inv_def)
  moreover have "db_inv db'" using r assms by (auto simp: db_inv_def)
  ultimately show ?thesis by (simp add: databuffer_read_def)
qed

lemma databuffer_push_ok:
  assumes "db_inv db"
  shows "db_inv (fst (databuffer_push db mp data)) \<and> db_content (fst (databuffer_push db mp data)) = db_content db @ data \<and>
    db_header (fst (databuffer_push db mp data)) = db_header db"
  using assms by (cases "db_chunks db") (auto simp: databuffer_push_def db_inv_def db_content_def Let_def)

lemma databuffer_push_pool:
  assumes "pool_nodes mp (length (db_chunks db) + others)"
  shows "pool_nodes (snd (databuffer_push db mp data)) (length (db_chunks (fst (databuffer_push db mp data))) + others)"
  using assms by (auto simp: databuffer_push_def pool_nodes_def MESSAGEPOOL_def Let_def)

lemma clear_loop_free: "clear_loop cs mp = mp\<lparr>pool_free := pool_free mp + length cs\<rparr>"
  by (induction cs arbitrary: mp) simp_all

lemma databuffer_zero_inv: "db_inv databuffer_zero" "db_content databuffer_zero = []"
  by (simp_all add: databuffer_zero_def db_inv_def db_content_def)

end
