(* ===== verification/Skynet_Hashid.thy ===== *)
theory Skynet_Hashid
  imports Skynet_Prelude
begin

text \<open>
  The hash table of socket ids of the gate, \<open>service-src/hashid.h\<close>: an array of nodes linked into
  bucket chains through \<open>next\<close>; a node with id -1 is free. Pointers into the array are indices. The index \<open>i + id\<close>
  of the search for a free node is an unbounded integer, which is what C computes while \<open>id\<close> plus the capacity is at most 2^31.

  It also has the interface that this table and the name table of the harbor share: a dictionary that
  chooses the slot of a new key itself.
\<close>

section \<open>An allocating dictionary\<close>

text \<open>\<open>view d\<close> is the abstract map from keys to slots.\<close>

locale alloc_dict =
  fixes inv :: "'d \<Rightarrow> bool" and view :: "'d \<Rightarrow> 'k \<Rightarrow> 'v option"
    and room :: "'d \<Rightarrow> bool" and valid :: "'k \<Rightarrow> bool"
    and search :: "'d \<Rightarrow> 'k \<Rightarrow> 'v option res" and ins :: "'d \<Rightarrow> 'k \<Rightarrow> ('v \<times> 'd) res"
  assumes search_ok: "inv d \<Longrightarrow> valid k \<Longrightarrow> search d k = Ok (view d k)"
    and ins_ok: "inv d \<Longrightarrow> room d \<Longrightarrow> valid k \<Longrightarrow> view d k = None \<Longrightarrow>
      \<exists>v d'. ins d k = Ok (v, d') \<and> inv d' \<and> view d' = (view d)(k \<mapsto> v) \<and> v \<notin> ran (view d)"
begin

text \<open>A client that only inserts absent keys never gives two keys the same slot.\<close>

lemma ins_inj:
  assumes "inv d" "room d" "valid k" "view d k = None" "inj_on (view d) (dom (view d))" "ins d k = Ok (v, d')"
  shows "inj_on (view d') (dom (view d')) \<and> search d' k = Ok (Some v)"
proof -
  have d': "inv d'" "view d' = (view d)(k \<mapsto> v)" "v \<notin> ran (view d)" using ins_ok [OF assms(1-4)] assms(6) by auto
  have "view d j \<noteq> Some v" for j using d'(3) by (auto simp: ran_def)
  then have "inj_on ((view d)(k \<mapsto> v)) (dom ((view d)(k \<mapsto> v)))"
    using assms(5) by (auto simp: inj_on_def dom_def)
  then show ?thesis using d' search_ok [OF d'(1) assms(3)] by simp
qed

end

locale alloc_dict_remove = alloc_dict +
  fixes del :: "'a \<Rightarrow> 'b \<Rightarrow> ('c option \<times> 'a) res"
  assumes del_ok: "inv d \<Longrightarrow> valid k \<Longrightarrow>
    \<exists>d'. del d k = Ok (view d k, d') \<and> inv d' \<and> view d' = (view d)(k := None)"
begin

lemma del_inj:
  assumes "inv d" "valid k" "inj_on (view d) (dom (view d))" "del d k = Ok (r, d')"
  shows "inj_on (view d') (dom (view d')) \<and> search d' k = Ok None"
proof -
  have d': "inv d'" "view d' = (view d)(k := None)" using del_ok [OF assms(1,2)] assms(4) by auto
  have "inj_on ((view d)(k := None)) (dom ((view d)(k := None)))"
    using assms(3) by (auto simp: inj_on_def dom_def)
  then show ?thesis using d' search_ok [OF d'(1) assms(2)] by simp
qed

end

text \<open>A client's sequence of operations, run on the operations of a dictionary that chooses the slots itself:
  every operation reports the slot it found, \<open>None\<close> for an absent key.\<close>

datatype 'k dict_op = Op_lookup 'k | Op_insert 'k | Op_remove 'k

fun dict_run :: "('d \<Rightarrow> 'k \<Rightarrow> 'v option res) \<Rightarrow> ('d \<Rightarrow> 'k \<Rightarrow> ('v \<times> 'd) res) \<Rightarrow>
    ('d \<Rightarrow> 'k \<Rightarrow> ('v option \<times> 'd) res) \<Rightarrow> 'd \<Rightarrow> 'k dict_op list \<Rightarrow> ('v option list \<times> 'd) res" where
  "dict_run search ins del d [] = Ok ([], d)"
| "dict_run search ins del d (Op_lookup k # ops) =
     res_bind (search d k) (\<lambda>r. res_bind (dict_run search ins del d ops) (\<lambda>(rs, d'). Ok (r # rs, d')))"
| "dict_run search ins del d (Op_insert k # ops) =
     res_bind (ins d k) (\<lambda>(v, d'). res_bind (dict_run search ins del d' ops) (\<lambda>(rs, d''). Ok (Some v # rs, d'')))"
| "dict_run search ins del d (Op_remove k # ops) =
     res_bind (del d k) (\<lambda>(r, d'). res_bind (dict_run search ins del d' ops) (\<lambda>(rs, d''). Ok (r # rs, d'')))"

text \<open>The keys in use after the operations, and the client's duty: a key is inserted only while it is absent, valid
  and a slot is left.\<close>

fun keys_after :: "'k set \<Rightarrow> 'k dict_op list \<Rightarrow> 'k set" where
  "keys_after K [] = K"
| "keys_after K (Op_lookup k # ops) = keys_after K ops"
| "keys_after K (Op_insert k # ops) = keys_after (insert k K) ops"
| "keys_after K (Op_remove k # ops) = keys_after (K - {k}) ops"

fun dict_client :: "('k \<Rightarrow> bool) \<Rightarrow> nat \<Rightarrow> 'k set \<Rightarrow> 'k dict_op list \<Rightarrow> bool" where
  "dict_client valid mx K [] \<longleftrightarrow> True"
| "dict_client valid mx K (Op_lookup k # ops) \<longleftrightarrow> valid k \<and> dict_client valid mx K ops"
| "dict_client valid mx K (Op_insert k # ops) \<longleftrightarrow>
     valid k \<and> k \<notin> K \<and> card K < mx \<and> dict_client valid mx (insert k K) ops"
| "dict_client valid mx K (Op_remove k # ops) \<longleftrightarrow> valid k \<and> dict_client valid mx (K - {k}) ops"

text \<open>What a dictionary of \<open>mx\<close> slots may answer, starting from the map \<open>m\<close>: an insertion picks a slot that no
  other key has, a removal and a look up report the slot of the key.\<close>

fun dict_spec :: "nat \<Rightarrow> ('k \<rightharpoonup> nat) \<Rightarrow> 'k dict_op list \<Rightarrow> nat option list \<Rightarrow> bool" where
  "dict_spec mx m [] rs \<longleftrightarrow> rs = []"
| "dict_spec mx m (Op_lookup k # ops) rs \<longleftrightarrow> (\<exists>rs'. rs = m k # rs' \<and> dict_spec mx m ops rs')"
| "dict_spec mx m (Op_insert k # ops) rs \<longleftrightarrow>
     (\<exists>c rs'. rs = Some c # rs' \<and> c < mx \<and> c \<notin> ran m \<and> dict_spec mx (m(k \<mapsto> c)) ops rs')"
| "dict_spec mx m (Op_remove k # ops) rs \<longleftrightarrow> (\<exists>rs'. rs = m k # rs' \<and> dict_spec mx (m(k := None)) ops rs')"

locale bounded_dict = alloc_dict_remove inv view room valid search ins del
  for inv :: "'d \<Rightarrow> bool" and view :: "'d \<Rightarrow> 'k \<Rightarrow> nat option" and room valid search ins del +
  fixes cap :: "'d \<Rightarrow> nat"
  assumes room_card: "inv d \<Longrightarrow> room d \<longleftrightarrow> card (dom (view d)) < cap d"
    and ins_cap: "inv d \<Longrightarrow> ins d k = Ok (v, d') \<Longrightarrow> v < cap d \<and> cap d' = cap d"
    and del_cap: "inv d \<Longrightarrow> del d k = Ok (r, d') \<Longrightarrow> cap d' = cap d"
begin

text \<open>Every sequence of a dutiful client runs and is answered by the specification.\<close>

lemma run_spec:
  assumes "inv d" "dict_client valid (cap d) (dom (view d)) ops"
  shows "\<exists>rs d'. dict_run search ins del d ops = Ok (rs, d') \<and> inv d' \<and> cap d' = cap d \<and>
    dom (view d') = keys_after (dom (view d)) ops \<and> dict_spec (cap d) (view d) ops rs"
  using assms
proof (induction ops arbitrary: d)
  case (Cons a ops)
  note IH = Cons.IH and inv = Cons.prems(1) and client = Cons.prems(2)
  show ?case
  proof (cases a)
    case (Op_lookup k)
    then have "valid k" using client by simp
    then show ?thesis using IH [OF inv] client search_ok [OF inv] Op_lookup by auto
  next
    case (Op_insert k)
    then have k: "valid k" "view d k = None" "room d" using client room_card [OF inv] by auto
    obtain v d1 where d1: "ins d k = Ok (v, d1)" "inv d1" "view d1 = (view d)(k \<mapsto> v)" "v \<notin> ran (view d)"
      using ins_ok [OF inv k(3,1,2)] by blast
    note cap = ins_cap [OF inv d1(1)]
    have "dict_client valid (cap d1) (dom (view d1)) ops" using client Op_insert d1(3) cap by simp
    from IH [OF d1(2) this] obtain rs d2 where "dict_run search ins del d1 ops = Ok (rs, d2)" "inv d2" "cap d2 = cap d"
        "dom (view d2) = keys_after (insert k (dom (view d))) ops" "dict_spec (cap d) ((view d)(k \<mapsto> v)) ops rs"
      unfolding d1(3) using cap by (auto simp del: fun_upd_apply)
    then show ?thesis using d1 cap Op_insert by (intro exI [of _ "Some v # rs"] exI [of _ d2]) simp
  next
    case (Op_remove k)
    then have k: "valid k" using client by simp
    obtain d1 where d1: "del d k = Ok (view d k, d1)" "inv d1" "view d1 = (view d)(k := None)"
      using del_ok [OF inv k] by blast
    note cap = del_cap [OF inv d1(1)]
    have "dict_client valid (cap d1) (dom (view d1)) ops" using client Op_remove d1(3) cap by simp
    from IH [OF d1(2) this] obtain rs d2 where "dict_run search ins del d1 ops = Ok (rs, d2)" "inv d2" "cap d2 = cap d"
        "dom (view d2) = keys_after (dom (view d) - {k}) ops" "dict_spec (cap d) ((view d)(k := None)) ops rs"
      unfolding d1(3) using cap by (auto simp del: fun_upd_apply)
    then show ?thesis using d1 cap Op_remove by (intro exI [of _ "view d k # rs"] exI [of _ d2]) simp
  qed
qed simp

end

section \<open>Data\<close>

record hashid_node =
  node_id :: int
  node_next :: "nat option"

record hashid =
  hashmod :: nat
  hcap :: nat
  hcount :: int
  hnodes :: "hashid_node list"
  hhash :: "nat option list"

section \<open>Operations\<close>

text \<open>The loop of \<open>hashid_init\<close> that doubles \<open>hashcap\<close>.\<close>

function hashcap_loop :: "nat \<Rightarrow> nat \<Rightarrow> nat" where
  "hashcap_loop cap mx = (if cap < mx \<and> 0 < cap then hashcap_loop (cap * 2) mx else cap)"
  by pat_completeness auto
termination
  by (relation "measure (\<lambda>(cap, mx). mx - cap)") auto

declare hashcap_loop.simps [simp del]

definition hashid_init :: "nat \<Rightarrow> hashid" where
  "hashid_init mx =
     (let hashcap = hashcap_loop 16 mx in
      \<lparr>hashmod = hashcap - 1, hcap = mx, hcount = 0,
       hnodes = replicate mx \<lparr>node_id = -1, node_next = None\<rparr>, hhash = replicate hashcap None\<rparr>)"

definition hashid_clear :: "hashid \<Rightarrow> hashid" where
  "hashid_clear hi = hi\<lparr>hnodes := [], hhash := [], hashmod := 1, hcap := 0, hcount := 0\<rparr>"

definition bucket :: "hashid \<Rightarrow> int \<Rightarrow> nat" where
  "bucket hi i = nat (i AND int (hashmod hi))"

partial_function (option) lookup_loop :: "hashid_node list \<Rightarrow> int \<Rightarrow> nat option \<Rightarrow> nat option res option" where
  "lookup_loop nodes i c =
     (case c of
        None \<Rightarrow> Some (Ok None)
      | Some p \<Rightarrow>
          if p < length nodes then
            if node_id (nodes ! p) = i then Some (Ok (Some p)) else lookup_loop nodes i (node_next (nodes ! p))
          else Some (Err Out_of_bounds))"

text \<open>\<open>None\<close> is the result -1.\<close>

definition hashid_lookup :: "hashid \<Rightarrow> int \<Rightarrow> nat option res" where
  "hashid_lookup hi i =
     (let h = bucket hi i in
      if h < length (hhash hi) then
        (case lookup_loop (hnodes hi) i (hhash hi ! h) of None \<Rightarrow> Err Diverge | Some r \<Rightarrow> r)
      else Err Out_of_bounds)"

text \<open>The loop of \<open>hashid_remove\<close> over \<open>c->next\<close>: the predecessor and the node to unlink.\<close>

partial_function (option) remove_loop :: "hashid_node list \<Rightarrow> int \<Rightarrow> nat \<Rightarrow> (nat \<times> nat) option res option" where
  "remove_loop nodes i c =
     (if c < length nodes then
        (case node_next (nodes ! c) of
           None \<Rightarrow> Some (Ok None)
         | Some p \<Rightarrow>
             if p < length nodes then
               if node_id (nodes ! p) = i then Some (Ok (Some (c, p))) else remove_loop nodes i p
             else Some (Err Out_of_bounds))
      else Some (Err Out_of_bounds))"

text \<open>The code at the label \<open>_clear\<close>.\<close>

definition clear_node :: "hashid \<Rightarrow> nat \<Rightarrow> hashid" where
  "clear_node hi c =
     hi\<lparr>hnodes := (hnodes hi)[c := \<lparr>node_id = -1, node_next = None\<rparr>], hcount := hcount hi - 1\<rparr>"

definition hashid_remove :: "hashid \<Rightarrow> int \<Rightarrow> (nat option \<times> hashid) res" where
  "hashid_remove hi i =
     (let h = bucket hi i in
      if h < length (hhash hi) then
        (case hhash hi ! h of
           None \<Rightarrow> Ok (None, hi)
         | Some c \<Rightarrow>
             if c < length (hnodes hi) then
               if node_id (hnodes hi ! c) = i then
                 Ok (Some c, clear_node (hi\<lparr>hhash := (hhash hi)[h := node_next (hnodes hi ! c)]\<rparr>) c)
               else
                 (case remove_loop (hnodes hi) i c of
                    None \<Rightarrow> Err Diverge
                  | Some (Err e) \<Rightarrow> Err e
                  | Some (Ok None) \<Rightarrow> Ok (None, hi)
                  | Some (Ok (Some (d, temp))) \<Rightarrow>
                      Ok (Some temp,
                          clear_node (hi\<lparr>hnodes := (hnodes hi)[d := (hnodes hi ! d)\<lparr>node_next := node_next (hnodes hi ! temp)\<rparr>]\<rparr>) temp))
             else Err Out_of_bounds)
      else Err Out_of_bounds)"

text \<open>The search for a free node from index \<open>id % cap\<close> on.\<close>

fun free_node :: "hashid \<Rightarrow> int \<Rightarrow> nat \<Rightarrow> nat \<Rightarrow> nat option" where
  "free_node hi i k 0 = None"
| "free_node hi i k (Suc n) =
     (let index = nat ((int k + i) mod int (hcap hi)) in
      if node_id (hnodes hi ! index) = -1 then Some index else free_node hi i (Suc k) n)"

definition hashid_insert :: "hashid \<Rightarrow> int \<Rightarrow> (nat \<times> hashid) res" where
  "hashid_insert hi i =
     (case free_node hi i 0 (hcap hi) of
        None \<Rightarrow> Err Assert_fail
      | Some c \<Rightarrow>
          res_bind (res_assert (node_next (hnodes hi ! c) = None)) (\<lambda>_.
          let h = bucket hi i in
          if h < length (hhash hi) then
            Ok (c, hi\<lparr>hcount := hcount hi + 1,
                     hnodes := (hnodes hi)[c := \<lparr>node_id = i, node_next = hhash hi ! h\<rparr>],
                     hhash := (hhash hi)[h := Some c]\<rparr>)
          else Err Out_of_bounds))"

definition hashid_full :: "hashid \<Rightarrow> bool" where
  "hashid_full hi \<longleftrightarrow> hcount hi = int (hcap hi)"

section \<open>The chains\<close>

fun hchain :: "hashid_node list \<Rightarrow> nat option \<Rightarrow> nat list \<Rightarrow> bool" where
  "hchain nodes c [] \<longleftrightarrow> c = None"
| "hchain nodes c (p # ps) \<longleftrightarrow> c = Some p \<and> p < length nodes \<and> hchain nodes (node_next (nodes ! p)) ps"

text \<open>\<open>B h\<close> lists the nodes of bucket \<open>h\<close>.\<close>

definition hashid_ok :: "hashid \<Rightarrow> (nat \<Rightarrow> nat list) \<Rightarrow> bool" where
  "hashid_ok hi B \<longleftrightarrow>
     (\<exists>k. Suc (hashmod hi) = 2 ^ k) \<and> length (hhash hi) = Suc (hashmod hi) \<and> length (hnodes hi) = hcap hi \<and>
     (\<forall>h < length (hhash hi). hchain (hnodes hi) (hhash hi ! h) (B h) \<and> distinct (B h)) \<and>
     (\<forall>h < length (hhash hi). \<forall>p. p \<in> set (B h) \<longleftrightarrow>
        p < hcap hi \<and> node_id (hnodes hi ! p) \<noteq> -1 \<and> bucket hi (node_id (hnodes hi ! p)) = h) \<and>
     (\<forall>p < hcap hi. node_id (hnodes hi ! p) = -1 \<longrightarrow> node_next (hnodes hi ! p) = None) \<and>
     inj_on (\<lambda>p. node_id (hnodes hi ! p)) {p. p < hcap hi \<and> node_id (hnodes hi ! p) \<noteq> -1} \<and>
     hcount hi = int (card {p. p < hcap hi \<and> node_id (hnodes hi ! p) \<noteq> -1})"

lemma hashid_okD:
  assumes "hashid_ok hi B"
  shows "\<exists>k. Suc (hashmod hi) = 2 ^ k" "length (hhash hi) = Suc (hashmod hi)" "length (hnodes hi) = hcap hi"
    "h < length (hhash hi) \<Longrightarrow> hchain (hnodes hi) (hhash hi ! h) (B h)" "h < length (hhash hi) \<Longrightarrow> distinct (B h)"
    "h < length (hhash hi) \<Longrightarrow> p \<in> set (B h) \<longleftrightarrow>
       p < hcap hi \<and> node_id (hnodes hi ! p) \<noteq> -1 \<and> bucket hi (node_id (hnodes hi ! p)) = h"
    "p < hcap hi \<Longrightarrow> node_id (hnodes hi ! p) = -1 \<Longrightarrow> node_next (hnodes hi ! p) = None"
    "inj_on (\<lambda>p. node_id (hnodes hi ! p)) {p. p < hcap hi \<and> node_id (hnodes hi ! p) \<noteq> -1}"
    "hcount hi = int (card {p. p < hcap hi \<and> node_id (hnodes hi ! p) \<noteq> -1})"
  using assms unfolding hashid_ok_def by blast+

definition hashid_inv :: "hashid \<Rightarrow> bool" where
  "hashid_inv hi \<longleftrightarrow> (\<exists>B. hashid_ok hi B)"

definition hashid_view :: "hashid \<Rightarrow> int \<Rightarrow> nat option" where
  "hashid_view hi i =
     (if i = -1 then None else find (\<lambda>p. node_id (hnodes hi ! p) = i) [0..<hcap hi])"

lemma hashid_view_iff:
  assumes "hashid_ok hi B"
  shows "hashid_view hi i = Some p \<longleftrightarrow> i \<noteq> -1 \<and> p < hcap hi \<and> node_id (hnodes hi ! p) = i"
proof -
  have inj: "inj_on (\<lambda>p. node_id (hnodes hi ! p)) {p. p < hcap hi \<and> node_id (hnodes hi ! p) \<noteq> -1}"
    by (rule hashid_okD [OF assms])
  show ?thesis
  proof
    assume "hashid_view hi i = Some p"
    then show "i \<noteq> -1 \<and> p < hcap hi \<and> node_id (hnodes hi ! p) = i"
      by (auto simp: hashid_view_def find_Some_iff split: if_splits)
  next
    assume p: "i \<noteq> -1 \<and> p < hcap hi \<and> node_id (hnodes hi ! p) = i"
    then have "hashid_view hi i \<noteq> None" by (auto simp: hashid_view_def find_None_iff)
    then obtain q where q: "hashid_view hi i = Some q" by blast
    then have "q < hcap hi \<and> node_id (hnodes hi ! q) = i"
      by (auto simp: hashid_view_def find_Some_iff split: if_splits)
    with p inj have "q = p" by (auto dest: inj_onD)
    with q show "hashid_view hi i = Some p" by simp
  qed
qed

lemma bucket_less: "Suc (hashmod hi) = 2 ^ k \<Longrightarrow> bucket hi i < Suc (hashmod hi)"
proof -
  assume "Suc (hashmod hi) = 2 ^ k"
  then have "int (Suc (hashmod hi)) = int (2 ^ k)" by (rule arg_cong)
  then have "int (hashmod hi) = mask k" by (simp add: mask_eq_exp_minus_1)
  then show "bucket hi i < Suc (hashmod hi)"
    using \<open>Suc (hashmod hi) = 2 ^ k\<close>
    by (simp add: bucket_def take_bit_eq_mask [symmetric] nat_less_iff take_bit_int_less_exp)
qed

lemma hchain_update [simp]: "c \<notin> set ps \<Longrightarrow> hchain (nodes[c := x]) a ps \<longleftrightarrow> hchain nodes a ps"
  by (induction ps arbitrary: a) auto

lemma lookup_loop_chain:
  "hchain nodes c ps \<Longrightarrow> lookup_loop nodes i c = Some (Ok (find (\<lambda>p. node_id (nodes ! p) = i) ps))"
  by (induction ps arbitrary: c) (simp_all add: lookup_loop.simps)

lemma hashid_lookup_ok:
  assumes "hashid_inv hi"
  shows "hashid_lookup hi i = Ok (hashid_view hi i)"
proof -
  obtain B where B: "hashid_ok hi B" using assms by (auto simp: hashid_inv_def)
  let ?h = "bucket hi i"
  have h: "?h < length (hhash hi)" using hashid_okD(1,2) [OF B] bucket_less by metis
  have mem: "p \<in> set (B ?h) \<longleftrightarrow> p < hcap hi \<and> node_id (hnodes hi ! p) \<noteq> -1 \<and> bucket hi (node_id (hnodes hi ! p)) = ?h" for p
    using hashid_okD(6) [OF B h] .
  have "lookup_loop (hnodes hi) i (hhash hi ! ?h) = Some (Ok (find (\<lambda>p. node_id (hnodes hi ! p) = i) (B ?h)))"
    using hashid_okD(4) [OF B h] by (rule lookup_loop_chain)
  moreover have "find (\<lambda>p. node_id (hnodes hi ! p) = i) (B ?h) = hashid_view hi i"
  proof (cases "find (\<lambda>p. node_id (hnodes hi ! p) = i) (B ?h)")
    case None
    then have "p < hcap hi \<longrightarrow> node_id (hnodes hi ! p) \<noteq> -1 \<longrightarrow> node_id (hnodes hi ! p) \<noteq> i" for p
      using mem by (auto simp: find_None_iff)
    then have "hashid_view hi i \<noteq> Some p" for p using hashid_view_iff [OF B] by metis
    then show ?thesis using None by (cases "hashid_view hi i") auto
  next
    case (Some p)
    then have "p \<in> set (B ?h)" "node_id (hnodes hi ! p) = i" by (auto simp: find_Some_iff)
    then show ?thesis using Some mem hashid_view_iff [OF B, of i p] by metis
  qed
  ultimately show ?thesis using h by (simp add: hashid_lookup_def Let_def)
qed

lemma free_node_Some:
  assumes "free_node hi i k n = Some c" "0 < hcap hi"
  shows "c < hcap hi \<and> node_id (hnodes hi ! c) = -1"
  using assms by (induction n arbitrary: k) (auto simp: Let_def nat_less_iff split: if_splits)

lemma free_node_None:
  "free_node hi i k n = None \<Longrightarrow> j < n \<Longrightarrow> node_id (hnodes hi ! nat ((int (k + j) + i) mod int (hcap hi))) \<noteq> -1"
proof (induction n arbitrary: k j)
  case (Suc n)
  show ?case
  proof (cases j)
    case 0
    then show ?thesis using Suc.prems by (auto simp: Let_def split: if_splits)
  next
    case (Suc m)
    have "free_node hi i (Suc k) n = None" using Suc.prems(1) by (auto simp: Let_def split: if_splits)
    moreover have "m < n" using Suc Suc.prems(2) by simp
    ultimately have "node_id (hnodes hi ! nat ((int (Suc k + m) + i) mod int (hcap hi))) \<noteq> -1" by (rule Suc.IH)
    then show ?thesis unfolding Suc add_Suc_right add_Suc .
  qed
qed simp

lemma free_node_finds:
  assumes "0 \<le> i" "p < hcap hi" "node_id (hnodes hi ! p) = -1"
  obtains c where "free_node hi i 0 (hcap hi) = Some c" "c < hcap hi" "node_id (hnodes hi ! c) = -1"
proof (cases "free_node hi i 0 (hcap hi)")
  case None
  obtain j where j: "j < hcap hi" "(nat i + j) mod hcap hi = p" using mod_hit [OF assms(2)] .
  have "int (nat i + j) = int j + i" using assms(1) by simp
  then have "nat ((int (0 + j) + i) mod int (hcap hi)) = p" using j(2) by (metis add_0 nat_int zmod_int)
  then show ?thesis using free_node_None [OF None j(1)] assms(3) by simp
next
  case (Some c)
  then show ?thesis using that free_node_Some [OF Some] assms(2) by auto
qed

section \<open>Insertion and removal\<close>

lemma hashid_insert_ok:
  assumes "hashid_inv hi" "\<not> hashid_full hi" "0 \<le> i" "hashid_view hi i = None"
  shows "\<exists>c hi'. hashid_insert hi i = Ok (c, hi') \<and> hashid_inv hi' \<and> hashid_view hi' = (hashid_view hi)(i \<mapsto> c) \<and>
    c \<notin> ran (hashid_view hi) \<and> c < hcap hi \<and> hcap hi' = hcap hi"
proof -
  obtain B where B: "hashid_ok hi B" using assms(1) by (auto simp: hashid_inv_def)
  let ?U = "{p. p < hcap hi \<and> node_id (hnodes hi ! p) \<noteq> -1}"
  have cnt: "hcount hi = int (card ?U)" using hashid_okD [OF B] by blast
  have "?U \<noteq> {..<hcap hi}"
  proof
    assume "?U = {..<hcap hi}"
    then have "hcount hi = int (hcap hi)" unfolding cnt by simp
    with assms(2) show False by (simp add: hashid_full_def)
  qed
  then obtain p where "p < hcap hi" "node_id (hnodes hi ! p) = -1" by auto
  then obtain c where c: "free_node hi i 0 (hcap hi) = Some c" "c < hcap hi" "node_id (hnodes hi ! c) = -1"
    by (rule free_node_finds [OF assms(3)])
  have nxt: "node_next (hnodes hi ! c) = None" using hashid_okD(7) [OF B c(2,3)] .
  let ?h = "bucket hi i"
  have h: "?h < length (hhash hi)" using hashid_okD(1,2) [OF B] bucket_less by metis
  define hi' where "hi' = hi\<lparr>hcount := hcount hi + 1, hnodes := (hnodes hi)[c := \<lparr>node_id = i, node_next = hhash hi ! ?h\<rparr>],
      hhash := (hhash hi)[?h := Some c]\<rparr>"
  have run: "hashid_insert hi i = Ok (c, hi')"
    using c nxt h by (simp add: hashid_insert_def Let_def hi'_def)
  have len: "length (hnodes hi) = hcap hi" using hashid_okD [OF B] by blast
  have nodes: "node_id (hnodes hi' ! p) = (if p = c then i else node_id (hnodes hi ! p))"
      "node_next (hnodes hi' ! p) = (if p = c then hhash hi ! ?h else node_next (hnodes hi ! p))" for p
    using c(2) len by (simp_all add: hi'_def nth_list_update)
  have none: "p < hcap hi \<Longrightarrow> node_id (hnodes hi ! p) \<noteq> i" for p
    using assms(3,4) hashid_view_iff [OF B, of i p] by auto
  have cB: "c \<notin> set (B g)" if "g < length (hhash hi)" for g using hashid_okD(6) [OF B that, of c] c by simp
  have bk: "bucket hi' = bucket hi" and cap: "hcap hi' = hcap hi" by (simp_all add: hi'_def bucket_def fun_eq_iff)
  have U': "{p. p < hcap hi \<and> node_id (hnodes hi' ! p) \<noteq> -1} = insert c ?U" using c assms(3) by (auto simp: nodes)
  have ok: "hashid_ok hi' (B(?h := c # B ?h))"
    unfolding hashid_ok_def
  proof (intro conjI allI impI)
    show "\<exists>k. Suc (hashmod hi') = 2 ^ k" "length (hhash hi') = Suc (hashmod hi')" "length (hnodes hi') = hcap hi'"
      using hashid_okD(1,2,3) [OF B] by (simp_all add: hi'_def)
  next
    fix g assume "g < length (hhash hi')"
    then have g: "g < length (hhash hi)" by (simp add: hi'_def)
    show "hchain (hnodes hi') (hhash hi' ! g) ((B(?h := c # B ?h)) g)"
      using hashid_okD(4) [OF B g] h cB [OF g] c(2) len by (cases "g = ?h") (simp_all add: hi'_def)
    show "distinct ((B(?h := c # B ?h)) g)" using hashid_okD(5) [OF B g] cB [OF h] by auto
  next
    fix g p assume "g < length (hhash hi')"
    then have g: "g < length (hhash hi)" by (simp add: hi'_def)
    show "p \<in> set ((B(?h := c # B ?h)) g) \<longleftrightarrow>
        p < hcap hi' \<and> node_id (hnodes hi' ! p) \<noteq> -1 \<and> bucket hi' (node_id (hnodes hi' ! p)) = g"
      using hashid_okD(6) [OF B g, of p] c assms(3) unfolding nodes bk by (auto simp: hi'_def)
  next
    fix p assume "p < hcap hi'" "node_id (hnodes hi' ! p) = -1"
    then show "node_next (hnodes hi' ! p) = None"
      using hashid_okD(7) [OF B, of p] assms(3) unfolding nodes by (auto simp: hi'_def split: if_splits)
  next
    have "inj_on (\<lambda>p. node_id (hnodes hi' ! p)) (insert c ?U)"
      using none hashid_okD(8) [OF B] by (auto simp: inj_on_def nodes)
    then show "inj_on (\<lambda>p. node_id (hnodes hi' ! p)) {p. p < hcap hi' \<and> node_id (hnodes hi' ! p) \<noteq> -1}"
      using U' by (simp add: hi'_def)
    have "c \<notin> ?U" using c by simp
    then show "hcount hi' = int (card {p. p < hcap hi' \<and> node_id (hnodes hi' ! p) \<noteq> -1})"
      using U' cnt by (simp add: hi'_def)
  qed
  have "hashid_view hi' j = Some p \<longleftrightarrow> ((hashid_view hi)(i \<mapsto> c)) j = Some p" for j p
    unfolding hashid_view_iff [OF ok] nodes cap using hashid_view_iff [OF B, of j p] c none assms(3) by auto
  then have "hashid_view hi' = (hashid_view hi)(i \<mapsto> c)" by (intro ext) (metis not_Some_eq)
  moreover have "c \<notin> ran (hashid_view hi)" using hashid_view_iff [OF B] c by (auto simp: ran_def)
  ultimately show ?thesis using run ok c by (auto simp: hashid_inv_def hi'_def)
qed

lemma remove_loop_chain:
  assumes "hchain nodes (Some c) (c # ps)"
  shows "(remove_loop nodes i c = Some (Ok None) \<and> (\<forall>p \<in> set ps. node_id (nodes ! p) \<noteq> i)) \<or>
    (\<exists>qs d t rs. c # ps = qs @ d # t # rs \<and> node_id (nodes ! t) = i \<and> remove_loop nodes i c = Some (Ok (Some (d, t))))"
  using assms
proof (induction ps arbitrary: c)
  case Nil
  then show ?case by (simp add: remove_loop.simps)
next
  case (Cons p ps)
  have nx: "c < length nodes" "node_next (nodes ! c) = Some p" "p < length nodes" "hchain nodes (Some p) (p # ps)"
    using Cons.prems by auto
  show ?case
  proof (cases "node_id (nodes ! p) = i")
    case True
    then have "remove_loop nodes i c = Some (Ok (Some (c, p)))" using nx by (subst remove_loop.simps) simp
    then show ?thesis using True by (intro disjI2 exI [of _ "[]"]) auto
  next
    case False
    have step: "remove_loop nodes i c = remove_loop nodes i p" using nx False by (subst remove_loop.simps) simp
    from Cons.IH [OF nx(4)] show ?thesis
    proof (elim disjE exE conjE)
      fix qs d t rs assume "p # ps = qs @ d # t # rs" "node_id (nodes ! t) = i" "remove_loop nodes i p = Some (Ok (Some (d, t)))"
      then show ?thesis unfolding step by (intro disjI2 exI [of _ "c # qs"] exI [of _ d] exI [of _ t] exI [of _ rs]) simp
    qed (use False step in auto)
  qed
qed

lemma hchain_unlink:
  assumes "hchain nodes a (qs @ d # t # rs)" "distinct (qs @ d # t # rs)"
  shows "hchain (nodes[d := (nodes ! d)\<lparr>node_next := node_next (nodes ! t)\<rparr>, t := x]) a (qs @ d # rs)"
  using assms by (induction qs arbitrary: a) auto

text \<open>A table from which node \<open>t\<close> has been unlinked and cleared.\<close>

lemma hashid_cleared:
  assumes B: "hashid_ok hi B" and h: "h < length (hhash hi)" and t: "t \<in> set (B h)"
    and sizes: "hashmod hi' = hashmod hi" "hcap hi' = hcap hi" "hcount hi' = hcount hi - 1"
      "length (hnodes hi') = length (hnodes hi)" "length (hhash hi') = length (hhash hi)"
    and nodes: "\<And>p. p < hcap hi \<Longrightarrow> node_id (hnodes hi' ! p) = (if p = t then -1 else node_id (hnodes hi ! p))"
    and free: "\<And>p. p < hcap hi \<Longrightarrow> node_id (hnodes hi' ! p) = -1 \<Longrightarrow> node_next (hnodes hi' ! p) = None"
    and chains: "\<And>g. g < length (hhash hi) \<Longrightarrow> hchain (hnodes hi') (hhash hi' ! g) ((B(h := remove1 t (B h))) g)"
  shows "hashid_inv hi' \<and> hashid_view hi' = (hashid_view hi)(node_id (hnodes hi ! t) := None)"
proof -
  let ?B = "B(h := remove1 t (B h))" and ?U = "{p. p < hcap hi \<and> node_id (hnodes hi ! p) \<noteq> -1}"
  have tU: "t < hcap hi" "node_id (hnodes hi ! t) \<noteq> -1" "bucket hi (node_id (hnodes hi ! t)) = h"
    using hashid_okD(6) [OF B h] t by blast+
  have bk: "bucket hi' = bucket hi" using sizes by (simp add: bucket_def fun_eq_iff)
  have U': "{p. p < hcap hi' \<and> node_id (hnodes hi' ! p) \<noteq> -1} = ?U - {t}" using nodes sizes(2) by (auto split: if_splits)
  have ok: "hashid_ok hi' ?B"
    unfolding hashid_ok_def
  proof (intro conjI allI impI)
    show "\<exists>k. Suc (hashmod hi') = 2 ^ k" "length (hhash hi') = Suc (hashmod hi')" "length (hnodes hi') = hcap hi'"
      using hashid_okD(1,2,3) [OF B] sizes by simp_all
  next
    fix g assume "g < length (hhash hi')"
    then have g: "g < length (hhash hi)" using sizes by simp
    show "hchain (hnodes hi') (hhash hi' ! g) (?B g)" by (rule chains [OF g])
    show "distinct (?B g)" using hashid_okD(5) [OF B g] by (auto intro: distinct_remove1)
  next
    fix g p assume "g < length (hhash hi')"
    then have g: "g < length (hhash hi)" using sizes by simp
    have "p \<in> set (?B g) \<longleftrightarrow> p \<in> set (B g) \<and> p \<noteq> t"
      using hashid_okD(5) [OF B h] hashid_okD(6) [OF B g, of t] tU(3) by auto
    then show "p \<in> set (?B g) \<longleftrightarrow> p < hcap hi' \<and> node_id (hnodes hi' ! p) \<noteq> -1 \<and> bucket hi' (node_id (hnodes hi' ! p)) = g"
      using hashid_okD(6) [OF B g, of p] nodes [of p] sizes(2) bk
      by (cases "p < hcap hi"; cases "p = t") simp_all
  next
    fix p assume "p < hcap hi'" "node_id (hnodes hi' ! p) = -1"
    then show "node_next (hnodes hi' ! p) = None" using free sizes(2) by simp
  next
    have "inj_on (\<lambda>p. node_id (hnodes hi ! p)) (?U - {t})" using hashid_okD(8) [OF B] by (rule inj_on_subset) blast
    then have "inj_on (\<lambda>p. node_id (hnodes hi' ! p)) (?U - {t})"
      by (rule inj_on_cong [THEN iffD1, rotated]) (use nodes in auto)
    then show "inj_on (\<lambda>p. node_id (hnodes hi' ! p)) {p. p < hcap hi' \<and> node_id (hnodes hi' ! p) \<noteq> -1}"
      unfolding U' .
    have "t \<in> ?U" "finite ?U" using tU by simp_all
    then have "card ?U = Suc (card (?U - {t}))" by (rule card.remove [rotated])
    then show "hcount hi' = int (card {p. p < hcap hi' \<and> node_id (hnodes hi' ! p) \<noteq> -1})"
      unfolding U' sizes(3) hashid_okD(9) [OF B] by simp
  qed
  have same: "p = t" if "p < hcap hi" "node_id (hnodes hi ! p) = node_id (hnodes hi ! t)" for p
    using hashid_okD(8) [OF B] that tU by (auto dest: inj_onD)
  have "hashid_view hi' j = Some p \<longleftrightarrow> ((hashid_view hi)(node_id (hnodes hi ! t) := None)) j = Some p" for j p
    unfolding hashid_view_iff [OF ok] sizes(2) using hashid_view_iff [OF B, of j p] nodes [of p] same [of p] by auto
  then have "hashid_view hi' = (hashid_view hi)(node_id (hnodes hi ! t) := None)" by (intro ext) (metis not_Some_eq)
  with ok show ?thesis by (auto simp: hashid_inv_def)
qed

lemma hashid_remove_ok:
  assumes "hashid_inv hi"
  shows "\<exists>hi'. hashid_remove hi i = Ok (hashid_view hi i, hi') \<and> hashid_inv hi' \<and>
    hashid_view hi' = (hashid_view hi)(i := None) \<and> hcap hi' = hcap hi"
proof -
  obtain B where B: "hashid_ok hi B" using assms by (auto simp: hashid_inv_def)
  let ?h = "bucket hi i"
  have h: "?h < length (hhash hi)" using hashid_okD(1,2) [OF B] bucket_less by metis
  note chain = hashid_okD(4) [OF B h] and mem = hashid_okD(6) [OF B h]
  have len: "length (hnodes hi) = hcap hi" using hashid_okD(3) [OF B] .
  have absent: "hashid_view hi i = None" if "\<And>p. p \<in> set (B ?h) \<Longrightarrow> node_id (hnodes hi ! p) \<noteq> i"
    using that mem hashid_view_iff [OF B, of i] by (metis not_Some_eq)
  have present: "hashid_view hi i = Some p" if "p \<in> set (B ?h)" "node_id (hnodes hi ! p) = i" for p
    using that mem hashid_view_iff [OF B, of i p] by metis
  have nochange: "(hashid_view hi)(i := None) = hashid_view hi" if "hashid_view hi i = None" using that by auto
  show ?thesis
  proof (cases "B ?h")
    case Nil
    then have "hashid_remove hi i = Ok (None, hi)" using chain h by (simp add: hashid_remove_def Let_def)
    then show ?thesis using absent nochange Nil assms by auto
  next
    case (Cons c ps)
    have c: "hhash hi ! ?h = Some c" "c < length (hnodes hi)" using chain Cons by simp_all
    have dist: "distinct (c # ps)" using hashid_okD(5) [OF B h] Cons by simp
    show ?thesis
    proof (cases "node_id (hnodes hi ! c) = i")
      case True
      let ?hi = "clear_node (hi\<lparr>hhash := (hhash hi)[?h := node_next (hnodes hi ! c)]\<rparr>) c"
      have "hashid_remove hi i = Ok (Some c, ?hi)" using c h True by (simp add: hashid_remove_def Let_def)
      moreover have "hashid_inv ?hi \<and> hashid_view ?hi = (hashid_view hi)(node_id (hnodes hi ! c) := None)"
      proof (rule hashid_cleared [OF B h])
        show "c \<in> set (B ?h)" using Cons by simp
        show "hchain (hnodes ?hi) (hhash ?hi ! g) ((B(?h := remove1 c (B ?h))) g)" if g: "g < length (hhash hi)" for g
        proof (cases "g = ?h")
          case False
          then have "c \<notin> set (B g)" using hashid_okD(6) [OF B g, of c] True by auto
          then show ?thesis using False hashid_okD(4) [OF B g] by (simp add: clear_node_def)
        qed (use chain Cons dist h in \<open>simp add: clear_node_def\<close>)
      qed (use len c hashid_okD(7) [OF B] in \<open>auto simp: clear_node_def nth_list_update split: if_splits\<close>)
      ultimately show ?thesis using present [of c] Cons True by (auto simp: clear_node_def)
    next
      case False
      have "hchain (hnodes hi) (Some c) (c # ps)" using chain c Cons by simp
      from remove_loop_chain [OF this, of i] show ?thesis
      proof (elim disjE exE conjE)
        assume r: "remove_loop (hnodes hi) i c = Some (Ok None)" "\<forall>p \<in> set ps. node_id (hnodes hi ! p) \<noteq> i"
        then have "hashid_remove hi i = Ok (None, hi)" using c h False by (simp add: hashid_remove_def Let_def)
        moreover have "hashid_view hi i = None" using r(2) False Cons by (intro absent) auto
        ultimately show ?thesis using nochange assms by auto
      next
        fix qs d t rs
        assume split: "c # ps = qs @ d # t # rs" and t: "node_id (hnodes hi ! t) = i"
          and r: "remove_loop (hnodes hi) i c = Some (Ok (Some (d, t)))"
        let ?n = "(hnodes hi)[d := (hnodes hi ! d)\<lparr>node_next := node_next (hnodes hi ! t)\<rparr>]"
        let ?hi = "clear_node (hi\<lparr>hnodes := ?n\<rparr>) t"
        have in_B: "d \<in> set (B ?h)" "t \<in> set (B ?h)" "d \<noteq> t" using Cons split dist by auto
        have run: "hashid_remove hi i = Ok (Some t, ?hi)" using c h False r by (simp add: hashid_remove_def Let_def)
        have "hashid_inv ?hi \<and> hashid_view ?hi = (hashid_view hi)(node_id (hnodes hi ! t) := None)"
        proof (rule hashid_cleared [OF B h in_B(2)])
          show "hchain (hnodes ?hi) (hhash ?hi ! g) ((B(?h := remove1 t (B ?h))) g)" if g: "g < length (hhash hi)" for g
          proof (cases "g = ?h")
            case True
            have "remove1 t (B ?h) = qs @ d # rs" using Cons split dist by (auto simp: remove1_append)
            then show ?thesis using True hchain_unlink [of "hnodes hi" _ qs d t rs] chain Cons split dist
              by (simp add: clear_node_def)
          next
            case False
            then have "d \<notin> set (B g)" "t \<notin> set (B g)"
              using hashid_okD(6) [OF B g] mem in_B by auto
            then show ?thesis using False hashid_okD(4) [OF B g] by (simp add: clear_node_def)
          qed
          show "node_next (hnodes ?hi ! p) = None" if "p < hcap hi" "node_id (hnodes ?hi ! p) = -1" for p
          proof -
            have "node_id (hnodes hi ! d) \<noteq> -1" using mem in_B by blast
            then show ?thesis using that len hashid_okD(7) [OF B that(1)] in_B(3)
              by (auto simp: clear_node_def list_update_nth_if split: if_splits)
          qed
        qed (use len in \<open>auto simp: clear_node_def list_update_nth_if\<close>)
        then show ?thesis using run present [OF in_B(2) t] t by (auto simp: clear_node_def)
      qed
    qed
  qed
qed

lemma hashcap_power: "\<exists>k. hashcap_loop (2 ^ j) mx = 2 ^ k"
proof (induction "mx - 2 ^ j" arbitrary: j rule: less_induct)
  case less
  show ?case
  proof (cases "(2::nat) ^ j < mx")
    case True
    moreover have "mx - 2 ^ Suc j < mx - 2 ^ j" by (rule diff_less_mono2 [OF _ True]) simp
    ultimately show ?thesis using less [of "Suc j"] hashcap_loop.simps [of "2 ^ j" mx] by (simp add: mult.commute)
  qed (auto simp: hashcap_loop.simps)
qed

lemma hashid_init_inv: "hashid_inv (hashid_init mx)" "hashid_view (hashid_init mx) = Map.empty"
proof -
  obtain k where k: "hashcap_loop 16 mx = 2 ^ k" using hashcap_power [of 4 mx] by auto
  have ok: "hashid_ok (hashid_init mx) (\<lambda>_. [])"
    unfolding hashid_ok_def by (auto simp: hashid_init_def Let_def k inj_on_def)
  then show "hashid_inv (hashid_init mx)" by (auto simp: hashid_inv_def)
  have "hashid_view (hashid_init mx) i \<noteq> Some p" for i p
    unfolding hashid_view_iff [OF ok] by (auto simp: hashid_init_def Let_def)
  then show "hashid_view (hashid_init mx) = Map.empty" by (intro ext) (metis not_Some_eq)
qed

lemma hashid_room_card:
  assumes "hashid_inv hi"
  shows "\<not> hashid_full hi \<longleftrightarrow> card (dom (hashid_view hi)) < hcap hi"
proof -
  obtain B where B: "hashid_ok hi B" using assms by (auto simp: hashid_inv_def)
  let ?U = "{p. p < hcap hi \<and> node_id (hnodes hi ! p) \<noteq> -1}"
  have "dom (hashid_view hi) = (\<lambda>p. node_id (hnodes hi ! p)) ` ?U"
    using hashid_view_iff [OF B] by (auto simp: dom_def)
  then have "card (dom (hashid_view hi)) = card ?U" using hashid_okD(8) [OF B] by (simp add: card_image)
  moreover have "card ?U \<le> card {..<hcap hi}" by (rule card_mono) auto
  ultimately show ?thesis using hashid_okD(9) [OF B] by (auto simp: hashid_full_def)
qed

lemma hashid_insert_cap:
  assumes "hashid_insert hi i = Ok (c, hi')"
  shows "c < hcap hi \<and> hcap hi' = hcap hi"
proof -
  obtain c0 where c0: "free_node hi i 0 (hcap hi) = Some c0"
    using assms by (cases "free_node hi i 0 (hcap hi)") (simp_all add: hashid_insert_def)
  then have "0 < hcap hi" by (cases "hcap hi") simp_all
  then show ?thesis using free_node_Some [OF c0] assms c0
    by (auto simp: hashid_insert_def Let_def res_assert_def split: if_splits)
qed

lemma hashid_remove_cap:
  assumes "hashid_inv hi" "hashid_remove hi i = Ok (r, hi')"
  shows "hcap hi' = hcap hi"
  using hashid_remove_ok [OF assms(1), of i] assms(2) by auto

interpretation hid: bounded_dict hashid_inv hashid_view "\<lambda>hi. \<not> hashid_full hi" "\<lambda>i. 0 \<le> i"
  hashid_lookup hashid_insert hashid_remove hcap
proof unfold_locales
  show "\<exists>v d'. hashid_insert d k = Ok (v, d') \<and> hashid_inv d' \<and> hashid_view d' = (hashid_view d)(k \<mapsto> v) \<and> v \<notin> ran (hashid_view d)"
    if "hashid_inv d" "\<not> hashid_full d" "0 \<le> k" "hashid_view d k = None" for d k
    using hashid_insert_ok [OF that] by blast
  show "\<exists>d'. hashid_remove d k = Ok (hashid_view d k, d') \<and> hashid_inv d' \<and> hashid_view d' = (hashid_view d)(k := None)"
    if "hashid_inv d" for d k
    using hashid_remove_ok [OF that] by blast
qed (rule hashid_lookup_ok hashid_room_card hashid_insert_cap hashid_remove_cap; assumption)+

section \<open>Properties\<close>

text \<open>The run of the operations of \<open>hashid.h\<close> on a sequence of the client.\<close>

definition hashid_run :: "hashid \<Rightarrow> int dict_op list \<Rightarrow> (nat option list \<times> hashid) res" where
  "hashid_run = dict_run hashid_lookup hashid_insert hashid_remove"

text \<open>C27: the hash table of socket ids is a dictionary. Take a table fresh from \<open>hashid_init\<close> with \<open>mx\<close> nodes and any
  sequence of look ups, insertions and removals, of any ids in any order, in which an id is inserted only when it is not
  negative, not in the table and fewer than \<open>mx\<close> ids are (the gate asks \<open>hashid_full\<close> first; the removed and looked-up
  ids, present or not, are not negative either). Then the whole sequence runs, no assertion fails and every loop over
  the chains ends; every insertion answers a node below \<open>mx\<close> that no other id has at that moment, every look up and
  every removal answers the node the id was given, or none when it is absent; and at the end (so, taking prefixes, at
  every moment) \<open>hashid_full\<close> says whether \<open>mx\<close> ids are in the table.\<close>

theorem hashid_dictionary:
  assumes "dict_client (\<lambda>i. 0 \<le> i) mx {} ops"
  shows "\<exists>rs hi. hashid_run (hashid_init mx) ops = Ok (rs, hi) \<and> dict_spec mx Map.empty ops rs \<and>
    (hashid_full hi \<longleftrightarrow> mx \<le> card (keys_after {} ops))"
proof -
  have cap: "hcap (hashid_init mx) = mx" by (simp add: hashid_init_def Let_def)
  have "dict_client (\<lambda>i. 0 \<le> i) (hcap (hashid_init mx)) (dom (hashid_view (hashid_init mx))) ops"
    using assms cap hashid_init_inv(2) by simp
  from hid.run_spec [OF hashid_init_inv(1) this] obtain rs hi where
    run: "hashid_run (hashid_init mx) ops = Ok (rs, hi)" "hashid_inv hi" "hcap hi = mx"
      "dom (hashid_view hi) = keys_after {} ops" "dict_spec mx Map.empty ops rs"
    by (auto simp: hashid_run_def cap hashid_init_inv(2))
  moreover have "hashid_full hi \<longleftrightarrow> mx \<le> card (keys_after {} ops)"
    using hashid_room_card [OF run(2)] run(3,4) by auto
  ultimately show ?thesis by blast
qed

text \<open>Ids 5 and 21 fall into one bucket of a table of two nodes; removing the first leaves the second reachable,
  and the freed node is used again.\<close>

theorem hashid_dictionary_witness:
  "\<exists>a b c hi. hashid_run (hashid_init 2)
     [Op_insert 5, Op_insert 21, Op_lookup 5, Op_remove 5, Op_lookup 21, Op_lookup 5, Op_remove 7, Op_insert 37, Op_lookup 21]
     = Ok ([Some a, Some b, Some a, Some a, Some b, None, None, Some c, Some b], hi) \<and>
   {a, b} = {0, 1} \<and> c = a \<and> hashid_full hi"
proof -
  let ?ops = "[Op_insert 5, Op_insert 21, Op_lookup 5, Op_remove 5, Op_lookup 21, Op_lookup 5, Op_remove 7, Op_insert 37, Op_lookup (21::int)]"
  have "dict_client (\<lambda>i. 0 \<le> i) 2 {} ?ops" by (simp add: card_insert_if)
  from hashid_dictionary [OF this] obtain rs hi where
    run: "hashid_run (hashid_init 2) ?ops = Ok (rs, hi)" "dict_spec 2 Map.empty ?ops rs"
      "hashid_full hi \<longleftrightarrow> 2 \<le> card (keys_after {} ?ops)" by blast
  have "hashid_full hi" using run(3) by (simp add: card_insert_if)
  moreover obtain a b c where rs: "rs = [Some a, Some b, Some a, Some a, Some b, None, None, Some c, Some b]"
      and slots: "a < 2" "b < 2" "b \<noteq> a" "c < 2" "c \<noteq> b"
    using run(2) by (auto simp: ran_def split: if_splits)
  moreover have "{a, b} = {0, 1}" "c = a" using slots by (auto simp: less_2_cases_iff)
  ultimately show ?thesis using run(1) by blast
qed

end
