(* ===== verification/Skynet_Text.thy ===== *)
theory Skynet_Text
  imports Skynet_Prelude "HOL-Library.Char_ord"
begin

text \<open>
  What the services use of the C library for text: strings in character arrays ended by NUL,
  \<open>strtol\<close> and \<open>strtoul\<close>, \<open>strsep\<close> with a one-character delimiter, \<open>%d\<close> of \<open>printf\<close>. The lemmas are the
  round trips between numbers and their decimal and hexadecimal text.
\<close>

definition NUL :: char where "NUL = CHR 0x00"

text \<open>The C string that starts at an offset of an array.\<close>

definition cstr :: "char list \<Rightarrow> nat \<Rightarrow> string" where
  "cstr buf off = takeWhile (\<lambda>c. c \<noteq> NUL) (drop off buf)"

definition str_bytes :: "string \<Rightarrow> byte list" where
  "str_bytes s = map of_char s"

section \<open>Numbers from text\<close>

definition isspace :: "char \<Rightarrow> bool" where
  "isspace c \<longleftrightarrow> c = CHR '' '' \<or> (9 \<le> (of_char c :: nat) \<and> (of_char c :: nat) \<le> 13)"

definition digit_of :: "char \<Rightarrow> nat option" where
  "digit_of c =
     (let n = (of_char c :: nat) in
      if 48 \<le> n \<and> n \<le> 57 then Some (n - 48)
      else if 97 \<le> n \<and> n \<le> 122 then Some (n - 87)
      else if 65 \<le> n \<and> n \<le> 90 then Some (n - 55) else None)"

fun digits_value :: "nat \<Rightarrow> nat \<Rightarrow> string \<Rightarrow> nat" where
  "digits_value base acc [] = acc"
| "digits_value base acc (c # cs) =
     (case digit_of c of
        Some d \<Rightarrow> if d < base then digits_value base (acc * base + d) cs else acc
      | None \<Rightarrow> acc)"

definition skip_prefix :: "nat \<Rightarrow> string \<Rightarrow> string" where
  "skip_prefix base s =
     (if base = 16 \<and> (take 2 s = ''0x'' \<or> take 2 s = ''0X'') \<and>
         (case drop 2 s of [] \<Rightarrow> False | c # _ \<Rightarrow> (case digit_of c of None \<Rightarrow> False | Some d \<Rightarrow> d < 16))
      then drop 2 s else s)"

text \<open>The sign and the magnitude that \<open>strtol\<close> and \<open>strtoul\<close> read.\<close>

definition scan_number :: "nat \<Rightarrow> string \<Rightarrow> bool \<times> nat" where
  "scan_number base s =
     (case dropWhile isspace s of
        [] \<Rightarrow> (False, 0)
      | c # cs \<Rightarrow>
          if c = CHR ''-'' then (True, digits_value base 0 (skip_prefix base cs))
          else if c = CHR ''+'' then (False, digits_value base 0 (skip_prefix base cs))
          else (False, digits_value base 0 (skip_prefix base (c # cs))))"

definition strtol :: "nat \<Rightarrow> string \<Rightarrow> int" where
  "strtol base s =
     (case scan_number base s of (neg, m) \<Rightarrow>
        max (- (2 ^ 63)) (min (2 ^ 63 - 1) (if neg then - int m else int m)))"

definition strtoul :: "nat \<Rightarrow> string \<Rightarrow> u64" where
  "strtoul base s =
     (case scan_number base s of (neg, m) \<Rightarrow>
        if m \<ge> 2 ^ 64 then -1 else if neg then - of_nat m else of_nat m)"

text \<open>The conversion of a \<open>long\<close> to an \<open>int\<close>.\<close>

definition to_int :: "int \<Rightarrow> int" where
  "to_int x = (x + 2 ^ 31) mod 2 ^ 32 - 2 ^ 31"

section \<open>Text from numbers\<close>

definition digit_char :: "nat \<Rightarrow> char" where
  "digit_char d = char_of (if d < 10 then 48 + d else 87 + d)"

function nat_text :: "nat \<Rightarrow> nat \<Rightarrow> string" where
  "nat_text base n =
     (if base < 2 \<or> n < base then [digit_char n] else nat_text base (n div base) @ [digit_char (n mod base)])"
  by pat_completeness auto
termination
  by (relation "measure snd") (auto intro!: div_less_dividend)

declare nat_text.simps [simp del]

definition dec :: "int \<Rightarrow> string" where
  "dec i = (if i < 0 then ''-'' @ nat_text 10 (nat (- i)) else nat_text 10 (nat i))"

section \<open>Splitting\<close>

text \<open>\<open>strsep(&p, " ")\<close> on the string at \<open>off\<close>: the array with the delimiter overwritten, and the new
  value of \<open>p\<close>.\<close>

definition strsep :: "char list \<Rightarrow> nat \<Rightarrow> char list \<times> nat option" where
  "strsep buf off =
     (let tok = takeWhile (\<lambda>c. c \<noteq> CHR '' '') (cstr buf off) in
      if length tok < length (cstr buf off)
      then (buf[off + length tok := NUL], Some (off + length tok + 1)) else (buf, None))"

section \<open>Round trips\<close>

lemma of_char_digit: "d < 16 \<Longrightarrow> (of_char (digit_char d) :: nat) = (if d < 10 then 48 + d else 87 + d)"
  by (simp add: digit_char_def)

lemma digit_of_char [simp]: "d < 16 \<Longrightarrow> digit_of (digit_char d) = Some d"
  by (auto simp: digit_of_def Let_def of_char_digit)

lemma digit_char_not:
  assumes "d < 16"
  shows "digit_char d \<noteq> CHR ''-''" "digit_char d \<noteq> CHR ''+''" "\<not> isspace (digit_char d)" "digit_char d \<noteq> NUL"
    "digit_char d \<noteq> CHR '' ''"
proof -
  have n: "(of_char (digit_char d) :: nat) = (if d < 10 then 48 + d else 87 + d)" by (rule of_char_digit [OF assms])
  have ne: "digit_char d \<noteq> c" if "(of_char c :: nat) < 48" for c using n that by (auto split: if_splits)
  show "digit_char d \<noteq> CHR ''-''" "digit_char d \<noteq> CHR ''+''" "digit_char d \<noteq> NUL" "digit_char d \<noteq> CHR '' ''"
    by (rule ne; simp add: NUL_def)+
  then show "\<not> isspace (digit_char d)" using n by (auto simp: isspace_def)
qed

lemma digits_value_append:
  assumes "\<forall>c \<in> set cs. \<exists>d < base. digit_of c = Some d"
  shows "digits_value base acc (cs @ ds) = digits_value base (digits_value base acc cs) ds"
  using assms
proof (induction cs arbitrary: acc)
  case (Cons c cs)
  then obtain d where "d < base" "digit_of c = Some d" by auto
  then show ?case using Cons by simp
qed simp

lemma nat_text_digits:
  assumes "2 \<le> base" "base \<le> 16"
  shows "(\<forall>c \<in> set (nat_text base n). \<exists>d < base. digit_of c = Some d \<and> c = digit_char d) \<and> nat_text base n \<noteq> []"
  using assms
proof (induction base n rule: nat_text.induct)
  case (1 base n)
  show ?case
  proof (cases "n < base")
    case True
    then show ?thesis using 1 by (auto simp: nat_text.simps [of base n])
  next
    case False
    have "n mod base < base" "n mod base < 16" using 1 by (auto intro: less_le_trans [OF mod_less_divisor])
    then show ?thesis using 1 False by (auto simp: nat_text.simps [of base n])
  qed
qed

lemma digits_value_text:
  assumes "2 \<le> base" "base \<le> 16"
  shows "digits_value base 0 (nat_text base n) = n"
  using assms
proof (induction base n rule: nat_text.induct)
  case (1 base n)
  show ?case
  proof (cases "n < base")
    case True
    then show ?thesis using 1 by (simp add: nat_text.simps [of base n])
  next
    case False
    have d: "n mod base < base" "n mod base < 16" using 1 by (auto intro: less_le_trans [OF mod_less_divisor])
    have "\<forall>c \<in> set (nat_text base (n div base)). \<exists>d < base. digit_of c = Some d" using nat_text_digits [OF 1(2,3)] by blast
    from digits_value_append [OF this, of 0 "[digit_char (n mod base)]"]
    show ?thesis using 1 False d by (simp add: nat_text.simps [of base n])
  qed
qed

lemma scan_text: "scan_number 10 (nat_text 10 n) = (False, n)"
proof -
  obtain c cs where c: "nat_text 10 n = c # cs" "\<exists>d < 10. c = digit_char d"
    using nat_text_digits [of 10 n] by (cases "nat_text 10 n") auto
  then have "\<not> isspace c" "c \<noteq> CHR ''-''" "c \<noteq> CHR ''+''" using digit_char_not by auto
  then show ?thesis using c digits_value_text [of 10 n] by (simp add: scan_number_def skip_prefix_def)
qed

lemma strtol_dec:
  assumes "- (2 ^ 31) \<le> i" "i < 2 ^ 31"
  shows "to_int (strtol 10 (dec i)) = i"
proof -
  have neg: "scan_number 10 (''-'' @ nat_text 10 n) = (True, n)" for n
    using digits_value_text [of 10 n] by (simp add: scan_number_def skip_prefix_def isspace_def)
  have "strtol 10 (dec i) = i" using assms scan_text neg by (auto simp: strtol_def dec_def)
  moreover have "to_int i = i" using assms by (simp add: to_int_def)
  ultimately show ?thesis by simp
qed

end
