(* ===== verification/Skynet_Gate.thy ===== *)
theory Skynet_Gate
  imports Skynet_Databuffer Skynet_Hashid Skynet_Text
begin

text \<open>
  The gate service, \<open>service-src/service_gate.c\<close>: it accepts client connections, cuts their byte
  streams into packets and forwards each packet to the broker, to the agent of the connection or to
  the watchdog. The calls of the runtime that leave the service (\<open>skynet_send\<close>,
  \<open>skynet_socket_close\<close>, ...) are returned as a list of events; \<open>skynet_queryname\<close> and
  \<open>skynet_socket_listen\<close>, whose results the gate uses, are parameters. The buffer of a socket message
  of type DATA has \<open>ud\<close> bytes.
\<close>

section \<open>Data\<close>

record connection =
  conn_id :: int
  conn_agent :: u32
  conn_client :: u32
  conn_name :: string
  conn_buffer :: databuffer

record gate =
  listen_id :: int
  watchdog :: u32
  broker :: u32
  client_tag :: int
  header_size :: nat
  max_connection :: nat
  gate_hash :: hashid
  gate_conn :: "connection list"
  gate_mp :: messagepool

datatype gate_out =
    Send u32 u32 int int "byte list"
  | Sock_close int
  | Sock_start int
  | Sock_send int "byte list"
  | Log string

record skynet_socket_message =
  sm_type :: int
  sm_id :: int
  sm_ud :: int
  sm_buffer :: "byte list"
  sm_tail :: string

definition PTYPE_TEXT :: int where "PTYPE_TEXT = 0"
definition PTYPE_CLIENT :: int where "PTYPE_CLIENT = 3"
definition PTYPE_SOCKET :: int where "PTYPE_SOCKET = 6"
definition PTYPE_TAG_DONTCOPY :: int where "PTYPE_TAG_DONTCOPY = 0x10000"

definition SKYNET_SOCKET_TYPE_DATA :: int where "SKYNET_SOCKET_TYPE_DATA = 1"
definition SKYNET_SOCKET_TYPE_CONNECT :: int where "SKYNET_SOCKET_TYPE_CONNECT = 2"
definition SKYNET_SOCKET_TYPE_CLOSE :: int where "SKYNET_SOCKET_TYPE_CLOSE = 3"
definition SKYNET_SOCKET_TYPE_ACCEPT :: int where "SKYNET_SOCKET_TYPE_ACCEPT = 4"
definition SKYNET_SOCKET_TYPE_ERROR :: int where "SKYNET_SOCKET_TYPE_ERROR = 5"
definition SKYNET_SOCKET_TYPE_WARNING :: int where "SKYNET_SOCKET_TYPE_WARNING = 7"

definition connection_zero :: connection where
  "connection_zero = \<lparr>conn_id = 0, conn_agent = 0, conn_client = 0, conn_name = [], conn_buffer = databuffer_zero\<rparr>"

section \<open>Operations\<close>

definition gate_create :: gate where
  "gate_create = \<lparr>listen_id = -1, watchdog = 0, broker = 0, client_tag = 0, header_size = 0, max_connection = 0,
     gate_hash = \<lparr>hashmod = 0, hcap = 0, hcount = 0, hnodes = [], hhash = []\<rparr>, gate_conn = [],
     gate_mp = \<lparr>pool_blocks = 0, pool_free = 0\<rparr>\<rparr>"

definition gate_release :: "gate \<Rightarrow> gate_out list \<times> gate" where
  "gate_release g =
     (map (\<lambda>c. Sock_close (conn_id c)) (filter (\<lambda>c. conn_id c \<ge> 0) (take (max_connection g) (gate_conn g))) @
      (if listen_id g \<ge> 0 then [Sock_close (listen_id g)] else []),
      g\<lparr>gate_mp := messagepool_free (gate_mp g), gate_hash := hashid_clear (gate_hash g), gate_conn := []\<rparr>)"

text \<open>\<open>_parm\<close>: skip the spaces after the command and move the rest to the start of the array.\<close>

definition parm :: "char list \<Rightarrow> nat \<Rightarrow> nat \<Rightarrow> char list" where
  "parm msg sz command_sz =
     (let k = command_sz + length (takeWhile (\<lambda>c. c = CHR '' '') (take (sz - command_sz) (drop command_sz msg))) in
      take (sz - k) (drop k msg) @ [NUL] @ drop (Suc (sz - k)) msg)"

definition forward_agent :: "gate \<Rightarrow> int \<Rightarrow> u32 \<Rightarrow> u32 \<Rightarrow> gate res" where
  "forward_agent g fd agentaddr clientaddr =
     res_bind (hashid_lookup (gate_hash g) fd) (\<lambda>r.
     case r of
       None \<Rightarrow> Ok g
     | Some i \<Rightarrow>
         if i < length (gate_conn g) then
           Ok (g\<lparr>gate_conn := (gate_conn g)[i := (gate_conn g ! i)\<lparr>conn_agent := agentaddr, conn_client := clientaddr\<rparr>]\<rparr>)
         else Err Out_of_bounds)"

text \<open>\<open>memcmp(command, lit, i) == 0\<close>, for a literal that is followed by its NUL.\<close>

definition memcmp_eq :: "char list \<Rightarrow> string \<Rightarrow> nat \<Rightarrow> bool" where
  "memcmp_eq command lit i \<longleftrightarrow> take i command = take i (lit @ [NUL])"

definition ctrl :: "(string \<Rightarrow> u32) \<Rightarrow> gate \<Rightarrow> string \<Rightarrow> (gate_out list \<times> gate) res" where
  "ctrl queryname g msg =
     (let sz = length msg; tmp = msg @ [NUL]; i = length (takeWhile (\<lambda>c. c \<noteq> CHR '' '') msg) in
      if sz = 0 then Ok ([], g)
      else if memcmp_eq tmp ''kick'' i then
        let uid = to_int (strtol 10 (cstr (parm tmp sz i) 0)) in
        res_bind (hashid_lookup (gate_hash g) uid) (\<lambda>r.
        Ok (if r \<noteq> None then [Sock_close uid] else [], g))
      else if memcmp_eq tmp ''forward'' i then
        let buf0 = parm tmp sz i in
        (case strsep buf0 0 of
           (_, None) \<Rightarrow> Ok ([], g)
         | (buf1, Some agent) \<Rightarrow>
             let fd = to_int (strtol 10 (cstr buf1 0)) in
             (case strsep buf1 agent of
                (_, None) \<Rightarrow> Ok ([], g)
              | (buf2, Some client) \<Rightarrow>
                  let agent_handle = ucast (strtoul 16 (cstr buf2 (Suc agent)));
                      client_handle = ucast (strtoul 16 (cstr buf2 (Suc client))) in
                  res_bind (forward_agent g fd agent_handle client_handle) (\<lambda>g1. Ok ([], g1))))
      else if memcmp_eq tmp ''broker'' i then
        Ok ([], g\<lparr>broker := queryname (cstr (parm tmp sz i) 0)\<rparr>)
      else if memcmp_eq tmp ''start'' i then
        let uid = to_int (strtol 10 (cstr (parm tmp sz i) 0)) in
        res_bind (hashid_lookup (gate_hash g) uid) (\<lambda>r.
        Ok (if r \<noteq> None then [Sock_start uid] else [], g))
      else if memcmp_eq tmp ''close'' i then
        Ok (if listen_id g \<ge> 0 then ([Sock_close (listen_id g)], g\<lparr>listen_id := -1\<rparr>) else ([], g))
      else Ok ([Log ''[gate] Unkown command''], g))"

text \<open>\<open>_report\<close>: \<open>text\<close> is the formatted message, cut at the size of the array.\<close>

definition report :: "gate \<Rightarrow> string \<Rightarrow> gate_out list" where
  "report g tx = (if watchdog g = 0 then [] else [Send 0 (watchdog g) PTYPE_TEXT 0 (str_bytes (take 1023 tx))])"

definition set_conn :: "gate \<Rightarrow> nat \<Rightarrow> connection \<Rightarrow> gate" where
  "set_conn g i c = g\<lparr>gate_conn := (gate_conn g)[i := c]\<rparr>"

definition put_buffer :: "gate \<Rightarrow> nat \<Rightarrow> databuffer \<Rightarrow> messagepool \<Rightarrow> gate" where
  "put_buffer g i db mp = (set_conn g i ((gate_conn g ! i)\<lparr>conn_buffer := db\<rparr>))\<lparr>gate_mp := mp\<rparr>"

definition gate_read :: "gate \<Rightarrow> nat \<Rightarrow> nat \<Rightarrow> (byte list \<times> gate) res" where
  "gate_read g i sz =
     res_bind (databuffer_read (conn_buffer (gate_conn g ! i)) (gate_mp g) sz) (\<lambda>(bytes, db, mp).
     Ok (bytes, put_buffer g i db mp))"

definition forward :: "gate \<Rightarrow> nat \<Rightarrow> nat \<Rightarrow> (gate_out list \<times> gate) res" where
  "forward g i sz =
     (let c = gate_conn g ! i; fd = conn_id c in
      if fd \<le> 0 then Ok ([], g)
      else if broker g \<noteq> 0 then
        res_bind (gate_read g i sz) (\<lambda>(temp, g1).
        Ok ([Send 0 (broker g) (client_tag g OR PTYPE_TAG_DONTCOPY) fd temp], g1))
      else if conn_agent c \<noteq> 0 then
        res_bind (gate_read g i sz) (\<lambda>(temp, g1).
        Ok ([Send (conn_client c) (conn_agent c) (client_tag g OR PTYPE_TAG_DONTCOPY) fd temp], g1))
      else if watchdog g \<noteq> 0 then
        res_bind (gate_read g i sz) (\<lambda>(tmp, g1).
        Ok ([Send 0 (watchdog g) (PTYPE_TEXT OR PTYPE_TAG_DONTCOPY) fd (str_bytes (dec fd @ '' data '') @ tmp)], g1))
      else Ok ([], g))"

text \<open>The loop of \<open>dispatch_message\<close>; \<open>i\<close> is the index of the connection, \<open>fd\<close> its socket id.\<close>

partial_function (option) dispatch_loop :: "nat \<Rightarrow> int \<Rightarrow> gate \<Rightarrow> (gate_out list \<times> gate) res option" where
  "dispatch_loop i fd g =
     (case databuffer_readheader (conn_buffer (gate_conn g ! i)) (gate_mp g) (header_size g) of
        Err e \<Rightarrow> Some (Err e)
      | Ok (sz, db, mp) \<Rightarrow>
          let g1 = put_buffer g i db mp in
          if sz < 0 then Some (Ok ([], g1))
          else if sz > 0 then
            if sz \<ge> 0x1000000 then
              (case databuffer_clear db mp of (db2, mp2) \<Rightarrow>
                 Some (Ok ([Sock_close fd, Log ''Recv socket message > 16M''], put_buffer g1 i db2 mp2)))
            else
              (case forward g1 i (nat sz) of
                 Err e \<Rightarrow> Some (Err e)
               | Ok (out, g2) \<Rightarrow>
                   Option.bind
                     (dispatch_loop i fd
                        (put_buffer g2 i (databuffer_reset (conn_buffer (gate_conn g2 ! i))) (gate_mp g2)))
                     (\<lambda>r. Some (res_bind r (\<lambda>(out', g3). Ok (out @ out', g3)))))
          else dispatch_loop i fd g1)"

declare dispatch_loop.simps [code]

definition dispatch_message :: "gate \<Rightarrow> nat \<Rightarrow> int \<Rightarrow> byte list \<Rightarrow> (gate_out list \<times> gate) res" where
  "dispatch_message g i fd data =
     (case databuffer_push (conn_buffer (gate_conn g ! i)) (gate_mp g) data of (db, mp) \<Rightarrow>
      case dispatch_loop i fd (put_buffer g i db mp) of
        None \<Rightarrow> Err Diverge
      | Some r \<Rightarrow> r)"

definition dispatch_socket_message :: "gate \<Rightarrow> skynet_socket_message \<Rightarrow> (gate_out list \<times> gate) res" where
  "dispatch_socket_message g m =
     (if sm_type m = SKYNET_SOCKET_TYPE_DATA then
        res_bind (hashid_lookup (gate_hash g) (sm_id m)) (\<lambda>r.
        case r of
          Some i \<Rightarrow> if i < length (gate_conn g) then dispatch_message g i (sm_id m) (sm_buffer m) else Err Out_of_bounds
        | None \<Rightarrow> Ok ([Log ''Drop unknown connection message'', Sock_close (sm_id m)], g))
      else if sm_type m = SKYNET_SOCKET_TYPE_CONNECT then
        (if sm_id m = listen_id g then Ok ([], g)
         else res_bind (hashid_lookup (gate_hash g) (sm_id m)) (\<lambda>r.
           Ok (if r = None then [Log ''Close unknown connection'', Sock_close (sm_id m)] else [], g)))
      else if sm_type m = SKYNET_SOCKET_TYPE_CLOSE \<or> sm_type m = SKYNET_SOCKET_TYPE_ERROR then
        res_bind (hashid_remove (gate_hash g) (sm_id m)) (\<lambda>(r, hash).
        case r of
          None \<Rightarrow> Ok ([], g\<lparr>gate_hash := hash\<rparr>)
        | Some i \<Rightarrow>
            if i < length (gate_conn g) then
              (case databuffer_clear (conn_buffer (gate_conn g ! i)) (gate_mp g) of (_, mp) \<Rightarrow>
               let g1 = (set_conn (g\<lparr>gate_hash := hash\<rparr>) i (connection_zero\<lparr>conn_id := -1\<rparr>))\<lparr>gate_mp := mp\<rparr> in
               Ok (report g1 (dec (sm_id m) @ '' close''), g1))
            else Err Out_of_bounds)
      else if sm_type m = SKYNET_SOCKET_TYPE_ACCEPT then
        res_bind (res_assert (listen_id g = sm_id m)) (\<lambda>_.
        if hashid_full (gate_hash g) then Ok ([Sock_close (sm_ud m)], g)
        else res_bind (hashid_insert (gate_hash g) (sm_ud m)) (\<lambda>(i, hash).
          if i < length (gate_conn g) then
            let nm = take 31 (sm_tail m);
                g1 = set_conn (g\<lparr>gate_hash := hash\<rparr>) i ((gate_conn g ! i)\<lparr>conn_id := sm_ud m, conn_name := nm\<rparr>) in
            Ok (report g1 (dec (sm_ud m) @ '' open '' @ dec (sm_ud m) @ '' '' @ nm @ '':0'') @ [Log ''socket open''], g1)
          else Err Out_of_bounds))
      else if sm_type m = SKYNET_SOCKET_TYPE_WARNING then Ok ([Log ''send buffer''], g)
      else Ok ([], g))"

text \<open>\<open>_cb\<close>: the result is the return value, the events and the gate. \<open>sock\<close> is the socket message
  that the bytes of a message of type SOCKET hold.\<close>

definition gate_cb ::
    "(string \<Rightarrow> u32) \<Rightarrow> gate \<Rightarrow> int \<Rightarrow> byte list \<Rightarrow> string \<Rightarrow> skynet_socket_message \<Rightarrow> (int \<times> gate_out list \<times> gate) res" where
  "gate_cb queryname g type msg text_msg sock =
     (if type = PTYPE_TEXT then res_bind (ctrl queryname g text_msg) (\<lambda>(out, g1). Ok (0, out, g1))
      else if type = PTYPE_CLIENT then
        (let sz = length msg in
         if sz \<le> 4 then Ok (0, [Log ''Invalid client message''], g)
         else
           let idbuf = drop (sz - 4) msg;
               uid = ucast (idbuf ! 0) OR push_bit 8 (ucast (idbuf ! 1)) OR push_bit 16 (ucast (idbuf ! 2)) OR
                     push_bit 24 (ucast (idbuf ! 3)) :: u32 in
           res_bind (hashid_lookup (gate_hash g) (sint uid)) (\<lambda>r.
           case r of
             Some _ \<Rightarrow> Ok (1, [Sock_send (sint uid) (take (sz - 4) msg)], g)
           | None \<Rightarrow> Ok (0, [Log ''Invalid client id''], g)))
      else if type = PTYPE_SOCKET then
        res_bind (dispatch_socket_message g sock) (\<lambda>(out, g1). Ok (0, out, g1))
      else Ok (0, [], g))"

text \<open>\<open>strrchr(listen_addr, ':')\<close>: the text before and after the last colon.\<close>

definition split_last_colon :: "string \<Rightarrow> (string \<times> string) option" where
  "split_last_colon s =
     (if CHR '':'' \<in> set s then
        let after = rev (takeWhile (\<lambda>c. c \<noteq> CHR '':'') (rev s)) in
        Some (take (length s - length after - 1) s, after)
      else None)"

definition start_listen :: "(string \<Rightarrow> int \<Rightarrow> int) \<Rightarrow> gate \<Rightarrow> string \<Rightarrow> int \<times> gate_out list \<times> gate" where
  "start_listen socket_listen g listen_addr =
     (case split_last_colon listen_addr of
        None \<Rightarrow>
          let port = to_int (strtol 10 listen_addr) in
          if port \<le> 0 then (1, [Log ''Invalid gate address''], g)
          else let l = socket_listen [] port; g1 = g\<lparr>listen_id := l\<rparr> in
            if l < 0 then (1, [], g1) else (0, [Sock_start l], g1)
      | Some (host, portstr) \<Rightarrow>
          let port = to_int (strtol 10 portstr) in
          if port \<le> 0 then (1, [Log ''Invalid gate address''], g)
          else let l = socket_listen host port; g1 = g\<lparr>listen_id := l\<rparr> in
            if l < 0 then (1, [], g1) else (0, [Sock_start l], g1))"

text \<open>\<open>sscanf(parm, "%c %s %s %d %d", ...)\<close>: the number of conversions and their values.\<close>

definition scan_word :: "string \<Rightarrow> string \<times> string" where
  "scan_word s = (let t = dropWhile isspace s in (takeWhile (\<lambda>c. \<not> isspace c) t, dropWhile (\<lambda>c. \<not> isspace c) t))"

definition scan_int :: "string \<Rightarrow> (int \<times> string) option" where
  "scan_int s =
     (let t = dropWhile isspace s;
          u = (case t of [] \<Rightarrow> [] | c # cs \<Rightarrow> if c = CHR ''-'' \<or> c = CHR ''+'' then cs else t);
          digit = (\<lambda>c. case digit_of c of None \<Rightarrow> False | Some d \<Rightarrow> d < 10) in
      case u of
        [] \<Rightarrow> None
      | c # _ \<Rightarrow> if digit c then Some (to_int (strtol 10 t), dropWhile digit u) else None)"

definition scan_gate :: "string \<Rightarrow> nat \<times> char \<times> string \<times> string \<times> int \<times> int" where
  "scan_gate s =
     (case s of
        [] \<Rightarrow> (0, NUL, [], [], 0, 0)
      | h # r0 \<Rightarrow>
        (case scan_word r0 of (w, r1) \<Rightarrow>
         if w = [] then (1, h, [], [], 0, 0)
         else case scan_word r1 of (b, r2) \<Rightarrow>
         if b = [] then (2, h, w, [], 0, 0)
         else case scan_int r2 of
           None \<Rightarrow> (3, h, w, b, 0, 0)
         | Some (tag, r3) \<Rightarrow>
             (case scan_int r3 of None \<Rightarrow> (4, h, w, b, tag, 0) | Some (mx, _) \<Rightarrow> (5, h, w, b, tag, mx))))"

definition gate_init ::
    "(string \<Rightarrow> u32) \<Rightarrow> (string \<Rightarrow> int \<Rightarrow> int) \<Rightarrow> gate \<Rightarrow> string option \<Rightarrow> int \<times> gate_out list \<times> gate" where
  "gate_init queryname socket_listen g p =
     (case p of
        None \<Rightarrow> (1, [], g)
      | Some s \<Rightarrow>
        (case scan_gate s of (n, header, wdog, binding, tag0, mx) \<Rightarrow>
         if n < 4 then (1, [Log ''Invalid gate parm''], g)
         else if mx \<le> 0 then (1, [Log ''Need max connection''], g)
         else if header \<noteq> CHR ''S'' \<and> header \<noteq> CHR ''L'' then (1, [Log ''Invalid data header style''], g)
         else
           let tag = (if tag0 = 0 then PTYPE_CLIENT else tag0);
               wd = (if hd wdog = CHR ''!'' then 0 else queryname wdog) in
           if hd wdog \<noteq> CHR ''!'' \<and> wd = 0 then (1, [Log ''Invalid watchdog''], g\<lparr>watchdog := wd\<rparr>)
           else
             start_listen socket_listen
               (g\<lparr>watchdog := wd, gate_hash := hashid_init (nat mx),
                  gate_conn := replicate (nat mx) (connection_zero\<lparr>conn_id := -1\<rparr>),
                  max_connection := nat mx, client_tag := tag,
                  header_size := (if header = CHR ''S'' then 2 else 4)\<rparr>) binding))"

section \<open>Framing\<close>

lemma sint_of_nat: "m < 2 ^ 31 \<Longrightarrow> sint (of_nat m :: u32) = int m"
  by (simp add: sint_uint uint_nat unat_of_nat signed_take_bit_int_eq_self)

lemma header_value_be:
  assumes "hs = 2 \<or> hs = 4" "length plen = hs" "be_nat plen < 2 ^ 31"
  shows "header_value hs plen = int (be_nat plen)"
proof (cases "hs = 2")
  case True
  then obtain a b where "plen = [a, b]" using assms(2) by (auto simp: length_Suc_conv numeral_2_eq_2)
  then show ?thesis using True by (simp add: header_value_def)
next
  case False
  then have "length plen = Suc (Suc (Suc (Suc 0)))" using assms by simp
  then obtain a b c d where p: "plen = [a, b, c, d]" by (auto simp: length_Suc_conv)
  have "header_value hs plen = sint (of_nat (be_nat plen) :: u32)"
    using False by (simp add: header_value_def p be_word4 [symmetric] del: be_nat.simps of_nat_add)
  then show ?thesis using sint_of_nat [OF assms(3)] by simp
qed

lemma header_value_negative:
  assumes "length h = 4" "128 \<le> unat (h ! 0)"
  shows "header_value 4 h < 0"
proof -
  have "length h = Suc (Suc (Suc (Suc 0)))" using assms(1) by simp
  then obtain a b c d where p: "h = [a, b, c, d]" by (auto simp: length_Suc_conv)
  have "unat b < 256" "unat c < 256" "unat d < 256" "unat a < 256" using unsigned_less [where 'a = nat and 'b = 8] by simp_all
  then have n: "2 ^ 31 \<le> be_nat h" "be_nat h < 2 ^ 32" using assms(2) by (simp_all add: p)
  have "header_value 4 h = sint (of_nat (be_nat h) :: u32)"
    by (simp add: header_value_def p be_word4 [symmetric] del: be_nat.simps of_nat_add)
  also have "\<dots> = (int (be_nat h) + 2 ^ 31) mod 2 ^ 32 - 2 ^ 31"
    using n(2) by (simp add: sint_uint uint_nat unat_of_nat signed_take_bit_eq_take_bit_shift take_bit_eq_mod)
  also have "\<dots> < 0" using n by (simp add: mod_pos_geq)
  finally show ?thesis .
qed

text \<open>Where the packets of a connection go: the broker, the agent of the connection, the watchdog.\<close>

type_synonym route = "u32 \<times> u32 \<times> int \<times> nat \<times> int \<times> u32 \<times> u32"

definition route :: "gate \<Rightarrow> nat \<Rightarrow> route" where
  "route g i = (broker g, watchdog g, client_tag g, header_size g,
     conn_id (gate_conn g ! i), conn_agent (gate_conn g ! i), conn_client (gate_conn g ! i))"

fun packet_out :: "route \<Rightarrow> byte list \<Rightarrow> gate_out" where
  "packet_out (br, wd, tag, hs, fd, ag, cl) p =
     (if br \<noteq> 0 then Send 0 br (tag OR PTYPE_TAG_DONTCOPY) fd p
      else if ag \<noteq> 0 then Send cl ag (tag OR PTYPE_TAG_DONTCOPY) fd p
      else Send 0 wd (PTYPE_TEXT OR PTYPE_TAG_DONTCOPY) fd (str_bytes (dec fd @ '' data '') @ p))"

fun route_ok :: "route \<Rightarrow> bool" where
  "route_ok (br, wd, tag, hs, fd, ag, cl) \<longleftrightarrow> (hs = 2 \<or> hs = 4) \<and> 0 < fd \<and> (br \<noteq> 0 \<or> ag \<noteq> 0 \<or> wd \<noteq> 0)"

fun route_header :: "route \<Rightarrow> nat" where
  "route_header (br, wd, tag, hs, fd, ag, cl) = hs"

abbreviation the_buffer :: "gate \<Rightarrow> nat \<Rightarrow> databuffer" where
  "the_buffer g i \<equiv> conn_buffer (gate_conn g ! i)"

definition conn_inv :: "route \<Rightarrow> nat \<Rightarrow> gate \<Rightarrow> bool" where
  "conn_inv rt i g \<longleftrightarrow> route_ok rt \<and> route g i = rt \<and> i < length (gate_conn g) \<and> db_inv (the_buffer g i) \<and>
     0 \<le> db_header (the_buffer g i) \<and> db_header (the_buffer g i) < 2 ^ 24 \<and>
     nat (db_header (the_buffer g i)) < 256 ^ route_header rt"

definition conn_pending :: "nat \<Rightarrow> gate \<Rightarrow> byte list" where
  "conn_pending i g =
     (if db_header (the_buffer g i) = 0 then [] else be_bytes (header_size g) (nat (db_header (the_buffer g i)))) @
     db_content (the_buffer g i)"

lemma put_buffer_simps [simp]:
  "i < length (gate_conn g) \<Longrightarrow> the_buffer (put_buffer g i db mp) i = db"
  "i < length (gate_conn g) \<Longrightarrow> put_buffer (put_buffer g i db mp) i db' mp' = put_buffer g i db' mp'"
  "gate_mp (put_buffer g i db mp) = mp" "header_size (put_buffer g i db mp) = header_size g"
  "length (gate_conn (put_buffer g i db mp)) = length (gate_conn g)"
  "i < length (gate_conn g) \<Longrightarrow> route (put_buffer g i db mp) i = route g i"
  by (simp_all add: put_buffer_def set_conn_def route_def)

lemma put_buffer_id [simp]: "put_buffer g i (the_buffer g i) (gate_mp g) = g"
  by (simp add: put_buffer_def set_conn_def)

lemma header_size_route: "conn_inv rt i g \<Longrightarrow> header_size g = route_header rt \<and> (header_size g = 2 \<or> header_size g = 4)"
  by (auto simp: conn_inv_def route_def)

lemma conn_inv_put:
  assumes "conn_inv rt i g" "db_inv db" "0 \<le> db_header db" "db_header db < 2 ^ 24" "nat (db_header db) < 256 ^ route_header rt"
  shows "conn_inv rt i (put_buffer g i db mp)"
  using assms by (simp add: conn_inv_def)

lemma forward_ok:
  assumes inv: "conn_inv rt i g" and sz: "0 < sz" "sz \<le> length (db_content (the_buffer g i))"
  shows "\<exists>db mp. forward g i sz = Ok ([packet_out rt (take sz (db_content (the_buffer g i)))], put_buffer g i db mp) \<and>
    db_inv db \<and> db_content db = drop sz (db_content (the_buffer g i)) \<and> db_header db = db_header (the_buffer g i)"
proof -
  have "db_inv (the_buffer g i)" using inv by (simp add: conn_inv_def)
  from databuffer_read_ok [OF this sz, of "gate_mp g"] obtain db mp where
    r: "databuffer_read (the_buffer g i) (gate_mp g) sz = Ok (take sz (db_content (the_buffer g i)), db, mp)"
      "db_inv db" "db_content db = drop sz (db_content (the_buffer g i))" "db_header db = db_header (the_buffer g i)" by blast
  then have "gate_read g i sz = Ok (take sz (db_content (the_buffer g i)), put_buffer g i db mp)" by (simp add: gate_read_def)
  then have "forward g i sz = Ok ([packet_out rt (take sz (db_content (the_buffer g i)))], put_buffer g i db mp)"
    using inv by (auto simp: forward_def Let_def conn_inv_def route_def)
  with r show ?thesis by blast
qed

text \<open>The turns of the loop.\<close>

lemma size_content: "conn_inv rt i g \<Longrightarrow> db_size (the_buffer g i) = int (length (db_content (the_buffer g i)))"
  by (simp add: conn_inv_def db_inv_def)

lemma loop_short:
  assumes "conn_inv rt i g" "db_header (the_buffer g i) = 0" "length (db_content (the_buffer g i)) < header_size g"
  shows "dispatch_loop i fd g = Some (Ok ([], g))"
  using assms size_content [OF assms(1)]
  by (subst dispatch_loop.simps) (simp add: databuffer_readheader_def Let_def)

lemma loop_wait:
  assumes "conn_inv rt i g" "0 < db_header (the_buffer g i)"
    "int (length (db_content (the_buffer g i))) < db_header (the_buffer g i)"
  shows "dispatch_loop i fd g = Some (Ok ([], g))"
  using assms size_content [OF assms(1)]
  by (subst dispatch_loop.simps) (simp add: databuffer_readheader_def Let_def)

lemma loop_header:
  fixes g i defines "bs \<equiv> db_content (the_buffer g i)"
  assumes inv: "conn_inv rt i g" and h: "db_header (the_buffer g i) = 0" "header_size g \<le> length bs"
    and len: "be_nat (take (header_size g) bs) < 2 ^ 24"
  shows "\<exists>db mp. dispatch_loop i fd g = dispatch_loop i fd (put_buffer g i db mp) \<and> db_inv db \<and>
    db_header db = int (be_nat (take (header_size g) bs)) \<and> db_content db = drop (header_size g) bs"
proof -
  let ?hs = "header_size g" and ?n = "be_nat (take (header_size g) bs)"
  have hs: "?hs = 2 \<or> ?hs = 4" using header_size_route [OF inv] by blast
  have i: "i < length (gate_conn g)" "db_inv (the_buffer g i)" using inv by (simp_all add: conn_inv_def)
  obtain db0 mp where r: "databuffer_read (the_buffer g i) (gate_mp g) ?hs = Ok (take ?hs bs, db0, mp)"
      "db_inv db0" "db_content db0 = drop ?hs bs" "db_header db0 = 0"
    using databuffer_read_ok [OF i(2), of ?hs "gate_mp g"] hs h unfolding bs_def by auto
  have val: "header_value ?hs (take ?hs bs) = int ?n" using hs h(2) len by (intro header_value_be) auto
  let ?db = "db0\<lparr>db_header := int ?n\<rparr>"
  have db: "db_inv ?db" "db_content ?db = drop ?hs bs" using r by simp_all
  have sz: "\<not> db_size (the_buffer g i) < int ?hs" using size_content [OF inv] h(2) by (simp add: bs_def)
  have rh: "databuffer_readheader (the_buffer g i) (gate_mp g) ?hs =
      Ok (if db_size ?db < int ?n then -1 else int ?n, ?db, mp)"
    using h(1) sz r(1) val by (simp add: databuffer_readheader_def Let_def)
  have "dispatch_loop i fd g = dispatch_loop i fd (put_buffer g i ?db mp)"
  proof (cases "?n = 0")
    case True
    have "db_size ?db \<ge> 0" using db(1) by (simp add: db_inv_def)
    then show ?thesis using rh True by (subst dispatch_loop.simps) simp
  next
    case False
    then have "databuffer_readheader ?db mp ?hs = Ok (if db_size ?db < int ?n then -1 else int ?n, ?db, mp)"
      by (simp add: databuffer_readheader_def Let_def)
    then show ?thesis using rh i(1)
      by (simp only: dispatch_loop.simps [of i fd g] dispatch_loop.simps [of i fd "put_buffer g i ?db mp"] put_buffer_simps)
  qed
  with db show ?thesis by (intro exI [of _ ?db] exI [of _ mp]) simp
qed

lemma loop_packet:
  fixes g i defines "bs \<equiv> db_content (the_buffer g i)"
  assumes inv: "conn_inv rt i g" and h: "0 < db_header (the_buffer g i)" "db_header (the_buffer g i) \<le> int (length bs)"
  shows "\<exists>db mp. dispatch_loop i fd g =
      Option.bind (dispatch_loop i fd (put_buffer g i db mp))
        (\<lambda>r. Some (res_bind r (\<lambda>(out, g'). Ok (packet_out rt (take (nat (db_header (the_buffer g i))) bs) # out, g')))) \<and>
    db_inv db \<and> db_header db = 0 \<and> db_content db = drop (nat (db_header (the_buffer g i))) bs"
proof -
  let ?n = "nat (db_header (the_buffer g i))"
  have i: "i < length (gate_conn g)" "db_inv (the_buffer g i)" "db_header (the_buffer g i) < 0x1000000"
    using inv by (simp_all add: conn_inv_def)
  obtain db mp where f: "forward g i ?n = Ok ([packet_out rt (take ?n bs)], put_buffer g i db mp)" "db_inv db"
      "db_content db = drop ?n bs"
    using forward_ok [OF inv, of ?n] h nat_le_iff unfolding bs_def by auto
  let ?db = "databuffer_reset db"
  have db: "db_inv ?db" "db_header ?db = 0" "db_content ?db = drop ?n bs"
    using f by (simp_all add: databuffer_reset_def)
  have "databuffer_readheader (the_buffer g i) (gate_mp g) (header_size g) =
      Ok (db_header (the_buffer g i), the_buffer g i, gate_mp g)"
    using h size_content [OF inv] by (simp add: databuffer_readheader_def Let_def bs_def)
  then have "dispatch_loop i fd g =
      Option.bind (dispatch_loop i fd (put_buffer g i ?db mp))
        (\<lambda>r. Some (res_bind r (\<lambda>(out, g'). Ok (packet_out rt (take ?n bs) # out, g'))))"
    using h(1) i(1,3) f(1) by (subst dispatch_loop.simps) (simp add: Let_def)
  with db show ?thesis by blast
qed

definition framed :: "route \<Rightarrow> byte list \<Rightarrow> gate_out list \<times> byte list" where
  "framed rt bs = (case be_frames (route_header rt) bs of (ps, r) \<Rightarrow> (map (packet_out rt) (filter (\<lambda>p. p \<noteq> []) ps), r))"

lemma framed_step:
  assumes "0 < route_header rt" "length h = route_header rt" "length p = be_nat h"
  shows "framed rt (h @ p @ bs) = ((if p = [] then [] else [packet_out rt p]) @ fst (framed rt bs), snd (framed rt bs))"
  using be_frames_step [OF assms, of bs] by (simp add: framed_def split_beta)

lemma dispatch_loop_ok:
  assumes "conn_inv rt i g" "be_limit (route_header rt) (2 ^ 24) (conn_pending i g)"
  shows "\<exists>g'. dispatch_loop i fd g = Some (Ok (fst (framed rt (conn_pending i g)), g')) \<and>
    conn_inv rt i g' \<and> conn_pending i g' = snd (framed rt (conn_pending i g))"
  using assms
proof (induction "2 * length (conn_pending i g) + (if db_header (the_buffer g i) = 0 then 1 else 0)"
    arbitrary: g rule: less_induct)
  case less
  let ?hs = "route_header rt" and ?bs = "db_content (the_buffer g i)" and ?h = "db_header (the_buffer g i)"
  note inv = less.prems(1)
  have hs: "0 < ?hs" "header_size g = ?hs" using header_size_route [OF inv] by auto
  have i: "i < length (gate_conn g)" "0 \<le> ?h" "?h < 2 ^ 24" "nat ?h < 256 ^ ?hs"
    using inv by (simp_all add: conn_inv_def)
  show ?case
  proof (cases "?h = 0")
    case zero: True
    then have pend: "conn_pending i g = ?bs" by (simp add: conn_pending_def)
    show ?thesis
    proof (cases "length ?bs < ?hs")
      case True
      then have "framed rt ?bs = ([], ?bs)" by (simp add: framed_def be_frames_short)
      then show ?thesis using True loop_short [OF inv zero] hs inv pend by simp
    next
      case False
      let ?n = "be_nat (take ?hs ?bs)"
      have lim: "?n < 2 ^ 24" using less.prems(2) False hs(1) by (simp add: pend be_all.simps [of ?hs] Let_def split: if_splits)
      obtain db mp where db: "dispatch_loop i fd g = dispatch_loop i fd (put_buffer g i db mp)" "db_inv db"
          "db_header db = int ?n" "db_content db = drop ?hs ?bs"
        using loop_header [OF inv zero, of fd] False lim hs(2) by auto
      let ?g = "put_buffer g i db mp"
      have "?n < 256 ^ ?hs" using be_nat_less [of "take ?hs ?bs"] False by simp
      then have inv': "conn_inv rt i ?g" using inv db lim by (intro conn_inv_put) simp_all
      have buf: "the_buffer ?g i = db" using i by simp
      show ?thesis
      proof (cases "?n = 0")
        case True
        then have pend': "conn_pending i ?g = drop ?hs ?bs" using db buf by (simp add: conn_pending_def)
        have cut: "take ?hs ?bs @ [] @ drop ?hs ?bs = ?bs" by simp
        have l: "length (take ?hs ?bs) = ?hs" "length ([] :: byte list) = ?n" using False True by simp_all
        have "be_limit ?hs (2 ^ 24) (drop ?hs ?bs)"
          by (rule be_all_step [OF hs(1) l]) (use less.prems(2) pend in simp)
        moreover have "length (drop ?hs ?bs) < length ?bs" using False hs(1) by simp
        ultimately have "\<exists>g'. dispatch_loop i fd ?g = Some (Ok (fst (framed rt (drop ?hs ?bs)), g')) \<and>
            conn_inv rt i g' \<and> conn_pending i g' = snd (framed rt (drop ?hs ?bs))"
          using less.hyps [of ?g] inv' pend pend' zero by simp
        then show ?thesis using framed_step [OF hs(1) l, of "drop ?hs ?bs"] db(1) unfolding pend cut by simp
      next
        case pos: False
        have "be_bytes ?hs ?n = take ?hs ?bs" using be_bytes_nat [of "take ?hs ?bs"] False by simp
        then have pend': "conn_pending i ?g = ?bs" using db buf pos hs(2) by (simp add: conn_pending_def)
        have "\<exists>g'. dispatch_loop i fd ?g = Some (Ok (fst (framed rt ?bs), g')) \<and>
            conn_inv rt i g' \<and> conn_pending i g' = snd (framed rt ?bs)"
          using less.hyps [of ?g] inv' less.prems(2) pend pend' zero buf db(3) pos by simp
        then show ?thesis using db(1) pend by simp
      qed
    qed
  next
    case False
    let ?n = "nat ?h"
    have pos: "0 < ?h" using False i by simp
    have pend: "conn_pending i g = be_bytes ?hs ?n @ ?bs" using False hs by (simp add: conn_pending_def)
    have val: "be_nat (be_bytes ?hs ?n) = ?n" using i(4) by (simp add: be_nat_bytes)
    show ?thesis
    proof (cases "?h \<le> int (length ?bs)")
      case wait: False
      have "framed rt (be_bytes ?hs ?n @ ?bs) = ([], be_bytes ?hs ?n @ ?bs)"
        using wait val hs(1) by (simp add: framed_def be_frames_partial)
      then show ?thesis using loop_wait [OF inv pos] wait inv pend by simp
    next
      case True
      obtain db mp where db: "dispatch_loop i fd g =
            Option.bind (dispatch_loop i fd (put_buffer g i db mp))
              (\<lambda>r. Some (res_bind r (\<lambda>(out, g'). Ok (packet_out rt (take ?n ?bs) # out, g'))))"
          "db_inv db" "db_header db = 0" "db_content db = drop ?n ?bs"
        using loop_packet [OF inv pos True] by blast
      let ?g = "put_buffer g i db mp"
      have inv': "conn_inv rt i ?g" using inv db by (intro conn_inv_put) simp_all
      have pend': "conn_pending i ?g = drop ?n ?bs" using db i(1) by (simp add: conn_pending_def)
      have cut: "be_bytes ?hs ?n @ take ?n ?bs @ drop ?n ?bs = be_bytes ?hs ?n @ ?bs" by simp
      have l: "length (be_bytes ?hs ?n) = ?hs" "length (take ?n ?bs) = be_nat (be_bytes ?hs ?n)" using True val by simp_all
      have lim: "be_limit ?hs (2 ^ 24) (drop ?n ?bs)"
        by (rule be_all_step [OF hs(1) l]) (use less.prems(2) pend in simp)
      have "2 * length (conn_pending i ?g) + (if db_header (the_buffer ?g i) = 0 then 1 else 0) <
          2 * length (conn_pending i g) + (if ?h = 0 then 1 else 0)"
        unfolding pend pend' using hs(1) by (simp del: put_buffer_simps) arith
      from less.hyps [OF this inv'] lim have "\<exists>g'. dispatch_loop i fd ?g = Some (Ok (fst (framed rt (drop ?n ?bs)), g')) \<and>
          conn_inv rt i g' \<and> conn_pending i g' = snd (framed rt (drop ?n ?bs))"
        unfolding pend' by blast
      moreover have "take ?n ?bs \<noteq> []" using pos True by auto
      ultimately show ?thesis using framed_step [OF hs(1) l, of "drop ?n ?bs"] db(1) unfolding pend cut by auto
    qed
  qed
qed

text \<open>The receiver of one connection is a frame decoder.\<close>

definition gate_feed :: "nat \<Rightarrow> int \<Rightarrow> byte list \<Rightarrow> gate \<Rightarrow> (gate_out list \<times> gate) res" where
  "gate_feed i fd data g = dispatch_message g i fd data"

lemma dispatch_message_ok:
  assumes inv: "conn_inv rt i g" and lim: "be_limit (route_header rt) (2 ^ 24) (conn_pending i g @ data)"
  shows "\<exists>g'. gate_feed i fd data g = Ok (fst (framed rt (conn_pending i g @ data)), g') \<and> conn_inv rt i g' \<and>
    conn_pending i g' = snd (framed rt (conn_pending i g @ data))"
proof -
  obtain db mp where push: "databuffer_push (the_buffer g i) (gate_mp g) data = (db, mp)" by (cases "databuffer_push (the_buffer g i) (gate_mp g) data")
  have db: "db_inv db" "db_content db = db_content (the_buffer g i) @ data" "db_header db = db_header (the_buffer g i)"
    using databuffer_push_ok [of "the_buffer g i" "gate_mp g" data] inv push by (simp_all add: conn_inv_def)
  let ?g = "put_buffer g i db mp"
  have inv': "conn_inv rt i ?g" using inv db by (simp add: conn_inv_def)
  have "conn_pending i ?g = conn_pending i g @ data" using inv db by (simp add: conn_pending_def conn_inv_def)
  then show ?thesis using dispatch_loop_ok [OF inv', of fd] lim push by (auto simp: gate_feed_def dispatch_message_def)
qed

interpretation gate_rx: frame_decoder "conn_inv rt i" "conn_pending i" "gate_feed i fd" "framed rt"
  "\<lambda>bs. route_header rt = 0 \<or> be_limit (route_header rt) (2 ^ 24) bs" for rt i fd
proof unfold_locales
  show "framed rt (xs @ ys) = (fst (framed rt xs) @ fst (framed rt (snd (framed rt xs) @ ys)), snd (framed rt (snd (framed rt xs) @ ys)))" for xs ys
  proof (cases "route_header rt = 0")
    case True
    then show ?thesis by (simp add: framed_def be_frames.simps)
  next
    case False
    then show ?thesis using be_frames_append [of "route_header rt" xs ys] by (simp add: framed_def split_beta)
  qed
  show "(route_header rt = 0 \<or> be_limit (route_header rt) (2 ^ 24) xs) \<and>
      (route_header rt = 0 \<or> be_limit (route_header rt) (2 ^ 24) (snd (framed rt xs) @ ys))"
    if "route_header rt = 0 \<or> be_limit (route_header rt) (2 ^ 24) (xs @ ys)" for xs ys
    using that be_all_append [of "route_header rt" "\<lambda>len. len < 2 ^ 24" xs ys] by (auto simp: framed_def split_beta)
  show "\<exists>s'. gate_feed i fd c s = Ok (fst (framed rt (conn_pending i s @ c)), s') \<and> conn_inv rt i s' \<and>
      conn_pending i s' = snd (framed rt (conn_pending i s @ c))"
    if "conn_inv rt i s" "route_header rt = 0 \<or> be_limit (route_header rt) (2 ^ 24) (conn_pending i s @ c)" for s c
    using dispatch_message_ok [OF that(1)] that(2) header_size_route [OF that(1)] by auto
qed

section \<open>The gate never fails\<close>

text \<open>\<open>only_buffer i g g'\<close>: the two gates differ in the buffer of connection \<open>i\<close> and in the pool.\<close>

definition only_buffer :: "nat \<Rightarrow> gate \<Rightarrow> gate \<Rightarrow> bool" where
  "only_buffer i g g' \<longleftrightarrow> (\<exists>db mp. g' = put_buffer g i db mp \<and> db_inv db)"

lemma only_buffer_trans:
  "i < length (gate_conn g) \<Longrightarrow> only_buffer i g g' \<Longrightarrow> only_buffer i g' g'' \<Longrightarrow> only_buffer i g g''"
  by (auto simp: only_buffer_def) blast

lemma readheader_total:
  assumes "db_inv db" "0 < hs"
  shows "\<exists>sz db' mp'. databuffer_readheader db mp hs = Ok (sz, db', mp') \<and> db_inv db' \<and>
    (0 \<le> sz \<longrightarrow> db_header db' = sz \<and> sz \<le> int (length (db_content db'))) \<and>
    length (db_content db') \<le> length (db_content db) \<and>
    (0 \<le> sz \<longrightarrow> db_header db = 0 \<longrightarrow> length (db_content db') < length (db_content db)) \<and>
    (db_header db \<noteq> 0 \<longrightarrow> db' = db \<and> mp' = mp)"
proof (cases "db_header db = 0")
  case False
  then show ?thesis using assms by (auto simp: databuffer_readheader_def Let_def db_inv_def)
next
  case True
  have sz: "db_size db = int (length (db_content db))" using assms(1) by (simp add: db_inv_def)
  show ?thesis
  proof (cases "length (db_content db) < hs")
    case short: True
    then show ?thesis using True assms sz by (simp add: databuffer_readheader_def Let_def)
  next
    case False
    then obtain db1 mp1 where r: "databuffer_read db mp hs = Ok (take hs (db_content db), db1, mp1)" "db_inv db1"
        "db_content db1 = drop hs (db_content db)"
      using databuffer_read_ok [OF assms, of mp] by auto
    let ?v = "header_value hs (take hs (db_content db))"
    have "db_size db1 = int (length (db_content db1))" using r(2) by (simp add: db_inv_def)
    moreover have "databuffer_readheader db mp hs =
        Ok (if db_size db1 < ?v then -1 else ?v, db1\<lparr>db_header := ?v\<rparr>, mp1)"
      using True False sz r(1) by (simp add: databuffer_readheader_def Let_def)
    ultimately show ?thesis using r(2,3) False assms(2) True by auto
  qed
qed

lemma forward_total:
  assumes "i < length (gate_conn g)" "db_inv (the_buffer g i)" "0 < sz" "sz \<le> length (db_content (the_buffer g i))"
  shows "\<exists>out db mp. forward g i sz = Ok (out, put_buffer g i db mp) \<and> db_inv db \<and>
    length (db_content db) \<le> length (db_content (the_buffer g i))"
proof -
  obtain bytes db mp where "databuffer_read (the_buffer g i) (gate_mp g) sz = Ok (bytes, db, mp)"
      "db_inv db" "db_content db = drop sz (db_content (the_buffer g i))"
    using databuffer_read_ok [OF assms(2-4), of "gate_mp g"] by blast
  then have read: "gate_read g i sz = Ok (bytes, put_buffer g i db mp)" "db_inv db"
      "length (db_content db) \<le> length (db_content (the_buffer g i))"
    by (simp_all add: gate_read_def)
  have keep: "\<exists>db mp. g = put_buffer g i db mp \<and> db_inv db \<and> length (db_content db) \<le> length (db_content (the_buffer g i))"
    using assms(2) by (intro exI [of _ "the_buffer g i"] exI [of _ "gate_mp g"]) simp
  show ?thesis
  proof (cases "conn_id (gate_conn g ! i) \<le> 0 \<or> (broker g = 0 \<and> conn_agent (gate_conn g ! i) = 0 \<and> watchdog g = 0)")
    case True
    then have "forward g i sz = Ok ([], g)" by (auto simp: forward_def Let_def)
    then show ?thesis using keep by auto
  next
    case False
    then have "\<exists>out. forward g i sz = Ok (out, put_buffer g i db mp)" using read(1) by (auto simp: forward_def Let_def)
    then show ?thesis using read by blast
  qed
qed

lemma dispatch_loop_total:
  assumes "i < length (gate_conn g)" "db_inv (the_buffer g i)" "0 < header_size g"
  shows "\<exists>out g'. dispatch_loop i fd g = Some (Ok (out, g')) \<and> only_buffer i g g'"
  using assms
proof (induction "2 * length (db_content (the_buffer g i)) + (if db_header (the_buffer g i) \<noteq> 0 then 1 else 0)"
    arbitrary: g rule: less_induct)
  case less
  obtain sz db mp where rh: "databuffer_readheader (the_buffer g i) (gate_mp g) (header_size g) = Ok (sz, db, mp)" "db_inv db"
      "0 \<le> sz \<longrightarrow> db_header db = sz \<and> sz \<le> int (length (db_content db))"
      "length (db_content db) \<le> length (db_content (the_buffer g i))"
      "0 \<le> sz \<longrightarrow> db_header (the_buffer g i) = 0 \<longrightarrow> length (db_content db) < length (db_content (the_buffer g i))"
      "db_header (the_buffer g i) \<noteq> 0 \<longrightarrow> db = the_buffer g i"
    using readheader_total [OF less.prems(2,3), of "gate_mp g"] by blast
  let ?g = "put_buffer g i db mp"
  have g: "i < length (gate_conn ?g)" "the_buffer ?g i = db" "0 < header_size ?g" using less.prems by simp_all
  have ob: "only_buffer i g ?g" using rh(2) by (auto simp: only_buffer_def)
  consider "sz < 0" | "sz \<ge> 0x1000000" | "sz = 0" | "0 < sz" "sz < 0x1000000" by linarith
  then show ?case
  proof cases
    case 1
    then show ?thesis using rh(1) ob by (subst dispatch_loop.simps) simp
  next
    case 2
    have "only_buffer i g (put_buffer ?g i databuffer_zero (clear_loop (db_chunks db) mp))"
      using less.prems(1) databuffer_zero_inv by (auto simp: only_buffer_def)
    then show ?thesis using rh(1) 2 by (subst dispatch_loop.simps) (simp add: databuffer_clear_def)
  next
    case 3
    then have h: "db_header (the_buffer g i) = 0" "db_header db = 0" using rh by auto
    then have m: "2 * length (db_content (the_buffer ?g i)) + (if db_header (the_buffer ?g i) \<noteq> 0 then 1 else 0) <
        2 * length (db_content (the_buffer g i)) + (if db_header (the_buffer g i) \<noteq> 0 then 1 else 0)"
      using rh(5) 3 unfolding g(2) by simp
    have "dispatch_loop i fd g = dispatch_loop i fd ?g" using rh(1) 3 by (subst dispatch_loop.simps) simp
    then show ?thesis using less.hyps [OF m] g rh(2) only_buffer_trans [OF less.prems(1) ob] by metis
  next
    case 4
    then have h: "db_header db = sz" "nat sz \<le> length (db_content db)" using rh(3) by auto
    obtain out db2 mp2 where f: "forward ?g i (nat sz) = Ok (out, put_buffer ?g i db2 mp2)" "db_inv db2"
        "length (db_content db2) \<le> length (db_content db)"
      using forward_total [OF g(1), of "nat sz"] g(2) rh(2) 4 h by auto
    let ?g2 = "put_buffer g i (databuffer_reset db2) mp2"
    have b2: "the_buffer ?g2 i = databuffer_reset db2" using less.prems(1) by simp
    have m: "2 * length (db_content (the_buffer ?g2 i)) + (if db_header (the_buffer ?g2 i) \<noteq> 0 then 1 else 0) <
        2 * length (db_content (the_buffer g i)) + (if db_header (the_buffer g i) \<noteq> 0 then 1 else 0)"
      using rh(4,5,6) 4 h f(3) unfolding b2 by (cases "db_header (the_buffer g i) = 0") (auto simp: databuffer_reset_def)
    have g2: "i < length (gate_conn ?g2)" "db_inv (the_buffer ?g2 i)" "0 < header_size ?g2" "only_buffer i g ?g2"
      using less.prems f(2) by (auto simp: only_buffer_def databuffer_reset_def)
    have "dispatch_loop i fd g =
        Option.bind (dispatch_loop i fd ?g2) (\<lambda>r. Some (res_bind r (\<lambda>(out', g3). Ok (out @ out', g3))))"
      using rh(1) 4 f(1) less.prems(1) by (subst dispatch_loop.simps) simp
    moreover obtain out' g3 where "dispatch_loop i fd ?g2 = Some (Ok (out', g3))" "only_buffer i ?g2 g3"
      using less.hyps [OF m g2(1-3)] by blast
    ultimately show ?thesis using only_buffer_trans [OF less.prems(1) g2(4)] by simp
  qed
qed

text \<open>A well-formed gate: the hash table and the connections agree, slot by slot.\<close>

definition gate_wf :: "gate \<Rightarrow> bool" where
  "gate_wf g \<longleftrightarrow> hashid_inv (gate_hash g) \<and> hcap (gate_hash g) = length (gate_conn g) \<and> 0 < header_size g \<and>
     (\<forall>fd < 0. hashid_view (gate_hash g) fd = None) \<and>
     (\<forall>i < length (gate_conn g). db_inv (the_buffer g i) \<and>
        (\<forall>fd \<ge> 0. hashid_view (gate_hash g) fd = Some i \<longleftrightarrow> conn_id (gate_conn g ! i) = fd))"

text \<open>What the socket layer guarantees of its messages: the id of an accepted socket, which \<open>reserve_id\<close> gave out, is
  not negative and not that of a connection the gate still has.\<close>

definition accept_fresh :: "gate \<Rightarrow> skynet_socket_message \<Rightarrow> bool" where
  "accept_fresh g m \<longleftrightarrow> sm_type m = SKYNET_SOCKET_TYPE_ACCEPT \<longrightarrow>
     0 \<le> sm_ud m \<and> (\<forall>c \<in> set (gate_conn g). conn_id c \<noteq> sm_ud m)"

text \<open>A message that arrives from a listening socket the gate has closed.\<close>

definition stale_accept :: "gate \<Rightarrow> skynet_socket_message \<Rightarrow> bool" where
  "stale_accept g m \<longleftrightarrow> sm_type m = SKYNET_SOCKET_TYPE_ACCEPT \<and> sm_id m \<noteq> listen_id g"

lemma view_bound:
  assumes "gate_wf g" "hashid_view (gate_hash g) fd = Some i"
  shows "i < length (gate_conn g)"
proof -
  obtain B where "hashid_ok (gate_hash g) B" using assms(1) by (auto simp: gate_wf_def hashid_inv_def)
  then show ?thesis using hashid_view_iff assms by (simp add: gate_wf_def)
qed

lemma accept_fresh_view:
  assumes "gate_wf g" "accept_fresh g m" "sm_type m = SKYNET_SOCKET_TYPE_ACCEPT"
  shows "hashid_view (gate_hash g) (sm_ud m) = None"
proof (rule ccontr)
  assume "hashid_view (gate_hash g) (sm_ud m) \<noteq> None"
  then obtain i where i: "hashid_view (gate_hash g) (sm_ud m) = Some i" by blast
  have "i < length (gate_conn g)" by (rule view_bound [OF assms(1) i])
  moreover have "0 \<le> sm_ud m" using assms(2,3) by (simp add: accept_fresh_def)
  ultimately have "conn_id (gate_conn g ! i) = sm_ud m" "gate_conn g ! i \<in> set (gate_conn g)"
    using assms(1) i by (simp_all add: gate_wf_def)
  then show False using assms(2,3) by (auto simp: accept_fresh_def)
qed

lemma only_buffer_wf:
  assumes "gate_wf g" "only_buffer i g g'"
  shows "gate_wf g'"
proof -
  obtain db mp where g': "g' = put_buffer g i db mp" "db_inv db" using assms(2) by (auto simp: only_buffer_def)
  have "conn_id (gate_conn g' ! j) = conn_id (gate_conn g ! j)" "the_buffer g' j = db \<or> the_buffer g' j = the_buffer g j" for j
    by (simp_all add: g'(1) put_buffer_def set_conn_def list_update_nth_if)
  moreover have "gate_hash g' = gate_hash g" "length (gate_conn g') = length (gate_conn g)" "header_size g' = header_size g"
    by (simp_all add: g'(1) put_buffer_def set_conn_def)
  ultimately show ?thesis using assms(1) g'(2) unfolding gate_wf_def by metis
qed

lemma dispatch_message_wf:
  assumes wf: "gate_wf g" and i: "i < length (gate_conn g)"
  shows "\<exists>out g'. dispatch_message g i fd data = Ok (out, g') \<and> gate_wf g'"
proof -
  obtain db mp where push: "databuffer_push (the_buffer g i) (gate_mp g) data = (db, mp)"
    by (cases "databuffer_push (the_buffer g i) (gate_mp g) data")
  have db: "db_inv db" using databuffer_push_ok [of "the_buffer g i" "gate_mp g" data] wf i push by (simp add: gate_wf_def)
  let ?g = "put_buffer g i db mp"
  have ob: "only_buffer i g ?g" using db by (auto simp: only_buffer_def)
  have "i < length (gate_conn ?g)" "db_inv (the_buffer ?g i)" "0 < header_size ?g" using i db wf by (simp_all add: gate_wf_def)
  from dispatch_loop_total [OF this, of fd] obtain out g' where
    "dispatch_loop i fd ?g = Some (Ok (out, g'))" "only_buffer i ?g g'" by blast
  then show ?thesis using push only_buffer_wf [OF only_buffer_wf [OF wf ob]] by (simp add: dispatch_message_def)
qed

lemma close_wf:
  assumes wf: "gate_wf g" and m: "hashid_remove (gate_hash g) fd = Ok (r, hash)"
  shows "case r of None \<Rightarrow> gate_wf (g\<lparr>gate_hash := hash\<rparr>)
    | Some i \<Rightarrow> i < length (gate_conn g) \<and>
        gate_wf ((set_conn (g\<lparr>gate_hash := hash\<rparr>) i (connection_zero\<lparr>conn_id := -1\<rparr>))\<lparr>gate_mp := mp\<rparr>)"
proof -
  have h: "hashid_inv (gate_hash g)" using wf by (simp add: gate_wf_def)
  have hash: "r = hashid_view (gate_hash g) fd" "hashid_inv hash" "hashid_view hash = (hashid_view (gate_hash g))(fd := None)"
      "hcap hash = hcap (gate_hash g)"
    using hashid_remove_ok [OF h, of fd] m by auto
  show ?thesis
  proof (cases r)
    case None
    then have "hashid_view hash = hashid_view (gate_hash g)" using hash by auto
    then show ?thesis using None wf hash by (simp add: gate_wf_def)
  next
    case (Some i)
    have i: "i < length (gate_conn g)" using view_bound [OF wf] hash(1) Some by simp
    have "\<not> fd < 0" using wf hash(1) Some unfolding gate_wf_def by (metis option.distinct(1))
    then have fd: "0 \<le> fd" by simp
    have id: "hashid_view (gate_hash g) fd' = Some j \<longleftrightarrow> conn_id (gate_conn g ! j) = fd'" if "0 \<le> fd'" "j < length (gate_conn g)" for fd' j
      using wf that by (simp add: gate_wf_def)
    have fdi: "conn_id (gate_conn g ! i) = fd" using id [OF fd i] hash(1) Some by simp
    have "hashid_view hash fd' = Some j \<longleftrightarrow>
        conn_id ((gate_conn g)[i := connection_zero\<lparr>conn_id := -1\<rparr>] ! j) = fd'" if "0 \<le> fd'" "j < length (gate_conn g)" for fd' j
    proof (cases "j = i")
      case True
      then show ?thesis using that fdi id [OF that(1) i] i hash(3) by (cases "fd' = fd") auto
    next
      case False
      then show ?thesis using that id [OF that] hash(1,3) Some by (cases "fd' = fd") auto
    qed
    then show ?thesis using Some i wf hash(2,3,4)
      by (auto simp: gate_wf_def set_conn_def nth_list_update connection_zero_def databuffer_zero_inv)
  qed
qed

lemma accept_wf:
  assumes wf: "gate_wf g" and ins: "hashid_insert (gate_hash g) fd = Ok (i, hash)" and fd: "0 \<le> fd"
    and room: "\<not> hashid_full (gate_hash g)" and none: "hashid_view (gate_hash g) fd = None"
  shows "i < length (gate_conn g) \<and>
    gate_wf (set_conn (g\<lparr>gate_hash := hash\<rparr>) i ((gate_conn g ! i)\<lparr>conn_id := fd, conn_name := nm\<rparr>))"
proof -
  have h: "hashid_inv (gate_hash g)" using wf by (simp add: gate_wf_def)
  have hash: "hashid_inv hash" "hashid_view hash = (hashid_view (gate_hash g))(fd \<mapsto> i)" "i \<notin> ran (hashid_view (gate_hash g))"
      "i < hcap (gate_hash g)" "hcap hash = hcap (gate_hash g)"
    using hashid_insert_ok [OF h room fd none] ins by auto
  have i: "i < length (gate_conn g)" using hash(4) wf by (simp add: gate_wf_def)
  have id: "hashid_view (gate_hash g) fd' = Some j \<longleftrightarrow> conn_id (gate_conn g ! j) = fd'" if "0 \<le> fd'" "j < length (gate_conn g)" for fd' j
    using wf that by (simp add: gate_wf_def)
  have "hashid_view hash fd' = Some j \<longleftrightarrow>
      conn_id ((gate_conn g)[i := (gate_conn g ! i)\<lparr>conn_id := fd, conn_name := nm\<rparr>] ! j) = fd'"
    if "0 \<le> fd'" "j < length (gate_conn g)" for fd' j
  proof (cases "j = i")
    case True
    then show ?thesis using that i hash(2,3) by (cases "fd' = fd") (auto simp: ran_def)
  next
    case False
    then show ?thesis using that id [OF that] hash(2) none by (cases "fd' = fd") auto
  qed
  then show ?thesis using i wf hash(1,2,5) fd
    by (auto simp: gate_wf_def set_conn_def nth_list_update)
qed

lemma dispatch_socket_wf:
  assumes wf: "gate_wf g" and ok: "accept_fresh g m" "\<not> stale_accept g m"
  shows "\<exists>out g'. dispatch_socket_message g m = Ok (out, g') \<and> gate_wf g'"
proof -
  have h: "hashid_inv (gate_hash g)" using wf by (simp add: gate_wf_def)
  note look = hashid_lookup_ok [OF h, of "sm_id m"]
  note types = SKYNET_SOCKET_TYPE_DATA_def SKYNET_SOCKET_TYPE_CONNECT_def SKYNET_SOCKET_TYPE_CLOSE_def
    SKYNET_SOCKET_TYPE_ERROR_def SKYNET_SOCKET_TYPE_ACCEPT_def SKYNET_SOCKET_TYPE_WARNING_def
  consider "sm_type m = 1" | "sm_type m = 3 \<or> sm_type m = 5" | "sm_type m = 4" | "sm_type m \<notin> {1, 3, 4, 5}" by blast
  then show ?thesis
  proof cases
    case 1
    then show ?thesis using wf look view_bound [OF wf] dispatch_message_wf [OF wf]
      by (cases "hashid_view (gate_hash g) (sm_id m)") (auto simp: dispatch_socket_message_def types)
  next
    case 2
    obtain r hash where r: "hashid_remove (gate_hash g) (sm_id m) = Ok (r, hash)" using hashid_remove_ok [OF h] by blast
    then show ?thesis using 2 close_wf [OF wf r]
      by (cases r) (auto simp: dispatch_socket_message_def types databuffer_clear_def Let_def)
  next
    case 3
    then have a: "sm_id m = listen_id g" "0 \<le> sm_ud m" "hashid_view (gate_hash g) (sm_ud m) = None"
      using ok accept_fresh_view [OF wf ok(1)] by (simp_all add: accept_fresh_def stale_accept_def types)
    show ?thesis
    proof (cases "hashid_full (gate_hash g)")
      case True
      then show ?thesis using 3 a wf by (simp add: dispatch_socket_message_def types)
    next
      case False
      obtain i hash where "hashid_insert (gate_hash g) (sm_ud m) = Ok (i, hash)"
        using hashid_insert_ok [OF h False a(2,3)] by blast
      then show ?thesis using accept_wf [OF wf _ a(2) False a(3)] 3 a False
        by (auto simp: dispatch_socket_message_def types Let_def)
    qed
  next
    case 4
    then show ?thesis using wf look by (auto simp: dispatch_socket_message_def types)
  qed
qed

lemma dispatch_socket_stale:
  "stale_accept g m \<Longrightarrow> dispatch_socket_message g m = Err Assert_fail"
  by (auto simp: stale_accept_def dispatch_socket_message_def res_assert_def SKYNET_SOCKET_TYPE_DATA_def SKYNET_SOCKET_TYPE_CONNECT_def
    SKYNET_SOCKET_TYPE_CLOSE_def SKYNET_SOCKET_TYPE_ERROR_def SKYNET_SOCKET_TYPE_ACCEPT_def)

text \<open>The commands change the agents of a connection, the broker and the listening socket only.\<close>

lemma agent_wf:
  assumes "gate_wf g" "i < length (gate_conn g)"
  shows "gate_wf (g\<lparr>gate_conn := (gate_conn g)[i := (gate_conn g ! i)\<lparr>conn_agent := a, conn_client := c\<rparr>]\<rparr>)"
  using assms by (auto simp: gate_wf_def nth_list_update)

lemma forward_agent_wf:
  assumes "gate_wf g"
  shows "\<exists>g'. forward_agent g fd a c = Ok g' \<and> gate_wf g'"
proof -
  have "hashid_lookup (gate_hash g) fd = Ok (hashid_view (gate_hash g) fd)"
    using assms by (intro hashid_lookup_ok) (simp add: gate_wf_def)
  then show ?thesis using assms agent_wf [OF assms] view_bound [OF assms]
    by (cases "hashid_view (gate_hash g) fd") (auto simp: forward_agent_def)
qed

lemma lookup_out_ok:
  assumes "hashid_inv hi"
  shows "\<exists>out. res_bind (hashid_lookup hi i) (\<lambda>r. Ok (f r, g)) = Ok (out, g)"
  using hashid_lookup_ok [OF assms] by simp

lemma ctrl_wf:
  assumes wf: "gate_wf g"
  shows "\<exists>out g'. ctrl queryname g msg = Ok (out, g') \<and> gate_wf g'"
proof -
  define G :: "(gate_out list \<times> gate) res \<Rightarrow> bool" where "G r \<longleftrightarrow> (\<exists>out g'. r = Ok (out, g') \<and> gate_wf g')" for r
  have h: "hashid_inv (gate_hash g)" using wf by (simp add: gate_wf_def)
  have G1: "G (Ok (out, g))" "G (Ok (out, g\<lparr>broker := b\<rparr>))" "G (Ok (out, g\<lparr>listen_id := l\<rparr>))" for out b l
    using wf by (simp_all add: G_def gate_wf_def)
  have G2: "G (res_bind (hashid_lookup (gate_hash g) i) (\<lambda>r. Ok (f r, g)))" for i f
    using lookup_out_ok [OF h, of i f g] wf by (auto simp: G_def)
  have G3: "G (res_bind (forward_agent g fd a c) (\<lambda>g1. Ok ([], g1)))" for fd a c
    using forward_agent_wf [OF wf, of fd a c] by (auto simp: G_def)
  have G4: "G x \<Longrightarrow> G y \<Longrightarrow> G (if c then x else y)" "G (Ok u) \<Longrightarrow> G (Ok v) \<Longrightarrow> G (Ok (if c then u else v))" for c x y u v
    by simp_all
  have G5: "G (case strsep p n of (_, None) \<Rightarrow> Ok ([], g) | (buf, Some k) \<Rightarrow> f buf k)" if "\<And>buf k. G (f buf k)" for p n f
    using that G1(1) by (auto split: prod.split option.split)
  have "G (ctrl queryname g msg)"
    unfolding ctrl_def Let_def by (intro G4 G1 G2 G5 G3)
  then show ?thesis by (simp add: G_def)
qed

text \<open>The callback of the service, on a message of any type.\<close>

lemma gate_cb_wf:
  assumes wf: "gate_wf g" and ok: "type = PTYPE_SOCKET \<longrightarrow> accept_fresh g sock \<and> \<not> stale_accept g sock"
  shows "\<exists>r out g'. gate_cb queryname g type msg tx sock = Ok (r, out, g') \<and> gate_wf g'"
proof -
  have h: "hashid_inv (gate_hash g)" using wf by (simp add: gate_wf_def)
  note types = PTYPE_TEXT_def PTYPE_CLIENT_def PTYPE_SOCKET_def
  consider "type = PTYPE_TEXT" | "type = PTYPE_CLIENT" | "type = PTYPE_SOCKET" | "type \<notin> {PTYPE_TEXT, PTYPE_CLIENT, PTYPE_SOCKET}" by blast
  then show ?thesis
  proof cases
    case 1
    obtain out g' where "ctrl queryname g tx = Ok (out, g')" "gate_wf g'" using ctrl_wf [OF wf] by blast
    then show ?thesis using 1 by (simp add: gate_cb_def)
  next
    case 2
    then show ?thesis using wf hashid_lookup_ok [OF h]
      by (auto simp: gate_cb_def types Let_def split: option.split)
  next
    case 3
    obtain out g' where "dispatch_socket_message g sock = Ok (out, g')" "gate_wf g'"
      using dispatch_socket_wf [OF wf, of sock] ok 3 by blast
    then show ?thesis using 3 by (simp add: gate_cb_def types)
  next
    case 4
    then show ?thesis using wf by (simp add: gate_cb_def)
  qed
qed

lemma start_listen_wf: "gate_wf g \<Longrightarrow> start_listen socket_listen g a = (r, out, g') \<Longrightarrow> gate_wf g'"
  by (auto simp: start_listen_def Let_def gate_wf_def split: option.splits prod.splits if_splits)

lemma gate_init_wf:
  assumes "gate_init queryname socket_listen g p = (0, out, g')"
  shows "gate_wf g'"
proof -
  let ?fresh = "\<lambda>wd mx tag hs. g\<lparr>watchdog := wd, gate_hash := hashid_init (nat mx),
    gate_conn := replicate (nat mx) (connection_zero\<lparr>conn_id := -1\<rparr>), max_connection := nat mx, client_tag := tag, header_size := hs\<rparr>"
  have "hcap (hashid_init n) = n" for n by (simp add: hashid_init_def Let_def)
  then have fresh: "gate_wf (?fresh wd mx tag hs)" if "0 < hs" for wd mx tag hs
    using that by (simp add: gate_wf_def hashid_init_inv connection_zero_def databuffer_zero_inv)
  obtain s where s: "p = Some s" using assms by (cases p) (simp_all add: gate_init_def)
  obtain n hdr wdog bind tag0 mx where sc: "scan_gate s = (n, hdr, wdog, bind, tag0, mx)" by (cases "scan_gate s") auto
  obtain wd tag hs where "start_listen socket_listen (?fresh wd mx tag hs) bind = (0, out, g')" "0 < hs"
    using assms unfolding gate_init_def s option.case sc prod.case Let_def by (auto split: if_splits)
  then show ?thesis using start_listen_wf [OF fresh] by blast
qed

text \<open>A sequence of messages to the service, each with the type, the bytes, the text and the socket message it holds.\<close>

type_synonym gate_msg = "int \<times> byte list \<times> string \<times> skynet_socket_message"

fun gate_run :: "(string \<Rightarrow> u32) \<Rightarrow> gate_msg list \<Rightarrow> gate \<Rightarrow> (gate_out list \<times> gate) res" where
  "gate_run queryname [] g = Ok ([], g)"
| "gate_run queryname ((type, msg, tx, sock) # ms) g =
     res_bind (gate_cb queryname g type msg tx sock) (\<lambda>(_, out, g1).
     res_bind (gate_run queryname ms g1) (\<lambda>(out', g2). Ok (out @ out', g2)))"

text \<open>The accepted sockets of a sequence have new ids.\<close>

fun accepts_fresh :: "(string \<Rightarrow> u32) \<Rightarrow> gate_msg list \<Rightarrow> gate \<Rightarrow> bool" where
  "accepts_fresh queryname [] g \<longleftrightarrow> True"
| "accepts_fresh queryname ((type, msg, tx, sock) # ms) g \<longleftrightarrow> (type = PTYPE_SOCKET \<longrightarrow> accept_fresh g sock) \<and>
     (case gate_cb queryname g type msg tx sock of Ok (_, _, g1) \<Rightarrow> accepts_fresh queryname ms g1 | Err _ \<Rightarrow> True)"

text \<open>Some message of the sequence is accepted from a listening socket that was closed before.\<close>

fun stale_in :: "(string \<Rightarrow> u32) \<Rightarrow> gate_msg list \<Rightarrow> gate \<Rightarrow> bool" where
  "stale_in queryname [] g \<longleftrightarrow> False"
| "stale_in queryname ((type, msg, tx, sock) # ms) g \<longleftrightarrow> type = PTYPE_SOCKET \<and> stale_accept g sock \<or>
     (case gate_cb queryname g type msg tx sock of Ok (_, _, g1) \<Rightarrow> stale_in queryname ms g1 | Err _ \<Rightarrow> False)"

lemma gate_run_exact:
  assumes "gate_wf g" "accepts_fresh queryname ms g"
  shows "if stale_in queryname ms g then gate_run queryname ms g = Err Assert_fail
    else \<exists>out g'. gate_run queryname ms g = Ok (out, g') \<and> gate_wf g'"
  using assms
proof (induction ms arbitrary: g)
  case (Cons a ms)
  obtain type msg tx sock where a: "a = (type, msg, tx, sock)" by (cases a)
  show ?case
  proof (cases "type = PTYPE_SOCKET \<and> stale_accept g sock")
    case True
    then have "gate_cb queryname g type msg tx sock = Err Assert_fail"
      using dispatch_socket_stale [of g sock] by (simp add: gate_cb_def PTYPE_TEXT_def PTYPE_CLIENT_def PTYPE_SOCKET_def)
    then show ?thesis using True a by simp
  next
    case False
    then obtain r out g1 where cb: "gate_cb queryname g type msg tx sock = Ok (r, out, g1)" "gate_wf g1"
      using gate_cb_wf [OF Cons.prems(1), of type sock queryname msg tx] Cons.prems(2) a by auto
    have "accepts_fresh queryname ms g1" using Cons.prems(2) a cb(1) by simp
    from Cons.IH [OF cb(2) this] show ?thesis using False a cb(1) by (auto split: if_splits)
  qed
qed simp

text \<open>Once the header is negative, whatever arrives is only buffered.\<close>

lemma blocked_feed:
  assumes "i < length (gate_conn g)" and "db_header (the_buffer g i) < 0" and "db_inv (the_buffer g i)"
  shows "\<exists>g'. feed_all (gate_feed i fd) cs g = Ok ([], g') \<and>
    db_content (the_buffer g' i) = db_content (the_buffer g i) @ concat cs"
  using assms
proof (induction cs arbitrary: g)
  case (Cons c cs)
  obtain db mp where push: "databuffer_push (the_buffer g i) (gate_mp g) c = (db, mp)"
    by (cases "databuffer_push (the_buffer g i) (gate_mp g) c")
  have db: "db_inv db" "db_content db = db_content (the_buffer g i) @ c" "db_header db < 0"
    using databuffer_push_ok [OF Cons.prems(3), of "gate_mp g" c] push Cons.prems(2) by simp_all
  have "0 \<le> db_size db" using db(1) by (simp add: db_inv_def)
  then have "dispatch_loop i fd (put_buffer g i db mp) = Some (Ok ([], put_buffer g i db mp))"
    using Cons.prems(1) db(3) by (subst dispatch_loop.simps) (simp add: databuffer_readheader_def)
  then have "gate_feed i fd c g = Ok ([], put_buffer g i db mp)"
    using push by (simp add: gate_feed_def dispatch_message_def)
  then show ?case using Cons.IH [of "put_buffer g i db mp"] Cons.prems(1) db by auto
qed simp

section \<open>Properties\<close>

text \<open>C23: packets are cut correctly. Whatever pieces the socket delivers the byte stream of a connection
  in, the gate sends exactly the non-empty packets of the stream, in order and each with the payload it
  has on the wire, to the broker, the agent or the watchdog, and keeps the rest for later; the loop of
  \<open>dispatch_message\<close> ends and no read leaves the buffer. This holds for both header sizes as long as no
  packet announces 16M or more and the connection has a receiver.\<close>

theorem gate_stream:
  assumes "conn_inv rt i g" and "conn_pending i g = []"
    and "be_limit (route_header rt) (2 ^ 24) (concat cs)"
  shows "\<exists>g'. feed_all (gate_feed i fd) cs g =
      Ok (map (packet_out rt) (filter (\<lambda>p. p \<noteq> []) (fst (be_frames (route_header rt) (concat cs)))), g') \<and>
    conn_pending i g' = snd (be_frames (route_header rt) (concat cs))"
proof -
  have "framed rt [] = ([], [])" by (simp add: framed_def be_frames.simps)
  then show ?thesis using gate_rx.feed_pieces [OF assms(1), of cs fd] assms(2,3) by (auto simp: framed_def split_beta)
qed

definition gate_demo :: gate where
  "gate_demo = gate_create\<lparr>header_size := 2, client_tag := 3,
     gate_conn := [connection_zero\<lparr>conn_id := 5, conn_agent := 9, conn_client := 8\<rparr>]\<rparr>"

theorem gate_stream_witness:
  "\<exists>g'. feed_all (gate_feed 0 5) [[0], [2, 65], [66, 0, 0, 0, 1], [67]] gate_demo =
    Ok ([Send 8 9 (3 OR 0x10000) 5 [65, 66], Send 8 9 (3 OR 0x10000) 5 [67]], g')"
proof -
  let ?rt = "(0, 0, 3, 2, 5, 9, 8) :: route"
  have inv: "conn_inv ?rt 0 gate_demo" "conn_pending 0 gate_demo = []"
    by (simp_all add: conn_inv_def gate_demo_def gate_create_def route_def connection_zero_def databuffer_zero_inv
        conn_pending_def) (simp_all add: databuffer_zero_def)
  have "be_limit 2 (2 ^ 24) (concat [[0], [2, 65], [66, 0, 0, 0, 1], [67]])" by (rule be_limit_wide) simp
  moreover have "fst (be_frames 2 (concat [[0], [2, 65], [66, 0, 0, 0, 1], [67]])) = [[65, 66], [], [67]]"
    by code_simp
  ultimately show ?thesis using gate_stream [OF inv, of "[[0], [2, 65], [66, 0, 0, 0, 1], [67]]" 5]
    by (auto simp: PTYPE_TAG_DONTCOPY_def)
qed


text \<open>A client connects and is served; after the command \<open>close\<close> a connection that was accepted before it fails the assertion.\<close>

definition gate_accept_msg :: "int \<Rightarrow> gate_msg" where
  "gate_accept_msg fd = (PTYPE_SOCKET, [], [], \<lparr>sm_type = 4, sm_id = 3, sm_ud = fd, sm_buffer = [], sm_tail = ''127.0.0.1:9''\<rparr>)"

definition gate_text_msg :: "string \<Rightarrow> gate_msg" where
  "gate_text_msg t = (PTYPE_TEXT, [], t, \<lparr>sm_type = 0, sm_id = 0, sm_ud = 0, sm_buffer = [], sm_tail = []\<rparr>)"


text \<open>C34: a four-byte header with its top bit set blocks the connection for good. Take a connection of a gate with
  four-byte headers that waits for a header (\<open>db_header\<close> is 0, fewer than four bytes are buffered), and let the
  bytes from there on, in whatever pieces the socket delivers them, start with four bytes \<open>h\<close> whose first is 128 or more.
  Their value, which \<open>databuffer_readheader\<close> computes as an \<open>int\<close>, is negative, so the check for packets of 16M never fires:
  nothing is delivered, the socket is not closed, and everything behind the header stays in the buffer.\<close>

theorem gate_negative_header:
  assumes "i < length (gate_conn g)" and "header_size g = 4" and "db_inv (the_buffer g i)" and "db_header (the_buffer g i) = 0"
    and "length (db_content (the_buffer g i)) < 4" and "db_content (the_buffer g i) @ concat cs = h @ rest"
    and "length h = 4" and "128 \<le> unat (h ! 0)"
  shows "\<exists>g'. feed_all (gate_feed i fd) cs g = Ok ([], g') \<and> db_content (the_buffer g' i) = rest"
  using assms(1-6)
proof (induction cs arbitrary: g)
  case Nil
  then have "length h \<le> length (db_content (the_buffer g i))" by simp
  then show ?case using Nil.prems(5) assms(7) by simp
next
  case (Cons c cs)
  obtain db mp where push: "databuffer_push (the_buffer g i) (gate_mp g) c = (db, mp)"
    by (cases "databuffer_push (the_buffer g i) (gate_mp g) c")
  have db: "db_inv db" "db_content db = db_content (the_buffer g i) @ c" "db_header db = 0"
    using databuffer_push_ok [OF Cons.prems(3), of "gate_mp g" c] push Cons.prems(4) by simp_all
  let ?g = "put_buffer g i db mp"
  have g: "i < length (gate_conn ?g)" "the_buffer ?g i = db" "header_size ?g = 4" "gate_mp ?g = mp" using Cons.prems(1,2) by simp_all
  have size: "db_size db = int (length (db_content db))" using db(1) by (simp add: db_inv_def)
  show ?case
  proof (cases "length (db_content db) < 4")
    case True
    have "databuffer_readheader db mp 4 = Ok (-1, db, mp)"
      using True size db(3) by (simp add: databuffer_readheader_def)
    then have "gate_feed i fd c g = Ok ([], put_buffer ?g i db mp)"
      using push g by (simp add: gate_feed_def dispatch_message_def dispatch_loop.simps [of i fd ?g])
    moreover have "db_content db @ concat cs = h @ rest" using Cons.prems(6) db(2) by simp
    ultimately show ?thesis using Cons.IH [of ?g] g db True Cons.prems(1) by simp
  next
    case False
    have app: "db_content db @ concat cs = h @ rest" using Cons.prems(6) db(2) by simp
    then have h4: "take 4 (db_content db) = h" "rest = drop 4 (db_content db) @ concat cs"
      using False assms(7) by (auto simp: append_eq_append_conv_if split: if_splits)
    obtain db1 mp1 where rd: "databuffer_read db mp 4 = Ok (h, db1, mp1)" "db_inv db1" "db_content db1 = drop 4 (db_content db)"
      using databuffer_read_ok [OF db(1), of 4 mp] False h4(1) by auto
    let ?db = "db1\<lparr>db_header := header_value 4 h\<rparr>"
    have neg: "header_value 4 h < 0" by (rule header_value_negative [OF assms(7,8)])
    have "0 \<le> db_size db1" using rd(2) by (simp add: db_inv_def)
    then have "databuffer_readheader db mp 4 = Ok (header_value 4 h, ?db, mp1)"
      using False size db(3) rd(1) neg by (simp add: databuffer_readheader_def)
    then have "gate_feed i fd c g = Ok ([], put_buffer ?g i ?db mp1)"
      using push g neg by (simp add: gate_feed_def dispatch_message_def dispatch_loop.simps [of i fd ?g])
    moreover obtain g' where "feed_all (gate_feed i fd) cs (put_buffer ?g i ?db mp1) = Ok ([], g')" "db_content (the_buffer g' i) = rest"
      using blocked_feed [of i "put_buffer ?g i ?db mp1" fd cs] g neg rd h4(2) Cons.prems(1) by auto
    ultimately show ?thesis by simp
  qed
qed

theorem gate_negative_header_witness:
  "\<exists>g'. feed_all (gate_feed 0 5) [[0x80], [0, 0, 1, 65], [66]] (gate_demo\<lparr>header_size := 4\<rparr>) = Ok ([], g') \<and>
    db_content (the_buffer g' 0) = [65, 66]"
  by (rule gate_negative_header [where h = "[0x80, 0, 0, 1]"])
    (simp_all add: gate_demo_def connection_zero_def databuffer_zero_inv, simp add: databuffer_zero_def)

definition gate_idle :: gate where
  "gate_idle = gate_demo\<lparr>gate_conn := [(gate_conn gate_demo ! 0)\<lparr>conn_agent := 0, conn_client := 0\<rparr>]\<rparr>"

text \<open>A packet for which nobody is registered desynchronises the connection. \<open>_forward\<close> then leaves
  the payload in the buffer while \<open>dispatch_message\<close> forgets the header, so the payload is parsed as
  headers: here a packet with payload 0, 1, 65 arrives before the agent is set, and the packet that
  follows, once the agent is set, is not delivered; the gate waits for 16640 bytes instead.\<close>

lemma gate_no_receiver_desync:
  "fst (be_frames 2 ([0, 3, 0, 1, 65] @ [0, 1, 66])) = [[0, 1, 65], [66]] \<and>
   (\<exists>g1. dispatch_message gate_idle 0 5 [0, 3, 0, 1, 65] = Ok ([], g1) \<and>
     (\<exists>g3. dispatch_message (set_conn g1 0 ((gate_conn g1 ! 0)\<lparr>conn_agent := 9, conn_client := 8\<rparr>)) 0 5 [0, 1, 66] =
       Ok ([], g3) \<and> db_header (the_buffer g3 0) = 16640))"
proof -
  have "fst (be_frames 2 ([0, 3, 0, 1, 65] @ [0, 1, 66])) = [[0, 1, 65], [66]]" by code_simp
  moreover have "(case dispatch_message gate_idle 0 5 [0, 3, 0, 1, 65] of
      Ok (out, g1) \<Rightarrow> out = [] \<and>
        (case dispatch_message (set_conn g1 0 ((gate_conn g1 ! 0)\<lparr>conn_agent := 9, conn_client := 8\<rparr>)) 0 5 [0, 1, 66] of
           Ok (out, g3) \<Rightarrow> out = [] \<and> db_header (the_buffer g3 0) = 16640
         | Err _ \<Rightarrow> False)
    | Err _ \<Rightarrow> False)"
    by code_simp
  ultimately show ?thesis unfolding res_case_ex by auto
qed

end
