(* ===== verification/Skynet_Handle.thy ===== *)
theory Skynet_Handle
  imports Skynet_Prelude "HOL-Library.Char_ord" "HOL-Library.List_Lexorder"
begin

text \<open>
  The handle storage of \<open>skynet-src/skynet_handle.c\<close>: a table of contexts whose size is a power of
  two, indexed by the low bits of the handle, which \<open>skynet_handle_register\<close> doubles when it finds no
  free slot, and an array of names sorted by \<open>strcmp\<close>. A context is a pointer; the field
  \<open>ctx->handle\<close> that the storage reads through \<open>skynet_context_handle\<close> belongs to the server, and is
  passed as the function \<open>ch\<close>. The calls of \<open>skynet_context_grab\<close> and \<open>skynet_context_release\<close> are
  left to the caller, which gets the context back (theory \<open>Skynet_Server\<close> composes them).

  The lemmas show that the table is a map from handles to live contexts: registration returns a
  handle that no live context has, after at most one doubling; \<open>grab\<close> finds a context exactly under
  its handle; \<open>retire\<close> removes it with all its names; the binary search over the names is a lookup.
\<close>

section \<open>Data\<close>

type_synonym cptr = nat

record handle_storage =
  harbor :: u32
  handle_index :: u32
  slot :: "cptr option list"
  name_cap :: nat
  name_count :: nat
  name :: "(string \<times> u32) option list"

abbreviation slot_size :: "handle_storage \<Rightarrow> nat" where
  "slot_size s \<equiv> length (slot s)"

definition HANDLE_MASK :: u32 where "HANDLE_MASK = 0xffffff"
definition HANDLE_REMOTE_SHIFT :: nat where "HANDLE_REMOTE_SHIFT = 24"
definition DEFAULT_SLOT_SIZE :: nat where "DEFAULT_SLOT_SIZE = 4"
definition MAX_SLOT_SIZE :: nat where "MAX_SLOT_SIZE = 0x40000000"

section \<open>Operations on the slots\<close>

text \<open>\<open>handle & (slot_size - 1)\<close>.\<close>

definition hash_slot :: "nat \<Rightarrow> u32 \<Rightarrow> nat" where
  "hash_slot n handle = unat (handle AND (of_nat n - 1))"

text \<open>The inner loop of \<open>skynet_handle_register\<close>, with the number of iterations left: the first
  handle whose slot is free, with that slot.\<close>

fun register_scan :: "cptr option list \<Rightarrow> nat \<Rightarrow> u32 \<Rightarrow> (u32 \<times> nat) option" where
  "register_scan sl 0 handle = None"
| "register_scan sl (Suc n) handle =
     (let handle = (if handle > HANDLE_MASK then 1 else handle);
          hash = hash_slot (length sl) handle in
      if sl ! hash = None then Some (handle, hash) else register_scan sl n (handle + 1))"

text \<open>The copy of the contexts into a table of twice the size.\<close>

fun register_rehash :: "(cptr \<Rightarrow> u32) \<Rightarrow> cptr option list \<Rightarrow> cptr option list \<Rightarrow> cptr option list res" where
  "register_rehash ch [] new_slot = Ok new_slot"
| "register_rehash ch (None # rest) new_slot = Err Null_deref"
| "register_rehash ch (Some ctx # rest) new_slot =
     (let hash = hash_slot (length new_slot) (ch ctx) in
      res_bind (res_assert (new_slot ! hash = None)) (\<lambda>_.
      register_rehash ch rest (new_slot[hash := Some ctx])))"

partial_function (option) register_loop ::
    "(cptr \<Rightarrow> u32) \<Rightarrow> cptr \<Rightarrow> handle_storage \<Rightarrow> (u32 \<times> handle_storage) res option" where
  "register_loop ch ctx s =
     (case register_scan (slot s) (slot_size s) (handle_index s) of
        Some (handle, hash) \<Rightarrow>
          Some (Ok (handle OR harbor s, s\<lparr>slot := (slot s)[hash := Some ctx], handle_index := handle + 1\<rparr>))
      | None \<Rightarrow>
          (if slot_size s * 2 - 1 \<le> unat HANDLE_MASK then
             (case register_rehash ch (slot s) (replicate (slot_size s * 2) None) of
                Ok new_slot \<Rightarrow> register_loop ch ctx (s\<lparr>slot := new_slot\<rparr>)
              | Err e \<Rightarrow> Some (Err e))
           else Some (Err Assert_fail)))"

definition skynet_handle_register ::
    "(cptr \<Rightarrow> u32) \<Rightarrow> cptr \<Rightarrow> handle_storage \<Rightarrow> (u32 \<times> handle_storage) res" where
  "skynet_handle_register ch ctx s = (case register_loop ch ctx s of None \<Rightarrow> Err Diverge | Some r \<Rightarrow> r)"

text \<open>The compaction of the names in \<open>skynet_handle_retire\<close>: \<open>i\<close> reads, \<open>j\<close> writes.\<close>

function retire_names :: "u32 \<Rightarrow> nat \<Rightarrow> nat \<Rightarrow> nat \<Rightarrow> (string \<times> u32) option list \<Rightarrow> (nat \<times> (string \<times> u32) option list) res" where
  "retire_names handle n i j arr =
     (if i < n then
        (if i < length arr then
           (case arr ! i of
              None \<Rightarrow> Err Uninit_read
            | Some (_, h) \<Rightarrow>
                (if h = handle then retire_names handle n (Suc i) j arr
                 else if i \<noteq> j then retire_names handle n (Suc i) (Suc j) (arr[j := arr ! i])
                 else retire_names handle n (Suc i) (Suc j) arr))
         else Err Out_of_bounds)
      else Ok (j, arr))"
  by pat_completeness auto
termination
  by (relation "measure (\<lambda>(_, n, i, _, _). n - i)") auto

declare retire_names.simps [simp del]

definition skynet_handle_retire ::
    "(cptr \<Rightarrow> u32) \<Rightarrow> u32 \<Rightarrow> handle_storage \<Rightarrow> (cptr option \<times> handle_storage) res" where
  "skynet_handle_retire ch handle s =
     (let hash = hash_slot (slot_size s) handle in
      case slot s ! hash of
        None \<Rightarrow> Ok (None, s)
      | Some ctx \<Rightarrow>
          (if ch ctx = handle then
             res_bind (retire_names handle (name_count s) 0 0 (name s)) (\<lambda>(j, arr).
             Ok (Some ctx, s\<lparr>slot := (slot s)[hash := None], name := arr, name_count := j\<rparr>))
           else Ok (None, s)))"

text \<open>One pass of \<open>skynet_handle_retireall\<close> from slot \<open>i\<close> on, with the contexts it retired, and the
  passes until one retires nothing.\<close>

fun retireall_pass ::
    "(cptr \<Rightarrow> u32) \<Rightarrow> nat list \<Rightarrow> handle_storage \<Rightarrow> (cptr list \<times> handle_storage) res" where
  "retireall_pass ch [] s = Ok ([], s)"
| "retireall_pass ch (i # is) s =
     (let handle = (case slot s ! i of None \<Rightarrow> 0 | Some ctx \<Rightarrow> ch ctx) in
      if handle \<noteq> 0 then
        res_bind (skynet_handle_retire ch handle s) (\<lambda>(ctx, s1).
        res_bind (retireall_pass ch is s1) (\<lambda>(cs, s2).
        Ok (case ctx of None \<Rightarrow> cs | Some c \<Rightarrow> c # cs, s2)))
      else retireall_pass ch is s)"

partial_function (option) retireall_loop ::
    "(cptr \<Rightarrow> u32) \<Rightarrow> handle_storage \<Rightarrow> (cptr list \<times> handle_storage) res option" where
  "retireall_loop ch s =
     (case retireall_pass ch [0..<slot_size s] s of
        Err e \<Rightarrow> Some (Err e)
      | Ok (cs, s1) \<Rightarrow>
          (if cs = [] then Some (Ok (cs, s1))
           else
             Option.bind (retireall_loop ch s1) (\<lambda>r.
             Some (res_bind r (\<lambda>(cs', s2). Ok (cs @ cs', s2))))))"

definition skynet_handle_retireall :: "(cptr \<Rightarrow> u32) \<Rightarrow> handle_storage \<Rightarrow> (cptr list \<times> handle_storage) res" where
  "skynet_handle_retireall ch s = (case retireall_loop ch s of None \<Rightarrow> Err Diverge | Some r \<Rightarrow> r)"

definition skynet_handle_grab :: "(cptr \<Rightarrow> u32) \<Rightarrow> handle_storage \<Rightarrow> u32 \<Rightarrow> cptr option" where
  "skynet_handle_grab ch s handle =
     (case slot s ! hash_slot (slot_size s) handle of
        None \<Rightarrow> None
      | Some ctx \<Rightarrow> if ch ctx = handle then Some ctx else None)"

section \<open>Operations on the names\<close>

text \<open>The sign is all that the code uses of \<open>strcmp\<close>.\<close>

fun strcmp :: "string \<Rightarrow> string \<Rightarrow> int" where
  "strcmp [] [] = 0"
| "strcmp [] (b # bs) = -1"
| "strcmp (a # as) [] = 1"
| "strcmp (a # as) (b # bs) = (if a = b then strcmp as bs else if a < b then -1 else 1)"

text \<open>The binary search that \<open>skynet_handle_findname\<close> and \<open>_insert_name\<close> share: \<open>Inl\<close> the index where
  the name is found, \<open>Inr\<close> the final \<open>begin\<close>.\<close>

function name_search :: "(string \<times> u32) option list \<Rightarrow> string \<Rightarrow> int \<Rightarrow> int \<Rightarrow> (nat + nat) res" where
  "name_search arr nm begin_ix end_ix =
     (if begin_ix \<le> end_ix then
        (let mid = (begin_ix + end_ix) div 2 in
         if 0 \<le> mid \<and> mid < int (length arr) then
           (case arr ! nat mid of
              None \<Rightarrow> Err Uninit_read
            | Some (n, _) \<Rightarrow>
                (let c = strcmp n nm in
                 if c = 0 then Ok (Inl (nat mid))
                 else if c < 0 then name_search arr nm (mid + 1) end_ix
                 else name_search arr nm begin_ix (mid - 1)))
         else Err Out_of_bounds)
      else Ok (Inr (nat begin_ix)))"
  by pat_completeness auto
termination
  by (relation "measure (\<lambda>(_, _, b, e). nat (e + 1 - b))") auto

declare name_search.simps [simp del]

definition skynet_handle_findname :: "handle_storage \<Rightarrow> string \<Rightarrow> u32 res" where
  "skynet_handle_findname s nm =
     res_bind (name_search (name s) nm 0 (int (name_count s) - 1)) (\<lambda>r.
     Ok (case r of Inl i \<Rightarrow> snd (the (name s ! i)) | Inr _ \<Rightarrow> 0))"

text \<open>The loop that moves the cells from \<open>before\<close> on up by one, from the last.\<close>

fun shift_names :: "nat \<Rightarrow> nat \<Rightarrow> (string \<times> u32) option list \<Rightarrow> (string \<times> u32) option list" where
  "shift_names before 0 arr = arr"
| "shift_names before (Suc i) arr =
     (if Suc i > before then shift_names before i (arr[Suc i := arr ! i]) else arr)"

definition insert_name_before :: "handle_storage \<Rightarrow> string \<Rightarrow> u32 \<Rightarrow> nat \<Rightarrow> handle_storage res" where
  "insert_name_before s nm handle before =
     res_bind
       (if name_count s \<ge> name_cap s then
          res_bind (res_assert (name_cap s * 2 \<le> MAX_SLOT_SIZE)) (\<lambda>_.
          Ok (s\<lparr>name_cap := name_cap s * 2,
                name := take before (name s) @ [None] @ take (name_count s - before) (drop before (name s)) @
                  replicate (name_cap s * 2 - Suc (name_count s)) None\<rparr>))
        else Ok (s\<lparr>name := shift_names before (name_count s) (name s)\<rparr>))
     (\<lambda>s1. Ok (s1\<lparr>name := (name s1)[before := Some (nm, handle)], name_count := Suc (name_count s1)\<rparr>))"

definition insert_name :: "handle_storage \<Rightarrow> string \<Rightarrow> u32 \<Rightarrow> (string option \<times> handle_storage) res" where
  "insert_name s nm handle =
     res_bind (name_search (name s) nm 0 (int (name_count s) - 1)) (\<lambda>r.
     case r of
       Inl _ \<Rightarrow> Ok (None, s)
     | Inr i \<Rightarrow> res_bind (insert_name_before s nm handle i) (\<lambda>s1. Ok (Some nm, s1)))"

definition skynet_handle_namehandle :: "u32 \<Rightarrow> string \<Rightarrow> handle_storage \<Rightarrow> (string option \<times> handle_storage) res" where
  "skynet_handle_namehandle handle nm s = insert_name s nm handle"

definition skynet_handle_init :: "u32 \<Rightarrow> handle_storage" where
  "skynet_handle_init harbor_id =
     \<lparr>harbor = push_bit HANDLE_REMOTE_SHIFT (harbor_id AND 0xff), handle_index = 1,
      slot = replicate DEFAULT_SLOT_SIZE None, name_cap = 2, name_count = 0, name = replicate 2 None\<rparr>"

section \<open>The slots as a map from handles to contexts\<close>

definition handle_inv :: "(cptr \<Rightarrow> u32) \<Rightarrow> handle_storage \<Rightarrow> bool" where
  "handle_inv ch s \<longleftrightarrow>
     (\<exists>k. 2 \<le> k \<and> k \<le> 24 \<and> slot_size s = 2 ^ k) \<and>
     1 \<le> unat (handle_index s) \<and> unat (handle_index s) \<le> 2 ^ 24 \<and> harbor s AND HANDLE_MASK = 0 \<and>
     (\<forall>i < slot_size s. \<forall>c. slot s ! i = Some c \<longrightarrow>
        hash_slot (slot_size s) (ch c) = i \<and> ch c AND HANDLE_MASK \<noteq> 0)"

lemma hash_slot_mod:
  assumes "k < 32"
  shows "hash_slot (2 ^ k) h = unat h mod 2 ^ k"
proof -
  have "of_nat (2 ^ k) - 1 = (mask k :: u32)" by (simp add: mask_eq_exp_minus_1)
  then show ?thesis unfolding hash_slot_def
    by (simp add: take_bit_eq_mask [symmetric] unsigned_take_bit_eq) (simp add: take_bit_eq_mod)
qed

lemma hash_slot_less: "k < 32 \<Longrightarrow> hash_slot (2 ^ k) h < 2 ^ k"
  by (simp add: hash_slot_mod)

lemma hash_slot_half:
  assumes "Suc k < 32"
  shows "hash_slot (2 ^ Suc k) h mod 2 ^ k = hash_slot (2 ^ k) h"
proof -
  have "(2::nat) ^ k dvd 2 ^ Suc k" by (rule le_imp_power_dvd) simp
  then show ?thesis using assms hash_slot_mod [of "Suc k" h] hash_slot_mod [of k h] by (metis Suc_lessD mod_mod_cancel)
qed

lemma HANDLE_MASK_mask: "HANDLE_MASK = mask 24"
  by (simp add: HANDLE_MASK_def mask_eq_exp_minus_1)

lemma hash_slot_harbor:
  assumes "k \<le> 24" "b AND HANDLE_MASK = 0"
  shows "hash_slot (2 ^ k) (h OR b) = hash_slot (2 ^ k) h"
proof -
  have "take_bit 24 b = 0" using assms(2) by (simp add: HANDLE_MASK_mask take_bit_eq_mask)
  then have "take_bit k (h OR b) = take_bit k h"
  proof -
    have "take_bit k b = take_bit k (take_bit 24 b)" using assms(1) by (simp add: min_def)
    then have "take_bit k b = 0" using \<open>take_bit 24 b = 0\<close> by simp
    then show ?thesis by (simp add: take_bit_or)
  qed
  moreover have "of_nat (2 ^ k) - 1 = (mask k :: u32)" by (simp add: mask_eq_exp_minus_1)
  ultimately show ?thesis by (simp add: hash_slot_def take_bit_eq_mask)
qed

lemma handle_invD:
  assumes "handle_inv ch s" "i < slot_size s" "slot s ! i = Some c"
  shows "hash_slot (slot_size s) (ch c) = i \<and> ch c AND HANDLE_MASK \<noteq> 0"
  using assms unfolding handle_inv_def by blast

lemma handle_inv_size:
  assumes "handle_inv ch s"
  obtains k where "2 \<le> k" "k \<le> 24" "slot_size s = 2 ^ k"
  using assms unfolding handle_inv_def by blast

lemma grab_iff:
  assumes "handle_inv ch s"
  shows "skynet_handle_grab ch s h = Some c \<longleftrightarrow> Some c \<in> set (slot s) \<and> ch c = h"
proof -
  obtain k where k: "k \<le> 24" "slot_size s = 2 ^ k" using assms by (rule handle_inv_size)
  let ?i = "hash_slot (slot_size s) h"
  have i: "?i < slot_size s" using hash_slot_less [of k h] k by simp
  show ?thesis
  proof
    assume "skynet_handle_grab ch s h = Some c"
    then have "slot s ! ?i = Some c" "ch c = h"
      by (auto simp: skynet_handle_grab_def split: option.splits if_splits)
    then show "Some c \<in> set (slot s) \<and> ch c = h" using nth_mem [OF i] by simp
  next
    assume c: "Some c \<in> set (slot s) \<and> ch c = h"
    then obtain j where "j < slot_size s" "slot s ! j = Some c" by (metis in_set_conv_nth)
    then have "slot s ! ?i = Some c" using handle_invD [OF assms] c by metis
    then show "skynet_handle_grab ch s h = Some c" using c by (simp add: skynet_handle_grab_def)
  qed
qed

lemma grab_eqI:
  assumes "\<And>h c. f h = Some c \<longleftrightarrow> g h = Some c"
  shows "f = g"
  by (rule ext) (metis assms not_Some_eq)

section \<open>Registration\<close>

text \<open>The handles that the inner loop tries, in order.\<close>

fun visit :: "u32 \<Rightarrow> nat \<Rightarrow> u32" where
  "visit h 0 = (if h > HANDLE_MASK then 1 else h)"
| "visit h (Suc i) = visit ((if h > HANDLE_MASK then 1 else h) + 1) i"

lemma mask_less_iff: "h > HANDLE_MASK \<longleftrightarrow> 2 ^ 24 \<le> unat h"
  by (auto simp: HANDLE_MASK_def word_less_nat_alt)

lemma unat_step: "unat h < 2 ^ 24 \<Longrightarrow> unat (h + 1 :: u32) = unat h + 1"
  by (simp add: unat_word_ariths)

lemma unat_visit:
  assumes "1 \<le> unat h" "unat h \<le> 2 ^ 24" "i + 1 < 2 ^ 24"
  shows "unat (visit h i) = (if unat h + i < 2 ^ 24 then unat h + i else unat h + i + 1 - 2 ^ 24)"
  using assms
proof (induction i arbitrary: h)
  case (Suc i)
  show ?case
  proof (cases "h > HANDLE_MASK")
    case True
    then have h: "unat h = 2 ^ 24" using Suc.prems by (simp add: mask_less_iff)
    have "unat (1 + 1 :: u32) = 2" by simp
    then show ?thesis using Suc.IH [of "1 + 1"] Suc.prems True h by simp
  next
    case False
    then have "unat h < 2 ^ 24" by (simp add: mask_less_iff)
    then show ?thesis using Suc.IH [of "h + 1"] Suc.prems False unat_step [of h] by simp
  qed
qed (auto simp: mask_less_iff)

lemma register_scan_Some:
  assumes "register_scan sl n h = Some (h', hash)" "1 \<le> unat h"
  shows "hash = hash_slot (length sl) h' \<and> sl ! hash = None \<and> 1 \<le> unat h' \<and> unat h' < 2 ^ 24"
  using assms
proof (induction n arbitrary: h)
  case (Suc n)
  let ?h = "if h > HANDLE_MASK then 1 else h"
  have h: "1 \<le> unat ?h" "unat ?h < 2 ^ 24" using Suc.prems by (auto simp: mask_less_iff)
  then have "1 \<le> unat (?h + 1)" using unat_step [of ?h] by simp
  then show ?case using Suc h by (auto simp: Let_def split: if_splits)
qed simp

lemma register_scan_None:
  "register_scan sl n h = None \<Longrightarrow> i < n \<Longrightarrow> sl ! hash_slot (length sl) (visit h i) \<noteq> None"
proof (induction n arbitrary: h i)
  case (Suc n)
  then show ?case by (cases i) (auto simp: Let_def split: if_splits)
qed simp

lemma wrap_arith:
  fixes n j M h :: nat
  shows "n \<le> j + (M - h) \<Longrightarrow> h \<le> M \<Longrightarrow> n \<le> M \<Longrightarrow> h + (j + (M - h) - n) = M - n + j"
    and "j < n \<Longrightarrow> n \<le> M \<Longrightarrow> M - n + j < M"
    and "j < n \<Longrightarrow> n \<le> M \<Longrightarrow> 1 \<le> h \<Longrightarrow> h \<le> M \<Longrightarrow> 1 < M \<Longrightarrow> j + (M - h) - n + 1 < M"
  by arith+

text \<open>A scan that finds nothing has seen every slot; when it wraps around it may miss slot 0, because
  handle 0 is reserved.\<close>

lemma scan_covers:
  assumes size: "length sl = 2 ^ k" "k \<le> 24" and h: "1 \<le> unat h" "unat h \<le> 2 ^ 24"
    and none: "register_scan sl (length sl) h = None" and j: "j < 2 ^ k" "j \<noteq> 0 \<or> unat h + 2 ^ k \<le> 2 ^ 24"
  shows "sl ! j \<noteq> None"
proof -
  let ?n = "2 ^ k :: nat"
  have n24: "?n \<le> 2 ^ 24" using size(2) by (rule power_increasing) simp
  have dvd: "?n dvd 2 ^ 24" using size(2) by (intro le_imp_power_dvd) simp
  have "\<exists>i < ?n. unat (visit h i) mod ?n = j"
  proof (cases "unat h + ?n \<le> 2 ^ 24")
    case True
    obtain i where i: "i < ?n" "(unat h + i) mod ?n = j" using mod_hit [OF j(1)] .
    then have "unat (visit h i) = unat h + i" using unat_visit [OF h, of i] True h by simp
    with i show ?thesis by metis
  next
    case False
    then have j0: "1 \<le> j" using j(2) by simp
    let ?d = "2 ^ 24 - unat h"
    show ?thesis
    proof (cases "?n \<le> j + ?d")
      case True
      have i: "j + ?d - ?n < ?n" using j(1) False h by simp
      have e: "unat h + (j + ?d - ?n) = 2 ^ 24 - ?n + j" by (rule wrap_arith(1) [OF True h(2) n24])
      have "j + ?d - ?n + 1 < 2 ^ 24" "2 ^ 24 - ?n + j < 2 ^ 24"
        using wrap_arith(2,3) [OF j(1) n24] h by (simp_all del: One_nat_def)
      then have "unat (visit h (j + ?d - ?n)) = 2 ^ 24 - ?n + j"
        using unat_visit [OF h, of "j + ?d - ?n"] by (simp only: e if_True)
      moreover have "(2 ^ 24 - ?n + j) mod ?n = j"
      proof -
        have "?n dvd 2 ^ 24 - ?n" using dvd by (intro dvd_diff_nat) simp_all
        then show ?thesis using j(1) by (metis dvd_imp_mod_0 mod_add_left_eq add_0 mod_less)
      qed
      ultimately show ?thesis using i by metis
    next
      case out: False
      have i: "?d + j - 1 < ?n" using out j0 by simp
      then have "unat (visit h (?d + j - 1)) = j"
        using unat_visit [OF h, of "?d + j - 1"] n24 out j0 h by (simp split: if_splits)
      then show ?thesis using i j(1) by (metis mod_less)
    qed
  qed
  then obtain i where i: "i < ?n" "unat (visit h i) mod ?n = j" by blast
  then show ?thesis
    using register_scan_None [OF none, of i] size hash_slot_mod [of k "visit h i"] by simp
qed

text \<open>Doubling a full table keeps every context under its handle.\<close>

lemma register_rehash_ok:
  assumes "distinct (map (\<lambda>c. hash_slot (length new) (ch c)) cs)"
    and "\<forall>c \<in> set cs. new ! hash_slot (length new) (ch c) = None \<and> hash_slot (length new) (ch c) < length new"
  shows "\<exists>new'. register_rehash ch (map Some cs) new = Ok new' \<and> length new' = length new \<and>
    (\<forall>c \<in> set cs. new' ! hash_slot (length new) (ch c) = Some c) \<and>
    (\<forall>j. j \<notin> (\<lambda>c. hash_slot (length new) (ch c)) ` set cs \<longrightarrow> new' ! j = new ! j)"
  using assms
proof (induction cs arbitrary: new)
  case (Cons c cs)
  let ?h = "\<lambda>c. hash_slot (length new) (ch c)"
  let ?new1 = "new[?h c := Some c]"
  have "?new1 ! ?h d = None \<and> ?h d < length new" if "d \<in> set cs" for d
  proof -
    have "?h c \<noteq> ?h d" using Cons.prems(1) that by auto
    then show ?thesis using Cons.prems(2) that by simp
  qed
  then obtain new' where new': "register_rehash ch (map Some cs) ?new1 = Ok new'" "length new' = length new"
      "\<forall>d \<in> set cs. new' ! ?h d = Some d" "\<forall>j. j \<notin> ?h ` set cs \<longrightarrow> new' ! j = ?new1 ! j"
    using Cons.IH [of ?new1] Cons.prems(1) by auto
  have "new' ! ?h c = Some c" using new'(4) Cons.prems by auto
  moreover have "new' ! j = new ! j" if "j \<notin> ?h ` set (c # cs)" for j using new'(4) that by auto
  ultimately show ?case using new' Cons.prems(2) by (auto simp: Let_def)
qed simp

lemma register_doubles:
  assumes inv: "handle_inv ch s" and full: "\<And>j. j < slot_size s \<Longrightarrow> slot s ! j \<noteq> None"
    and room: "slot_size s * 2 - 1 \<le> unat HANDLE_MASK"
  shows "\<exists>new. register_rehash ch (slot s) (replicate (slot_size s * 2) None) = Ok new \<and>
    length new = slot_size s * 2 \<and> handle_inv ch (s\<lparr>slot := new\<rparr>) \<and>
    (\<forall>c. Some c \<in> set new \<longleftrightarrow> Some c \<in> set (slot s)) \<and>
    card {j. j < length new \<and> new ! j \<noteq> None} \<le> slot_size s"
proof -
  obtain k where k: "2 \<le> k" "k \<le> 24" "slot_size s = 2 ^ k" using inv by (rule handle_inv_size)
  have "k < 24"
  proof (rule ccontr)
    assume "\<not> k < 24"
    then have "k = 24" using k by simp
    then show False using room k by (simp add: HANDLE_MASK_def)
  qed
  then have k1: "slot_size s * 2 = 2 ^ Suc k" "Suc k \<le> 24" "Suc k < 32" using k by simp_all
  let ?N = "2 ^ Suc k :: nat" and ?cs = "map the (slot s)"
  let ?h = "\<lambda>c. hash_slot ?N (ch c)"
  have sl: "slot s = map Some ?cs"
  proof (rule nth_equalityI)
    fix i assume "i < slot_size s"
    then show "slot s ! i = map Some ?cs ! i" using full [of i] by auto
  qed simp
  have less: "?h c < ?N" for c using hash_slot_less [OF k1(3)] .
  have "?h (?cs ! i) mod 2 ^ k = i" if "i < slot_size s" for i
  proof -
    have "slot s ! i = Some (?cs ! i)" using full [OF that] that by auto
    then have "hash_slot (2 ^ k) (ch (?cs ! i)) = i" using handle_invD [OF inv that] k(3) by simp
    then show ?thesis using hash_slot_half k1(3) by simp
  qed
  then have dist: "distinct (map ?h ?cs)"
    unfolding distinct_conv_nth by (metis length_map nth_map)
  obtain new where new: "register_rehash ch (map Some ?cs) (replicate ?N None) = Ok new" "length new = ?N"
      "\<forall>c \<in> set ?cs. new ! ?h c = Some c" "\<forall>j. j \<notin> ?h ` set ?cs \<longrightarrow> new ! j = replicate ?N None ! j"
    using register_rehash_ok [of "replicate ?N None" ch ?cs] dist less by auto
  have at: "new ! j = Some c \<longleftrightarrow> c \<in> set ?cs \<and> ?h c = j" if "j < ?N" for j c
    using new(3,4) that by (cases "j \<in> ?h ` set ?cs") auto
  have "Some c \<in> set new \<longleftrightarrow> c \<in> set ?cs" for c
    using at less new(2) by (metis in_set_conv_nth)
  moreover have "c \<in> set ?cs \<longleftrightarrow> Some c \<in> set (slot s)" for c
    using arg_cong [OF sl, of set] by (auto simp: image_iff) (metis option.sel)
  moreover have "handle_inv ch (s\<lparr>slot := new\<rparr>)"
  proof -
    have "ch c AND HANDLE_MASK \<noteq> 0" if "c \<in> set ?cs" for c
      using that calculation(2) handle_invD [OF inv] by (metis in_set_conv_nth)
    moreover have "\<exists>k. 2 \<le> k \<and> k \<le> 24 \<and> length new = 2 ^ k" using k k1 new(2) by (intro exI [of _ "Suc k"]) simp
    ultimately show ?thesis using inv new(2) at unfolding handle_inv_def by (intro conjI) auto
  qed
  moreover have "card {j. j < length new \<and> new ! j \<noteq> None} \<le> slot_size s"
  proof -
    have "{j. j < length new \<and> new ! j \<noteq> None} \<subseteq> ?h ` set ?cs" using at new(2) by auto
    then have "card {j. j < length new \<and> new ! j \<noteq> None} \<le> card (?h ` set ?cs)" by (rule card_mono [rotated]) simp
    also have "\<dots> \<le> slot_size s" by (metis card_image_le card_length finite_set le_trans length_map)
    finally show ?thesis .
  qed
  moreover have "register_rehash ch (slot s) (replicate (slot_size s * 2) None) = Ok new" "length new = slot_size s * 2"
    using new(1,2) by (simp_all only: k1(1) sl [symmetric])
  ultimately show ?thesis by (intro exI [of _ new]) simp
qed

lemma register_stores:
  assumes inv: "handle_inv ch s" and fresh: "Some ctx \<notin> set (slot s)"
    and scan: "register_scan (slot s) (slot_size s) (handle_index s) = Some (h, i)"
  defines "s' \<equiv> s\<lparr>slot := (slot s)[i := Some ctx], handle_index := h + 1\<rparr>"
  shows "handle_inv (ch(ctx := h OR harbor s)) s' \<and> skynet_handle_grab ch s (h OR harbor s) = None \<and>
    skynet_handle_grab (ch(ctx := h OR harbor s)) s' = (skynet_handle_grab ch s)(h OR harbor s \<mapsto> ctx)"
proof -
  obtain k where k: "2 \<le> k" "k \<le> 24" "slot_size s = 2 ^ k" using inv by (rule handle_inv_size)
  let ?h = "h OR harbor s" and ?ch = "ch(ctx := h OR harbor s)"
  have base: "1 \<le> unat (handle_index s)" "harbor s AND HANDLE_MASK = 0" using inv unfolding handle_inv_def by blast+
  note hi = register_scan_Some [OF scan base(1)]
  have hash: "hash_slot (slot_size s) ?h = i" using hi hash_slot_harbor [OF k(2) base(2)] k(3) by simp
  have i: "i < slot_size s" using hi k hash_slot_less [of k h] by simp
  have low: "?h AND HANDLE_MASK = h"
  proof -
    have "take_bit 24 h = h" using hi
      by (intro word_unat_eq_iff [THEN iffD2]) (simp add: unsigned_take_bit_eq take_bit_nat_eq_self)
    then show ?thesis using base(2)
      by (simp add: HANDLE_MASK_mask take_bit_eq_mask [symmetric] take_bit_or)
  qed
  have other: "c \<noteq> ctx" if "j < slot_size s" "slot s ! j = Some c" for j c
    using that fresh by (metis nth_mem)
  have at: "slot s' ! j = Some c \<longleftrightarrow> (if j = i then c = ctx else slot s ! j = Some c)" if "j < slot_size s" for j c
    using i by (auto simp: s'_def nth_list_update)
  have sz: "slot_size s' = slot_size s" by (simp add: s'_def)
  have inv': "handle_inv ?ch s'"
    unfolding handle_inv_def
  proof (intro conjI allI impI)
    show "\<exists>k. 2 \<le> k \<and> k \<le> 24 \<and> slot_size s' = 2 ^ k" using k by (auto simp: s'_def)
    show "1 \<le> unat (handle_index s')" "unat (handle_index s') \<le> 2 ^ 24"
      using hi unat_step [of h] by (simp_all add: s'_def)
    show "harbor s' AND HANDLE_MASK = 0" using base by (simp add: s'_def)
  next
    fix j c assume j: "j < slot_size s'" "slot s' ! j = Some c"
    then have js: "j < slot_size s" by (simp add: s'_def)
    have nz: "h \<noteq> 0" using hi by auto
    show "hash_slot (slot_size s') (?ch c) = j"
      using j(2) at [OF js, of c] handle_invD [OF inv js, of c] other [OF js, of c] hash sz by (simp split: if_splits)
    show "?ch c AND HANDLE_MASK \<noteq> 0"
      using j(2) at [OF js, of c] handle_invD [OF inv js, of c] other [OF js, of c] low nz by (simp split: if_splits)
  qed
  have mem: "Some c \<in> set (slot s') \<longleftrightarrow> c = ctx \<or> Some c \<in> set (slot s)" for c
  proof -
    have "Some c \<in> set (slot s') \<longleftrightarrow> (\<exists>j < slot_size s. if j = i then c = ctx else slot s ! j = Some c)"
      unfolding in_set_conv_nth sz using at by metis
    also have "\<dots> \<longleftrightarrow> c = ctx \<or> Some c \<in> set (slot s)"
      using i hi unfolding in_set_conv_nth by (metis option.distinct(1))
    finally show ?thesis .
  qed
  have free: "skynet_handle_grab ch s ?h = None" using hash hi by (auto simp: skynet_handle_grab_def)
  have "skynet_handle_grab ?ch s' = (skynet_handle_grab ch s)(?h \<mapsto> ctx)"
  proof (rule grab_eqI)
    fix g c
    have "skynet_handle_grab ch s g = Some c \<Longrightarrow> g \<noteq> ?h" using free by auto
    then show "skynet_handle_grab ?ch s' g = Some c \<longleftrightarrow> ((skynet_handle_grab ch s)(?h \<mapsto> ctx)) g = Some c"
      using fresh by (auto simp: grab_iff [OF inv'] grab_iff [OF inv] mem)
  qed
  with inv' free show ?thesis by blast
qed

lemma scan_half_full:
  assumes "handle_inv ch s" "slot_size s = 2 ^ k" "3 \<le> k" "k \<le> 24"
    and half: "2 * card {j. j < slot_size s \<and> slot s ! j \<noteq> None} \<le> slot_size s"
  shows "register_scan (slot s) (slot_size s) (handle_index s) \<noteq> None"
proof
  assume none: "register_scan (slot s) (slot_size s) (handle_index s) = None"
  have h: "1 \<le> unat (handle_index s)" "unat (handle_index s) \<le> 2 ^ 24" using assms(1) unfolding handle_inv_def by blast+
  have "{1..<slot_size s} \<subseteq> {j. j < slot_size s \<and> slot s ! j \<noteq> None}"
    using scan_covers [OF assms(2,4) h none] assms(2) by auto
  then have "card {1..<slot_size s} \<le> card {j. j < slot_size s \<and> slot s ! j \<noteq> None}" by (intro card_mono) simp_all
  then have "2 * (slot_size s - 1) \<le> slot_size s" using half by simp
  moreover have "8 \<le> slot_size s" using assms(2) power_increasing [OF assms(3), of "2::nat"] by simp
  ultimately show False by simp
qed

lemma register_step:
  "register_scan (slot s) (slot_size s) (handle_index s) = Some (h, i) \<Longrightarrow>
    skynet_handle_register ch ctx s = Ok (h OR harbor s, s\<lparr>slot := (slot s)[i := Some ctx], handle_index := h + 1\<rparr>)"
  "register_scan (slot s) (slot_size s) (handle_index s) = None \<Longrightarrow> slot_size s * 2 - 1 \<le> unat HANDLE_MASK \<Longrightarrow>
    register_rehash ch (slot s) (replicate (slot_size s * 2) None) = Ok new \<Longrightarrow>
    skynet_handle_register ch ctx s = skynet_handle_register ch ctx (s\<lparr>slot := new\<rparr>)"
  "register_scan (slot s) (slot_size s) (handle_index s) = None \<Longrightarrow> slot_size s * 2 - 1 \<le> unat HANDLE_MASK \<Longrightarrow>
    register_rehash ch (slot s) (replicate (slot_size s * 2) None) = Err e \<Longrightarrow> skynet_handle_register ch ctx s = Err e"
  by (simp_all add: skynet_handle_register_def register_loop.simps [of ch ctx s])

lemma register_ok:
  assumes inv: "handle_inv ch s" and fresh: "Some ctx \<notin> set (slot s)"
    and room: "slot_size s * 2 - 1 \<le> unat HANDLE_MASK"
    and seen: "slot s ! 0 \<noteq> None \<or> unat (handle_index s) + slot_size s \<le> 2 ^ 24"
  shows "\<exists>h s'. skynet_handle_register ch ctx s = Ok (h, s') \<and> handle_inv (ch(ctx := h)) s' \<and>
    skynet_handle_grab ch s h = None \<and> skynet_handle_grab (ch(ctx := h)) s' = (skynet_handle_grab ch s)(h \<mapsto> ctx) \<and>
    slot_size s' \<le> 2 * slot_size s \<and> name s' = name s \<and> name_count s' = name_count s \<and> name_cap s' = name_cap s"
proof (cases "register_scan (slot s) (slot_size s) (handle_index s)")
  case (Some r)
  obtain h i where r: "r = (h, i)" by (cases r)
  from register_stores [OF inv fresh Some [unfolded r]] Some r show ?thesis
    by (simp add: skynet_handle_register_def register_loop.simps [of ch ctx s])
next
  case None
  obtain k where k: "2 \<le> k" "k \<le> 24" "slot_size s = 2 ^ k" using inv by (rule handle_inv_size)
  have h: "1 \<le> unat (handle_index s)" "unat (handle_index s) \<le> 2 ^ 24" using inv unfolding handle_inv_def by blast+
  have "slot s ! j \<noteq> None" if "j < slot_size s" for j
    using scan_covers [OF k(3,2) h None, of j] that k(3) seen by (cases "j = 0") auto
  then obtain new where new: "register_rehash ch (slot s) (replicate (slot_size s * 2) None) = Ok new"
      "length new = slot_size s * 2" "handle_inv ch (s\<lparr>slot := new\<rparr>)"
      "\<forall>c. Some c \<in> set new \<longleftrightarrow> Some c \<in> set (slot s)" "card {j. j < length new \<and> new ! j \<noteq> None} \<le> slot_size s"
    using register_doubles [OF inv _ room] by blast
  let ?s = "s\<lparr>slot := new\<rparr>"
  obtain k' where k': "k' \<le> 24" "slot_size ?s = 2 ^ k'" using new(3) by (rule handle_inv_size)
  have "(2::nat) ^ k' = 2 ^ Suc k" using k' new(2) k(3) by simp
  then have "k' = Suc k" by (rule power_inject_exp [THEN iffD1, rotated]) simp
  then have "register_scan (slot ?s) (slot_size ?s) (handle_index ?s) \<noteq> None"
    using scan_half_full [OF new(3) k'(2)] k'(1) k(1) new(2,5) by simp
  then obtain h i where scan: "register_scan (slot ?s) (slot_size ?s) (handle_index ?s) = Some (h, i)" by auto
  have grab: "skynet_handle_grab ch ?s = skynet_handle_grab ch s"
    by (rule grab_eqI) (simp add: grab_iff [OF new(3)] grab_iff [OF inv] new(4))
  have "skynet_handle_register ch ctx s =
      Ok (h OR harbor s, ?s\<lparr>slot := new[i := Some ctx], handle_index := h + 1\<rparr>)"
    using None new(1) room scan
    by (simp add: skynet_handle_register_def register_loop.simps [of ch ctx s] register_loop.simps [of ch ctx ?s])
  with register_stores [OF new(3) _ scan, of ctx] grab fresh new(2,4) show ?thesis by simp
qed

section \<open>The names as a sorted association list\<close>

definition name_cells :: "(string \<times> u32) option list \<Rightarrow> nat \<Rightarrow> (string \<times> u32) list \<Rightarrow> bool" where
  "name_cells arr n ns \<longleftrightarrow> n \<le> length arr \<and> take n arr = map Some ns"

definition names_of :: "handle_storage \<Rightarrow> (string \<times> u32) list" where
  "names_of s = map the (take (name_count s) (name s))"

definition names_inv :: "handle_storage \<Rightarrow> bool" where
  "names_inv s \<longleftrightarrow> length (name s) = name_cap s \<and> 0 < name_cap s \<and>
     name_cells (name s) (name_count s) (names_of s) \<and> sorted_wrt (<) (map fst (names_of s))"

lemma name_cells_length: "name_cells arr n ns \<Longrightarrow> length ns = n"
  unfolding name_cells_def by (metis length_map length_take min.absorb2)

lemma name_cells_iff:
  "name_cells arr n ns \<longleftrightarrow> n \<le> length arr \<and> length ns = n \<and> (\<forall>i < n. arr ! i = Some (ns ! i))"
proof
  assume c: "name_cells arr n ns"
  then have n: "n \<le> length arr" "length ns = n" using name_cells_length by (auto simp: name_cells_def)
  have "arr ! i = Some (ns ! i)" if "i < n" for i
  proof -
    have "take n arr ! i = map Some ns ! i" using c by (simp add: name_cells_def)
    then show ?thesis using that n by simp
  qed
  with n show "n \<le> length arr \<and> length ns = n \<and> (\<forall>i < n. arr ! i = Some (ns ! i))" by blast
next
  assume "n \<le> length arr \<and> length ns = n \<and> (\<forall>i < n. arr ! i = Some (ns ! i))"
  then show "name_cells arr n ns" unfolding name_cells_def by (auto intro: nth_equalityI)
qed

lemma names_ofI: "name_cells (name s) (name_count s) ns \<Longrightarrow> names_of s = ns"
  by (simp add: names_of_def name_cells_def o_def)

lemma strcmp_0 [simp]: "strcmp a b = 0 \<longleftrightarrow> a = b"
  by (induction a b rule: strcmp.induct) auto

lemma strcmp_less [simp]: "strcmp a b < 0 \<longleftrightarrow> a < b"
  by (induction a b rule: strcmp.induct) auto

lemma name_search_ok:
  assumes cells: "name_cells arr n ns" and sorted: "sorted_wrt (<) (map fst ns)"
    and "0 \<le> b" "e < int n" "b \<le> e + 1"
    and "\<And>i. i < n \<Longrightarrow> int i < b \<Longrightarrow> fst (ns ! i) < nm" "\<And>i. i < n \<Longrightarrow> e < int i \<Longrightarrow> nm < fst (ns ! i)"
  shows "(\<exists>i < n. fst (ns ! i) = nm \<and> name_search arr nm b e = Ok (Inl i)) \<or>
    (\<exists>p \<le> n. name_search arr nm b e = Ok (Inr p) \<and> (\<forall>i < p. fst (ns ! i) < nm) \<and> (\<forall>i < n. p \<le> i \<longrightarrow> nm < fst (ns ! i)))"
  using assms(3-)
proof (induction "nat (e + 1 - b)" arbitrary: b e rule: less_induct)
  case less
  show ?case
  proof (cases "b \<le> e")
    case False
    then have "nat b \<le> n" "b = e + 1" using less.prems by linarith+
    then show ?thesis using False less.prems by (auto simp: name_search.simps [of arr nm b e])
  next
    case True
    define m where "m = (b + e) div 2"
    have m: "0 \<le> m" "b \<le> m" "m \<le> e" "m < int (length arr)" "nat m < n"
      using True less.prems cells by (auto simp: m_def name_cells_def)
    then have cell: "arr ! nat m = Some (ns ! nat m)" using cells by (simp add: name_cells_iff)
    have ord: "fst (ns ! i) < fst (ns ! j)" if "i < j" "j < n" for i j
      using sorted that name_cells_length [OF cells] by (simp add: sorted_wrt_iff_nth_less)
    have step: "name_search arr nm b e = (if fst (ns ! nat m) = nm then Ok (Inl (nat m))
        else if fst (ns ! nat m) < nm then name_search arr nm (m + 1) e else name_search arr nm b (m - 1))"
      using True m cell unfolding name_search.simps [of arr nm b e] m_def [symmetric] by (auto simp: Let_def split_beta)
    consider "fst (ns ! nat m) = nm" | "fst (ns ! nat m) < nm" | "nm < fst (ns ! nat m)" by (rule linorder_cases)
    then show ?thesis
    proof cases
      case 1
      then show ?thesis using step m by auto
    next
      case 2
      have "fst (ns ! i) < nm" if "i < n" "int i < m + 1" for i
      proof (cases "i = nat m")
        case False
        then show ?thesis using ord [of i "nat m"] that m less_trans [OF _ 2] by force
      qed (simp add: 2)
      then have "(\<exists>i < n. fst (ns ! i) = nm \<and> name_search arr nm (m + 1) e = Ok (Inl i)) \<or>
        (\<exists>p \<le> n. name_search arr nm (m + 1) e = Ok (Inr p) \<and> (\<forall>i < p. fst (ns ! i) < nm) \<and> (\<forall>i < n. p \<le> i \<longrightarrow> nm < fst (ns ! i)))"
        using m less.prems by (intro less.hyps) auto
      then show ?thesis using step 2 less_imp_neq [OF 2] by simp
    next
      case 3
      have "nm < fst (ns ! i)" if "i < n" "m - 1 < int i" for i
      proof (cases "i = nat m")
        case False
        then show ?thesis using ord [of "nat m" i] that m less_trans [OF 3] by force
      qed (simp add: 3)
      then have "(\<exists>i < n. fst (ns ! i) = nm \<and> name_search arr nm b (m - 1) = Ok (Inl i)) \<or>
        (\<exists>p \<le> n. name_search arr nm b (m - 1) = Ok (Inr p) \<and> (\<forall>i < p. fst (ns ! i) < nm) \<and> (\<forall>i < n. p \<le> i \<longrightarrow> nm < fst (ns ! i)))"
        using m less.prems by (intro less.hyps) auto
      then show ?thesis using step 3 by (auto simp: not_less_iff_gr_or_eq)
    qed
  qed
qed

lemma shift_names_nth:
  assumes "i < length arr"
  shows "length (shift_names before i arr) = length arr \<and>
    shift_names before i arr ! m = (if before < m \<and> m \<le> i then arr ! (m - 1) else arr ! m)"
  using assms
proof (induction i arbitrary: arr)
  case (Suc i)
  then show ?case
    using Suc.IH [of "arr[Suc i := arr ! i]"] by (auto simp: nth_list_update less_Suc_eq_le le_Suc_eq)
qed simp

lemma retire_names_ok:
  assumes "length ns = n" "n \<le> length arr" "i \<le> n" "j \<le> i"
    and "\<forall>m. i \<le> m \<and> m < n \<longrightarrow> arr ! m = Some (ns ! m)"
    and "take j arr = map Some (filter (\<lambda>x. snd x \<noteq> h) (take i ns))" 
  shows "\<exists>j' arr'. retire_names h n i j arr = Ok (j', arr') \<and> length arr' = length arr \<and>
    name_cells arr' j' (filter (\<lambda>x. snd x \<noteq> h) ns)"
  using assms
proof (induction "n - i" arbitrary: i j arr)
  case 0
  then show ?case by (subst retire_names.simps) (auto simp: name_cells_def)
next
  case (Suc d)
  then have i: "i < n" by simp
  then have cell: "arr ! i = Some (ns ! i)" using Suc.prems by simp
  obtain x g where x: "ns ! i = (x, g)" by (cases "ns ! i")
  have next_take: "take (Suc i) ns = take i ns @ [(x, g)]" using i x Suc.prems(1) take_Suc_conv_app_nth by metis
  show ?case
  proof (cases "g = h")
    case True
    have "retire_names h n i j arr = retire_names h n (Suc i) j arr"
      using i cell x True Suc.prems by (subst retire_names.simps) simp
    moreover have "take j arr = map Some (filter (\<lambda>x. snd x \<noteq> h) (take (Suc i) ns))"
      using Suc.prems(6) next_take True by simp
    ultimately show ?thesis using Suc.hyps Suc.prems i by simp
  next
    case False
    let ?arr = "if i \<noteq> j then arr[j := arr ! i] else arr"
    have "retire_names h n i j arr = retire_names h n (Suc i) (Suc j) ?arr"
      using i cell x False Suc.prems by (subst retire_names.simps) simp
    moreover have "take (Suc j) ?arr = map Some (filter (\<lambda>x. snd x \<noteq> h) (take (Suc i) ns))"
    proof -
      have "j < length ?arr" "?arr ! j = Some (x, g)" "take j ?arr = take j arr"
        using cell x i Suc.prems(2,4) by auto
      then show ?thesis using Suc.prems(6) next_take False by (simp add: take_Suc_conv_app_nth del: take_Suc)
    qed
    moreover have "\<forall>m. Suc i \<le> m \<and> m < n \<longrightarrow> ?arr ! m = Some (ns ! m)" using Suc.prems by auto
    moreover have "length ?arr = length arr" by simp
    ultimately show ?thesis using Suc.hyps(1) [of "Suc i" ?arr "Suc j"] Suc.hyps(2) Suc.prems i by auto
  qed
qed

text \<open>The outcome of the search, for a sorted array of names.\<close>

lemma name_search_cases:
  assumes "names_inv s"
  obtains (found) i where "i < name_count s" "fst (names_of s ! i) = nm"
      "name_search (name s) nm 0 (int (name_count s) - 1) = Ok (Inl i)"
    | (absent) p where "p \<le> name_count s" "name_search (name s) nm 0 (int (name_count s) - 1) = Ok (Inr p)"
      "\<forall>x \<in> set (take p (names_of s)). fst x < nm" "\<forall>x \<in> set (drop p (names_of s)). nm < fst x"
proof -
  have inv: "name_cells (name s) (name_count s) (names_of s)" "sorted_wrt (<) (map fst (names_of s))"
    using assms by (simp_all add: names_inv_def)
  note len = name_cells_length [OF inv(1)]
  have "(\<exists>i < name_count s. fst (names_of s ! i) = nm \<and> name_search (name s) nm 0 (int (name_count s) - 1) = Ok (Inl i)) \<or>
    (\<exists>p \<le> name_count s. name_search (name s) nm 0 (int (name_count s) - 1) = Ok (Inr p) \<and>
       (\<forall>i < p. fst (names_of s ! i) < nm) \<and> (\<forall>i < name_count s. p \<le> i \<longrightarrow> nm < fst (names_of s ! i)))"
    by (rule name_search_ok [OF inv]) auto
  then show thesis
  proof (elim disjE exE conjE)
    fix i assume "i < name_count s" "fst (names_of s ! i) = nm"
      "name_search (name s) nm 0 (int (name_count s) - 1) = Ok (Inl i)"
    then show thesis by (rule found)
  next
    fix p assume p: "p \<le> name_count s" "name_search (name s) nm 0 (int (name_count s) - 1) = Ok (Inr p)"
      "\<forall>i < p. fst (names_of s ! i) < nm" "\<forall>i < name_count s. p \<le> i \<longrightarrow> nm < fst (names_of s ! i)"
    have "\<forall>x \<in> set (take p (names_of s)). fst x < nm"
      using p(1,3) len by (fastforce simp: in_set_conv_nth)
    moreover have "\<forall>x \<in> set (drop p (names_of s)). nm < fst x"
    proof
      fix x assume "x \<in> set (drop p (names_of s))"
      then obtain i where "i < length (names_of s) - p" "x = names_of s ! (p + i)"
        by (auto simp: in_set_conv_nth)
      then show "nm < fst x" using p(4) len by simp
    qed
    ultimately show thesis by (rule absent [OF p(1,2)])
  qed
qed

lemma distinct_names: "names_inv s \<Longrightarrow> distinct (map fst (names_of s))"
  by (simp add: names_inv_def strict_sorted_iff)

lemma insert_name_before_ok:
  assumes inv: "names_inv s" and p: "p \<le> name_count s"
    and room: "name_count s < name_cap s \<or> name_cap s * 2 \<le> MAX_SLOT_SIZE"
    and less: "\<forall>x \<in> set (take p (names_of s)). fst x < nm" "\<forall>x \<in> set (drop p (names_of s)). nm < fst x"
  shows "\<exists>s'. insert_name_before s nm h p = Ok s' \<and> names_inv s' \<and> slot s' = slot s \<and>
    handle_index s' = handle_index s \<and> harbor s' = harbor s \<and>
    names_of s' = take p (names_of s) @ (nm, h) # drop p (names_of s)"
proof -
  let ?ns = "names_of s" and ?n = "name_count s"
  let ?ns' = "take p ?ns @ (nm, h) # drop p ?ns"
  have cells: "name_cells (name s) ?n ?ns" and cap: "length (name s) = name_cap s" "0 < name_cap s"
    and sorted: "sorted_wrt (<) (map fst ?ns)"
    using inv by (simp_all add: names_inv_def)
  note cell = cells [unfolded name_cells_iff]
  have sorted': "sorted_wrt (<) (map fst ?ns')"
  proof -
    have "sorted_wrt (<) (map fst (take p ?ns) @ map fst (drop p ?ns))"
      using sorted unfolding map_append [symmetric] append_take_drop_id .
    then show ?thesis using less by (auto simp: sorted_wrt_append)
  qed
  have nth': "?ns' ! i = (if i < p then ?ns ! i else if i = p then (nm, h) else ?ns ! (i - 1))" if "i < Suc ?n" for i
    using p cell by (auto simp: nth_append nth_Cons')
  have len': "length ?ns' = Suc ?n" using p cell by simp
  obtain s1 where s1: "insert_name_before s nm h p =
        Ok (s1\<lparr>name := (name s1)[p := Some (nm, h)], name_count := Suc ?n\<rparr>)"
      and cap1: "length (name s1) = name_cap s1" "?n < name_cap s1"
      and rest: "slot s1 = slot s" "handle_index s1 = handle_index s" "harbor s1 = harbor s"
      and moved: "\<And>i. i < p \<Longrightarrow> name s1 ! i = name s ! i" "\<And>i. p < i \<Longrightarrow> i \<le> ?n \<Longrightarrow> name s1 ! i = name s ! (i - 1)"
  proof (cases "name_cap s \<le> ?n")
    case True
    let ?s1 = "s\<lparr>name_cap := name_cap s * 2, name := take p (name s) @ [None] @ take (?n - p) (drop p (name s)) @
                  replicate (name_cap s * 2 - Suc ?n) None\<rparr>"
    have n: "?n = name_cap s" using True cell cap by simp
    show thesis
      by (rule that [of ?s1])
        (use True room n cap p in \<open>auto simp: insert_name_before_def nth_append nth_Cons'\<close>)
  next
    case False
    have n: "?n < length (name s)" using False cap by simp
    show thesis
      by (rule that [of "s\<lparr>name := shift_names p ?n (name s)\<rparr>"])
        (use False cap shift_names_nth [OF n] in \<open>auto simp: insert_name_before_def\<close>)
  qed
  have "name_cells ((name s1)[p := Some (nm, h)]) (Suc ?n) ?ns'"
    unfolding name_cells_iff using cap1 len' nth' moved cell p
    by (auto simp: nth_list_update less_Suc_eq_le)
  then show ?thesis using s1 cap1 rest sorted' names_ofI [of "s1\<lparr>name := (name s1)[p := Some (nm, h)], name_count := Suc ?n\<rparr>" ?ns']
    by (simp add: names_inv_def)
qed

lemma not_between:
  fixes nm :: string
  assumes "\<forall>x \<in> set (take p ns). fst x < nm" "\<forall>x \<in> set (drop p ns). nm < fst x"
  shows "nm \<notin> fst ` set ns"
proof
  assume "nm \<in> fst ` set ns"
  then obtain x where x: "x \<in> set ns" "nm = fst x" by blast
  have "set ns = set (take p ns) \<union> set (drop p ns)" by (metis append_take_drop_id set_append)
  then show False using x assms by force
qed

lemma findname_ok:
  assumes "names_inv s"
  shows "skynet_handle_findname s nm = Ok (case map_of (names_of s) nm of None \<Rightarrow> 0 | Some h \<Rightarrow> h)"
  using assms
proof (cases rule: name_search_cases [of s nm])
  case (found i)
  have c: "name_cells (name s) (name_count s) (names_of s)" using assms by (simp add: names_inv_def)
  then have "name s ! i = Some (names_of s ! i)" "i < length (names_of s)"
    using found(1) by (simp_all add: name_cells_iff)
  moreover have "map_of (names_of s) nm = Some (snd (names_of s ! i))"
    using distinct_names [OF assms] found(2) calculation(2)
    by (intro map_of_is_SomeI) (auto simp: in_set_conv_nth prod_eq_iff)
  ultimately show ?thesis using found(3) by (simp add: skynet_handle_findname_def)
next
  case (absent p)
  have "nm \<notin> fst ` set (names_of s)" using not_between [OF absent(3,4)] .
  then have "map_of (names_of s) nm = None" by (simp add: map_of_eq_None_iff)
  then show ?thesis using absent(2) by (simp add: skynet_handle_findname_def)
qed

lemma map_of_inserted:
  fixes nm :: string
  assumes "\<forall>x \<in> set (take p ns). fst x < nm"
  shows "map_of (take p ns @ (nm, h) # drop p ns) = (map_of ns)(nm \<mapsto> (h :: u32))"
proof
  fix k
  have "nm \<notin> fst ` set (take p ns)" using assms by (metis imageE less_irrefl)
  then have "map_of (take p ns) nm = None" by (simp add: map_of_eq_None_iff)
  moreover have "map_of ns k = (map_of (drop p ns) ++ map_of (take p ns)) k"
    by (metis append_take_drop_id map_of_append)
  ultimately show "map_of (take p ns @ (nm, h) # drop p ns) k = ((map_of ns)(nm \<mapsto> h)) k"
    by (auto simp: map_add_def split: option.splits)
qed

lemma namehandle_ok:
  assumes inv: "names_inv s" and room: "name_count s < name_cap s \<or> name_cap s * 2 \<le> MAX_SLOT_SIZE"
  shows "\<exists>s'. skynet_handle_namehandle h nm s =
      Ok (if nm \<in> fst ` set (names_of s) then None else Some nm, s') \<and> names_inv s' \<and> slot s' = slot s \<and>
      handle_index s' = handle_index s \<and> harbor s' = harbor s \<and>
      map_of (names_of s') = (if nm \<in> fst ` set (names_of s) then map_of (names_of s) else (map_of (names_of s))(nm \<mapsto> h))"
  using inv
proof (cases rule: name_search_cases [of s nm])
  case (found i)
  have "length (names_of s) = name_count s" using inv name_cells_length by (auto simp: names_inv_def)
  then have "nm \<in> fst ` set (names_of s)" using found by (metis image_eqI nth_mem)
  then show ?thesis using found(3) inv by (simp add: skynet_handle_namehandle_def insert_name_def)
next
  case (absent p)
  have "nm \<notin> fst ` set (names_of s)" using not_between [OF absent(3,4)] .
  moreover obtain s' where "insert_name_before s nm h p = Ok s'" "names_inv s'" "slot s' = slot s"
      "handle_index s' = handle_index s" "harbor s' = harbor s"
      "names_of s' = take p (names_of s) @ (nm, h) # drop p (names_of s)"
    using insert_name_before_ok [OF inv absent(1) room absent(3,4), of h] by blast
  ultimately show ?thesis
    using absent(2) map_of_inserted [OF absent(3), of h] by (simp add: skynet_handle_namehandle_def insert_name_def)
qed

section \<open>Retirement\<close>

lemma retire_ok:
  assumes inv: "handle_inv ch s" and names: "names_inv s"
  shows "\<exists>s'. skynet_handle_retire ch h s = Ok (skynet_handle_grab ch s h, s') \<and> handle_inv ch s' \<and> names_inv s' \<and>
    slot_size s' = slot_size s \<and> skynet_handle_grab ch s' = (skynet_handle_grab ch s)(h := None) \<and>
    names_of s' = (if skynet_handle_grab ch s h = None then names_of s else filter (\<lambda>x. snd x \<noteq> h) (names_of s))"
proof (cases "skynet_handle_grab ch s h")
  case None
  then have "(skynet_handle_grab ch s)(h := None) = skynet_handle_grab ch s" by auto
  then show ?thesis using None inv names
    by (auto simp: skynet_handle_retire_def skynet_handle_grab_def Let_def split: option.splits if_splits)
next
  case (Some c)
  let ?i = "hash_slot (slot_size s) h" and ?ns = "names_of s"
  obtain k where k: "k \<le> 24" "slot_size s = 2 ^ k" using inv by (rule handle_inv_size)
  have i: "?i < slot_size s" using hash_slot_less [of k h] k by simp
  have c: "slot s ! ?i = Some c" "ch c = h"
    using Some by (auto simp: skynet_handle_grab_def split: option.splits if_splits)
  have cells: "name_cells (name s) (name_count s) ?ns" using names by (simp add: names_inv_def)
  obtain j arr where ret: "retire_names h (name_count s) 0 0 (name s) = Ok (j, arr)" "length arr = length (name s)"
      "name_cells arr j (filter (\<lambda>x. snd x \<noteq> h) ?ns)"
    using retire_names_ok [of ?ns "name_count s" "name s" 0 0 h] cells by (auto simp: name_cells_iff)
  let ?s' = "s\<lparr>slot := (slot s)[?i := None], name := arr, name_count := j\<rparr>"
  have run: "skynet_handle_retire ch h s = Ok (Some c, ?s')"
    using c ret(1) by (simp add: skynet_handle_retire_def Let_def)
  have names': "names_of ?s' = filter (\<lambda>x. snd x \<noteq> h) ?ns" using ret(3) by (intro names_ofI) simp
  have "slot s ! m = Some d" if "m < slot_size s" "(slot s)[?i := None] ! m = Some d" for m d
    using that by (cases "m = ?i") simp_all
  then have inv': "handle_inv ch ?s'" using inv unfolding handle_inv_def by auto
  have "sorted_wrt (<) (map fst (filter (\<lambda>x. snd x \<noteq> h) ?ns))"
    using names by (simp add: names_inv_def sorted_wrt_map sorted_wrt_filter)
  then have "names_inv ?s'" using names names' ret(2,3) by (simp add: names_inv_def)
  moreover have "skynet_handle_grab ch ?s' = (skynet_handle_grab ch s)(h := None)"
  proof (rule grab_eqI)
    fix g d
    have "Some d \<in> set ((slot s)[?i := None]) \<longleftrightarrow> (\<exists>m < slot_size s. m \<noteq> ?i \<and> slot s ! m = Some d)"
      unfolding in_set_conv_nth length_list_update using i by (metis nth_list_update_eq nth_list_update_neq option.distinct(1))
    also have "\<dots> \<longleftrightarrow> Some d \<in> set (slot s) \<and> ch d \<noteq> h"
    proof
      assume "\<exists>m < slot_size s. m \<noteq> ?i \<and> slot s ! m = Some d"
      then show "Some d \<in> set (slot s) \<and> ch d \<noteq> h" using handle_invD [OF inv] by (metis nth_mem)
    next
      assume "Some d \<in> set (slot s) \<and> ch d \<noteq> h"
      then show "\<exists>m < slot_size s. m \<noteq> ?i \<and> slot s ! m = Some d" using c by (metis in_set_conv_nth option.sel)
    qed
    finally show "skynet_handle_grab ch ?s' g = Some d \<longleftrightarrow> ((skynet_handle_grab ch s)(h := None)) g = Some d"
      by (auto simp: grab_iff [OF inv'] grab_iff [OF inv])
  qed
  ultimately show ?thesis using run inv' names' Some by simp
qed

lemma retire_slot:
  assumes inv: "handle_inv ch s" and names: "names_inv s" and i: "i < slot_size s" "slot s ! i = Some c"
  shows "\<exists>s'. skynet_handle_retire ch (ch c) s = Ok (Some c, s') \<and> handle_inv ch s' \<and> names_inv s' \<and>
    slot s' = (slot s)[i := None] \<and> ch c \<noteq> 0"
proof -
  have hash: "hash_slot (slot_size s) (ch c) = i" and "ch c \<noteq> 0" using handle_invD [OF inv i] by auto
  moreover have "skynet_handle_grab ch s (ch c) = Some c" using hash i by (simp add: skynet_handle_grab_def)
  moreover from this retire_ok [OF inv names, of "ch c"] obtain s' where
    "skynet_handle_retire ch (ch c) s = Ok (Some c, s')" "handle_inv ch s'" "names_inv s'" by auto
  moreover from this(1) hash i have "slot s' = (slot s)[i := None]" by (auto simp: skynet_handle_retire_def Let_def)
  ultimately show ?thesis by blast
qed

lemma retireall_pass_ok:
  assumes "handle_inv ch s" "names_inv s" "set is \<subseteq> {..<slot_size s}"
  shows "\<exists>cs s'. retireall_pass ch is s = Ok (cs, s') \<and> handle_inv ch s' \<and> names_inv s' \<and> slot_size s' = slot_size s \<and>
    (\<forall>i < slot_size s. slot s' ! i = (if i \<in> set is then None else slot s ! i)) \<and>
    set cs = {c. \<exists>i \<in> set is. slot s ! i = Some c}"
  using assms
proof (induction "is" arbitrary: s)
  case (Cons i "is")
  show ?case
  proof (cases "slot s ! i")
    case None
    then show ?thesis using Cons.IH [OF Cons.prems(1,2)] Cons.prems(3) by (auto simp: Let_def)
  next
    case (Some c)
    have i: "i < slot_size s" using Cons.prems(3) by simp
    obtain s1 where s1: "skynet_handle_retire ch (ch c) s = Ok (Some c, s1)" "handle_inv ch s1" "names_inv s1"
        "slot s1 = (slot s)[i := None]" "ch c \<noteq> 0"
      using retire_slot [OF Cons.prems(1,2) i Some] by blast
    obtain cs s' where "retireall_pass ch is s1 = Ok (cs, s')" and rest: "handle_inv ch s'" "names_inv s'" "slot_size s' = slot_size s"
        "\<forall>m < slot_size s. slot s' ! m = (if m \<in> set is then None else slot s1 ! m)"
        "set cs = {d. \<exists>m \<in> set is. slot s1 ! m = Some d}"
      using Cons.IH [OF s1(2,3)] Cons.prems(3) s1(4) by auto
    then have "retireall_pass ch (i # is) s = Ok (c # cs, s')" using s1 Some by (simp add: Let_def)
    moreover have "set (c # cs) = {d. \<exists>m \<in> set (i # is). slot s ! m = Some d}"
    proof -
      have "slot s1 ! m = Some d \<longleftrightarrow> m \<noteq> i \<and> slot s ! m = Some d" for m d
        using i by (cases "m = i") (simp_all add: s1(4))
      then have "(\<exists>m \<in> set (i # is). slot s ! m = Some d) \<longleftrightarrow> d = c \<or> (\<exists>m \<in> set is. slot s1 ! m = Some d)" for d
        using Some by (cases "d = c") (simp, metis Some list.set_intros(2) option.inject set_ConsD)
      then show ?thesis using rest(5) by auto
    qed
    moreover have "\<forall>m < slot_size s. slot s' ! m = (if m \<in> set (i # is) then None else slot s ! m)"
      using rest(4) s1(4) i by (auto simp: nth_list_update)
    ultimately show ?thesis using rest by blast
  qed
qed simp

lemma retireall_ok:
  assumes "handle_inv ch s" "names_inv s"
  shows "\<exists>cs s'. skynet_handle_retireall ch s = Ok (cs, s') \<and> handle_inv ch s' \<and> names_inv s' \<and>
    set (slot s') = {None} \<and> set cs = {c. Some c \<in> set (slot s)}"
proof -
  obtain cs s1 where s1: "retireall_pass ch [0..<slot_size s] s = Ok (cs, s1)" "handle_inv ch s1" "names_inv s1"
      "slot_size s1 = slot_size s" "\<forall>i < slot_size s. slot s1 ! i = None" "set cs = {c. \<exists>i \<in> {..<slot_size s}. slot s ! i = Some c}"
    using retireall_pass_ok [OF assms, of "[0..<slot_size s]"] by (auto simp: lessThan_atLeast0)
  have pass: "retireall_pass ch [0..<slot_size s1] s1 = Ok ([], s1)"
  proof -
    have "retireall_pass ch is s1 = Ok ([], s1)" if "set is \<subseteq> {..<slot_size s1}" for "is"
      using that s1(4,5) by (induction "is") (simp_all add: Let_def)
    then show ?thesis by (simp add: lessThan_atLeast0)
  qed
  have "retireall_loop ch s = Some (Ok (cs, s1))"
  proof (cases "cs = []")
    case True
    then show ?thesis using s1(1) by (subst retireall_loop.simps) simp
  next
    case False
    have "retireall_loop ch s1 = Some (Ok ([], s1))" using pass by (subst retireall_loop.simps) simp
    then show ?thesis using False s1(1) by (subst retireall_loop.simps) simp
  qed
  moreover have "set (slot s1) = {None}"
  proof -
    obtain k where "slot_size s1 = 2 ^ k" using s1(2) by (rule handle_inv_size)
    then have "slot s1 = replicate (2 ^ k) None" using s1(4,5) by (intro nth_equalityI) simp_all
    then show ?thesis by simp
  qed
  moreover have "set cs = {c. Some c \<in> set (slot s)}" using s1(6) by (auto simp: in_set_conv_nth) 
  ultimately show ?thesis using s1 by (simp add: skynet_handle_retireall_def)
qed

section \<open>Properties\<close>

lemma init_inv: "handle_inv ch (skynet_handle_init n)" "names_inv (skynet_handle_init n)"
proof -
  have "take_bit 24 (push_bit 24 (n AND 0xff)) = (0 :: u32)" by (simp add: take_bit_push_bit)
  moreover have "\<exists>k. 2 \<le> k \<and> k \<le> 24 \<and> (4::nat) = 2 ^ k" by (rule exI [of _ 2]) simp
  ultimately show "handle_inv ch (skynet_handle_init n)"
    by (simp add: handle_inv_def skynet_handle_init_def DEFAULT_SLOT_SIZE_def HANDLE_REMOTE_SHIFT_def
        HANDLE_MASK_mask take_bit_eq_mask [symmetric])
  show "names_inv (skynet_handle_init n)"
    by (simp add: names_inv_def skynet_handle_init_def names_of_def name_cells_def)
qed

text \<open>C19: \<open>skynet_handle_register\<close> returns, after at most one doubling of the table, with a handle
  that no live context has; afterwards \<open>skynet_handle_grab\<close> finds the new context under that handle and
  every other context under its own, and the table is well formed. It needs room to double, and a scan
  that either does not wrap around at the end of the handle space or finds slot 0 taken.\<close>

theorem handle_register_correct:
  assumes "handle_inv ch s" and "Some ctx \<notin> set (slot s)"
    and "slot_size s * 2 - 1 \<le> unat HANDLE_MASK"
    and "slot s ! 0 \<noteq> None \<or> unat (handle_index s) + slot_size s \<le> 2 ^ 24"
  shows "\<exists>h s'. skynet_handle_register ch ctx s = Ok (h, s') \<and> handle_inv (ch(ctx := h)) s' \<and>
    skynet_handle_grab ch s h = None \<and> skynet_handle_grab (ch(ctx := h)) s' = (skynet_handle_grab ch s)(h \<mapsto> ctx) \<and>
    slot_size s' \<le> 2 * slot_size s"
  using register_ok [OF assms] by blast

theorem handle_register_correct_witness:
  "\<exists>h s'. skynet_handle_register (\<lambda>_. 0) 7 (skynet_handle_init 1) = Ok (h, s') \<and>
    skynet_handle_grab ((\<lambda>_. 0)(7 := h)) s' h = Some 7"
proof -
  have "Some 7 \<notin> set (slot (skynet_handle_init 1))"
    "slot_size (skynet_handle_init 1) * 2 - 1 \<le> unat HANDLE_MASK"
    "slot (skynet_handle_init 1) ! 0 \<noteq> None \<or>
       unat (handle_index (skynet_handle_init 1)) + slot_size (skynet_handle_init 1) \<le> 2 ^ 24"
    by (simp_all add: skynet_handle_init_def DEFAULT_SLOT_SIZE_def HANDLE_MASK_def)
  from handle_register_correct [OF init_inv(1) this, of "\<lambda>_. 0"] show ?thesis by fastforce
qed

text \<open>C20: \<open>skynet_handle_retire\<close> takes the context out of the table exactly when the handle is live, and
  then removes all the names of that handle and only those; a stale handle, even one whose slot another
  context now uses, changes nothing.\<close>

theorem handle_retire_correct:
  assumes "handle_inv ch s" and "names_inv s"
  shows "\<exists>s'. skynet_handle_retire ch h s = Ok (skynet_handle_grab ch s h, s') \<and> handle_inv ch s' \<and> names_inv s' \<and>
    skynet_handle_grab ch s' = (skynet_handle_grab ch s)(h := None) \<and>
    names_of s' = (if skynet_handle_grab ch s h = None then names_of s else filter (\<lambda>x. snd x \<noteq> h) (names_of s))"
  using retire_ok [OF assms] by blast

theorem handle_retire_correct_witness:
  "\<exists>s'. skynet_handle_retire (\<lambda>_. 0) 5 (skynet_handle_init 1) = Ok (None, s') \<and> names_of s' = []"
proof -
  have "skynet_handle_grab (\<lambda>_. 0) (skynet_handle_init 1) 5 = None" "names_of (skynet_handle_init 1) = []"
    by (simp_all add: skynet_handle_grab_def skynet_handle_init_def DEFAULT_SLOT_SIZE_def hash_slot_def names_of_def)
  then show ?thesis using handle_retire_correct [OF init_inv, of "\<lambda>_. 0" 5 1] by auto
qed

text \<open>C21: naming and finding. \<open>skynet_handle_namehandle\<close> refuses a name that is taken and otherwise adds
  it, keeping the array sorted across its growth; \<open>skynet_handle_findname\<close>, a binary search, then
  returns the handle of the name, 0 for a name that is not there.\<close>

theorem handle_names_correct:
  assumes "names_inv s" and "name_count s < name_cap s \<or> name_cap s * 2 \<le> MAX_SLOT_SIZE"
  shows "\<exists>r s'. skynet_handle_namehandle h nm s = Ok (r, s') \<and> names_inv s' \<and>
    (r = None \<longleftrightarrow> map_of (names_of s) nm \<noteq> None) \<and>
    (\<forall>k. skynet_handle_findname s' k =
       (if k = nm \<and> r \<noteq> None then Ok h else skynet_handle_findname s k))"
proof -
  obtain s' where s': "skynet_handle_namehandle h nm s = Ok (if nm \<in> fst ` set (names_of s) then None else Some nm, s')"
      "names_inv s'" "map_of (names_of s') = (if nm \<in> fst ` set (names_of s) then map_of (names_of s) else (map_of (names_of s))(nm \<mapsto> h))"
    using namehandle_ok [OF assms, of h nm] by blast
  have "nm \<in> fst ` set (names_of s) \<longleftrightarrow> map_of (names_of s) nm \<noteq> None" by (simp add: map_of_eq_None_iff)
  with s' show ?thesis by (auto simp: findname_ok [OF assms(1)] findname_ok [OF s'(2)])
qed

theorem handle_names_correct_witness:
  "\<exists>s'. skynet_handle_namehandle 5 ''gate'' (skynet_handle_init 1) = Ok (Some ''gate'', s') \<and>
    skynet_handle_findname s' ''gate'' = Ok 5"
proof -
  have room: "name_count (skynet_handle_init 1) < name_cap (skynet_handle_init 1) \<or>
      name_cap (skynet_handle_init 1) * 2 \<le> MAX_SLOT_SIZE" by (simp add: skynet_handle_init_def)
  obtain r s' where "skynet_handle_namehandle 5 ''gate'' (skynet_handle_init 1) = Ok (r, s')"
      "r = None \<longleftrightarrow> map_of (names_of (skynet_handle_init 1)) ''gate'' \<noteq> None"
      "\<forall>k. skynet_handle_findname s' k =
        (if k = ''gate'' \<and> r \<noteq> None then Ok 5 else skynet_handle_findname (skynet_handle_init 1) k)"
    using handle_names_correct [OF init_inv(2) room] by metis
  moreover have "r = None \<or> r = Some ''gate''"
    using calculation(1) by (auto simp: skynet_handle_namehandle_def insert_name_def) (auto split: sum.splits)
  ultimately show ?thesis by (auto simp: names_of_def skynet_handle_init_def)
qed

text \<open>C22: \<open>skynet_handle_retireall\<close> ends, with an empty table, and has retired exactly the contexts that
  were live.\<close>

theorem handle_retireall_terminates:
  assumes "handle_inv ch s" and "names_inv s"
  shows "\<exists>cs s'. skynet_handle_retireall ch s = Ok (cs, s') \<and> set (slot s') = {None} \<and>
    set cs = {c. Some c \<in> set (slot s)}"
  using retireall_ok [OF assms] by blast

theorem handle_retireall_terminates_witness:
  "\<exists>cs s'. skynet_handle_retireall (\<lambda>_. 0) (skynet_handle_init 1) = Ok (cs, s') \<and> set cs = {}"
  using handle_retireall_terminates [OF init_inv, of "\<lambda>_. 0" 1]
  by (auto simp: skynet_handle_init_def DEFAULT_SLOT_SIZE_def)

definition wrap_storage :: handle_storage where
  "wrap_storage = (skynet_handle_init 1)\<lparr>slot := [None, Some 1, Some 2, Some 3], handle_index := HANDLE_MASK\<rparr>"

definition wrap_handles :: "cptr \<Rightarrow> u32" where
  "wrap_handles c = 0x01000000 OR of_nat c"

text \<open>The wrap-around is a defect. When the scan passes the end of the handle space it skips handle
  0, so it can miss that slot 0 is free; the doubling of the table then reads the handle of the context
  in slot 0 through a NULL pointer.\<close>

lemma handle_register_wrap_crash:
  "handle_inv wrap_handles wrap_storage \<and> slot wrap_storage ! 0 = None \<and>
   skynet_handle_register wrap_handles 9 wrap_storage = Err Null_deref"
proof (intro conjI)
  have "hash_slot 4 (wrap_handles c) = i \<and> wrap_handles c AND HANDLE_MASK \<noteq> 0"
    if "i < 4" "slot wrap_storage ! i = Some c" for i c
  proof -
    have "i = 0 \<or> i = 1 \<or> i = 2 \<or> i = 3" using that(1) by linarith
    then show ?thesis using that(2)
      by (elim disjE) (auto simp: wrap_storage_def wrap_handles_def hash_slot_def HANDLE_MASK_def)
  qed
  moreover have "slot_size wrap_storage = 4" by (simp add: wrap_storage_def)
  moreover have "handle_inv wrap_handles (skynet_handle_init 1)" by (rule init_inv)
  moreover have "\<exists>k. 2 \<le> k \<and> k \<le> 24 \<and> (4::nat) = 2 ^ k" by (rule exI [of _ 2]) simp
  moreover have "handle_index wrap_storage = HANDLE_MASK" "harbor wrap_storage = harbor (skynet_handle_init 1)"
    by (simp_all add: wrap_storage_def)
  moreover have "1 \<le> unat HANDLE_MASK" "unat HANDLE_MASK \<le> 2 ^ 24" by (simp_all add: HANDLE_MASK_def)
  ultimately show "handle_inv wrap_handles wrap_storage"
    unfolding handle_inv_def by metis
  show "slot wrap_storage ! 0 = None" by (simp add: wrap_storage_def)
  have sl: "slot wrap_storage = [None, Some 1, Some 2, Some 3]" "handle_index wrap_storage = HANDLE_MASK"
    by (simp_all add: wrap_storage_def)
  have eval: "register_scan [None, Some 1, Some 2, Some 3] 4 HANDLE_MASK = None"
      "length [None, Some 1, Some 2, Some (3::nat)] = 4"
    by code_simp+
  show "skynet_handle_register wrap_handles 9 wrap_storage = Err Null_deref"
    by (rule register_step(3)) (simp_all only: sl eval register_rehash.simps, simp add: HANDLE_MASK_def)
qed

definition four_registered :: handle_storage where
  "four_registered = (skynet_handle_init 0)\<lparr>slot := [Some 4, Some 1, Some 2, Some 3], handle_index := 5\<rparr>"

definition pending_handle :: "cptr \<Rightarrow> u32" where
  "pending_handle c = (if c = 4 then 0 else of_nat c)"

text \<open>\<open>skynet_context_new\<close> stores the handle in the context only after \<open>skynet_handle_register\<close> has
  released the lock. Here context 4 got handle 4, its field still holds the 0 it is initialised with,
  and another thread registers a fifth context: the doubling files context 4 under handle 0, and once its
  field is set \<open>skynet_handle_grab\<close> does not find it any more.\<close>

lemma handle_register_race:
  "skynet_handle_grab of_nat four_registered 4 = Some 4 \<and>
   (\<exists>s'. skynet_handle_register pending_handle 5 four_registered = Ok (5, s') \<and>
     skynet_handle_grab of_nat s' 5 = Some 5 \<and> skynet_handle_grab of_nat s' 4 = None)"
proof (intro conjI)
  let ?old = "[Some 4, Some 1, Some 2, Some 3]" and ?new = "[Some 4, Some 1, Some 2, Some 3, None, None, None, None]"
  show "skynet_handle_grab of_nat four_registered 4 = Some 4"
    by (simp add: skynet_handle_grab_def four_registered_def hash_slot_def)
  have sl: "slot four_registered = ?old" "handle_index four_registered = 5" "harbor four_registered = 0"
    by (simp_all add: four_registered_def skynet_handle_init_def)
  have len: "length ?old = 4" and mul: "4 * 2 = (8::nat)" by simp_all
  have eval: "register_scan ?old 4 5 = None" "register_scan ?new 8 5 = Some (5, 5)"
    "register_rehash pending_handle ?old (replicate 8 None) = Ok ?new"
    by code_simp+
  have "skynet_handle_register pending_handle 5 four_registered =
      skynet_handle_register pending_handle 5 (four_registered\<lparr>slot := ?new\<rparr>)"
    by (rule register_step(2)) (simp_all only: sl len mul eval, simp add: HANDLE_MASK_def)
  also have "\<dots> = Ok (5 OR 0, four_registered\<lparr>slot := ?new[5 := Some 5], handle_index := 5 + 1\<rparr>)"
  proof -
    define new :: "cptr option list" where "new = ?new"
    have "length new = 8" "register_scan new 8 5 = Some (5, 5)" unfolding new_def by (simp, rule eval(2))
    then have "register_scan (slot (four_registered\<lparr>slot := new\<rparr>)) (slot_size (four_registered\<lparr>slot := new\<rparr>))
        (handle_index (four_registered\<lparr>slot := new\<rparr>)) = Some (5, 5)"
      using sl(2) by simp
    from register_step(1) [OF this, of pending_handle 5] sl(3) show ?thesis unfolding new_def by simp
  qed
  finally have "skynet_handle_register pending_handle 5 four_registered =
      Ok (5, four_registered\<lparr>slot := ?new[5 := Some 5], handle_index := 6\<rparr>)" by simp
  then show "\<exists>s'. skynet_handle_register pending_handle 5 four_registered = Ok (5, s') \<and>
     skynet_handle_grab of_nat s' 5 = Some 5 \<and> skynet_handle_grab of_nat s' 4 = None"
    by (simp add: skynet_handle_grab_def hash_slot_def)
qed

end
