(* ===== verification/Skynet_Harbor.thy ===== *)
theory Skynet_Harbor
  imports Skynet_Gate Skynet_Handle
begin

text \<open>
  The harbor service, \<open>service-src/service_harbor.c\<close>, which carries messages between the nodes of a
  skynet network: a table of the other nodes (slaves) with their sockets and the state of their byte
  streams, a hash table of global names, and rings of messages that wait for a connection or for a name.
  As in the gate, calls that leave the service are returned as events. \<open>skynet_send\<close> fails when its
  destination is no service of this node; the parameter \<open>unknown\<close> tells which handles are not.

  The lemmas show that the rings are FIFO queues, that the receiver of a connection cuts the stream into
  messages whatever pieces it arrives in, and that what one harbor sends another delivers.
\<close>

section \<open>Data\<close>

type_synonym harbor_out = gate_out

definition HASH_SIZE :: nat where "HASH_SIZE = 4096"
definition HARBOR_QUEUE_SIZE :: nat where "HARBOR_QUEUE_SIZE = 1024"
definition HEADER_COOKIE_LENGTH :: nat where "HEADER_COOKIE_LENGTH = 12"
definition GLOBALNAME_LENGTH :: nat where "GLOBALNAME_LENGTH = 16"
definition REMOTE_MAX :: nat where "REMOTE_MAX = 256"

definition PTYPE_SYSTEM :: int where "PTYPE_SYSTEM = 4"
definition PTYPE_HARBOR :: int where "PTYPE_HARBOR = 5"
definition PTYPE_ERROR :: int where "PTYPE_ERROR = 7"

record remote_message_header =
  rh_source :: u32
  rh_destination :: u32
  rh_session :: u32

record harbor_msg =
  hm_header :: remote_message_header
  hm_buffer :: "byte list"

record harbor_msg_queue =
  hq_size :: nat
  hq_head :: nat
  hq_tail :: nat
  hq_data :: "harbor_msg option list"

record keyvalue =
  kv_key :: "byte list"
  kv_hash :: u32
  kv_value :: u32
  kv_queue :: "harbor_msg_queue option"

type_synonym hashmap = "nat \<Rightarrow> keyvalue list"

datatype slave_status = STATUS_WAIT | STATUS_HANDSHAKE | STATUS_HEADER | STATUS_CONTENT | STATUS_DOWN

text \<open>\<open>sl_recv\<close> has the bytes written so far to the receive buffer, a block of \<open>sl_length\<close> bytes.\<close>

record slave =
  sl_fd :: int
  sl_queue :: "harbor_msg_queue option"
  sl_status :: slave_status
  sl_length :: nat
  sl_read :: nat
  sl_size :: "byte list"
  sl_recv :: "byte list"

record harbor =
  hb_id :: int
  hb_slave :: u32
  hb_map :: hashmap
  hb_s :: "slave list"

record remote_message =
  rm_name :: "byte list"
  rm_handle :: u32
  rm_message :: "byte list"
  rm_type :: int

section \<open>Message queues\<close>

text \<open>\<open>push_queue_msg\<close>: one cell stays free, a full ring is copied to the front of one twice as large.\<close>

definition expand_harbor_queue :: "harbor_msg_queue \<Rightarrow> harbor_msg_queue" where
  "expand_harbor_queue q =
     q\<lparr>hq_data := map (\<lambda>i. hq_data q ! ((i + hq_head q) mod hq_size q)) [0..<hq_size q - 1]
                    @ replicate (hq_size q + 1) None,
       hq_head := 0, hq_tail := hq_size q - 1, hq_size := hq_size q * 2\<rparr>"

definition push_queue_msg :: "harbor_msg \<Rightarrow> harbor_msg_queue \<Rightarrow> harbor_msg_queue res" where
  "push_queue_msg m q =
     (let q1 = (if (hq_tail q + 1) mod hq_size q = hq_head q then expand_harbor_queue q else q) in
      if hq_tail q1 < length (hq_data q1) then
        Ok (q1\<lparr>hq_data := (hq_data q1)[hq_tail q1 := Some m], hq_tail := (hq_tail q1 + 1) mod hq_size q1\<rparr>)
      else Err Out_of_bounds)"

definition push_queue :: "harbor_msg_queue \<Rightarrow> byte list \<Rightarrow> remote_message_header \<Rightarrow> harbor_msg_queue res" where
  "push_queue q buffer header = push_queue_msg \<lparr>hm_header = header, hm_buffer = buffer\<rparr> q"

definition pop_queue :: "harbor_msg_queue \<Rightarrow> (harbor_msg option \<times> harbor_msg_queue) res" where
  "pop_queue q =
     (if hq_head q = hq_tail q then Ok (None, q)
      else if hq_head q < length (hq_data q) then
        (case hq_data q ! hq_head q of
           None \<Rightarrow> Err Uninit_read
         | Some m \<Rightarrow> Ok (Some m, q\<lparr>hq_head := (hq_head q + 1) mod hq_size q\<rparr>))
      else Err Out_of_bounds)"

definition new_queue :: harbor_msg_queue where
  "new_queue = \<lparr>hq_size = HARBOR_QUEUE_SIZE, hq_head = 0, hq_tail = 0, hq_data = replicate HARBOR_QUEUE_SIZE None\<rparr>"

text \<open>\<open>release_queue\<close> pops every message to free its buffer.\<close>

definition release_queue :: "harbor_msg_queue option \<Rightarrow> unit res" where
  "release_queue oq =
     (case oq of None \<Rightarrow> Ok () | Some q \<Rightarrow> res_bind (fifo_pop_all pop_queue q) (\<lambda>_. Ok ()))"

section \<open>Global names\<close>

definition name_word :: "byte list \<Rightarrow> nat \<Rightarrow> u32" where
  "name_word nm i =
     (ucast (nm ! (4 * i)) OR push_bit 8 (ucast (nm ! (4 * i + 1))) OR
      push_bit 16 (ucast (nm ! (4 * i + 2))) OR push_bit 24 (ucast (nm ! (4 * i + 3))))"

definition name_hash :: "byte list \<Rightarrow> u32" where
  "name_hash nm = name_word nm 0 XOR name_word nm 1 XOR name_word nm 2 XOR name_word nm 3"

text \<open>\<open>strncmp(a, b, GLOBALNAME_LENGTH) == 0\<close>, and the position of a node in the chain of its slot.\<close>

definition same_name :: "byte list \<Rightarrow> byte list \<Rightarrow> bool" where
  "same_name a b \<longleftrightarrow>
     takeWhile (\<lambda>c. c \<noteq> 0) (take GLOBALNAME_LENGTH a) = takeWhile (\<lambda>c. c \<noteq> 0) (take GLOBALNAME_LENGTH b)"

fun chain_search :: "u32 \<Rightarrow> byte list \<Rightarrow> keyvalue list \<Rightarrow> nat option" where
  "chain_search h nm [] = None"
| "chain_search h nm (node # rest) =
     (if kv_hash node = h \<and> same_name (kv_key node) nm then Some 0
      else map_option Suc (chain_search h nm rest))"

type_synonym kv_ptr = "nat \<times> nat"

definition hash_slot_of :: "byte list \<Rightarrow> nat" where
  "hash_slot_of nm = unat (name_hash nm) mod HASH_SIZE"

definition hash_search :: "hashmap \<Rightarrow> byte list \<Rightarrow> kv_ptr option" where
  "hash_search hash nm =
     map_option (Pair (hash_slot_of nm)) (chain_search (name_hash nm) nm (hash (hash_slot_of nm)))"

definition hash_insert :: "hashmap \<Rightarrow> byte list \<Rightarrow> kv_ptr \<times> hashmap" where
  "hash_insert hash nm =
     (let pkv = hash_slot_of nm;
          node = \<lparr>kv_key = take GLOBALNAME_LENGTH nm, kv_hash = name_hash nm, kv_value = 0, kv_queue = None\<rparr> in
      ((pkv, 0), hash(pkv := node # hash pkv)))"

definition hash_new :: hashmap where
  "hash_new = (\<lambda>_. [])"

fun release_chain :: "keyvalue list \<Rightarrow> unit res" where
  "release_chain [] = Ok ()"
| "release_chain (node # rest) = res_bind (release_queue (kv_queue node)) (\<lambda>_. release_chain rest)"

definition hash_delete :: "hashmap \<Rightarrow> unit res" where
  "hash_delete hash = release_chain (concat (map hash [0..<HASH_SIZE]))"

definition kv_get :: "harbor \<Rightarrow> kv_ptr \<Rightarrow> keyvalue" where
  "kv_get h p = hb_map h (fst p) ! snd p"

definition kv_set :: "harbor \<Rightarrow> kv_ptr \<Rightarrow> keyvalue \<Rightarrow> harbor" where
  "kv_set h p node = h\<lparr>hb_map := (hb_map h)(fst p := (hb_map h (fst p))[snd p := node])\<rparr>"

section \<open>Slaves\<close>

definition set_slave :: "harbor \<Rightarrow> nat \<Rightarrow> slave \<Rightarrow> harbor" where
  "set_slave h i s = h\<lparr>hb_s := (hb_s h)[i := s]\<rparr>"

definition close_harbor :: "harbor \<Rightarrow> nat \<Rightarrow> (harbor_out list \<times> harbor) res" where
  "close_harbor h i =
     (let s = (hb_s h ! i)\<lparr>sl_status := STATUS_DOWN\<rparr>;
          out = (if sl_fd s \<noteq> 0 then [Sock_close (sl_fd s)] else []) in
      res_bind (release_queue (sl_queue s)) (\<lambda>_.
      Ok (out, set_slave h i (s\<lparr>sl_queue := None\<rparr>))))"

definition report_harbor_down :: "harbor \<Rightarrow> nat \<Rightarrow> harbor_out list" where
  "report_harbor_down h i = [Send 0 (hb_slave h) PTYPE_TEXT 0 (str_bytes (''D '' @ dec (int i)))]"

definition slave_zero :: slave where
  "slave_zero = \<lparr>sl_fd = 0, sl_queue = None, sl_status = STATUS_WAIT, sl_length = 0, sl_read = 0,
     sl_size = replicate 4 0, sl_recv = []\<rparr>"

definition harbor_create :: harbor where
  "harbor_create = \<lparr>hb_id = 0, hb_slave = 0, hb_map = hash_new, hb_s = replicate REMOTE_MAX slave_zero\<rparr>"

text \<open>The loop of \<open>harbor_release\<close> over the slaves \<open>ids\<close>.\<close>

fun release_slaves :: "nat list \<Rightarrow> harbor \<Rightarrow> (harbor_out list \<times> harbor) res" where
  "release_slaves [] h = Ok ([], h)"
| "release_slaves (i # ids) h =
     (let s = hb_s h ! i in
      if sl_fd s \<noteq> 0 \<and> sl_status s \<noteq> STATUS_DOWN then
        res_bind (close_harbor h i) (\<lambda>(out, h1).
        res_bind (release_slaves ids h1) (\<lambda>(out', h2). Ok (out @ out', h2)))
      else release_slaves ids h)"

definition harbor_release :: "harbor \<Rightarrow> harbor_out list res" where
  "harbor_release h =
     res_bind (release_slaves [1..<REMOTE_MAX] h) (\<lambda>(out, h1).
     res_bind (hash_delete (hb_map h1)) (\<lambda>_. Ok out))"

section \<open>Messages on the wire\<close>

definition to_bigendian :: "u32 \<Rightarrow> byte list" where
  "to_bigendian n = [ucast (drop_bit 24 n), ucast (drop_bit 16 n), ucast (drop_bit 8 n), ucast n]"

definition header_to_message :: "remote_message_header \<Rightarrow> byte list" where
  "header_to_message header =
     to_bigendian (rh_source header) @ to_bigendian (rh_destination header) @ to_bigendian (rh_session header)"

definition from_bigendian :: "byte list \<Rightarrow> u32" where
  "from_bigendian b =
     (push_bit 24 (ucast (b ! 0)) OR push_bit 16 (ucast (b ! 1)) OR push_bit 8 (ucast (b ! 2)) OR ucast (b ! 3))"

definition message_to_header :: "byte list \<Rightarrow> remote_message_header" where
  "message_to_header m =
     \<lparr>rh_source = from_bigendian (take 4 m), rh_destination = from_bigendian (take 4 (drop 4 m)),
      rh_session = from_bigendian (take 4 (drop 8 m))\<rparr>"

text \<open>\<open>forward_local_messsage\<close>: a message shorter than the header makes \<open>cookie\<close> point before the buffer.\<close>

definition forward_local_messsage :: "(u32 \<Rightarrow> bool) \<Rightarrow> harbor \<Rightarrow> byte list \<Rightarrow> harbor_out list res" where
  "forward_local_messsage unknown h msg =
     (if length msg < HEADER_COOKIE_LENGTH then Err Out_of_bounds
      else
        let sz = length msg - HEADER_COOKIE_LENGTH;
            header = message_to_header (drop sz msg);
            type = uint (drop_bit HANDLE_REMOTE_SHIFT (rh_destination header));
            destination = (rh_destination header AND HANDLE_MASK) OR push_bit HANDLE_REMOTE_SHIFT (of_int (hb_id h));
            session = sint (rh_session header) in
        Ok (Send (rh_source header) destination (type OR PTYPE_TAG_DONTCOPY) session (take sz msg) #
            (if unknown destination then
               (if type \<noteq> PTYPE_ERROR then [Send destination (rh_source header) PTYPE_ERROR session []] else []) @
               [Log ''Unknown destination'']
             else [])))"

definition send_remote :: "int \<Rightarrow> byte list \<Rightarrow> remote_message_header \<Rightarrow> harbor_out list" where
  "send_remote fd buffer cookie =
     (let sz_header = length buffer + 12 in
      if sz_header > 2 ^ 32 - 1 then [Log ''remote message is too large.'']
      else [Sock_send fd (to_bigendian (of_nat sz_header) @ buffer @ header_to_message cookie)])"

definition send_msg :: "int \<Rightarrow> harbor_msg \<Rightarrow> harbor_out list" where
  "send_msg fd m = send_remote fd (hm_buffer m) (hm_header m)"

section \<open>Queued messages\<close>

definition or_destination :: "u32 \<Rightarrow> harbor_msg \<Rightarrow> harbor_msg" where
  "or_destination handle m =
     m\<lparr>hm_header := (hm_header m)\<lparr>rh_destination := rh_destination (hm_header m) OR (handle AND HANDLE_MASK)\<rparr>\<rparr>"

definition local_msg :: "u32 \<Rightarrow> harbor_msg \<Rightarrow> harbor_out" where
  "local_msg handle m =
     Send (rh_source (hm_header m)) handle
       (uint (drop_bit HANDLE_REMOTE_SHIFT (rh_destination (hm_header m))) OR PTYPE_TAG_DONTCOPY)
       (sint (rh_session (hm_header m))) (hm_buffer m)"

text \<open>\<open>dispatch_name_queue\<close> for the node at \<open>p\<close>, whose queue is \<open>queue\<close>.\<close>

definition dispatch_name_queue :: "harbor \<Rightarrow> kv_ptr \<Rightarrow> harbor_msg_queue \<Rightarrow> (harbor_out list \<times> harbor) res" where
  "dispatch_name_queue h p queue =
     (let node = kv_get h p; handle = kv_value node;
          harbor_id = unat (drop_bit HANDLE_REMOTE_SHIFT handle);
          s = hb_s h ! harbor_id; fd = sl_fd s in
      if fd = 0 then
        if sl_status s = STATUS_DOWN then Ok ([Log ''Drop message''], h)
        else
          res_bind
            (case sl_queue s of
               None \<Rightarrow> Ok (queue, kv_set h p (node\<lparr>kv_queue := None\<rparr>))
             | Some sq \<Rightarrow>
                 res_bind (fifo_pop_all pop_queue queue) (\<lambda>(ms, queue1).
                 res_bind (fifo_push_all push_queue_msg ms sq) (\<lambda>sq1.
                 Ok (sq1, kv_set h p (node\<lparr>kv_queue := Some queue1\<rparr>))))) (\<lambda>(sq, h1).
          if drop_bit HANDLE_REMOTE_SHIFT handle = drop_bit HANDLE_REMOTE_SHIFT (hb_slave h) then
            res_bind (fifo_pop_all pop_queue sq) (\<lambda>(ms, sq1).
            res_bind (release_queue (Some sq1)) (\<lambda>_.
            Ok (map (local_msg handle) ms, set_slave h1 harbor_id (s\<lparr>sl_queue := None\<rparr>))))
          else Ok ([], set_slave h1 harbor_id (s\<lparr>sl_queue := Some sq\<rparr>)))
      else
        res_bind (fifo_pop_all pop_queue queue) (\<lambda>(ms, queue1).
        Ok (concat (map (send_msg fd \<circ> or_destination handle) ms), kv_set h p (node\<lparr>kv_queue := Some queue1\<rparr>))))"

definition dispatch_queue :: "harbor \<Rightarrow> nat \<Rightarrow> (harbor_out list \<times> harbor) res" where
  "dispatch_queue h i =
     (let s = hb_s h ! i; fd = sl_fd s in
      res_bind (res_assert (fd \<noteq> 0)) (\<lambda>_.
      case sl_queue s of
        None \<Rightarrow> Ok ([], h)
      | Some queue \<Rightarrow>
          res_bind (fifo_pop_all pop_queue queue) (\<lambda>(ms, queue1).
          res_bind (release_queue (Some queue1)) (\<lambda>_.
          Ok (concat (map (send_msg fd) ms), set_slave h i (s\<lparr>sl_queue := None\<rparr>))))))"

section \<open>Data from a slave\<close>

text \<open>The cases of the \<open>switch\<close> in \<open>push_socket_data\<close>. Besides the events and the harbor they return what is
  left of the buffer when the loop goes on, \<open>None\<close> when the function returns.\<close>

definition on_content :: "(u32 \<Rightarrow> bool) \<Rightarrow> nat \<Rightarrow> harbor \<Rightarrow> byte list \<Rightarrow> (harbor_out list \<times> harbor \<times> byte list option) res" where
  "on_content unknown i h buffer =
     (let s = hb_s h ! i in
      if sl_read s > sl_length s \<or> sl_read s \<noteq> length (sl_recv s) then Err Out_of_bounds
      else
        let need = sl_length s - sl_read s in
        if length buffer < need then
          Ok ([], set_slave h i (s\<lparr>sl_recv := sl_recv s @ buffer, sl_read := sl_read s + length buffer\<rparr>), None)
        else
          res_bind (forward_local_messsage unknown h (sl_recv s @ take need buffer)) (\<lambda>out.
          Ok (out, set_slave h i (s\<lparr>sl_length := 0, sl_read := 0, sl_recv := [], sl_status := STATUS_HEADER\<rparr>),
              if length buffer - need = 0 then None else Some (drop need buffer))))"

text \<open>\<open>memcpy(s->size + s->read, ...)\<close>.\<close>

definition size_copy :: "slave \<Rightarrow> byte list \<Rightarrow> byte list res" where
  "size_copy s bytes =
     (if sl_read s + length bytes \<le> length (sl_size s)
      then Ok (take (sl_read s) (sl_size s) @ bytes @ drop (sl_read s + length bytes) (sl_size s)) else Err Out_of_bounds)"

definition on_header :: "(u32 \<Rightarrow> bool) \<Rightarrow> nat \<Rightarrow> harbor \<Rightarrow> byte list \<Rightarrow> (harbor_out list \<times> harbor \<times> byte list option) res" where
  "on_header unknown i h buffer =
     (let s = hb_s h ! i in
      if sl_read s > 4 then Err Out_of_bounds
      else
        let need = 4 - sl_read s in
        if length buffer < need then
          res_bind (size_copy s buffer) (\<lambda>sz.
          Ok ([], set_slave h i (s\<lparr>sl_size := sz, sl_read := sl_read s + length buffer\<rparr>), None))
        else
          res_bind (size_copy s (take need buffer)) (\<lambda>sz.
          if sz ! 0 \<noteq> 0 then
            res_bind (close_harbor (set_slave h i (s\<lparr>sl_size := sz\<rparr>)) i) (\<lambda>(out, h1).
            Ok (Log ''Message is too long'' # out, h1, None))
          else
            let h1 = set_slave h i (s\<lparr>sl_size := sz,
                  sl_length := unat (push_bit 16 (ucast (sz ! 1)) OR push_bit 8 (ucast (sz ! 2)) OR ucast (sz ! 3) :: u32),
                  sl_read := 0, sl_recv := [], sl_status := STATUS_CONTENT\<rparr>) in
            if length buffer - need = 0 then Ok ([], h1, None)
            else on_content unknown i h1 (drop need buffer)))"

definition on_handshake :: "(u32 \<Rightarrow> bool) \<Rightarrow> nat \<Rightarrow> harbor \<Rightarrow> byte list \<Rightarrow> (harbor_out list \<times> harbor \<times> byte list option) res" where
  "on_handshake unknown i h buffer =
     (case buffer of
        [] \<Rightarrow> Err Out_of_bounds
      | remote_id # rest \<Rightarrow>
          if unat remote_id \<noteq> i then
            res_bind (close_harbor h i) (\<lambda>(out, h1). Ok (Log ''Invalid shakehand id'' # out, h1, None))
          else
            res_bind (dispatch_queue (set_slave h i ((hb_s h ! i)\<lparr>sl_status := STATUS_HEADER\<rparr>)) i) (\<lambda>(out, h1).
            if rest = [] then Ok (out, h1, Some [])
            else res_bind (on_header unknown i h1 rest) (\<lambda>(out', r). Ok (out @ out', r))))"

definition on_data :: "(u32 \<Rightarrow> bool) \<Rightarrow> nat \<Rightarrow> harbor \<Rightarrow> byte list \<Rightarrow> (harbor_out list \<times> harbor \<times> byte list option) res" where
  "on_data unknown i h buffer =
     (case sl_status (hb_s h ! i) of
        STATUS_HANDSHAKE \<Rightarrow> on_handshake unknown i h buffer
      | STATUS_HEADER \<Rightarrow> on_header unknown i h buffer
      | STATUS_CONTENT \<Rightarrow> on_content unknown i h buffer
      | _ \<Rightarrow> Ok ([], h, None))"

partial_function (option) data_loop :: "(u32 \<Rightarrow> bool) \<Rightarrow> nat \<Rightarrow> harbor \<Rightarrow> byte list \<Rightarrow> (harbor_out list \<times> harbor) res option" where
  "data_loop unknown i h buffer =
     (case on_data unknown i h buffer of
        Err e \<Rightarrow> Some (Err e)
      | Ok (out, h1, None) \<Rightarrow> Some (Ok (out, h1))
      | Ok (out, h1, Some rest) \<Rightarrow>
          Option.bind (data_loop unknown i h1 rest) (\<lambda>r. Some (res_bind r (\<lambda>(out', h2). Ok (out @ out', h2)))))"

declare data_loop.simps [code]

text \<open>The loops over the slaves: the first one, from 1 on, with the socket.\<close>

definition harbor_id :: "harbor \<Rightarrow> int \<Rightarrow> nat option" where
  "harbor_id h fd = find (\<lambda>i. sl_fd (hb_s h ! i) = fd) [1..<REMOTE_MAX]"

definition push_socket_data :: "(u32 \<Rightarrow> bool) \<Rightarrow> harbor \<Rightarrow> skynet_socket_message \<Rightarrow> (harbor_out list \<times> harbor) res" where
  "push_socket_data unknown h message =
     res_bind (res_assert (sm_type message = SKYNET_SOCKET_TYPE_DATA)) (\<lambda>_.
     case harbor_id h (sm_id message) of
       None \<Rightarrow> Ok ([Log ''Invalid socket fd data''], h)
     | Some i \<Rightarrow> (case data_loop unknown i h (sm_buffer message) of None \<Rightarrow> Err Diverge | Some r \<Rightarrow> r))"

section \<open>Commands\<close>

definition find_or_insert :: "harbor \<Rightarrow> byte list \<Rightarrow> kv_ptr \<times> harbor" where
  "find_or_insert h nm =
     (case hash_search (hb_map h) nm of
        Some p \<Rightarrow> (p, h)
      | None \<Rightarrow> (case hash_insert (hb_map h) nm of (p, m) \<Rightarrow> (p, h\<lparr>hb_map := m\<rparr>)))"

definition update_name :: "harbor \<Rightarrow> byte list \<Rightarrow> u32 \<Rightarrow> (harbor_out list \<times> harbor) res" where
  "update_name h nm handle =
     (case find_or_insert h nm of (p, h1) \<Rightarrow>
      let h2 = kv_set h1 p ((kv_get h1 p)\<lparr>kv_value := handle\<rparr>) in
      case kv_queue (kv_get h2 p) of
        None \<Rightarrow> Ok ([], h2)
      | Some queue \<Rightarrow>
          res_bind (dispatch_name_queue h2 p queue) (\<lambda>(out, h3).
          res_bind (release_queue (kv_queue (kv_get h3 p))) (\<lambda>_.
          Ok (out, kv_set h3 p ((kv_get h3 p)\<lparr>kv_queue := None\<rparr>)))))"

text \<open>The type is shifted into the high byte of the destination.\<close>

definition remote_header :: "u32 \<Rightarrow> u32 \<Rightarrow> int \<Rightarrow> int \<Rightarrow> remote_message_header" where
  "remote_header source destination type session =
     \<lparr>rh_source = source,
      rh_destination = push_bit HANDLE_REMOTE_SHIFT (of_int type) OR (destination AND HANDLE_MASK),
      rh_session = of_int session\<rparr>"

text \<open>The results are the return value (1 when the harbor keeps the message), the events and the harbor.\<close>

definition remote_send_handle ::
    "harbor \<Rightarrow> u32 \<Rightarrow> u32 \<Rightarrow> int \<Rightarrow> int \<Rightarrow> byte list \<Rightarrow> (int \<times> harbor_out list \<times> harbor) res" where
  "remote_send_handle h source destination type session msg =
     (let harbor_id = unat (drop_bit HANDLE_REMOTE_SHIFT destination) in
      if int harbor_id = hb_id h then
        Ok (1, [Send source destination (type OR PTYPE_TAG_DONTCOPY) session msg], h)
      else
        let s = hb_s h ! harbor_id in
        if sl_fd s = 0 \<or> sl_status s = STATUS_HANDSHAKE then
          if sl_status s = STATUS_DOWN then
            Ok (0, [Send destination source PTYPE_ERROR 0 [], Log ''Drop message''], h)
          else
            let queue = (case sl_queue s of None \<Rightarrow> new_queue | Some q \<Rightarrow> q) in
            res_bind (push_queue queue msg (remote_header source destination type session)) (\<lambda>q.
            Ok (1, [], set_slave h harbor_id (s\<lparr>sl_queue := Some q\<rparr>)))
        else Ok (0, send_remote (sl_fd s) msg (remote_header source destination type session), h))"

definition remote_send_name ::
    "harbor \<Rightarrow> u32 \<Rightarrow> byte list \<Rightarrow> int \<Rightarrow> int \<Rightarrow> byte list \<Rightarrow> (int \<times> harbor_out list \<times> harbor) res" where
  "remote_send_name h source nm type session msg =
     (case find_or_insert h nm of (p, h1) \<Rightarrow>
      let node = kv_get h1 p in
      if kv_value node = 0 then
        let queue = (case kv_queue node of None \<Rightarrow> new_queue | Some q \<Rightarrow> q) in
        res_bind (push_queue queue msg (remote_header source 0 type session)) (\<lambda>q.
        Ok (1, [Send 0 (hb_slave h) PTYPE_TEXT 0
                  (str_bytes ''Q '' @ takeWhile (\<lambda>c. c \<noteq> 0) (take GLOBALNAME_LENGTH nm))],
            kv_set h1 p (node\<lparr>kv_queue := Some q\<rparr>)))
      else remote_send_handle h1 source (kv_value node) type session msg)"

definition harbor_handshake :: "harbor \<Rightarrow> nat \<Rightarrow> harbor_out list" where
  "harbor_handshake h i = [Sock_send (sl_fd (hb_s h ! i)) [of_int (hb_id h)]]"

text \<open>\<open>sscanf(buffer, "%d %d", &fd, &id)\<close> with both numbers 0 before.\<close>

definition scan_two :: "string \<Rightarrow> int \<times> int" where
  "scan_two s =
     (case scan_int s of
        None \<Rightarrow> (0, 0)
      | Some (a, r) \<Rightarrow> (case scan_int r of None \<Rightarrow> (a, 0) | Some (b, _) \<Rightarrow> (a, b)))"

definition byte_str :: "byte list \<Rightarrow> string" where
  "byte_str bs = map (\<lambda>b. char_of (unat b)) bs"

definition connect_slave :: "harbor \<Rightarrow> bool \<Rightarrow> int \<Rightarrow> nat \<Rightarrow> (harbor_out list \<times> harbor) res" where
  "connect_slave h is_S fd i =
     (let h1 = set_slave h i ((hb_s h ! i)\<lparr>sl_fd := fd\<rparr>);
          out = Sock_start fd # harbor_handshake h1 i in
      if is_S then Ok (out, set_slave h1 i ((hb_s h1 ! i)\<lparr>sl_status := STATUS_HANDSHAKE\<rparr>))
      else
        res_bind (dispatch_queue (set_slave h1 i ((hb_s h1 ! i)\<lparr>sl_status := STATUS_HEADER\<rparr>)) i) (\<lambda>(out', h2).
        Ok (out @ out', h2)))"

definition harbor_command :: "harbor \<Rightarrow> byte list \<Rightarrow> u32 \<Rightarrow> (harbor_out list \<times> harbor) res" where
  "harbor_command h msg source =
     (let s = int_of_size (length msg) - 2; nm = drop 2 msg in
      if msg = [] then Err Out_of_bounds
      else if msg ! 0 = of_char (CHR ''N'') then
        if s \<le> 0 \<or> s \<ge> int GLOBALNAME_LENGTH then Ok ([Log ''Invalid global name''], h)
        else update_name h (take (nat s) nm @ replicate (GLOBALNAME_LENGTH - nat s) 0) source
      else if msg ! 0 = of_char (CHR ''S'') \<or> msg ! 0 = of_char (CHR ''A'') then
        if s < 0 then Err Out_of_bounds
        else
          (case scan_two (cstr (byte_str (take (nat s) nm) @ [NUL]) 0) of (fd, i) \<Rightarrow>
             if fd = 0 \<or> i \<le> 0 \<or> i \<ge> int REMOTE_MAX then Ok ([Log ''Invalid command''], h)
             else if sl_fd (hb_s h ! nat i) \<noteq> 0 then Ok ([Log ''Harbor alreay exist''], h)
             else connect_slave h (msg ! 0 = of_char (CHR ''S'')) fd (nat i))
      else Ok ([Log ''Unknown command''], h))"

text \<open>\<open>mainloop\<close>: \<open>sock\<close> is the socket message that a message of type SOCKET points to, \<open>rmsg\<close> the remote
  message that one of type SYSTEM points to, \<open>msg\<close> the text of a command. It always returns 0.\<close>

definition socket_event :: "(u32 \<Rightarrow> bool) \<Rightarrow> harbor \<Rightarrow> skynet_socket_message \<Rightarrow> (harbor_out list \<times> harbor) res" where
  "socket_event unknown h message =
     (let t = sm_type message in
      if t = SKYNET_SOCKET_TYPE_DATA then push_socket_data unknown h message
      else if t = SKYNET_SOCKET_TYPE_ERROR \<or> t = SKYNET_SOCKET_TYPE_CLOSE then
        Ok (case harbor_id h (sm_id message) of
              Some i \<Rightarrow> report_harbor_down h i | None \<Rightarrow> [Log ''Unkown fd closed''], h)
      else if t = SKYNET_SOCKET_TYPE_CONNECT then Ok ([], h)
      else if t = SKYNET_SOCKET_TYPE_WARNING then
        Ok (case harbor_id h (sm_id message) of Some i \<Rightarrow> [Log ''message havn't send to Harbor''] | None \<Rightarrow> [], h)
      else Ok ([Log ''recv invalid socket message type''], h))"

definition harbor_mainloop ::
    "(u32 \<Rightarrow> bool) \<Rightarrow> harbor \<Rightarrow> int \<Rightarrow> int \<Rightarrow> u32 \<Rightarrow> byte list \<Rightarrow> skynet_socket_message \<Rightarrow> remote_message \<Rightarrow>
     (harbor_out list \<times> harbor) res" where
  "harbor_mainloop unknown h type session source msg sock rmsg =
     (if type = PTYPE_SOCKET then socket_event unknown h sock
      else if type = PTYPE_HARBOR then harbor_command h msg source
      else if type = PTYPE_SYSTEM then
        res_bind
          (if rm_handle rmsg = 0
           then remote_send_name h source (rm_name rmsg) (rm_type rmsg) session (rm_message rmsg)
           else remote_send_handle h source (rm_handle rmsg) (rm_type rmsg) session (rm_message rmsg)) (\<lambda>(_, out, h1).
        Ok (out, h1))
      else
        Ok (Log ''recv invalid message'' #
            (if session \<noteq> 0 \<and> type \<noteq> PTYPE_ERROR then [Send 0 source PTYPE_ERROR session []] else []), h))"

text \<open>\<open>sscanf(args, "%d %u", &harbor_id, &slave)\<close>.\<close>

definition scan_uint :: "string \<Rightarrow> u32 option" where
  "scan_uint s = map_option (\<lambda>_. ucast (strtoul 10 (dropWhile isspace s))) (scan_int s)"

definition harbor_init :: "harbor \<Rightarrow> string \<Rightarrow> int \<times> harbor" where
  "harbor_init h args =
     (let (hid, slave) =
        (case scan_int args of
           None \<Rightarrow> (0, 0)
         | Some (a, r) \<Rightarrow> (a, case scan_uint r of None \<Rightarrow> 0 | Some v \<Rightarrow> v)) in
      if slave = 0 then (1, h) else (0, h\<lparr>hb_id := hid, hb_slave := slave\<rparr>))"

section \<open>The rings are FIFO queues\<close>

definition hq_inv :: "harbor_msg_queue \<Rightarrow> bool" where
  "hq_inv q \<longleftrightarrow>
     hq_size q = length (hq_data q) \<and> hq_head q < hq_size q \<and> hq_tail q < hq_size q \<and>
     (\<forall>c \<in> set (ring_list (hq_data q) (hq_head q) (ring_len (hq_size q) (hq_head q) (hq_tail q))). c \<noteq> None)"

definition hq_items :: "harbor_msg_queue \<Rightarrow> harbor_msg list" where
  "hq_items q = map the (ring_list (hq_data q) (hq_head q) (ring_len (hq_size q) (hq_head q) (hq_tail q)))"

lemma expand_harbor_queue_ok:
  assumes "hq_inv q" "Suc (hq_tail q) mod hq_size q = hq_head q"
  shows "hq_inv (expand_harbor_queue q) \<and> hq_items (expand_harbor_queue q) = hq_items q \<and>
    Suc (hq_tail (expand_harbor_queue q)) mod hq_size (expand_harbor_queue q) \<noteq> hq_head (expand_harbor_queue q)"
proof -
  let ?c = "hq_size q" and ?n = "ring_len (hq_size q) (hq_head q) (hq_tail q)" and ?b = "hq_data q"
  have len: "length ?b = ?c" "hq_head q < ?c" "hq_tail q < ?c"
    and live: "\<forall>c \<in> set (ring_list ?b (hq_head q) ?n). c \<noteq> None" using assms(1) by (auto simp: hq_inv_def)
  have n: "Suc ?n = ?c" using ring_len_full [OF len(2,3) assms(2)] .
  define new where "new = map (\<lambda>i. ?b ! ((i + hq_head q) mod ?c)) [0..<?c - 1]"
  have c: "?c - 1 = ?n" using n by simp
  have new: "new = ring_list ?b (hq_head q) ?n" unfolding new_def c using len(1) by (simp add: ring_list_def add.commute)
  define q1 where "q1 = expand_harbor_queue q"
  have q1: "hq_data q1 = new @ replicate (?c + 1) None" "hq_head q1 = 0" "hq_tail q1 = ?n" "hq_size q1 = ?c * 2"
    using c by (simp_all add: q1_def expand_harbor_queue_def new_def)
  have r: "ring_len (?c * 2) 0 ?n = ?n" by (simp add: ring_len_def)
  have u: "ring_list (new @ replicate (?c + 1) None) 0 ?n = new" by (rule ring_list_unroll) (simp_all add: new)
  have "hq_inv q1" "hq_items q1 = hq_items q"
    unfolding hq_inv_def hq_items_def q1 r u using live n by (auto simp: new)
  moreover have "Suc (hq_tail q1) mod hq_size q1 \<noteq> hq_head q1" using n unfolding q1 by simp
  ultimately show ?thesis unfolding q1_def by blast
qed

lemma push_queue_msg_ok:
  assumes "hq_inv q"
  shows "\<exists>q'. push_queue_msg m q = Ok q' \<and> hq_inv q' \<and> hq_items q' = hq_items q @ [m]"
proof -
  define q1 where "q1 = (if (hq_tail q + 1) mod hq_size q = hq_head q then expand_harbor_queue q else q)"
  have q1: "hq_inv q1" "hq_items q1 = hq_items q" "Suc (hq_tail q1) mod hq_size q1 \<noteq> hq_head q1"
    using assms expand_harbor_queue_ok [OF assms] by (auto simp: q1_def)
  let ?c = "hq_size q1" and ?h = "hq_head q1" and ?t = "hq_tail q1" and ?b = "hq_data q1"
  let ?n = "ring_len ?c ?h ?t"
  have len: "length ?b = ?c" "?h < ?c" "?t < ?c" and live: "\<forall>c \<in> set (ring_list ?b ?h ?n). c \<noteq> None"
    using q1(1) by (auto simp: hq_inv_def)
  define q2 where "q2 = q1\<lparr>hq_data := ?b[?t := Some m], hq_tail := Suc ?t mod ?c\<rparr>"
  have "push_queue_msg m q = Ok q2"
    unfolding push_queue_msg_def q1_def [symmetric] Let_def q2_def using len by simp
  moreover have n: "ring_len ?c ?h (Suc ?t mod ?c) = Suc ?n" using ring_len_push [OF len(2,3) q1(3)] .
  moreover have "ring_list (?b[?t := Some m]) ?h (Suc ?n) = ring_list ?b ?h ?n @ [Some m]"
    using ring_list_snoc [of ?n ?b ?h "Some m"] ring_len_less ring_len_tail len by simp
  moreover have "Suc ?t mod ?c < ?c" using len(3) by (intro mod_less_divisor) linarith
  ultimately have "hq_inv q2" "hq_items q2 = hq_items q1 @ [m]"
    using len live by (auto simp: hq_inv_def hq_items_def q2_def)
  with \<open>push_queue_msg m q = Ok q2\<close> q1(2) show ?thesis by simp
qed

lemma hq_empty_iff: "hq_inv q \<Longrightarrow> hq_items q = [] \<longleftrightarrow> hq_head q = hq_tail q"
  using ring_len_0 [of "hq_head q" "hq_size q" "hq_tail q"] by (auto simp: hq_inv_def hq_items_def simp flip: length_0_conv)

lemma pop_queue_cons:
  assumes inv: "hq_inv q" and items: "hq_items q = m # ms"
  shows "\<exists>q'. pop_queue q = Ok (Some m, q') \<and> hq_inv q' \<and> hq_items q' = ms"
proof -
  let ?c = "hq_size q" and ?h = "hq_head q" and ?t = "hq_tail q" and ?b = "hq_data q"
  let ?h' = "Suc ?h mod ?c"
  have len: "length ?b = ?c" "?h < ?c" "?t < ?c" using inv by (auto simp: hq_inv_def)
  have ne: "?h \<noteq> ?t" using items hq_empty_iff [OF inv] by auto
  have n: "ring_len ?c ?h ?t = Suc (ring_len ?c ?h' ?t)" using ring_len_pop [OF len(2,3) ne] .
  have ring: "ring_list ?b ?h (ring_len ?c ?h ?t) = ?b ! ?h # ring_list ?b ?h' (ring_len ?c ?h' ?t)"
    using ring_list_front [of ?h ?b] len n by simp
  have cells: "?b ! ?h \<noteq> None" "\<forall>c \<in> set (ring_list ?b ?h' (ring_len ?c ?h' ?t)). c \<noteq> None"
    using inv ring by (auto simp: hq_inv_def)
  have m: "?b ! ?h = Some m" "ms = map the (ring_list ?b ?h' (ring_len ?c ?h' ?t))"
    using items cells(1) by (auto simp: hq_items_def ring)
  have "pop_queue q = Ok (Some m, q\<lparr>hq_head := ?h'\<rparr>)" unfolding pop_queue_def using ne len m by simp
  moreover have "?h' < ?c" using len(2) by (intro mod_less_divisor) linarith
  ultimately show ?thesis using len cells(2) by (auto simp: hq_inv_def hq_items_def m)
qed

interpretation hq: fifo hq_inv hq_items push_queue_msg pop_queue
proof unfold_locales
  show "\<exists>q'. pop_queue q = Ok (None, q') \<and> hq_inv q' \<and> hq_items q' = []" if "hq_inv q" "hq_items q = []" for q
    using that hq_empty_iff [of q] by (simp add: pop_queue_def)
qed (use push_queue_msg_ok pop_queue_cons in blast)+

lemma new_queue_ok: "hq_inv new_queue" "hq_items new_queue = []"
  by (simp_all add: hq_inv_def hq_items_def new_queue_def HARBOR_QUEUE_SIZE_def ring_len_def)

text \<open>The optional queue of a slave or of a name.\<close>

definition oq_inv :: "harbor_msg_queue option \<Rightarrow> bool" where
  "oq_inv oq \<longleftrightarrow> (case oq of None \<Rightarrow> True | Some q \<Rightarrow> hq_inv q)"

definition oq_items :: "harbor_msg_queue option \<Rightarrow> harbor_msg list" where
  "oq_items oq = (case oq of None \<Rightarrow> [] | Some q \<Rightarrow> hq_items q)"

lemma oq_simps [simp]: "oq_inv None" "oq_inv (Some q) = hq_inv q" "oq_items None = []" "oq_items (Some q) = hq_items q"
  by (simp_all add: oq_inv_def oq_items_def)

lemma release_queue_ok [simp]: "oq_inv oq \<Longrightarrow> release_queue oq = Ok ()"
  by (cases oq) (use hq.pop_all_ok in \<open>fastforce simp: release_queue_def\<close>)+

lemma oq_push:
  assumes "oq_inv oq"
  shows "\<exists>q'. push_queue (case oq of None \<Rightarrow> new_queue | Some q \<Rightarrow> q) msg hdr = Ok q' \<and> hq_inv q' \<and>
    hq_items q' = oq_items oq @ [\<lparr>hm_header = hdr, hm_buffer = msg\<rparr>]"
  using assms push_queue_msg_ok new_queue_ok by (cases oq) (fastforce simp: push_queue_def)+

section \<open>The wire format\<close>

lemma ucast_drop: "(ucast (drop_bit k (n :: u32)) :: byte) = of_nat (unat n div 2 ^ k)"
proof -
  have "unat (drop_bit k n) = drop_bit k (unat n)" by (simp add: unat_drop_bit_eq)
  then show ?thesis unfolding drop_bit_eq_div [where 'a = nat, symmetric] by (metis of_nat_unat)
qed

lemma to_bigendian_be: "to_bigendian n = be_bytes 4 (unat n)"
proof -
  have "ucast n = (of_nat (unat n) :: byte)" by simp
  moreover have "be_bytes 4 v = [of_nat (v div 2 ^ 24), of_nat (v div 2 ^ 16), of_nat (v div 2 ^ 8), of_nat v]" for v
  proof -
    have "be_bytes 2 v = [of_nat (v div 256), of_nat v]" by (simp add: numeral_2_eq_2)
    with be_bytes.simps(2) [of 3 v] be_bytes.simps(2) [of 2 v] show ?thesis by simp
  qed
  ultimately show ?thesis unfolding to_bigendian_def ucast_drop by simp
qed

lemma from_bigendian_be:
  assumes "length b = 4"
  shows "from_bigendian b = of_nat (be_nat b)"
proof -
  obtain w x y z where b: "b = [w, x, y, z]" using assms by (auto simp: numeral_eq_Suc length_Suc_conv)
  show ?thesis unfolding from_bigendian_def b be_word4 [symmetric] by simp
qed

lemma bigendian_roundtrip [simp]: "from_bigendian (to_bigendian n) = n"
  using unsigned_less [where 'a = nat, of n] by (simp add: to_bigendian_be from_bigendian_be be_nat_bytes)

lemma length_to_bigendian [simp]: "length (to_bigendian n) = 4"
  by (simp add: to_bigendian_be)

lemma length_header_to_message [simp]: "length (header_to_message hdr) = 12"
  by (simp add: header_to_message_def)

lemma header_roundtrip [simp]: "message_to_header (header_to_message hdr) = hdr"
  by (simp add: header_to_message_def message_to_header_def)

section \<open>Receiving\<close>

text \<open>The events of one message that arrives at the harbor \<open>hid\<close>, and of a stream.\<close>

definition local_events :: "(u32 \<Rightarrow> bool) \<Rightarrow> int \<Rightarrow> byte list \<Rightarrow> harbor_out list" where
  "local_events unknown hid msg = the_Ok (forward_local_messsage unknown (harbor_create\<lparr>hb_id := hid\<rparr>) msg)"

definition harbor_cut :: "(u32 \<Rightarrow> bool) \<Rightarrow> int \<Rightarrow> byte list \<Rightarrow> harbor_out list \<times> byte list" where
  "harbor_cut unknown hid bs = (concat (map (local_events unknown hid) (fst (be_frames 4 bs))), snd (be_frames 4 bs))"

abbreviation harbor_len :: "nat \<Rightarrow> bool" where
  "harbor_len len \<equiv> 12 \<le> len \<and> len < 2 ^ 24"

definition slave_rx :: "slave \<Rightarrow> bool" where
  "slave_rx s \<longleftrightarrow> length (sl_size s) = 4 \<and>
     (sl_status s = STATUS_HEADER \<and> sl_read s < 4 \<or>
      sl_status s = STATUS_CONTENT \<and> sl_read s = length (sl_recv s) \<and> sl_read s < sl_length s \<and> harbor_len (sl_length s))"

definition slave_pending :: "slave \<Rightarrow> byte list" where
  "slave_pending s =
     (if sl_status s = STATUS_CONTENT then be_bytes 4 (sl_length s) @ sl_recv s else take (sl_read s) (sl_size s))"

definition rx_inv :: "int \<Rightarrow> int \<Rightarrow> nat \<Rightarrow> harbor \<Rightarrow> bool" where
  "rx_inv hid fd i h \<longleftrightarrow> hb_id h = hid \<and> i < length (hb_s h) \<and> harbor_id h fd = Some i \<and> slave_rx (hb_s h ! i)"

abbreviation rx_pending :: "nat \<Rightarrow> harbor \<Rightarrow> byte list" where
  "rx_pending i h \<equiv> slave_pending (hb_s h ! i)"

lemma forward_local_ok:
  "12 \<le> length msg \<Longrightarrow> forward_local_messsage unknown h msg = Ok (local_events unknown (hb_id h) msg)"
  by (simp add: local_events_def forward_local_messsage_def Let_def HEADER_COOKIE_LENGTH_def)

lemma set_slave_simps [simp]:
  "hb_id (set_slave h i s) = hb_id h" "hb_slave (set_slave h i s) = hb_slave h" "hb_map (set_slave h i s) = hb_map h"
  "length (hb_s (set_slave h i s)) = length (hb_s h)" "i < length (hb_s h) \<Longrightarrow> hb_s (set_slave h i s) ! i = s"
  "i \<noteq> j \<Longrightarrow> hb_s (set_slave h i s) ! j = hb_s h ! j" "set_slave (set_slave h i s) i s' = set_slave h i s'"
  by (simp_all add: set_slave_def)

lemma harbor_id_same: "sl_fd s = sl_fd (hb_s h ! i) \<Longrightarrow> harbor_id (set_slave h i s) fd = harbor_id h fd"
proof -
  assume "sl_fd s = sl_fd (hb_s h ! i)"
  then have "(\<lambda>j. sl_fd (hb_s (set_slave h i s) ! j) = fd) = (\<lambda>j. sl_fd (hb_s h ! j) = fd)"
    by (auto simp: set_slave_def list_update_nth_if fun_eq_iff)
  then show ?thesis by (simp add: harbor_id_def)
qed

lemma rx_inv_set:
  assumes "rx_inv hid fd i h" "slave_rx s" "sl_fd s = sl_fd (hb_s h ! i)"
  shows "rx_inv hid fd i (set_slave h i s)"
  using assms by (simp add: rx_inv_def harbor_id_same)

text \<open>What one pass of the loop does with the buffer: it takes \<open>c\<close> from its front and leaves the rest, if any.\<close>

definition took ::
    "(u32 \<Rightarrow> bool) \<Rightarrow> int \<Rightarrow> int \<Rightarrow> nat \<Rightarrow> byte list \<Rightarrow> byte list \<Rightarrow> (harbor_out list \<times> harbor \<times> byte list option) res \<Rightarrow> bool" where
  "took unknown hid fd i pend buffer r \<longleftrightarrow>
     (\<exists>out h' rest c. r = Ok (out, h', rest) \<and> rx_inv hid fd i h' \<and> buffer = c @ (case rest of None \<Rightarrow> [] | Some b \<Rightarrow> b) \<and>
       harbor_cut unknown hid (pend @ c) = (out, rx_pending i h') \<and> (rest \<noteq> None \<longrightarrow> c \<noteq> []))"

lemma tookI:
  assumes "r = Ok (out, h', rest)" "rx_inv hid fd i h'" "buffer = c @ (case rest of None \<Rightarrow> [] | Some b \<Rightarrow> b)"
    "harbor_cut unknown hid (pend @ c) = (out, rx_pending i h')" "rest \<noteq> None \<Longrightarrow> c \<noteq> []"
  shows "took unknown hid fd i pend buffer r"
  using assms unfolding took_def by blast

lemma on_content_took:
  assumes inv: "rx_inv hid fd i h" and st: "sl_status (hb_s h ! i) = STATUS_CONTENT"
  shows "took unknown hid fd i (rx_pending i h) buffer (on_content unknown i h buffer)"
proof -
  let ?s = "hb_s h ! i"
  have rx: "sl_read ?s = length (sl_recv ?s)" "sl_read ?s < sl_length ?s" "harbor_len (sl_length ?s)" "length (sl_size ?s) = 4"
      "slave_pending ?s = be_bytes 4 (sl_length ?s) @ sl_recv ?s" "i < length (hb_s h)"
    using inv st by (auto simp: rx_inv_def slave_rx_def slave_pending_def)
  let ?need = "sl_length ?s - sl_read ?s"
  have be: "be_nat (be_bytes 4 (sl_length ?s)) = sl_length ?s" using rx(3) by (simp add: be_nat_bytes)
  show ?thesis
  proof (cases "length buffer < ?need")
    case True
    let ?s1 = "?s\<lparr>sl_recv := sl_recv ?s @ buffer, sl_read := sl_read ?s + length buffer\<rparr>"
    show ?thesis
    proof (rule tookI [where rest = None])
      show "on_content unknown i h buffer = Ok ([], set_slave h i ?s1, None)"
        using True rx by (simp add: on_content_def Let_def)
      show "rx_inv hid fd i (set_slave h i ?s1)" using True rx st by (intro rx_inv_set [OF inv]) (auto simp: slave_rx_def)
      have "be_frames 4 (slave_pending ?s @ buffer) = ([], slave_pending ?s @ buffer)"
        using True rx be by (intro be_frames_partial) simp_all
      then show "harbor_cut unknown hid (slave_pending ?s @ buffer) = ([], rx_pending i (set_slave h i ?s1))"
        using rx st by (simp add: harbor_cut_def slave_pending_def)
    qed simp_all
  next
    case False
    let ?s1 = "?s\<lparr>sl_length := 0, sl_read := 0, sl_recv := [], sl_status := STATUS_HEADER\<rparr>"
    let ?msg = "sl_recv ?s @ take ?need buffer"
    let ?rest = "if length buffer - ?need = 0 then None else Some (drop ?need buffer)"
    show ?thesis
    proof (rule tookI [where rest = ?rest and c = "take ?need buffer"])
      show "on_content unknown i h buffer = Ok (local_events unknown hid ?msg, set_slave h i ?s1, ?rest)"
        using False rx inv by (simp add: on_content_def Let_def forward_local_ok rx_inv_def)
      show "rx_inv hid fd i (set_slave h i ?s1)" using rx by (intro rx_inv_set [OF inv]) (auto simp: slave_rx_def)
      have "be_frames 4 (be_bytes 4 (sl_length ?s) @ ?msg @ []) = ([?msg], [])"
        using False rx be by (subst be_frames_step) (simp_all add: be_frames_short)
      then show "harbor_cut unknown hid (slave_pending ?s @ take ?need buffer) =
          (local_events unknown hid ?msg, rx_pending i (set_slave h i ?s1))"
        using rx by (simp add: harbor_cut_def slave_pending_def)
      have "drop ?need buffer = []" if "length buffer - ?need = 0" using that by simp
      then show "buffer = take ?need buffer @ (case ?rest of None \<Rightarrow> [] | Some b \<Rightarrow> b)"
        by (metis append_Nil2 append_take_drop_id option.simps(4) option.simps(5))
    qed (use rx False in auto)
  qed
qed

lemma be_len3:
  assumes "length hb = 4" "be_nat hb < 2 ^ 24"
  shows "hb ! 0 = 0" "unat (push_bit 16 (ucast (hb ! 1)) OR push_bit 8 (ucast (hb ! 2)) OR ucast (hb ! 3) :: u32) = be_nat hb"
    "be_bytes 4 (be_nat hb) = hb"
proof -
  obtain w x y z where b: "hb = [w, x, y, z]" using assms(1) by (auto simp: numeral_eq_Suc length_Suc_conv)
  have "unat w * 2 ^ 24 < 2 ^ 24" using assms(2) by (simp add: b)
  then have "unat w = 0" by simp
  then show w: "hb ! 0 = 0" by (simp add: b unat_eq_0)
  have "unat (of_nat (be_nat hb) :: u32) = be_nat hb" using assms(2) by (simp add: unat_of_nat)
  moreover have "(of_nat (be_nat hb) :: u32) = push_bit 16 (ucast (hb ! 1)) OR push_bit 8 (ucast (hb ! 2)) OR ucast (hb ! 3)"
    using be_word4 [of w x y z] w by (simp add: b)
  ultimately show "unat (push_bit 16 (ucast (hb ! 1)) OR push_bit 8 (ucast (hb ! 2)) OR ucast (hb ! 3) :: u32) = be_nat hb"
    by (simp only:)
  show "be_bytes 4 (be_nat hb) = hb" using be_bytes_nat [of hb] assms(1) by simp
qed

lemma on_header_took:
  assumes inv: "rx_inv hid fd i h" and st: "sl_status (hb_s h ! i) = STATUS_HEADER"
    and ok: "be_all 4 harbor_len (rx_pending i h @ buffer)"
  shows "took unknown hid fd i (rx_pending i h) buffer (on_header unknown i h buffer)"
proof -
  let ?s = "hb_s h ! i"
  have rx: "sl_read ?s < 4" "length (sl_size ?s) = 4" "slave_pending ?s = take (sl_read ?s) (sl_size ?s)" "i < length (hb_s h)"
    using inv st by (auto simp: rx_inv_def slave_rx_def slave_pending_def)
  let ?need = "4 - sl_read ?s"
  show ?thesis
  proof (cases "length buffer < ?need")
    case True
    let ?sz = "take (sl_read ?s) (sl_size ?s) @ buffer @ drop (sl_read ?s + length buffer) (sl_size ?s)"
    let ?s1 = "?s\<lparr>sl_size := ?sz, sl_read := sl_read ?s + length buffer\<rparr>"
    show ?thesis
    proof (rule tookI [where rest = None])
      show "on_header unknown i h buffer = Ok ([], set_slave h i ?s1, None)"
        using True rx by (simp add: on_header_def Let_def size_copy_def)
      show "rx_inv hid fd i (set_slave h i ?s1)" using True rx st by (intro rx_inv_set [OF inv]) (auto simp: slave_rx_def)
      have "be_frames 4 (slave_pending ?s @ buffer) = ([], slave_pending ?s @ buffer)"
        using True rx by (intro be_frames_short) simp
      then show "harbor_cut unknown hid (slave_pending ?s @ buffer) = ([], rx_pending i (set_slave h i ?s1))"
        using rx st by (simp add: harbor_cut_def slave_pending_def)
    qed simp_all
  next
    case False
    define hb where "hb = slave_pending ?s @ take ?need buffer"
    have hb: "length hb = 4" "hb @ drop ?need buffer = slave_pending ?s @ buffer" using False rx by (simp_all add: hb_def)
    have len: "harbor_len (be_nat hb)"
      using ok unfolding hb(2) [symmetric] be_all.simps [of 4 harbor_len "hb @ _"] using hb(1) by (auto simp: Let_def split: if_splits)
    note b = be_len3 [OF hb(1) conjunct2 [OF len]]
    let ?s1 = "?s\<lparr>sl_size := hb, sl_length := be_nat hb, sl_read := 0, sl_recv := [], sl_status := STATUS_CONTENT\<rparr>"
    let ?h1 = "set_slave h i ?s1"
    have copy: "size_copy ?s (take ?need buffer) = Ok hb" using False rx by (simp add: size_copy_def hb_def)
    have run: "on_header unknown i h buffer =
        (if length buffer - ?need = 0 then Ok ([], ?h1, None) else on_content unknown i ?h1 (drop ?need buffer))"
      using False rx b(1) by (simp add: on_header_def Let_def copy b(2) [unfolded One_nat_def])
    have inv1: "rx_inv hid fd i ?h1" using len rx hb(1) by (intro rx_inv_set [OF inv]) (auto simp: slave_rx_def)
    have p1: "rx_pending i ?h1 = hb" using rx b(3) by (simp add: slave_pending_def)
    show ?thesis
    proof (cases "length buffer = ?need")
      case True
      have "be_frames 4 hb = ([], hb)" using len hb(1) by (intro be_frames_partial) auto
      then show ?thesis
        using run True p1 inv1 by (intro tookI [where rest = None and out = "[]" and h' = ?h1 and c = buffer])
          (simp_all add: hb_def harbor_cut_def)
    next
      case no: False
      have st1: "sl_status (hb_s ?h1 ! i) = STATUS_CONTENT" using rx by simp
      obtain out h' rest c where c: "on_content unknown i ?h1 (drop ?need buffer) = Ok (out, h', rest)" "rx_inv hid fd i h'"
          "drop ?need buffer = c @ (case rest of None \<Rightarrow> [] | Some b \<Rightarrow> b)"
          "harbor_cut unknown hid (hb @ c) = (out, rx_pending i h')"
        using on_content_took [OF inv1 st1, of unknown "drop ?need buffer"] unfolding took_def p1 by blast
      show ?thesis
      proof (rule tookI [OF _ c(2), where c = "take ?need buffer @ c"])
        show "on_header unknown i h buffer = Ok (out, h', rest)" using run c(1) False no by simp
        show "buffer = (take ?need buffer @ c) @ (case rest of None \<Rightarrow> [] | Some b \<Rightarrow> b)"
          using c(3) by (metis append.assoc append_take_drop_id)
        show "harbor_cut unknown hid (slave_pending ?s @ take ?need buffer @ c) = (out, rx_pending i h')"
          using c(4) by (simp add: hb_def)
      qed (use rx False in auto)
    qed
  qed
qed

lemma harbor_cut_append:
  "harbor_cut unknown hid (xs @ ys) =
    (fst (harbor_cut unknown hid xs) @ fst (harbor_cut unknown hid (snd (harbor_cut unknown hid xs) @ ys)),
     snd (harbor_cut unknown hid (snd (harbor_cut unknown hid xs) @ ys)))"
  using be_frames_append [of 4 xs ys] by (simp add: harbor_cut_def)

lemma data_loop_ok:
  assumes "rx_inv hid fd i h" "be_all 4 harbor_len (rx_pending i h @ buffer)"
  shows "\<exists>h'. data_loop unknown i h buffer = Some (Ok (fst (harbor_cut unknown hid (rx_pending i h @ buffer)), h')) \<and>
    rx_inv hid fd i h' \<and> rx_pending i h' = snd (harbor_cut unknown hid (rx_pending i h @ buffer))"
  using assms
proof (induction "length buffer" arbitrary: h buffer rule: less_induct)
  case less
  have "took unknown hid fd i (rx_pending i h) buffer (on_data unknown i h buffer)"
    using on_content_took [OF less.prems(1)] on_header_took [OF less.prems(1) _ less.prems(2)] less.prems(1)
    by (auto simp: rx_inv_def slave_rx_def on_data_def)
  then obtain out h1 rest c where c: "on_data unknown i h buffer = Ok (out, h1, rest)" "rx_inv hid fd i h1"
      "buffer = c @ (case rest of None \<Rightarrow> [] | Some b \<Rightarrow> b)"
      "harbor_cut unknown hid (rx_pending i h @ c) = (out, rx_pending i h1)" "rest \<noteq> None \<longrightarrow> c \<noteq> []"
    unfolding took_def by blast
  show ?case
  proof (cases rest)
    case None
    then show ?thesis using c by (subst data_loop.simps) simp
  next
    case (Some b)
    have buf: "rx_pending i h @ buffer = (rx_pending i h @ c) @ b" using c(3) Some by simp
    have cut: "harbor_cut unknown hid (rx_pending i h @ buffer) =
        (out @ fst (harbor_cut unknown hid (rx_pending i h1 @ b)), snd (harbor_cut unknown hid (rx_pending i h1 @ b)))"
      unfolding buf using harbor_cut_append [of unknown hid "rx_pending i h @ c" b] c(4) by simp
    have "be_all 4 harbor_len (rx_pending i h1 @ b)"
      using be_all_append [of 4 harbor_len "rx_pending i h @ c" b] less.prems(2) c(4) unfolding buf
      by (simp add: harbor_cut_def)
    moreover have "length b < length buffer" using c(3,5) Some by simp
    ultimately obtain h2 where "data_loop unknown i h1 b = Some (Ok (fst (harbor_cut unknown hid (rx_pending i h1 @ b)), h2))"
        "rx_inv hid fd i h2" "rx_pending i h2 = snd (harbor_cut unknown hid (rx_pending i h1 @ b))"
      using less.hyps c(2) by blast
    then show ?thesis unfolding cut using c(1) Some by (subst data_loop.simps) simp
  qed
qed

definition harbor_feed :: "(u32 \<Rightarrow> bool) \<Rightarrow> int \<Rightarrow> byte list \<Rightarrow> harbor \<Rightarrow> (harbor_out list \<times> harbor) res" where
  "harbor_feed unknown fd data h =
     socket_event unknown h \<lparr>sm_type = SKYNET_SOCKET_TYPE_DATA, sm_id = fd, sm_ud = int (length data), sm_buffer = data, sm_tail = []\<rparr>"

interpretation harbor_rx: frame_decoder "rx_inv hid fd i" "rx_pending i" "harbor_feed unknown fd" "harbor_cut unknown hid"
    "be_all 4 harbor_len" for hid fd i unknown
proof unfold_locales
  show "be_all 4 harbor_len xs \<and> be_all 4 harbor_len (snd (harbor_cut unknown hid xs) @ ys)" if "be_all 4 harbor_len (xs @ ys)" for xs ys
    using be_all_append [OF _ that] by (simp add: harbor_cut_def)
  show "\<exists>s'. harbor_feed unknown fd c h = Ok (fst (harbor_cut unknown hid (rx_pending i h @ c)), s') \<and> rx_inv hid fd i s' \<and>
      rx_pending i s' = snd (harbor_cut unknown hid (rx_pending i h @ c))"
    if "rx_inv hid fd i h" "be_all 4 harbor_len (rx_pending i h @ c)" for h c
    using data_loop_ok [OF that, of unknown] that(1)
    by (auto simp: harbor_feed_def socket_event_def push_socket_data_def rx_inv_def)
qed (rule harbor_cut_append)

section \<open>Sending\<close>

text \<open>A message to a remote service: source, destination, type, session and payload.\<close>

type_synonym remote_send = "u32 \<times> u32 \<times> int \<times> int \<times> byte list"

definition msg_of :: "remote_send \<Rightarrow> harbor_msg" where
  "msg_of x = (case x of (source, destination, type, session, msg) \<Rightarrow>
     \<lparr>hm_header = remote_header source destination type session, hm_buffer = msg\<rparr>)"

fun remote_sends :: "remote_send list \<Rightarrow> harbor \<Rightarrow> (harbor_out list \<times> harbor) res" where
  "remote_sends [] h = Ok ([], h)"
| "remote_sends ((source, destination, type, session, msg) # xs) h =
     res_bind (remote_send_handle h source destination type session msg) (\<lambda>(_, out, h1).
     res_bind (remote_sends xs h1) (\<lambda>(out', h2). Ok (out @ out', h2)))"

text \<open>What the harbor \<open>b\<close> can be sent: the type is a byte, the session an \<open>int\<close>, and the frame is shorter than 16M.\<close>

definition sendable :: "nat \<Rightarrow> remote_send \<Rightarrow> bool" where
  "sendable b x = (case x of (source, destination, type, session, msg) \<Rightarrow>
     unat (drop_bit HANDLE_REMOTE_SHIFT destination) = b \<and> 0 \<le> type \<and> type < 256 \<and>
     - (2 ^ 31) \<le> session \<and> session < 2 ^ 31 \<and> length msg + 12 < 2 ^ 24)"

text \<open>The events with which a harbor delivers it.\<close>

definition delivered :: "(u32 \<Rightarrow> bool) \<Rightarrow> remote_send \<Rightarrow> harbor_out list" where
  "delivered unknown x = (case x of (source, destination, type, session, msg) \<Rightarrow>
     Send source destination (type OR PTYPE_TAG_DONTCOPY) session msg #
     (if unknown destination then
        (if type \<noteq> PTYPE_ERROR then [Send destination source PTYPE_ERROR session []] else []) @ [Log ''Unknown destination'']
      else []))"

lemma header_type:
  assumes "0 \<le> type" "type < 256"
  shows "uint (drop_bit 24 (push_bit 24 (of_int type) OR (dst AND 0xffffff) :: u32)) = type"
    "(push_bit 24 (of_int type) OR (dst AND 0xffffff) :: u32) AND 0xffffff = dst AND 0xffffff"
proof -
  have m: "(0xffffff :: u32) = mask 24" by (simp add: mask_eq_exp_minus_1)
  have "drop_bit 24 (push_bit 24 (of_int type) OR (dst AND 0xffffff) :: u32) = take_bit 8 (of_int type)"
    unfolding m by (rule bit_word_eqI) (auto simp: bit_simps)
  then show "uint (drop_bit 24 (push_bit 24 (of_int type) OR (dst AND 0xffffff) :: u32)) = type"
    using assms by (simp add: unsigned_take_bit_eq take_bit_of_int take_bit_int_eq_self uint_word_of_int)
  show "(push_bit 24 (of_int type) OR (dst AND 0xffffff) :: u32) AND 0xffffff = dst AND 0xffffff"
    unfolding m by (rule bit_word_eqI) (auto simp: bit_simps)
qed

lemma handle_split: "(dst AND 0xffffff) OR push_bit 24 (of_nat (unat (drop_bit 24 dst))) = (dst :: u32)"
proof -
  have m: "(0xffffff :: u32) = mask 24" by (simp add: mask_eq_exp_minus_1)
  have "(of_nat (unat (drop_bit 24 dst)) :: u32) = drop_bit 24 dst" by simp
  moreover have "bit ((dst AND mask 24) OR push_bit 24 (drop_bit 24 dst)) n = bit dst n" if "n < 32" for n
    using that by (cases "n < 24") (auto simp: bit_simps)
  ultimately show ?thesis unfolding m by (intro bit_word_eqI) simp
qed

lemma local_events_msg_of:
  assumes "sendable b x"
  shows "local_events unknown (int b) (hm_buffer (msg_of x) @ header_to_message (hm_header (msg_of x))) = delivered unknown x"
proof -
  obtain src dst ty ses msg where x: "x = (src, dst, ty, ses, msg)" by (cases x)
  have s: "unat (drop_bit 24 dst) = b" "0 \<le> ty" "ty < 256" "sint (of_int ses :: u32) = ses"
    using assms by (simp_all add: sendable_def x HANDLE_REMOTE_SHIFT_def signed_of_int signed_take_bit_int_eq_self)
  have d: "(dst AND 0xffffff) OR push_bit 24 (of_nat b) = dst" using handle_split [of dst] unfolding s(1) .
  define D where "D = push_bit 24 (of_int ty) OR (dst AND 0xffffff)"
  have D: "uint (drop_bit 24 D) = ty" "D AND 0xffffff = dst AND 0xffffff" unfolding D_def by (rule header_type [OF s(2,3)])+
  have "remote_header src dst ty ses = \<lparr>rh_source = src, rh_destination = D, rh_session = of_int ses\<rparr>"
    by (simp add: remote_header_def D_def HANDLE_REMOTE_SHIFT_def HANDLE_MASK_def)
  then show ?thesis
    using d by (simp add: local_events_def forward_local_messsage_def HEADER_COOKIE_LENGTH_def msg_of_def x delivered_def
      HANDLE_REMOTE_SHIFT_def HANDLE_MASK_def D s(4) Let_def)
qed

text \<open>The bytes written to a socket, in order.\<close>

fun wire :: "int \<Rightarrow> harbor_out list \<Rightarrow> byte list" where
  "wire fd [] = []"
| "wire fd (Sock_send f bs # out) = (if f = fd then bs @ wire fd out else wire fd out)"
| "wire fd (_ # out) = wire fd out"

lemma wire_append [simp]: "wire fd (xs @ ys) = wire fd xs @ wire fd ys"
  by (induction fd xs rule: wire.induct) auto

definition msg_frame :: "harbor_msg \<Rightarrow> byte list" where
  "msg_frame m = be_frame 4 (hm_buffer m @ header_to_message (hm_header m))"

lemma send_msg_wire:
  assumes "length (hm_buffer m) + 12 < 2 ^ 32"
  shows "send_msg fd m = [Sock_send fd (msg_frame m)]"
proof -
  have "unat (of_nat (length (hm_buffer m) + 12) :: u32) = length (hm_buffer m) + 12"
    using assms by (simp add: unat_of_nat del: of_nat_add)
  then have "to_bigendian (of_nat (length (hm_buffer m) + 12)) = be_bytes 4 (length (hm_buffer m) + 12)"
    unfolding to_bigendian_be by (simp only:)
  then show ?thesis using assms by (simp add: send_msg_def send_remote_def msg_frame_def be_frame_def Let_def)
qed

lemma sends_wire:
  "\<forall>m \<in> set ms. length (hm_buffer m) + 12 < 2 ^ 32 \<Longrightarrow> wire fd (concat (map (send_msg fd) ms)) = concat (map msg_frame ms)"
  by (induction ms) (auto simp: send_msg_wire simp del: power_numeral)

lemma length_msg_of: "sendable b x \<Longrightarrow> length (hm_buffer (msg_of x)) + 12 < 2 ^ 24"
  by (auto simp: sendable_def msg_of_def)

text \<open>A stream of sendable messages is decoded into their deliveries.\<close>

lemma cut_msgs:
  assumes "\<forall>x \<in> set xs. sendable b x"
  shows "harbor_cut unknown (int b) (concat (map (msg_frame \<circ> msg_of) xs)) = (concat (map (delivered unknown) xs), [])"
    "be_all 4 harbor_len (concat (map (msg_frame \<circ> msg_of) xs))"
proof -
  define p where "p = (\<lambda>x. hm_buffer (msg_of x) @ header_to_message (hm_header (msg_of x)))"
  have fr: "map (msg_frame \<circ> msg_of) xs = map (be_frame 4) (map p xs)" by (simp add: msg_frame_def p_def)
  have len: "harbor_len (length (p x))" if "x \<in> set xs" for x using length_msg_of assms that by (fastforce simp: p_def)
  have len4: "\<forall>q \<in> set (map p xs). length q < 256 ^ 4 \<and> harbor_len (length q)" using len by fastforce
  have ev: "map (local_events unknown (int b) \<circ> p) xs = map (delivered unknown) xs"
    using assms local_events_msg_of by (auto simp: p_def)
  have "be_frames 4 (concat (map (be_frame 4) (map p xs)) @ []) = (map p xs, [])"
    using len4 by (subst be_frames_encode) (simp_all add: be_frames_short del: set_map)
  then show "harbor_cut unknown (int b) (concat (map (msg_frame \<circ> msg_of) xs)) = (concat (map (delivered unknown) xs), [])"
    unfolding harbor_cut_def fr by (simp add: ev del: map_eq_conv)
  show "be_all 4 harbor_len (concat (map (msg_frame \<circ> msg_of) xs))"
    unfolding fr using len4 by (intro be_all_encode) simp_all
qed

lemma sends_queued:
  assumes "b < length (hb_s h)" "int b \<noteq> hb_id h" "sl_fd (hb_s h ! b) = 0 \<or> sl_status (hb_s h ! b) = STATUS_HANDSHAKE"
    "sl_status (hb_s h ! b) \<noteq> STATUS_DOWN" "oq_inv (sl_queue (hb_s h ! b))" "\<forall>x \<in> set xs. sendable b x"
  shows "\<exists>q. remote_sends xs h = Ok ([], set_slave h b ((hb_s h ! b)\<lparr>sl_queue := q\<rparr>)) \<and> oq_inv q \<and>
    oq_items q = oq_items (sl_queue (hb_s h ! b)) @ map msg_of xs"
  using assms
proof (induction xs arbitrary: h)
  case Nil
  then show ?case by (intro exI [of _ "sl_queue (hb_s h ! b)"]) (simp add: set_slave_def)
next
  case (Cons x xs)
  obtain src dst ty ses msg where x: "x = (src, dst, ty, ses, msg)" by (cases x)
  let ?s = "hb_s h ! b"
  have b: "unat (drop_bit HANDLE_REMOTE_SHIFT dst) = b" using Cons.prems(6) by (simp add: x sendable_def)
  obtain q1 where q1: "push_queue (case sl_queue ?s of None \<Rightarrow> new_queue | Some q \<Rightarrow> q) msg (remote_header src dst ty ses) = Ok q1"
      "hq_inv q1" "hq_items q1 = oq_items (sl_queue ?s) @ [msg_of x]"
    using oq_push [OF Cons.prems(5)] by (auto simp: x msg_of_def)
  let ?h1 = "set_slave h b (?s\<lparr>sl_queue := Some q1\<rparr>)"
  have "remote_send_handle h src dst ty ses msg = Ok (1, [], ?h1)"
    unfolding remote_send_handle_def Let_def b q1(1) using Cons.prems(2-4) by auto
  moreover obtain q where "remote_sends xs ?h1 = Ok ([], set_slave ?h1 b ((hb_s ?h1 ! b)\<lparr>sl_queue := q\<rparr>))" "oq_inv q"
      "oq_items q = oq_items (sl_queue (hb_s ?h1 ! b)) @ map msg_of xs"
    using Cons.IH [of ?h1] Cons.prems q1(2) by auto
  ultimately show ?case using Cons.prems(1) q1(3) by (intro exI [of _ q]) (simp add: x)
qed

lemma sends_connected:
  assumes "int b \<noteq> hb_id h" "sl_fd (hb_s h ! b) \<noteq> 0" "sl_status (hb_s h ! b) \<noteq> STATUS_HANDSHAKE"
    "\<forall>x \<in> set xs. sendable b x"
  shows "remote_sends xs h = Ok (concat (map (send_msg (sl_fd (hb_s h ! b)) \<circ> msg_of) xs), h)"
  using assms(4)
proof (induction xs)
  case (Cons x xs)
  obtain src dst ty ses msg where x: "x = (src, dst, ty, ses, msg)" by (cases x)
  have b: "unat (drop_bit HANDLE_REMOTE_SHIFT dst) = b" using Cons.prems by (simp add: x sendable_def)
  have "remote_send_handle h src dst ty ses msg = Ok (0, send_msg (sl_fd (hb_s h ! b)) (msg_of x), h)"
    unfolding remote_send_handle_def Let_def b using assms(1-3) by (simp add: send_msg_def msg_of_def x)
  then show ?case using Cons by (simp add: x)
qed simp

lemma dispatch_queue_ok:
  assumes "i < length (hb_s h)" "sl_fd (hb_s h ! i) \<noteq> 0" "oq_inv (sl_queue (hb_s h ! i))"
  shows "dispatch_queue h i =
    Ok (concat (map (send_msg (sl_fd (hb_s h ! i))) (oq_items (sl_queue (hb_s h ! i)))),
        set_slave h i ((hb_s h ! i)\<lparr>sl_queue := None\<rparr>))"
proof (cases "sl_queue (hb_s h ! i)")
  case None
  then have "(hb_s h ! i)\<lparr>sl_queue := None\<rparr> = hb_s h ! i" by (cases "hb_s h ! i") simp
  then have "set_slave h i ((hb_s h ! i)\<lparr>sl_queue := None\<rparr>) = h" by (simp only: set_slave_def list_update_id) simp
  then show ?thesis using assms None by (simp add: dispatch_queue_def)
next
  case (Some q)
  then obtain q1 where "fifo_pop_all pop_queue q = Ok (hq_items q, q1)" "hq_inv q1" using hq.pop_all_ok [of q] assms(3) by auto
  then show ?thesis using assms Some by (simp add: dispatch_queue_def Let_def)
qed

section \<open>The text of a command\<close>

lemma nat_text_length: "length (nat_text 10 n) \<le> n div 2 + 1"
proof (induction "10 :: nat" n rule: nat_text.induct)
  case (1 n)
  show ?case
  proof (cases "n < 10")
    case False
    then have "length (nat_text 10 (n div 10)) \<le> n div 10 div 2 + 1" using 1 by simp
    moreover have "n div 10 div 2 + 2 \<le> n div 2 + 1" using False by linarith
    ultimately show ?thesis using False by (simp add: nat_text.simps [of 10 n])
  qed (simp add: nat_text.simps)
qed

lemma digits_value_stop:
  "\<forall>c \<in> set cs. \<exists>d < base. digit_of c = Some d \<Longrightarrow> digits_value base 0 (cs @ CHR '' '' # r) = digits_value base 0 cs"
  by (subst digits_value_append) (simp_all add: digit_of_def)

lemma scan_int_text:
  assumes "n < 2 ^ 31" "r = [] \<or> (\<exists>r'. r = CHR '' '' # r')"
  shows "scan_int (nat_text 10 n @ r) = Some (int n, r)"
proof -
  obtain c cs where c: "nat_text 10 n = c # cs" "\<exists>d < 10. c = digit_char d"
    using nat_text_digits [of 10 n] by (cases "nat_text 10 n") auto
  then have ns: "\<not> isspace c" "c \<noteq> CHR ''-''" "c \<noteq> CHR ''+''" using digit_char_not by auto
  have dig: "\<forall>c \<in> set (nat_text 10 n). \<exists>d < 10. digit_of c = Some d" using nat_text_digits [of 10 n] by auto
  have "digits_value 10 0 (nat_text 10 n @ r) = n"
    using assms(2) digits_value_stop [OF dig] digits_value_text [of 10 n] by auto
  then have "scan_number 10 (nat_text 10 n @ r) = (False, n)" using c ns by (simp add: scan_number_def skip_prefix_def)
  then have v: "to_int (strtol 10 (nat_text 10 n @ r)) = int n" using assms(1) by (simp add: strtol_def to_int_def)
  let ?digit = "\<lambda>c. case digit_of c of None \<Rightarrow> False | Some d \<Rightarrow> d < 10"
  have "dropWhile ?digit (nat_text 10 n @ r) = dropWhile ?digit r" using dig by (intro dropWhile_append2) force
  also have "\<dots> = r" using assms(2) by (auto simp: digit_of_def)
  finally show ?thesis using c ns v dig by (auto simp: scan_int_def Let_def)
qed

lemma scan_int_space: "scan_int (CHR '' '' # s) = scan_int s"
  by (simp add: scan_int_def isspace_def)

lemma byte_str_bytes [simp]: "byte_str (str_bytes s) = s"
proof -
  have "unat (of_char c :: byte) = of_char c" for c
    using unat_of_nat [where 'a = 8, of "of_char c"] by (simp add: of_nat_of_char)
  then show ?thesis by (simp add: byte_str_def str_bytes_def comp_def)
qed

text \<open>The commands \<open>S fd id\<close> and \<open>A fd id\<close> as the slave service writes them.\<close>

definition connect_text :: "char \<Rightarrow> int \<Rightarrow> nat \<Rightarrow> byte list" where
  "connect_text c fd i = str_bytes ([c, CHR '' ''] @ dec fd @ '' '' @ dec (int i))"

lemma scan_two_dec:
  assumes "0 \<le> a" "a < 2 ^ 31" "0 \<le> b" "b < 2 ^ 31"
  shows "scan_two (cstr ((dec a @ '' '' @ dec b) @ [NUL]) 0) = (a, b)"
proof -
  have t: "dec a = nat_text 10 (nat a)" "dec b = nat_text 10 (nat b)" using assms by (simp_all add: dec_def)
  have nn: "NUL \<notin> set (nat_text 10 n)" for n
  proof
    assume "NUL \<in> set (nat_text 10 n)"
    then obtain d where "d < 10" "NUL = digit_char d" using nat_text_digits [of 10 n] by auto
    then show False using digit_char_not(4) [of d] by simp
  qed
  have "takeWhile (\<lambda>c. c \<noteq> NUL) ((dec a @ '' '' @ dec b) @ [NUL]) = dec a @ '' '' @ dec b"
    using nn unfolding t by (subst takeWhile_append2) (auto simp: NUL_def)
  then have "cstr ((dec a @ '' '' @ dec b) @ [NUL]) 0 = nat_text 10 (nat a) @ CHR '' '' # nat_text 10 (nat b)"
    by (simp add: cstr_def t)
  moreover have "scan_int (nat_text 10 (nat a) @ CHR '' '' # nat_text 10 (nat b)) = Some (a, CHR '' '' # nat_text 10 (nat b))"
    using scan_int_text [of "nat a"] assms by simp
  moreover have "scan_int (nat_text 10 (nat b)) = Some (b, [])" using scan_int_text [of "nat b" "[]"] assms by simp
  ultimately show ?thesis by (simp add: scan_two_def scan_int_space)
qed

lemma command_connect:
  assumes "c = CHR ''S'' \<or> c = CHR ''A''" "0 < fd" "fd < 2 ^ 31" "0 < i" "i < REMOTE_MAX"
  shows "harbor_command h (connect_text c fd i) source =
    (if sl_fd (hb_s h ! i) \<noteq> 0 then Ok ([Log ''Harbor alreay exist''], h) else connect_slave h (c = CHR ''S'') fd i)"
proof -
  let ?t = "dec fd @ '' '' @ dec (int i)"
  have l: "length (dec fd) \<le> 2 ^ 30 + 1" "length (dec (int i)) \<le> 129"
    using nat_text_length [of "nat fd"] nat_text_length [of i] assms(2,3,5) by (simp_all add: dec_def REMOTE_MAX_def)
  then have len: "int_of_size (length (connect_text c fd i)) = int (length ?t) + 2"
    by (simp add: connect_text_def str_bytes_def)
  have name: "drop 2 (connect_text c fd i) = str_bytes ?t" "take (nat (int (length ?t) + 2 - 2)) (str_bytes ?t) = str_bytes ?t"
    by (simp_all add: connect_text_def str_bytes_def)
  have c0: "connect_text c fd i ! 0 = of_char c" "connect_text c fd i \<noteq> []" by (simp_all add: connect_text_def str_bytes_def)
  have "scan_two (cstr (?t @ [NUL]) 0) = (fd, int i)"
    using scan_two_dec [of fd "int i"] assms(2,3,5) by (simp add: REMOTE_MAX_def)
  then have "scan_two (cstr (byte_str (str_bytes ?t) @ [NUL]) 0) = (fd, int i)" unfolding byte_str_bytes .
  then show ?thesis
    using assms unfolding harbor_command_def len c0(1) name Let_def by (auto simp: c0(2))
qed

lemma connect_accept:
  assumes "b < length (hb_s h)" "fd \<noteq> 0" "oq_inv (sl_queue (hb_s h ! b))"
  shows "connect_slave h False fd b =
    Ok (Sock_start fd # Sock_send fd [of_int (hb_id h)] # concat (map (send_msg fd) (oq_items (sl_queue (hb_s h ! b)))),
        set_slave h b ((hb_s h ! b)\<lparr>sl_fd := fd, sl_status := STATUS_HEADER, sl_queue := None\<rparr>))"
proof -
  let ?h = "set_slave h b ((hb_s h ! b)\<lparr>sl_fd := fd, sl_status := STATUS_HEADER\<rparr>)"
  have "dispatch_queue ?h b = Ok (concat (map (send_msg fd) (oq_items (sl_queue (hb_s h ! b)))),
      set_slave h b ((hb_s h ! b)\<lparr>sl_fd := fd, sl_status := STATUS_HEADER, sl_queue := None\<rparr>))"
    using dispatch_queue_ok [of b ?h] assms by simp
  then show ?thesis using assms by (simp add: connect_slave_def harbor_handshake_def Let_def)
qed

section \<open>From one harbor to another\<close>

text \<open>The sender gets messages for the harbor \<open>b\<close> before and after the command that connects it.\<close>

definition sender_run :: "remote_send list \<Rightarrow> remote_send list \<Rightarrow> int \<Rightarrow> nat \<Rightarrow> harbor \<Rightarrow> harbor_out list res" where
  "sender_run xs ys fd b h =
     res_bind (remote_sends xs h) (\<lambda>(out1, h1).
     res_bind (harbor_command h1 (connect_text CHR ''A'' fd b) 0) (\<lambda>(out2, h2).
     res_bind (remote_sends ys h2) (\<lambda>(out3, h3). Ok (out1 @ out2 @ out3))))"

text \<open>The receiver is told to connect to the harbor \<open>a\<close> and gets the bytes in the pieces \<open>cs\<close>.\<close>

definition receiver_run :: "(u32 \<Rightarrow> bool) \<Rightarrow> byte list list \<Rightarrow> int \<Rightarrow> nat \<Rightarrow> harbor \<Rightarrow> (harbor_out list \<times> harbor) res" where
  "receiver_run unknown cs fd a h =
     res_bind (harbor_command h (connect_text CHR ''S'' fd a) 0) (\<lambda>(_, h1). feed_all (harbor_feed unknown fd) cs h1)"

text \<open>A slave that was never connected.\<close>

definition idle_slave :: "harbor \<Rightarrow> nat \<Rightarrow> bool" where
  "idle_slave h i \<longleftrightarrow> 0 < i \<and> i < REMOTE_MAX \<and> length (hb_s h) = REMOTE_MAX \<and> hb_s h ! i = slave_zero"

lemma sender_run_ok:
  assumes "idle_slave h b" "int b \<noteq> hb_id h" "0 < fd" "fd < 2 ^ 31" "\<forall>x \<in> set (xs @ ys). sendable b x"
  shows "\<exists>out. sender_run xs ys fd b h = Ok out \<and>
    wire fd out = of_int (hb_id h) # concat (map (msg_frame \<circ> msg_of) (xs @ ys))"
proof -
  have b: "0 < b" "b < REMOTE_MAX" "b < length (hb_s h)" "hb_s h ! b = slave_zero" using assms(1) by (auto simp: idle_slave_def)
  obtain q where q: "remote_sends xs h = Ok ([], set_slave h b (slave_zero\<lparr>sl_queue := q\<rparr>))" "oq_inv q" "oq_items q = map msg_of xs"
    using sends_queued [OF b(3) assms(2), of xs] b(4) assms(5) by (auto simp: slave_zero_def)
  define h1 where "h1 = set_slave h b (slave_zero\<lparr>sl_queue := q\<rparr>)"
  have h1: "hb_s h1 ! b = slave_zero\<lparr>sl_queue := q\<rparr>" "b < length (hb_s h1)" "hb_id h1 = hb_id h" using b(3) by (simp_all add: h1_def)
  define h2 where "h2 = set_slave h1 b ((hb_s h1 ! b)\<lparr>sl_fd := fd, sl_status := STATUS_HEADER, sl_queue := None\<rparr>)"
  have "harbor_command h1 (connect_text CHR ''A'' fd b) 0 = connect_slave h1 False fd b"
    using command_connect [of "CHR ''A''" fd b h1 0] assms(3,4) b h1 by (simp add: slave_zero_def)
  moreover have "connect_slave h1 False fd b =
      Ok (Sock_start fd # Sock_send fd [of_int (hb_id h)] # concat (map (send_msg fd) (map msg_of xs)), h2)"
    using connect_accept [OF h1(2), of fd] assms(3) q h1 by (simp add: h2_def)
  moreover have "remote_sends ys h2 = Ok (concat (map (send_msg fd \<circ> msg_of) ys), h2)"
    using sends_connected [of b h2 ys] h1 assms(2,3,5) by (simp add: h2_def)
  moreover have "\<forall>m \<in> set (map msg_of zs). length (hm_buffer m) + 12 < 2 ^ 32" if "set zs \<subseteq> set (xs @ ys)" for zs
    using that assms(5) length_msg_of by fastforce
  then have "wire fd (concat (map (send_msg fd) (map msg_of xs))) = concat (map msg_frame (map msg_of xs))"
      "wire fd (concat (map (send_msg fd) (map msg_of ys))) = concat (map msg_frame (map msg_of ys))"
    using sends_wire [of "map msg_of xs" fd] sends_wire [of "map msg_of ys" fd] by auto
  ultimately show ?thesis using q(1) by (simp add: sender_run_def flip: h1_def)
qed

lemma harbor_id_fresh:
  assumes "0 < i" "i < REMOTE_MAX" "length (hb_s h) = REMOTE_MAX" "\<forall>s \<in> set (hb_s h). sl_fd s \<noteq> fd" "sl_fd s = fd"
  shows "harbor_id (set_slave h i s) fd = Some i"
proof -
  have other: "sl_fd (hb_s (set_slave h i s) ! j) \<noteq> fd" if "j < REMOTE_MAX" "j \<noteq> i" for j
    using assms(3,4) that by (simp add: set_slave_def)
  have self: "sl_fd (hb_s (set_slave h i s) ! i) = fd" using assms by simp
  have ix: "[1..<REMOTE_MAX] ! (i - 1) = i" "i - 1 < length [1..<REMOTE_MAX]" using assms(1,2) by simp_all
  have "\<forall>j < i - 1. sl_fd (hb_s (set_slave h i s) ! ([1..<REMOTE_MAX] ! j)) \<noteq> fd"
    using other assms(1,2) by simp
  then show ?thesis unfolding harbor_id_def find_Some_iff using self ix by (intro exI [of _ "i - 1"]) (simp del: nth_upt)
qed

lemma handshake_feed:
  assumes "i < length (hb_s h)" "harbor_id h fd = Some i" "sl_status (hb_s h ! i) = STATUS_HANDSHAKE"
    "sl_fd (hb_s h ! i) \<noteq> 0" "sl_queue (hb_s h ! i) = None" "unat x = i"
  shows "harbor_feed unknown fd (x # c) h = harbor_feed unknown fd c (set_slave h i ((hb_s h ! i)\<lparr>sl_status := STATUS_HEADER\<rparr>))"
proof -
  let ?h = "set_slave h i ((hb_s h ! i)\<lparr>sl_status := STATUS_HEADER\<rparr>)"
  have d: "dispatch_queue ?h i = Ok ([], ?h)" using assms by (simp add: dispatch_queue_def)
  have "data_loop unknown i h (x # c) = data_loop unknown i ?h c"
  proof (cases "c = []")
    case True
    then have "on_data unknown i h (x # c) = Ok ([], ?h, Some [])" using assms d by (simp add: on_data_def on_handshake_def)
    then show ?thesis using True by (subst data_loop.simps) (simp)
  next
    case False
    have "on_data unknown i h (x # c) = on_data unknown i ?h c"
      using assms d False by (cases "on_header unknown i ?h c") (auto simp: on_data_def on_handshake_def)
    then show ?thesis by (subst (1 2) data_loop.simps) simp
  qed
  moreover have "harbor_id ?h fd = Some i" using assms(2) by (simp add: harbor_id_same)
  ultimately show ?thesis using assms(2) by (simp add: harbor_feed_def socket_event_def push_socket_data_def)
qed

lemma receiver_run_ok:
  assumes "idle_slave h a" "hb_id h = int b" "0 < fd" "fd < 2 ^ 31" "\<forall>s \<in> set (hb_s h). sl_fd s \<noteq> fd"
    and "\<forall>x \<in> set xs. sendable b x"
    and "concat cs = of_nat a # concat (map (msg_frame \<circ> msg_of) xs)" "[] \<notin> set cs"
  shows "\<exists>h'. receiver_run unknown cs fd a h = Ok (concat (map (delivered unknown) xs), h')"
proof -
  have a: "0 < a" "a < REMOTE_MAX" "a < length (hb_s h)" "length (hb_s h) = REMOTE_MAX" "hb_s h ! a = slave_zero"
    using assms(1) by (auto simp: idle_slave_def)
  define h1 where "h1 = set_slave h a (slave_zero\<lparr>sl_fd := fd, sl_status := STATUS_HANDSHAKE\<rparr>)"
  define h2 where "h2 = set_slave h a (slave_zero\<lparr>sl_fd := fd, sl_status := STATUS_HEADER\<rparr>)"
  have cmd: "\<exists>out. harbor_command h (connect_text CHR ''S'' fd a) 0 = Ok (out, h1)"
    using command_connect [of "CHR ''S''" fd a h 0] assms(3,4) a by (simp add: slave_zero_def connect_slave_def h1_def Let_def)
  have h1: "a < length (hb_s h1)" "harbor_id h1 fd = Some a" "hb_s h1 ! a = slave_zero\<lparr>sl_fd := fd, sl_status := STATUS_HANDSHAKE\<rparr>"
    using a harbor_id_fresh [OF a(1,2,4) assms(5)] by (simp_all add: h1_def)
  have h2: "set_slave h1 a ((hb_s h1 ! a)\<lparr>sl_status := STATUS_HEADER\<rparr>) = h2" using a by (simp add: h1_def h2_def)
  have inv: "rx_inv (int b) fd a h2" "rx_pending a h2 = []"
    using a assms(2) harbor_id_fresh [OF a(1,2,4) assms(5)]
    by (simp_all add: h2_def rx_inv_def slave_rx_def slave_zero_def slave_pending_def)
  obtain x c ds where cs: "cs = (x # c) # ds" using assms(7,8) by (cases cs; cases "hd cs") auto
  have x: "x = of_nat a" "concat (c # ds) = concat (map (msg_frame \<circ> msg_of) xs)" using assms(7) by (simp_all add: cs)
  have "unat x = a" using a(2) x(1) by (simp add: unat_of_nat REMOTE_MAX_def)
  then have "harbor_feed unknown fd (x # c) h1 = harbor_feed unknown fd c h2"
    using handshake_feed [OF h1(1,2), of x unknown c] h1(3) h2 assms(3) by (simp add: slave_zero_def)
  then have "feed_all (harbor_feed unknown fd) cs h1 = feed_all (harbor_feed unknown fd) (c # ds) h2" by (simp add: cs)
  moreover have cut: "harbor_cut unknown (int b) (rx_pending a h2) = ([], rx_pending a h2)"
    unfolding inv(2) by (simp add: harbor_cut_def be_frames_short)
  have ok: "be_all 4 harbor_len (rx_pending a h2 @ concat (c # ds))" using cut_msgs(2) [OF assms(6)] inv(2) x(2) by simp
  obtain h' where "feed_all (harbor_feed unknown fd) (c # ds) h2 = Ok (concat (map (delivered unknown) xs), h')"
    using harbor_rx.feed_pieces [OF inv(1) ok cut] cut_msgs(1) [OF assms(6), of unknown] unfolding inv(2) x(2) by auto
  ultimately show ?thesis using cmd by (auto simp: receiver_run_def)
qed

text \<open>C25: the path of a message that is sent by handle from node to node. A harbor that has never been connected to the node \<open>b\<close>
  is asked to send messages \<open>xs\<close> to handles of that node, is told to accept the connection, and is asked to send \<open>ys\<close>; every one of them
  makes a frame of less than 16M (\<open>sendable\<close>). Messages sent by name are not among them: before the connection they lose their
  destination. Whatever pieces the bytes it writes arrive in at the harbor of \<open>b\<close>, which was told to connect, that harbor passes
  on exactly the messages of \<open>xs\<close> and \<open>ys\<close>, in order, each with its source, destination, type, session and
  payload, and answers those to unknown services with an error; the handshake and the growth of the queue
  are part of both runs, and no step fails.\<close>

theorem harbor_transport:
  assumes "idle_slave hA b" "hb_id hA = int a" "0 < fdA" "fdA < 2 ^ 31"
    and "idle_slave hB a" "hb_id hB = int b" "0 < fdB" "fdB < 2 ^ 31" "\<forall>s \<in> set (hb_s hB). sl_fd s \<noteq> fdB"
    and "a \<noteq> b" "\<forall>x \<in> set (xs @ ys). sendable b x"
  shows "\<exists>out. sender_run xs ys fdA b hA = Ok out \<and>
    (\<forall>cs. concat cs = wire fdA out \<and> [] \<notin> set cs \<longrightarrow>
      (\<exists>h'. receiver_run unknown cs fdB a hB = Ok (concat (map (delivered unknown) (xs @ ys)), h')))"
proof -
  have "int b \<noteq> hb_id hA" using assms(2,10) by simp
  from sender_run_ok [OF assms(1) this assms(3,4,11)] obtain out where out: "sender_run xs ys fdA b hA = Ok out"
      "wire fdA out = of_nat a # concat (map (msg_frame \<circ> msg_of) (xs @ ys))"
    using assms(2) by auto
  with receiver_run_ok [OF assms(5-9,11)] show ?thesis by auto
qed

theorem harbor_transport_witness:
  "\<exists>out. sender_run [(5, 0x02000007, 10, 3, [65])] [(5, 0x02000008, 0, 0, [])] 9 2 (harbor_create\<lparr>hb_id := 1\<rparr>) = Ok out \<and>
    (\<forall>cs. concat cs = wire 9 out \<and> [] \<notin> set cs \<longrightarrow>
      (\<exists>h'. receiver_run (\<lambda>h. h = 0x02000008) cs 4 1 (harbor_create\<lparr>hb_id := 2\<rparr>) =
        Ok ([Send 5 0x02000007 0x1000a 3 [65], Send 5 0x02000008 0x10000 0 [], Send 0x02000008 5 7 0 [],
             Log ''Unknown destination''], h')))"
proof -
  have idle: "idle_slave (harbor_create\<lparr>hb_id := n\<rparr>) i" if "0 < i" "i < 256" for n i
    using that by (simp add: idle_slave_def harbor_create_def REMOTE_MAX_def)
  have fds: "\<forall>s \<in> set (hb_s (harbor_create\<lparr>hb_id := 2\<rparr>)). sl_fd s \<noteq> 4" by (simp add: harbor_create_def slave_zero_def)
  have ok: "\<forall>x \<in> set ([(5, 0x02000007, 10, 3, [65])] @ [(5, 0x02000008, 0, 0, [])]). sendable 2 x"
    by (simp add: sendable_def HANDLE_REMOTE_SHIFT_def)
  have "delivered (\<lambda>h. h = 0x02000008) (5, 0x02000007, 10, 3, [65]) = [Send 5 0x02000007 0x1000a 3 [65]]"
    "delivered (\<lambda>h. h = 0x02000008) (5, 0x02000008, 0, 0, []) =
      [Send 5 0x02000008 0x10000 0 [], Send 0x02000008 5 7 0 [], Log ''Unknown destination'']"
    by (simp_all add: delivered_def PTYPE_TAG_DONTCOPY_def PTYPE_ERROR_def)
  with harbor_transport [OF idle _ _ _ idle _ _ _ fds _ ok, of 1 1 9 "\<lambda>h. h = 0x02000008"] show ?thesis
    by auto
qed

section \<open>The invariant of the service\<close>

definition slave_wf :: "slave \<Rightarrow> bool" where
  "slave_wf s \<longleftrightarrow> oq_inv (sl_queue s) \<and> length (sl_size s) = 4 \<and> (sl_fd s = 0 \<longrightarrow> sl_status s = STATUS_WAIT) \<and>
     (case sl_status s of
        STATUS_HEADER \<Rightarrow> sl_read s < 4
      | STATUS_CONTENT \<Rightarrow> sl_read s = length (sl_recv s) \<and> (sl_read s < sl_length s \<or> sl_read s = 0) \<and>
          sl_read s \<le> sl_length s \<and> sl_length s < 2 ^ 24
      | STATUS_DOWN \<Rightarrow> True
      | _ \<Rightarrow> sl_read s = 0)"

definition harbor_inv :: "harbor \<Rightarrow> bool" where
  "harbor_inv h \<longleftrightarrow> length (hb_s h) = REMOTE_MAX \<and> (\<forall>s \<in> set (hb_s h). slave_wf s) \<and>
     (\<forall>k. \<forall>node \<in> set (hb_map h k). oq_inv (kv_queue node))"

lemma harbor_inv_slave: "harbor_inv h \<Longrightarrow> i < REMOTE_MAX \<Longrightarrow> slave_wf (hb_s h ! i)"
  by (simp add: harbor_inv_def)

lemma harbor_inv_set_slave: "harbor_inv h \<Longrightarrow> slave_wf s \<Longrightarrow> harbor_inv (set_slave h i s)"
  by (auto simp: harbor_inv_def set_slave_def dest: set_update_subset_insert [THEN subsetD])

lemma harbor_inv_len: "harbor_inv h \<Longrightarrow> length (hb_s h) = REMOTE_MAX"
  by (simp add: harbor_inv_def)

lemma harbor_inv_create: "harbor_inv harbor_create"
  by (auto simp: harbor_inv_def harbor_create_def slave_wf_def slave_zero_def hash_new_def)

lemma close_harbor_ok:
  assumes "harbor_inv h" "i < REMOTE_MAX" "sl_fd (hb_s h ! i) \<noteq> 0"
  shows "close_harbor h i = Ok ([Sock_close (sl_fd (hb_s h ! i))],
    set_slave h i ((hb_s h ! i)\<lparr>sl_status := STATUS_DOWN, sl_queue := None\<rparr>)) \<and>
    harbor_inv (set_slave h i ((hb_s h ! i)\<lparr>sl_status := STATUS_DOWN, sl_queue := None\<rparr>))"
  using harbor_inv_slave [OF assms(1,2)] assms
  by (auto simp: close_harbor_def Let_def slave_wf_def intro!: harbor_inv_set_slave)

text \<open>In the stream of a slave, behind the handshake: before a length of 16M or more, a whole frame arrives that is shorter than the
  12 bytes of the header (a frame counts as arrived only when a byte follows its length).\<close>

function short_frame :: "byte list \<Rightarrow> bool" where
  "short_frame bs \<longleftrightarrow>
     (if length bs \<le> 4 then False
      else let len = be_nat (take 4 bs) in
        if 2 ^ 24 \<le> len \<or> length bs < 4 + len then False else len < 12 \<or> short_frame (drop (4 + len) bs))"
  by pat_completeness auto
termination
  by (relation "measure length") auto

declare short_frame.simps [simp del]

lemma short_frame_step:
  assumes "length hb = 4" "be_nat hb < 2 ^ 24"
  shows "short_frame (hb @ c) \<longleftrightarrow> c \<noteq> [] \<and> be_nat hb \<le> length c \<and> (be_nat hb < 12 \<or> short_frame (drop (be_nat hb) c))"
  using assms by (subst short_frame.simps) (auto simp: Let_def)

lemma short_frame_few: "length bs \<le> 4 \<Longrightarrow> \<not> short_frame bs"
  by (simp add: short_frame.simps)

lemma short_frame_wide: "length hb = 4 \<Longrightarrow> hb ! 0 \<noteq> 0 \<Longrightarrow> \<not> short_frame (hb @ c)"
  using be_len3(1) [of hb] by (subst short_frame.simps) (auto simp: Let_def)

text \<open>One step of the loop, on the part \<open>w\<close> of the stream: it reads outside a buffer exactly on a short frame.\<close>

definition step_exact :: "nat \<Rightarrow> byte list \<Rightarrow> bool \<Rightarrow> (harbor_out list \<times> harbor \<times> byte list option) res \<Rightarrow> bool" where
  "step_exact i buffer short r \<longleftrightarrow> r = Err Out_of_bounds \<and> short \<or>
     (\<exists>out h rest. r = Ok (out, h, rest) \<and> harbor_inv h \<and> (rest = None \<longrightarrow> \<not> short) \<and>
       (\<forall>b. rest = Some b \<longrightarrow> length b < length buffer \<and> sl_status (hb_s h ! i) = STATUS_HEADER \<and>
          (short \<longleftrightarrow> short_frame (slave_pending (hb_s h ! i) @ b))))"

lemma on_content_exact:
  assumes inv: "harbor_inv h" "i < REMOTE_MAX" and st: "sl_status (hb_s h ! i) = STATUS_CONTENT" and ne: "buffer \<noteq> []"
  shows "step_exact i buffer (short_frame (slave_pending (hb_s h ! i) @ buffer)) (on_content unknown i h buffer)"
proof -
  let ?s = "hb_s h ! i"
  have wf: "slave_wf ?s" and i: "i < length (hb_s h)" using harbor_inv_slave [OF inv] inv by (simp_all add: harbor_inv_len)
  have fd: "sl_fd ?s \<noteq> 0" using wf st by (auto simp: slave_wf_def)
  have r: "sl_read ?s = length (sl_recv ?s)" "sl_length ?s < 2 ^ 24" "sl_read ?s \<le> sl_length ?s"
    "sl_read ?s < sl_length ?s \<or> sl_read ?s = 0" using wf st by (auto simp: slave_wf_def)
  have be: "be_nat (be_bytes 4 (sl_length ?s)) = sl_length ?s" using r(2) by (simp add: be_nat_bytes)
  let ?need = "sl_length ?s - sl_read ?s"
  have sf: "short_frame (slave_pending ?s @ buffer) \<longleftrightarrow> ?need \<le> length buffer \<and> (sl_length ?s < 12 \<or> short_frame (drop ?need buffer))"
    using short_frame_step [of "be_bytes 4 (sl_length ?s)" "sl_recv ?s @ buffer"] ne r be
    by (auto simp: slave_pending_def st)
  show ?thesis
  proof (cases "length buffer < ?need")
    case True
    let ?s1 = "?s\<lparr>sl_recv := sl_recv ?s @ buffer, sl_read := sl_read ?s + length buffer\<rparr>"
    have "slave_wf ?s1" using wf st True by (auto simp: slave_wf_def)
    then show ?thesis using True r harbor_inv_set_slave [OF inv(1)] unfolding sf
      by (simp add: step_exact_def on_content_def Let_def)
  next
    case False
    let ?s1 = "?s\<lparr>sl_length := 0, sl_read := 0, sl_recv := [], sl_status := STATUS_HEADER\<rparr>"
    have "slave_wf ?s1" using wf st fd by (auto simp: slave_wf_def)
    note h1 = harbor_inv_set_slave [OF inv(1) this, of i]
    have len: "length (sl_recv ?s @ take ?need buffer) = sl_length ?s" using r False by simp
    have run: "on_content unknown i h buffer = res_bind (forward_local_messsage unknown h (sl_recv ?s @ take ?need buffer)) (\<lambda>out.
        Ok (out, set_slave h i ?s1, if length buffer - ?need = 0 then None else Some (drop ?need buffer)))"
      using False r by (simp add: on_content_def Let_def)
    show ?thesis
    proof (cases "sl_length ?s < 12")
      case True
      then have "forward_local_messsage unknown h (sl_recv ?s @ take ?need buffer) = Err Out_of_bounds"
        using len by (simp add: forward_local_messsage_def HEADER_COOKIE_LENGTH_def)
      then show ?thesis unfolding run sf using False True by (simp add: step_exact_def)
    next
      case l: False
      then have "forward_local_messsage unknown h (sl_recv ?s @ take ?need buffer) =
          Ok (local_events unknown (hb_id h) (sl_recv ?s @ take ?need buffer))" using len by (intro forward_local_ok) simp
      moreover have "0 < ?need" using r(4) l by linarith
      moreover have "\<not> short_frame []" by (simp add: short_frame_few)
      moreover have "slave_pending (hb_s (set_slave h i ?s1) ! i) = []" "sl_status (hb_s (set_slave h i ?s1) ! i) = STATUS_HEADER"
        using i by (simp_all add: slave_pending_def)
      ultimately show ?thesis unfolding run sf using False l h1 by (auto simp: step_exact_def)
    qed
  qed
qed

lemma on_header_exact:
  assumes inv: "harbor_inv h" "i < REMOTE_MAX" and st: "sl_status (hb_s h ! i) = STATUS_HEADER"
  shows "step_exact i buffer (short_frame (slave_pending (hb_s h ! i) @ buffer)) (on_header unknown i h buffer)"
proof -
  let ?s = "hb_s h ! i"
  have wf: "slave_wf ?s" and i: "i < length (hb_s h)" using harbor_inv_slave [OF inv] inv by (simp_all add: harbor_inv_len)
  have fd: "sl_fd ?s \<noteq> 0" using wf st by (auto simp: slave_wf_def)
  have r: "sl_read ?s < 4" "length (sl_size ?s) = 4" "slave_pending ?s = take (sl_read ?s) (sl_size ?s)"
    using wf st by (simp_all add: slave_wf_def slave_pending_def)
  let ?need = "4 - sl_read ?s"
  show ?thesis
  proof (cases "length buffer < ?need")
    case True
    let ?sz = "take (sl_read ?s) (sl_size ?s) @ buffer @ drop (sl_read ?s + length buffer) (sl_size ?s)"
    have "slave_wf (?s\<lparr>sl_size := ?sz, sl_read := sl_read ?s + length buffer\<rparr>)" using wf st True r by (auto simp: slave_wf_def)
    moreover have "\<not> short_frame (slave_pending ?s @ buffer)" using r True by (intro short_frame_few) simp
    ultimately show ?thesis
      using True r harbor_inv_set_slave [OF inv(1)] by (simp add: step_exact_def on_header_def Let_def size_copy_def)
  next
    case False
    define hb where "hb = slave_pending ?s @ take ?need buffer"
    have hb: "length hb = 4" "slave_pending ?s @ buffer = hb @ drop ?need buffer" using False r by (simp_all add: hb_def)
    have copy: "size_copy ?s (take ?need buffer) = Ok hb" using False r by (simp add: size_copy_def hb_def)
    show ?thesis
    proof (cases "hb ! 0 = 0")
      case no: False
      have "slave_wf (?s\<lparr>sl_size := hb\<rparr>)" using wf st hb(1) by (auto simp: slave_wf_def)
      note h1 = harbor_inv_set_slave [OF inv(1) this, of i]
      have "sl_fd (hb_s (set_slave h i (?s\<lparr>sl_size := hb\<rparr>)) ! i) \<noteq> 0" using fd i by simp
      from close_harbor_ok [OF h1 inv(2) this] short_frame_wide [OF hb(1) no] show ?thesis
        unfolding hb(2) using r False no by (auto simp: step_exact_def on_header_def Let_def copy)
    next
      case True
      let ?len = "unat (push_bit 16 (ucast (hb ! 1)) OR push_bit 8 (ucast (hb ! 2)) OR ucast (hb ! 3) :: u32)"
      let ?s1 = "?s\<lparr>sl_size := hb, sl_length := ?len, sl_read := 0, sl_recv := [], sl_status := STATUS_CONTENT\<rparr>"
      have lim: "be_nat hb < 2 ^ 24"
      proof -
        obtain w x y z where b: "hb = [w, x, y, z]" using hb(1) by (auto simp: numeral_eq_Suc length_Suc_conv)
        then show ?thesis using True be_nat_less [of "[x, y, z]"] by simp
      qed
      note len = be_len3 [OF hb(1) lim]
      have wf1: "slave_wf ?s1" unfolding len(2) using wf st fd hb(1) lim by (auto simp: slave_wf_def)
      note h1 = harbor_inv_set_slave [OF inv(1) wf1, of i]
      have s1: "hb_s (set_slave h i ?s1) ! i = ?s1" using i by simp
      have p1: "slave_pending ?s1 = hb" by (simp add: slave_pending_def len(2) [unfolded One_nat_def] len(3))
      have run: "on_header unknown i h buffer = (if length buffer - ?need = 0 then Ok ([], set_slave h i ?s1, None)
          else on_content unknown i (set_slave h i ?s1) (drop ?need buffer))"
        using False r True by (simp add: on_header_def Let_def copy)
      show ?thesis
      proof (cases "length buffer - ?need = 0")
        case none: True
        then have "\<not> short_frame (hb @ drop ?need buffer)" using hb(1) by (intro short_frame_few) simp
        then show ?thesis unfolding run hb(2) using none h1 by (simp add: step_exact_def)
      next
        case more: False
        then have "drop ?need buffer \<noteq> []" by simp
        from on_content_exact [OF h1 inv(2) _ this, of unknown]
        have "step_exact i (drop ?need buffer) (short_frame (hb @ drop ?need buffer))
            (on_content unknown i (set_slave h i ?s1) (drop ?need buffer))" unfolding s1 p1 by simp
        then show ?thesis unfolding run hb(2) using more by (fastforce simp: step_exact_def)
      qed
    qed
  qed
qed

lemma slave_wf_queue: "slave_wf s \<Longrightarrow> oq_inv q \<Longrightarrow> slave_wf (s\<lparr>sl_queue := q\<rparr>)"
  by (auto simp: slave_wf_def split: slave_status.splits)

lemma dispatch_queue_inv:
  assumes "harbor_inv h" "i < REMOTE_MAX" "sl_fd (hb_s h ! i) \<noteq> 0"
  shows "\<exists>out. dispatch_queue h i = Ok (out, set_slave h i ((hb_s h ! i)\<lparr>sl_queue := None\<rparr>)) \<and>
    harbor_inv (set_slave h i ((hb_s h ! i)\<lparr>sl_queue := None\<rparr>))"
proof -
  have "slave_wf (hb_s h ! i)" by (rule harbor_inv_slave [OF assms(1,2)])
  moreover from this have "slave_wf ((hb_s h ! i)\<lparr>sl_queue := None\<rparr>)" by (rule slave_wf_queue) simp
  ultimately show ?thesis
    using dispatch_queue_ok [of i h] assms harbor_inv_set_slave [OF assms(1)] by (simp add: harbor_inv_len slave_wf_def)
qed

lemma on_handshake_exact:
  assumes inv: "harbor_inv h" "i < REMOTE_MAX" and st: "sl_status (hb_s h ! i) = STATUS_HANDSHAKE"
  shows "step_exact i (x # c) (unat x = i \<and> short_frame c) (on_handshake unknown i h (x # c))"
proof -
  let ?s = "hb_s h ! i"
  have wf: "slave_wf ?s" and i: "i < length (hb_s h)" using harbor_inv_slave [OF inv] inv by (simp_all add: harbor_inv_len)
  have fd: "sl_fd ?s \<noteq> 0" using wf st by (auto simp: slave_wf_def)
  show ?thesis
  proof (cases "unat x = i")
    case False
    then show ?thesis using close_harbor_ok [OF inv fd] by (auto simp: step_exact_def on_handshake_def)
  next
    case True
    let ?s1 = "?s\<lparr>sl_status := STATUS_HEADER\<rparr>"
    have "slave_wf ?s1" using wf st fd by (auto simp: slave_wf_def)
    note h1 = harbor_inv_set_slave [OF inv(1) this, of i]
    have "sl_fd (hb_s (set_slave h i ?s1) ! i) \<noteq> 0" using fd i by simp
    from dispatch_queue_inv [OF h1 inv(2) this] i obtain out where
      d: "dispatch_queue (set_slave h i ?s1) i = Ok (out, set_slave h i (?s1\<lparr>sl_queue := None\<rparr>))"
        "harbor_inv (set_slave h i (?s1\<lparr>sl_queue := None\<rparr>))" by auto
    define h2 where "h2 = set_slave h i (?s1\<lparr>sl_queue := None\<rparr>)"
    have s2: "sl_status (hb_s h2 ! i) = STATUS_HEADER" "slave_pending (hb_s h2 ! i) = []"
      using wf st i by (simp_all add: h2_def slave_pending_def slave_wf_def)
    show ?thesis
    proof (cases "c = []")
      case nil: True
      then show ?thesis using True d s2 by (auto simp: step_exact_def on_handshake_def simp flip: h2_def)
    next
      case no: False
      have "on_handshake unknown i h (x # c) = res_bind (on_header unknown i h2 c) (\<lambda>(out', r). Ok (out @ out', r))"
        using True no d(1) by (simp add: on_handshake_def flip: h2_def)
      moreover have "step_exact i c (short_frame c) (on_header unknown i h2 c)"
        using on_header_exact [OF _ inv(2) s2(1), of c unknown] d(2) s2(2) by (simp add: h2_def)
      ultimately show ?thesis using True unfolding step_exact_def by fastforce
    qed
  qed
qed

text \<open>The data that a slave can not handle.\<close>

definition data_short :: "nat \<Rightarrow> slave \<Rightarrow> byte list \<Rightarrow> bool" where
  "data_short i s data \<longleftrightarrow>
     (case sl_status s of
        STATUS_HANDSHAKE \<Rightarrow> unat (data ! 0) = i \<and> short_frame (drop 1 data)
      | STATUS_HEADER \<Rightarrow> short_frame (slave_pending s @ data)
      | STATUS_CONTENT \<Rightarrow> short_frame (slave_pending s @ data)
      | _ \<Rightarrow> False)"

lemma on_data_exact:
  assumes "harbor_inv h" "i < REMOTE_MAX" and "buffer = [] \<longrightarrow> sl_status (hb_s h ! i) = STATUS_HEADER"
  shows "step_exact i buffer (data_short i (hb_s h ! i) buffer) (on_data unknown i h buffer)"
proof (cases "sl_status (hb_s h ! i)")
  case STATUS_HANDSHAKE
  then obtain x c where "buffer = x # c" using assms(3) by (cases buffer) auto
  then show ?thesis using on_handshake_exact [OF assms(1,2) STATUS_HANDSHAKE, of x c unknown] STATUS_HANDSHAKE
    by (simp add: on_data_def data_short_def)
next
  case STATUS_CONTENT
  then have "buffer \<noteq> []" using assms(3) by auto
  then show ?thesis using on_content_exact [OF assms(1,2) STATUS_CONTENT] STATUS_CONTENT
    by (simp add: on_data_def data_short_def)
qed (use assms on_header_exact [OF assms(1,2)] in
  \<open>simp_all add: on_data_def data_short_def step_exact_def [of i buffer _ "Ok _"]\<close>)

lemma data_loop_exact:
  assumes "harbor_inv h" "i < REMOTE_MAX" and "buffer = [] \<longrightarrow> sl_status (hb_s h ! i) = STATUS_HEADER"
  shows "if data_short i (hb_s h ! i) buffer then data_loop unknown i h buffer = Some (Err Out_of_bounds)
    else \<exists>out h'. data_loop unknown i h buffer = Some (Ok (out, h')) \<and> harbor_inv h'"
  using assms
proof (induction "length buffer" arbitrary: h buffer rule: less_induct)
  case less
  let ?short = "data_short i (hb_s h ! i) buffer"
  from on_data_exact [OF less.prems, of unknown] consider "on_data unknown i h buffer = Err Out_of_bounds" "?short"
    | out h1 where "on_data unknown i h buffer = Ok (out, h1, None)" "harbor_inv h1" "\<not> ?short"
    | out h1 b where "on_data unknown i h buffer = Ok (out, h1, Some b)" "harbor_inv h1" "length b < length buffer"
        "sl_status (hb_s h1 ! i) = STATUS_HEADER" "?short \<longleftrightarrow> short_frame (slave_pending (hb_s h1 ! i) @ b)"
    unfolding step_exact_def by (metis option.exhaust)
  then show ?case
  proof cases
    case 3
    have "data_short i (hb_s h1 ! i) b \<longleftrightarrow> ?short" using 3(4,5) by (simp add: data_short_def)
    then have "if ?short then data_loop unknown i h1 b = Some (Err Out_of_bounds)
        else \<exists>out h'. data_loop unknown i h1 b = Some (Ok (out, h')) \<and> harbor_inv h'"
      using less.hyps [OF 3(3,2) less.prems(2)] 3(4) by simp
    then show ?thesis using 3(1) by (subst (1 2) data_loop.simps) (auto split: if_splits)
  qed (subst (1 2) data_loop.simps, simp)+
qed

text \<open>Names.\<close>

definition kv_ok :: "harbor \<Rightarrow> kv_ptr \<Rightarrow> bool" where
  "kv_ok h p \<longleftrightarrow> snd p < length (hb_map h (fst p))"

lemma chain_search_less: "chain_search k nm nodes = Some j \<Longrightarrow> j < length nodes"
  by (induction nodes arbitrary: j) (auto split: if_splits)

lemma find_or_insert_inv:
  assumes "harbor_inv h"
  shows "\<exists>p h1. find_or_insert h nm = (p, h1) \<and> harbor_inv h1 \<and> kv_ok h1 p \<and> hb_s h1 = hb_s h \<and> hb_id h1 = hb_id h \<and> hb_slave h1 = hb_slave h"
proof (cases "hash_search (hb_map h) nm")
  case None
  then show ?thesis using assms by (auto simp: find_or_insert_def hash_insert_def Let_def harbor_inv_def kv_ok_def)
next
  case (Some p)
  then have "kv_ok h p" using chain_search_less by (auto simp: hash_search_def kv_ok_def)
  then show ?thesis using Some assms by (simp add: find_or_insert_def)
qed

lemma harbor_inv_kv_set: "harbor_inv h \<Longrightarrow> oq_inv (kv_queue node) \<Longrightarrow> harbor_inv (kv_set h p node)"
  by (auto simp: harbor_inv_def kv_set_def dest: set_update_subset_insert [THEN subsetD])

lemma harbor_inv_kv_get: "harbor_inv h \<Longrightarrow> kv_ok h p \<Longrightarrow> oq_inv (kv_queue (kv_get h p))"
  unfolding harbor_inv_def kv_ok_def kv_get_def using nth_mem by blast

lemma kv_set_simps [simp]:
  "hb_s (kv_set h p node) = hb_s h" "hb_id (kv_set h p node) = hb_id h" "hb_slave (kv_set h p node) = hb_slave h"
  "kv_ok (kv_set h p node) p' = kv_ok h p'" "kv_ok h p \<Longrightarrow> kv_get (kv_set h p node) p = node"
  "kv_get (set_slave h i s) p = kv_get h p" "kv_ok (set_slave h i s) p = kv_ok h p" "kv_set (kv_set h p node) p node' = kv_set h p node'"
  by (simp_all add: kv_set_def kv_ok_def kv_get_def set_slave_def)

lemma remote_less: "unat (drop_bit HANDLE_REMOTE_SHIFT (handle :: u32)) < REMOTE_MAX"
proof -
  have "unat (drop_bit 24 handle) = unat handle div 2 ^ 24" 
    by (simp only: unat_drop_bit_eq) (rule drop_bit_eq_div)
  moreover have "unat handle < 256 * 2 ^ 24" using unsigned_less [where 'a = nat, of handle] by simp
  then have "unat handle div 2 ^ 24 < 256" by (rule less_mult_imp_div_less)
  ultimately show ?thesis by (simp only: HANDLE_REMOTE_SHIFT_def REMOTE_MAX_def)
qed

lemma remote_send_handle_inv:
  assumes "harbor_inv h"
  shows "\<exists>r out h'. remote_send_handle h source destination type session msg = Ok (r, out, h') \<and> harbor_inv h'"
proof -
  let ?i = "unat (drop_bit HANDLE_REMOTE_SHIFT destination)" and ?hdr = "remote_header source destination type session"
  have wf: "slave_wf (hb_s h ! ?i)" by (rule harbor_inv_slave [OF assms remote_less])
  then obtain q where "push_queue (case sl_queue (hb_s h ! ?i) of None \<Rightarrow> new_queue | Some q \<Rightarrow> q) msg ?hdr = Ok q" "hq_inv q"
    using oq_push [of "sl_queue (hb_s h ! ?i)" msg ?hdr] unfolding slave_wf_def by blast
  then show ?thesis
    using assms wf by (auto simp: remote_send_handle_def Let_def intro!: harbor_inv_set_slave slave_wf_queue)
qed

lemma remote_send_name_inv:
  assumes "harbor_inv h"
  shows "\<exists>r out h'. remote_send_name h source nm type session msg = Ok (r, out, h') \<and> harbor_inv h'"
proof -
  obtain p h1 where p: "find_or_insert h nm = (p, h1)" "harbor_inv h1" "kv_ok h1 p" using find_or_insert_inv [OF assms] by blast
  let ?n = "kv_get h1 p" and ?hdr = "remote_header source 0 type session"
  obtain q where "push_queue (case kv_queue ?n of None \<Rightarrow> new_queue | Some q \<Rightarrow> q) msg ?hdr = Ok q" "hq_inv q"
    using oq_push [OF harbor_inv_kv_get [OF p(2,3)]] by blast
  then show ?thesis using p remote_send_handle_inv [OF p(2)]
    by (auto simp: remote_send_name_def Let_def intro!: harbor_inv_kv_set)
qed

text \<open>What \<open>dispatch_name_queue\<close> does with the queue of a name whose handle is in the harbor \<open>b\<close>.\<close>

lemma dispatch_name_wait:
  assumes "kv_ok h p" "unat (drop_bit HANDLE_REMOTE_SHIFT (kv_value (kv_get h p))) = b" "b < length (hb_s h)"
    "sl_fd (hb_s h ! b) = 0" "sl_status (hb_s h ! b) \<noteq> STATUS_DOWN" "oq_inv (sl_queue (hb_s h ! b))" "hq_inv queue"
  shows "\<exists>sq nq. hq_inv sq \<and> hq_items sq = oq_items (sl_queue (hb_s h ! b)) @ hq_items queue \<and> oq_inv nq \<and>
    dispatch_name_queue h p queue =
     (if drop_bit HANDLE_REMOTE_SHIFT (kv_value (kv_get h p)) = drop_bit HANDLE_REMOTE_SHIFT (hb_slave h)
      then Ok (map (local_msg (kv_value (kv_get h p))) (hq_items sq),
               set_slave (kv_set h p ((kv_get h p)\<lparr>kv_queue := nq\<rparr>)) b ((hb_s h ! b)\<lparr>sl_queue := None\<rparr>))
      else Ok ([], set_slave (kv_set h p ((kv_get h p)\<lparr>kv_queue := nq\<rparr>)) b ((hb_s h ! b)\<lparr>sl_queue := Some sq\<rparr>)))"
proof -
  have rel: "\<exists>q1. fifo_pop_all pop_queue sq = Ok (hq_items sq, q1) \<and> release_queue (Some q1) = Ok ()" if "hq_inv sq" for sq
    using hq.pop_all_ok [OF that] by auto
  show ?thesis
  proof (cases "sl_queue (hb_s h ! b)")
    case None
    then show ?thesis using assms rel [OF assms(7)]
      by (intro exI [of _ queue] exI [of _ None]) (auto simp: dispatch_name_queue_def Let_def)
  next
    case (Some sq)
    obtain q1 where q1: "fifo_pop_all pop_queue queue = Ok (hq_items queue, q1)" "hq_inv q1" using hq.pop_all_ok [OF assms(7)] by blast
    obtain sq1 where sq1: "fifo_push_all push_queue_msg (hq_items queue) sq = Ok sq1" "hq_inv sq1" "hq_items sq1 = hq_items sq @ hq_items queue"
      using hq.push_all_ok [of sq] assms(6) Some by auto
    then show ?thesis using assms Some q1 rel [OF sq1(2)]
      by (intro exI [of _ sq1] exI [of _ "Some q1"]) (auto simp: dispatch_name_queue_def Let_def)
  qed
qed

lemma dispatch_name_queue_inv:
  assumes inv: "harbor_inv h" and p: "kv_ok h p" and q: "hq_inv queue" "kv_queue (kv_get h p) = Some queue"
  shows "\<exists>out h'. dispatch_name_queue h p queue = Ok (out, h') \<and> harbor_inv h' \<and> kv_ok h' p"
proof -
  obtain b where bd: "unat (drop_bit HANDLE_REMOTE_SHIFT (kv_value (kv_get h p))) = b" by blast
  let ?s = "hb_s h ! b"
  have b: "b < length (hb_s h)" "slave_wf ?s"
    using remote_less harbor_inv_len [OF inv] harbor_inv_slave [OF inv] unfolding bd [symmetric] by auto
  show ?thesis
  proof (cases "sl_fd ?s = 0")
    case True
    then have st: "sl_status ?s \<noteq> STATUS_DOWN" "oq_inv (sl_queue ?s)" using b(2) by (simp_all add: slave_wf_def)
    obtain sq nq where r: "hq_inv sq" "oq_inv nq" "dispatch_name_queue h p queue =
     (if drop_bit HANDLE_REMOTE_SHIFT (kv_value (kv_get h p)) = drop_bit HANDLE_REMOTE_SHIFT (hb_slave h)
      then Ok (map (local_msg (kv_value (kv_get h p))) (hq_items sq),
               set_slave (kv_set h p ((kv_get h p)\<lparr>kv_queue := nq\<rparr>)) b (?s\<lparr>sl_queue := None\<rparr>))
      else Ok ([], set_slave (kv_set h p ((kv_get h p)\<lparr>kv_queue := nq\<rparr>)) b (?s\<lparr>sl_queue := Some sq\<rparr>)))"
      using dispatch_name_wait [OF p bd b(1) True st q(1)] by blast
    have inv1: "harbor_inv (set_slave (kv_set h p ((kv_get h p)\<lparr>kv_queue := nq\<rparr>)) b (?s\<lparr>sl_queue := x\<rparr>))" if "oq_inv x" for x
      using that r(2) by (intro harbor_inv_set_slave harbor_inv_kv_set inv slave_wf_queue b(2)) simp_all
    show ?thesis unfolding r(3) using inv1 [of None] inv1 [of "Some sq"] r(1) p by simp
  next
    case False
    obtain q1 where "fifo_pop_all pop_queue queue = Ok (hq_items queue, q1)" "hq_inv q1" using hq.pop_all_ok [OF q(1)] by blast
    moreover from this have "harbor_inv (kv_set h p ((kv_get h p)\<lparr>kv_queue := Some q1\<rparr>))"
      by (intro harbor_inv_kv_set inv) simp
    ultimately show ?thesis using False p by (simp add: dispatch_name_queue_def Let_def bd)
  qed
qed

lemma update_name_inv:
  assumes "harbor_inv h"
  shows "\<exists>out h'. update_name h nm handle = Ok (out, h') \<and> harbor_inv h'"
proof -
  obtain p h1 where p: "find_or_insert h nm = (p, h1)" "harbor_inv h1" "kv_ok h1 p" using find_or_insert_inv [OF assms] by blast
  define h2 where "h2 = kv_set h1 p ((kv_get h1 p)\<lparr>kv_value := handle\<rparr>)"
  have h2: "harbor_inv h2" "kv_ok h2 p" using p harbor_inv_kv_get [OF p(2,3)] by (auto simp: h2_def intro: harbor_inv_kv_set)
  show ?thesis
  proof (cases "kv_queue (kv_get h2 p)")
    case None
    then show ?thesis using p(1) h2 by (simp add: update_name_def Let_def flip: h2_def)
  next
    case (Some q)
    have "hq_inv q" using harbor_inv_kv_get [OF h2] Some by simp
    from dispatch_name_queue_inv [OF h2 this Some] obtain out h3 where
      h3: "dispatch_name_queue h2 p q = Ok (out, h3)" "harbor_inv h3" "kv_ok h3 p" by blast
    have "update_name h nm handle = Ok (out, kv_set h3 p ((kv_get h3 p)\<lparr>kv_queue := None\<rparr>))"
      using p(1) Some h3 harbor_inv_kv_get [OF h3(2,3)] by (simp add: update_name_def Let_def flip: h2_def)
    moreover have "harbor_inv (kv_set h3 p ((kv_get h3 p)\<lparr>kv_queue := None\<rparr>))" by (intro harbor_inv_kv_set h3(2)) simp
    ultimately show ?thesis by blast
  qed
qed

lemma connect_slave_inv:
  assumes "harbor_inv h" "i < REMOTE_MAX" "sl_fd (hb_s h ! i) = 0" "fd \<noteq> 0"
  shows "\<exists>out h'. connect_slave h is_S fd i = Ok (out, h') \<and> harbor_inv h'"
proof -
  have i: "i < length (hb_s h)" and wf: "slave_wf (hb_s h ! i)" using assms harbor_inv_len harbor_inv_slave by auto
  then have st: "sl_status (hb_s h ! i) = STATUS_WAIT" "oq_inv (sl_queue (hb_s h ! i))" using assms(3) by (simp_all add: slave_wf_def)
  show ?thesis
  proof (cases is_S)
    case True
    have "slave_wf ((hb_s h ! i)\<lparr>sl_fd := fd, sl_status := STATUS_HANDSHAKE\<rparr>)" using wf st assms(4) by (simp add: slave_wf_def)
    then show ?thesis using True i harbor_inv_set_slave [OF assms(1)] by (simp add: connect_slave_def Let_def)
  next
    case False
    have "slave_wf ((hb_s h ! i)\<lparr>sl_fd := fd, sl_status := STATUS_HEADER, sl_queue := None\<rparr>)"
      using wf st assms(4) by (simp add: slave_wf_def)
    then show ?thesis using connect_accept [OF i assms(4) st(2)] False harbor_inv_set_slave [OF assms(1)] by simp
  qed
qed

lemma harbor_command_inv:
  assumes "harbor_inv h" "2 \<le> length msg" "length msg < 2 ^ 31"
  shows "\<exists>out h'. harbor_command h msg source = Ok (out, h') \<and> harbor_inv h'"
proof -
  obtain fd j where sc: "scan_two (cstr (byte_str (take (nat (int (length msg) - 2)) (drop 2 msg)) @ [NUL]) 0) = (fd, j)" by fastforce
  have ne: "msg \<noteq> []" "\<not> int (length msg) - 2 < 0" using assms(2) by auto
  have c: "\<exists>out h'. connect_slave h is_S fd (nat j) = Ok (out, h') \<and> harbor_inv h'"
    if "fd \<noteq> 0" "\<not> j \<le> 0" "\<not> j \<ge> int REMOTE_MAX" "sl_fd (hb_s h ! nat j) = 0" for is_S
    using connect_slave_inv [OF assms(1) _ that(4,1)] that(2,3) by simp
  note u = update_name_inv [OF assms(1)]
  show ?thesis unfolding harbor_command_def int_of_size [OF assms(3)] Let_def sc using ne assms(1) c u by auto
qed

lemma harbor_command_short:
  assumes "harbor_inv h" "length msg < 2"
  shows "if msg = [] \<or> msg ! 0 = of_char (CHR ''S'') \<or> msg ! 0 = of_char (CHR ''A'') then harbor_command h msg source = Err Out_of_bounds
    else \<exists>out. harbor_command h msg source = Ok (out, h)"
proof -
  have "int_of_size (length msg) = int (length msg)" using assms(2) by (intro int_of_size) simp
  moreover have "msg = [] \<or> length msg = 1" using assms(2) by (cases msg) auto
  ultimately show ?thesis by (auto simp: harbor_command_def Let_def)
qed

text \<open>The messages on which the service reads outside a buffer: a command without any byte, the commands S and A without the byte
  behind the letter, and data that complete a frame without room for the header.\<close>

definition harbor_overruns :: "harbor \<Rightarrow> int \<Rightarrow> byte list \<Rightarrow> skynet_socket_message \<Rightarrow> bool" where
  "harbor_overruns h type msg sock \<longleftrightarrow>
     type = PTYPE_HARBOR \<and> length msg < 2 \<and> (msg = [] \<or> msg ! 0 = of_char (CHR ''S'') \<or> msg ! 0 = of_char (CHR ''A'')) \<or>
     type = PTYPE_SOCKET \<and> sm_type sock = SKYNET_SOCKET_TYPE_DATA \<and>
       (case harbor_id h (sm_id sock) of None \<Rightarrow> False | Some i \<Rightarrow> data_short i (hb_s h ! i) (sm_buffer sock))"

lemma harbor_id_less: "harbor_id h fd = Some i \<Longrightarrow> 0 < i \<and> i < REMOTE_MAX \<and> sl_fd (hb_s h ! i) = fd"
  by (auto simp: harbor_id_def find_Some_iff)

lemma socket_event_exact:
  assumes "harbor_inv h" "sm_buffer m \<noteq> []"
  shows "if harbor_overruns h PTYPE_SOCKET msg m then socket_event unknown h m = Err Out_of_bounds
    else \<exists>out h'. socket_event unknown h m = Ok (out, h') \<and> harbor_inv h'"
proof (cases "sm_type m = SKYNET_SOCKET_TYPE_DATA")
  case False
  then show ?thesis using assms(1) by (auto simp: socket_event_def Let_def harbor_overruns_def PTYPE_SOCKET_def PTYPE_HARBOR_def)
next
  case True
  then have run: "socket_event unknown h m = push_socket_data unknown h m" by (simp add: socket_event_def)
  show ?thesis
  proof (cases "harbor_id h (sm_id m)")
    case None
    then show ?thesis unfolding run using True assms(1)
      by (simp add: push_socket_data_def harbor_overruns_def PTYPE_SOCKET_def PTYPE_HARBOR_def)
  next
    case (Some i)
    then have "harbor_overruns h PTYPE_SOCKET msg m \<longleftrightarrow> data_short i (hb_s h ! i) (sm_buffer m)"
      using True by (simp add: harbor_overruns_def PTYPE_SOCKET_def PTYPE_HARBOR_def)
    then show ?thesis unfolding run
      using data_loop_exact [OF assms(1), of i "sm_buffer m" unknown] harbor_id_less [OF Some] assms(2) True Some
      by (auto simp: push_socket_data_def split: if_splits)
  qed
qed

lemma mainloop_exact:
  assumes "harbor_inv h" "length msg < 2 ^ 31" "sm_buffer sock \<noteq> []"
  shows "if harbor_overruns h type msg sock then harbor_mainloop unknown h type session source msg sock rmsg = Err Out_of_bounds
    else \<exists>out h'. harbor_mainloop unknown h type session source msg sock rmsg = Ok (out, h') \<and> harbor_inv h'"
proof -
  note types = PTYPE_SOCKET_def PTYPE_HARBOR_def
  consider "type = PTYPE_SOCKET" | "type = PTYPE_HARBOR" | "type \<noteq> PTYPE_SOCKET" "type \<noteq> PTYPE_HARBOR" by blast
  then show ?thesis
  proof cases
    case 1
    then show ?thesis using socket_event_exact [OF assms(1,3), of msg unknown] by (simp add: harbor_mainloop_def)
  next
    case 2
    then have run: "harbor_mainloop unknown h type session source msg sock rmsg = harbor_command h msg source"
      by (simp add: harbor_mainloop_def types)
    show ?thesis
    proof (cases "2 \<le> length msg")
      case True
      then show ?thesis unfolding run using 2 harbor_command_inv [OF assms(1) True assms(2), of source]
        by (simp add: harbor_overruns_def types)
    next
      case False
      then have "harbor_overruns h type msg sock \<longleftrightarrow> msg = [] \<or> msg ! 0 = of_char (CHR ''S'') \<or> msg ! 0 = of_char (CHR ''A'')"
        using 2 by (simp add: harbor_overruns_def types)
      then show ?thesis unfolding run using harbor_command_short [OF assms(1), of msg source] False assms(1) by (auto split: if_splits)
    qed
  next
    case 3
    then show ?thesis
      using remote_send_name_inv [OF assms(1), of source "rm_name rmsg" "rm_type rmsg" session "rm_message rmsg"]
        remote_send_handle_inv [OF assms(1), of source "rm_handle rmsg" "rm_type rmsg" session "rm_message rmsg"] assms(1)
      by (cases "rm_handle rmsg = 0") (auto simp: harbor_mainloop_def harbor_overruns_def)
  qed
qed

lemma harbor_release_slaves:
  assumes "harbor_inv h" "\<forall>i \<in> set ids. i < REMOTE_MAX"
  shows "\<exists>out h'. release_slaves ids h = Ok (out, h') \<and> harbor_inv h'"
  using assms
proof (induction ids arbitrary: h)
  case (Cons i ids)
  show ?case
  proof (cases "sl_fd (hb_s h ! i) \<noteq> 0 \<and> sl_status (hb_s h ! i) \<noteq> STATUS_DOWN")
    case True
    then obtain out h1 where h1: "close_harbor h i = Ok (out, h1)" "harbor_inv h1"
      using close_harbor_ok [OF Cons.prems(1), of i] Cons.prems(2) by auto
    from Cons.IH [OF h1(2)] Cons.prems(2) h1(1) True show ?thesis by fastforce
  next
    case False
    then show ?thesis using Cons by (auto simp: Let_def)
  qed
qed simp

lemma release_chain_ok: "\<forall>node \<in> set nodes. oq_inv (kv_queue node) \<Longrightarrow> release_chain nodes = Ok ()"
  by (induction nodes) simp_all

lemma harbor_release_ok:
  assumes "harbor_inv h"
  shows "\<exists>out. harbor_release h = Ok out"
proof -
  obtain out1 h1 where h1: "release_slaves [1..<REMOTE_MAX] h = Ok (out1, h1)" "harbor_inv h1"
    using harbor_release_slaves [OF assms, of "[1..<REMOTE_MAX]"] by auto
  have "hash_delete (hb_map h1) = Ok ()" using h1(2) unfolding hash_delete_def by (intro release_chain_ok) (auto simp: harbor_inv_def)
  with h1(1) show ?thesis by (simp add: harbor_release_def)
qed

text \<open>A message to the service: which destinations its node does not know at the time, then type, session, source, text, socket
  message and remote message.\<close>

type_synonym harbor_call = "(u32 \<Rightarrow> bool) \<times> int \<times> int \<times> u32 \<times> byte list \<times> skynet_socket_message \<times> remote_message"

fun harbor_run :: "harbor_call list \<Rightarrow> harbor \<Rightarrow> (harbor_out list \<times> harbor) res" where
  "harbor_run [] h = Ok ([], h)"
| "harbor_run ((unknown, type, session, source, msg, sock, rmsg) # ms) h =
     res_bind (harbor_mainloop unknown h type session source msg sock rmsg) (\<lambda>(out, h1).
     res_bind (harbor_run ms h1) (\<lambda>(out', h2). Ok (out @ out', h2)))"

text \<open>A text has less than 2G bytes, and a socket message has data.\<close>

fun call_ok :: "harbor_call \<Rightarrow> bool" where
  "call_ok (unknown, type, session, source, msg, sock, rmsg) \<longleftrightarrow> length msg < 2 ^ 31 \<and> sm_buffer sock \<noteq> []"

fun overruns_in :: "harbor_call list \<Rightarrow> harbor \<Rightarrow> bool" where
  "overruns_in [] h \<longleftrightarrow> False"
| "overruns_in ((unknown, type, session, source, msg, sock, rmsg) # ms) h \<longleftrightarrow> harbor_overruns h type msg sock \<or>
     (case harbor_mainloop unknown h type session source msg sock rmsg of Ok (_, h1) \<Rightarrow> overruns_in ms h1 | Err _ \<Rightarrow> False)"

lemma harbor_run_exact:
  assumes "harbor_inv h" "\<forall>c \<in> set ms. call_ok c"
  shows "if overruns_in ms h then harbor_run ms h = Err Out_of_bounds
    else \<exists>out h'. harbor_run ms h = Ok (out, h') \<and> harbor_inv h'"
  using assms
proof (induction ms arbitrary: h)
  case (Cons a ms)
  obtain unknown type session source msg sock rmsg where a: "a = (unknown, type, session, source, msg, sock, rmsg)" by (cases a)
  have ok: "length msg < 2 ^ 31" "sm_buffer sock \<noteq> []" using Cons.prems(2) a by simp_all
  note step = mainloop_exact [OF Cons.prems(1) ok, of type unknown session source rmsg]
  show ?case
  proof (cases "harbor_overruns h type msg sock")
    case True
    then show ?thesis using step a by simp
  next
    case False
    then obtain out h1 where "harbor_mainloop unknown h type session source msg sock rmsg = Ok (out, h1)" "harbor_inv h1"
      using step by auto
    then show ?thesis using Cons.IH [of h1] Cons.prems(2) False a by (auto split: if_splits)
  qed
qed simp

lemma harbor_init_inv: "harbor_inv h \<Longrightarrow> harbor_inv (snd (harbor_init h args))"
  by (simp add: harbor_init_def Let_def harbor_inv_def split: prod.split)


text \<open>The harbor 1 connects to harbor 3 over socket 7; 3 shakes hands; then a frame of one byte arrives.\<close>

definition harbor_demo_sock :: "byte list \<Rightarrow> skynet_socket_message" where
  "harbor_demo_sock bs = \<lparr>sm_type = 1, sm_id = 7, sm_ud = int (length bs), sm_buffer = bs, sm_tail = []\<rparr>"

definition harbor_demo_calls :: "byte list \<Rightarrow> harbor_call list" where
  "harbor_demo_calls bs =
     (let none = \<lparr>rm_name = [], rm_handle = 0, rm_message = [], rm_type = 0\<rparr> in
      [(\<lambda>_. False, PTYPE_HARBOR, 0, 1, connect_text CHR ''S'' 7 3, harbor_demo_sock [0], none),
       (\<lambda>_. False, PTYPE_SOCKET, 0, 0, [], harbor_demo_sock (3 # bs), none)])"


text \<open>A connection that broke down is never replaced, and the loss is not reported. The branch of
  \<open>remote_send_handle\<close> that answers with an error is never taken, because \<open>close_harbor\<close> leaves the socket in
  the slave: in every well-formed state a message to a slave that is DOWN is written to its closed socket and nothing
  is sent to its source, and the command to connect the slave again is refused.\<close>

lemma harbor_down_silent:
  assumes "harbor_inv h" and "sl_status (hb_s h ! b) = STATUS_DOWN" and "0 < b" and "b < REMOTE_MAX" and "int b \<noteq> hb_id h"
    and "unat (drop_bit HANDLE_REMOTE_SHIFT destination) = b" and "0 < fd" and "fd < 2 ^ 31"
  shows "remote_send_handle h source destination type session msg =
      Ok (0, send_remote (sl_fd (hb_s h ! b)) msg (remote_header source destination type session), h) \<and>
    harbor_command h (connect_text CHR ''A'' fd b) source = Ok ([Log ''Harbor alreay exist''], h)"
proof -
  have fd: "sl_fd (hb_s h ! b) \<noteq> 0" using harbor_inv_slave [OF assms(1,4)] assms(2) by (auto simp: slave_wf_def)
  have "remote_send_handle h source destination type session msg =
      Ok (0, send_remote (sl_fd (hb_s h ! b)) msg (remote_header source destination type session), h)"
    unfolding remote_send_handle_def assms(6) Let_def using fd assms(2,5) by simp
  moreover have "harbor_command h (connect_text CHR ''A'' fd b) source = Ok ([Log ''Harbor alreay exist''], h)"
    using fd assms(3,4) command_connect [of "CHR ''A''" fd b h source] assms(7,8) by simp
  ultimately show ?thesis by blast
qed

definition harbor_down_demo :: harbor where
  "harbor_down_demo = set_slave (harbor_create\<lparr>hb_id := 1\<rparr>) 2 (slave_zero\<lparr>sl_fd := 9, sl_status := STATUS_DOWN\<rparr>)"

lemma harbor_down_silent_witness:
  "remote_send_handle harbor_down_demo 5 0x02000007 10 3 [65] =
    Ok (0, [Sock_send 9 [0, 0, 0, 13, 65, 0, 0, 0, 5, 10, 0, 0, 7, 0, 0, 0, 3]], harbor_down_demo)"
proof -
  have s: "hb_s harbor_down_demo ! 2 = slave_zero\<lparr>sl_fd := 9, sl_status := STATUS_DOWN\<rparr>" "hb_id harbor_down_demo = 1"
    by (simp_all add: harbor_down_demo_def harbor_create_def REMOTE_MAX_def)
  have "harbor_inv (harbor_create\<lparr>hb_id := 1\<rparr>)" using harbor_inv_create by (simp add: harbor_inv_def)
  then have inv: "harbor_inv harbor_down_demo"
    unfolding harbor_down_demo_def by (rule harbor_inv_set_slave) (simp add: slave_wf_def slave_zero_def)
  have "send_remote 9 [65] (remote_header 5 0x02000007 10 3) = [Sock_send 9 [0, 0, 0, 13, 65, 0, 0, 0, 5, 10, 0, 0, 7, 0, 0, 0, 3]]"
    by (simp add: send_remote_def remote_header_def to_bigendian_def header_to_message_def HANDLE_REMOTE_SHIFT_def HANDLE_MASK_def)
  moreover have "unat (drop_bit HANDLE_REMOTE_SHIFT (0x02000007 :: u32)) = 2" by (simp add: HANDLE_REMOTE_SHIFT_def)
  ultimately show ?thesis
    using harbor_down_silent [OF inv, of 2 "0x02000007" 9 5 10 3 "[65]"] s by (simp add: REMOTE_MAX_def slave_zero_def)
qed

text \<open>Sending a message by name, then learning the name, then connecting the node of its handle.\<close>

definition name_run :: "byte list \<Rightarrow> u32 \<Rightarrow> int \<Rightarrow> int \<Rightarrow> byte list \<Rightarrow> u32 \<Rightarrow> int \<Rightarrow> nat \<Rightarrow> harbor \<Rightarrow> harbor_out list res" where
  "name_run nm source type session msg handle fd b h =
     res_bind (remote_send_name h source nm type session msg) (\<lambda>(_, out1, h1).
     res_bind (update_name h1 nm handle) (\<lambda>(out2, h2).
     res_bind (harbor_command h2 (connect_text CHR ''A'' fd b) 0) (\<lambda>(out3, _). Ok (out1 @ out2 @ out3))))"

lemma find_inserted:
  assumes "hash_search (hb_map h) nm = None"
  shows "\<exists>p h1. find_or_insert h nm = (p, h1) \<and> kv_ok h1 p \<and> kv_value (kv_get h1 p) = 0 \<and> kv_queue (kv_get h1 p) = None \<and>
    hb_s h1 = hb_s h \<and> hb_id h1 = hb_id h \<and> hb_slave h1 = hb_slave h \<and>
    (\<forall>q. find_or_insert (kv_set h1 p ((kv_get h1 p)\<lparr>kv_queue := q\<rparr>)) nm = (p, kv_set h1 p ((kv_get h1 p)\<lparr>kv_queue := q\<rparr>)))"
  using assms
  by (auto simp: find_or_insert_def hash_insert_def Let_def kv_ok_def kv_get_def kv_set_def hash_search_def same_name_def)

text \<open>A message sent by name before its node is connected loses its destination. The handle that the name
  stands for is merged into the header only when the queue of the name is sent at once; a queue that is handed to
  the slave, because its node is not connected yet, is sent with the destination 0.\<close>

lemma harbor_name_lost:
  assumes "idle_slave h b" and "hash_search (hb_map h) nm = None"
    and "unat (drop_bit HANDLE_REMOTE_SHIFT handle) = b"
    and "drop_bit HANDLE_REMOTE_SHIFT handle \<noteq> drop_bit HANDLE_REMOTE_SHIFT (hb_slave h)"
    and "0 < fd" and "fd < 2 ^ 31" and "length msg + 12 < 2 ^ 32"
  shows "\<exists>out. name_run nm source type session msg handle fd b h = Ok out \<and>
    wire fd out = of_int (hb_id h) # msg_frame \<lparr>hm_header = remote_header source 0 type session, hm_buffer = msg\<rparr>"
proof -
  let ?m = "\<lparr>hm_header = remote_header source 0 type session, hm_buffer = msg\<rparr>"
  have b: "0 < b" "b < REMOTE_MAX" "b < length (hb_s h)" "hb_s h ! b = slave_zero" using assms(1) by (auto simp: idle_slave_def)
  obtain p h1 where p: "find_or_insert h nm = (p, h1)" "kv_ok h1 p" "kv_value (kv_get h1 p) = 0" "kv_queue (kv_get h1 p) = None"
      "hb_s h1 = hb_s h" "hb_id h1 = hb_id h" "hb_slave h1 = hb_slave h"
      "\<forall>q. find_or_insert (kv_set h1 p ((kv_get h1 p)\<lparr>kv_queue := q\<rparr>)) nm = (p, kv_set h1 p ((kv_get h1 p)\<lparr>kv_queue := q\<rparr>))"
    using find_inserted [OF assms(2)] by blast
  obtain q where q: "push_queue new_queue msg (remote_header source 0 type session) = Ok q" "hq_inv q" "hq_items q = [?m]"
    using oq_push [of None] by auto
  define h2 where "h2 = kv_set h1 p ((kv_get h1 p)\<lparr>kv_queue := Some q\<rparr>)"
  have send: "\<exists>out. remote_send_name h source nm type session msg = Ok (1, out, h2) \<and> wire fd out = []"
    using p q(1) by (simp add: remote_send_name_def Let_def h2_def)
  define h3 where "h3 = kv_set h2 p ((kv_get h2 p)\<lparr>kv_value := handle\<rparr>)"
  have h3: "kv_ok h3 p" "kv_value (kv_get h3 p) = handle" "kv_queue (kv_get h3 p) = Some q" "hb_s h3 = hb_s h" "hb_slave h3 = hb_slave h"
      "hb_id h3 = hb_id h" using p by (simp_all add: h3_def h2_def)
  obtain sq nq where sq: "hq_inv sq" "hq_items sq = [?m]" "oq_inv nq" "dispatch_name_queue h3 p q =
      Ok ([], set_slave (kv_set h3 p ((kv_get h3 p)\<lparr>kv_queue := nq\<rparr>)) b (slave_zero\<lparr>sl_queue := Some sq\<rparr>))"
    using dispatch_name_wait [OF h3(1), of b q] h3 b assms(3,4) q(2,3) by (auto simp: slave_zero_def)
  define h4 where "h4 = set_slave (kv_set h3 p ((kv_get h3 p)\<lparr>kv_queue := nq\<rparr>)) b (slave_zero\<lparr>sl_queue := Some sq\<rparr>)"
  define h5 where "h5 = kv_set h4 p ((kv_get h4 p)\<lparr>kv_queue := None\<rparr>)"
  have "find_or_insert h2 nm = (p, h2)" using p(8) by (simp add: h2_def)
  then have upd: "update_name h2 nm handle = Ok ([], h5)"
    using sq(3,4) h3(1,3) by (simp add: update_name_def Let_def h5_def flip: h3_def h4_def) (simp add: h4_def)
  have h5: "hb_s h5 ! b = slave_zero\<lparr>sl_queue := Some sq\<rparr>" "b < length (hb_s h5)" "hb_id h5 = hb_id h"
    using b(3) h3 by (simp_all add: h5_def h4_def)
  have "harbor_command h5 (connect_text CHR ''A'' fd b) 0 = connect_slave h5 False fd b"
    using command_connect [of "CHR ''A''" fd b h5 0] assms(5,6) b h5 by (simp add: slave_zero_def)
  then have "\<exists>h6. harbor_command h5 (connect_text CHR ''A'' fd b) 0 =
      Ok (Sock_start fd # Sock_send fd [of_int (hb_id h)] # concat (map (send_msg fd) [?m]), h6)"
    using connect_accept [OF h5(2), of fd] assms(5) sq(1,2) h5 by (simp add: slave_zero_def)
  then show ?thesis using send upd send_msg_wire [of ?m fd] assms(7) by (auto simp: name_run_def)
qed

lemma harbor_name_lost_witness:
  "\<exists>out. name_run (replicate 16 97) 5 10 0 [65] 0x02000007 9 2 (harbor_create\<lparr>hb_id := 1, hb_slave := 0x01000003\<rparr>) = Ok out \<and>
    wire 9 out = [1, 0, 0, 0, 13, 65, 0, 0, 0, 5, 10, 0, 0, 0, 0, 0, 0, 0]"
proof -
  let ?h = "harbor_create\<lparr>hb_id := 1, hb_slave := 0x01000003\<rparr>"
  have "idle_slave ?h 2" by (simp add: idle_slave_def harbor_create_def REMOTE_MAX_def)
  moreover have "hash_search (hb_map ?h) (replicate 16 97) = None" by (simp add: harbor_create_def hash_new_def hash_search_def)
  moreover have "unat (drop_bit HANDLE_REMOTE_SHIFT (0x02000007 :: u32)) = 2"
    "drop_bit HANDLE_REMOTE_SHIFT (0x02000007 :: u32) \<noteq> drop_bit HANDLE_REMOTE_SHIFT (hb_slave ?h)"
    by (simp_all add: HANDLE_REMOTE_SHIFT_def)
  moreover have "send_msg 9 \<lparr>hm_header = remote_header 5 0 10 0, hm_buffer = [65]\<rparr> =
      [Sock_send 9 [0, 0, 0, 13, 65, 0, 0, 0, 5, 10, 0, 0, 0, 0, 0, 0, 0]]"
    by (simp add: send_msg_def send_remote_def remote_header_def to_bigendian_def header_to_message_def HANDLE_REMOTE_SHIFT_def)
  then have "msg_frame \<lparr>hm_header = remote_header 5 0 10 0, hm_buffer = [65]\<rparr> = [0, 0, 0, 13, 65, 0, 0, 0, 5, 10, 0, 0, 0, 0, 0, 0, 0]"
    using send_msg_wire [of "\<lparr>hm_header = remote_header 5 0 10 0, hm_buffer = [65]\<rparr>" 9] by simp
  ultimately show ?thesis using harbor_name_lost [of ?h 2 "replicate 16 97" "0x02000007" 9 "[65]" 5 10 0] by simp
qed

end
