(* ===== verification/Skynet_Server.thy ===== *)
theory Skynet_Server
  imports Skynet_Sched Skynet_Timer Skynet_Harbor
begin

text \<open>
  The services and the calls they make: \<open>skynet-src/skynet_server.c\<close>, with \<open>skynet_harbor.c\<close>,
  \<open>skynet_monitor.c\<close>, \<open>skynet_error.c\<close> and \<open>skynet_env.c\<close>. A node holds the contexts (by address; \<open>None\<close> is
  freed or never allocated), the handle storage, the message queues, the timer and the global variables.
  Every function is translated whole; what one thread does between two locks is not interleaved here, the
  interleavings are the step relation of \<open>Skynet_Life\<close>.

  The code of the services is the parameter \<open>M\<close>: which modules exist, what their \<open>_init\<close>, \<open>_release\<close> and
  \<open>_signal\<close> functions and their callbacks do to the node, and the CPU clock of the thread. \<open>img\<close> gives the bytes of a
  \<open>struct remote_message\<close> in memory. A session is an \<open>int\<close>, kept as its 32 bits.
\<close>

section \<open>Data\<close>

record skynet_context =
  cx_mod :: string
  cx_cb :: bool
  cx_queue :: qptr
  cx_logfile :: bool
  cx_cpu_cost :: u64
  cx_cpu_start :: u64
  cx_result :: string
  cx_handle :: u32
  cx_session_id :: u32
  cx_ref :: int
  cx_message_count :: u32
  cx_init :: bool
  cx_endless :: bool
  cx_profile :: bool

text \<open>\<open>G_NODE\<close>, the heap of contexts, and the state of the other files. \<open>nd_next\<close> is the next address that
  \<open>skynet_malloc\<close> returns for a context or a queue.\<close>

record node =
  nd_total :: int
  nd_monitor_exit :: u32
  nd_profile :: bool
  nd_ctx :: "cptr \<Rightarrow> skynet_context option"
  nd_next :: nat
  nd_handles :: handle_storage
  nd_world :: mq_world
  nd_timer :: timer
  nd_harbor :: u32
  nd_remote :: "cptr option"
  nd_logger :: u32
  nd_env :: "string \<Rightarrow> string option"
  nd_key :: u32

record modules =
  md_query :: "string \<Rightarrow> bool"
  md_create :: "string \<Rightarrow> bool"
  md_start :: "string \<Rightarrow> cptr \<Rightarrow> string option \<Rightarrow> node \<Rightarrow> (int \<times> node) res"
  md_release :: "string \<Rightarrow> cptr \<Rightarrow> node \<Rightarrow> node res"
  md_signal :: "string \<Rightarrow> cptr \<Rightarrow> int \<Rightarrow> node \<Rightarrow> node res"
  md_cb :: "cptr \<Rightarrow> int \<Rightarrow> u32 \<Rightarrow> u32 \<Rightarrow> byte list option \<Rightarrow> u64 \<Rightarrow> node \<Rightarrow> (int \<times> node) res"
  md_time :: "node \<Rightarrow> u64"
  md_lf :: "u64 \<Rightarrow> string"
  md_logopen :: "u32 \<Rightarrow> bool"

definition PTYPE_RESPONSE :: int where "PTYPE_RESPONSE = 1"
definition PTYPE_TAG_ALLOCSESSION :: int where "PTYPE_TAG_ALLOCSESSION = 0x20000"
definition MESSAGE_TYPE_MASK :: u64 where "MESSAGE_TYPE_MASK = 0xffffffffffffff"
definition MESSAGE_TYPE_SHIFT :: nat where "MESSAGE_TYPE_SHIFT = 56"

text \<open>Access to a context through a pointer.\<close>

definition cx_get :: "node \<Rightarrow> cptr \<Rightarrow> skynet_context res" where
  "cx_get n c = (case nd_ctx n c of None \<Rightarrow> Err Use_after_free | Some x \<Rightarrow> Ok x)"

definition cx_set :: "node \<Rightarrow> cptr \<Rightarrow> skynet_context \<Rightarrow> node" where
  "cx_set n c x = n\<lparr>nd_ctx := (nd_ctx n)(c \<mapsto> x)\<rparr>"

definition cx_ptr :: "cptr option \<Rightarrow> cptr res" where
  "cx_ptr p = (case p of None \<Rightarrow> Err Null_deref | Some c \<Rightarrow> Ok c)"

definition context_handle :: "node \<Rightarrow> cptr \<Rightarrow> u32" where
  "context_handle n c = (case nd_ctx n c of None \<Rightarrow> 0 | Some x \<Rightarrow> cx_handle x)"

definition on_world :: "(mq_world \<Rightarrow> mq_world res) \<Rightarrow> node \<Rightarrow> node res" where
  "on_world f n = res_bind (f (nd_world n)) (\<lambda>w. Ok (n\<lparr>nd_world := w\<rparr>))"

section \<open>Reference counts\<close>

definition skynet_context_total :: "node \<Rightarrow> int" where
  "skynet_context_total n = nd_total n"

definition context_inc :: "node \<Rightarrow> node" where
  "context_inc n = n\<lparr>nd_total := nd_total n + 1\<rparr>"

definition context_dec :: "node \<Rightarrow> node" where
  "context_dec n = n\<lparr>nd_total := nd_total n - 1\<rparr>"

definition skynet_context_grab :: "cptr \<Rightarrow> node \<Rightarrow> node res" where
  "skynet_context_grab c n = res_bind (cx_get n c) (\<lambda>x. Ok (cx_set n c (x\<lparr>cx_ref := cx_ref x + 1\<rparr>)))"

definition skynet_context_reserve :: "cptr \<Rightarrow> node \<Rightarrow> node res" where
  "skynet_context_reserve c n = res_bind (skynet_context_grab c n) (\<lambda>n1. Ok (context_dec n1))"

definition delete_context :: "modules \<Rightarrow> cptr \<Rightarrow> node \<Rightarrow> node res" where
  "delete_context M c n =
     res_bind (cx_get n c) (\<lambda>x.
     res_bind (md_release M (cx_mod x) c n) (\<lambda>n1.
     res_bind (on_world (skynet_mq_mark_release (cx_queue x)) n1) (\<lambda>n2.
     Ok (context_dec (n2\<lparr>nd_ctx := (nd_ctx n2)(c := None)\<rparr>)))))"

text \<open>The result tells whether the context is still there.\<close>

definition skynet_context_release :: "modules \<Rightarrow> cptr \<Rightarrow> node \<Rightarrow> (bool \<times> node) res" where
  "skynet_context_release M c n =
     res_bind (cx_get n c) (\<lambda>x.
     let n1 = cx_set n c (x\<lparr>cx_ref := cx_ref x - 1\<rparr>) in
     if cx_ref x - 1 = 0 then res_bind (delete_context M c n1) (\<lambda>n2. Ok (False, n2)) else Ok (True, n1))"

text \<open>\<open>skynet_handle_grab\<close> and \<open>skynet_handle_retire\<close> with the reference counting of their callers' context.\<close>

definition handle_grab :: "u32 \<Rightarrow> node \<Rightarrow> (cptr option \<times> node) res" where
  "handle_grab h n =
     (case skynet_handle_grab (context_handle n) (nd_handles n) h of
        None \<Rightarrow> Ok (None, n)
      | Some c \<Rightarrow> res_bind (skynet_context_grab c n) (\<lambda>n1. Ok (Some c, n1)))"

definition handle_retire :: "modules \<Rightarrow> u32 \<Rightarrow> node \<Rightarrow> (int \<times> node) res" where
  "handle_retire M h n =
     res_bind (skynet_handle_retire (context_handle n) h (nd_handles n)) (\<lambda>(r, s).
     let n1 = n\<lparr>nd_handles := s\<rparr> in
     case r of
       None \<Rightarrow> Ok (0, n1)
     | Some c \<Rightarrow> res_bind (skynet_context_release M c n1) (\<lambda>(_, n2). Ok (1, n2)))"

text \<open>\<open>skynet_handle_retireall\<close>: a pass over the slots with the number of contexts it retired, and passes until one
  retires nothing. The size of the table is read again for every slot.\<close>

partial_function (option) retireall_slots :: "modules \<Rightarrow> nat \<Rightarrow> int \<Rightarrow> node \<Rightarrow> (int \<times> node) res option" where
  "retireall_slots M i k n =
     (if i < slot_size (nd_handles n) then
        (let handle = (case slot (nd_handles n) ! i of None \<Rightarrow> 0 | Some c \<Rightarrow> context_handle n c) in
         if handle \<noteq> 0 then
           (case handle_retire M handle n of
              Err e \<Rightarrow> Some (Err e)
            | Ok (r, n1) \<Rightarrow> retireall_slots M (Suc i) (if r \<noteq> 0 then k + 1 else k) n1)
         else retireall_slots M (Suc i) k n)
      else Some (Ok (k, n)))"

declare retireall_slots.simps [code]

partial_function (option) retireall_rounds :: "modules \<Rightarrow> node \<Rightarrow> node res option" where
  "retireall_rounds M n =
     Option.bind (retireall_slots M 0 0 n) (\<lambda>r.
     case r of
       Err e \<Rightarrow> Some (Err e)
     | Ok (k, n1) \<Rightarrow> if k = 0 then Some (Ok n1) else retireall_rounds M n1)"

declare retireall_rounds.simps [code]

definition handle_retireall :: "modules \<Rightarrow> node \<Rightarrow> node res" where
  "handle_retireall M n = (case retireall_rounds M n of None \<Rightarrow> Err Diverge | Some r \<Rightarrow> r)"

definition skynet_context_push :: "modules \<Rightarrow> u32 \<Rightarrow> skynet_message \<Rightarrow> node \<Rightarrow> (int \<times> node) res" where
  "skynet_context_push M handle message n =
     res_bind (handle_grab handle n) (\<lambda>(r, n1).
     case r of
       None \<Rightarrow> Ok (-1, n1)
     | Some c \<Rightarrow>
         res_bind (cx_get n1 c) (\<lambda>x.
         res_bind (on_world (skynet_mq_push (cx_queue x) message) n1) (\<lambda>n2.
         res_bind (skynet_context_release M c n2) (\<lambda>(_, n3). Ok (0, n3)))))"

definition skynet_context_endless :: "modules \<Rightarrow> u32 \<Rightarrow> node \<Rightarrow> node res" where
  "skynet_context_endless M handle n =
     res_bind (handle_grab handle n) (\<lambda>(r, n1).
     case r of
       None \<Rightarrow> Ok n1
     | Some c \<Rightarrow>
         res_bind (cx_get n1 c) (\<lambda>x.
         res_bind (skynet_context_release M c (cx_set n1 c (x\<lparr>cx_endless := True\<rparr>))) (\<lambda>(_, n2). Ok n2)))"

definition skynet_context_newsession :: "cptr \<Rightarrow> node \<Rightarrow> (u32 \<times> node) res" where
  "skynet_context_newsession c n =
     res_bind (cx_get n c) (\<lambda>x.
     let session = cx_session_id x + 1 in
     if sint session \<le> 0 then Ok (1, cx_set n c (x\<lparr>cx_session_id := 1\<rparr>))
     else Ok (session, cx_set n c (x\<lparr>cx_session_id := session\<rparr>)))"

section \<open>Text\<close>

definition hex_digits :: string where
  "hex_digits = ''0123456789ABCDEF''"

definition id_to_hex :: "u32 \<Rightarrow> string" where
  "id_to_hex i = CHR '':'' # map (\<lambda>k. hex_digits ! unat (drop_bit ((7 - k) * 4) i AND 0xf)) [0..<8]"

text \<open>The formats \<open>%x\<close> and \<open>%08x\<close>.\<close>

definition hex_text :: "u32 \<Rightarrow> string" where
  "hex_text h = nat_text 16 (unat h)"

definition hex8_text :: "u32 \<Rightarrow> string" where
  "hex8_text h = (let t = hex_text h in replicate (8 - length t) CHR ''0'' @ t)"

definition copy_name :: "string \<Rightarrow> byte list" where
  "copy_name addr = (let s = str_bytes (take GLOBALNAME_LENGTH addr) in s @ replicate (GLOBALNAME_LENGTH - length s) 0)"

section \<open>Errors\<close>

text \<open>\<open>skynet_error\<close> sends the text to the service with the name \<open>logger\<close>, whose handle it keeps.\<close>

definition skynet_error :: "modules \<Rightarrow> cptr option \<Rightarrow> string \<Rightarrow> node \<Rightarrow> node res" where
  "skynet_error M context msg n =
     res_bind (if nd_logger n = 0 then skynet_handle_findname (nd_handles n) ''logger'' else Ok (nd_logger n)) (\<lambda>logger.
     let n1 = n\<lparr>nd_logger := logger\<rparr> in
     if logger = 0 then Ok n1
     else
       res_bind (case context of None \<Rightarrow> Ok 0 | Some c \<Rightarrow> res_bind (cx_get n1 c) (\<lambda>x. Ok (cx_handle x))) (\<lambda>source.
       res_bind (skynet_context_push M logger
           \<lparr>msg_source = source, msg_session = 0, msg_data = Some (str_bytes msg), msg_sz = of_nat (length msg)\<rparr> n1) (\<lambda>(_, n2).
       Ok n2)))"

section \<open>Remote messages\<close>

definition skynet_context_send :: "cptr \<Rightarrow> byte list option \<Rightarrow> u64 \<Rightarrow> u32 \<Rightarrow> int \<Rightarrow> u32 \<Rightarrow> node \<Rightarrow> node res" where
  "skynet_context_send c msg sz source type session n =
     res_bind (cx_get n c) (\<lambda>x.
     on_world (skynet_mq_push (cx_queue x)
       \<lparr>msg_source = source, msg_session = session, msg_data = msg,
        msg_sz = sz OR push_bit MESSAGE_TYPE_SHIFT (of_int type)\<rparr>) n)"

definition invalid_type :: "int \<Rightarrow> bool" where
  "invalid_type type \<longleftrightarrow> type \<noteq> PTYPE_SYSTEM \<and> type \<noteq> PTYPE_HARBOR"

definition skynet_harbor_send :: "(remote_message \<Rightarrow> byte list) \<Rightarrow> remote_message \<Rightarrow> u32 \<Rightarrow> u32 \<Rightarrow> node \<Rightarrow> node res" where
  "skynet_harbor_send img rmsg source session n =
     res_bind (res_assert (invalid_type (rm_type rmsg) \<and> nd_remote n \<noteq> None)) (\<lambda>_.
     skynet_context_send (the (nd_remote n)) (Some (img rmsg)) 48 source PTYPE_SYSTEM session n)"

definition skynet_harbor_message_isremote :: "node \<Rightarrow> u32 \<Rightarrow> bool res" where
  "skynet_harbor_message_isremote n handle =
     res_bind (res_assert (nd_harbor n \<noteq> -1)) (\<lambda>_.
     let h = handle AND NOT HANDLE_MASK in Ok (h \<noteq> nd_harbor n \<and> h \<noteq> 0))"

definition skynet_harbor_init :: "int \<Rightarrow> node \<Rightarrow> node" where
  "skynet_harbor_init hid n = n\<lparr>nd_harbor := push_bit HANDLE_REMOTE_SHIFT (of_int hid)\<rparr>"

definition skynet_harbor_start :: "cptr \<Rightarrow> node \<Rightarrow> node res" where
  "skynet_harbor_start c n = res_bind (skynet_context_reserve c n) (\<lambda>n1. Ok (n1\<lparr>nd_remote := Some c\<rparr>))"

definition skynet_harbor_exit :: "modules \<Rightarrow> node \<Rightarrow> node res" where
  "skynet_harbor_exit M n =
     (let n1 = n\<lparr>nd_remote := None\<rparr> in
      case nd_remote n of
        None \<Rightarrow> Ok n1
      | Some c \<Rightarrow> res_bind (skynet_context_release M c n1) (\<lambda>(_, n2). Ok n2))"

definition skynet_isremote :: "node \<Rightarrow> u32 \<Rightarrow> (bool \<times> int) res" where
  "skynet_isremote n handle =
     res_bind (skynet_harbor_message_isremote n handle) (\<lambda>ret.
     Ok (ret, uint (drop_bit HANDLE_REMOTE_SHIFT handle)))"

section \<open>Sending\<close>

text \<open>\<open>_filter_args\<close>: allocate a session, copy the data, put the type into the size.\<close>

definition filter_args ::
    "cptr option \<Rightarrow> int \<Rightarrow> u32 \<Rightarrow> byte list option \<Rightarrow> u64 \<Rightarrow> node \<Rightarrow> (u32 \<times> byte list option \<times> u64 \<times> node) res" where
  "filter_args context type session data sz n =
     res_bind
       (if type AND PTYPE_TAG_ALLOCSESSION \<noteq> 0 then
          res_bind (res_assert (session = 0)) (\<lambda>_.
          res_bind (cx_ptr context) (\<lambda>c. skynet_context_newsession c n))
        else Ok (session, n)) (\<lambda>(session1, n1).
     res_bind
       (case data of
          None \<Rightarrow> Ok None
        | Some d \<Rightarrow>
            if type AND PTYPE_TAG_DONTCOPY = 0
            then if unat sz \<le> length d then Ok (Some (take (unat sz) d)) else Err Out_of_bounds
            else Ok (Some d)) (\<lambda>data1.
     Ok (session1, data1, sz OR push_bit MESSAGE_TYPE_SHIFT (of_int (type AND 0xff)), n1)))"

definition too_large :: "u64 \<Rightarrow> bool" where
  "too_large sz \<longleftrightarrow> sz AND MESSAGE_TYPE_MASK \<noteq> sz"

text \<open>The message for the harbor. \<open>skynet_send\<close> leaves \<open>destination.name\<close> unwritten, which the harbor reads only when the handle
  is 0; it is zero here.\<close>

definition remote_to :: "byte list \<Rightarrow> u32 \<Rightarrow> byte list option \<Rightarrow> u64 \<Rightarrow> remote_message" where
  "remote_to nm handle data sz =
     \<lparr>rm_name = nm, rm_handle = handle, rm_message = (case data of None \<Rightarrow> [] | Some d \<Rightarrow> take (unat (sz AND MESSAGE_TYPE_MASK)) d),
      rm_type = uint (drop_bit MESSAGE_TYPE_SHIFT sz)\<rparr>"

definition skynet_send ::
    "modules \<Rightarrow> (remote_message \<Rightarrow> byte list) \<Rightarrow> cptr option \<Rightarrow> u32 \<Rightarrow> u32 \<Rightarrow> int \<Rightarrow> u32 \<Rightarrow> byte list option \<Rightarrow> u64 \<Rightarrow> node \<Rightarrow>
     (int \<times> node) res" where
  "skynet_send M img context source destination type session data sz n =
     (if too_large sz then
        res_bind (skynet_error M context (''The message to '' @ hex_text destination @ '' is too large'') n) (\<lambda>n1. Ok (-2, n1))
      else
        res_bind (filter_args context type session data sz n) (\<lambda>(session1, data1, sz1, n1).
        res_bind (if source = 0 then res_bind (cx_ptr context) (\<lambda>c. res_bind (cx_get n1 c) (\<lambda>x. Ok (cx_handle x))) else Ok source) (\<lambda>source1.
        if destination = 0 then
          if data1 \<noteq> None then
            res_bind (skynet_error M context ''Destination address can't be 0'' n1) (\<lambda>n2. Ok (-1, n2))
          else Ok (sint session1, n1)
        else
          res_bind (skynet_harbor_message_isremote n1 destination) (\<lambda>remote.
          if remote then
            res_bind (skynet_harbor_send img (remote_to (replicate GLOBALNAME_LENGTH 0) destination data1 sz1) source1 session1 n1) (\<lambda>n2.
            Ok (sint session1, n2))
          else
            res_bind (skynet_context_push M destination
              \<lparr>msg_source = source1, msg_session = session1, msg_data = data1, msg_sz = sz1\<rparr> n1) (\<lambda>(r, n2).
            Ok (if r \<noteq> 0 then -1 else sint session1, n2))))))"

definition skynet_resume ::
    "modules \<Rightarrow> (remote_message \<Rightarrow> byte list) \<Rightarrow> cptr option \<Rightarrow> u32 \<Rightarrow> u32 \<Rightarrow> byte list option \<Rightarrow> u64 \<Rightarrow> node \<Rightarrow> (int \<times> node) res" where
  "skynet_resume M img context handle session data sz n =
     (if too_large sz then
        res_bind (skynet_error M context (''The message to handle = '' @ hex_text handle @ '', session = '' @ hex_text session @
          '', sz = '' @ hex_text (ucast sz) @ ''  is too large'') n) (\<lambda>n1. Ok (-1, n1))
      else
        let sz1 = sz OR push_bit MESSAGE_TYPE_SHIFT (of_int PTYPE_RESPONSE) in
        res_bind (skynet_harbor_message_isremote n handle) (\<lambda>remote.
        if remote then
          res_bind (skynet_harbor_send img (remote_to (replicate GLOBALNAME_LENGTH 0) handle data sz1) 0 session n) (\<lambda>n1. Ok (0, n1))
        else
          res_bind (skynet_context_push M handle
            \<lparr>msg_source = 0, msg_session = session, msg_data = data, msg_sz = sz1\<rparr> n) (\<lambda>(r, n1).
          Ok (if r \<noteq> 0 then -2 else 0, n1))))"

definition skynet_sendname ::
    "modules \<Rightarrow> (remote_message \<Rightarrow> byte list) \<Rightarrow> cptr option \<Rightarrow> u32 \<Rightarrow> string \<Rightarrow> int \<Rightarrow> u32 \<Rightarrow> byte list option \<Rightarrow> u64 \<Rightarrow> node \<Rightarrow>
     (int \<times> node) res" where
  "skynet_sendname M img context source addr type session data sz n =
     res_bind (if source = 0 then res_bind (cx_ptr context) (\<lambda>c. res_bind (cx_get n c) (\<lambda>x. Ok (cx_handle x))) else Ok source) (\<lambda>source1.
     if take 1 addr = '':'' then
       skynet_send M img context source1 (ucast (strtoul 16 (drop 1 addr))) type session data sz n
     else if take 1 addr = ''.'' then
       res_bind (skynet_handle_findname (nd_handles n) (drop 1 addr)) (\<lambda>des.
       if des = 0 then Ok (-1, n) else skynet_send M img context source1 des type session data sz n)
     else if too_large sz then
       res_bind (skynet_error M context (''The message to '' @ addr @ '' is too large'') n) (\<lambda>n1. Ok (-2, n1))
     else
       res_bind (filter_args context type session data sz n) (\<lambda>(session1, data1, sz1, n1).
       res_bind (skynet_harbor_send img (remote_to (copy_name addr) 0 data1 sz1) source1 session1 n1) (\<lambda>n2.
       Ok (sint session1, n2))))"

section \<open>Dropping a queue\<close>

definition drop_message :: "modules \<Rightarrow> (remote_message \<Rightarrow> byte list) \<Rightarrow> u32 \<Rightarrow> skynet_message \<Rightarrow> node \<Rightarrow> node res" where
  "drop_message M img source msg n =
     res_bind (res_assert (source \<noteq> 0)) (\<lambda>_.
     res_bind (skynet_send M img None source (msg_source msg) PTYPE_ERROR 0 None 0 n) (\<lambda>(_, n1). Ok n1))"

text \<open>\<open>skynet_mq_release\<close> and \<open>_drop_queue\<close> over the whole node, since dropping a message sends one.\<close>

partial_function (option) node_drop_loop ::
    "modules \<Rightarrow> (remote_message \<Rightarrow> byte list) \<Rightarrow> u32 \<Rightarrow> qptr \<Rightarrow> node \<Rightarrow> node res option" where
  "node_drop_loop M img h p n =
     (case res_bind (mq_get (nd_world n) p) skynet_mq_pop of
        Err e \<Rightarrow> Some (Err e)
      | Ok (r, q) \<Rightarrow>
          (case r of
             None \<Rightarrow> Some (Ok (n\<lparr>nd_world := mq_set (nd_world n) p q\<rparr>))
           | Some msg \<Rightarrow>
               (case drop_message M img h msg (n\<lparr>nd_world := mq_set (nd_world n) p q\<rparr>) of
                  Err e \<Rightarrow> Some (Err e)
                | Ok n1 \<Rightarrow> node_drop_loop M img h p n1)))"

declare node_drop_loop.simps [code]

definition node_mq_release :: "modules \<Rightarrow> (remote_message \<Rightarrow> byte list) \<Rightarrow> u32 \<Rightarrow> qptr \<Rightarrow> node \<Rightarrow> node res" where
  "node_mq_release M img h p n =
     res_bind (mq_get (nd_world n) p) (\<lambda>q.
     if mq_release q then
       (case node_drop_loop M img h p n of None \<Rightarrow> Err Diverge | Some r \<Rightarrow> res_bind r (on_world (mq_free p)))
     else on_world (skynet_globalmq_push p) n)"

section \<open>Creating a service\<close>

definition new_context :: "string \<Rightarrow> bool \<Rightarrow> skynet_context" where
  "new_context nm profile =
     \<lparr>cx_mod = nm, cx_cb = False, cx_queue = 0, cx_logfile = False, cx_cpu_cost = 0, cx_cpu_start = 0, cx_result = [],
      cx_handle = 0, cx_session_id = 0, cx_ref = 2, cx_message_count = 0, cx_init = False, cx_endless = False,
      cx_profile = profile\<rparr>"

text \<open>Up to the call of the module: the context and its queue exist, the context is registered.\<close>

definition context_alloc :: "string \<Rightarrow> node \<Rightarrow> (cptr \<times> qptr \<times> node) res" where
  "context_alloc nm n =
     (let c = nd_next n; p = Suc c;
          n1 = (cx_set n c (new_context nm (nd_profile n)))\<lparr>nd_next := Suc p\<rparr> in
      res_bind (skynet_handle_register (context_handle n1) c (nd_handles n1)) (\<lambda>(h, s).
      res_bind (cx_get n1 c) (\<lambda>x.
      Ok (c, p, context_inc (cx_set (n1\<lparr>nd_handles := s, nd_world := mq_set (nd_world n1) p (skynet_mq_create h)\<rparr>) c
            (x\<lparr>cx_handle := h, cx_queue := p\<rparr>))))))"

definition skynet_context_new ::
    "modules \<Rightarrow> (remote_message \<Rightarrow> byte list) \<Rightarrow> string \<Rightarrow> string option \<Rightarrow> node \<Rightarrow> (cptr option \<times> node) res" where
  "skynet_context_new M img nm param n =
     (if \<not> md_query M nm \<or> \<not> md_create M nm then Ok (None, n)
      else
        res_bind (context_alloc nm n) (\<lambda>(c, p, n1).
        res_bind (md_start M nm c param n1) (\<lambda>(r, n2).
        if r = 0 then
          res_bind (skynet_context_release M c n2) (\<lambda>(ret, n3).
          res_bind (if ret then res_bind (cx_get n3 c) (\<lambda>x. Ok (cx_set n3 c (x\<lparr>cx_init := True\<rparr>))) else Ok n3) (\<lambda>n4.
          res_bind (on_world (skynet_globalmq_push p) n4) (\<lambda>n5.
          if ret then
            res_bind (skynet_error M (Some c) (''LAUNCH '' @ nm @ '' '' @ (case param of None \<Rightarrow> [] | Some t \<Rightarrow> t)) n5) (\<lambda>n6.
            Ok (Some c, n6))
          else Ok (None, n5))))
        else
          res_bind (skynet_error M (Some c) (''FAILED launch '' @ nm) n2) (\<lambda>n3.
          res_bind (cx_get n3 c) (\<lambda>x.
          res_bind (skynet_context_release M c n3) (\<lambda>(_, n4).
          res_bind (handle_retire M (cx_handle x) n4) (\<lambda>(_, n5).
          res_bind (node_mq_release M img (cx_handle x) p n5) (\<lambda>n6. Ok (None, n6)))))))))"

definition skynet_callback :: "cptr \<Rightarrow> node \<Rightarrow> node res" where
  "skynet_callback c n = res_bind (cx_get n c) (\<lambda>x. Ok (cx_set n c (x\<lparr>cx_cb := True\<rparr>)))"

section \<open>The monitor of a worker\<close>

record skynet_monitor =
  sm_version :: u32
  sm_check_version :: u32
  sm_source :: u32
  sm_destination :: u32

definition skynet_monitor_new :: skynet_monitor where
  "skynet_monitor_new = \<lparr>sm_version = 0, sm_check_version = 0, sm_source = 0, sm_destination = 0\<rparr>"

definition skynet_monitor_trigger :: "u32 \<Rightarrow> u32 \<Rightarrow> skynet_monitor \<Rightarrow> skynet_monitor" where
  "skynet_monitor_trigger source destination sm =
     sm\<lparr>sm_source := source, sm_destination := destination, sm_version := sm_version sm + 1\<rparr>"

definition skynet_monitor_check :: "modules \<Rightarrow> skynet_monitor \<Rightarrow> node \<Rightarrow> (skynet_monitor \<times> node) res" where
  "skynet_monitor_check M sm n =
     (if sm_version sm = sm_check_version sm then
        if sm_destination sm \<noteq> 0 then
          res_bind (skynet_context_endless M (sm_destination sm) n) (\<lambda>n1.
          res_bind (skynet_error M None (''A message from [ :'' @ hex8_text (sm_source sm) @ '' ] to [ :'' @
              hex8_text (sm_destination sm) @ '' ] maybe in an endless loop (version = '' @ dec (sint (sm_version sm)) @ '')'') n1) (\<lambda>n2. Ok (sm, n2)))
        else Ok (sm, n)
      else Ok (sm\<lparr>sm_check_version := sm_version sm\<rparr>, n))"

section \<open>Dispatching\<close>

definition context_dispatch :: "modules \<Rightarrow> cptr \<Rightarrow> skynet_message \<Rightarrow> node \<Rightarrow> node res" where
  "context_dispatch M c msg n =
     res_bind (cx_get n c) (\<lambda>x.
     res_bind (res_assert (cx_init x)) (\<lambda>_.
     let type = uint (drop_bit MESSAGE_TYPE_SHIFT (msg_sz msg));
         sz = msg_sz msg AND MESSAGE_TYPE_MASK;
         x1 = x\<lparr>cx_message_count := cx_message_count x + 1\<rparr>;
         x2 = (if cx_profile x then x1\<lparr>cx_cpu_start := md_time M n\<rparr> else x1);
         n1 = (cx_set n c x2)\<lparr>nd_key := cx_handle x\<rparr> in
     res_bind (md_cb M c type (msg_session msg) (msg_source msg) (msg_data msg) sz n1) (\<lambda>(_, n2).
     if cx_profile x then
       res_bind (cx_get n2 c) (\<lambda>y.
       Ok (cx_set n2 c (y\<lparr>cx_cpu_cost := cx_cpu_cost y + (md_time M n2 - cx_cpu_start y)\<rparr>)))
     else Ok n2)))"

text \<open>A pop from the queue of a node.\<close>

definition node_pop :: "qptr \<Rightarrow> node \<Rightarrow> (skynet_message option \<times> node) res" where
  "node_pop p n =
     res_bind (mq_get (nd_world n) p) (\<lambda>q.
     res_bind (skynet_mq_pop q) (\<lambda>(r, q1). Ok (r, n\<lparr>nd_world := mq_set (nd_world n) p q1\<rparr>)))"

partial_function (option) dispatchall_loop :: "modules \<Rightarrow> cptr \<Rightarrow> qptr \<Rightarrow> node \<Rightarrow> node res option" where
  "dispatchall_loop M c p n =
     (case node_pop p n of
        Err e \<Rightarrow> Some (Err e)
      | Ok (None, n1) \<Rightarrow> Some (Ok n1)
      | Ok (Some msg, n1) \<Rightarrow>
          (case context_dispatch M c msg n1 of
             Err e \<Rightarrow> Some (Err e)
           | Ok n2 \<Rightarrow> dispatchall_loop M c p n2))"

declare dispatchall_loop.simps [code]

definition skynet_context_dispatchall :: "modules \<Rightarrow> cptr \<Rightarrow> node \<Rightarrow> node res" where
  "skynet_context_dispatchall M c n =
     res_bind (cx_get n c) (\<lambda>x.
     case dispatchall_loop M c (cx_queue x) n of None \<Rightarrow> Err Diverge | Some r \<Rightarrow> r)"

text \<open>One pass of the loop of \<open>skynet_context_message_dispatch\<close> after the pop: report an overload, tell the monitor, call
  the service.\<close>

definition dispatch_one ::
    "modules \<Rightarrow> cptr \<Rightarrow> qptr \<Rightarrow> u32 \<Rightarrow> skynet_message \<Rightarrow> skynet_monitor \<times> node \<Rightarrow> (skynet_monitor \<times> node) res" where
  "dispatch_one M c p handle msg = (\<lambda>(sm, n).
     res_bind (mq_get (nd_world n) p) (\<lambda>q.
     case skynet_mq_overload q of (overload, q1) \<Rightarrow>
     let n1 = n\<lparr>nd_world := mq_set (nd_world n) p q1\<rparr> in
     res_bind (if overload \<noteq> 0 then
         skynet_error M (Some c) (''May overload, message queue length = '' @ dec (int overload)) n1 else Ok n1) (\<lambda>n2.
     res_bind (cx_get n2 c) (\<lambda>x.
     res_bind (if cx_cb x then context_dispatch M c msg n2 else Ok n2) (\<lambda>n3.
     Ok (skynet_monitor_trigger 0 0 (skynet_monitor_trigger (msg_source msg) handle sm), n3))))))"

text \<open>The passes after the first, \<open>k\<close> of them; the flag tells that the queue was found empty.\<close>

fun dispatch_rest ::
    "modules \<Rightarrow> cptr \<Rightarrow> qptr \<Rightarrow> u32 \<Rightarrow> nat \<Rightarrow> skynet_monitor \<times> node \<Rightarrow> (bool \<times> skynet_monitor \<times> node) res" where
  "dispatch_rest M c p handle 0 s = Ok (False, s)"
| "dispatch_rest M c p handle (Suc k) (sm, n) =
     res_bind (node_pop p n) (\<lambda>(r, n1).
     case r of
       None \<Rightarrow> Ok (True, sm, n1)
     | Some msg \<Rightarrow> res_bind (dispatch_one M c p handle msg (sm, n1)) (dispatch_rest M c p handle k))"

definition dispatch_run ::
    "modules \<Rightarrow> cptr \<Rightarrow> qptr \<Rightarrow> u32 \<Rightarrow> int \<Rightarrow> skynet_monitor \<times> node \<Rightarrow> (bool \<times> skynet_monitor \<times> node) res" where
  "dispatch_run M c p handle weight = (\<lambda>(sm, n).
     res_bind (node_pop p n) (\<lambda>(r, n1).
     case r of
       None \<Rightarrow> Ok (True, sm, n1)
     | Some msg \<Rightarrow>
         res_bind (mq_get (nd_world n1) p) (\<lambda>q.
         let k = (if weight \<ge> 0 then skynet_mq_length q div 2 ^ nat weight else 1) in
         res_bind (dispatch_one M c p handle msg (sm, n1)) (dispatch_rest M c p handle (k - 1)))))"

definition node_globalmq_pop :: "node \<Rightarrow> (qptr option \<times> node) res" where
  "node_globalmq_pop n = res_bind (skynet_globalmq_pop (nd_world n)) (\<lambda>(r, w). Ok (r, n\<lparr>nd_world := w\<rparr>))"

text \<open>The part of \<open>skynet_context_message_dispatch\<close> for a queue that is there.\<close>

definition dispatch_queue_of ::
    "modules \<Rightarrow> (remote_message \<Rightarrow> byte list) \<Rightarrow> int \<Rightarrow> qptr \<Rightarrow> skynet_monitor \<times> node \<Rightarrow> (qptr option \<times> skynet_monitor \<times> node) res" where
  "dispatch_queue_of M img weight p = (\<lambda>(sm, n).
     res_bind (mq_get (nd_world n) p) (\<lambda>q.
     let handle = mq_handle q in
     res_bind (handle_grab handle n) (\<lambda>(r, n1).
     case r of
       None \<Rightarrow>
         res_bind (node_mq_release M img handle p n1) (\<lambda>n2.
         res_bind (node_globalmq_pop n2) (\<lambda>(nq, n3). Ok (nq, sm, n3)))
     | Some c \<Rightarrow>
         res_bind (dispatch_run M c p handle weight (sm, n1)) (\<lambda>(empty, sm1, n2).
         if empty then
           res_bind (skynet_context_release M c n2) (\<lambda>(_, n3).
           res_bind (node_globalmq_pop n3) (\<lambda>(nq, n4). Ok (nq, sm1, n4)))
         else
           res_bind (cx_get n2 c) (\<lambda>x.
           res_bind (res_assert (p = cx_queue x)) (\<lambda>_.
           res_bind (node_globalmq_pop n2) (\<lambda>(nq, n3).
           res_bind (case nq of None \<Rightarrow> Ok (p, n3) | Some p' \<Rightarrow>
               res_bind (on_world (skynet_globalmq_push p) n3) (\<lambda>n4. Ok (p', n4))) (\<lambda>(p', n4).
           res_bind (skynet_context_release M c n4) (\<lambda>(_, n5). Ok (Some p', sm1, n5)))))))))) "

definition skynet_context_message_dispatch ::
    "modules \<Rightarrow> (remote_message \<Rightarrow> byte list) \<Rightarrow> qptr option \<Rightarrow> int \<Rightarrow> skynet_monitor \<times> node \<Rightarrow>
     (qptr option \<times> skynet_monitor \<times> node) res" where
  "skynet_context_message_dispatch M img q weight = (\<lambda>(sm, n).
     case q of
       Some p \<Rightarrow> dispatch_queue_of M img weight p (sm, n)
     | None \<Rightarrow>
         res_bind (node_globalmq_pop n) (\<lambda>(r, n1).
         case r of None \<Rightarrow> Ok (None, sm, n1) | Some p \<Rightarrow> dispatch_queue_of M img weight p (sm, n1)))"

section \<open>Commands\<close>

definition skynet_queryname :: "modules \<Rightarrow> cptr option \<Rightarrow> string \<Rightarrow> node \<Rightarrow> (u32 \<times> node) res" where
  "skynet_queryname M context nm n =
     (if take 1 nm = '':'' then Ok (ucast (strtoul 16 (drop 1 nm)), n)
      else if take 1 nm = ''.'' then res_bind (skynet_handle_findname (nd_handles n) (drop 1 nm)) (\<lambda>h. Ok (h, n))
      else res_bind (skynet_error M context (''Don't support query global name '' @ nm) n) (\<lambda>n1. Ok (0, n1)))"

definition handle_exit :: "modules \<Rightarrow> (remote_message \<Rightarrow> byte list) \<Rightarrow> cptr \<Rightarrow> u32 \<Rightarrow> node \<Rightarrow> node res" where
  "handle_exit M img c handle n =
     res_bind (cx_get n c) (\<lambda>x.
     let h = (if handle = 0 then cx_handle x else handle) in
     res_bind (skynet_error M (Some c) (if handle = 0 then ''KILL self'' else ''KILL :'' @ hex_text handle) n) (\<lambda>n1.
     res_bind (if nd_monitor_exit n1 \<noteq> 0 then
         res_bind (skynet_send M img (Some c) h (nd_monitor_exit n1) PTYPE_CLIENT 0 None 0 n1) (\<lambda>(_, n2). Ok n2) else Ok n1) (\<lambda>n2.
     res_bind (handle_retire M h n2) (\<lambda>(_, n3). Ok n3))))"

text \<open>A result that is printed into \<open>context->result\<close>.\<close>

definition cmd_result :: "cptr \<Rightarrow> string \<Rightarrow> node \<Rightarrow> (string option \<times> node) res" where
  "cmd_result c t n = res_bind (cx_get n c) (\<lambda>x. Ok (Some t, cx_set n c (x\<lparr>cx_result := t\<rparr>)))"

definition cmd_handle :: "cptr \<Rightarrow> node \<Rightarrow> (string option \<times> node) res" where
  "cmd_handle c n = res_bind (cx_get n c) (\<lambda>x. cmd_result c (dec (sint (cx_handle x))) n)"

definition cmd_session :: "cptr \<Rightarrow> node \<Rightarrow> (string option \<times> node) res" where
  "cmd_session c n = res_bind (skynet_context_newsession c n) (\<lambda>(session, n1). cmd_result c (dec (sint session)) n1)"

definition cmd_resume :: "modules \<Rightarrow> cptr \<Rightarrow> string \<Rightarrow> node \<Rightarrow> (string option \<times> node) res" where
  "cmd_resume M c param n =
     (case scan_two param of (handle, session) \<Rightarrow>
        res_bind (skynet_context_push M (of_int handle)
          \<lparr>msg_source = 0, msg_session = of_int session, msg_data = None,
           msg_sz = push_bit MESSAGE_TYPE_SHIFT (of_int PTYPE_RESPONSE)\<rparr> n) (\<lambda>(r, n1).
        cmd_result c (dec (if r \<noteq> 0 then -1 else 0)) n1))"

text \<open>\<open>skynet_timeout\<close> calls \<open>skynet_context_push\<close> on the node.\<close>

definition timeout_push :: "modules \<Rightarrow> u32 \<Rightarrow> skynet_message \<Rightarrow> node res \<Rightarrow> int \<times> node res" where
  "timeout_push M h m r =
     (case r of
        Err e \<Rightarrow> (0, Err e)
      | Ok n \<Rightarrow> (case skynet_context_push M h m n of Err e \<Rightarrow> (0, Err e) | Ok (k, n1) \<Rightarrow> (k, Ok n1)))"

definition cmd_timeout :: "modules \<Rightarrow> cptr \<Rightarrow> string \<Rightarrow> node \<Rightarrow> (string option \<times> node) res" where
  "cmd_timeout M c param n =
     (let ti = of_int (strtol 10 param) :: u32 in
      res_bind (skynet_context_newsession c n) (\<lambda>(session, n1).
      res_bind (cx_get n1 c) (\<lambda>x.
      case skynet_timeout (timeout_push M) (cx_handle x) ti session (nd_timer n1, Ok n1) of (_, T, r) \<Rightarrow>
      res_bind r (\<lambda>n2. cmd_result c (dec (sint session)) (n2\<lparr>nd_timer := T\<rparr>)))))"

definition name_handle :: "u32 \<Rightarrow> string \<Rightarrow> node \<Rightarrow> (string option \<times> node) res" where
  "name_handle h nm n =
     res_bind (skynet_handle_namehandle h nm (nd_handles n)) (\<lambda>(r, s). Ok (r, n\<lparr>nd_handles := s\<rparr>))"

definition cmd_reg :: "modules \<Rightarrow> cptr \<Rightarrow> string option \<Rightarrow> node \<Rightarrow> (string option \<times> node) res" where
  "cmd_reg M c param n =
     res_bind (cx_get n c) (\<lambda>x.
     if param = None \<or> param = Some [] then cmd_result c ('':'' @ hex_text (cx_handle x)) n
     else if take 1 (the param) = ''.'' then name_handle (cx_handle x) (drop 1 (the param)) n
     else res_bind (skynet_error M (Some c) (''Can't register global name '' @ the param @ '' in C'') n) (\<lambda>n1. Ok (None, n1)))"

definition cmd_query :: "cptr \<Rightarrow> string \<Rightarrow> node \<Rightarrow> (string option \<times> node) res" where
  "cmd_query c param n =
     (if take 1 param = ''.'' then
        res_bind (skynet_handle_findname (nd_handles n) (drop 1 param)) (\<lambda>handle.
        if handle \<noteq> 0 then cmd_result c ('':'' @ hex_text handle) n else Ok (None, n))
      else Ok (None, n))"

text \<open>\<open>sscanf(param, "%s %s", name, handle)\<close>; a missing second word leaves \<open>handle\<close> unwritten.\<close>

definition cmd_name :: "modules \<Rightarrow> cptr \<Rightarrow> string \<Rightarrow> node \<Rightarrow> (string option \<times> node) res" where
  "cmd_name M c param n =
     (case scan_word param of (nm, r1) \<Rightarrow>
      case scan_word r1 of (handle, _) \<Rightarrow>
      if nm = [] \<or> handle = [] then Err Uninit_read
      else if take 1 handle \<noteq> '':'' then Ok (None, n)
      else
        let handle_id = ucast (strtoul 16 (drop 1 handle)) in
        if handle_id = 0 then Ok (None, n)
        else if take 1 nm = ''.'' then name_handle handle_id (drop 1 nm) n
        else res_bind (skynet_error M (Some c) (''Can't set global name '' @ nm @ '' in C'') n) (\<lambda>n1. Ok (None, n1)))"

definition cmd_exit :: "modules \<Rightarrow> (remote_message \<Rightarrow> byte list) \<Rightarrow> cptr \<Rightarrow> node \<Rightarrow> (string option \<times> node) res" where
  "cmd_exit M img c n = res_bind (handle_exit M img c 0 n) (\<lambda>n1. Ok (None, n1))"

definition tohandle :: "modules \<Rightarrow> cptr \<Rightarrow> string \<Rightarrow> node \<Rightarrow> (u32 \<times> node) res" where
  "tohandle M c param n =
     (if take 1 param = '':'' then Ok (ucast (strtoul 16 (drop 1 param)), n)
      else if take 1 param = ''.'' then res_bind (skynet_handle_findname (nd_handles n) (drop 1 param)) (\<lambda>h. Ok (h, n))
      else res_bind (skynet_error M (Some c) (''Can't convert '' @ param @ '' to handle'') n) (\<lambda>n1. Ok (0, n1)))"

definition cmd_kill :: "modules \<Rightarrow> (remote_message \<Rightarrow> byte list) \<Rightarrow> cptr \<Rightarrow> string \<Rightarrow> node \<Rightarrow> (string option \<times> node) res" where
  "cmd_kill M img c param n =
     res_bind (tohandle M c param n) (\<lambda>(handle, n1).
     if handle \<noteq> 0 then res_bind (handle_exit M img c handle n1) (\<lambda>n2. Ok (None, n2)) else Ok (None, n1))"

text \<open>\<open>strsep\<close> with several delimiters: the token and what follows the delimiter, if there is one.\<close>

definition strsep_set :: "string \<Rightarrow> string \<Rightarrow> string \<times> string option" where
  "strsep_set ds s =
     (let tok = takeWhile (\<lambda>ch. ch \<notin> set ds) s in
      (tok, if length tok < length s then Some (drop (length tok + 1) s) else None))"

definition cmd_launch :: "modules \<Rightarrow> (remote_message \<Rightarrow> byte list) \<Rightarrow> cptr \<Rightarrow> string \<Rightarrow> node \<Rightarrow> (string option \<times> node) res" where
  "cmd_launch M img c param n =
     (case strsep_set [CHR '' '', CHR 0x09, CHR 0x0D, CHR 0x0A] param of (md, rest) \<Rightarrow>
      let args = map_option (\<lambda>t. fst (strsep_set [CHR 0x0D, CHR 0x0A] t)) rest in
      res_bind (skynet_context_new M img md args n) (\<lambda>(inst, n1).
      case inst of
        None \<Rightarrow> Ok (None, n1)
      | Some c' \<Rightarrow> res_bind (cx_get n1 c') (\<lambda>x. cmd_result c (id_to_hex (cx_handle x)) n1)))"

definition skynet_getenv :: "node \<Rightarrow> string \<Rightarrow> string option" where
  "skynet_getenv n key = nd_env n key"

definition skynet_setenv :: "string \<Rightarrow> string \<Rightarrow> node \<Rightarrow> node res" where
  "skynet_setenv key v n =
     res_bind (res_assert (nd_env n key = None)) (\<lambda>_. Ok (n\<lparr>nd_env := (nd_env n)(key \<mapsto> v)\<rparr>))"

definition cmd_setenv :: "string \<Rightarrow> node \<Rightarrow> (string option \<times> node) res" where
  "cmd_setenv param n =
     (let key = takeWhile (\<lambda>ch. ch \<noteq> CHR '' '') param in
      if length key = length param then Ok (None, n)
      else res_bind (skynet_setenv key (drop (length key + 1) param) n) (\<lambda>n1. Ok (None, n1)))"

definition cmd_starttime :: "cptr \<Rightarrow> node \<Rightarrow> (string option \<times> node) res" where
  "cmd_starttime c n = cmd_result c (dec (uint (skynet_starttime (nd_timer n)))) n"

definition cmd_abort :: "modules \<Rightarrow> node \<Rightarrow> (string option \<times> node) res" where
  "cmd_abort M n = res_bind (handle_retireall M n) (\<lambda>n1. Ok (None, n1))"

definition cmd_monitor :: "modules \<Rightarrow> cptr \<Rightarrow> string option \<Rightarrow> node \<Rightarrow> (string option \<times> node) res" where
  "cmd_monitor M c param n =
     (if param = None \<or> param = Some [] then
        if nd_monitor_exit n \<noteq> 0 then cmd_result c ('':'' @ hex_text (nd_monitor_exit n)) n else Ok (None, n)
      else res_bind (tohandle M c (the param) n) (\<lambda>(handle, n1). Ok (None, n1\<lparr>nd_monitor_exit := handle\<rparr>)))"

definition cmd_stat :: "modules \<Rightarrow> cptr \<Rightarrow> string \<Rightarrow> node \<Rightarrow> (string option \<times> node) res" where
  "cmd_stat M c param n =
     res_bind (cx_get n c) (\<lambda>x.
     if param = ''mqlen'' then
       res_bind (mq_get (nd_world n) (cx_queue x)) (\<lambda>q. cmd_result c (dec (int (skynet_mq_length q))) n)
     else if param = ''endless'' then
       if cx_endless x then cmd_result c ''1'' (cx_set n c (x\<lparr>cx_endless := False\<rparr>)) else cmd_result c ''0'' n
     else if param = ''cpu'' then cmd_result c (md_lf M (cx_cpu_cost x)) n
     else if param = ''time'' then
       cmd_result c (if cx_profile x then md_lf M (md_time M n - cx_cpu_start x) else ''0'') n
     else if param = ''message'' then cmd_result c (dec (sint (cx_message_count x))) n
     else cmd_result c [] n)"

text \<open>What the three commands with a target do: find it, grab it, work on it, release it.\<close>

definition with_target ::
    "modules \<Rightarrow> cptr \<Rightarrow> string \<Rightarrow> (u32 \<Rightarrow> cptr \<Rightarrow> skynet_context \<Rightarrow> node \<Rightarrow> node res) \<Rightarrow> node \<Rightarrow> (string option \<times> node) res" where
  "with_target M c param f n =
     res_bind (tohandle M c param n) (\<lambda>(handle, n1).
     if handle = 0 then Ok (None, n1)
     else
       res_bind (handle_grab handle n1) (\<lambda>(r, n2).
       case r of
         None \<Rightarrow> Ok (None, n2)
       | Some c' \<Rightarrow>
           res_bind (cx_get n2 c') (\<lambda>x.
           res_bind (f handle c' x n2) (\<lambda>n3.
           res_bind (skynet_context_release M c' n3) (\<lambda>(_, n4). Ok (None, n4))))))"

definition cmd_logon :: "modules \<Rightarrow> cptr \<Rightarrow> string \<Rightarrow> node \<Rightarrow> (string option \<times> node) res" where
  "cmd_logon M c param =
     with_target M c param (\<lambda>handle c' x n.
       Ok (if \<not> cx_logfile x \<and> md_logopen M handle then cx_set n c' (x\<lparr>cx_logfile := True\<rparr>) else n))"

definition cmd_logoff :: "modules \<Rightarrow> cptr \<Rightarrow> string \<Rightarrow> node \<Rightarrow> (string option \<times> node) res" where
  "cmd_logoff M c param =
     with_target M c param (\<lambda>handle c' x n. Ok (if cx_logfile x then cx_set n c' (x\<lparr>cx_logfile := False\<rparr>) else n))"

text \<open>\<open>strtol\<close> with base 0.\<close>

definition strtol_auto :: "string \<Rightarrow> int" where
  "strtol_auto s =
     (let t = dropWhile isspace s;
          u = (if take 1 t = ''-'' \<or> take 1 t = ''+'' then drop 1 t else t) in
      if take 2 u = ''0x'' \<or> take 2 u = ''0X'' then strtol 16 s
      else if take 1 u = ''0'' then strtol 8 s else strtol 10 s)"

definition cmd_signal :: "modules \<Rightarrow> cptr \<Rightarrow> string \<Rightarrow> node \<Rightarrow> (string option \<times> node) res" where
  "cmd_signal M c param =
     with_target M c param (\<lambda>handle c' x n.
       let rest = dropWhile (\<lambda>ch. ch \<noteq> CHR '' '') param;
           sig = (if rest = [] then 0 else to_int (strtol_auto rest)) in
       md_signal M (cx_mod x) c' sig n)"

text \<open>\<open>skynet_command\<close>: the table of commands, in order. A command that reads its parameter fails on NULL.\<close>

definition skynet_command ::
    "modules \<Rightarrow> (remote_message \<Rightarrow> byte list) \<Rightarrow> cptr \<Rightarrow> string \<Rightarrow> string option \<Rightarrow> node \<Rightarrow> (string option \<times> node) res" where
  "skynet_command M img c cmd param n =
     (let on_param = (\<lambda>f :: string \<Rightarrow> (string option \<times> node) res. case param of None \<Rightarrow> Err Null_deref | Some t \<Rightarrow> f t) in
      if cmd = ''HANDLE'' then cmd_handle c n
      else if cmd = ''SESSION'' then cmd_session c n
      else if cmd = ''RESUME'' then on_param (\<lambda>t. cmd_resume M c t n)
      else if cmd = ''TIMEOUT'' then on_param (\<lambda>t. cmd_timeout M c t n)
      else if cmd = ''REG'' then cmd_reg M c param n
      else if cmd = ''QUERY'' then on_param (\<lambda>t. cmd_query c t n)
      else if cmd = ''NAME'' then on_param (\<lambda>t. cmd_name M c t n)
      else if cmd = ''EXIT'' then cmd_exit M img c n
      else if cmd = ''KILL'' then on_param (\<lambda>t. cmd_kill M img c t n)
      else if cmd = ''LAUNCH'' then on_param (\<lambda>t. cmd_launch M img c t n)
      else if cmd = ''GETENV'' then on_param (\<lambda>t. Ok (skynet_getenv n t, n))
      else if cmd = ''SETENV'' then on_param (\<lambda>t. cmd_setenv t n)
      else if cmd = ''STARTTIME'' then cmd_starttime c n
      else if cmd = ''ABORT'' then cmd_abort M n
      else if cmd = ''MONITOR'' then cmd_monitor M c param n
      else if cmd = ''STAT'' then on_param (\<lambda>t. cmd_stat M c t n)
      else if cmd = ''LOGON'' then on_param (\<lambda>t. cmd_logon M c t n)
      else if cmd = ''LOGOFF'' then on_param (\<lambda>t. cmd_logoff M c t n)
      else if cmd = ''SIGNAL'' then on_param (\<lambda>t. cmd_signal M c t n)
      else Ok (None, n))"

section \<open>The node\<close>

definition THREAD_MAIN :: int where "THREAD_MAIN = 1"

definition skynet_initthread :: "int \<Rightarrow> node \<Rightarrow> node" where
  "skynet_initthread m n = n\<lparr>nd_key := of_int (- m)\<rparr>"

definition skynet_current_handle :: "bool \<Rightarrow> node \<Rightarrow> u32" where
  "skynet_current_handle initialised n = (if initialised then nd_key n else of_int (- THREAD_MAIN))"

definition skynet_globalinit :: "node \<Rightarrow> node" where
  "skynet_globalinit n = skynet_initthread THREAD_MAIN (n\<lparr>nd_total := 0, nd_monitor_exit := 0\<rparr>)"

definition skynet_profile_enable :: "int \<Rightarrow> node \<Rightarrow> node" where
  "skynet_profile_enable enable n = n\<lparr>nd_profile := (enable \<noteq> 0)\<rparr>"

end
