(* ===== verification/Skynet_Life.thy ===== *)
theory Skynet_Life
  imports Skynet_Server
begin

text \<open>
  The life of contexts and queues under concurrent threads. Threads interleave at the atomic operations of
  \<open>skynet_server.c\<close>: a grab or a retirement under the lock of the handle storage, an atomic change of a reference
  count, a locked queue operation, a change of the names, the timer or a global variable (\<open>other\<close>). A thread that has a reference to a context may send to its queue, read and write
  the other fields, grab again, and release; a worker that has a queue in hand may pop from it, give it back, or free it.

  Two steps are coarser than the code. \<open>create\<close> registers a context and stores its handle at once; the code stores the handle
  after the registration, and what can go wrong in between is the theorem \<open>handle_register_race\<close> of \<open>Skynet_Handle\<close>.
  \<open>release\<close> joins the decrement to 0 and \<open>delete_context\<close>; in between nobody has a reference, and a worker that finds the queue
  puts it back, as it does when the queue is not marked yet.

  The lemmas show that the reference count of a context is the number of references to it, so that a context is freed
  when the last one is gone and not before, and that this system implements the scheduling protocol of
  \<open>Skynet_Sched\<close>: what that protocol takes for granted, that nobody sends to a queue marked for release,
  is a consequence of the reference counts.
\<close>

section \<open>The system\<close>

text \<open>\<open>sy_held c\<close> counts the references to \<open>c\<close> that threads have, \<open>sy_holds t\<close> is the queue in the hand of thread \<open>t\<close>.\<close>

record sys =
  sy_node :: node
  sy_held :: "cptr \<Rightarrow> nat"
  sy_holds :: "nat \<Rightarrow> qptr option"

definition node_init :: "u32 \<Rightarrow> node" where
  "node_init hid = skynet_globalinit
     \<lparr>nd_total = 0, nd_monitor_exit = 0, nd_profile = False, nd_ctx = (\<lambda>_. None), nd_next = 0,
      nd_handles = skynet_handle_init hid, nd_world = skynet_mq_init, nd_timer = skynet_timer_init (0, 0) (0, 0),
      nd_harbor = push_bit HANDLE_REMOTE_SHIFT (hid AND 0xff), nd_remote = None, nd_logger = 0, nd_env = (\<lambda>_. None), nd_key = 0\<rparr>"

text \<open>What a thread with a reference may change in a context.\<close>

definition same_life :: "skynet_context \<Rightarrow> skynet_context \<Rightarrow> bool" where
  "same_life x y \<longleftrightarrow> cx_ref y = cx_ref x \<and> cx_queue y = cx_queue x \<and> cx_handle y = cx_handle x"

inductive sys_step :: "modules \<Rightarrow> sys \<Rightarrow> sys \<Rightarrow> bool" for M where
  create: "sy_holds s t = None \<Longrightarrow> context_alloc nm (sy_node s) = Ok (c, p, n) \<Longrightarrow>
    sys_step M s (s\<lparr>sy_node := n, sy_held := (sy_held s)(c := 1), sy_holds := (sy_holds s)(t \<mapsto> p)\<rparr>)"
| grab: "handle_grab h (sy_node s) = Ok (Some c, n) \<Longrightarrow>
    sys_step M s (s\<lparr>sy_node := n, sy_held := (sy_held s)(c := sy_held s c + 1)\<rparr>)"
| reserve: "0 < sy_held s c \<Longrightarrow> skynet_context_reserve c (sy_node s) = Ok n \<Longrightarrow>
    sys_step M s (s\<lparr>sy_node := n, sy_held := (sy_held s)(c := sy_held s c + 1)\<rparr>)"
| retire: "skynet_handle_retire (context_handle (sy_node s)) h (nd_handles (sy_node s)) = Ok (Some c, hs) \<Longrightarrow>
    sys_step M s (s\<lparr>sy_node := (sy_node s)\<lparr>nd_handles := hs\<rparr>, sy_held := (sy_held s)(c := sy_held s c + 1)\<rparr>)"
| release: "0 < sy_held s c \<Longrightarrow> skynet_context_release M c (sy_node s) = Ok (alive, n) \<Longrightarrow>
    sys_step M s (s\<lparr>sy_node := n, sy_held := (sy_held s)(c := sy_held s c - 1)\<rparr>)"
| edit: "0 < sy_held s c \<Longrightarrow> nd_ctx (sy_node s) c = Some x \<Longrightarrow> same_life x y \<Longrightarrow>
    sys_step M s (s\<lparr>sy_node := cx_set (sy_node s) c y\<rparr>)"
| send: "0 < sy_held s c \<Longrightarrow> nd_ctx (sy_node s) c = Some x \<Longrightarrow>
    on_world (skynet_mq_push (cx_queue x) m) (sy_node s) = Ok n \<Longrightarrow> sys_step M s (s\<lparr>sy_node := n\<rparr>)"
| put_back: "sy_holds s t = Some p \<Longrightarrow> on_world (skynet_globalmq_push p) (sy_node s) = Ok n \<Longrightarrow>
    sys_step M s (s\<lparr>sy_node := n, sy_holds := (sy_holds s)(t := None)\<rparr>)"
| take: "sy_holds s t = None \<Longrightarrow> node_globalmq_pop (sy_node s) = Ok (Some p, n) \<Longrightarrow>
    sys_step M s (s\<lparr>sy_node := n, sy_holds := (sy_holds s)(t \<mapsto> p)\<rparr>)"
| pop: "sy_holds s t = Some p \<Longrightarrow> node_pop p (sy_node s) = Ok (Some m, n) \<Longrightarrow> sys_step M s (s\<lparr>sy_node := n\<rparr>)"
| leave: "sy_holds s t = Some p \<Longrightarrow> 0 < sy_held s c \<Longrightarrow> nd_ctx (sy_node s) c = Some x \<Longrightarrow> cx_queue x = p \<Longrightarrow>
    node_pop p (sy_node s) = Ok (None, n) \<Longrightarrow> sys_step M s (s\<lparr>sy_node := n, sy_holds := (sy_holds s)(t := None)\<rparr>)"
| free: "sy_holds s t = Some p \<Longrightarrow> mq_heap (nd_world (sy_node s)) p = Some q \<Longrightarrow> mq_release q \<Longrightarrow>
    node_pop p (sy_node s) = Ok (None, n1) \<Longrightarrow> on_world (mq_free p) n1 = Ok n \<Longrightarrow>
    sys_step M s (s\<lparr>sy_node := n, sy_holds := (sy_holds s)(t := None)\<rparr>)"
| report: "sy_holds s t = Some p \<Longrightarrow> mq_heap (nd_world (sy_node s)) p = Some q \<Longrightarrow>
    n = (sy_node s)\<lparr>nd_world := mq_set (nd_world (sy_node s)) p (snd (skynet_mq_overload q))\<rparr> \<Longrightarrow> sys_step M s (s\<lparr>sy_node := n\<rparr>)"
| other: "nd_ctx n = nd_ctx (sy_node s) \<Longrightarrow> nd_world n = nd_world (sy_node s) \<Longrightarrow> nd_next n = nd_next (sy_node s) \<Longrightarrow>
    slot (nd_handles n) = slot (nd_handles (sy_node s)) \<Longrightarrow> sys_step M s (s\<lparr>sy_node := n\<rparr>)"

inductive sys_reachable :: "modules \<Rightarrow> u32 \<Rightarrow> sys \<Rightarrow> bool" for M hid where
  start: "sys_reachable M hid \<lparr>sy_node = node_init hid, sy_held = (\<lambda>_. 0), sy_holds = (\<lambda>_. None)\<rparr>"
| step: "sys_reachable M hid s \<Longrightarrow> sys_step M s s' \<Longrightarrow> sys_reachable M hid s'"

text \<open>The release functions of the modules leave the node alone: as the comment in \<open>harbor_release\<close> says, they never call
  \<open>skynet_send\<close>. It is a rule for the authors of services: \<open>snlua_release\<close> closes the Lua state, and a finaliser that sends
  (as that of \<open>multicast.lua\<close> does) breaks it.\<close>

definition quiet_release :: "modules \<Rightarrow> bool" where
  "quiet_release M \<longleftrightarrow> (\<forall>nm c n. md_release M nm c n = Ok n)"

section \<open>The marks of the queues\<close>

definition marks :: "mq_world \<Rightarrow> qptr \<Rightarrow> bool option" where
  "marks w p = map_option mq_release (mq_heap w p)"

lemma marks_set: "marks (mq_set w p q) = (marks w)(p \<mapsto> mq_release q)"
  by (auto simp: marks_def mq_set_def fun_eq_iff)

lemma marks_same: "mq_heap w p = Some q \<Longrightarrow> mq_release q' = mq_release q \<Longrightarrow> marks (mq_set w p q') = marks w"
  unfolding marks_set by (auto simp: marks_def fun_eq_iff)

lemma marks_upd [simp]: "marks (w\<lparr>gq_head := a\<rparr>) = marks w" "marks (w\<lparr>gq_tail := b\<rparr>) = marks w"
  by (simp_all add: marks_def fun_eq_iff)

lemma mq_get_Ok [simp]: "mq_get w p = Ok q \<longleftrightarrow> mq_heap w p = Some q"
  by (cases "mq_heap w p") (auto simp: mq_get_def)

lemma marks_globalmq_push: "skynet_globalmq_push p w = Ok w' \<Longrightarrow> marks w' = marks w"
  by (auto simp: skynet_globalmq_push_def marks_same split: option.splits)

lemma marks_globalmq_pop: "skynet_globalmq_pop w = Ok (r, w') \<Longrightarrow> marks w' = marks w"
  by (auto simp: skynet_globalmq_pop_def Let_def marks_same split: option.splits if_splits)

lemma mq_store_release: "mq_store m q = Ok q' \<Longrightarrow> mq_release q' = mq_release q"
  by (auto simp: mq_store_def Let_def expand_queue_def split: if_splits)

lemma marks_mq_push: "skynet_mq_push p m w = Ok w' \<Longrightarrow> marks w' = marks w"
proof -
  assume "skynet_mq_push p m w = Ok w'"
  then obtain q q1 where q: "mq_heap w p = Some q" "mq_store m q = Ok q1"
      "(if mq_in_global q1 = 0 then skynet_globalmq_push p (mq_set w p (q1\<lparr>mq_in_global := MQ_IN_GLOBAL\<rparr>)) else Ok (mq_set w p q1)) = Ok w'"
    by (auto simp: skynet_mq_push_def)
  have "mq_release q1 = mq_release q" using mq_store_release [OF q(2)] .
  then have "marks (mq_set w p (q1\<lparr>mq_in_global := g\<rparr>)) = marks w" "marks (mq_set w p q1) = marks w" for g
    using marks_same [OF q(1)] by simp_all
  then show ?thesis using q(3) marks_globalmq_push by (auto split: if_splits)
qed

lemma mq_pop_release: "skynet_mq_pop q = Ok (r, q') \<Longrightarrow> mq_release q' = mq_release q"
  by (auto simp: skynet_mq_pop_def Let_def split: if_splits option.splits)

lemma node_pop_Ok: "node_pop p n = Ok (r, n') \<longleftrightarrow>
    (\<exists>q q'. mq_heap (nd_world n) p = Some q \<and> skynet_mq_pop q = Ok (r, q') \<and> n' = n\<lparr>nd_world := mq_set (nd_world n) p q'\<rparr>)"
  by (auto simp: node_pop_def)

lemma marks_mark: "skynet_mq_mark_release p w = Ok w' \<Longrightarrow> marks w' = (marks w)(p \<mapsto> True)"
  by (auto simp: skynet_mq_mark_release_def Let_def marks_set dest!: marks_globalmq_push split: if_splits)

lemma on_world_Ok [simp]: "on_world f n = Ok n' \<longleftrightarrow> (\<exists>w. f (nd_world n) = Ok w \<and> n' = n\<lparr>nd_world := w\<rparr>)"
  by (auto simp: on_world_def)

section \<open>The slots as a multiset of contexts\<close>

definition tab :: "handle_storage \<Rightarrow> cptr \<Rightarrow> nat" where
  "tab s c = count_list (slot s) (Some c)"

definition tab_size :: "handle_storage \<Rightarrow> bool" where
  "tab_size s \<longleftrightarrow> 0 < slot_size s \<and> slot_size s \<le> 2 ^ 24"

lemma hash_slot_bound:
  assumes "0 < m" "m \<le> 2 ^ 24"
  shows "hash_slot m h < m"
proof -
  have "unat (h AND (of_nat m - 1)) \<le> unat (of_nat m - 1 :: u32)" by (simp add: word_and_le1 flip: word_le_nat_alt)
  also have "\<dots> = m - 1"
  proof -
    have "(of_nat m - 1 :: u32) = of_nat (m - 1)" using assms(1) by (simp add: of_nat_diff)
    then show ?thesis using assms(2) by (simp add: unat_of_nat del: of_nat_diff)
  qed
  finally show ?thesis using assms(1) by (simp add: hash_slot_def)
qed

lemma count_list_update:
  "i < length xs \<Longrightarrow> count_list (xs[i := y]) z + of_bool (xs ! i = z) = count_list xs z + of_bool (y = z)"
proof (induction xs arbitrary: i)
  case (Cons x xs)
  then show ?case
  proof (cases i)
    case (Suc j)
    then show ?thesis using Cons.IH [of j] Cons.prems by simp
  qed simp
qed simp

lemma register_scan_free: "register_scan sl k h = Some (h', i) \<Longrightarrow> i = hash_slot (length sl) h' \<and> sl ! i = None"
  by (induction sl k h rule: register_scan.induct) (auto simp: Let_def split: if_splits)

lemma rehash_count:
  assumes "register_rehash ch xs ys = Ok zs" "0 < length ys" "length ys \<le> 2 ^ 24"
  shows "length zs = length ys \<and> count_list zs (Some c) = count_list xs (Some c) + count_list ys (Some c)"
  using assms
proof (induction ch xs ys arbitrary: zs rule: register_rehash.induct)
  case (3 ch ctx rest ys)
  let ?i = "hash_slot (length ys) (ch ctx)"
  have r: "ys ! ?i = None" "register_rehash ch rest (ys[?i := Some ctx]) = Ok zs" using "3.prems"(1) by (auto simp: Let_def)
  have i: "?i < length ys" by (rule hash_slot_bound [OF "3.prems"(2,3)])
  have "length zs = length ys \<and> count_list zs (Some c) = count_list rest (Some c) + count_list (ys[?i := Some ctx]) (Some c)"
    using "3.IH" [OF refl r(2)] "3.prems"(2,3) by simp
  then show ?case using count_list_update [OF i, of "Some ctx" "Some c"] r(1) by simp
qed auto

lemma count_replicate_None [simp]: "count_list (replicate k None) (Some c) = 0"
  by (induction k) auto

lemma register_loop_tab:
  assumes "register_loop ch ctx s = Some (Ok (h, s'))" "tab_size s"
  shows "tab_size s' \<and> tab s' c = tab s c + of_bool (c = ctx)"
proof -
  have "tab_size s \<longrightarrow> (\<forall>h s'. r = Ok (h, s') \<longrightarrow> tab_size s' \<and> tab s' c = tab s c + of_bool (c = ctx))"
    if "register_loop ch ctx s = Some r" for r
  proof (rule register_loop.raw_induct [OF _ that, of "\<lambda>ch ctx s r. tab_size s \<longrightarrow>
      (\<forall>h s'. r = Ok (h, s') \<longrightarrow> tab_size s' \<and> tab s' c = tab s c + of_bool (c = ctx))"], intro impI allI)
    fix loop ch ctx s r h s'
    assume IH: "\<And>ch ctx s r. loop ch ctx s = Some r \<Longrightarrow> tab_size s \<longrightarrow>
        (\<forall>h s'. r = Ok (h, s') \<longrightarrow> tab_size s' \<and> tab s' c = tab s c + of_bool (c = ctx))"
      and run: "(case register_scan (slot s) (slot_size s) (handle_index s) of
          None \<Rightarrow> if slot_size s * 2 - 1 \<le> unat HANDLE_MASK
            then case register_rehash ch (slot s) (replicate (slot_size s * 2) None) of
               Ok new_slot \<Rightarrow> loop ch ctx (s\<lparr>slot := new_slot\<rparr>) | Err e \<Rightarrow> Some (Err e)
            else Some (Err Assert_fail)
        | Some (handle, hash) \<Rightarrow> Some (Ok (handle OR harbor s, s\<lparr>slot := (slot s)[hash := Some ctx], handle_index := handle + 1\<rparr>))) = Some r"
      and sz: "tab_size s" and r: "r = Ok (h, s')"
    show "tab_size s' \<and> tab s' c = tab s c + of_bool (c = ctx)"
    proof (cases "register_scan (slot s) (slot_size s) (handle_index s)")
      case (Some hi)
      then obtain h1 i where hi: "hi = (h1, i)" by (cases hi)
      have i: "i = hash_slot (slot_size s) h1" "slot s ! i = None" using register_scan_free Some hi by blast+
      have "i < slot_size s" using i(1) sz hash_slot_bound by (simp add: tab_size_def)
      from count_list_update [OF this, of "Some ctx" "Some c"] show ?thesis
        using run r Some hi i(2) sz by (auto simp: tab_def tab_size_def)
    next
      case None
      then obtain ns where ns: "register_rehash ch (slot s) (replicate (slot_size s * 2) None) = Ok ns"
          "loop ch ctx (s\<lparr>slot := ns\<rparr>) = Some r" "slot_size s * 2 - 1 \<le> unat HANDLE_MASK"
        using run r by (auto split: if_splits res.splits)
      have len: "0 < slot_size s * 2" "slot_size s * 2 \<le> 2 ^ 24" using ns(3) sz by (simp_all add: tab_size_def HANDLE_MASK_def)
      then have "tab_size (s\<lparr>slot := ns\<rparr>)" "tab (s\<lparr>slot := ns\<rparr>) c = tab s c"
        using rehash_count [OF ns(1), of c] by (simp_all add: tab_size_def tab_def)
      then show ?thesis using IH [OF ns(2)] r by simp
    qed
  qed
  then show ?thesis using assms by blast
qed

lemma register_tab:
  assumes "skynet_handle_register ch ctx s = Ok (h, s')" "tab_size s"
  shows "tab_size s' \<and> tab s' c = tab s c + of_bool (c = ctx)"
  using assms register_loop_tab [of ch ctx s h s' c] by (auto simp: skynet_handle_register_def split: option.splits)

lemma retire_tab:
  assumes "skynet_handle_retire ch h s = Ok (Some ctx, s')" "tab_size s"
  shows "tab_size s' \<and> tab s' c + of_bool (c = ctx) = tab s c"
proof -
  let ?i = "hash_slot (slot_size s) h"
  have i: "?i < slot_size s" using assms(2) hash_slot_bound by (simp add: tab_size_def)
  have "slot s ! ?i = Some ctx" "slot s' = (slot s)[?i := None]"
    using assms(1) by (auto simp: skynet_handle_retire_def Let_def split: option.splits if_splits)
  then show ?thesis using count_list_update [OF i, of None "Some c"] assms(2) by (auto simp: tab_def tab_size_def)
qed

lemma grab_tab:
  assumes "skynet_handle_grab ch s h = Some c" "tab_size s"
  shows "0 < tab s c"
proof -
  have "slot s ! hash_slot (slot_size s) h = Some c" "hash_slot (slot_size s) h < slot_size s"
    using assms hash_slot_bound by (auto simp: skynet_handle_grab_def tab_size_def split: option.splits if_splits)
  then have "Some c \<in> set (slot s)" by (metis nth_mem)
  then show ?thesis unfolding tab_def by (metis count_list_0_iff gr0I)
qed

section \<open>The invariant\<close>

definition life_inv :: "node \<Rightarrow> (cptr \<Rightarrow> nat) \<Rightarrow> bool" where
  "life_inv n held \<longleftrightarrow>
     tab_size (nd_handles n) \<and>
     (\<forall>c. nd_ctx n c = None \<longrightarrow> tab (nd_handles n) c = 0 \<and> held c = 0) \<and>
     (\<forall>c x. nd_ctx n c = Some x \<longrightarrow> cx_ref x = int (tab (nd_handles n) c + held c) \<and> 0 < tab (nd_handles n) c + held c \<and>
        marks (nd_world n) (cx_queue x) = Some False \<and> c < nd_next n) \<and>
     (\<forall>c c' x x'. nd_ctx n c = Some x \<longrightarrow> nd_ctx n c' = Some x' \<longrightarrow> cx_queue x = cx_queue x' \<longrightarrow> c = c') \<and>
     (\<forall>p. marks (nd_world n) p \<noteq> None \<longrightarrow> p < nd_next n)"

lemma life_invD:
  assumes "life_inv n held" "nd_ctx n c = Some x"
  shows "cx_ref x = int (tab (nd_handles n) c + held c)" "0 < tab (nd_handles n) c + held c"
    "marks (nd_world n) (cx_queue x) = Some False" "c < nd_next n"
proof -
  have "\<forall>c x. nd_ctx n c = Some x \<longrightarrow> cx_ref x = int (tab (nd_handles n) c + held c) \<and> 0 < tab (nd_handles n) c + held c \<and>
      marks (nd_world n) (cx_queue x) = Some False \<and> c < nd_next n"
    using assms(1) unfolding life_inv_def by (elim conjE)
  from this [rule_format, OF assms(2)]
  show "cx_ref x = int (tab (nd_handles n) c + held c)" "0 < tab (nd_handles n) c + held c"
    "marks (nd_world n) (cx_queue x) = Some False" "c < nd_next n" by auto
qed

lemma life_inv_none: "life_inv n held \<Longrightarrow> nd_ctx n c = None \<Longrightarrow> tab (nd_handles n) c = 0 \<and> held c = 0"
  unfolding life_inv_def by blast

lemma life_inv_inj:
  "life_inv n held \<Longrightarrow> nd_ctx n c = Some x \<Longrightarrow> nd_ctx n c' = Some x' \<Longrightarrow> cx_queue x = cx_queue x' \<Longrightarrow> c = c'"
  unfolding life_inv_def by blast

lemma life_inv_size: "life_inv n held \<Longrightarrow> tab_size (nd_handles n)"
  unfolding life_inv_def by blast

lemma life_inv_below: "life_inv n held \<Longrightarrow> marks (nd_world n) p \<noteq> None \<Longrightarrow> p < nd_next n"
  unfolding life_inv_def by blast

lemma life_inv_held:
  assumes "life_inv n held" "0 < held c"
  obtains x where "nd_ctx n c = Some x"
  using assms life_inv_none [OF assms(1), of c] by (cases "nd_ctx n c") auto

lemma life_inv_queue:
  assumes "life_inv n held" "nd_ctx n c = Some x"
  obtains q where "mq_heap (nd_world n) (cx_queue x) = Some q" "\<not> mq_release q"
  using life_invD(3) [OF assms] by (auto simp: marks_def)

text \<open>A step that changes the queues and no mark.\<close>

lemma life_inv_world: "life_inv n held \<Longrightarrow> marks w = marks (nd_world n) \<Longrightarrow> life_inv (n\<lparr>nd_world := w\<rparr>) held"
  unfolding life_inv_def by simp

text \<open>A step that changes one context and the references to it.\<close>

lemma life_inv_ctx:
  assumes inv: "life_inv n held" and x: "nd_ctx n c = Some x" and y: "cx_queue y = cx_queue x"
    and n': "nd_ctx n' = (nd_ctx n)(c \<mapsto> y)" "nd_world n' = nd_world n" "nd_next n' = nd_next n" "tab_size (nd_handles n')"
    and tab: "\<And>d. d \<noteq> c \<Longrightarrow> tab (nd_handles n') d = tab (nd_handles n) d" and held: "\<And>d. d \<noteq> c \<Longrightarrow> held' d = held d"
    and ref: "cx_ref y = int (tab (nd_handles n') c + held' c)" "0 < tab (nd_handles n') c + held' c"
  shows "life_inv n' held'"
  unfolding life_inv_def n'(1,2,3)
proof (intro conjI allI impI n'(4))
  fix d assume d: "((nd_ctx n)(c \<mapsto> y)) d = None"
  then have ne: "d \<noteq> c" by auto
  then show "tab (nd_handles n') d = 0" "held' d = 0" using life_inv_none [OF inv, of d] d tab [OF ne] held [OF ne] by auto
next
  fix d z assume d: "((nd_ctx n)(c \<mapsto> y)) d = Some z"
  show "cx_ref z = int (tab (nd_handles n') d + held' d)" "0 < tab (nd_handles n') d + held' d"
      "marks (nd_world n) (cx_queue z) = Some False" "d < nd_next n"
    using d life_invD [OF inv, of d] life_invD [OF inv x] tab [of d] held [of d] ref y by (auto split: if_splits)
next
  fix d d' z z' assume "((nd_ctx n)(c \<mapsto> y)) d = Some z" "((nd_ctx n)(c \<mapsto> y)) d' = Some z'" "cx_queue z = cx_queue z'"
  then show "d = d'" using life_inv_inj [OF inv] x y by (auto split: if_splits)
next
  fix p assume "marks (nd_world n) p \<noteq> None"
  then show "p < nd_next n" by (rule life_inv_below [OF inv])
qed

lemma life_inv_init: "life_inv (node_init hid) (\<lambda>_. 0)"
  by (simp add: life_inv_def node_init_def skynet_globalinit_def skynet_initthread_def skynet_handle_init_def tab_size_def tab_def
      DEFAULT_SLOT_SIZE_def skynet_mq_init_def marks_def)

lemma life_inv_create:
  assumes inv: "life_inv n held" and al: "context_alloc nm n = Ok (c, p, n')"
  shows "life_inv n' (held(c := 1)) \<and> nd_ctx n c = None \<and> mq_heap (nd_world n) p = None \<and>
    (\<exists>h. nd_world n' = mq_set (nd_world n) p (skynet_mq_create h))"
proof -
  let ?n1 = "(cx_set n (nd_next n) (new_context nm (nd_profile n)))\<lparr>nd_next := Suc (Suc (nd_next n))\<rparr>"
  obtain h hs where r: "skynet_handle_register (context_handle ?n1) c (nd_handles n) = Ok (h, hs)"
      "c = nd_next n" "p = Suc c"
    and n': "n' = context_inc (cx_set (?n1\<lparr>nd_handles := hs, nd_world := mq_set (nd_world n) p (skynet_mq_create h)\<rparr>) c
        ((new_context nm (nd_profile n))\<lparr>cx_handle := h, cx_queue := p\<rparr>))"
    using al by (auto simp: context_alloc_def Let_def cx_set_def cx_get_def)
  have fresh: "nd_ctx n c = None" "marks (nd_world n) p = None"
    using life_invD(4) [OF inv, of c] life_inv_below [OF inv, of p] r(2,3) by (cases "nd_ctx n c"; force)+
  have t: "tab_size hs" "tab hs d = tab (nd_handles n) d + of_bool (d = c)" for d
    using register_tab [OF r(1) life_inv_size [OF inv]] by blast+
  have c0: "tab (nd_handles n) c = 0" "held c = 0" using life_inv_none [OF inv fresh(1)] by simp_all
  define y where "y = (new_context nm (nd_profile n))\<lparr>cx_handle := h, cx_queue := p\<rparr>"
  have y: "cx_ref y = 2" "cx_queue y = p" by (simp_all add: y_def new_context_def)
  have f: "nd_ctx n' = (nd_ctx n)(c \<mapsto> y)" "nd_handles n' = hs" "nd_next n' = Suc (Suc c)"
      "nd_world n' = mq_set (nd_world n) p (skynet_mq_create h)"
    using r(2) by (simp_all add: n' context_inc_def cx_set_def y_def)
  have mk: "marks (nd_world n') = (marks (nd_world n))(p \<mapsto> False)" unfolding f marks_set by (simp add: skynet_mq_create_def)
  have old: "cx_queue x \<noteq> p" if "nd_ctx n d = Some x" for d x using life_invD(3) [OF inv that] fresh(2) by auto
  have "life_inv n' (held(c := 1))"
    unfolding life_inv_def mk f(1,2,3)
  proof (intro conjI allI impI t(1))
    fix d assume "((nd_ctx n)(c \<mapsto> y)) d = None"
    then show "tab hs d = 0" "(held(c := 1)) d = 0" using life_inv_none [OF inv, of d] t(2) by (auto split: if_splits)
  next
    fix d z assume d: "((nd_ctx n)(c \<mapsto> y)) d = Some z"
    show "cx_ref z = int (tab hs d + (held(c := 1)) d)" "0 < tab hs d + (held(c := 1)) d"
        "((marks (nd_world n))(p \<mapsto> False)) (cx_queue z) = Some False" "d < Suc (Suc c)"
      using d life_invD [OF inv, of d] t(2) [of d] c0 y old [of d] r(2) by (auto split: if_splits)
  next
    fix d d' z z' assume "((nd_ctx n)(c \<mapsto> y)) d = Some z" "((nd_ctx n)(c \<mapsto> y)) d' = Some z'" "cx_queue z = cx_queue z'"
    then show "d = d'" using life_inv_inj [OF inv] y old by (auto split: if_splits)
  next
    fix q assume "((marks (nd_world n))(p \<mapsto> False)) q \<noteq> None"
    then show "q < Suc (Suc c)" using life_inv_below [OF inv, of q] r(2,3) by (auto split: if_splits)
  qed
  then show ?thesis using fresh f(4) by (auto simp: marks_def)
qed


text \<open>One more reference to a context that is there.\<close>

lemma life_inv_add_ref:
  assumes inv: "life_inv n held" and x: "nd_ctx n c = Some x"
    and n': "nd_ctx n' = (nd_ctx n)(c \<mapsto> x\<lparr>cx_ref := cx_ref x + 1\<rparr>)" "nd_world n' = nd_world n" "nd_next n' = nd_next n"
      "nd_handles n' = nd_handles n"
  shows "life_inv n' (held(c := held c + 1))"
proof (rule life_inv_ctx [OF inv x _ n'(1,2,3)])
  show "cx_ref (x\<lparr>cx_ref := cx_ref x + 1\<rparr>) = int (tab (nd_handles n') c + (held(c := held c + 1)) c)"
    using life_invD(1) [OF inv x] n'(4) by simp
qed (use life_inv_size [OF inv] n'(4) in simp_all)

lemma life_inv_grab:
  assumes inv: "life_inv n held" and c: "skynet_context_grab c n = Ok n'"
  shows "life_inv n' (held(c := held c + 1)) \<and> nd_world n' = nd_world n"
proof -
  obtain x where x: "nd_ctx n c = Some x" and n': "n' = cx_set n c (x\<lparr>cx_ref := cx_ref x + 1\<rparr>)"
    using c by (auto simp: skynet_context_grab_def cx_get_def split: option.splits)
  have "life_inv n' (held(c := held c + 1))" by (rule life_inv_add_ref [OF inv x]) (simp_all add: n' cx_set_def)
  then show ?thesis by (simp add: n' cx_set_def)
qed

lemma life_inv_total: "life_inv (n\<lparr>nd_total := k\<rparr>) held = life_inv n held"
  by (simp add: life_inv_def)

lemma life_inv_retire:
  assumes inv: "life_inv n held" and r: "skynet_handle_retire ch h (nd_handles n) = Ok (Some c, hs)"
  shows "life_inv (n\<lparr>nd_handles := hs\<rparr>) (held(c := held c + 1))"
proof -
  have t: "tab_size hs" "tab hs d + of_bool (d = c) = tab (nd_handles n) d" for d
    using retire_tab [OF r life_inv_size [OF inv]] by blast+
  have "0 < tab (nd_handles n) c" using t(2) [of c] by simp
  then obtain x where x: "nd_ctx n c = Some x" using life_inv_none [OF inv, of c] by (cases "nd_ctx n c") auto
  show ?thesis
  proof (rule life_inv_ctx [OF inv x, of x])
    show "nd_ctx (n\<lparr>nd_handles := hs\<rparr>) = (nd_ctx n)(c \<mapsto> x)" using x by auto
    show "cx_ref x = int (tab (nd_handles (n\<lparr>nd_handles := hs\<rparr>)) c + (held(c := held c + 1)) c)"
      using life_invD(1) [OF inv x] t(2) [of c] by simp
    show "tab (nd_handles (n\<lparr>nd_handles := hs\<rparr>)) d = tab (nd_handles n) d" if "d \<noteq> c" for d using t(2) [of d] that by simp
  qed (use t(1) in simp_all)
qed

lemma life_inv_free:
  assumes inv: "life_inv n held" and p: "marks (nd_world n) p = Some True" and w: "marks w = (marks (nd_world n))(p := None)"
  shows "life_inv (n\<lparr>nd_world := w\<rparr>) held"
proof -
  have other: "cx_queue x \<noteq> p" if "nd_ctx n c = Some x" for c x using life_invD(3) [OF inv that] p by auto
  show ?thesis
    unfolding life_inv_def
  proof (intro conjI allI impI)
    fix c x assume "nd_ctx (n\<lparr>nd_world := w\<rparr>) c = Some x"
    then have x: "nd_ctx n c = Some x" by simp
    from life_invD [OF inv x] other [OF x] w
    show "cx_ref x = int (tab (nd_handles (n\<lparr>nd_world := w\<rparr>)) c + held c)"
      "0 < tab (nd_handles (n\<lparr>nd_world := w\<rparr>)) c + held c"
      "marks (nd_world (n\<lparr>nd_world := w\<rparr>)) (cx_queue x) = Some False" "c < nd_next (n\<lparr>nd_world := w\<rparr>)" by simp_all
  next
    fix q assume "marks (nd_world (n\<lparr>nd_world := w\<rparr>)) q \<noteq> None"
    then show "q < nd_next (n\<lparr>nd_world := w\<rparr>)" using life_inv_below [OF inv, of q] w by (auto split: if_splits)
  qed (use life_inv_size [OF inv] life_inv_none [OF inv] life_inv_inj [OF inv] in auto)
qed

text \<open>The last reference: the context goes and its queue is marked.\<close>

lemma life_inv_delete:
  assumes inv: "life_inv n held" and x: "nd_ctx n c = Some x" and last: "tab (nd_handles n) c + held c = 1" "0 < held c"
    and n': "nd_ctx n' = (nd_ctx n)(c := None)" "nd_handles n' = nd_handles n" "nd_next n' = nd_next n"
      "marks (nd_world n') = (marks (nd_world n))(cx_queue x \<mapsto> True)"
  shows "life_inv n' (held(c := held c - 1))"
  unfolding life_inv_def n'
proof (intro conjI allI impI)
  fix d assume d: "((nd_ctx n)(c := None)) d = None"
  show "tab (nd_handles n) d = 0" "(held(c := held c - 1)) d = 0"
    using life_inv_none [OF inv, of d] d last by (auto split: if_splits)
next
  fix d y assume "((nd_ctx n)(c := None)) d = Some y"
  then have y: "nd_ctx n d = Some y" "d \<noteq> c" by (auto split: if_splits)
  have "cx_queue y \<noteq> cx_queue x" using life_inv_inj [OF inv y(1) x] y(2) by blast
  with life_invD [OF inv y(1)] y(2)
  show "cx_ref y = int (tab (nd_handles n) d + (held(c := held c - 1)) d)" "0 < tab (nd_handles n) d + (held(c := held c - 1)) d"
    "((marks (nd_world n))(cx_queue x \<mapsto> True)) (cx_queue y) = Some False" "d < nd_next n" by simp_all
next
  fix d d' y y'
  assume "((nd_ctx n)(c := None)) d = Some y" "((nd_ctx n)(c := None)) d' = Some y'" "cx_queue y = cx_queue y'"
  then show "d = d'" using life_inv_inj [OF inv] by (auto split: if_splits)
next
  fix q assume "((marks (nd_world n))(cx_queue x \<mapsto> True)) q \<noteq> None"
  then show "q < nd_next n" using life_inv_below [OF inv] life_invD(3) [OF inv x] by (cases "q = cx_queue x") auto
qed (rule life_inv_size [OF inv])

text \<open>A release by a thread that has a reference: the count goes down, or the context is deleted and its queue is marked.\<close>

lemma release_held:
  assumes inv: "life_inv n held" and held: "0 < held c" and quiet: "quiet_release M"
    and r: "skynet_context_release M c n = Ok (alive, n')"
  shows "life_inv n' (held(c := held c - 1)) \<and>
    (nd_world n' = nd_world n \<or> (\<exists>x. nd_ctx n c = Some x \<and> skynet_mq_mark_release (cx_queue x) (nd_world n) = Ok (nd_world n')))"
proof -
  obtain x where x: "nd_ctx n c = Some x" using life_inv_held [OF inv held] .
  note xD = life_invD [OF inv x]
  let ?n1 = "cx_set n c (x\<lparr>cx_ref := cx_ref x - 1\<rparr>)"
  show ?thesis
  proof (cases "cx_ref x = 1")
    case True
    then obtain w where w: "skynet_mq_mark_release (cx_queue x) (nd_world n) = Ok w"
        "n' = context_dec (?n1\<lparr>nd_world := w, nd_ctx := (nd_ctx n)(c := None)\<rparr>)"
      using r x quiet by (auto simp: skynet_context_release_def cx_get_def delete_context_def quiet_release_def cx_set_def Let_def)
    have "life_inv n' (held(c := held c - 1))"
      by (rule life_inv_delete [OF inv x _ held]) (use True xD(1) w marks_mark [OF w(1)] in \<open>simp_all add: context_dec_def cx_set_def\<close>)
    then show ?thesis using w x by (simp add: context_dec_def)
  next
    case False
    then have n': "n' = ?n1" using r x by (simp add: skynet_context_release_def cx_get_def Let_def)
    have "life_inv n' (held(c := held c - 1))"
      by (rule life_inv_ctx [OF inv x, of "x\<lparr>cx_ref := cx_ref x - 1\<rparr>"])
        (use False xD held life_inv_size [OF inv] in \<open>auto simp: n' cx_set_def\<close>)
    then show ?thesis by (simp add: n' cx_set_def)
  qed
qed


section \<open>The system implements the scheduling protocol\<close>

definition sched_of :: "sys \<Rightarrow> sched" where
  "sched_of s = \<lparr>world = nd_world (sy_node s), holds = sy_holds s\<rparr>"

lemma sched_of_simps [simp]: "world (sched_of s) = nd_world (sy_node s)" "holds (sched_of s) = sy_holds s"
  by (simp_all add: sched_of_def)

lemma sched_of_eqI: "world a = nd_world (sy_node s) \<Longrightarrow> holds a = sy_holds s \<Longrightarrow> sched_of s = a"
  by (simp add: sched_of_def)

definition sys_ok :: "sys \<Rightarrow> bool" where
  "sys_ok s \<longleftrightarrow> life_inv (sy_node s) (sy_held s)"

definition sched_sim :: "sys \<Rightarrow> sys \<Rightarrow> bool" where
  "sched_sim s s' \<longleftrightarrow> sched_of s' = sched_of s \<or> sched_step (sched_of s) (sched_of s')"

lemma sched_simI: "sched_step (sched_of s) a \<Longrightarrow> world a = nd_world (sy_node s') \<Longrightarrow> holds a = sy_holds s' \<Longrightarrow> sched_sim s s'"
  by (auto simp: sched_sim_def sched_of_eqI)

lemma sched_sim_same: "nd_world (sy_node s') = nd_world (sy_node s) \<Longrightarrow> sy_holds s' = sy_holds s \<Longrightarrow> sched_sim s s'"
  by (simp add: sched_sim_def sched_of_def)

lemma mq_free_Ok: "mq_free p w = Ok w' \<Longrightarrow> marks w' = (marks w)(p := None)"
  by (auto simp: mq_free_def marks_def fun_eq_iff split: if_splits option.splits)

lemma sys_step_sim:
  assumes "sys_step M s s'" "quiet_release M" "sys_ok s"
  shows "sys_ok s' \<and> sched_sim s s'"
  using assms
proof (induction rule: sys_step.induct)
  case (create s t nm c p n)
  note cr = life_inv_create [OF create(4) [unfolded sys_ok_def] create(2)]
  then obtain h where h: "nd_world n = mq_set (nd_world (sy_node s)) p (skynet_mq_create h)" by blast
  have "sched_step (sched_of s) ((sched_of s)\<lparr>world := mq_set (world (sched_of s)) p (skynet_mq_create h), holds := (holds (sched_of s))(t \<mapsto> p)\<rparr>)"
    using cr create(1) by (intro sched_step.create) auto
  then show ?case using cr h by (auto simp: sys_ok_def intro: sched_simI)
next
  case (grab h s c n)
  have "skynet_context_grab c (sy_node s) = Ok n" using grab(1) by (auto simp: handle_grab_def split: option.splits)
  from life_inv_grab [OF grab(3) [unfolded sys_ok_def] this] show ?case by (simp add: sys_ok_def sched_sim_same)
next
  case (reserve s c n)
  obtain n1 where n1: "skynet_context_grab c (sy_node s) = Ok n1" "n = context_dec n1"
    using reserve(2) by (auto simp: skynet_context_reserve_def)
  from life_inv_grab [OF reserve(4) [unfolded sys_ok_def] n1(1)] show ?case
    by (simp add: sys_ok_def sched_sim_same n1(2) context_dec_def life_inv_total)
next
  case (retire s h c hs)
  from life_inv_retire [OF retire(3) [unfolded sys_ok_def] retire(1)] show ?case by (simp add: sys_ok_def sched_sim_same)
next
  case (release s c alive n)
  from release_held [OF release(4) [unfolded sys_ok_def] release(1,3,2)]
  consider "life_inv n ((sy_held s)(c := sy_held s c - 1))" "nd_world n = nd_world (sy_node s)"
    | x where "life_inv n ((sy_held s)(c := sy_held s c - 1))" "nd_ctx (sy_node s) c = Some x"
        "skynet_mq_mark_release (cx_queue x) (nd_world (sy_node s)) = Ok (nd_world n)" by blast
  then show ?case
  proof cases
    case 1
    then show ?thesis by (simp add: sys_ok_def sched_sim_same)
  next
    case (2 x)
    obtain q where q: "mq_heap (nd_world (sy_node s)) (cx_queue x) = Some q"
      using life_inv_queue [OF release(4) [unfolded sys_ok_def] 2(2)] by blast
    have "sched_step (sched_of s) ((sched_of s)\<lparr>world := nd_world n\<rparr>)" using q 2(3) by (intro sched_step.mark) auto
    then show ?thesis using 2(1) by (auto simp: sys_ok_def intro: sched_simI)
  qed
next
  case (edit s c x y)
  note inv = edit(5) [unfolded sys_ok_def]
  have "life_inv (cx_set (sy_node s) c y) (sy_held s)"
    by (rule life_inv_ctx [OF inv edit(2), of y])
      (use edit(3) life_invD [OF inv edit(2)] life_inv_size [OF inv] in \<open>simp_all add: cx_set_def same_life_def\<close>)
  then show ?case by (simp add: sys_ok_def sched_sim_same cx_set_def)
next
  case (send s c x m n)
  note inv = send(5) [unfolded sys_ok_def]
  obtain w where w: "skynet_mq_push (cx_queue x) m (nd_world (sy_node s)) = Ok w" "n = (sy_node s)\<lparr>nd_world := w\<rparr>" using send(3) by auto
  obtain q where q: "mq_heap (nd_world (sy_node s)) (cx_queue x) = Some q" "\<not> mq_release q" using life_inv_queue [OF inv send(2)] .
  have "sched_step (sched_of s) ((sched_of s)\<lparr>world := w\<rparr>)" using q w(1) by (intro sched_step.send) auto
  then show ?case using life_inv_world [OF inv marks_mq_push [OF w(1)]] w(2) by (auto simp: sys_ok_def intro: sched_simI)
next
  case (put_back s t p n)
  obtain w where w: "skynet_globalmq_push p (nd_world (sy_node s)) = Ok w" "n = (sy_node s)\<lparr>nd_world := w\<rparr>" using put_back(2) by auto
  have "sched_step (sched_of s) ((sched_of s)\<lparr>world := w, holds := (holds (sched_of s))(t := None)\<rparr>)"
    using put_back(1) w(1) by (intro sched_step.put_back) auto
  then show ?case using life_inv_world [OF put_back(4) [unfolded sys_ok_def] marks_globalmq_push [OF w(1)]] w(2)
    by (auto simp: sys_ok_def intro: sched_simI)
next
  case (take s t p n)
  obtain w where w: "skynet_globalmq_pop (nd_world (sy_node s)) = Ok (Some p, w)" "n = (sy_node s)\<lparr>nd_world := w\<rparr>"
    using take(2) by (auto simp: node_globalmq_pop_def)
  have "sched_step (sched_of s) ((sched_of s)\<lparr>world := w, holds := (holds (sched_of s))(t \<mapsto> p)\<rparr>)"
    using take(1) w(1) by (intro sched_step.take) auto
  then show ?case using life_inv_world [OF take(4) [unfolded sys_ok_def] marks_globalmq_pop [OF w(1)]] w(2)
    by (auto simp: sys_ok_def intro: sched_simI)
next
  case (pop s t p m n)
  obtain q q' where q: "mq_heap (nd_world (sy_node s)) p = Some q" "skynet_mq_pop q = Ok (Some m, q')"
      "n = (sy_node s)\<lparr>nd_world := mq_set (nd_world (sy_node s)) p q'\<rparr>" using pop(2) by (auto simp: node_pop_Ok)
  have "sched_step (sched_of s) ((sched_of s)\<lparr>world := mq_set (world (sched_of s)) p q'\<rparr>)"
    using pop(1) q(1,2) by (intro sched_step.pop_message) auto
  then show ?case using life_inv_world [OF pop(4) [unfolded sys_ok_def] marks_same [OF q(1) mq_pop_release [OF q(2)]]] q(3)
    by (auto simp: sys_ok_def intro: sched_simI)
next
  case (leave s t p c x n)
  note inv = leave(7) [unfolded sys_ok_def]
  obtain q q' where q: "mq_heap (nd_world (sy_node s)) p = Some q" "skynet_mq_pop q = Ok (None, q')"
      "n = (sy_node s)\<lparr>nd_world := mq_set (nd_world (sy_node s)) p q'\<rparr>" using leave(5) by (auto simp: node_pop_Ok)
  have "\<not> mq_release q" using life_inv_queue [OF inv leave(3)] q(1) leave(4) by fastforce
  then have "sched_step (sched_of s) ((sched_of s)\<lparr>world := mq_set (world (sched_of s)) p q', holds := (holds (sched_of s))(t := None)\<rparr>)"
    using leave(1) q(1,2) by (intro sched_step.leave_empty) auto
  then show ?case using life_inv_world [OF inv marks_same [OF q(1) mq_pop_release [OF q(2)]]] q(3)
    by (auto simp: sys_ok_def intro: sched_simI)
next
  case (free s t p q n1 n)
  note inv = free(7) [unfolded sys_ok_def]
  obtain q' where q: "skynet_mq_pop q = Ok (None, q')" "n1 = (sy_node s)\<lparr>nd_world := mq_set (nd_world (sy_node s)) p q'\<rparr>"
    using free(2,4) by (auto simp: node_pop_Ok)
  obtain w where w: "mq_free p (mq_set (nd_world (sy_node s)) p q') = Ok w" "n = n1\<lparr>nd_world := w\<rparr>" using free(5) q(2) by auto
  have "sched_step (sched_of s) ((sched_of s)\<lparr>world := w, holds := (holds (sched_of s))(t := None)\<rparr>)"
    using free(1,2,3) q(1) w(1) by (intro sched_step.free_queue) auto
  moreover have "marks (nd_world (sy_node s)) p = Some True" using free(2,3) by (simp add: marks_def)
  moreover have "marks w = (marks (nd_world (sy_node s)))(p := None)"
    using mq_free_Ok [OF w(1)] marks_same [OF free(2) mq_pop_release [OF q(1)]] by simp
  ultimately show ?case using life_inv_free [OF inv] w(2) q(2) by (auto simp: sys_ok_def intro: sched_simI)
next
  case (report s t p q n)
  have "sched_step (sched_of s) ((sched_of s)\<lparr>world := mq_set (world (sched_of s)) p (snd (skynet_mq_overload q))\<rparr>)"
    using report(1,2) by (intro sched_step.report) auto
  moreover have "mq_release (snd (skynet_mq_overload q)) = mq_release q" by (simp add: skynet_mq_overload_def)
  ultimately show ?case using life_inv_world [OF report(5) [unfolded sys_ok_def] marks_same [OF report(2)]] report(3)
    by (auto simp: sys_ok_def intro: sched_simI)
next
  case (other n s)
  then show ?case by (simp add: sys_ok_def sched_sim_same life_inv_def tab_def tab_size_def)
qed

section \<open>Properties of the system\<close>

lemma sys_reachable_ok:
  assumes "sys_reachable M hid s" "quiet_release M"
  shows "sys_ok s \<and> sched_reachable (sched_of s)"
  using assms
proof (induction rule: sys_reachable.induct)
  case start
  have "sched_of \<lparr>sy_node = node_init hid, sy_held = (\<lambda>_. 0), sy_holds = (\<lambda>_. None)\<rparr> = sched_init"
    by (simp add: sched_of_def sched_init_def node_init_def skynet_globalinit_def skynet_initthread_def)
  then show ?case using life_inv_init sched_reachable.start by (simp add: sys_ok_def)
next
  case (step s s')
  with sys_step_sim [OF step(2)] have "sys_ok s'" "sched_sim s s'" "sched_reachable (sched_of s)" by auto
  then show ?case by (auto simp: sched_sim_def intro: sched_reachable.step)
qed

text \<open>A reference is to a context that is there, with an unmarked queue.\<close>

lemma held_release:
  assumes inv: "life_inv n held" and s: "sched_inv \<lparr>world = nd_world n, holds = hs\<rparr> ps" and held: "0 < held c" and quiet: "quiet_release M"
  shows "\<exists>n'. skynet_context_release M c n = Ok (1 < tab (nd_handles n) c + held c, n')"
proof -
  obtain x where x: "nd_ctx n c = Some x" using life_inv_held [OF inv held] .
  obtain q where q: "mq_heap (nd_world n) (cx_queue x) = Some q" "\<not> mq_release q" using life_inv_queue [OF inv x] .
  obtain w where "skynet_mq_mark_release (cx_queue x) (nd_world n) = Ok w" using sched_inv_mark [OF s] q by auto
  with x quiet life_invD(1,2) [OF inv x] held show ?thesis
    by (auto simp: skynet_context_release_def cx_get_def Let_def delete_context_def quiet_release_def cx_set_def)
qed

lemma held_push:
  assumes inv: "life_inv n held" and s: "sched_inv \<lparr>world = nd_world n, holds = hs\<rparr> ps" and x: "nd_ctx n c = Some x"
  shows "\<exists>n'. on_world (skynet_mq_push (cx_queue x) m) n = Ok n'"
proof -
  obtain q where "mq_heap (nd_world n) (cx_queue x) = Some q" "\<not> mq_release q" using life_inv_queue [OF inv x] .
  then show ?thesis using sched_inv_send [OF s, of "cx_queue x" q m] by auto
qed

lemma grab_ok:
  assumes inv: "life_inv n held"
  shows "\<exists>r. handle_grab h n = Ok r"
proof (cases "skynet_handle_grab (context_handle n) (nd_handles n) h")
  case (Some c)
  have "0 < tab (nd_handles n) c" using grab_tab [OF Some life_inv_size [OF inv]] .
  then obtain x where "nd_ctx n c = Some x" using life_inv_none [OF inv, of c] by (cases "nd_ctx n c") auto
  then show ?thesis using Some by (simp add: handle_grab_def skynet_context_grab_def cx_get_def)
qed (simp add: handle_grab_def)

text \<open>C4: The life of a context. In every state that concurrent threads reach, the reference count of a context is the
  number of slots of the handle storage that hold it plus the number of references that threads have, and the context is
  there exactly as long as this number is positive. Resolving a handle never touches a freed context; a thread with a
  reference can push a message to the queue of the context and can release the reference, and the release deletes the
  context exactly when it was the last one.\<close>

theorem context_lifetime:
  assumes "sys_reachable M hid s" and "quiet_release M"
  shows "(\<forall>c. nd_ctx (sy_node s) c \<noteq> None \<longleftrightarrow> 0 < tab (nd_handles (sy_node s)) c + sy_held s c) \<and>
    (\<forall>c x. nd_ctx (sy_node s) c = Some x \<longrightarrow>
       cx_ref x = int (tab (nd_handles (sy_node s)) c + sy_held s c) \<and>
       (\<forall>m. \<exists>n. on_world (skynet_mq_push (cx_queue x) m) (sy_node s) = Ok n)) \<and>
    (\<forall>h. \<exists>r. handle_grab h (sy_node s) = Ok r) \<and>
    (\<forall>c. 0 < sy_held s c \<longrightarrow>
       (\<exists>n. skynet_context_release M c (sy_node s) = Ok (1 < tab (nd_handles (sy_node s)) c + sy_held s c, n)))"
proof -
  have inv: "life_inv (sy_node s) (sy_held s)" using sys_reachable_ok [OF assms] by (simp add: sys_ok_def)
  obtain ps where ps: "sched_inv \<lparr>world = nd_world (sy_node s), holds = sy_holds s\<rparr> ps"
    using sched_reachable_inv sys_reachable_ok [OF assms] unfolding sched_of_def by blast
  show ?thesis
  proof (intro conjI allI impI)
    fix c show "nd_ctx (sy_node s) c \<noteq> None \<longleftrightarrow> 0 < tab (nd_handles (sy_node s)) c + sy_held s c"
      using life_inv_none [OF inv, of c] life_invD(2) [OF inv, of c] by (cases "nd_ctx (sy_node s) c") auto
  next
    fix c x assume x: "nd_ctx (sy_node s) c = Some x"
    show "cx_ref x = int (tab (nd_handles (sy_node s)) c + sy_held s c)" by (rule life_invD(1) [OF inv x])
    show "\<exists>n. on_world (skynet_mq_push (cx_queue x) m) (sy_node s) = Ok n" for m by (rule held_push [OF inv ps x])
  qed (use grab_ok [OF inv] held_release [OF inv ps _ assms(2)] in blast)+
qed

text \<open>A run for the witnesses: one thread creates a service in a node without code in its modules.\<close>

definition quiet_modules :: modules where
  "quiet_modules = \<lparr>md_query = (\<lambda>_. True), md_create = (\<lambda>_. True), md_start = (\<lambda>_ _ _ n. Ok (0, n)), md_release = (\<lambda>_ _ n. Ok n),
     md_signal = (\<lambda>_ _ _ n. Ok n), md_cb = (\<lambda>_ _ _ _ _ _ n. Ok (0, n)), md_time = (\<lambda>_. 0), md_lf = (\<lambda>_. []), md_logopen = (\<lambda>_. False)\<rparr>"

lemma quiet_modules_quiet: "quiet_release quiet_modules"
  by (simp add: quiet_release_def quiet_modules_def)

lemma register_first: "skynet_handle_register ch c (skynet_handle_init 1) =
    Ok (0x1000001, (skynet_handle_init 1)\<lparr>slot := [None, Some c, None, None], handle_index := 2\<rparr>)"
proof -
  have "slot (skynet_handle_init 1) = [None, None, None, None]" "handle_index (skynet_handle_init 1) = 1"
      "harbor (skynet_handle_init 1) = 0x1000000"
    by (simp_all add: skynet_handle_init_def DEFAULT_SLOT_SIZE_def eval_nat_numeral HANDLE_REMOTE_SHIFT_def)
  then show ?thesis
    by (simp add: skynet_handle_register_def register_loop.simps [of ch c "skynet_handle_init 1"] hash_slot_def HANDLE_MASK_def Let_def)
qed

definition node_one :: node where
  "node_one = snd (snd (case context_alloc ''gate'' (node_init 1) of Ok r \<Rightarrow> r))"

definition sys_one :: sys where
  "sys_one = \<lparr>sy_node = node_one, sy_held = (\<lambda>_. 0)(0 := 1), sy_holds = (\<lambda>_. None)(0 \<mapsto> 1)\<rparr>"

lemma alloc_one: "context_alloc ''gate'' (node_init 1) = Ok (0, 1, node_one)"
proof -
  have h: "nd_handles (node_init 1) = skynet_handle_init 1" "nd_next (node_init 1) = 0"
    by (simp_all add: node_init_def skynet_globalinit_def skynet_initthread_def)
  have "\<exists>n. context_alloc ''gate'' (node_init 1) = Ok (0, 1, n)"
    by (simp add: context_alloc_def h Let_def register_first cx_get_def cx_set_def)
  then show ?thesis by (auto simp: node_one_def)
qed

lemma node_one_fields:
  "nd_ctx node_one = [0 \<mapsto> (new_context ''gate'' False)\<lparr>cx_handle := 0x1000001, cx_queue := 1\<rparr>]"
  "nd_handles node_one = (skynet_handle_init 1)\<lparr>slot := [None, Some 0, None, None], handle_index := 2\<rparr>"
  "nd_world node_one = mq_set skynet_mq_init 1 (skynet_mq_create 0x1000001)"
  "nd_harbor node_one = 0x1000000" "nd_logger node_one = 0"
  unfolding node_one_def
  by (simp_all add: context_alloc_def Let_def cx_get_def cx_set_def context_inc_def node_init_def skynet_globalinit_def
      skynet_initthread_def register_first HANDLE_REMOTE_SHIFT_def)

lemma sys_one_reachable: "sys_reachable M 1 sys_one"
proof -
  let ?s = "\<lparr>sy_node = node_init 1, sy_held = (\<lambda>_. 0), sy_holds = (\<lambda>_. None)\<rparr>"
  have "sys_step M ?s (?s\<lparr>sy_node := node_one, sy_held := (sy_held ?s)(0 := 1), sy_holds := (sy_holds ?s)(0 \<mapsto> 1)\<rparr>)"
    by (rule sys_step.create [where nm = "''gate''"]) (simp_all add: alloc_one)
  from sys_reachable.step [OF sys_reachable.start this] show ?thesis by (simp add: sys_one_def)
qed

theorem context_lifetime_witness:
  "sys_reachable quiet_modules 1 sys_one \<and> quiet_release quiet_modules \<and> 0 < sy_held sys_one 0 \<and> nd_ctx (sy_node sys_one) 0 \<noteq> None \<and>
   (\<exists>n. skynet_context_release quiet_modules 0 (sy_node sys_one) = Ok (True, n))"
proof -
  have held: "sy_held sys_one 0 = 1" by (simp add: sys_one_def)
  have t: "tab (nd_handles (sy_node sys_one)) 0 = 1" by (simp add: tab_def sys_one_def node_one_fields)
  note L = context_lifetime [OF sys_one_reachable quiet_modules_quiet]
  have "nd_ctx (sy_node sys_one) 0 \<noteq> None" using conjunct1 [OF L] held by (metis gr0I add_is_0 one_neq_zero)
  moreover have "\<exists>n. skynet_context_release quiet_modules 0 (sy_node sys_one) = Ok (1 < tab (nd_handles (sy_node sys_one)) 0 + sy_held sys_one 0, n)"
    by (rule L [THEN conjunct2, THEN conjunct2, THEN conjunct2, rule_format]) (simp add: held)
  ultimately show ?thesis using sys_one_reachable quiet_modules_quiet held t by simp
qed

text \<open>C2: No assertion of the queue code fails and no freed queue is touched. In every state that concurrent threads reach by steps of
  \<open>sys_step\<close> (module release functions leave the node alone): a worker can pop the global queue; the holder of a queue can push it back to the
  global queue and can pop it, and when it finds it empty it can free it, so that the assertion \<open>q->next == NULL\<close> of
  \<open>_release\<close> holds; through every context that exists a message can be pushed, and its queue can be marked for release, so that the
  assertion \<open>q->release == 0\<close> of \<open>skynet_mq_mark_release\<close> holds: the count of references, not a guard, keeps a queue from being marked
  twice.\<close>

theorem queue_no_failure:
  assumes "sys_reachable M hid s" and "quiet_release M"
  shows "(\<exists>r n. node_globalmq_pop (sy_node s) = Ok (r, n)) \<and>
    (\<forall>t p. sy_holds s t = Some p \<longrightarrow>
       (\<exists>n. on_world (skynet_globalmq_push p) (sy_node s) = Ok n) \<and>
       (\<exists>r n. node_pop p (sy_node s) = Ok (r, n) \<and> (r = None \<longrightarrow> (\<exists>n'. on_world (mq_free p) n = Ok n')))) \<and>
    (\<forall>c x. nd_ctx (sy_node s) c = Some x \<longrightarrow>
       (\<forall>m. \<exists>n. on_world (skynet_mq_push (cx_queue x) m) (sy_node s) = Ok n) \<and>
       (\<exists>n. on_world (skynet_mq_mark_release (cx_queue x)) (sy_node s) = Ok n))"
proof -
  have inv: "life_inv (sy_node s) (sy_held s)" using sys_reachable_ok [OF assms] by (simp add: sys_ok_def)
  obtain ps where ps: "sched_inv \<lparr>world = nd_world (sy_node s), holds = sy_holds s\<rparr> ps"
    using sched_reachable_inv sys_reachable_ok [OF assms] unfolding sched_of_def by blast
  show ?thesis
  proof (intro conjI allI impI)
    have "\<exists>r w. skynet_globalmq_pop (nd_world (sy_node s)) = Ok (r, w)"
      using globalmq_pop_empty globalmq_pop_cons sched_inv_gq [OF ps] by (cases ps) (simp, metis sched.select_convs(1))
    then show "\<exists>r n. node_globalmq_pop (sy_node s) = Ok (r, n)" by (auto simp: node_globalmq_pop_def)
  next
    fix t p assume t: "sy_holds s t = Some p"
    show "\<exists>n. on_world (skynet_globalmq_push p) (sy_node s) = Ok n" using sched_inv_put_back [OF ps, of t p] t by auto
    obtain q where q: "mq_heap (nd_world (sy_node s)) p = Some q" using sched_inv_alive [OF ps, of t p] t by auto
    have mq: "mq_inv q" using sched_inv_queue(1) [OF ps, of p q] q by simp
    obtain r q' where pop: "skynet_mq_pop q = Ok (r, q')" using mq.pop_ok [OF mq] by metis
    obtain w where "mq_free p (mq_set (nd_world (sy_node s)) p q') = Ok w"
      using sched_inv_free [OF ps, of t p q q'] t q mq_pop_cases(1) [OF mq pop] by auto
    then show "\<exists>r n. node_pop p (sy_node s) = Ok (r, n) \<and> (r = None \<longrightarrow> (\<exists>n'. on_world (mq_free p) n = Ok n'))"
      using q pop by (simp add: node_pop_Ok)
  next
    fix c x assume x: "nd_ctx (sy_node s) c = Some x"
    show "\<exists>n. on_world (skynet_mq_push (cx_queue x) m) (sy_node s) = Ok n" for m by (rule held_push [OF inv ps x])
    obtain q where "mq_heap (nd_world (sy_node s)) (cx_queue x) = Some q" "\<not> mq_release q" using life_inv_queue [OF inv x] .
    then show "\<exists>n. on_world (skynet_mq_mark_release (cx_queue x)) (sy_node s) = Ok n" using sched_inv_mark [OF ps] by auto
  qed
qed

theorem queue_no_failure_witness:
  "sys_reachable quiet_modules 1 sys_one \<and> (\<exists>r n. node_globalmq_pop (sy_node sys_one) = Ok (r, n)) \<and>
   (\<exists>n. on_world (skynet_globalmq_push 1) (sy_node sys_one) = Ok n) \<and>
   (\<exists>n. on_world (skynet_mq_mark_release 1) (sy_node sys_one) = Ok n)"
proof -
  have h: "sy_holds sys_one 0 = Some 1" by (simp add: sys_one_def)
  obtain x where x: "nd_ctx (sy_node sys_one) 0 = Some x" "cx_queue x = 1" by (simp add: sys_one_def node_one_fields)
  note Q = queue_no_failure [OF sys_one_reachable quiet_modules_quiet]
  have "\<exists>n. on_world (skynet_mq_mark_release (cx_queue x)) (sy_node sys_one) = Ok n" using Q x(1) by blast
  then show ?thesis unfolding x(2) using Q h sys_one_reachable by blast
qed

text \<open>C5: The services implement the scheduling protocol. Whatever the threads do through contexts they have references to,
  the queues and the hands of the threads are in a state of the protocol of \<open>Skynet_Sched\<close>: in particular every message is
  pushed to a queue that is not marked for release, which that protocol takes for granted.\<close>

theorem server_refines_sched:
  assumes "sys_reachable M hid s" and "quiet_release M"
  shows "sched_reachable (sched_of s)"
  using sys_reachable_ok [OF assms] by blast

theorem server_refines_sched_witness:
  "sys_reachable quiet_modules 1 sys_one \<and> quiet_release quiet_modules \<and> sched_reachable (sched_of sys_one) \<and>
   holds (sched_of sys_one) 0 = Some 1"
  using server_refines_sched [OF sys_one_reachable quiet_modules_quiet] sys_one_reachable quiet_modules_quiet by (simp add: sys_one_def)

end
