(* ===== verification/Skynet_Dispatch.thy ===== *)
theory Skynet_Dispatch
  imports Skynet_Life
begin

text \<open>
  The functions of \<open>skynet_server.c\<close> as runs of the concurrent system of \<open>Skynet_Life\<close>. Each function is translated
  whole in \<open>Skynet_Server\<close>; here it is cut at its locks: \<open>skynet_context_push\<close> is a grab, a send and a release. So the
  invariants of the system hold at the end of every function, whatever the other threads did between the calls. The theory has what the
  steps never take back, what sending does to the queues, and the addresses that commands answer with; the turn of a worker is in
  \<open>Skynet_Turn\<close>.
\<close>

section \<open>Functions as sequences of steps\<close>

abbreviation sys_run :: "modules \<Rightarrow> sys \<Rightarrow> sys \<Rightarrow> bool" where
  "sys_run M \<equiv> (sys_step M)\<^sup>*\<^sup>*"

text \<open>The calling thread changes the node and has the references and queues it had before.\<close>

definition runs :: "modules \<Rightarrow> sys \<Rightarrow> node \<Rightarrow> bool" where
  "runs M s n \<longleftrightarrow> sys_run M s (s\<lparr>sy_node := n\<rparr>)"

lemma runs_refl [simp]: "runs M s (sy_node s)"
  by (simp add: runs_def)

lemma runs_trans: "runs M s n1 \<Longrightarrow> runs M (s\<lparr>sy_node := n1\<rparr>) n2 \<Longrightarrow> runs M s n2"
  by (simp add: runs_def)

lemma runs_step: "sys_step M s (s\<lparr>sy_node := n\<rparr>) \<Longrightarrow> runs M s n"
  by (simp add: runs_def r_into_rtranclp)

lemma sys_run_reachable: "sys_run M s s' \<Longrightarrow> sys_reachable M hid s \<Longrightarrow> sys_reachable M hid s'"
  by (induction rule: rtranclp_induct) (auto intro: sys_reachable.step)

text \<open>Grab, work, release.\<close>

lemma runs_grab:
  assumes g: "handle_grab h (sy_node s) = Ok (Some c, n1)"
    and w: "runs M (s\<lparr>sy_node := n1, sy_held := (sy_held s)(c := sy_held s c + 1)\<rparr>) n2"
    and r: "skynet_context_release M c n2 = Ok (b, n3)"
  shows "runs M s n3"
proof -
  let ?s1 = "s\<lparr>sy_node := n1, sy_held := (sy_held s)(c := sy_held s c + 1)\<rparr>"
  let ?s2 = "?s1\<lparr>sy_node := n2\<rparr>"
  have "sys_run M s ?s2" using sys_step.grab [OF g] w unfolding runs_def by (rule converse_rtranclp_into_rtranclp)
  moreover have "sys_step M ?s2 (?s2\<lparr>sy_node := n3, sy_held := (sy_held ?s2)(c := sy_held ?s2 c - 1)\<rparr>)"
    by (rule sys_step.release [where alive = b]) (use r in simp_all)
  moreover have "?s2\<lparr>sy_node := n3, sy_held := (sy_held ?s2)(c := sy_held ?s2 c - 1)\<rparr> = s\<lparr>sy_node := n3\<rparr>" by simp
  ultimately show ?thesis unfolding runs_def by (metis rtranclp.rtrancl_into_rtrancl)
qed

lemma runs_edit: "0 < sy_held s c \<Longrightarrow> nd_ctx (sy_node s) c = Some x \<Longrightarrow> same_life x y \<Longrightarrow> runs M s (cx_set (sy_node s) c y)"
  by (intro runs_step sys_step.edit)

lemma runs_other:
  "nd_ctx n = nd_ctx (sy_node s) \<Longrightarrow> nd_world n = nd_world (sy_node s) \<Longrightarrow> nd_next n = nd_next (sy_node s) \<Longrightarrow>
   slot (nd_handles n) = slot (nd_handles (sy_node s)) \<Longrightarrow> runs M s n"
  by (intro runs_step sys_step.other)

lemma cx_get_Ok [simp]: "cx_get n c = Ok x \<longleftrightarrow> nd_ctx n c = Some x"
  by (auto simp: cx_get_def split: option.splits)

lemma push_runs:
  assumes "skynet_context_push M h m (sy_node s) = Ok (r, n)"
  shows "runs M s n"
proof -
  obtain g n1 where g: "handle_grab h (sy_node s) = Ok (g, n1)" using assms by (auto simp: skynet_context_push_def)
  show ?thesis
  proof (cases g)
    case None
    with assms g have "n = n1" "n1 = sy_node s"
      by (auto simp: skynet_context_push_def handle_grab_def split: option.splits)
    then show ?thesis by simp
  next
    case (Some c)
    then obtain x n2 b where x: "nd_ctx n1 c = Some x" "on_world (skynet_mq_push (cx_queue x) m) n1 = Ok n2"
        "skynet_context_release M c n2 = Ok (b, n)"
      using assms g by (auto simp: skynet_context_push_def simp del: on_world_Ok)
    have "runs M (s\<lparr>sy_node := n1, sy_held := (sy_held s)(c := sy_held s c + 1)\<rparr>) n2"
      by (intro runs_step sys_step.send [where c = c and x = x]) (use x in simp_all)
    then show ?thesis using runs_grab [OF g [unfolded Some]] x(3) by blast
  qed
qed

lemma error_runs:
  assumes "skynet_error M ctx msg (sy_node s) = Ok n"
  shows "runs M s n"
proof -
  obtain lg where lg: "(if nd_logger (sy_node s) = 0 then skynet_handle_findname (nd_handles (sy_node s)) ''logger'' else Ok (nd_logger (sy_node s))) = Ok lg"
    using assms by (auto simp: skynet_error_def)
  let ?n1 = "(sy_node s)\<lparr>nd_logger := lg\<rparr>"
  have r1: "runs M s ?n1" by (rule runs_other) simp_all
  show ?thesis
  proof (cases "lg = 0")
    case True
    then have "n = ?n1" using assms lg by (simp add: skynet_error_def)
    then show ?thesis using r1 by simp
  next
    case False
    then obtain m r where "skynet_context_push M lg m ?n1 = Ok (r, n)" using assms lg by (auto simp: skynet_error_def Let_def)
    then have "runs M (s\<lparr>sy_node := ?n1\<rparr>) n" by (intro push_runs) simp
    then show ?thesis by (rule runs_trans [OF r1])
  qed
qed

lemma newsession_Ok:
  assumes "skynet_context_newsession c n = Ok (k, n')"
  obtains x where "nd_ctx n c = Some x" "n' = cx_set n c (x\<lparr>cx_session_id := k\<rparr>)"
proof -
  obtain x where x: "nd_ctx n c = Some x" using assms by (auto simp: skynet_context_newsession_def simp del: split_paired_Ex)
  define b where "b \<longleftrightarrow> sint (cx_session_id x + 1) \<le> 0"
  have "(if b then Ok (1, cx_set n c (x\<lparr>cx_session_id := 1\<rparr>))
      else Ok (cx_session_id x + 1, cx_set n c (x\<lparr>cx_session_id := cx_session_id x + 1\<rparr>))) = Ok (k, n')"
    using assms x unfolding skynet_context_newsession_def Let_def b_def [symmetric] by (simp add: cx_get_def b_def)
  then show ?thesis using that [OF x] by (cases b) auto
qed

lemma newsession_runs:
  assumes "skynet_context_newsession c (sy_node s) = Ok (k, n)" "0 < sy_held s c"
  shows "runs M s n"
proof -
  obtain x where x: "nd_ctx (sy_node s) c = Some x" "n = cx_set (sy_node s) c (x\<lparr>cx_session_id := k\<rparr>)"
    using newsession_Ok [OF assms(1)] .
  show ?thesis unfolding x(2) by (rule runs_edit [OF assms(2) x(1)]) (simp add: same_life_def)
qed

text \<open>What a caller of \<open>skynet_send\<close> has: a reference to its own context, and \<open>REMOTE\<close> keeps one to the harbor service.\<close>

definition remote_ref :: "sys \<Rightarrow> bool" where
  "remote_ref s \<longleftrightarrow> (\<forall>c. nd_remote (sy_node s) = Some c \<longrightarrow> 0 < sy_held s c)"

definition own_ref :: "cptr option \<Rightarrow> sys \<Rightarrow> bool" where
  "own_ref ctx s \<longleftrightarrow> (\<forall>c. ctx = Some c \<longrightarrow> 0 < sy_held s c)"

lemma ref_simps [simp]: "own_ref ctx (s\<lparr>sy_node := n\<rparr>) = own_ref ctx s" "own_ref None s" "own_ref (Some c) s \<longleftrightarrow> 0 < sy_held s c"
    "nd_remote n = nd_remote (sy_node s) \<Longrightarrow> remote_ref (s\<lparr>sy_node := n\<rparr>) = remote_ref s"
  by (simp_all add: own_ref_def remote_ref_def)

lemma release_remote:
  assumes "skynet_context_release M c n = Ok (b, n')" "quiet_release M"
  shows "nd_remote n' = nd_remote n"
  using assms by (auto simp: skynet_context_release_def delete_context_def quiet_release_def Let_def context_dec_def cx_set_def split: if_splits)

lemma grab_remote: "handle_grab h n = Ok (g, n') \<Longrightarrow> nd_remote n' = nd_remote n"
  by (auto simp: handle_grab_def skynet_context_grab_def cx_set_def split: option.splits)

lemma push_remote:
  assumes "skynet_context_push M h m n = Ok (r, n')" "quiet_release M"
  shows "nd_remote n' = nd_remote n"
  using assms by (auto simp: skynet_context_push_def split: option.splits dest!: grab_remote release_remote)

lemma error_remote:
  assumes "skynet_error M ctx msg n = Ok n'" "quiet_release M"
  shows "nd_remote n' = nd_remote n"
  using assms by (auto simp: skynet_error_def Let_def dest!: push_remote split: if_splits)

lemma newsession_remote: "skynet_context_newsession c n = Ok (k, n') \<Longrightarrow> nd_remote n' = nd_remote n"
  by (erule newsession_Ok) (simp add: cx_set_def)

lemma filter_args_runs:
  assumes "filter_args ctx type session data sz (sy_node s) = Ok (session1, data1, sz1, n)" "own_ref ctx s"
  shows "runs M s n \<and> nd_remote n = nd_remote (sy_node s)"
proof (cases "type AND PTYPE_TAG_ALLOCSESSION \<noteq> 0")
  case True
  then obtain c k where "ctx = Some c" "skynet_context_newsession c (sy_node s) = Ok (k, n)"
    using assms(1) by (auto simp: filter_args_def cx_ptr_def split: option.splits)
  then show ?thesis using newsession_runs newsession_remote assms(2) by auto
next
  case False
  then have "n = sy_node s" using assms(1) by (auto simp: filter_args_def)
  then show ?thesis by simp
qed

lemma harbor_send_runs:
  assumes "skynet_harbor_send img rmsg source session (sy_node s) = Ok n" "remote_ref s"
  shows "runs M s n \<and> nd_remote n = nd_remote (sy_node s)"
proof -
  obtain c x m where c: "nd_remote (sy_node s) = Some c" "nd_ctx (sy_node s) c = Some x"
      "on_world (skynet_mq_push (cx_queue x) m) (sy_node s) = Ok n"
    using assms(1) by (auto simp: skynet_harbor_send_def skynet_context_send_def simp del: on_world_Ok)
  have "runs M s n" by (intro runs_step sys_step.send [OF _ c(2,3)]) (use assms(2) c(1) in \<open>simp add: remote_ref_def\<close>)
  then show ?thesis using c(3) by auto
qed

lemma send_runs:
  assumes s: "skynet_send M img ctx source dest type session data sz (sy_node s) = Ok (r, n)"
    and refs: "own_ref ctx s" "remote_ref s" and quiet: "quiet_release M"
  shows "runs M s n \<and> nd_remote n = nd_remote (sy_node s)"
proof (cases "too_large sz")
  case True
  then obtain msg where "skynet_error M ctx msg (sy_node s) = Ok n" using s by (auto simp: skynet_send_def)
  then show ?thesis using error_runs error_remote quiet by blast
next
  case False
  then obtain se da sz1 n1 where f: "filter_args ctx type session data sz (sy_node s) = Ok (se, da, sz1, n1)"
    using s by (auto simp: skynet_send_def)
  note fr = filter_args_runs [OF f refs(1), of M]
  let ?s1 = "s\<lparr>sy_node := n1\<rparr>"
  have step: "runs M s n \<and> nd_remote n = nd_remote (sy_node s)" if "runs M ?s1 n \<and> nd_remote n = nd_remote (sy_node ?s1)"
    using that fr runs_trans by auto
  consider "n = n1" | msg where "skynet_error M ctx msg (sy_node ?s1) = Ok n"
    | rm so where "skynet_harbor_send img rm so se (sy_node ?s1) = Ok n"
    | m r' where "skynet_context_push M dest m (sy_node ?s1) = Ok (r', n)"
    using s False f by (auto simp: skynet_send_def split: if_splits)
  then show ?thesis
  proof cases
    case 1
    then show ?thesis using fr by simp
  next
    case 2
    show ?thesis by (rule step) (use error_runs [OF 2] error_remote [OF 2 quiet] in simp)
  next
    case 3
    show ?thesis by (rule step, rule harbor_send_runs [OF 3]) (use refs(2) fr in simp)
  next
    case 4
    show ?thesis by (rule step) (use push_runs [OF 4] push_remote [OF 4 quiet] in simp)
  qed
qed

section \<open>What no step takes back\<close>

text \<open>A context keeps its queue, and a mark stays until the queue is freed; addresses are not used twice.\<close>

definition frame :: "node \<Rightarrow> node \<Rightarrow> bool" where
  "frame n n' \<longleftrightarrow> nd_next n \<le> nd_next n' \<and>
     (\<forall>p < nd_next n. marks (nd_world n') p = Some False \<longrightarrow> marks (nd_world n) p = Some False) \<and>
     (\<forall>c < nd_next n. \<forall>y. nd_ctx n' c = Some y \<longrightarrow> (\<exists>x. nd_ctx n c = Some x \<and> cx_queue y = cx_queue x))"

lemma frame_refl: "frame n n"
  by (simp add: frame_def)

lemma frame_trans:
  assumes "frame n n1" "frame n1 n2"
  shows "frame n n2"
  unfolding frame_def
proof (intro conjI allI impI)
  show "nd_next n \<le> nd_next n2" using assms by (auto simp: frame_def)
  show "marks (nd_world n) p = Some False" if "p < nd_next n" "marks (nd_world n2) p = Some False" for p
    using assms that unfolding frame_def by (meson order_less_le_trans)
  show "\<exists>x. nd_ctx n c = Some x \<and> cx_queue y = cx_queue x" if "c < nd_next n" "nd_ctx n2 c = Some y" for c y
  proof -
    note c = that
    have "c < nd_next n1" using assms(1) c(1) by (simp add: frame_def)
    then obtain x where "nd_ctx n1 c = Some x" "cx_queue y = cx_queue x" using assms(2) c(2) unfolding frame_def by blast
    then show ?thesis using assms(1) c(1) unfolding frame_def by metis
  qed
qed

text \<open>A step that leaves the other contexts and marks alone.\<close>

lemma frame_one:
  assumes "nd_next n' = nd_next n" "marks (nd_world n') = marks (nd_world n)" "nd_ctx n c = Some x"
    and "nd_ctx n' = (nd_ctx n)(c \<mapsto> y)" "cx_queue y = cx_queue x"
  shows "frame n n'"
  using assms by (auto simp: frame_def split: if_splits)

lemma frame_world:
  assumes "nd_next n' = nd_next n" "nd_ctx n' = nd_ctx n" "\<And>p. marks (nd_world n') p = Some False \<Longrightarrow> marks (nd_world n) p = Some False"
  shows "frame n n'"
  using assms by (auto simp: frame_def)

lemma frame_grab:
  assumes "skynet_context_grab c n = Ok n'"
  shows "frame n n'"
proof -
  obtain x where "nd_ctx n c = Some x" "n' = cx_set n c (x\<lparr>cx_ref := cx_ref x + 1\<rparr>)" using assms by (auto simp: skynet_context_grab_def)
  then show ?thesis by (intro frame_one [of n' n c x "x\<lparr>cx_ref := cx_ref x + 1\<rparr>"]) (simp_all add: cx_set_def)
qed

lemma frame_release:
  assumes "skynet_context_release M c n = Ok (b, n')" "quiet_release M"
  shows "frame n n'"
proof -
  obtain x where x: "nd_ctx n c = Some x" using assms(1) by (auto simp: skynet_context_release_def)
  show ?thesis
  proof (cases "cx_ref x = 1")
    case True
    then obtain w where w: "skynet_mq_mark_release (cx_queue x) (nd_world n) = Ok w" "nd_world n' = w" "nd_next n' = nd_next n"
        "nd_ctx n' = (nd_ctx n)(c := None)"
      using assms x by (auto simp: skynet_context_release_def cx_get_def delete_context_def quiet_release_def cx_set_def Let_def context_dec_def)
    show ?thesis using w marks_mark [OF w(1)] by (auto simp: frame_def split: if_splits)
  next
    case False
    then have "n' = cx_set n c (x\<lparr>cx_ref := cx_ref x - 1\<rparr>)" using assms x by (simp add: skynet_context_release_def cx_get_def Let_def)
    then show ?thesis using x by (intro frame_one [of n' n c x "x\<lparr>cx_ref := cx_ref x - 1\<rparr>"]) (simp_all add: cx_set_def)
  qed
qed

lemma frame_create:
  assumes "context_alloc nm n = Ok (c, p, n')" "life_inv n held"
  shows "frame n n'"
proof -
  obtain h where h: "nd_world n' = mq_set (nd_world n) p (skynet_mq_create h)" using life_inv_create [OF assms(2,1)] by blast
  have "c = nd_next n" "p = Suc c" "nd_next n' = Suc p" "\<And>d. d \<noteq> c \<Longrightarrow> nd_ctx n' d = nd_ctx n d"
    using assms(1) by (auto simp: context_alloc_def Let_def cx_set_def context_inc_def)
  then show ?thesis by (auto simp: frame_def h marks_set)
qed

lemma frame_pop: "node_pop p n = Ok (r, n') \<Longrightarrow> frame n n'"
  by (auto simp: node_pop_Ok marks_same mq_pop_release intro!: frame_world)

lemma sys_step_frame:
  assumes "sys_step M s s'" "quiet_release M" "sys_ok s"
  shows "frame (sy_node s) (sy_node s')"
  using assms
proof (induction rule: sys_step.induct)
  case (create s t nm c p n)
  then show ?case by (simp add: frame_create [of nm] sys_ok_def)
next
  case (grab h s c n)
  then show ?case using frame_grab [of c "sy_node s" n] by (auto simp: handle_grab_def split: option.splits)
next
  case (reserve s c n)
  then obtain n1 where n1: "skynet_context_grab c (sy_node s) = Ok n1" "n = context_dec n1" by (auto simp: skynet_context_reserve_def)
  then have "frame (sy_node s) n1" using frame_grab by blast
  then show ?case by (simp add: n1(2) context_dec_def frame_def)
next
  case (release s c alive n)
  then show ?case using frame_release by simp
next
  case (edit s c x y)
  then show ?case by (intro frame_one [of _ _ c x y]) (simp_all add: cx_set_def same_life_def)
next
  case (send s c x m n)
  then show ?case by (auto dest!: marks_mq_push intro!: frame_world)
next
  case (put_back s t p n)
  then show ?case by (auto dest!: marks_globalmq_push intro!: frame_world)
next
  case (take s t p n)
  then show ?case by (auto simp: node_globalmq_pop_def dest!: marks_globalmq_pop intro!: frame_world)
next
  case (pop s t p m n)
  then show ?case using frame_pop by simp
next
  case (leave s t p c x n)
  then show ?case using frame_pop by simp
next
  case (free s t p q n1 n)
  then have "frame (sy_node s) n1" "frame n1 n" using frame_pop by (auto dest!: mq_free_Ok intro!: frame_world split: if_splits)
  then show ?case using frame_trans by simp
next
  case (report s t p q n)
  then show ?case using marks_same [OF report(2), of "snd (skynet_mq_overload q)"]
    by (intro frame_world) (simp_all add: skynet_mq_overload_def)
qed (simp_all add: frame_def)

lemma sys_run_frame:
  assumes "sys_run M s s'" "quiet_release M" "sys_reachable M hid s"
  shows "frame (sy_node s) (sy_node s')"
  using assms(1)
proof (induction rule: rtranclp_induct)
  case (step y z)
  have "sys_reachable M hid y" using sys_run_reachable step(1) assms(3) by blast
  then show ?case using sys_step_frame [OF step(2) assms(2)] sys_reachable_ok assms(2) step(3) frame_trans by blast
qed (rule frame_refl)

section \<open>A queue in the hand of a worker\<close>

lemma live_below:
  assumes "sys_reachable M hid s" "quiet_release M" "0 < sy_held s c"
  shows "c < nd_next (sy_node s)"
proof -
  have inv: "life_inv (sy_node s) (sy_held s)" using sys_reachable_ok [OF assms(1,2)] by (simp add: sys_ok_def)
  show ?thesis using life_inv_held [OF inv assms(3)] life_invD(4) [OF inv] by metis
qed

lemma node_pop_remote: "node_pop p n = Ok (r, n') \<Longrightarrow> nd_remote n' = nd_remote n"
  by (auto simp: node_pop_Ok)

lemma pop_runs: "sy_holds s t = Some p \<Longrightarrow> node_pop p (sy_node s) = Ok (Some m, n) \<Longrightarrow> runs M s n \<and> nd_remote n = nd_remote (sy_node s)"
  using node_pop_remote by (blast intro: runs_step sys_step.pop)

section \<open>A queue that is released\<close>

text \<open>A marked queue in the hand of a worker stays marked.\<close>

definition dropping :: "modules \<Rightarrow> u32 \<Rightarrow> nat \<Rightarrow> qptr \<Rightarrow> sys \<Rightarrow> bool" where
  "dropping M hid t p s \<longleftrightarrow> sys_reachable M hid s \<and> sy_holds s t = Some p \<and> marks (nd_world (sy_node s)) p = Some True \<and> remote_ref s"

lemma hand_alive:
  assumes "sys_reachable M hid s" "quiet_release M" "sy_holds s t = Some p"
  shows "marks (nd_world (sy_node s)) p \<noteq> None"
proof -
  obtain ps where "sched_inv (sched_of s) ps" using sched_reachable_inv sys_reachable_ok [OF assms(1,2)] by blast
  then obtain q where "mq_heap (world (sched_of s)) p = Some q" using sched_inv_alive assms(3) by (metis sched_of_simps(2))
  then show ?thesis by (simp add: marks_def)
qed

lemma dropping_runs:
  assumes d: "dropping M hid t p s" and quiet: "quiet_release M" and r: "runs M s n" and rem: "nd_remote n = nd_remote (sy_node s)"
  shows "dropping M hid t p (s\<lparr>sy_node := n\<rparr>)"
proof -
  have reach: "sys_reachable M hid s" using d by (simp add: dropping_def)
  have run: "sys_run M s (s\<lparr>sy_node := n\<rparr>)" using r by (simp add: runs_def)
  have reach': "sys_reachable M hid (s\<lparr>sy_node := n\<rparr>)" by (rule sys_run_reachable [OF run reach])
  have inv: "life_inv (sy_node s) (sy_held s)" using sys_reachable_ok [OF reach quiet] by (simp add: sys_ok_def)
  have "p < nd_next (sy_node s)" by (rule life_inv_below [OF inv]) (use d in \<open>simp add: dropping_def\<close>)
  moreover have "frame (sy_node s) n" using sys_run_frame [OF run quiet reach] by simp
  ultimately have "marks (nd_world n) p \<noteq> Some False" using d by (auto simp: frame_def dropping_def)
  moreover have "marks (nd_world n) p \<noteq> None" using hand_alive [OF reach' quiet, of t p] d by (simp add: dropping_def)
  ultimately show ?thesis using d reach' rem by (cases "marks (nd_world n) p") (auto simp: dropping_def)
qed

lemma drop_message_runs:
  assumes "drop_message M img h msg (sy_node s) = Ok n" "remote_ref s" "quiet_release M"
  shows "runs M s n \<and> nd_remote n = nd_remote (sy_node s)"
  using assms send_runs [of M img None h "msg_source msg" PTYPE_ERROR 0 None 0 s] by (auto simp: drop_message_def)

text \<open>No handle is used twice while a queue of its first owner is there.\<close>

definition no_reuse :: "node \<Rightarrow> bool" where
  "no_reuse n \<longleftrightarrow> (\<forall>p q c x. mq_heap (nd_world n) p = Some q \<longrightarrow> nd_ctx n c = Some x \<longrightarrow> cx_handle x = mq_handle q \<longrightarrow> cx_queue x = p)"

lemma take_next:
  assumes pop: "node_globalmq_pop (sy_node s) = Ok (r, n)" and v: "sy_holds s v = None"
  shows "sys_run M s (s\<lparr>sy_node := n, sy_holds := (sy_holds s)(v := r)\<rparr>)"
proof (cases r)
  case None
  then have "n = sy_node s" using pop by (auto simp: node_globalmq_pop_def skynet_globalmq_pop_def Let_def split: option.splits if_splits)
  then show ?thesis using None v by simp (metis fun_upd_triv rtranclp.rtrancl_refl sys.surjective sys.update_convs(3))
next
  case (Some p)
  then show ?thesis using sys_step.take [OF v pop [unfolded Some], of M] by simp
qed

lemma release_step:
  assumes "skynet_context_release M c (sy_node s) = Ok (b, n)" "0 < sy_held s c"
  shows "sys_run M s (s\<lparr>sy_node := n, sy_held := (sy_held s)(c := sy_held s c - 1)\<rparr>)"
  using sys_step.release [OF assms(2,1)] by blast

lemma pop_no_reuse:
  assumes "node_globalmq_pop n = Ok (r, n')" "no_reuse n"
  shows "no_reuse n'"
proof -
  have "\<exists>q0. mq_heap (nd_world n) p = Some q0 \<and> mq_handle q = mq_handle q0" if "mq_heap (nd_world n') p = Some q" for p q
    using assms(1) that by (auto simp: node_globalmq_pop_def skynet_globalmq_pop_def Let_def mq_set_def split: option.splits if_splits)
  moreover have "nd_ctx n' = nd_ctx n" using assms(1) by (auto simp: node_globalmq_pop_def)
  ultimately show ?thesis using assms(2) unfolding no_reuse_def by metis
qed

lemma node_one_remote: "nd_remote node_one = None"
  unfolding node_one_def
  by (simp add: context_alloc_def Let_def cx_get_def cx_set_def context_inc_def node_init_def skynet_globalinit_def
      skynet_initthread_def register_first)

section \<open>Messages\<close>

text \<open>The messages in the queues, in order.\<close>

definition pending :: "mq_world \<Rightarrow> qptr \<Rightarrow> skynet_message list option" where
  "pending w p = map_option mq_items (mq_heap w p)"

lemma mq_items_upd [simp]: "mq_items (q\<lparr>mq_next := x\<rparr>) = mq_items q" "mq_items (q\<lparr>mq_in_global := g\<rparr>) = mq_items q"
  by (simp_all add: mq_items_def)

lemma pending_set: "pending (mq_set w p q) = (pending w)(p \<mapsto> mq_items q)"
  by (auto simp: pending_def mq_set_def fun_eq_iff)

lemma pending_same: "mq_heap w p = Some q \<Longrightarrow> mq_items q' = mq_items q \<Longrightarrow> pending (mq_set w p q') = pending w"
  unfolding pending_set by (auto simp: pending_def fun_eq_iff)

lemma pending_upd [simp]: "pending (w\<lparr>gq_head := a\<rparr>) = pending w" "pending (w\<lparr>gq_tail := b\<rparr>) = pending w"
  by (simp_all add: pending_def fun_eq_iff)

lemma pending_globalmq_push: "skynet_globalmq_push p w = Ok w' \<Longrightarrow> pending w' = pending w"
  by (auto simp: skynet_globalmq_push_def pending_same split: option.splits)

lemma pending_push:
  assumes "skynet_mq_push p m w = Ok w'" "mq_heap w p = Some q" "mq_inv q"
  shows "pending w' = (pending w)(p \<mapsto> mq_items q @ [m])"
proof -
  obtain q1 where q1: "mq_store m q = Ok q1" "mq_items q1 = mq_items q @ [m]" using mq_store_ok [OF assms(3), of m] by blast
  have "(if mq_in_global q1 = 0 then skynet_globalmq_push p (mq_set w p (q1\<lparr>mq_in_global := MQ_IN_GLOBAL\<rparr>)) else Ok (mq_set w p q1)) = Ok w'"
    using assms(1,2) q1(1) by (simp add: skynet_mq_push_def mq_get_def)
  then show ?thesis using q1(2) by (auto simp: pending_set dest!: pending_globalmq_push split: if_splits)
qed

text \<open>A push to a registered service: the reference it takes is given back.\<close>

lemma push_delivers:
  assumes s: "sys_reachable M hid s" "quiet_release M"
    and d: "skynet_handle_grab (context_handle (sy_node s)) (nd_handles (sy_node s)) h = Some d"
  shows "\<exists>x q w. nd_ctx (sy_node s) d = Some x \<and> mq_heap (nd_world (sy_node s)) (cx_queue x) = Some q \<and>
    skynet_context_push M h m (sy_node s) = Ok (0, (sy_node s)\<lparr>nd_world := w\<rparr>) \<and>
    pending w = (pending (nd_world (sy_node s)))(cx_queue x \<mapsto> mq_items q @ [m])"
proof -
  let ?n = "sy_node s"
  have inv: "life_inv ?n (sy_held s)" using sys_reachable_ok [OF s] by (simp add: sys_ok_def)
  obtain ps where ps: "sched_inv \<lparr>world = nd_world ?n, holds = sy_holds s\<rparr> ps"
    using sched_reachable_inv sys_reachable_ok [OF s] unfolding sched_of_def by blast
  have t: "0 < tab (nd_handles ?n) d" using grab_tab [OF d life_inv_size [OF inv]] .
  then obtain x where x: "nd_ctx ?n d = Some x" using life_inv_none [OF inv, of d] by (cases "nd_ctx ?n d") auto
  obtain q where q: "mq_heap (nd_world ?n) (cx_queue x) = Some q" using life_inv_queue [OF inv x] by blast
  obtain w where w: "skynet_mq_push (cx_queue x) m (nd_world ?n) = Ok w" using held_push [OF inv ps x, of m] by auto
  have "mq_inv q" using sched_inv_queue(1) [OF ps] q by simp
  then have p: "pending w = (pending (nd_world ?n))(cx_queue x \<mapsto> mq_items q @ [m])" by (rule pending_push [OF w q])
  have r: "cx_ref x \<noteq> 0" using life_invD(1) [OF inv x] t by simp
  have "(nd_ctx ?n)(d \<mapsto> x) = nd_ctx ?n" using x by auto
  then have "skynet_context_push M h m ?n = Ok (0, ?n\<lparr>nd_world := w\<rparr>)"
    using d x w r by (simp add: skynet_context_push_def handle_grab_def skynet_context_grab_def cx_get_def cx_set_def on_world_def
        skynet_context_release_def Let_def)
  then show ?thesis using x q p by blast
qed

lemma type_and_size:
  assumes "\<not> too_large sz"
  shows "uint (drop_bit MESSAGE_TYPE_SHIFT (sz OR push_bit MESSAGE_TYPE_SHIFT (of_int (type AND 0xff)))) = type AND 0xff"
    and "(sz OR push_bit MESSAGE_TYPE_SHIFT (of_int (type AND 0xff))) AND MESSAGE_TYPE_MASK = sz"
proof -
  have m: "MESSAGE_TYPE_MASK = mask 56" by (simp add: MESSAGE_TYPE_MASK_def mask_eq_exp_minus_1)
  have "sz AND mask 56 = sz" using assms by (simp add: too_large_def m)
  then have sz: "take_bit 56 sz = sz" by (simp add: take_bit_eq_mask)
  have hi: "\<not> bit sz k" if "56 \<le> k" for k using sz that by (metis bit_take_bit_iff not_less)
  have "(type AND 0xff :: int) = take_bit 8 type" by (simp add: take_bit_eq_mask mask_eq_exp_minus_1)
  moreover have "drop_bit 56 (sz OR push_bit 56 (of_int (take_bit 8 type))) = (of_int (take_bit 8 type) :: u64)"
    by (rule bit_word_eqI) (auto simp: bit_simps hi)
  moreover have "uint (of_int (take_bit 8 type) :: u64) = take_bit 8 type" by (simp add: unsigned_of_int take_bit_take_bit)
  ultimately show "uint (drop_bit MESSAGE_TYPE_SHIFT (sz OR push_bit MESSAGE_TYPE_SHIFT (of_int (type AND 0xff)))) = type AND 0xff"
    by (simp add: MESSAGE_TYPE_SHIFT_def)
  show "(sz OR push_bit MESSAGE_TYPE_SHIFT (of_int (type AND 0xff))) AND MESSAGE_TYPE_MASK = sz"
    unfolding m MESSAGE_TYPE_SHIFT_def by (rule bit_word_eqI) (use hi in \<open>auto simp: bit_simps simp flip: not_le\<close>)
qed

text \<open>C7: Sending to a local service. In every reachable state, \<open>skynet_send\<close> of a message whose size fits to a handle of this
  node returns -1 and changes nothing when the handle is not registered; otherwise it returns the session and appends exactly one
  message to the queue of the service: with the source, the session and the data that were given, and from the packed size
  word the dispatcher reads back the type and the size that were given. No other queue and no context changes.\<close>

theorem send_local:
  assumes "sys_reachable M hid s" and "quiet_release M" and "\<not> too_large sz" and "length bs = unat sz"
    and "type AND PTYPE_TAG_ALLOCSESSION = 0" and "source \<noteq> 0" and "dest \<noteq> 0"
    and "skynet_harbor_message_isremote (sy_node s) dest = Ok False"
  shows "case skynet_handle_grab (context_handle (sy_node s)) (nd_handles (sy_node s)) dest of
      None \<Rightarrow> skynet_send M img ctx source dest type session (Some bs) sz (sy_node s) = Ok (-1, sy_node s)
    | Some d \<Rightarrow> \<exists>x q m w. nd_ctx (sy_node s) d = Some x \<and> mq_heap (nd_world (sy_node s)) (cx_queue x) = Some q \<and>
        skynet_send M img ctx source dest type session (Some bs) sz (sy_node s) = Ok (sint session, (sy_node s)\<lparr>nd_world := w\<rparr>) \<and>
        pending w = (pending (nd_world (sy_node s)))(cx_queue x \<mapsto> mq_items q @ [m]) \<and>
        msg_source m = source \<and> msg_session m = session \<and> msg_data m = Some bs \<and>
        uint (drop_bit MESSAGE_TYPE_SHIFT (msg_sz m)) = type AND 0xff \<and> msg_sz m AND MESSAGE_TYPE_MASK = sz"
proof -
  let ?n = "sy_node s"
  let ?m = "\<lparr>msg_source = source, msg_session = session, msg_data = Some bs,
      msg_sz = sz OR push_bit MESSAGE_TYPE_SHIFT (of_int (type AND 0xff))\<rparr>"
  have f: "filter_args ctx type session (Some bs) sz ?n = Ok (session, Some bs, msg_sz ?m, ?n)"
    using assms(4,5) by (simp add: filter_args_def)
  have send: "skynet_send M img ctx source dest type session (Some bs) sz ?n =
      res_bind (skynet_context_push M dest ?m ?n) (\<lambda>(r, n2). Ok (if r \<noteq> 0 then -1 else sint session, n2))"
    using assms(3,6,7,8) f by (simp add: skynet_send_def)
  show ?thesis
  proof (cases "skynet_handle_grab (context_handle ?n) (nd_handles ?n) dest")
    case None
    then show ?thesis using send by (simp add: skynet_context_push_def handle_grab_def)
  next
    case (Some d)
    from push_delivers [OF assms(1,2) Some, of ?m] obtain x q w where
      "nd_ctx ?n d = Some x" "mq_heap (nd_world ?n) (cx_queue x) = Some q" "skynet_context_push M dest ?m ?n = Ok (0, ?n\<lparr>nd_world := w\<rparr>)"
      "pending w = (pending (nd_world ?n))(cx_queue x \<mapsto> mq_items q @ [?m])" by blast
    moreover from this send have "skynet_send M img ctx source dest type session (Some bs) sz ?n = Ok (sint session, ?n\<lparr>nd_world := w\<rparr>)" by simp
    ultimately show ?thesis
      unfolding Some option.case
      by (intro exI [of _ x] exI [of _ q] exI [of _ ?m] exI [of _ w]) (use type_and_size [OF assms(3)] in simp)
  qed
qed

theorem send_local_witness:
  "\<exists>x q m w. nd_ctx node_one 0 = Some x \<and> mq_heap (nd_world node_one) (cx_queue x) = Some q \<and>
     skynet_send quiet_modules (\<lambda>_. []) None 7 0x1000001 3 9 (Some [1, 2]) 2 node_one = Ok (9, node_one\<lparr>nd_world := w\<rparr>) \<and>
     pending w = (pending (nd_world node_one))(cx_queue x \<mapsto> mq_items q @ [m]) \<and>
     msg_source m = 7 \<and> msg_session m = 9 \<and> msg_data m = Some [1, 2] \<and>
     uint (drop_bit MESSAGE_TYPE_SHIFT (msg_sz m)) = 3 \<and> msg_sz m AND MESSAGE_TYPE_MASK = 2"
proof -
  have h: "skynet_handle_grab (context_handle node_one) (nd_handles node_one) 0x1000001 = Some 0"
    by (simp add: skynet_handle_grab_def node_one_fields hash_slot_def context_handle_def)
  have s: "sy_node sys_one = node_one" by (simp add: sys_one_def)
  have "skynet_harbor_message_isremote (sy_node sys_one) 0x1000001 = Ok False" "\<not> too_large 2"
      "(3 :: int) AND PTYPE_TAG_ALLOCSESSION = 0"
    by (simp_all add: skynet_harbor_message_isremote_def s node_one_fields HANDLE_MASK_def too_large_def MESSAGE_TYPE_MASK_def
        PTYPE_TAG_ALLOCSESSION_def)
  from send_local [OF sys_one_reachable quiet_modules_quiet this(2) _ this(3) _ _ this(1), of "[1, 2]" 7 "\<lambda>_. []" None 9]
  show ?thesis by (simp add: s h)
qed

section \<open>Addresses as text\<close>

lemma scan_hex:
  assumes "cs \<noteq> []" "\<forall>c \<in> set cs. \<exists>d < 16. digit_of c = Some d"
  shows "scan_number 16 cs = (False, digits_value 16 0 cs)"
proof -
  obtain c r where cs: "cs = c # r" using assms(1) by (cases cs) auto
  have no: "x \<noteq> c" if "digit_of x = None \<or> (\<exists>d \<ge> 16. digit_of x = Some d)" "c \<in> set cs" for x c using assms(2) that by fastforce
  have n: "digit_of CHR ''-'' = None" "digit_of CHR ''+'' = None" "digit_of CHR ''x'' = Some 33" "digit_of CHR ''X'' = Some 33"
    by (simp_all add: digit_of_def)
  have "c \<noteq> CHR ''-''" "c \<noteq> CHR ''+''" using no [of "CHR ''-''" c] no [of "CHR ''+''" c] n cs by auto
  moreover have "\<not> isspace c"
  proof
    assume "isspace c"
    then have "digit_of c = None" by (auto simp: isspace_def digit_of_def Let_def)
    then show False using assms(2) cs by auto
  qed
  moreover have "skip_prefix 16 cs = cs"
  proof (cases r)
    case (Cons c2 r2)
    then have "c2 \<noteq> CHR ''x''" "c2 \<noteq> CHR ''X''" using no [of "CHR ''x''" c2] no [of "CHR ''X''" c2] n cs by auto
    then show ?thesis using cs Cons by (simp add: skip_prefix_def)
  qed (use cs in \<open>simp add: skip_prefix_def\<close>)
  ultimately show ?thesis using cs by (simp add: scan_number_def)
qed

lemma strtoul_hex:
  assumes "cs \<noteq> []" "\<forall>c \<in> set cs. \<exists>d < 16. digit_of c = Some d" "digits_value 16 0 cs = unat (h :: u32)"
  shows "(ucast (strtoul 16 cs) :: u32) = h"
proof -
  have "unat h < 2 ^ 32" using unsigned_less [where 'a = nat, of h] by simp
  then have "strtoul 16 cs = of_nat (unat h)" using scan_hex [OF assms(1,2)] assms(3) by (simp add: strtoul_def)
  moreover have "(ucast (of_nat (unat h) :: u64) :: u32) = h" by (rule bit_word_eqI) (auto simp: bit_simps)
  ultimately show ?thesis by simp
qed

lemma hex_text_digits: "hex_text h \<noteq> [] \<and> (\<forall>c \<in> set (hex_text h). \<exists>d < 16. digit_of c = Some d) \<and> digits_value 16 0 (hex_text h) = unat h"
  using nat_text_digits [of 16 "unat h"] digits_value_text [of 16 "unat h"] by (auto simp: hex_text_def)

lemma addr_digit: "k < 16 \<Longrightarrow> digit_of (hex_digits ! k) = Some k"
proof -
  have "\<forall>k \<in> set [0..<16]. digit_of (hex_digits ! k) = Some k" by code_simp
  then show "k < 16 \<Longrightarrow> digit_of (hex_digits ! k) = Some k" by simp
qed

lemma nibble: "unat (drop_bit k h AND 0xf) = unat (h :: u32) div 2 ^ k mod 16"
proof -
  have "drop_bit k h AND 0xf = take_bit 4 (drop_bit k h)" by (simp add: take_bit_eq_mask mask_eq_exp_minus_1)
  then have "unat (drop_bit k h AND 0xf) = take_bit 4 (drop_bit k (unat h))" by (simp only: unsigned_take_bit_eq unat_drop_bit_eq)
  then show ?thesis by (simp add: take_bit_eq_mod drop_bit_eq_div)
qed

lemma nibble_step: "n div 2 ^ (k + 4) * 16 + n div 2 ^ k mod 16 = n div 2 ^ k" for n :: nat
  using div_mult_mod_eq [of "n div 2 ^ k" 16] by (simp add: power_add div_mult2_eq)

lemma id_to_hex_digits:
  "(\<forall>c \<in> set (drop 1 (id_to_hex h)). \<exists>d < 16. digit_of c = Some d) \<and> digits_value 16 0 (drop 1 (id_to_hex h)) = unat h"
proof -
  define g where "g k = unat h div 2 ^ k mod 16" for k
  have g: "g k < 16" for k by (simp add: g_def)
  have eq: "drop 1 (id_to_hex h) = map (\<lambda>k. hex_digits ! g k) [28, 24, 20, 16, 12, 8, 4, 0]"
    by (simp add: id_to_hex_def nibble g_def upt_rec)
  have "unat h < 2 ^ 32" using unsigned_less [where 'a = nat, of h] by simp
  then have g28: "g 28 = unat h div 2 ^ 28" by (simp add: g_def div_less_iff_less_mult)
  have st: "unat h div 2 ^ (k + 4) * 16 + g k = unat h div 2 ^ k" for k unfolding g_def by (rule nibble_step)
  have "((((((g 28 * 16 + g 24) * 16 + g 20) * 16 + g 16) * 16 + g 12) * 16 + g 8) * 16 + g 4) * 16 + g 0 = unat h"
    using st [of 24] st [of 20] st [of 16] st [of 12] st [of 8] st [of 4] st [of 0] unfolding g28 by simp
  then show ?thesis unfolding eq using g addr_digit by simp
qed

text \<open>The handle of the service that \<open>LAUNCH\<close> has made: the first word of its argument is the module, the rest of the line the
  parameter.\<close>

definition launched :: "modules \<Rightarrow> (remote_message \<Rightarrow> byte list) \<Rightarrow> string \<Rightarrow> node \<Rightarrow> u32 \<Rightarrow> bool" where
  "launched M img param n h \<longleftrightarrow>
     (\<exists>md rest c n1 x. strsep_set [CHR '' '', CHR 0x09, CHR 0x0D, CHR 0x0A] param = (md, rest) \<and>
        skynet_context_new M img md (map_option (\<lambda>t. fst (strsep_set [CHR 0x0D, CHR 0x0A] t)) rest) n = Ok (Some c, n1) \<and>
        nd_ctx n1 c = Some x \<and> h = cx_handle x)"

text \<open>The commands that answer with an address: \<open>REG\<close> without a name, \<open>QUERY\<close> of a local name, \<open>MONITOR\<close> without an argument and
  \<open>LAUNCH\<close>; \<open>t\<close> is the text that is returned, \<open>h\<close> the handle that is meant.\<close>

definition address_reply :: "modules \<Rightarrow> (remote_message \<Rightarrow> byte list) \<Rightarrow> cptr \<Rightarrow> node \<Rightarrow> string \<Rightarrow> u32 \<Rightarrow> bool" where
  "address_reply M img c n t h \<longleftrightarrow>
     (\<exists>n' x. cmd_reg M c None n = Ok (Some t, n') \<and> nd_ctx n c = Some x \<and> h = cx_handle x) \<or>
     (\<exists>n' nm. cmd_query c (CHR ''.'' # nm) n = Ok (Some t, n') \<and> skynet_handle_findname (nd_handles n) nm = Ok h) \<or>
     (\<exists>n'. cmd_monitor M c None n = Ok (Some t, n') \<and> h = nd_monitor_exit n) \<or>
     (\<exists>n' param. cmd_launch M img c param n = Ok (Some t, n') \<and> launched M img param n h)"

lemma address_reply_text:
  assumes "address_reply M img c n t h"
  shows "t = '':'' @ hex_text h \<or> t = id_to_hex h"
  using assms
  by (auto simp: address_reply_def cmd_reg_def cmd_query_def cmd_monitor_def cmd_launch_def cmd_result_def launched_def cx_get_def Let_def
    split: if_splits option.splits)

lemma address_text_reads:
  assumes "t = '':'' @ hex_text h \<or> t = id_to_hex h"
  shows "take 1 t = '':''" "ucast (strtoul 16 (drop 1 t)) = h"
proof -
  have x: "(ucast (strtoul 16 (hex_text h)) :: u32) = h" using hex_text_digits [of h] strtoul_hex by blast
  have "drop 1 (id_to_hex h) \<noteq> []" by (simp add: id_to_hex_def)
  then have i: "(ucast (strtoul 16 (drop 1 (id_to_hex h))) :: u32) = h" using id_to_hex_digits [of h] strtoul_hex by blast
  show "take 1 t = '':''" "ucast (strtoul 16 (drop 1 t)) = h" using assms x i by (auto simp: id_to_hex_def)
qed

text \<open>C14: The addresses that commands answer with are read back. Whenever one of the commands \<open>REG\<close> (without a name), \<open>QUERY\<close> (of a
  local name), \<open>MONITOR\<close> (without an argument) and \<open>LAUNCH\<close> returns a text, which is a colon with the digits of \<open>%x\<close> for the first three and
  the eight upper-case digits of \<open>id_to_hex\<close> for the last, then \<open>skynet_queryname\<close> and the argument of the other
  commands (\<open>tohandle\<close>) read it as the handle that was meant, in any later state and without changing it, and
  \<open>skynet_sendname\<close> to this text does what \<open>skynet_send\<close> to that handle does, with a source given or with that of the calling service.
  (\<open>HANDLE\<close>, which prints a decimal number, is not one of them.)\<close>

theorem address_roundtrip:
  assumes "address_reply M img0 c0 n0 t h"
  shows "skynet_queryname M ctx t n = Ok (h, n) \<and> tohandle M c t n = Ok (h, n) \<and>
    (source \<noteq> 0 \<longrightarrow> skynet_sendname M img ctx source t type session data sz n = skynet_send M img ctx source h type session data sz n) \<and>
    (nd_ctx n c = Some x \<longrightarrow>
      skynet_sendname M img (Some c) 0 t type session data sz n = skynet_send M img (Some c) (cx_handle x) h type session data sz n)"
  using address_text_reads [OF address_reply_text [OF assms]]
  by (simp add: skynet_queryname_def tohandle_def skynet_sendname_def cx_ptr_def cx_get_def)

theorem address_roundtrip_witness:
  "(\<exists>n'. cmd_reg quiet_modules 0 None node_one = Ok (Some '':1000001'', n')) \<and>
   skynet_queryname quiet_modules None '':1000001'' node_one = Ok (0x1000001, node_one) \<and>
   skynet_sendname quiet_modules (\<lambda>_. []) None 7 '':1000001'' 3 9 None 0 node_one =
   skynet_send quiet_modules (\<lambda>_. []) None 7 0x1000001 3 9 None 0 node_one"
proof -
  have "char_of (48 :: nat) = CHR ''0''" "char_of (49 :: nat) = CHR ''1''" by code_simp+
  then have t: "hex_text 0x1000001 = ''1000001''" by (simp add: hex_text_def nat_text.simps digit_char_def)
  obtain x where x: "nd_ctx node_one 0 = Some x" "cx_handle x = 0x1000001" by (simp add: node_one_fields)
  have reg: "\<exists>n'. cmd_reg quiet_modules 0 None node_one = Ok (Some '':1000001'', n')"
    using x t by (simp add: cmd_reg_def cmd_result_def cx_get_def)
  then have "address_reply quiet_modules (\<lambda>_. []) 0 node_one '':1000001'' 0x1000001" using x unfolding address_reply_def by metis
  from address_roundtrip [OF this, of None node_one 0 7] reg show ?thesis by simp
qed

end
