(* ===== verification/Skynet_Turn.thy ===== *)
theory Skynet_Turn
  imports Skynet_Dispatch
begin

text \<open>
  The turn of a worker thread, \<open>skynet_context_message_dispatch\<close> of \<open>skynet_server.c\<close>, as a whole. \<open>Skynet_Dispatch\<close> shows that what the
  functions of the node do are steps of the concurrent system; here they are shown to return. No assertion on the way fails
  (\<open>ctx->init\<close> in \<open>dispatch_message\<close>, \<open>q == ctx->queue\<close> in the dispatcher, \<open>q->next == NULL\<close> in the queue functions, the type of the
  message in \<open>skynet_harbor_send\<close>), no freed context or queue is touched, the loop that drops the messages of a dead service ends, and at
  the end the worker has the references it had and one queue at most.

  What is asked of the world outside is \<open>cb_ok\<close>, the contract of the callbacks, and \<open>quiet_release\<close>, that of the release functions of the
  modules. A callback may create and retire services, send, register names, and launch the harbor service, which keeps a reference in
  \<open>REMOTE\<close>: \<open>thr\<close> counts the references without that one. The turn is looked at alone, with no steps of other threads in between; that
  the steps keep the invariants in every interleaving is what \<open>Skynet_Life\<close> shows.
\<close>

section \<open>What a turn relies on\<close>

definition sees :: "node \<Rightarrow> node \<Rightarrow> bool" where
  "sees n n' \<longleftrightarrow> nd_ctx n' = nd_ctx n \<and> nd_handles n' = nd_handles n \<and> nd_harbor n' = nd_harbor n \<and> nd_remote n' = nd_remote n"

lemma sees_refl [simp]: "sees n n" "sees n (n\<lparr>nd_world := w\<rparr>)" "sees n (n\<lparr>nd_logger := l, nd_world := w\<rparr>)" "sees n (n\<lparr>nd_logger := l\<rparr>)"
  by (simp_all add: sees_def)

lemma sees_trans: "sees n n1 \<Longrightarrow> sees n1 n2 \<Longrightarrow> sees n n2"
  by (simp add: sees_def)

definition healthy :: "node \<Rightarrow> bool" where
  "healthy n \<longleftrightarrow> names_inv (nd_handles n) \<and> nd_harbor n \<noteq> -1"

text \<open>The references that threads have, without the one that \<open>REMOTE\<close> keeps.\<close>

definition thr :: "sys \<Rightarrow> cptr \<Rightarrow> int" where
  "thr s c = int (sy_held s c) - of_bool (nd_remote (sy_node s) = Some c)"

lemma remote_ref_thr: "remote_ref s \<longleftrightarrow> (\<forall>c. 0 \<le> thr s c)"
  by (auto simp: remote_ref_def thr_def of_bool_def)

lemma thr_held: "remote_ref s \<Longrightarrow> 0 < thr s c \<Longrightarrow> 0 < sy_held s c"
  by (auto simp: thr_def of_bool_def split: if_splits)

definition good :: "modules \<Rightarrow> u32 \<Rightarrow> sys \<Rightarrow> bool" where
  "good M hid s \<longleftrightarrow> sys_reachable M hid s \<and> remote_ref s \<and> healthy (sy_node s)"

text \<open>What a function does that the worker calls: steps that leave the hands and the references of the threads as they were.\<close>

definition eff :: "modules \<Rightarrow> sys \<Rightarrow> sys \<Rightarrow> bool" where
  "eff M s s' \<longleftrightarrow> sys_run M s s' \<and> sy_holds s' = sy_holds s \<and> thr s' = thr s"

lemma eff_trans: "eff M s s1 \<Longrightarrow> eff M s1 s2 \<Longrightarrow> eff M s s2"
  by (auto simp: eff_def)

lemma eff_refl [simp]: "eff M s s"
  by (simp add: eff_def)

lemma eff_runs: "runs M s n \<Longrightarrow> nd_remote n = nd_remote (sy_node s) \<Longrightarrow> eff M s (s\<lparr>sy_node := n\<rparr>)"
  by (simp add: eff_def runs_def thr_def fun_eq_iff)

lemma good_run: "good M hid s \<Longrightarrow> sys_run M s s' \<Longrightarrow> thr s' = thr s \<Longrightarrow> healthy (sy_node s') \<Longrightarrow> good M hid s'"
  using sys_run_reachable by (auto simp: good_def remote_ref_thr)

lemma good_eff: "good M hid s \<Longrightarrow> eff M s s' \<Longrightarrow> healthy (sy_node s') \<Longrightarrow> good M hid s'"
  using good_run by (auto simp: eff_def)

lemma good_sees: "good M hid s \<Longrightarrow> eff M s s' \<Longrightarrow> sees (sy_node s) (sy_node s') \<Longrightarrow> good M hid s'"
  by (rule good_eff) (simp_all add: good_def healthy_def sees_def)

lemma reach_inv:
  assumes "sys_reachable M hid s" "quiet_release M"
  obtains ps where "life_inv (sy_node s) (sy_held s)" "sched_inv \<lparr>world = nd_world (sy_node s), holds = sy_holds s\<rparr> ps"
  using sched_reachable_inv sys_reachable_ok [OF assms] unfolding sched_of_def sys_ok_def by blast

section \<open>The functions return\<close>

lemma push_total:
  assumes s: "sys_reachable M hid s" "quiet_release M"
  shows "\<exists>r w. skynet_context_push M h m (sy_node s) = Ok (r, (sy_node s)\<lparr>nd_world := w\<rparr>) \<and>
    (\<forall>p. marks (nd_world (sy_node s)) p = Some True \<longrightarrow> pending w p = pending (nd_world (sy_node s)) p)"
proof (cases "skynet_handle_grab (context_handle (sy_node s)) (nd_handles (sy_node s)) h")
  case None
  then have "skynet_context_push M h m (sy_node s) = Ok (-1, (sy_node s)\<lparr>nd_world := nd_world (sy_node s)\<rparr>)"
    by (simp add: skynet_context_push_def handle_grab_def)
  then show ?thesis by blast
next
  case (Some d)
  obtain x q w where x: "nd_ctx (sy_node s) d = Some x"
      "skynet_context_push M h m (sy_node s) = Ok (0, (sy_node s)\<lparr>nd_world := w\<rparr>)"
      "pending w = (pending (nd_world (sy_node s)))(cx_queue x \<mapsto> mq_items q @ [m])"
    using push_delivers [OF s Some, of m] by blast
  obtain ps where inv: "life_inv (sy_node s) (sy_held s)" using reach_inv [OF s] by blast
  have "marks (nd_world (sy_node s)) (cx_queue x) = Some False" by (rule life_invD(3) [OF inv x(1)])
  then show ?thesis using x(2,3) by (intro exI [of _ 0] exI [of _ w]) auto
qed

lemma error_total:
  assumes s: "sys_reachable M hid s" "quiet_release M" and names: "names_inv (nd_handles (sy_node s))" and ctx: "own_ref ctx s"
  shows "\<exists>n. skynet_error M ctx msg (sy_node s) = Ok n \<and> sees (sy_node s) n"
proof -
  obtain lg where lg: "(if nd_logger (sy_node s) = 0 then skynet_handle_findname (nd_handles (sy_node s)) ''logger'' else Ok (nd_logger (sy_node s))) = Ok lg"
    using findname_ok [OF names, of "''logger''"] by (cases "nd_logger (sy_node s) = 0") simp_all
  let ?n1 = "(sy_node s)\<lparr>nd_logger := lg\<rparr>"
  have "sys_step M s (s\<lparr>sy_node := ?n1\<rparr>)" by (rule sys_step.other) simp_all
  then have s1: "sys_reachable M hid (s\<lparr>sy_node := ?n1\<rparr>)" using s(1) sys_reachable.step by blast
  obtain ps where inv: "life_inv (sy_node s) (sy_held s)" using reach_inv [OF s] by blast
  have src: "\<exists>so. (case ctx of None \<Rightarrow> Ok 0 | Some c \<Rightarrow> res_bind (cx_get ?n1 c) (\<lambda>x. Ok (cx_handle x))) = Ok so"
  proof (cases ctx)
    case (Some c)
    then obtain x where "nd_ctx (sy_node s) c = Some x" using life_inv_held [OF inv, of c] ctx by auto
    then show ?thesis using Some by (simp add: cx_get_def)
  qed simp
  then obtain so where so: "(case ctx of None \<Rightarrow> Ok 0 | Some c \<Rightarrow> res_bind (cx_get ?n1 c) (\<lambda>x. Ok (cx_handle x))) = Ok so" by blast
  let ?m = "\<lparr>msg_source = so, msg_session = 0, msg_data = Some (str_bytes msg), msg_sz = of_nat (length msg)\<rparr>"
  obtain r w where p: "skynet_context_push M lg ?m ?n1 = Ok (r, ?n1\<lparr>nd_world := w\<rparr>)" using push_total [OF s1 s(2), of lg ?m] by auto
  show ?thesis
  proof (cases "lg = 0")
    case True
    then show ?thesis using lg by (simp add: skynet_error_def Let_def)
  next
    case False
    then show ?thesis using lg so p by (simp add: skynet_error_def Let_def)
  qed
qed

text \<open>Whether the answer to a dropped message leaves the node.\<close>

definition remote_source :: "node \<Rightarrow> skynet_message \<Rightarrow> bool" where
  "remote_source n m \<longleftrightarrow> msg_source m \<noteq> 0 \<and> skynet_harbor_message_isremote n (msg_source m) = Ok True"

lemma drop_message_total:
  assumes g: "good M hid s" and quiet: "quiet_release M" and h: "h \<noteq> 0"
    and remote: "remote_source (sy_node s) msg \<Longrightarrow> nd_remote (sy_node s) \<noteq> None"
  shows "\<exists>w. drop_message M img h msg (sy_node s) = Ok ((sy_node s)\<lparr>nd_world := w\<rparr>) \<and>
    (\<forall>p. marks (nd_world (sy_node s)) p = Some True \<longrightarrow> pending w p = pending (nd_world (sy_node s)) p)"
proof -
  let ?n = "sy_node s"
  have s: "sys_reachable M hid s" and hb: "nd_harbor ?n \<noteq> -1" using g by (simp_all add: good_def healthy_def)
  have f: "filter_args None PTYPE_ERROR 0 None 0 ?n = Ok (0, None, push_bit MESSAGE_TYPE_SHIFT 7, ?n)"
    by (simp add: filter_args_def PTYPE_ERROR_def PTYPE_TAG_ALLOCSESSION_def)
  have tl: "\<not> too_large 0" by (simp add: too_large_def)
  obtain b where b: "skynet_harbor_message_isremote ?n (msg_source msg) = Ok b"
    using hb by (simp add: skynet_harbor_message_isremote_def Let_def)
  let ?m = "\<lparr>msg_source = h, msg_session = 0, msg_data = None, msg_sz = push_bit MESSAGE_TYPE_SHIFT 7\<rparr>"
  consider "msg_source msg = 0" | "msg_source msg \<noteq> 0" "\<not> b" | "msg_source msg \<noteq> 0" b by blast
  then show ?thesis
  proof cases
    case 1
    then have "drop_message M img h msg ?n = Ok (?n\<lparr>nd_world := nd_world ?n\<rparr>)"
      using h f tl by (simp add: drop_message_def skynet_send_def)
    then show ?thesis by blast
  next
    case 2
    obtain r w where p: "skynet_context_push M (msg_source msg) ?m ?n = Ok (r, ?n\<lparr>nd_world := w\<rparr>)"
        "\<forall>p. marks (nd_world ?n) p = Some True \<longrightarrow> pending w p = pending (nd_world ?n) p"
      using push_total [OF s quiet, of "msg_source msg" ?m] by blast
    have "drop_message M img h msg ?n = Ok (?n\<lparr>nd_world := w\<rparr>)"
      using h f tl b 2 p(1) by (simp add: drop_message_def skynet_send_def)
    then show ?thesis using p(2) by blast
  next
    case 3
    then obtain c where c: "nd_remote ?n = Some c" using remote b by (auto simp: remote_source_def)
    obtain ps where inv: "life_inv ?n (sy_held s)" "sched_inv \<lparr>world = nd_world ?n, holds = sy_holds s\<rparr> ps"
      using reach_inv [OF s quiet] by blast
    have "0 < sy_held s c" using g c by (simp add: good_def remote_ref_def)
    then obtain x where x: "nd_ctx ?n c = Some x" using life_inv_held [OF inv(1)] by blast
    obtain q where q: "mq_heap (nd_world ?n) (cx_queue x) = Some q" using life_inv_queue [OF inv(1) x] by blast
    have mq: "mq_inv q" using sched_inv_queue(1) [OF inv(2)] q by simp
    have t: "rm_type (remote_to (replicate GLOBALNAME_LENGTH 0) (msg_source msg) None (push_bit MESSAGE_TYPE_SHIFT 7)) = 7"
      by (simp add: remote_to_def MESSAGE_TYPE_SHIFT_def)
    define m where "m = \<lparr>msg_source = h, msg_session = 0,
        msg_data = Some (img (remote_to (replicate GLOBALNAME_LENGTH 0) (msg_source msg) None (push_bit MESSAGE_TYPE_SHIFT 7))),
        msg_sz = 48 OR push_bit MESSAGE_TYPE_SHIFT (of_int PTYPE_SYSTEM)\<rparr>"
    obtain w where w: "skynet_mq_push (cx_queue x) m (nd_world ?n) = Ok w" using held_push [OF inv x, of m] by auto
    have "skynet_harbor_send img (remote_to (replicate GLOBALNAME_LENGTH 0) (msg_source msg) None (push_bit MESSAGE_TYPE_SHIFT 7)) h 0 ?n =
        Ok (?n\<lparr>nd_world := w\<rparr>)"
      using c x w t by (simp add: skynet_harbor_send_def res_assert_def invalid_type_def PTYPE_SYSTEM_def PTYPE_HARBOR_def
        skynet_context_send_def cx_get_def on_world_def m_def)
    then have "drop_message M img h msg ?n = Ok (?n\<lparr>nd_world := w\<rparr>)"
      using h f tl b 3 by (simp add: drop_message_def skynet_send_def)
    moreover have "marks (nd_world ?n) (cx_queue x) = Some False" by (rule life_invD(3) [OF inv(1) x])
    ultimately show ?thesis using pending_push [OF w q mq] by (intro exI [of _ w]) auto
  qed
qed


section \<open>Releasing a queue\<close>

text \<open>A worker has the marked queue \<open>p\<close> in hand, with the messages \<open>ms\<close>.\<close>

definition drops :: "modules \<Rightarrow> u32 \<Rightarrow> nat \<Rightarrow> qptr \<Rightarrow> skynet_message list \<Rightarrow> sys \<Rightarrow> bool" where
  "drops M hid t p ms s \<longleftrightarrow> good M hid s \<and> sy_holds s t = Some p \<and>
     (\<exists>q. mq_heap (nd_world (sy_node s)) p = Some q \<and> mq_release q \<and> mq_items q = ms)"

text \<open>The end of a turn: the queue has left the hand of the worker.\<close>

definition lets_go :: "modules \<Rightarrow> nat \<Rightarrow> sys \<Rightarrow> node \<Rightarrow> bool" where
  "lets_go M t s n \<longleftrightarrow> sys_run M s (s\<lparr>sy_node := n, sy_holds := (sy_holds s)(t := None)\<rparr>) \<and> sees (sy_node s) n"

lemma lets_go_after:
  assumes "runs M s n1" "sees (sy_node s) n1" "lets_go M t (s\<lparr>sy_node := n1\<rparr>) n"
  shows "lets_go M t s n"
  using assms sees_trans by (auto simp: lets_go_def runs_def)

lemma world_eff: "runs M s ((sy_node s)\<lparr>nd_world := w\<rparr>) \<Longrightarrow> eff M s (s\<lparr>sy_node := (sy_node s)\<lparr>nd_world := w\<rparr>\<rparr>)"
  by (rule eff_runs) simp_all

lemma good_world: "good M hid s \<Longrightarrow> runs M s ((sy_node s)\<lparr>nd_world := w\<rparr>) \<Longrightarrow> good M hid (s\<lparr>sy_node := (sy_node s)\<lparr>nd_world := w\<rparr>\<rparr>)"
  using good_sees [OF _ world_eff] by simp

lemma drop_pop:
  assumes d: "drops M hid t p (m # ms) s" and quiet: "quiet_release M"
  shows "\<exists>q w. mq_heap (nd_world (sy_node s)) p = Some q \<and> skynet_mq_pop q = Ok (Some m, w) \<and>
    runs M s ((sy_node s)\<lparr>nd_world := mq_set (nd_world (sy_node s)) p w\<rparr>) \<and>
    drops M hid t p ms (s\<lparr>sy_node := (sy_node s)\<lparr>nd_world := mq_set (nd_world (sy_node s)) p w\<rparr>\<rparr>)"
proof -
  obtain q where q: "mq_heap (nd_world (sy_node s)) p = Some q" "mq_release q" "mq_items q = m # ms"
      and s: "good M hid s" "sy_holds s t = Some p" using d by (auto simp: drops_def)
  obtain ps where inv: "sched_inv \<lparr>world = nd_world (sy_node s), holds = sy_holds s\<rparr> ps"
    using reach_inv [of M hid s] s(1) quiet by (auto simp: good_def)
  have "mq_inv q" using sched_inv_queue(1) [OF inv] q by simp
  from mq_pop_cons [OF this q(3)] obtain q' where q': "skynet_mq_pop q = Ok (Some m, q')" "mq_items q' = ms" "mq_release q' = mq_release q"
    by blast
  let ?n = "(sy_node s)\<lparr>nd_world := mq_set (nd_world (sy_node s)) p q'\<rparr>"
  have "node_pop p (sy_node s) = Ok (Some m, ?n)" using q(1) q'(1) by (simp add: node_pop_Ok)
  then have r: "runs M s ?n" using pop_runs [OF s(2)] by blast
  have "drops M hid t p ms (s\<lparr>sy_node := ?n\<rparr>)"
    using good_world [OF s(1) r] s(2) q(2) q'(2,3) by (simp add: drops_def mq_set_def)
  then show ?thesis using q(1) q'(1) r by blast
qed

lemma drop_loop_total:
  assumes "drops M hid t p ms s" "quiet_release M" "h \<noteq> 0" "\<forall>m \<in> set ms. remote_source (sy_node s) m \<longrightarrow> nd_remote (sy_node s) \<noteq> None"
  shows "\<exists>n1 n. node_drop_loop M img h p (sy_node s) = Some (Ok n1) \<and> on_world (mq_free p) n1 = Ok n \<and> lets_go M t s n"
  using assms
proof (induction ms arbitrary: s)
  case Nil
  obtain q where q: "mq_heap (nd_world (sy_node s)) p = Some q" "mq_release q" "mq_items q = []"
      and s: "good M hid s" "sy_holds s t = Some p" using Nil.prems(1) by (auto simp: drops_def)
  obtain ps where inv: "sched_inv \<lparr>world = nd_world (sy_node s), holds = sy_holds s\<rparr> ps"
    using reach_inv [of M hid s] s(1) Nil.prems(2) by (auto simp: good_def)
  have mq: "mq_inv q" using sched_inv_queue(1) [OF inv] q by simp
  obtain q' where q': "skynet_mq_pop q = Ok (None, q')" using mq_pop_empty [OF mq q(3)] by blast
  let ?n1 = "(sy_node s)\<lparr>nd_world := mq_set (nd_world (sy_node s)) p q'\<rparr>"
  have pop: "node_pop p (sy_node s) = Ok (None, ?n1)" using q(1) q' by (simp add: node_pop_Ok)
  obtain w where w: "mq_free p (mq_set (nd_world (sy_node s)) p q') = Ok w"
    using sched_inv_free [OF inv, of t p q q'] s(2) q(1) mq_pop_cases(1) [OF mq q'] by auto
  let ?n = "?n1\<lparr>nd_world := w\<rparr>"
  have f: "on_world (mq_free p) ?n1 = Ok ?n" using w by simp
  have "sys_step M s (s\<lparr>sy_node := ?n, sy_holds := (sy_holds s)(t := None)\<rparr>)" by (rule sys_step.free [OF s(2) q(1,2) pop f])
  then have "lets_go M t s ?n" by (simp add: lets_go_def r_into_rtranclp)
  moreover have "node_drop_loop M img h p (sy_node s) = Some (Ok ?n1)"
    using q(1) q' by (subst node_drop_loop.simps) (simp add: mq_get_def)
  ultimately show ?case using f by blast
next
  case (Cons m ms)
  note quiet = Cons.prems(2) and h = Cons.prems(3)
  obtain q q1 where q: "mq_heap (nd_world (sy_node s)) p = Some q" "skynet_mq_pop q = Ok (Some m, q1)"
      and r1: "runs M s ((sy_node s)\<lparr>nd_world := mq_set (nd_world (sy_node s)) p q1\<rparr>)"
      and d1: "drops M hid t p ms (s\<lparr>sy_node := (sy_node s)\<lparr>nd_world := mq_set (nd_world (sy_node s)) p q1\<rparr>\<rparr>)"
    using drop_pop [OF Cons.prems(1) quiet] by blast
  define n1 where "n1 = (sy_node s)\<lparr>nd_world := mq_set (nd_world (sy_node s)) p q1\<rparr>"
  let ?s1 = "s\<lparr>sy_node := n1\<rparr>"
  have g1: "good M hid ?s1" and mk: "marks (nd_world n1) p = Some True" and pd: "pending (nd_world n1) p = Some ms" and t1: "sy_holds s t = Some p"
    using d1 by (auto simp: drops_def n1_def marks_def pending_def)
  have rs: "remote_source n1 = remote_source (sy_node s)" "nd_remote n1 = nd_remote (sy_node s)"
    by (simp_all add: fun_eq_iff remote_source_def skynet_harbor_message_isremote_def n1_def)
  obtain w where w: "drop_message M img h m (sy_node ?s1) = Ok (n1\<lparr>nd_world := w\<rparr>)"
      "\<forall>p. marks (nd_world n1) p = Some True \<longrightarrow> pending w p = pending (nd_world n1) p"
    using drop_message_total [OF g1 quiet h, of m img] Cons.prems(4) rs by auto
  define n2 where "n2 = n1\<lparr>nd_world := w\<rparr>"
  let ?s2 = "s\<lparr>sy_node := n2\<rparr>"
  have "remote_ref ?s1" using g1 by (simp add: good_def)
  then have r2: "runs M ?s1 n2" using drop_message_runs [of M img h m ?s1 n2] w(1) quiet by (simp add: n2_def)
  have g2: "good M hid ?s2" using good_world [OF g1, of w] r2 by (simp add: n2_def)
  have "dropping M hid t p ?s1" using g1 mk t1 by (simp add: dropping_def good_def)
  from dropping_runs [OF this quiet r2] have mk2: "marks w p = Some True" by (simp add: n2_def dropping_def)
  have "pending w p = Some ms" using w(2) mk pd by simp
  then have d2: "drops M hid t p ms ?s2" using g2 t1 mk2 by (auto simp: drops_def n2_def marks_def pending_def)
  have rs2: "remote_source n2 = remote_source (sy_node s)" "nd_remote n2 = nd_remote (sy_node s)"
    by (simp_all add: fun_eq_iff remote_source_def skynet_harbor_message_isremote_def n2_def n1_def)
  obtain n3 n where n: "node_drop_loop M img h p n2 = Some (Ok n3)" "on_world (mq_free p) n3 = Ok n" "lets_go M t ?s2 n"
    using Cons.IH [OF d2 quiet h] Cons.prems(4) rs2 by auto
  have "node_drop_loop M img h p (sy_node s) = node_drop_loop M img h p n2"
    using q w(1) by (subst node_drop_loop.simps) (simp add: mq_get_def n1_def n2_def)
  moreover have "lets_go M t s n"
  proof (rule lets_go_after)
    show "runs M s n1" using r1 by (simp add: n1_def)
    show "sees (sy_node s) n1" by (simp add: n1_def)
    have "lets_go M t (?s1\<lparr>sy_node := n2\<rparr>) n" using n(3) by simp
    with lets_go_after [OF r2] show "lets_go M t ?s1 n" by (simp add: n2_def)
  qed
  ultimately show ?case using n(1,2) by metis
qed

text \<open>No queued message has a remote source while the harbor service is not known.\<close>

definition answerable :: "node \<Rightarrow> bool" where
  "answerable n \<longleftrightarrow> (\<forall>p q m. mq_heap (nd_world n) p = Some q \<longrightarrow> m \<in> set (mq_items q) \<longrightarrow> remote_source n m \<longrightarrow> nd_remote n \<noteq> None)"

lemma mq_release_total:
  assumes g: "good M hid s" and quiet: "quiet_release M" and t: "sy_holds s t = Some p" and h: "h \<noteq> 0" and a: "answerable (sy_node s)"
  shows "\<exists>n. node_mq_release M img h p (sy_node s) = Ok n \<and> lets_go M t s n"
proof -
  obtain ps where inv: "sched_inv \<lparr>world = nd_world (sy_node s), holds = sy_holds s\<rparr> ps"
    using reach_inv [of M hid s] g quiet by (auto simp: good_def)
  obtain q where q: "mq_heap (nd_world (sy_node s)) p = Some q" using sched_inv_alive [OF inv, of t p] t by auto
  show ?thesis
  proof (cases "mq_release q")
    case True
    then have "drops M hid t p (mq_items q) s" using g t q by (simp add: drops_def)
    from drop_loop_total [OF this quiet h] a q obtain n1 n where
      "node_drop_loop M img h p (sy_node s) = Some (Ok n1)" "on_world (mq_free p) n1 = Ok n" "lets_go M t s n"
      unfolding answerable_def by meson
    then show ?thesis using q True by (auto simp: node_mq_release_def mq_get_def simp del: on_world_Ok)
  next
    case False
    obtain w where w: "skynet_globalmq_push p (nd_world (sy_node s)) = Ok w" using sched_inv_put_back [OF inv, of t p] t by auto
    let ?n = "(sy_node s)\<lparr>nd_world := w\<rparr>"
    have p: "on_world (skynet_globalmq_push p) (sy_node s) = Ok ?n" using w by simp
    have "lets_go M t s ?n" using sys_step.put_back [OF t p, of M] by (simp add: lets_go_def r_into_rtranclp)
    then show ?thesis using q False p by (intro exI [of _ ?n]) (simp add: node_mq_release_def mq_get_def)
  qed
qed


section \<open>Serving a queue\<close>

text \<open>The worker has the queue in hand and a reference of its own to the context it belongs to, which is initialised if it has a
  callback.\<close>

definition serves :: "modules \<Rightarrow> u32 \<Rightarrow> nat \<Rightarrow> cptr \<Rightarrow> qptr \<Rightarrow> sys \<Rightarrow> bool" where
  "serves M hid t c p s \<longleftrightarrow> good M hid s \<and> sy_holds s t = Some p \<and> 0 < thr s c \<and>
     (\<exists>x. nd_ctx (sy_node s) c = Some x \<and> cx_queue x = p \<and> (cx_cb x \<longrightarrow> cx_init x))"

text \<open>What is asked of the callback of a service: called with a reference to its context it returns, what it did were steps of the system,
  and at its end every thread has the queues it had before and the references it had before, but for the one that \<open>REMOTE\<close> keeps (the harbor
  service is launched by a callback); the names stay sorted, and the context stays initialised.\<close>

definition cb_ok :: "modules \<Rightarrow> u32 \<Rightarrow> bool" where
  "cb_ok M hid \<longleftrightarrow> (\<forall>s c x ty se so d sz. good M hid s \<longrightarrow> 0 < thr s c \<longrightarrow> nd_ctx (sy_node s) c = Some x \<longrightarrow> cx_init x \<longrightarrow>
     (\<exists>r s'. md_cb M c ty se so d sz (sy_node s) = Ok (r, sy_node s') \<and> eff M s s' \<and> healthy (sy_node s') \<and>
        (\<forall>y. nd_ctx (sy_node s') c = Some y \<longrightarrow> cx_init y)))"

lemma good_ref: "good M hid s \<Longrightarrow> 0 < thr s c \<Longrightarrow> 0 < sy_held s c"
  using thr_held by (simp add: good_def)

lemma good_ctx:
  assumes "good M hid s" "0 < thr s c" "quiet_release M"
  obtains x where "nd_ctx (sy_node s) c = Some x"
proof -
  obtain ps where "life_inv (sy_node s) (sy_held s)" using reach_inv [of M hid s] assms(1,3) by (auto simp: good_def)
  then show ?thesis using life_inv_held good_ref [OF assms(1,2)] that by blast
qed

text \<open>A context keeps its queue.\<close>

lemma same_queue:
  assumes g: "good M hid s" and quiet: "quiet_release M" and c: "0 < thr s c" and run: "sys_run M s s'"
    and x: "nd_ctx (sy_node s) c = Some x" and y: "nd_ctx (sy_node s') c = Some y"
  shows "cx_queue y = cx_queue x"
proof -
  have reach: "sys_reachable M hid s" using g by (simp add: good_def)
  have "frame (sy_node s) (sy_node s')" by (rule sys_run_frame [OF run quiet reach])
  then show ?thesis using live_below [OF reach quiet good_ref [OF g c]] x y unfolding frame_def by fastforce
qed

lemma serves_eff:
  assumes sv: "serves M hid t c p s" and e: "eff M s s'" and g: "good M hid s'" and quiet: "quiet_release M"
    and init: "\<And>x y. nd_ctx (sy_node s) c = Some x \<Longrightarrow> nd_ctx (sy_node s') c = Some y \<Longrightarrow> (cx_cb x \<longrightarrow> cx_init x) \<Longrightarrow> cx_cb y \<longrightarrow> cx_init y"
  shows "serves M hid t c p s'"
proof -
  obtain x where x: "nd_ctx (sy_node s) c = Some x" "cx_queue x = p" "cx_cb x \<longrightarrow> cx_init x" and g0: "good M hid s" "0 < thr s c"
    using sv by (auto simp: serves_def)
  have c: "0 < thr s' c" using g0(2) e by (simp add: eff_def)
  obtain y where y: "nd_ctx (sy_node s') c = Some y" using good_ctx [OF g c quiet] .
  have "cx_queue y = p" using same_queue [OF g0(1) quiet g0(2) _ x(1) y] e x(2) by (simp add: eff_def)
  then show ?thesis using g c y init [OF x(1) y x(3)] e sv by (simp add: serves_def eff_def)
qed

lemma serves_sees:
  assumes sv: "serves M hid t c p s" and e: "eff M s s'" and n: "sees (sy_node s) (sy_node s')" and quiet: "quiet_release M"
  shows "serves M hid t c p s'"
proof -
  have "good M hid s" using sv by (simp add: serves_def)
  from good_sees [OF this e n] show ?thesis by (rule serves_eff [OF sv e _ quiet]) (use n in \<open>simp add: sees_def\<close>)
qed

lemma context_dispatch_total:
  assumes sv: "serves M hid t c p s" and cb: "cb_ok M hid" and quiet: "quiet_release M"
    and x: "nd_ctx (sy_node s) c = Some x" "cx_init x"
  shows "\<exists>s'. context_dispatch M c msg (sy_node s) = Ok (sy_node s') \<and> eff M s s' \<and> serves M hid t c p s'"
proof -
  have g: "good M hid s" "0 < thr s c" using sv by (auto simp: serves_def)
  note held = good_ref [OF g]
  define y where "y = (if cx_profile x then x\<lparr>cx_message_count := cx_message_count x + 1, cx_cpu_start := md_time M (sy_node s)\<rparr>
      else x\<lparr>cx_message_count := cx_message_count x + 1\<rparr>)"
  define n1 where "n1 = cx_set (sy_node s) c y"
  define n2 where "n2 = n1\<lparr>nd_key := cx_handle x\<rparr>"
  have y: "same_life x y" "cx_init y" using x(2) by (simp_all add: y_def same_life_def)
  have r1: "runs M s n1" unfolding n1_def by (rule runs_edit [OF held x(1) y(1)])
  have "runs M (s\<lparr>sy_node := n1\<rparr>) n2" by (rule runs_other) (simp_all add: n2_def)
  with r1 have "runs M s n2" by (rule runs_trans)
  then have e2: "eff M s (s\<lparr>sy_node := n2\<rparr>)" by (rule eff_runs) (simp add: n2_def n1_def cx_set_def)
  have "healthy n2" using g(1) by (simp add: good_def healthy_def n2_def n1_def cx_set_def)
  then have g2: "good M hid (s\<lparr>sy_node := n2\<rparr>)" using good_eff [OF g(1) e2] by simp
  have x2: "nd_ctx n2 c = Some y" by (simp add: n2_def n1_def cx_set_def)
  have "0 < thr (s\<lparr>sy_node := n2\<rparr>) c" using g(2) e2 by (simp add: eff_def)
  from cb [unfolded cb_ok_def, rule_format, OF g2 this, of y] x2 y(2) obtain r s3 where s3: "md_cb M c (uint (drop_bit MESSAGE_TYPE_SHIFT (msg_sz msg))) (msg_session msg) (msg_source msg) (msg_data msg)
        (msg_sz msg AND MESSAGE_TYPE_MASK) n2 = Ok (r, sy_node s3)" "eff M (s\<lparr>sy_node := n2\<rparr>) s3" "healthy (sy_node s3)"
        "\<forall>z. nd_ctx (sy_node s3) c = Some z \<longrightarrow> cx_init z"
    by fastforce
  have e3: "eff M s s3" by (rule eff_trans [OF e2 s3(2)])
  note g3 = good_eff [OF g(1) e3 s3(3)]
  have sv3: "serves M hid t c p s3" by (rule serves_eff [OF sv e3 g3 quiet]) (use s3(4) in blast)
  have run: "context_dispatch M c msg (sy_node s) = (if cx_profile x then res_bind (cx_get (sy_node s3) c)
      (\<lambda>y. Ok (cx_set (sy_node s3) c (y\<lparr>cx_cpu_cost := cx_cpu_cost y + (md_time M (sy_node s3) - cx_cpu_start y)\<rparr>))) else Ok (sy_node s3))"
    using x s3(1) unfolding n2_def n1_def y_def by (simp add: context_dispatch_def cx_get_def Let_def)
  show ?thesis
  proof (cases "cx_profile x")
    case False
    then show ?thesis using run e3 sv3 by auto
  next
    case True
    have c3: "0 < thr s3 c" using sv3 by (simp add: serves_def)
    obtain z where z: "nd_ctx (sy_node s3) c = Some z" using good_ctx [OF g3 c3 quiet] .
    let ?z = "z\<lparr>cx_cpu_cost := cx_cpu_cost z + (md_time M (sy_node s3) - cx_cpu_start z)\<rparr>"
    let ?s4 = "s3\<lparr>sy_node := cx_set (sy_node s3) c ?z\<rparr>"
    have "runs M s3 (cx_set (sy_node s3) c ?z)" by (rule runs_edit [OF good_ref [OF g3 c3] z]) (simp add: same_life_def)
    then have e4: "eff M s3 ?s4" by (rule eff_runs) (simp add: cx_set_def)
    have g4: "good M hid ?s4" using good_eff [OF g3 e4] s3(3) by (simp add: healthy_def cx_set_def)
    have "serves M hid t c p ?s4"
      by (rule serves_eff [OF sv3 e4 g4 quiet]) (use z in \<open>auto simp: cx_set_def\<close>)
    moreover have "context_dispatch M c msg (sy_node s) = Ok (sy_node ?s4)" using run True z by (simp add: cx_get_def)
    ultimately show ?thesis using eff_trans [OF e3 e4] by blast
  qed
qed

lemma dispatch_one_total:
  assumes sv: "serves M hid t c p s" and cb: "cb_ok M hid" and quiet: "quiet_release M"
  shows "\<exists>sm' s'. dispatch_one M c p h msg (sm, sy_node s) = Ok (sm', sy_node s') \<and> eff M s s' \<and> serves M hid t c p s'"
proof -
  have g: "good M hid s" "0 < thr s c" "sy_holds s t = Some p" using sv by (auto simp: serves_def)
  obtain ps where inv: "sched_inv \<lparr>world = nd_world (sy_node s), holds = sy_holds s\<rparr> ps"
    using reach_inv [of M hid s] g(1) quiet by (auto simp: good_def)
  obtain q where q: "mq_heap (nd_world (sy_node s)) p = Some q" using sched_inv_alive [OF inv, of t p] g(3) by auto
  obtain ov q1 where ov: "skynet_mq_overload q = (ov, q1)" by (cases "skynet_mq_overload q")
  define n1 where "n1 = (sy_node s)\<lparr>nd_world := mq_set (nd_world (sy_node s)) p q1\<rparr>"
  have r1: "runs M s n1" by (intro runs_step sys_step.report [OF g(3) q]) (simp add: n1_def ov)
  then have e1: "eff M s (s\<lparr>sy_node := n1\<rparr>)" by (rule eff_runs) (simp add: n1_def)
  have sv1: "serves M hid t c p (s\<lparr>sy_node := n1\<rparr>)" by (rule serves_sees [OF sv e1 _ quiet]) (simp add: n1_def)
  then have g1: "good M hid (s\<lparr>sy_node := n1\<rparr>)" "0 < thr (s\<lparr>sy_node := n1\<rparr>) c" by (simp_all add: serves_def)
  have "own_ref (Some c) (s\<lparr>sy_node := n1\<rparr>)" using good_ref [OF g1] by simp
  then obtain n2' where err: "skynet_error M (Some c) (''May overload, message queue length = '' @ dec (int ov)) n1 = Ok n2'" "sees n1 n2'"
    using error_total [of M hid "s\<lparr>sy_node := n1\<rparr>" "Some c" "''May overload, message queue length = '' @ dec (int ov)"] g1(1) quiet
    by (auto simp: good_def healthy_def)
  have r2: "runs M (s\<lparr>sy_node := n1\<rparr>) n2'" using error_runs [of M "Some c" _ "s\<lparr>sy_node := n1\<rparr>" n2'] err(1) by simp
  define n2 where "n2 = (if ov \<noteq> 0 then n2' else n1)"
  have "eff M (s\<lparr>sy_node := n1\<rparr>) (s\<lparr>sy_node := n2\<rparr>)" "sees n1 n2"
    using eff_runs [OF r2] err(2) by (auto simp: n2_def sees_def)
  then have e2: "eff M s (s\<lparr>sy_node := n2\<rparr>)" and sv2: "serves M hid t c p (s\<lparr>sy_node := n2\<rparr>)"
    using eff_trans [OF e1] serves_sees [OF sv1 _ _ quiet] by auto
  obtain x where x: "nd_ctx n2 c = Some x" "cx_cb x \<longrightarrow> cx_init x" using sv2 by (auto simp: serves_def)
  have run: "dispatch_one M c p h msg (sm, sy_node s) = res_bind (if cx_cb x then context_dispatch M c msg n2 else Ok n2)
      (\<lambda>n3. Ok (skynet_monitor_trigger 0 0 (skynet_monitor_trigger (msg_source msg) h sm), n3))"
    using q ov err(1) x(1) unfolding n2_def n1_def by (auto simp: dispatch_one_def mq_get_def cx_get_def Let_def)
  show ?thesis
  proof (cases "cx_cb x")
    case True
    then obtain s' where s': "context_dispatch M c msg n2 = Ok (sy_node s')" "eff M (s\<lparr>sy_node := n2\<rparr>) s'" "serves M hid t c p s'"
      using context_dispatch_total [OF sv2 cb quiet, of x msg] x by auto
    then show ?thesis using run True eff_trans [OF e2 s'(2)] by auto
  next
    case False
    then have "dispatch_one M c p h msg (sm, sy_node s) =
        Ok (skynet_monitor_trigger 0 0 (skynet_monitor_trigger (msg_source msg) h sm), sy_node (s\<lparr>sy_node := n2\<rparr>))" using run by simp
    then show ?thesis using e2 sv2 by blast
  qed
qed

lemma serves_queue:
  assumes sv: "serves M hid t c p s" and quiet: "quiet_release M"
  obtains q where "mq_heap (nd_world (sy_node s)) p = Some q" "mq_inv q" "\<not> mq_release q"
proof -
  obtain x where x: "nd_ctx (sy_node s) c = Some x" "cx_queue x = p" and g: "good M hid s" using sv by (auto simp: serves_def)
  obtain ps where inv: "life_inv (sy_node s) (sy_held s)" "sched_inv \<lparr>world = nd_world (sy_node s), holds = sy_holds s\<rparr> ps"
    using reach_inv [of M hid s] g quiet by (auto simp: good_def)
  obtain q where q: "mq_heap (nd_world (sy_node s)) p = Some q" "\<not> mq_release q" using life_inv_queue [OF inv(1) x(1)] x(2) by blast
  have "mq_inv q" using sched_inv_queue(1) [OF inv(2)] q(1) by simp
  then show ?thesis using q that by blast
qed

text \<open>The end of the loop over the messages: the queue has left the hand of the worker when it was found empty.\<close>

definition served :: "modules \<Rightarrow> u32 \<Rightarrow> nat \<Rightarrow> cptr \<Rightarrow> qptr \<Rightarrow> sys \<Rightarrow> bool \<Rightarrow> sys \<Rightarrow> bool" where
  "served M hid t c p s e s' \<longleftrightarrow> sys_run M s s' \<and> thr s' = thr s \<and> good M hid s' \<and>
     (if e then sy_holds s' = (sy_holds s)(t := None) else sy_holds s' = sy_holds s \<and> serves M hid t c p s')"

lemma served_after: "eff M s s1 \<Longrightarrow> served M hid t c p s1 e s' \<Longrightarrow> served M hid t c p s e s'"
  by (auto simp: served_def eff_def)

lemma pop_total:
  assumes sv: "serves M hid t c p s" and quiet: "quiet_release M"
  shows "(\<exists>n. node_pop p (sy_node s) = Ok (None, n) \<and> served M hid t c p s True (s\<lparr>sy_node := n, sy_holds := (sy_holds s)(t := None)\<rparr>)) \<or>
    (\<exists>m n. node_pop p (sy_node s) = Ok (Some m, n) \<and> eff M s (s\<lparr>sy_node := n\<rparr>) \<and> serves M hid t c p (s\<lparr>sy_node := n\<rparr>))"
proof -
  obtain q where q: "mq_heap (nd_world (sy_node s)) p = Some q" "mq_inv q" using serves_queue [OF sv quiet] by blast
  have t: "sy_holds s t = Some p" and g: "good M hid s" using sv by (simp_all add: serves_def)
  show ?thesis
  proof (cases "mq_items q")
    case Nil
    then obtain q' where "skynet_mq_pop q = Ok (None, q')" using mq_pop_empty [OF q(2)] by blast
    then have pop: "node_pop p (sy_node s) = Ok (None, (sy_node s)\<lparr>nd_world := mq_set (nd_world (sy_node s)) p q'\<rparr>)" (is "_ = Ok (None, ?n)")
      using q(1) by (simp add: node_pop_Ok)
    let ?s = "s\<lparr>sy_node := ?n, sy_holds := (sy_holds s)(t := None)\<rparr>"
    obtain x where x: "nd_ctx (sy_node s) c = Some x" "cx_queue x = p" using sv by (auto simp: serves_def)
    have "0 < sy_held s c" using good_ref [OF g] sv by (simp add: serves_def)
    then have run: "sys_run M s ?s" using sys_step.leave [OF t _ x pop, of M] by blast
    moreover have th: "thr ?s = thr s" by (simp add: thr_def fun_eq_iff)
    moreover have "good M hid ?s" by (rule good_run [OF g run th]) (use g in \<open>simp add: good_def healthy_def\<close>)
    ultimately show ?thesis using pop by (auto simp: served_def)
  next
    case (Cons m ms)
    then obtain q' where "skynet_mq_pop q = Ok (Some m, q')" using mq_pop_cons [OF q(2)] by blast
    then have pop: "node_pop p (sy_node s) = Ok (Some m, (sy_node s)\<lparr>nd_world := mq_set (nd_world (sy_node s)) p q'\<rparr>)" (is "_ = Ok (_, ?n)")
      using q(1) by (simp add: node_pop_Ok)
    have "runs M s ?n" using pop_runs [OF t pop] by blast
    then have e: "eff M s (s\<lparr>sy_node := ?n\<rparr>)" by (rule world_eff)
    then have "serves M hid t c p (s\<lparr>sy_node := ?n\<rparr>)" by (rule serves_sees [OF sv _ _ quiet]) simp
    then show ?thesis using pop e by blast
  qed
qed

lemma dispatch_rest_total:
  assumes "serves M hid t c p s" and cb: "cb_ok M hid" and quiet: "quiet_release M"
  shows "\<exists>e sm' s'. dispatch_rest M c p h k (sm, sy_node s) = Ok (e, sm', sy_node s') \<and> served M hid t c p s e s'"
  using assms(1)
proof (induction k arbitrary: sm s)
  case 0
  then have "served M hid t c p s False s" by (simp add: served_def serves_def)
  then show ?case by auto
next
  case (Suc k)
  from pop_total [OF Suc.prems quiet] show ?case
  proof (elim disjE exE conjE)
    fix n assume "node_pop p (sy_node s) = Ok (None, n)" "served M hid t c p s True (s\<lparr>sy_node := n, sy_holds := (sy_holds s)(t := None)\<rparr>)"
    then show ?case by (intro exI [of _ True] exI [of _ sm] exI [of _ "s\<lparr>sy_node := n, sy_holds := (sy_holds s)(t := None)\<rparr>"]) simp
  next
    fix m n assume n: "node_pop p (sy_node s) = Ok (Some m, n)" "eff M s (s\<lparr>sy_node := n\<rparr>)" "serves M hid t c p (s\<lparr>sy_node := n\<rparr>)"
    obtain sm1 s1 where s1: "dispatch_one M c p h m (sm, n) = Ok (sm1, sy_node s1)" "eff M (s\<lparr>sy_node := n\<rparr>) s1" "serves M hid t c p s1"
      using dispatch_one_total [OF n(3) cb quiet, of h m sm] by auto
    obtain e sm' s' where s': "dispatch_rest M c p h k (sm1, sy_node s1) = Ok (e, sm', sy_node s')" "served M hid t c p s1 e s'"
      using Suc.IH [OF s1(3)] by blast
    have "served M hid t c p s e s'" by (rule served_after [OF eff_trans [OF n(2) s1(2)] s'(2)])
    then show ?case using n(1) s1(1) s'(1) by auto
  qed
qed

lemma dispatch_run_total:
  assumes sv: "serves M hid t c p s" and cb: "cb_ok M hid" and quiet: "quiet_release M"
  shows "\<exists>e sm' s'. dispatch_run M c p h weight (sm, sy_node s) = Ok (e, sm', sy_node s') \<and> served M hid t c p s e s'"
proof -
  from pop_total [OF sv quiet] show ?thesis
  proof (elim disjE exE conjE)
    fix n assume "node_pop p (sy_node s) = Ok (None, n)" "served M hid t c p s True (s\<lparr>sy_node := n, sy_holds := (sy_holds s)(t := None)\<rparr>)"
    then show ?thesis
      by (intro exI [of _ True] exI [of _ sm] exI [of _ "s\<lparr>sy_node := n, sy_holds := (sy_holds s)(t := None)\<rparr>"]) (simp add: dispatch_run_def)
  next
    fix m n assume n: "node_pop p (sy_node s) = Ok (Some m, n)" "eff M s (s\<lparr>sy_node := n\<rparr>)" "serves M hid t c p (s\<lparr>sy_node := n\<rparr>)"
    obtain q where q: "mq_heap (nd_world n) p = Some q" using serves_queue [OF n(3) quiet] by auto
    define k where "k = (if weight \<ge> 0 then skynet_mq_length q div 2 ^ nat weight else 1) - 1"
    obtain sm1 s1 where s1: "dispatch_one M c p h m (sm, n) = Ok (sm1, sy_node s1)" "eff M (s\<lparr>sy_node := n\<rparr>) s1" "serves M hid t c p s1"
      using dispatch_one_total [OF n(3) cb quiet, of h m sm] by auto
    obtain e sm' s' where s': "dispatch_rest M c p h k (sm1, sy_node s1) = Ok (e, sm', sy_node s')" "served M hid t c p s1 e s'"
      using dispatch_rest_total [OF s1(3) cb quiet] by blast
    have "served M hid t c p s e s'" by (rule served_after [OF eff_trans [OF n(2) s1(2)] s'(2)])
    moreover have "dispatch_run M c p h weight (sm, sy_node s) = Ok (e, sm', sy_node s')"
      using n(1) q s1(1) s'(1) by (simp add: dispatch_run_def mq_get_def Let_def k_def)
    ultimately show ?thesis by blast
  qed
qed

section \<open>The turn of a worker\<close>

lemma globalmq_total:
  assumes g: "good M hid s" and quiet: "quiet_release M" and v: "sy_holds s v = None"
  shows "\<exists>r w. node_globalmq_pop (sy_node s) = Ok (r, (sy_node s)\<lparr>nd_world := w\<rparr>) \<and>
    sys_run M s (s\<lparr>sy_node := (sy_node s)\<lparr>nd_world := w\<rparr>, sy_holds := (sy_holds s)(v := r)\<rparr>)"
proof -
  obtain ps where inv: "sched_inv \<lparr>world = nd_world (sy_node s), holds = sy_holds s\<rparr> ps"
    using reach_inv [of M hid s] g quiet by (auto simp: good_def)
  have "\<exists>r w. skynet_globalmq_pop (nd_world (sy_node s)) = Ok (r, w)"
  proof (cases ps)
    case Nil
    then have "gq_head (nd_world (sy_node s)) = None" using sched_inv_gq [OF inv] by (simp add: gq_inv_def)
    then show ?thesis by (simp add: skynet_globalmq_pop_def)
  next
    case (Cons p ps')
    then show ?thesis using sched_inv_take [of "\<lparr>world = nd_world (sy_node s), holds = sy_holds s\<rparr>" p ps' v] inv v by auto
  qed
  then obtain r w where "node_globalmq_pop (sy_node s) = Ok (r, (sy_node s)\<lparr>nd_world := w\<rparr>)" by (auto simp: node_globalmq_pop_def)
  then show ?thesis using take_next v by blast
qed

text \<open>A worker gives back the reference it took.\<close>

definition less_ref :: "cptr \<Rightarrow> sys \<Rightarrow> node \<Rightarrow> sys" where
  "less_ref c s n = s\<lparr>sy_node := n, sy_held := (sy_held s)(c := sy_held s c - 1)\<rparr>"

lemma release_total:
  assumes g: "good M hid s" and quiet: "quiet_release M" and c: "0 < thr s c"
  shows "\<exists>b n. skynet_context_release M c (sy_node s) = Ok (b, n) \<and> sys_run M s (less_ref c s n) \<and>
    good M hid (less_ref c s n) \<and> thr (less_ref c s n) = (thr s)(c := thr s c - 1)"
proof -
  obtain ps where inv: "life_inv (sy_node s) (sy_held s)" "sched_inv \<lparr>world = nd_world (sy_node s), holds = sy_holds s\<rparr> ps"
    using reach_inv [of M hid s] g quiet by (auto simp: good_def)
  note h = good_ref [OF g c]
  obtain b n where r: "skynet_context_release M c (sy_node s) = Ok (b, n)" using held_release [OF inv h quiet] by blast
  have n: "nd_handles n = nd_handles (sy_node s)" "nd_harbor n = nd_harbor (sy_node s)" "nd_remote n = nd_remote (sy_node s)"
    using r quiet by (auto simp: skynet_context_release_def delete_context_def quiet_release_def Let_def context_dec_def cx_set_def split: if_splits)
  have run: "sys_run M s (less_ref c s n)" unfolding less_ref_def by (rule release_step [OF r h])
  have th: "thr (less_ref c s n) = (thr s)(c := thr s c - 1)" using h n(3) by (auto simp: thr_def less_ref_def fun_eq_iff)
  have "remote_ref (less_ref c s n)" using g c unfolding remote_ref_thr th by (auto simp: good_def remote_ref_thr)
  moreover have "healthy (sy_node (less_ref c s n))" using g n by (simp add: less_ref_def good_def healthy_def)
  ultimately have "good M hid (less_ref c s n)" using g sys_run_reachable [OF run] by (simp add: good_def)
  then show ?thesis using r run th by blast
qed

lemma grab_total:
  assumes g: "good M hid s" and quiet: "quiet_release M" and t: "sy_holds s t = Some p" and fresh: "no_reuse (sy_node s)"
    and q: "mq_heap (nd_world (sy_node s)) p = Some q"
    and init: "\<forall>c x. nd_ctx (sy_node s) c = Some x \<longrightarrow> cx_queue x = p \<longrightarrow> cx_cb x \<longrightarrow> cx_init x"
  shows "handle_grab (mq_handle q) (sy_node s) = Ok (None, sy_node s) \<or>
    (\<exists>c s1. handle_grab (mq_handle q) (sy_node s) = Ok (Some c, sy_node s1) \<and> sys_run M s s1 \<and> serves M hid t c p s1 \<and>
       sy_holds s1 = sy_holds s \<and> thr s1 = (thr s)(c := thr s c + 1))"
proof -
  have reach: "sys_reachable M hid s" using g by (simp add: good_def)
  obtain ps where inv: "life_inv (sy_node s) (sy_held s)" using reach_inv [OF reach quiet] by blast
  obtain r n1 where gr: "handle_grab (mq_handle q) (sy_node s) = Ok (r, n1)" using grab_ok [OF inv, of "mq_handle q"] by auto
  show ?thesis
  proof (cases r)
    case None
    then show ?thesis using gr by (auto simp: handle_grab_def split: option.splits)
  next
    case (Some c)
    let ?s1 = "s\<lparr>sy_node := n1, sy_held := (sy_held s)(c := sy_held s c + 1)\<rparr>"
    have st: "sys_step M s ?s1" by (rule sys_step.grab) (use gr Some in simp)
    obtain x where x: "nd_ctx (sy_node s) c = Some x" "cx_handle x = mq_handle q" "n1 = cx_set (sy_node s) c (x\<lparr>cx_ref := cx_ref x + 1\<rparr>)"
      using gr Some by (auto simp: handle_grab_def skynet_handle_grab_def skynet_context_grab_def context_handle_def split: option.splits if_splits)
    have cq: "cx_queue x = p" using fresh q x(1,2) unfolding no_reuse_def by blast
    have th: "thr ?s1 = (thr s)(c := thr s c + 1)" using x(3) by (auto simp: thr_def fun_eq_iff cx_set_def)
    have rr: "remote_ref s" "healthy (sy_node s)" using g by (simp_all add: good_def)
    have pos: "0 < thr ?s1 c" using rr(1) unfolding th by (simp add: remote_ref_thr add_nonneg_pos)
    have "remote_ref ?s1" using rr(1) unfolding remote_ref_thr th by simp
    moreover have "healthy n1" using rr(2) x(3) by (simp add: healthy_def cx_set_def)
    ultimately have "good M hid ?s1" using sys_reachable.step [OF reach st] by (simp add: good_def)
    then have "serves M hid t c p ?s1" using pos t x cq init by (auto simp: serves_def cx_set_def)
    then show ?thesis using gr Some st th by (intro disjI2 exI [of _ c] exI [of _ ?s1]) auto
  qed
qed

text \<open>The turn is over: the worker has the references it had, and the queue that is returned is in one of its variables \<open>t\<close> (the queue it
  came with) and \<open>u\<close> (the next one).\<close>

definition turned :: "modules \<Rightarrow> u32 \<Rightarrow> nat \<Rightarrow> nat \<Rightarrow> sys \<Rightarrow> qptr option \<Rightarrow> sys \<Rightarrow> bool" where
  "turned M hid t u s q s' \<longleftrightarrow> sys_run M s s' \<and> thr s' = thr s \<and> good M hid s' \<and>
     (\<exists>v \<in> {t, u}. sy_holds s' = (sy_holds s)(t := None, u := None, v := q))"

lemma thr_world [simp]: "thr (s\<lparr>sy_node := (sy_node s)\<lparr>nd_world := w\<rparr>, sy_holds := hs\<rparr>) = thr s"
  by (simp add: thr_def fun_eq_iff)

lemma good_taken:
  assumes "good M hid s" "sys_run M s (s\<lparr>sy_node := (sy_node s)\<lparr>nd_world := w\<rparr>, sy_holds := hs\<rparr>)"
  shows "good M hid (s\<lparr>sy_node := (sy_node s)\<lparr>nd_world := w\<rparr>, sy_holds := hs\<rparr>)"
  by (rule good_run [OF assms]) (use assms(1) in \<open>simp_all add: good_def healthy_def\<close>)

lemma finish_dead:
  assumes g: "good M hid s" and quiet: "quiet_release M" and t: "sy_holds s t = Some p" "sy_holds s u = None" and h: "h \<noteq> 0"
    and a: "answerable (sy_node s)"
  shows "\<exists>n q' s'. node_mq_release M img h p (sy_node s) = Ok n \<and> node_globalmq_pop n = Ok (q', sy_node s') \<and> turned M hid t u s q' s'"
proof -
  obtain n where n: "node_mq_release M img h p (sy_node s) = Ok n" "lets_go M t s n" using mq_release_total [OF g quiet t(1) h a] by blast
  let ?s1 = "s\<lparr>sy_node := n, sy_holds := (sy_holds s)(t := None)\<rparr>"
  have run: "sys_run M s ?s1" and sees: "sees (sy_node s) n" using n(2) by (simp_all add: lets_go_def)
  have th: "thr ?s1 = thr s" using sees by (simp add: thr_def sees_def fun_eq_iff)
  have g1: "good M hid ?s1" by (rule good_run [OF g run th]) (use g sees in \<open>simp add: good_def healthy_def sees_def\<close>)
  obtain q' w where w: "node_globalmq_pop (sy_node ?s1) = Ok (q', (sy_node ?s1)\<lparr>nd_world := w\<rparr>)"
      "sys_run M ?s1 (?s1\<lparr>sy_node := (sy_node ?s1)\<lparr>nd_world := w\<rparr>, sy_holds := (sy_holds ?s1)(t := q')\<rparr>)"
    using globalmq_total [OF g1 quiet, of t] by auto
  let ?s2 = "?s1\<lparr>sy_node := (sy_node ?s1)\<lparr>nd_world := w\<rparr>, sy_holds := (sy_holds ?s1)(t := q')\<rparr>"
  have "t \<noteq> u" using t by auto
  then have "sy_holds ?s2 = (sy_holds s)(t := None, u := None, t := q')" using t(2) by (simp add: fun_eq_iff)
  moreover have "thr ?s2 = thr s" unfolding thr_world by (rule th)
  ultimately have "turned M hid t u s q' ?s2" using good_taken [OF g1 w(2)] rtranclp_trans [OF run w(2)] by (auto simp: turned_def)
  moreover have "node_globalmq_pop n = Ok (q', sy_node ?s2)" using w(1) by simp
  ultimately show ?thesis using n(1) by blast
qed

lemma finish_left:
  assumes g: "good M hid s" and quiet: "quiet_release M" and c: "0 < thr s c" and t: "sy_holds s t = None"
  shows "\<exists>b n q' s'. skynet_context_release M c (sy_node s) = Ok (b, n) \<and> node_globalmq_pop n = Ok (q', sy_node s') \<and>
    sys_run M s s' \<and> good M hid s' \<and> thr s' = (thr s)(c := thr s c - 1) \<and> sy_holds s' = (sy_holds s)(t := q')"
proof -
  obtain b n where n: "skynet_context_release M c (sy_node s) = Ok (b, n)" "sys_run M s (less_ref c s n)" "good M hid (less_ref c s n)"
      "thr (less_ref c s n) = (thr s)(c := thr s c - 1)"
    using release_total [OF g quiet c] by blast
  let ?s1 = "less_ref c s n"
  have f: "sy_node ?s1 = n" "sy_holds ?s1 = sy_holds s" by (simp_all add: less_ref_def)
  obtain q' w where w: "node_globalmq_pop (sy_node ?s1) = Ok (q', (sy_node ?s1)\<lparr>nd_world := w\<rparr>)"
      "sys_run M ?s1 (?s1\<lparr>sy_node := (sy_node ?s1)\<lparr>nd_world := w\<rparr>, sy_holds := (sy_holds ?s1)(t := q')\<rparr>)"
    using globalmq_total [OF n(3) quiet, of t] t f(2) by auto
  let ?s2 = "?s1\<lparr>sy_node := (sy_node ?s1)\<lparr>nd_world := w\<rparr>, sy_holds := (sy_holds ?s1)(t := q')\<rparr>"
  have "thr ?s2 = (thr s)(c := thr s c - 1)" unfolding thr_world by (rule n(4))
  then show ?thesis using n(1) w(1) rtranclp_trans [OF n(2) w(2)] good_taken [OF n(3) w(2)] f
    by (intro exI [of _ b] exI [of _ n] exI [of _ q'] exI [of _ ?s2]) simp
qed

text \<open>The queue is not empty: the worker looks for another one, and keeps this one if there is none.\<close>

lemma finish_more:
  assumes g: "good M hid s" and quiet: "quiet_release M" and t: "sy_holds s t = Some p" "sy_holds s u = None"
  shows "\<exists>nq n p' s'. node_globalmq_pop (sy_node s) = Ok (nq, n) \<and>
    (case nq of None \<Rightarrow> Ok (p, n) | Some p' \<Rightarrow> res_bind (on_world (skynet_globalmq_push p) n) (\<lambda>n2. Ok (p', n2))) = Ok (p', sy_node s') \<and>
    turned M hid t u s (Some p') s'"
proof -
  obtain nq w where w: "node_globalmq_pop (sy_node s) = Ok (nq, (sy_node s)\<lparr>nd_world := w\<rparr>)"
      "sys_run M s (s\<lparr>sy_node := (sy_node s)\<lparr>nd_world := w\<rparr>, sy_holds := (sy_holds s)(u := nq)\<rparr>)"
    using globalmq_total [OF g quiet t(2)] by blast
  let ?s1 = "s\<lparr>sy_node := (sy_node s)\<lparr>nd_world := w\<rparr>, sy_holds := (sy_holds s)(u := nq)\<rparr>"
  note g1 = good_taken [OF g w(2)]
  have tu: "t \<noteq> u" using t by auto
  show ?thesis
  proof (cases nq)
    case None
    then have "sy_holds ?s1 = (sy_holds s)(t := None, u := None, t := Some p)" using t tu by (auto simp: fun_eq_iff)
    then have "turned M hid t u s (Some p) ?s1" using w(2) g1 unfolding turned_def thr_world by blast
    then show ?thesis using w(1) None by (intro exI [of _ nq] exI [of _ "(sy_node s)\<lparr>nd_world := w\<rparr>"] exI [of _ p] exI [of _ ?s1]) simp
  next
    case (Some p')
    have t1: "sy_holds ?s1 t = Some p" using t(1) tu by simp
    obtain ps where "sched_inv \<lparr>world = nd_world (sy_node ?s1), holds = sy_holds ?s1\<rparr> ps"
      using reach_inv [of M hid ?s1] g1 quiet by (auto simp: good_def)
    then obtain w2 where "skynet_globalmq_push p (nd_world (sy_node ?s1)) = Ok w2" using sched_inv_put_back [where t = t and p = p] t1 by fastforce
    then have p: "on_world (skynet_globalmq_push p) (sy_node ?s1) = Ok ((sy_node ?s1)\<lparr>nd_world := w2\<rparr>)" by simp
    let ?s2 = "?s1\<lparr>sy_node := (sy_node ?s1)\<lparr>nd_world := w2\<rparr>, sy_holds := (sy_holds ?s1)(t := None)\<rparr>"
    have run: "sys_run M ?s1 ?s2" using sys_step.put_back [OF t1 p, of M] by blast
    have "sy_holds ?s2 = (sy_holds s)(t := None, u := None, u := Some p')" using Some tu by (auto simp: fun_eq_iff)
    moreover have "thr ?s2 = thr s" unfolding thr_world ..
    ultimately have "turned M hid t u s (Some p') ?s2"
      using rtranclp_trans [OF w(2) run] good_taken [OF g1 run] unfolding turned_def by blast
    moreover have "res_bind (on_world (skynet_globalmq_push p) ((sy_node s)\<lparr>nd_world := w\<rparr>)) (\<lambda>n2. Ok (p', n2)) = Ok (p', sy_node ?s2)"
      using p by (simp add: on_world_def)
    ultimately show ?thesis using w(1) Some
      by (intro exI [of _ nq] exI [of _ "(sy_node s)\<lparr>nd_world := w\<rparr>"] exI [of _ p'] exI [of _ ?s2]) (simp del: on_world_Ok)
  qed
qed

text \<open>After the loop over the messages.\<close>

lemma turn_end:
  assumes sv: "served M hid t c p s e s1" and quiet: "quiet_release M" and t: "sy_holds s t = Some p" "sy_holds s u = None" and c: "0 < thr s c"
  shows "\<exists>q' s'. (if e then
           res_bind (skynet_context_release M c (sy_node s1)) (\<lambda>(_, n3).
           res_bind (node_globalmq_pop n3) (\<lambda>(nq, n4). Ok (nq, sm1, n4)))
         else
           res_bind (cx_get (sy_node s1) c) (\<lambda>x.
           res_bind (res_assert (p = cx_queue x)) (\<lambda>_.
           res_bind (node_globalmq_pop (sy_node s1)) (\<lambda>(nq, n3).
           res_bind (case nq of None \<Rightarrow> Ok (p, n3) | Some p' \<Rightarrow>
               res_bind (on_world (skynet_globalmq_push p) n3) (\<lambda>n4. Ok (p', n4))) (\<lambda>(p', n4).
           res_bind (skynet_context_release M c n4) (\<lambda>(_, n5). Ok (Some p', sm1, n5))))))) = Ok (q', sm1, sy_node s') \<and>
     sys_run M s s' \<and> good M hid s' \<and> thr s' = (thr s)(c := thr s c - 1) \<and>
     (\<exists>v \<in> {t, u}. sy_holds s' = (sy_holds s)(t := None, u := None, v := q'))"
proof (cases e)
  case True
  have g1: "good M hid s1" "sy_holds s1 = (sy_holds s)(t := None)" "thr s1 = thr s" "sys_run M s s1" using sv True by (auto simp: served_def)
  obtain b n q' s' where s': "skynet_context_release M c (sy_node s1) = Ok (b, n)" "node_globalmq_pop n = Ok (q', sy_node s')"
    "sys_run M s1 s'" "good M hid s'" "thr s' = (thr s1)(c := thr s1 c - 1)" "sy_holds s' = (sy_holds s1)(t := q')"
    using finish_left [OF g1(1) quiet, of c t] g1(2,3) c by auto
  have "t \<noteq> u" using t by auto
  then have "sy_holds s' = (sy_holds s)(t := None, u := None, t := q')" using s'(6) g1(2) t(2) by (simp add: fun_eq_iff)
  then show ?thesis using True s' g1(3) rtranclp_trans [OF g1(4) s'(3)] by (intro exI [of _ q'] exI [of _ s']) auto
next
  case False
  have g1: "good M hid s1" "sy_holds s1 = sy_holds s" "thr s1 = thr s" "sys_run M s s1" "serves M hid t c p s1"
    using sv False by (auto simp: served_def)
  obtain x where x: "cx_get (sy_node s1) c = Ok x" "cx_queue x = p" using g1(5) by (auto simp: serves_def)
  obtain nq n p' s2 where s2: "node_globalmq_pop (sy_node s1) = Ok (nq, n)"
    "(case nq of None \<Rightarrow> Ok (p, n) | Some p' \<Rightarrow> res_bind (on_world (skynet_globalmq_push p) n) (\<lambda>n2. Ok (p', n2))) = Ok (p', sy_node s2)"
    "turned M hid t u s1 (Some p') s2"
    using finish_more [OF g1(1) quiet, of t p u] g1(2) t by auto
  have c2: "0 < thr s2 c" and g2: "good M hid s2" using s2(3) c g1(3) by (simp_all add: turned_def)
  obtain b n' where n': "skynet_context_release M c (sy_node s2) = Ok (b, n')" "sys_run M s2 (less_ref c s2 n')" "good M hid (less_ref c s2 n')"
      "thr (less_ref c s2 n') = (thr s2)(c := thr s2 c - 1)"
    using release_total [OF g2 quiet c2] by blast
  have "sys_run M s (less_ref c s2 n')" using g1(4) s2(3) n'(2) unfolding turned_def by (meson rtranclp_trans)
  moreover have "\<exists>v \<in> {t, u}. sy_holds (less_ref c s2 n') = (sy_holds s)(t := None, u := None, v := Some p')"
    using s2(3) g1(2) by (simp add: turned_def less_ref_def)
  moreover have "thr (less_ref c s2 n') = (thr s)(c := thr s c - 1)" using n'(4) s2(3) g1(3) by (simp add: turned_def)
  moreover have "sy_node (less_ref c s2 n') = n'" by (simp add: less_ref_def)
  ultimately show ?thesis using False x s2(1,2) n'(1,3)
    by (intro exI [of _ "Some p'"] exI [of _ "less_ref c s2 n'"]) (simp add: res_assert_def)
qed

text \<open>A context that has a callback and is not yet initialised is being made: its queue is in the hand of the thread that runs
  \<open>skynet_context_new\<close> (which is another than \<open>t\<close>).\<close>

definition settled :: "nat \<Rightarrow> sys \<Rightarrow> bool" where
  "settled t s \<longleftrightarrow> (\<forall>c x. nd_ctx (sy_node s) c = Some x \<longrightarrow> cx_cb x \<longrightarrow> \<not> cx_init x \<longrightarrow> (\<exists>v. v \<noteq> t \<and> sy_holds s v = Some (cx_queue x)))"

definition named_queues :: "node \<Rightarrow> bool" where
  "named_queues n \<longleftrightarrow> (\<forall>p q. mq_heap (nd_world n) p = Some q \<longrightarrow> mq_handle q \<noteq> 0)"

lemma dispatch_queue_total:
  assumes g: "good M hid s" and quiet: "quiet_release M" and cb: "cb_ok M hid"
    and t: "sy_holds s t = Some p" "sy_holds s u = None" and n: "no_reuse (sy_node s)" "named_queues (sy_node s)" "answerable (sy_node s)"
    and st: "settled t s"
  shows "\<exists>q' sm' s'. dispatch_queue_of M img weight p (sm, sy_node s) = Ok (q', sm', sy_node s') \<and> turned M hid t u s q' s'"
proof -
  obtain ps where inv: "sched_inv \<lparr>world = nd_world (sy_node s), holds = sy_holds s\<rparr> ps"
    using reach_inv [of M hid s] g quiet by (auto simp: good_def)
  obtain q where q: "mq_heap (nd_world (sy_node s)) p = Some q" using sched_inv_alive [OF inv, of t p] t by auto
  have h: "mq_handle q \<noteq> 0" using n(2) q by (auto simp: named_queues_def)
  have init: "\<forall>c x. nd_ctx (sy_node s) c = Some x \<longrightarrow> cx_queue x = p \<longrightarrow> cx_cb x \<longrightarrow> cx_init x"
    using st sched_inv_inj [OF inv] t(1) by (fastforce simp: settled_def)
  from grab_total [OF g quiet t(1) n(1) q init] show ?thesis
  proof (elim disjE exE conjE)
    assume "handle_grab (mq_handle q) (sy_node s) = Ok (None, sy_node s)"
    then show ?thesis using finish_dead [OF g quiet t h n(3), of img] q by (auto simp: dispatch_queue_of_def mq_get_def Let_def)
  next
    fix c s1 assume s1: "handle_grab (mq_handle q) (sy_node s) = Ok (Some c, sy_node s1)" "sys_run M s s1" "serves M hid t c p s1"
      "sy_holds s1 = sy_holds s" "thr s1 = (thr s)(c := thr s c + 1)"
    obtain e sm1 s2 where s2: "dispatch_run M c p (mq_handle q) weight (sm, sy_node s1) = Ok (e, sm1, sy_node s2)" "served M hid t c p s1 e s2"
      using dispatch_run_total [OF s1(3) cb quiet] by blast
    have c: "0 < thr s1 c" "sy_holds s1 t = Some p" "sy_holds s1 u = None" using s1(3,4) t by (simp_all add: serves_def)
    from turn_end [OF s2(2) quiet c(2,3,1), of sm1] obtain q' s' where
      s': "dispatch_queue_of M img weight p (sm, sy_node s) = Ok (q', sm1, sy_node s')" "sys_run M s1 s'" "good M hid s'"
        "thr s' = (thr s1)(c := thr s1 c - 1)" "\<exists>v \<in> {t, u}. sy_holds s' = (sy_holds s1)(t := None, u := None, v := q')"
      using q s1(1) s2(1) by (auto simp: dispatch_queue_of_def mq_get_def Let_def)
    have "turned M hid t u s q' s'" using s'(2-5) s1(2,4,5) unfolding turned_def by auto
    then show ?thesis using s'(1) by blast
  qed
qed

lemma taken_queue:
  assumes "node_globalmq_pop n = Ok (r, n')" "mq_heap (nd_world n') p = Some q"
  shows "\<exists>q0. mq_heap (nd_world n) p = Some q0 \<and> mq_handle q = mq_handle q0 \<and> mq_items q = mq_items q0"
  using assms by (auto simp: node_globalmq_pop_def skynet_globalmq_pop_def Let_def mq_set_def split: option.splits if_splits)

lemma taken_ready:
  assumes pop: "node_globalmq_pop n = Ok (r, n')" and n: "named_queues n" "answerable n"
  shows "named_queues n' \<and> answerable n'"
proof -
  have f: "nd_remote n' = nd_remote n" "nd_harbor n' = nd_harbor n" using pop by (auto simp: node_globalmq_pop_def)
  then have "remote_source n' = remote_source n" by (simp add: fun_eq_iff remote_source_def skynet_harbor_message_isremote_def)
  then show ?thesis using n taken_queue [OF pop] f unfolding named_queues_def answerable_def by metis
qed

text \<open>C6: A worker's turn returns and is a run of the protocol. In a reachable state in which \<open>REMOTE\<close>, if it is set, has a reference of its
  own, the name table is in order and \<open>HARBOR\<close> is set (\<open>healthy\<close>), no handle is registered again while a queue of its first owner is there
  (\<open>no_reuse\<close>), the queues have a handle that is not 0, the harbor service is known if a queued message has a remote source
  (\<open>answerable\<close>) and a context that has a callback but is not initialised is still in the hand of the thread that makes it (\<open>settled\<close>);
  for modules whose release functions leave the node alone and whose callbacks keep the contract \<open>cb_ok\<close> (they return, act by steps of the
  system, and give back the queues and the references they took, but for the one of \<open>REMOTE\<close>): \<open>skynet_context_message_dispatch\<close>,
  called with the queue the worker has in hand or with none, returns without a failed assertion, whatever the weight. What it did
  (take a queue, grab the owner, pop and dispatch messages up to its weight, drop and free the queue of a dead service, put
  the queue back or leave it, release the owner) is a sequence of steps of the concurrent system; the state it leaves is reachable
  and in order, the worker has exactly the returned queue in hand, and it has no reference more or less than before.\<close>

theorem dispatch_turn:
  assumes "sys_reachable M hid s" and "remote_ref s" and "healthy (sy_node s)"
    and "no_reuse (sy_node s)" and "named_queues (sy_node s)" and "answerable (sy_node s)" and "settled t s"
    and "quiet_release M" and "cb_ok M hid"
    and "sy_holds s t = q" and "sy_holds s u = None" and "t \<noteq> u"
  shows "\<exists>q' sm' s' v. skynet_context_message_dispatch M img q weight (sm, sy_node s) = Ok (q', sm', sy_node s') \<and>
    sys_run M s s' \<and> sys_reachable M hid s' \<and> remote_ref s' \<and> healthy (sy_node s') \<and>
    v \<in> {t, u} \<and> sy_holds s' = (sy_holds s)(t := None, u := None, v := q') \<and> thr s' = thr s"
proof -
  have g: "good M hid s" using assms(1-3) by (simp add: good_def)
  have "\<exists>q' sm' s'. skynet_context_message_dispatch M img q weight (sm, sy_node s) = Ok (q', sm', sy_node s') \<and> turned M hid t u s q' s'"
  proof (cases q)
    case (Some p)
    then show ?thesis using dispatch_queue_total [OF g assms(8,9), of t p u img weight sm] assms(4-7,10,11)
      by (simp add: skynet_context_message_dispatch_def)
  next
    case None
    then have t: "sy_holds s t = None" using assms(10) by simp
    obtain r w where pop: "node_globalmq_pop (sy_node s) = Ok (r, (sy_node s)\<lparr>nd_world := w\<rparr>)"
        "sys_run M s (s\<lparr>sy_node := (sy_node s)\<lparr>nd_world := w\<rparr>, sy_holds := (sy_holds s)(t := r)\<rparr>)"
      using globalmq_total [OF g assms(8) t] by blast
    let ?s1 = "s\<lparr>sy_node := (sy_node s)\<lparr>nd_world := w\<rparr>, sy_holds := (sy_holds s)(t := r)\<rparr>"
    note g1 = good_taken [OF g pop(2)]
    show ?thesis
    proof (cases r)
      case None
      then have "sy_holds ?s1 = (sy_holds s)(t := None, u := None, t := None)" using assms(11) by (auto simp: fun_eq_iff)
      then have "turned M hid t u s None ?s1" using pop(2) g1 unfolding turned_def thr_world by blast
      moreover have "skynet_context_message_dispatch M img q weight (sm, sy_node s) = Ok (None, sm, sy_node ?s1)"
        using pop(1) \<open>q = None\<close> None by (simp add: skynet_context_message_dispatch_def)
      ultimately show ?thesis by blast
    next
      case (Some p)
      have "settled t ?s1" using assms(7) by (fastforce simp: settled_def)
      moreover have "sy_holds ?s1 t = Some p" "sy_holds ?s1 u = None" using Some assms(11,12) by simp_all
      ultimately obtain q' sm' s' where s': "dispatch_queue_of M img weight p (sm, sy_node ?s1) = Ok (q', sm', sy_node s')" "turned M hid t u ?s1 q' s'"
        using dispatch_queue_total [OF g1 assms(8,9), of t p u img weight sm] taken_ready [OF pop(1) assms(5,6)] pop_no_reuse [OF pop(1) assms(4)] by auto
      have "(sy_holds ?s1)(t := None, u := None, v := q') = (sy_holds s)(t := None, u := None, v := q')" for v by (auto simp: fun_eq_iff)
      then have "turned M hid t u s q' s'" using s'(2) rtranclp_trans [OF pop(2)] unfolding turned_def thr_world by simp
      moreover have "skynet_context_message_dispatch M img q weight (sm, sy_node s) = Ok (q', sm', sy_node s')"
        using s'(1) pop(1) \<open>q = None\<close> Some by (simp add: skynet_context_message_dispatch_def)
      ultimately show ?thesis by blast
    qed
  qed
  then show ?thesis unfolding turned_def good_def by blast
qed

section \<open>A service that answers\<close>

definition echo_modules :: modules where
  "echo_modules = quiet_modules\<lparr>md_cb := (\<lambda>c ty se so d sz n.
     res_bind (cx_get n c) (\<lambda>x. skynet_context_push quiet_modules so
       \<lparr>msg_source = cx_handle x, msg_session = se, msg_data = d, msg_sz = sz OR push_bit MESSAGE_TYPE_SHIFT (of_int PTYPE_RESPONSE)\<rparr> n))\<rparr>"

lemma same_release_push:
  assumes "md_release M = md_release M'"
  shows "skynet_context_push M h m n = skynet_context_push M' h m n"
proof -
  have "delete_context M = delete_context M'" by (intro ext) (simp add: delete_context_def assms)
  then have "skynet_context_release M = skynet_context_release M'" by (intro ext) (simp only: skynet_context_release_def)
  then show ?thesis by (simp only: skynet_context_push_def)
qed

lemma echo_push: "skynet_context_push quiet_modules h m n = skynet_context_push echo_modules h m n"
  by (rule same_release_push) (simp add: echo_modules_def)

lemma echo_answer:
  "nd_ctx n c = Some x \<Longrightarrow> md_cb echo_modules c ty se so d sz n = skynet_context_push echo_modules so
     \<lparr>msg_source = cx_handle x, msg_session = se, msg_data = d, msg_sz = sz OR push_bit MESSAGE_TYPE_SHIFT (of_int PTYPE_RESPONSE)\<rparr> n"
  unfolding echo_push [symmetric] by (simp add: echo_modules_def cx_get_def)

lemma echo_quiet: "quiet_release echo_modules"
  by (simp add: quiet_release_def echo_modules_def quiet_modules_def)

lemma echo_cb: "cb_ok echo_modules hid"
  unfolding cb_ok_def
proof (intro allI impI)
  fix s c x ty se so d sz
  assume g: "good echo_modules hid s" and c: "0 < thr s c" and x: "nd_ctx (sy_node s) c = Some x" "cx_init x"
  let ?m = "\<lparr>msg_source = cx_handle x, msg_session = se, msg_data = d, msg_sz = sz OR push_bit MESSAGE_TYPE_SHIFT (of_int PTYPE_RESPONSE)\<rparr>"
  have reach: "sys_reachable echo_modules hid s" using g by (simp add: good_def)
  obtain r w where p: "skynet_context_push echo_modules so ?m (sy_node s) = Ok (r, (sy_node s)\<lparr>nd_world := w\<rparr>)"
    using push_total [OF reach echo_quiet, of so ?m] by blast
  have "runs echo_modules s ((sy_node s)\<lparr>nd_world := w\<rparr>)" by (rule push_runs [OF p])
  then have "eff echo_modules s (s\<lparr>sy_node := (sy_node s)\<lparr>nd_world := w\<rparr>\<rparr>)" by (rule world_eff)
  moreover have "md_cb echo_modules c ty se so d sz (sy_node s) = Ok (r, sy_node (s\<lparr>sy_node := (sy_node s)\<lparr>nd_world := w\<rparr>\<rparr>))"
    using p echo_answer [OF x(1)] by simp
  moreover have "healthy ((sy_node s)\<lparr>nd_world := w\<rparr>)" using g by (simp add: good_def healthy_def)
  ultimately show "\<exists>r s'. md_cb echo_modules c ty se so d sz (sy_node s) = Ok (r, sy_node s') \<and> eff echo_modules s s' \<and> healthy (sy_node s') \<and>
      (\<forall>y. nd_ctx (sy_node s') c = Some y \<longrightarrow> cx_init y)"
    using x by (intro exI [of _ r] exI [of _ "s\<lparr>sy_node := (sy_node s)\<lparr>nd_world := w\<rparr>\<rparr>"]) simp
qed

text \<open>Its context, initialised and with its callback, has sent a message to itself; the thread that made it still has the queue.\<close>

definition echo_message :: skynet_message where
  "echo_message = \<lparr>msg_source = 0x1000001, msg_session = 1, msg_data = Some [42], msg_sz = 1\<rparr>"

definition echo_ready :: node where
  "echo_ready = cx_set node_one 0 ((new_context ''gate'' False)\<lparr>cx_handle := 0x1000001, cx_queue := 1, cx_cb := True, cx_init := True\<rparr>)"

definition echo_queue :: message_queue where
  "echo_queue = (skynet_mq_create 0x1000001)\<lparr>mq_queue := (mq_queue (skynet_mq_create 0x1000001))[0 := Some echo_message], mq_tail := 1\<rparr>"

definition echo_sys :: sys where
  "echo_sys = sys_one\<lparr>sy_node := echo_ready\<lparr>nd_world := mq_set (nd_world node_one) 1 echo_queue\<rparr>\<rparr>"

lemma echo_store: "mq_store echo_message (skynet_mq_create 0x1000001) = Ok echo_queue"
  by (simp add: mq_store_def skynet_mq_create_def echo_queue_def DEFAULT_QUEUE_SIZE_def Let_def)

lemma echo_sent: "skynet_mq_push 1 echo_message (nd_world echo_ready) = Ok (mq_set (nd_world node_one) 1 echo_queue)"
proof -
  have w: "nd_world echo_ready = nd_world node_one" by (simp add: echo_ready_def cx_set_def)
  have q: "mq_heap (nd_world node_one) 1 = Some (skynet_mq_create 0x1000001)" by (simp add: node_one_fields mq_set_def)
  have "mq_in_global echo_queue = MQ_IN_GLOBAL" by (simp add: echo_queue_def skynet_mq_create_def)
  then show ?thesis unfolding skynet_mq_push_def w mq_get_def q by (simp add: echo_store MQ_IN_GLOBAL_def)
qed

lemma echo_reachable: "sys_reachable M 1 echo_sys"
proof -
  let ?s1 = "sys_one\<lparr>sy_node := echo_ready\<rparr>"
  have "sys_step M sys_one ?s1" unfolding echo_ready_def
    using sys_step.edit [of sys_one 0 "(new_context ''gate'' False)\<lparr>cx_handle := 0x1000001, cx_queue := 1\<rparr>" _ M]
    by (simp add: sys_one_def node_one_fields same_life_def)
  then have r1: "sys_reachable M 1 ?s1" using sys_one_reachable sys_reachable.step by blast
  have x: "nd_ctx echo_ready 0 = Some ((new_context ''gate'' False)\<lparr>cx_handle := 0x1000001, cx_queue := 1, cx_cb := True, cx_init := True\<rparr>)"
    by (simp add: echo_ready_def cx_set_def)
  have "on_world (skynet_mq_push 1 echo_message) echo_ready = Ok (echo_ready\<lparr>nd_world := mq_set (nd_world node_one) 1 echo_queue\<rparr>)"
    using echo_sent unfolding on_world_def by simp
  then have "sys_step M ?s1 echo_sys"
    using sys_step.send [of ?s1 0 _ echo_message _ M] x by (simp add: echo_sys_def sys_one_def)
  then show ?thesis using r1 sys_reachable.step by blast
qed

lemma echo_fields:
  "nd_ctx (sy_node echo_sys) = [0 \<mapsto> (new_context ''gate'' False)\<lparr>cx_handle := 0x1000001, cx_queue := 1, cx_cb := True, cx_init := True\<rparr>]"
  "mq_heap (nd_world (sy_node echo_sys)) = [1 \<mapsto> echo_queue]" "nd_remote (sy_node echo_sys) = None" "nd_harbor (sy_node echo_sys) = 0x1000000"
  "nd_handles (sy_node echo_sys) = nd_handles node_one" "sy_holds echo_sys = [0 \<mapsto> 1]" "mq_handle echo_queue = 0x1000001"
  by (simp_all add: echo_sys_def sys_one_def echo_ready_def cx_set_def node_one_fields node_one_remote mq_set_def skynet_mq_init_def
      echo_queue_def skynet_mq_create_def)

lemma echo_pending: "mq_items echo_queue = [echo_message]"
proof -
  obtain q where "mq_store echo_message (skynet_mq_create 0x1000001) = Ok q" "mq_items q = [echo_message]"
    using mq_store_ok [OF mq_inv_create, of echo_message "0x1000001"] by auto
  then show ?thesis using echo_store by simp
qed

theorem dispatch_turn_witness:
  "pending (nd_world (sy_node echo_sys)) 1 = Some [echo_message] \<and>
   (\<exists>q' sm' s' v. skynet_context_message_dispatch echo_modules (\<lambda>_. []) (Some 1) 0 (skynet_monitor_new, sy_node echo_sys) = Ok (q', sm', sy_node s') \<and>
      sys_run echo_modules echo_sys s' \<and> sys_reachable echo_modules 1 s' \<and>
      v \<in> {0, 1} \<and> sy_holds s' = (\<lambda>_. None)(v := q') \<and> thr s' = thr echo_sys)"
proof -
  have "remote_ref echo_sys" by (simp add: remote_ref_def echo_fields)
  moreover have "healthy (sy_node echo_sys)"
    using init_inv(2) [of 1] by (simp add: names_inv_def names_of_def healthy_def echo_fields node_one_fields)
  moreover have "no_reuse (sy_node echo_sys)" "named_queues (sy_node echo_sys)" "answerable (sy_node echo_sys)" "settled 0 echo_sys"
    by (auto simp: no_reuse_def named_queues_def answerable_def settled_def echo_fields echo_pending echo_message_def remote_source_def
        skynet_harbor_message_isremote_def HANDLE_MASK_def split: if_splits)
  ultimately have "\<exists>q' sm' s' v. skynet_context_message_dispatch echo_modules (\<lambda>_. []) (Some 1) 0 (skynet_monitor_new, sy_node echo_sys) =
        Ok (q', sm', sy_node s') \<and> sys_run echo_modules echo_sys s' \<and> sys_reachable echo_modules 1 s' \<and> remote_ref s' \<and> healthy (sy_node s') \<and>
      v \<in> {0, 1} \<and> sy_holds s' = (sy_holds echo_sys)(0 := None, 1 := None, v := q') \<and> thr s' = thr echo_sys"
    by (intro dispatch_turn echo_reachable echo_quiet echo_cb) (simp_all add: echo_fields)
  moreover have "(sy_holds echo_sys)(0 := None, 1 := None, v := q') = (\<lambda>_. None)(v := q')" for v q' by (auto simp: echo_fields fun_eq_iff)
  ultimately show ?thesis by (auto simp: pending_def echo_fields echo_pending)
qed

end
