(* ===== verification/Skynet_Start.thy ===== *)
theory Skynet_Start
  imports Skynet_Dispatch
begin

text \<open>
  The threads of a node, \<open>skynet-src/skynet_start.c\<close>: the workers, which sleep on a condition variable when there is nothing to dispatch,
  the timer thread, which wakes one of them at every tick and all of them at the end, the socket thread and the monitor thread. A step of
  a thread is a region between two operations on the mutex or the condition variable, or a call of another component, of which only the
  result matters here. A waiting thread may also wake up without a signal, as POSIX allows.

  The theorems: a worker that sleeps is woken by the next tick, and once the timer thread has ended no worker is left asleep, so that
  all of them come to their end.
\<close>

section \<open>State\<close>

record monitor =
  mo_count :: int
  mo_sleep :: int
  mo_quit :: bool

text \<open>Where a worker is: at the test of its loop, in the dispatch, before the lock, in the locked region before the wait, in the wait, on the way
  out of it, in the locked region behind the wait, or at its end.\<close>

datatype worker_pc = Wk_test | Wk_dispatch | Wk_lock | Wk_locked | Wk_wait | Wk_woken | Wk_awake | Wk_done

datatype timer_pc = Tm_update | Tm_wakeup | Tm_usleep | Tm_exit | Tm_lock | Tm_locked | Tm_unlock | Tm_done

datatype socket_pc = So_poll | So_wakeup | So_done

datatype monitor_pc = Mo_check | Mo_sleep | Mo_done

datatype thread = Worker nat | Timer | Socket | Monitor | Process

record start_state =
  st_mon :: monitor
  st_mutex :: "thread option"
  st_worker :: "nat \<Rightarrow> worker_pc"
  st_timer :: timer_pc
  st_socket :: socket_pc
  st_monitor :: monitor_pc
  st_total :: int
  st_exit :: bool
  st_sig :: bool

section \<open>Steps\<close>

text \<open>\<open>wakeup\<close> signals the condition variable if enough workers sleep; it reads the counter without the lock.\<close>

definition wakeup :: "monitor \<Rightarrow> int \<Rightarrow> bool" where
  "wakeup m busy = (mo_sleep m \<ge> mo_count m - busy)"

text \<open>A signal wakes one of the threads that wait, if there is one.\<close>

inductive cond_signal :: "(nat \<Rightarrow> worker_pc) \<Rightarrow> (nat \<Rightarrow> worker_pc) \<Rightarrow> bool" where
  one: "ws i = Wk_wait \<Longrightarrow> cond_signal ws (ws(i := Wk_woken))"
| none: "\<forall>i. ws i \<noteq> Wk_wait \<Longrightarrow> cond_signal ws ws"

definition cond_broadcast :: "(nat \<Rightarrow> worker_pc) \<Rightarrow> nat \<Rightarrow> worker_pc" where
  "cond_broadcast ws = (\<lambda>i. if ws i = Wk_wait then Wk_woken else ws i)"

inductive wakes :: "int \<Rightarrow> start_state \<Rightarrow> start_state \<Rightarrow> bool" where
  signal: "wakeup (st_mon s) busy \<Longrightarrow> cond_signal (st_worker s) ws \<Longrightarrow> wakes busy s (s\<lparr>st_worker := ws\<rparr>)"
| no_signal: "\<not> wakeup (st_mon s) busy \<Longrightarrow> wakes busy s s"

definition set_worker :: "nat \<Rightarrow> worker_pc \<Rightarrow> start_state \<Rightarrow> start_state" where
  "set_worker i pc s = s\<lparr>st_worker := (st_worker s)(i := pc)\<rparr>"

definition add_sleep :: "int \<Rightarrow> start_state \<Rightarrow> start_state" where
  "add_sleep k s = s\<lparr>st_mon := (st_mon s)\<lparr>mo_sleep := mo_sleep (st_mon s) + k\<rparr>\<rparr>"

definition set_mutex :: "thread option \<Rightarrow> start_state \<Rightarrow> start_state" where
  "set_mutex t s = s\<lparr>st_mutex := t\<rparr>"

text \<open>\<open>thread_worker\<close>: the dispatch may change the number of services.\<close>

inductive worker_step :: "nat \<Rightarrow> start_state \<Rightarrow> start_state \<Rightarrow> bool" where
  quit: "st_worker s i = Wk_test \<Longrightarrow> mo_quit (st_mon s) \<Longrightarrow> worker_step i s (set_worker i Wk_done s)"
| loop: "st_worker s i = Wk_test \<Longrightarrow> \<not> mo_quit (st_mon s) \<Longrightarrow> worker_step i s (set_worker i Wk_dispatch s)"
| queue: "st_worker s i = Wk_dispatch \<Longrightarrow> worker_step i s (set_worker i Wk_test (s\<lparr>st_total := n\<rparr>))"
| no_queue: "st_worker s i = Wk_dispatch \<Longrightarrow> worker_step i s (set_worker i Wk_lock (s\<lparr>st_total := n\<rparr>))"
| lock: "st_worker s i = Wk_lock \<Longrightarrow> st_mutex s = None \<Longrightarrow> worker_step i s (set_worker i Wk_locked (add_sleep 1 (set_mutex (Some (Worker i)) s)))"
| quit_seen: "st_worker s i = Wk_locked \<Longrightarrow> mo_quit (st_mon s) \<Longrightarrow> worker_step i s (set_worker i Wk_awake s)"
| wait: "st_worker s i = Wk_locked \<Longrightarrow> \<not> mo_quit (st_mon s) \<Longrightarrow> worker_step i s (set_worker i Wk_wait (set_mutex None s))"
| spurious: "st_worker s i = Wk_wait \<Longrightarrow> worker_step i s (set_worker i Wk_woken s)"
| relock: "st_worker s i = Wk_woken \<Longrightarrow> st_mutex s = None \<Longrightarrow> worker_step i s (set_worker i Wk_awake (set_mutex (Some (Worker i)) s))"
| unlock: "st_worker s i = Wk_awake \<Longrightarrow> worker_step i s (set_worker i Wk_test (add_sleep (-1) (set_mutex None s)))"

text \<open>\<open>thread_timer\<close>.\<close>

inductive timer_step :: "start_state \<Rightarrow> start_state \<Rightarrow> bool" where
  t_abort: "st_timer s = Tm_update \<Longrightarrow> st_total s = 0 \<Longrightarrow> timer_step s (s\<lparr>st_timer := Tm_exit\<rparr>)"
| t_update: "st_timer s = Tm_update \<Longrightarrow> st_total s \<noteq> 0 \<Longrightarrow> timer_step s (s\<lparr>st_timer := Tm_wakeup\<rparr>)"
| t_wakeup: "st_timer s = Tm_wakeup \<Longrightarrow> wakes (mo_count (st_mon s) - 1) s s1 \<Longrightarrow> timer_step s (s1\<lparr>st_timer := Tm_usleep\<rparr>)"
| t_hup: "st_timer s = Tm_usleep \<Longrightarrow> timer_step s (s\<lparr>st_timer := Tm_update, st_sig := False\<rparr>)"
| t_exit: "st_timer s = Tm_exit \<Longrightarrow> timer_step s (s\<lparr>st_timer := Tm_lock, st_exit := True\<rparr>)"
| t_lock: "st_timer s = Tm_lock \<Longrightarrow> st_mutex s = None \<Longrightarrow> timer_step s ((set_mutex (Some Timer) s)\<lparr>st_timer := Tm_locked\<rparr>)"
| t_quit: "st_timer s = Tm_locked \<Longrightarrow>
    timer_step s (s\<lparr>st_timer := Tm_unlock, st_mon := (st_mon s)\<lparr>mo_quit := True\<rparr>, st_worker := cond_broadcast (st_worker s)\<rparr>)"
| t_unlock: "st_timer s = Tm_unlock \<Longrightarrow> timer_step s ((set_mutex None s)\<lparr>st_timer := Tm_done\<rparr>)"

text \<open>\<open>thread_socket\<close>: \<open>skynet_socket_poll\<close> returns 0 only after \<open>skynet_socket_exit\<close>.\<close>

inductive socket_step :: "start_state \<Rightarrow> start_state \<Rightarrow> bool" where
  s_exit: "st_socket s = So_poll \<Longrightarrow> st_exit s \<Longrightarrow> socket_step s (s\<lparr>st_socket := So_done\<rparr>)"
| s_abort: "st_socket s = So_poll \<Longrightarrow> st_total s = 0 \<Longrightarrow> socket_step s (s\<lparr>st_socket := So_done\<rparr>)"
| s_more: "st_socket s = So_poll \<Longrightarrow> st_total s \<noteq> 0 \<Longrightarrow> socket_step s s"
| s_event: "st_socket s = So_poll \<Longrightarrow> socket_step s (s\<lparr>st_socket := So_wakeup\<rparr>)"
| s_wakeup: "st_socket s = So_wakeup \<Longrightarrow> wakes 0 s s1 \<Longrightarrow> socket_step s (s1\<lparr>st_socket := So_poll\<rparr>)"

text \<open>\<open>thread_monitor\<close>.\<close>

inductive monitor_step :: "start_state \<Rightarrow> start_state \<Rightarrow> bool" where
  m_abort: "st_monitor s = Mo_check \<Longrightarrow> st_total s = 0 \<Longrightarrow> monitor_step s (s\<lparr>st_monitor := Mo_done\<rparr>)"
| m_check: "st_monitor s = Mo_check \<Longrightarrow> st_total s \<noteq> 0 \<Longrightarrow> monitor_step s (s\<lparr>st_monitor := Mo_sleep\<rparr>)"
| m_sleep: "st_monitor s = Mo_sleep \<Longrightarrow> monitor_step s (s\<lparr>st_monitor := Mo_check\<rparr>)"

text \<open>The threads together; \<open>handle_hup\<close> runs at any time.\<close>

inductive start_step :: "thread \<Rightarrow> start_state \<Rightarrow> start_state \<Rightarrow> bool" where
  worker: "int i < mo_count (st_mon s) \<Longrightarrow> worker_step i s s1 \<Longrightarrow> start_step (Worker i) s s1"
| timer: "timer_step s s1 \<Longrightarrow> start_step Timer s s1"
| socket: "socket_step s s1 \<Longrightarrow> start_step Socket s s1"
| monitor: "monitor_step s s1 \<Longrightarrow> start_step Monitor s s1"
| hup: "start_step Process s (s\<lparr>st_sig := True\<rparr>)"

text \<open>\<open>start\<close>: the threads are created with the counters cleared.\<close>

definition start :: "nat \<Rightarrow> int \<Rightarrow> start_state" where
  "start n k = \<lparr>st_mon = \<lparr>mo_count = int n, mo_sleep = 0, mo_quit = False\<rparr>, st_mutex = None, st_worker = (\<lambda>_. Wk_test),
     st_timer = Tm_update, st_socket = So_poll, st_monitor = Mo_check, st_total = k, st_exit = False, st_sig = False\<rparr>"

text \<open>The weight of a worker.\<close>

definition worker_weight :: "nat \<Rightarrow> int" where
  "worker_weight i = (let weight = [-1, -1, -1, -1, 0, 0, 0, 0, 1, 1, 1, 1, 1, 1, 1, 1, 2, 2, 2, 2, 2, 2, 2, 2, 3, 3, 3, 3, 3, 3, 3, 3] in
     if i < length weight then weight ! i else 0)"

inductive start_reachable :: "start_state \<Rightarrow> bool" where
  init: "start_reachable (start n k)"
| step: "start_reachable s \<Longrightarrow> start_step t s s1 \<Longrightarrow> start_reachable s1"

text \<open>\<open>signal_hup\<close>: the message that makes the logger reopen its file.\<close>

definition signal_hup :: "modules \<Rightarrow> node \<Rightarrow> node res" where
  "signal_hup M n =
     res_bind (skynet_handle_findname (nd_handles n) ''logger'') (\<lambda>logger.
       if logger \<noteq> 0 then
         res_bind (skynet_context_push M logger \<lparr>msg_source = 0, msg_session = 0, msg_data = None, msg_sz = push_bit MESSAGE_TYPE_SHIFT (of_int PTYPE_SYSTEM)\<rparr> n)
           (\<lambda>(_, n1). Ok n1)
       else Ok n)"

section \<open>Invariant\<close>

definition asleep :: "worker_pc \<Rightarrow> bool" where
  "asleep pc = (pc = Wk_locked \<or> pc = Wk_wait \<or> pc = Wk_woken \<or> pc = Wk_awake)"

definition owns :: "worker_pc \<Rightarrow> bool" where
  "owns pc = (pc = Wk_locked \<or> pc = Wk_awake)"

definition sum_workers :: "(worker_pc \<Rightarrow> int) \<Rightarrow> nat \<Rightarrow> (nat \<Rightarrow> worker_pc) \<Rightarrow> int" where
  "sum_workers f n ws = (\<Sum>i<n. f (ws i))"

lemma sum_workers_update: "k < n \<Longrightarrow> sum_workers f n (ws(k := x)) = sum_workers f n ws + f x - f (ws k)"
proof -
  assume k: "k < n"
  have "sum_workers f n (ws(k := x)) = f x + (\<Sum>i\<in>{..<n} - {k}. f (ws i))"
    unfolding sum_workers_def using k by (simp add: sum.remove [of _ k])
  moreover have "sum_workers f n ws = f (ws k) + (\<Sum>i\<in>{..<n} - {k}. f (ws i))"
    unfolding sum_workers_def using k by (simp add: sum.remove [of _ k])
  ultimately show ?thesis by simp
qed

definition start_inv :: "nat \<Rightarrow> start_state \<Rightarrow> bool" where
  "start_inv n s = (mo_count (st_mon s) = int n \<and> mo_sleep (st_mon s) = sum_workers (\<lambda>pc. of_bool (asleep pc)) n (st_worker s) \<and>
     (\<forall>i. owns (st_worker s i) \<longleftrightarrow> st_mutex s = Some (Worker i)) \<and>
     (st_mutex s = Some Timer \<longleftrightarrow> st_timer s = Tm_locked \<or> st_timer s = Tm_unlock) \<and>
     st_mutex s \<noteq> Some Socket \<and> st_mutex s \<noteq> Some Monitor \<and> st_mutex s \<noteq> Some Process \<and>
     (mo_quit (st_mon s) \<longleftrightarrow> st_timer s = Tm_unlock \<or> st_timer s = Tm_done) \<and>
     (mo_quit (st_mon s) \<longrightarrow> (\<forall>i. st_worker s i \<noteq> Wk_wait)) \<and> (\<forall>i\<ge>n. st_worker s i = Wk_test))"

lemma start_inv_id:
  assumes "start_inv n s" "st_worker s i \<noteq> Wk_test"
  shows "i < n"
proof (rule ccontr)
  assume "\<not> i < n"
  then have "st_worker s i = Wk_test" using assms(1) by (simp add: start_inv_def)
  then show False using assms(2) by simp
qed

lemma start_inv_init: "start_inv n (start n k)"
  by (simp add: start_inv_def start_def sum_workers_def asleep_def owns_def)

text \<open>A worker changes its place in the program and nothing else.\<close>

lemma start_inv_worker:
  assumes inv: "start_inv n s" and i: "i < n"
    and mon: "mo_count (st_mon s1) = int n" "mo_quit (st_mon s1) = mo_quit (st_mon s)" "st_timer s1 = st_timer s"
    and ws: "st_worker s1 = (st_worker s)(i := pc)"
    and sleep: "mo_sleep (st_mon s1) = mo_sleep (st_mon s) + of_bool (asleep pc) - of_bool (asleep (st_worker s i))"
    and mutex: "owns pc = (st_mutex s1 = Some (Worker i))"
      "st_mutex s1 = st_mutex s \<or> st_mutex s = None \<and> st_mutex s1 = Some (Worker i) \<or> st_mutex s = Some (Worker i) \<and> st_mutex s1 = None"
    and wait: "pc = Wk_wait \<Longrightarrow> \<not> mo_quit (st_mon s)"
  shows "start_inv n s1"
proof -
  have "mo_sleep (st_mon s1) = sum_workers (\<lambda>pc. of_bool (asleep pc)) n (st_worker s1)"
    using inv i by (simp add: start_inv_def ws sleep sum_workers_update)
  moreover have "\<forall>j. owns (st_worker s1 j) \<longleftrightarrow> st_mutex s1 = Some (Worker j)"
    using inv mutex ws by (auto simp: start_inv_def)
  ultimately show ?thesis using inv mon mutex ws wait i by (auto simp: start_inv_def)
qed

lemma start_inv_move:
  assumes inv: "start_inv n s" and i: "i < n" and old: "st_worker s i = old" and o: "\<not> owns old" "\<not> owns pc" and a: "asleep old = asleep pc" and w: "pc \<noteq> Wk_wait"
  shows "start_inv n (set_worker i pc s)"
proof -
  have "st_mutex s \<noteq> Some (Worker i)" using inv old o(1) by (auto simp: start_inv_def)
  then show ?thesis using inv i old o a w
    by (intro start_inv_worker [OF inv i, of _ pc]) (simp_all add: set_worker_def start_inv_def)
qed

lemma start_inv_total [simp]: "start_inv n (s\<lparr>st_total := k\<rparr>) = start_inv n s"
  by (simp add: start_inv_def)

lemma start_inv_worker_step:
  assumes inv: "start_inv n s" and i: "i < n" and st: "worker_step i s s1"
  shows "start_inv n s1"
  using st
proof cases
  case lock
  then show ?thesis using inv i
    by (intro start_inv_worker [OF inv i, of s1 Wk_locked]) (simp_all add: set_worker_def add_sleep_def set_mutex_def asleep_def owns_def start_inv_def)
next
  case relock
  then show ?thesis using inv i
    by (intro start_inv_worker [OF inv i, of s1 Wk_awake]) (simp_all add: set_worker_def add_sleep_def set_mutex_def asleep_def owns_def start_inv_def)
next
  case wait
  then have "st_mutex s = Some (Worker i)" using inv by (auto simp: start_inv_def owns_def)
  then show ?thesis using inv i wait
    by (intro start_inv_worker [OF inv i, of s1 Wk_wait]) (simp_all add: set_worker_def add_sleep_def set_mutex_def asleep_def owns_def start_inv_def)
next
  case unlock
  then have "st_mutex s = Some (Worker i)" using inv by (auto simp: start_inv_def owns_def)
  then show ?thesis using inv i unlock
    by (intro start_inv_worker [OF inv i, of s1 Wk_test]) (simp_all add: set_worker_def add_sleep_def set_mutex_def asleep_def owns_def start_inv_def)
next
  case quit_seen
  then have "st_mutex s = Some (Worker i)" using inv by (auto simp: start_inv_def owns_def)
  then show ?thesis using inv i quit_seen
    by (intro start_inv_worker [OF inv i, of s1 Wk_awake]) (simp_all add: set_worker_def add_sleep_def set_mutex_def asleep_def owns_def start_inv_def)
qed (use inv i in \<open>simp_all add: start_inv_move owns_def asleep_def\<close>)

lemma start_inv_wakes:
  assumes inv: "start_inv n s" and w: "wakes busy s s1"
  shows "start_inv n s1"
  using w
proof cases
  case (signal ws)
  from signal(3) show ?thesis
  proof cases
    case (one i)
    then have "i < n" using start_inv_id [OF inv, of i] by simp
    then show ?thesis using start_inv_move [OF inv, of i Wk_wait Wk_woken] one signal(1) by (simp add: owns_def asleep_def set_worker_def)
  next
    case none
    then show ?thesis using inv signal(1) by simp
  qed
qed (use inv in simp)

lemma broadcast_asleep: "sum_workers (\<lambda>pc. of_bool (asleep pc)) n (cond_broadcast ws) = sum_workers (\<lambda>pc. of_bool (asleep pc)) n ws"
  unfolding sum_workers_def by (intro sum.cong) (auto simp: cond_broadcast_def asleep_def)

lemma start_inv_timer_step:
  assumes inv: "start_inv n s" and st: "timer_step s s1"
  shows "start_inv n s1"
  using st
proof cases
  case (t_wakeup s2)
  have "start_inv n s2" by (rule start_inv_wakes [OF inv t_wakeup(3)])
  moreover have "st_timer s2 = Tm_wakeup" using t_wakeup(3,2) by cases simp_all
  ultimately show ?thesis using t_wakeup(1) by (simp add: start_inv_def)
next
  case t_quit
  have "owns (cond_broadcast (st_worker s) i) = owns (st_worker s i)" for i by (simp add: cond_broadcast_def owns_def)
  moreover have "cond_broadcast (st_worker s) i \<noteq> Wk_wait" for i by (simp add: cond_broadcast_def)
  ultimately show ?thesis using inv t_quit by (simp add: start_inv_def broadcast_asleep) (simp add: cond_broadcast_def)
qed (use inv in \<open>auto simp: start_inv_def set_mutex_def\<close>)

lemma start_inv_step:
  assumes inv: "start_inv n s" and st: "start_step t s s1"
  shows "start_inv n s1"
  using st
proof cases
  case (worker i)
  then show ?thesis using inv start_inv_worker_step [OF inv] by (simp add: start_inv_def)
next
  case timer
  then show ?thesis using start_inv_timer_step [OF inv] by simp
next
  case socket
  from this(2) show ?thesis
  proof cases
    case (s_wakeup s2)
    then show ?thesis using start_inv_wakes [OF inv s_wakeup(3)] by (simp add: start_inv_def)
  qed (use inv in \<open>simp_all add: start_inv_def\<close>)
next
  case monitor
  from this(2) show ?thesis by cases (use inv in \<open>simp_all add: start_inv_def\<close>)
next
  case hup
  then show ?thesis using inv by (simp add: start_inv_def)
qed

lemma start_reachable_inv: "start_reachable s \<Longrightarrow> start_inv (nat (mo_count (st_mon s))) s"
proof (induction rule: start_reachable.induct)
  case (init n k)
  then show ?case using start_inv_init [of n k] by (simp add: start_def)
next
  case (step s t s1)
  have "start_inv (nat (mo_count (st_mon s))) s1" by (rule start_inv_step [OF step.IH step.hyps(2)])
  then show ?case by (simp add: start_inv_def)
qed

section \<open>Ticks and the end\<close>

text \<open>The steps a worker still has before its end, once the end is known.\<close>

fun rank :: "worker_pc \<Rightarrow> int" where
  "rank Wk_done = 0"
| "rank Wk_test = 1"
| "rank Wk_awake = 2"
| "rank Wk_locked = 3"
| "rank Wk_woken = 3"
| "rank Wk_lock = 4"
| "rank Wk_dispatch = 5"
| "rank Wk_wait = 6"

definition steps_left :: "start_state \<Rightarrow> int" where
  "steps_left s = sum_workers rank (nat (mo_count (st_mon s))) (st_worker s)"

lemma worker_step_rank:
  assumes "worker_step i s s1" "mo_quit (st_mon s)" "st_worker s i \<noteq> Wk_wait"
  shows "st_worker s1 = (st_worker s)(i := st_worker s1 i) \<and> rank (st_worker s1 i) < rank (st_worker s i) \<and> mo_count (st_mon s1) = mo_count (st_mon s) \<and> st_timer s1 = st_timer s"
  using assms by cases (simp_all add: set_worker_def add_sleep_def set_mutex_def)

lemma wakes_none: "wakes busy s s1 \<Longrightarrow> \<forall>i. st_worker s i \<noteq> Wk_wait \<Longrightarrow> s1 = s"
  by (auto elim!: wakes.cases cond_signal.cases)

lemma start_step_left:
  assumes q: "mo_quit (st_mon s)" and w: "\<forall>i. st_worker s i \<noteq> Wk_wait" and tm: "st_timer s = Tm_done" and st: "start_step t s s1"
  shows "st_timer s1 = Tm_done \<and> (if t \<in> range Worker then steps_left s1 < steps_left s else steps_left s1 = steps_left s)"
  using st
proof cases
  case (worker i)
  define pc where "pc = st_worker s1 i"
  have "st_worker s1 = (st_worker s)(i := pc)" "rank pc < rank (st_worker s i)" "mo_count (st_mon s1) = mo_count (st_mon s)" "st_timer s1 = st_timer s"
    using worker_step_rank [OF worker(3) q] w by (simp_all add: pc_def)
  moreover have "i < nat (mo_count (st_mon s))" using worker(2) by simp
  ultimately show ?thesis using worker(1) tm by (simp add: steps_left_def sum_workers_update)
next
  case timer
  from this(2) show ?thesis by cases (use tm in simp_all)
next
  case socket
  from this(2) show ?thesis
  proof cases
    case (s_wakeup s2)
    then show ?thesis using wakes_none [OF s_wakeup(3) w] socket(1) tm by (auto simp: steps_left_def)
  qed (use socket(1) tm in \<open>auto simp: steps_left_def\<close>)
next
  case monitor
  from this(2) show ?thesis by cases (use monitor(1) tm in \<open>auto simp: steps_left_def\<close>)
next
  case hup
  then show ?thesis using tm by (auto simp: steps_left_def)
qed

text \<open>No deadlock: the worker that holds the mutex can go on, and without one every worker can.\<close>

lemma worker_can_step:
  assumes inv: "start_inv n s" and q: "mo_quit (st_mon s)" and tm: "st_timer s = Tm_done" and i: "i < n" "st_worker s i \<noteq> Wk_done"
  shows "\<exists>j<n. \<exists>s1. worker_step j s s1"
proof (cases "st_mutex s")
  case None
  have "st_worker s i \<noteq> Wk_locked" "st_worker s i \<noteq> Wk_awake" "st_worker s i \<noteq> Wk_wait" using inv q None by (auto simp: start_inv_def owns_def)
  then consider "st_worker s i = Wk_test" | "st_worker s i = Wk_dispatch" | "st_worker s i = Wk_lock" | "st_worker s i = Wk_woken"
    using i(2) by (cases "st_worker s i") simp_all
  then have "\<exists>s1. worker_step i s s1"
    by cases (use q None worker_step.quit worker_step.queue worker_step.lock worker_step.relock in blast)+
  then show ?thesis using i(1) by blast
next
  case (Some th)
  then obtain j where j: "th = Worker j" using inv tm by (cases th) (auto simp: start_inv_def)
  then have o: "owns (st_worker s j)" using inv Some by (auto simp: start_inv_def)
  then have "j < n" using start_inv_id [OF inv, of j] by (auto simp: owns_def)
  moreover have "\<exists>s1. worker_step j s s1" using o q worker_step.quit_seen worker_step.unlock unfolding owns_def by blast
  ultimately show ?thesis by blast
qed

text \<open>C8: the end of a node. Once the timer thread has ended, no worker waits on the condition variable, whatever the interleaving was: the flag is set
  and the broadcast made under the mutex, and a worker looks at the flag under the mutex before it waits. From then on every step of a worker
  brings the workers closer to their end, no step of another thread takes them away from it, and as long as a worker has not ended
  some worker can make a step, so \<open>pthread_join\<close> returns for all of them.\<close>

theorem workers_end:
  assumes "start_reachable s" and "st_timer s = Tm_done"
  shows "(\<forall>i. st_worker s i \<noteq> Wk_wait) \<and>
    (\<forall>t s1. start_step t s s1 \<longrightarrow> st_timer s1 = Tm_done \<and> (if t \<in> range Worker then steps_left s1 < steps_left s else steps_left s1 = steps_left s)) \<and>
    ((\<exists>i. int i < mo_count (st_mon s) \<and> st_worker s i \<noteq> Wk_done) \<longrightarrow> (\<exists>j s1. start_step (Worker j) s s1))"
proof -
  have inv: "start_inv (nat (mo_count (st_mon s))) s" by (rule start_reachable_inv [OF assms(1)])
  then have q: "mo_quit (st_mon s)" and w: "\<forall>i. st_worker s i \<noteq> Wk_wait" using assms(2) by (simp_all add: start_inv_def)
  have "\<exists>j s1. start_step (Worker j) s s1" if "int i < mo_count (st_mon s)" "st_worker s i \<noteq> Wk_done" for i
    using worker_can_step [OF inv q assms(2), of i] that start_step.worker by (metis zless_nat_eq_int_zless)
  then show ?thesis using w start_step_left [OF q w assms(2)] by blast
qed

text \<open>C9: the wake-up at a tick. The counter of sleeping workers is exact, so at every tick of the timer thread at which a worker waits, a
  worker that waits is woken, also for a message that was pushed after the worker had looked for one and before it slept, when \<open>wakeup\<close>
  did not signal.\<close>

theorem tick_wakes:
  assumes "start_reachable s" and "st_timer s = Tm_wakeup" and "st_worker s i = Wk_wait" and "start_step Timer s s1"
  shows "mo_sleep (st_mon s) = (\<Sum>k<nat (mo_count (st_mon s)). of_bool (asleep (st_worker s k))) \<and>
    (\<exists>j. st_worker s j = Wk_wait \<and> st_worker s1 j = Wk_woken)"
proof -
  let ?n = "nat (mo_count (st_mon s))"
  have inv: "start_inv ?n s" by (rule start_reachable_inv [OF assms(1)])
  have sl: "mo_sleep (st_mon s) = (\<Sum>k<?n. of_bool (asleep (st_worker s k)))" using inv by (simp add: start_inv_def sum_workers_def)
  have i: "i < ?n" using start_inv_id [OF inv, of i] assms(3) by simp
  have "1 \<le> (\<Sum>k<?n. of_bool (asleep (st_worker s k)) :: int)"
    using member_le_sum [of i "{..<?n}" "\<lambda>k. of_bool (asleep (st_worker s k)) :: int"] i assms(3) by (simp add: asleep_def)
  then have "wakeup (st_mon s) (mo_count (st_mon s) - 1)" using sl by (simp add: wakeup_def)
  moreover obtain s2 where "wakes (mo_count (st_mon s) - 1) s s2" "s1 = s2\<lparr>st_timer := Tm_usleep\<rparr>"
    using assms(2,4) by (auto elim!: start_step.cases timer_step.cases)
  ultimately obtain ws where "cond_signal (st_worker s) ws" "st_worker s1 = ws" by (auto elim!: wakes.cases)
  then show ?thesis using sl assms(3) by (auto elim!: cond_signal.cases)
qed

section \<open>A run\<close>

text \<open>A node with one worker, which has gone to sleep.\<close>

definition sleeping_node :: "int \<Rightarrow> start_state" where
  "sleeping_node k = set_worker 0 Wk_wait (add_sleep 1 ((start 1 k)\<lparr>st_total := k\<rparr>))"

lemma worker_run: "start_reachable s \<Longrightarrow> worker_step i s s1 \<Longrightarrow> int i < mo_count (st_mon s) \<Longrightarrow> start_reachable s1"
  by (rule start_reachable.step [OF _ start_step.worker])

lemma sleeping_reachable: "start_reachable (sleeping_node k)"
proof -
  define s1 where "s1 = set_worker 0 Wk_dispatch (start 1 k)"
  define s2 where "s2 = set_worker 0 Wk_lock (s1\<lparr>st_total := k\<rparr>)"
  define s3 where "s3 = set_worker 0 Wk_locked (add_sleep 1 (set_mutex (Some (Worker 0)) s2))"
  note d = s1_def s2_def s3_def set_worker_def add_sleep_def set_mutex_def start_def
  have 1: "start_reachable s1" unfolding s1_def by (rule worker_run [OF start_reachable.init worker_step.loop]) (simp_all add: start_def)
  have 2: "start_reachable s2" unfolding s2_def by (rule worker_run [OF 1 worker_step.no_queue]) (simp_all add: d)
  have 3: "start_reachable s3" unfolding s3_def by (rule worker_run [OF 2 worker_step.lock]) (simp_all add: d)
  have 4: "start_reachable (set_worker 0 Wk_wait (set_mutex None s3))" by (rule worker_run [OF 3 worker_step.wait]) (simp_all add: d)
  have "set_worker 0 Wk_wait (set_mutex None s3) = sleeping_node k" by (simp add: d sleeping_node_def)
  then show ?thesis using 4 by simp
qed

lemmas timer_run = start_reachable.step [OF _ start_step.timer]

theorem workers_end_witness:
  "\<exists>s. start_reachable s \<and> st_timer s = Tm_done \<and> st_worker s 0 = Wk_woken \<and> (\<exists>j s1. start_step (Worker j) s s1)"
proof -
  define s1 where "s1 = (sleeping_node 0)\<lparr>st_timer := Tm_exit\<rparr>"
  define s2 where "s2 = s1\<lparr>st_timer := Tm_lock, st_exit := True\<rparr>"
  define s3 where "s3 = (set_mutex (Some Timer) s2)\<lparr>st_timer := Tm_locked\<rparr>"
  define s4 where "s4 = s3\<lparr>st_timer := Tm_unlock, st_mon := (st_mon s3)\<lparr>mo_quit := True\<rparr>, st_worker := cond_broadcast (st_worker s3)\<rparr>"
  define s5 where "s5 = (set_mutex None s4)\<lparr>st_timer := Tm_done\<rparr>"
  note d = s1_def s2_def s3_def s4_def s5_def sleeping_node_def set_worker_def add_sleep_def set_mutex_def start_def
  have 1: "start_reachable s1" unfolding s1_def by (rule timer_run [OF sleeping_reachable timer_step.t_abort]) (simp_all add: d)
  have 2: "start_reachable s2" unfolding s2_def by (rule timer_run [OF 1 timer_step.t_exit]) (simp add: d)
  have 3: "start_reachable s3" unfolding s3_def by (rule timer_run [OF 2 timer_step.t_lock]) (simp_all add: d)
  have 4: "start_reachable s4" unfolding s4_def by (rule timer_run [OF 3 timer_step.t_quit]) (simp add: d)
  have 5: "start_reachable s5" unfolding s5_def by (rule timer_run [OF 4 timer_step.t_unlock]) (simp add: d)
  have w: "st_worker s5 0 = Wk_woken" "mo_count (st_mon s5) = 1" by (simp_all add: d cond_broadcast_def)
  have "st_timer s5 = Tm_done" by (simp add: s5_def)
  moreover have "\<exists>i. int i < mo_count (st_mon s5) \<and> st_worker s5 i \<noteq> Wk_done" using w by (intro exI [of _ 0]) simp
  ultimately have "\<exists>j s1. start_step (Worker j) s5 s1" using workers_end [OF 5] by blast
  then show ?thesis using 5 w \<open>st_timer s5 = Tm_done\<close> by blast
qed

theorem tick_wakes_witness:
  "\<exists>s s1. start_reachable s \<and> start_step Timer s s1 \<and> st_timer s = Tm_wakeup \<and> (\<exists>j. st_worker s j = Wk_wait \<and> st_worker s1 j = Wk_woken)"
proof -
  define s where "s = (sleeping_node 3)\<lparr>st_timer := Tm_wakeup\<rparr>"
  define s1 where "s1 = (s\<lparr>st_worker := (st_worker s)(0 := Wk_woken)\<rparr>)\<lparr>st_timer := Tm_usleep\<rparr>"
  note d = s_def sleeping_node_def set_worker_def add_sleep_def start_def
  have r: "start_reachable s" unfolding s_def by (rule timer_run [OF sleeping_reachable timer_step.t_update]) (simp_all add: d)
  have w: "st_worker s 0 = Wk_wait" "st_timer s = Tm_wakeup" by (simp_all add: d)
  have "wakes (mo_count (st_mon s) - 1) s (s\<lparr>st_worker := (st_worker s)(0 := Wk_woken)\<rparr>)"
    using w(1) by (intro wakes.signal cond_signal.one) (simp_all add: wakeup_def d)
  then have st: "start_step Timer s s1" unfolding s1_def using w(2) by (intro start_step.timer timer_step.t_wakeup)
  then show ?thesis using tick_wakes [OF r w(2) w(1) st] r w(2) by blast
qed

end
