(* ===== verification/Skynet_Socket.thy ===== *)
theory Skynet_Socket
  imports Skynet_Prelude
begin

text \<open>
  The socket server, \<open>skynet-src/socket_server.c\<close>: one thread owns the sockets and waits for events; the other threads send it
  requests through a pipe, or write to a socket directly when nothing is queued for it.

  The kernel is a part of the state: \<open>ss_os\<close> holds, for every kind of system call, the results of the calls to come, in order
  (an empty list: the call would block), and \<open>ss_out\<close> records what was asked of it. The requests in the pipe are
  values of a datatype; the pipe carries their memory image, which never leaves the process. The lock \<open>dw_lock\<close> is the
  atomicity of the regions it protects; whether a \<open>trylock\<close> succeeds is a result to come. A chain of write buffers is a list,
  whose end is what \<open>tail\<close> points to. An id is the 32 bits of an \<open>int\<close>. Buffers and requests are freed where the list or option
  that held them is emptied.
\<close>

section \<open>Data\<close>

definition MAX_SOCKET :: nat where "MAX_SOCKET = 2 ^ 16"
definition MIN_READ_BUFFER :: int where "MIN_READ_BUFFER = 64"
definition WARNING_SIZE :: int where "WARNING_SIZE = 1024 * 1024"

datatype sock_type = ST_INVALID | ST_RESERVE | ST_PLISTEN | ST_LISTEN | ST_CONNECTING | ST_CONNECTED | ST_HALFCLOSE | ST_PACCEPT | ST_BIND

datatype protocol = PROTOCOL_TCP | PROTOCOL_UDP | PROTOCOL_UDPv6 | PROTOCOL_UNKNOWN

fun protocol_code :: "protocol \<Rightarrow> byte" where
  "protocol_code PROTOCOL_TCP = 0"
| "protocol_code PROTOCOL_UDP = 1"
| "protocol_code PROTOCOL_UDPv6 = 2"
| "protocol_code PROTOCOL_UNKNOWN = 255"

text \<open>What is sent: a block of memory, or a user object (size -1) whose bytes \<open>soi.buffer\<close> and \<open>soi.size\<close> give; the flag tells
  that \<open>soi.buffer\<close> returns the object itself.\<close>

datatype sobj = Raw "byte list" | User bool "byte list"

fun so_bytes :: "sobj \<Rightarrow> byte list" where
  "so_bytes (Raw bs) = bs"
| "so_bytes (User _ bs) = bs"

text \<open>\<open>wbuf_ptr\<close> is the offset of \<open>ptr\<close> from the first byte of the data. A buffer allocated with \<open>SIZEOF_TCPBUFFER\<close> bytes has no
  \<open>udp_address\<close> (\<open>None\<close>).\<close>

record write_buffer =
  wbuf_obj :: sobj
  wbuf_ptr :: nat
  wbuf_sz :: nat
  wbuf_addr :: "byte list option"

definition wbuf_data :: "write_buffer \<Rightarrow> byte list" where
  "wbuf_data b = take (wbuf_sz b) (drop (wbuf_ptr b) (so_bytes (wbuf_obj b)))"

record socket_stat =
  st_rtime :: u64
  st_wtime :: u64
  st_read :: u64
  st_write :: u64

text \<open>\<open>sk_dw\<close> is \<open>dw_buffer\<close> (with \<open>dw_size\<close>) and \<open>dw_offset\<close>; \<open>sk_size\<close> and \<open>sk_udp_address\<close> are the members of the union \<open>p\<close>, the
  first for TCP, the second for UDP.\<close>

record socket =
  sk_opaque :: u64
  sk_high :: "write_buffer list"
  sk_low :: "write_buffer list"
  sk_wb_size :: int
  sk_stat :: socket_stat
  sk_sending :: u32
  sk_fd :: int
  sk_id :: u32
  sk_protocol :: protocol
  sk_type :: sock_type
  sk_udpconnecting :: u16
  sk_warn_size :: int
  sk_size :: int
  sk_udp_address :: "byte list"
  sk_dw :: "(sobj \<times> nat) option"

text \<open>Results of system calls: a number of bytes, or an error.\<close>

datatype wres = W nat | W_intr | W_again | W_fail
datatype rres = R "byte list" | R_intr | R_again | R_fail string

text \<open>A socket address: port and address in network order.\<close>

record sockaddr =
  sa_v6 :: bool
  sa_port :: "byte list"
  sa_addr :: "byte list"

text \<open>The attempt to connect to one resolved address: no socket; a socket whose \<open>connect\<close> fails, is done at once, or goes on.\<close>

datatype attempt = A_nosocket | A_refused int | A_done int "string option" | A_progress int

datatype accepted = Acc_limit string | Acc_fail | Acc int "string option"

text \<open>\<open>do_bind\<close>: no address, no socket, a socket that can not be bound, or a bound socket and whether it is IPv6.\<close>

datatype bound = B_none | B_fail int | B_fd int bool

text \<open>One event of the poll: the slot (none: the pipe) and the flags.\<close>

record event =
  ev_slot :: "nat option"
  ev_read :: bool
  ev_write :: bool
  ev_error :: bool
  ev_eof :: bool

record os =
  os_add :: "bool list"
  os_write :: "wres list"
  os_read :: "rres list"
  os_udp :: "(rres \<times> sockaddr) list"
  os_lock :: "bool list"
  os_resolve :: "(string + attempt list) list"
  os_sockerr :: "string option list"
  os_name :: "string option list"
  os_accept :: "accepted list"
  os_wait :: "event list option list"
  os_bind :: "bound list"
  os_listen :: "bool list"
  os_socket :: "int option list"
  os_peer :: "sockaddr option option list"
  os_errno :: string

text \<open>What is asked of the kernel.\<close>

datatype sys_out =
    O_write int "byte list"
  | O_sendto int sockaddr "byte list"
  | O_add int nat
  | O_del int
  | O_arm int bool
  | O_close int
  | O_setopt int int int

text \<open>The requests in the pipe.\<close>

datatype request =
    Req_start u32 u64
  | Req_bind u32 int u64
  | Req_listen u32 int u64
  | Req_close u32 bool u64
  | Req_open u32 int u64 string
  | Req_exit
  | Req_send u32 sobj
  | Req_send_low u32 sobj
  | Req_send_udp u32 sobj "byte list"
  | Req_setudp u32 "byte list"
  | Req_setopt u32 int int
  | Req_udp u32 int bool u64

record socket_server =
  ss_time :: u64
  ss_checkctrl :: bool
  ss_alloc_id :: u32
  ss_events :: "event list"
  ss_event_index :: nat
  ss_slot :: "nat \<Rightarrow> socket"
  ss_pipe :: "request list"
  ss_os :: os
  ss_out :: "sys_out list"

text \<open>What the poll returns.\<close>

datatype sret = SOCKET_DATA | SOCKET_CLOSE | SOCKET_OPEN | SOCKET_ACCEPT | SOCKET_ERR | SOCKET_EXIT | SOCKET_UDP | SOCKET_WARNING

datatype sdata = D_null | D_text string | D_bytes "byte list"

record socket_message =
  sr_id :: u32
  sr_opaque :: u64
  sr_ud :: int
  sr_data :: sdata

type_synonym reply = "(sret \<times> socket_message) option"

definition HASH_ID :: "u32 \<Rightarrow> nat" where
  "HASH_ID i = unat i mod MAX_SOCKET"

definition ID_TAG16 :: "u32 \<Rightarrow> u32" where
  "ID_TAG16 i = drop_bit 16 i AND 0xffff"

text \<open>Access to the state.\<close>

definition set_sock :: "nat \<Rightarrow> socket \<Rightarrow> socket_server \<Rightarrow> socket_server" where
  "set_sock k s ss = ss\<lparr>ss_slot := (ss_slot ss)(k := s)\<rparr>"

definition emit :: "sys_out \<Rightarrow> socket_server \<Rightarrow> socket_server" where
  "emit e ss = ss\<lparr>ss_out := ss_out ss @ [e]\<rparr>"

definition set_type :: "nat \<Rightarrow> sock_type \<Rightarrow> socket_server \<Rightarrow> socket_server" where
  "set_type k t ss = set_sock k ((ss_slot ss k)\<lparr>sk_type := t\<rparr>) ss"

text \<open>The next result of a kind of call.\<close>

definition sp_add :: "int \<Rightarrow> nat \<Rightarrow> socket_server \<Rightarrow> bool \<times> socket_server" where
  "sp_add fd k ss =
     (let os = ss_os ss; e = emit (O_add fd k) in
      case os_add os of [] \<Rightarrow> (False, e ss) | b # r \<Rightarrow> (b, e (ss\<lparr>ss_os := os\<lparr>os_add := r\<rparr>\<rparr>)))"

definition take_write :: "socket_server \<Rightarrow> wres \<times> socket_server" where
  "take_write ss =
     (case os_write (ss_os ss) of [] \<Rightarrow> (W_again, ss) | r # rs \<Rightarrow> (r, ss\<lparr>ss_os := (ss_os ss)\<lparr>os_write := rs\<rparr>\<rparr>))"

definition take_lock :: "socket_server \<Rightarrow> bool \<times> socket_server" where
  "take_lock ss =
     (case os_lock (ss_os ss) of [] \<Rightarrow> (True, ss) | b # r \<Rightarrow> (b, ss\<lparr>ss_os := (ss_os ss)\<lparr>os_lock := r\<rparr>\<rparr>))"

section \<open>Allocation of ids\<close>

text \<open>The loop of \<open>reserve_id\<close>; nobody else takes the slot between the test and the compare-and-swap.\<close>

fun reserve_loop :: "nat \<Rightarrow> socket_server \<Rightarrow> u32 option \<times> socket_server" where
  "reserve_loop 0 ss = (None, ss)"
| "reserve_loop (Suc n) ss =
     (let inc = ss_alloc_id ss + 1;
          i = (if sint inc < 0 then inc AND 0x7fffffff else inc);
          ss1 = ss\<lparr>ss_alloc_id := i\<rparr>;
          s = ss_slot ss (HASH_ID i) in
      if sk_type s = ST_INVALID then
        (Some i, set_sock (HASH_ID i) (s\<lparr>sk_type := ST_RESERVE, sk_id := i, sk_protocol := PROTOCOL_UNKNOWN, sk_udpconnecting := 0, sk_fd := -1\<rparr>) ss1)
      else reserve_loop n ss1)"

definition reserve_id :: "socket_server \<Rightarrow> u32 option \<times> socket_server" where
  "reserve_id ss = reserve_loop MAX_SOCKET ss"

text \<open>\<open>junk\<close> is what the memory of the slots holds before it is written.\<close>

definition socket_server_create :: "socket \<Rightarrow> os \<Rightarrow> u64 \<Rightarrow> socket_server" where
  "socket_server_create junk os time =
     \<lparr>ss_time = time, ss_checkctrl = True, ss_alloc_id = 0, ss_events = [], ss_event_index = 0,
      ss_slot = (\<lambda>_. junk\<lparr>sk_type := ST_INVALID, sk_high := [], sk_low := []\<rparr>), ss_pipe = [], ss_os = os, ss_out = []\<rparr>"

definition socket_server_updatetime :: "u64 \<Rightarrow> socket_server \<Rightarrow> socket_server" where
  "socket_server_updatetime time ss = ss\<lparr>ss_time := time\<rparr>"

definition closed_message :: "socket \<Rightarrow> socket_message" where
  "closed_message s = \<lparr>sr_id = sk_id s, sr_opaque = sk_opaque s, sr_ud = 0, sr_data = D_null\<rparr>"

definition force_close :: "nat \<Rightarrow> socket_server \<Rightarrow> (socket_message \<times> socket_server) res" where
  "force_close k ss =
     (let s = ss_slot ss k in
      if sk_type s = ST_INVALID then Ok (closed_message s, ss)
      else
        res_bind (res_assert (sk_type s \<noteq> ST_RESERVE)) (\<lambda>_.
        let ss1 = (if sk_type s \<noteq> ST_PACCEPT \<and> sk_type s \<noteq> ST_PLISTEN then emit (O_del (sk_fd s)) ss else ss);
            ss2 = (if sk_type s \<noteq> ST_BIND then emit (O_close (sk_fd s)) ss1 else ss1) in
        Ok (closed_message s, set_sock k (s\<lparr>sk_high := [], sk_low := [], sk_type := ST_INVALID, sk_dw := None\<rparr>) ss2)))"

fun release_slots :: "nat \<Rightarrow> nat \<Rightarrow> socket_server \<Rightarrow> socket_server res" where
  "release_slots 0 k ss = Ok ss"
| "release_slots (Suc n) k ss =
     res_bind (if sk_type (ss_slot ss k) \<noteq> ST_RESERVE then res_bind (force_close k ss) (\<lambda>(_, ss1). Ok ss1) else Ok ss)
       (release_slots n (Suc k))"

definition socket_server_release :: "socket_server \<Rightarrow> socket_server res" where
  "socket_server_release ss = release_slots MAX_SOCKET 0 ss"

text \<open>\<open>new_fd\<close>: the slot of a reserved id gets its file descriptor. The result is false when the poll refuses it.\<close>

definition new_fd :: "u32 \<Rightarrow> int \<Rightarrow> protocol \<Rightarrow> u64 \<Rightarrow> bool \<Rightarrow> socket_server \<Rightarrow> (bool \<times> socket_server) res" where
  "new_fd i fd protocol opaque add ss =
     (let k = HASH_ID i in
      res_bind (res_assert (sk_type (ss_slot ss k) = ST_RESERVE)) (\<lambda>_.
      let (failed, ss1) = (if add then sp_add fd k ss else (False, ss)) in
      if failed then Ok (False, set_type k ST_INVALID ss1)
      else
        let s = ss_slot ss1 k in
        res_bind (res_assert (sk_high s = [] \<and> sk_low s = [])) (\<lambda>_.
        Ok (True, set_sock k (s\<lparr>sk_id := i, sk_fd := fd, sk_sending := push_bit 16 (ID_TAG16 i), sk_protocol := protocol,
          sk_size := MIN_READ_BUFFER, sk_opaque := opaque, sk_wb_size := 0, sk_warn_size := 0, sk_dw := None,
          sk_stat := \<lparr>st_rtime = 0, st_wtime = 0, st_read = 0, st_write = 0\<rparr>\<rparr>) ss1))))"

definition stat_read :: "u64 \<Rightarrow> nat \<Rightarrow> socket \<Rightarrow> socket" where
  "stat_read time n s = s\<lparr>sk_stat := (sk_stat s)\<lparr>st_read := st_read (sk_stat s) + of_nat n, st_rtime := time\<rparr>\<rparr>"

definition stat_write :: "u64 \<Rightarrow> nat \<Rightarrow> socket \<Rightarrow> socket" where
  "stat_write time n s = s\<lparr>sk_stat := (sk_stat s)\<lparr>st_write := st_write (sk_stat s) + of_nat n, st_wtime := time\<rparr>\<rparr>"


section \<open>Connecting\<close>

text \<open>The addresses are tried in order; a socket whose \<open>connect\<close> fails is closed. The result has the descriptor, whether the
  connection is there, and the text of its address.\<close>

fun try_connect :: "attempt list \<Rightarrow> socket_server \<Rightarrow> (int \<times> bool \<times> string option) option \<times> socket_server" where
  "try_connect [] ss = (None, ss)"
| "try_connect (A_nosocket # r) ss = try_connect r ss"
| "try_connect (A_refused fd # r) ss = try_connect r (emit (O_close fd) ss)"
| "try_connect (A_done fd nm # r) ss = (Some (fd, True, nm), ss)"
| "try_connect (A_progress fd # r) ss = (Some (fd, False, None), ss)"

definition take_resolve :: "socket_server \<Rightarrow> (string + attempt list) \<times> socket_server" where
  "take_resolve ss =
     (case os_resolve (ss_os ss) of [] \<Rightarrow> (Inr [], ss) | r # rs \<Rightarrow> (r, ss\<lparr>ss_os := (ss_os ss)\<lparr>os_resolve := rs\<rparr>\<rparr>))"

definition socket_err :: "u32 \<Rightarrow> u64 \<Rightarrow> string \<Rightarrow> reply" where
  "socket_err i opaque t = Some (SOCKET_ERR, \<lparr>sr_id = i, sr_opaque = opaque, sr_ud = 0, sr_data = D_text t\<rparr>)"

definition name_data :: "string option \<Rightarrow> sdata" where
  "name_data nm = (case nm of None \<Rightarrow> D_null | Some t \<Rightarrow> D_text t)"

definition open_socket :: "u32 \<Rightarrow> u64 \<Rightarrow> socket_server \<Rightarrow> (reply \<times> socket_server) res" where
  "open_socket i opaque ss =
     (let k = HASH_ID i; fail = (\<lambda>t ss. Ok (socket_err i opaque t, set_type k ST_INVALID ss)) in
      case take_resolve ss of (ai, ss1) \<Rightarrow>
      case ai of
        Inl t \<Rightarrow> fail t ss1
      | Inr tries \<Rightarrow>
          (case try_connect tries ss1 of
             (None, ss2) \<Rightarrow> fail (os_errno (ss_os ss2)) ss2
           | (Some (fd, now, nm), ss2) \<Rightarrow>
               res_bind (new_fd i fd PROTOCOL_TCP opaque True ss2) (\<lambda>(ok, ss3).
               if \<not> ok then fail ''reach skynet socket number limit'' (emit (O_close fd) ss3)
               else if now then
                 Ok (Some (SOCKET_OPEN, \<lparr>sr_id = i, sr_opaque = opaque, sr_ud = 0, sr_data = name_data nm\<rparr>), set_type k ST_CONNECTED ss3)
               else Ok (None, emit (O_arm fd True) (set_type k ST_CONNECTING ss3)))))"

section \<open>Sending what is queued\<close>

text \<open>The loop of \<open>send_list_tcp\<close>: the flag is false when \<open>write\<close> failed. \<open>write\<close> takes at most what it is given.\<close>

fun tcp_loop :: "u64 \<Rightarrow> wres list \<Rightarrow> write_buffer list \<Rightarrow> socket \<Rightarrow> byte list list \<Rightarrow>
    bool \<times> wres list \<times> write_buffer list \<times> socket \<times> byte list list" where
  "tcp_loop time ws [] s outs = (True, ws, [], s, outs)"
| "tcp_loop time [] (b # bs) s outs = (True, [], b # bs, s, outs)"
| "tcp_loop time (r # ws) (b # bs) s outs =
     (case r of
        W_intr \<Rightarrow> tcp_loop time ws (b # bs) s outs
      | W_again \<Rightarrow> (True, ws, b # bs, s, outs)
      | W_fail \<Rightarrow> (False, ws, b # bs, s, outs)
      | W m \<Rightarrow>
          let n = min m (wbuf_sz b);
              s1 = (stat_write time n s)\<lparr>sk_wb_size := sk_wb_size s - int n\<rparr>;
              outs1 = outs @ [take n (wbuf_data b)] in
          if n \<noteq> wbuf_sz b then (True, ws, b\<lparr>wbuf_ptr := wbuf_ptr b + n, wbuf_sz := wbuf_sz b - n\<rparr> # bs, s1, outs1)
          else tcp_loop time ws bs s1 outs1)"

definition sock_list :: "bool \<Rightarrow> socket \<Rightarrow> write_buffer list" where
  "sock_list high s = (if high then sk_high s else sk_low s)"

definition set_list :: "bool \<Rightarrow> write_buffer list \<Rightarrow> socket \<Rightarrow> socket" where
  "set_list high l s = (if high then s\<lparr>sk_high := l\<rparr> else s\<lparr>sk_low := l\<rparr>)"

definition send_list_tcp :: "nat \<Rightarrow> bool \<Rightarrow> socket_server \<Rightarrow> (reply \<times> socket_server) res" where
  "send_list_tcp k high ss =
     (let s = ss_slot ss k in
      case tcp_loop (ss_time ss) (os_write (ss_os ss)) (sock_list high s) s [] of (ok, ws, l, s1, outs) \<Rightarrow>
      let ss1 = (set_sock k (set_list high l s1) ss)\<lparr>ss_os := (ss_os ss)\<lparr>os_write := ws\<rparr>, ss_out := ss_out ss @ map (O_write (sk_fd s)) outs\<rparr> in
      if ok then Ok (None, ss1)
      else res_bind (force_close k ss1) (\<lambda>(m, ss2). Ok (Some (SOCKET_CLOSE, m), ss2)))"

definition udp_socket_address :: "protocol \<Rightarrow> byte list \<Rightarrow> sockaddr option" where
  "udp_socket_address protocol address =
     (if take 1 address \<noteq> [protocol_code protocol] then None
      else case protocol of
        PROTOCOL_UDP \<Rightarrow> Some \<lparr>sa_v6 = False, sa_port = take 2 (drop 1 address), sa_addr = take 4 (drop 3 address)\<rparr>
      | PROTOCOL_UDPv6 \<Rightarrow> Some \<lparr>sa_v6 = True, sa_port = take 2 (drop 1 address), sa_addr = take 16 (drop 3 address)\<rparr>
      | _ \<Rightarrow> None)"

text \<open>The loop of \<open>send_list_udp\<close>, with \<open>drop_udp\<close>.\<close>

fun udp_loop :: "u64 \<Rightarrow> wres list \<Rightarrow> write_buffer list \<Rightarrow> socket \<Rightarrow> sys_out list \<Rightarrow>
    (wres list \<times> write_buffer list \<times> socket \<times> sys_out list) res" where
  "udp_loop time ws [] s outs = Ok (ws, [], s, outs)"
| "udp_loop time ws (b # bs) s outs =
     (case wbuf_addr b of
        None \<Rightarrow> Err Out_of_bounds
      | Some address \<Rightarrow>
          let dropped = s\<lparr>sk_wb_size := sk_wb_size s - int (wbuf_sz b)\<rparr> in
          (case udp_socket_address (sk_protocol s) address of
             None \<Rightarrow> Ok (ws, bs, dropped, outs)
           | Some sa \<Rightarrow>
               (case ws of
                  [] \<Rightarrow> Ok ([], b # bs, s, outs)
                | r # rs \<Rightarrow>
                    (case r of
                       W_intr \<Rightarrow> Ok (rs, b # bs, s, outs)
                     | W_again \<Rightarrow> Ok (rs, b # bs, s, outs)
                     | W_fail \<Rightarrow> Ok (rs, bs, dropped, outs)
                     | W n \<Rightarrow> udp_loop time rs bs ((stat_write time (wbuf_sz b) dropped)) (outs @ [O_sendto (sk_fd s) sa (wbuf_data b)])))))"

definition send_list_udp :: "nat \<Rightarrow> bool \<Rightarrow> socket_server \<Rightarrow> (reply \<times> socket_server) res" where
  "send_list_udp k high ss =
     (let s = ss_slot ss k in
      res_bind (udp_loop (ss_time ss) (os_write (ss_os ss)) (sock_list high s) s []) (\<lambda>(ws, l, s1, outs).
      Ok (None, (set_sock k (set_list high l s1) ss)\<lparr>ss_os := (ss_os ss)\<lparr>os_write := ws\<rparr>, ss_out := ss_out ss @ outs\<rparr>)))"

definition send_list :: "nat \<Rightarrow> bool \<Rightarrow> socket_server \<Rightarrow> (reply \<times> socket_server) res" where
  "send_list k high ss =
     (if sk_protocol (ss_slot ss k) = PROTOCOL_TCP then send_list_tcp k high ss else send_list_udp k high ss)"

text \<open>\<open>wb->ptr != wb->buffer\<close>: for a user object \<open>ptr\<close> starts at what \<open>soi.buffer\<close> returns.\<close>

definition list_uncomplete :: "write_buffer list \<Rightarrow> bool" where
  "list_uncomplete l =
     (case l of
        [] \<Rightarrow> False
      | b # _ \<Rightarrow> (case wbuf_obj b of Raw _ \<Rightarrow> wbuf_ptr b \<noteq> 0 | User same _ \<Rightarrow> \<not> same \<or> wbuf_ptr b \<noteq> 0))"

definition raise_uncomplete :: "socket \<Rightarrow> socket res" where
  "raise_uncomplete s =
     (case sk_low s of
        [] \<Rightarrow> Err Null_deref
      | b # bs \<Rightarrow> res_bind (res_assert (sk_high s = [])) (\<lambda>_. Ok (s\<lparr>sk_low := bs, sk_high := [b]\<rparr>)))"

definition send_buffer_empty :: "socket \<Rightarrow> bool" where
  "send_buffer_empty s \<longleftrightarrow> sk_high s = [] \<and> sk_low s = []"

text \<open>The end of \<open>send_buffer_\<close>, when both lists are empty.\<close>

definition send_done :: "nat \<Rightarrow> socket_server \<Rightarrow> (reply \<times> socket_server) res" where
  "send_done k ss =
     (let s = ss_slot ss k in
      res_bind (res_assert (send_buffer_empty s \<and> sk_wb_size s = 0)) (\<lambda>_.
      let ss1 = emit (O_arm (sk_fd s) False) ss in
      if sk_type s = ST_HALFCLOSE then res_bind (force_close k ss1) (\<lambda>(m, ss2). Ok (Some (SOCKET_CLOSE, m), ss2))
      else if sk_warn_size s > 0 then
        Ok (Some (SOCKET_WARNING, closed_message s), set_sock k (s\<lparr>sk_warn_size := 0\<rparr>) ss1)
      else Ok (None, ss1)))"

definition send_buffer1 :: "nat \<Rightarrow> socket_server \<Rightarrow> (reply \<times> socket_server) res" where
  "send_buffer1 k ss =
     res_bind (res_assert (\<not> list_uncomplete (sk_low (ss_slot ss k)))) (\<lambda>_.
     res_bind (send_list k True ss) (\<lambda>(r, ss1).
     if r \<noteq> None then Ok (r, ss1)
     else if sk_high (ss_slot ss1 k) \<noteq> [] then Ok (None, ss1)
     else if sk_low (ss_slot ss1 k) \<noteq> [] then
       res_bind (send_list k False ss1) (\<lambda>(r2, ss2).
       if r2 \<noteq> None then Ok (r2, ss2)
       else if list_uncomplete (sk_low (ss_slot ss2 k)) then
         res_bind (raise_uncomplete (ss_slot ss2 k)) (\<lambda>s. Ok (None, set_sock k s ss2))
       else if sk_low (ss_slot ss2 k) \<noteq> [] then Ok (None, ss2)
       else send_done k ss2)
     else send_done k ss1))"

text \<open>The rest of a direct write goes before the high list.\<close>

definition add_direct :: "socket \<Rightarrow> socket" where
  "add_direct s =
     (case sk_dw s of
        None \<Rightarrow> s
      | Some (b, off) \<Rightarrow>
          let buf = \<lparr>wbuf_obj = b, wbuf_ptr = off, wbuf_sz = length (so_bytes b) - off, wbuf_addr = None\<rparr> in
          s\<lparr>sk_wb_size := sk_wb_size s + int (wbuf_sz buf), sk_high := buf # sk_high s, sk_dw := None\<rparr>)"

definition send_buffer :: "nat \<Rightarrow> socket_server \<Rightarrow> (reply \<times> socket_server) res" where
  "send_buffer k ss =
     (case take_lock ss of (got, ss1) \<Rightarrow>
      if \<not> got then Ok (None, ss1) else send_buffer1 k (set_sock k (add_direct (ss_slot ss1 k)) ss1))"

section \<open>Queueing\<close>

definition new_buffer :: "sobj \<Rightarrow> byte list option \<Rightarrow> write_buffer" where
  "new_buffer b address = \<lparr>wbuf_obj = b, wbuf_ptr = 0, wbuf_sz = length (so_bytes b), wbuf_addr = address\<rparr>"

definition append_sendbuffer1 :: "bool \<Rightarrow> sobj \<Rightarrow> byte list option \<Rightarrow> socket \<Rightarrow> socket" where
  "append_sendbuffer1 high b address s =
     (set_list high (sock_list high s @ [new_buffer b address]) s)\<lparr>sk_wb_size := sk_wb_size s + int (length (so_bytes b))\<rparr>"

definition append_sendbuffer_udp :: "bool \<Rightarrow> sobj \<Rightarrow> byte list \<Rightarrow> socket \<Rightarrow> socket" where
  "append_sendbuffer_udp high b address s = append_sendbuffer1 high b (Some address) s"

definition append_sendbuffer :: "sobj \<Rightarrow> socket \<Rightarrow> socket" where
  "append_sendbuffer b s = append_sendbuffer1 True b None s"

definition append_sendbuffer_low :: "sobj \<Rightarrow> socket \<Rightarrow> socket" where
  "append_sendbuffer_low b s = append_sendbuffer1 False b None s"

text \<open>The report of a long queue at the end of \<open>send_socket\<close>.\<close>

definition check_warning :: "nat \<Rightarrow> socket_server \<Rightarrow> reply \<times> socket_server" where
  "check_warning k ss =
     (let s = ss_slot ss k in
      if sk_wb_size s \<ge> WARNING_SIZE \<and> sk_wb_size s \<ge> sk_warn_size s then
        (Some (SOCKET_WARNING, \<lparr>sr_id = sk_id s, sr_opaque = sk_opaque s,
            sr_ud = (if sk_wb_size s mod 1024 = 0 then sk_wb_size s div 1024 else sk_wb_size s div 1024 + 1), sr_data = D_null\<rparr>),
         set_sock k (s\<lparr>sk_warn_size := (if sk_warn_size s = 0 then WARNING_SIZE * 2 else sk_warn_size s * 2)\<rparr>) ss)
      else (None, ss))"

text \<open>\<open>address\<close> is the argument \<open>udp_address\<close>, \<open>high\<close> the priority.\<close>

definition send_socket :: "u32 \<Rightarrow> sobj \<Rightarrow> bool \<Rightarrow> byte list option \<Rightarrow> socket_server \<Rightarrow> reply \<times> socket_server" where
  "send_socket i b high address ss =
     (let k = HASH_ID i; s = ss_slot ss k in
      if sk_type s = ST_INVALID \<or> sk_id s \<noteq> i \<or> sk_type s = ST_HALFCLOSE \<or> sk_type s = ST_PACCEPT then (None, ss)
      else if sk_type s = ST_PLISTEN \<or> sk_type s = ST_LISTEN then (None, ss)
      else
        let to = (case address of None \<Rightarrow> sk_udp_address s | Some a \<Rightarrow> a) in
        if send_buffer_empty s \<and> sk_type s = ST_CONNECTED then
          if sk_protocol s = PROTOCOL_TCP then
            check_warning k (emit (O_arm (sk_fd s) True) (set_sock k (append_sendbuffer b s) ss))
          else
            (case udp_socket_address (sk_protocol s) to of
               None \<Rightarrow> (None, ss)
             | Some sa \<Rightarrow>
                 (case take_write ss of (r, ss1) \<Rightarrow>
                    if r = W (length (so_bytes b)) then
                      (None, emit (O_sendto (sk_fd s) sa (so_bytes b)) (set_sock k (stat_write (ss_time ss1) (length (so_bytes b)) s) ss1))
                    else
                      check_warning k (emit (O_arm (sk_fd s) True) (set_sock k (append_sendbuffer_udp high b to s) ss1))))
        else
          let s1 = (if sk_protocol s = PROTOCOL_TCP then (if high then append_sendbuffer b s else append_sendbuffer_low b s)
                    else append_sendbuffer_udp high b to s) in
          check_warning k (set_sock k s1 ss))"

section \<open>Requests\<close>

definition listen_socket :: "u32 \<Rightarrow> int \<Rightarrow> u64 \<Rightarrow> socket_server \<Rightarrow> (reply \<times> socket_server) res" where
  "listen_socket i fd opaque ss =
     res_bind (new_fd i fd PROTOCOL_TCP opaque False ss) (\<lambda>(ok, ss1).
     if ok then Ok (None, set_type (HASH_ID i) ST_PLISTEN ss1)
     else Ok (socket_err i opaque ''reach skynet socket number limit'', set_type (HASH_ID i) ST_INVALID (emit (O_close fd) ss1)))"

definition nomore_sending_data :: "socket \<Rightarrow> bool" where
  "nomore_sending_data s \<longleftrightarrow> send_buffer_empty s \<and> sk_dw s = None \<and> sk_sending s AND 0xffff = 0"

definition close_socket :: "u32 \<Rightarrow> bool \<Rightarrow> u64 \<Rightarrow> socket_server \<Rightarrow> (reply \<times> socket_server) res" where
  "close_socket i shut opaque ss =
     (let k = HASH_ID i; s = ss_slot ss k;
          closed = Some (SOCKET_CLOSE, \<lparr>sr_id = i, sr_opaque = opaque, sr_ud = 0, sr_data = D_null\<rparr>) in
      if sk_type s = ST_INVALID \<or> sk_id s \<noteq> i then Ok (closed, ss)
      else
        res_bind (if \<not> nomore_sending_data s then send_buffer k ss else Ok (None, ss)) (\<lambda>(r, ss1).
        if r \<noteq> None \<and> fst (the r) \<noteq> SOCKET_WARNING then Ok (r, ss1)
        else if shut \<or> nomore_sending_data (ss_slot ss1 k) then
          res_bind (force_close k ss1) (\<lambda>(_, ss2). Ok (closed, ss2))
        else Ok (None, set_type k ST_HALFCLOSE ss1)))"

definition bind_socket :: "u32 \<Rightarrow> int \<Rightarrow> u64 \<Rightarrow> socket_server \<Rightarrow> (reply \<times> socket_server) res" where
  "bind_socket i fd opaque ss =
     res_bind (new_fd i fd PROTOCOL_TCP opaque True ss) (\<lambda>(ok, ss1).
     if \<not> ok then Ok (socket_err i opaque ''reach skynet socket number limit'', ss1)
     else Ok (Some (SOCKET_OPEN, \<lparr>sr_id = i, sr_opaque = opaque, sr_ud = 0, sr_data = D_text ''binding''\<rparr>), set_type (HASH_ID i) ST_BIND ss1))"

definition start_socket :: "u32 \<Rightarrow> u64 \<Rightarrow> socket_server \<Rightarrow> (reply \<times> socket_server) res" where
  "start_socket i opaque ss =
     (let k = HASH_ID i; s = ss_slot ss k;
          opened = (\<lambda>t. Some (SOCKET_OPEN, \<lparr>sr_id = i, sr_opaque = opaque, sr_ud = 0, sr_data = D_text t\<rparr>)) in
      if sk_type s = ST_INVALID \<or> sk_id s \<noteq> i then Ok (socket_err i opaque ''invalid socket'', ss)
      else if sk_type s = ST_PACCEPT \<or> sk_type s = ST_PLISTEN then
        (case sp_add (sk_fd s) k ss of (failed, ss1) \<Rightarrow>
         if failed then
           res_bind (force_close k ss1) (\<lambda>(m, ss2).
           Ok (Some (SOCKET_ERR, m\<lparr>sr_data := D_text (os_errno (ss_os ss2))\<rparr>), ss2))
         else
           Ok (opened ''start'', set_sock k (s\<lparr>sk_type := (if sk_type s = ST_PACCEPT then ST_CONNECTED else ST_LISTEN), sk_opaque := opaque\<rparr>) ss1))
      else if sk_type s = ST_CONNECTED then Ok (opened ''transfer'', set_sock k (s\<lparr>sk_opaque := opaque\<rparr>) ss)
      else Ok (None, ss))"

definition setopt_socket :: "u32 \<Rightarrow> int \<Rightarrow> int \<Rightarrow> socket_server \<Rightarrow> socket_server" where
  "setopt_socket i what v ss =
     (let s = ss_slot ss (HASH_ID i) in
      if sk_type s = ST_INVALID \<or> sk_id s \<noteq> i then ss else emit (O_setopt (sk_fd s) what v) ss)"

definition add_udp_socket :: "u32 \<Rightarrow> int \<Rightarrow> bool \<Rightarrow> u64 \<Rightarrow> socket_server \<Rightarrow> socket_server res" where
  "add_udp_socket i fd v6 opaque ss =
     (let k = HASH_ID i in
      res_bind (new_fd i fd (if v6 then PROTOCOL_UDPv6 else PROTOCOL_UDP) opaque True ss) (\<lambda>(ok, ss1).
      if \<not> ok then Ok (set_type k ST_INVALID (emit (O_close fd) ss1))
      else Ok (set_sock k ((ss_slot ss1 k)\<lparr>sk_type := ST_CONNECTED, sk_udp_address := replicate 19 0\<rparr>) ss1)))"

definition set_udp_address :: "u32 \<Rightarrow> byte list \<Rightarrow> socket_server \<Rightarrow> reply \<times> socket_server" where
  "set_udp_address i address ss =
     (let k = HASH_ID i; s = ss_slot ss k in
      if sk_type s = ST_INVALID \<or> sk_id s \<noteq> i then (None, ss)
      else if take 1 address \<noteq> [protocol_code (sk_protocol s)] then (socket_err (sk_id s) (sk_opaque s) ''protocol mismatch'', ss)
      else
        let n = (if sk_protocol s = PROTOCOL_UDP then 7 else 19) in
        (None, set_sock k (s\<lparr>sk_udp_address := take n address @ drop n (sk_udp_address s), sk_udpconnecting := sk_udpconnecting s - 1\<rparr>) ss))"

text \<open>With 65535 requests under way the caller waits for the socket thread.\<close>

definition inc_sending_ref :: "u32 \<Rightarrow> socket_server \<Rightarrow> socket_server res" where
  "inc_sending_ref i ss =
     (let k = HASH_ID i; s = ss_slot ss k in
      if sk_protocol s \<noteq> PROTOCOL_TCP then Ok ss
      else if drop_bit 16 (sk_sending s) = ID_TAG16 i then
        if sk_sending s AND 0xffff = 0xffff then Err Diverge else Ok (set_sock k (s\<lparr>sk_sending := sk_sending s + 1\<rparr>) ss)
      else Ok ss)"

definition dec_sending_ref :: "u32 \<Rightarrow> socket_server \<Rightarrow> socket_server res" where
  "dec_sending_ref i ss =
     (let k = HASH_ID i; s = ss_slot ss k in
      if sk_id s = i \<and> sk_protocol s = PROTOCOL_TCP then
        res_bind (res_assert (sk_sending s AND 0xffff \<noteq> 0)) (\<lambda>_. Ok (set_sock k (s\<lparr>sk_sending := sk_sending s - 1\<rparr>) ss))
      else Ok ss)"

definition handle_request :: "request \<Rightarrow> socket_server \<Rightarrow> (reply \<times> socket_server) res" where
  "handle_request rq ss =
     (case rq of
        Req_start i opaque \<Rightarrow> start_socket i opaque ss
      | Req_bind i fd opaque \<Rightarrow> bind_socket i fd opaque ss
      | Req_listen i fd opaque \<Rightarrow> listen_socket i fd opaque ss
      | Req_close i shut opaque \<Rightarrow> close_socket i shut opaque ss
      | Req_open i port opaque host \<Rightarrow> open_socket i opaque ss
      | Req_exit \<Rightarrow> Ok (Some (SOCKET_EXIT, \<lparr>sr_id = 0, sr_opaque = 0, sr_ud = 0, sr_data = D_null\<rparr>), ss)
      | Req_send i b \<Rightarrow>
          (case send_socket i b True None ss of (r, ss1) \<Rightarrow> res_bind (dec_sending_ref i ss1) (\<lambda>ss2. Ok (r, ss2)))
      | Req_send_low i b \<Rightarrow>
          (case send_socket i b False None ss of (r, ss1) \<Rightarrow> res_bind (dec_sending_ref i ss1) (\<lambda>ss2. Ok (r, ss2)))
      | Req_send_udp i b address \<Rightarrow> Ok (send_socket i b True (Some address) ss)
      | Req_setudp i address \<Rightarrow> Ok (set_udp_address i address ss)
      | Req_setopt i what v \<Rightarrow> Ok (None, setopt_socket i what v ss)
      | Req_udp i fd v6 opaque \<Rightarrow> res_bind (add_udp_socket i fd v6 opaque ss) (\<lambda>ss1. Ok (None, ss1)))"

text \<open>The caller has seen that the pipe is not empty.\<close>

definition ctrl_cmd :: "socket_server \<Rightarrow> (reply \<times> socket_server) res" where
  "ctrl_cmd ss =
     (case ss_pipe ss of [] \<Rightarrow> Err Diverge | rq # rest \<Rightarrow> handle_request rq (ss\<lparr>ss_pipe := rest\<rparr>))"

section \<open>Events\<close>

definition take_read :: "socket_server \<Rightarrow> rres \<times> socket_server" where
  "take_read ss = (case os_read (ss_os ss) of [] \<Rightarrow> (R_again, ss) | r # rs \<Rightarrow> (r, ss\<lparr>ss_os := (ss_os ss)\<lparr>os_read := rs\<rparr>\<rparr>))"

definition take_udp :: "socket_server \<Rightarrow> (rres \<times> sockaddr) \<times> socket_server" where
  "take_udp ss =
     (case os_udp (ss_os ss) of
        [] \<Rightarrow> ((R_again, \<lparr>sa_v6 = False, sa_port = [], sa_addr = []\<rparr>), ss)
      | r # rs \<Rightarrow> (r, ss\<lparr>ss_os := (ss_os ss)\<lparr>os_udp := rs\<rparr>\<rparr>))"

definition take_sockerr :: "socket_server \<Rightarrow> string option \<times> socket_server" where
  "take_sockerr ss = (case os_sockerr (ss_os ss) of [] \<Rightarrow> (None, ss) | r # rs \<Rightarrow> (r, ss\<lparr>ss_os := (ss_os ss)\<lparr>os_sockerr := rs\<rparr>\<rparr>))"

definition take_name :: "socket_server \<Rightarrow> string option \<times> socket_server" where
  "take_name ss = (case os_name (ss_os ss) of [] \<Rightarrow> (None, ss) | r # rs \<Rightarrow> (r, ss\<lparr>ss_os := (ss_os ss)\<lparr>os_name := rs\<rparr>\<rparr>))"

text \<open>Close a socket after an error.\<close>

definition close_error :: "nat \<Rightarrow> string \<Rightarrow> socket_server \<Rightarrow> (reply \<times> socket_server) res" where
  "close_error k t ss = res_bind (force_close k ss) (\<lambda>(m, ss1). Ok (Some (SOCKET_ERR, m\<lparr>sr_data := D_text t\<rparr>), ss1))"

definition close_eof :: "nat \<Rightarrow> socket_server \<Rightarrow> (reply \<times> socket_server) res" where
  "close_eof k ss = res_bind (force_close k ss) (\<lambda>(m, ss1). Ok (Some (SOCKET_CLOSE, m), ss1))"

text \<open>\<open>read\<close> returns at most \<open>sz\<close> bytes.\<close>

definition forward_message_tcp :: "nat \<Rightarrow> socket_server \<Rightarrow> (reply \<times> socket_server) res" where
  "forward_message_tcp k ss =
     (case take_read ss of (r, ss1) \<Rightarrow>
      let s = ss_slot ss1 k; sz = sk_size s in
      case r of
        R_intr \<Rightarrow> Ok (None, ss1)
      | R_again \<Rightarrow> Ok (None, ss1)
      | R_fail t \<Rightarrow> close_error k t ss1
      | R bytes \<Rightarrow>
          let d = take (nat sz) bytes; n = length d in
          if n = 0 then close_eof k ss1
          else if sk_type s = ST_HALFCLOSE then Ok (None, ss1)
          else
            let s1 = stat_read (ss_time ss1) n s in
            res_bind
              (if int n = sz then (if sz * 2 < 2 ^ 31 then Ok (sz * 2) else Err Int_overflow)
               else if sz > MIN_READ_BUFFER \<and> int n * 2 < sz then Ok (sz div 2) else Ok sz) (\<lambda>sz1.
            Ok (Some (SOCKET_DATA, \<lparr>sr_id = sk_id s, sr_opaque = sk_opaque s, sr_ud = int n, sr_data = D_bytes d\<rparr>),
                set_sock k (s1\<lparr>sk_size := sz1\<rparr>) ss1)))"

definition gen_udp_address :: "protocol \<Rightarrow> sockaddr \<Rightarrow> byte list" where
  "gen_udp_address protocol sa = protocol_code protocol # sa_port sa @ sa_addr sa"

definition MAX_UDP_PACKAGE :: nat where "MAX_UDP_PACKAGE = 65535"

definition forward_message_udp :: "nat \<Rightarrow> socket_server \<Rightarrow> (reply \<times> socket_server) res" where
  "forward_message_udp k ss =
     (case take_udp ss of ((r, sa), ss1) \<Rightarrow>
      let s = ss_slot ss1 k in
      case r of
        R_intr \<Rightarrow> Ok (None, ss1)
      | R_again \<Rightarrow> Ok (None, ss1)
      | R_fail t \<Rightarrow> close_error k t ss1
      | R bytes \<Rightarrow>
          let d = take MAX_UDP_PACKAGE bytes; n = length d;
              ss2 = set_sock k (stat_read (ss_time ss1) n s) ss1;
              protocol = (if sa_v6 sa then PROTOCOL_UDPv6 else PROTOCOL_UDP) in
          if sk_protocol s \<noteq> protocol then Ok (None, ss2)
          else Ok (Some (SOCKET_UDP, \<lparr>sr_id = sk_id s, sr_opaque = sk_opaque s, sr_ud = int n, sr_data = D_bytes (d @ gen_udp_address protocol sa)\<rparr>), ss2))"

definition report_connect :: "nat \<Rightarrow> socket_server \<Rightarrow> (reply \<times> socket_server) res" where
  "report_connect k ss =
     (case take_sockerr ss of (e, ss1) \<Rightarrow>
      case e of
        Some t \<Rightarrow> close_error k t ss1
      | None \<Rightarrow>
          let s = ss_slot ss1 k;
              ss2 = set_type k ST_CONNECTED ss1;
              ss3 = (if nomore_sending_data s then emit (O_arm (sk_fd s) False) ss2 else ss2) in
          case take_name ss3 of (nm, ss4) \<Rightarrow>
          Ok (Some (SOCKET_OPEN, \<lparr>sr_id = sk_id s, sr_opaque = sk_opaque s, sr_ud = 0, sr_data = name_data nm\<rparr>), ss4))"

definition take_accept :: "socket_server \<Rightarrow> accepted \<times> socket_server" where
  "take_accept ss = (case os_accept (ss_os ss) of [] \<Rightarrow> (Acc_fail, ss) | r # rs \<Rightarrow> (r, ss\<lparr>ss_os := (ss_os ss)\<lparr>os_accept := rs\<rparr>\<rparr>))"

definition report_accept :: "nat \<Rightarrow> socket_server \<Rightarrow> (reply \<times> socket_server) res" where
  "report_accept k ss =
     (case take_accept ss of (a, ss1) \<Rightarrow>
      let s = ss_slot ss1 k in
      case a of
        Acc_limit t \<Rightarrow> Ok (socket_err (sk_id s) (sk_opaque s) t, ss1)
      | Acc_fail \<Rightarrow> Ok (None, ss1)
      | Acc fd nm \<Rightarrow>
          (case reserve_id ss1 of
             (None, ss2) \<Rightarrow> Ok (None, emit (O_close fd) ss2)
           | (Some i, ss2) \<Rightarrow>
               res_bind (new_fd i fd PROTOCOL_TCP (sk_opaque s) False ss2) (\<lambda>(ok, ss3).
               if \<not> ok then Ok (None, emit (O_close fd) ss3)
               else
                 let ss4 = set_sock k (stat_read (ss_time ss3) 1 (ss_slot ss3 k)) ss3;
                     ss5 = set_type (HASH_ID i) ST_PACCEPT ss4 in
                 Ok (Some (SOCKET_ACCEPT, \<lparr>sr_id = sk_id s, sr_opaque = sk_opaque s, sr_ud = sint i, sr_data = name_data nm\<rparr>), ss5))))"

text \<open>The event of a socket that was just closed is forgotten.\<close>

fun clear_first :: "(nat \<Rightarrow> socket) \<Rightarrow> u32 \<Rightarrow> event list \<Rightarrow> event list" where
  "clear_first sl i [] = []"
| "clear_first sl i (e # es) =
     (case ev_slot e of
        Some k \<Rightarrow> if sk_type (sl k) = ST_INVALID \<and> sk_id (sl k) = i then e\<lparr>ev_slot := None\<rparr> # es else e # clear_first sl i es
      | None \<Rightarrow> e # clear_first sl i es)"

definition clear_closed_event :: "reply \<Rightarrow> socket_server \<Rightarrow> socket_server" where
  "clear_closed_event r ss =
     (case r of
        None \<Rightarrow> ss
      | Some (type, m) \<Rightarrow>
          if type = SOCKET_CLOSE \<or> type = SOCKET_ERR then
            ss\<lparr>ss_events := take (ss_event_index ss) (ss_events ss) @ clear_first (ss_slot ss) (sr_id m) (drop (ss_event_index ss) (ss_events ss))\<rparr>
          else ss)"

text \<open>The part of the poll for one event at index \<open>idx\<close> (the index is past it already); no reply: the loop goes on.\<close>

definition handle_event :: "nat \<Rightarrow> event \<Rightarrow> nat \<Rightarrow> socket_server \<Rightarrow> (reply \<times> socket_server) res" where
  "handle_event idx e k ss =
     (let s = ss_slot ss k in
      case sk_type s of
        ST_CONNECTING \<Rightarrow> report_connect k ss
      | ST_LISTEN \<Rightarrow> report_accept k ss
      | ST_INVALID \<Rightarrow> Ok (None, ss)
      | _ \<Rightarrow>
          if ev_read e then
            res_bind (if sk_protocol s = PROTOCOL_TCP then forward_message_tcp k ss else forward_message_udp k ss) (\<lambda>(r, ss1).
            if sk_protocol s \<noteq> PROTOCOL_TCP \<and> map_option fst r = Some SOCKET_UDP then Ok (r, ss1\<lparr>ss_event_index := idx\<rparr>)
            else if ev_write e \<and> map_option fst r \<noteq> Some SOCKET_CLOSE \<and> map_option fst r \<noteq> Some SOCKET_ERR then
              Ok (r, ss1\<lparr>ss_events := (ss_events ss1)[idx := e\<lparr>ev_read := False\<rparr>], ss_event_index := idx\<rparr>)
            else Ok (r, ss1))
          else if ev_write e then send_buffer k ss
          else if ev_error e then
            (case take_sockerr ss of (t, ss1) \<Rightarrow> close_error k (case t of None \<Rightarrow> ''Unknown error'' | Some t \<Rightarrow> t) ss1)
          else if ev_eof e then close_eof k ss
          else Ok (None, ss))"

text \<open>The loop of \<open>socket_server_poll\<close>. A wait whose result is not there yet does not return (\<open>None\<close>); a failed wait is the result
  without a reply, a wait interrupted by a signal the list without events.\<close>

partial_function (option) socket_server_poll :: "bool \<Rightarrow> socket_server \<Rightarrow> (reply \<times> bool \<times> socket_server) res option" where
  "socket_server_poll mo ss =
     (if ss_checkctrl ss \<and> ss_pipe ss \<noteq> [] then
        (case ctrl_cmd ss of
           Err e \<Rightarrow> Some (Err e)
         | Ok (r, ss1) \<Rightarrow>
             if r \<noteq> None then Some (Ok (r, mo, clear_closed_event r ss1)) else socket_server_poll mo ss1)
      else
        let ss0 = ss\<lparr>ss_checkctrl := False\<rparr> in
        if ss_event_index ss0 = length (ss_events ss0) then
          (case os_wait (ss_os ss0) of
             [] \<Rightarrow> None
           | w # ws \<Rightarrow>
               let ss1 = ss0\<lparr>ss_os := (ss_os ss0)\<lparr>os_wait := ws\<rparr>, ss_checkctrl := True, ss_event_index := 0\<rparr> in
               (case w of
                  None \<Rightarrow> Some (Ok (None, False, ss1\<lparr>ss_events := []\<rparr>))
                | Some es \<Rightarrow>
                    (case es of
                       [] \<Rightarrow> socket_server_poll False (ss1\<lparr>ss_events := []\<rparr>)
                     | e # _ \<Rightarrow>
                         let ss2 = ss1\<lparr>ss_events := es, ss_event_index := 1\<rparr> in
                         (case ev_slot e of
                            None \<Rightarrow> socket_server_poll False ss2
                          | Some k \<Rightarrow>
                              (case handle_event 0 e k ss2 of
                                 Err er \<Rightarrow> Some (Err er)
                               | Ok (r, ss3) \<Rightarrow> if r \<noteq> None then Some (Ok (r, False, ss3)) else socket_server_poll False ss3)))))
        else
          let idx = ss_event_index ss0; e = ss_events ss0 ! idx; ss2 = ss0\<lparr>ss_event_index := Suc idx\<rparr> in
          (case ev_slot e of
             None \<Rightarrow> socket_server_poll mo ss2
           | Some k \<Rightarrow>
               (case handle_event idx e k ss2 of
                  Err er \<Rightarrow> Some (Err er)
                | Ok (r, ss3) \<Rightarrow> if r \<noteq> None then Some (Ok (r, mo, ss3)) else socket_server_poll mo ss3)))"

declare socket_server_poll.simps [code]

section \<open>Calls of the other threads\<close>

definition send_request :: "request \<Rightarrow> socket_server \<Rightarrow> socket_server" where
  "send_request rq ss = ss\<lparr>ss_pipe := ss_pipe ss @ [rq]\<rparr>"

text \<open>The size of \<open>struct request_open\<close>; the length of a request is one byte.\<close>

definition SIZEOF_OPEN :: nat where "SIZEOF_OPEN = 24"

definition open_request :: "string \<Rightarrow> socket_server \<Rightarrow> u32 option \<times> socket_server" where
  "open_request addr ss = (if length addr + SIZEOF_OPEN \<ge> 256 then (None, ss) else reserve_id ss)"

definition socket_server_connect :: "u64 \<Rightarrow> string \<Rightarrow> int \<Rightarrow> socket_server \<Rightarrow> u32 option \<times> socket_server" where
  "socket_server_connect opaque addr port ss =
     (case open_request addr ss of
        (None, ss1) \<Rightarrow> (None, ss1)
      | (Some i, ss1) \<Rightarrow> (Some i, send_request (Req_open i port opaque addr) ss1))"

definition can_direct_write :: "socket \<Rightarrow> u32 \<Rightarrow> bool" where
  "can_direct_write s i \<longleftrightarrow> sk_id s = i \<and> nomore_sending_data s \<and> sk_type s = ST_CONNECTED \<and> sk_udpconnecting s = 0"

text \<open>A direct write under the lock: what \<open>write\<close> does not take is left in \<open>dw_buffer\<close> for the socket thread.\<close>

definition direct_rest :: "nat \<Rightarrow> sobj \<Rightarrow> nat \<Rightarrow> socket_server \<Rightarrow> socket_server" where
  "direct_rest k b n ss =
     (let s = stat_write (ss_time ss) n (ss_slot ss k) in
      if n = length (so_bytes b) then set_sock k s ss
      else emit (O_arm (sk_fd s) True) (set_sock k (s\<lparr>sk_dw := Some (b, n)\<rparr>) ss))"

definition direct_write_tcp :: "nat \<Rightarrow> sobj \<Rightarrow> socket_server \<Rightarrow> socket_server" where
  "direct_write_tcp k b ss =
     (case take_write ss of (r, ss1) \<Rightarrow>
      let n = (case r of W m \<Rightarrow> min m (length (so_bytes b)) | _ \<Rightarrow> 0) in
      direct_rest k b n (emit (O_write (sk_fd (ss_slot ss1 k)) (take n (so_bytes b))) ss1))"

definition socket_server_send :: "u32 \<Rightarrow> sobj \<Rightarrow> socket_server \<Rightarrow> (int \<times> socket_server) res" where
  "socket_server_send i b ss =
     (let k = HASH_ID i; s = ss_slot ss k;
          queue = (\<lambda>ss. res_bind (inc_sending_ref i ss) (\<lambda>ss1. Ok (0, send_request (Req_send i b) ss1))) in
      if sk_id s \<noteq> i \<or> sk_type s = ST_INVALID then Ok (-1, ss)
      else if can_direct_write s i then
        (case take_lock ss of (got, ss1) \<Rightarrow>
         if \<not> got then queue ss1
         else if sk_protocol s = PROTOCOL_TCP then Ok (0, direct_write_tcp k b ss1)
         else
           (case udp_socket_address (sk_protocol s) (sk_udp_address s) of
              None \<Rightarrow> Ok (-1, ss1)
            | Some sa \<Rightarrow>
                (case take_write ss1 of (r, ss2) \<Rightarrow>
                   (case r of
                      W m \<Rightarrow> Ok (0, direct_rest k b (min m (length (so_bytes b))) (emit (O_sendto (sk_fd s) sa (so_bytes b)) ss2))
                    | _ \<Rightarrow> Ok (0, direct_rest k b 0 ss2)))))
      else queue ss)"

definition socket_server_send_lowpriority :: "u32 \<Rightarrow> sobj \<Rightarrow> socket_server \<Rightarrow> (int \<times> socket_server) res" where
  "socket_server_send_lowpriority i b ss =
     (let s = ss_slot ss (HASH_ID i) in
      if sk_id s \<noteq> i \<or> sk_type s = ST_INVALID then Ok (-1, ss)
      else res_bind (inc_sending_ref i ss) (\<lambda>ss1. Ok (0, send_request (Req_send_low i b) ss1)))"

definition socket_server_exit :: "socket_server \<Rightarrow> socket_server" where
  "socket_server_exit ss = send_request Req_exit ss"

definition socket_server_close :: "u64 \<Rightarrow> u32 \<Rightarrow> socket_server \<Rightarrow> socket_server" where
  "socket_server_close opaque i ss = send_request (Req_close i False opaque) ss"

definition socket_server_shutdown :: "u64 \<Rightarrow> u32 \<Rightarrow> socket_server \<Rightarrow> socket_server" where
  "socket_server_shutdown opaque i ss = send_request (Req_close i True opaque) ss"

definition take_bind :: "socket_server \<Rightarrow> bound \<times> socket_server" where
  "take_bind ss = (case os_bind (ss_os ss) of [] \<Rightarrow> (B_none, ss) | r # rs \<Rightarrow> (r, ss\<lparr>ss_os := (ss_os ss)\<lparr>os_bind := rs\<rparr>\<rparr>))"

definition do_bind :: "socket_server \<Rightarrow> (int \<times> bool) option \<times> socket_server" where
  "do_bind ss =
     (case take_bind ss of
        (B_none, ss1) \<Rightarrow> (None, ss1)
      | (B_fail fd, ss1) \<Rightarrow> (None, emit (O_close fd) ss1)
      | (B_fd fd v6, ss1) \<Rightarrow> (Some (fd, v6), ss1))"

definition take_listen :: "socket_server \<Rightarrow> bool \<times> socket_server" where
  "take_listen ss = (case os_listen (ss_os ss) of [] \<Rightarrow> (True, ss) | r # rs \<Rightarrow> (r, ss\<lparr>ss_os := (ss_os ss)\<lparr>os_listen := rs\<rparr>\<rparr>))"

definition do_listen :: "socket_server \<Rightarrow> int option \<times> socket_server" where
  "do_listen ss =
     (case do_bind ss of
        (None, ss1) \<Rightarrow> (None, ss1)
      | (Some (fd, _), ss1) \<Rightarrow>
          (case take_listen ss1 of (ok, ss2) \<Rightarrow> if ok then (Some fd, ss2) else (None, emit (O_close fd) ss2)))"

definition socket_server_listen :: "u64 \<Rightarrow> socket_server \<Rightarrow> u32 option \<times> socket_server" where
  "socket_server_listen opaque ss =
     (case do_listen ss of
        (None, ss1) \<Rightarrow> (None, ss1)
      | (Some fd, ss1) \<Rightarrow>
          (case reserve_id ss1 of
             (None, ss2) \<Rightarrow> (None, emit (O_close fd) ss2)
           | (Some i, ss2) \<Rightarrow> (Some i, send_request (Req_listen i fd opaque) ss2)))"

definition socket_server_bind :: "u64 \<Rightarrow> int \<Rightarrow> socket_server \<Rightarrow> u32 option \<times> socket_server" where
  "socket_server_bind opaque fd ss =
     (case reserve_id ss of
        (None, ss1) \<Rightarrow> (None, ss1)
      | (Some i, ss1) \<Rightarrow> (Some i, send_request (Req_bind i fd opaque) ss1))"

definition socket_server_start :: "u64 \<Rightarrow> u32 \<Rightarrow> socket_server \<Rightarrow> socket_server" where
  "socket_server_start opaque i ss = send_request (Req_start i opaque) ss"

definition TCP_NODELAY :: int where "TCP_NODELAY = 1"

definition socket_server_nodelay :: "u32 \<Rightarrow> socket_server \<Rightarrow> socket_server" where
  "socket_server_nodelay i ss = send_request (Req_setopt i TCP_NODELAY 1) ss"

definition take_socket :: "socket_server \<Rightarrow> int option \<times> socket_server" where
  "take_socket ss = (case os_socket (ss_os ss) of [] \<Rightarrow> (None, ss) | r # rs \<Rightarrow> (r, ss\<lparr>ss_os := (ss_os ss)\<lparr>os_socket := rs\<rparr>\<rparr>))"

text \<open>\<open>bound\<close>: a port or an address is given.\<close>

definition socket_server_udp :: "u64 \<Rightarrow> bool \<Rightarrow> socket_server \<Rightarrow> u32 option \<times> socket_server" where
  "socket_server_udp opaque bound ss =
     (case (if bound then do_bind ss else (case take_socket ss of (r, ss1) \<Rightarrow> (map_option (\<lambda>fd. (fd, False)) r, ss1))) of
        (None, ss1) \<Rightarrow> (None, ss1)
      | (Some (fd, v6), ss1) \<Rightarrow>
          (case reserve_id ss1 of
             (None, ss2) \<Rightarrow> (None, emit (O_close fd) ss2)
           | (Some i, ss2) \<Rightarrow> (Some i, send_request (Req_udp i fd v6 opaque) ss2)))"

definition udp_addrsz :: "byte list \<Rightarrow> nat option" where
  "udp_addrsz address =
     (if take 1 address = [protocol_code PROTOCOL_UDP] then Some 7
      else if take 1 address = [protocol_code PROTOCOL_UDPv6] then Some 19 else None)"

definition socket_server_udp_send :: "u32 \<Rightarrow> byte list \<Rightarrow> sobj \<Rightarrow> socket_server \<Rightarrow> int \<times> socket_server" where
  "socket_server_udp_send i address b ss =
     (let k = HASH_ID i; s = ss_slot ss k in
      if sk_id s \<noteq> i \<or> sk_type s = ST_INVALID then (-1, ss)
      else
        case udp_addrsz address of
          None \<Rightarrow> (-1, ss)
        | Some n \<Rightarrow>
            let queue = (\<lambda>ss. (0, send_request (Req_send_udp i b (take n address)) ss)) in
            if can_direct_write s i then
              (case take_lock ss of (got, ss1) \<Rightarrow>
               if \<not> got then queue ss1
               else
                 (case udp_socket_address (sk_protocol s) address of
                    None \<Rightarrow> (-1, ss1)
                  | Some sa \<Rightarrow>
                      (case take_write ss1 of
                         (W m, ss2) \<Rightarrow> (0, emit (O_sendto (sk_fd s) sa (so_bytes b)) (set_sock k (stat_write (ss_time ss2) m s) ss2))
                       | (_, ss2) \<Rightarrow> queue ss2)))
            else queue ss)"

definition take_peer :: "socket_server \<Rightarrow> sockaddr option option \<times> socket_server" where
  "take_peer ss = (case os_peer (ss_os ss) of [] \<Rightarrow> (None, ss) | r # rs \<Rightarrow> (r, ss\<lparr>ss_os := (ss_os ss)\<lparr>os_peer := rs\<rparr>\<rparr>))"

text \<open>The result of the resolution: none, an address of another family, an address.\<close>

definition socket_server_udp_connect :: "u32 \<Rightarrow> socket_server \<Rightarrow> int \<times> socket_server" where
  "socket_server_udp_connect i ss =
     (let k = HASH_ID i; s = ss_slot ss k in
      if sk_id s \<noteq> i \<or> sk_type s = ST_INVALID then (-1, ss)
      else
        case take_peer (set_sock k (s\<lparr>sk_udpconnecting := sk_udpconnecting s + 1\<rparr>) ss) of
          (Some (Some sa), ss1) \<Rightarrow>
            (0, send_request (Req_setudp i (gen_udp_address (if sa_v6 sa then PROTOCOL_UDPv6 else PROTOCOL_UDP) sa)) ss1)
        | (_, ss1) \<Rightarrow> (-1, ss1))"

definition socket_server_udp_address :: "socket_message \<Rightarrow> byte list option" where
  "socket_server_udp_address m =
     (case sr_data m of
        D_bytes bs \<Rightarrow>
          (let address = drop (nat (sr_ud m)) bs in map_option (\<lambda>n. take n address) (udp_addrsz address))
      | _ \<Rightarrow> None)"

section \<open>Information\<close>

datatype info_type = SOCKET_INFO_LISTEN | SOCKET_INFO_TCP | SOCKET_INFO_UDP | SOCKET_INFO_BIND

text \<open>\<open>si_name\<close> is \<open>None\<close> when the buffer is left as it was.\<close>

record socket_info =
  si_id :: u32
  si_type :: info_type
  si_opaque :: u64
  si_read :: u64
  si_write :: u64
  si_rtime :: u64
  si_wtime :: u64
  si_wbuffer :: int
  si_name :: "string option"

definition info_of :: "info_type \<Rightarrow> string option \<Rightarrow> socket \<Rightarrow> socket_info" where
  "info_of t nm s =
     \<lparr>si_id = sk_id s, si_type = t, si_opaque = sk_opaque s, si_read = st_read (sk_stat s), si_write = st_write (sk_stat s),
      si_rtime = st_rtime (sk_stat s), si_wtime = st_wtime (sk_stat s), si_wbuffer = sk_wb_size s, si_name = nm\<rparr>"

definition query_info :: "socket \<Rightarrow> socket_server \<Rightarrow> socket_info option \<times> socket_server" where
  "query_info s ss =
     (case sk_type s of
        ST_BIND \<Rightarrow> (Some (info_of SOCKET_INFO_BIND (Some []) s), ss)
      | ST_LISTEN \<Rightarrow> (case take_name ss of (nm, ss1) \<Rightarrow> (Some (info_of SOCKET_INFO_LISTEN nm s), ss1))
      | ST_CONNECTED \<Rightarrow>
          if sk_protocol s = PROTOCOL_TCP then (case take_name ss of (nm, ss1) \<Rightarrow> (Some (info_of SOCKET_INFO_TCP nm s), ss1))
          else if udp_socket_address (sk_protocol s) (sk_udp_address s) \<noteq> None then
            (case take_name ss of (nm, ss1) \<Rightarrow> (Some (info_of SOCKET_INFO_UDP nm s), ss1))
          else (Some (info_of SOCKET_INFO_UDP None s), ss)
      | _ \<Rightarrow> (None, ss))"

fun info_loop :: "nat \<Rightarrow> nat \<Rightarrow> socket_info list \<Rightarrow> socket_server \<Rightarrow> socket_info list \<times> socket_server" where
  "info_loop 0 k acc ss = (acc, ss)"
| "info_loop (Suc n) k acc ss =
     (case query_info (ss_slot ss k) ss of
        (None, ss1) \<Rightarrow> info_loop n (Suc k) acc ss1
      | (Some si, ss1) \<Rightarrow> info_loop n (Suc k) (si # acc) ss1)"

definition socket_server_info :: "socket_server \<Rightarrow> socket_info list \<times> socket_server" where
  "socket_server_info ss = info_loop MAX_SOCKET 0 [] ss"

end
