(* ===== verification/Skynet_Sockstream.thy ===== *)
theory Skynet_Sockstream
  imports Skynet_Socket
begin

text \<open>
  What the socket server sends on a connection, and how it allocates ids: the bytes that are written are the packages that were accepted,
  in the order of each priority, whatever the kernel takes at a time and whichever thread writes.
\<close>

section \<open>The stream of a connection\<close>

text \<open>What was written to a descriptor.\<close>

fun out_bytes :: "int \<Rightarrow> sys_out \<Rightarrow> byte list" where
  "out_bytes fd (O_write fd' bs) = (if fd' = fd then bs else [])"
| "out_bytes fd _ = []"

definition wire :: "int \<Rightarrow> sys_out list \<Rightarrow> byte list" where
  "wire fd out = concat (map (out_bytes fd) out)"

lemma wire_simps [simp]: "wire fd [] = []" "wire fd (a @ b) = wire fd a @ wire fd b" "wire fd (e # a) = out_bytes fd e @ wire fd a"
  "wire fd (map (O_write fd) outs) = concat outs"
  by (simp_all add: wire_def) (induction outs; simp)

text \<open>A buffer that is not a user object in other memory.\<close>

fun plain :: "sobj \<Rightarrow> bool" where
  "plain (Raw _) = True"
| "plain (User same _) = same"

definition wbuf_ok :: "write_buffer \<Rightarrow> bool" where
  "wbuf_ok b \<longleftrightarrow> wbuf_ptr b + wbuf_sz b = length (so_bytes (wbuf_obj b)) \<and> plain (wbuf_obj b)"

lemma wbuf_ok_data: "wbuf_ok b \<Longrightarrow> wbuf_data b = drop (wbuf_ptr b) (so_bytes (wbuf_obj b)) \<and> length (wbuf_data b) = wbuf_sz b"
  by (auto simp: wbuf_ok_def wbuf_data_def)

definition wbuf_step :: "nat \<Rightarrow> write_buffer \<Rightarrow> write_buffer" where
  "wbuf_step n b = b\<lparr>wbuf_ptr := wbuf_ptr b + n, wbuf_sz := wbuf_sz b - n\<rparr>"

lemma wbuf_step_ok: "wbuf_ok b \<Longrightarrow> n \<le> wbuf_sz b \<Longrightarrow> wbuf_ok (wbuf_step n b) \<and> wbuf_data (wbuf_step n b) = drop n (wbuf_data b)"
  by (auto simp: wbuf_ok_def wbuf_data_def wbuf_step_def drop_take add.commute)

definition total :: "write_buffer list \<Rightarrow> int" where
  "total l = (\<Sum>b \<leftarrow> l. int (wbuf_sz b))"

lemma total_simps [simp]: "total [] = 0" "total (b # l) = int (wbuf_sz b) + total l" "total (l1 @ l2) = total l1 + total l2"
  by (simp_all add: total_def)

text \<open>What the loop of \<open>send_list_tcp\<close> leaves: it has written whole buffers \<open>d\<close> from the front and a part of the next.\<close>

definition tcp_result :: "write_buffer list \<Rightarrow> socket \<Rightarrow> byte list \<Rightarrow> write_buffer list \<Rightarrow> socket \<Rightarrow> bool" where
  "tcp_result l s out l' s' \<longleftrightarrow> (\<exists>d r n st. l = d @ r \<and> s' = s\<lparr>sk_stat := st, sk_wb_size := sk_wb_size s + total l' - total l\<rparr> \<and>
     out = concat (map wbuf_data d) @ (case r of [] \<Rightarrow> [] | b # _ \<Rightarrow> take n (wbuf_data b)) \<and>
     (case r of [] \<Rightarrow> l' = [] | b # bs \<Rightarrow> n < wbuf_sz b \<and> l' = wbuf_step n b # bs \<or> n = 0 \<and> l' = r))"

lemma tcp_stay: "tcp_result l s [] l s"
  unfolding tcp_result_def
  by (rule exI [of _ "[]"], rule exI [of _ l], rule exI [of _ 0], rule exI [of _ "sk_stat s"]) (cases l; simp)

lemma tcp_loop_result:
  assumes "tcp_loop time ws l s outs = (ok, ws', l', s', outs')" "\<forall>b \<in> set l. wbuf_ok b"
  shows "\<exists>out. concat outs' = concat outs @ out \<and> tcp_result l s out l' s'"
  using assms
proof (induction time ws l s outs arbitrary: ok ws' l' s' outs' rule: tcp_loop.induct)
  case (1 time ws s outs)
  then show ?case using tcp_stay [of "[]" s] by (intro exI [of _ "[]"]) auto
next
  case (2 time b bs s outs)
  then show ?case using tcp_stay by (intro exI [of _ "[]"]) auto
next
  case (3 time r ws b bs s outs)
  note stay = tcp_stay [of "b # bs" s]
  show ?case
  proof (cases r)
    case (W m)
    define n where "n = min m (wbuf_sz b)"
    define s1 where "s1 = (stat_write time n s)\<lparr>sk_wb_size := sk_wb_size s - int n\<rparr>"
    have eq: "tcp_loop time (r # ws) (b # bs) s outs = (if n \<noteq> wbuf_sz b then (True, ws, wbuf_step n b # bs, s1, outs @ [take n (wbuf_data b)])
        else tcp_loop time ws bs s1 (outs @ [take n (wbuf_data b)]))"
      unfolding n_def s1_def wbuf_step_def by (simp only: W tcp_loop.simps wres.case Let_def)
    have s1: "s1 = s\<lparr>sk_stat := sk_stat s1, sk_wb_size := sk_wb_size s - int n\<rparr>" by (simp add: s1_def stat_write_def)
    have nle: "n \<le> wbuf_sz b" by (simp add: n_def)
    have ok: "wbuf_ok b" using "3.prems"(2) by simp
    show ?thesis
    proof (cases "n = wbuf_sz b")
      case True
      then have t: "take n (wbuf_data b) = wbuf_data b" using conjunct2 [OF wbuf_ok_data [OF ok]] by simp
      have "tcp_loop time ws bs s1 (outs @ [take n (wbuf_data b)]) = (ok, ws', l', s', outs')"
        using "3.prems"(1) True unfolding eq by simp
      then obtain out where out: "concat outs' = concat (outs @ [take n (wbuf_data b)]) @ out" "tcp_result bs s1 out l' s'"
        using "3.IH"(1) [OF W refl refl refl] True "3.prems"(2) unfolding n_def s1_def by (auto simp: Let_def)
      from out(2) obtain d r2 n2 st where d: "bs = d @ r2" "s' = s1\<lparr>sk_stat := st, sk_wb_size := sk_wb_size s1 + total l' - total bs\<rparr>"
          "out = concat (map wbuf_data d) @ (case r2 of [] \<Rightarrow> [] | b # _ \<Rightarrow> take n2 (wbuf_data b))"
          "(case r2 of [] \<Rightarrow> l' = [] | b # bs \<Rightarrow> n2 < wbuf_sz b \<and> l' = wbuf_step n2 b # bs \<or> n2 = 0 \<and> l' = r2)"
        unfolding tcp_result_def by blast
      have "tcp_result (b # bs) s (wbuf_data b @ out) l' s'"
        unfolding tcp_result_def
        by (rule exI [of _ "b # d"], rule exI [of _ r2], rule exI [of _ n2], rule exI [of _ st])
          (use d s1 True in \<open>simp add: s1_def stat_write_def\<close>)
      then show ?thesis using out(1) t by auto
    next
      case False
      then have e: "l' = wbuf_step n b # bs" "s' = s1" "outs' = outs @ [take n (wbuf_data b)]"
        using "3.prems"(1) unfolding eq by auto
      have "tcp_result (b # bs) s (take n (wbuf_data b)) l' s'"
        unfolding tcp_result_def e
        by (rule exI [of _ "[]"], rule exI [of _ "b # bs"], rule exI [of _ n], rule exI [of _ "sk_stat s1"])
          (use nle False in \<open>auto simp: wbuf_step_def s1_def stat_write_def\<close>)
      then show ?thesis using e(3) by auto
    qed
  next
    case W_intr
    then show ?thesis using "3.IH"(2) "3.prems" by simp
  next
    case W_again
    then show ?thesis using "3.prems" stay by (intro exI [of _ "[]"]) auto
  next
    case W_fail
    then show ?thesis using "3.prems" stay by (intro exI [of _ "[]"]) auto
  qed
qed

text \<open>The packages in the order in which their bytes are or will be written: \<open>o1\<close> are those that are written, in the direct write
  buffer or in the high list, \<open>o2\<close> those in the low list, each with the priority it was sent with.\<close>

definition dw_rest :: "socket \<Rightarrow> byte list" where
  "dw_rest s = (case sk_dw s of None \<Rightarrow> [] | Some (b, off) \<Rightarrow> drop off (so_bytes b))"

definition packages :: "(bool \<times> sobj) list \<Rightarrow> byte list" where
  "packages o1 = concat (map (so_bytes \<circ> snd) o1)"

lemma packages_simps [simp]: "packages [] = []" "packages (p # ps) = so_bytes (snd p) @ packages ps" "packages (a @ b) = packages a @ packages b"
  by (simp_all add: packages_def)

definition low_label :: "write_buffer \<Rightarrow> bool \<times> sobj" where
  "low_label b = (False, wbuf_obj b)"

definition tx_live :: "socket \<Rightarrow> byte list \<Rightarrow> (bool \<times> sobj) list \<Rightarrow> (bool \<times> sobj) list \<Rightarrow> bool" where
  "tx_live s w o1 o2 \<longleftrightarrow>
     packages o1 = w @ dw_rest s @ concat (map wbuf_data (sk_high s)) \<and>
     o2 = map low_label (sk_low s) \<and>
     (\<forall>b \<in> set (sk_high s). wbuf_ok b) \<and> (\<forall>b \<in> set (sk_low s). wbuf_ok b \<and> wbuf_ptr b = 0) \<and>
     sk_wb_size s = total (sk_high s) + total (sk_low s) \<and>
     (\<forall>b off. sk_dw s = Some (b, off) \<longrightarrow> off \<le> length (so_bytes b) \<and> plain b)"

definition tx_ok :: "nat \<Rightarrow> (bool \<times> sobj) list \<Rightarrow> (bool \<times> sobj) list \<Rightarrow> socket_server \<Rightarrow> bool" where
  "tx_ok k o1 o2 ss \<longleftrightarrow> sk_type (ss_slot ss k) = ST_CONNECTED \<and> sk_protocol (ss_slot ss k) = PROTOCOL_TCP \<and>
     tx_live (ss_slot ss k) (wire (sk_fd (ss_slot ss k)) (ss_out ss)) o1 o2"

definition meta :: "nat \<Rightarrow> socket_server \<Rightarrow> socket_server \<Rightarrow> bool" where
  "meta k ss ss' \<longleftrightarrow> ss_pipe ss' = ss_pipe ss \<and> sk_id (ss_slot ss' k) = sk_id (ss_slot ss k) \<and>
     sk_protocol (ss_slot ss' k) = sk_protocol (ss_slot ss k) \<and> sk_sending (ss_slot ss' k) = sk_sending (ss_slot ss k) \<and>
     sk_fd (ss_slot ss' k) = sk_fd (ss_slot ss k)"

lemma meta_refl [simp]: "meta k ss ss"
  by (simp add: meta_def)

lemma meta_trans: "meta k a b \<Longrightarrow> meta k b c \<Longrightarrow> meta k a c"
  by (simp add: meta_def)

lemma ss_simps [simp]:
  "ss_slot (set_sock k s ss) j = (if j = k then s else ss_slot ss j)" "ss_out (set_sock k s ss) = ss_out ss"
  "ss_pipe (set_sock k s ss) = ss_pipe ss" "ss_os (set_sock k s ss) = ss_os ss" "ss_time (set_sock k s ss) = ss_time ss"
  "ss_slot (emit e ss) = ss_slot ss" "ss_out (emit e ss) = ss_out ss @ [e]" "ss_pipe (emit e ss) = ss_pipe ss"
  "ss_os (emit e ss) = ss_os ss" "ss_time (emit e ss) = ss_time ss"
  by (simp_all add: set_sock_def emit_def)

lemma force_close_ok:
  assumes "sk_type (ss_slot ss k) \<noteq> ST_RESERVE"
  shows "\<exists>m ss'. force_close k ss = Ok (m, ss') \<and> meta k ss ss' \<and> sk_type (ss_slot ss' k) = ST_INVALID"
  using assms by (auto simp: force_close_def Let_def meta_def)

text \<open>What a call that sends leaves: the stream goes on, or the connection is closed.\<close>

definition tx_next :: "nat \<Rightarrow> (bool \<times> sobj) list \<Rightarrow> socket_server \<Rightarrow> socket_server \<Rightarrow> bool" where
  "tx_next k ord ss ss' \<longleftrightarrow> meta k ss ss' \<and>
     (sk_type (ss_slot ss' k) = ST_INVALID \<or> (\<exists>o1 o2. tx_ok k o1 o2 ss' \<and> o1 @ o2 = ord))"

lemma tx_nextI: "meta k ss ss' \<Longrightarrow> tx_ok k o1 o2 ss' \<Longrightarrow> o1 @ o2 = ord \<Longrightarrow> tx_next k ord ss ss'"
  unfolding tx_next_def by blast

lemma send_list_tcp_cases:
  assumes ok: "tx_ok k o1 o2 ss" and wf: "\<forall>b \<in> set (sock_list high (ss_slot ss k)). wbuf_ok b"
  obtains (closed) r ss' where "send_list k high ss = Ok (Some r, ss')" "meta k ss ss'" "sk_type (ss_slot ss' k) = ST_INVALID"
  | (sent) ss' out l' s' where "send_list k high ss = Ok (None, ss')" "tcp_result (sock_list high (ss_slot ss k)) (ss_slot ss k) out l' s'"
      "ss_slot ss' k = set_list high l' s'" "ss_pipe ss' = ss_pipe ss"
      "wire (sk_fd (ss_slot ss k)) (ss_out ss') = wire (sk_fd (ss_slot ss k)) (ss_out ss) @ out"
proof -
  let ?s = "ss_slot ss k"
  obtain b ws l' s' outs where loop: "tcp_loop (ss_time ss) (os_write (ss_os ss)) (sock_list high ?s) ?s [] = (b, ws, l', s', outs)"
    by (metis prod_cases5)
  obtain out where out: "concat outs = out" "tcp_result (sock_list high ?s) ?s out l' s'" using tcp_loop_result [OF loop wf] by auto
  let ?ss1 = "(set_sock k (set_list high l' s') ss)\<lparr>ss_os := (ss_os ss)\<lparr>os_write := ws\<rparr>, ss_out := ss_out ss @ map (O_write (sk_fd ?s)) outs\<rparr>"
  have eq: "send_list k high ss = (if b then Ok (None, ?ss1) else res_bind (force_close k ?ss1) (\<lambda>(m, ss2). Ok (Some (SOCKET_CLOSE, m), ss2)))"
    using ok by (simp add: send_list_def send_list_tcp_def tx_ok_def loop Let_def)
  obtain st where s': "s' = ?s\<lparr>sk_stat := st, sk_wb_size := sk_wb_size s'\<rparr>" using out(2) by (auto simp: tcp_result_def)
  show ?thesis
  proof (cases b)
    case True
    show ?thesis by (rule sent [of ?ss1 out l' s']) (use eq True out in simp_all)
  next
    case False
    have "sk_id s' = sk_id ?s" "sk_protocol s' = sk_protocol ?s" "sk_sending s' = sk_sending ?s" "sk_type s' = sk_type ?s" "sk_fd s' = sk_fd ?s" by (subst s', simp)+
    then have m: "meta k ss ?ss1" "sk_type (ss_slot ?ss1 k) \<noteq> ST_RESERVE" using ok by (auto simp: meta_def set_list_def tx_ok_def)
    obtain mm ss2 where f: "force_close k ?ss1 = Ok (mm, ss2)" "meta k ?ss1 ss2" "sk_type (ss_slot ss2 k) = ST_INVALID"
      using force_close_ok [OF m(2)] by blast
    show ?thesis by (rule closed [of "(SOCKET_CLOSE, mm)" ss2]) (use eq False f meta_trans [OF m(1) f(2)] in simp_all)
  qed
qed

lemma tcp_result_fields:
  assumes "tcp_result l s out l' s'"
  shows "sk_id s' = sk_id s" "sk_protocol s' = sk_protocol s" "sk_sending s' = sk_sending s" "sk_type s' = sk_type s" "sk_fd s' = sk_fd s"
    "sk_dw s' = sk_dw s" "sk_high s' = sk_high s" "sk_low s' = sk_low s" "sk_wb_size s' = sk_wb_size s + total l' - total l"
  using assms by (auto simp: tcp_result_def)

lemma tcp_result_bytes:
  assumes "tcp_result l s out l' s'" "\<forall>b \<in> set l. wbuf_ok b"
  shows "concat (map wbuf_data l) = out @ concat (map wbuf_data l') \<and> (\<forall>b \<in> set l'. wbuf_ok b)"
proof -
  obtain d r n where d: "l = d @ r" "out = concat (map wbuf_data d) @ (case r of [] \<Rightarrow> [] | b # _ \<Rightarrow> take n (wbuf_data b))"
     "(case r of [] \<Rightarrow> l' = [] | b # bs \<Rightarrow> n < wbuf_sz b \<and> l' = wbuf_step n b # bs \<or> n = 0 \<and> l' = r)"
    using assms(1) unfolding tcp_result_def by blast
  show ?thesis
  proof (cases r)
    case Nil
    then show ?thesis using d assms(2) by simp
  next
    case (Cons b bs)
    then show ?thesis using d assms(2) wbuf_step_ok [of b n] by auto
  qed
qed

lemma send_high_ok:
  assumes ok: "tx_ok k o1 o2 ss" and dw: "sk_dw (ss_slot ss k) = None"
  shows "\<exists>r ss'. send_list k True ss = Ok (r, ss') \<and> meta k ss ss' \<and>
    (if r = None then tx_ok k o1 o2 ss' \<and> sk_dw (ss_slot ss' k) = None else sk_type (ss_slot ss' k) = ST_INVALID)"
proof -
  have live: "tx_live (ss_slot ss k) (wire (sk_fd (ss_slot ss k)) (ss_out ss)) o1 o2" using ok by (simp add: tx_ok_def)
  then have wf: "\<forall>b \<in> set (sock_list True (ss_slot ss k)). wbuf_ok b" by (simp add: tx_live_def sock_list_def)
  from ok wf show ?thesis
  proof (cases rule: send_list_tcp_cases)
    case (closed r ss')
    then show ?thesis by auto
  next
    case (sent ss' out l' s')
    note f = tcp_result_fields [OF sent(2)] and b = tcp_result_bytes [OF sent(2) wf]
    have "tx_live (ss_slot ss' k) (wire (sk_fd (ss_slot ss' k)) (ss_out ss')) o1 o2"
      using live b f sent(3,5) dw by (auto simp: tx_live_def sock_list_def set_list_def dw_rest_def)
    then show ?thesis using sent(1,3,4) f ok dw by (auto simp: tx_ok_def meta_def set_list_def)
  qed
qed

text \<open>After the low list: whole packages went out; a package of which only a part went out is moved to the high list.\<close>

lemma fresh_data: "wbuf_ok b \<Longrightarrow> wbuf_ptr b = 0 \<Longrightarrow> wbuf_data b = so_bytes (wbuf_obj b)"
  using wbuf_ok_data [of b] by simp

lemma packages_low: "\<forall>b \<in> set d. wbuf_ok b \<and> wbuf_ptr b = 0 \<Longrightarrow> packages (map low_label d) = concat (map wbuf_data d)"
  by (induction d) (auto simp: low_label_def fresh_data)

lemma uncomplete_step: "wbuf_ok b \<Longrightarrow> wbuf_ptr b = 0 \<Longrightarrow> list_uncomplete (wbuf_step n b # bs) \<longleftrightarrow> n \<noteq> 0"
  by (cases "wbuf_obj b") (auto simp: list_uncomplete_def wbuf_step_def wbuf_ok_def)

lemma low_complete: "\<forall>b \<in> set l. wbuf_ok b \<and> wbuf_ptr b = 0 \<Longrightarrow> \<not> list_uncomplete l"
  by (cases l; cases "wbuf_obj (hd l)") (auto simp: list_uncomplete_def wbuf_ok_def)

lemma wbuf_step_0 [simp]: "wbuf_step 0 b = b"
  by (simp add: wbuf_step_def)

definition raised :: "nat \<Rightarrow> socket_server \<Rightarrow> socket_server res" where
  "raised k ss = (if list_uncomplete (sk_low (ss_slot ss k)) then res_bind (raise_uncomplete (ss_slot ss k)) (\<lambda>s. Ok (set_sock k s ss)) else Ok ss)"

lemma send_low_ok:
  assumes ok: "tx_ok k o1 o2 ss" and dw: "sk_dw (ss_slot ss k) = None" and hi: "sk_high (ss_slot ss k) = []"
  shows "\<exists>r ss'. send_list k False ss = Ok (r, ss') \<and> meta k ss ss' \<and>
    (if r = None then (\<exists>ss2 o1' o2'. raised k ss' = Ok ss2 \<and> meta k ss ss2 \<and> tx_ok k o1' o2' ss2 \<and> o1' @ o2' = o1 @ o2 \<and>
        sk_dw (ss_slot ss2 k) = None \<and> (sk_high (ss_slot ss2 k) = [] \<longleftrightarrow> \<not> list_uncomplete (sk_low (ss_slot ss' k))))
     else sk_type (ss_slot ss' k) = ST_INVALID)"
proof -
  let ?s = "ss_slot ss k"
  have live: "tx_live ?s (wire (sk_fd ?s) (ss_out ss)) o1 o2" using ok by (simp add: tx_ok_def)
  then have low: "\<forall>b \<in> set (sk_low ?s). wbuf_ok b \<and> wbuf_ptr b = 0" by (simp add: tx_live_def)
  then have wf: "\<forall>b \<in> set (sock_list False ?s). wbuf_ok b" by (simp add: sock_list_def)
  have o1: "packages o1 = wire (sk_fd ?s) (ss_out ss)" and o2: "o2 = map low_label (sk_low ?s)" and sz: "sk_wb_size ?s = total (sk_low ?s)"
    using live dw hi by (simp_all add: tx_live_def dw_rest_def)
  from ok wf show ?thesis
  proof (cases rule: send_list_tcp_cases)
    case (closed r ss')
    then show ?thesis by auto
  next
    case (sent ss' out l' s')
    note f = tcp_result_fields [OF sent(2)] and b = tcp_result_bytes [OF sent(2) wf]
    have m: "meta k ss ss'" using sent(3,4) f by (simp add: meta_def set_list_def)
    have slot: "ss_slot ss' k = s'\<lparr>sk_low := l'\<rparr>" using sent(3) by (simp add: set_list_def)
    obtain d r n where d: "sk_low ?s = d @ r" "out = concat (map wbuf_data d) @ (case r of [] \<Rightarrow> [] | b # _ \<Rightarrow> take n (wbuf_data b))"
       "(case r of [] \<Rightarrow> l' = [] | b # bs \<Rightarrow> n < wbuf_sz b \<and> l' = wbuf_step n b # bs \<or> n = 0 \<and> l' = r)"
      using sent(2) unfolding tcp_result_def sock_list_def by auto
    have dp: "packages (map low_label d) = concat (map wbuf_data d)" using packages_low low d(1) by auto
    let ?fd = "sk_fd ?s"
    have "\<exists>ss2 o1' o2'. raised k ss' = Ok ss2 \<and> meta k ss ss2 \<and> tx_ok k o1' o2' ss2 \<and> o1' @ o2' = o1 @ o2 \<and>
        sk_dw (ss_slot ss2 k) = None \<and> (sk_high (ss_slot ss2 k) = [] \<longleftrightarrow> \<not> list_uncomplete (sk_low (ss_slot ss' k)))"
    proof (cases "list_uncomplete l'")
      case False
      then have l': "l' = r \<and> out = concat (map wbuf_data d)"
        using d(2,3) uncomplete_step [of _ n] low d(1) by (cases r) auto
      have "tx_live (ss_slot ss' k) (wire (sk_fd (ss_slot ss' k)) (ss_out ss')) (o1 @ map low_label d) (map low_label r)"
        using f sent(5) dw hi low d(1) l' o1 dp sz by (auto simp: tx_live_def slot dw_rest_def sock_list_def)
      then have "tx_ok k (o1 @ map low_label d) (map low_label r) ss'" using ok f by (simp add: tx_ok_def slot)
      moreover have "raised k ss' = Ok ss'" using False by (simp add: raised_def slot)
      moreover have "(o1 @ map low_label d) @ map low_label r = o1 @ o2" using o2 d(1) by simp
      ultimately show ?thesis using False m f dw hi by (intro exI [of _ ss'] exI [of _ "o1 @ map low_label d"] exI [of _ "map low_label r"]) (simp add: slot)
    next
      case True
      then obtain c bs where r: "r = c # bs" using d(3) by (cases r) (auto simp: list_uncomplete_def)
      have c: "wbuf_ok c" "wbuf_ptr c = 0" using low d(1) r by auto
      have "\<not> list_uncomplete r" using low_complete [of r] low d(1) by auto
      with True d(3) r have l': "l' = wbuf_step n c # bs" "n < wbuf_sz c" by auto
      let ?s2 = "s'\<lparr>sk_low := bs, sk_high := [wbuf_step n c]\<rparr>"
      have "raise_uncomplete (ss_slot ss' k) = Ok ?s2" using f hi by (simp add: raise_uncomplete_def slot l')
      then have rs: "raised k ss' = Ok (set_sock k ?s2 ss')" using True by (simp add: raised_def slot)
      have data: "so_bytes (wbuf_obj c) = take n (wbuf_data c) @ wbuf_data (wbuf_step n c)" and ok2: "wbuf_ok (wbuf_step n c)"
        using wbuf_step_ok [OF c(1), of n] l'(2) fresh_data [OF c] by auto
      let ?o = "o1 @ map low_label d @ [low_label c]"
      have tot: "total (sk_low ?s) = total d + int (wbuf_sz c) + total bs" using d(1) r by simp
      have "tx_live ?s2 (wire ?fd (ss_out ss')) ?o (map low_label bs)"
        using f sent(5) dw low d(1,2) r l' o1 dp sz data ok2 tot
        by (auto simp: tx_live_def dw_rest_def sock_list_def low_label_def)
      then have "tx_ok k ?o (map low_label bs) (set_sock k ?s2 ss')" using ok f by (simp add: tx_ok_def)
      moreover have "?o @ map low_label bs = o1 @ o2" using o2 d(1) r by simp
      moreover have "meta k ss (set_sock k ?s2 ss')" using m f by (simp add: meta_def)
      ultimately show ?thesis
        using rs True f dw by (intro exI [of _ "set_sock k ?s2 ss'"] exI [of _ ?o] exI [of _ "map low_label bs"]) (simp add: slot)
    qed
    then show ?thesis using sent(1) m by auto
  qed
qed

lemma tx_ok_emit [simp]: "out_bytes (sk_fd (ss_slot ss k)) e = [] \<Longrightarrow> tx_ok k o1 o2 (emit e ss) = tx_ok k o1 o2 ss"
  by (simp add: tx_ok_def)

lemma send_done_ok:
  assumes ok: "tx_ok k o1 o2 ss" and e: "sk_dw (ss_slot ss k) = None" "sk_high (ss_slot ss k) = []" "sk_low (ss_slot ss k) = []"
  shows "\<exists>r ss'. send_done k ss = Ok (r, ss') \<and> tx_next k (o1 @ o2) ss ss'"
proof -
  let ?s = "ss_slot ss k"
  let ?ss1 = "emit (O_arm (sk_fd ?s) False) ss"
  have live: "tx_live ?s (wire (sk_fd ?s) (ss_out ss)) o1 o2" and t: "sk_type ?s = ST_CONNECTED" using ok by (simp_all add: tx_ok_def)
  then have z: "sk_wb_size ?s = 0" using e by (simp add: tx_live_def)
  have "tx_ok k o1 o2 (set_sock k (?s\<lparr>sk_warn_size := 0\<rparr>) ?ss1)"
    using ok by (simp add: tx_ok_def tx_live_def dw_rest_def)
  then have "tx_next k (o1 @ o2) ss (set_sock k (?s\<lparr>sk_warn_size := 0\<rparr>) ?ss1)" "tx_next k (o1 @ o2) ss ?ss1"
    using ok by (auto intro!: tx_nextI simp: meta_def)
  then show ?thesis using e t z by (simp add: send_done_def Let_def send_buffer_empty_def)
qed

lemma tx_next_closed: "meta k ss ss' \<Longrightarrow> sk_type (ss_slot ss' k) = ST_INVALID \<Longrightarrow> tx_next k ord ss ss'"
  by (simp add: tx_next_def)

lemma tx_next_meta: "meta k ss ss1 \<Longrightarrow> tx_next k ord ss1 ss' \<Longrightarrow> tx_next k ord ss ss'"
  using meta_trans by (auto simp: tx_next_def)

text \<open>No assertion of \<open>send_buffer\<close> fails, and the order of the packages is kept.\<close>

lemma send_buffer1_ok:
  assumes ok: "tx_ok k o1 o2 ss" and dw: "sk_dw (ss_slot ss k) = None"
  shows "\<exists>r ss'. send_buffer1 k ss = Ok (r, ss') \<and> tx_next k (o1 @ o2) ss ss'"
proof -
  have "tx_live (ss_slot ss k) (wire (sk_fd (ss_slot ss k)) (ss_out ss)) o1 o2" using ok by (simp add: tx_ok_def)
  then have nc: "\<not> list_uncomplete (sk_low (ss_slot ss k))" by (intro low_complete) (simp add: tx_live_def)
  obtain r ss1 where h: "send_list k True ss = Ok (r, ss1)" "meta k ss ss1"
      "if r = None then tx_ok k o1 o2 ss1 \<and> sk_dw (ss_slot ss1 k) = None else sk_type (ss_slot ss1 k) = ST_INVALID"
    using send_high_ok [OF ok dw] by blast
  show ?thesis
  proof (cases "r = None \<and> sk_high (ss_slot ss1 k) = []")
    case False
    have "tx_next k (o1 @ o2) ss ss1" using h(2,3) by (cases "r = None") (auto intro: tx_nextI tx_next_closed)
    moreover have "send_buffer1 k ss = Ok (r, ss1)" using False h(1) nc by (cases "r = None") (simp_all add: send_buffer1_def)
    ultimately show ?thesis by blast
  next
    case True
    then have ok1: "tx_ok k o1 o2 ss1" "sk_dw (ss_slot ss1 k) = None" "sk_high (ss_slot ss1 k) = []" using h(3) by auto
    show ?thesis
    proof (cases "sk_low (ss_slot ss1 k) = []")
      case empty: True
      obtain r4 ss4 where "send_done k ss1 = Ok (r4, ss4)" "tx_next k (o1 @ o2) ss1 ss4" using send_done_ok [OF ok1 empty] by blast
      moreover have "send_buffer1 k ss = send_done k ss1" using h(1) nc True empty by (simp add: send_buffer1_def)
      ultimately show ?thesis using tx_next_meta [OF h(2)] by auto
    next
      case False
      obtain r2 ss2 where l: "send_list k False ss1 = Ok (r2, ss2)" "meta k ss1 ss2" and
        c: "if r2 = None then (\<exists>ss3 o1' o2'. raised k ss2 = Ok ss3 \<and> meta k ss1 ss3 \<and> tx_ok k o1' o2' ss3 \<and> o1' @ o2' = o1 @ o2 \<and>
            sk_dw (ss_slot ss3 k) = None \<and> (sk_high (ss_slot ss3 k) = [] \<longleftrightarrow> \<not> list_uncomplete (sk_low (ss_slot ss2 k))))
          else sk_type (ss_slot ss2 k) = ST_INVALID"
        using send_low_ok [OF ok1] by blast
      show ?thesis
      proof (cases "r2 = None")
        case no: False
        then have "send_buffer1 k ss = Ok (r2, ss2)" using h(1) nc True False l(1) by (auto simp: send_buffer1_def)
        moreover have "tx_next k (o1 @ o2) ss ss2" using tx_next_closed [OF meta_trans [OF h(2) l(2)]] c no by simp
        ultimately show ?thesis by blast
      next
        case none: True
        then obtain ss3 o1' o2' where s3: "raised k ss2 = Ok ss3" "meta k ss1 ss3" "tx_ok k o1' o2' ss3" "o1' @ o2' = o1 @ o2"
            "sk_dw (ss_slot ss3 k) = None" "sk_high (ss_slot ss3 k) = [] \<longleftrightarrow> \<not> list_uncomplete (sk_low (ss_slot ss2 k))" using c by auto
        have n3: "tx_next k (o1 @ o2) ss ss3" using tx_nextI [OF meta_trans [OF h(2) s3(2)] s3(3,4)] .
        have eq: "send_buffer1 k ss = (if list_uncomplete (sk_low (ss_slot ss2 k)) then
            res_bind (raise_uncomplete (ss_slot ss2 k)) (\<lambda>s. Ok (None, set_sock k s ss2))
          else if sk_low (ss_slot ss2 k) \<noteq> [] then Ok (None, ss2) else send_done k ss2)"
          using h(1) nc True False l(1) none by (simp add: send_buffer1_def)
        show ?thesis
        proof (cases "list_uncomplete (sk_low (ss_slot ss2 k))")
          case u: True
          then have "send_buffer1 k ss = Ok (None, ss3)" using eq s3(1) by (auto simp: raised_def)
          then show ?thesis using n3 by blast
        next
          case u: False
          then have [simp]: "ss3 = ss2" using s3(1) by (simp add: raised_def)
          show ?thesis
          proof (cases "sk_low (ss_slot ss2 k) = []")
            case e: True
            have "sk_high (ss_slot ss3 k) = []" using s3(6) u by simp
            from send_done_ok [OF s3(3,5) this] e obtain r4 ss4 where "send_done k ss2 = Ok (r4, ss4)" "tx_next k (o1 @ o2) ss2 ss4"
              using s3(4) by auto
            then show ?thesis using eq u e tx_next_meta [OF meta_trans [OF h(2) l(2)]] by auto
          qed (use eq u n3 in auto)
        qed
      qed
    qed
  qed
qed

lemma take_lock_simps [simp]:
  "take_lock ss = (b, ss1) \<Longrightarrow> ss_slot ss1 = ss_slot ss" "take_lock ss = (b, ss1) \<Longrightarrow> ss_out ss1 = ss_out ss"
  "take_lock ss = (b, ss1) \<Longrightarrow> ss_pipe ss1 = ss_pipe ss"
  by (auto simp: take_lock_def split: list.splits)

lemma send_buffer_ok:
  assumes ok: "tx_ok k o1 o2 ss"
  shows "\<exists>r ss'. send_buffer k ss = Ok (r, ss') \<and> tx_next k (o1 @ o2) ss ss'"
proof -
  obtain got ss1 where lk: "take_lock ss = (got, ss1)" by (cases "take_lock ss")
  note same = take_lock_simps [OF lk]
  have ok1: "tx_ok k o1 o2 ss1" using ok same by (simp add: tx_ok_def)
  show ?thesis
  proof (cases got)
    case False
    then show ?thesis using lk ok1 same by (auto simp: send_buffer_def meta_def intro!: tx_nextI)
  next
    case True
    let ?s = "ss_slot ss1 k"
    let ?ss2 = "set_sock k (add_direct ?s) ss1"
    have live: "tx_live ?s (wire (sk_fd ?s) (ss_out ss1)) o1 o2" using ok1 by (simp add: tx_ok_def)
    have "tx_live (add_direct ?s) (wire (sk_fd ?s) (ss_out ss1)) o1 o2 \<and> sk_dw (add_direct ?s) = None"
    proof (cases "sk_dw ?s")
      case None
      then show ?thesis using live by (simp add: add_direct_def)
    next
      case (Some d)
      obtain b off where d: "d = (b, off)" by (cases d)
      show ?thesis using live Some d by (auto simp: add_direct_def tx_live_def dw_rest_def wbuf_ok_def wbuf_data_def Let_def)
    qed
    moreover have f: "sk_type (add_direct ?s) = sk_type ?s" "sk_protocol (add_direct ?s) = sk_protocol ?s" "sk_fd (add_direct ?s) = sk_fd ?s"
        "sk_id (add_direct ?s) = sk_id ?s" "sk_sending (add_direct ?s) = sk_sending ?s"
      by (auto simp: add_direct_def Let_def split: option.splits)
    ultimately have "tx_ok k o1 o2 ?ss2" "sk_dw (ss_slot ?ss2 k) = None" using ok1 by (simp_all add: tx_ok_def)
    from send_buffer1_ok [OF this] obtain r ss' where "send_buffer1 k ?ss2 = Ok (r, ss')" "tx_next k (o1 @ o2) ?ss2 ss'" by blast
    moreover have "meta k ss ?ss2" using same f by (simp add: meta_def)
    ultimately show ?thesis using lk True tx_next_meta by (auto simp: send_buffer_def)
  qed
qed

section \<open>The counter of requests under way\<close>

lemma tag_count:
  assumes "n < 2 ^ 16"
  shows "drop_bit 16 (push_bit 16 (ID_TAG16 i) + of_nat n) = ID_TAG16 i" "(push_bit 16 (ID_TAG16 i) + of_nat n) AND 0xffff = of_nat n"
proof -
  have "ID_TAG16 i = take_bit 16 (drop_bit 16 i)" by (simp add: ID_TAG16_def take_bit_eq_mask mask_eq_exp_minus_1)
  then have t: "unat (ID_TAG16 i) < 2 ^ 16" by (simp only: unsigned_take_bit_eq take_bit_nat_less_exp)
  have "unat (push_bit 16 (ID_TAG16 i)) = unat (ID_TAG16 i) * 2 ^ 16"
    using t by (simp add: push_bit_eq_mult unat_word_ariths)
  moreover have "unat (of_nat n :: u32) = n" using assms by (simp add: unat_of_nat)
  ultimately have u: "unat (push_bit 16 (ID_TAG16 i) + of_nat n) = unat (ID_TAG16 i) * 2 ^ 16 + n"
    using t assms by (simp add: unat_word_ariths)
  have "drop_bit 16 (unat (ID_TAG16 i) * 2 ^ 16 + n) = unat (ID_TAG16 i)" using assms by (simp add: drop_bit_eq_div)
  then show "drop_bit 16 (push_bit 16 (ID_TAG16 i) + of_nat n) = ID_TAG16 i"
    by (simp only: word_unat_eq_iff unat_drop_bit_eq u)
  have "(push_bit 16 (ID_TAG16 i) + of_nat n) AND 0xffff = take_bit 16 (push_bit 16 (ID_TAG16 i) + of_nat n)"
    by (simp add: take_bit_eq_mask mask_eq_exp_minus_1)
  moreover have "take_bit 16 (unat (ID_TAG16 i) * 2 ^ 16 + n) = n" using assms by (simp add: take_bit_eq_mod)
  then have "unat (take_bit 16 (push_bit 16 (ID_TAG16 i) + of_nat n)) = n" by (simp only: unsigned_take_bit_eq u)
  ultimately show "(push_bit 16 (ID_TAG16 i) + of_nat n) AND 0xffff = of_nat n"
    using assms by (simp add: word_unat_eq_iff unat_of_nat)
qed

section \<open>Runs of one connection\<close>

text \<open>Threads send with high or low priority, the socket thread takes the next request from the pipe, or the kernel reports that the
  socket can be written.\<close>

datatype sock_op = Op_send sobj | Op_low sobj | Op_ctrl | Op_ready

fun op_plain :: "sock_op \<Rightarrow> bool" where
  "op_plain (Op_send b) = plain b"
| "op_plain (Op_low b) = plain b"
| "op_plain _ = True"

definition write_event :: "nat \<Rightarrow> event" where
  "write_event k = \<lparr>ev_slot = Some k, ev_read = False, ev_write = True, ev_error = False, ev_eof = False\<rparr>"

text \<open>The packages a call has accepted (it returned 0), with their priority.\<close>

definition sock_op_run :: "u32 \<Rightarrow> sock_op \<Rightarrow> socket_server \<Rightarrow> ((bool \<times> sobj) list \<times> socket_server) res" where
  "sock_op_run i op ss =
     (case op of
        Op_send b \<Rightarrow> res_bind (socket_server_send i b ss) (\<lambda>(r, ss1). Ok (if r = 0 then [(True, b)] else [], ss1))
      | Op_low b \<Rightarrow> res_bind (socket_server_send_lowpriority i b ss) (\<lambda>(r, ss1). Ok (if r = 0 then [(False, b)] else [], ss1))
      | Op_ctrl \<Rightarrow> if ss_pipe ss = [] then Ok ([], ss) else res_bind (ctrl_cmd ss) (\<lambda>(_, ss1). Ok ([], ss1))
      | Op_ready \<Rightarrow> res_bind (handle_event 0 (write_event (HASH_ID i)) (HASH_ID i) ss) (\<lambda>(_, ss1). Ok ([], ss1)))"

fun sock_run :: "u32 \<Rightarrow> sock_op list \<Rightarrow> socket_server \<Rightarrow> ((bool \<times> sobj) list \<times> socket_server) res" where
  "sock_run i [] ss = Ok ([], ss)"
| "sock_run i (op # ops) ss =
     res_bind (sock_op_run i op ss) (\<lambda>(a, ss1). res_bind (sock_run i ops ss1) (\<lambda>(b, ss2). Ok (a @ b, ss2)))"

fun piped :: "request list \<Rightarrow> (bool \<times> sobj) list" where
  "piped (Req_send i b # r) = (True, b) # piped r"
| "piped (Req_send_low i b # r) = (False, b) # piped r"
| "piped _ = []"

definition of_prio :: "bool \<Rightarrow> (bool \<times> sobj) list \<Rightarrow> sobj list" where
  "of_prio p l = map snd (filter (\<lambda>x. fst x = p) l)"

lemma of_prio_simps [simp]: "of_prio p [] = []" "of_prio p ((q, b) # l) = (if q = p then b # of_prio p l else of_prio p l)"
    "of_prio p (a @ l) = of_prio p a @ of_prio p l"
  by (simp_all add: of_prio_def)

definition own_request :: "u32 \<Rightarrow> request \<Rightarrow> bool" where
  "own_request i rq \<longleftrightarrow> (\<exists>b. (rq = Req_send i b \<or> rq = Req_send_low i b) \<and> plain b)"

lemma piped_append: "\<forall>rq \<in> set l. own_request i rq \<Longrightarrow> own_request i rq \<Longrightarrow> piped (l @ [rq]) = piped l @ piped [rq]"
  by (induction l) (auto simp: own_request_def)

text \<open>Same accepted packages per priority.\<close>

definition same_prio :: "(bool \<times> sobj) list \<Rightarrow> (bool \<times> sobj) list \<Rightarrow> bool" where
  "same_prio a b \<longleftrightarrow> (\<forall>p. of_prio p a = of_prio p b)"

definition tx_inv :: "int \<Rightarrow> u32 \<Rightarrow> (bool \<times> sobj) list \<Rightarrow> socket_server \<Rightarrow> bool" where
  "tx_inv fd i acc ss \<longleftrightarrow>
     (let s = ss_slot ss (HASH_ID i) in
      sk_id s = i \<and> sk_fd s = fd \<and> sk_protocol s = PROTOCOL_TCP \<and>
      sk_sending s = push_bit 16 (ID_TAG16 i) + of_nat (length (ss_pipe ss)) \<and>
      (\<forall>rq \<in> set (ss_pipe ss). own_request i rq) \<and>
      (sk_type s = ST_INVALID \<or> (\<exists>o1 o2. tx_ok (HASH_ID i) o1 o2 ss \<and> same_prio (o1 @ o2 @ piped (ss_pipe ss)) acc)))"

lemma tx_inv_next:
  assumes inv: "tx_inv fd i acc ss" and ok: "tx_ok (HASH_ID i) o1 o2 ss" "same_prio (o1 @ o2 @ piped (ss_pipe ss)) acc"
    and nx: "tx_next (HASH_ID i) (o1 @ o2) ss ss'"
  shows "tx_inv fd i acc ss'"
proof -
  have m: "meta (HASH_ID i) ss ss'" using nx by (simp add: tx_next_def)
  consider "sk_type (ss_slot ss' (HASH_ID i)) = ST_INVALID" | a b where "tx_ok (HASH_ID i) a b ss'" "a @ b = o1 @ o2"
    using nx unfolding tx_next_def by blast
  then show ?thesis
  proof cases
    case 1
    then show ?thesis using inv m by (simp add: tx_inv_def meta_def Let_def)
  next
    case (2 a b)
    then have "same_prio (a @ b @ piped (ss_pipe ss')) acc" using ok(2) m by (metis append.assoc meta_def)
    then show ?thesis using inv m 2(1) unfolding tx_inv_def meta_def Let_def by auto
  qed
qed

lemma tx_inv_cases:
  assumes "tx_inv fd i acc ss"
  obtains "sk_type (ss_slot ss (HASH_ID i)) = ST_INVALID"
  | o1 o2 where "tx_ok (HASH_ID i) o1 o2 ss" "same_prio (o1 @ o2 @ piped (ss_pipe ss)) acc" "sk_type (ss_slot ss (HASH_ID i)) = ST_CONNECTED"
  using assms unfolding tx_inv_def Let_def tx_ok_def by blast

lemma op_ready_inv:
  assumes inv: "tx_inv fd i acc ss"
  shows "\<exists>ss'. sock_op_run i Op_ready ss = Ok ([], ss') \<and> tx_inv fd i acc ss' \<and> ss_pipe ss' = ss_pipe ss"
  using inv
proof (cases rule: tx_inv_cases)
  case 1
  then show ?thesis using inv by (simp add: sock_op_run_def handle_event_def)
next
  case (2 o1 o2)
  obtain r ss' where s: "send_buffer (HASH_ID i) ss = Ok (r, ss')" "tx_next (HASH_ID i) (o1 @ o2) ss ss'" using send_buffer_ok [OF 2(1)] by blast
  have "sock_op_run i Op_ready ss = Ok ([], ss')" using s(1) 2(3) by (simp add: sock_op_run_def handle_event_def write_event_def)
  then show ?thesis using tx_inv_next [OF inv 2(1,2) s(2)] s(2) by (auto simp: tx_next_def meta_def)
qed

text \<open>A request goes into the pipe.\<close>

lemma queue_inv:
  assumes inv: "tx_inv fd i acc ss" and n: "length (ss_pipe ss) < 2 ^ 16 - 1" and rq: "own_request i rq" "piped [rq] = [(p, b)]"
  shows "\<exists>ss1. inc_sending_ref i ss = Ok ss1 \<and> ss_pipe ss1 = ss_pipe ss \<and>
    (sk_type (ss_slot ss (HASH_ID i)) = ST_CONNECTED \<longrightarrow> tx_inv fd i (acc @ [(p, b)]) (send_request rq ss1))"
proof -
  let ?k = "HASH_ID i" and ?s = "ss_slot ss (HASH_ID i)"
  let ?n = "length (ss_pipe ss)"
  have s: "sk_id ?s = i" "sk_protocol ?s = PROTOCOL_TCP" "sk_sending ?s = push_bit 16 (ID_TAG16 i) + of_nat ?n"
      "\<forall>rq \<in> set (ss_pipe ss). own_request i rq" "sk_fd ?s = fd" using inv by (simp_all add: tx_inv_def Let_def)
  have "(of_nat ?n :: u32) \<noteq> 0xffff" using n by (auto simp: word_unat_eq_iff unat_of_nat)
  then have inc: "inc_sending_ref i ss = Ok (set_sock ?k (?s\<lparr>sk_sending := sk_sending ?s + 1\<rparr>) ss)"
    using s tag_count [of ?n i] n by (simp add: inc_sending_ref_def Let_def)
  let ?ss1 = "set_sock ?k (?s\<lparr>sk_sending := sk_sending ?s + 1\<rparr>) ss"
  have "tx_inv fd i (acc @ [(p, b)]) (send_request rq ?ss1)" if t: "sk_type ?s = ST_CONNECTED"
  proof -
    obtain o1 o2 where ok: "tx_ok ?k o1 o2 ss" "same_prio (o1 @ o2 @ piped (ss_pipe ss)) acc" using inv t by (auto simp: tx_inv_def Let_def)
    have "tx_ok ?k o1 o2 (send_request rq ?ss1)" using ok(1) by (simp add: tx_ok_def tx_live_def dw_rest_def send_request_def)
    moreover have "same_prio (o1 @ o2 @ piped (ss_pipe ss @ [rq])) (acc @ [(p, b)])"
      using ok(2) piped_append [OF s(4) rq(1)] rq(2) by (simp add: same_prio_def)
    ultimately show ?thesis using s rq(1) by (auto simp: tx_inv_def Let_def send_request_def)
  qed
  then show ?thesis using inc by simp
qed

lemma direct_write_ok:
  assumes ok: "tx_ok k o1 o2 ss" and e: "send_buffer_empty (ss_slot ss k)" "sk_dw (ss_slot ss k) = None" and b: "plain b"
  shows "tx_ok k (o1 @ [(p, b)]) [] (direct_write_tcp k b ss) \<and> meta k ss (direct_write_tcp k b ss) \<and> o2 = []"
proof -
  obtain r ss1 where r: "take_write ss = (r, ss1)" by (cases "take_write ss")
  have same: "ss_slot ss1 = ss_slot ss" "ss_out ss1 = ss_out ss" "ss_pipe ss1 = ss_pipe ss"
    using r by (auto simp: take_write_def split: list.splits)
  define n where "n = (case r of W m \<Rightarrow> min m (length (so_bytes b)) | _ \<Rightarrow> 0)"
  have n: "n \<le> length (so_bytes b)" by (auto simp: n_def split: wres.splits)
  have eq: "direct_write_tcp k b ss = direct_rest k b n (emit (O_write (sk_fd (ss_slot ss k)) (take n (so_bytes b))) ss1)"
    by (simp add: direct_write_tcp_def r n_def same Let_def)
  have live: "packages o1 = wire (sk_fd (ss_slot ss k)) (ss_out ss)" "o2 = []" "sk_wb_size (ss_slot ss k) = 0"
    using ok e by (simp_all add: tx_ok_def tx_live_def send_buffer_empty_def dw_rest_def)
  show ?thesis
    using ok e b n live same unfolding eq direct_rest_def
    by (auto simp: Let_def tx_ok_def tx_live_def meta_def stat_write_def send_buffer_empty_def dw_rest_def)
qed

lemma op_send_inv:
  assumes inv: "tx_inv fd i acc ss" and n: "length (ss_pipe ss) < 2 ^ 16 - 1" and b: "plain b"
  shows "\<exists>a ss'. sock_op_run i (Op_send b) ss = Ok (a, ss') \<and> tx_inv fd i (acc @ a) ss' \<and> length (ss_pipe ss') \<le> Suc (length (ss_pipe ss))"
proof -
  let ?k = "HASH_ID i" and ?s = "ss_slot ss (HASH_ID i)"
  have s: "sk_id ?s = i" "sk_protocol ?s = PROTOCOL_TCP" "sk_sending ?s = push_bit 16 (ID_TAG16 i) + of_nat (length (ss_pipe ss))"
    "sk_fd ?s = fd" using inv by (simp_all add: tx_inv_def Let_def)
  from inv show ?thesis
  proof (cases rule: tx_inv_cases)
    case 1
    then show ?thesis using inv s by (simp add: sock_op_run_def socket_server_send_def Let_def)
  next
    case (2 o1 o2)
    let ?queue = "\<lambda>ss. res_bind (inc_sending_ref i ss) (\<lambda>ss1. Ok (0 :: int, send_request (Req_send i b) ss1))"
    have queue: "\<exists>ss'. ?queue ss0 = Ok (0, ss') \<and> tx_inv fd i (acc @ [(True, b)]) ss' \<and> length (ss_pipe ss') = Suc (length (ss_pipe ss))"
      if "ss_slot ss0 = ss_slot ss" "ss_out ss0 = ss_out ss" "ss_pipe ss0 = ss_pipe ss" for ss0
    proof -
      note same = that
      have "tx_inv fd i acc ss0" using inv same by (simp add: tx_inv_def tx_ok_def)
      then obtain ss1 where "inc_sending_ref i ss0 = Ok ss1" "ss_pipe ss1 = ss_pipe ss0"
          "tx_inv fd i (acc @ [(True, b)]) (send_request (Req_send i b) ss1)"
        using queue_inv [of fd i acc ss0 "Req_send i b" True b] n b same 2(3) by (auto simp: own_request_def)
      then show ?thesis using same by (simp add: send_request_def)
    qed
    show ?thesis
    proof (cases "can_direct_write ?s i \<and> fst (take_lock ss)")
      case True
      obtain ss1 where lk: "take_lock ss = (True, ss1)" using True by (cases "take_lock ss") auto
      note same = take_lock_simps [OF lk]
      have e: "send_buffer_empty ?s" "sk_dw ?s = None" "sk_sending ?s AND 0xffff = 0"
        using True by (simp_all add: can_direct_write_def nomore_sending_data_def)
      have "(of_nat (length (ss_pipe ss)) :: u32) = 0" using e(3) s(3) tag_count(2) [of "length (ss_pipe ss)" i] n by simp
      then have p: "ss_pipe ss = []" using n by (simp add: word_unat_eq_iff unat_of_nat)
      have "tx_ok ?k o1 o2 ss1" using 2(1) same by (simp add: tx_ok_def)
      from direct_write_ok [OF this _ _ b, of True] e same
      have d: "tx_ok ?k (o1 @ [(True, b)]) [] (direct_write_tcp ?k b ss1)" "meta ?k ss1 (direct_write_tcp ?k b ss1)" "o2 = []" by simp_all
      have "tx_inv fd i (acc @ [(True, b)]) (direct_write_tcp ?k b ss1)"
        unfolding tx_inv_def Let_def
      proof (intro conjI disjI2 exI)
        show "tx_ok ?k (o1 @ [(True, b)]) [] (direct_write_tcp ?k b ss1)" by (rule d(1))
        show "same_prio ((o1 @ [(True, b)]) @ [] @ piped (ss_pipe (direct_write_tcp ?k b ss1))) (acc @ [(True, b)])"
          using 2(2) d(2,3) p same by (simp add: same_prio_def meta_def)
      qed (use d(2) s p same in \<open>simp_all add: meta_def\<close>)
      moreover have "sock_op_run i (Op_send b) ss = Ok ([(True, b)], direct_write_tcp ?k b ss1)"
        using True s lk 2(3) by (simp add: sock_op_run_def socket_server_send_def Let_def)
      moreover have "ss_pipe (direct_write_tcp ?k b ss1) = ss_pipe ss" using d(2) same by (simp add: meta_def)
      ultimately show ?thesis by auto
    next
      case False
      define ss0 where "ss0 = (if can_direct_write ?s i then snd (take_lock ss) else ss)"
      have same: "ss_slot ss0 = ss_slot ss" "ss_out ss0 = ss_out ss" "ss_pipe ss0 = ss_pipe ss"
        unfolding ss0_def by (simp_all add: take_lock_simps [of ss "fst (take_lock ss)"])
      have "socket_server_send i b ss = ?queue ss0"
        using False s 2(3) unfolding ss0_def by (cases "take_lock ss") (auto simp: socket_server_send_def Let_def)
      then show ?thesis using queue [OF same] by (auto simp: sock_op_run_def)
    qed
  qed
qed

lemma op_low_inv:
  assumes inv: "tx_inv fd i acc ss" and n: "length (ss_pipe ss) < 2 ^ 16 - 1" and b: "plain b"
  shows "\<exists>a ss'. sock_op_run i (Op_low b) ss = Ok (a, ss') \<and> tx_inv fd i (acc @ a) ss' \<and> length (ss_pipe ss') \<le> Suc (length (ss_pipe ss))"
proof -
  have s: "sk_id (ss_slot ss (HASH_ID i)) = i" using inv by (simp add: tx_inv_def Let_def)
  from inv show ?thesis
  proof (cases rule: tx_inv_cases)
    case 1
    then show ?thesis using inv s by (simp add: sock_op_run_def socket_server_send_lowpriority_def Let_def)
  next
    case (2 o1 o2)
    obtain ss1 where "inc_sending_ref i ss = Ok ss1" "ss_pipe ss1 = ss_pipe ss" "tx_inv fd i (acc @ [(False, b)]) (send_request (Req_send_low i b) ss1)"
      using queue_inv [OF inv n, of "Req_send_low i b" False b] b 2(3) by (auto simp: own_request_def)
    then show ?thesis using s 2(3) by (auto simp: sock_op_run_def socket_server_send_lowpriority_def Let_def send_request_def)
  qed
qed

lemma check_warning_ok:
  assumes "tx_ok k o1 o2 ss" "check_warning k ss = (r, ss')"
  shows "tx_ok k o1 o2 ss' \<and> meta k ss ss'"
  using assms by (auto simp: check_warning_def Let_def tx_ok_def tx_live_def meta_def dw_rest_def split: if_splits)

lemma new_buffer_ok: "plain b \<Longrightarrow> wbuf_ok (new_buffer b None) \<and> wbuf_ptr (new_buffer b None) = 0 \<and> wbuf_obj (new_buffer b None) = b \<and>
    wbuf_data (new_buffer b None) = so_bytes b \<and> wbuf_sz (new_buffer b None) = length (so_bytes b)"
  by (simp add: new_buffer_def wbuf_ok_def wbuf_data_def)

lemma append_high_ok:
  assumes "tx_ok k o1 o2 ss" "plain b"
  shows "tx_ok k (o1 @ [(p, b)]) o2 (set_sock k (append_sendbuffer b (ss_slot ss k)) ss) \<and>
    meta k ss (set_sock k (append_sendbuffer b (ss_slot ss k)) ss)"
  using assms new_buffer_ok [OF assms(2)]
  by (auto simp: tx_ok_def tx_live_def meta_def append_sendbuffer_def append_sendbuffer1_def set_list_def sock_list_def dw_rest_def)

lemma append_low_ok:
  assumes "tx_ok k o1 o2 ss" "plain b"
  shows "tx_ok k o1 (o2 @ [(False, b)]) (set_sock k (append_sendbuffer_low b (ss_slot ss k)) ss) \<and>
    meta k ss (set_sock k (append_sendbuffer_low b (ss_slot ss k)) ss)"
  using assms new_buffer_ok [OF assms(2)]
  by (auto simp: tx_ok_def tx_live_def meta_def append_sendbuffer_low_def append_sendbuffer1_def set_list_def sock_list_def dw_rest_def low_label_def)

text \<open>The socket thread takes a package from the pipe: it goes to the end of its priority.\<close>

lemma send_socket_ok:
  assumes ok: "tx_ok (HASH_ID i) o1 o2 ss" and s: "sk_id (ss_slot ss (HASH_ID i)) = i" and b: "plain b"
  shows "\<exists>r ss' a c. send_socket i b p None ss = (r, ss') \<and> tx_ok (HASH_ID i) a c ss' \<and> meta (HASH_ID i) ss ss' \<and>
    same_prio (a @ c) (o1 @ o2 @ [(p, b)])"
proof -
  let ?k = "HASH_ID i" and ?s = "ss_slot ss (HASH_ID i)"
  have t: "sk_type ?s = ST_CONNECTED" "sk_protocol ?s = PROTOCOL_TCP" using ok by (simp_all add: tx_ok_def)
  have low: "of_prio True o2 = []" using ok by (auto simp: tx_ok_def tx_live_def of_prio_def low_label_def filter_empty_conv)
  have finish: "\<exists>r ss' a c. check_warning ?k ss1 = (r, ss') \<and> tx_ok ?k a c ss' \<and> meta ?k ss ss' \<and> same_prio (a @ c) (o1 @ o2 @ [(p, b)])"
    if "tx_ok ?k a c ss1" "meta ?k ss ss1" "same_prio (a @ c) (o1 @ o2 @ [(p, b)])" for a c ss1
  proof -
    obtain r ss' where w: "check_warning ?k ss1 = (r, ss')" by (cases "check_warning ?k ss1")
    show ?thesis using check_warning_ok [OF that(1) w] meta_trans [OF that(2)] that(3) w by blast
  qed
  show ?thesis
  proof (cases "send_buffer_empty ?s")
    case True
    let ?ss1 = "emit (O_arm (sk_fd ?s) True) (set_sock ?k (append_sendbuffer b ?s) ss)"
    have o2: "o2 = []" using ok True by (simp add: tx_ok_def tx_live_def send_buffer_empty_def)
    have "tx_ok ?k (o1 @ [(p, b)]) o2 ?ss1" "meta ?k ss ?ss1" using append_high_ok [OF ok b, of p] by (auto simp: tx_ok_def meta_def)
    moreover have "send_socket i b p None ss = check_warning ?k ?ss1" using t s True by (simp add: send_socket_def Let_def)
    ultimately show ?thesis using finish o2 by (simp add: same_prio_def)
  next
    case False
    show ?thesis
    proof (cases p)
      case True
      have "send_socket i b p None ss = check_warning ?k (set_sock ?k (append_sendbuffer b ?s) ss)" using t s False True by (simp add: send_socket_def Let_def)
      moreover have "same_prio ((o1 @ [(p, b)]) @ o2) (o1 @ o2 @ [(p, b)])" using low True by (auto simp: same_prio_def)
      ultimately show ?thesis using finish append_high_ok [OF ok b, of p] by metis
    next
      case lowp: False
      have "send_socket i b p None ss = check_warning ?k (set_sock ?k (append_sendbuffer_low b ?s) ss)"
        using t s False lowp by (simp add: send_socket_def Let_def)
      moreover have "same_prio (o1 @ o2 @ [(False, b)]) (o1 @ o2 @ [(p, b)])" using lowp by (simp add: same_prio_def)
      ultimately show ?thesis using finish append_low_ok [OF ok b] by metis
    qed
  qed
qed

lemma dec_sending_ok:
  assumes "sk_id (ss_slot ss (HASH_ID i)) = i" "sk_protocol (ss_slot ss (HASH_ID i)) = PROTOCOL_TCP"
    "sk_sending (ss_slot ss (HASH_ID i)) = push_bit 16 (ID_TAG16 i) + of_nat (Suc n)" "Suc n < 2 ^ 16"
  shows "dec_sending_ref i ss = Ok (set_sock (HASH_ID i) ((ss_slot ss (HASH_ID i))\<lparr>sk_sending := push_bit 16 (ID_TAG16 i) + of_nat n\<rparr>) ss)"
proof -
  have "(of_nat (Suc n) :: u32) \<noteq> 0" using assms(4) by (simp add: word_unat_eq_iff unat_of_nat del: of_nat_Suc)
  then have "sk_sending (ss_slot ss (HASH_ID i)) AND 0xffff \<noteq> 0" using tag_count(2) [OF assms(4)] assms(3) by simp
  moreover have "sk_sending (ss_slot ss (HASH_ID i)) - 1 = push_bit 16 (ID_TAG16 i) + of_nat n" using assms(3) by simp
  ultimately show ?thesis using assms(1,2) by (simp add: dec_sending_ref_def Let_def)
qed

lemma ctrl_send:
  assumes inv: "tx_inv fd i acc ss" and n: "length (ss_pipe ss) < 2 ^ 16" and pipe: "ss_pipe ss = rq # rest"
    and rq: "piped [rq] = [(p, b)]" "plain b" "handle_request rq = (\<lambda>ss. case send_socket i b p None ss of (r, ss1) \<Rightarrow>
      res_bind (dec_sending_ref i ss1) (\<lambda>ss2. Ok (r, ss2)))" and pr: "piped (rq # rest) = (p, b) # piped rest"
  shows "\<exists>r ss'. ctrl_cmd ss = Ok (r, ss') \<and> tx_inv fd i acc ss' \<and> ss_pipe ss' = rest"
proof -
  let ?k = "HASH_ID i" and ?s = "ss_slot ss (HASH_ID i)" and ?ss0 = "ss\<lparr>ss_pipe := rest\<rparr>"
  let ?dec = "\<lambda>ss. set_sock ?k ((ss_slot ss ?k)\<lparr>sk_sending := push_bit 16 (ID_TAG16 i) + of_nat (length rest)\<rparr>) ss"
  have s: "sk_id ?s = i" "sk_protocol ?s = PROTOCOL_TCP" "sk_sending ?s = push_bit 16 (ID_TAG16 i) + of_nat (Suc (length rest))"
      "\<forall>rq \<in> set rest. own_request i rq" "sk_fd ?s = fd" using inv pipe by (simp_all add: tx_inv_def Let_def)
  have dec: "dec_sending_ref i ss1 = Ok (?dec ss1)" if "meta ?k ?ss0 ss1" for ss1
    by (rule dec_sending_ok) (use that s n pipe in \<open>simp_all add: meta_def\<close>)
  have ctrl: "ctrl_cmd ss = (case send_socket i b p None ?ss0 of (r, ss1) \<Rightarrow> res_bind (dec_sending_ref i ss1) (\<lambda>ss2. Ok (r, ss2)))"
    using pipe rq(3) by (simp add: ctrl_cmd_def)
  from inv show ?thesis
  proof (cases rule: tx_inv_cases)
    case 1
    then have "send_socket i b p None ?ss0 = (None, ?ss0)" by (simp add: send_socket_def)
    then have "ctrl_cmd ss = Ok (None, ?dec ?ss0)" using ctrl dec [of ?ss0] by simp
    moreover have "tx_inv fd i acc (?dec ?ss0)" using 1 s by (simp add: tx_inv_def)
    ultimately show ?thesis by simp
  next
    case (2 o1 o2)
    have "tx_ok ?k o1 o2 ?ss0" "sk_id (ss_slot ?ss0 ?k) = i" using 2(1) s by (simp_all add: tx_ok_def)
    from send_socket_ok [OF this rq(2), of p] obtain r ss1 a c where w: "send_socket i b p None ?ss0 = (r, ss1)"
        "tx_ok ?k a c ss1" "meta ?k ?ss0 ss1" "same_prio (a @ c) (o1 @ o2 @ [(p, b)])" by blast
    have "ctrl_cmd ss = Ok (r, ?dec ss1)" using ctrl dec [OF w(3)] w(1) by simp
    moreover have "tx_inv fd i acc (?dec ss1)"
      unfolding tx_inv_def Let_def
    proof (intro conjI disjI2 exI)
      show "tx_ok ?k a c (?dec ss1)" using w(2) by (simp add: tx_ok_def tx_live_def dw_rest_def)
      have "of_prio q ((a @ c) @ piped rest) = of_prio q acc" for q
      proof -
        have "of_prio q (a @ c) = of_prio q (o1 @ o2 @ [(p, b)])" using w(4) by (simp only: same_prio_def)
        moreover have "of_prio q acc = of_prio q ((o1 @ o2 @ [(p, b)]) @ piped rest)" using 2(2) pipe pr by (simp add: same_prio_def)
        ultimately show ?thesis by (simp only: of_prio_simps(3))
      qed
      then show "same_prio (a @ c @ piped (ss_pipe (?dec ss1))) acc" using w(3) by (simp add: same_prio_def meta_def)
    qed (use w(3) s in \<open>simp_all add: meta_def\<close>)
    ultimately show ?thesis using w(3) by (simp add: meta_def)
  qed
qed

lemma op_ctrl_inv:
  assumes inv: "tx_inv fd i acc ss" and n: "length (ss_pipe ss) < 2 ^ 16"
  shows "\<exists>ss'. sock_op_run i Op_ctrl ss = Ok ([], ss') \<and> tx_inv fd i acc ss' \<and> length (ss_pipe ss') \<le> length (ss_pipe ss)"
proof (cases "ss_pipe ss")
  case Nil
  then show ?thesis using inv by (simp add: sock_op_run_def)
next
  case (Cons rq rest)
  then have "own_request i rq" using inv by (simp add: tx_inv_def Let_def)
  then obtain b where b: "rq = Req_send i b \<or> rq = Req_send_low i b" "plain b" by (auto simp: own_request_def)
  then obtain p where "piped [rq] = [(p, b)]" "piped (rq # rest) = (p, b) # piped rest" "handle_request rq = (\<lambda>ss. case send_socket i b p None ss of
      (r, ss1) \<Rightarrow> res_bind (dec_sending_ref i ss1) (\<lambda>ss2. Ok (r, ss2)))"
    by (cases "rq = Req_send i b") (auto simp: handle_request_def fun_eq_iff intro: that [of True] that [of False])
  with ctrl_send [OF inv n Cons _ b(2)] obtain r ss' where "ctrl_cmd ss = Ok (r, ss')" "tx_inv fd i acc ss'" "ss_pipe ss' = rest" by blast
  then show ?thesis using Cons by (simp add: sock_op_run_def)
qed

lemma sock_run_inv:
  assumes "tx_inv fd i acc ss" "length (ss_pipe ss) + length ops < 2 ^ 16" "\<forall>op \<in> set ops. op_plain op"
  shows "\<exists>a ss'. sock_run i ops ss = Ok (a, ss') \<and> tx_inv fd i (acc @ a) ss'"
  using assms
proof (induction ops arbitrary: acc ss)
  case Nil
  then show ?case by simp
next
  case (Cons op ops)
  have "\<exists>a ss1. sock_op_run i op ss = Ok (a, ss1) \<and> tx_inv fd i (acc @ a) ss1 \<and> length (ss_pipe ss1) \<le> Suc (length (ss_pipe ss))"
  proof (cases op)
    case (Op_send b)
    then show ?thesis using op_send_inv [OF Cons.prems(1)] Cons.prems by simp
  next
    case (Op_low b)
    then show ?thesis using op_low_inv [OF Cons.prems(1)] Cons.prems by simp
  next
    case Op_ctrl
    then show ?thesis using op_ctrl_inv [OF Cons.prems(1)] Cons.prems by fastforce
  next
    case Op_ready
    then show ?thesis using op_ready_inv [OF Cons.prems(1)] by fastforce
  qed
  then obtain a ss1 where a: "sock_op_run i op ss = Ok (a, ss1)" "tx_inv fd i (acc @ a) ss1" "length (ss_pipe ss1) \<le> Suc (length (ss_pipe ss))" by blast
  obtain a2 ss2 where "sock_run i ops ss1 = Ok (a2, ss2)" "tx_inv fd i ((acc @ a) @ a2) ss2" using Cons.IH [OF a(2)] a(3) Cons.prems by auto
  then show ?case using a(1) by simp
qed

text \<open>A connection that was just made: \<open>open_socket\<close> and \<open>start_socket\<close> leave it so.\<close>

definition fresh_connection :: "u32 \<Rightarrow> socket_server \<Rightarrow> bool" where
  "fresh_connection i ss \<longleftrightarrow>
     (let s = ss_slot ss (HASH_ID i) in
      sk_id s = i \<and> sk_type s = ST_CONNECTED \<and> sk_protocol s = PROTOCOL_TCP \<and> send_buffer_empty s \<and> sk_dw s = None \<and>
      sk_sending s = push_bit 16 (ID_TAG16 i) \<and> sk_wb_size s = 0 \<and> wire (sk_fd s) (ss_out ss) = []) \<and> ss_pipe ss = []"

lemma fresh_inv:
  assumes "fresh_connection i ss"
  shows "tx_inv (sk_fd (ss_slot ss (HASH_ID i))) i [] ss"
proof -
  have "tx_ok (HASH_ID i) [] [] ss"
    using assms by (simp add: fresh_connection_def tx_ok_def tx_live_def send_buffer_empty_def dw_rest_def Let_def)
  moreover have "same_prio ([] @ [] @ piped (ss_pipe ss)) []" using assms by (simp add: fresh_connection_def same_prio_def)
  ultimately show ?thesis using assms unfolding tx_inv_def Let_def fresh_connection_def by (auto intro!: exI [of _ "[]"])
qed

definition unsent :: "socket \<Rightarrow> byte list" where
  "unsent s = dw_rest s @ concat (map wbuf_data (sk_high s)) @ concat (map wbuf_data (sk_low s))"

lemma tx_ok_packages:
  assumes "tx_ok k o1 o2 ss"
  shows "packages (o1 @ o2) = wire (sk_fd (ss_slot ss k)) (ss_out ss) @ unsent (ss_slot ss k)"
  using assms packages_low [of "sk_low (ss_slot ss k)"] by (simp add: tx_ok_def tx_live_def unsent_def)


section \<open>Ids\<close>

definition next_id :: "u32 \<Rightarrow> u32" where
  "next_id a = (if sint (a + 1) < 0 then (a + 1) AND 0x7fffffff else a + 1)"

lemma HASH_ID_bits: "HASH_ID i = unat (take_bit 16 i)"
  unfolding HASH_ID_def MAX_SOCKET_def unsigned_take_bit_eq by (rule take_bit_eq_mod [symmetric])

lemma HASH_ID_next: "HASH_ID (next_id a) = (HASH_ID a + 1) mod MAX_SOCKET"
proof -
  have "take_bit 16 (b AND 0x7fffffff) = take_bit 16 b" for b :: u32
  proof -
    have "(0x7fffffff :: u32) = mask 31" by (simp add: mask_eq_exp_minus_1)
    then have "b AND 0x7fffffff = take_bit 31 b" by (simp add: take_bit_eq_mask)
    then show ?thesis by simp
  qed
  then have "HASH_ID (next_id a) = HASH_ID (a + 1)" unfolding HASH_ID_bits next_id_def by simp
  also have "\<dots> = unat (a + 1) mod MAX_SOCKET" by (simp add: HASH_ID_def)
  also have "\<dots> = (unat a + 1) mod MAX_SOCKET" by (simp add: MAX_SOCKET_def unat_word_ariths mod_mod_cancel)
  finally show ?thesis by (simp add: HASH_ID_def mod_simps)
qed

lemma next_id_nonneg: "0 \<le> sint (next_id a)"
proof (cases "sint (a + 1) < 0")
  case True
  have "(0x7fffffff :: u32) = mask 31" by (simp add: mask_eq_exp_minus_1)
  then have "(a + 1) AND 0x7fffffff = take_bit 31 (a + 1)" by (simp add: take_bit_eq_mask)
  then have "\<not> bit (next_id a) 31" using True by (simp add: next_id_def bit_take_bit_iff)
  then show ?thesis by (simp add: sint_uint signed_take_bit_eq_take_bit_minus bit_uint_iff)
next
  case False
  then show ?thesis by (simp add: next_id_def)
qed

lemma reserve_loop_step:
  "reserve_loop (Suc n) ss =
     (let i = next_id (ss_alloc_id ss); s = ss_slot ss (HASH_ID i); ss1 = ss\<lparr>ss_alloc_id := i\<rparr> in
      if sk_type s = ST_INVALID then
        (Some i, set_sock (HASH_ID i) (s\<lparr>sk_type := ST_RESERVE, sk_id := i, sk_protocol := PROTOCOL_UNKNOWN, sk_udpconnecting := 0, sk_fd := -1\<rparr>) ss1)
      else reserve_loop n ss1)"
  by (simp only: reserve_loop.simps next_id_def Let_def)

declare reserve_loop.simps(2) [simp del]

lemma reserve_loop_Some:
  "reserve_loop n ss = (Some i, ss') \<Longrightarrow>
   0 \<le> sint i \<and> sk_type (ss_slot ss (HASH_ID i)) = ST_INVALID \<and> sk_type (ss_slot ss' (HASH_ID i)) = ST_RESERVE \<and>
   sk_id (ss_slot ss' (HASH_ID i)) = i \<and> (\<forall>k. k \<noteq> HASH_ID i \<longrightarrow> ss_slot ss' k = ss_slot ss k) \<and> ss_pipe ss' = ss_pipe ss"
proof (induction n arbitrary: ss)
  case (Suc n)
  then show ?case using Suc.IH [of "ss\<lparr>ss_alloc_id := next_id (ss_alloc_id ss)\<rparr>"] next_id_nonneg
    by (auto simp: reserve_loop_step Let_def split: if_splits)
qed simp

lemma reserve_loop_None:
  "reserve_loop n ss = (None, ss') \<Longrightarrow> j < n \<Longrightarrow> sk_type (ss_slot ss ((HASH_ID (ss_alloc_id ss) + 1 + j) mod MAX_SOCKET)) \<noteq> ST_INVALID"
proof (induction n arbitrary: ss j)
  case 0
  from 0(2) show ?case by (rule less_zeroE)
next
  case (Suc n)
  let ?i = "next_id (ss_alloc_id ss)"
  have f: "sk_type (ss_slot ss (HASH_ID ?i)) \<noteq> ST_INVALID" "reserve_loop n (ss\<lparr>ss_alloc_id := ?i\<rparr>) = (None, ss')"
    using Suc.prems(1) by (auto simp: reserve_loop_step Let_def split: if_splits)
  show ?case
  proof (cases j)
    case 0
    then show ?thesis using f(1) HASH_ID_next [of "ss_alloc_id ss"] by simp
  next
    case (Suc j')
    have "(HASH_ID ?i + 1 + j') mod MAX_SOCKET = (HASH_ID (ss_alloc_id ss) + 1 + j) mod MAX_SOCKET"
      using HASH_ID_next [of "ss_alloc_id ss"] Suc mod_add_left_eq [of "HASH_ID (ss_alloc_id ss) + 1" MAX_SOCKET "1 + j'"]
      by (simp add: add.commute add.left_commute)
    moreover have "j' < n" using Suc Suc.prems(2) by simp
    ultimately show ?thesis using Suc.IH [OF f(2), of j'] by simp
  qed
qed

text \<open>C17: Allocation of socket ids. \<open>reserve_id\<close> returns an id that is not negative, also past the wrap-around of the counter; the slot
  of the id was free and is reserved for it, and no other slot changes. It fails only when all 65536 slots are taken.\<close>

theorem reserve_id_correct:
  "case reserve_id ss of
     (None, ss') \<Rightarrow> \<forall>k < MAX_SOCKET. sk_type (ss_slot ss k) \<noteq> ST_INVALID
   | (Some i, ss') \<Rightarrow> 0 \<le> sint i \<and> sk_type (ss_slot ss (HASH_ID i)) = ST_INVALID \<and>
       sk_type (ss_slot ss' (HASH_ID i)) = ST_RESERVE \<and> sk_id (ss_slot ss' (HASH_ID i)) = i \<and>
       (\<forall>k. k \<noteq> HASH_ID i \<longrightarrow> ss_slot ss' k = ss_slot ss k)"
proof -
  obtain r ss' where r: "reserve_id ss = (r, ss')" by (cases "reserve_id ss")
  show ?thesis
  proof (cases r)
    case (Some i)
    then show ?thesis using reserve_loop_Some [of MAX_SOCKET ss i ss'] r by (simp add: reserve_id_def)
  next
    case None
    have "sk_type (ss_slot ss k) \<noteq> ST_INVALID" if "k < MAX_SOCKET" for k
    proof -
      let ?h = "HASH_ID (ss_alloc_id ss)"
      have h: "?h < MAX_SOCKET" by (simp add: HASH_ID_def MAX_SOCKET_def)
      define j where "j = (k + MAX_SOCKET - ?h - 1) mod MAX_SOCKET"
      have "(?h + 1 + j) mod MAX_SOCKET = (?h + 1 + (k + MAX_SOCKET - ?h - 1)) mod MAX_SOCKET" unfolding j_def by (rule mod_add_right_eq)
      also have "\<dots> = k" using that h by simp
      finally show ?thesis using reserve_loop_None [of MAX_SOCKET ss ss' j] r None by (simp add: reserve_id_def j_def MAX_SOCKET_def)
    qed
    then show ?thesis using r None by simp
  qed
qed

section \<open>A connection for the witnesses\<close>

definition os_none :: os where
  "os_none = \<lparr>os_add = [], os_write = [], os_read = [], os_udp = [], os_lock = [], os_resolve = [], os_sockerr = [], os_name = [],
     os_accept = [], os_wait = [], os_bind = [], os_listen = [], os_socket = [], os_peer = [], os_errno = []\<rparr>"

definition sock_none :: socket where
  "sock_none = \<lparr>sk_opaque = 0, sk_high = [], sk_low = [], sk_wb_size = 0,
     sk_stat = \<lparr>st_rtime = 0, st_wtime = 0, st_read = 0, st_write = 0\<rparr>, sk_sending = 0, sk_fd = 0, sk_id = 0,
     sk_protocol = PROTOCOL_UNKNOWN, sk_type = ST_INVALID, sk_udpconnecting = 0, sk_warn_size = 0, sk_size = 0, sk_udp_address = [],
     sk_dw = None\<rparr>"

theorem reserve_id_correct_witness:
  "\<exists>i ss'. reserve_id (socket_server_create sock_none os_none 0) = (Some i, ss') \<and> 0 \<le> sint i \<and> sk_type (ss_slot ss' (HASH_ID i)) = ST_RESERVE"
proof -
  let ?s = "socket_server_create sock_none os_none 0"
  have "sk_type (ss_slot ?s 0) = ST_INVALID" "0 < MAX_SOCKET" by (simp_all add: socket_server_create_def MAX_SOCKET_def)
  then show ?thesis using reserve_id_correct [of ?s] by (auto split: prod.splits option.splits)
qed

lemma HASH_ID_1 [simp]: "HASH_ID 1 = 1"
  by (simp add: HASH_ID_def MAX_SOCKET_def)

lemma reserve_first:
  assumes "ss_alloc_id ss = 0" "sk_type (ss_slot ss 1) = ST_INVALID"
  shows "reserve_id ss = (Some 1, set_sock 1 ((ss_slot ss 1)\<lparr>sk_type := ST_RESERVE, sk_id := 1, sk_protocol := PROTOCOL_UNKNOWN,
    sk_udpconnecting := 0, sk_fd := -1\<rparr>) (ss\<lparr>ss_alloc_id := 1\<rparr>))"
proof -
  obtain n where n: "MAX_SOCKET = Suc n" by (cases MAX_SOCKET) (auto simp: MAX_SOCKET_def)
  show ?thesis using assms by (simp add: reserve_id_def n reserve_loop_step next_id_def Let_def)
qed

text \<open>The server after \<open>connect\<close>, and after the socket thread has made the connection; \<open>ws\<close> is what \<open>write\<close> will answer.\<close>

definition connecting_server :: "wres list \<Rightarrow> attempt \<Rightarrow> socket_server" where
  "connecting_server ws a =
     snd (socket_server_connect 5 ''host'' 80 (socket_server_create sock_none (os_none\<lparr>os_write := ws, os_resolve := [Inr [a]]\<rparr>) 0))"

definition connected_server :: "wres list \<Rightarrow> socket_server" where
  "connected_server ws = snd (the_Ok (ctrl_cmd (connecting_server ws (A_done 7 None))))"

lemmas server_simps = socket_server_connect_def open_request_def SIZEOF_OPEN_def socket_server_create_def reserve_first send_request_def
  ctrl_cmd_def handle_request_def open_socket_def take_resolve_def new_fd_def sp_add_def os_none_def sock_none_def set_type_def Let_def

lemma connecting_result:
  "socket_server_connect 5 ''host'' 80 (socket_server_create sock_none (os_none\<lparr>os_write := ws, os_resolve := [Inr [a]]\<rparr>) 0) =
    (Some 1, connecting_server ws a)"
  by (simp add: connecting_server_def server_simps)

lemma connected_fresh: "fresh_connection 1 (connected_server ws)"
  by (simp add: connected_server_def connecting_server_def server_simps fresh_connection_def send_buffer_empty_def)


end
