(* ===== verification/Skynet_Sockslot.thy ===== *)
theory Skynet_Sockslot
  imports Skynet_Sockstream
begin

text \<open>
  The invariant of a slot of the socket server, \<open>skynet-src/socket_server.c\<close>, and the operations that act on one slot: the buffers of
  both lists, the bytes they hold, and the count of the packages under way. Sending, closing, starting and queueing keep it and
  fail no assertion; the type of a slot changes only along the edges of \<open>type_next\<close>.
\<close>

section \<open>The invariant of a slot\<close>

definition live :: "sock_type \<Rightarrow> bool" where
  "live t \<longleftrightarrow> t \<noteq> ST_INVALID \<and> t \<noteq> ST_RESERVE"

definition buf_ok :: "socket \<Rightarrow> write_buffer \<Rightarrow> bool" where
  "buf_ok s b \<longleftrightarrow> wbuf_ok b \<and> (sk_protocol s \<noteq> PROTOCOL_TCP \<longrightarrow> wbuf_addr b \<noteq> None)"

definition bufs_ok :: "socket \<Rightarrow> bool" where
  "bufs_ok s \<longleftrightarrow> (\<forall>b \<in> set (sk_high s) \<union> set (sk_low s). buf_ok s b) \<and>
     sk_wb_size s = total (sk_high s) + total (sk_low s) \<and>
     (case sk_dw s of None \<Rightarrow> True | Some (b, off) \<Rightarrow> sk_protocol s = PROTOCOL_TCP \<and> off \<le> length (so_bytes b) \<and> plain b)"

definition queue_ok :: "socket \<Rightarrow> bool" where
  "queue_ok s \<longleftrightarrow> bufs_ok s \<and> (\<forall>b \<in> set (sk_low s). wbuf_ptr b = 0)"

text \<open>\<open>n\<close> is the number of send requests in the pipe for the id of the slot.\<close>

definition counted :: "nat \<Rightarrow> socket \<Rightarrow> bool" where
  "counted n s \<longleftrightarrow> n < 2 ^ 16 \<and> sk_sending s = push_bit 16 (ID_TAG16 (sk_id s)) + of_nat n"

definition slot_ok :: "nat \<Rightarrow> nat \<Rightarrow> socket \<Rightarrow> bool" where
  "slot_ok k n s \<longleftrightarrow>
     (\<not> live (sk_type s) \<longrightarrow> sk_high s = [] \<and> sk_low s = []) \<and>
     (sk_type s = ST_RESERVE \<longrightarrow> sk_protocol s = PROTOCOL_UNKNOWN \<and> n = 0) \<and>
     (sk_type s \<noteq> ST_INVALID \<longrightarrow> HASH_ID (sk_id s) = k) \<and>
     (live (sk_type s) \<longrightarrow> queue_ok s \<and> sk_protocol s \<noteq> PROTOCOL_UNKNOWN) \<and>
     (sk_protocol s = PROTOCOL_TCP \<and> HASH_ID (sk_id s) = k \<longrightarrow> sk_type s = ST_INVALID \<and> n = 0 \<or> counted n s)"

text \<open>The parts that sending does not touch.\<close>

definition same_core :: "socket \<Rightarrow> socket \<Rightarrow> bool" where
  "same_core s s' \<longleftrightarrow> sk_id s' = sk_id s \<and> sk_protocol s' = sk_protocol s \<and> sk_sending s' = sk_sending s"

definition closed :: "socket \<Rightarrow> socket \<Rightarrow> bool" where
  "closed s s' \<longleftrightarrow> same_core s s' \<and> sk_type s' = ST_INVALID \<and> sk_high s' = [] \<and> sk_low s' = []"

lemma same_core_refl [simp]: "same_core s s"
  by (simp add: same_core_def)

lemma same_core_trans: "same_core a b \<Longrightarrow> same_core b c \<Longrightarrow> same_core a c"
  by (simp add: same_core_def)

lemma closed_trans: "same_core a b \<Longrightarrow> closed b c \<Longrightarrow> closed a c"
  by (simp add: closed_def same_core_def)

lemma slot_ok_closed: "slot_ok k n s \<Longrightarrow> live (sk_type s) \<Longrightarrow> closed s s' \<Longrightarrow> slot_ok k n s'"
  by (auto simp: slot_ok_def closed_def same_core_def live_def counted_def)

lemma slot_ok_live:
  assumes "slot_ok k n s" "live (sk_type s)" "same_core s s'" "live (sk_type s')" "queue_ok s'"
  shows "slot_ok k n s'"
  using assms by (auto simp: slot_ok_def same_core_def live_def counted_def)

text \<open>Only slot \<open>k\<close> changes.\<close>

definition local :: "nat \<Rightarrow> socket_server \<Rightarrow> socket_server \<Rightarrow> bool" where
  "local k ss ss' \<longleftrightarrow> ss_pipe ss' = ss_pipe ss \<and> (\<forall>j. j \<noteq> k \<longrightarrow> ss_slot ss' j = ss_slot ss j)"

lemma local_refl [simp]: "local k ss ss"
  by (simp add: local_def)

lemma local_trans: "local k a b \<Longrightarrow> local k b c \<Longrightarrow> local k a c"
  by (simp add: local_def)

lemma local_simps [simp]:
  "local k ss (set_sock k s ss') = local k ss ss'" "local k ss (emit e ss') = local k ss ss'"
  "local k ss (ss'\<lparr>ss_os := x\<rparr>) = local k ss ss'" "local k ss (ss'\<lparr>ss_out := y\<rparr>) = local k ss ss'"
  by (auto simp: local_def)

lemma force_close_keep:
  assumes "sk_type (ss_slot ss k) \<noteq> ST_RESERVE" "\<not> live (sk_type (ss_slot ss k)) \<longrightarrow> sk_high (ss_slot ss k) = [] \<and> sk_low (ss_slot ss k) = []"
  shows "\<exists>ss'. force_close k ss = Ok (closed_message (ss_slot ss k), ss') \<and> local k ss ss' \<and> closed (ss_slot ss k) (ss_slot ss' k)"
  using assms by (auto simp: force_close_def Let_def closed_def same_core_def live_def)

section \<open>Sending\<close>

text \<open>What a list of buffers is after a part of it was sent.\<close>

definition sent_part :: "write_buffer list \<Rightarrow> write_buffer list \<Rightarrow> bool" where
  "sent_part l l' \<longleftrightarrow> (\<exists>d r n. l = d @ r \<and> (case r of [] \<Rightarrow> l' = [] | b # bs \<Rightarrow> n \<le> wbuf_sz b \<and> l' = wbuf_step n b # bs))"

definition after_send :: "bool \<Rightarrow> socket \<Rightarrow> socket \<Rightarrow> bool" where
  "after_send high s s' \<longleftrightarrow> (\<exists>l' st. sent_part (sock_list high s) l' \<and>
     s' = set_list high l' (s\<lparr>sk_stat := st, sk_wb_size := sk_wb_size s + total l' - total (sock_list high s)\<rparr>))"

lemma sent_part_suffix: "l = d @ l' \<Longrightarrow> sent_part l l'"
  unfolding sent_part_def by (intro exI [of _ d] exI [of _ l'] exI [of _ 0]) (cases l'; simp)

lemma sent_part_tcp: "tcp_result l s out l' s' \<Longrightarrow> sent_part l l'"
  unfolding tcp_result_def sent_part_def
  by (elim exE conjE) (rule_tac x=d in exI, rule_tac x=r in exI, rule_tac x=n in exI, auto split: list.splits)

lemma udp_loop_keep:
  "\<forall>b \<in> set l. wbuf_addr b \<noteq> None \<Longrightarrow>
   \<exists>ws' d l' st outs'. udp_loop time ws l s outs = Ok (ws', l', s\<lparr>sk_stat := st, sk_wb_size := sk_wb_size s + total l' - total l\<rparr>, outs') \<and> l = d @ l'"
proof (induction time ws l s outs rule: udp_loop.induct)
  case (1 time ws s outs)
  show ?case by (rule exI [of _ ws], rule exI [of _ "[]"], rule exI [of _ "[]"], rule exI [of _ "sk_stat s"], rule exI [of _ outs]) simp
next
  case (2 time ws b bs s outs)
  obtain address where a: "wbuf_addr b = Some address" using 2 by auto
  have stay: "\<exists>ws' d l' st outs'. Ok (ws0, b # bs, s, o0) = Ok (ws', l', s\<lparr>sk_stat := st, sk_wb_size := sk_wb_size s + total l' - total (b # bs)\<rparr>, outs') \<and> b # bs = d @ l'"
    for ws0 o0 by (rule exI [of _ ws0], rule exI [of _ "[]"], rule exI [of _ "b # bs"], rule exI [of _ "sk_stat s"], rule exI [of _ o0]) simp
  have drop: "\<exists>ws' d l' st outs'. Ok (ws0, bs, s\<lparr>sk_wb_size := sk_wb_size s - int (wbuf_sz b)\<rparr>, o0) =
      Ok (ws', l', s\<lparr>sk_stat := st, sk_wb_size := sk_wb_size s + total l' - total (b # bs)\<rparr>, outs') \<and> b # bs = d @ l'"
    for ws0 o0 by (rule exI [of _ ws0], rule exI [of _ "[b]"], rule exI [of _ bs], rule exI [of _ "sk_stat s"], rule exI [of _ o0]) simp
  show ?case
  proof (cases "udp_socket_address (sk_protocol s) address")
    case None
    then show ?thesis using a drop by (simp add: Let_def)
  next
    case sa: (Some sa)
    show ?thesis
    proof (cases ws)
      case Nil
      then show ?thesis using a sa stay by (simp add: Let_def)
    next
      case ws: (Cons r rs)
      show ?thesis
      proof (cases r)
        case (W n)
        let ?s1 = "stat_write time (wbuf_sz b) (s\<lparr>sk_wb_size := sk_wb_size s - int (wbuf_sz b)\<rparr>)"
        let ?o1 = "outs @ [O_sendto (sk_fd s) sa (wbuf_data b)]"
        have "\<forall>b \<in> set bs. wbuf_addr b \<noteq> None" using 2 by simp
        from "2.IH" [OF a refl sa ws W this] obtain ws' d l' st outs' where
          i: "udp_loop time rs bs ?s1 ?o1 = Ok (ws', l', ?s1\<lparr>sk_stat := st, sk_wb_size := sk_wb_size ?s1 + total l' - total bs\<rparr>, outs')" "bs = d @ l'"
          by blast
        have "udp_loop time ws (b # bs) s outs = udp_loop time rs bs ?s1 ?o1" using a sa ws W by (simp add: Let_def)
        then show ?thesis unfolding i(1)
          by (intro exI [of _ ws'] exI [of _ "b # d"] exI [of _ l'] exI [of _ st] exI [of _ outs']) (simp add: stat_write_def i(2))
      qed (use a sa ws stay drop in \<open>simp_all add: Let_def\<close>)
    qed
  qed
qed

lemma send_list_keep:
  assumes lv: "live (sk_type (ss_slot ss k))" and ok: "bufs_ok (ss_slot ss k)"
  shows "\<exists>r ss'. send_list k high ss = Ok (r, ss') \<and> local k ss ss' \<and>
    (if r = None then after_send high (ss_slot ss k) (ss_slot ss' k)
     else map_option fst r = Some SOCKET_CLOSE \<and> closed (ss_slot ss k) (ss_slot ss' k))"
proof -
  let ?s = "ss_slot ss k"
  let ?l = "sock_list high ?s"
  have ok_l: "\<forall>b \<in> set ?l. buf_ok ?s b" using ok by (auto simp: bufs_ok_def sock_list_def)
  show ?thesis
  proof (cases "sk_protocol ?s = PROTOCOL_TCP")
    case True
    obtain b ws l' s' outs where loop: "tcp_loop (ss_time ss) (os_write (ss_os ss)) ?l ?s [] = (b, ws, l', s', outs)" by (metis prod_cases5)
    have "\<forall>b \<in> set ?l. wbuf_ok b" using ok_l by (simp add: buf_ok_def)
    from tcp_loop_result [OF loop this] obtain out where res: "tcp_result ?l ?s out l' s'" by blast
    then obtain st where s': "s' = ?s\<lparr>sk_stat := st, sk_wb_size := sk_wb_size ?s + total l' - total ?l\<rparr>" by (auto simp: tcp_result_def)
    define ss1 where "ss1 = (set_sock k (set_list high l' s') ss)\<lparr>ss_os := (ss_os ss)\<lparr>os_write := ws\<rparr>, ss_out := ss_out ss @ map (O_write (sk_fd ?s)) outs\<rparr>"
    have eq: "send_list k high ss = (if b then Ok (None, ss1) else res_bind (force_close k ss1) (\<lambda>(m, ss2). Ok (Some (SOCKET_CLOSE, m), ss2)))"
      using True by (simp add: send_list_def send_list_tcp_def loop Let_def ss1_def)
    have loc: "local k ss ss1" and sl: "ss_slot ss1 k = set_list high l' s'" by (simp_all add: ss1_def)
    show ?thesis
    proof (cases b)
      case True
      have "after_send high ?s (ss_slot ss1 k)" using sent_part_tcp [OF res] s' sl unfolding after_send_def by blast
      then show ?thesis using eq True loc by simp
    next
      case False
      have c: "same_core ?s (ss_slot ss1 k)" "sk_type (ss_slot ss1 k) = sk_type ?s" using s' sl by (auto simp: same_core_def set_list_def)
      then obtain ss2 where "force_close k ss1 = Ok (closed_message (ss_slot ss1 k), ss2)" "local k ss1 ss2" "closed (ss_slot ss1 k) (ss_slot ss2 k)"
        using force_close_keep [of ss1 k] lv by (auto simp: live_def)
      then show ?thesis using eq False local_trans [OF loc] closed_trans [OF c(1)] by auto
    qed
  next
    case False
    have "\<forall>b \<in> set ?l. wbuf_addr b \<noteq> None" using ok_l False by (auto simp: buf_ok_def)
    from udp_loop_keep [OF this, of "ss_time ss" "os_write (ss_os ss)" ?s "[]"] obtain ws' d l' st outs' where
      u: "udp_loop (ss_time ss) (os_write (ss_os ss)) ?l ?s [] = Ok (ws', l', ?s\<lparr>sk_stat := st, sk_wb_size := sk_wb_size ?s + total l' - total ?l\<rparr>, outs')"
         "?l = d @ l'" by blast
    show ?thesis using False u(1) sent_part_suffix [OF u(2)] unfolding send_list_def send_list_udp_def
      by (auto simp: Let_def after_send_def)
  qed
qed

lemma sent_partE:
  assumes "sent_part l l'"
  obtains "l' = []" | d b bs n where "l = d @ b # bs" "n \<le> wbuf_sz b" "l' = wbuf_step n b # bs"
proof -
  obtain d r n where r: "l = d @ r" "case r of [] \<Rightarrow> l' = [] | b # bs \<Rightarrow> n \<le> wbuf_sz b \<and> l' = wbuf_step n b # bs"
    using assms unfolding sent_part_def by blast
  show ?thesis by (cases r) (use r that in auto)
qed

lemma buf_ok_step: "buf_ok s b \<Longrightarrow> n \<le> wbuf_sz b \<Longrightarrow> buf_ok s (wbuf_step n b)"
  using wbuf_step_ok [of b n] by (simp add: buf_ok_def) (simp add: wbuf_step_def)

lemma sent_part_in:
  assumes "sent_part l l'" "\<forall>b \<in> set l. buf_ok s b"
  shows "\<forall>b \<in> set l'. buf_ok s b"
  using assms(1) by (cases rule: sent_partE) (use assms(2) buf_ok_step in auto)

lemma sent_part_tl: "sent_part l l' \<Longrightarrow> set (tl l') \<subseteq> set l"
  by (erule sent_partE) auto

lemma after_send_bufs:
  assumes "after_send high s s'" "bufs_ok s"
  shows "bufs_ok s'"
proof -
  obtain l' st where l: "sent_part (sock_list high s) l'"
      "s' = set_list high l' (s\<lparr>sk_stat := st, sk_wb_size := sk_wb_size s + total l' - total (sock_list high s)\<rparr>)"
    using assms(1) by (auto simp: after_send_def)
  have "\<forall>b \<in> set l'. buf_ok s b" by (rule sent_part_in [OF l(1)]) (use assms(2) in \<open>auto simp: bufs_ok_def sock_list_def\<close>)
  then show ?thesis using assms(2) l(2) by (auto simp: bufs_ok_def sock_list_def set_list_def buf_ok_def split: option.splits)
qed

lemma after_send_fields:
  assumes "after_send high s s'"
  shows "same_core s s'" "sk_type s' = sk_type s" "sk_dw s' = sk_dw s" "sock_list (\<not> high) s' = sock_list (\<not> high) s"
    "sent_part (sock_list high s) (sock_list high s')"
  using assms by (auto simp: after_send_def same_core_def set_list_def sock_list_def)

text \<open>What is left of a slot after a call that sends.\<close>

definition sent :: "nat \<Rightarrow> reply \<Rightarrow> socket_server \<Rightarrow> socket_server \<Rightarrow> bool" where
  "sent k r ss ss' \<longleftrightarrow> local k ss ss' \<and> (if map_option fst r = Some SOCKET_CLOSE then closed (ss_slot ss k) (ss_slot ss' k)
     else map_option fst r \<in> {None, Some SOCKET_WARNING} \<and> same_core (ss_slot ss k) (ss_slot ss' k) \<and>
       sk_type (ss_slot ss' k) = sk_type (ss_slot ss k) \<and> queue_ok (ss_slot ss' k))"

lemma sent_after:
  assumes "local k ss ss1" "same_core (ss_slot ss k) (ss_slot ss1 k)" "sk_type (ss_slot ss1 k) = sk_type (ss_slot ss k)" "sent k r ss1 ss'"
  shows "sent k r ss ss'"
  using assms local_trans [OF assms(1)] closed_trans [OF assms(2)] same_core_trans [OF assms(2)] by (auto simp: sent_def)

lemma send_done_keep:
  assumes lv: "live (sk_type (ss_slot ss k))" and ok: "bufs_ok (ss_slot ss k)" and e: "sk_high (ss_slot ss k) = []" "sk_low (ss_slot ss k) = []"
  shows "\<exists>r ss'. send_done k ss = Ok (r, ss') \<and> sent k r ss ss'"
proof -
  let ?s = "ss_slot ss k"
  let ?ss1 = "emit (O_arm (sk_fd ?s) False) ss"
  have z: "sk_wb_size ?s = 0" using ok e by (simp add: bufs_ok_def)
  have q: "queue_ok ?s" "queue_ok (?s\<lparr>sk_warn_size := 0\<rparr>)" using ok e by (auto simp: queue_ok_def bufs_ok_def split: option.splits)
  show ?thesis
  proof (cases "sk_type ?s = ST_HALFCLOSE")
    case True
    obtain ss2 where "force_close k ?ss1 = Ok (closed_message ?s, ss2)" "local k ?ss1 ss2" "closed ?s (ss_slot ss2 k)"
      using force_close_keep [of ?ss1 k] True by (auto simp: live_def)
    then show ?thesis using True z e local_trans [of k ss ?ss1 ss2] by (auto simp: send_done_def Let_def send_buffer_empty_def sent_def)
  next
    case False
    then show ?thesis using z e q by (auto simp: send_done_def Let_def send_buffer_empty_def sent_def same_core_def)
  qed
qed

lemma complete_queue: "queue_ok s \<Longrightarrow> \<not> list_uncomplete (sk_low s)"
  by (rule low_complete) (auto simp: queue_ok_def bufs_ok_def buf_ok_def)

lemma send_low_keep:
  assumes lv: "live (sk_type (ss_slot ss k))" and ok: "queue_ok (ss_slot ss k)" and h: "sk_high (ss_slot ss k) = []"
  shows "\<exists>r ss'. res_bind (send_list k False ss) (\<lambda>(r2, ss2).
       if r2 \<noteq> None then Ok (r2, ss2)
       else if list_uncomplete (sk_low (ss_slot ss2 k)) then
         res_bind (raise_uncomplete (ss_slot ss2 k)) (\<lambda>s. Ok (None, set_sock k s ss2))
       else if sk_low (ss_slot ss2 k) \<noteq> [] then Ok (None, ss2)
       else send_done k ss2) = Ok (r, ss') \<and> sent k r ss ss'"
proof -
  let ?s = "ss_slot ss k"
  have b: "bufs_ok ?s" using ok by (simp add: queue_ok_def)
  obtain r ss2 where l: "send_list k False ss = Ok (r, ss2)" "local k ss ss2"
      "if r = None then after_send False ?s (ss_slot ss2 k) else map_option fst r = Some SOCKET_CLOSE \<and> closed ?s (ss_slot ss2 k)"
    using send_list_keep [OF lv b] by blast
  show ?thesis
  proof (cases r)
    case (Some x)
    then show ?thesis using l by (cases x) (simp add: sent_def)
  next
    case None
    let ?s2 = "ss_slot ss2 k"
    have a: "after_send False ?s ?s2" using l(3) None by simp
    note f = after_send_fields [OF a] and b2 = after_send_bufs [OF a b]
    have h2: "sk_high ?s2 = []" and lv2: "live (sk_type ?s2)" using f h lv by (simp_all add: sock_list_def)
    have t: "\<forall>b \<in> set (tl (sk_low ?s2)). wbuf_ptr b = 0"
      using sent_part_tl [OF f(5)] ok by (auto simp: sock_list_def queue_ok_def)
    show ?thesis
    proof (cases "list_uncomplete (sk_low ?s2)")
      case True
      then obtain b bs where low: "sk_low ?s2 = b # bs" by (auto simp: list_uncomplete_def split: list.splits)
      let ?s3 = "?s2\<lparr>sk_low := bs, sk_high := [b]\<rparr>"
      have "queue_ok ?s3" using b2 t low h2 by (auto simp: queue_ok_def bufs_ok_def buf_ok_def split: option.splits)
      moreover have "same_core ?s ?s3" "sk_type ?s3 = sk_type ?s" using f by (simp_all add: same_core_def)
      ultimately show ?thesis using l(1,2) None True low h2 by (simp add: raise_uncomplete_def sent_def)
    next
      case False
      then have q: "queue_ok ?s2" using t b2 by (cases "sk_low ?s2") (auto simp: queue_ok_def list_uncomplete_def split: sobj.splits)
      show ?thesis
      proof (cases "sk_low ?s2 = []")
        case True
        from send_done_keep [OF lv2 b2 h2 True] obtain r3 ss3 where d: "send_done k ss2 = Ok (r3, ss3)" "sent k r3 ss2 ss3" by blast
        then show ?thesis using l(1) None False True sent_after [OF l(2) f(1,2)] by simp
      next
        case nn: False
        then show ?thesis using l(1,2) None False f(1,2) q by (simp add: sent_def)
      qed
    qed
  qed
qed

lemma send_buffer1_keep:
  assumes lv: "live (sk_type (ss_slot ss k))" and ok: "queue_ok (ss_slot ss k)"
  shows "\<exists>r ss'. send_buffer1 k ss = Ok (r, ss') \<and> sent k r ss ss'"
proof -
  let ?s = "ss_slot ss k"
  have b: "bufs_ok ?s" using ok by (simp add: queue_ok_def)
  obtain r ss1 where l: "send_list k True ss = Ok (r, ss1)" "local k ss ss1"
      "if r = None then after_send True ?s (ss_slot ss1 k) else map_option fst r = Some SOCKET_CLOSE \<and> closed ?s (ss_slot ss1 k)"
    using send_list_keep [OF lv b] by blast
  note start = complete_queue [OF ok]
  show ?thesis
  proof (cases r)
    case (Some x)
    then show ?thesis using l start by (cases x) (simp add: send_buffer1_def sent_def)
  next
    case None
    let ?s1 = "ss_slot ss1 k"
    have a: "after_send True ?s ?s1" using l(3) None by simp
    note f = after_send_fields [OF a] and b1 = after_send_bufs [OF a b]
    have q1: "queue_ok ?s1" and lv1: "live (sk_type ?s1)" using f b1 ok lv by (simp_all add: sock_list_def queue_ok_def)
    note step = sent_after [OF l(2) f(1,2)]
    consider "sk_high ?s1 \<noteq> []" | "sk_high ?s1 = []" "sk_low ?s1 \<noteq> []" | "sk_high ?s1 = []" "sk_low ?s1 = []" by blast
    then show ?thesis
    proof cases
      case 1
      then show ?thesis using l(1,2) None start f(1,2) q1 by (simp add: send_buffer1_def sent_def)
    next
      case 2
      from send_low_keep [OF lv1 q1 2(1)] obtain r3 ss3 where low: "sent k r3 ss1 ss3" and eq: "res_bind (send_list k False ss1) (\<lambda>(r2, ss2).
          if r2 \<noteq> None then Ok (r2, ss2)
          else if list_uncomplete (sk_low (ss_slot ss2 k)) then
            res_bind (raise_uncomplete (ss_slot ss2 k)) (\<lambda>s. Ok (None, set_sock k s ss2))
          else if sk_low (ss_slot ss2 k) \<noteq> [] then Ok (None, ss2)
          else send_done k ss2) = Ok (r3, ss3)" by blast
      have "send_buffer1 k ss = Ok (r3, ss3)" unfolding eq [symmetric] using l(1) None start 2 by (simp add: send_buffer1_def)
      then show ?thesis using step [OF low] by blast
    next
      case 3
      from send_done_keep [OF lv1 b1 3] obtain r3 ss3 where "send_done k ss1 = Ok (r3, ss3)" "sent k r3 ss1 ss3" by blast
      then show ?thesis using l(1) None start 3 step by (simp add: send_buffer1_def)
    qed
  qed
qed

lemma add_direct_keep:
  "queue_ok s \<Longrightarrow> queue_ok (add_direct s) \<and> same_core s (add_direct s) \<and> sk_type (add_direct s) = sk_type s"
  by (auto simp: add_direct_def queue_ok_def bufs_ok_def buf_ok_def same_core_def wbuf_ok_def Let_def split: option.splits)

lemma take_lock_local: "take_lock ss = (b, ss1) \<Longrightarrow> local k ss ss1 \<and> ss_slot ss1 = ss_slot ss"
  by (auto simp: local_def)

lemma send_buffer_keep:
  assumes lv: "live (sk_type (ss_slot ss k))" and ok: "queue_ok (ss_slot ss k)"
  shows "\<exists>r ss'. send_buffer k ss = Ok (r, ss') \<and> sent k r ss ss'"
proof -
  obtain got ss1 where lk: "take_lock ss = (got, ss1)" by (cases "take_lock ss")
  note same = take_lock_local [OF lk, of k]
  show ?thesis
  proof (cases got)
    case False
    then show ?thesis using lk same ok by (simp add: send_buffer_def sent_def)
  next
    case True
    let ?s = "ss_slot ss k"
    let ?ss2 = "set_sock k (add_direct ?s) ss1"
    note d = add_direct_keep [OF ok]
    have "\<exists>r ss'. send_buffer1 k ?ss2 = Ok (r, ss') \<and> sent k r ?ss2 ss'" by (rule send_buffer1_keep) (use d lv in simp_all)
    moreover have "sent k r ?ss2 ss' \<Longrightarrow> sent k r ss ss'" for r ss' by (rule sent_after [of k ss ?ss2]) (use d same in simp_all)
    ultimately show ?thesis using lk True same by (auto simp: send_buffer_def)
  qed
qed

section \<open>Requests for a slot\<close>

lemma live_simps [simp]: "\<not> live ST_INVALID" "\<not> live ST_RESERVE" "live ST_PLISTEN" "live ST_LISTEN" "live ST_CONNECTING" "live ST_CONNECTED"
    "live ST_HALFCLOSE" "live ST_PACCEPT" "live ST_BIND"
  by (simp_all add: live_def)

text \<open>The states of a slot.\<close>

fun type_next :: "sock_type \<Rightarrow> sock_type list" where
  "type_next ST_INVALID = [ST_RESERVE, ST_PACCEPT]"
| "type_next ST_RESERVE = [ST_PLISTEN, ST_CONNECTING, ST_CONNECTED, ST_BIND, ST_INVALID]"
| "type_next ST_PLISTEN = [ST_LISTEN, ST_HALFCLOSE, ST_INVALID]"
| "type_next ST_LISTEN = [ST_HALFCLOSE, ST_INVALID]"
| "type_next ST_CONNECTING = [ST_CONNECTED, ST_HALFCLOSE, ST_INVALID]"
| "type_next ST_CONNECTED = [ST_HALFCLOSE, ST_INVALID]"
| "type_next ST_HALFCLOSE = [ST_INVALID]"
| "type_next ST_PACCEPT = [ST_CONNECTED, ST_HALFCLOSE, ST_INVALID]"
| "type_next ST_BIND = [ST_HALFCLOSE, ST_INVALID]"

definition type_edge :: "sock_type \<Rightarrow> sock_type \<Rightarrow> bool" where
  "type_edge a b \<longleftrightarrow> b = a \<or> b \<in> set (type_next a)"

lemma type_edge_simps [simp]: "type_edge a a" "live a \<Longrightarrow> type_edge a ST_INVALID" "live a \<Longrightarrow> type_edge a ST_HALFCLOSE"
  by (cases a; simp add: type_edge_def)+

text \<open>What the handling of a request or an event leaves of a slot that is in use.\<close>

definition kept :: "nat \<Rightarrow> nat \<Rightarrow> socket_server \<Rightarrow> socket_server \<Rightarrow> bool" where
  "kept k n ss ss' \<longleftrightarrow> local k ss ss' \<and> slot_ok k n (ss_slot ss' k) \<and> sk_id (ss_slot ss' k) = sk_id (ss_slot ss k) \<and>
     sk_type (ss_slot ss' k) \<noteq> ST_RESERVE \<and> type_edge (sk_type (ss_slot ss k)) (sk_type (ss_slot ss' k))"

lemma kept_refl: "slot_ok k n (ss_slot ss k) \<Longrightarrow> sk_type (ss_slot ss k) \<noteq> ST_RESERVE \<Longrightarrow> kept k n ss ss"
  by (simp add: kept_def)

lemma kept_sent:
  assumes "slot_ok k n (ss_slot ss k)" "live (sk_type (ss_slot ss k))" "sent k r ss ss'"
  shows "kept k n ss ss'"
  using assms slot_ok_closed [OF assms(1,2), of "ss_slot ss' k"] slot_ok_live [OF assms(1,2), of "ss_slot ss' k"]
  by (auto simp: kept_def sent_def closed_def same_core_def split: if_splits)

lemma slot_ok_queue: "slot_ok k n s \<Longrightarrow> live (sk_type s) \<Longrightarrow> queue_ok s"
  by (simp add: slot_ok_def)

lemma force_close_kept:
  assumes "slot_ok k n (ss_slot ss k)" "live (sk_type (ss_slot ss k))"
  shows "\<exists>ss'. force_close k ss = Ok (closed_message (ss_slot ss k), ss') \<and> kept k n ss ss'"
proof -
  obtain ss' where f: "force_close k ss = Ok (closed_message (ss_slot ss k), ss')" "local k ss ss'" "closed (ss_slot ss k) (ss_slot ss' k)"
    using force_close_keep [of ss k] assms by (auto simp: live_def)
  then show ?thesis using kept_sent [OF assms, of "Some (SOCKET_CLOSE, m)" ss' for m] by (auto simp: sent_def)
qed

lemma queue_ok_upd [simp]: "queue_ok (s\<lparr>sk_type := t\<rparr>) = queue_ok s" "queue_ok (s\<lparr>sk_opaque := op\<rparr>) = queue_ok s"
    "queue_ok (s\<lparr>sk_warn_size := w\<rparr>) = queue_ok s" "queue_ok (s\<lparr>sk_stat := st\<rparr>) = queue_ok s" "queue_ok (s\<lparr>sk_size := z\<rparr>) = queue_ok s"
    "queue_ok (s\<lparr>sk_udp_address := a\<rparr>) = queue_ok s" "queue_ok (s\<lparr>sk_udpconnecting := u\<rparr>) = queue_ok s" "queue_ok (s\<lparr>sk_sending := v\<rparr>) = queue_ok s"
  by (simp_all add: queue_ok_def bufs_ok_def buf_ok_def split: option.split)

lemma slot_ok_upd [simp]: "slot_ok k n (s\<lparr>sk_opaque := op\<rparr>) = slot_ok k n s" "slot_ok k n (s\<lparr>sk_warn_size := w\<rparr>) = slot_ok k n s"
    "slot_ok k n (s\<lparr>sk_stat := st\<rparr>) = slot_ok k n s" "slot_ok k n (s\<lparr>sk_size := z\<rparr>) = slot_ok k n s"
    "slot_ok k n (s\<lparr>sk_udp_address := a\<rparr>) = slot_ok k n s" "slot_ok k n (s\<lparr>sk_udpconnecting := u\<rparr>) = slot_ok k n s"
  by (simp_all add: slot_ok_def counted_def)

lemma slot_ok_type: "slot_ok k n s \<Longrightarrow> live (sk_type s) \<Longrightarrow> live t \<Longrightarrow> slot_ok k n (s\<lparr>sk_type := t\<rparr>)"
  by (rule slot_ok_live [of k n s]) (auto simp: same_core_def slot_ok_queue)

lemma set_type_kept:
  assumes "slot_ok k n (ss_slot ss k)" "live (sk_type (ss_slot ss k))" "live t" "type_edge (sk_type (ss_slot ss k)) t"
  shows "kept k n ss (set_type k t ss)"
  using assms slot_ok_type [OF assms(1,2,3)] by (auto simp: kept_def set_type_def live_def)

lemma close_socket_kept:
  assumes ok: "slot_ok (HASH_ID i) n (ss_slot ss (HASH_ID i))" and nr: "\<not> (sk_type (ss_slot ss (HASH_ID i)) = ST_RESERVE \<and> sk_id (ss_slot ss (HASH_ID i)) = i)"
  shows "\<exists>r ss'. close_socket i shut opaque ss = Ok (r, ss') \<and> (ss' = ss \<or> live (sk_type (ss_slot ss (HASH_ID i))) \<and> kept (HASH_ID i) n ss ss')"
proof (cases "sk_type (ss_slot ss (HASH_ID i)) = ST_INVALID \<or> sk_id (ss_slot ss (HASH_ID i)) \<noteq> i")
  case True
  then show ?thesis by (auto simp: close_socket_def Let_def)
next
  case False
  let ?k = "HASH_ID i" and ?s = "ss_slot ss (HASH_ID i)"
  have lv: "live (sk_type ?s)" using False nr by (auto simp: live_def)
  obtain r ss1 where s: "(if \<not> nomore_sending_data ?s then send_buffer ?k ss else Ok (None, ss)) = Ok (r, ss1)" "sent ?k r ss ss1"
    using send_buffer_keep [OF lv slot_ok_queue [OF ok lv]] slot_ok_queue [OF ok lv]
    by (cases "nomore_sending_data ?s") (auto simp: sent_def)
  let ?s1 = "ss_slot ss1 ?k"
  have k1: "kept ?k n ss ss1" by (rule kept_sent [OF ok lv s(2)])
  let ?fin = "if shut \<or> nomore_sending_data ?s1 then
          res_bind (force_close ?k ss1) (\<lambda>(_, ss2). Ok (Some (SOCKET_CLOSE, \<lparr>sr_id = i, sr_opaque = opaque, sr_ud = 0, sr_data = D_null\<rparr>), ss2))
        else Ok (None, set_type ?k ST_HALFCLOSE ss1)"
  have eq: "close_socket i shut opaque ss = (if r \<noteq> None \<and> fst (the r) \<noteq> SOCKET_WARNING then Ok (r, ss1) else ?fin)"
    using False s(1) by (simp add: close_socket_def Let_def)
  show ?thesis
  proof (cases "map_option fst r = Some SOCKET_CLOSE")
    case True
    then show ?thesis using eq k1 lv by auto
  next
    case False
    then have r: "\<not> (r \<noteq> None \<and> fst (the r) \<noteq> SOCKET_WARNING)" and t: "sk_type ?s1 = sk_type ?s" using s(2) by (auto simp: sent_def)
    have ok1: "slot_ok ?k n ?s1" "live (sk_type ?s1)" using k1 t lv by (simp_all add: kept_def)
    obtain ss2 where f: "force_close ?k ss1 = Ok (closed_message ?s1, ss2)" "kept ?k n ss1 ss2" using force_close_kept [OF ok1] by blast
    have "kept ?k n ss1 (set_type ?k ST_HALFCLOSE ss1)" by (rule set_type_kept [OF ok1]) (use ok1 in simp_all)
    then have "kept ?k n ss (set_type ?k ST_HALFCLOSE ss1)" "kept ?k n ss ss2"
      using k1 t f(2) local_trans [of ?k ss ss1] by (auto simp: kept_def)
    then show ?thesis using eq r f(1) lv by auto
  qed
qed

lemma append_queue:
  assumes "queue_ok s" "plain b" "sk_protocol s \<noteq> PROTOCOL_TCP \<longrightarrow> address \<noteq> None"
  shows "queue_ok (append_sendbuffer1 high b address s) \<and> same_core s (append_sendbuffer1 high b address s) \<and>
    sk_type (append_sendbuffer1 high b address s) = sk_type s"
  using assms
  by (auto simp: append_sendbuffer1_def queue_ok_def bufs_ok_def buf_ok_def same_core_def set_list_def sock_list_def new_buffer_def wbuf_ok_def
      split: option.split)

lemma check_warning_keep:
  assumes "check_warning k ss = (r, ss')"
  shows "local k ss ss' \<and> (\<exists>w. ss_slot ss' k = (ss_slot ss k)\<lparr>sk_warn_size := w\<rparr>)"
proof -
  have "\<exists>w. ss_slot ss k = (ss_slot ss k)\<lparr>sk_warn_size := w\<rparr>" by (rule exI [of _ "sk_warn_size (ss_slot ss k)"]) simp
  then show ?thesis using assms by (auto simp: check_warning_def Let_def split: if_splits)
qed

lemma take_write_local: "take_write ss = (r, ss1) \<Longrightarrow> local k ss ss1 \<and> ss_slot ss1 = ss_slot ss"
  by (auto simp: take_write_def local_def split: list.splits)

definition still :: "nat \<Rightarrow> nat \<Rightarrow> socket_server \<Rightarrow> socket_server \<Rightarrow> bool" where
  "still k n ss ss' \<longleftrightarrow> local k ss ss' \<and> slot_ok k n (ss_slot ss' k) \<and> same_core (ss_slot ss k) (ss_slot ss' k) \<and>
     sk_type (ss_slot ss' k) = sk_type (ss_slot ss k)"

lemma append_warn:
  assumes ok: "slot_ok k n (ss_slot ss k)" and lv: "live (sk_type (ss_slot ss k))" and b: "plain b"
    and l: "local k ss ss2" "ss_slot ss2 k = append_sendbuffer1 h b a (ss_slot ss k)" "sk_protocol (ss_slot ss k) \<noteq> PROTOCOL_TCP \<longrightarrow> a \<noteq> None"
  shows "\<exists>r ss'. check_warning k ss2 = (r, ss') \<and> still k n ss ss'"
proof -
  obtain r ss' where w: "check_warning k ss2 = (r, ss')" by (cases "check_warning k ss2")
  from check_warning_keep [OF this] obtain x where x: "local k ss2 ss'" "ss_slot ss' k = (ss_slot ss2 k)\<lparr>sk_warn_size := x\<rparr>" by blast
  note a = append_queue [OF slot_ok_queue [OF ok lv] b l(3), of h]
  have "slot_ok k n (append_sendbuffer1 h b a (ss_slot ss k))" by (rule slot_ok_live [OF ok lv]) (use a lv in simp_all)
  then show ?thesis using w x l local_trans [OF l(1) x(1)] a by (auto simp: same_core_def still_def)
qed

text \<open>\<open>send_socket\<close> drops a package, sends it at once, or puts it at the end of a queue.\<close>

lemma send_socket_cases:
  assumes lv: "live (sk_type (ss_slot ss (HASH_ID i)))"
  obtains (dropped) "send_socket i b high address ss = (None, ss)"
  | (sent) ss1 st where "send_socket i b high address ss = (None, ss1)" "local (HASH_ID i) ss ss1"
      "ss_slot ss1 (HASH_ID i) = (ss_slot ss (HASH_ID i))\<lparr>sk_stat := st\<rparr>"
  | (queued) h a ss2 where "send_socket i b high address ss = check_warning (HASH_ID i) ss2" "local (HASH_ID i) ss ss2"
      "ss_slot ss2 (HASH_ID i) = append_sendbuffer1 h b a (ss_slot ss (HASH_ID i))" "sk_protocol (ss_slot ss (HASH_ID i)) \<noteq> PROTOCOL_TCP \<longrightarrow> a \<noteq> None"
proof -
  let ?k = "HASH_ID i" and ?s = "ss_slot ss (HASH_ID i)"
  let ?to = "case address of None \<Rightarrow> sk_udp_address ?s | Some a \<Rightarrow> a"
  obtain r1 ss1 where r1: "take_write ss = (r1, ss1)" by (cases "take_write ss")
  note l1 = take_write_local [OF r1, of ?k]
  consider "sk_id ?s \<noteq> i \<or> sk_type ?s \<in> {ST_HALFCLOSE, ST_PACCEPT, ST_PLISTEN, ST_LISTEN}"
    | "sk_id ?s = i" "sk_type ?s \<notin> {ST_HALFCLOSE, ST_PACCEPT, ST_PLISTEN, ST_LISTEN}" "\<not> (send_buffer_empty ?s \<and> sk_type ?s = ST_CONNECTED)"
    | "sk_id ?s = i" "sk_type ?s = ST_CONNECTED" "send_buffer_empty ?s" "sk_protocol ?s = PROTOCOL_TCP"
    | "sk_id ?s = i" "sk_type ?s = ST_CONNECTED" "send_buffer_empty ?s" "sk_protocol ?s \<noteq> PROTOCOL_TCP" by fastforce
  then show ?thesis
  proof cases
    case 1
    then show ?thesis using dropped lv by (auto simp: send_socket_def Let_def)
  next
    case 2
    then have "send_socket i b high address ss = check_warning ?k (set_sock ?k (append_sendbuffer1 high b (if sk_protocol ?s = PROTOCOL_TCP then None else Some ?to) ?s) ss)"
      using lv by (auto simp: send_socket_def Let_def append_sendbuffer_def append_sendbuffer_low_def append_sendbuffer_udp_def)
    then show ?thesis by (rule queued) auto
  next
    case 3
    then have "send_socket i b high address ss = check_warning ?k (emit (O_arm (sk_fd ?s) True) (set_sock ?k (append_sendbuffer1 True b None ?s) ss))"
      by (simp add: send_socket_def Let_def append_sendbuffer_def)
    then show ?thesis by (rule queued) (use 3 in simp_all)
  next
    case 4
    show ?thesis
    proof (cases "udp_socket_address (sk_protocol ?s) ?to")
      case None
      then show ?thesis using dropped 4 by (simp add: send_socket_def Let_def)
    next
      case (Some sa)
      show ?thesis
      proof (cases "r1 = W (length (so_bytes b))")
        case True
        then have "send_socket i b high address ss = (None, emit (O_sendto (sk_fd ?s) sa (so_bytes b)) (set_sock ?k (stat_write (ss_time ss1) (length (so_bytes b)) ?s) ss1))"
          using 4 Some r1 l1 by (simp add: send_socket_def Let_def)
        then show ?thesis by (rule sent) (use l1 in \<open>simp_all add: stat_write_def\<close>)
      next
        case False
        then have "send_socket i b high address ss = check_warning ?k (emit (O_arm (sk_fd ?s) True) (set_sock ?k (append_sendbuffer1 high b (Some ?to) ?s) ss1))"
          using 4 Some r1 by (simp add: send_socket_def Let_def append_sendbuffer_udp_def)
        then show ?thesis by (rule queued) (use l1 in auto)
      qed
    qed
  qed
qed

lemma send_socket_keep:
  assumes ok: "slot_ok (HASH_ID i) n (ss_slot ss (HASH_ID i))" and lv: "live (sk_type (ss_slot ss (HASH_ID i)))" and b: "plain b"
  shows "\<exists>r ss'. send_socket i b high address ss = (r, ss') \<and> still (HASH_ID i) n ss ss'"
  using lv
proof (cases rule: send_socket_cases [of ss i b high address])
  case dropped
  then show ?thesis using ok by (simp add: still_def)
next
  case (sent ss1 st)
  then show ?thesis using ok by (simp add: still_def same_core_def)
next
  case (queued h a ss2)
  then show ?thesis using append_warn [OF ok lv b queued(2,3,4)] by simp
qed

lemma sp_add_local: "sp_add fd k ss = (f, ss1) \<Longrightarrow> local j ss ss1 \<and> ss_slot ss1 = ss_slot ss"
  by (auto simp: sp_add_def Let_def local_def split: list.splits)

lemma start_socket_kept:
  assumes ok: "slot_ok (HASH_ID i) n (ss_slot ss (HASH_ID i))"
  shows "\<exists>r ss'. start_socket i opaque ss = Ok (r, ss') \<and> (ss' = ss \<or> live (sk_type (ss_slot ss (HASH_ID i))) \<and> kept (HASH_ID i) n ss ss')"
proof -
  let ?k = "HASH_ID i" and ?s = "ss_slot ss (HASH_ID i)"
  consider "sk_type ?s = ST_INVALID \<or> sk_id ?s \<noteq> i" | "sk_id ?s = i" "sk_type ?s = ST_PACCEPT \<or> sk_type ?s = ST_PLISTEN"
    | "sk_id ?s = i" "sk_type ?s = ST_CONNECTED" | "sk_id ?s = i" "sk_type ?s \<notin> {ST_INVALID, ST_PACCEPT, ST_PLISTEN, ST_CONNECTED}" by blast
  then show ?thesis
  proof cases
    case 2
    then have lv: "live (sk_type ?s)" by auto
    obtain failed ss1 where a: "sp_add (sk_fd ?s) ?k ss = (failed, ss1)" by (cases "sp_add (sk_fd ?s) ?k ss")
    note l = sp_add_local [OF a, of ?k]
    have ok1: "slot_ok ?k n (ss_slot ss1 ?k)" "live (sk_type (ss_slot ss1 ?k))" using ok lv l by simp_all
    obtain ss2 where f: "force_close ?k ss1 = Ok (closed_message ?s, ss2)" "kept ?k n ss1 ss2" using force_close_kept [OF ok1] l by auto
    let ?t = "if sk_type ?s = ST_PACCEPT then ST_CONNECTED else ST_LISTEN"
    let ?ss3 = "set_sock ?k (?s\<lparr>sk_type := ?t, sk_opaque := opaque\<rparr>) ss1"
    have "kept ?k n ss ss2" using f(2) l local_trans [of ?k ss ss1 ss2] by (auto simp: kept_def)
    moreover have "slot_ok ?k n (?s\<lparr>sk_type := ?t\<rparr>)" by (rule slot_ok_type [OF ok lv]) simp
    then have "kept ?k n ss ?ss3" using 2 l by (auto simp: kept_def type_edge_def)
    ultimately show ?thesis using 2 a f(1) l by (cases failed) (auto simp: start_socket_def Let_def)
  next
    case 3
    then have "kept ?k n ss (set_sock ?k (?s\<lparr>sk_opaque := opaque\<rparr>) ss)" using ok by (auto simp: kept_def)
    then show ?thesis using 3 by (auto simp: start_socket_def Let_def)
  qed (auto simp: start_socket_def Let_def)
qed

end
