(* ===== verification/Skynet_Sockstate.thy ===== *)
theory Skynet_Sockstate
  imports Skynet_Sockslot
begin

text \<open>
  The state of the whole socket server, \<open>skynet-src/socket_server.c\<close>: the slots, and the requests in the pipe that are for them. A slot is
  reserved exactly as long as the request that makes it a socket is in the pipe. Every call, request and event keeps the invariant and
  fails no assertion, within limits that are shown to be needed.
\<close>

section \<open>The invariant of the server\<close>

fun req_id :: "request \<Rightarrow> u32 option" where
  "req_id (Req_start i opaque) = Some i"
| "req_id (Req_bind i fd opaque) = Some i"
| "req_id (Req_listen i fd opaque) = Some i"
| "req_id (Req_close i shut opaque) = Some i"
| "req_id (Req_open i port opaque host) = Some i"
| "req_id Req_exit = None"
| "req_id (Req_send i b) = Some i"
| "req_id (Req_send_low i b) = Some i"
| "req_id (Req_send_udp i b address) = Some i"
| "req_id (Req_setudp i address) = Some i"
| "req_id (Req_setopt i what v) = Some i"
| "req_id (Req_udp i fd v6 opaque) = Some i"

text \<open>The requests that make a reserved slot a socket.\<close>

fun creates :: "request \<Rightarrow> bool" where
  "creates (Req_bind i fd opaque) = True"
| "creates (Req_listen i fd opaque) = True"
| "creates (Req_open i port opaque host) = True"
| "creates (Req_udp i fd v6 opaque) = True"
| "creates _ = False"

fun sends :: "request \<Rightarrow> bool" where
  "sends (Req_send i b) = True"
| "sends (Req_send_low i b) = True"
| "sends _ = False"

fun req_plain :: "request \<Rightarrow> bool" where
  "req_plain (Req_send i b) = plain b"
| "req_plain (Req_send_low i b) = plain b"
| "req_plain (Req_send_udp i b address) = plain b"
| "req_plain _ = True"

definition pend :: "u32 \<Rightarrow> request list \<Rightarrow> nat" where
  "pend i l = length (filter (\<lambda>rq. sends rq \<and> req_id rq = Some i) l)"

definition for_id :: "u32 \<Rightarrow> request list \<Rightarrow> request list" where
  "for_id i l = filter (\<lambda>rq. req_id rq = Some i) l"

text \<open>A slot is reserved exactly as long as the request that makes it a socket is in the pipe, and no request for the id comes before
  that one.\<close>

definition reserved :: "u32 \<Rightarrow> socket_server \<Rightarrow> bool" where
  "reserved i ss \<longleftrightarrow> sk_type (ss_slot ss (HASH_ID i)) = ST_RESERVE \<and> sk_id (ss_slot ss (HASH_ID i)) = i"

definition pipe_for :: "u32 \<Rightarrow> socket_server \<Rightarrow> bool" where
  "pipe_for i ss \<longleftrightarrow>
     (if reserved i ss then \<exists>c r. for_id i (ss_pipe ss) = c # r \<and> creates c \<and> (\<forall>rq \<in> set r. \<not> creates rq)
      else \<forall>rq \<in> set (for_id i (ss_pipe ss)). \<not> creates rq)"

definition slots_ok :: "socket_server \<Rightarrow> bool" where
  "slots_ok ss \<longleftrightarrow> (\<forall>k. slot_ok k (pend (sk_id (ss_slot ss k)) (ss_pipe ss)) (ss_slot ss k))"

definition sv_inv :: "socket_server \<Rightarrow> bool" where
  "sv_inv ss \<longleftrightarrow> slots_ok ss \<and> (\<forall>i. pipe_for i ss) \<and> (\<forall>rq \<in> set (ss_pipe ss). req_plain rq)"

abbreviation sv_type :: "socket_server \<Rightarrow> nat \<Rightarrow> sock_type" where
  "sv_type ss k \<equiv> sk_type (ss_slot ss k)"

lemma sv_inv_same: "ss_slot ss' = ss_slot ss \<Longrightarrow> ss_pipe ss' = ss_pipe ss \<Longrightarrow> sv_inv ss' = sv_inv ss"
  by (simp add: sv_inv_def slots_ok_def pipe_for_def reserved_def)

lemma sv_inv_slot: "sv_inv ss \<Longrightarrow> slot_ok k (pend (sk_id (ss_slot ss k)) (ss_pipe ss)) (ss_slot ss k)"
  by (simp add: sv_inv_def slots_ok_def)

text \<open>The effect of a handler on a slot in use keeps the invariant.\<close>

lemma pipe_for_kept:
  assumes "kept k n ss ss'" "sv_type ss k \<noteq> ST_RESERVE" "pipe_for i ss"
  shows "pipe_for i ss'"
proof -
  have "reserved i ss' = reserved i ss"
    by (cases "HASH_ID i = k") (use assms(1,2) in \<open>auto simp: reserved_def kept_def local_def\<close>)
  then show ?thesis using assms(1,3) by (simp add: pipe_for_def kept_def local_def)
qed

lemma sv_inv_kept:
  assumes inv: "sv_inv ss" and k: "kept k (pend (sk_id (ss_slot ss k)) (ss_pipe ss)) ss ss'" and t: "sv_type ss k \<noteq> ST_RESERVE"
  shows "sv_inv ss' \<and> (\<forall>j. type_edge (sv_type ss j) (sv_type ss' j))"
proof -
  have p: "ss_pipe ss' = ss_pipe ss" and o: "j \<noteq> k \<Longrightarrow> ss_slot ss' j = ss_slot ss j" for j using k by (simp_all add: kept_def local_def)
  have "slot_ok j (pend (sk_id (ss_slot ss' j)) (ss_pipe ss')) (ss_slot ss' j) \<and> type_edge (sv_type ss j) (sv_type ss' j)" for j
    by (cases "j = k") (use k p o sv_inv_slot [OF inv] in \<open>simp_all add: kept_def\<close>)
  then show ?thesis using inv p pipe_for_kept [OF k t] by (simp add: sv_inv_def slots_ok_def)
qed

text \<open>A request is taken from the pipe.\<close>

lemma for_id_simps [simp]: "for_id i [] = []" "for_id i (rq # l) = (if req_id rq = Some i then rq # for_id i l else for_id i l)"
    "for_id i (l @ l') = for_id i l @ for_id i l'"
  by (simp_all add: for_id_def)

lemma pend_simps [simp]: "pend i [] = 0" "pend i (rq # l) = (if sends rq \<and> req_id rq = Some i then Suc (pend i l) else pend i l)"
    "pend i (l @ l') = pend i l + pend i l'"
  by (simp_all add: pend_def)

lemma reserved_upd [simp]: "reserved i (ss\<lparr>ss_pipe := l\<rparr>) = reserved i ss" "reserved i (ss\<lparr>ss_os := x\<rparr>) = reserved i ss"
    "reserved i (ss\<lparr>ss_out := y\<rparr>) = reserved i ss" "reserved i (emit e ss) = reserved i ss" "reserved i (send_request rq ss) = reserved i ss"
  by (simp_all add: reserved_def send_request_def)

lemma pop_not_reserved:
  assumes "sv_inv ss" "ss_pipe ss = rq # rest" "\<not> creates rq" "req_id rq = Some i"
  shows "\<not> reserved i ss"
proof -
  have "pipe_for i ss" using assms(1) by (simp add: sv_inv_def)
  then show ?thesis using assms(2-4) by (auto simp: pipe_for_def)
qed

lemma pop_pipe_for:
  assumes "sv_inv ss" "ss_pipe ss = rq # rest" "\<not> creates rq"
  shows "pipe_for i (ss\<lparr>ss_pipe := rest\<rparr>)"
proof -
  have "pipe_for i ss" using assms(1) by (simp add: sv_inv_def)
  then show ?thesis using assms(2,3) pop_not_reserved [OF assms, of i] by (auto simp: pipe_for_def split: if_splits)
qed

lemma pop_inv:
  assumes inv: "sv_inv ss" and p: "ss_pipe ss = rq # rest" and n: "\<not> creates rq" "\<not> sends rq"
  shows "sv_inv (ss\<lparr>ss_pipe := rest\<rparr>)"
proof -
  have "slots_ok (ss\<lparr>ss_pipe := rest\<rparr>)" using sv_inv_slot [OF inv] p n(2) by (simp add: slots_ok_def)
  moreover have "\<forall>rq \<in> set rest. req_plain rq" using inv p by (simp add: sv_inv_def)
  ultimately show ?thesis using pop_pipe_for [OF inv p n(1)] by (simp add: sv_inv_def)
qed

definition handled :: "nat \<Rightarrow> socket_server \<Rightarrow> socket_server \<Rightarrow> bool" where
  "handled k ss ss' \<longleftrightarrow> ss_slot ss' = ss_slot ss \<and> ss_pipe ss' = ss_pipe ss \<or>
     live (sv_type ss k) \<and> kept k (pend (sk_id (ss_slot ss k)) (ss_pipe ss)) ss ss'"

definition sv_good :: "socket_server \<Rightarrow> socket_server \<Rightarrow> bool" where
  "sv_good ss ss' \<longleftrightarrow> sv_inv ss' \<and> (\<forall>j. type_edge (sv_type ss j) (sv_type ss' j))"

lemma sv_good_handled: "sv_inv ss \<Longrightarrow> handled k ss ss' \<Longrightarrow> sv_good ss ss'"
  using sv_inv_kept [of ss k ss'] sv_inv_same [of ss' ss] by (auto simp: handled_def sv_good_def live_def)

lemma still_handled:
  "still k (pend (sk_id (ss_slot ss k)) (ss_pipe ss)) ss ss' \<Longrightarrow> live (sv_type ss k) \<Longrightarrow> handled k ss ss'"
  by (auto simp: still_def handled_def kept_def same_core_def)

lemma handle_other:
  assumes inv: "sv_inv ss" and n: "\<not> creates rq" "\<not> sends rq" "\<forall>i. req_id rq = Some i \<longrightarrow> \<not> reserved i ss" and pl: "req_plain rq"
  shows "\<exists>r ss'. handle_request rq ss = Ok (r, ss') \<and> sv_good ss ss'"
proof -
  have good: "\<exists>r ss'. handle_request rq ss = Ok (r, ss') \<and> sv_good ss ss'"
    if "\<exists>k r ss'. handle_request rq ss = Ok (r, ss') \<and> handled k ss ss'" using that sv_good_handled [OF inv] by blast
  have refl: "handled k ss ss" for k by (simp add: handled_def)
  have lv: "live (sv_type ss (HASH_ID i))" if "req_id rq = Some i" "sk_id (ss_slot ss (HASH_ID i)) = i" "sv_type ss (HASH_ID i) \<noteq> ST_INVALID" for i
    using n(3) that by (auto simp: reserved_def live_def)
  show ?thesis
  proof (cases rq)
    case (Req_start i opaque)
    show ?thesis using start_socket_kept [OF sv_inv_slot [OF inv], of i opaque] refl by (intro good) (auto simp: Req_start handle_request_def handled_def)
  next
    case (Req_close i shut opaque)
    have "\<not> (sv_type ss (HASH_ID i) = ST_RESERVE \<and> sk_id (ss_slot ss (HASH_ID i)) = i)" using n(3) Req_close by (simp add: reserved_def)
    from close_socket_kept [OF sv_inv_slot [OF inv] this, of shut opaque] show ?thesis
      by (intro good) (auto simp: Req_close handle_request_def handled_def)
  next
    case (Req_send_udp i b address)
    show ?thesis
    proof (cases "sk_id (ss_slot ss (HASH_ID i)) = i \<and> sv_type ss (HASH_ID i) \<noteq> ST_INVALID")
      case True
      then have l: "live (sv_type ss (HASH_ID i))" using lv [of i] Req_send_udp by simp
      from send_socket_keep [OF sv_inv_slot [OF inv] l, of b True "Some address"] pl obtain r ss' where
        "send_socket i b True (Some address) ss = (r, ss')" "handled (HASH_ID i) ss ss'" using still_handled [OF _ l] Req_send_udp by auto
      then show ?thesis by (intro good) (auto simp: Req_send_udp handle_request_def)
    next
      case False
      then show ?thesis using refl by (intro good) (auto simp: Req_send_udp handle_request_def send_socket_def Let_def)
    qed
  next
    case (Req_setudp i address)
    let ?s = "ss_slot ss (HASH_ID i)"
    show ?thesis
    proof (cases "sk_id ?s = i \<and> sv_type ss (HASH_ID i) \<noteq> ST_INVALID")
      case True
      then have l: "live (sv_type ss (HASH_ID i))" using lv [of i] Req_setudp by simp
      have "handled (HASH_ID i) ss (set_sock (HASH_ID i) (?s\<lparr>sk_udp_address := a, sk_udpconnecting := u\<rparr>) ss)" for a u
        by (rule still_handled [OF _ l]) (use sv_inv_slot [OF inv] in \<open>simp add: still_def same_core_def\<close>)
      then show ?thesis using refl True by (intro good) (auto simp: Req_setudp handle_request_def set_udp_address_def Let_def)
    next
      case False
      then show ?thesis using refl by (intro good) (auto simp: Req_setudp handle_request_def set_udp_address_def Let_def)
    qed
  next
    case (Req_setopt i what v)
    then show ?thesis by (intro good) (auto simp: handle_request_def setopt_socket_def Let_def handled_def)
  next
    case Req_exit
    then show ?thesis using refl by (intro good) (auto simp: handle_request_def)
  qed (use n in simp_all)
qed

lemma slot_ok_pend: "slot_ok k n s \<Longrightarrow> (HASH_ID (sk_id s) = k \<Longrightarrow> m = n) \<Longrightarrow> slot_ok k m s"
  by (cases "HASH_ID (sk_id s) = k") (auto simp: slot_ok_def)

text \<open>A handled send request.\<close>

lemma sent_good:
  assumes inv: "sv_inv ss" and p: "ss_pipe ss = rq # rest" and rq: "sends rq" "req_id rq = Some i"
    and l: "local (HASH_ID i) (ss\<lparr>ss_pipe := rest\<rparr>) ss'" and f: "sk_id (ss_slot ss' (HASH_ID i)) = sk_id (ss_slot ss (HASH_ID i))"
      "sv_type ss' (HASH_ID i) = sv_type ss (HASH_ID i)"
    and ok: "slot_ok (HASH_ID i) (pend (sk_id (ss_slot ss (HASH_ID i))) rest) (ss_slot ss' (HASH_ID i))"
  shows "sv_good ss ss'"
proof -
  have p': "ss_pipe ss' = rest" and o: "j \<noteq> HASH_ID i \<Longrightarrow> ss_slot ss' j = ss_slot ss j" for j using l by (simp_all add: local_def)
  have nc: "\<not> creates rq" using rq(1) by (cases rq) simp_all
  have "slot_ok j (pend (sk_id (ss_slot ss' j)) rest) (ss_slot ss' j)" for j
  proof (cases "j = HASH_ID i")
    case True
    then show ?thesis using ok f by simp
  next
    case False
    show ?thesis unfolding o [OF False] by (rule slot_ok_pend [OF sv_inv_slot [OF inv]]) (use False p rq in auto)
  qed
  moreover have "type_edge (sv_type ss j) (sv_type ss' j)" for j by (cases "j = HASH_ID i") (use f o in simp_all)
  moreover have "pipe_for j ss'" for j
  proof -
    have "reserved j ss' = reserved j (ss\<lparr>ss_pipe := rest\<rparr>)" by (cases "HASH_ID j = HASH_ID i") (use f o in \<open>simp_all add: reserved_def\<close>)
    then show ?thesis using pop_pipe_for [OF inv p nc, of j] p' by (simp add: pipe_for_def split: if_splits)
  qed
  ultimately show ?thesis using inv p p' by (simp add: sv_good_def sv_inv_def slots_ok_def)
qed

lemma dec_keep:
  assumes ok: "slot_ok (HASH_ID i) (Suc n) (ss_slot ss (HASH_ID i))" and s: "sk_id (ss_slot ss (HASH_ID i)) = i"
  shows "\<exists>ss'. dec_sending_ref i ss = Ok ss' \<and> local (HASH_ID i) ss ss' \<and> slot_ok (HASH_ID i) n (ss_slot ss' (HASH_ID i)) \<and>
    sk_id (ss_slot ss' (HASH_ID i)) = i \<and> sv_type ss' (HASH_ID i) = sv_type ss (HASH_ID i)"
proof (cases "sk_protocol (ss_slot ss (HASH_ID i)) = PROTOCOL_TCP")
  case True
  let ?s = "ss_slot ss (HASH_ID i)"
  have c: "counted (Suc n) ?s" using ok True s by (auto simp: slot_ok_def)
  then have "dec_sending_ref i ss = Ok (set_sock (HASH_ID i) (?s\<lparr>sk_sending := push_bit 16 (ID_TAG16 i) + of_nat n\<rparr>) ss)"
    by (intro dec_sending_ok) (use s True in \<open>simp_all add: counted_def\<close>)
  moreover have "slot_ok (HASH_ID i) n (?s\<lparr>sk_sending := push_bit 16 (ID_TAG16 i) + of_nat n\<rparr>)"
    using ok c s by (auto simp: slot_ok_def counted_def)
  ultimately show ?thesis using s by simp
next
  case False
  then show ?thesis using ok s by (auto simp: dec_sending_ref_def Let_def slot_ok_def)
qed

lemma handle_send:
  assumes inv: "sv_inv ss" and p: "ss_pipe ss = rq # rest" and rq: "sends rq" "req_id rq = Some i" and b: "plain b"
  shows "\<exists>r ss'. (case send_socket i b high None (ss\<lparr>ss_pipe := rest\<rparr>) of (r, ss1) \<Rightarrow> res_bind (dec_sending_ref i ss1) (\<lambda>ss2. Ok (r, ss2))) = Ok (r, ss') \<and>
    sv_good ss ss'"
proof -
  let ?k = "HASH_ID i" and ?s = "ss_slot ss (HASH_ID i)" and ?ss0 = "ss\<lparr>ss_pipe := rest\<rparr>"
  have nc: "\<not> creates rq" using rq(1) by (cases rq) simp_all
  have ok: "slot_ok ?k (pend (sk_id ?s) (ss_pipe ss)) ?s" by (rule sv_inv_slot [OF inv])
  show ?thesis
  proof (cases "sk_id ?s = i")
    case False
    then have "send_socket i b high None ?ss0 = (None, ?ss0)" "dec_sending_ref i ?ss0 = Ok ?ss0"
      by (simp_all add: send_socket_def dec_sending_ref_def Let_def)
    moreover have "sv_good ss ?ss0" by (rule sent_good [OF inv p rq]) (use ok p False rq in simp_all)
    ultimately show ?thesis by simp
  next
    case True
    let ?n = "pend i rest"
    have ok1: "slot_ok ?k (Suc ?n) (ss_slot ?ss0 ?k)" using ok True p rq by simp
    have nr: "sv_type ss ?k \<noteq> ST_RESERVE" using pop_not_reserved [OF inv p nc rq(2)] True by (simp add: reserved_def)
    obtain r ss1 where s1: "send_socket i b high None ?ss0 = (r, ss1)" "still ?k (Suc ?n) ?ss0 ss1"
    proof (cases "sv_type ss ?k = ST_INVALID")
      case True
      then show ?thesis using that [of None ?ss0] ok1 by (simp add: send_socket_def Let_def still_def)
    next
      case False
      then have "live (sv_type ?ss0 ?k)" using nr by (simp add: live_def)
      from send_socket_keep [OF ok1 this b] that show ?thesis by blast
    qed
    have i1: "sk_id (ss_slot ss1 ?k) = i" "slot_ok ?k (Suc ?n) (ss_slot ss1 ?k)" "sv_type ss1 ?k = sv_type ss ?k" "local ?k ?ss0 ss1"
      using s1(2) True by (simp_all add: still_def same_core_def)
    from dec_keep [OF i1(2,1)] obtain ss2 where d: "dec_sending_ref i ss1 = Ok ss2" "local ?k ss1 ss2" "slot_ok ?k ?n (ss_slot ss2 ?k)"
        "sk_id (ss_slot ss2 ?k) = i" "sv_type ss2 ?k = sv_type ss1 ?k" by blast
    have "sv_good ss ss2" by (rule sent_good [OF inv p rq local_trans [OF i1(4) d(2)]]) (use d i1 True in simp_all)
    then show ?thesis using s1(1) d(1) by simp
  qed
qed

section \<open>Requests that make a socket\<close>

definition made :: "nat \<Rightarrow> socket_server \<Rightarrow> socket_server \<Rightarrow> bool" where
  "made k ss ss' \<longleftrightarrow> local k ss ss' \<and> sk_id (ss_slot ss' k) = sk_id (ss_slot ss k) \<and> slot_ok k 0 (ss_slot ss' k) \<and>
     sv_type ss' k \<in> set (type_next ST_RESERVE)"

lemma slot_ok_invalid: "slot_ok k n s \<Longrightarrow> \<not> live (sk_type s) \<Longrightarrow> slot_ok k n (s\<lparr>sk_type := ST_INVALID\<rparr>)"
  by (auto simp: slot_ok_def live_def counted_def)

lemma made_invalid:
  assumes "local k ss ss1" "sk_id (ss_slot ss1 k) = sk_id (ss_slot ss k)" "slot_ok k 0 (ss_slot ss1 k)" "\<not> live (sv_type ss1 k)"
  shows "made k ss (set_type k ST_INVALID ss1)"
  using assms slot_ok_invalid [OF assms(3,4)] by (simp add: made_def set_type_def)

definition new_slot :: "u32 \<Rightarrow> bool \<Rightarrow> socket_server \<Rightarrow> socket_server \<Rightarrow> bool" where
  "new_slot i d ss ss' \<longleftrightarrow> local (HASH_ID i) ss ss' \<and> sk_id (ss_slot ss' (HASH_ID i)) = i \<and>
     (if d then \<forall>t. live t \<longrightarrow> slot_ok (HASH_ID i) 0 ((ss_slot ss' (HASH_ID i))\<lparr>sk_type := t\<rparr>)
      else slot_ok (HASH_ID i) 0 (ss_slot ss' (HASH_ID i)) \<and> sv_type ss' (HASH_ID i) = ST_INVALID)"

lemma new_fd_keep:
  assumes ok: "slot_ok (HASH_ID i) 0 (ss_slot ss (HASH_ID i))" and r: "reserved i ss" and pr: "protocol \<noteq> PROTOCOL_UNKNOWN"
  shows "\<exists>d ss'. new_fd i fd protocol opaque add ss = Ok (d, ss') \<and> new_slot i d ss ss'"
proof -
  let ?k = "HASH_ID i" and ?s = "ss_slot ss (HASH_ID i)"
  have t: "sk_type ?s = ST_RESERVE" "sk_id ?s = i" using r by (simp_all add: reserved_def)
  then have e: "sk_high ?s = []" "sk_low ?s = []" using ok by (simp_all add: slot_ok_def)
  obtain failed ss1 where a: "(if add then sp_add fd ?k ss else (False, ss)) = (failed, ss1)" by fastforce
  have l: "local ?k ss ss1" "ss_slot ss1 = ss_slot ss" using a sp_add_local [of fd ?k ss failed ss1 ?k] by (auto split: if_splits)
  show ?thesis
  proof (cases failed)
    case True
    have "slot_ok ?k 0 (?s\<lparr>sk_type := ST_INVALID\<rparr>)" by (rule slot_ok_invalid [OF ok]) (simp add: t)
    then show ?thesis using True a t l
      by (intro exI [of _ False] exI [of _ "set_type ?k ST_INVALID ss1"]) (simp add: new_fd_def set_type_def Let_def new_slot_def)
  next
    case False
    let ?s1 = "?s\<lparr>sk_id := i, sk_fd := fd, sk_sending := push_bit 16 (ID_TAG16 i), sk_protocol := protocol,
          sk_size := MIN_READ_BUFFER, sk_opaque := opaque, sk_wb_size := 0, sk_warn_size := 0, sk_dw := None,
          sk_stat := \<lparr>st_rtime = 0, st_wtime = 0, st_read = 0, st_write = 0\<rparr>\<rparr>"
    have "slot_ok ?k 0 (?s1\<lparr>sk_type := t\<rparr>)" if "live t" for t
      using that e pr by (auto simp: slot_ok_def live_def queue_ok_def bufs_ok_def counted_def)
    then show ?thesis using False a t e l
      by (intro exI [of _ True] exI [of _ "set_sock ?k ?s1 ss1"]) (simp add: new_fd_def Let_def new_slot_def)
  qed
qed

lemma new_slot_type:
  assumes "new_slot i True ss ss1" "sk_id (ss_slot ss (HASH_ID i)) = i" "t \<in> {ST_PLISTEN, ST_CONNECTING, ST_CONNECTED, ST_BIND}"
  shows "made (HASH_ID i) ss (set_type (HASH_ID i) t ss1)"
  using assms by (auto simp: made_def set_type_def new_slot_def)

lemma new_slot_failed:
  assumes "new_slot i False ss ss1" "sk_id (ss_slot ss (HASH_ID i)) = i"
  shows "made (HASH_ID i) ss (set_type (HASH_ID i) ST_INVALID (emit e ss1))"
  by (rule made_invalid) (use assms in \<open>simp_all add: new_slot_def\<close>)

lemma try_connect_same: "try_connect tries ss = (r, ss') \<Longrightarrow> ss_slot ss' = ss_slot ss \<and> ss_pipe ss' = ss_pipe ss"
  by (induction tries ss rule: try_connect.induct) auto

lemma open_socket_made:
  assumes ok: "slot_ok (HASH_ID i) 0 (ss_slot ss (HASH_ID i))" and r: "reserved i ss"
  shows "\<exists>r ss'. open_socket i opaque ss = Ok (r, ss') \<and> made (HASH_ID i) ss ss'"
proof -
  let ?k = "HASH_ID i"
  have nl: "\<not> live (sv_type ss ?k)" "sk_id (ss_slot ss ?k) = i" using r by (simp_all add: reserved_def)
  obtain ai ss1 where t: "take_resolve ss = (ai, ss1)" by (cases "take_resolve ss")
  then have s1: "ss_slot ss1 = ss_slot ss" "ss_pipe ss1 = ss_pipe ss" by (auto simp: take_resolve_def split: list.splits)
  have fail: "made ?k ss (set_type ?k ST_INVALID ss2)" if "ss_slot ss2 = ss_slot ss" "ss_pipe ss2 = ss_pipe ss" for ss2
    by (rule made_invalid) (use that ok nl in \<open>simp_all add: local_def\<close>)
  show ?thesis
  proof (cases ai)
    case (Inl m)
    then show ?thesis using t fail [OF s1] by (simp add: open_socket_def Let_def)
  next
    case (Inr tries)
    obtain c ss2 where c: "try_connect tries ss1 = (c, ss2)" by (cases "try_connect tries ss1")
    note same = try_connect_same [OF c]
    have s2: "ss_slot ss2 = ss_slot ss" "ss_pipe ss2 = ss_pipe ss" using same s1 by simp_all
    show ?thesis
    proof (cases c)
      case None
      then show ?thesis using t Inr c fail [OF s2] by (simp add: open_socket_def Let_def)
    next
      case (Some x)
      obtain fd now nm where x: "x = (fd, now, nm)" by (cases x)
      have "slot_ok ?k 0 (ss_slot ss2 ?k)" "reserved i ss2" using ok r s2 by (simp_all add: reserved_def)
      from new_fd_keep [OF this, of PROTOCOL_TCP fd opaque True] obtain made1 ss3 where
        n: "new_fd i fd PROTOCOL_TCP opaque True ss2 = Ok (made1, ss3)" "new_slot i made1 ss2 ss3" by auto
      have n3: "new_slot i made1 ss ss3" using n(2) s2 by (simp add: new_slot_def local_def)
      have "made ?k ss (set_type ?k ST_INVALID (emit (O_close fd) ss3))" if "\<not> made1" by (rule new_slot_failed) (use that n3 nl in simp_all)
      moreover have "made ?k ss (set_type ?k t ss3)" if "made1" "t = ST_CONNECTED \<or> t = ST_CONNECTING" for t
        by (rule new_slot_type) (use that n3 nl in auto)
      then have "made ?k ss (set_type ?k ST_CONNECTED ss3)" "made ?k ss (emit (O_arm fd True) (set_type ?k ST_CONNECTING ss3))" if made1
        using that by (simp_all add: made_def)
      ultimately show ?thesis using t Inr c Some x n(1) by (cases made1; cases now) (auto simp: open_socket_def Let_def)
    qed
  qed
qed

lemma handle_create:
  assumes c: "creates rq" "req_id rq = Some i" and ok: "slot_ok (HASH_ID i) 0 (ss_slot ss (HASH_ID i))" and r: "reserved i ss"
  shows "\<exists>r ss'. handle_request rq ss = Ok (r, ss') \<and> made (HASH_ID i) ss ss'"
proof -
  let ?k = "HASH_ID i"
  have id: "sk_id (ss_slot ss ?k) = i" using r by (simp add: reserved_def)
  note nf = new_fd_keep [OF ok r]
  show ?thesis
  proof (cases rq)
    case (Req_open j port opaque host)
    then show ?thesis using open_socket_made [OF ok r, of opaque] c by (simp add: handle_request_def)
  next
    case (Req_listen j fd opaque)
    from nf [of PROTOCOL_TCP fd opaque False] obtain d ss1 where
      n: "new_fd i fd PROTOCOL_TCP opaque False ss = Ok (d, ss1)" "new_slot i d ss ss1" by auto
    show ?thesis using Req_listen c n new_slot_type [of i ss ss1 ST_PLISTEN] new_slot_failed [of i ss ss1 "O_close fd"] id
      by (cases d) (auto simp: handle_request_def listen_socket_def)
  next
    case (Req_bind j fd opaque)
    from nf [of PROTOCOL_TCP fd opaque True] obtain d ss1 where
      n: "new_fd i fd PROTOCOL_TCP opaque True ss = Ok (d, ss1)" "new_slot i d ss ss1" by auto
    have "made ?k ss ss1" if "\<not> d" using that n id by (simp add: made_def new_slot_def)
    then show ?thesis using Req_bind c n new_slot_type [of i ss ss1 ST_BIND] id
      by (cases d) (auto simp: handle_request_def bind_socket_def)
  next
    case (Req_udp j fd v6 opaque)
    obtain p where p: "p = (if v6 then PROTOCOL_UDPv6 else PROTOCOL_UDP)" "p \<noteq> PROTOCOL_UNKNOWN" by (cases v6) auto
    from nf [OF p(2), of fd opaque True] obtain d ss1 where n: "new_fd i fd p opaque True ss = Ok (d, ss1)" "new_slot i d ss ss1" by auto
    have "made ?k ss (set_sock ?k ((ss_slot ss1 ?k)\<lparr>sk_type := ST_CONNECTED, sk_udp_address := a\<rparr>) ss1)" if d for a
      using that n id by (simp add: made_def new_slot_def)
    then show ?thesis using Req_udp c n(1) n(2) new_slot_failed [of i ss ss1 "O_close fd"] id
      by (cases d) (auto simp: handle_request_def add_udp_socket_def Let_def p(1) [symmetric])
  qed (use c in simp_all)
qed

lemma pop_reserved:
  assumes inv: "sv_inv ss" and p: "ss_pipe ss = rq # rest" and c: "creates rq" "req_id rq = Some i"
  shows "reserved i ss" "\<forall>rq \<in> set (for_id i rest). \<not> creates rq" "pend i rest = 0" "slot_ok (HASH_ID i) 0 (ss_slot ss (HASH_ID i))"
proof -
  have pf: "pipe_for i ss" using inv by (simp add: sv_inv_def)
  then show r: "reserved i ss" using p c by (simp add: pipe_for_def split: if_splits)
  show "\<forall>rq \<in> set (for_id i rest). \<not> creates rq" using pf p c r by (simp add: pipe_for_def)
  have "slot_ok (HASH_ID i) (pend i (ss_pipe ss)) (ss_slot ss (HASH_ID i))" using sv_inv_slot [OF inv, of "HASH_ID i"] r by (simp add: reserved_def)
  then have "pend i (ss_pipe ss) = 0 \<and> slot_ok (HASH_ID i) 0 (ss_slot ss (HASH_ID i))" using r by (auto simp: slot_ok_def reserved_def)
  then show "pend i rest = 0" "slot_ok (HASH_ID i) 0 (ss_slot ss (HASH_ID i))" using p by (simp_all split: if_splits)
qed

lemma made_good:
  assumes inv: "sv_inv ss" and p: "ss_pipe ss = rq # rest" and c: "creates rq" "req_id rq = Some i"
    and m: "made (HASH_ID i) (ss\<lparr>ss_pipe := rest\<rparr>) ss'"
  shows "sv_good ss ss'"
proof -
  let ?k = "HASH_ID i"
  note pr = pop_reserved [OF inv p c]
  have p': "ss_pipe ss' = rest" and o: "j \<noteq> ?k \<Longrightarrow> ss_slot ss' j = ss_slot ss j" for j using m by (simp_all add: made_def local_def)
  have k: "sk_id (ss_slot ss ?k) = i" "sk_id (ss_slot ss' ?k) = i" "slot_ok ?k 0 (ss_slot ss' ?k)" "sv_type ss ?k = ST_RESERVE"
      "sv_type ss' ?k \<in> set (type_next ST_RESERVE)" using m pr(1) by (simp_all add: made_def reserved_def)
  have ns: "\<not> sends rq" using c(1) by (cases rq) simp_all
  have "slot_ok j (pend (sk_id (ss_slot ss' j)) rest) (ss_slot ss' j)" for j
    by (cases "j = ?k") (use k o pr(3) sv_inv_slot [OF inv, of j] p ns in simp_all)
  moreover have "type_edge (sv_type ss j) (sv_type ss' j)" for j
    by (cases "j = ?k") (use k o in \<open>simp_all add: type_edge_def\<close>)
  moreover have "pipe_for j ss'" for j
  proof (cases "j = i")
    case True
    have "\<not> reserved i ss'" using k(5) by (auto simp: reserved_def)
    then show ?thesis using True pr(2) p' by (simp add: pipe_for_def)
  next
    case False
    have "reserved j ss' = reserved j ss" by (cases "HASH_ID j = ?k") (use k False o in \<open>simp_all add: reserved_def\<close>)
    moreover have "for_id j rest = for_id j (ss_pipe ss)" using p c False by simp
    ultimately show ?thesis using inv p' by (simp add: pipe_for_def sv_inv_def)
  qed
  ultimately show ?thesis using inv p p' by (simp add: sv_good_def sv_inv_def slots_ok_def)
qed

lemma ctrl_good:
  assumes inv: "sv_inv ss" and p: "ss_pipe ss = rq # rest"
  shows "\<exists>r ss'. ctrl_cmd ss = Ok (r, ss') \<and> sv_good ss ss'"
proof -
  let ?ss0 = "ss\<lparr>ss_pipe := rest\<rparr>"
  have eq: "ctrl_cmd ss = handle_request rq ?ss0" by (simp add: ctrl_cmd_def p)
  have pl: "req_plain rq" using inv p by (simp add: sv_inv_def)
  consider i where "creates rq" "req_id rq = Some i" | i b where "rq = Req_send i b" | i b where "rq = Req_send_low i b" | "\<not> creates rq" "\<not> sends rq"
    by (cases rq) auto
  then show ?thesis
  proof cases
    case (1 i)
    have "slot_ok (HASH_ID i) 0 (ss_slot ?ss0 (HASH_ID i))" "reserved i ?ss0" using pop_reserved [OF inv p 1] by simp_all
    from handle_create [OF 1 this] show ?thesis using eq made_good [OF inv p 1] by auto
  next
    case (2 i b)
    then show ?thesis using handle_send [OF inv p, of i b True] pl eq by (simp add: handle_request_def)
  next
    case (3 i b)
    then show ?thesis using handle_send [OF inv p, of i b False] pl eq by (simp add: handle_request_def)
  next
    case 4
    have "\<forall>i. req_id rq = Some i \<longrightarrow> \<not> reserved i ?ss0" using pop_not_reserved [OF inv p 4(1)] by simp
    from handle_other [OF pop_inv [OF inv p 4] 4 this pl] show ?thesis using eq by (simp add: sv_good_def)
  qed
qed

section \<open>Reserving a slot\<close>

lemma reserve_loop_shape:
  "reserve_loop n ss = (r, ss') \<Longrightarrow> (case r of
     None \<Rightarrow> \<exists>a. ss' = ss\<lparr>ss_alloc_id := a\<rparr>
   | Some i \<Rightarrow> sv_type ss (HASH_ID i) = ST_INVALID \<and>
       ss' = set_sock (HASH_ID i) ((ss_slot ss (HASH_ID i))\<lparr>sk_type := ST_RESERVE, sk_id := i, sk_protocol := PROTOCOL_UNKNOWN, sk_udpconnecting := 0, sk_fd := -1\<rparr>)
         (ss\<lparr>ss_alloc_id := i\<rparr>))"
proof (induction n arbitrary: ss)
  case 0
  have "\<exists>a. ss = ss\<lparr>ss_alloc_id := a\<rparr>" by (rule exI [of _ "ss_alloc_id ss"]) simp
  then show ?case using 0 by auto
next
  case (Suc n)
  show ?case using Suc.prems Suc.IH [of "ss\<lparr>ss_alloc_id := next_id (ss_alloc_id ss)\<rparr>"]
    by (cases "sv_type ss (HASH_ID (next_id (ss_alloc_id ss))) = ST_INVALID") (auto simp: reserve_loop_step Let_def set_sock_def split: option.splits)
qed

lemma reserve_none: "reserve_id ss = (None, ss') \<Longrightarrow> ss_slot ss' = ss_slot ss \<and> ss_pipe ss' = ss_pipe ss"
  using reserve_loop_shape [of MAX_SOCKET ss None ss'] by (auto simp: reserve_id_def)

lemma reserve_some:
  assumes inv: "sv_inv ss" and r: "reserve_id ss = (Some i, ss')"
  shows "local (HASH_ID i) ss ss'" "sv_type ss (HASH_ID i) = ST_INVALID" "reserved i ss'" "slot_ok (HASH_ID i) 0 (ss_slot ss' (HASH_ID i))"
proof -
  let ?k = "HASH_ID i" and ?s = "ss_slot ss (HASH_ID i)"
  let ?s1 = "?s\<lparr>sk_type := ST_RESERVE, sk_id := i, sk_protocol := PROTOCOL_UNKNOWN, sk_udpconnecting := 0, sk_fd := -1\<rparr>"
  have t: "sk_type ?s = ST_INVALID" "ss' = set_sock ?k ?s1 (ss\<lparr>ss_alloc_id := i\<rparr>)"
    using reserve_loop_shape [of MAX_SOCKET ss "Some i" ss'] r by (simp_all add: reserve_id_def)
  have "sk_high ?s = []" "sk_low ?s = []" using sv_inv_slot [OF inv, of ?k] t(1) by (simp_all add: slot_ok_def)
  then show "slot_ok ?k 0 (ss_slot ss' ?k)" "reserved i ss'" using t(2) by (simp_all add: slot_ok_def reserved_def)
  show "sv_type ss ?k = ST_INVALID" by (rule t(1))
  show "local ?k ss ss'" using t(2) by (simp add: local_def)
qed

text \<open>The pipe holds no request for the id: the counter has not come round to an id that is still in use.\<close>

definition fresh_id :: "u32 option \<Rightarrow> socket_server \<Rightarrow> bool" where
  "fresh_id r ss = (case r of None \<Rightarrow> True | Some i \<Rightarrow> for_id i (ss_pipe ss) = [])"

lemma pend_fresh: "for_id i l = [] \<Longrightarrow> pend i l = 0"
  by (auto simp: for_id_def pend_def filter_empty_conv)

lemma slot_ok_others:
  assumes "sv_inv ss" "local k ss ss'" "j \<noteq> k"
  shows "slot_ok j (pend (sk_id (ss_slot ss' j)) (ss_pipe ss)) (ss_slot ss' j)"
  using assms sv_inv_slot [OF assms(1), of j] by (simp add: local_def)

lemma reserve_good:
  assumes inv: "sv_inv ss" and r: "reserve_id ss = (Some i, ss')" and f: "fresh_id (Some i) ss" and c: "creates rq" "req_id rq = Some i"
  shows "sv_good ss (send_request rq ss')"
proof -
  let ?k = "HASH_ID i" and ?ss2 = "send_request rq ss'"
  note s = reserve_some [OF inv r]
  have p: "ss_pipe ?ss2 = ss_pipe ss @ [rq]" and o: "j \<noteq> ?k \<Longrightarrow> ss_slot ?ss2 j = ss_slot ss j" and sl: "ss_slot ?ss2 = ss_slot ss'" for j
    using s(1) by (simp_all add: send_request_def local_def)
  have ns: "\<not> sends rq" "req_plain rq" using c(1) by (cases rq; simp)+
  have fr: "for_id i (ss_pipe ss) = []" using f by (simp add: fresh_id_def)
  have k: "sk_id (ss_slot ss' ?k) = i" "sv_type ss' ?k = ST_RESERVE" using s(3) by (simp_all add: reserved_def)
  have "slot_ok j (pend (sk_id (ss_slot ?ss2 j)) (ss_pipe ?ss2)) (ss_slot ?ss2 j)" for j
    by (cases "j = ?k") (use s(4) k sl p ns(1) pend_fresh [OF fr] slot_ok_others [OF inv s(1)] in simp_all)
  moreover have "type_edge (sv_type ss j) (sv_type ?ss2 j)" for j
    by (cases "j = ?k") (use s(2) k o sl in \<open>simp_all add: type_edge_def\<close>)
  moreover have "pipe_for j ?ss2" for j
  proof (cases "j = i")
    case True
    then show ?thesis using s(3) fr c p by (simp add: pipe_for_def)
  next
    case False
    have "reserved j ?ss2 = reserved j ss" by (cases "HASH_ID j = ?k") (use s(2) k False o sl in \<open>simp_all add: reserved_def\<close>)
    moreover have "pipe_for j ss" using inv by (simp add: sv_inv_def)
    ultimately show ?thesis using p c False by (simp add: pipe_for_def split: if_splits)
  qed
  ultimately show ?thesis using inv p ns(2) by (simp add: sv_good_def sv_inv_def slots_ok_def)
qed

text \<open>A request that does not make a socket is put into the pipe.\<close>

lemma request_good:
  assumes inv: "sv_inv ss" and c: "\<not> creates rq" "\<not> sends rq" "req_plain rq"
  shows "sv_good ss (send_request rq ss)"
proof -
  have "pipe_for i (send_request rq ss)" for i
  proof -
    have "pipe_for i ss" using inv by (simp add: sv_inv_def)
    then show ?thesis using c by (auto simp: pipe_for_def send_request_def reserved_def split: if_splits)
  qed
  then show ?thesis using inv c by (simp add: sv_good_def sv_inv_def slots_ok_def send_request_def)
qed

section \<open>Sending calls\<close>

lemma inc_keep:
  assumes ok: "slot_ok (HASH_ID i) n (ss_slot ss (HASH_ID i))" and s: "sk_id (ss_slot ss (HASH_ID i)) = i" "live (sv_type ss (HASH_ID i))" and n: "n < 2 ^ 16 - 1"
  shows "\<exists>ss'. inc_sending_ref i ss = Ok ss' \<and> local (HASH_ID i) ss ss' \<and> slot_ok (HASH_ID i) (Suc n) (ss_slot ss' (HASH_ID i)) \<and>
    sk_id (ss_slot ss' (HASH_ID i)) = i \<and> sv_type ss' (HASH_ID i) = sv_type ss (HASH_ID i)"
proof (cases "sk_protocol (ss_slot ss (HASH_ID i)) = PROTOCOL_TCP")
  case True
  let ?s = "ss_slot ss (HASH_ID i)"
  have c: "counted n ?s" using ok True s by (auto simp: slot_ok_def)
  have "(of_nat n :: u32) \<noteq> 0xffff" using n by (auto simp: word_unat_eq_iff unat_of_nat)
  then have "inc_sending_ref i ss = Ok (set_sock (HASH_ID i) (?s\<lparr>sk_sending := sk_sending ?s + 1\<rparr>) ss)"
    using c True s tag_count [of n i] n by (simp add: inc_sending_ref_def Let_def counted_def)
  moreover have "slot_ok (HASH_ID i) (Suc n) (?s\<lparr>sk_sending := sk_sending ?s + 1\<rparr>)"
    using ok c s n by (auto simp: slot_ok_def counted_def)
  ultimately show ?thesis using s by simp
next
  case False
  then show ?thesis using ok s by (auto simp: inc_sending_ref_def Let_def slot_ok_def)
qed

text \<open>A send request is counted and put into the pipe.\<close>

lemma queue_send_good:
  assumes inv: "sv_inv ss" and rq: "sends rq" "req_id rq = Some i" "req_plain rq"
    and s: "sk_id (ss_slot ss (HASH_ID i)) = i" "live (sv_type ss (HASH_ID i))" and n: "pend i (ss_pipe ss) < 2 ^ 16 - 1"
  shows "\<exists>ss1. inc_sending_ref i ss = Ok ss1 \<and> sv_good ss (send_request rq ss1)"
proof -
  let ?k = "HASH_ID i"
  have ok: "slot_ok ?k (pend i (ss_pipe ss)) (ss_slot ss ?k)" using sv_inv_slot [OF inv, of ?k] s by simp
  from inc_keep [OF ok s n] obtain ss1 where i1: "inc_sending_ref i ss = Ok ss1" "local ?k ss ss1" "slot_ok ?k (Suc (pend i (ss_pipe ss))) (ss_slot ss1 ?k)"
      "sk_id (ss_slot ss1 ?k) = i" "sv_type ss1 ?k = sv_type ss ?k" by blast
  let ?ss2 = "send_request rq ss1"
  have nc: "\<not> creates rq" using rq(1) by (cases rq) simp_all
  have p: "ss_pipe ?ss2 = ss_pipe ss @ [rq]" and o: "j \<noteq> ?k \<Longrightarrow> ss_slot ss1 j = ss_slot ss j" and sl: "ss_slot ?ss2 = ss_slot ss1" for j
    using i1(2) by (simp_all add: send_request_def local_def)
  have "slot_ok j (pend (sk_id (ss_slot ?ss2 j)) (ss_pipe ?ss2)) (ss_slot ?ss2 j)" for j
  proof (cases "j = ?k")
    case True
    then show ?thesis using i1 sl p rq by simp
  next
    case False
    show ?thesis unfolding sl o [OF False] by (rule slot_ok_pend [OF sv_inv_slot [OF inv]]) (use False p rq in auto)
  qed
  moreover have "type_edge (sv_type ss j) (sv_type ?ss2 j)" for j by (cases "j = ?k") (use i1 o sl in simp_all)
  moreover have "pipe_for j ?ss2" for j
  proof -
    have "reserved j ?ss2 = reserved j ss" by (cases "HASH_ID j = ?k") (use i1 s o sl in \<open>auto simp: reserved_def\<close>)
    moreover have "pipe_for j ss" using inv by (simp add: sv_inv_def)
    ultimately show ?thesis using p nc by (auto simp: pipe_for_def split: if_splits)
  qed
  ultimately have "sv_good ss ?ss2" using inv p rq(3) by (simp add: sv_good_def sv_inv_def slots_ok_def)
  then show ?thesis using i1(1) by blast
qed

lemma direct_write_still:
  assumes ok: "slot_ok k n (ss_slot ss k)" and lv: "live (sv_type ss k)" and p: "sk_protocol (ss_slot ss k) = PROTOCOL_TCP" and b: "plain b"
  shows "still k n ss (direct_write_tcp k b ss)"
proof -
  obtain r ss1 where r: "take_write ss = (r, ss1)" by (cases "take_write ss")
  note l = take_write_local [OF r, of k]
  define m where "m = (case r of W m \<Rightarrow> min m (length (so_bytes b)) | _ \<Rightarrow> 0)"
  have m: "m \<le> length (so_bytes b)" by (auto simp: m_def split: wres.splits)
  have eq: "direct_write_tcp k b ss = direct_rest k b m (emit (O_write (sk_fd (ss_slot ss k)) (take m (so_bytes b))) ss1)"
    using l by (simp add: direct_write_tcp_def r m_def Let_def)
  have "queue_ok ((ss_slot ss k)\<lparr>sk_stat := st, sk_dw := Some (b, m)\<rparr>)" for st
    using slot_ok_queue [OF ok lv] p b m by (simp add: queue_ok_def bufs_ok_def buf_ok_def)
  then have "slot_ok k n ((ss_slot ss k)\<lparr>sk_stat := st, sk_dw := Some (b, m)\<rparr>)" for st
    by (intro slot_ok_live [OF ok lv]) (use lv in \<open>simp_all add: same_core_def\<close>)
  then show ?thesis using l ok unfolding eq by (auto simp: direct_rest_def Let_def stat_write_def still_def same_core_def)
qed

lemma take_lock_good: "take_lock ss = (b, ss1) \<Longrightarrow> sv_inv ss \<Longrightarrow> sv_inv ss1 \<and> (sv_good ss1 ss2 \<longrightarrow> sv_good ss ss2)"
  using sv_inv_same [of ss1 ss] by (simp add: sv_good_def)

lemma send_good:
  assumes inv: "sv_inv ss" and b: "plain b" and g: "sk_id (ss_slot ss (HASH_ID i)) = i \<and> sv_type ss (HASH_ID i) \<noteq> ST_INVALID \<longrightarrow>
      sv_type ss (HASH_ID i) \<noteq> ST_RESERVE \<and> sk_protocol (ss_slot ss (HASH_ID i)) = PROTOCOL_TCP \<and> pend i (ss_pipe ss) < 2 ^ 16 - 1"
  shows "\<exists>r ss'. socket_server_send i b ss = Ok (r, ss') \<and> sv_good ss ss'"
proof -
  let ?k = "HASH_ID i" and ?s = "ss_slot ss (HASH_ID i)"
  show ?thesis
  proof (cases "sk_id ?s = i \<and> sv_type ss ?k \<noteq> ST_INVALID")
    case False
    then show ?thesis using inv by (auto simp: socket_server_send_def Let_def sv_good_def)
  next
    case True
    then have s: "sk_id ?s = i" "live (sv_type ss ?k)" "sk_protocol ?s = PROTOCOL_TCP" "pend i (ss_pipe ss) < 2 ^ 16 - 1" using g by (auto simp: live_def)
    obtain got ss0 where lk: "take_lock ss = (got, ss0)" by (cases "take_lock ss")
    have queue: "\<exists>ss1. inc_sending_ref i ss2 = Ok ss1 \<and> sv_good ss (send_request (Req_send i b) ss1)"
      if "ss_slot ss2 = ss_slot ss" "ss_pipe ss2 = ss_pipe ss" for ss2
    proof -
      have "sv_inv ss2" using inv sv_inv_same [OF that] by simp
      from queue_send_good [OF this, of "Req_send i b" i] that s b show ?thesis by (auto simp: sv_good_def)
    qed
    consider "\<not> can_direct_write ?s i" | "can_direct_write ?s i" "\<not> got" | "can_direct_write ?s i" got by blast
    then show ?thesis
    proof cases
      case 1
      then show ?thesis using True queue [of ss] by (auto simp: socket_server_send_def Let_def live_def)
    next
      case 2
      then show ?thesis using True queue [of ss0] lk by (auto simp: socket_server_send_def Let_def live_def)
    next
      case 3
      have "still ?k (pend (sk_id (ss_slot ss0 ?k)) (ss_pipe ss0)) ss0 (direct_write_tcp ?k b ss0)"
        by (rule direct_write_still) (use take_lock_simps [OF lk] sv_inv_slot [OF inv, of ?k] s b in simp_all)
      then have "handled ?k ss0 (direct_write_tcp ?k b ss0)" by (rule still_handled) (use take_lock_simps [OF lk] s in simp)
      then have "sv_good ss (direct_write_tcp ?k b ss0)" using take_lock_good [OF lk inv] sv_good_handled by blast
      then show ?thesis using True 3 lk s by (simp add: socket_server_send_def Let_def)
    qed
  qed
qed

lemma low_good:
  assumes inv: "sv_inv ss" and b: "plain b" and g: "sk_id (ss_slot ss (HASH_ID i)) = i \<and> sv_type ss (HASH_ID i) \<noteq> ST_INVALID \<longrightarrow>
      sv_type ss (HASH_ID i) \<noteq> ST_RESERVE \<and> pend i (ss_pipe ss) < 2 ^ 16 - 1"
  shows "\<exists>r ss'. socket_server_send_lowpriority i b ss = Ok (r, ss') \<and> sv_good ss ss'"
proof (cases "sk_id (ss_slot ss (HASH_ID i)) = i \<and> sv_type ss (HASH_ID i) \<noteq> ST_INVALID")
  case False
  then show ?thesis using inv by (auto simp: socket_server_send_lowpriority_def Let_def sv_good_def)
next
  case True
  then show ?thesis using queue_send_good [OF inv, of "Req_send_low i b" i] g b
    by (auto simp: socket_server_send_lowpriority_def Let_def live_def)
qed

lemma udp_send_good:
  assumes inv: "sv_inv ss" and b: "plain b"
  shows "\<exists>r ss'. socket_server_udp_send i address b ss = (r, ss') \<and> sv_good ss ss'"
proof -
  let ?k = "HASH_ID i" and ?s = "ss_slot ss (HASH_ID i)"
  have refl: "sv_good ss ss'" if "ss_slot ss' = ss_slot ss" "ss_pipe ss' = ss_pipe ss" for ss' using inv sv_inv_same [OF that] that by (simp add: sv_good_def)
  have queue: "sv_good ss (send_request (Req_send_udp i b a) ss2)" if "ss_slot ss2 = ss_slot ss" "ss_pipe ss2 = ss_pipe ss" for a ss2
    using request_good [of ss2 "Req_send_udp i b a"] inv sv_inv_same [OF that] that b by (simp add: sv_good_def)
  obtain got ss0 where lk: "take_lock ss = (got, ss0)" by (cases "take_lock ss")
  obtain w ss1 where w: "take_write ss0 = (w, ss1)" by (cases "take_write ss0")
  have same: "ss_slot ss0 = ss_slot ss" "ss_pipe ss0 = ss_pipe ss" "ss_slot ss1 = ss_slot ss" "ss_pipe ss1 = ss_pipe ss"
    using take_lock_simps [OF lk] take_write_local [OF w, of ?k] by (simp_all add: local_def)
  have stat: "sv_good ss (emit e (set_sock ?k (?s\<lparr>sk_stat := st\<rparr>) ss1))" if "live (sv_type ss ?k)" for e st
    using that same sv_inv_slot [OF inv, of ?k]
    by (intro sv_good_handled [OF inv] still_handled) (auto simp: still_def same_core_def local_def)
  show ?thesis
  proof (cases "sk_id ?s = i \<and> can_direct_write ?s i \<and> got \<and> udp_addrsz address \<noteq> None \<and> udp_socket_address (sk_protocol ?s) address \<noteq> None")
    case True
    then have "live (sv_type ss ?k)" by (auto simp: can_direct_write_def)
    then show ?thesis using True lk w same queue [of ss1] stat
      by (cases w) (auto simp: socket_server_udp_send_def Let_def stat_write_def can_direct_write_def)
  next
    case False
    then show ?thesis using lk same refl queue [of ss] queue [of ss0] refl [of ss] refl [of ss0]
      by (auto simp: socket_server_udp_send_def Let_def split: option.splits)
  qed
qed

section \<open>Events\<close>

lemma kept_from: "ss_slot ss1 = ss_slot ss \<Longrightarrow> ss_pipe ss1 = ss_pipe ss \<Longrightarrow> kept k n ss1 ss' \<Longrightarrow> kept k n ss ss'"
  by (simp add: kept_def local_def)

lemma kept_set:
  assumes "ss_slot ss1 = ss_slot ss" "ss_pipe ss1 = ss_pipe ss" "live (sv_type ss k)" "slot_ok k n s'" "same_core (ss_slot ss k) s'" "sk_type s' = sv_type ss k"
  shows "kept k n ss (set_sock k s' ss1)"
  using assms by (auto simp: kept_def local_def same_core_def)

lemma close_kept:
  assumes "slot_ok k n (ss_slot ss k)" "live (sv_type ss k)" "ss_slot ss1 = ss_slot ss" "ss_pipe ss1 = ss_pipe ss"
  shows "\<exists>r ss'. close_error k t ss1 = Ok (r, ss') \<and> kept k n ss ss'" "\<exists>r ss'. close_eof k ss1 = Ok (r, ss') \<and> kept k n ss ss'"
proof -
  obtain ss' where "force_close k ss1 = Ok (closed_message (ss_slot ss1 k), ss')" "kept k n ss1 ss'"
    using force_close_kept [of k n ss1] assms by auto
  then show "\<exists>r ss'. close_error k t ss1 = Ok (r, ss') \<and> kept k n ss ss'" "\<exists>r ss'. close_eof k ss1 = Ok (r, ss') \<and> kept k n ss ss'"
    using kept_from [OF assms(3,4)] by (simp_all add: close_error_def close_eof_def)
qed

lemma take_same:
  "take_read ss = (r, ss1) \<Longrightarrow> ss_slot ss1 = ss_slot ss \<and> ss_pipe ss1 = ss_pipe ss"
  "take_udp ss = (u, ss1) \<Longrightarrow> ss_slot ss1 = ss_slot ss \<and> ss_pipe ss1 = ss_pipe ss"
  "take_sockerr ss = (e, ss1) \<Longrightarrow> ss_slot ss1 = ss_slot ss \<and> ss_pipe ss1 = ss_pipe ss"
  "take_name ss = (nm, ss1) \<Longrightarrow> ss_slot ss1 = ss_slot ss \<and> ss_pipe ss1 = ss_pipe ss"
  "take_accept ss = (a, ss1) \<Longrightarrow> ss_slot ss1 = ss_slot ss \<and> ss_pipe ss1 = ss_pipe ss"
  by (auto simp: take_read_def take_udp_def take_sockerr_def take_name_def take_accept_def split: list.splits)

lemma forward_tcp_kept:
  assumes ok: "slot_ok k n (ss_slot ss k)" and lv: "live (sv_type ss k)" and sz: "sk_size (ss_slot ss k) < 2 ^ 30"
  shows "\<exists>r ss'. forward_message_tcp k ss = Ok (r, ss') \<and> kept k n ss ss'"
proof -
  let ?s = "ss_slot ss k"
  obtain r ss1 where t: "take_read ss = (r, ss1)" by (cases "take_read ss")
  note same = take_same(1) [OF t]
  note close = close_kept [OF ok lv conjunct1 [OF same] conjunct2 [OF same]]
  have stay: "kept k n ss ss1" using kept_from [of ss1 ss k n ss1] kept_refl [of k n ss1] ok lv same by (auto simp: live_def)
  show ?thesis
  proof (cases r)
    case (R bytes)
    let ?d = "take (nat (sk_size ?s)) bytes"
    have put: "kept k n ss (set_sock k ((stat_read x m ?s)\<lparr>sk_size := z\<rparr>) ss1)" for x m z
      by (rule kept_set) (use ok lv same in \<open>simp_all add: stat_read_def same_core_def\<close>)
    show ?thesis
    proof (cases "?d = [] \<or> sv_type ss k = ST_HALFCLOSE")
      case True
      then have "forward_message_tcp k ss = (if ?d = [] then close_eof k ss1 else Ok (None, ss1))"
        using R t same by (simp only: forward_message_tcp_def Let_def prod.case rres.case length_0_conv) auto
      then show ?thesis using close(2) stay by simp
    next
      case False
      let ?z = "if int (length ?d) = sk_size ?s then (if sk_size ?s * 2 < 2 ^ 31 then Ok (sk_size ?s * 2) else Err Int_overflow)
          else if sk_size ?s > MIN_READ_BUFFER \<and> int (length ?d) * 2 < sk_size ?s then Ok (sk_size ?s div 2) else Ok (sk_size ?s)"
      have "sk_size ?s * 2 < 2 ^ 31" using sz by simp
      then have "\<exists>z. ?z = Ok z" by (simp split del: if_split) (simp split: if_split)
      then obtain z where z: "?z = Ok z" ..
      have "forward_message_tcp k ss = res_bind ?z (\<lambda>sz1. Ok (Some (SOCKET_DATA, \<lparr>sr_id = sk_id ?s, sr_opaque = sk_opaque ?s, sr_ud = int (length ?d), sr_data = D_bytes ?d\<rparr>),
          set_sock k ((stat_read (ss_time ss1) (length ?d) ?s)\<lparr>sk_size := sz1\<rparr>) ss1))"
        using False R t same by (simp only: forward_message_tcp_def Let_def prod.case rres.case length_0_conv) simp
      then show ?thesis using put unfolding z by simp
    qed
  qed (use t stay close(1) same in \<open>simp_all add: forward_message_tcp_def Let_def\<close>)
qed

lemma forward_udp_kept:
  assumes ok: "slot_ok k n (ss_slot ss k)" and lv: "live (sv_type ss k)"
  shows "\<exists>r ss'. forward_message_udp k ss = Ok (r, ss') \<and> kept k n ss ss'"
proof -
  let ?s = "ss_slot ss k"
  obtain r sa ss1 where t: "take_udp ss = ((r, sa), ss1)" by (metis prod.exhaust)
  note same = take_same(2) [OF t]
  note close = close_kept [OF ok lv conjunct1 [OF same] conjunct2 [OF same]]
  have stay: "kept k n ss ss1" using kept_from [of ss1 ss k n ss1] kept_refl [of k n ss1] ok lv same by (auto simp: live_def)
  show ?thesis
  proof (cases r)
    case (R bytes)
    have put: "kept k n ss (set_sock k (stat_read x m ?s) ss1)" for x m
      by (rule kept_set) (use ok lv same in \<open>simp_all add: stat_read_def same_core_def\<close>)
    then show ?thesis using R t same by (auto simp: forward_message_udp_def Let_def)
  qed (use t stay close(1) same in \<open>simp_all add: forward_message_udp_def Let_def\<close>)
qed

lemma report_connect_kept:
  assumes ok: "slot_ok k n (ss_slot ss k)" and t: "sv_type ss k = ST_CONNECTING"
  shows "\<exists>r ss'. report_connect k ss = Ok (r, ss') \<and> kept k n ss ss'"
proof -
  let ?s = "ss_slot ss k"
  have lv: "live (sv_type ss k)" using t by simp
  obtain e ss1 where e: "take_sockerr ss = (e, ss1)" by (cases "take_sockerr ss")
  note same = take_same(3) [OF e]
  show ?thesis
  proof (cases e)
    case (Some m)
    then show ?thesis using close_kept(1) [OF ok lv conjunct1 [OF same] conjunct2 [OF same]] e by (simp add: report_connect_def)
  next
    case None
    define ss3 where "ss3 = (if nomore_sending_data ?s then emit (O_arm (sk_fd ?s) False) (set_type k ST_CONNECTED ss1) else set_type k ST_CONNECTED ss1)"
    obtain nm ss4 where nm: "take_name ss3 = (nm, ss4)" by (cases "take_name ss3")
    have "slot_ok k n (?s\<lparr>sk_type := ST_CONNECTED\<rparr>)" by (rule slot_ok_type [OF ok lv]) simp
    then have "kept k n ss ss4" using take_same(4) [OF nm] same t by (auto simp: ss3_def set_type_def kept_def local_def type_edge_def)
    then show ?thesis using None e nm same by (cases "nomore_sending_data ?s") (simp_all add: report_connect_def Let_def ss3_def)
  qed
qed

text \<open>The slot \<open>k\<close> of a listening socket counts a connection, and a free slot \<open>j\<close> takes it.\<close>

lemma accept_inv:
  assumes inv: "sv_inv ss" and t: "sv_type ss k = ST_LISTEN" and p: "ss_pipe ss' = ss_pipe ss"
    and o: "\<And>l. l \<noteq> HASH_ID i \<Longrightarrow> l \<noteq> k \<Longrightarrow> ss_slot ss' l = ss_slot ss l" and sk: "ss_slot ss' k = (ss_slot ss k)\<lparr>sk_stat := st\<rparr>"
    and sj: "slot_ok (HASH_ID i) 0 (ss_slot ss' (HASH_ID i))" "sk_id (ss_slot ss' (HASH_ID i)) = i" "sv_type ss' (HASH_ID i) = ST_PACCEPT"
      "sv_type ss (HASH_ID i) = ST_INVALID" and fr: "pend i (ss_pipe ss) = 0"
  shows "sv_good ss ss'"
proof -
  have old: "slot_ok l (pend (sk_id (ss_slot ss l)) (ss_pipe ss)) (ss_slot ss l)" for l by (rule sv_inv_slot [OF inv])
  have slots: "slot_ok l (pend (sk_id (ss_slot ss' l)) (ss_pipe ss')) (ss_slot ss' l) \<and> type_edge (sv_type ss l) (sv_type ss' l)" for l
  proof -
    consider "l = HASH_ID i" | "l = k" | "l \<noteq> HASH_ID i" "l \<noteq> k" by blast
    then show ?thesis
    proof cases
      case 1
      then show ?thesis using sj fr p by (simp add: type_edge_def)
    next
      case 2
      then show ?thesis using old [of k] sk p by simp
    next
      case 3
      then show ?thesis using old [of l] o p by simp
    qed
  qed
  have "pipe_for l ss'" for l
  proof -
    consider "HASH_ID l = HASH_ID i" | "HASH_ID l = k" | "HASH_ID l \<noteq> HASH_ID i" "HASH_ID l \<noteq> k" by blast
    then have "reserved l ss' = reserved l ss" by cases (use sj sk t o in \<open>simp_all add: reserved_def\<close>)
    then show ?thesis using inv p by (simp add: pipe_for_def sv_inv_def)
  qed
  then show ?thesis using slots inv p by (simp add: sv_good_def sv_inv_def slots_ok_def)
qed

lemma report_accept_good:
  assumes inv: "sv_inv ss" and t: "sv_type ss k = ST_LISTEN" and f: "fresh_id (fst (reserve_id (snd (take_accept ss)))) ss"
  shows "\<exists>r ss'. report_accept k ss = Ok (r, ss') \<and> sv_good ss ss'"
proof -
  let ?s = "ss_slot ss k"
  obtain a ss1 where a: "take_accept ss = (a, ss1)" by (cases "take_accept ss")
  note same = take_same(5) [OF a]
  have inv1: "sv_inv ss1" using inv sv_inv_same [of ss1 ss] same by simp
  have refl: "sv_good ss ss'" if "ss_slot ss' = ss_slot ss1" "ss_pipe ss' = ss_pipe ss1" for ss'
    using inv1 sv_inv_same [OF that] that same by (simp add: sv_good_def)
  show ?thesis
  proof (cases a)
    case (Acc fd nm)
    obtain r ss2 where r: "reserve_id ss1 = (r, ss2)" by (cases "reserve_id ss1")
    show ?thesis
    proof (cases r)
      case None
      then show ?thesis using Acc a r refl [of "emit (O_close fd) ss2"] reserve_none [of ss1 ss2] by (simp add: report_accept_def Let_def)
    next
      case (Some i)
      note rs = reserve_some [OF inv1 r [unfolded Some]]
      let ?j = "HASH_ID i"
      have k: "k \<noteq> ?j" using t rs(2) same by auto
      from new_fd_keep [OF rs(4,3), of PROTOCOL_TCP fd "sk_opaque ?s" False] obtain d ss3 where
        n: "new_fd i fd PROTOCOL_TCP (sk_opaque ?s) False ss2 = Ok (d, ss3)" "new_slot i d ss2 ss3" by auto
      have d: d using n(1) rs(3,4) by (auto simp: new_fd_def Let_def)
      define ss5 where "ss5 = set_type ?j ST_PACCEPT (set_sock k (stat_read (ss_time ss3) 1 (ss_slot ss3 k)) ss3)"
      have eq: "report_accept k ss = Ok (Some (SOCKET_ACCEPT, \<lparr>sr_id = sk_id ?s, sr_opaque = sk_opaque ?s, sr_ud = sint i, sr_data = name_data nm\<rparr>), ss5)"
        using Acc a r Some n(1) d same by (simp add: report_accept_def Let_def ss5_def)
      have p: "ss_pipe ss5 = ss_pipe ss" and o: "j \<noteq> ?j \<Longrightarrow> j \<noteq> k \<Longrightarrow> ss_slot ss5 j = ss_slot ss j" for j
        using n(2) rs(1) same by (simp_all add: ss5_def set_type_def new_slot_def local_def)
      have sk: "ss_slot ss5 k = stat_read (ss_time ss3) 1 ?s" using k n(2) rs(1) same by (simp add: ss5_def set_type_def new_slot_def local_def)
      have sj: "slot_ok ?j 0 (ss_slot ss5 ?j)" "sk_id (ss_slot ss5 ?j) = i" "sv_type ss5 ?j = ST_PACCEPT"
        using n(2) d k by (simp_all add: ss5_def set_type_def new_slot_def)
      have fr: "pend i (ss_pipe ss) = 0" using f a r Some pend_fresh by (simp add: fresh_id_def)
      have "sv_good ss ss5" by (rule accept_inv [OF inv t]) (use p o sk sj rs(2) same fr k in \<open>auto simp: stat_read_def\<close>)
      then show ?thesis using eq by simp
    qed
  qed (use a refl [of ss1] in \<open>simp_all add: report_accept_def Let_def\<close>)
qed

lemma sv_good_upd: "ss_slot ss2 = ss_slot ss1 \<Longrightarrow> ss_pipe ss2 = ss_pipe ss1 \<Longrightarrow> sv_good ss ss1 \<Longrightarrow> sv_good ss ss2"
  using sv_inv_same [of ss2 ss1] by (simp add: sv_good_def)

lemma sv_good_refl: "sv_inv ss \<Longrightarrow> sv_good ss ss"
  by (simp add: sv_good_def)

lemma kept_good: "sv_inv ss \<Longrightarrow> live (sv_type ss k) \<Longrightarrow> kept k (pend (sk_id (ss_slot ss k)) (ss_pipe ss)) ss ss' \<Longrightarrow> sv_good ss ss'"
  by (rule sv_good_handled [of ss k]) (simp_all add: handled_def)

text \<open>The default branch of the poll.\<close>

definition handle_io :: "nat \<Rightarrow> event \<Rightarrow> nat \<Rightarrow> socket_server \<Rightarrow> (reply \<times> socket_server) res" where
  "handle_io idx e k ss =
     (if ev_read e then
        res_bind (if sk_protocol (ss_slot ss k) = PROTOCOL_TCP then forward_message_tcp k ss else forward_message_udp k ss) (\<lambda>(r, ss1).
        if sk_protocol (ss_slot ss k) \<noteq> PROTOCOL_TCP \<and> map_option fst r = Some SOCKET_UDP then Ok (r, ss1\<lparr>ss_event_index := idx\<rparr>)
        else if ev_write e \<and> map_option fst r \<noteq> Some SOCKET_CLOSE \<and> map_option fst r \<noteq> Some SOCKET_ERR then
          Ok (r, ss1\<lparr>ss_events := (ss_events ss1)[idx := e\<lparr>ev_read := False\<rparr>], ss_event_index := idx\<rparr>)
        else Ok (r, ss1))
      else if ev_write e then send_buffer k ss
      else if ev_error e then
        (case take_sockerr ss of (t, ss1) \<Rightarrow> close_error k (case t of None \<Rightarrow> ''Unknown error'' | Some t \<Rightarrow> t) ss1)
      else if ev_eof e then close_eof k ss
      else Ok (None, ss))"

lemma handle_event_cases:
  "handle_event idx e k ss =
     (if sv_type ss k = ST_CONNECTING then report_connect k ss else if sv_type ss k = ST_LISTEN then report_accept k ss
      else if sv_type ss k = ST_INVALID then Ok (None, ss) else handle_io idx e k ss)"
  by (cases "sv_type ss k") (simp_all add: handle_event_def handle_io_def)

lemma handle_io_good:
  assumes inv: "sv_inv ss" and lv: "live (sv_type ss k)" and sz: "sk_size (ss_slot ss k) < 2 ^ 30"
  shows "\<exists>r ss'. handle_io idx e k ss = Ok (r, ss') \<and> sv_good ss ss'"
proof -
  let ?s = "ss_slot ss k"
  note ok = sv_inv_slot [OF inv, of k]
  note good = kept_good [OF inv lv]
  consider "ev_read e" | "\<not> ev_read e" "ev_write e" | "\<not> ev_read e" "\<not> ev_write e" by blast
  then show ?thesis
  proof cases
    case 1
    obtain r ss1 where f: "(if sk_protocol ?s = PROTOCOL_TCP then forward_message_tcp k ss else forward_message_udp k ss) = Ok (r, ss1)" "sv_good ss ss1"
      using forward_tcp_kept [OF ok lv sz] forward_udp_kept [OF ok lv] good by (cases "sk_protocol ?s = PROTOCOL_TCP") auto
    have "\<exists>ss'. handle_io idx e k ss = Ok (r, ss') \<and> ss_slot ss' = ss_slot ss1 \<and> ss_pipe ss' = ss_pipe ss1"
      unfolding handle_io_def f(1) using 1 by simp
    then show ?thesis using sv_good_upd [OF _ _ f(2)] by blast
  next
    case 2
    from send_buffer_keep [OF lv slot_ok_queue [OF ok lv]] obtain r ss' where "send_buffer k ss = Ok (r, ss')" "sent k r ss ss'" by blast
    then show ?thesis using 2 good [OF kept_sent [OF ok lv]] by (auto simp: handle_io_def)
  next
    case 3
    obtain t ss1 where t: "take_sockerr ss = (t, ss1)" by (cases "take_sockerr ss")
    note same = take_same(3) [OF t]
    let ?m = "case t of None \<Rightarrow> ''Unknown error'' | Some t \<Rightarrow> t"
    obtain r1 s1 r2 s2 where c: "close_error k ?m ss1 = Ok (r1, s1)" "sv_good ss s1" "close_eof k ss = Ok (r2, s2)" "sv_good ss s2"
      using close_kept(1) [OF ok lv conjunct1 [OF same] conjunct2 [OF same], of ?m] close_kept(2) [OF ok lv refl refl] good by blast
    show ?thesis using 3 t c sv_good_refl [OF inv] by (simp add: handle_io_def)
  qed
qed

lemma handle_event_good:
  assumes inv: "sv_inv ss" and t: "sv_type ss k \<noteq> ST_RESERVE" and sz: "sk_size (ss_slot ss k) < 2 ^ 30"
    and f: "sv_type ss k = ST_LISTEN \<longrightarrow> fresh_id (fst (reserve_id (snd (take_accept ss)))) ss"
  shows "\<exists>r ss'. handle_event idx e k ss = Ok (r, ss') \<and> sv_good ss ss'"
proof -
  note ok = sv_inv_slot [OF inv, of k]
  consider "sv_type ss k = ST_CONNECTING" | "sv_type ss k = ST_LISTEN" | "sv_type ss k = ST_INVALID"
    | "sv_type ss k \<noteq> ST_CONNECTING" "sv_type ss k \<noteq> ST_LISTEN" "live (sv_type ss k)" using t by (auto simp: live_def)
  then show ?thesis
  proof cases
    case 1
    from report_connect_kept [OF ok 1] show ?thesis using kept_good [OF inv, of k] 1 by (auto simp: handle_event_cases)
  next
    case 2
    from report_accept_good [OF inv 2] show ?thesis using f 2 by (auto simp: handle_event_cases)
  next
    case 3
    then show ?thesis using sv_good_refl [OF inv] by (simp add: handle_event_cases)
  next
    case 4
    then show ?thesis using handle_io_good [OF inv 4(3) sz] by (auto simp: handle_event_cases live_def)
  qed
qed

section \<open>Runs of the server\<close>

text \<open>The calls of the other threads, the next request in the pipe, and an event of the poll.\<close>

datatype sv_op =
    Sv_connect u64 string int
  | Sv_listen u64
  | Sv_bind u64 int
  | Sv_udp u64 bool
  | Sv_send u32 sobj
  | Sv_low u32 sobj
  | Sv_udp_send u32 "byte list" sobj
  | Sv_udp_connect u32
  | Sv_start u64 u32
  | Sv_close u64 u32
  | Sv_shutdown u64 u32
  | Sv_nodelay u32
  | Sv_exit
  | Sv_time u64
  | Sv_ctrl
  | Sv_event nat event nat

definition sv_run :: "sv_op \<Rightarrow> socket_server \<Rightarrow> socket_server res" where
  "sv_run op ss =
     (case op of
        Sv_connect opaque addr port \<Rightarrow> Ok (snd (socket_server_connect opaque addr port ss))
      | Sv_listen opaque \<Rightarrow> Ok (snd (socket_server_listen opaque ss))
      | Sv_bind opaque fd \<Rightarrow> Ok (snd (socket_server_bind opaque fd ss))
      | Sv_udp opaque bound \<Rightarrow> Ok (snd (socket_server_udp opaque bound ss))
      | Sv_send i b \<Rightarrow> res_bind (socket_server_send i b ss) (\<lambda>(_, ss1). Ok ss1)
      | Sv_low i b \<Rightarrow> res_bind (socket_server_send_lowpriority i b ss) (\<lambda>(_, ss1). Ok ss1)
      | Sv_udp_send i address b \<Rightarrow> Ok (snd (socket_server_udp_send i address b ss))
      | Sv_udp_connect i \<Rightarrow> Ok (snd (socket_server_udp_connect i ss))
      | Sv_start opaque i \<Rightarrow> Ok (socket_server_start opaque i ss)
      | Sv_close opaque i \<Rightarrow> Ok (socket_server_close opaque i ss)
      | Sv_shutdown opaque i \<Rightarrow> Ok (socket_server_shutdown opaque i ss)
      | Sv_nodelay i \<Rightarrow> Ok (socket_server_nodelay i ss)
      | Sv_exit \<Rightarrow> Ok (socket_server_exit ss)
      | Sv_time t \<Rightarrow> Ok (socket_server_updatetime t ss)
      | Sv_ctrl \<Rightarrow> if ss_pipe ss = [] then Ok ss else res_bind (ctrl_cmd ss) (\<lambda>(_, ss1). Ok ss1)
      | Sv_event idx e k \<Rightarrow> res_bind (handle_event idx e k ss) (\<lambda>(_, ss1). Ok ss1))"

text \<open>What the program has to see to:
  \<^item> a package is a block of memory or an object in the memory of its handle,
  \<^item> nothing is sent to a socket before the socket thread has made it, and \<open>socket_server_send\<close> is for TCP sockets,
  \<^item> at most 65534 packages for a socket are under way to the socket thread (with one more a sender waits for it),
  \<^item> the counter of ids does not come round to an id for which a request is waiting,
  \<^item> the kernel reports no event for a slot that another thread has just reserved, and no read of a gigabyte fills the buffer.\<close>

definition sv_guard :: "sv_op \<Rightarrow> socket_server \<Rightarrow> bool" where
  "sv_guard op ss =
     (let used = (\<lambda>i. sk_id (ss_slot ss (HASH_ID i)) = i \<and> sv_type ss (HASH_ID i) \<noteq> ST_INVALID);
          ready = (\<lambda>i. sv_type ss (HASH_ID i) \<noteq> ST_RESERVE \<and> pend i (ss_pipe ss) < 2 ^ 16 - 1) in
      case op of
        Sv_connect opaque addr port \<Rightarrow> fresh_id (fst (socket_server_connect opaque addr port ss)) ss
      | Sv_listen opaque \<Rightarrow> fresh_id (fst (socket_server_listen opaque ss)) ss
      | Sv_bind opaque fd \<Rightarrow> fresh_id (fst (socket_server_bind opaque fd ss)) ss
      | Sv_udp opaque bound \<Rightarrow> fresh_id (fst (socket_server_udp opaque bound ss)) ss
      | Sv_send i b \<Rightarrow> plain b \<and> (used i \<longrightarrow> ready i \<and> sk_protocol (ss_slot ss (HASH_ID i)) = PROTOCOL_TCP)
      | Sv_low i b \<Rightarrow> plain b \<and> (used i \<longrightarrow> ready i)
      | Sv_udp_send i address b \<Rightarrow> plain b
      | Sv_event idx e k \<Rightarrow> sv_type ss k \<noteq> ST_RESERVE \<and> sk_size (ss_slot ss k) < 2 ^ 30 \<and>
          (sv_type ss k = ST_LISTEN \<longrightarrow> fresh_id (fst (reserve_id (snd (take_accept ss)))) ss)
      | _ \<Rightarrow> True)"

lemma do_bind_same: "do_bind ss = (r, ss1) \<Longrightarrow> ss_slot ss1 = ss_slot ss \<and> ss_pipe ss1 = ss_pipe ss"
  by (auto simp: do_bind_def take_bind_def split: list.splits bound.splits)

lemma do_listen_same: "do_listen ss = (r, ss1) \<Longrightarrow> ss_slot ss1 = ss_slot ss \<and> ss_pipe ss1 = ss_pipe ss"
  using do_bind_same by (auto simp: do_listen_def take_listen_def split: prod.splits option.splits list.splits if_splits)

text \<open>Every call that reserves an id does so after calls of the kernel, and puts its request into the pipe.\<close>

lemma reserve_call_good:
  assumes inv: "sv_inv ss" and same: "ss_slot ss0 = ss_slot ss" "ss_pipe ss0 = ss_pipe ss" and r: "reserve_id ss0 = (r, ss1)" and f: "fresh_id r ss"
    and c: "\<And>i. creates (rq i)" "\<And>i. req_id (rq i) = Some i"
  shows "case r of None \<Rightarrow> \<forall>ss2. ss_slot ss2 = ss_slot ss1 \<longrightarrow> ss_pipe ss2 = ss_pipe ss1 \<longrightarrow> sv_good ss ss2 | Some i \<Rightarrow> sv_good ss (send_request (rq i) ss1)"
proof -
  have inv0: "sv_inv ss0" using inv sv_inv_same [OF same] by simp
  show ?thesis
  proof (cases r)
    case None
    then show ?thesis using reserve_none r same sv_good_upd [OF _ _ sv_good_refl [OF inv]] by auto
  next
    case (Some i)
    have "fresh_id (Some i) ss0" using f Some same by (simp add: fresh_id_def)
    from reserve_good [OF inv0 _ this c] r Some have "sv_good ss0 (send_request (rq i) ss1)" by simp
    then show ?thesis using Some same by (simp add: sv_good_def)
  qed
qed

lemma connect_good:
  assumes inv: "sv_inv ss" and f: "fresh_id (fst (socket_server_connect opaque addr port ss)) ss"
  shows "sv_good ss (snd (socket_server_connect opaque addr port ss))"
proof (cases "length addr + SIZEOF_OPEN \<ge> 256")
  case True
  then show ?thesis using sv_good_refl [OF inv] by (simp add: socket_server_connect_def open_request_def)
next
  case False
  obtain r ss1 where r: "reserve_id ss = (r, ss1)" by (cases "reserve_id ss")
  have "fst (socket_server_connect opaque addr port ss) = r" using False r by (cases r) (simp_all add: socket_server_connect_def open_request_def)
  with f have "fresh_id r ss" by simp
  from reserve_call_good [OF inv refl refl r this, of "\<lambda>i. Req_open i port opaque addr"] show ?thesis
    using False r by (cases r) (simp_all add: socket_server_connect_def open_request_def)
qed

lemma bind_good:
  assumes inv: "sv_inv ss" and f: "fresh_id (fst (socket_server_bind opaque fd ss)) ss"
  shows "sv_good ss (snd (socket_server_bind opaque fd ss))"
proof -
  obtain r ss1 where r: "reserve_id ss = (r, ss1)" by (cases "reserve_id ss")
  have "fresh_id r ss" using f r by (cases r) (simp_all add: socket_server_bind_def)
  from reserve_call_good [OF inv refl refl r this, of "\<lambda>i. Req_bind i fd opaque"] show ?thesis
    using r by (cases r) (simp_all add: socket_server_bind_def)
qed

lemma listen_good:
  assumes inv: "sv_inv ss" and f: "fresh_id (fst (socket_server_listen opaque ss)) ss"
  shows "sv_good ss (snd (socket_server_listen opaque ss))"
proof -
  obtain d ss0 where d: "do_listen ss = (d, ss0)" by (cases "do_listen ss")
  note same = do_listen_same [OF d]
  show ?thesis
  proof (cases d)
    case None
    then show ?thesis using d same sv_good_upd [OF _ _ sv_good_refl [OF inv]] by (simp add: socket_server_listen_def)
  next
    case (Some fd)
    obtain r ss1 where r: "reserve_id ss0 = (r, ss1)" by (cases "reserve_id ss0")
    have "fresh_id r ss" using f d Some r by (cases r) (simp_all add: socket_server_listen_def)
    from reserve_call_good [OF inv conjunct1 [OF same] conjunct2 [OF same] r this, of "\<lambda>i. Req_listen i fd opaque"] show ?thesis
      using r d Some by (cases r) (simp_all add: socket_server_listen_def)
  qed
qed

lemma udp_good:
  assumes inv: "sv_inv ss" and f: "fresh_id (fst (socket_server_udp opaque bound ss)) ss"
  shows "sv_good ss (snd (socket_server_udp opaque bound ss))"
proof -
  obtain d ss0 where d: "(if bound then do_bind ss else (case take_socket ss of (r, ss1) \<Rightarrow> (map_option (\<lambda>fd. (fd, False)) r, ss1))) = (d, ss0)" by fastforce
  have same: "ss_slot ss0 = ss_slot ss \<and> ss_pipe ss0 = ss_pipe ss"
    using d do_bind_same [of ss d ss0] by (auto simp: take_socket_def split: if_splits list.splits)
  show ?thesis
  proof (cases d)
    case None
    then show ?thesis using d same sv_good_upd [OF _ _ sv_good_refl [OF inv]] by (simp add: socket_server_udp_def)
  next
    case (Some x)
    obtain fd v6 where x: "x = (fd, v6)" by (cases x)
    obtain r ss1 where r: "reserve_id ss0 = (r, ss1)" by (cases "reserve_id ss0")
    have "fresh_id r ss" using f Some x r by (cases r) (simp_all add: socket_server_udp_def d)
    from reserve_call_good [OF inv conjunct1 [OF same] conjunct2 [OF same] r this, of "\<lambda>i. Req_udp i fd v6 opaque"] show ?thesis
      using r Some x by (cases r) (simp_all add: socket_server_udp_def d)
  qed
qed

lemma udp_connect_good:
  assumes inv: "sv_inv ss"
  shows "sv_good ss (snd (socket_server_udp_connect i ss))"
proof (cases "sk_id (ss_slot ss (HASH_ID i)) = i \<and> sv_type ss (HASH_ID i) \<noteq> ST_INVALID")
  case False
  then show ?thesis using sv_good_refl [OF inv] by (auto simp: socket_server_udp_connect_def Let_def)
next
  case True
  let ?k = "HASH_ID i" and ?s = "ss_slot ss (HASH_ID i)"
  define ss0 where "ss0 = set_sock ?k (?s\<lparr>sk_udpconnecting := sk_udpconnecting ?s + 1\<rparr>) ss"
  have s0: "sk_id (ss_slot ss0 j) = sk_id (ss_slot ss j)" "sv_type ss0 j = sv_type ss j" "slot_ok j n (ss_slot ss0 j) = slot_ok j n (ss_slot ss j)"
      "ss_pipe ss0 = ss_pipe ss" for j n by (simp_all add: ss0_def)
  have inv0: "sv_inv ss0" using inv unfolding sv_inv_def slots_ok_def pipe_for_def reserved_def by (simp add: s0)
  obtain pr ss1 where p: "take_peer ss0 = (pr, ss1)" by (cases "take_peer ss0")
  then have same: "ss_slot ss1 = ss_slot ss0" "ss_pipe ss1 = ss_pipe ss0" by (auto simp: take_peer_def split: list.splits)
  have inv1: "sv_inv ss1" using inv0 sv_inv_same [OF same] by simp
  have "sv_good ss ss1" using inv1 same by (simp add: sv_good_def s0)
  moreover have "sv_good ss (send_request (Req_setudp i a) ss1)" for a
    using request_good [OF inv1, of "Req_setudp i a"] same by (simp add: sv_good_def s0)
  ultimately show ?thesis using True p by (auto simp: socket_server_udp_connect_def Let_def ss0_def split: option.splits)
qed

lemma sv_step:
  assumes inv: "sv_inv ss" and g: "sv_guard op ss"
  shows "\<exists>ss'. sv_run op ss = Ok ss' \<and> sv_good ss ss'"
proof (cases op)
  case Sv_ctrl
  show ?thesis
  proof (cases "ss_pipe ss")
    case Nil
    then show ?thesis using Sv_ctrl sv_good_refl [OF inv] by (simp add: sv_run_def)
  next
    case (Cons rq rest)
    then show ?thesis using Sv_ctrl ctrl_good [OF inv Cons] by (auto simp: sv_run_def)
  qed
next
  case (Sv_event idx e k)
  then show ?thesis using handle_event_good [OF inv, of k idx e] g by (auto simp: sv_run_def sv_guard_def)
next
  case (Sv_time t)
  then show ?thesis using sv_good_upd [OF _ _ sv_good_refl [OF inv]] by (simp add: sv_run_def socket_server_updatetime_def)
next
  case (Sv_send i b)
  then show ?thesis using send_good [OF inv, of b i] g by (auto simp: sv_run_def sv_guard_def Let_def)
next
  case (Sv_low i b)
  then show ?thesis using low_good [OF inv, of b i] g by (auto simp: sv_run_def sv_guard_def Let_def)
next
  case (Sv_udp_send i address b)
  then show ?thesis using udp_send_good [OF inv, of b i address] g by (auto simp: sv_run_def sv_guard_def)
qed (use g inv in \<open>simp_all add: sv_run_def sv_guard_def connect_good bind_good listen_good udp_good udp_connect_good request_good
  socket_server_start_def socket_server_close_def socket_server_shutdown_def socket_server_nodelay_def socket_server_exit_def\<close>)

text \<open>The states that guarded steps lead to.\<close>

inductive sv_reach :: "socket_server \<Rightarrow> bool" where
  create: "sv_reach (socket_server_create junk os time)"
| step: "sv_reach ss \<Longrightarrow> sv_guard op ss \<Longrightarrow> sv_run op ss = Ok ss' \<Longrightarrow> sv_reach ss'"

lemma create_inv: "sv_inv (socket_server_create junk os time)"
  by (simp add: sv_inv_def slots_ok_def pipe_for_def reserved_def socket_server_create_def slot_ok_def)

lemma sv_reach_inv: "sv_reach ss \<Longrightarrow> sv_inv ss"
proof (induction rule: sv_reach.induct)
  case (step ss op ss')
  then show ?case using sv_step [of ss op] by (auto simp: sv_good_def)
qed (rule create_inv)

text \<open>C10: Safety and life cycle of the sockets. In every state the server reaches, with any interleaving of calls, requests and events
  within the stated limits and whatever the kernel answers, the next step ends without a failed assertion, an access outside a buffer or
  an endless wait, and every slot stays in its state or goes along one of the edges of \<open>type_next\<close>.\<close>

theorem socket_server_safe:
  assumes "sv_reach ss" "sv_guard op ss"
  shows "\<exists>ss'. sv_run op ss = Ok ss' \<and> (\<forall>k. sv_type ss' k = sv_type ss k \<or> sv_type ss' k \<in> set (type_next (sv_type ss k)))"
  using sv_step [OF sv_reach_inv [OF assms(1)] assms(2)] by (auto simp: sv_good_def type_edge_def)

theorem socket_server_safe_witness:
  "sv_reach (connecting_server [W 3] (A_progress 7)) \<and> sv_guard Sv_ctrl (connecting_server [W 3] (A_progress 7)) \<and>
   (\<exists>ss'. sv_run Sv_ctrl (connecting_server [W 3] (A_progress 7)) = Ok ss' \<and>
     (\<forall>k. sv_type ss' k = sv_type (connecting_server [W 3] (A_progress 7)) k \<or>
       sv_type ss' k \<in> set (type_next (sv_type (connecting_server [W 3] (A_progress 7)) k))))"
proof -
  let ?ss = "connecting_server [W 3] (A_progress 7)"
  let ?init = "socket_server_create sock_none (os_none\<lparr>os_write := [W 3], os_resolve := [Inr [A_progress 7]]\<rparr>) 0"
  have "fresh_id r ?init" for r by (cases r) (simp_all add: fresh_id_def socket_server_create_def)
  then have g: "sv_guard (Sv_connect 5 ''host'' 80) ?init" by (simp add: sv_guard_def)
  have "sv_run (Sv_connect 5 ''host'' 80) ?init = Ok ?ss" by (simp add: sv_run_def connecting_server_def)
  from sv_reach.step [OF sv_reach.create g this] have r: "sv_reach ?ss" .
  have g1: "sv_guard Sv_ctrl ?ss" by (simp add: sv_guard_def)
  from socket_server_safe [OF r g1] r g1 show ?thesis by blast
qed

section \<open>The read buffer\<close>

text \<open>The next \<open>n\<close> read events of a connection, and the data of the messages they make.\<close>

definition read_data :: "reply \<Rightarrow> byte list list" where
  "read_data r = (case r of Some (SOCKET_DATA, m) \<Rightarrow> (case sr_data m of D_bytes d \<Rightarrow> [d] | _ \<Rightarrow> []) | _ \<Rightarrow> [])"

fun read_run :: "nat \<Rightarrow> nat \<Rightarrow> socket_server \<Rightarrow> (byte list list \<times> socket_server) res" where
  "read_run 0 k ss = Ok ([], ss)"
| "read_run (Suc n) k ss =
     (if sk_type (ss_slot ss k) = ST_INVALID then Ok ([], ss)
      else res_bind (forward_message_tcp k ss) (\<lambda>(r, ss1). res_bind (read_run n k ss1) (\<lambda>(ds, ss2). Ok (read_data r @ ds, ss2))))"

definition next_size :: "int \<Rightarrow> int \<Rightarrow> int" where
  "next_size sz n = (if n = sz then sz * 2 else if sz > MIN_READ_BUFFER \<and> n * 2 < sz then sz div 2 else sz)"

text \<open>\<open>S\<close> has the lengths of the reads so far.\<close>

definition size_ok :: "int set \<Rightarrow> int \<Rightarrow> bool" where
  "size_ok S z \<longleftrightarrow> (\<exists>j. z = MIN_READ_BUFFER * 2 ^ j) \<and> (z = MIN_READ_BUFFER \<or> (\<exists>n \<in> S. z \<le> 2 * n))"

lemma next_size_ok:
  assumes "size_ok S z"
  shows "size_ok (insert n S) (next_size z n)"
proof -
  obtain j where j: "z = MIN_READ_BUFFER * 2 ^ j" "z = MIN_READ_BUFFER \<or> (\<exists>n \<in> S. z \<le> 2 * n)"
    using assms(1) unfolding size_ok_def by blast
  consider "n = z" | "n \<noteq> z" "z > MIN_READ_BUFFER" "n * 2 < z" | "n \<noteq> z" "\<not> (z > MIN_READ_BUFFER \<and> n * 2 < z)" by blast
  then show ?thesis
  proof cases
    case 1
    then have "next_size z n = MIN_READ_BUFFER * 2 ^ Suc j" "next_size z n \<le> 2 * n" using j by (simp_all add: next_size_def)
    then show ?thesis unfolding size_ok_def by (intro conjI exI [of _ "Suc j"]) auto
  next
    case 2
    then obtain i where i: "j = Suc i" using j(1) by (cases j) (simp_all add: MIN_READ_BUFFER_def)
    have e: "next_size z n = MIN_READ_BUFFER * 2 ^ i" using 2 j(1) i by (simp add: next_size_def)
    have "next_size z n \<le> z" using 2 by (simp add: next_size_def MIN_READ_BUFFER_def)
    moreover obtain n' where "n' \<in> S" "z \<le> 2 * n'" using j(2) 2(2) by auto
    ultimately have "n' \<in> S" "next_size z n \<le> 2 * n'" by simp_all
    then show ?thesis using e unfolding size_ok_def by blast
  next
    case 3
    then have "next_size z n = z" by (simp only: next_size_def if_False)
    then show ?thesis using assms(1) by (auto simp: size_ok_def)
  qed
qed

text \<open>One read: the data fit into the buffer, and the buffer gets the next size only when the data are reported.\<close>

definition read_step :: "nat \<Rightarrow> socket_server \<Rightarrow> reply \<Rightarrow> socket_server \<Rightarrow> bool" where
  "read_step k ss r ss' \<longleftrightarrow> (\<forall>d \<in> set (read_data r). int (length d) \<le> sk_size (ss_slot ss k)) \<and>
     set (os_read (ss_os ss')) \<subseteq> set (os_read (ss_os ss)) \<and>
     (sk_type (ss_slot ss' k) = ST_INVALID \<or> sk_type (ss_slot ss' k) = sk_type (ss_slot ss k)) \<and>
     (read_data r = [] \<and> sk_size (ss_slot ss' k) = sk_size (ss_slot ss k) \<or>
      (\<exists>d. read_data r = [d] \<and> sk_size (ss_slot ss' k) = next_size (sk_size (ss_slot ss k)) (int (length d))))"

lemma force_close_read:
  assumes "sk_type (ss_slot ss k) \<noteq> ST_RESERVE"
  shows "\<exists>m ss'. force_close k ss = Ok (m, ss') \<and> ss_os ss' = ss_os ss \<and> sk_type (ss_slot ss' k) = ST_INVALID \<and> sk_size (ss_slot ss' k) = sk_size (ss_slot ss k)"
  using assms by (auto simp: force_close_def Let_def)

lemma forward_read:
  assumes t: "live (sk_type (ss_slot ss k))"
    and L: "\<forall>bs. R bs \<in> set (os_read (ss_os ss)) \<longrightarrow> length bs < 2 ^ 30"
  shows "\<exists>r ss'. forward_message_tcp k ss = Ok (r, ss') \<and> read_step k ss r ss'"
proof -
  let ?s = "ss_slot ss k"
  obtain r ss1 where r: "take_read ss = (r, ss1)" by (cases "take_read ss")
  have same: "ss_slot ss1 = ss_slot ss" "set (os_read (ss_os ss1)) \<subseteq> set (os_read (ss_os ss))" "r = R bs \<Longrightarrow> length bs < 2 ^ 30" for bs
    using r L by (auto simp: take_read_def split: list.splits)
  have nr: "sk_type (ss_slot ss1 k) \<noteq> ST_RESERVE" using t same(1) by (auto simp: live_def)
  obtain m ss2 where fc: "force_close k ss1 = Ok (m, ss2)" "ss_os ss2 = ss_os ss1" "sk_type (ss_slot ss2 k) = ST_INVALID"
      "sk_size (ss_slot ss2 k) = sk_size (ss_slot ss1 k)" using force_close_read [OF nr] by blast
  have stay: "read_step k ss None ss1" using same by (simp add: read_step_def read_data_def)
  have cl: "read_step k ss (Some (c, m')) ss2" if "c \<noteq> SOCKET_DATA" for c m'
    using that same fc by (cases c) (auto simp: read_step_def read_data_def)
  show ?thesis
  proof (cases r)
    case (R bytes)
    define d where "d = take (nat (sk_size ?s)) bytes"
    have dl: "length d < 2 ^ 30" "length d = 0 \<or> int (length d) \<le> sk_size ?s"
      using same(3) [OF R] by (auto simp: d_def)
    consider "length d = 0" | "length d \<noteq> 0" "sk_type ?s = ST_HALFCLOSE" | "length d \<noteq> 0" "sk_type ?s \<noteq> ST_HALFCLOSE" by blast
    then show ?thesis
    proof cases
      case 1
      then have "forward_message_tcp k ss = close_eof k ss1"
        using R r same(1) by (simp only: forward_message_tcp_def Let_def prod.case rres.case d_def) simp
      then show ?thesis using fc(1) cl by (simp add: close_eof_def)
    next
      case 2
      then have "forward_message_tcp k ss = Ok (None, ss1)"
        using R r same(1) by (simp only: forward_message_tcp_def Let_def prod.case rres.case d_def if_False) simp
      then show ?thesis using stay by simp
    next
      case 3
      define ss3 where "ss3 = set_sock k ((stat_read (ss_time ss1) (length d) ?s)\<lparr>sk_size := next_size (sk_size ?s) (int (length d))\<rparr>) ss1"
      have "sk_size ?s * 2 < 2 ^ 31" if "int (length d) = sk_size ?s" using dl(1) that by simp
      then have z: "(if int (length d) = sk_size ?s then (if sk_size ?s * 2 < 2 ^ 31 then Ok (sk_size ?s * 2) else Err Int_overflow)
          else if sk_size ?s > MIN_READ_BUFFER \<and> int (length d) * 2 < sk_size ?s then Ok (sk_size ?s div 2) else Ok (sk_size ?s)) = Ok (next_size (sk_size ?s) (int (length d)))"
        by (auto simp: next_size_def)
      have "forward_message_tcp k ss = Ok (Some (SOCKET_DATA, \<lparr>sr_id = sk_id ?s, sr_opaque = sk_opaque ?s, sr_ud = int (length d), sr_data = D_bytes d\<rparr>), ss3)"
        using 3 R r same(1) by (simp only: forward_message_tcp_def Let_def prod.case rres.case d_def [symmetric] if_False z ss3_def) simp
      moreover have "read_step k ss (Some (SOCKET_DATA, \<lparr>sr_id = sk_id ?s, sr_opaque = sk_opaque ?s, sr_ud = int (length d), sr_data = D_bytes d\<rparr>)) ss3"
        using dl 3 same(2) unfolding read_step_def ss3_def
        by (intro conjI disjI2 exI [of _ d]) (auto simp: read_data_def stat_read_def)
      ultimately show ?thesis by blast
    qed
  qed (use r stay cl fc in \<open>simp_all add: forward_message_tcp_def Let_def close_error_def\<close>)
qed

lemma read_run_size:
  assumes "live (sk_type (ss_slot ss k)) \<or> sk_type (ss_slot ss k) = ST_INVALID" "size_ok S (sk_size (ss_slot ss k))"
    "\<forall>bs. R bs \<in> set (os_read (ss_os ss)) \<longrightarrow> length bs < 2 ^ 30"
  shows "\<exists>ds ss'. read_run n k ss = Ok (ds, ss') \<and> size_ok (S \<union> (\<lambda>d. int (length d)) ` set ds) (sk_size (ss_slot ss' k))"
  using assms
proof (induction n arbitrary: ss S)
  case (Suc n)
  show ?case
  proof (cases "sk_type (ss_slot ss k) = ST_INVALID")
    case False
    then have lv: "live (sk_type (ss_slot ss k))" using Suc.prems(1) by blast
    from forward_read [OF lv Suc.prems(3)] obtain r ss1 where f: "forward_message_tcp k ss = Ok (r, ss1)" "read_step k ss r ss1" by blast
    let ?S = "S \<union> (\<lambda>d. int (length d)) ` set (read_data r)"
    have "size_ok ?S (sk_size (ss_slot ss1 k))"
      using f(2) next_size_ok [OF Suc.prems(2)] Suc.prems(2) unfolding read_step_def by (elim conjE disjE exE) simp_all
    moreover have "live (sk_type (ss_slot ss1 k)) \<or> sk_type (ss_slot ss1 k) = ST_INVALID" using f(2) lv by (auto simp: read_step_def)
    moreover have "\<forall>bs. R bs \<in> set (os_read (ss_os ss1)) \<longrightarrow> length bs < 2 ^ 30" using f(2) Suc.prems(3) unfolding read_step_def by blast
    ultimately obtain ds ss' where "read_run n k ss1 = Ok (ds, ss')"
        "size_ok (?S \<union> (\<lambda>d. int (length d)) ` set ds) (sk_size (ss_slot ss' k))"
      using Suc.IH [of ss1 ?S] by blast
    then show ?thesis using False f(1) by (simp add: image_Un Un_assoc)
  qed (use Suc.prems in simp)
qed simp

text \<open>C18: Bounds of the read buffer. Take a new connection, whose buffer has 64 bytes, and let the socket thread handle any number of read
  events, answered by the kernel in any way (data, the end of the stream, an error, or a call to try again), with less than \<open>2 ^ 30\<close>
  bytes at hand in each of them. No call fails (the doubling of the size can not leave the range of \<open>int\<close>), the size of the buffer is
  64 bytes times a power of two, and it is still the 64 bytes of the beginning or at most twice the length of one of the
  pieces of data that were read and reported.\<close>

theorem read_buffer_bounds:
  assumes "live (sk_type (ss_slot ss k))" "sk_size (ss_slot ss k) = MIN_READ_BUFFER"
    "\<forall>bs. R bs \<in> set (os_read (ss_os ss)) \<longrightarrow> length bs < 2 ^ 30"
  shows "\<exists>ds ss'. read_run n k ss = Ok (ds, ss') \<and> (\<exists>j. sk_size (ss_slot ss' k) = 64 * 2 ^ j) \<and>
    (sk_size (ss_slot ss' k) = 64 \<or> (\<exists>d \<in> set ds. sk_size (ss_slot ss' k) \<le> 2 * int (length d)))"
proof -
  have "size_ok {} (sk_size (ss_slot ss k))" using assms(2) by (auto simp: size_ok_def intro!: exI [of _ 0])
  from read_run_size [OF _ this assms(3), of n] assms(1) show ?thesis
    by (auto simp: size_ok_def MIN_READ_BUFFER_def)
qed

text \<open>A read that fills the buffer doubles it, a short one afterwards leaves it.\<close>

theorem read_buffer_bounds_witness:
  "\<exists>ds ss'. read_run 2 1 ((connected_server [])\<lparr>ss_os := os_none\<lparr>os_read := [R (replicate 64 0), R (replicate 100 1)]\<rparr>\<rparr>) = Ok (ds, ss') \<and>
    (\<exists>j. sk_size (ss_slot ss' 1) = 64 * 2 ^ j) \<and>
    (sk_size (ss_slot ss' 1) = 64 \<or> (\<exists>d \<in> set ds. sk_size (ss_slot ss' 1) \<le> 2 * int (length d)))"
proof (rule read_buffer_bounds)
  let ?ss = "(connected_server [])\<lparr>ss_os := os_none\<lparr>os_read := [R (replicate 64 0), R (replicate 100 1)]\<rparr>\<rparr>"
  show "live (sk_type (ss_slot ?ss 1))" "sk_size (ss_slot ?ss 1) = MIN_READ_BUFFER"
    by (simp_all add: connected_server_def connecting_server_def server_simps)
qed (auto simp: os_none_def)

section \<open>Calls outside the limits\<close>

fun sv_runs :: "sv_op list \<Rightarrow> socket_server \<Rightarrow> socket_server res" where
  "sv_runs [] ss = Ok ss"
| "sv_runs (op # ops) ss = res_bind (sv_run op ss) (sv_runs ops)"

definition empty_server :: "os \<Rightarrow> socket_server" where
  "empty_server os = socket_server_create sock_none os 0"

text \<open>Three runs that the limits of \<open>sv_guard\<close> exclude. A package sent before the socket thread has handled the request to connect is not
  counted, and the assertion of \<open>dec_sending_ref\<close> fails; a package that \<open>socket_server_send\<close> can not send at once on a connected UDP socket
  is put into a buffer without an address, and \<open>send_list_udp\<close> reads behind it; a user object in the low list is taken for one that is
  sent in part, and the assertion of \<open>send_buffer_\<close> fails.\<close>

lemma early_send_fails:
  "sv_runs [Sv_connect 5 ''host'' 80, Sv_send 1 (Raw bs), Sv_ctrl, Sv_ctrl] (empty_server (os_none\<lparr>os_resolve := [Inr [A_progress 7]]\<rparr>)) = Err Assert_fail"
  by (simp add: sv_run_def empty_server_def server_simps socket_server_send_def can_direct_write_def inc_sending_ref_def
    send_socket_def append_sendbuffer_def append_sendbuffer1_def check_warning_def dec_sending_ref_def set_sock_def ID_TAG16_def
    send_buffer_empty_def new_buffer_def set_list_def sock_list_def)

lemma udp_direct_fails:
  assumes "bs \<noteq> []"
  shows "sv_runs [Sv_udp 5 False, Sv_ctrl, Sv_udp_connect 1, Sv_ctrl, Sv_send 1 (Raw bs), Sv_event 0 (write_event 1) 1]
    (empty_server (os_none\<lparr>os_socket := [Some 7], os_peer := [Some (Some \<lparr>sa_v6 = False, sa_port = [0, 80], sa_addr = [127, 0, 0, 1]\<rparr>)]\<rparr>)) = Err Out_of_bounds"
  using assms
  by (simp add: sv_run_def empty_server_def server_simps socket_server_udp_def take_socket_def add_udp_socket_def
    socket_server_udp_connect_def take_peer_def gen_udp_address_def set_udp_address_def
    socket_server_send_def can_direct_write_def nomore_sending_data_def take_lock_def udp_socket_address_def take_write_def direct_rest_def
    handle_event_def write_event_def send_buffer_def add_direct_def send_buffer1_def list_uncomplete_def send_list_def send_list_udp_def sock_list_def
    send_buffer_empty_def set_sock_def ID_TAG16_def stat_write_def emit_def)

lemma user_low_fails:
  "sv_runs [Sv_connect 5 ''host'' 80, Sv_ctrl, Sv_low 1 (Raw a), Sv_low 1 (User False bs), Sv_ctrl, Sv_ctrl, Sv_event 0 (write_event 1) 1]
    (empty_server (os_none\<lparr>os_resolve := [Inr [A_done 7 None]]\<rparr>)) = Err Assert_fail"
  by (simp add: sv_run_def empty_server_def server_simps socket_server_send_lowpriority_def inc_sending_ref_def
    send_socket_def append_sendbuffer_def append_sendbuffer_low_def append_sendbuffer1_def check_warning_def dec_sending_ref_def set_sock_def ID_TAG16_def
    send_buffer_empty_def new_buffer_def set_list_def sock_list_def emit_def
    handle_event_def write_event_def send_buffer_def take_lock_def add_direct_def send_buffer1_def list_uncomplete_def)

end
