(* ===== verification/Skynet_Net.thy ===== *)
theory Skynet_Net
  imports Skynet_Dispatch Skynet_Sockstate
begin

text \<open>
  The sockets of the node, \<open>skynet-src/skynet_socket.c\<close>: what the socket server reports becomes a message to the service that owns the
  socket. \<open>simg\<close> gives the memory image of \<open>struct skynet_socket_message\<close> with the text behind it; the image of a pointer is not
  modelled.
\<close>

section \<open>The calls of the services\<close>

definition skynet_socket_init :: "socket \<Rightarrow> os \<Rightarrow> u64 \<Rightarrow> socket_server" where
  "skynet_socket_init junk os time = socket_server_create junk os time"

definition skynet_socket_exit :: "socket_server \<Rightarrow> socket_server" where
  "skynet_socket_exit ss = socket_server_exit ss"

definition skynet_socket_free :: "socket_server \<Rightarrow> socket_server res" where
  "skynet_socket_free ss = socket_server_release ss"

definition skynet_socket_updatetime :: "u64 \<Rightarrow> socket_server \<Rightarrow> socket_server" where
  "skynet_socket_updatetime time ss = socket_server_updatetime time ss"

text \<open>The handle of the caller becomes the owner of the socket.\<close>

definition as_owner :: "cptr \<Rightarrow> node \<Rightarrow> (u64 \<Rightarrow> 'a) \<Rightarrow> 'a res" where
  "as_owner c n f = res_bind (cx_get n c) (\<lambda>x. Ok (f (ucast (cx_handle x))))"

definition skynet_socket_send :: "u32 \<Rightarrow> sobj \<Rightarrow> socket_server \<Rightarrow> (int \<times> socket_server) res" where
  "skynet_socket_send i b ss = socket_server_send i b ss"

definition skynet_socket_send_lowpriority :: "u32 \<Rightarrow> sobj \<Rightarrow> socket_server \<Rightarrow> (int \<times> socket_server) res" where
  "skynet_socket_send_lowpriority i b ss = socket_server_send_lowpriority i b ss"

definition skynet_socket_listen :: "cptr \<Rightarrow> node \<Rightarrow> socket_server \<Rightarrow> (u32 option \<times> socket_server) res" where
  "skynet_socket_listen c n ss = as_owner c n (\<lambda>source. socket_server_listen source ss)"

definition skynet_socket_connect :: "cptr \<Rightarrow> string \<Rightarrow> int \<Rightarrow> node \<Rightarrow> socket_server \<Rightarrow> (u32 option \<times> socket_server) res" where
  "skynet_socket_connect c host port n ss = as_owner c n (\<lambda>source. socket_server_connect source host port ss)"

definition skynet_socket_bind :: "cptr \<Rightarrow> int \<Rightarrow> node \<Rightarrow> socket_server \<Rightarrow> (u32 option \<times> socket_server) res" where
  "skynet_socket_bind c fd n ss = as_owner c n (\<lambda>source. socket_server_bind source fd ss)"

definition skynet_socket_close :: "cptr \<Rightarrow> u32 \<Rightarrow> node \<Rightarrow> socket_server \<Rightarrow> socket_server res" where
  "skynet_socket_close c i n ss = as_owner c n (\<lambda>source. socket_server_close source i ss)"

definition skynet_socket_shutdown :: "cptr \<Rightarrow> u32 \<Rightarrow> node \<Rightarrow> socket_server \<Rightarrow> socket_server res" where
  "skynet_socket_shutdown c i n ss = as_owner c n (\<lambda>source. socket_server_shutdown source i ss)"

definition skynet_socket_start :: "cptr \<Rightarrow> u32 \<Rightarrow> node \<Rightarrow> socket_server \<Rightarrow> socket_server res" where
  "skynet_socket_start c i n ss = as_owner c n (\<lambda>source. socket_server_start source i ss)"

definition skynet_socket_nodelay :: "u32 \<Rightarrow> socket_server \<Rightarrow> socket_server" where
  "skynet_socket_nodelay i ss = socket_server_nodelay i ss"

definition skynet_socket_udp :: "cptr \<Rightarrow> bool \<Rightarrow> node \<Rightarrow> socket_server \<Rightarrow> (u32 option \<times> socket_server) res" where
  "skynet_socket_udp c bound n ss = as_owner c n (\<lambda>source. socket_server_udp source bound ss)"

definition skynet_socket_udp_connect :: "u32 \<Rightarrow> socket_server \<Rightarrow> int \<times> socket_server" where
  "skynet_socket_udp_connect i ss = socket_server_udp_connect i ss"

definition skynet_socket_udp_send :: "u32 \<Rightarrow> byte list \<Rightarrow> sobj \<Rightarrow> socket_server \<Rightarrow> int \<times> socket_server" where
  "skynet_socket_udp_send i address b ss = socket_server_udp_send i address b ss"

definition SKYNET_SOCKET_TYPE_UDP :: int where "SKYNET_SOCKET_TYPE_UDP = 6"

definition skynet_socket_udp_address :: "skynet_socket_message \<Rightarrow> byte list option" where
  "skynet_socket_udp_address msg =
     (if sm_type msg \<noteq> SKYNET_SOCKET_TYPE_UDP then None
      else socket_server_udp_address \<lparr>sr_id = of_int (sm_id msg), sr_opaque = 0, sr_ud = sm_ud msg, sr_data = D_bytes (sm_buffer msg)\<rparr>)"

definition skynet_socket_info :: "socket_server \<Rightarrow> socket_info list \<times> socket_server" where
  "skynet_socket_info ss = socket_server_info ss"

section \<open>The socket thread\<close>

definition SIZEOF_SOCKET_MESSAGE :: nat where "SIZEOF_SOCKET_MESSAGE = 24"

text \<open>The text behind the message: what \<open>strlen\<close> finds, at most 128 characters. The data of a read has no end mark.\<close>

definition padding_text :: "sdata \<Rightarrow> string res" where
  "padding_text d =
     (case d of
        D_null \<Rightarrow> Ok []
      | D_text t \<Rightarrow> Ok (take 128 (takeWhile (\<lambda>c. c \<noteq> CHR 0x00) t))
      | D_bytes _ \<Rightarrow> Err Out_of_bounds)"

fun data_bytes :: "sdata \<Rightarrow> byte list" where
  "data_bytes D_null = []"
| "data_bytes (D_text t) = str_bytes t"
| "data_bytes (D_bytes bs) = bs"

definition socket_message_of :: "int \<Rightarrow> bool \<Rightarrow> socket_message \<Rightarrow> skynet_socket_message res" where
  "socket_message_of type padding m =
     (let sm = \<lparr>sm_type = type, sm_id = sint (sr_id m), sm_ud = sr_ud m, sm_buffer = [], sm_tail = []\<rparr> in
      if padding then res_bind (padding_text (sr_data m)) (\<lambda>t. Ok (sm\<lparr>sm_tail := t\<rparr>))
      else Ok (sm\<lparr>sm_buffer := data_bytes (sr_data m)\<rparr>))"

definition forward_message :: "modules \<Rightarrow> (skynet_socket_message \<Rightarrow> byte list) \<Rightarrow> int \<Rightarrow> bool \<Rightarrow> socket_message \<Rightarrow> node \<Rightarrow> node res" where
  "forward_message M simg type padding m n =
     res_bind (socket_message_of type padding m) (\<lambda>sm.
     res_bind (skynet_context_push M (ucast (sr_opaque m))
         \<lparr>msg_source = 0, msg_session = 0, msg_data = Some (simg sm),
          msg_sz = of_nat (SIZEOF_SOCKET_MESSAGE + length (sm_tail sm)) OR push_bit MESSAGE_TYPE_SHIFT (of_int PTYPE_SOCKET)\<rparr> n) (\<lambda>(_, n1).
     Ok n1))"

text \<open>The type of the message and whether the text of the report goes with it.\<close>

definition report_type :: "sret \<Rightarrow> (int \<times> bool) option" where
  "report_type t =
     (case t of
        SOCKET_EXIT \<Rightarrow> None
      | SOCKET_DATA \<Rightarrow> Some (SKYNET_SOCKET_TYPE_DATA, False)
      | SOCKET_CLOSE \<Rightarrow> Some (SKYNET_SOCKET_TYPE_CLOSE, False)
      | SOCKET_OPEN \<Rightarrow> Some (SKYNET_SOCKET_TYPE_CONNECT, True)
      | SOCKET_ERR \<Rightarrow> Some (SKYNET_SOCKET_TYPE_ERROR, True)
      | SOCKET_ACCEPT \<Rightarrow> Some (SKYNET_SOCKET_TYPE_ACCEPT, True)
      | SOCKET_UDP \<Rightarrow> Some (SKYNET_SOCKET_TYPE_UDP, False)
      | SOCKET_WARNING \<Rightarrow> Some (SKYNET_SOCKET_TYPE_WARNING, False))"

definition skynet_socket_poll :: "modules \<Rightarrow> (skynet_socket_message \<Rightarrow> byte list) \<Rightarrow> node \<Rightarrow> socket_server \<Rightarrow> (int \<times> node \<times> socket_server) res option" where
  "skynet_socket_poll M simg n ss =
     (case socket_server_poll True ss of
        None \<Rightarrow> None
      | Some (Err e) \<Rightarrow> Some (Err e)
      | Some (Ok (None, mo, ss1)) \<Rightarrow>
          Some (res_bind (skynet_error M None ''Unknown socket message type -1.'' n) (\<lambda>n1. Ok (-1, n1, ss1)))
      | Some (Ok (Some (t, m), mo, ss1)) \<Rightarrow>
          (case report_type t of
             None \<Rightarrow> Some (Ok (0, n, ss1))
           | Some (type, padding) \<Rightarrow>
               Some (res_bind (forward_message M simg type padding m n) (\<lambda>n1. Ok (if mo then -1 else 1, n1, ss1)))))"

section \<open>Reports carry text where text is expected\<close>

definition texty :: "reply \<Rightarrow> bool" where
  "texty r \<longleftrightarrow> (case r of None \<Rightarrow> True | Some (t, m) \<Rightarrow> t \<in> {SOCKET_OPEN, SOCKET_ERR, SOCKET_ACCEPT} \<longrightarrow> (\<forall>bs. sr_data m \<noteq> D_bytes bs))"

lemma texty_simps [simp]: "texty None" "texty (Some (SOCKET_CLOSE, m))" "texty (Some (SOCKET_WARNING, m))" "texty (Some (SOCKET_DATA, m))"
    "texty (Some (SOCKET_UDP, m))" "texty (Some (SOCKET_EXIT, m))" "texty (socket_err i opaque t)"
    "texty (Some (st, \<lparr>sr_id = i, sr_opaque = opaque, sr_ud = u, sr_data = name_data nm\<rparr>))"
    "texty (Some (st, m\<lparr>sr_data := D_text t\<rparr>))" "texty (Some (st, \<lparr>sr_id = i, sr_opaque = opaque, sr_ud = u, sr_data = D_text t\<rparr>))"
  by (auto simp: texty_def socket_err_def name_data_def split: option.splits)

lemma texty_send:
  "send_list k high ss = Ok (r, ss') \<Longrightarrow> texty r" "send_done k ss = Ok (r, ss') \<Longrightarrow> texty r"
  by (auto simp: send_list_def send_list_tcp_def send_list_udp_def send_done_def Let_def split: prod.splits if_splits)

lemma texty_send_buffer: "send_buffer k ss = Ok (r, ss') \<Longrightarrow> texty r"
  by (auto simp: send_buffer_def send_buffer1_def split: prod.splits if_splits dest: texty_send)

lemma texty_close: "close_error k t ss = Ok (r, ss') \<Longrightarrow> texty r" "close_eof k ss = Ok (r, ss') \<Longrightarrow> texty r"
  by (auto simp: close_error_def close_eof_def)

lemma texty_check_warning: "check_warning k ss = (r, ss') \<Longrightarrow> texty r"
  by (auto simp: check_warning_def Let_def split: if_splits)

lemma texty_send_socket: "send_socket i b high address ss = (r, ss') \<Longrightarrow> texty r"
  by (auto simp: send_socket_def Let_def split: if_splits option.splits prod.splits dest: texty_check_warning)

lemma texty_open: "open_socket i opaque ss = Ok (r, ss') \<Longrightarrow> texty r"
  by (auto simp: open_socket_def Let_def split: prod.splits sum.splits option.splits if_splits)

lemma texty_start: "start_socket i opaque ss = Ok (r, ss') \<Longrightarrow> texty r"
  by (auto simp: start_socket_def Let_def split: prod.splits if_splits)

lemma texty_close_socket: "close_socket i shut opaque ss = Ok (r, ss') \<Longrightarrow> texty r"
  by (auto simp: close_socket_def Let_def split: prod.splits if_splits dest: texty_send_buffer)

lemma texty_request:
  assumes "handle_request rq ss = Ok (r, ss')"
  shows "texty r"
proof (cases rq)
  case (Req_send i b)
  then show ?thesis using assms texty_send_socket by (auto simp: handle_request_def split: prod.splits)
next
  case (Req_send_low i b)
  then show ?thesis using assms texty_send_socket by (auto simp: handle_request_def split: prod.splits)
next
  case (Req_send_udp i b address)
  then show ?thesis using assms texty_send_socket by (auto simp: handle_request_def)
qed (use assms in \<open>auto simp: handle_request_def listen_socket_def bind_socket_def set_udp_address_def Let_def split: if_splits
    dest: texty_open texty_start texty_close_socket\<close>)

lemma texty_tcp: "forward_message_tcp k ss = Ok (r, ss') \<Longrightarrow> texty r"
  unfolding forward_message_tcp_def Let_def
  by (cases "take_read ss"; cases "fst (take_read ss)") (auto split: if_split_asm dest: texty_close)

lemma texty_udp: "forward_message_udp k ss = Ok (r, ss') \<Longrightarrow> texty r"
  by (auto simp: forward_message_udp_def Let_def split: prod.splits rres.splits if_splits dest: texty_close)

lemma texty_connect: "report_connect k ss = Ok (r, ss') \<Longrightarrow> texty r"
  by (auto simp: report_connect_def Let_def split: prod.splits option.splits if_splits dest: texty_close)

lemma texty_accept: "report_accept k ss = Ok (r, ss') \<Longrightarrow> texty r"
  by (auto simp: report_accept_def Let_def split: prod.splits option.splits if_splits accepted.splits)

lemma texty_event:
  assumes "handle_event idx e k ss = Ok (r, ss')"
  shows "texty r"
proof -
  have "texty r" if io: "handle_io idx e k ss = Ok (r, ss')"
  proof (cases "ev_read e")
    case True
    then obtain ss1 where "(if sk_protocol (ss_slot ss k) = PROTOCOL_TCP then forward_message_tcp k ss else forward_message_udp k ss) = Ok (r, ss1)"
      using io by (auto simp: handle_io_def split: if_splits)
    then show ?thesis using texty_tcp texty_udp by (auto split: if_splits)
  next
    case False
    then show ?thesis using io by (auto simp: handle_io_def split: if_splits prod.splits dest: texty_send_buffer texty_close)
  qed
  then show ?thesis using assms texty_connect texty_accept by (auto simp: handle_event_cases split: if_splits)
qed

lemma texty_poll:
  assumes "socket_server_poll mo ss = Some res"
  shows "case res of Err e \<Rightarrow> True | Ok (r, mo', ss') \<Rightarrow> texty r"
proof (rule socket_server_poll.raw_induct [OF _ assms, of "\<lambda>mo ss res. case res of Err e \<Rightarrow> True | Ok (r, mo', ss') \<Rightarrow> texty r"], goal_cases)
  case (1 poll mo ss res)
  have ctrl: "case res of Err e \<Rightarrow> True | Ok (r, mo', ss') \<Rightarrow> texty r"
    if "(case ctrl_cmd ss of Err e \<Rightarrow> Some (Err e)
       | Ok (r, ss1) \<Rightarrow> if r \<noteq> None then Some (Ok (r, mo, clear_closed_event r ss1)) else poll mo ss1) = Some res" "ss_pipe ss \<noteq> []"
  proof (cases "ctrl_cmd ss")
    case (Ok x)
    obtain r ss1 where x: "x = (r, ss1)" by (cases x)
    have "\<exists>rq rest. ss_pipe ss = rq # rest" using that(2) by (cases "ss_pipe ss") auto
    then have "texty r" using Ok x texty_request by (auto simp: ctrl_cmd_def)
    then show ?thesis using that(1) Ok x 1(1) by (auto split: if_splits)
  qed (use that in auto)
  have event: "case res of Err e \<Rightarrow> True | Ok (r, mo', ss') \<Rightarrow> texty r"
    if "(case handle_event i e k ss2 of Err er \<Rightarrow> Some (Err er)
       | Ok (r, ss3) \<Rightarrow> if r \<noteq> None then Some (Ok (r, m, ss3)) else poll m ss3) = Some res" for i e k ss2 m
  proof (cases "handle_event i e k ss2")
    case (Ok x)
    obtain r ss3 where x: "x = (r, ss3)" by (cases x)
    then show ?thesis using that Ok texty_event [of i e k ss2 r ss3] 1(1) by (auto split: if_splits)
  qed (use that in auto)
  show ?case
    using 1(2) 1(1) ctrl event
    by (auto simp: Let_def split: if_split_asm option.split_asm list.split_asm)
qed

section \<open>What a report becomes\<close>

lemma socket_message_total: "padding \<longrightarrow> (\<forall>bs. sr_data m \<noteq> D_bytes bs) \<Longrightarrow> \<exists>sm. socket_message_of type padding m = Ok sm"
  by (cases "sr_data m") (auto simp: socket_message_of_def padding_text_def Let_def)

lemma socket_message_fields:
  assumes "socket_message_of type padding m = Ok sm"
  shows "sm_type sm = type" "sm_id sm = sint (sr_id m)" "sm_ud sm = sr_ud m" "length (sm_tail sm) \<le> 128"
    "\<not> padding \<longrightarrow> sm_buffer sm = data_bytes (sr_data m) \<and> sm_tail sm = []"
  using assms by (auto simp: socket_message_of_def padding_text_def Let_def split: if_splits sdata.splits)

text \<open>C12: Delivery of socket events. When the poll of the socket thread reports an event of a socket, the report becomes exactly one message of
  type \<open>PTYPE_SOCKET\<close> at the end of the queue of the service that owns the socket, with the type, the id, the number and the data
  of the report, a size that the dispatcher reads back, and no other queue or context changes; when the owner is gone,
  the node stays as it is. The call returns -1 or 1 as more events wait or not, and never fails.\<close>

theorem socket_report_delivered:
  assumes "sys_reachable M hid s" "quiet_release M" "socket_server_poll True ss = Some (Ok (Some (t, m), mo, ss'))"
    "report_type t = Some (type, padding)"
  shows "\<exists>sm. sm_type sm = type \<and> sm_id sm = sint (sr_id m) \<and> sm_ud sm = sr_ud m \<and> length (sm_tail sm) \<le> 128 \<and>
    (\<not> padding \<longrightarrow> sm_buffer sm = data_bytes (sr_data m) \<and> sm_tail sm = []) \<and>
    (case skynet_handle_grab (context_handle (sy_node s)) (nd_handles (sy_node s)) (ucast (sr_opaque m)) of
      None \<Rightarrow> skynet_socket_poll M simg (sy_node s) ss = Some (Ok (if mo then -1 else 1, sy_node s, ss'))
    | Some d \<Rightarrow> \<exists>x q e w. nd_ctx (sy_node s) d = Some x \<and> mq_heap (nd_world (sy_node s)) (cx_queue x) = Some q \<and>
        skynet_socket_poll M simg (sy_node s) ss = Some (Ok (if mo then -1 else 1, (sy_node s)\<lparr>nd_world := w\<rparr>, ss')) \<and>
        pending w = (pending (nd_world (sy_node s)))(cx_queue x \<mapsto> mq_items q @ [e]) \<and>
        msg_source e = 0 \<and> msg_session e = 0 \<and> msg_data e = Some (simg sm) \<and>
        uint (drop_bit MESSAGE_TYPE_SHIFT (msg_sz e)) = PTYPE_SOCKET \<and>
        unat (msg_sz e AND MESSAGE_TYPE_MASK) = SIZEOF_SOCKET_MESSAGE + length (sm_tail sm))"
proof -
  let ?n = "sy_node s" and ?h = "ucast (sr_opaque m) :: u32"
  have "texty (Some (t, m))" using texty_poll [OF assms(3)] by simp
  then have "padding \<longrightarrow> (\<forall>bs. sr_data m \<noteq> D_bytes bs)" using assms(4) by (cases t) (auto simp: texty_def report_type_def)
  from socket_message_total [OF this, of type] obtain sm where ok: "socket_message_of type padding m = Ok sm" ..
  note sm = ok socket_message_fields [OF ok]
  define sz :: u64 where "sz = of_nat (SIZEOF_SOCKET_MESSAGE + length (sm_tail sm))"
  let ?e = "\<lparr>msg_source = 0, msg_session = 0, msg_data = Some (simg sm), msg_sz = sz OR push_bit MESSAGE_TYPE_SHIFT (of_int PTYPE_SOCKET)\<rparr>"
  have usz: "unat sz = SIZEOF_SOCKET_MESSAGE + length (sm_tail sm)" using sm(5) unfolding sz_def unsigned_of_nat of_nat_id
    by (intro take_bit_nat_eq_self) (simp add: SIZEOF_SOCKET_MESSAGE_def)
  have "unat sz < 2 ^ 56" using usz sm(5) by (simp add: SIZEOF_SOCKET_MESSAGE_def)
  then have "take_bit 56 sz = sz" by (simp add: word_unat_eq_iff unsigned_take_bit_eq take_bit_nat_eq_self)
  then have fits: "\<not> too_large sz" by (simp add: too_large_def MESSAGE_TYPE_MASK_def take_bit_eq_mask mask_eq_exp_minus_1)
  have pt: "PTYPE_SOCKET AND 0xff = PTYPE_SOCKET" by (simp add: PTYPE_SOCKET_def)
  note ts = type_and_size [OF fits, of PTYPE_SOCKET, unfolded pt]
  have poll: "skynet_socket_poll M simg ?n ss = Some (res_bind (skynet_context_push M ?h ?e ?n) (\<lambda>(_, n1). Ok (if mo then -1 else 1, n1, ss')))"
    using assms(3,4) sm(1) by (simp add: skynet_socket_poll_def forward_message_def sz_def res_bind_assoc split_def)
  show ?thesis
  proof (intro exI [of _ sm] conjI)
    show "case skynet_handle_grab (context_handle ?n) (nd_handles ?n) ?h of
      None \<Rightarrow> skynet_socket_poll M simg ?n ss = Some (Ok (if mo then -1 else 1, ?n, ss'))
    | Some d \<Rightarrow> \<exists>x q e w. nd_ctx ?n d = Some x \<and> mq_heap (nd_world ?n) (cx_queue x) = Some q \<and>
        skynet_socket_poll M simg ?n ss = Some (Ok (if mo then -1 else 1, ?n\<lparr>nd_world := w\<rparr>, ss')) \<and>
        pending w = (pending (nd_world ?n))(cx_queue x \<mapsto> mq_items q @ [e]) \<and>
        msg_source e = 0 \<and> msg_session e = 0 \<and> msg_data e = Some (simg sm) \<and>
        uint (drop_bit MESSAGE_TYPE_SHIFT (msg_sz e)) = PTYPE_SOCKET \<and>
        unat (msg_sz e AND MESSAGE_TYPE_MASK) = SIZEOF_SOCKET_MESSAGE + length (sm_tail sm)"
    proof (cases "skynet_handle_grab (context_handle ?n) (nd_handles ?n) ?h")
      case None
      then show ?thesis using poll by (simp add: skynet_context_push_def handle_grab_def)
    next
      case (Some d)
      from push_delivers [OF assms(1,2) Some, of ?e] obtain x q w where p: "nd_ctx ?n d = Some x" "mq_heap (nd_world ?n) (cx_queue x) = Some q"
        "skynet_context_push M ?h ?e ?n = Ok (0, ?n\<lparr>nd_world := w\<rparr>)" "pending w = (pending (nd_world ?n))(cx_queue x \<mapsto> mq_items q @ [?e])" by blast
      show ?thesis unfolding Some option.case
        by (intro exI [of _ x] exI [of _ q] exI [of _ ?e] exI [of _ w]) (use p poll ts usz in simp)
    qed
  qed (use sm in auto)
qed

text \<open>A service closes a socket that is gone already; the report goes to it.\<close>

definition closing_server :: socket_server where
  "closing_server = socket_server_close 0x1000001 1 (empty_server os_none)"

lemma closing_poll:
  "socket_server_poll True closing_server =
    Some (Ok (Some (SOCKET_CLOSE, \<lparr>sr_id = 1, sr_opaque = 0x1000001, sr_ud = 0, sr_data = D_null\<rparr>), True, empty_server os_none))"
  by (subst socket_server_poll.simps)
    (simp add: closing_server_def empty_server_def socket_server_close_def send_request_def socket_server_create_def ctrl_cmd_def handle_request_def
      close_socket_def Let_def clear_closed_event_def)

theorem socket_report_delivered_witness:
  "\<exists>(sm :: skynet_socket_message) x q e w. sm_type sm = SKYNET_SOCKET_TYPE_CLOSE \<and> sm_id sm = 1 \<and> sm_buffer sm = [] \<and>
     nd_ctx node_one 0 = Some x \<and> mq_heap (nd_world node_one) (cx_queue x) = Some q \<and>
     skynet_socket_poll quiet_modules (\<lambda>_. []) node_one closing_server = Some (Ok (-1, node_one\<lparr>nd_world := w\<rparr>, empty_server os_none)) \<and>
     pending w = (pending (nd_world node_one))(cx_queue x \<mapsto> mq_items q @ [e]) \<and>
     msg_source e = 0 \<and> uint (drop_bit MESSAGE_TYPE_SHIFT (msg_sz e)) = PTYPE_SOCKET \<and> unat (msg_sz e AND MESSAGE_TYPE_MASK) = 24 + length (sm_tail sm)"
proof -
  have h: "skynet_handle_grab (context_handle node_one) (nd_handles node_one) 0x1000001 = Some 0"
    by (simp add: skynet_handle_grab_def node_one_fields hash_slot_def context_handle_def)
  have s: "sy_node sys_one = node_one" by (simp add: sys_one_def)
  have t: "report_type SOCKET_CLOSE = Some (SKYNET_SOCKET_TYPE_CLOSE, False)" by (simp add: report_type_def)
  from socket_report_delivered [OF sys_one_reachable quiet_modules_quiet closing_poll t, of "\<lambda>_. []"]
  show ?thesis by (simp add: s h SIZEOF_SOCKET_MESSAGE_def) blast
qed

end
