(* ===== verification/Skynet_Netpack.thy ===== *)
theory Skynet_Netpack
  imports Skynet_Frames
begin

text \<open>
  The packet library of the Lua gate, \<open>lualib-src/lua-netpack.c\<close>. It cuts the data of all connections
  into packets with a two-byte length: a packet that is not complete is kept in a hash table under its
  socket, a single complete packet is returned at once, several are put in a ring that \<open>pop\<close> empties.
  The Lua stack holds the queue (absent at first: \<open>None\<close>) and the results (\<open>np_result\<close>); buffers are byte
  lists, a chain of incomplete packets is a list.

  The lemmas show that each connection is a decoder of the packet stream, that connections do not
  disturb each other, and that \<open>pack\<close> makes what \<open>filter\<close> takes apart.
\<close>

section \<open>Data\<close>

record netpack =
  np_id :: int
  np_data :: "byte list"

record uncomplete =
  uc_id :: int
  uc_size :: nat
  uc_buffer :: "byte list"
  uc_read :: int
  uc_header :: nat

record pqueue =
  q_cap :: nat
  q_head :: nat
  q_tail :: nat
  q_hash :: "nat \<Rightarrow> uncomplete list"
  q_cells :: "netpack option list"

definition QUEUESIZE :: nat where "QUEUESIZE = 1024"
definition HASHSIZE :: nat where "HASHSIZE = 4096"

datatype np_result = R_none | R_data int "byte list" | R_more | R_error int string | R_open int string | R_close int | R_warning int int

section \<open>Operations\<close>

definition lclear :: "pqueue option \<Rightarrow> pqueue option" where
  "lclear L = map_option (\<lambda>q. q\<lparr>q_hash := (\<lambda>_. []), q_head := 0, q_tail := 0\<rparr>) L"

definition hash_fd :: "int \<Rightarrow> nat" where
  "hash_fd fd = nat ((fd div 2 ^ 24 + fd div 2 ^ 12 + fd) mod 2 ^ 32) mod HASHSIZE"

text \<open>The walk of \<open>find_uncomplete\<close> along a chain: the node for the socket, unlinked.\<close>

fun unlink_uc :: "int \<Rightarrow> uncomplete list \<Rightarrow> uncomplete option \<times> uncomplete list" where
  "unlink_uc fd [] = (None, [])"
| "unlink_uc fd (uc # rest) =
     (if uc_id uc = fd then (Some uc, rest)
      else case unlink_uc fd rest of (r, rest') \<Rightarrow> (r, uc # rest'))"

definition find_uncomplete :: "pqueue option \<Rightarrow> int \<Rightarrow> uncomplete option \<times> pqueue option" where
  "find_uncomplete L fd =
     (case L of
        None \<Rightarrow> (None, None)
      | Some q \<Rightarrow>
          (case unlink_uc fd (q_hash q (hash_fd fd)) of
             (None, _) \<Rightarrow> (None, L)
           | (Some uc, chain) \<Rightarrow> (Some uc, Some (q\<lparr>q_hash := (q_hash q)(hash_fd fd := chain)\<rparr>))))"

definition get_queue :: "pqueue option \<Rightarrow> pqueue" where
  "get_queue L =
     (case L of
        Some q \<Rightarrow> q
      | None \<Rightarrow> \<lparr>q_cap = QUEUESIZE, q_head = 0, q_tail = 0, q_hash = (\<lambda>_. []), q_cells = replicate QUEUESIZE None\<rparr>)"

definition np_expand_queue :: "pqueue \<Rightarrow> pqueue" where
  "np_expand_queue q =
     q\<lparr>q_cells := map (\<lambda>i. q_cells q ! ((q_head q + i) mod q_cap q)) [0..<q_cap q] @ replicate QUEUESIZE None,
       q_cap := q_cap q + QUEUESIZE, q_head := 0, q_tail := q_cap q\<rparr>"

definition push_data :: "netpack \<Rightarrow> pqueue \<Rightarrow> pqueue res" where
  "push_data np q =
     (if q_tail q < length (q_cells q) then
        let q1 = q\<lparr>q_cells := (q_cells q)[q_tail q := Some np],
                   q_tail := (if q_tail q + 1 \<ge> q_cap q then q_tail q + 1 - q_cap q else q_tail q + 1)\<rparr>
        in Ok (if q_head q1 = q_tail q1 then np_expand_queue q1 else q1)
      else Err Out_of_bounds)"

text \<open>\<open>save_uncomplete\<close>, with the fields that its callers set afterwards.\<close>

definition save_uncomplete :: "uncomplete \<Rightarrow> pqueue \<Rightarrow> pqueue" where
  "save_uncomplete uc q =
     (let h = hash_fd (uc_id uc) in q\<lparr>q_hash := (q_hash q)(h := uc # q_hash q h)\<rparr>)"

definition read_size :: "byte list \<Rightarrow> nat" where
  "read_size buffer = unat (buffer ! 0) * 256 + unat (buffer ! 1)"

function push_more :: "int \<Rightarrow> byte list \<Rightarrow> pqueue \<Rightarrow> pqueue res" where
  "push_more fd buffer q =
     (if buffer = [] then Err Out_of_bounds
      else if length buffer = 1 then
        Ok (save_uncomplete \<lparr>uc_id = fd, uc_size = 0, uc_buffer = [], uc_read = -1, uc_header = unat (buffer ! 0)\<rparr> q)
      else
        let pack_size = read_size buffer; rest = drop 2 buffer in
        if length rest < pack_size then
          Ok (save_uncomplete \<lparr>uc_id = fd, uc_size = pack_size, uc_buffer = rest, uc_read = int (length rest), uc_header = 0\<rparr> q)
        else
          res_bind (push_data \<lparr>np_id = fd, np_data = take pack_size rest\<rparr> q) (\<lambda>q1.
          if length rest - pack_size > 0 then push_more fd (drop pack_size rest) q1 else Ok q1))"
  by pat_completeness auto
termination
  by (relation "measure (\<lambda>(_, buffer, _). length buffer)") auto

declare push_more.simps [simp del]

definition close_uncomplete :: "pqueue option \<Rightarrow> int \<Rightarrow> pqueue option" where
  "close_uncomplete L fd = snd (find_uncomplete L fd)"

text \<open>\<open>memcpy(uc->pack.buffer + uc->read, ...)\<close> into the block of \<open>uc->pack.size\<close> bytes.\<close>

definition uc_copy :: "uncomplete \<Rightarrow> byte list \<Rightarrow> uncomplete res" where
  "uc_copy uc bytes =
     (if uc_read uc = int (length (uc_buffer uc)) \<and> length (uc_buffer uc) + length bytes \<le> uc_size uc
      then Ok (uc\<lparr>uc_buffer := uc_buffer uc @ bytes\<rparr>) else Err Out_of_bounds)"

text \<open>\<open>filter_data_\<close> when the size of the incomplete packet is known: complete it, and go on with what is
  left.\<close>

definition fill_uncomplete :: "pqueue option \<Rightarrow> int \<Rightarrow> uncomplete \<Rightarrow> byte list \<Rightarrow> (np_result \<times> pqueue option) res" where
  "fill_uncomplete L fd uc buffer =
     (let need = int (uc_size uc) - uc_read uc in
      if int (length buffer) < need then
        res_bind (uc_copy uc buffer) (\<lambda>uc1.
        Ok (R_none, map_option (save_uncomplete (uc1\<lparr>uc_read := uc_read uc1 + int (length buffer)\<rparr>)) L))
      else
        res_bind (uc_copy uc (take (nat need) buffer)) (\<lambda>uc1.
        let rest = drop (nat need) buffer in
        if rest = [] then Ok (R_data fd (uc_buffer uc1), L)
        else
          res_bind (push_data \<lparr>np_id = fd, np_data = uc_buffer uc1\<rparr> (get_queue L)) (\<lambda>q1.
          res_bind (push_more fd rest q1) (\<lambda>q2. Ok (R_more, Some q2)))))"

definition filter_data1 :: "pqueue option \<Rightarrow> int \<Rightarrow> byte list \<Rightarrow> (np_result \<times> pqueue option) res" where
  "filter_data1 L fd buffer =
     (case find_uncomplete L fd of
        (Some uc, L1) \<Rightarrow>
          (if uc_read uc < 0 then
             res_bind (res_assert (uc_read uc = -1)) (\<lambda>_.
             case buffer of
               [] \<Rightarrow> Err Out_of_bounds
             | b # rest \<Rightarrow>
                 fill_uncomplete L1 fd (uc\<lparr>uc_size := unat b + uc_header uc * 256, uc_buffer := [], uc_read := 0\<rparr>) rest)
           else fill_uncomplete L1 fd uc buffer)
      | (None, L1) \<Rightarrow>
          if buffer = [] then Err Out_of_bounds
          else if length buffer = 1 then
            Ok (R_none, Some (save_uncomplete
              \<lparr>uc_id = fd, uc_size = 0, uc_buffer = [], uc_read = -1, uc_header = unat (buffer ! 0)\<rparr> (get_queue L1)))
          else
            let pack_size = read_size buffer; rest = drop 2 buffer in
            if length rest < pack_size then
              Ok (R_none, Some (save_uncomplete
                \<lparr>uc_id = fd, uc_size = pack_size, uc_buffer = rest, uc_read = int (length rest), uc_header = 0\<rparr> (get_queue L1)))
            else if length rest = pack_size then Ok (R_data fd rest, L1)
            else
              res_bind (push_data \<lparr>np_id = fd, np_data = take pack_size rest\<rparr> (get_queue L1)) (\<lambda>q1.
              res_bind (push_more fd (drop pack_size rest) q1) (\<lambda>q2. Ok (R_more, Some q2))))"

definition filter_data :: "pqueue option \<Rightarrow> int \<Rightarrow> byte list \<Rightarrow> (np_result \<times> pqueue option) res" where
  "filter_data L fd buffer = filter_data1 L fd buffer"

text \<open>\<open>lfilter\<close>: \<open>buffer\<close> is \<open>None\<close> when the pointer is NULL, then \<open>tl\<close> is the text after the message.\<close>

definition lfilter :: "pqueue option \<Rightarrow> int \<Rightarrow> int \<Rightarrow> int \<Rightarrow> byte list option \<Rightarrow> string \<Rightarrow> (np_result \<times> pqueue option) res" where
  "lfilter L type fd ud buffer tail_text =
     (if type = 1 then
        (case buffer of Some b \<Rightarrow> filter_data L fd b | None \<Rightarrow> Err Assert_fail)
      else if type = 2 then Ok (R_none, L)
      else if type = 3 then Ok (R_close fd, close_uncomplete L fd)
      else if type = 4 then Ok (R_open ud tail_text, L)
      else if type = 5 then Ok (R_error fd tail_text, close_uncomplete L fd)
      else if type = 7 then Ok (R_warning fd ud, L)
      else Ok (R_none, L))"

definition lpop :: "pqueue \<Rightarrow> (netpack option \<times> pqueue) res" where
  "lpop q =
     (if q_head q = q_tail q then Ok (None, q)
      else if q_head q < length (q_cells q) then
        (case q_cells q ! q_head q of
           None \<Rightarrow> Err Uninit_read
         | Some np \<Rightarrow> Ok (Some np, q\<lparr>q_head := (if q_head q + 1 \<ge> q_cap q then 0 else q_head q + 1)\<rparr>))
      else Err Out_of_bounds)"

definition write_size :: "nat \<Rightarrow> byte list" where
  "write_size len = [of_nat (len div 256), of_nat len]"

text \<open>\<open>lpack\<close>: \<open>None\<close> for the Lua error.\<close>

definition lpack :: "byte list \<Rightarrow> byte list option" where
  "lpack ptr = (if length ptr \<ge> 0x10000 then None else Some (write_size (length ptr) @ ptr))"

definition ltostring :: "byte list option \<Rightarrow> byte list" where
  "ltostring ptr = (case ptr of None \<Rightarrow> [] | Some b \<Rightarrow> b)"

section \<open>The ring of packets\<close>

definition q_inv :: "pqueue \<Rightarrow> bool" where
  "q_inv q \<longleftrightarrow>
     q_cap q = length (q_cells q) \<and> q_head q < q_cap q \<and> q_tail q < q_cap q \<and>
     (\<forall>c \<in> set (ring_list (q_cells q) (q_head q) (ring_len (q_cap q) (q_head q) (q_tail q))). c \<noteq> None)"

definition q_items :: "pqueue \<Rightarrow> netpack list" where
  "q_items q = map the (ring_list (q_cells q) (q_head q) (ring_len (q_cap q) (q_head q) (q_tail q)))"

lemma push_data_ok:
  assumes inv: "q_inv q"
  shows "\<exists>q'. push_data np q = Ok q' \<and> q_inv q' \<and> q_items q' = q_items q @ [np] \<and> q_hash q' = q_hash q"
proof -
  let ?c = "q_cap q" and ?h = "q_head q" and ?t = "q_tail q" and ?b = "q_cells q"
  let ?n = "ring_len ?c ?h ?t"
  define q1 where "q1 = q\<lparr>q_cells := ?b[?t := Some np], q_tail := Suc ?t mod ?c\<rparr>"
  have len: "length ?b = ?c" "?h < ?c" "?t < ?c" and live: "\<forall>c \<in> set (ring_list ?b ?h ?n). c \<noteq> None"
    using inv by (auto simp: q_inv_def)
  have store: "push_data np q = Ok (if ?h = Suc ?t mod ?c then np_expand_queue q1 else q1)"
    unfolding push_data_def Let_def wrap_diff [OF len(3)] q1_def using len by simp
  have ring: "ring_list (?b[?t := Some np]) ?h (Suc ?n) = ring_list ?b ?h ?n @ [Some np]"
    using ring_list_snoc [of ?n ?b ?h "Some np"] ring_len_less ring_len_tail len by simp
  have wrap: "Suc ?t mod ?c < ?c" using len(3) by (intro mod_less_divisor) linarith
  show ?thesis
  proof (cases "Suc ?t mod ?c = ?h")
    case False
    have n: "ring_len ?c ?h (Suc ?t mod ?c) = Suc ?n" using ring_len_push [OF len(2,3) False] .
    have "q_inv q1" "q_items q1 = q_items q @ [np]"
      using len live ring n wrap by (auto simp: q_inv_def q_items_def q1_def)
    with False store show ?thesis by (auto simp: q1_def)
  next
    case True
    have n: "Suc ?n = ?c" using ring_len_full [OF len(2,3) True] .
    let ?new = "map (\<lambda>i. ?b[?t := Some np] ! ((?h + i) mod ?c)) [0..<?c]"
    have new: "?new = ring_list ?b ?h ?n @ [Some np]" using ring n len(1) by (simp add: ring_list_def)
    have unroll: "ring_list (?new @ replicate QUEUESIZE None) 0 ?c = ?new" by (rule ring_list_unroll) simp_all
    define q2 where "q2 = np_expand_queue q1"
    have q2: "q_cells q2 = ?new @ replicate QUEUESIZE None" "q_head q2 = 0" "q_tail q2 = ?c"
        "q_cap q2 = ?c + QUEUESIZE" "q_hash q2 = q_hash q"
      by (simp_all add: q2_def np_expand_queue_def q1_def)
    have n2: "ring_len (?c + QUEUESIZE) 0 ?c = ?c" by (simp add: ring_len_def)
    have "q_inv q2" "q_items q2 = q_items q @ [np]"
      unfolding q_inv_def q_items_def q2 n2 unroll using len live n by (auto simp: new QUEUESIZE_def)
    with True store q2 show ?thesis by (auto simp: q2_def)
  qed
qed

lemma lpop_empty: "q_inv q \<Longrightarrow> q_items q = [] \<Longrightarrow> lpop q = Ok (None, q)"
proof -
  assume q: "q_inv q" "q_items q = []"
  then have "length (q_items q) = 0" by simp
  then have "q_head q = q_tail q" using q(1) by (simp add: q_items_def q_inv_def)
  then show ?thesis by (simp add: lpop_def)
qed

lemma lpop_cons:
  assumes inv: "q_inv q" and items: "q_items q = np # nps"
  shows "\<exists>q'. lpop q = Ok (Some np, q') \<and> q_inv q' \<and> q_items q' = nps \<and> q_hash q' = q_hash q"
proof -
  let ?c = "q_cap q" and ?h = "q_head q" and ?t = "q_tail q" and ?b = "q_cells q"
  let ?h' = "Suc ?h mod ?c"
  have len: "length ?b = ?c" "?h < ?c" "?t < ?c" using inv by (auto simp: q_inv_def)
  have "length (q_items q) \<noteq> 0" using items by simp
  then have ne: "?h \<noteq> ?t" using len by (auto simp: q_items_def)
  have n: "ring_len ?c ?h ?t = Suc (ring_len ?c ?h' ?t)" using ring_len_pop [OF len(2,3) ne] .
  have ring: "ring_list ?b ?h (ring_len ?c ?h ?t) = ?b ! ?h # ring_list ?b ?h' (ring_len ?c ?h' ?t)"
    using ring_list_front [of ?h ?b] len n by simp
  have cells: "?b ! ?h \<noteq> None" "\<forall>c \<in> set (ring_list ?b ?h' (ring_len ?c ?h' ?t)). c \<noteq> None"
    using inv ring by (auto simp: q_inv_def)
  have m: "?b ! ?h = Some np" "nps = map the (ring_list ?b ?h' (ring_len ?c ?h' ?t))"
    using items cells(1) by (auto simp: q_items_def ring)
  have "lpop q = Ok (Some np, q\<lparr>q_head := ?h'\<rparr>)"
    unfolding lpop_def wrap_Suc [OF len(2)] using ne len m by simp
  moreover have "?h' < ?c" using len(2) by (intro mod_less_divisor) linarith
  ultimately show ?thesis using len cells(2) by (auto simp: q_inv_def q_items_def m)
qed

interpretation npq: fifo q_inv q_items push_data lpop
  by unfold_locales (use push_data_ok lpop_empty lpop_cons in fastforce)+

section \<open>The table of incomplete packets\<close>

definition uc_wf :: "uncomplete \<Rightarrow> bool" where
  "uc_wf uc \<longleftrightarrow>
     (uc_read uc = -1 \<and> uc_header uc < 256) \<or>
     (uc_read uc = int (length (uc_buffer uc)) \<and> length (uc_buffer uc) < uc_size uc \<and> uc_size uc < 0x10000)"

definition table_inv :: "pqueue \<Rightarrow> bool" where
  "table_inv q \<longleftrightarrow> (\<forall>h. distinct (map uc_id (q_hash q h)) \<and> (\<forall>uc \<in> set (q_hash q h). hash_fd (uc_id uc) = h \<and> uc_wf uc))"

definition uc_of :: "pqueue \<Rightarrow> int \<Rightarrow> uncomplete option" where
  "uc_of q fd = find (\<lambda>uc. uc_id uc = fd) (q_hash q (hash_fd fd))"

lemma unlink_uc_find: "fst (unlink_uc fd chain) = find (\<lambda>uc. uc_id uc = fd) chain"
  by (induction chain) (auto split: prod.splits)

lemma unlink_uc_rest:
  "distinct (map uc_id chain) \<Longrightarrow> snd (unlink_uc fd chain) = filter (\<lambda>uc. uc_id uc \<noteq> fd) chain"
proof (induction chain)
  case (Cons uc chain)
  have "filter (\<lambda>u. uc_id u \<noteq> uc_id uc) chain = chain" using Cons.prems by (intro filter_True ballI) (metis distinct.simps(2) image_eqI list.simps(9) set_map)
  then show ?case using Cons by (cases "unlink_uc fd chain") auto
qed simp

lemma find_filter_other: "fd' \<noteq> fd \<Longrightarrow>
    find (\<lambda>uc. uc_id uc = fd') (filter (\<lambda>uc. uc_id uc \<noteq> fd) chain) = find (\<lambda>uc. uc_id uc = fd') chain"
  by (induction chain) auto

lemma find_uncomplete_ok:
  assumes "table_inv q"
  shows "\<exists>q'. find_uncomplete (Some q) fd = (uc_of q fd, Some q') \<and> table_inv q' \<and> uc_of q' = (uc_of q)(fd := None) \<and>
    q' = q\<lparr>q_hash := q_hash q'\<rparr>"
proof -
  let ?h = "hash_fd fd" and ?chain = "filter (\<lambda>uc. uc_id uc \<noteq> fd) (q_hash q (hash_fd fd))"
  let ?q = "q\<lparr>q_hash := (q_hash q)(?h := ?chain)\<rparr>"
  have dist: "distinct (map uc_id (q_hash q ?h))" using assms by (simp add: table_inv_def)
  have ul: "unlink_uc fd (q_hash q ?h) = (uc_of q fd, ?chain)"
    using unlink_uc_find [of fd "q_hash q ?h"] unlink_uc_rest [OF dist] by (simp add: uc_of_def prod_eq_iff)
  have t: "table_inv ?q" using assms by (auto simp: table_inv_def distinct_map_filter)
  have u: "uc_of ?q = (uc_of q)(fd := None)"
  proof
    fix fd'
    show "uc_of ?q fd' = ((uc_of q)(fd := None)) fd'"
      by (cases "fd' = fd") (auto simp: uc_of_def find_None_iff find_filter_other)
  qed
  show ?thesis
  proof (cases "uc_of q fd")
    case None
    then have "(uc_of q)(fd := None) = uc_of q" by auto
    then show ?thesis using None assms ul by (auto simp: find_uncomplete_def)
  next
    case (Some uc)
    then show ?thesis using ul t u by (auto simp: find_uncomplete_def)
  qed
qed

lemma save_uncomplete_ok:
  assumes "table_inv q" "uc_of q (uc_id uc) = None" "uc_wf uc"
  shows "table_inv (save_uncomplete uc q) \<and> uc_of (save_uncomplete uc q) = (uc_of q)(uc_id uc \<mapsto> uc) \<and>
    q_items (save_uncomplete uc q) = q_items q \<and> q_inv (save_uncomplete uc q) = q_inv q"
proof -
  have "uc_id uc \<notin> uc_id ` set (q_hash q (hash_fd (uc_id uc)))"
    using assms(2) by (auto simp: uc_of_def find_None_iff)
  then show ?thesis using assms(1,3)
    by (auto simp: table_inv_def save_uncomplete_def Let_def uc_of_def fun_eq_iff q_items_def q_inv_def)
qed

lemma uc_of_wf: "table_inv q \<Longrightarrow> uc_of q fd = Some uc \<Longrightarrow> uc_wf uc \<and> uc_id uc = fd"
  by (auto simp: uc_of_def find_Some_iff table_inv_def dest: nth_mem)

text \<open>The bytes that an incomplete packet stands for.\<close>

definition uc_bytes :: "uncomplete option \<Rightarrow> byte list" where
  "uc_bytes r =
     (case r of
        None \<Rightarrow> []
      | Some uc \<Rightarrow> if uc_read uc < 0 then [of_nat (uc_header uc)] else be_bytes 2 (uc_size uc) @ uc_buffer uc)"

lemma two_bytes: "be_nat [a, b] = unat a * 256 + unat b"
  by simp

lemma read_size_be:
  assumes "2 \<le> length bs"
  shows "read_size bs = be_nat (take 2 bs)" "be_bytes 2 (read_size bs) = take 2 bs" "read_size bs < 0x10000"
proof -
  obtain a b cs where bs: "bs = a # b # cs" using assms by (cases bs; cases "tl bs") auto
  then show 1: "read_size bs = be_nat (take 2 bs)" by (simp add: read_size_def)
  have l: "length (take 2 bs) = 2" using assms by simp
  show "be_bytes 2 (read_size bs) = take 2 bs" using be_bytes_nat [of "take 2 bs"] 1 l by simp
  show "read_size bs < 0x10000" using be_nat_less [of "take 2 bs"] 1 l by simp
qed

definition packs :: "int \<Rightarrow> byte list list \<Rightarrow> netpack list" where
  "packs fd ps = map (\<lambda>p. \<lparr>np_id = fd, np_data = p\<rparr>) ps"

lemma push_more_ok:
  assumes "q_inv q" "table_inv q" "uc_of q fd = None" "bs \<noteq> []"
  shows "\<exists>q' r. push_more fd bs q = Ok q' \<and> q_inv q' \<and> table_inv q' \<and>
    q_items q' = q_items q @ packs fd (fst (be_frames 2 bs)) \<and>
    uc_of q' = (uc_of q)(fd := r) \<and> uc_bytes r = snd (be_frames 2 bs)"
  using assms
proof (induction fd bs q rule: push_more.induct)
  case (1 fd bs q)
  have keep: "(uc_of q)(fd := None) = uc_of q" using "1.prems"(3) by auto
  consider "length bs = 1" | "2 \<le> length bs" "length (drop 2 bs) < read_size bs"
    | "2 \<le> length bs" "read_size bs \<le> length (drop 2 bs)" using "1.prems"(4) by (cases bs; cases "tl bs") force+
  then show ?case
  proof cases
    case 1
    let ?uc = "\<lparr>uc_id = fd, uc_size = 0, uc_buffer = [], uc_read = -1, uc_header = unat (bs ! 0)\<rparr>"
    have wf: "uc_wf ?uc" using unsigned_less [where 'a = nat and 'b = 8, of "bs ! 0"] by (simp add: uc_wf_def)
    have "bs = [bs ! 0]" using 1 by (cases bs) auto
    then have "uc_bytes (Some ?uc) = bs" by (simp add: uc_bytes_def)
    moreover have "push_more fd bs q = Ok (save_uncomplete ?uc q)" using 1 "1.prems"(4) by (subst push_more.simps) simp
    ultimately show ?thesis
      using save_uncomplete_ok [OF "1.prems"(2) _ wf] "1.prems"(1,3) 1
      by (intro exI [of _ "save_uncomplete ?uc q"] exI [of _ "Some ?uc"]) (simp add: be_frames_short packs_def)
  next
    case 2
    let ?uc = "\<lparr>uc_id = fd, uc_size = read_size bs, uc_buffer = drop 2 bs, uc_read = int (length (drop 2 bs)), uc_header = 0\<rparr>"
    have wf: "uc_wf ?uc" using 2 read_size_be(3) by (simp add: uc_wf_def)
    have "uc_bytes (Some ?uc) = bs" using read_size_be(2) [OF 2(1)] by (simp add: uc_bytes_def)
    moreover have "push_more fd bs q = Ok (save_uncomplete ?uc q)" using 2 by (subst push_more.simps) (auto simp: Let_def)
    moreover have "be_frames 2 bs = ([], bs)" using 2 read_size_be(1) [OF 2(1)] by (intro be_frames_partial) auto
    ultimately show ?thesis
      using save_uncomplete_ok [OF "1.prems"(2) _ wf] "1.prems"(1,3)
      by (intro exI [of _ "save_uncomplete ?uc q"] exI [of _ "Some ?uc"]) (simp add: packs_def)
  next
    case 3
    let ?n = "read_size bs" and ?rest = "drop 2 bs"
    obtain q1 where q1: "push_data \<lparr>np_id = fd, np_data = take ?n ?rest\<rparr> q = Ok q1" "q_inv q1"
        "q_items q1 = q_items q @ [\<lparr>np_id = fd, np_data = take ?n ?rest\<rparr>]" "q_hash q1 = q_hash q"
      using push_data_ok [OF "1.prems"(1)] by blast
    have t1: "table_inv q1" "uc_of q1 = uc_of q" using "1.prems"(2) q1(4) by (auto simp: table_inv_def uc_of_def fun_eq_iff)
    have cut: "bs = take 2 bs @ take ?n ?rest @ drop ?n ?rest" by (simp only: append_take_drop_id)
    have fr: "be_frames 2 bs = (take ?n ?rest # fst (be_frames 2 (drop ?n ?rest)), snd (be_frames 2 (drop ?n ?rest)))"
      by (subst cut, rule be_frames_step) (use 3 read_size_be(1) [OF 3(1)] in auto)
    show ?thesis
    proof (cases "drop ?n ?rest = []")
      case True
      then have "push_more fd bs q = Ok q1" using 3 q1(1) by (subst push_more.simps) (auto simp: Let_def)
      then show ?thesis using q1 t1 fr True keep
        by (intro exI [of _ q1] exI [of _ None]) (simp add: packs_def uc_bytes_def be_frames_short)
    next
      case False
      then have run: "push_more fd bs q = push_more fd (drop ?n ?rest) q1"
        using 3 q1(1) by (subst push_more.simps) (auto simp: Let_def)
      have "\<exists>q' r. push_more fd (drop ?n ?rest) q1 = Ok q' \<and> q_inv q' \<and> table_inv q' \<and>
          q_items q' = q_items q1 @ packs fd (fst (be_frames 2 (drop ?n ?rest))) \<and>
          uc_of q' = (uc_of q1)(fd := r) \<and> uc_bytes r = snd (be_frames 2 (drop ?n ?rest))"
        by (rule "1.IH") (use 3 False "1.prems" q1 t1 in auto)
      then obtain q' r where "push_more fd (drop ?n ?rest) q1 = Ok q'" "q_inv q'" "table_inv q'"
          "q_items q' = q_items q1 @ packs fd (fst (be_frames 2 (drop ?n ?rest)))" "uc_of q' = (uc_of q1)(fd := r)"
          "uc_bytes r = snd (be_frames 2 (drop ?n ?rest))" by blast
      then show ?thesis using run q1(3) t1(2) fr by (intro exI [of _ q'] exI [of _ r]) (simp add: packs_def)
    qed
  qed
qed

section \<open>Each connection decodes its stream\<close>

definition np_inv :: "pqueue option \<Rightarrow> bool" where
  "np_inv L \<longleftrightarrow> q_inv (get_queue L) \<and> table_inv (get_queue L)"

abbreviation np_uc :: "pqueue option \<Rightarrow> int \<Rightarrow> uncomplete option" where
  "np_uc L \<equiv> uc_of (get_queue L)"

text \<open>What a call delivers: the packet it returns, or the packets it adds to the ring.\<close>

definition np_delivers :: "int \<Rightarrow> np_result \<Rightarrow> byte list list \<Rightarrow> netpack list \<Rightarrow> netpack list \<Rightarrow> bool" where
  "np_delivers fd res ps items items' \<longleftrightarrow>
     (case res of
        R_none \<Rightarrow> ps = [] \<and> items' = items
      | R_data fd' p \<Rightarrow> fd' = fd \<and> ps = [p] \<and> items' = items
      | R_more \<Rightarrow> items' = items @ packs fd ps
      | _ \<Rightarrow> False)"

lemma empty_queue: "q_inv (get_queue None)" "table_inv (get_queue None)" "uc_of (get_queue None) = Map.empty"
    "q_items (get_queue None) = []"
  by (auto simp: get_queue_def q_inv_def table_inv_def uc_of_def q_items_def QUEUESIZE_def ring_len_def fun_eq_iff)

lemma find_get:
  assumes "np_inv L"
  obtains L1 where "find_uncomplete L fd = (np_uc L fd, L1)" "np_inv L1" "np_uc L1 = (np_uc L)(fd := None)"
    "q_items (get_queue L1) = q_items (get_queue L)" "np_uc L fd \<noteq> None \<Longrightarrow> L1 \<noteq> None"
proof (cases L)
  case None
  then show ?thesis using that [of None] assms empty_queue by (simp add: find_uncomplete_def)
next
  case (Some q)
  have inv: "table_inv q" "q_inv q" using assms Some by (simp_all add: np_inv_def get_queue_def)
  obtain q' where q': "find_uncomplete (Some q) fd = (uc_of q fd, Some q')" "table_inv q'" "uc_of q' = (uc_of q)(fd := None)"
      "q' = q\<lparr>q_hash := q_hash q'\<rparr>"
    using find_uncomplete_ok [OF inv(1)] by blast
  have "q_inv q'" "q_items q' = q_items q" using inv(2) by (subst q'(4), simp add: q_inv_def q_items_def)+
  then show ?thesis using that [of "Some q'"] q' Some by (simp add: np_inv_def get_queue_def)
qed

lemma fill_ok:
  assumes inv: "np_inv L" "L \<noteq> None" "np_uc L fd = None"
    and uc: "uc_id uc = fd" "uc_read uc = int (length (uc_buffer uc))" "length (uc_buffer uc) \<le> uc_size uc" "uc_size uc < 0x10000"
  shows "\<exists>res L' r. fill_uncomplete L fd uc bs = Ok (res, L') \<and> np_inv L' \<and> np_uc L' = (np_uc L)(fd := r) \<and>
    uc_bytes r = snd (be_frames 2 (be_bytes 2 (uc_size uc) @ uc_buffer uc @ bs)) \<and>
    np_delivers fd res (fst (be_frames 2 (be_bytes 2 (uc_size uc) @ uc_buffer uc @ bs)))
      (q_items (get_queue L)) (q_items (get_queue L'))"
proof -
  obtain q where L: "L = Some q" using inv(2) by blast
  then have q: "q_inv q" "table_inv q" "uc_of q fd = None" using inv by (simp_all add: np_inv_def get_queue_def)
  let ?n = "uc_size uc - length (uc_buffer uc)"
  have val: "be_nat (be_bytes 2 (uc_size uc)) = uc_size uc" using uc(4) by (simp add: be_nat_bytes)
  show ?thesis
  proof (cases "length bs < ?n")
    case True
    let ?uc = "uc\<lparr>uc_buffer := uc_buffer uc @ bs, uc_read := uc_read uc + int (length bs)\<rparr>"
    have wf: "uc_wf ?uc" using uc True by (auto simp: uc_wf_def)
    have "fill_uncomplete L fd uc bs = Ok (R_none, Some (save_uncomplete ?uc q))"
      using True uc L by (auto simp: fill_uncomplete_def uc_copy_def Let_def)
    moreover have "be_frames 2 (be_bytes 2 (uc_size uc) @ uc_buffer uc @ bs) = ([], be_bytes 2 (uc_size uc) @ uc_buffer uc @ bs)"
      using True val by (intro be_frames_partial) auto
    moreover have "uc_bytes (Some ?uc) = be_bytes 2 (uc_size uc) @ uc_buffer uc @ bs" using uc by (simp add: uc_bytes_def)
    ultimately show ?thesis using save_uncomplete_ok [OF q(2) _ wf] q uc(1) L
      by (intro exI [of _ R_none] exI [of _ "Some (save_uncomplete ?uc q)"] exI [of _ "Some ?uc"])
        (simp add: np_inv_def np_delivers_def get_queue_def)
  next
    case False
    let ?p = "uc_buffer uc @ take ?n bs" and ?rest = "drop ?n bs"
    have p: "length ?p = be_nat (be_bytes 2 (uc_size uc))" using val False uc(3) by simp
    have fr: "be_frames 2 (be_bytes 2 (uc_size uc) @ uc_buffer uc @ bs) =
        (?p # fst (be_frames 2 ?rest), snd (be_frames 2 ?rest))"
      using be_frames_step [of 2 "be_bytes 2 (uc_size uc)" ?p ?rest] p by simp
    have need: "nat (int (uc_size uc) - uc_read uc) = ?n" "\<not> int (length bs) < int (uc_size uc) - uc_read uc"
      using uc False by auto
    have copy: "uc_copy uc (take ?n bs) = Ok (uc\<lparr>uc_buffer := ?p\<rparr>)" using uc(2,3) False by (simp add: uc_copy_def)
    show ?thesis
    proof (cases "?rest = []")
      case True
      have "fill_uncomplete L fd uc bs = Ok (R_data fd ?p, L)"
        using need copy True by (simp add: fill_uncomplete_def Let_def)
      moreover have "(np_uc L)(fd := None) = np_uc L" using inv(3) by auto
      ultimately show ?thesis using fr True inv
        by (intro exI [of _ "R_data fd ?p"] exI [of _ L] exI [of _ None])
          (simp add: np_delivers_def uc_bytes_def be_frames_short)
    next
      case more: False
      obtain q1 where q1: "push_data \<lparr>np_id = fd, np_data = ?p\<rparr> q = Ok q1" "q_inv q1"
          "q_items q1 = q_items q @ [\<lparr>np_id = fd, np_data = ?p\<rparr>]" "q_hash q1 = q_hash q"
        using push_data_ok [OF q(1)] by blast
      have t1: "table_inv q1" "uc_of q1 = uc_of q" using q(2) q1(4) by (auto simp: table_inv_def uc_of_def fun_eq_iff)
      obtain q2 r where q2: "push_more fd ?rest q1 = Ok q2" "q_inv q2" "table_inv q2"
          "q_items q2 = q_items q1 @ packs fd (fst (be_frames 2 ?rest))" "uc_of q2 = (uc_of q1)(fd := r)"
          "uc_bytes r = snd (be_frames 2 ?rest)"
        using push_more_ok [OF q1(2) t1(1), of fd ?rest] t1(2) q(3) more by auto
      have "fill_uncomplete L fd uc bs = Ok (R_more, Some q2)"
        using need copy more q1(1) q2(1) L by (simp add: fill_uncomplete_def Let_def get_queue_def)
      then show ?thesis using fr q1(3) q2(2-) t1(2) L
        by (intro exI [of _ R_more] exI [of _ "Some q2"] exI [of _ r])
          (simp add: np_delivers_def np_inv_def get_queue_def packs_def)
    qed
  qed
qed

lemma filter_data_ok:
  assumes inv: "np_inv L" and bs: "bs \<noteq> []"
  shows "\<exists>res L' r. filter_data L fd bs = Ok (res, L') \<and> np_inv L' \<and> np_uc L' = (np_uc L)(fd := r) \<and>
    uc_bytes r = snd (be_frames 2 (uc_bytes (np_uc L fd) @ bs)) \<and>
    np_delivers fd res (fst (be_frames 2 (uc_bytes (np_uc L fd) @ bs))) (q_items (get_queue L)) (q_items (get_queue L'))"
proof -
  obtain L1 where L1: "find_uncomplete L fd = (np_uc L fd, L1)" "np_inv L1" "np_uc L1 = (np_uc L)(fd := None)"
      "q_items (get_queue L1) = q_items (get_queue L)" "np_uc L fd \<noteq> None \<Longrightarrow> L1 \<noteq> None"
    using find_get [OF inv] by metis
  then have none: "np_uc L1 fd = None" by simp
  show ?thesis
  proof (cases "np_uc L fd")
    case (Some uc)
    have wf: "uc_wf uc" "uc_id uc = fd" using uc_of_wf [OF _ Some] inv by (simp_all add: np_inv_def)
    show ?thesis
    proof (cases "uc_read uc < 0")
      case True
      then have h: "uc_read uc = -1" "uc_header uc < 256" using wf(1) by (auto simp: uc_wf_def)
      obtain b rest where b: "bs = b # rest" using bs by (cases bs) auto
      let ?uc = "uc\<lparr>uc_size := unat b + uc_header uc * 256, uc_buffer := [], uc_read := 0\<rparr>"
      have hd: "be_nat [of_nat (uc_header uc), b] = uc_size ?uc" using h(2) by (simp add: unat_of_nat)
      have "be_bytes 2 (uc_size ?uc) = [of_nat (uc_header uc), b]"
        using be_bytes_nat [of "[of_nat (uc_header uc), b]"] unfolding hd by (simp add: numeral_2_eq_2)
      then have bytes: "be_bytes 2 (uc_size ?uc) @ uc_buffer ?uc @ rest = uc_bytes (np_uc L fd) @ bs"
        using True b Some by (simp add: uc_bytes_def)
      have "filter_data L fd bs = fill_uncomplete L1 fd ?uc rest"
        using True h(1) b L1(1) Some by (simp add: filter_data_def filter_data1_def)
      moreover have "uc_size ?uc < 0x10000" using h(2) unsigned_less [where 'a = nat and 'b = 8, of b] by simp
      ultimately show ?thesis
        using fill_ok [OF L1(2) L1(5) none, of ?uc rest] Some wf(2) L1(3,4) unfolding bytes by simp
    next
      case False
      then have h: "uc_read uc = int (length (uc_buffer uc))" "length (uc_buffer uc) \<le> uc_size uc" "uc_size uc < 0x10000"
        using wf(1) by (auto simp: uc_wf_def)
      have bytes: "be_bytes 2 (uc_size uc) @ uc_buffer uc @ bs = uc_bytes (np_uc L fd) @ bs"
        using False Some by (simp add: uc_bytes_def)
      have "filter_data L fd bs = fill_uncomplete L1 fd uc bs"
        using False L1(1) Some by (simp add: filter_data_def filter_data1_def)
      then show ?thesis
        using fill_ok [OF L1(2) L1(5) none wf(2) h, of bs] Some L1(3,4) unfolding bytes by simp
    qed
  next
    case None
    then have pend: "uc_bytes (np_uc L fd) @ bs = bs" by (simp add: uc_bytes_def)
    have same: "np_uc L1 = np_uc L" "(np_uc L)(fd := None) = np_uc L" using L1(3) None by auto
    have q: "q_inv (get_queue L1)" "table_inv (get_queue L1)" using L1(2) by (simp_all add: np_inv_def)
    obtain q' r where q': "push_more fd bs (get_queue L1) = Ok q'" "q_inv q'" "table_inv q'"
        "q_items q' = q_items (get_queue L1) @ packs fd (fst (be_frames 2 bs))" "uc_of q' = (np_uc L1)(fd := r)"
        "uc_bytes r = snd (be_frames 2 bs)"
      using push_more_ok [OF q none bs] by blast
    have g: "get_queue (Some q') = q'" by (simp add: get_queue_def)
    consider "length bs = 1 \<or> 2 \<le> length bs \<and> length (drop 2 bs) < read_size bs"
      | "2 \<le> length bs" "length (drop 2 bs) = read_size bs" | "2 \<le> length bs" "read_size bs < length (drop 2 bs)"
      using bs by (cases bs; cases "tl bs") force+
    then show ?thesis
    proof cases
      case 1
      then have "filter_data L fd bs = Ok (R_none, Some q')"
        using q'(1) bs L1(1) None by (subst (asm) push_more.simps) (auto simp: filter_data_def filter_data1_def Let_def)
      moreover have "fst (be_frames 2 bs) = []"
        using 1 read_size_be(1) by (auto simp: be_frames_short be_frames_partial)
      ultimately show ?thesis unfolding pend using q'(2-)
        by (intro exI [of _ R_none] exI [of _ "Some q'"] exI [of _ r])
          (simp add: np_delivers_def np_inv_def g packs_def same L1(4))
    next
      case 2
      have "filter_data L fd bs = Ok (R_data fd (drop 2 bs), L1)"
        using 2 bs L1(1) None by (auto simp: filter_data_def filter_data1_def Let_def)
      moreover have "be_frames 2 (take 2 bs @ drop 2 bs @ []) = ([drop 2 bs], [])"
        by (subst be_frames_step) (use 2 read_size_be(1) [OF 2(1)] in \<open>auto simp: be_frames_short\<close>)
      ultimately show ?thesis unfolding pend using L1(2,4) same
        by (intro exI [of _ "R_data fd (drop 2 bs)"] exI [of _ L1] exI [of _ None])
          (simp add: np_delivers_def uc_bytes_def)
    next
      case 3
      then have "filter_data L fd bs = Ok (R_more, Some q')"
        using q'(1) bs L1(1) None by (subst (asm) push_more.simps) (auto simp: filter_data_def filter_data1_def Let_def split: if_splits)
      then show ?thesis unfolding pend using q'(2-)
        by (intro exI [of _ R_more] exI [of _ "Some q'"] exI [of _ r])
          (simp add: np_delivers_def np_inv_def g same L1(4))
    qed
  qed
qed

text \<open>A client that takes the packet that \<open>filter\<close> returns, or pops until the ring is empty.\<close>

partial_function (option) np_drain :: "pqueue \<Rightarrow> (netpack list \<times> pqueue) res option" where
  "np_drain q =
     (case lpop q of
        Err e \<Rightarrow> Some (Err e)
      | Ok (None, q1) \<Rightarrow> Some (Ok ([], q1))
      | Ok (Some np, q1) \<Rightarrow> Option.bind (np_drain q1) (\<lambda>r. Some (res_bind r (\<lambda>(nps, q2). Ok (np # nps, q2)))))"

declare np_drain.simps [code]

text \<open>What the socket thread reports is never empty, so an empty piece is not given to \<open>filter_data\<close>.\<close>

definition np_feed :: "int \<Rightarrow> byte list \<Rightarrow> pqueue option \<Rightarrow> (netpack list \<times> pqueue option) res" where
  "np_feed fd bs L =
     (if bs = [] then Ok ([], L)
      else res_bind (filter_data L fd bs) (\<lambda>(res, L1).
        case res of
          R_data fd' p \<Rightarrow> Ok ([\<lparr>np_id = fd', np_data = p\<rparr>], L1)
        | R_more \<Rightarrow>
            (case np_drain (get_queue L1) of
               None \<Rightarrow> Err Diverge
             | Some r \<Rightarrow> res_bind r (\<lambda>(nps, q). Ok (nps, Some q)))
        | _ \<Rightarrow> Ok ([], L1)))"

lemma np_drain_ok:
  "q_inv q \<Longrightarrow> \<exists>q'. np_drain q = Some (Ok (q_items q, q')) \<and> q_inv q' \<and> q_items q' = [] \<and> q_hash q' = q_hash q"
proof (induction "q_items q" arbitrary: q)
  case Nil
  then show ?case using lpop_empty by (subst np_drain.simps) simp
next
  case (Cons np nps)
  obtain q1 where q1: "lpop q = Ok (Some np, q1)" "q_inv q1" "q_items q1 = nps" "q_hash q1 = q_hash q"
    using lpop_cons [OF Cons.prems] Cons.hyps(2) by metis
  obtain q' where "np_drain q1 = Some (Ok (q_items q1, q'))" "q_inv q'" "q_items q' = []" "q_hash q' = q_hash q"
    using Cons.hyps(1) [of q1] q1 by auto
  then show ?case using q1 Cons.hyps(2) [symmetric] by (subst np_drain.simps) simp
qed

definition np_rx_inv :: "pqueue option \<Rightarrow> bool" where
  "np_rx_inv L \<longleftrightarrow> np_inv L \<and> q_items (get_queue L) = []"

definition np_pending :: "int \<Rightarrow> pqueue option \<Rightarrow> byte list" where
  "np_pending fd L = uc_bytes (np_uc L fd)"

definition np_cut :: "int \<Rightarrow> byte list \<Rightarrow> netpack list \<times> byte list" where
  "np_cut fd bs = (packs fd (fst (be_frames 2 bs)), snd (be_frames 2 bs))"

lemma uc_bytes_pending: "table_inv q \<Longrightarrow> be_frames 2 (uc_bytes (uc_of q fd)) = ([], uc_bytes (uc_of q fd))"
proof (cases "uc_of q fd")
  case (Some uc)
  assume "table_inv q"
  then have wf: "uc_wf uc" using uc_of_wf Some by blast
  show ?thesis
  proof (cases "uc_read uc < 0")
    case True
    then show ?thesis using Some by (simp add: uc_bytes_def be_frames_short)
  next
    case False
    then have "length (uc_buffer uc) < uc_size uc" "uc_size uc < 0x10000" using wf by (auto simp: uc_wf_def)
    then show ?thesis using Some False by (simp add: uc_bytes_def be_frames_partial be_nat_bytes)
  qed
qed (simp add: uc_bytes_def be_frames_short)

lemma np_feed_ok:
  assumes "np_rx_inv L"
  shows "\<exists>L'. np_feed fd bs L = Ok (fst (np_cut fd (np_pending fd L @ bs)), L') \<and> np_rx_inv L' \<and>
    np_pending fd L' = snd (np_cut fd (np_pending fd L @ bs)) \<and> (\<forall>fd'. fd' \<noteq> fd \<longrightarrow> np_pending fd' L' = np_pending fd' L)"
proof (cases "bs = []")
  case True
  then show ?thesis using assms uc_bytes_pending [of "get_queue L" fd]
    by (simp add: np_feed_def np_cut_def packs_def np_pending_def np_rx_inv_def np_inv_def)
next
  case False
  have inv: "np_inv L" "q_items (get_queue L) = []" using assms by (simp_all add: np_rx_inv_def)
  obtain res L1 r where f: "filter_data L fd bs = Ok (res, L1)" "np_inv L1" "np_uc L1 = (np_uc L)(fd := r)"
      "uc_bytes r = snd (be_frames 2 (np_pending fd L @ bs))"
      "np_delivers fd res (fst (be_frames 2 (np_pending fd L @ bs))) [] (q_items (get_queue L1))"
    using filter_data_ok [OF inv(1) False, of fd] inv(2) by (auto simp: np_pending_def)
  have pend: "np_pending fd L1 = snd (be_frames 2 (np_pending fd L @ bs))" "\<forall>fd'. fd' \<noteq> fd \<longrightarrow> np_pending fd' L1 = np_pending fd' L"
    using f(3,4) by (simp_all add: np_pending_def)
  show ?thesis
  proof (cases "res = R_more")
    case True
    have q: "q_inv (get_queue L1)" "table_inv (get_queue L1)" using f(2) by (simp_all add: np_inv_def)
    obtain q' where q': "np_drain (get_queue L1) = Some (Ok (q_items (get_queue L1), q'))" "q_inv q'" "q_items q' = []"
        "q_hash q' = q_hash (get_queue L1)"
      using np_drain_ok [OF q(1)] by blast
    have "table_inv q'" "uc_of q' = np_uc L1" using q(2) q'(4) by (auto simp: table_inv_def uc_of_def fun_eq_iff)
    then have "np_rx_inv (Some q')" "np_uc (Some q') = np_uc L1" using q' by (simp_all add: np_rx_inv_def np_inv_def get_queue_def)
    moreover have "q_items (get_queue L1) = packs fd (fst (be_frames 2 (np_pending fd L @ bs)))"
      using f(5) True by (simp add: np_delivers_def)
    ultimately show ?thesis using f(1) True False q'(1) pend by (auto simp: np_feed_def np_cut_def np_pending_def)
  next
    case no: False
    then show ?thesis using f False pend
      by (auto simp: np_feed_def np_cut_def np_rx_inv_def np_delivers_def packs_def split: np_result.splits)
  qed
qed

interpretation np_rx: frame_decoder np_rx_inv "np_pending fd" "np_feed fd" "np_cut fd" "\<lambda>_. True" for fd
proof unfold_locales
  show "\<exists>s'. np_feed fd c s = Ok (fst (np_cut fd (np_pending fd s @ c)), s') \<and> np_rx_inv s' \<and>
      np_pending fd s' = snd (np_cut fd (np_pending fd s @ c))" if "np_rx_inv s" for s c
    using np_feed_ok [OF that] by blast
  show "np_cut fd (xs @ ys) = (fst (np_cut fd xs) @ fst (np_cut fd (snd (np_cut fd xs) @ ys)), snd (np_cut fd (snd (np_cut fd xs) @ ys)))" for xs ys
    using be_frames_append [of 2 xs ys] by (simp add: np_cut_def packs_def)
qed simp

section \<open>Properties\<close>

lemma np_start: "np_rx_inv None" "np_pending fd None = []"
  using empty_queue by (simp_all add: np_rx_inv_def np_inv_def np_pending_def uc_bytes_def)

lemma feed_stream: "\<exists>L. feed_all (np_feed fd) cs None = Ok (packs fd (fst (be_frames 2 (concat cs))), L)"
proof -
  have "np_cut fd [] = ([], [])" by (simp add: np_cut_def packs_def be_frames_short)
  then show ?thesis using np_rx.feed_pieces [OF np_start(1), of fd cs] by (auto simp: np_start np_cut_def)
qed

text \<open>C28: \<open>filter\<close> and \<open>pop\<close> recover the packets. A client that hands \<open>filter\<close> the data of a connection in
  any pieces, takes the packets it returns and pops the ring when told to, gets exactly the packets of
  the stream, in order, each once and with its socket; nothing fails, through every growth of the ring.\<close>

theorem netpack_stream:
  "\<exists>L. feed_all (np_feed fd) cs None = Ok (packs fd (fst (be_frames 2 (concat cs))), L)"
  by (rule feed_stream)

text \<open>Connections do not disturb each other: data of one socket leaves what is pending for every
  other socket as it was, whatever the hash table looks like.\<close>

lemma netpack_isolation:
  assumes "np_rx_inv L" and "fd' \<noteq> fd"
  shows "\<exists>out L'. np_feed fd bs L = Ok (out, L') \<and> np_rx_inv L' \<and> np_pending fd' L' = np_pending fd' L"
  using np_feed_ok [OF assms(1), of fd bs] assms(2) by blast

lemma netpack_isolation_witness:
  "\<exists>out L'. np_feed 5 [0, 2, 65] None = Ok (out, L') \<and> np_pending 4101 L' = []"
  using netpack_isolation [OF np_start(1), of 4101 5 "[0, 2, 65]"] np_start(2) by auto

text \<open>Packing and filtering are inverse. A payload shorter than 64K is packed, and a stream of packed
  payloads, cut anywhere, is filtered into the same payloads; a longer payload is refused.\<close>

lemma netpack_roundtrip:
  assumes "map lpack ps = map Some ws" and "concat cs = concat ws"
  shows "\<exists>L. feed_all (np_feed fd) cs None = Ok (packs fd ps, L)"
proof -
  have two: "be_bytes 2 v = [of_nat (v div 256), of_nat v]" for v by (simp add: numeral_2_eq_2)
  have sq: "(256::nat) ^ 2 = 0x10000" by simp
  have pack: "length p < 256 ^ 2 \<and> w = be_frame 2 p" if "lpack p = Some w" for p w
  proof -
    have "length p < 0x10000" "w = write_size (length p) @ p" using that by (simp_all add: lpack_def split: if_splits)
    then show ?thesis unfolding sq write_size_def be_frame_def two by blast
  qed
  have "ws = map (be_frame 2) ps \<and> (\<forall>p \<in> set ps. length p < 256 ^ 2)"
    using assms(1)
  proof (induction ps arbitrary: ws)
    case (Cons p ps)
    then obtain w ws' where "ws = w # ws'" "lpack p = Some w" "map lpack ps = map Some ws'" by (cases ws) auto
    then show ?case using Cons.IH [of ws'] pack [of p w] by simp
  qed simp
  then have "be_frames 2 (concat cs) = (ps, [])"
    using be_frames_encode [of 2 ps "[]"] assms(2) by (simp add: be_frames_short)
  then show ?thesis using feed_stream [of fd cs] by auto
qed

lemma netpack_roundtrip_witness:
  "\<exists>L. feed_all (np_feed 5) [[0], [1, 65, 0, 0, 0], [2, 66, 67]] None = Ok (packs 5 [[65], [], [66, 67]], L)"
  by (rule netpack_roundtrip [where ws = "[[0, 1, 65], [0, 0], [0, 2, 66, 67]]"]) (simp_all add: lpack_def write_size_def)

end
