(* ===== verification/Skynet_Lbuffer.thy ===== *)
theory Skynet_Lbuffer
  imports Skynet_Prelude
begin

text \<open>
  The receive buffers of the Lua socket library, \<open>lualib-src/lua-socket.c\<close>: chains of nodes that hold the blocks a socket has
  delivered. All buffers of a Lua state take their nodes from one pool, a table with the head of a list of free nodes and chunks of
  nodes that are never given back. A node is the index of its place in the chunks; the arguments have the types the functions check for.

  The theorem shows that the operations on any number of buffers behave as operations on byte strings: no node is ever in two
  chains.
\<close>

section \<open>Data\<close>

definition LARGE_PAGE_NODE :: nat where "LARGE_PAGE_NODE = 12"

record buffer_node =
  bn_msg :: "byte list option"
  bn_sz :: nat
  bn_next :: "nat option"

record socket_buffer =
  sb_size :: int
  sb_offset :: nat
  sb_head :: "nat option"
  sb_tail :: "nat option"

text \<open>The pool table: index 1 is the free list, \<open>pl_chunks\<close> are the sizes of the chunks at the indices from 2 on, \<open>pl_top\<close> is the number of
  nodes they have.\<close>

record buffer_pool =
  pl_node :: "nat \<Rightarrow> buffer_node"
  pl_free :: "nat option"
  pl_chunks :: "nat list"
  pl_top :: nat

definition set_node :: "nat \<Rightarrow> buffer_node \<Rightarrow> buffer_pool \<Rightarrow> buffer_pool" where
  "set_node k b p = p\<lparr>pl_node := (pl_node p)(k := b)\<rparr>"

section \<open>The pool\<close>

text \<open>The chunk that is made links its nodes in order; the first is at \<open>pl_top\<close>.\<close>

definition lnewpool :: "nat \<Rightarrow> buffer_pool \<Rightarrow> buffer_pool" where
  "lnewpool sz p =
     p\<lparr>pl_node := (\<lambda>k. if pl_top p \<le> k \<and> k < pl_top p + sz then
          \<lparr>bn_msg = None, bn_sz = 0, bn_next = (if k = pl_top p + sz - 1 then None else Some (Suc k))\<rparr> else pl_node p k),
       pl_chunks := pl_chunks p @ [sz], pl_top := pl_top p + sz\<rparr>"

text \<open>When the pool is collected, the blocks of its nodes are freed.\<close>

definition lfreepool :: "buffer_pool \<Rightarrow> buffer_pool" where
  "lfreepool p = p\<lparr>pl_node := (\<lambda>k. if k < pl_top p then (pl_node p k)\<lparr>bn_msg := None\<rparr> else pl_node p k)\<rparr>"

definition lnewbuffer :: socket_buffer where
  "lnewbuffer = \<lparr>sb_size = 0, sb_offset = 0, sb_head = None, sb_tail = None\<rparr>"

text \<open>The length of the table is one more than the number of chunks, or 0 before the first push.\<close>

definition chunk_size :: "buffer_pool \<Rightarrow> nat" where
  "chunk_size p =
     (let tsz = 1 + length (pl_chunks p) in
      if tsz \<le> LARGE_PAGE_NODE - 3 then push_bit tsz 8 else push_bit (LARGE_PAGE_NODE - 3) 8)"

definition take_free :: "buffer_pool \<Rightarrow> nat \<times> buffer_pool" where
  "take_free p =
     (case pl_free p of
        Some f \<Rightarrow> (f, p\<lparr>pl_free := bn_next (pl_node p f)\<rparr>)
      | None \<Rightarrow> let p1 = lnewpool (chunk_size p) p; f = pl_top p in (f, p1\<lparr>pl_free := bn_next (pl_node p1 f)\<rparr>))"

section \<open>Operations\<close>

definition lpushbuffer :: "byte list \<Rightarrow> buffer_pool \<times> socket_buffer \<Rightarrow> (int \<times> buffer_pool \<times> socket_buffer) res" where
  "lpushbuffer msg = (\<lambda>(p, sb).
     case take_free p of (f, p1) \<Rightarrow>
     let p2 = set_node f \<lparr>bn_msg = Some msg, bn_sz = length msg, bn_next = None\<rparr> p1;
         size = sb_size sb + int (length msg) in
     res_bind
       (case sb_head sb of
          None \<Rightarrow> res_bind (res_assert (sb_tail sb = None)) (\<lambda>_. Ok (p2, sb\<lparr>sb_head := Some f, sb_tail := Some f\<rparr>))
        | Some _ \<Rightarrow>
            (case sb_tail sb of
               None \<Rightarrow> Err Null_deref
             | Some t \<Rightarrow> Ok (set_node t ((pl_node p2 t)\<lparr>bn_next := Some f\<rparr>) p2, sb\<lparr>sb_tail := Some f\<rparr>)))
       (\<lambda>(p3, sb1). if size < 2 ^ 31 then Ok (size, p3, sb1\<lparr>sb_size := size\<rparr>) else Err Int_overflow))"

definition return_free_node :: "buffer_pool \<times> socket_buffer \<Rightarrow> (buffer_pool \<times> socket_buffer) res" where
  "return_free_node = (\<lambda>(p, sb).
     case sb_head sb of
       None \<Rightarrow> Err Null_deref
     | Some f \<Rightarrow>
         let nx = bn_next (pl_node p f) in
         Ok ((set_node f \<lparr>bn_msg = None, bn_sz = 0, bn_next = pl_free p\<rparr> p)\<lparr>pl_free := Some f\<rparr>,
             sb\<lparr>sb_offset := 0, sb_head := nx, sb_tail := (if nx = None then None else sb_tail sb)\<rparr>))"

text \<open>\<open>n\<close> bytes from an offset of the block of a node.\<close>

definition node_bytes :: "buffer_node \<Rightarrow> nat \<Rightarrow> nat \<Rightarrow> byte list res" where
  "node_bytes b from n =
     (case bn_msg b of
        None \<Rightarrow> Err Null_deref
      | Some m \<Rightarrow> if from + n \<le> length m then Ok (take n (drop from m)) else Err Out_of_bounds)"

text \<open>The loop of \<open>pop_lstring\<close>: \<open>acc\<close> is what the string buffer holds. The counts are not negative: \<open>skip\<close> is at most \<open>sz\<close> at the start, and
  the loop adds only what is left before the part to skip.\<close>

partial_function (option) pop_loop :: "nat \<Rightarrow> nat \<Rightarrow> byte list \<Rightarrow> buffer_pool \<times> socket_buffer \<Rightarrow> (byte list \<times> buffer_pool \<times> socket_buffer) res option" where
  "pop_loop sz skip acc w =
     (case sb_head (snd w) of
        None \<Rightarrow> Some (Err Assert_fail)
      | Some c \<Rightarrow>
          let b = pl_node (fst w) c; off = sb_offset (snd w); bytes = bn_sz b - off in
          if bn_sz b < off then Some (Err Out_of_bounds)
          else if sz \<le> bytes then
            Some (res_bind (node_bytes b off (sz - skip)) (\<lambda>s.
              let w1 = (fst w, (snd w)\<lparr>sb_offset := off + sz\<rparr>) in
              res_bind (if bytes = sz then return_free_node w1 else Ok w1) (\<lambda>w2. Ok (acc @ s, w2))))
          else
            (case res_bind (node_bytes b off (min (sz - skip) bytes)) (\<lambda>s. res_bind (return_free_node w) (\<lambda>w1. Ok (acc @ s, w1))) of
               Err e \<Rightarrow> Some (Err e)
             | Ok (acc1, w1) \<Rightarrow>
                 if sz - bytes = 0 then Some (Ok (acc1, w1)) else pop_loop (sz - bytes) skip acc1 w1))"

definition pop_lstring :: "nat \<Rightarrow> nat \<Rightarrow> buffer_pool \<times> socket_buffer \<Rightarrow> (byte list \<times> buffer_pool \<times> socket_buffer) res option" where
  "pop_lstring sz skip w =
     (case sb_head (snd w) of
        None \<Rightarrow> Some (Err Null_deref)
      | Some c \<Rightarrow>
          let b = pl_node (fst w) c; off = sb_offset (snd w) in
          if bn_sz b < off then Some (Err Out_of_bounds)
          else if sz < bn_sz b - off then
            Some (res_bind (node_bytes b off (sz - skip)) (\<lambda>s. Ok (s, fst w, (snd w)\<lparr>sb_offset := off + sz\<rparr>)))
          else if sz = bn_sz b - off then
            Some (res_bind (node_bytes b off (sz - skip)) (\<lambda>s. res_bind (return_free_node w) (\<lambda>w1. Ok (s, w1))))
          else pop_loop sz skip [] w)"

text \<open>A negative size passes the test of \<open>lpopbuffer\<close> and becomes a length of almost the whole address space.\<close>

definition lpopbuffer :: "int \<Rightarrow> buffer_pool \<times> socket_buffer \<Rightarrow> (byte list option \<times> int \<times> buffer_pool \<times> socket_buffer) res option" where
  "lpopbuffer sz w =
     (let size = sb_size (snd w) in
      if size < sz \<or> sz = 0 then Some (Ok (None, size, w))
      else if sz < 0 then Some (Err Out_of_bounds)
      else
        (case pop_lstring (nat sz) 0 w of
           None \<Rightarrow> None
         | Some r \<Rightarrow> Some (res_bind r (\<lambda>(s, p, sb). Ok (Some s, size - sz, p, sb\<lparr>sb_size := size - sz\<rparr>)))))"

partial_function (option) clearbuffer_loop :: "buffer_pool \<times> socket_buffer \<Rightarrow> (buffer_pool \<times> socket_buffer) res option" where
  "clearbuffer_loop w =
     (if sb_head (snd w) = None then Some (Ok w)
      else case return_free_node w of Err e \<Rightarrow> Some (Err e) | Ok w1 \<Rightarrow> clearbuffer_loop w1)"

definition lclearbuffer :: "buffer_pool \<times> socket_buffer \<Rightarrow> (buffer_pool \<times> socket_buffer) res option" where
  "lclearbuffer w = map_option (\<lambda>r. res_bind r (\<lambda>(p, sb). Ok (p, sb\<lparr>sb_size := 0\<rparr>))) (clearbuffer_loop w)"

partial_function (option) readall_loop :: "byte list \<Rightarrow> buffer_pool \<times> socket_buffer \<Rightarrow> (byte list \<times> buffer_pool \<times> socket_buffer) res option" where
  "readall_loop acc w =
     (case sb_head (snd w) of
        None \<Rightarrow> Some (Ok (acc, w))
      | Some c \<Rightarrow>
          let b = pl_node (fst w) c; off = sb_offset (snd w) in
          if bn_sz b < off then Some (Err Out_of_bounds)
          else
            (case res_bind (node_bytes b off (bn_sz b - off)) (\<lambda>s. res_bind (return_free_node w) (\<lambda>w1. Ok (acc @ s, w1))) of
               Err e \<Rightarrow> Some (Err e)
             | Ok (acc1, w1) \<Rightarrow> readall_loop acc1 w1))"

definition lreadall :: "buffer_pool \<times> socket_buffer \<Rightarrow> (byte list \<times> buffer_pool \<times> socket_buffer) res option" where
  "lreadall w = map_option (\<lambda>r. res_bind r (\<lambda>(s, p, sb). Ok (s, p, sb\<lparr>sb_size := 0\<rparr>))) (readall_loop [] w)"

text \<open>The separator at an offset of a node, which may go on in the nodes behind it.\<close>

partial_function (option) check_sep :: "buffer_pool \<Rightarrow> nat option \<Rightarrow> nat \<Rightarrow> byte list \<Rightarrow> bool res option" where
  "check_sep p node from sep =
     (case node of
        None \<Rightarrow> Some (Err Null_deref)
      | Some c \<Rightarrow>
          let b = pl_node p c; sz = bn_sz b - from in
          if bn_sz b < from then Some (Err Out_of_bounds)
          else if length sep \<le> sz then Some (res_bind (node_bytes b from (length sep)) (\<lambda>s. Ok (s = sep)))
          else
            (case node_bytes b from sz of
               Err e \<Rightarrow> Some (Err e)
             | Ok s \<Rightarrow> if s \<noteq> take sz sep then Some (Ok False) else check_sep p (bn_next b) 0 (drop sz sep)))"

text \<open>The loop of \<open>lreadline\<close>, which is run \<open>n\<close> times at most: the index where the separator is found.\<close>

fun readline_loop :: "nat \<Rightarrow> nat \<Rightarrow> buffer_pool \<Rightarrow> nat option \<Rightarrow> nat \<Rightarrow> int \<Rightarrow> byte list \<Rightarrow> nat option res option" where
  "readline_loop 0 i p current from bytes sep = Some (Ok None)"
| "readline_loop (Suc n) i p current from bytes sep =
     (case check_sep p current from sep of
        None \<Rightarrow> None
      | Some (Err e) \<Rightarrow> Some (Err e)
      | Some (Ok True) \<Rightarrow> Some (Ok (Some i))
      | Some (Ok False) \<Rightarrow>
          if bytes - 1 = 0 then
            (case current of
               None \<Rightarrow> Some (Err Null_deref)
             | Some c \<Rightarrow>
                 (case bn_next (pl_node p c) of
                    None \<Rightarrow> Some (Ok None)
                  | Some c1 \<Rightarrow> readline_loop n (Suc i) p (Some c1) 0 (int (bn_sz (pl_node p c1))) sep))
          else readline_loop n (Suc i) p current (Suc from) (bytes - 1) sep)"

text \<open>The result of \<open>lreadline\<close>: nothing, true for a check, or the line.\<close>

datatype line = L_none | L_true | L_line "byte list"

definition lreadline :: "bool \<Rightarrow> byte list \<Rightarrow> buffer_pool \<times> socket_buffer \<Rightarrow> (line \<times> buffer_pool \<times> socket_buffer) res option" where
  "lreadline check sep w =
     (case sb_head (snd w) of
        None \<Rightarrow> Some (Ok (L_none, w))
      | Some c \<Rightarrow>
          let off = sb_offset (snd w); count = nat (sb_size (snd w) - int (length sep) + 1) in
          case readline_loop count 0 (fst w) (Some c) off (int (bn_sz (pl_node (fst w) c)) - int off) sep of
            None \<Rightarrow> None
          | Some (Err e) \<Rightarrow> Some (Err e)
          | Some (Ok None) \<Rightarrow> Some (Ok (L_none, w))
          | Some (Ok (Some i)) \<Rightarrow>
              if check then Some (Ok (L_true, w))
              else
                (case pop_lstring (i + length sep) (length sep) w of
                   None \<Rightarrow> None
                 | Some r \<Rightarrow> Some (res_bind r (\<lambda>(s, p, sb). Ok (L_line s, p, sb\<lparr>sb_size := sb_size sb - int (i + length sep)\<rparr>)))))"

text \<open>A number of one to four bytes, the most significant first.\<close>

definition lheader :: "byte list \<Rightarrow> nat res" where
  "lheader s = (if length s > 4 \<or> length s < 1 then Err Lua_error else Ok (foldl (\<lambda>sz b. push_bit 8 sz OR unat b) 0 s))"

section \<open>Runs\<close>

datatype buffer_op = Push_op "byte list" | Pop_op int | Readline_op "byte list" | Check_op "byte list" | Readall_op | Clear_op

datatype buffer_result = Size_result int | Pop_result "byte list option" int | Line_result line | All_result "byte list" | No_result

definition run_op :: "buffer_op \<Rightarrow> buffer_pool \<times> socket_buffer \<Rightarrow> (buffer_result \<times> buffer_pool \<times> socket_buffer) res option" where
  "run_op a w =
     (case a of
        Push_op m \<Rightarrow> Some (res_bind (lpushbuffer m w) (\<lambda>(n, w1). Ok (Size_result n, w1)))
      | Pop_op n \<Rightarrow> map_option (\<lambda>r. res_bind r (\<lambda>(s, k, w1). Ok (Pop_result s k, w1))) (lpopbuffer n w)
      | Readline_op sep \<Rightarrow> map_option (\<lambda>r. res_bind r (\<lambda>(l, w1). Ok (Line_result l, w1))) (lreadline False sep w)
      | Check_op sep \<Rightarrow> map_option (\<lambda>r. res_bind r (\<lambda>(l, w1). Ok (Line_result l, w1))) (lreadline True sep w)
      | Readall_op \<Rightarrow> map_option (\<lambda>r. res_bind r (\<lambda>(s, w1). Ok (All_result s, w1))) (lreadall w)
      | Clear_op \<Rightarrow> map_option (\<lambda>r. res_bind r (\<lambda>w1. Ok (No_result, w1))) (lclearbuffer w))"

text \<open>A run on the buffers of a Lua state, which have numbers and share the pool.\<close>

fun run_ops :: "(nat \<times> buffer_op) list \<Rightarrow> buffer_pool \<times> (nat \<Rightarrow> socket_buffer) \<Rightarrow> (buffer_result list \<times> buffer_pool \<times> (nat \<Rightarrow> socket_buffer)) res option" where
  "run_ops [] w = Some (Ok ([], w))"
| "run_ops ((b, a) # ops) w =
     (case run_op a (fst w, snd w b) of
        None \<Rightarrow> None
      | Some (Err e) \<Rightarrow> Some (Err e)
      | Some (Ok (r, p, sb)) \<Rightarrow> map_option (\<lambda>x. res_bind x (\<lambda>(rs, w1). Ok (r # rs, w1))) (run_ops ops (p, (snd w)(b := sb))))"

definition new_pool :: buffer_pool where
  "new_pool = \<lparr>pl_node = (\<lambda>_. \<lparr>bn_msg = None, bn_sz = 0, bn_next = None\<rparr>), pl_free = None, pl_chunks = [], pl_top = 0\<rparr>"

section \<open>Specification\<close>

text \<open>The first place where the separator occurs.\<close>

fun find_sep :: "byte list \<Rightarrow> byte list \<Rightarrow> nat option" where
  "find_sep sep [] = (if sep = [] then Some 0 else None)"
| "find_sep sep (c # s) = (if take (length sep) (c # s) = sep then Some 0 else map_option Suc (find_sep sep s))"

text \<open>The empty separator is found only in a buffer that holds a byte.\<close>

definition find_line :: "byte list \<Rightarrow> byte list \<Rightarrow> nat option" where
  "find_line sep s = (if s = [] then None else find_sep sep s)"

definition buffer_spec :: "buffer_op \<Rightarrow> byte list \<Rightarrow> buffer_result \<times> byte list" where
  "buffer_spec a s =
     (case a of
        Push_op m \<Rightarrow> (Size_result (int (length (s @ m))), s @ m)
      | Pop_op n \<Rightarrow> (if n = 0 \<or> int (length s) < n then (Pop_result None (int (length s)), s)
                   else (Pop_result (Some (take (nat n) s)) (int (length s) - n), drop (nat n) s))
      | Readline_op sep \<Rightarrow>
          (case find_line sep s of None \<Rightarrow> (Line_result L_none, s) | Some i \<Rightarrow> (Line_result (L_line (take i s)), drop (i + length sep) s))
      | Check_op sep \<Rightarrow> (Line_result (if find_line sep s = None then L_none else L_true), s)
      | Readall_op \<Rightarrow> (All_result s, [])
      | Clear_op \<Rightarrow> (No_result, []))"

fun buffer_specs :: "(nat \<times> buffer_op) list \<Rightarrow> (nat \<Rightarrow> byte list) \<Rightarrow> buffer_result list" where
  "buffer_specs [] c = []"
| "buffer_specs ((b, a) # ops) c = fst (buffer_spec a (c b)) # buffer_specs ops (c(b := snd (buffer_spec a (c b))))"

text \<open>The blocks that are pushed are not empty, the sizes asked for are not negative, and all pushes together fit into an \<open>int\<close>.\<close>

fun op_ok :: "buffer_op \<Rightarrow> bool" where
  "op_ok (Push_op m) = (m \<noteq> [])"
| "op_ok (Pop_op n) = (0 \<le> n)"
| "op_ok _ = True"

fun op_bytes :: "buffer_op \<Rightarrow> nat" where
  "op_bytes (Push_op m) = length m"
| "op_bytes _ = 0"

section \<open>Chains of nodes\<close>

fun chain :: "(nat \<Rightarrow> buffer_node) \<Rightarrow> nat option \<Rightarrow> nat list \<Rightarrow> bool" where
  "chain nd h [] = (h = None)"
| "chain nd h (x # xs) = (h = Some x \<and> chain nd (bn_next (nd x)) xs)"

definition block_of :: "(nat \<Rightarrow> buffer_node) \<Rightarrow> nat \<Rightarrow> byte list" where
  "block_of nd x = the (bn_msg (nd x))"

definition blocks :: "(nat \<Rightarrow> buffer_node) \<Rightarrow> nat list \<Rightarrow> byte list" where
  "blocks nd xs = concat (map (block_of nd) xs)"

definition node_ok :: "(nat \<Rightarrow> buffer_node) \<Rightarrow> nat \<Rightarrow> bool" where
  "node_ok nd x = (bn_msg (nd x) = Some (block_of nd x) \<and> bn_sz (nd x) = length (block_of nd x) \<and> block_of nd x \<noteq> [])"

text \<open>A buffer with the nodes \<open>xs\<close>.\<close>

definition buf_ok :: "(nat \<Rightarrow> buffer_node) \<Rightarrow> socket_buffer \<Rightarrow> nat list \<Rightarrow> bool" where
  "buf_ok nd sb xs = (chain nd (sb_head sb) xs \<and> (\<forall>x\<in>set xs. node_ok nd x) \<and>
     sb_tail sb = (if xs = [] then None else Some (last xs)) \<and>
     (case xs of [] \<Rightarrow> sb_offset sb = 0 | x # _ \<Rightarrow> sb_offset sb < length (block_of nd x)))"

definition content :: "(nat \<Rightarrow> buffer_node) \<Rightarrow> socket_buffer \<Rightarrow> nat list \<Rightarrow> byte list" where
  "content nd sb xs = drop (sb_offset sb) (blocks nd xs)"

text \<open>The pool with a buffer, the free nodes \<open>fs\<close> and the nodes \<open>R\<close> of the other buffers.\<close>

definition pool_ok :: "buffer_pool \<Rightarrow> nat list \<Rightarrow> nat list \<Rightarrow> nat set \<Rightarrow> bool" where
  "pool_ok p fs xs R = (chain (pl_node p) (pl_free p) fs \<and> distinct (fs @ xs) \<and> set (fs @ xs) \<inter> R = {} \<and>
     set (fs @ xs) \<union> R \<subseteq> {..<pl_top p})"

definition state_ok :: "buffer_pool \<times> socket_buffer \<Rightarrow> nat list \<Rightarrow> nat list \<Rightarrow> nat set \<Rightarrow> bool" where
  "state_ok w xs fs R = (pool_ok (fst w) fs xs R \<and> buf_ok (pl_node (fst w)) (snd w) xs)"

text \<open>An operation leaves the nodes of other buffers as they are.\<close>

definition keeps :: "nat set \<Rightarrow> buffer_pool \<Rightarrow> buffer_pool \<Rightarrow> bool" where
  "keeps R p p1 = ((\<forall>r\<in>R. pl_node p1 r = pl_node p r) \<and> pl_top p \<le> pl_top p1)"

lemma keeps_refl [simp]: "keeps R p p"
  by (simp add: keeps_def)

lemma keeps_trans: "keeps R p p1 \<Longrightarrow> keeps R p1 p2 \<Longrightarrow> keeps R p p2"
  by (auto simp: keeps_def)

lemma chain_cong: "(\<And>x. x \<in> set xs \<Longrightarrow> nd1 x = nd x) \<Longrightarrow> chain nd1 h xs = chain nd h xs"
  by (induction xs arbitrary: h) auto

lemma chain_append: "chain nd h (xs @ [t]) \<Longrightarrow> \<forall>x\<in>set xs. nd1 x = nd x \<Longrightarrow> bn_next (nd1 t) = Some f \<Longrightarrow> bn_next (nd1 f) = None \<Longrightarrow>
    chain nd1 h (xs @ [t, f])"
  by (induction xs arbitrary: h) auto

lemma block_cong: "nd1 x = nd x \<Longrightarrow> block_of nd1 x = block_of nd x \<and> node_ok nd1 x = node_ok nd x"
  by (simp add: block_of_def node_ok_def)

lemma blocks_cong: "(\<And>x. x \<in> set xs \<Longrightarrow> nd1 x = nd x) \<Longrightarrow> blocks nd1 xs = blocks nd xs"
  unfolding blocks_def by (rule arg_cong [of _ _ concat], rule map_cong) (simp_all add: block_of_def)

lemma blocks_simps [simp]: "blocks nd [] = []" "blocks nd (x # xs) = block_of nd x @ blocks nd xs"
    "blocks nd (xs @ ys) = blocks nd xs @ blocks nd ys"
  by (simp_all add: blocks_def)

lemma buf_ok_cong:
  assumes "\<And>x. x \<in> set xs \<Longrightarrow> nd1 x = nd x"
  shows "buf_ok nd1 sb xs = buf_ok nd sb xs"
proof -
  have "(\<forall>x\<in>set xs. node_ok nd1 x) = (\<forall>x\<in>set xs. node_ok nd x)" using assms block_cong by blast
  moreover have "(case xs of [] \<Rightarrow> sb_offset sb = 0 | x # _ \<Rightarrow> sb_offset sb < length (block_of nd1 x)) =
      (case xs of [] \<Rightarrow> sb_offset sb = 0 | x # _ \<Rightarrow> sb_offset sb < length (block_of nd x))"
    using assms by (cases xs) (simp_all add: block_of_def)
  ultimately show ?thesis using chain_cong [of xs nd1 nd, OF assms] by (simp add: buf_ok_def)
qed

lemma node_bytes_ok: "node_ok nd x \<Longrightarrow> from + n \<le> length (block_of nd x) \<Longrightarrow>
    node_bytes (nd x) from n = Ok (take n (drop from (block_of nd x)))"
  by (simp add: node_bytes_def node_ok_def)

lemma state_ok_Cons:
  assumes "state_ok (p, sb) (x # xs) fs R"
  shows "sb_head sb = Some x" "node_ok (pl_node p) x" "sb_offset sb < length (block_of (pl_node p) x)"
    "bn_sz (pl_node p x) = length (block_of (pl_node p) x)" "bn_msg (pl_node p x) = Some (block_of (pl_node p) x)"
    "chain (pl_node p) (bn_next (pl_node p x)) xs"
    "content (pl_node p) sb (x # xs) = drop (sb_offset sb) (block_of (pl_node p) x) @ blocks (pl_node p) xs"
  using assms by (simp_all add: state_ok_def buf_ok_def node_ok_def content_def)

lemma state_ok_Nil: "state_ok (p, sb) [] fs R \<Longrightarrow> sb_head sb = None \<and> content (pl_node p) sb [] = []"
  by (simp add: state_ok_def buf_ok_def content_def)

lemma state_ok_size [simp]: "state_ok (p, sb\<lparr>sb_size := n\<rparr>) xs fs R = state_ok (p, sb) xs fs R"
    "content nd (sb\<lparr>sb_size := n\<rparr>) xs = content nd sb xs"
  by (cases xs; simp add: state_ok_def buf_ok_def content_def)+

section \<open>A node goes back to the pool\<close>

lemma return_free_node_ok:
  assumes st: "state_ok (p, sb) (x # xs) fs R"
  shows "\<exists>p1 sb1. return_free_node (p, sb) = Ok (p1, sb1) \<and> state_ok (p1, sb1) xs (x # fs) R \<and> keeps R p p1 \<and>
    content (pl_node p1) sb1 xs = blocks (pl_node p) xs \<and> sb_size sb1 = sb_size sb"
proof -
  define nd1 where "nd1 = (pl_node p)(x := \<lparr>bn_msg = None, bn_sz = 0, bn_next = pl_free p\<rparr>)"
  define p1 where "p1 = p\<lparr>pl_node := nd1, pl_free := Some x\<rparr>"
  define sb1 where "sb1 = sb\<lparr>sb_offset := 0, sb_head := bn_next (pl_node p x), sb_tail := (if bn_next (pl_node p x) = None then None else sb_tail sb)\<rparr>"
  have po: "pool_ok p fs (x # xs) R" and bo: "buf_ok (pl_node p) sb (x # xs)" using st by (simp_all add: state_ok_def)
  have x: "x \<notin> set xs" "x \<notin> set fs" "x \<notin> R" using po by (auto simp: pool_ok_def)
  have eq: "\<And>y. y \<in> set xs \<Longrightarrow> nd1 y = pl_node p y" "\<And>y. y \<in> set fs \<Longrightarrow> nd1 y = pl_node p y" "\<And>y. y \<in> R \<Longrightarrow> nd1 y = pl_node p y"
    using x by (auto simp: nd1_def)
  have r: "return_free_node (p, sb) = Ok (p1, sb1)"
    using state_ok_Cons(1) [OF st] by (simp add: return_free_node_def p1_def sb1_def nd1_def set_node_def Let_def)
  have ch: "chain (pl_node p) (bn_next (pl_node p x)) xs" by (rule state_ok_Cons [OF st])
  have nn: "bn_next (pl_node p x) = None \<longleftrightarrow> xs = []" using ch by (cases xs) auto
  have "buf_ok (pl_node p) sb1 xs"
    using bo ch nn by (cases xs) (simp_all add: buf_ok_def sb1_def node_ok_def)
  then have b1: "buf_ok nd1 sb1 xs" using buf_ok_cong [of xs nd1 "pl_node p", OF eq(1)] by simp
  have "chain nd1 (pl_free p) fs" using chain_cong [of fs nd1 "pl_node p", OF eq(2)] po by (simp add: pool_ok_def)
  then have "pool_ok p1 (x # fs) xs R" using po x by (simp add: pool_ok_def p1_def nd1_def)
  then have "state_ok (p1, sb1) xs (x # fs) R" using b1 by (simp add: state_ok_def p1_def)
  moreover have "keeps R p p1" using eq(3) by (simp add: keeps_def p1_def)
  moreover have "content (pl_node p1) sb1 xs = blocks (pl_node p) xs"
    using blocks_cong [of xs nd1 "pl_node p", OF eq(1)] by (simp add: content_def sb1_def p1_def)
  ultimately show ?thesis using r by (simp add: sb1_def)
qed

lemma return_free_node_offset [simp]: "return_free_node (p, sb\<lparr>sb_offset := k\<rparr>) = return_free_node (p, sb)"
  by (simp add: return_free_node_def Let_def split: option.splits)

text \<open>What every operation that takes bytes out promises.\<close>

definition op_result :: "(buffer_pool \<times> socket_buffer) \<Rightarrow> nat set \<Rightarrow> (buffer_pool \<times> socket_buffer) \<Rightarrow> byte list \<Rightarrow> bool" where
  "op_result w R w1 s = (\<exists>xs1 fs1. state_ok w1 xs1 fs1 R \<and> keeps R (fst w) (fst w1) \<and> content (pl_node (fst w1)) (snd w1) xs1 = s)"

lemma op_result_trans: "keeps R (fst w) (fst w1) \<Longrightarrow> op_result w1 R w2 s \<Longrightarrow> op_result w R w2 s"
  unfolding op_result_def using keeps_trans by blast

lemma op_result_size [simp]: "op_result w R (p, sb\<lparr>sb_size := n\<rparr>) s = op_result w R (p, sb) s"
  by (simp add: op_result_def)

lemma offset_ok:
  assumes st: "state_ok (p, sb) (x # xs) fs R" and n: "sb_offset sb + n < length (block_of (pl_node p) x)"
  shows "op_result (p, sb) R (p, sb\<lparr>sb_offset := sb_offset sb + n\<rparr>) (drop n (content (pl_node p) sb (x # xs)))"
  unfolding op_result_def
proof (intro exI conjI)
  show "state_ok (p, sb\<lparr>sb_offset := sb_offset sb + n\<rparr>) (x # xs) fs R"
    using st n by (simp add: state_ok_def buf_ok_def)
qed (simp_all add: content_def add.commute del: blocks_simps)

lemma return_result:
  assumes st: "state_ok (p, sb) (x # xs) fs R"
  shows "\<exists>w1. return_free_node (p, sb) = Ok w1 \<and> sb_size (snd w1) = sb_size sb \<and> op_result (p, sb) R w1 (blocks (pl_node p) xs)"
  using return_free_node_ok [OF st] by (auto simp: op_result_def)

lemma pop_loop_ok:
  assumes "state_ok (p, sb) xs fs R" "0 < sz" "sz \<le> length (content (pl_node p) sb xs)"
  shows "\<exists>w1. pop_loop sz skip acc (p, sb) = Some (Ok (acc @ take (sz - skip) (content (pl_node p) sb xs), w1)) \<and>
    sb_size (snd w1) = sb_size sb \<and> op_result (p, sb) R w1 (drop sz (content (pl_node p) sb xs))"
  using assms
proof (induction xs arbitrary: p sb fs sz acc)
  case Nil
  then show ?case using state_ok_Nil by fastforce
next
  case (Cons x xs)
  note st = Cons.prems(1) and c = state_ok_Cons [OF Cons.prems(1)]
  let ?B = "block_of (pl_node p) x"
  let ?by = "length ?B - sb_offset sb"
  have nb: "\<And>n. n \<le> ?by \<Longrightarrow> node_bytes (pl_node p x) (sb_offset sb) n = Ok (take n (drop (sb_offset sb) ?B))"
    using c(2,3) by (intro node_bytes_ok) auto
  have off: "(bn_sz (pl_node p x) < sb_offset sb) = False" using c(3,4) by simp
  have unf: "pop_loop sz skip acc (p, sb) = (if sz \<le> ?by then
        Some (res_bind (node_bytes (pl_node p x) (sb_offset sb) (sz - skip)) (\<lambda>s.
              let w1 = (p, sb\<lparr>sb_offset := sb_offset sb + sz\<rparr>) in
              res_bind (if ?by = sz then return_free_node w1 else Ok w1) (\<lambda>w2. Ok (acc @ s, w2))))
      else (case res_bind (node_bytes (pl_node p x) (sb_offset sb) (min (sz - skip) ?by)) (\<lambda>s. res_bind (return_free_node (p, sb)) (\<lambda>w1. Ok (acc @ s, w1))) of
               Err e \<Rightarrow> Some (Err e)
             | Ok (acc1, w1) \<Rightarrow> if sz - ?by = 0 then Some (Ok (acc1, w1)) else pop_loop (sz - ?by) skip acc1 w1))"
    using c(1) off by (subst pop_loop.simps) (simp only: c(4) [symmetric] Let_def fst_conv snd_conv option.case if_False)
  consider "sz < ?by" | "sz = ?by" | "?by < sz" by linarith
  then show ?case
  proof cases
    case 1
    have "op_result (p, sb) R (p, sb\<lparr>sb_offset := sb_offset sb + sz\<rparr>) (drop sz (content (pl_node p) sb (x # xs)))"
      using 1 by (intro offset_ok [OF st]) simp
    then show ?thesis using 1 nb [of "sz - skip"] unf c(7) by (simp add: Let_def)
  next
    case 2
    obtain w1 where "return_free_node (p, sb) = Ok w1" "sb_size (snd w1) = sb_size sb" "op_result (p, sb) R w1 (blocks (pl_node p) xs)"
      using return_result [OF st] by blast
    then show ?thesis using 2 nb [of "sz - skip"] unf c(7) by (simp add: Let_def)
  next
    case 3
    obtain p1 sb1 where w1: "return_free_node (p, sb) = Ok (p1, sb1)" "state_ok (p1, sb1) xs (x # fs) R" "keeps R p p1"
      "content (pl_node p1) sb1 xs = blocks (pl_node p) xs" "sb_size sb1 = sb_size sb"
      using return_free_node_ok [OF st] by blast
    define acc1 where "acc1 = acc @ take (min (sz - skip) ?by) (drop (sb_offset sb) ?B)"
    have le: "0 < sz - ?by" "sz - ?by \<le> length (content (pl_node p1) sb1 xs)"
      using 3 Cons.prems(3) c(7) w1(4) by simp_all
    obtain w2 where w2: "pop_loop (sz - ?by) skip acc1 (p1, sb1) = Some (Ok (acc1 @ take (sz - ?by - skip) (content (pl_node p1) sb1 xs), w2))"
      "sb_size (snd w2) = sb_size sb1" "op_result (p1, sb1) R w2 (drop (sz - ?by) (content (pl_node p1) sb1 xs))"
      using Cons.IH [OF w1(2) le, of acc1] by blast
    have "pop_loop sz skip acc (p, sb) = pop_loop (sz - ?by) skip acc1 (p1, sb1)"
      using 3 nb [of "min (sz - skip) ?by"] unf w1(1) by (simp add: acc1_def)
    moreover have "acc1 @ take (sz - ?by - skip) (content (pl_node p1) sb1 xs) = acc @ take (sz - skip) (content (pl_node p) sb (x # xs))"
      unfolding acc1_def c(7) w1(4) by (simp add: min_def add.commute)
    moreover have "op_result (p, sb) R w2 (drop sz (content (pl_node p) sb (x # xs)))"
      using op_result_trans [of R "(p, sb)" "(p1, sb1)" w2] w2(3) w1(3,4) c(7) 3 by simp
    ultimately show ?thesis using w2(1,2) w1(5) by simp
  qed
qed

lemma pop_lstring_ok:
  assumes st: "state_ok (p, sb) xs fs R" and ne: "xs \<noteq> []" and sz: "sz \<le> length (content (pl_node p) sb xs)" and sk: "skip \<le> sz"
  shows "\<exists>w1. pop_lstring sz skip (p, sb) = Some (Ok (take (sz - skip) (content (pl_node p) sb xs), w1)) \<and>
    sb_size (snd w1) = sb_size sb \<and> op_result (p, sb) R w1 (drop sz (content (pl_node p) sb xs))"
proof (cases xs)
  case (Cons x ys)
  note st = st [unfolded Cons] and c = state_ok_Cons [OF st [unfolded Cons]]
  let ?B = "block_of (pl_node p) x"
  let ?by = "length ?B - sb_offset sb"
  have nb: "\<And>n. n \<le> ?by \<Longrightarrow> node_bytes (pl_node p x) (sb_offset sb) n = Ok (take n (drop (sb_offset sb) ?B))"
    using c(2,3) by (intro node_bytes_ok) auto
  consider "sz < ?by" | "sz = ?by" | "?by < sz" by linarith
  then show ?thesis
  proof cases
    case 1
    have "op_result (p, sb) R (p, sb\<lparr>sb_offset := sb_offset sb + sz\<rparr>) (drop sz (content (pl_node p) sb (x # ys)))"
      using 1 by (intro offset_ok [OF st]) simp
    then show ?thesis using 1 nb [of "sz - skip"] c(1,3,4,7) Cons by (simp add: pop_lstring_def Let_def)
  next
    case 2
    obtain w1 where "return_free_node (p, sb) = Ok w1" "sb_size (snd w1) = sb_size sb" "op_result (p, sb) R w1 (blocks (pl_node p) ys)"
      using return_result [OF st] by blast
    then show ?thesis using 2 nb [of "sz - skip"] c(1,3,4,7) Cons by (simp add: pop_lstring_def Let_def)
  next
    case 3
    then have "pop_lstring sz skip (p, sb) = pop_loop sz skip [] (p, sb)" using c(1,3,4) by (simp add: pop_lstring_def Let_def)
    then show ?thesis using pop_loop_ok [OF st, of sz skip "[]"] 3 sz Cons by simp
  qed
qed (use ne in simp)

lemma lpopbuffer_ok:
  assumes st: "state_ok (p, sb) xs fs R" and n: "0 \<le> n" and size: "sb_size sb = int (length (content (pl_node p) sb xs))"
  shows "\<exists>w1. map_option (\<lambda>r. res_bind r (\<lambda>(s, k, w1). Ok (Pop_result s k, w1))) (lpopbuffer n (p, sb)) =
      Some (Ok (fst (buffer_spec (Pop_op n) (content (pl_node p) sb xs)), w1)) \<and>
    sb_size (snd w1) = int (length (snd (buffer_spec (Pop_op n) (content (pl_node p) sb xs)))) \<and>
    op_result (p, sb) R w1 (snd (buffer_spec (Pop_op n) (content (pl_node p) sb xs)))"
proof (cases "n = 0 \<or> sb_size sb < n")
  case True
  have "op_result (p, sb) R (p, sb) (content (pl_node p) sb xs)" using st by (auto simp: op_result_def)
  then show ?thesis using True size by (auto simp: lpopbuffer_def buffer_spec_def)
next
  case False
  have xs: "xs \<noteq> []" using False n size state_ok_Nil [of p sb fs R] st by auto
  have le: "nat n \<le> length (content (pl_node p) sb xs)" using False n size by (simp add: nat_le_iff)
  obtain p1 sb1 where w1: "pop_lstring (nat n) 0 (p, sb) = Some (Ok (take (nat n) (content (pl_node p) sb xs), p1, sb1))"
    "sb_size sb1 = sb_size sb" "op_result (p, sb) R (p1, sb1) (drop (nat n) (content (pl_node p) sb xs))"
    using pop_lstring_ok [OF st xs le, of 0] by auto
  have r: "op_result (p, sb) R (p1, sb1\<lparr>sb_size := sb_size sb - n\<rparr>) (drop (nat n) (content (pl_node p) sb xs))"
    using w1(3) by (simp add: op_result_def)
  have "lpopbuffer n (p, sb) = Some (Ok (Some (take (nat n) (content (pl_node p) sb xs)), sb_size sb - n, p1, sb1\<lparr>sb_size := sb_size sb - n\<rparr>))"
    using False n w1(1) by (simp add: lpopbuffer_def Let_def)
  moreover have "buffer_spec (Pop_op n) (content (pl_node p) sb xs) =
      (Pop_result (Some (take (nat n) (content (pl_node p) sb xs))) (sb_size sb - n), drop (nat n) (content (pl_node p) sb xs))"
    using False size by (simp add: buffer_spec_def)
  moreover have "sb_size sb - n = int (length (drop (nat n) (content (pl_node p) sb xs)))"
    using le size n by (simp add: of_nat_diff)
  ultimately show ?thesis using r by simp
qed

lemma clearbuffer_loop_ok:
  assumes "state_ok (p, sb) xs fs R"
  shows "\<exists>w1. clearbuffer_loop (p, sb) = Some (Ok w1) \<and> op_result (p, sb) R w1 []"
  using assms
proof (induction xs arbitrary: p sb fs)
  case Nil
  then show ?case using state_ok_Nil [OF Nil] by (subst clearbuffer_loop.simps) (auto simp: op_result_def)
next
  case (Cons x xs)
  obtain p1 sb1 where w1: "return_free_node (p, sb) = Ok (p1, sb1)" "state_ok (p1, sb1) xs (x # fs) R" "keeps R p p1"
    using return_free_node_ok [OF Cons.prems] by blast
  have "clearbuffer_loop (p, sb) = clearbuffer_loop (p1, sb1)"
    using state_ok_Cons(1) [OF Cons.prems] w1(1) by (subst clearbuffer_loop.simps) simp
  then show ?case using Cons.IH [OF w1(2)] op_result_trans [of R "(p, sb)" "(p1, sb1)"] w1(3) by auto
qed

lemma readall_loop_ok:
  assumes "state_ok (p, sb) xs fs R"
  shows "\<exists>w1. readall_loop acc (p, sb) = Some (Ok (acc @ content (pl_node p) sb xs, w1)) \<and> op_result (p, sb) R w1 []"
  using assms
proof (induction xs arbitrary: p sb fs acc)
  case Nil
  then show ?case using state_ok_Nil [OF Nil] by (subst readall_loop.simps) (auto simp: op_result_def)
next
  case (Cons x xs)
  note c = state_ok_Cons [OF Cons.prems]
  obtain p1 sb1 where w1: "return_free_node (p, sb) = Ok (p1, sb1)" "state_ok (p1, sb1) xs (x # fs) R" "keeps R p p1"
    "content (pl_node p1) sb1 xs = blocks (pl_node p) xs"
    using return_free_node_ok [OF Cons.prems] by blast
  have "node_bytes (pl_node p x) (sb_offset sb) (bn_sz (pl_node p x) - sb_offset sb) = Ok (drop (sb_offset sb) (block_of (pl_node p) x))"
    using node_bytes_ok [OF c(2), of "sb_offset sb"] c(3,4) by simp
  then have "readall_loop acc (p, sb) = readall_loop (acc @ drop (sb_offset sb) (block_of (pl_node p) x)) (p1, sb1)"
    using c(1,3,4) w1(1) by (subst readall_loop.simps) (simp add: Let_def)
  then show ?case using Cons.IH [OF w1(2), of "acc @ drop (sb_offset sb) (block_of (pl_node p) x)"]
      op_result_trans [of R "(p, sb)" "(p1, sb1)"] w1(3,4) c(7) by auto
qed

section \<open>Push\<close>

lemma chunk_size_pos: "0 < chunk_size p"
  by (simp add: chunk_size_def Let_def push_bit_eq_mult)

lemma new_chain: "(\<And>k. a \<le> k \<Longrightarrow> k < a + n \<Longrightarrow> bn_next (nd k) = (if k = a + n - 1 then None else Some (Suc k))) \<Longrightarrow> 0 < n \<Longrightarrow>
    chain nd (Some a) [a..<a + n]"
proof (induction n arbitrary: a)
  case (Suc n)
  show ?case
  proof (cases n)
    case 0
    then show ?thesis using Suc.prems(1) [of a] by simp
  next
    case (Suc m)
    have "chain nd (Some (Suc a)) [Suc a..<Suc a + n]"
      using Suc.prems(1) Suc by (intro Suc.IH) auto
    moreover have "[a..<a + Suc n] = a # [Suc a..<Suc a + n]" using upt_conv_Cons [of a "a + Suc n"] by simp
    ultimately show ?thesis using Suc.prems(1) [of a] Suc by simp
  qed
qed simp

lemma take_free_ok:
  assumes po: "pool_ok p fs xs R"
  shows "\<exists>f p1 fs1. take_free p = (f, p1) \<and> pool_ok p1 fs1 xs R \<and> f \<notin> set fs1 \<union> set xs \<union> R \<and> f < pl_top p1 \<and> pl_top p \<le> pl_top p1 \<and>
    (\<forall>x\<in>set xs \<union> R. pl_node p1 x = pl_node p x)"
proof (cases fs)
  case (Cons f fs1)
  then have "take_free p = (f, p\<lparr>pl_free := bn_next (pl_node p f)\<rparr>)" using po by (simp add: take_free_def pool_ok_def)
  moreover have "pool_ok (p\<lparr>pl_free := bn_next (pl_node p f)\<rparr>) fs1 xs R" "f \<notin> set fs1 \<union> set xs \<union> R" "f < pl_top p"
    using po Cons by (auto simp: pool_ok_def)
  ultimately show ?thesis by (intro exI [of _ f] exI [of _ "p\<lparr>pl_free := bn_next (pl_node p f)\<rparr>"] exI [of _ fs1]) simp
next
  case Nil
  define n a where "n = chunk_size p" and "a = pl_top p"
  define p1 where "p1 = lnewpool n p"
  have n: "0 < n" by (simp add: n_def chunk_size_pos)
  have nd: "\<And>k. a \<le> k \<Longrightarrow> k < a + n \<Longrightarrow> bn_next (pl_node p1 k) = (if k = a + n - 1 then None else Some (Suc k))"
    by (simp add: p1_def lnewpool_def a_def)
  have old: "\<And>k. k < a \<Longrightarrow> pl_node p1 k = pl_node p k" by (simp add: p1_def lnewpool_def a_def)
  have top: "pl_top p1 = a + n" by (simp add: p1_def lnewpool_def a_def)
  have up: "[a..<a + n] = a # [Suc a..<a + n]" using n by (simp add: upt_conv_Cons)
  have ch: "chain (pl_node p1) (bn_next (pl_node p1 a)) [Suc a..<a + n]"
    using new_chain [of a n "pl_node p1", OF nd n] by (simp add: up)
  have R: "set xs \<union> R \<subseteq> {..<a}" using po Nil by (simp add: pool_ok_def a_def)
  have "take_free p = (a, p1\<lparr>pl_free := bn_next (pl_node p1 a)\<rparr>)"
    using po Nil by (simp add: take_free_def pool_ok_def p1_def n_def a_def Let_def)
  moreover have "pool_ok (p1\<lparr>pl_free := bn_next (pl_node p1 a)\<rparr>) [Suc a..<a + n] xs R"
    using po Nil R ch top by (auto simp: pool_ok_def)
  moreover have "a \<notin> set [Suc a..<a + n] \<union> set xs \<union> R" using R by auto
  moreover have "\<forall>x\<in>set xs \<union> R. pl_node p1 x = pl_node p x" using R old by auto
  ultimately show ?thesis using n top
    by (intro exI [of _ a] exI [of _ "p1\<lparr>pl_free := bn_next (pl_node p1 a)\<rparr>"] exI [of _ "[Suc a..<a + n]"]) (simp add: a_def)
qed

text \<open>Behind a chain a node is linked that was in none.\<close>

lemma buf_ok_append:
  assumes bo: "buf_ok nd sb (ys @ [t])" and d: "distinct (ys @ [t])" and f: "f \<notin> set (ys @ [t])" and m: "m \<noteq> []"
    and eq: "\<forall>x\<in>set ys. nd1 x = nd x" "nd1 t = (nd t)\<lparr>bn_next := Some f\<rparr>" "nd1 f = \<lparr>bn_msg = Some m, bn_sz = length m, bn_next = None\<rparr>"
  shows "buf_ok nd1 (sb\<lparr>sb_tail := Some f\<rparr>) (ys @ [t, f]) \<and> blocks nd1 (ys @ [t, f]) = blocks nd (ys @ [t]) @ m"
proof -
  have b: "\<And>x. x \<in> set ys \<union> {t} \<Longrightarrow> block_of nd1 x = block_of nd x \<and> node_ok nd1 x = node_ok nd x"
    using eq(1,2) by (auto simp: block_of_def node_ok_def)
  have bf: "block_of nd1 f = m" "node_ok nd1 f" using eq(3) m by (simp_all add: block_of_def node_ok_def)
  have ch: "chain nd1 (sb_head sb) (ys @ [t, f])"
    using bo eq by (intro chain_append [of nd]) (simp_all add: buf_ok_def)
  have "blocks nd1 ys = blocks nd ys" using eq(1) by (intro blocks_cong) simp
  then have "blocks nd1 (ys @ [t, f]) = blocks nd (ys @ [t]) @ m" using b bf by simp
  moreover have "\<forall>x\<in>set (ys @ [t, f]). node_ok nd1 x" using bo b bf by (auto simp: buf_ok_def)
  moreover have "case ys @ [t, f] of [] \<Rightarrow> sb_offset sb = 0 | x # _ \<Rightarrow> sb_offset sb < length (block_of nd1 x)"
    using bo b by (cases ys) (simp_all add: buf_ok_def)
  ultimately show ?thesis using ch by (cases ys) (simp_all add: buf_ok_def)
qed

lemma lpushbuffer_ok:
  assumes st: "state_ok (p, sb) xs fs R" and m: "m \<noteq> []" and size: "sb_size sb + int (length m) < 2 ^ 31"
  shows "\<exists>w1. lpushbuffer m (p, sb) = Ok (sb_size sb + int (length m), w1) \<and> sb_size (snd w1) = sb_size sb + int (length m) \<and>
    op_result (p, sb) R w1 (content (pl_node p) sb xs @ m)"
proof -
  have po: "pool_ok p fs xs R" and bo: "buf_ok (pl_node p) sb xs" using st by (simp_all add: state_ok_def)
  obtain f p1 fs1 where tf: "take_free p = (f, p1)" "pool_ok p1 fs1 xs R" "f \<notin> set fs1 \<union> set xs \<union> R" "f < pl_top p1" "pl_top p \<le> pl_top p1"
    and same: "\<forall>x\<in>set xs \<union> R. pl_node p1 x = pl_node p x"
    using take_free_ok [OF po] by blast
  define b where "b = \<lparr>bn_msg = Some m, bn_sz = length m, bn_next = None\<rparr>"
  have ks: "keeps R p p1" using same tf(5) by (simp add: keeps_def)
  have bo1: "buf_ok (pl_node p1) sb xs" "blocks (pl_node p1) xs = blocks (pl_node p) xs"
    using bo same buf_ok_cong [of xs "pl_node p1" "pl_node p"] blocks_cong [of xs "pl_node p1" "pl_node p"] by auto
  have pool: "pool_ok (p1\<lparr>pl_node := nd\<rparr>) fs1 (xs @ [f]) R" if "\<forall>x\<in>set fs1. nd x = pl_node p1 x" for nd
    using tf(2,3,4) chain_cong [of fs1 nd "pl_node p1"] that by (auto simp: pool_ok_def)
  show ?thesis
  proof (cases xs rule: rev_cases)
    case Nil
    define nd where "nd = (pl_node p1)(f := b)"
    let ?w = "(p1\<lparr>pl_node := nd\<rparr>, sb\<lparr>sb_head := Some f, sb_tail := Some f, sb_size := sb_size sb + int (length m)\<rparr>)"
    have h: "sb_head sb = None" "sb_tail sb = None" "sb_offset sb = 0" using bo Nil by (simp_all add: buf_ok_def)
    have "pool_ok (p1\<lparr>pl_node := nd\<rparr>) fs1 [f] R" using pool [of nd] tf(3) Nil by (auto simp: nd_def)
    then have "state_ok ?w [f] fs1 R"
      using h m by (simp add: state_ok_def buf_ok_def node_ok_def block_of_def nd_def b_def)
    moreover have "content nd (snd ?w) [f] = content (pl_node p) sb xs @ m"
      using h Nil by (simp add: content_def block_of_def nd_def b_def)
    moreover have "keeps R p (fst ?w)" using ks tf(3) by (auto simp: keeps_def nd_def)
    ultimately have "op_result (p, sb) R ?w (content (pl_node p) sb xs @ m)"
      by (auto simp: op_result_def)
    moreover have "lpushbuffer m (p, sb) = Ok (sb_size sb + int (length m), ?w)"
      using h size tf(1) by (simp add: lpushbuffer_def Let_def set_node_def nd_def b_def)
    ultimately show ?thesis by auto
  next
    case (snoc ys t)
    define nd where "nd = (pl_node p1)(f := b, t := ((pl_node p1)(f := b)) t\<lparr>bn_next := Some f\<rparr>)"
    let ?w = "(p1\<lparr>pl_node := nd\<rparr>, sb\<lparr>sb_tail := Some f, sb_size := sb_size sb + int (length m)\<rparr>)"
    have ft: "f \<noteq> t" "f \<notin> set (ys @ [t])" "distinct (ys @ [t])" "t \<notin> set ys" "t \<notin> R" "t \<notin> set fs1" "f \<notin> set fs1"
      using tf(2,3) snoc by (auto simp: pool_ok_def)
    have h: "\<exists>x. sb_head sb = Some x" "sb_tail sb = Some t" "sb_offset sb \<le> length (blocks (pl_node p) xs)"
      using bo snoc by (cases ys; force simp: buf_ok_def)+
    have bn: "buf_ok nd (sb\<lparr>sb_tail := Some f\<rparr>) (ys @ [t, f]) \<and> blocks nd (ys @ [t, f]) = blocks (pl_node p1) (ys @ [t]) @ m"
      using bo1 ft snoc m by (intro buf_ok_append) (auto simp: nd_def b_def)
    have "pool_ok (p1\<lparr>pl_node := nd\<rparr>) fs1 (xs @ [f]) R" using ft by (intro pool) (auto simp: nd_def)
    moreover have "buf_ok nd (snd ?w) (xs @ [f])" using bn snoc by (simp add: buf_ok_def split: list.splits)
    ultimately have "state_ok ?w (xs @ [f]) fs1 R" by (simp add: state_ok_def)
    moreover have "content nd (snd ?w) (xs @ [f]) = content (pl_node p) sb xs @ m"
      using bn bo1(2) h(3) snoc by (simp add: content_def del: blocks_simps)
    moreover have "keeps R p (fst ?w)" using ks tf(3) ft by (auto simp: keeps_def nd_def)
    ultimately have "op_result (p, sb) R ?w (content (pl_node p) sb xs @ m)"
      unfolding op_result_def by auto
    moreover have "lpushbuffer m (p, sb) = Ok (sb_size sb + int (length m), ?w)"
      using h(1,2) size tf(1) by (auto simp: lpushbuffer_def Let_def set_node_def nd_def b_def)
    ultimately show ?thesis by auto
  qed
qed

section \<open>Lines\<close>

lemma find_sep_short: "length s < length sep \<Longrightarrow> find_sep sep s = None"
  by (induction s) auto

lemma take_whole: "take (length sep) s = sep \<Longrightarrow> length sep \<le> length s"
  by (metis append_take_drop_id le_add1 length_append)

lemma find_sep_bound: "find_sep sep s = Some i \<Longrightarrow> i + length sep \<le> length s \<and> take (length sep) (drop i s) = sep"
proof (induction s arbitrary: i)
  case (Cons c s)
  then show ?case using take_whole [of sep "c # s"] by (auto split: if_splits)
qed (simp split: if_splits)

lemma find_sep_step: "take (length sep) s \<noteq> sep \<Longrightarrow> length sep \<le> length s \<Longrightarrow> find_sep sep s = map_option Suc (find_sep sep (tl s))"
  by (cases s) auto

lemma check_sep_ok:
  assumes "chain (pl_node p) h xs" "\<forall>x\<in>set xs. node_ok (pl_node p) x" "xs \<noteq> []" "from \<le> length (block_of (pl_node p) (hd xs))"
    "length sep \<le> length (drop from (blocks (pl_node p) xs))"
  shows "check_sep p h from sep = Some (Ok (take (length sep) (drop from (blocks (pl_node p) xs)) = sep))"
  using assms
proof (induction xs arbitrary: h "from" sep)
  case (Cons x xs)
  let ?B = "block_of (pl_node p) x"
  let ?by = "length ?B - from"
  have x: "h = Some x" "node_ok (pl_node p) x" "from \<le> length ?B" "bn_sz (pl_node p x) = length ?B"
    using Cons.prems by (simp_all add: node_ok_def)
  have nb: "\<And>n. n \<le> ?by \<Longrightarrow> node_bytes (pl_node p x) from n = Ok (take n (drop from ?B))"
    using x by (intro node_bytes_ok) auto
  show ?case
  proof (cases "length sep \<le> ?by")
    case True
    then show ?thesis using x nb [of "length sep"] by (subst check_sep.simps) (simp add: Let_def)
  next
    case False
    have xs: "xs \<noteq> []" using False Cons.prems(5) by auto
    have "check_sep p (bn_next (pl_node p x)) 0 (drop ?by sep) =
        Some (Ok (take (length (drop ?by sep)) (drop 0 (blocks (pl_node p) xs)) = drop ?by sep))"
      using Cons.prems False xs by (intro Cons.IH) auto
    then have "check_sep p h from sep = Some (Ok (drop from ?B = take ?by sep \<and> take (length sep - ?by) (blocks (pl_node p) xs) = drop ?by sep))"
      using False x nb [of ?by] by (subst check_sep.simps) (simp add: Let_def)
    moreover have "take (length sep) (drop from (blocks (pl_node p) (x # xs))) = drop from ?B @ take (length sep - ?by) (blocks (pl_node p) xs)"
      using False x(3) by simp
    moreover have "drop from ?B @ take (length sep - ?by) (blocks (pl_node p) xs) = sep \<longleftrightarrow>
        drop from ?B = take ?by sep \<and> take (length sep - ?by) (blocks (pl_node p) xs) = drop ?by sep"
      using append_eq_append_conv [of "drop from ?B" "take ?by sep" "take (length sep - ?by) (blocks (pl_node p) xs)" "drop ?by sep"] False
      by simp
    ultimately show ?thesis by simp
  qed
qed simp

lemma readline_loop_ok:
  assumes "chain (pl_node p) h xs" "\<forall>x\<in>set xs. node_ok (pl_node p) x" "xs \<noteq> []"
    "s = drop from (blocks (pl_node p) xs)" "bytes = int (length (block_of (pl_node p) (hd xs))) - int from" "0 < bytes"
    "n = nat (int (length s) - int (length sep) + 1)"
  shows "readline_loop n i p h from bytes sep = Some (Ok (map_option (\<lambda>k. i + k) (find_sep sep s)))"
  using assms
proof (induction n arbitrary: i h "from" bytes xs s)
  case 0
  then show ?case using find_sep_short [of s sep] by simp
next
  case (Suc n)
  have le: "length sep \<le> length s" using Suc.prems(7) by linarith
  obtain x ys where xs: "xs = x # ys" using Suc.prems(3) by (cases xs) auto
  let ?B = "block_of (pl_node p) x"
  have f: "from < length ?B" using Suc.prems(5,6) xs by simp
  have h: "h = Some x" "chain (pl_node p) (bn_next (pl_node p x)) ys" "\<forall>x\<in>set ys. node_ok (pl_node p) x" using Suc.prems(1,2) xs by simp_all
  have cs: "check_sep p h from sep = Some (Ok (take (length sep) s = sep))"
    unfolding Suc.prems(4) by (rule check_sep_ok [OF Suc.prems(1-3)], use f xs in simp, rule le [unfolded Suc.prems(4)])
  show ?case
  proof (cases "take (length sep) s = sep")
    case True
    then have "find_sep sep s = Some 0" by (cases s) auto
    then show ?thesis using True cs by simp
  next
    case False
    have fs: "find_sep sep s = map_option Suc (find_sep sep (tl s))" by (rule find_sep_step [OF False le])
    have tl: "tl s = drop (Suc from) (blocks (pl_node p) xs)" using Suc.prems(4) by (simp add: tl_drop drop_Suc)
    have ls: "length s = Suc (length (tl s))" using Suc.prems(4) f xs by simp
    have n: "n = nat (int (length (tl s)) - int (length sep) + 1)" using Suc.prems(7) ls by linarith
    have r: "map_option (\<lambda>k. i + k) (find_sep sep s) = map_option (\<lambda>k. Suc i + k) (find_sep sep (tl s))"
      by (simp add: fs option.map_comp comp_def)
    show ?thesis
    proof (cases "bytes - 1 = 0")
      case False
      then have "readline_loop n (Suc i) p h (Suc from) (bytes - 1) sep = Some (Ok (map_option (\<lambda>k. Suc i + k) (find_sep sep (tl s))))"
        using Suc.prems(1-3,5,6) tl n by (intro Suc.IH [of h xs]) simp_all
      then show ?thesis using cs \<open>take (length sep) s \<noteq> sep\<close> False r by simp
    next
      case True
      then have tl2: "tl s = blocks (pl_node p) ys" using tl xs Suc.prems(5) by simp
      show ?thesis
      proof (cases ys)
        case Nil
        have "sep \<noteq> []" using \<open>take (length sep) s \<noteq> sep\<close> by auto
        then have "find_sep sep (tl s) = None" using tl2 Nil by simp
        then show ?thesis using cs \<open>take (length sep) s \<noteq> sep\<close> True fs h Nil by simp
      next
        case (Cons y zs)
        have y: "bn_sz (pl_node p y) = length (block_of (pl_node p) y)" "block_of (pl_node p) y \<noteq> []" using h(3) Cons by (simp_all add: node_ok_def)
        have "readline_loop n (Suc i) p (Some y) 0 (int (bn_sz (pl_node p y))) sep = Some (Ok (map_option (\<lambda>k. Suc i + k) (find_sep sep (tl s))))"
          using h Cons tl2 n y by (intro Suc.IH [of "Some y" ys]) simp_all
        then show ?thesis using cs \<open>take (length sep) s \<noteq> sep\<close> True r h Cons by simp
      qed
    qed
  qed
qed

lemma find_line_ok:
  assumes st: "state_ok (p, sb) (x # ys) fs R" and size: "sb_size sb = int (length (content (pl_node p) sb (x # ys)))"
  shows "readline_loop (nat (sb_size sb - int (length sep) + 1)) 0 p (Some x) (sb_offset sb) (int (bn_sz (pl_node p x)) - int (sb_offset sb)) sep =
    Some (Ok (find_line sep (content (pl_node p) sb (x # ys))))"
proof -
  note c = state_ok_Cons [OF st]
  have "content (pl_node p) sb (x # ys) \<noteq> []" using c(3,7) by simp
  moreover have "readline_loop (nat (sb_size sb - int (length sep) + 1)) 0 p (Some x) (sb_offset sb) (int (bn_sz (pl_node p x)) - int (sb_offset sb)) sep =
    Some (Ok (map_option (\<lambda>k. 0 + k) (find_sep sep (content (pl_node p) sb (x # ys)))))"
    using st c(3,4) size by (intro readline_loop_ok [of p _ "x # ys"]) (simp_all add: state_ok_def buf_ok_def content_def)
  ultimately show ?thesis by (simp add: find_line_def option.map_ident)
qed

lemma lreadline_ok:
  assumes st: "state_ok (p, sb) xs fs R" and size: "sb_size sb = int (length (content (pl_node p) sb xs))"
  shows "\<exists>w1. lreadline False sep (p, sb) = Some (Ok (case find_line sep (content (pl_node p) sb xs) of None \<Rightarrow> L_none
        | Some i \<Rightarrow> L_line (take i (content (pl_node p) sb xs)), w1)) \<and>
    sb_size (snd w1) = int (length (snd (buffer_spec (Readline_op sep) (content (pl_node p) sb xs)))) \<and>
    op_result (p, sb) R w1 (snd (buffer_spec (Readline_op sep) (content (pl_node p) sb xs)))"
    "lreadline True sep (p, sb) = Some (Ok (if find_line sep (content (pl_node p) sb xs) = None then L_none else L_true, p, sb))"
proof -
  let ?s = "content (pl_node p) sb xs"
  have same: "op_result (p, sb) R (p, sb) ?s" using st by (auto simp: op_result_def)
  show "lreadline True sep (p, sb) = Some (Ok (if find_line sep ?s = None then L_none else L_true, p, sb))"
  proof (cases xs)
    case Nil
    then show ?thesis using state_ok_Nil [of p sb fs R] st by (simp add: lreadline_def find_line_def)
  next
    case (Cons x ys)
    then show ?thesis using find_line_ok [of p sb x ys fs R sep] state_ok_Cons(1) [of p sb x ys fs R] st size
      by (simp add: lreadline_def Let_def split: option.splits)
  qed
  show "\<exists>w1. lreadline False sep (p, sb) = Some (Ok (case find_line sep ?s of None \<Rightarrow> L_none | Some i \<Rightarrow> L_line (take i ?s), w1)) \<and>
    sb_size (snd w1) = int (length (snd (buffer_spec (Readline_op sep) ?s))) \<and> op_result (p, sb) R w1 (snd (buffer_spec (Readline_op sep) ?s))"
  proof (cases "find_line sep ?s")
    case None
    have "lreadline False sep (p, sb) = Some (Ok (L_none, p, sb))"
    proof (cases xs)
      case Nil
      then show ?thesis using state_ok_Nil [of p sb fs R] st by (simp add: lreadline_def)
    next
      case (Cons x ys)
      then show ?thesis using find_line_ok [of p sb x ys fs R sep] state_ok_Cons(1) [of p sb x ys fs R] st size None
        by (simp add: lreadline_def Let_def)
    qed
    then show ?thesis using None same size by (simp add: buffer_spec_def)
  next
    case (Some i)
    have ne: "xs \<noteq> []" using Some state_ok_Nil [of p sb fs R] st by (auto simp: find_line_def)
    then obtain x ys where xs: "xs = x # ys" by (cases xs) auto
    have le: "i + length sep \<le> length ?s" using Some find_sep_bound by (auto simp: find_line_def split: if_splits)
    obtain p1 sb1 where w1: "pop_lstring (i + length sep) (length sep) (p, sb) = Some (Ok (take i ?s, p1, sb1))"
      "sb_size sb1 = sb_size sb" "op_result (p, sb) R (p1, sb1) (drop (i + length sep) ?s)"
      using pop_lstring_ok [OF st ne le, of "length sep"] by auto
    have "lreadline False sep (p, sb) = Some (Ok (L_line (take i ?s), p1, sb1\<lparr>sb_size := sb_size sb - int (i + length sep)\<rparr>))"
      using find_line_ok [of p sb x ys fs R sep] state_ok_Cons(1) [of p sb x ys fs R] st size Some w1(1,2) xs
      by (simp add: lreadline_def Let_def)
    moreover have "op_result (p, sb) R (p1, sb1\<lparr>sb_size := sb_size sb - int (i + length sep)\<rparr>) (drop (i + length sep) ?s)"
      using w1(3) by (simp add: op_result_def)
    moreover have "sb_size sb - int (i + length sep) = int (length (drop (i + length sep) ?s))" using size le by simp
    ultimately show ?thesis using Some by (simp add: buffer_spec_def)
  qed
qed

section \<open>Runs of any number of buffers\<close>

lemma run_op_ok:
  assumes st: "state_ok (p, sb) xs fs R" and size: "sb_size sb = int (length (content (pl_node p) sb xs))"
    and ok: "op_ok a" and fit: "length (content (pl_node p) sb xs) + op_bytes a < 2 ^ 31"
  shows "\<exists>w1. run_op a (p, sb) = Some (Ok (fst (buffer_spec a (content (pl_node p) sb xs)), w1)) \<and>
    sb_size (snd w1) = int (length (snd (buffer_spec a (content (pl_node p) sb xs)))) \<and>
    op_result (p, sb) R w1 (snd (buffer_spec a (content (pl_node p) sb xs)))"
proof (cases a)
  case (Push_op m)
  then show ?thesis using lpushbuffer_ok [OF st, of m] ok fit size by (auto simp: run_op_def buffer_spec_def)
next
  case (Pop_op n)
  then show ?thesis using lpopbuffer_ok [OF st, of n] ok size by (simp add: run_op_def)
next
  case (Readline_op sep)
  then show ?thesis using lreadline_ok(1) [OF st size, of sep] by (auto simp: run_op_def buffer_spec_def split: option.splits)
next
  case (Check_op sep)
  have "op_result (p, sb) R (p, sb) (content (pl_node p) sb xs)" using st by (auto simp: op_result_def)
  then show ?thesis using Check_op lreadline_ok(2) [OF st size, of sep] size by (simp add: run_op_def buffer_spec_def)
next
  case Readall_op
  then show ?thesis using readall_loop_ok [OF st, of "[]"] by (auto simp: run_op_def buffer_spec_def lreadall_def)
next
  case Clear_op
  then show ?thesis using clearbuffer_loop_ok [OF st] by (auto simp: run_op_def buffer_spec_def lclearbuffer_def)
qed

text \<open>The buffers have disjoint chains, and none of their nodes is free.\<close>

definition others :: "(nat \<Rightarrow> nat list) \<Rightarrow> nat \<Rightarrow> nat set" where
  "others cs b = (\<Union>c\<in>- {b}. set (cs c))"

definition buffers_ok :: "buffer_pool \<times> (nat \<Rightarrow> socket_buffer) \<Rightarrow> (nat \<Rightarrow> byte list) \<Rightarrow> bool" where
  "buffers_ok w c = (\<exists>cs fs. \<forall>b. state_ok (fst w, snd w b) (cs b) fs (others cs b) \<and>
     content (pl_node (fst w)) (snd w b) (cs b) = c b \<and> sb_size (snd w b) = int (length (c b)))"

lemma buffers_ok_init: "buffers_ok (new_pool, \<lambda>_. lnewbuffer) (\<lambda>_. [])"
  unfolding buffers_ok_def
  by (intro exI [of _ "\<lambda>_. []"] exI [of _ "[]"])
    (simp add: state_ok_def pool_ok_def buf_ok_def others_def content_def new_pool_def lnewbuffer_def)

lemma others_update: "others (cs(b := ys)) b = others cs b"
  by (simp add: others_def)

lemma buffers_ok_update:
  assumes w: "\<And>b. state_ok (p, bufs b) (cs b) fs (others cs b) \<and> content (pl_node p) (bufs b) (cs b) = c b \<and> sb_size (bufs b) = int (length (c b))"
    and st: "state_ok (p1, sb1) xs1 fs1 (others cs b)" and ks: "keeps (others cs b) p p1"
    and ct: "content (pl_node p1) sb1 xs1 = s" and sz: "sb_size sb1 = int (length s)"
  shows "buffers_ok (p1, bufs(b := sb1)) (c(b := s))"
  unfolding buffers_ok_def
proof (intro exI [of _ "cs(b := xs1)"] exI [of _ fs1] allI)
  fix d
  show "state_ok (fst (p1, bufs(b := sb1)), snd (p1, bufs(b := sb1)) d) ((cs(b := xs1)) d) fs1 (others (cs(b := xs1)) d) \<and>
    content (pl_node (fst (p1, bufs(b := sb1)))) (snd (p1, bufs(b := sb1)) d) ((cs(b := xs1)) d) = (c(b := s)) d \<and>
    sb_size (snd (p1, bufs(b := sb1)) d) = int (length ((c(b := s)) d))"
  proof (cases "d = b")
    case True
    then show ?thesis using st ct sz by (simp add: others_update)
  next
    case False
    have sub: "set (cs d) \<subseteq> others cs b" using False by (auto simp: others_def)
    have eq: "\<And>x. x \<in> set (cs d) \<Longrightarrow> pl_node p1 x = pl_node p x" using sub ks by (auto simp: keeps_def)
    have p1: "pool_ok p1 fs1 xs1 (others cs b)" using st by (simp add: state_ok_def)
    have dj: "set (cs d) \<inter> others cs d = {}" "distinct (cs d)" using w [of d] by (auto simp: state_ok_def pool_ok_def)
    have od: "others (cs(b := xs1)) d \<subseteq> (others cs b \<union> set xs1) \<inter> (others cs d \<union> set xs1)"
      using False by (auto simp: others_def split: if_splits)
    have "pool_ok p1 fs1 (cs d) (others (cs(b := xs1)) d)" using p1 sub dj od unfolding pool_ok_def set_append distinct_append by blast
    moreover have "buf_ok (pl_node p1) (bufs d) (cs d)"
      using w [of d] buf_ok_cong [of "cs d" "pl_node p1" "pl_node p", OF eq] by (simp add: state_ok_def)
    moreover have "content (pl_node p1) (bufs d) (cs d) = c d"
      using w [of d] blocks_cong [of "cs d" "pl_node p1" "pl_node p", OF eq] by (simp add: content_def)
    ultimately show ?thesis using False w [of d] by (simp add: state_ok_def)
  qed
qed

lemma buffers_step:
  assumes ok: "buffers_ok (p, bufs) c" and a: "op_ok a" and fit: "length (c b) + op_bytes a < 2 ^ 31"
  shows "\<exists>p1 sb1. run_op a (p, bufs b) = Some (Ok (fst (buffer_spec a (c b)), p1, sb1)) \<and>
    buffers_ok (p1, bufs(b := sb1)) (c(b := snd (buffer_spec a (c b))))"
proof -
  obtain cs fs where w: "\<And>b. state_ok (p, bufs b) (cs b) fs (others cs b) \<and> content (pl_node p) (bufs b) (cs b) = c b \<and> sb_size (bufs b) = int (length (c b))"
    using ok by (auto simp: buffers_ok_def)
  obtain p1 sb1 xs1 fs1 where r: "run_op a (p, bufs b) = Some (Ok (fst (buffer_spec a (c b)), p1, sb1))" "sb_size sb1 = int (length (snd (buffer_spec a (c b))))"
    and st: "state_ok (p1, sb1) xs1 fs1 (others cs b)" "keeps (others cs b) p p1" "content (pl_node p1) sb1 xs1 = snd (buffer_spec a (c b))"
    using run_op_ok [of p "bufs b" "cs b" fs "others cs b" a] w [of b] a fit by (auto simp: op_result_def)
  show ?thesis using r(1) buffers_ok_update [OF w st(1,2,3) r(2)] by blast
qed

lemma buffer_spec_length: "length (snd (buffer_spec a s)) \<le> length s + op_bytes a"
  by (cases a) (auto simp: buffer_spec_def split: option.splits)

lemma run_ops_ok:
  assumes "buffers_ok w c" "\<forall>(b, a)\<in>set ops. op_ok a" "\<forall>b. length (c b) + sum_list (map (op_bytes \<circ> snd) ops) < 2 ^ 31"
  shows "\<exists>w1. run_ops ops w = Some (Ok (buffer_specs ops c, w1))"
  using assms
proof (induction ops arbitrary: w c)
  case (Cons o1 ops)
  obtain b a p bufs where o1: "o1 = (b, a)" and w: "w = (p, bufs)" by (cases o1, cases w)
  have fit: "\<And>d. length (c d) + (op_bytes a + sum_list (map (op_bytes \<circ> snd) ops)) < 2 ^ 31" using Cons.prems(3) o1 by (simp add: comp_def)
  have "length (c b) + op_bytes a < 2 ^ 31" using fit [of b] by simp
  then obtain p1 sb1 where r: "run_op a (p, bufs b) = Some (Ok (fst (buffer_spec a (c b)), p1, sb1))"
      "buffers_ok (p1, bufs(b := sb1)) (c(b := snd (buffer_spec a (c b))))"
    using buffers_step [of p bufs c a b] Cons.prems(1,2) o1 w by auto
  have "\<forall>d. length ((c(b := snd (buffer_spec a (c b)))) d) + sum_list (map (op_bytes \<circ> snd) ops) < 2 ^ 31"
  proof
    fix d
    show "length ((c(b := snd (buffer_spec a (c b)))) d) + sum_list (map (op_bytes \<circ> snd) ops) < 2 ^ 31"
      using fit [of d] buffer_spec_length [of a "c b"] by (cases "d = b") simp_all
  qed
  moreover have "\<forall>(b, a)\<in>set ops. op_ok a" using Cons.prems(2) by simp
  ultimately obtain w1 where "run_ops ops (p1, bufs(b := sb1)) = Some (Ok (buffer_specs ops (c(b := snd (buffer_spec a (c b)))), w1))"
    using Cons.IH [OF r(2)] by blast
  then show ?case using r(1) o1 w by (cases w1) simp
qed simp

text \<open>C29: the receive buffers of the Lua socket library. Any sequence of pushes, pops, line reads, line checks, read-alls and clears
  on any number of buffers that share a pool of nodes, starting from an empty pool, returns what the same operations on byte strings
  return: \<open>pop\<close> the next bytes or nothing when there are not enough, \<open>readline\<close> what lies before the first separator, also when the
  separator is spread over several blocks. No operation fails an assertion, follows a bad link or reads outside a block, every loop
  ends, and no operation on one buffer changes another. Blocks are not empty, sizes asked for are not negative, and the bytes pushed fit
  into an \<open>int\<close>.\<close>

theorem recv_buffers_refine:
  assumes "\<forall>(b, a)\<in>set ops. op_ok a" and "sum_list (map (op_bytes \<circ> snd) ops) < 2 ^ 31"
  shows "\<exists>w. run_ops ops (new_pool, \<lambda>_. lnewbuffer) = Some (Ok (buffer_specs ops (\<lambda>_. []), w))"
  by (rule run_ops_ok [OF buffers_ok_init assms(1)]) (use assms(2) in simp)

theorem recv_buffers_refine_witness:
  "\<exists>w. run_ops [(1, Push_op [71, 13]), (2, Push_op [7]), (1, Push_op [10, 72]), (1, Check_op [13, 10]), (1, Readline_op [13, 10]), (2, Pop_op 2),
      (1, Readline_op [13, 10]), (2, Readall_op), (1, Pop_op 1)] (new_pool, \<lambda>_. lnewbuffer) =
    Some (Ok ([Size_result 2, Size_result 1, Size_result 4, Line_result L_true, Line_result (L_line [71]), Pop_result None 1,
      Line_result L_none, All_result [7], Pop_result (Some [72]) 0], w))"
proof -
  let ?ops = "[(1, Push_op [71, 13]), (2, Push_op [7]), (1, Push_op [10, 72]), (1, Check_op [13, 10]), (1, Readline_op [13, 10]), (2, Pop_op 2),
      (1, Readline_op [13, 10]), (2, Readall_op), (1, Pop_op 1)]"
  have "buffer_specs ?ops (\<lambda>_. []) = [Size_result 2, Size_result 1, Size_result 4, Line_result L_true, Line_result (L_line [71]), Pop_result None 1,
      Line_result L_none, All_result [7], Pop_result (Some [72]) 0]"
    by (simp add: buffer_spec_def find_line_def)
  then show ?thesis using recv_buffers_refine [of ?ops] by simp
qed

end
