(* ===== verification/Skynet_Seri.thy ===== *)
theory Skynet_Seri
  imports Skynet_Prelude
begin

text \<open>
  The serialisation of Lua values in \<open>lualib-src/lua-seri.c\<close>, the format of the messages between Lua
  services. Packing writes into a chain of 128-byte blocks that \<open>seri\<close> copies into one buffer;
  unpacking reads that buffer. A Lua table is given by what the Lua API shows of it: the values of
  indices 1 to \<open>lua_rawlen\<close>, and the pairs that \<open>lua_next\<close> visits (or the pairs that its \<open>__pairs\<close>
  metamethod yields). An unpacked table is the list of its array elements and the list of the pairs
  stored with \<open>lua_rawset\<close>. Integers are little-endian, as on the machines skynet runs on.

  The lemmas show that the block chain holds the concatenation of what was pushed, that unpacking never
  runs out of its recursion bound, and that a value that was packed is unpacked again.
\<close>

section \<open>Values and constants\<close>

datatype lua_value =
    LNil | LBool bool | LInt u64 | LReal u64 | LUserdata u64 | LString "byte list"
  | LTable "lua_value list" "(lua_value \<times> lua_value) list"
  | LMeta "(lua_value \<times> lua_value) list"
  | LOther

definition TYPE_NIL :: nat where "TYPE_NIL = 0"
definition TYPE_BOOLEAN :: nat where "TYPE_BOOLEAN = 1"
definition TYPE_NUMBER :: nat where "TYPE_NUMBER = 2"
definition TYPE_NUMBER_ZERO :: nat where "TYPE_NUMBER_ZERO = 0"
definition TYPE_NUMBER_BYTE :: nat where "TYPE_NUMBER_BYTE = 1"
definition TYPE_NUMBER_WORD :: nat where "TYPE_NUMBER_WORD = 2"
definition TYPE_NUMBER_DWORD :: nat where "TYPE_NUMBER_DWORD = 4"
definition TYPE_NUMBER_QWORD :: nat where "TYPE_NUMBER_QWORD = 6"
definition TYPE_NUMBER_REAL :: nat where "TYPE_NUMBER_REAL = 8"
definition TYPE_USERDATA :: nat where "TYPE_USERDATA = 3"
definition TYPE_SHORT_STRING :: nat where "TYPE_SHORT_STRING = 4"
definition TYPE_LONG_STRING :: nat where "TYPE_LONG_STRING = 5"
definition TYPE_TABLE :: nat where "TYPE_TABLE = 6"
definition MAX_COOKIE :: nat where "MAX_COOKIE = 32"
definition BLOCK_SIZE :: nat where "BLOCK_SIZE = 128"
definition MAX_DEPTH :: nat where "MAX_DEPTH = 32"

lemmas seri_consts = TYPE_NIL_def TYPE_BOOLEAN_def TYPE_NUMBER_def TYPE_NUMBER_ZERO_def TYPE_NUMBER_BYTE_def
  TYPE_NUMBER_WORD_def TYPE_NUMBER_DWORD_def TYPE_NUMBER_QWORD_def TYPE_NUMBER_REAL_def TYPE_USERDATA_def
  TYPE_SHORT_STRING_def TYPE_LONG_STRING_def TYPE_TABLE_def MAX_COOKIE_def MAX_DEPTH_def

text \<open>\<open>COMBINE_TYPE(t, v)\<close>, stored in a \<open>uint8_t\<close>.\<close>

definition COMBINE_TYPE :: "nat \<Rightarrow> int \<Rightarrow> byte" where
  "COMBINE_TYPE t v = of_nat t OR push_bit 3 (of_int v)"

fun le_bytes :: "nat \<Rightarrow> nat \<Rightarrow> byte list" where
  "le_bytes 0 v = []"
| "le_bytes (Suc n) v = of_nat v # le_bytes n (v div 256)"

fun le_nat :: "byte list \<Rightarrow> nat" where
  "le_nat [] = 0"
| "le_nat (b # bs) = unat b + 256 * le_nat bs"

section \<open>The block chain\<close>

text \<open>The blocks that are full, the written part of the current block (its length is \<open>ptr\<close>), \<open>len\<close>.\<close>

record write_block =
  wb_full :: "byte list list"
  wb_current :: "byte list"
  wb_len :: nat

definition wb_init :: write_block where
  "wb_init = \<lparr>wb_full = [], wb_current = [], wb_len = 0\<rparr>"

definition wb_grow :: "write_block \<Rightarrow> byte list \<Rightarrow> write_block res" where
  "wb_grow b bytes =
     (if wb_len b + length bytes \<ge> 2 ^ 31 then Err Int_overflow
      else Ok (b\<lparr>wb_current := wb_current b @ bytes, wb_len := wb_len b + length bytes\<rparr>))"

function wb_push :: "write_block \<Rightarrow> byte list \<Rightarrow> write_block res" where
  "wb_push b buffer =
     (let b1 = (if length (wb_current b) = BLOCK_SIZE
                then b\<lparr>wb_full := wb_full b @ [wb_current b], wb_current := []\<rparr> else b);
          ptr = length (wb_current b1) in
      if ptr + length buffer \<le> BLOCK_SIZE then wb_grow b1 buffer
      else if ptr > BLOCK_SIZE then Err Out_of_bounds
      else
        let copy = BLOCK_SIZE - ptr in
        res_bind (wb_grow b1 (take copy buffer)) (\<lambda>b2. wb_push b2 (drop copy buffer)))"
  by pat_completeness auto
termination
  by (relation "measure (\<lambda>(b, buffer). length buffer)") (auto simp: BLOCK_SIZE_def)

declare wb_push.simps [simp del]

definition wb_free :: "write_block \<Rightarrow> write_block" where
  "wb_free wb = \<lparr>wb_full = [], wb_current = [], wb_len = 0\<rparr>"

definition wb_nil :: "write_block \<Rightarrow> write_block res" where
  "wb_nil wb = wb_push wb [COMBINE_TYPE TYPE_NIL 0]"

definition wb_boolean :: "write_block \<Rightarrow> bool \<Rightarrow> write_block res" where
  "wb_boolean wb b = wb_push wb [COMBINE_TYPE TYPE_BOOLEAN (if b then 1 else 0)]"

definition wb_integer :: "write_block \<Rightarrow> u64 \<Rightarrow> write_block res" where
  "wb_integer wb v =
     (if v = 0 then wb_push wb [COMBINE_TYPE TYPE_NUMBER (int TYPE_NUMBER_ZERO)]
      else if sint v \<noteq> sint (ucast v :: u32) then
        res_bind (wb_push wb [COMBINE_TYPE TYPE_NUMBER (int TYPE_NUMBER_QWORD)]) (\<lambda>wb1. wb_push wb1 (le_bytes 8 (unat v)))
      else if sint v < 0 then
        res_bind (wb_push wb [COMBINE_TYPE TYPE_NUMBER (int TYPE_NUMBER_DWORD)]) (\<lambda>wb1. wb_push wb1 (le_bytes 4 (unat (ucast v :: u32))))
      else if sint v < 0x100 then
        res_bind (wb_push wb [COMBINE_TYPE TYPE_NUMBER (int TYPE_NUMBER_BYTE)]) (\<lambda>wb1. wb_push wb1 (le_bytes 1 (unat v)))
      else if sint v < 0x10000 then
        res_bind (wb_push wb [COMBINE_TYPE TYPE_NUMBER (int TYPE_NUMBER_WORD)]) (\<lambda>wb1. wb_push wb1 (le_bytes 2 (unat v)))
      else
        res_bind (wb_push wb [COMBINE_TYPE TYPE_NUMBER (int TYPE_NUMBER_DWORD)]) (\<lambda>wb1. wb_push wb1 (le_bytes 4 (unat (ucast v :: u32)))))"

definition wb_real :: "write_block \<Rightarrow> u64 \<Rightarrow> write_block res" where
  "wb_real wb v =
     res_bind (wb_push wb [COMBINE_TYPE TYPE_NUMBER (int TYPE_NUMBER_REAL)]) (\<lambda>wb1. wb_push wb1 (le_bytes 8 (unat v)))"

definition wb_pointer :: "write_block \<Rightarrow> u64 \<Rightarrow> write_block res" where
  "wb_pointer wb v =
     res_bind (wb_push wb [COMBINE_TYPE TYPE_USERDATA 0]) (\<lambda>wb1. wb_push wb1 (le_bytes 8 (unat v)))"

definition wb_string :: "write_block \<Rightarrow> byte list \<Rightarrow> int \<Rightarrow> write_block res" where
  "wb_string wb str len =
     (if len < int MAX_COOKIE then
        res_bind (wb_push wb [COMBINE_TYPE TYPE_SHORT_STRING len]) (\<lambda>wb1.
        if len > 0 then wb_push wb1 (take (nat len) str) else Ok wb1)
      else
        res_bind
          (if len < 0x10000 then
             res_bind (wb_push wb [COMBINE_TYPE TYPE_LONG_STRING 2]) (\<lambda>wb1. wb_push wb1 (le_bytes 2 (nat len)))
           else
             res_bind (wb_push wb [COMBINE_TYPE TYPE_LONG_STRING 4]) (\<lambda>wb1. wb_push wb1 (le_bytes 4 (nat len))))
          (\<lambda>wb2. wb_push wb2 (take (nat len) str)))"

section \<open>Packing\<close>

text \<open>The head of \<open>wb_table_array\<close>.\<close>

definition wb_array_size :: "write_block \<Rightarrow> int \<Rightarrow> write_block res" where
  "wb_array_size wb array_size =
     (if array_size \<ge> int MAX_COOKIE - 1 then
        res_bind (wb_push wb [COMBINE_TYPE TYPE_TABLE (int MAX_COOKIE - 1)]) (\<lambda>wb1. wb_integer wb1 (of_int array_size))
      else wb_push wb [COMBINE_TYPE TYPE_TABLE array_size])"

text \<open>The keys that \<open>wb_table_hash\<close> skips: they are in the array part.\<close>

fun array_key :: "int \<Rightarrow> lua_value \<Rightarrow> bool" where
  "array_key array_size (LInt x) \<longleftrightarrow> sint x > 0 \<and> sint x \<le> array_size"
| "array_key array_size _ \<longleftrightarrow> False"

text \<open>
  \<open>wb_elements\<close> and \<open>wb_hash_pairs\<close> are the loops of \<open>wb_table_array\<close> and \<open>wb_table_hash\<close>, and
  \<open>wb_meta_pairs\<close> that of \<open>wb_table_metapairs\<close>, which ends at the first nil key.
\<close>

function (sequential) pack_one :: "lua_value \<Rightarrow> nat \<Rightarrow> write_block \<Rightarrow> write_block res"
  and wb_elements :: "int \<Rightarrow> lua_value list \<Rightarrow> nat \<Rightarrow> write_block \<Rightarrow> write_block res"
  and wb_hash_pairs :: "int \<Rightarrow> (lua_value \<times> lua_value) list \<Rightarrow> nat \<Rightarrow> write_block \<Rightarrow> write_block res"
  and wb_meta_pairs :: "(lua_value \<times> lua_value) list \<Rightarrow> nat \<Rightarrow> write_block \<Rightarrow> write_block res"
where
  "pack_one v depth wb =
     (if depth > MAX_DEPTH then Err Lua_error
      else case v of
        LNil \<Rightarrow> wb_nil wb
      | LBool b \<Rightarrow> wb_boolean wb b
      | LInt x \<Rightarrow> wb_integer wb x
      | LReal x \<Rightarrow> wb_real wb x
      | LUserdata x \<Rightarrow> wb_pointer wb x
      | LString s \<Rightarrow> wb_string wb s (int_of_size (length s))
      | LTable arr pairs \<Rightarrow>
          let array_size = int_of_size (length arr) in
          res_bind (wb_array_size wb array_size) (\<lambda>wb1.
          res_bind (wb_elements array_size arr (Suc depth) wb1) (\<lambda>wb2.
          res_bind (wb_hash_pairs array_size pairs (Suc depth) wb2) wb_nil))
      | LMeta pairs \<Rightarrow>
          res_bind (wb_push wb [COMBINE_TYPE TYPE_TABLE 0]) (\<lambda>wb1.
          res_bind (wb_meta_pairs pairs (Suc depth) wb1) wb_nil)
      | LOther \<Rightarrow> Err Lua_error)"
| "wb_elements n [] depth wb = Ok wb"
| "wb_elements n (v # vs) depth wb =
     (if n \<le> 0 then Ok wb else res_bind (pack_one v depth wb) (wb_elements (n - 1) vs depth))"
| "wb_hash_pairs n [] depth wb = Ok wb"
| "wb_hash_pairs n ((k, v) # ps) depth wb =
     (if array_key n k then wb_hash_pairs n ps depth wb
      else res_bind (pack_one k depth wb) (\<lambda>wb1. res_bind (pack_one v depth wb1) (wb_hash_pairs n ps depth)))"
| "wb_meta_pairs [] depth wb = Ok wb"
| "wb_meta_pairs ((k, v) # ps) depth wb =
     (if k = LNil then Ok wb
      else res_bind (pack_one k depth wb) (\<lambda>wb1. res_bind (pack_one v depth wb1) (wb_meta_pairs ps depth)))"
  by pat_completeness auto
termination
  by (relation "measure (case_sum (case_sum (\<lambda>(v, _, _). size v) (\<lambda>(_, vs, _, _). size_list size vs))
        (case_sum (\<lambda>(_, ps, _, _). size_list (size_prod size size) ps)
          (\<lambda>(ps, _, _). size_list (size_prod size size) ps)))") auto

declare pack_one.simps [simp del]

fun pack_from :: "lua_value list \<Rightarrow> write_block \<Rightarrow> write_block res" where
  "pack_from [] wb = Ok wb"
| "pack_from (v # vs) wb = res_bind (pack_one v 0 wb) (pack_from vs)"

text \<open>\<open>seri\<close>: copy \<open>len\<close> bytes out of the chain.\<close>

fun seri_loop :: "byte list list \<Rightarrow> nat \<Rightarrow> byte list res" where
  "seri_loop [] len = (if len > 0 then Err Null_deref else Ok [])"
| "seri_loop (b # bs) len =
     (if len \<ge> BLOCK_SIZE then
        if length b = BLOCK_SIZE then res_bind (seri_loop bs (len - BLOCK_SIZE)) (\<lambda>rest. Ok (b @ rest))
        else Err Uninit_read
      else if len \<le> length b then Ok (take len b) else Err Uninit_read)"

definition seri :: "write_block \<Rightarrow> byte list res" where
  "seri wb = seri_loop (wb_full wb @ [wb_current wb]) (wb_len wb)"

definition luaseri_pack :: "lua_value list \<Rightarrow> byte list res" where
  "luaseri_pack vs = res_bind (pack_from vs wb_init) seri"

section \<open>Unpacking\<close>

text \<open>A read block is the list of the bytes that are left. A negative size passes the check of \<open>rb_read\<close>
  and the pointer leaves the buffer.\<close>

definition rb_read :: "byte list \<Rightarrow> int \<Rightarrow> (byte list option \<times> byte list) res" where
  "rb_read rb sz =
     (if int (length rb) < sz then Ok (None, rb)
      else if sz < 0 then Err Out_of_bounds
      else Ok (Some (take (nat sz) rb), drop (nat sz) rb))"

text \<open>\<open>rb_read\<close> with the callers' check for NULL.\<close>

definition rb_get :: "byte list \<Rightarrow> int \<Rightarrow> (byte list \<times> byte list) res" where
  "rb_get rb sz =
     res_bind (rb_read rb sz) (\<lambda>(p, rb1). case p of None \<Rightarrow> Err Lua_error | Some bytes \<Rightarrow> Ok (bytes, rb1))"

definition get_integer :: "byte list \<Rightarrow> nat \<Rightarrow> (u64 \<times> byte list) res" where
  "get_integer rb cookie =
     (if cookie = TYPE_NUMBER_ZERO then Ok (0, rb)
      else if cookie = TYPE_NUMBER_BYTE then res_bind (rb_get rb 1) (\<lambda>(p, rb1). Ok (of_nat (le_nat p), rb1))
      else if cookie = TYPE_NUMBER_WORD then res_bind (rb_get rb 2) (\<lambda>(p, rb1). Ok (of_nat (le_nat p), rb1))
      else if cookie = TYPE_NUMBER_DWORD then
        res_bind (rb_get rb 4) (\<lambda>(p, rb1). Ok (scast (of_nat (le_nat p) :: u32), rb1))
      else if cookie = TYPE_NUMBER_QWORD then res_bind (rb_get rb 8) (\<lambda>(p, rb1). Ok (of_nat (le_nat p), rb1))
      else Err Lua_error)"

definition get_real :: "byte list \<Rightarrow> (u64 \<times> byte list) res" where
  "get_real rb = res_bind (rb_get rb 8) (\<lambda>(p, rb1). Ok (of_nat (le_nat p), rb1))"

definition get_pointer :: "byte list \<Rightarrow> (u64 \<times> byte list) res" where
  "get_pointer rb = res_bind (rb_get rb 8) (\<lambda>(p, rb1). Ok (of_nat (le_nat p), rb1))"

definition get_buffer :: "byte list \<Rightarrow> int \<Rightarrow> (lua_value \<times> byte list) res" where
  "get_buffer rb len = res_bind (rb_get rb len) (\<lambda>(p, rb1). Ok (LString p, rb1))"

text \<open>\<open>lua_rawset\<close> refuses a NaN as a key.\<close>

definition is_nan :: "u64 \<Rightarrow> bool" where
  "is_nan x \<longleftrightarrow> take_bit 11 (drop_bit 52 x) = 0x7ff \<and> take_bit 52 x \<noteq> 0"

fun bad_key :: "lua_value \<Rightarrow> bool" where
  "bad_key (LReal x) \<longleftrightarrow> is_nan x"
| "bad_key _ \<longleftrightarrow> False"

text \<open>The array size of a table: the cookie, or a number that follows it, converted to an \<open>int\<close>.\<close>

definition unpack_size :: "byte list \<Rightarrow> nat \<Rightarrow> (int \<times> byte list) res" where
  "unpack_size rb array_size =
     (if array_size = MAX_COOKIE - 1 then
        res_bind (rb_get rb 1) (\<lambda>(t, rb1).
        let type = unat (t ! 0); cookie = type div 8 in
        if type mod 8 \<noteq> TYPE_NUMBER \<or> cookie = TYPE_NUMBER_REAL then Err Lua_error
        else res_bind (get_integer rb1 cookie) (\<lambda>(n, rb2). Ok (sint (ucast n :: u32), rb2)))
      else Ok (int array_size, rb))"

text \<open>The recursion of \<open>unpack_one\<close>, \<open>push_value\<close> and the two loops of \<open>unpack_table\<close>, bounded by \<open>fuel\<close>;
  lemma \<open>unpack_enough\<close> shows which bound is never reached.\<close>

fun unpack_one :: "nat \<Rightarrow> byte list \<Rightarrow> (lua_value \<times> byte list) res"
  and push_value :: "nat \<Rightarrow> nat \<Rightarrow> nat \<Rightarrow> byte list \<Rightarrow> (lua_value \<times> byte list) res"
  and unpack_array :: "nat \<Rightarrow> int \<Rightarrow> byte list \<Rightarrow> (lua_value list \<times> byte list) res"
  and unpack_hash :: "nat \<Rightarrow> byte list \<Rightarrow> ((lua_value \<times> lua_value) list \<times> byte list) res"
where
  "unpack_one 0 rb = Err Diverge"
| "unpack_one (Suc fuel) rb =
     res_bind (rb_get rb 1) (\<lambda>(t, rb1).
     push_value fuel (unat (t ! 0) mod 8) (unat (t ! 0) div 8) rb1)"
| "push_value 0 type cookie rb = Err Diverge"
| "push_value (Suc fuel) type cookie rb =
     (if type = TYPE_NIL then Ok (LNil, rb)
      else if type = TYPE_BOOLEAN then Ok (LBool (cookie \<noteq> 0), rb)
      else if type = TYPE_NUMBER then
        (if cookie = TYPE_NUMBER_REAL then res_bind (get_real rb) (\<lambda>(x, rb1). Ok (LReal x, rb1))
         else res_bind (get_integer rb cookie) (\<lambda>(x, rb1). Ok (LInt x, rb1)))
      else if type = TYPE_USERDATA then res_bind (get_pointer rb) (\<lambda>(x, rb1). Ok (LUserdata x, rb1))
      else if type = TYPE_SHORT_STRING then get_buffer rb (int cookie)
      else if type = TYPE_LONG_STRING then
        (if cookie = 2 then
           res_bind (rb_get rb 2) (\<lambda>(p, rb1). get_buffer rb1 (int (le_nat p)))
         else if cookie \<noteq> 4 then Err Lua_error
         else res_bind (rb_get rb 4) (\<lambda>(p, rb1). get_buffer rb1 (sint (of_nat (le_nat p) :: u32))))
      else if type = TYPE_TABLE then
        res_bind (unpack_size rb cookie) (\<lambda>(array_size, rb1).
        res_bind (unpack_array fuel array_size rb1) (\<lambda>(arr, rb2).
        res_bind (unpack_hash fuel rb2) (\<lambda>(pairs, rb3). Ok (LTable arr pairs, rb3))))
      else Err Lua_error)"
| "unpack_array 0 n rb = Err Diverge"
| "unpack_array (Suc fuel) n rb =
     (if n \<le> 0 then Ok ([], rb)
      else res_bind (unpack_one fuel rb) (\<lambda>(v, rb1).
        res_bind (unpack_array fuel (n - 1) rb1) (\<lambda>(vs, rb2). Ok (v # vs, rb2))))"
| "unpack_hash 0 rb = Err Diverge"
| "unpack_hash (Suc fuel) rb =
     res_bind (unpack_one fuel rb) (\<lambda>(k, rb1).
     if k = LNil then Ok ([], rb1)
     else res_bind (unpack_one fuel rb1) (\<lambda>(v, rb2).
       if bad_key k then Err Lua_error
       else res_bind (unpack_hash fuel rb2) (\<lambda>(ps, rb3). Ok ((k, v) # ps, rb3))))"

text \<open>The bound that the calls below use.\<close>

definition seri_fuel :: "byte list \<Rightarrow> nat" where
  "seri_fuel rb = 4 * length rb + 4"

text \<open>\<open>luaseri_unpack\<close>: values until the buffer is empty.\<close>

fun unpack_all :: "nat \<Rightarrow> nat \<Rightarrow> byte list \<Rightarrow> lua_value list res" where
  "unpack_all fuel 0 rb = Err Diverge"
| "unpack_all fuel (Suc n) rb =
     (case rb of
        [] \<Rightarrow> Ok []
      | t # rb1 \<Rightarrow>
          res_bind (push_value fuel (unat t mod 8) (unat t div 8) rb1) (\<lambda>(v, rb2).
          res_bind (unpack_all fuel n rb2) (\<lambda>vs. Ok (v # vs))))"

definition luaseri_unpack :: "byte list \<Rightarrow> lua_value list res" where
  "luaseri_unpack buffer = unpack_all (seri_fuel buffer) (Suc (length buffer)) buffer"

section \<open>The block chain holds what was pushed\<close>

definition wb_content :: "write_block \<Rightarrow> byte list" where
  "wb_content wb = concat (wb_full wb) @ wb_current wb"

definition wb_ok :: "write_block \<Rightarrow> bool" where
  "wb_ok wb \<longleftrightarrow> (\<forall>b\<in>set (wb_full wb). length b = BLOCK_SIZE) \<and> length (wb_current wb) \<le> BLOCK_SIZE \<and>
     wb_len wb = length (wb_content wb) \<and> wb_len wb < 2 ^ 31"

text \<open>\<open>wrote wb bytes r\<close>: the outcome \<open>r\<close> of a writer that appends \<open>bytes\<close>.\<close>

definition wrote :: "write_block \<Rightarrow> byte list \<Rightarrow> write_block res \<Rightarrow> bool" where
  "wrote wb bytes r \<longleftrightarrow>
     (if length (wb_content wb @ bytes) < 2 ^ 31
      then \<exists>wb'. r = Ok wb' \<and> wb_ok wb' \<and> wb_content wb' = wb_content wb @ bytes
      else r = Err Int_overflow)"

lemma wb_grow_wrote:
  assumes "wb_ok b" "length (wb_current b) + length bytes \<le> BLOCK_SIZE"
  shows "wrote b bytes (wb_grow b bytes)"
  using assms by (auto simp: wrote_def wb_grow_def wb_ok_def wb_content_def)

lemma wrote_nothing: "wb_ok wb \<Longrightarrow> wrote wb [] (Ok wb)"
  by (simp add: wrote_def wb_ok_def)

lemma wrote_Ok: "wrote wb bytes (Ok wb') \<Longrightarrow> wb_ok wb' \<and> wb_content wb' = wb_content wb @ bytes"
  by (auto simp: wrote_def split: if_splits)

lemma wrote_cases:
  assumes "wrote wb bytes r"
  obtains (ok) wb' where "r = Ok wb'" "wb_ok wb'" "wb_content wb' = wb_content wb @ bytes"
  | (full) "r = Err Int_overflow" "2 ^ 31 \<le> length (wb_content wb @ bytes)"
  using assms unfolding wrote_def by (meson not_le)

text \<open>Writers compose.\<close>

lemma wrote_bind:
  assumes "wrote wb xs r"
    and "\<And>wb'. wb_ok wb' \<Longrightarrow> wb_content wb' = wb_content wb @ xs \<Longrightarrow> wrote wb' ys (f wb')"
  shows "wrote wb (xs @ ys) (res_bind r f)"
  using assms(1)
proof (cases rule: wrote_cases)
  case (ok wb')
  with assms(2) [of wb'] show ?thesis by (auto simp: wrote_def)
next
  case full
  then show ?thesis by (simp add: wrote_def)
qed

lemma wb_push_wrote: "wb_ok b \<Longrightarrow> wrote b buffer (wb_push b buffer)"
proof (induction b buffer rule: wb_push.induct)
  case (1 b buffer)
  define b1 where "b1 = (if length (wb_current b) = BLOCK_SIZE
                then b\<lparr>wb_full := wb_full b @ [wb_current b], wb_current := []\<rparr> else b)"
  have b1: "wb_ok b1" "wb_content b1 = wb_content b" "length (wb_current b1) < BLOCK_SIZE"
    using "1.prems" by (auto simp: b1_def wb_ok_def wb_content_def BLOCK_SIZE_def)
  have same: "wrote b xs r = wrote b1 xs r" for xs r by (simp add: wrote_def b1(2))
  show ?case
  proof (cases "length (wb_current b1) + length buffer \<le> BLOCK_SIZE")
    case True
    with b1 show ?thesis unfolding same
      by (subst wb_push.simps) (simp add: b1_def [symmetric] Let_def wb_grow_wrote)
  next
    case False
    let ?copy = "BLOCK_SIZE - length (wb_current b1)"
    have "wrote b1 (take ?copy buffer @ drop ?copy buffer)
        (res_bind (wb_grow b1 (take ?copy buffer)) (\<lambda>b2. wb_push b2 (drop ?copy buffer)))"
    proof (rule wrote_bind)
      show "wrote b1 (take ?copy buffer) (wb_grow b1 (take ?copy buffer))"
        using b1 False by (intro wb_grow_wrote) auto
      show "wrote wb' (drop ?copy buffer) (wb_push wb' (drop ?copy buffer))" if "wb_ok wb'" for wb'
        using "1.IH" [OF b1_def refl _ _ refl that] False b1(3) by simp
    qed
    then show ?thesis using False b1(3) unfolding same
      by (subst wb_push.simps) (simp add: b1_def [symmetric] Let_def)
  qed
qed

lemma seri_loop_content:
  assumes "\<forall>b\<in>set bs. length b = BLOCK_SIZE" "length c \<le> BLOCK_SIZE"
  shows "seri_loop (bs @ [c]) (length (concat bs @ c)) = Ok (concat bs @ c)"
  using assms by (induction bs) (auto simp: BLOCK_SIZE_def)

lemma seri_content: "wb_ok wb \<Longrightarrow> seri wb = Ok (wb_content wb)"
  unfolding seri_def wb_ok_def wb_content_def using seri_loop_content by simp

section \<open>The encoding\<close>

text \<open>The byte string that stands for a value, without blocks, depth or failure.\<close>

definition enc_int :: "u64 \<Rightarrow> byte list" where
  "enc_int v =
     (if v = 0 then [2]
      else if sint v \<noteq> sint (ucast v :: u32) then 50 # le_bytes 8 (unat v)
      else if sint v < 0 then 34 # le_bytes 4 (unat (ucast v :: u32))
      else if sint v < 0x100 then 10 # le_bytes 1 (unat v)
      else if sint v < 0x10000 then 18 # le_bytes 2 (unat v)
      else 34 # le_bytes 4 (unat (ucast v :: u32)))"

definition enc_string :: "byte list \<Rightarrow> byte list" where
  "enc_string s =
     (if length s < 32 then [of_nat (4 + 8 * length s)]
      else if length s < 0x10000 then 21 # le_bytes 2 (length s)
      else 37 # le_bytes 4 (length s)) @ s"

definition enc_size :: "nat \<Rightarrow> byte list" where
  "enc_size n = (if n \<ge> 31 then 254 # enc_int (of_nat n) else [of_nat (6 + 8 * n)])"

function (sequential) enc :: "lua_value \<Rightarrow> byte list"
  and enc_elements :: "lua_value list \<Rightarrow> byte list"
  and enc_pairs :: "int \<Rightarrow> (lua_value \<times> lua_value) list \<Rightarrow> byte list"
where
  "enc LNil = [0]"
| "enc (LBool b) = [if b then 9 else 1]"
| "enc (LInt x) = enc_int x"
| "enc (LReal x) = 66 # le_bytes 8 (unat x)"
| "enc (LUserdata x) = 3 # le_bytes 8 (unat x)"
| "enc (LString s) = enc_string s"
| "enc (LTable arr ps) = enc_size (length arr) @ enc_elements arr @ enc_pairs (int (length arr)) ps @ [0]"
| "enc (LMeta ps) = 6 # enc_pairs 0 ps @ [0]"
| "enc LOther = []"
| "enc_elements [] = []"
| "enc_elements (v # vs) = enc v @ enc_elements vs"
| "enc_pairs n [] = []"
| "enc_pairs n ((k, v) # ps) = (if array_key n k then [] else enc k @ enc v) @ enc_pairs n ps"
  by pat_completeness auto
termination
  by (relation "measure (case_sum size (case_sum (size_list size) (\<lambda>(_, ps). size_list (size_prod size size) ps)))") auto

text \<open>The values that can be sent: nothing but data, nested at most \<open>MAX_DEPTH\<close> deep, with sizes that fit an
  \<open>int\<close> and with keys that a table can have.\<close>

function (sequential) value_ok :: "lua_value \<Rightarrow> nat \<Rightarrow> bool"
  and elements_ok :: "lua_value list \<Rightarrow> nat \<Rightarrow> bool"
  and pairs_ok :: "(lua_value \<times> lua_value) list \<Rightarrow> nat \<Rightarrow> bool"
where
  "value_ok v d \<longleftrightarrow> d \<le> MAX_DEPTH \<and>
     (case v of
        LString s \<Rightarrow> length s < 2 ^ 31
      | LTable arr ps \<Rightarrow> length arr < 2 ^ 31 \<and> elements_ok arr (Suc d) \<and> pairs_ok ps (Suc d)
      | LMeta ps \<Rightarrow> pairs_ok ps (Suc d)
      | LOther \<Rightarrow> False
      | _ \<Rightarrow> True)"
| "elements_ok [] d \<longleftrightarrow> True"
| "elements_ok (v # vs) d \<longleftrightarrow> value_ok v d \<and> elements_ok vs d"
| "pairs_ok [] d \<longleftrightarrow> True"
| "pairs_ok ((k, v) # ps) d \<longleftrightarrow> k \<noteq> LNil \<and> \<not> bad_key k \<and> value_ok k d \<and> value_ok v d \<and> pairs_ok ps d"
  by pat_completeness auto
termination
  by (relation "measure (case_sum (\<lambda>(v, _). size v) (case_sum (\<lambda>(vs, _). size_list size vs)
        (\<lambda>(ps, _). size_list (size_prod size size) ps)))") auto

declare value_ok.simps [simp del]

lemma combine_nat:
  assumes "t < 8" shows "COMBINE_TYPE t (int v) = of_nat (t + 8 * v)"
proof -
  have "bit t n \<Longrightarrow> n < 3" for n
    using bit_take_bit_iff [of 3 t n] assms by (simp add: take_bit_nat_eq_self)
  then have "(of_nat t :: byte) OR push_bit 3 (of_int (int v)) = of_nat t + push_bit 3 (of_int (int v))"
    by (intro disjunctive_add [symmetric]) (fastforce simp: bit_push_bit_iff bit_of_nat_iff)
  then show ?thesis by (simp add: COMBINE_TYPE_def push_bit_eq_mult)
qed

lemma length_le_bytes [simp]: "length (le_bytes n v) = n"
  by (induction n arbitrary: v) auto

lemma le_nat_bytes: "le_nat (le_bytes n v) = v mod 256 ^ n"
  by (induction n arbitrary: v) (auto simp: unat_of_nat mod_mult2_eq)

lemma rb_get_append: "length p = nat sz \<Longrightarrow> 0 \<le> sz \<Longrightarrow> rb_get (p @ rb) sz = Ok (p, rb)"
  by (simp add: rb_get_def rb_read_def)
lemma rb_get_cons [simp]: "rb_get (t # rb) 1 = Ok ([t], rb)"
  using rb_get_append [of "[t]" 1 rb] by simp

lemma wb_integer_wrote: "wb_ok wb \<Longrightarrow> wrote wb (enc_int v) (wb_integer wb v)"
  unfolding wb_integer_def enc_int_def
  using combine_nat [of TYPE_NUMBER TYPE_NUMBER_ZERO] combine_nat [of TYPE_NUMBER TYPE_NUMBER_BYTE] 
     combine_nat [of TYPE_NUMBER TYPE_NUMBER_WORD]  combine_nat [of TYPE_NUMBER TYPE_NUMBER_DWORD] combine_nat [of TYPE_NUMBER TYPE_NUMBER_QWORD]
  by (simp add: seri_consts wb_push_wrote wrote_bind [where xs = "[x]" for x, simplified])


lemma wb_cons_wrote:
  assumes "wb_ok wb"
  shows "wrote wb (x # bytes) (res_bind (wb_push wb [x]) (\<lambda>wb1. wb_push wb1 bytes))"
  using wrote_bind [OF wb_push_wrote [OF assms, of "[x]"] wb_push_wrote] by simp

lemma wb_nil_wrote: "wb_ok wb \<Longrightarrow> wrote wb [0] (wb_nil wb)"
  using combine_nat [of TYPE_NIL 0] by (simp add: wb_nil_def seri_consts wb_push_wrote)

lemma wb_string_wrote:
  assumes ok: "wb_ok wb" and n: "length s < 2 ^ 31"
  shows "wrote wb (enc_string s) (wb_string wb s (int (length s)))"
proof (cases "length s < 32")
  case True
  have "wrote wb ([of_nat (4 + 8 * length s)] @ s) (res_bind (wb_push wb [of_nat (4 + 8 * length s)])
      (\<lambda>wb1. if length s > 0 then wb_push wb1 s else Ok wb1))"
    using wb_push_wrote by (intro wrote_bind [OF wb_push_wrote [OF ok]]) (auto simp: wrote_nothing)
  with True combine_nat [of TYPE_SHORT_STRING "length s"] show ?thesis
    by (simp add: wb_string_def enc_string_def seri_consts cong: if_cong)
next
  case False
  let ?w = "if length s < 0x10000 then 2 else 4 :: nat"
  let ?h = "if length s < 0x10000 then 21 else 37 :: byte"
  have "wrote wb ((?h # le_bytes ?w (length s)) @ s)
      (res_bind (res_bind (wb_push wb [?h]) (\<lambda>wb1. wb_push wb1 (le_bytes ?w (length s)))) (\<lambda>wb2. wb_push wb2 s))"
    by (rule wrote_bind [OF wb_cons_wrote [OF ok] wb_push_wrote])
  with False combine_nat [of TYPE_LONG_STRING 2] combine_nat [of TYPE_LONG_STRING 4] show ?thesis
    by (auto simp: wb_string_def enc_string_def seri_consts)
qed

lemma wb_array_size_wrote:
  assumes ok: "wb_ok wb" and n: "n < 2 ^ 31"
  shows "wrote wb (enc_size n) (wb_array_size wb (int n))"
proof (cases "n \<ge> 31")
  case True
  have "wrote wb ([254] @ enc_int (of_nat n)) (res_bind (wb_push wb [254]) (\<lambda>wb1. wb_integer wb1 (of_nat n)))"
    by (rule wrote_bind [OF wb_push_wrote [OF ok] wb_integer_wrote])
  with True combine_nat [of TYPE_TABLE 31] show ?thesis by (simp add: wb_array_size_def enc_size_def seri_consts)
next
  case False
  with wb_push_wrote [OF ok] combine_nat [of TYPE_TABLE n] show ?thesis
    by (simp add: wb_array_size_def enc_size_def seri_consts)
qed

lemma wb_scalar_wrote:
  assumes "wb_ok wb"
  shows "wrote wb [if b then 9 else 1] (wb_boolean wb b)"
    and "wrote wb (66 # le_bytes 8 (unat x)) (wb_real wb x)"
    and "wrote wb (3 # le_bytes 8 (unat x)) (wb_pointer wb x)"
  using assms combine_nat [of TYPE_BOOLEAN 0] combine_nat [of TYPE_BOOLEAN 1]
    combine_nat [of TYPE_NUMBER TYPE_NUMBER_REAL] combine_nat [of TYPE_USERDATA 0]
  by (simp_all add: wb_boolean_def wb_real_def wb_pointer_def seri_consts wb_push_wrote wb_cons_wrote)

lemmas scalars_wrote = wb_nil_wrote wb_scalar_wrote wb_integer_wrote wb_string_wrote

lemma array_key_0 [simp]: "\<not> array_key 0 k"
  by (cases k) auto

lemma pack_wrote:
  "value_ok v d \<Longrightarrow> wb_ok wb \<Longrightarrow> wrote wb (enc v) (pack_one v d wb)"
  "elements_ok vs d \<Longrightarrow> int (length vs) = n \<Longrightarrow> wb_ok wb \<Longrightarrow> wrote wb (enc_elements vs) (wb_elements n vs d wb)"
  "pairs_ok ps d \<Longrightarrow> wb_ok wb \<Longrightarrow> wrote wb (enc_pairs n ps) (wb_hash_pairs n ps d wb)"
  "pairs_ok ps d \<Longrightarrow> wb_ok wb \<Longrightarrow> wrote wb (enc_pairs 0 ps) (wb_meta_pairs ps d wb)"
proof (induction v d wb and n vs d wb and n ps d wb and ps d wb rule: pack_one_wb_elements_wb_hash_pairs_wb_meta_pairs.induct)
  case (1 v depth wb)
  from "1.prems" have d: "depth \<le> MAX_DEPTH" by (simp add: value_ok.simps)
  show ?case
  proof (cases v)
    case (LTable arr ps)
    let ?n = "int (length arr)"
    have w: "length arr < 2 ^ 31" "elements_ok arr (Suc depth)" "pairs_ok ps (Suc depth)"
      using "1.prems"(1) unfolding LTable by (simp_all add: value_ok.simps)
    have "wrote wb (enc_size (length arr) @ enc_elements arr @ enc_pairs ?n ps @ [0])
        (res_bind (wb_array_size wb ?n) (\<lambda>wb1. res_bind (wb_elements ?n arr (Suc depth) wb1) (\<lambda>wb2.
          res_bind (wb_hash_pairs ?n ps (Suc depth) wb2) wb_nil)))"
      using w "1.IH"(1,2) [OF _ LTable] d "1.prems"(2)
      by (intro wrote_bind) (simp_all add: wb_array_size_wrote wb_nil_wrote)
    with d w(1) show ?thesis unfolding LTable by (simp add: pack_one.simps Let_def)
  next
    case (LMeta ps)
    have w: "pairs_ok ps (Suc depth)" using "1.prems"(1) unfolding LMeta by (simp add: value_ok.simps)
    have "wrote wb ([6] @ enc_pairs 0 ps @ [0])
        (res_bind (wb_push wb [6]) (\<lambda>wb1. res_bind (wb_meta_pairs ps (Suc depth) wb1) wb_nil))"
      using w "1.IH"(3) [OF _ LMeta] d "1.prems"(2)
      by (intro wrote_bind) (simp_all add: wb_push_wrote wb_nil_wrote)
    with d combine_nat [of TYPE_TABLE 0] show ?thesis unfolding LMeta by (simp add: pack_one.simps seri_consts)
  qed (use "1.prems" d in \<open>simp_all add: pack_one.simps value_ok.simps scalars_wrote\<close>)
next
  case (2 n depth wb)
  then show ?case by (simp add: wrote_nothing)
next
  case (3 n v vs depth wb)
  then show ?case by (auto intro!: wrote_bind)
next
  case (4 n depth wb)
  then show ?case by (simp add: wrote_nothing)
next
  case (5 n k v ps depth wb)
  then show ?case by (auto intro!: wrote_bind)
next
  case (6 depth wb)
  then show ?case by (simp add: wrote_nothing)
next
  case (7 k v ps depth wb)
  then show ?case by (auto intro!: wrote_bind)
qed


section \<open>Decoding what was encoded\<close>

text \<open>What the receiver has: a table with a \<open>__pairs\<close> metamethod arrives as the table of its pairs, and the
  pairs that the array part already holds are not sent twice.\<close>

function (sequential) norm :: "lua_value \<Rightarrow> lua_value"
  and norm_elements :: "lua_value list \<Rightarrow> lua_value list"
  and norm_pairs :: "int \<Rightarrow> (lua_value \<times> lua_value) list \<Rightarrow> (lua_value \<times> lua_value) list"
where
  "norm (LTable arr ps) = LTable (norm_elements arr) (norm_pairs (int (length arr)) ps)"
| "norm (LMeta ps) = LTable [] (norm_pairs 0 ps)"
| "norm v = v"
| "norm_elements [] = []"
| "norm_elements (v # vs) = norm v # norm_elements vs"
| "norm_pairs n [] = []"
| "norm_pairs n ((k, v) # ps) = (if array_key n k then norm_pairs n ps else (norm k, norm v) # norm_pairs n ps)"
  by pat_completeness auto
termination
  by (relation "measure (case_sum size (case_sum (size_list size) (\<lambda>(_, ps). size_list (size_prod size size) ps)))") auto

lemma norm_nil [simp]: "norm k = LNil \<longleftrightarrow> k = LNil"
  by (cases k) auto

lemma bad_key_norm [simp]: "bad_key (norm k) \<longleftrightarrow> bad_key k"
  by (cases k) auto

lemma u64_back:
  assumes "sint v = sint (ucast v :: u32)"
  shows "scast (ucast v :: u32) = (v :: u64)"
proof -
  have "scast (ucast v :: u32) = (word_of_int (sint v) :: u64)" by (simp only: scast_eq assms [symmetric])
  then show ?thesis by simp
qed

lemma u64_nonneg: "0 \<le> sint (v :: u64) \<Longrightarrow> int (unat v) = sint v"
  using sint_less [of v] by (simp add: uint_sint take_bit_int_eq_self)

lemma u64_of_le:
  assumes "unat (v :: u64) < 256 ^ n"
  shows "of_nat (le_nat (le_bytes n (unat v))) = v"
  using assms by (simp add: le_nat_bytes)

lemma u64_small: "0 \<le> sint (v :: u64) \<Longrightarrow> sint v < int k \<Longrightarrow> unat v < k"
  by (metis u64_nonneg of_nat_less_iff)

lemma unat_u64: "unat (v :: u64) < 256 ^ 8" 
  using unsigned_less [of v] by simp
lemma unat_u32: "unat (v :: u32) < 256 ^ 4" 
  using unsigned_less [of v] by simp

lemma enc_int_cases [consumes 1, case_names zero byte word dword qword]:
  assumes "enc_int v = t # bs"
  obtains "v = 0" "t = 2" "bs = []"
  | "t = 10" "bs = le_bytes 1 (unat v)" "unat v < 256 ^ 1"
  | "t = 18" "bs = le_bytes 2 (unat v)" "unat v < 256 ^ 2"
  | "t = 34" "bs = le_bytes 4 (unat (ucast v :: u32))" "scast (ucast v :: u32) = v"
  | "t = 50" "bs = le_bytes 8 (unat v)"
  using assms u64_small [of v 256] u64_small [of v 65536] u64_back [of v]
  unfolding enc_int_def by (simp split: if_splits)

lemma get_enc_int:
  assumes "enc_int v = t # bs"
  shows "get_integer (bs @ rest) (unat t div 8) = Ok (v, rest)" "unat t mod 8 = 2" "unat t div 8 < 8"
proof -
  have "get_integer (bs @ rest) (unat t div 8) = Ok (v, rest) \<and> unat t mod 8 = 2 \<and> unat t div 8 < 8"
    using assms
  proof (cases rule: enc_int_cases)
    case zero
    then show ?thesis by (simp add: get_integer_def seri_consts)
  next
    case byte
    then show ?thesis using u64_of_le [of v 1] by (simp add: get_integer_def seri_consts rb_get_append del: le_bytes.simps)
  next
    case word
    then show ?thesis using u64_of_le [of v 2] by (simp add: get_integer_def seri_consts rb_get_append)
  next
    case dword
    have "(of_nat (le_nat (le_bytes 4 (unat (ucast v :: u32)))) :: u32) = ucast v"
      using unat_u32 [of "ucast v"] by (simp add: le_nat_bytes)
    with dword show ?thesis by (simp add: get_integer_def seri_consts rb_get_append)
  next
    case qword
    then show ?thesis using u64_of_le [OF unat_u64, of v]
      by (simp add: get_integer_def seri_consts rb_get_append)
  qed
  then show "get_integer (bs @ rest) (unat t div 8) = Ok (v, rest)" "unat t mod 8 = 2" "unat t div 8 < 8" by simp_all
qed

lemma enc_int_nonempty: obtains t bs where "enc_int v = t # bs"
  by (cases "enc_int v") (auto simp: enc_int_def split: if_splits)

lemma int_size_back:
  assumes "n < 2 ^ 31"
  shows "sint (ucast (of_nat n :: u64) :: u32) = int n"
proof -
  have "unat (of_nat n :: u64) = n" using assms by (simp add: unat_of_nat)
  then have "(ucast (of_nat n :: u64) :: u32) = of_nat n" by (metis of_nat_unat)
  with int_of_size [OF assms] show ?thesis by (simp add: int_of_size_def)
qed

lemma unpack_enc_size:
  assumes "enc_size n = t # bs" "n < 2 ^ 31"
  shows "unpack_size (bs @ rest) (unat t div 8) = Ok (int n, rest)" "unat t mod 8 = 6"
proof -
  have "unpack_size (bs @ rest) (unat t div 8) = Ok (int n, rest) \<and> unat t mod 8 = 6"
  proof (cases "n \<ge> 31")
    case True
    obtain t' bs' where e: "enc_int (of_nat n) = t' # bs'" by (rule enc_int_nonempty)
    with True assms(1) have "t = 254" "bs = t' # bs'" by (auto simp: enc_size_def)
    with get_enc_int [OF e] int_size_back [OF assms(2)] show ?thesis by (simp add: unpack_size_def seri_consts)
  next
    case False
    with assms(1) have "t = of_nat (6 + 8 * n)" "bs = []" by (auto simp: enc_size_def)
    moreover from False have "unat (of_nat (6 + 8 * n) :: byte) = 6 + 8 * n" by (simp only: unat_of_nat) simp
    ultimately show ?thesis using False by (simp add: unpack_size_def seri_consts)
  qed
  then show "unpack_size (bs @ rest) (unat t div 8) = Ok (int n, rest)" "unat t mod 8 = 6" by simp_all
qed

lemma unpack_enc_string:
  assumes "length s < 2 ^ 31"
  shows "unpack_one (Suc (Suc f)) (enc_string s @ rest) = Ok (LString s, rest)"
proof (cases "length s < 32")
  case True
  have "unat (of_nat (4 + 8 * length s) :: byte) = 4 + 8 * length s" using True by (simp only: unat_of_nat) simp
  with True show ?thesis by (simp add: enc_string_def seri_consts get_buffer_def rb_get_append)
next
  case False
  have "(of_nat (le_nat (le_bytes 4 (length s))) :: u32) = of_nat (length s)"
    using assms by (simp add: le_nat_bytes)
  with False int_of_size [OF assms] show ?thesis
    by (simp add: enc_string_def seri_consts get_buffer_def rb_get_append le_nat_bytes int_of_size_def)
qed

lemma unpack_enc_scalar:
  "unpack_one (Suc (Suc f)) (0 # rest) = Ok (LNil, rest)"
  "unpack_one (Suc (Suc f)) ((if b then 9 else 1) # rest) = Ok (LBool b, rest)"
  "unpack_one (Suc (Suc f)) (enc_int x @ rest) = Ok (LInt x, rest)"
  "unpack_one (Suc (Suc f)) (66 # le_bytes 8 (unat x) @ rest) = Ok (LReal x, rest)"
  "unpack_one (Suc (Suc f)) (3 # le_bytes 8 (unat x) @ rest) = Ok (LUserdata x, rest)"
proof -
  obtain t bs where e: "enc_int x = t # bs" by (rule enc_int_nonempty)
  from get_enc_int [OF e] show "unpack_one (Suc (Suc f)) (enc_int x @ rest) = Ok (LInt x, rest)"
    by (simp add: e seri_consts)
qed (use u64_of_le [OF unat_u64, of x] in \<open>simp_all add: seri_consts get_real_def get_pointer_def rb_get_append\<close>)

lemma enc_nonempty: "value_ok v d \<Longrightarrow> 1 \<le> length (enc v)"
  by (cases v; simp add: enc_string_def enc_size_def value_ok.simps Suc_le_eq)
   (metis enc_int_nonempty list.discI)

lemma fuel_2: "2 \<le> fuel \<Longrightarrow> (\<And>f. fuel = Suc (Suc f) \<Longrightarrow> thesis) \<Longrightarrow> thesis"
  by (cases fuel; cases "fuel - 1") auto

lemma unpack_enc_flat:
  assumes "value_ok v d" "3 * length (enc v) + 1 \<le> fuel" "case v of LTable arr ps \<Rightarrow> False | LMeta ps \<Rightarrow> False | _ \<Rightarrow> True"
  shows "unpack_one fuel (enc v @ rest) = Ok (norm v, rest)"
proof -
  from enc_nonempty [OF assms(1)] assms(2) have "2 \<le> fuel" by linarith
  then obtain f where "fuel = Suc (Suc f)" by (rule fuel_2)
  with assms unpack_enc_scalar(2) [of f] show ?thesis
    by (cases v) (simp_all add: unpack_enc_scalar unpack_enc_string value_ok.simps del: unpack_one.simps)
qed

lemma unpack_enc_table:
  assumes "\<And>fuel rest. 3 * length (enc_elements arr) + 2 \<le> fuel \<Longrightarrow>
      unpack_array fuel (int n) (enc_elements arr @ rest) = Ok (arr', rest)"
    and "\<And>fuel rest. 3 * length (hash @ [0]) + 2 \<le> fuel \<Longrightarrow> unpack_hash fuel (hash @ 0 # rest) = Ok (ps', rest)"
    and n: "n < 2 ^ 31" and f: "3 * length (enc_size n @ enc_elements arr @ hash @ [0]) + 1 \<le> fuel"
  shows "unpack_one fuel (enc_size n @ enc_elements arr @ hash @ 0 # rest) = Ok (LTable arr' ps', rest)"
proof -
  obtain t bs where e: "enc_size n = t # bs" by (cases "enc_size n") (auto simp: enc_size_def split: if_splits)
  from f have "2 \<le> fuel" by simp
  then obtain f' where f': "fuel = Suc (Suc f')" by (rule fuel_2)
  have "3 * length (enc_elements arr) + 2 \<le> f'" "3 * length (hash @ [0]) + 2 \<le> f'" using f by (auto simp: f' e)
  with assms(1,2) unpack_enc_size [OF e n] show ?thesis by (simp add: f' e seri_consts)
qed

declare unpack_one.simps [simp del] push_value.simps [simp del]

lemma unpack_enc:
  "value_ok v d \<Longrightarrow> 3 * length (enc v) + 1 \<le> fuel \<Longrightarrow> unpack_one fuel (enc v @ rest) = Ok (norm v, rest)"
  "elements_ok vs d \<Longrightarrow> 3 * length (enc_elements vs) + 2 \<le> fuel \<Longrightarrow>
     unpack_array fuel (int (length vs)) (enc_elements vs @ rest) = Ok (norm_elements vs, rest)"
  "pairs_ok ps d \<Longrightarrow> 3 * length (enc_pairs n ps @ [0]) + 2 \<le> fuel \<Longrightarrow>
     unpack_hash fuel (enc_pairs n ps @ 0 # rest) = Ok (norm_pairs n ps, rest)"
proof (induction v and vs and n ps arbitrary: d fuel rest and d fuel rest and d fuel rest rule: enc_enc_elements_enc_pairs.induct)
  case (7 arr ps)
  from "7.prems"(1) have w: "length arr < 2 ^ 31" "elements_ok arr (Suc d)" "pairs_ok ps (Suc d)"
    by (simp_all add: value_ok.simps)
  then show ?case using unpack_enc_table [OF "7.IH"(1) "7.IH"(2), OF w(2) _ w(3) _ w(1)] "7.prems"(2) by simp
next
  case (8 ps)
  from "8.prems"(1) have w: "pairs_ok ps (Suc d)" by (simp add: value_ok.simps)
  have "unpack_array f (int 0) (enc_elements [] @ r) = Ok ([], r)" if "3 * length (enc_elements []) + 2 \<le> f" for f r
    using that by (cases f) simp_all
  from unpack_enc_table [OF this "8.IH" [OF w], of fuel rest] "8.prems"(2) show ?case by (simp add: enc_size_def)
next
  case 10
  then show ?case by (cases fuel) simp_all
next
  case (11 v vs)
  from "11.prems" obtain f where f: "fuel = Suc f" by (cases fuel) auto
  from "11.prems" have w: "value_ok v d" "elements_ok vs d" by simp_all
  have "3 * length (enc v) + 1 \<le> f" "3 * length (enc_elements vs) + 2 \<le> f"
    using "11.prems"(2) enc_nonempty [OF w(1)] by (auto simp: f)
  then show ?case using "11.IH"(1) [OF w(1), of f] "11.IH"(2) [OF w(2), of f] by (simp add: f)
next
  case (12 n)
  then obtain f where "fuel = Suc (Suc (Suc f))" using fuel_2 [of "fuel - 1"] by (cases fuel) auto
  then show ?case by (simp add: unpack_enc_scalar(1))
next
  case (13 n k v ps)
  from "13.prems" have w: "k \<noteq> LNil" "\<not> bad_key k" "value_ok k d" "value_ok v d" "pairs_ok ps d" by simp_all
  show ?case
  proof (cases "array_key n k")
    case True
    with "13.IH"(3) [OF w(5)] "13.prems"(2) show ?thesis by simp
  next
    case False
    from "13.prems" obtain f where f: "fuel = Suc f" by (cases fuel) auto
    have "3 * length (enc k) + 1 \<le> f" "3 * length (enc v) + 1 \<le> f" "3 * length (enc_pairs n ps @ [0]) + 2 \<le> f"
      using "13.prems"(2) False enc_nonempty [OF w(3)] enc_nonempty [OF w(4)] by (auto simp: f)
    with "13.IH"(1,2) [OF False] "13.IH"(3) w False show ?thesis by (simp add: f)
  qed
qed (simp_all only: unpack_enc_flat lua_value.case)

lemma unpack_all_enc:
  assumes "elements_ok vs 0" "3 * length (enc_elements vs) \<le> fuel" "length (enc_elements vs) < n"
  shows "unpack_all fuel n (enc_elements vs) = Ok (norm_elements vs)"
  using assms
proof (induction vs arbitrary: n)
  case Nil
  then show ?case by (cases n) simp_all
next
  case (Cons v vs)
  from Cons.prems(1) have w: "value_ok v 0" "elements_ok vs 0" by simp_all
  from Cons.prems(3) obtain m where m: "n = Suc m" by (cases n) auto
  obtain t bs where e: "enc v = t # bs" using enc_nonempty [OF w(1)] by (cases "enc v") auto
  have "unpack_one (Suc fuel) (enc v @ enc_elements vs) = Ok (norm v, enc_elements vs)"
    using w(1) Cons.prems(2) by (intro unpack_enc(1)) auto
  then have "push_value fuel (unat t mod 8) (unat t div 8) (bs @ enc_elements vs) = Ok (norm v, enc_elements vs)"
    by (simp add: e unpack_one.simps)
  with Cons.IH [of m] Cons.prems w show ?case by (simp add: m e)
qed

lemma pack_from_wrote: "elements_ok vs 0 \<Longrightarrow> wb_ok wb \<Longrightarrow> wrote wb (enc_elements vs) (pack_from vs wb)"
  by (induction vs arbitrary: wb) (auto simp: wrote_nothing intro!: wrote_bind pack_wrote(1))

section \<open>Unpacking any buffer\<close>

text \<open>The outcome of a reader: at least \<open>k\<close> bytes are gone, or the stream is refused, or a length is negative.\<close>

definition reads :: "nat \<Rightarrow> byte list \<Rightarrow> ('a \<times> byte list) res \<Rightarrow> bool" where
  "reads k rb r \<longleftrightarrow> (case r of Ok (v, rb1) \<Rightarrow> length rb1 + k \<le> length rb | Err e \<Rightarrow> e = Lua_error \<or> e = Out_of_bounds)"

lemma reads_Ok [simp]: "reads k rb (Ok (v, rb1)) \<longleftrightarrow> length rb1 + k \<le> length rb"
  by (simp add: reads_def)

lemma reads_Err [simp]: "reads k rb (Err e) \<longleftrightarrow> e = Lua_error \<or> e = Out_of_bounds"
  by (simp add: reads_def)

lemma reads_bind:
  assumes "reads j rb r" "\<And>v rb1. r = Ok (v, rb1) \<Longrightarrow> length rb1 + j \<le> length rb \<Longrightarrow> reads k rb1 (f (v, rb1))"
  shows "reads (j + k) rb (res_bind r f)"
proof (cases r)
  case (Ok p)
  obtain v rb1 where p: "p = (v, rb1)" by (cases p)
  from assms(1) have l: "length rb1 + j \<le> length rb" by (simp add: Ok p)
  from assms(2) [of v rb1] l have "reads k rb1 (f (v, rb1))" by (simp add: Ok p)
  with l show ?thesis by (auto simp: Ok p reads_def split: res.splits)
next
  case (Err e)
  with assms(1) show ?thesis by simp
qed

lemma rb_get_reads: "reads (nat sz) rb (rb_get rb sz)"
  by (auto simp: rb_get_def rb_read_def)

lemma get_integer_reads: "reads 0 rb (get_integer rb cookie)"
  unfolding get_integer_def
  by (auto intro!: reads_bind [of 0 _ _ 0, simplified] simp: reads_def rb_get_def rb_read_def)

lemma get_fixed_reads: "reads 0 rb (get_real rb)" "reads 0 rb (get_pointer rb)" "reads 0 rb (get_buffer rb len)"
  unfolding get_real_def get_pointer_def get_buffer_def
  by (auto intro!: reads_bind [of 0 _ _ 0, simplified] simp: reads_def rb_get_def rb_read_def)

lemma rb_get_reads_0: "reads 0 rb (rb_get rb sz)"
  by (auto simp: rb_get_def rb_read_def)

lemma rb_get_1: "reads 1 rb (rb_get rb 1)"
  using rb_get_reads [of 1] by simp

lemmas reads_bind_0 = reads_bind [of 0 _ _ 0, simplified]

lemma unpack_size_reads: "reads 0 rb (unpack_size rb n)"
  unfolding unpack_size_def
  by (auto intro!: reads_bind_0 rb_get_reads_0 get_integer_reads simp: Let_def)

lemma reads_weaken: "reads k rb r \<Longrightarrow> reads 0 rb r"
  by (auto simp: reads_def split: res.splits)

lemmas reads_atoms = rb_get_reads_0 get_integer_reads get_fixed_reads unpack_size_reads

lemma reads_bind_Ok: "reads 0 rb r \<Longrightarrow> reads 0 rb (res_bind r (\<lambda>(x, rb1). Ok (f x, rb1)))"
  by (rule reads_bind_0) auto

lemma long_string_reads:
  "reads 0 rb (res_bind (rb_get rb sz) (\<lambda>(p, rb1). get_buffer rb1 (f p)))"
  by (intro reads_bind_0 reads_atoms) (auto intro: reads_atoms)

lemma push_flat_reads: "type \<noteq> TYPE_TABLE \<Longrightarrow> reads 0 rb (push_value (Suc fuel) type cookie rb)"
  unfolding push_value.simps
  by (simp add: reads_bind_Ok long_string_reads reads_atoms)

lemma push_table_reads:
  assumes "\<And>n rb1. length rb1 \<le> length rb \<Longrightarrow> reads 0 rb1 (unpack_array fuel n rb1)"
    and "\<And>rb1. length rb1 \<le> length rb \<Longrightarrow> reads 0 rb1 (unpack_hash fuel rb1)"
  shows "reads 0 rb (push_value (Suc fuel) TYPE_TABLE cookie rb)"
proof -
  have "reads 0 rb (res_bind (unpack_size rb cookie) (\<lambda>(array_size, rb1).
      res_bind (unpack_array fuel array_size rb1) (\<lambda>(arr, rb2).
      res_bind (unpack_hash fuel rb2) (\<lambda>(pairs, rb3). Ok (LTable arr pairs, rb3)))))"
    by (rule reads_bind_0 [OF unpack_size_reads]) (auto intro!: reads_bind_0 reads_bind_Ok assms)
  then show ?thesis by (simp add: push_value.simps seri_consts)
qed

lemma unpack_reads:
  "3 * length rb + 1 \<le> fuel \<Longrightarrow> reads 1 rb (unpack_one fuel rb)"
  "3 * length rb + 3 \<le> fuel \<Longrightarrow> reads 0 rb (push_value fuel type cookie rb)"
  "3 * length rb + 2 \<le> fuel \<Longrightarrow> reads 0 rb (unpack_array fuel n rb)"
  "3 * length rb + 2 \<le> fuel \<Longrightarrow> reads 0 rb (unpack_hash fuel rb)"
proof (induction fuel arbitrary: rb type cookie n)
  case (Suc fuel)
  {
    case 1
    have "reads (1 + 0) rb (unpack_one (Suc fuel) rb)"
      unfolding unpack_one.simps using Suc.IH(2) 1 by (intro reads_bind [OF rb_get_1]) auto
    then show ?case by simp
  next
    case 2
    then have "\<And>n rb1. length rb1 \<le> length rb \<Longrightarrow> reads 0 rb1 (unpack_array fuel n rb1)"
      "\<And>rb1. length rb1 \<le> length rb \<Longrightarrow> reads 0 rb1 (unpack_hash fuel rb1)"
      using Suc.IH(3,4) by auto
    then show ?case using push_table_reads push_flat_reads by (cases "type = TYPE_TABLE") auto
  next
    case 3
    then have "reads 1 rb (unpack_one fuel rb)" by (intro Suc.IH(1)) simp
    moreover have "reads 0 rb1 (res_bind (unpack_array fuel (n - 1) rb1) (\<lambda>(vs, rb2). Ok (v # vs, rb2)))"
      if "length rb1 + 1 \<le> length rb" for v rb1
      using that 3 by (intro reads_bind_Ok Suc.IH(3)) simp
    ultimately have "reads (1 + 0) rb (res_bind (unpack_one fuel rb) (\<lambda>(v, rb1).
        res_bind (unpack_array fuel (n - 1) rb1) (\<lambda>(vs, rb2). Ok (v # vs, rb2))))"
      by (intro reads_bind) auto
    then show ?case by (auto dest: reads_weaken)
  next
    case 4
    have one: "reads 1 rb1 (unpack_one fuel rb1)" if "length rb1 \<le> length rb" for rb1
      using 4 that by (intro Suc.IH(1)) simp
    have "reads 0 rb2 (res_bind (unpack_hash fuel rb2) (\<lambda>(ps, rb3). Ok ((k, v) # ps, rb3)))"
      if "length rb2 + 1 \<le> length rb" for k v rb2
      using that 4 by (intro reads_bind_Ok Suc.IH(4)) simp
    then have "reads (1 + 0) rb1 (res_bind (unpack_one fuel rb1) (\<lambda>(v, rb2). if bad_key k then Err Lua_error
        else res_bind (unpack_hash fuel rb2) (\<lambda>(ps, rb3). Ok ((k, v) # ps, rb3))))"
      if "length rb1 \<le> length rb" for k rb1
      using that by (intro reads_bind [OF one]) auto
    note reads_weaken [OF this]
    then have "reads (1 + 0) rb (unpack_hash (Suc fuel) rb)"
      unfolding unpack_hash.simps by (intro reads_bind [OF one]) auto
    then show ?case by (rule reads_weaken)
  }
qed simp_all

lemma unpack_all_total:
  assumes "3 * length rb \<le> fuel" "length rb < n" "unpack_all fuel n rb = Err e"
  shows "e = Lua_error \<or> e = Out_of_bounds"
  using assms
proof (induction n arbitrary: rb)
  case (Suc n)
  then obtain t rb1 where rb: "rb = t # rb1" by (cases rb) auto
  with Suc.prems have r: "reads 0 rb1 (push_value fuel (unat t mod 8) (unat t div 8) rb1)"
    by (intro unpack_reads(2)) simp
  show ?case
  proof (cases "push_value fuel (unat t mod 8) (unat t div 8) rb1")
    case (Ok p)
    then obtain v rb2 where p: "push_value fuel (unat t mod 8) (unat t div 8) rb1 = Ok (v, rb2)" by (cases p) auto
    with r have "length rb2 \<le> length rb1" by simp
    with Suc.prems p show ?thesis by (intro Suc.IH [of rb2]) (auto simp: rb res_bind_eq_Err)
  next
    case (Err e')
    with r Suc.prems(3) show ?thesis by (auto simp: rb)
  qed
qed simp

section \<open>Packing any value\<close>

definition writes :: "write_block res \<Rightarrow> bool" where
  "writes r \<longleftrightarrow> (case r of Ok wb \<Rightarrow> wb_ok wb | Err e \<Rightarrow> e = Lua_error \<or> e = Int_overflow)"

lemma writes_simps [simp]: "writes (Ok wb) \<longleftrightarrow> wb_ok wb" "writes (Err e) \<longleftrightarrow> e = Lua_error \<or> e = Int_overflow"
  by (simp_all add: writes_def)

lemma wrote_writes: "wrote wb bytes r \<Longrightarrow> writes r"
  by (auto elim: wrote_cases)

lemma writes_bind: "writes r \<Longrightarrow> (\<And>wb. wb_ok wb \<Longrightarrow> writes (f wb)) \<Longrightarrow> writes (res_bind r f)"
  by (cases r) auto

lemma wb_string_writes: "wb_ok wb \<Longrightarrow> writes (wb_string wb s len)"
  unfolding wb_string_def by (auto intro!: writes_bind wrote_writes [OF wb_push_wrote])

lemma wb_array_size_writes: "wb_ok wb \<Longrightarrow> writes (wb_array_size wb n)"
  unfolding wb_array_size_def by (auto intro!: writes_bind wrote_writes [OF wb_push_wrote] wrote_writes [OF wb_integer_wrote])

lemma pack_writes:
  "wb_ok wb \<Longrightarrow> writes (pack_one v d wb)"
  "wb_ok wb \<Longrightarrow> writes (wb_elements n vs d wb)"
  "wb_ok wb \<Longrightarrow> writes (wb_hash_pairs n ps d wb)"
  "wb_ok wb \<Longrightarrow> writes (wb_meta_pairs ps d wb)"
proof (induction v d wb and n vs d wb and n ps d wb and ps d wb rule: pack_one_wb_elements_wb_hash_pairs_wb_meta_pairs.induct)
  case (1 v depth wb)
  show ?case
  proof (cases "depth > MAX_DEPTH")
    case False
    then show ?thesis
      using 1 by (cases v) (auto simp: pack_one.simps Let_def wb_string_writes wb_array_size_writes
          intro!: writes_bind intro: wrote_writes wb_push_wrote scalars_wrote)
  qed (simp add: pack_one.simps)
qed (auto intro!: writes_bind)

lemma pack_from_writes: "wb_ok wb \<Longrightarrow> writes (pack_from vs wb)"
  by (induction vs arbitrary: wb) (auto intro!: writes_bind pack_writes)

lemma wb_ok_init: "wb_ok wb_init"
  by (simp add: wb_ok_def wb_init_def wb_content_def BLOCK_SIZE_def)

lemma push_negative_length:
  "push_value (Suc f) TYPE_LONG_STRING 4 (0 # 0 # 0 # 0x80 # rest) = Err Out_of_bounds"
  using rb_get_append [of "[0, 0, 0, 0x80]" 4 rest]
  by (simp add: push_value.simps seri_consts get_buffer_def rb_get_def [of _ "- 2147483648"] rb_read_def)

lemma le_bytes_8_9: "le_bytes 8 9 = [9, 0, 0, 0, 0, 0, 0, 0]"
  by code_simp

lemma le_bytes_1_5: "le_bytes (Suc 0) 5 = [5]"
  by code_simp

section \<open>Properties\<close>

text \<open>C30: Lua values that can be sent (data nested at most 32 tables deep, whose encoding fits an \<open>int\<close>) are
  packed into exactly their encoding, through however many 128-byte blocks, and unpacking that buffer gives
  the values back; tables keep their array part and the pairs that are not in it.\<close>

theorem seri_roundtrip:
  assumes "elements_ok vs 0" "length (enc_elements vs) < 2 ^ 31"
  shows "luaseri_pack vs = Ok (enc_elements vs) \<and> luaseri_unpack (enc_elements vs) = Ok (norm_elements vs)"
proof
  from pack_from_wrote [OF assms(1) wb_ok_init] assms(2) seri_content show "luaseri_pack vs = Ok (enc_elements vs)"
    by (auto simp: luaseri_pack_def wrote_def wb_content_def wb_init_def)
  show "luaseri_unpack (enc_elements vs) = Ok (norm_elements vs)"
    unfolding luaseri_unpack_def seri_fuel_def by (rule unpack_all_enc [OF assms(1)]) auto
qed

theorem seri_roundtrip_witness:
  "luaseri_pack [LString [1, 2], LTable [LInt 5, LBool True] [(LInt 1, LInt 5), (LString [7], LMeta [(LReal 9, LNil)])]]
     = Ok [20, 1, 2, 22, 10, 5, 9, 12, 7, 6, 66, 9, 0, 0, 0, 0, 0, 0, 0, 0, 0, 0] \<and>
   luaseri_unpack [20, 1, 2, 22, 10, 5, 9, 12, 7, 6, 66, 9, 0, 0, 0, 0, 0, 0, 0, 0, 0, 0]
     = Ok [LString [1, 2], LTable [LInt 5, LBool True] [(LString [7], LTable [] [(LReal 9, LNil)])]]"
  using seri_roundtrip [of "[LString [1, 2], LTable [LInt 5, LBool True] [(LInt 1, LInt 5), (LString [7], LMeta [(LReal 9, LNil)])]]"]
  by (simp add: value_ok.simps MAX_DEPTH_def is_nan_def enc_string_def enc_size_def enc_int_def le_bytes_8_9 le_bytes_1_5 del: le_bytes.simps)

text \<open>C31: \<open>luaseri_unpack\<close> ends on every buffer, with values, a Lua error, or the negative length of the
  finding below; the recursion bound of the model is never reached.\<close>

theorem seri_unpack_total:
  "(\<exists>vs. luaseri_unpack buffer = Ok vs) \<or> luaseri_unpack buffer = Err Lua_error \<or>
   luaseri_unpack buffer = Err Out_of_bounds"
  using unpack_all_total [of buffer "seri_fuel buffer" "Suc (length buffer)"]
  by (cases "luaseri_unpack buffer") (auto simp: luaseri_unpack_def seri_fuel_def)

text \<open>\<open>luaseri_pack\<close> on any values, nested however deep and with strings of any length, returns a buffer
  or raises a Lua error, unless the total length overflows an \<open>int\<close>: \<open>seri\<close> never follows a missing block
  and never copies bytes of a block that were not written.\<close>

theorem seri_pack_total:
  "(\<exists>bytes. luaseri_pack vs = Ok bytes) \<or> luaseri_pack vs = Err Lua_error \<or> luaseri_pack vs = Err Int_overflow"
  using pack_from_writes [OF wb_ok_init, of vs] seri_content
  by (cases "pack_from vs wb_init") (auto simp: luaseri_pack_def)

text \<open>The length of a long string is an unsigned 32-bit number on the wire and an \<open>int\<close> in \<open>get_buffer\<close>
  and \<open>rb_read\<close>: a stream that claims 2G passes the bounds check as a negative size.\<close>

lemma seri_negative_length: "luaseri_unpack (37 # 0 # 0 # 0 # 0x80 # rest) = Err Out_of_bounds"
proof -
  obtain f where "seri_fuel (37 # 0 # 0 # 0 # 0x80 # rest) = Suc f" by (simp add: seri_fuel_def)
  with push_negative_length [of f rest] show ?thesis by (simp add: luaseri_unpack_def seri_consts)
qed

end
