(* ===== verification/Skynet_Sproto.thy ===== *)
theory Skynet_Sproto
  imports Skynet_Prelude
begin

text \<open>
  The zero packing of sproto messages: \<open>sproto_pack\<close> and \<open>sproto_unpack\<close> of \<open>lualib-src/sproto/sproto.c\<close>, and the Lua functions
  \<open>lpack\<close> and \<open>lunpack\<close> of \<open>lsproto.c\<close> that call them (here \<open>sproto_lpack\<close> and \<open>sproto_lunpack\<close>). Memory is a list of bytes, a pointer into the output a position in it, and a store or
  load outside is an error. The lengths stay below \<open>2 ^ 31\<close>: the Lua functions refuse buffers of more than 16M.
\<close>

section \<open>Memory\<close>

definition mem_write :: "byte list \<Rightarrow> nat \<Rightarrow> byte list \<Rightarrow> byte list res" where
  "mem_write mem pos bs =
     (if pos + length bs \<le> length mem then Ok (take pos mem @ bs @ drop (pos + length bs) mem) else Err Out_of_bounds)"

text \<open>A pointer into the source, or to the local array \<open>tmp\<close> with the padded end of it.\<close>

datatype src_ptr = Src_null | In_src nat | In_tmp

definition src_bytes :: "byte list \<Rightarrow> byte list \<Rightarrow> src_ptr \<Rightarrow> nat \<Rightarrow> byte list res" where
  "src_bytes srcv tmp ptr n =
     (case ptr of
        Src_null \<Rightarrow> Err Null_deref
      | In_src k \<Rightarrow> if k + n \<le> length srcv then Ok (take n (drop k srcv)) else Err Out_of_bounds
      | In_tmp \<Rightarrow> if n \<le> length tmp then Ok (take n tmp) else Err Out_of_bounds)"

section \<open>Packing\<close>

text \<open>The loop of \<open>pack_seg\<close> over the bytes of a segment from index \<open>i\<close> on.\<close>

fun pack_bytes :: "nat \<Rightarrow> byte list \<Rightarrow> nat \<Rightarrow> int \<Rightarrow> byte \<Rightarrow> nat \<Rightarrow> byte list \<Rightarrow> (byte \<times> nat \<times> byte list) res" where
  "pack_bytes i [] buffer sz header notzero mem = Ok (header, notzero, mem)"
| "pack_bytes i (b # bs) buffer sz header notzero mem =
     (if b \<noteq> 0 then
        if sz > 0 then
          res_bind (mem_write mem buffer [b])
            (\<lambda>mem1. pack_bytes (Suc i) bs (buffer + 1) (sz - 1) (header OR push_bit i 1) (notzero + 1) mem1)
        else pack_bytes (Suc i) bs buffer sz (header OR push_bit i 1) (notzero + 1) mem
      else pack_bytes (Suc i) bs buffer sz header notzero mem)"

definition pack_seg :: "byte list \<Rightarrow> byte list \<Rightarrow> nat \<Rightarrow> int \<Rightarrow> nat \<Rightarrow> (nat \<times> byte list) res" where
  "pack_seg src mem buffer sz n =
     res_bind (pack_bytes 0 src (buffer + 1) (sz - 1) 0 0 mem) (\<lambda>(header, nz, mem1).
       let notzero = (if (nz = 7 \<or> nz = 6) \<and> n > 0 then 8 else nz) in
       if notzero = 8 then Ok (if n > 0 then 8 else 10, mem1)
       else if sz - 1 < 0 then Ok (notzero + 1, mem1)
       else res_bind (mem_write mem1 buffer [header]) (\<lambda>mem2. Ok (notzero + 1, mem2)))"

definition write_ff :: "byte list \<Rightarrow> byte list \<Rightarrow> src_ptr \<Rightarrow> nat \<Rightarrow> nat \<Rightarrow> byte list \<Rightarrow> byte list res" where
  "write_ff srcv tmp ptr des n mem =
     (let align8_n = (n + 7) div 8 * 8 in
      res_bind (src_bytes srcv tmp ptr n) (\<lambda>bs.
        mem_write mem des ([0xff, of_nat (align8_n div 8 - 1)] @ bs @ replicate (align8_n - n) 0)))"

record pack_state =
  ps_ff_src :: src_ptr
  ps_ff_des :: nat
  ps_ff_n :: nat
  ps_size :: nat
  ps_buffer :: nat
  ps_bufsz :: int
  ps_mem :: "byte list"
  ps_tmp :: "byte list"

definition pack_init :: "byte list \<Rightarrow> int \<Rightarrow> pack_state" where
  "pack_init mem bufsz = \<lparr>ps_ff_src = Src_null, ps_ff_des = 0, ps_ff_n = 0, ps_size = 0, ps_buffer = 0, ps_bufsz = bufsz, ps_mem = mem,
     ps_tmp = replicate 8 0\<rparr>"

text \<open>The run of segments that are copied as they are is written when it ends, if the output has room.\<close>

definition pack_flush :: "byte list \<Rightarrow> nat \<Rightarrow> pack_state \<Rightarrow> pack_state res" where
  "pack_flush srcv n S =
     (if ps_bufsz S \<ge> 0 then res_bind (write_ff srcv (ps_tmp S) (ps_ff_src S) (ps_ff_des S) n (ps_mem S)) (\<lambda>m. Ok (S\<lparr>ps_mem := m\<rparr>)) else Ok S)"

text \<open>One iteration of the loop of \<open>sproto_pack\<close> at the offset \<open>i\<close> of the source.\<close>

definition pack_step :: "byte list \<Rightarrow> nat \<Rightarrow> pack_state \<Rightarrow> pack_state res" where
  "pack_step srcv i S =
     (let padding = i + 8 - length srcv;
          tmp = (if padding > 0 then take (8 - padding) (drop i srcv) @ replicate padding 0 else ps_tmp S);
          src = (if padding > 0 then In_tmp else In_src i) in
      res_bind (src_bytes srcv tmp src 8) (\<lambda>bs.
      res_bind (pack_seg bs (ps_mem S) (ps_buffer S) (ps_bufsz S) (ps_ff_n S)) (\<lambda>(n, mem1).
      let S1 = S\<lparr>ps_mem := mem1, ps_tmp := tmp, ps_bufsz := ps_bufsz S - int n\<rparr> in
      res_bind
        (if n = 10 then Ok (S1\<lparr>ps_ff_src := src, ps_ff_des := ps_buffer S, ps_ff_n := 1\<rparr>)
         else if n = 8 \<and> ps_ff_n S > 0 then
           if ps_ff_n S + 1 = 256 then res_bind (pack_flush srcv (256 * 8) S1) (\<lambda>S2. Ok (S2\<lparr>ps_ff_n := 0\<rparr>))
           else Ok (S1\<lparr>ps_ff_n := ps_ff_n S + 1\<rparr>)
         else if ps_ff_n S > 0 then res_bind (pack_flush srcv (ps_ff_n S * 8) S1) (\<lambda>S2. Ok (S2\<lparr>ps_ff_n := 0\<rparr>))
         else Ok S1)
        (\<lambda>S3. Ok (S3\<lparr>ps_buffer := ps_buffer S3 + n, ps_size := ps_size S3 + n\<rparr>)))))"

function pack_loop :: "byte list \<Rightarrow> nat \<Rightarrow> pack_state \<Rightarrow> pack_state res" where
  "pack_loop srcv i S =
     (if i < length srcv then (case pack_step srcv i S of Ok S1 \<Rightarrow> pack_loop srcv (i + 8) S1 | Err e \<Rightarrow> Err e) else Ok S)"
  by pat_completeness auto
termination by (relation "measure (\<lambda>(srcv, i, S). length srcv - i)") auto

text \<open>What is left of a run is written at the end; a pointer difference needs two pointers into the source.\<close>

definition pack_finish :: "byte list \<Rightarrow> pack_state \<Rightarrow> (nat \<times> byte list) res" where
  "pack_finish srcv S =
     res_bind
       (if ps_ff_n S = 1 then pack_flush srcv 8 S
        else if ps_ff_n S > 1 then
          (case ps_ff_src S of In_src k \<Rightarrow> pack_flush srcv (length srcv - k) S | _ \<Rightarrow> Err Out_of_bounds)
        else Ok S)
       (\<lambda>S1. Ok (ps_size S1, ps_mem S1))"

definition sproto_pack :: "byte list \<Rightarrow> byte list \<Rightarrow> int \<Rightarrow> (nat \<times> byte list) res" where
  "sproto_pack srcv mem bufsz = res_bind (pack_loop srcv 0 (pack_init mem bufsz)) (pack_finish srcv)"

section \<open>Unpacking\<close>

record unpack_state =
  us_src :: "byte list"
  us_srcsz :: int
  us_buffer :: nat
  us_bufsz :: int
  us_size :: nat
  us_mem :: "byte list"

text \<open>A byte is stored when there is room.\<close>

definition unpack_store :: "byte \<Rightarrow> unpack_state \<Rightarrow> unpack_state res" where
  "unpack_store b U =
     (if us_bufsz U > 0 then
        res_bind (mem_write (us_mem U) (us_buffer U) [b]) (\<lambda>m. Ok (U\<lparr>us_mem := m, us_bufsz := us_bufsz U - 1, us_buffer := us_buffer U + 1\<rparr>))
      else Ok U)"

text \<open>The loop over the bits of a header; \<open>None\<close> is the result -1, before which nothing is written in the iteration: the test of the size
  for a negative number comes one byte late, so that a read behind the input comes first.\<close>

fun unpack_bits :: "byte \<Rightarrow> nat list \<Rightarrow> unpack_state \<Rightarrow> unpack_state option res" where
  "unpack_bits header [] U = Ok (Some U)"
| "unpack_bits header (i # ks) U =
     (if bit header i then
        if us_srcsz U < 0 then Ok None
        else
          (case us_src U of
             [] \<Rightarrow> Err Out_of_bounds
           | b # src \<Rightarrow>
               res_bind (unpack_store b U)
                 (\<lambda>U1. unpack_bits header ks (U1\<lparr>us_src := src, us_srcsz := us_srcsz U1 - 1, us_size := us_size U1 + 1\<rparr>)))
      else res_bind (unpack_store 0 U) (\<lambda>U1. unpack_bits header ks (U1\<lparr>us_size := us_size U1 + 1\<rparr>)))"

text \<open>One iteration of the loop of \<open>sproto_unpack\<close>.\<close>

definition unpack_ff :: "unpack_state \<Rightarrow> unpack_state option res" where
  "unpack_ff U =
     (if us_srcsz U < 0 then Ok None
      else
        (case us_src U of
           [] \<Rightarrow> Err Out_of_bounds
         | k # src \<Rightarrow>
             let n = (unat k + 1) * 8 in
             if us_srcsz U < int n + 1 then Ok None
             else if length src < n then Err Out_of_bounds
             else
               res_bind (if us_bufsz U \<ge> int n then mem_write (us_mem U) (us_buffer U) (take n src) else Ok (us_mem U)) (\<lambda>m.
                 Ok (Some (U\<lparr>us_srcsz := us_srcsz U - (int n + 1), us_src := drop n src, us_mem := m, us_bufsz := us_bufsz U - int n,
                   us_buffer := us_buffer U + n, us_size := us_size U + n\<rparr>)))))"

definition unpack_step :: "unpack_state \<Rightarrow> unpack_state option res" where
  "unpack_step U =
     (case us_src U of
        [] \<Rightarrow> Err Out_of_bounds
      | header # src \<Rightarrow>
          let U1 = U\<lparr>us_src := src, us_srcsz := us_srcsz U - 1\<rparr> in
          if header = 0xff then unpack_ff U1 else unpack_bits header [0..<8] U1)"

lemma unpack_store_srcsz: "unpack_store b U = Ok U1 \<Longrightarrow> us_srcsz U1 = us_srcsz U"
  by (auto simp: unpack_store_def split: if_splits)

lemma unpack_bits_srcsz: "unpack_bits h ks U = Ok (Some U1) \<Longrightarrow> us_srcsz U1 \<le> us_srcsz U"
proof (induction ks arbitrary: U)
  case (Cons i ks)
  show ?case
  proof (cases "bit h i")
    case True
    then obtain b src U2 where "unpack_store b U = Ok U2"
        "unpack_bits h ks (U2\<lparr>us_src := src, us_srcsz := us_srcsz U2 - 1, us_size := us_size U2 + 1\<rparr>) = Ok (Some U1)"
      using Cons.prems by (auto split: if_splits list.splits)
    then show ?thesis using Cons.IH unpack_store_srcsz by fastforce
  next
    case False
    then obtain U2 where "unpack_store 0 U = Ok U2" "unpack_bits h ks (U2\<lparr>us_size := us_size U2 + 1\<rparr>) = Ok (Some U1)"
      using Cons.prems by auto
    then show ?thesis using Cons.IH unpack_store_srcsz by fastforce
  qed
qed simp

lemma unpack_step_srcsz:
  assumes "unpack_step U = Ok (Some U1)"
  shows "us_srcsz U1 < us_srcsz U"
proof -
  obtain header src where s: "us_src U = header # src" using assms by (cases "us_src U") (simp_all add: unpack_step_def)
  let ?U = "U\<lparr>us_src := src, us_srcsz := us_srcsz U - 1\<rparr>"
  show ?thesis
  proof (cases "header = 0xff")
    case True
    then have "unpack_ff ?U = Ok (Some U1)" using assms s by (simp add: unpack_step_def Let_def)
    moreover have "- (uint (x :: byte) * 8) < 10" for x using unsigned_greater_eq [of x, where 'a = int] by linarith
    ultimately show ?thesis by (auto simp: unpack_ff_def Let_def split: if_splits list.splits)
  next
    case False
    then have "unpack_bits header [0..<8] ?U = Ok (Some U1)" using assms s by (simp add: unpack_step_def Let_def)
    then show ?thesis using unpack_bits_srcsz by fastforce
  qed
qed

function unpack_loop :: "unpack_state \<Rightarrow> (int \<times> byte list) res" where
  "unpack_loop U =
     (if us_srcsz U > 0 then
        (case unpack_step U of Err e \<Rightarrow> Err e | Ok None \<Rightarrow> Ok (-1, us_mem U) | Ok (Some U1) \<Rightarrow> unpack_loop U1)
      else Ok (int (us_size U), us_mem U))"
  by pat_completeness auto
termination
proof (relation "measure (\<lambda>U. nat (us_srcsz U))")
  fix U r U1 assume "0 < us_srcsz U" "unpack_step U = Ok r" "r = Some U1"
  then show "(U1, U) \<in> measure (\<lambda>U. nat (us_srcsz U))" using unpack_step_srcsz [of U U1] by simp
qed simp

definition sproto_unpack :: "byte list \<Rightarrow> byte list \<Rightarrow> int \<Rightarrow> (int \<times> byte list) res" where
  "sproto_unpack srcv mem bufsz =
     unpack_loop \<lparr>us_src = srcv, us_srcsz = int (length srcv), us_buffer = 0, us_bufsz = bufsz, us_size = 0, us_mem = mem\<rparr>"

declare pack_loop.simps [simp del] unpack_loop.simps [simp del]

section \<open>The Lua functions\<close>

definition ENCODE_BUFFERSIZE :: nat where "ENCODE_BUFFERSIZE = 2050"
definition ENCODE_MAXSIZE :: nat where "ENCODE_MAXSIZE = 0x1000000"

partial_function (option) expand_size :: "nat \<Rightarrow> nat \<Rightarrow> nat res option" where
  "expand_size osz nsz =
     (if 2 ^ 31 \<le> osz * 2 then Some (Err Int_overflow) else if osz * 2 < nsz then expand_size (osz * 2) nsz else Some (Ok (osz * 2)))"

text \<open>The new buffer; \<open>junk\<close> is what the allocator leaves in it.\<close>

definition expand_buffer :: "(nat \<Rightarrow> byte) \<Rightarrow> nat \<Rightarrow> nat \<Rightarrow> byte list res option" where
  "expand_buffer junk osz nsz =
     map_option (\<lambda>r. res_bind r (\<lambda>n. if n > ENCODE_MAXSIZE then Err Lua_error else Ok (map junk [0..<n]))) (expand_size osz nsz)"

text \<open>The buffer of the closure is an argument and a part of the result.\<close>

definition pack_maxsz :: "nat \<Rightarrow> nat" where
  "pack_maxsz sz = (sz + 2047) div 2048 * 2 + sz + 2"

definition sproto_lpack :: "(nat \<Rightarrow> byte) \<Rightarrow> byte list \<Rightarrow> byte list \<Rightarrow> (byte list \<times> byte list) res option" where
  "sproto_lpack junk src out =
     (let maxsz = pack_maxsz (length src) in
      map_option (\<lambda>r. res_bind r (\<lambda>output.
          res_bind (sproto_pack src output (int maxsz)) (\<lambda>(bytes, output1).
            if bytes > maxsz then Err Lua_error else Ok (take bytes output1, output1))))
        (if length out < maxsz then expand_buffer junk (length out) maxsz else Some (Ok out)))"

definition sproto_lunpack :: "(nat \<Rightarrow> byte) \<Rightarrow> byte list \<Rightarrow> byte list \<Rightarrow> (byte list \<times> byte list) res option" where
  "sproto_lunpack junk src out =
     (case sproto_unpack src out (int (length out)) of
        Err e \<Rightarrow> Some (Err e)
      | Ok (r, out1) \<Rightarrow>
          if r < 0 then Some (Err Lua_error)
          else if r > int (length out) then
            map_option (\<lambda>x. res_bind x (\<lambda>output. res_bind (sproto_unpack src output r) (\<lambda>(r2, output1).
              if r2 < 0 then Err Lua_error else Ok (take (nat r2) output1, output1)))) (expand_buffer junk (length out) (nat r))
          else Some (Ok (take (nat r) out1, out1)))"

section \<open>The format\<close>

text \<open>The format as the documentation of sproto has it: the text is padded to segments of eight bytes. A segment is its header, with a bit for each
  byte that is not zero, and these bytes. A full segment begins a run of up to 256 segments with at least six bytes that are not zero,
  which are copied behind 0xff and the number of the segments less one.\<close>

function segments :: "byte list \<Rightarrow> byte list list" where
  "segments s = (if s = [] then [] else (take 8 s @ replicate (8 - length s) 0) # segments (drop 8 s))"
  by pat_completeness auto
termination by (relation "measure length") auto

fun seg_header :: "nat \<Rightarrow> byte list \<Rightarrow> byte" where
  "seg_header i [] = 0"
| "seg_header i (b # bs) = (if b \<noteq> 0 then push_bit i 1 else 0) OR seg_header (Suc i) bs"

definition notzero :: "byte list \<Rightarrow> byte list" where
  "notzero s = filter (\<lambda>b. b \<noteq> 0) s"

definition run_code :: "byte list list \<Rightarrow> byte list" where
  "run_code run = (if run = [] then [] else 0xff # of_nat (length run - 1) # concat run)"

fun pack_spec :: "byte list list \<Rightarrow> byte list list \<Rightarrow> byte list" where
  "pack_spec run [] = run_code run"
| "pack_spec run (s # ss) =
     (if length (notzero s) = 8 \<or> run \<noteq> [] \<and> 6 \<le> length (notzero s) then
        if length run + 1 = 256 then run_code (run @ [s]) @ pack_spec [] ss else pack_spec (run @ [s]) ss
      else run_code run @ seg_header 0 s # notzero s @ pack_spec [] ss)"

declare segments.simps [simp del]

section \<open>Writes\<close>

definition wr :: "byte list \<Rightarrow> nat \<Rightarrow> byte list \<Rightarrow> byte list" where
  "wr mem pos bs = take pos mem @ bs @ drop (pos + length bs) mem"

lemma mem_write_ok [simp]: "pos + length bs \<le> length mem \<Longrightarrow> mem_write mem pos bs = Ok (wr mem pos bs)"
  by (simp add: mem_write_def wr_def)

lemma length_wr [simp]: "pos + length bs \<le> length mem \<Longrightarrow> length (wr mem pos bs) = length mem"
  by (simp add: wr_def)

lemma wr_Nil [simp]: "wr mem pos [] = mem"
  by (simp add: wr_def)

lemma wr_append: "pos + length a + length b \<le> length mem \<Longrightarrow> wr (wr mem pos a) (pos + length a) b = wr mem pos (a @ b)"
  by (simp add: wr_def ac_simps)

lemma wr_take [simp]: "p \<le> pos \<Longrightarrow> pos + length bs \<le> length mem \<Longrightarrow> take p (wr mem pos bs) = take p mem"
  by (simp add: wr_def min_absorb1)

lemma wr_get: "pos + length bs \<le> length mem \<Longrightarrow> take (length bs) (drop pos (wr mem pos bs)) = bs"
  by (simp add: wr_def)

section \<open>Headers\<close>

lemma bit_seg_header: "bit (seg_header i s) k \<longleftrightarrow> k < 8 \<and> i \<le> k \<and> k - i < length s \<and> s ! (k - i) \<noteq> 0"
proof (induction i s rule: seg_header.induct)
  case (2 i b bs)
  then show ?case
    by (cases "k = i"; cases "i < k") (auto simp: bit_simps nth_Cons')
qed simp

lemma notzero_le: "length (notzero s) \<le> length s"
  by (simp add: notzero_def)

lemma notzero_full: "length (notzero s) < length s \<Longrightarrow> \<exists>k<length s. s ! k = 0"
proof (rule ccontr)
  assume lt: "length (notzero s) < length s" and "\<not> (\<exists>k<length s. s ! k = 0)"
  then have "notzero s = s" unfolding notzero_def by (intro filter_True) (auto simp: in_set_conv_nth)
  then show False using lt by simp
qed

lemma seg_header_not_ff:
  assumes "length s = 8" "length (notzero s) < 8"
  shows "seg_header 0 s \<noteq> 0xff"
proof
  assume eq: "seg_header 0 s = 0xff"
  obtain k where k: "k < 8" "s ! k = 0" using notzero_full [of s] assms by auto
  have ff: "0xff = (mask 8 :: byte)" by (simp add: mask_eq_exp_minus_1)
  have "bit (0xff :: byte) k" unfolding ff using k(1) by (simp add: bit_mask_iff)
  then show False using k bit_seg_header [of 0 s k] eq by simp
qed

section \<open>Unpacking undoes packing\<close>

definition room :: "unpack_state \<Rightarrow> bool" where
  "room U = (us_bufsz U \<ge> 0 \<longrightarrow> int (us_buffer U) + us_bufsz U \<le> int (length (us_mem U)))"

text \<open>The state after \<open>data\<close> has been unpacked: written if there was room for all of it.\<close>

definition adv :: "unpack_state \<Rightarrow> byte list \<Rightarrow> unpack_state \<Rightarrow> bool" where
  "adv U data U1 = (room U1 \<and> us_size U1 = us_size U + length data \<and> length (us_mem U1) = length (us_mem U) \<and>
     (int (length data) \<le> us_bufsz U \<longrightarrow> us_bufsz U1 = us_bufsz U - int (length data) \<and> us_buffer U1 = us_buffer U + length data \<and>
        us_mem U1 = wr (us_mem U) (us_buffer U) data))"

definition input :: "unpack_state \<Rightarrow> byte list \<Rightarrow> bool" where
  "input U src = (us_src U = src \<and> us_srcsz U = int (length src))"

lemma adv_refl: "room U \<Longrightarrow> adv U [] U"
  by (simp add: adv_def)

lemma adv_trans:
  assumes r: "room U" and a: "adv U x U1" and b: "adv U1 y U2"
  shows "adv U (x @ y) U2"
proof -
  have "wr (wr (us_mem U) (us_buffer U) x) (us_buffer U + length x) y = wr (us_mem U) (us_buffer U) (x @ y)"
    if "int (length x) + int (length y) \<le> us_bufsz U"
    using r that by (intro wr_append) (simp add: room_def)
  then show ?thesis using a b by (auto simp: adv_def)
qed

lemma unpack_store_ok:
  assumes "room U"
  shows "\<exists>U1. unpack_store b U = Ok U1 \<and> adv U [b] (U1\<lparr>us_size := us_size U1 + 1\<rparr>) \<and> us_src U1 = us_src U \<and> us_srcsz U1 = us_srcsz U"
proof (cases "us_bufsz U > 0")
  case True
  then have "us_buffer U + 1 \<le> length (us_mem U)" using assms by (simp add: room_def)
  then show ?thesis using True assms by (simp add: unpack_store_def adv_def room_def)
next
  case False
  then show ?thesis using assms by (simp add: unpack_store_def adv_def room_def)
qed

lemma adv_src [simp]: "adv U d (U1\<lparr>us_src := s, us_srcsz := n\<rparr>) = adv U d U1" "room (U\<lparr>us_src := s, us_srcsz := n\<rparr>) = room U"
    "adv (U\<lparr>us_src := s, us_srcsz := n\<rparr>) d U1 = adv U d U1"
  by (simp_all add: adv_def room_def)

lemma adv_room: "adv U d U1 \<Longrightarrow> room U1"
  by (simp add: adv_def)

lemma unpack_bits_ok:
  assumes "\<forall>k<length s. bit h (i + k) = (s ! k \<noteq> 0)" "input U (notzero s @ rest)" "room U"
  shows "\<exists>U1. unpack_bits h [i..<i + length s] U = Ok (Some U1) \<and> input U1 rest \<and> adv U s U1"
  using assms
proof (induction s arbitrary: i U)
  case Nil
  then show ?case by (simp add: notzero_def adv_refl)
next
  case (Cons b s)
  have ks: "[i..<i + length (b # s)] = i # [Suc i..<Suc i + length s]" using upt_conv_Cons [of i "i + length (b # s)"] by simp
  have h: "bit h i = (b \<noteq> 0)" "\<forall>k<length s. bit h (Suc i + k) = (s ! k \<noteq> 0)"
    using Cons.prems(1) [rule_format, of 0] Cons.prems(1) [rule_format, of "Suc k" for k] by auto
  obtain U1 where U1: "unpack_store b U = Ok U1" "adv U [b] (U1\<lparr>us_size := us_size U1 + 1\<rparr>)" "us_src U1 = us_src U" "us_srcsz U1 = us_srcsz U"
    using unpack_store_ok [OF Cons.prems(3)] by blast
  define U2 where "U2 = U1\<lparr>us_src := notzero s @ rest, us_srcsz := int (length (notzero s @ rest)), us_size := us_size U1 + 1\<rparr>"
  have a2: "adv U [b] U2" using U1(2) by (auto simp: U2_def adv_def room_def)
  have st: "unpack_bits h (i # [Suc i..<Suc i + length s]) U = unpack_bits h [Suc i..<Suc i + length s] U2"
  proof (cases "b = 0")
    case True
    have "U1\<lparr>us_size := us_size U1 + 1\<rparr> = U2" using True Cons.prems(2) U1(3,4) by (simp add: U2_def input_def notzero_def)
    then show ?thesis using True h(1) U1(1) by simp
  next
    case False
    have "us_src U = b # notzero s @ rest" "us_srcsz U = int (length (notzero s @ rest)) + 1"
      using False Cons.prems(2) by (simp_all add: input_def notzero_def)
    then show ?thesis using False h(1) U1(1,4) by (simp add: U2_def)
  qed
  obtain U3 where "unpack_bits h [Suc i..<Suc i + length s] U2 = Ok (Some U3)" "input U3 rest" "adv U2 s U3"
    using Cons.IH [OF h(2), of U2] adv_room [OF a2] by (auto simp: U2_def input_def)
  then show ?case using st ks adv_trans [OF Cons.prems(3) a2, of s U3] by auto
qed

text \<open>A code stands for data, whatever comes behind it.\<close>

definition decodes :: "byte list \<Rightarrow> byte list \<Rightarrow> bool" where
  "decodes enc data = (\<forall>rest U. input U (enc @ rest) \<and> room U \<longrightarrow> (\<exists>U1. unpack_loop U = unpack_loop U1 \<and> input U1 rest \<and> adv U data U1))"

lemma decodes_Nil: "decodes [] []"
  using adv_refl by (auto simp: decodes_def)

lemma decodes_append:
  assumes a: "decodes a x" and b: "decodes b y"
  shows "decodes (a @ b) (x @ y)"
  unfolding decodes_def
proof (intro allI impI)
  fix rest U assume U: "input U ((a @ b) @ rest) \<and> room U"
  then obtain U1 where U1: "unpack_loop U = unpack_loop U1" "input U1 (b @ rest)" "adv U x U1"
    using a unfolding decodes_def by (metis append_assoc)
  then obtain U2 where "unpack_loop U1 = unpack_loop U2" "input U2 rest" "adv U1 y U2"
    using b adv_room unfolding decodes_def by blast
  then show "\<exists>U2. unpack_loop U = unpack_loop U2 \<and> input U2 rest \<and> adv U (x @ y) U2" using U1 U adv_trans by metis
qed

lemma decodes_seg:
  assumes s: "length s = 8" "length (notzero s) < 8"
  shows "decodes (seg_header 0 s # notzero s) s"
  unfolding decodes_def
proof (intro allI impI)
  fix rest U assume U: "input U ((seg_header 0 s # notzero s) @ rest) \<and> room U"
  let ?U = "U\<lparr>us_src := notzero s @ rest, us_srcsz := us_srcsz U - 1\<rparr>"
  have "\<forall>k<length s. bit (seg_header 0 s) (0 + k) = (s ! k \<noteq> 0)" using s by (simp add: bit_seg_header)
  then obtain U1 where U1: "unpack_bits (seg_header 0 s) [0..<0 + length s] ?U = Ok (Some U1)" "input U1 rest" "adv ?U s U1"
    using unpack_bits_ok [of s "seg_header 0 s" 0 ?U rest] U by (auto simp: input_def)
  have "unpack_step U = Ok (Some U1)"
    using U U1(1) s seg_header_not_ff [OF s] by (simp add: unpack_step_def input_def Let_def)
  then have "unpack_loop U = unpack_loop U1" using U by (subst unpack_loop.simps) (simp add: input_def)
  then show "\<exists>U1. unpack_loop U = unpack_loop U1 \<and> input U1 rest \<and> adv U s U1" using U1(2,3) by auto
qed

lemma length_concat8: "\<forall>s\<in>set run. length s = 8 \<Longrightarrow> length (concat run) = 8 * length run"
  by (induction run) simp_all

lemma decodes_run:
  assumes run: "\<forall>s\<in>set run. length s = 8" "length run \<le> 256"
  shows "decodes (run_code run) (concat run)"
proof (cases "run = []")
  case True
  then show ?thesis by (simp add: run_code_def decodes_Nil)
next
  case False
  let ?n = "8 * length run"
  obtain m where m: "length run = Suc m" using False by (cases run) auto
  then have k: "unat (of_nat m :: byte) = m" using run(2) by (simp add: unat_of_nat)
  then have u: "uint (of_nat m :: byte) = int m" by (metis uint_nat)
  show ?thesis
    unfolding decodes_def
  proof (intro allI impI)
    fix rest U assume U: "input U (run_code run @ rest) \<and> room U"
    let ?U = "U\<lparr>us_src := of_nat (length run - 1) # concat run @ rest, us_srcsz := us_srcsz U - 1\<rparr>"
    let ?m = "if us_bufsz U \<ge> int ?n then wr (us_mem U) (us_buffer U) (concat run) else us_mem U"
    let ?U1 = "?U\<lparr>us_srcsz := us_srcsz ?U - (int ?n + 1), us_src := rest, us_mem := ?m, us_bufsz := us_bufsz U - int ?n,
                   us_buffer := us_buffer U + ?n, us_size := us_size U + ?n\<rparr>"
    have l: "length (concat run) = ?n" by (rule length_concat8 [OF run(1)])
    have inp: "us_src U = 0xff # of_nat (length run - 1) # concat run @ rest" "us_srcsz U = int ?n + 2 + int (length rest)"
      using U False l by (simp_all add: input_def run_code_def)
    have r: "us_buffer U + ?n \<le> length (us_mem U)" if "us_bufsz U \<ge> int ?n" using U that by (simp add: room_def)
    have "unpack_ff ?U = Ok (Some ?U1)"
      using inp l r by (simp add: unpack_ff_def k u m Let_def)
    then have "unpack_loop U = unpack_loop ?U1"
      using inp by (subst unpack_loop.simps) (simp add: unpack_step_def Let_def)
    moreover have "input ?U1 rest" using inp by (simp add: input_def)
    moreover have "adv U (concat run) ?U1" using U r l by (simp add: adv_def room_def)
    ultimately show "\<exists>U1. unpack_loop U = unpack_loop U1 \<and> input U1 rest \<and> adv U (concat run) U1" by blast
  qed
qed

lemma decodes_pack_spec:
  assumes "\<forall>s\<in>set (run @ ss). length s = 8" "length run < 256"
  shows "decodes (pack_spec run ss) (concat run @ concat ss)"
  using assms
proof (induction run ss rule: pack_spec.induct)
  case (1 run)
  then show ?case using decodes_run [of run] by simp
next
  case (2 run s ss)
  show ?case
  proof (cases "length (notzero s) = 8 \<or> run \<noteq> [] \<and> 6 \<le> length (notzero s)")
    case True
    show ?thesis
    proof (cases "length run + 1 = 256")
      case full: True
      have "decodes (run_code (run @ [s])) (concat (run @ [s]))" using "2.prems" full by (intro decodes_run) auto
      moreover have "decodes (pack_spec [] ss) (concat ss)" using "2.IH"(1) [OF True full] "2.prems" by simp
      ultimately show ?thesis using decodes_append True full by fastforce
    next
      case False
      then show ?thesis using "2.IH"(2) [OF True False] "2.prems" True by simp
    qed
  next
    case False
    have "length (notzero s) < 8" using False notzero_le [of s] "2.prems" by auto
    then have "decodes (seg_header 0 s # notzero s) s" using "2.prems" by (intro decodes_seg) auto
    moreover have "decodes (run_code run) (concat run)" using "2.prems" by (intro decodes_run) auto
    moreover have "decodes (pack_spec [] ss) (concat ss)" using "2.IH"(3) [OF False] "2.prems" by simp
    ultimately have "decodes (run_code run @ (seg_header 0 s # notzero s) @ pack_spec [] ss) (concat run @ s @ concat ss)"
      by (intro decodes_append)
    then show ?thesis by (simp only: pack_spec.simps False if_False concat.simps append_Cons append_Nil append_assoc)
  qed
qed

text \<open>The size is returned also when the buffer is too small.\<close>

lemma unpack_decodes:
  assumes d: "decodes enc data" and b: "0 \<le> bufsz" "bufsz \<le> int (length mem)"
  shows "\<exists>m. sproto_unpack enc mem bufsz = Ok (int (length data), m) \<and> length m = length mem \<and>
    (int (length data) \<le> bufsz \<longrightarrow> take (length data) m = data)"
proof -
  let ?U = "\<lparr>us_src = enc, us_srcsz = int (length enc), us_buffer = 0, us_bufsz = bufsz, us_size = 0, us_mem = mem\<rparr>"
  obtain U1 where U1: "unpack_loop ?U = unpack_loop U1" "input U1 []" "adv ?U data U1"
    using d [unfolded decodes_def, rule_format, of ?U "[]"] b by (auto simp: input_def room_def)
  have "sproto_unpack enc mem bufsz = Ok (int (us_size U1), us_mem U1)"
    using U1(1,2) by (simp add: sproto_unpack_def unpack_loop.simps [of U1] input_def)
  then show ?thesis using U1(3) b wr_get [of 0 data mem] by (auto simp: adv_def)
qed

section \<open>Packing writes the format\<close>

lemma wr_step: "buf < length mem \<Longrightarrow> 0 < n \<Longrightarrow> buf + n \<le> length mem \<Longrightarrow> wr (wr mem buf [b]) (Suc buf) (take (n - 1) bs) = wr mem buf (take n (b # bs))"
  using wr_append [of buf "[b]" "take (n - 1) bs" mem] by (cases n) simp_all

lemma pack_bytes_ok:
  assumes "sz > 0 \<longrightarrow> int buf + sz \<le> int (length mem)"
  shows "pack_bytes i bs buf sz h nz mem = Ok (h OR seg_header i bs, nz + length (notzero bs), wr mem buf (take (nat sz) (notzero bs)))"
  using assms
proof (induction bs arbitrary: i buf sz h nz mem)
  case Nil
  then show ?case by (simp add: notzero_def)
next
  case (Cons b bs)
  consider "b = 0" | "b \<noteq> 0" "sz > 0" | "b \<noteq> 0" "sz \<le> 0" by linarith
  then show ?case
  proof cases
    case 1
    then show ?thesis using Cons by (simp add: notzero_def)
  next
    case 2
    have le: "buf < length mem" "buf + nat sz \<le> length mem" using 2 Cons.prems by linarith+
    have "sz - 1 > 0 \<longrightarrow> int (buf + 1) + (sz - 1) \<le> int (length (wr mem buf [b]))" using Cons.prems le by simp
    note IH = Cons.IH [OF this]
    have n: "nat (sz - 1) = nat sz - 1" by simp
    have w: "wr (wr mem buf [b]) (Suc buf) (take (nat sz - 1) (notzero bs)) = wr mem buf (take (nat sz) (b # notzero bs))"
      using 2 le by (intro wr_step) simp_all
    have "mem_write mem buf [b] = Ok (wr mem buf [b])" using le by simp
    then show ?thesis using 2 IH [of "Suc i" "h OR push_bit i 1" "nz + 1"] w by (simp add: n notzero_def or.assoc)
  next
    case 3
    then show ?thesis using Cons.IH [of sz buf mem "Suc i" "h OR push_bit i 1" "nz + 1"] by (simp add: notzero_def or.assoc)
  qed
qed

lemma wr_front: "pos + length bs < length mem \<Longrightarrow> wr (wr mem (Suc pos) bs) pos [h] = wr mem pos (h # bs)"
  by (simp add: wr_def min_absorb1 Suc_diff_le)

definition in_run :: "nat \<Rightarrow> byte list \<Rightarrow> bool" where
  "in_run n s = (length (notzero s) = 8 \<or> n > 0 \<and> 6 \<le> length (notzero s))"

definition seg_size :: "nat \<Rightarrow> byte list \<Rightarrow> nat" where
  "seg_size n s = (if in_run n s then if n > 0 then 8 else 10 else length (notzero s) + 1)"

lemma pack_seg_ok:
  assumes s: "length s = 8" and r: "bufsz > 0 \<longrightarrow> int pos + bufsz \<le> int (length mem)"
  shows "\<exists>m. pack_seg s mem pos bufsz n = Ok (seg_size n s, m) \<and> length m = length mem \<and> take pos m = take pos mem \<and>
    (\<not> in_run n s \<and> int (seg_size n s) \<le> bufsz \<longrightarrow> take (seg_size n s) (drop pos m) = seg_header 0 s # notzero s)"
proof -
  let ?nz = "notzero s"
  define m1 where "m1 = wr mem (pos + 1) (take (nat (bufsz - 1)) ?nz)"
  have b: "pack_bytes 0 s (pos + 1) (bufsz - 1) 0 0 mem = Ok (seg_header 0 s, length ?nz, m1)"
    using pack_bytes_ok [of "bufsz - 1" "pos + 1" mem 0 s 0 0] r by (simp add: m1_def)
  have m1: "length m1 = length mem \<and> take pos m1 = take pos mem"
  proof (cases "bufsz > 1")
    case True
    then have "Suc pos + length (take (nat (bufsz - 1)) ?nz) \<le> length mem" using r by simp
    then show ?thesis by (simp add: m1_def)
  qed (simp add: m1_def)
  have le8: "length ?nz \<le> 8" using notzero_le [of s] s by simp
  show ?thesis
  proof (cases "in_run n s")
    case True
    then have "pack_seg s mem pos bufsz n = Ok (seg_size n s, m1)" using b le8 by (auto simp: pack_seg_def seg_size_def in_run_def Let_def)
    then show ?thesis using m1 True by simp
  next
    case False
    then have nz: "length ?nz \<noteq> 8" "\<not> ((length ?nz = 7 \<or> length ?nz = 6) \<and> n > 0)" by (auto simp: in_run_def)
    have sz: "seg_size n s = length ?nz + 1" using False by (simp add: seg_size_def)
    show ?thesis
    proof (cases "bufsz - 1 < 0")
      case True
      have "pack_seg s mem pos bufsz n = Ok (seg_size n s, m1)" using b nz True sz by (auto simp: pack_seg_def Let_def)
      then show ?thesis using m1 True sz by simp
    next
      case ge: False
      have le: "pos + length [seg_header 0 s] \<le> length m1" using ge r m1 by simp
      have ps: "pack_seg s mem pos bufsz n = Ok (seg_size n s, wr m1 pos [seg_header 0 s])"
        using b nz ge sz mem_write_ok [OF le] by (auto simp: pack_seg_def Let_def)
      have "take (seg_size n s) (drop pos (wr m1 pos [seg_header 0 s])) = seg_header 0 s # ?nz" if "int (seg_size n s) \<le> bufsz"
      proof -
        have all: "take (nat (bufsz - 1)) ?nz = ?nz" "pos + length ?nz < length mem" using that sz r by simp_all
        then have "wr m1 pos [seg_header 0 s] = wr mem pos (seg_header 0 s # ?nz)" using wr_front [of pos ?nz mem] by (simp add: m1_def)
        then show ?thesis using wr_get [of pos "seg_header 0 s # ?nz" mem] all(2) sz by simp
      qed
      then show ?thesis using ps m1 le by simp
    qed
  qed
qed

text \<open>The output from \<open>d\<close> on is \<open>enc\<close> if it fits into the first \<open>cap\<close> bytes; what lies before it is kept.\<close>

definition packed :: "byte list \<Rightarrow> nat \<Rightarrow> byte list \<Rightarrow> nat \<Rightarrow> byte list \<Rightarrow> bool" where
  "packed mem d enc cap m = (length m = length mem \<and> take d m = take d mem \<and> (d + length enc \<le> cap \<longrightarrow> take (length enc) (drop d m) = enc))"

lemma packed_append:
  assumes a: "packed mem d a cap m1" and b: "packed m1 (d + length a) b cap m"
  shows "packed mem d (a @ b) cap m"
proof -
  have t: "take (d + length a) m = take (d + length a) m1" using b by (simp add: packed_def)
  have "take d m = take d (take (d + length a) m1)" unfolding t [symmetric] by (simp add: min_absorb1)
  moreover have "take (length a) (drop d m) = take (length a) (drop d m1)"
    using t by (metis add_diff_cancel_left' drop_take)
  moreover have "take (length a + length b) (drop d m) = take (length a) (drop d m) @ take (length b) (drop (d + length a) m)"
    by (simp add: take_add add.commute)
  ultimately show ?thesis using a b by (simp add: packed_def min_absorb1)
qed

lemma packed_change: "length m1 = length mem \<Longrightarrow> take d m1 = take d mem \<Longrightarrow> packed m1 d enc cap m \<Longrightarrow> packed mem d enc cap m"
  by (simp add: packed_def)

text \<open>Where the run of segments comes from.\<close>

definition run_src :: "byte list \<Rightarrow> nat \<Rightarrow> byte list list \<Rightarrow> pack_state \<Rightarrow> bool" where
  "run_src srcv i run S = (run = [] \<or>
     (\<exists>k. ps_ff_src S = In_src k \<and> k + 8 * length run = i \<and> k + 8 \<le> length srcv \<and>
        concat run = take (8 * length run) (drop k srcv) @ replicate (i - length srcv) 0) \<or>
     (\<exists>s. ps_ff_src S = In_tmp \<and> run = [s] \<and> ps_tmp S = s \<and> length srcv \<le> i))"

definition pack_inv :: "byte list \<Rightarrow> nat \<Rightarrow> nat \<Rightarrow> byte list list \<Rightarrow> nat \<Rightarrow> pack_state \<Rightarrow> bool" where
  "pack_inv srcv cap i run d S = (ps_ff_n S = length run \<and> length run < 256 \<and> (\<forall>s\<in>set run. length s = 8) \<and>
     ps_buffer S = d + length (run_code run) \<and> ps_size S = ps_buffer S \<and> ps_bufsz S = int cap - int (ps_buffer S) \<and>
     cap \<le> length (ps_mem S) \<and> (run \<noteq> [] \<longrightarrow> ps_ff_des S = d) \<and> run_src srcv i run S \<and> i < length srcv + 8 \<and> i mod 8 = 0)"

lemma length_run_code: "\<forall>s\<in>set run. length s = 8 \<Longrightarrow> length (run_code run) = (if run = [] then 0 else 2 + 8 * length run)"
  by (simp add: run_code_def length_concat8)

lemma pack_flush_ok:
  assumes run: "run \<noteq> []" "\<forall>s\<in>set run. length s = 8" and des: "ps_ff_des S = d"
    and bs: "src_bytes srcv (ps_tmp S) (ps_ff_src S) n = Ok bs" "(n + 7) div 8 = length run" "bs @ replicate (8 * length run - n) 0 = concat run"
    and fit: "ps_bufsz S \<ge> 0 \<Longrightarrow> d + length (run_code run) \<le> length (ps_mem S)"
  shows "pack_flush srcv n S = Ok (S\<lparr>ps_mem := (if ps_bufsz S \<ge> 0 then wr (ps_mem S) d (run_code run) else ps_mem S)\<rparr>)"
proof -
  have "[0xff, of_nat (length run - 1)] @ bs @ replicate (8 * length run - n) 0 = run_code run"
    using run(1) bs(3) by (simp add: run_code_def)
  then show ?thesis using des bs(1,2) fit by (simp add: pack_flush_def write_ff_def Let_def mult.commute)
qed

lemma pack_finish_ok:
  assumes inv: "pack_inv srcv cap i run d S" and i: "length srcv \<le> i"
  shows "\<exists>m. pack_finish srcv S = Ok (d + length (run_code run), m) \<and> packed (ps_mem S) d (run_code run) cap m"
proof (cases "run = []")
  case True
  then show ?thesis using inv by (simp add: pack_finish_def pack_inv_def run_code_def packed_def)
next
  case False
  have run8: "\<forall>s\<in>set run. length s = 8" and des: "ps_ff_des S = d" and n: "ps_ff_n S = length run" and src: "run_src srcv i run S"
    and sz: "ps_size S = d + length (run_code run)" "ps_bufsz S = int cap - int (d + length (run_code run))" "cap \<le> length (ps_mem S)" "i < length srcv + 8"
    using inv False by (simp_all add: pack_inv_def)
  define m where "m = (if ps_bufsz S \<ge> 0 then wr (ps_mem S) d (run_code run) else ps_mem S)"
  have fit: "ps_bufsz S \<ge> 0 \<Longrightarrow> d + length (run_code run) \<le> length (ps_mem S)" using sz by simp
  have fl: "(if ps_ff_n S = 1 then pack_flush srcv 8 S
        else if ps_ff_n S > 1 then
          (case ps_ff_src S of In_src k \<Rightarrow> pack_flush srcv (length srcv - k) S | _ \<Rightarrow> Err Out_of_bounds)
        else Ok S) = Ok (S\<lparr>ps_mem := m\<rparr>)"
    using src False unfolding run_src_def
  proof (elim disjE exE conjE)
    fix k assume k: "ps_ff_src S = In_src k" "k + 8 * length run = i" "k + 8 \<le> length srcv"
      "concat run = take (8 * length run) (drop k srcv) @ replicate (i - length srcv) 0"
    show ?thesis
    proof (cases "length run = 1")
      case True
      have "pack_flush srcv 8 S = Ok (S\<lparr>ps_mem := m\<rparr>)" unfolding m_def
        using k True i by (intro pack_flush_ok [OF False run8 des _ _ _ fit, of srcv 8 "take 8 (drop k srcv)"]) (simp_all add: src_bytes_def)
      then show ?thesis using True n by simp
    next
      case ne: False
      have l: "8 * length run = length srcv - k + (i - length srcv)" using k(2,3) i by simp
      have "pack_flush srcv (length srcv - k) S = Ok (S\<lparr>ps_mem := m\<rparr>)" unfolding m_def
      proof (intro pack_flush_ok [OF False run8 des _ _ _ fit, of srcv "length srcv - k" "drop k srcv"])
        show "(length srcv - k + 7) div 8 = length run" using l sz(4) i by linarith
        show "drop k srcv @ replicate (8 * length run - (length srcv - k)) 0 = concat run" using k(4) l by simp
      qed (use k in \<open>simp_all add: src_bytes_def\<close>)
      moreover have "length run > 1" using ne False by (cases run) (auto simp: neq_Nil_conv)
      ultimately show ?thesis using ne n k(1) by simp
    qed
  next
    fix s assume s: "ps_ff_src S = In_tmp" "run = [s]" "ps_tmp S = s"
    have "pack_flush srcv 8 S = Ok (S\<lparr>ps_mem := m\<rparr>)" unfolding m_def
      using s run8 by (intro pack_flush_ok [OF False run8 des _ _ _ fit, of srcv 8 s]) (simp_all add: src_bytes_def)
    then show ?thesis using s n by simp
  qed simp
  have "packed (ps_mem S) d (run_code run) cap m"
    using fit sz(2) wr_get [of d "run_code run" "ps_mem S"] by (simp add: packed_def m_def)
  then show ?thesis using fl sz(1) by (simp add: pack_finish_def)
qed

definition segment :: "byte list \<Rightarrow> nat \<Rightarrow> byte list" where
  "segment srcv i = take 8 (drop i srcv) @ replicate (8 - length (drop i srcv)) 0"

lemma length_segment [simp]: "length (segment srcv i) = 8"
  by (simp add: segment_def)

lemma segments_drop: "i < length srcv \<Longrightarrow> segments (drop i srcv) = segment srcv i # segments (drop (i + 8) srcv)"
  by (subst segments.simps) (simp add: segment_def add.commute)

text \<open>The state after \<open>pack_seg\<close> in an iteration, before the run is looked at.\<close>

definition seg_tmp :: "byte list \<Rightarrow> nat \<Rightarrow> pack_state \<Rightarrow> byte list" where
  "seg_tmp srcv i S = (if i + 8 - length srcv > 0 then segment srcv i else ps_tmp S)"

definition seg_src :: "byte list \<Rightarrow> nat \<Rightarrow> src_ptr" where
  "seg_src srcv i = (if i + 8 - length srcv > 0 then In_tmp else In_src i)"

definition seg_done :: "byte list \<Rightarrow> nat \<Rightarrow> byte list \<Rightarrow> nat \<Rightarrow> pack_state \<Rightarrow> pack_state" where
  "seg_done srcv i m n S = S\<lparr>ps_mem := m, ps_tmp := seg_tmp srcv i S, ps_bufsz := ps_bufsz S - int n\<rparr>"

definition moved :: "nat \<Rightarrow> pack_state \<Rightarrow> pack_state" where
  "moved n S = S\<lparr>ps_buffer := ps_buffer S + n, ps_size := ps_size S + n\<rparr>"

lemma pack_step_seg:
  assumes i: "i < length srcv" and seg: "pack_seg (segment srcv i) (ps_mem S) (ps_buffer S) (ps_bufsz S) (ps_ff_n S) = Ok (n, m)"
  shows "pack_step srcv i S = (let S1 = seg_done srcv i m n S in
      res_bind
        (if n = 10 then Ok (S1\<lparr>ps_ff_src := seg_src srcv i, ps_ff_des := ps_buffer S, ps_ff_n := 1\<rparr>)
         else if n = 8 \<and> ps_ff_n S > 0 then
           if ps_ff_n S + 1 = 256 then res_bind (pack_flush srcv (256 * 8) S1) (\<lambda>S2. Ok (S2\<lparr>ps_ff_n := 0\<rparr>))
           else Ok (S1\<lparr>ps_ff_n := ps_ff_n S + 1\<rparr>)
         else if ps_ff_n S > 0 then res_bind (pack_flush srcv (ps_ff_n S * 8) S1) (\<lambda>S2. Ok (S2\<lparr>ps_ff_n := 0\<rparr>))
         else Ok S1)
        (\<lambda>S3. Ok (moved n S3)))"
proof -
  have tmp: "(if i + 8 - length srcv > 0 then take (8 - (i + 8 - length srcv)) (drop i srcv) @ replicate (i + 8 - length srcv) 0 else ps_tmp S) = seg_tmp srcv i S"
  proof (cases "i + 8 - length srcv > 0")
    case True
    then have "8 - (i + 8 - length srcv) = length srcv - i" "8 - (length srcv - i) = i + 8 - length srcv" using i by linarith+
    moreover have "length srcv - i \<le> 8" using True by linarith
    ultimately show ?thesis using True by (simp add: seg_tmp_def segment_def)
  qed (simp add: seg_tmp_def)
  have "src_bytes srcv (seg_tmp srcv i S) (seg_src srcv i) 8 = Ok (segment srcv i)"
  proof (cases "i + 8 - length srcv > 0")
    case True
    then show ?thesis by (simp add: src_bytes_def seg_tmp_def seg_src_def)
  next
    case False
    then show ?thesis by (simp add: src_bytes_def seg_src_def segment_def)
  qed
  then show ?thesis unfolding pack_step_def tmp seg_src_def [symmetric] Let_def
    using seg by (simp add: seg_done_def moved_def)
qed

text \<open>A run of 256 segments is copied from the source, which must not end inside it.\<close>

definition no_overread :: "byte list \<Rightarrow> bool" where
  "no_overread srcv = (length srcv < 2046 \<or> length srcv mod 8 < 6)"

lemma segment_notzero: "i < length srcv \<Longrightarrow> length (notzero (segment srcv i)) \<le> length srcv - i"
  using notzero_le [of "take 8 (drop i srcv)"] by (simp add: segment_def notzero_def)

lemma mod8_tail:
  assumes "i mod 8 = 0" "i < n" "\<not> i + 8 \<le> (n :: nat)"
  shows "n mod 8 = n - i"
proof -
  have "n = (n - i) + 8 * (i div 8)" using assms mult_div_mod_eq [of 8 i] by simp
  then have "n mod 8 = (n - i) mod 8" by (metis mod_mult_self2)
  then show ?thesis using assms(2,3) by simp
qed

lemma run_fits:
  assumes no: "no_overread srcv" and i: "i < length srcv" and run: "k + 8 * 255 = i" "i mod 8 = 0" and nz: "6 \<le> length (notzero (segment srcv i))"
  shows "i + 8 \<le> length srcv"
proof (rule ccontr)
  assume lt: "\<not> i + 8 \<le> length srcv"
  have ge: "6 \<le> length srcv - i" using segment_notzero [OF i] nz by linarith
  have "length srcv mod 8 = length srcv - i" by (rule mod8_tail [OF run(2) i lt])
  then show False using no ge run(1) i by (auto simp: no_overread_def)
qed

text \<open>How the invariant goes on in the three cases of an iteration.\<close>

lemma pack_inv_first:
  assumes inv: "pack_inv srcv cap i [] d S" and i: "i < length srcv" and m: "length m = length (ps_mem S)"
  shows "pack_inv srcv cap (i + 8) [segment srcv i] d
    (moved 10 ((seg_done srcv i m 10 S)\<lparr>ps_ff_src := seg_src srcv i, ps_ff_des := ps_buffer S, ps_ff_n := 1\<rparr>))"
proof -
  have "run_src srcv (i + 8) [segment srcv i] (moved 10 ((seg_done srcv i m 10 S)\<lparr>ps_ff_src := seg_src srcv i, ps_ff_des := ps_buffer S, ps_ff_n := 1\<rparr>))"
  proof (cases "i + 8 - length srcv > 0")
    case True
    then show ?thesis using i by (simp add: run_src_def moved_def seg_done_def seg_src_def seg_tmp_def)
  next
    case False
    then show ?thesis using i by (simp add: run_src_def moved_def seg_done_def seg_src_def segment_def)
  qed
  then show ?thesis using inv i m by (simp add: pack_inv_def moved_def seg_done_def length_run_code run_code_def)
qed

lemma pack_inv_run_src:
  assumes inv: "pack_inv srcv cap i run d S" and ne: "run \<noteq> []" and i: "i < length srcv"
  obtains k where "ps_ff_src S = In_src k" "k + 8 * length run = i" "k + 8 \<le> length srcv" "concat run = take (8 * length run) (drop k srcv)"
  using inv ne i that unfolding pack_inv_def run_src_def by (metis append_Nil2 diff_is_0_eq less_imp_le not_le replicate_0)

lemma run_snoc:
  assumes k: "k + 8 * length run = i" "concat run = take (8 * length run) (drop k srcv)" and i: "i < length srcv"
  shows "concat (run @ [segment srcv i]) = take (8 * length (run @ [segment srcv i])) (drop k srcv) @ replicate (i + 8 - length srcv) 0"
proof -
  have "take (8 * length run + 8) (drop k srcv) = take (8 * length run) (drop k srcv) @ take 8 (drop i srcv)"
    using k(1) take_add [of "8 * length run" 8 "drop k srcv"] by (simp add: add.commute)
  then show ?thesis using k(2) i by (simp add: segment_def add.commute)
qed

lemma pack_inv_next:
  assumes inv: "pack_inv srcv cap i run d S" and ne: "run \<noteq> []" and i: "i < length srcv" and m: "length m = length (ps_mem S)"
    and n: "length run + 1 \<noteq> 256"
  shows "pack_inv srcv cap (i + 8) (run @ [segment srcv i]) d (moved 8 ((seg_done srcv i m 8 S)\<lparr>ps_ff_n := ps_ff_n S + 1\<rparr>))"
proof -
  obtain k where k: "ps_ff_src S = In_src k" "k + 8 * length run = i" "k + 8 \<le> length srcv" "concat run = take (8 * length run) (drop k srcv)"
    using pack_inv_run_src [OF inv ne i] by blast
  have "run_src srcv (i + 8) (run @ [segment srcv i]) (moved 8 ((seg_done srcv i m 8 S)\<lparr>ps_ff_n := ps_ff_n S + 1\<rparr>))"
    using k run_snoc [OF k(2,4) i] unfolding run_src_def by (intro disjI2 disjI1 exI [of _ k]) (simp add: moved_def seg_done_def)
  then show ?thesis using inv ne i m n by (simp add: pack_inv_def moved_def seg_done_def length_run_code)
qed

lemma pack_inv_reset:
  assumes inv: "pack_inv srcv cap i run d S" and i: "i < length srcv" and m: "length m = length (ps_mem S)" and m2: "length m2 = length (ps_mem S)"
    and d: "d1 = ps_buffer S + n"
  shows "pack_inv srcv cap (i + 8) [] d1 (moved n ((seg_done srcv i m n S)\<lparr>ps_mem := m2, ps_ff_n := 0\<rparr>))"
  using assms by (simp add: pack_inv_def moved_def seg_done_def run_src_def run_code_def)

lemma pack_run_full:
  assumes inv: "pack_inv srcv cap i run d S" and ne: "run \<noteq> []" and i: "i + 8 \<le> length srcv" and n: "length run + 1 = 256"
    and m: "length m = length (ps_mem S)"
  shows "pack_flush srcv (256 * 8) (seg_done srcv i m 8 S) = Ok ((seg_done srcv i m 8 S)\<lparr>ps_mem :=
    (if ps_bufsz S \<ge> 8 then wr m d (run_code (run @ [segment srcv i])) else m)\<rparr>)"
proof -
  let ?run = "run @ [segment srcv i]"
  obtain k where k: "ps_ff_src S = In_src k" "k + 8 * length run = i" "k + 8 \<le> length srcv" "concat run = take (8 * length run) (drop k srcv)"
    using pack_inv_run_src [OF inv ne] i by auto
  have r8: "\<forall>s\<in>set ?run. length s = 8" using inv by (simp add: pack_inv_def)
  have l: "length ?run = 256" using n by simp
  have c: "concat ?run = take (256 * 8) (drop k srcv)" using run_snoc [OF k(2,4)] l i by simp
  have fit: "d + length (run_code ?run) \<le> length m" if "ps_bufsz S \<ge> 8"
    using that inv m ne l length_run_code [OF r8] n by (simp add: pack_inv_def length_run_code)
  have "pack_flush srcv (256 * 8) (seg_done srcv i m 8 S) = Ok ((seg_done srcv i m 8 S)\<lparr>ps_mem :=
      (if ps_bufsz (seg_done srcv i m 8 S) \<ge> 0 then wr (ps_mem (seg_done srcv i m 8 S)) d (run_code ?run) else ps_mem (seg_done srcv i m 8 S))\<rparr>)"
  proof (rule pack_flush_ok [OF _ r8])
    show "src_bytes srcv (ps_tmp (seg_done srcv i m 8 S)) (ps_ff_src (seg_done srcv i m 8 S)) (256 * 8) = Ok (take (256 * 8) (drop k srcv))"
      using k(1,2) n i by (simp add: src_bytes_def seg_done_def)
  qed (use c inv ne l fit in \<open>simp_all add: seg_done_def pack_inv_def\<close>)
  then show ?thesis by (simp add: seg_done_def)
qed

lemma pack_run_end:
  assumes inv: "pack_inv srcv cap i run d S" and ne: "run \<noteq> []" and i: "i < length srcv" and m: "length m = length (ps_mem S)"
  shows "pack_flush srcv (ps_ff_n S * 8) (seg_done srcv i m n S) = Ok ((seg_done srcv i m n S)\<lparr>ps_mem :=
    (if ps_bufsz S \<ge> int n then wr m d (run_code run) else m)\<rparr>)"
proof -
  obtain k where k: "ps_ff_src S = In_src k" "k + 8 * length run = i" "k + 8 \<le> length srcv" "concat run = take (8 * length run) (drop k srcv)"
    using pack_inv_run_src [OF inv ne i] by blast
  have r8: "\<forall>s\<in>set run. length s = 8" using inv by (simp add: pack_inv_def)
  have fit: "d + length (run_code run) \<le> length m" if "ps_bufsz S \<ge> int n" using that inv m by (simp add: pack_inv_def)
  have "pack_flush srcv (ps_ff_n S * 8) (seg_done srcv i m n S) = Ok ((seg_done srcv i m n S)\<lparr>ps_mem :=
      (if ps_bufsz (seg_done srcv i m n S) \<ge> 0 then wr (ps_mem (seg_done srcv i m n S)) d (run_code run) else ps_mem (seg_done srcv i m n S))\<rparr>)"
  proof (rule pack_flush_ok [OF ne r8])
    show "src_bytes srcv (ps_tmp (seg_done srcv i m n S)) (ps_ff_src (seg_done srcv i m n S)) (ps_ff_n S * 8) = Ok (take (8 * length run) (drop k srcv))"
      using k(1,2) i inv by (simp add: src_bytes_def seg_done_def pack_inv_def mult.commute)
  qed (use k inv ne fit in \<open>simp_all add: seg_done_def pack_inv_def\<close>)
  then show ?thesis by (simp add: seg_done_def)
qed

text \<open>One iteration keeps the invariant and writes the part of the format that it completes.\<close>

definition step_ok :: "byte list \<Rightarrow> nat \<Rightarrow> nat \<Rightarrow> byte list list \<Rightarrow> nat \<Rightarrow> pack_state \<Rightarrow> bool" where
  "step_ok srcv cap i run d S = (\<exists>S1 run1 a. pack_step srcv i S = Ok S1 \<and> pack_inv srcv cap (i + 8) run1 (d + length a) S1 \<and>
     (\<forall>ss. pack_spec run (segment srcv i # ss) = a @ pack_spec run1 ss) \<and> packed (ps_mem S) d a cap (ps_mem S1))"

lemma pack_inv_seg:
  assumes inv: "pack_inv srcv cap i run d S" and i: "i < length srcv"
  obtains m where "pack_seg (segment srcv i) (ps_mem S) (ps_buffer S) (ps_bufsz S) (ps_ff_n S) = Ok (seg_size (length run) (segment srcv i), m)"
    "length m = length (ps_mem S)" "take d m = take d (ps_mem S)"
    "\<not> in_run (length run) (segment srcv i) \<and> int (seg_size (length run) (segment srcv i)) \<le> ps_bufsz S \<Longrightarrow>
       take (seg_size (length run) (segment srcv i)) (drop (ps_buffer S) m) = seg_header 0 (segment srcv i) # notzero (segment srcv i)"
proof -
  obtain m where m: "pack_seg (segment srcv i) (ps_mem S) (ps_buffer S) (ps_bufsz S) (length run) = Ok (seg_size (length run) (segment srcv i), m)"
      "length m = length (ps_mem S)" "take (ps_buffer S) m = take (ps_buffer S) (ps_mem S)"
      "\<not> in_run (length run) (segment srcv i) \<and> int (seg_size (length run) (segment srcv i)) \<le> ps_bufsz S \<longrightarrow>
         take (seg_size (length run) (segment srcv i)) (drop (ps_buffer S) m) = seg_header 0 (segment srcv i) # notzero (segment srcv i)"
    using pack_seg_ok [of "segment srcv i" "ps_bufsz S" "ps_buffer S" "ps_mem S" "length run"] inv by (auto simp: pack_inv_def)
  have "take d m = take d (ps_mem S)" using m(3) inv unfolding pack_inv_def by (metis le_add1 min_absorb1 take_take)
  then show thesis using m inv that by (simp add: pack_inv_def)
qed

lemma pack_step_run:
  assumes inv: "pack_inv srcv cap i run d S" and i: "i < length srcv" and r: "in_run (length run) (segment srcv i)" and n: "length run + 1 \<noteq> 256"
  obtains S1 where "pack_step srcv i S = Ok S1" "pack_inv srcv cap (i + 8) (run @ [segment srcv i]) d S1"
    "length (ps_mem S1) = length (ps_mem S)" "take d (ps_mem S1) = take d (ps_mem S)"
proof -
  obtain m where m: "pack_seg (segment srcv i) (ps_mem S) (ps_buffer S) (ps_bufsz S) (ps_ff_n S) = Ok (seg_size (length run) (segment srcv i), m)"
    "length m = length (ps_mem S)" "take d m = take d (ps_mem S)" using pack_inv_seg [OF inv i] by blast
  note step = pack_step_seg [OF i m(1)]
  have ff: "ps_ff_n S = length run" using inv by (simp add: pack_inv_def)
  have "\<exists>S1. pack_step srcv i S = Ok S1 \<and> ps_mem S1 = m \<and> pack_inv srcv cap (i + 8) (run @ [segment srcv i]) d S1"
  proof (cases "run = []")
    case True
    have "seg_size (length run) (segment srcv i) = 10" using True r by (simp add: seg_size_def)
    then show ?thesis using step True pack_inv_first [OF inv [unfolded True] i m(2)] by (simp add: Let_def moved_def seg_done_def)
  next
    case False
    have "seg_size (length run) (segment srcv i) = 8" using False r by (simp add: seg_size_def)
    then show ?thesis using step False n ff pack_inv_next [OF inv False i m(2) n] by (simp add: Let_def moved_def seg_done_def)
  qed
  then show thesis using m(2,3) that by blast
qed

lemma step_ok_run:
  assumes inv: "pack_inv srcv cap i run d S" and i: "i < length srcv" and r: "in_run (length run) (segment srcv i)" and n: "length run + 1 \<noteq> 256"
  shows "step_ok srcv cap i run d S"
proof -
  obtain S1 where "pack_step srcv i S = Ok S1" "pack_inv srcv cap (i + 8) (run @ [segment srcv i]) d S1"
    "length (ps_mem S1) = length (ps_mem S)" "take d (ps_mem S1) = take d (ps_mem S)"
    using pack_step_run [OF assms] by blast
  moreover have "\<forall>ss. pack_spec run (segment srcv i # ss) = pack_spec (run @ [segment srcv i]) ss" using r n by (auto simp: in_run_def)
  ultimately show ?thesis unfolding step_ok_def
    by (intro exI [of _ S1] exI [of _ "run @ [segment srcv i]"] exI [of _ "[]"]) (simp add: packed_def)
qed

lemma step_ok_full:
  assumes inv: "pack_inv srcv cap i run d S" and i: "i < length srcv" and r: "in_run (length run) (segment srcv i)" and full: "length run + 1 = 256"
    and no: "no_overread srcv"
  shows "step_ok srcv cap i run d S"
proof -
  let ?rc = "run_code (run @ [segment srcv i])"
  have ne: "run \<noteq> []" using full by auto
  have ff: "ps_ff_n S = length run" "ps_buffer S = d + length (run_code run)" "ps_bufsz S = int cap - int (ps_buffer S)" "cap \<le> length (ps_mem S)"
      "\<forall>s\<in>set run. length s = 8" "i mod 8 = 0" using inv by (simp_all add: pack_inv_def)
  obtain m where m: "pack_seg (segment srcv i) (ps_mem S) (ps_buffer S) (ps_bufsz S) (ps_ff_n S) = Ok (seg_size (length run) (segment srcv i), m)"
    "length m = length (ps_mem S)" "take d m = take d (ps_mem S)" using pack_inv_seg [OF inv i] by blast
  obtain k where k: "k + 8 * length run = i" using pack_inv_run_src [OF inv ne i] by blast
  have "i + 8 \<le> length srcv" using full k r ff(6) by (intro run_fits [OF no i, of k]) (auto simp: in_run_def)
  note fl = pack_run_full [OF inv ne this full m(2)]
  define m2 where "m2 = (if ps_bufsz S \<ge> 8 then wr m d ?rc else m)"
  have l: "length ?rc = length (run_code run) + 8" using ff(5) ne by (simp add: length_run_code)
  have fit: "d + length ?rc \<le> length m" if "ps_bufsz S \<ge> 8" using that ff(2,3,4) m(2) l by simp
  let ?S1 = "moved 8 ((seg_done srcv i m 8 S)\<lparr>ps_mem := m2, ps_ff_n := 0\<rparr>)"
  have "seg_size (length run) (segment srcv i) = 8" using ne r by (simp add: seg_size_def)
  then have "pack_step srcv i S = Ok ?S1" using pack_step_seg [OF i m(1)] ne full ff(1) fl by (simp add: Let_def m2_def)
  moreover have "pack_inv srcv cap (i + 8) [] (d + length ?rc) ?S1"
    using fit m(2) ff(2) l by (intro pack_inv_reset [OF inv i m(2)]) (simp_all add: m2_def)
  moreover have "packed (ps_mem S) d ?rc cap m2" using fit ff(2,3) l m(2,3) wr_get [of d ?rc m] by (auto simp: packed_def m2_def)
  moreover have "ps_mem ?S1 = m2" by (simp add: moved_def seg_done_def)
  moreover have "\<forall>ss. pack_spec run (segment srcv i # ss) = ?rc @ pack_spec [] ss" using r full by (auto simp: in_run_def)
  ultimately show ?thesis unfolding step_ok_def by (intro exI [of _ ?S1] exI [of _ "[]"] exI [of _ ?rc]) simp
qed

lemma step_ok_end:
  assumes inv: "pack_inv srcv cap i run d S" and i: "i < length srcv" and r: "\<not> in_run (length run) (segment srcv i)"
  shows "step_ok srcv cap i run d S"
proof -
  let ?s = "segment srcv i" and ?n = "seg_size (length run) (segment srcv i)"
  let ?enc = "run_code run @ (seg_header 0 ?s # notzero ?s)"
  have ff: "ps_ff_n S = length run" "ps_buffer S = d + length (run_code run)" "ps_bufsz S = int cap - int (ps_buffer S)" "cap \<le> length (ps_mem S)"
    using inv by (simp_all add: pack_inv_def)
  obtain m where m: "pack_seg ?s (ps_mem S) (ps_buffer S) (ps_bufsz S) (ps_ff_n S) = Ok (?n, m)" "length m = length (ps_mem S)" "take d m = take d (ps_mem S)"
    "\<not> in_run (length run) ?s \<and> int ?n \<le> ps_bufsz S \<Longrightarrow> take ?n (drop (ps_buffer S) m) = seg_header 0 ?s # notzero ?s"
    using pack_inv_seg [OF inv i] by blast
  have spec: "\<not> (length (notzero ?s) = 8 \<or> run \<noteq> [] \<and> 6 \<le> length (notzero ?s))" using r by (auto simp: in_run_def)
  have n: "?n = length (notzero ?s) + 1" "?n \<noteq> 10" "\<not> (?n = 8 \<and> length run > 0)" using r spec notzero_le [of ?s] by (auto simp: seg_size_def)
  define m2 where "m2 = (if run \<noteq> [] \<and> ps_bufsz S \<ge> int ?n then wr m d (run_code run) else m)"
  have fit: "d + length (run_code run) \<le> length m" if "ps_bufsz S \<ge> int ?n" using that ff(2,3,4) m(2) by simp
  have lm: "length m2 = length (ps_mem S)" using fit m(2) by (simp add: m2_def)
  let ?S1 = "moved ?n ((seg_done srcv i m ?n S)\<lparr>ps_mem := m2, ps_ff_n := 0\<rparr>)"
  have "pack_step srcv i S = Ok ?S1"
  proof (cases "run = []")
    case True
    then have "seg_done srcv i m ?n S = (seg_done srcv i m ?n S)\<lparr>ps_mem := m2, ps_ff_n := 0\<rparr>" using ff(1) by (simp add: seg_done_def m2_def)
    then show ?thesis using pack_step_seg [OF i m(1)] n True ff(1) by (simp add: Let_def)
  next
    case ne: False
    show ?thesis using pack_step_seg [OF i m(1)] n ne pack_run_end [OF inv ne i m(2), of ?n] ff(1) by (simp add: Let_def m2_def)
  qed
  moreover have "pack_inv srcv cap (i + 8) [] (d + length ?enc) ?S1" using ff(2) n(1) by (intro pack_inv_reset [OF inv i m(2) lm]) simp
  moreover have "take (length ?enc) (drop d m2) = ?enc" if c: "d + length ?enc \<le> cap"
  proof -
    have b: "ps_bufsz S \<ge> int ?n" using c n(1) ff(2,3) by simp
    have sg: "take ?n (drop (d + length (run_code run)) m) = seg_header 0 ?s # notzero ?s" using m(4) r b ff(2) by simp
    have "m2 = wr m d (run_code run)" using b by (simp add: m2_def run_code_def)
    then have "drop d m2 = run_code run @ drop (d + length (run_code run)) m" using fit [OF b] by (simp add: wr_def)
    then show ?thesis using sg n(1) by simp
  qed
  then have "packed (ps_mem S) d ?enc cap m2" using lm fit m(3) by (auto simp: packed_def m2_def)
  moreover have "ps_mem ?S1 = m2" by (simp add: moved_def seg_done_def)
  moreover have "\<forall>ss. pack_spec run (?s # ss) = ?enc @ pack_spec [] ss" by (simp only: pack_spec.simps spec if_False append_assoc append_Cons simp_thms)
  ultimately show ?thesis unfolding step_ok_def by (intro exI [of _ ?S1] exI [of _ "[]"] exI [of _ ?enc]) simp
qed

lemma step_ok_always: "pack_inv srcv cap i run d S \<Longrightarrow> i < length srcv \<Longrightarrow> no_overread srcv \<Longrightarrow> step_ok srcv cap i run d S"
  using step_ok_run step_ok_full step_ok_end by blast

lemma pack_rest_ok:
  assumes "pack_inv srcv cap i run d S" "no_overread srcv"
  shows "\<exists>m. res_bind (pack_loop srcv i S) (pack_finish srcv) = Ok (d + length (pack_spec run (segments (drop i srcv))), m) \<and>
    packed (ps_mem S) d (pack_spec run (segments (drop i srcv))) cap m"
  using assms
proof (induction "length srcv - i" arbitrary: i run d S rule: less_induct)
  case less
  show ?case
  proof (cases "i < length srcv")
    case False
    then have "pack_loop srcv i S = Ok S" "segments (drop i srcv) = []" by (simp_all add: pack_loop.simps segments.simps)
    then show ?thesis using pack_finish_ok [OF less.prems(1)] False by simp
  next
    case i: True
    obtain S1 run1 a where s: "pack_step srcv i S = Ok S1" "pack_inv srcv cap (i + 8) run1 (d + length a) S1"
      "\<forall>ss. pack_spec run (segment srcv i # ss) = a @ pack_spec run1 ss" "packed (ps_mem S) d a cap (ps_mem S1)"
      using step_ok_always [OF less.prems(1) i less.prems(2)] by (auto simp: step_ok_def)
    have "pack_loop srcv i S = pack_loop srcv (i + 8) S1" using i s(1) by (subst pack_loop.simps) simp
    moreover obtain m where "res_bind (pack_loop srcv (i + 8) S1) (pack_finish srcv) =
        Ok (d + length a + length (pack_spec run1 (segments (drop (i + 8) srcv))), m)"
      "packed (ps_mem S1) (d + length a) (pack_spec run1 (segments (drop (i + 8) srcv))) cap m"
      using less.hyps [OF diff_less_mono2 s(2) less.prems(2)] i by fastforce
    ultimately show ?thesis using packed_append [OF s(4)] s(3) segments_drop [OF i]
      by (intro exI [of _ m]) (simp add: add.assoc del: pack_spec.simps res_bind_eq_Ok)
  qed
qed

lemma sproto_pack_ok:
  assumes no: "no_overread srcv" and b: "cap \<le> length mem"
  shows "\<exists>m. sproto_pack srcv mem (int cap) = Ok (length (pack_spec [] (segments srcv)), m) \<and> length m = length mem \<and>
    (length (pack_spec [] (segments srcv)) \<le> cap \<longrightarrow> take (length (pack_spec [] (segments srcv))) m = pack_spec [] (segments srcv))"
proof -
  have "pack_inv srcv cap 0 [] 0 (pack_init mem (int cap))" using b by (simp add: pack_inv_def pack_init_def run_code_def run_src_def)
  then show ?thesis using pack_rest_ok [of srcv cap 0 "[]" 0 "pack_init mem (int cap)"] no
    by (auto simp: sproto_pack_def packed_def pack_init_def simp del: res_bind_eq_Ok)
qed

section \<open>Sizes\<close>

lemma pack_spec_length:
  assumes "\<forall>s\<in>set (run @ ss). length s = 8" "length run < 256"
  shows "length (pack_spec run ss) \<le> 8 * (length run + length ss) + 2 * ((length run + length ss + 255) div 256)"
  using assms
proof (induction run ss rule: pack_spec.induct)
  case (1 run)
  then show ?case using length_run_code [of run] by (cases run) simp_all
next
  case (2 run s ss)
  have r8: "\<forall>s\<in>set run. length s = 8" "length s = 8" using "2.prems" by simp_all
  show ?case
  proof (cases "length (notzero s) = 8 \<or> run \<noteq> [] \<and> 6 \<le> length (notzero s)")
    case True
    show ?thesis
    proof (cases "length run + 1 = 256")
      case full: True
      have "length (run_code (run @ [s])) = 2050" using r8 full length_run_code [of "run @ [s]"] by simp
      moreover have "(511 + length ss) div 256 = 1 + (length ss + 255) div 256" using div_add_self1 [of 256 "length ss + 255"] by (simp add: add.commute)
      ultimately show ?thesis using "2.IH"(1) [OF True full] "2.prems" True full by simp
    next
      case False
      then show ?thesis using "2.IH"(2) [OF True False] "2.prems" True by simp
    qed
  next
    case False
    have le: "length (pack_spec [] ss) \<le> 8 * length ss + 2 * ((length ss + 255) div 256)" using "2.IH"(3) [OF False] "2.prems" by simp
    have eq: "length (pack_spec run (s # ss)) = length (run_code run) + (length (notzero s) + 1) + length (pack_spec [] ss)"
      by (simp only: pack_spec.simps False if_False length_append list.size)
    have "length (run_code run) + (length (notzero s) + 1) \<le> 8 * length run + 8"
      using False notzero_le [of s] r8 length_run_code [OF r8(1)] by (cases "run = []") auto
    moreover have "(length ss + 255) div 256 \<le> (length run + length (s # ss) + 255) div 256" by (intro div_le_mono) simp
    ultimately show ?thesis using le eq by simp
  qed
qed

lemma pack_spec_snoc:
  assumes "length (notzero s) \<le> 5"
  shows "pack_spec run (ss @ [s]) = pack_spec run ss @ seg_header 0 s # notzero s"
  using assms by (induction run ss rule: pack_spec.induct) (auto simp: run_code_def)

lemma concat_segments: "concat (segments s) = s @ replicate (8 * ((length s + 7) div 8) - length s) 0 \<and>
    length (segments s) = (length s + 7) div 8 \<and> (\<forall>x\<in>set (segments s). length x = 8)"
proof (induction s rule: segments.induct)
  case (1 s)
  show ?case
  proof (cases "s = []")
    case False
    let ?t = "drop 8 s"
    have IH: "concat (segments ?t) = ?t @ replicate (8 * ((length ?t + 7) div 8) - length ?t) 0" "length (segments ?t) = (length ?t + 7) div 8"
      "\<forall>x\<in>set (segments ?t). length x = 8" using 1 False by simp_all
    have st: "segments s = (take 8 s @ replicate (8 - length s) 0) # segments ?t" using False by (subst segments.simps) simp
    show ?thesis
    proof (cases "length s \<le> 8")
      case True
      have d: "(length s + 7) div 8 = 1" using True False by (cases s) simp_all
      show ?thesis using st True False by (simp add: d) (simp add: segments.simps)
    next
      case gt: False
      have d: "(length s + 7) div 8 = Suc ((length ?t + 7) div 8)" using gt div_add_self1 [of 8 "length ?t + 7"] by simp
      have "8 * ((length ?t + 7) div 8) - length ?t = 8 * ((length s + 7) div 8) - length s" using d gt by simp
      then have "concat (segments s) = take 8 s @ ?t @ replicate (8 * ((length s + 7) div 8) - length s) 0" using st gt IH(1) by simp
      then show ?thesis using st gt IH(2,3) d by simp
    qed
  qed (simp add: segments.simps)
qed

lemma segments_last:
  assumes "s \<noteq> []"
  shows "\<exists>ss x. segments s = ss @ [x] \<and> length (notzero x) \<le> length s - 8 * length ss"
  using assms
proof (induction s rule: segments.induct)
  case (1 s)
  have st: "segments s = (take 8 s @ replicate (8 - length s) 0) # segments (drop 8 s)" using "1.prems" by (subst segments.simps) simp
  show ?case
  proof (cases "drop 8 s = []")
    case True
    have "length (notzero (take 8 s @ replicate (8 - length s) 0)) \<le> length s"
      using notzero_le [of s] True by (simp add: notzero_def)
    moreover have "segments s = [] @ [take 8 s @ replicate (8 - length s) 0]" using st True by (simp add: segments.simps)
    ultimately show ?thesis by (intro exI [of _ "[]"] exI [of _ "take 8 s @ replicate (8 - length s) 0"]) simp
  next
    case False
    then obtain ss x where x: "segments (drop 8 s) = ss @ [x]" "length (notzero x) \<le> length (drop 8 s) - 8 * length ss"
      using 1 by blast
    then show ?thesis using st by (intro exI [of _ "(take 8 s @ replicate (8 - length s) 0) # ss"] exI [of _ x]) simp
  qed
qed

text \<open>The bound that \<open>sproto_lpack\<close> uses for its output.\<close>

lemma pack_spec_maxsz: "length (pack_spec [] (segments s)) \<le> pack_maxsz (length s)"
proof (cases "s = []")
  case True
  then show ?thesis by (simp add: segments.simps run_code_def)
next
  case False
  note c = concat_segments [of s]
  define n where "n = (length s + 7) div 8"
  have ns: "length (segments s) = n" "8 * n \<le> length s + 7" "length s \<le> 8 * n" using c by (simp_all add: n_def)
  have n256: "(n + 255) div 256 = (length s + 2047) div 2048"
    using div_mult2_eq [of "length s + 2047" 8 256] div_add [of 8 2040 "length s + 7"] by (simp add: n_def)
  show ?thesis
  proof (cases "8 * n - length s \<le> 2")
    case True
    have "length (pack_spec [] (segments s)) \<le> 8 * n + 2 * ((n + 255) div 256)" using pack_spec_length [of "[]" "segments s"] c ns(1) by simp
    then show ?thesis using True n256 ns(2,3) unfolding pack_maxsz_def by linarith
  next
    case gt: False
    obtain ss x where x: "segments s = ss @ [x]" "length (notzero x) \<le> length s - 8 * length ss" using segments_last [OF False] by blast
    have l: "n = length ss + 1" using ns(1) x(1) by simp
    have "length (pack_spec [] (segments s)) = length (pack_spec [] ss) + 1 + length (notzero x)"
      using pack_spec_snoc [of x "[]" ss] x gt l ns by simp
    moreover have "length (pack_spec [] ss) \<le> 8 * length ss + 2 * ((length ss + 255) div 256)"
      using pack_spec_length [of "[]" ss] c x(1) by simp
    moreover have "(length ss + 255) div 256 \<le> (length s + 2047) div 2048" using l n256 [symmetric] by (simp add: div_le_mono)
    moreover have "8 * length ss \<le> length s" using l ns(2) by simp
    ultimately show ?thesis using x(2) unfolding pack_maxsz_def by linarith
  qed
qed

section \<open>The Lua functions\<close>

lemma expand_size_ok: "nsz \<le> osz * 2 ^ Suc j \<Longrightarrow> osz * 2 ^ Suc j < 2 ^ 31 \<Longrightarrow>
    \<exists>n. expand_size osz nsz = Some (Ok n) \<and> nsz \<le> n \<and> n \<le> osz * 2 ^ Suc j"
proof (induction j arbitrary: osz)
  case 0
  then show ?case by (subst expand_size.simps) simp
next
  case (Suc j)
  have lt: "osz * 2 < 2 ^ 31" using Suc.prems(2) by (rule le_less_trans [rotated]) simp
  show ?case
  proof (cases "osz * 2 < nsz")
    case True
    then have "expand_size osz nsz = expand_size (osz * 2) nsz" using lt by (subst expand_size.simps) simp
    then show ?thesis using Suc.IH [of "osz * 2"] Suc.prems by (simp add: mult.assoc)
  next
    case False
    then have "expand_size osz nsz = Some (Ok (osz * 2))" using lt by (subst expand_size.simps) simp
    then show ?thesis using False by simp
  qed
qed

text \<open>The buffers that the functions have: the first one, doubled up to twelve times.\<close>

definition lua_buffer :: "byte list \<Rightarrow> bool" where
  "lua_buffer out = (\<exists>k\<le>12. length out = ENCODE_BUFFERSIZE * 2 ^ k)"

lemma expand_buffer_ok:
  assumes "lua_buffer out" "length out < nsz" "nsz \<le> ENCODE_BUFFERSIZE * 2 ^ 12"
  shows "\<exists>b. expand_buffer junk (length out) nsz = Some (Ok b) \<and> nsz \<le> length b"
proof -
  obtain k where k: "k \<le> 12" "length out = ENCODE_BUFFERSIZE * 2 ^ k" using assms(1) by (auto simp: lua_buffer_def)
  have "k \<noteq> 12" using assms(2,3) k(2) by auto
  then obtain j where j: "12 = k + Suc j" using k(1) less_imp_Suc_add [of k 12] by auto
  have "length out * 2 ^ Suc j = ENCODE_BUFFERSIZE * 2 ^ 12" unfolding j k(2) by (simp add: power_add)
  then obtain n where "expand_size (length out) nsz = Some (Ok n)" "nsz \<le> n" "n \<le> ENCODE_BUFFERSIZE * 2 ^ 12"
    using expand_size_ok [of nsz "length out" j] assms(3) by (auto simp: ENCODE_BUFFERSIZE_def)
  then show ?thesis by (simp add: expand_buffer_def ENCODE_BUFFERSIZE_def ENCODE_MAXSIZE_def)
qed

lemma sproto_lpack_ok:
  assumes no: "no_overread src" and out: "lua_buffer out" and n: "length src \<le> 8000000"
  shows "\<exists>out1. sproto_lpack junk src out = Some (Ok (pack_spec [] (segments src), out1))"
proof -
  let ?enc = "pack_spec [] (segments src)" and ?max = "pack_maxsz (length src)"
  have "(length src + 2047) div 2048 \<le> (8000000 + 2047) div 2048" using n by (intro div_le_mono) simp
  then have max: "?max \<le> ENCODE_BUFFERSIZE * 2 ^ 12" using n by (simp add: pack_maxsz_def ENCODE_BUFFERSIZE_def)
  obtain b where b: "(if length out < ?max then expand_buffer junk (length out) ?max else Some (Ok out)) = Some (Ok b)" "?max \<le> length b"
    using expand_buffer_ok [OF out _ max, of junk] by (cases "length out < ?max") auto
  obtain m where "sproto_pack src b (int ?max) = Ok (length ?enc, m)" "take (length ?enc) m = ?enc"
    using sproto_pack_ok [OF no b(2)] pack_spec_maxsz [of src] by auto
  then show ?thesis using b(1) pack_spec_maxsz [of src] by (simp add: sproto_lpack_def Let_def)
qed

lemma sproto_lunpack_ok:
  assumes d: "decodes enc data" and out: "lua_buffer out" and n: "length data \<le> ENCODE_BUFFERSIZE * 2 ^ 12"
  shows "\<exists>out1. sproto_lunpack junk enc out = Some (Ok (data, out1))"
proof -
  obtain m where m: "sproto_unpack enc out (int (length out)) = Ok (int (length data), m)" "length data \<le> length out \<longrightarrow> take (length data) m = data"
    using unpack_decodes [OF d, of "int (length out)" out] by auto
  show ?thesis
  proof (cases "length data \<le> length out")
    case True
    then show ?thesis using m by (simp add: sproto_lunpack_def)
  next
    case False
    obtain b where b: "expand_buffer junk (length out) (length data) = Some (Ok b)" "length data \<le> length b"
      using expand_buffer_ok [OF out _ n, of junk] False by auto
    obtain m2 where "sproto_unpack enc b (int (length data)) = Ok (int (length data), m2)" "take (length data) m2 = data"
      using unpack_decodes [OF d, of "int (length data)" b] b(2) by auto
    then show ?thesis using m False b by (simp add: sproto_lunpack_def)
  qed
qed

text \<open>C32: the zero packing of sproto. What \<open>sproto_lpack\<close> makes of a message of up to 8 million bytes is the documented format, and
  \<open>sproto_lunpack\<close> gives back the message, padded with zeros to a multiple of eight bytes. Both hold whatever their buffers contain, also
  when a buffer has to grow, and no byte outside a buffer is read or written. Excepted are the messages whose last segment may be
  read past their end: those of at least 2046 bytes that have six or seven bytes in the last segment.\<close>

theorem sproto_pack_roundtrip:
  assumes "no_overread src" "length src \<le> 8000000" "lua_buffer out" "lua_buffer out2"
  shows "\<exists>packed out1 out3. sproto_lpack junk src out = Some (Ok (packed, out1)) \<and> packed = pack_spec [] (segments src) \<and>
    sproto_lunpack junk packed out2 = Some (Ok (src @ replicate (8 * ((length src + 7) div 8) - length src) 0, out3))"
proof -
  note c = concat_segments [of src]
  have "decodes (pack_spec [] (segments src)) (concat (segments src))" using decodes_pack_spec [of "[]" "segments src"] c by simp
  moreover have "length (concat (segments src)) \<le> ENCODE_BUFFERSIZE * 2 ^ 12"
    using assms(2) length_concat8 [of "segments src"] c by (simp add: ENCODE_BUFFERSIZE_def)
  ultimately show ?thesis using sproto_lpack_ok [OF assms(1,3,2), of junk] sproto_lunpack_ok [OF _ assms(4), of _ "concat (segments src)" junk] c by metis
qed

theorem sproto_pack_roundtrip_witness:
  "\<exists>packed out1 out3. sproto_lpack (\<lambda>_. 7) [8, 0, 0, 0, 3, 0, 2, 0, 0x19] (replicate 2050 1) = Some (Ok (packed, out1)) \<and>
    packed = [0x51, 8, 3, 2, 1, 0x19] \<and> sproto_lunpack (\<lambda>_. 7) packed (replicate 2050 1) = Some (Ok ([8, 0, 0, 0, 3, 0, 2, 0, 0x19, 0, 0, 0, 0, 0, 0, 0], out3))"
proof -
  let ?src = "[8, 0, 0, 0, 3, 0, 2, 0, 0x19] :: byte list"
  have b: "lua_buffer (replicate 2050 1)" unfolding lua_buffer_def by (intro exI [of _ 0]) (simp add: ENCODE_BUFFERSIZE_def)
  have r: "replicate 7 (0 :: byte) = [0, 0, 0, 0, 0, 0, 0]" by (simp add: numeral_eq_Suc)
  have "pack_spec [] (segments ?src) = [0x51, 8, 3, 2, 1, 0x19]" by (simp add: segments.simps notzero_def run_code_def r)
  moreover have "?src @ replicate (8 * ((length ?src + 7) div 8) - length ?src) 0 = [8, 0, 0, 0, 3, 0, 2, 0, 0x19, 0, 0, 0, 0, 0, 0, 0]" by (simp add: r)
  moreover have "no_overread ?src" "length ?src \<le> 8000000" by (simp_all add: no_overread_def)
  ultimately show ?thesis using sproto_pack_roundtrip [of ?src "replicate 2050 1" "replicate 2050 1" "\<lambda>_. 7"] b by metis
qed



section \<open>Reads past the end\<close>

text \<open>The segments of a message without zeros, before its last one.\<close>

lemma full_segment:
  assumes "0 \<notin> set srcv" "i + 8 \<le> length srcv"
  shows "length (notzero (segment srcv i)) = 8"
proof -
  have "set (take 8 (drop i srcv)) \<subseteq> set srcv" by (meson order_trans set_drop_subset set_take_subset)
  then have "\<forall>b \<in> set (take 8 (drop i srcv)). b \<noteq> 0" using assms(1) by auto
  then have "notzero (take 8 (drop i srcv)) = take 8 (drop i srcv)" by (simp add: notzero_def)
  moreover have "segment srcv i = take 8 (drop i srcv)" using assms(2) by (simp add: segment_def)
  ultimately show ?thesis using assms(2) by simp
qed

lemma last_segment:
  assumes "0 \<notin> set srcv" "i + n = length srcv" "n \<le> 8"
  shows "length (notzero (segment srcv i)) = n"
proof -
  have "set (drop i srcv) \<subseteq> set srcv" by (rule set_drop_subset)
  then have "\<forall>b \<in> set (drop i srcv). b \<noteq> 0" using assms(1) by auto
  then have "notzero (drop i srcv) = drop i srcv" by (simp add: notzero_def)
  moreover have "take 8 (drop i srcv) = drop i srcv" using assms(2,3) by simp
  ultimately show ?thesis using assms(2) by (simp add: segment_def notzero_def)
qed

lemma full_run:
  assumes mem: "2050 \<le> cap" "cap \<le> length mem" and srcv: "0 \<notin> set srcv" "2040 \<le> length srcv" and j: "j \<le> 255"
  shows "\<exists>S run. pack_loop srcv 0 (pack_init mem (int cap)) = pack_loop srcv (8 * j) S \<and>
    pack_inv srcv cap (8 * j) run 0 S \<and> length run = j"
  using j
proof (induction j)
  case 0
  have "pack_inv srcv cap 0 [] 0 (pack_init mem (int cap))" using mem by (simp add: pack_inv_def pack_init_def run_code_def run_src_def)
  then show ?case by (intro exI [of _ "pack_init mem (int cap)"] exI [of _ "[]"]) simp
next
  case (Suc j)
  obtain S run where S: "pack_loop srcv 0 (pack_init mem (int cap)) = pack_loop srcv (8 * j) S" "pack_inv srcv cap (8 * j) run 0 S" "length run = j"
    using Suc by auto
  have i: "8 * j < length srcv" "8 * j + 8 \<le> length srcv" using Suc.prems srcv(2) by simp_all
  have "in_run (length run) (segment srcv (8 * j))" using full_segment [OF srcv(1) i(2)] by (simp add: in_run_def)
  moreover have "length run + 1 \<noteq> 256" using S(3) Suc.prems by simp
  ultimately obtain S1 where S1: "pack_step srcv (8 * j) S = Ok S1" "pack_inv srcv cap (8 * j + 8) (run @ [segment srcv (8 * j)]) 0 S1"
    using pack_step_run [OF S(2) i(1)] by blast
  have "pack_loop srcv (8 * j) S = pack_loop srcv (8 * j + 8) S1" using S1(1) i(1) by (subst pack_loop.simps) simp
  then show ?case using S(1,3) S1(2) by (intro exI [of _ S1] exI [of _ "run @ [segment srcv (8 * j)]"]) (simp add: add.commute)
qed

lemma pack_overread:
  assumes n: "length srcv = 2046 \<or> length srcv = 2047" and srcv: "0 \<notin> set srcv" and mem: "2050 \<le> cap" "cap \<le> length mem"
  shows "sproto_pack srcv mem (int cap) = Err Out_of_bounds"
proof -
  have n': "2040 < length srcv" "length srcv < 2048" using n by auto
  obtain S run where S: "pack_loop srcv 0 (pack_init mem (int cap)) = pack_loop srcv 2040 S" "pack_inv srcv cap 2040 run 0 S" "length run = 255"
    using full_run [OF mem srcv, of 255] n' by auto
  have ne: "run \<noteq> []" using S(3) by auto
  have "length (notzero (segment srcv 2040)) = length srcv - 2040" using n' by (intro last_segment [OF srcv]) simp_all
  then have r: "in_run (length run) (segment srcv 2040)" using n S(3) by (auto simp: in_run_def)
  have e: "\<forall>s\<in>set run. length s = 8" using S(2) by (simp add: pack_inv_def)
  have ff: "ps_ff_n S = 255" "ps_buffer S = 2042" "8 \<le> ps_bufsz S"
    using S(2,3) ne mem(1) length_run_code [OF e] by (simp_all add: pack_inv_def)
  obtain k where k: "ps_ff_src S = In_src k" using pack_inv_run_src [OF S(2) ne n'(1)] by blast
  obtain m where "pack_seg (segment srcv 2040) (ps_mem S) (ps_buffer S) (ps_bufsz S) (ps_ff_n S) = Ok (seg_size (length run) (segment srcv 2040), m)"
    using pack_inv_seg [OF S(2) n'(1)] by blast
  then have "pack_seg (segment srcv 2040) (ps_mem S) (ps_buffer S) (ps_bufsz S) (ps_ff_n S) = Ok (8, m)" using r S(3) by (simp add: seg_size_def)
  note step = pack_step_seg [OF n'(1) this]
  have "pack_flush srcv (256 * 8) (seg_done srcv 2040 m 8 S) = Err Out_of_bounds"
    using k ff n' by (simp add: pack_flush_def write_ff_def src_bytes_def seg_done_def Let_def)
  then have "pack_step srcv 2040 S = Err Out_of_bounds" using step ff by (simp add: Let_def)
  then have "pack_loop srcv 2040 S = Err Out_of_bounds" using n' by (subst pack_loop.simps) simp
  then show ?thesis using S(1) by (simp add: sproto_pack_def)
qed

lemma unpack_bits_overread:
  assumes "room U" "input U bs" "length bs < length (filter (bit h) ks)"
  shows "unpack_bits h ks U = Err Out_of_bounds"
  using assms
proof (induction ks arbitrary: U bs)
  case (Cons i ks)
  show ?case
  proof (cases "bit h i")
    case False
    obtain U1 where U1: "unpack_store 0 U = Ok U1" "adv U [0] (U1\<lparr>us_size := us_size U1 + 1\<rparr>)" "us_src U1 = us_src U" "us_srcsz U1 = us_srcsz U"
      using unpack_store_ok [OF Cons.prems(1)] by blast
    have "unpack_bits h ks (U1\<lparr>us_size := us_size U1 + 1\<rparr>) = Err Out_of_bounds"
      using adv_room [OF U1(2)] U1(3,4) Cons.prems(2,3) False by (intro Cons.IH [of _ bs]) (simp_all add: input_def)
    then show ?thesis using False U1(1) by simp
  next
    case True
    show ?thesis
    proof (cases bs)
      case Nil
      then show ?thesis using True Cons.prems(2) by (simp add: input_def)
    next
      case (Cons b src)
      note bs = this
      obtain U1 where U1: "unpack_store b U = Ok U1" "adv U [b] (U1\<lparr>us_size := us_size U1 + 1\<rparr>)" "us_src U1 = us_src U" "us_srcsz U1 = us_srcsz U"
        using unpack_store_ok [OF Cons.prems(1)] by blast
      let ?U2 = "U1\<lparr>us_src := src, us_srcsz := us_srcsz U1 - 1, us_size := us_size U1 + 1\<rparr>"
      have "room ?U2" using adv_room [OF U1(2)] by (simp add: room_def)
      then have "unpack_bits h ks ?U2 = Err Out_of_bounds"
        using U1(4) Cons.prems(2,3) True bs by (intro Cons.IH [of _ src]) (simp_all add: input_def)
      then show ?thesis using True U1(1) Cons.prems(2) bs by (simp add: input_def)
    qed
  qed
qed simp

lemma unpack_overread:
  assumes d: "decodes enc data" and cut: "if h = 0xff then bs = [] else length bs < length (filter (bit h) [0..<8])"
  shows "sproto_unpack (enc @ h # bs) mem (int (length mem)) = Err Out_of_bounds"
proof -
  let ?U = "\<lparr>us_src = enc @ h # bs, us_srcsz = int (length (enc @ h # bs)), us_buffer = 0, us_bufsz = int (length mem), us_size = 0, us_mem = mem\<rparr>"
  have "input ?U (enc @ h # bs)" "room ?U" by (simp_all add: input_def room_def)
  then obtain U1 where U1: "unpack_loop ?U = unpack_loop U1" "input U1 (h # bs)" "room U1"
    using d adv_room unfolding decodes_def by blast
  let ?U2 = "U1\<lparr>us_src := bs, us_srcsz := us_srcsz U1 - 1\<rparr>"
  have U2: "room ?U2" "input ?U2 bs" using U1(2,3) by (simp_all add: input_def)
  have "unpack_step U1 = Err Out_of_bounds"
  proof (cases "h = 0xff")
    case True
    then show ?thesis using U1(2) cut by (simp add: unpack_step_def unpack_ff_def input_def)
  next
    case False
    then have "unpack_bits h [0..<8] ?U2 = Err Out_of_bounds" using cut U2 by (intro unpack_bits_overread) simp_all
    then show ?thesis using U1(2) False by (simp add: unpack_step_def input_def Let_def)
  qed
  then have "unpack_loop U1 = Err Out_of_bounds" using U1(2) by (subst unpack_loop.simps) (simp add: input_def)
  then show ?thesis using U1(1) by (simp add: sproto_unpack_def)
qed



end
