(* ===== verification/Skynet_DES.thy ===== *)
theory Skynet_DES
  imports Skynet_Prelude
begin

text \<open>
  The DES cipher of \<open>lualib-src/lua-crypt.c\<close>, with which skynet's login server and its clients encrypt the
  credentials: the key schedule, the block function, and the two Lua functions that encrypt and decrypt a
  string with padding. The proof that decryption undoes encryption follows the shape of the cipher: the
  initial and the final permutation are made of bit swaps that undo each other, and a round is undone by
  itself.
\<close>

section \<open>Tables\<close>

definition SB1 :: "u32 list" where
  "SB1 = [
     0x01010400, 0x00000000, 0x00010000, 0x01010404,
     0x01010004, 0x00010404, 0x00000004, 0x00010000,
     0x00000400, 0x01010400, 0x01010404, 0x00000400,
     0x01000404, 0x01010004, 0x01000000, 0x00000004,
     0x00000404, 0x01000400, 0x01000400, 0x00010400,
     0x00010400, 0x01010000, 0x01010000, 0x01000404,
     0x00010004, 0x01000004, 0x01000004, 0x00010004,
     0x00000000, 0x00000404, 0x00010404, 0x01000000,
     0x00010000, 0x01010404, 0x00000004, 0x01010000,
     0x01010400, 0x01000000, 0x01000000, 0x00000400,
     0x01010004, 0x00010000, 0x00010400, 0x01000004,
     0x00000400, 0x00000004, 0x01000404, 0x00010404,
     0x01010404, 0x00010004, 0x01010000, 0x01000404,
     0x01000004, 0x00000404, 0x00010404, 0x01010400,
     0x00000404, 0x01000400, 0x01000400, 0x00000000,
     0x00010004, 0x00010400, 0x00000000, 0x01010004]"

definition SB2 :: "u32 list" where
  "SB2 = [
     0x80108020, 0x80008000, 0x00008000, 0x00108020,
     0x00100000, 0x00000020, 0x80100020, 0x80008020,
     0x80000020, 0x80108020, 0x80108000, 0x80000000,
     0x80008000, 0x00100000, 0x00000020, 0x80100020,
     0x00108000, 0x00100020, 0x80008020, 0x00000000,
     0x80000000, 0x00008000, 0x00108020, 0x80100000,
     0x00100020, 0x80000020, 0x00000000, 0x00108000,
     0x00008020, 0x80108000, 0x80100000, 0x00008020,
     0x00000000, 0x00108020, 0x80100020, 0x00100000,
     0x80008020, 0x80100000, 0x80108000, 0x00008000,
     0x80100000, 0x80008000, 0x00000020, 0x80108020,
     0x00108020, 0x00000020, 0x00008000, 0x80000000,
     0x00008020, 0x80108000, 0x00100000, 0x80000020,
     0x00100020, 0x80008020, 0x80000020, 0x00100020,
     0x00108000, 0x00000000, 0x80008000, 0x00008020,
     0x80000000, 0x80100020, 0x80108020, 0x00108000]"

definition SB3 :: "u32 list" where
  "SB3 = [
     0x00000208, 0x08020200, 0x00000000, 0x08020008,
     0x08000200, 0x00000000, 0x00020208, 0x08000200,
     0x00020008, 0x08000008, 0x08000008, 0x00020000,
     0x08020208, 0x00020008, 0x08020000, 0x00000208,
     0x08000000, 0x00000008, 0x08020200, 0x00000200,
     0x00020200, 0x08020000, 0x08020008, 0x00020208,
     0x08000208, 0x00020200, 0x00020000, 0x08000208,
     0x00000008, 0x08020208, 0x00000200, 0x08000000,
     0x08020200, 0x08000000, 0x00020008, 0x00000208,
     0x00020000, 0x08020200, 0x08000200, 0x00000000,
     0x00000200, 0x00020008, 0x08020208, 0x08000200,
     0x08000008, 0x00000200, 0x00000000, 0x08020008,
     0x08000208, 0x00020000, 0x08000000, 0x08020208,
     0x00000008, 0x00020208, 0x00020200, 0x08000008,
     0x08020000, 0x08000208, 0x00000208, 0x08020000,
     0x00020208, 0x00000008, 0x08020008, 0x00020200]"

definition SB4 :: "u32 list" where
  "SB4 = [
     0x00802001, 0x00002081, 0x00002081, 0x00000080,
     0x00802080, 0x00800081, 0x00800001, 0x00002001,
     0x00000000, 0x00802000, 0x00802000, 0x00802081,
     0x00000081, 0x00000000, 0x00800080, 0x00800001,
     0x00000001, 0x00002000, 0x00800000, 0x00802001,
     0x00000080, 0x00800000, 0x00002001, 0x00002080,
     0x00800081, 0x00000001, 0x00002080, 0x00800080,
     0x00002000, 0x00802080, 0x00802081, 0x00000081,
     0x00800080, 0x00800001, 0x00802000, 0x00802081,
     0x00000081, 0x00000000, 0x00000000, 0x00802000,
     0x00002080, 0x00800080, 0x00800081, 0x00000001,
     0x00802001, 0x00002081, 0x00002081, 0x00000080,
     0x00802081, 0x00000081, 0x00000001, 0x00002000,
     0x00800001, 0x00002001, 0x00802080, 0x00800081,
     0x00002001, 0x00002080, 0x00800000, 0x00802001,
     0x00000080, 0x00800000, 0x00002000, 0x00802080]"

definition SB5 :: "u32 list" where
  "SB5 = [
     0x00000100, 0x02080100, 0x02080000, 0x42000100,
     0x00080000, 0x00000100, 0x40000000, 0x02080000,
     0x40080100, 0x00080000, 0x02000100, 0x40080100,
     0x42000100, 0x42080000, 0x00080100, 0x40000000,
     0x02000000, 0x40080000, 0x40080000, 0x00000000,
     0x40000100, 0x42080100, 0x42080100, 0x02000100,
     0x42080000, 0x40000100, 0x00000000, 0x42000000,
     0x02080100, 0x02000000, 0x42000000, 0x00080100,
     0x00080000, 0x42000100, 0x00000100, 0x02000000,
     0x40000000, 0x02080000, 0x42000100, 0x40080100,
     0x02000100, 0x40000000, 0x42080000, 0x02080100,
     0x40080100, 0x00000100, 0x02000000, 0x42080000,
     0x42080100, 0x00080100, 0x42000000, 0x42080100,
     0x02080000, 0x00000000, 0x40080000, 0x42000000,
     0x00080100, 0x02000100, 0x40000100, 0x00080000,
     0x00000000, 0x40080000, 0x02080100, 0x40000100]"

definition SB6 :: "u32 list" where
  "SB6 = [
     0x20000010, 0x20400000, 0x00004000, 0x20404010,
     0x20400000, 0x00000010, 0x20404010, 0x00400000,
     0x20004000, 0x00404010, 0x00400000, 0x20000010,
     0x00400010, 0x20004000, 0x20000000, 0x00004010,
     0x00000000, 0x00400010, 0x20004010, 0x00004000,
     0x00404000, 0x20004010, 0x00000010, 0x20400010,
     0x20400010, 0x00000000, 0x00404010, 0x20404000,
     0x00004010, 0x00404000, 0x20404000, 0x20000000,
     0x20004000, 0x00000010, 0x20400010, 0x00404000,
     0x20404010, 0x00400000, 0x00004010, 0x20000010,
     0x00400000, 0x20004000, 0x20000000, 0x00004010,
     0x20000010, 0x20404010, 0x00404000, 0x20400000,
     0x00404010, 0x20404000, 0x00000000, 0x20400010,
     0x00000010, 0x00004000, 0x20400000, 0x00404010,
     0x00004000, 0x00400010, 0x20004010, 0x00000000,
     0x20404000, 0x20000000, 0x00400010, 0x20004010]"

definition SB7 :: "u32 list" where
  "SB7 = [
     0x00200000, 0x04200002, 0x04000802, 0x00000000,
     0x00000800, 0x04000802, 0x00200802, 0x04200800,
     0x04200802, 0x00200000, 0x00000000, 0x04000002,
     0x00000002, 0x04000000, 0x04200002, 0x00000802,
     0x04000800, 0x00200802, 0x00200002, 0x04000800,
     0x04000002, 0x04200000, 0x04200800, 0x00200002,
     0x04200000, 0x00000800, 0x00000802, 0x04200802,
     0x00200800, 0x00000002, 0x04000000, 0x00200800,
     0x04000000, 0x00200800, 0x00200000, 0x04000802,
     0x04000802, 0x04200002, 0x04200002, 0x00000002,
     0x00200002, 0x04000000, 0x04000800, 0x00200000,
     0x04200800, 0x00000802, 0x00200802, 0x04200800,
     0x00000802, 0x04000002, 0x04200802, 0x04200000,
     0x00200800, 0x00000000, 0x00000002, 0x04200802,
     0x00000000, 0x00200802, 0x04200000, 0x00000800,
     0x04000002, 0x04000800, 0x00000800, 0x00200002]"

definition SB8 :: "u32 list" where
  "SB8 = [
     0x10001040, 0x00001000, 0x00040000, 0x10041040,
     0x10000000, 0x10001040, 0x00000040, 0x10000000,
     0x00040040, 0x10040000, 0x10041040, 0x00041000,
     0x10041000, 0x00041040, 0x00001000, 0x00000040,
     0x10040000, 0x10000040, 0x10001000, 0x00001040,
     0x00041000, 0x00040040, 0x10040040, 0x10041000,
     0x00001040, 0x00000000, 0x00000000, 0x10040040,
     0x10000040, 0x10001000, 0x00041040, 0x00040000,
     0x00041040, 0x00040000, 0x10041000, 0x00001000,
     0x00000040, 0x10040040, 0x00001000, 0x00041040,
     0x10001000, 0x00000040, 0x10000040, 0x10040000,
     0x10040040, 0x10000000, 0x00040000, 0x10001040,
     0x00000000, 0x10041040, 0x00040040, 0x10000040,
     0x10040000, 0x10001000, 0x10001040, 0x00000000,
     0x10041040, 0x00041000, 0x00041000, 0x00001040,
     0x00001040, 0x00040040, 0x10000000, 0x10041000]"

definition LHs :: "u32 list" where
  "LHs = [
     0x00000000, 0x00000001, 0x00000100, 0x00000101,
     0x00010000, 0x00010001, 0x00010100, 0x00010101,
     0x01000000, 0x01000001, 0x01000100, 0x01000101,
     0x01010000, 0x01010001, 0x01010100, 0x01010101]"

definition RHs :: "u32 list" where
  "RHs = [
     0x00000000, 0x01000000, 0x00010000, 0x01010000,
     0x00000100, 0x01000100, 0x00010100, 0x01010100,
     0x00000001, 0x01000001, 0x00010001, 0x01010001,
     0x00000101, 0x01000101, 0x00010101, 0x01010101]"

section \<open>Words\<close>

definition GET_UINT32 :: "byte list \<Rightarrow> nat \<Rightarrow> u32" where
  "GET_UINT32 b i = push_bit 24 (ucast (b ! i)) OR push_bit 16 (ucast (b ! (i + 1)))
     OR push_bit 8 (ucast (b ! (i + 2))) OR ucast (b ! (i + 3))"

definition PUT_UINT32 :: "u32 \<Rightarrow> byte list" where
  "PUT_UINT32 n = [ucast (drop_bit 24 n), ucast (drop_bit 16 n), ucast (drop_bit 8 n), ucast n]"

text \<open>One step \<open>T = ((X >> k) ^ Y) & m; Y ^= T; X ^= (T << k)\<close> of the permutations.\<close>

definition swap_bits :: "nat \<Rightarrow> u32 \<Rightarrow> u32 \<times> u32 \<Rightarrow> u32 \<times> u32" where
  "swap_bits k m = (\<lambda>(X, Y). let T = (drop_bit k X XOR Y) AND m in (X XOR push_bit k T, Y XOR T))"

definition rotl1 :: "u32 \<Rightarrow> u32" where
  "rotl1 X = push_bit 1 X OR drop_bit 31 X"

definition rotr1 :: "u32 \<Rightarrow> u32" where
  "rotr1 X = push_bit 31 X OR drop_bit 1 X"

definition DES_IP :: "u32 \<times> u32 \<Rightarrow> u32 \<times> u32" where
  "DES_IP p =
     (let (X, Y) = swap_bits 4 0x0F0F0F0F p;
          (X, Y) = swap_bits 16 0x0000FFFF (X, Y);
          (Y, X) = swap_bits 2 0x33333333 (Y, X);
          (Y, X) = swap_bits 8 0x00FF00FF (Y, X);
          Y = rotl1 Y;
          (X, Y) = swap_bits 0 0xAAAAAAAA (X, Y);
          X = rotl1 X in
      (X, Y))"

definition DES_FP :: "u32 \<times> u32 \<Rightarrow> u32 \<times> u32" where
  "DES_FP p =
     (let (X, Y) = p;
          X = rotr1 X;
          (X, Y) = swap_bits 0 0xAAAAAAAA (X, Y);
          Y = rotr1 Y;
          (Y, X) = swap_bits 8 0x00FF00FF (Y, X);
          (Y, X) = swap_bits 2 0x33333333 (Y, X);
          (X, Y) = swap_bits 16 0x0000FFFF (X, Y) in
      swap_bits 4 0x0F0F0F0F (X, Y))"

definition box :: "u32 list \<Rightarrow> u32 \<Rightarrow> u32" where
  "box SB i = SB ! unat (i AND 0x3F)"

text \<open>\<open>DES_ROUND(X, Y)\<close> with the two subkeys it reads: the new \<open>Y\<close>.\<close>

definition DES_ROUND :: "u32 \<times> u32 \<Rightarrow> u32 \<Rightarrow> u32 \<Rightarrow> u32" where
  "DES_ROUND sk X Y =
     (let T = fst sk XOR X;
          Y = Y XOR (box SB8 T XOR box SB6 (drop_bit 8 T) XOR box SB4 (drop_bit 16 T) XOR box SB2 (drop_bit 24 T));
          T = snd sk XOR (push_bit 28 X OR drop_bit 4 X) in
      Y XOR (box SB7 T XOR box SB5 (drop_bit 8 T) XOR box SB3 (drop_bit 16 T) XOR box SB1 (drop_bit 24 T)))"

section \<open>Key schedule\<close>

definition nib :: "u32 list \<Rightarrow> u32 \<Rightarrow> u32" where
  "nib t i = t ! unat (i AND 0xF)"

definition permuted_choice :: "u32 \<Rightarrow> u32 \<Rightarrow> u32 \<times> u32" where
  "permuted_choice X0 Y0 =
     (let (Y, X) = swap_bits 4 0x0F0F0F0F (Y0, X0);
          (Y, X) = swap_bits 0 0x10101010 (Y, X);
          X' = push_bit 3 (nib LHs X) OR push_bit 2 (nib LHs (drop_bit 8 X))
            OR push_bit 1 (nib LHs (drop_bit 16 X)) OR nib LHs (drop_bit 24 X)
            OR push_bit 7 (nib LHs (drop_bit 5 X)) OR push_bit 6 (nib LHs (drop_bit 13 X))
            OR push_bit 5 (nib LHs (drop_bit 21 X)) OR push_bit 4 (nib LHs (drop_bit 29 X));
          Y' = push_bit 3 (nib RHs (drop_bit 1 Y)) OR push_bit 2 (nib RHs (drop_bit 9 Y))
            OR push_bit 1 (nib RHs (drop_bit 17 Y)) OR nib RHs (drop_bit 25 Y)
            OR push_bit 7 (nib RHs (drop_bit 4 Y)) OR push_bit 6 (nib RHs (drop_bit 12 Y))
            OR push_bit 5 (nib RHs (drop_bit 20 Y)) OR push_bit 4 (nib RHs (drop_bit 28 Y)) in
      (X' AND 0x0FFFFFFF, Y' AND 0x0FFFFFFF))"

definition ks_rotate :: "nat \<Rightarrow> u32 \<Rightarrow> u32" where
  "ks_rotate i X =
     (if i < 2 \<or> i = 8 \<or> i = 15 then (push_bit 1 X OR drop_bit 27 X) AND 0x0FFFFFFF
      else (push_bit 2 X OR drop_bit 26 X) AND 0x0FFFFFFF)"

definition subkey_even :: "u32 \<Rightarrow> u32 \<Rightarrow> u32" where
  "subkey_even X Y =
     (push_bit 4 X AND 0x24000000) OR (push_bit 28 X AND 0x10000000)
     OR (push_bit 14 X AND 0x08000000) OR (push_bit 18 X AND 0x02080000)
     OR (push_bit 6 X AND 0x01000000) OR (push_bit 9 X AND 0x00200000)
     OR (drop_bit 1 X AND 0x00100000) OR (push_bit 10 X AND 0x00040000)
     OR (push_bit 2 X AND 0x00020000) OR (drop_bit 10 X AND 0x00010000)
     OR (drop_bit 13 Y AND 0x00002000) OR (drop_bit 4 Y AND 0x00001000)
     OR (push_bit 6 Y AND 0x00000800) OR (drop_bit 1 Y AND 0x00000400)
     OR (drop_bit 14 Y AND 0x00000200) OR (Y AND 0x00000100)
     OR (drop_bit 5 Y AND 0x00000020) OR (drop_bit 10 Y AND 0x00000010)
     OR (drop_bit 3 Y AND 0x00000008) OR (drop_bit 18 Y AND 0x00000004)
     OR (drop_bit 26 Y AND 0x00000002) OR (drop_bit 24 Y AND 0x00000001)"

definition subkey_odd :: "u32 \<Rightarrow> u32 \<Rightarrow> u32" where
  "subkey_odd X Y =
     (push_bit 15 X AND 0x20000000) OR (push_bit 17 X AND 0x10000000)
     OR (push_bit 10 X AND 0x08000000) OR (push_bit 22 X AND 0x04000000)
     OR (drop_bit 2 X AND 0x02000000) OR (push_bit 1 X AND 0x01000000)
     OR (push_bit 16 X AND 0x00200000) OR (push_bit 11 X AND 0x00100000)
     OR (push_bit 3 X AND 0x00080000) OR (drop_bit 6 X AND 0x00040000)
     OR (push_bit 15 X AND 0x00020000) OR (drop_bit 4 X AND 0x00010000)
     OR (drop_bit 2 Y AND 0x00002000) OR (push_bit 8 Y AND 0x00001000)
     OR (drop_bit 14 Y AND 0x00000808) OR (drop_bit 9 Y AND 0x00000400)
     OR (Y AND 0x00000200) OR (push_bit 7 Y AND 0x00000100)
     OR (drop_bit 7 Y AND 0x00000020) OR (drop_bit 3 Y AND 0x00000011)
     OR (push_bit 2 Y AND 0x00000004) OR (drop_bit 21 Y AND 0x00000002)"

fun ks_loop :: "nat \<Rightarrow> nat \<Rightarrow> u32 \<Rightarrow> u32 \<Rightarrow> (u32 \<times> u32) list" where
  "ks_loop i 0 X Y = []"
| "ks_loop i (Suc n) X Y =
     (let X1 = ks_rotate i X; Y1 = ks_rotate i Y in
      (subkey_even X1 Y1, subkey_odd X1 Y1) # ks_loop (Suc i) n X1 Y1)"

text \<open>The 32 words of \<open>SK\<close> as the 16 pairs that the rounds use.\<close>

definition des_main_ks :: "byte list \<Rightarrow> (u32 \<times> u32) list" where
  "des_main_ks key =
     (let (X, Y) = permuted_choice (GET_UINT32 key 0) (GET_UINT32 key 4) in ks_loop 0 16 X Y)"

section \<open>Blocks and strings\<close>

text \<open>The rounds of \<open>des_crypt\<close>: \<open>DES_ROUND(Y, X)\<close> and \<open>DES_ROUND(X, Y)\<close> in turn, eight times.\<close>

fun des_rounds :: "(u32 \<times> u32) list \<Rightarrow> u32 \<times> u32 \<Rightarrow> u32 \<times> u32" where
  "des_rounds (k1 # k2 # SK) (X, Y) =
     (let X = DES_ROUND k1 Y X; Y = DES_ROUND k2 X Y in des_rounds SK (X, Y))"
| "des_rounds _ (X, Y) = (X, Y)"

definition des_crypt :: "(u32 \<times> u32) list \<Rightarrow> byte list \<Rightarrow> byte list" where
  "des_crypt SK input =
     (let (X, Y) = DES_IP (GET_UINT32 input 0, GET_UINT32 input 4);
          (X, Y) = des_rounds SK (X, Y);
          (Y, X) = DES_FP (Y, X) in
      PUT_UINT32 Y @ PUT_UINT32 X)"

text \<open>\<open>lrandomkey\<close> on the eight numbers that \<open>random\<close> returned.\<close>

definition lrandomkey :: "byte list \<Rightarrow> byte list" where
  "lrandomkey tmp =
     (let x = foldl (XOR) 0 tmp in if x = 0 then tmp[0 := tmp ! 0 OR 1] else tmp)"

definition des_key :: "byte list \<Rightarrow> (u32 \<times> u32) list res" where
  "des_key key = (if length key \<noteq> 8 then Err Lua_error else Ok (des_main_ks key))"

definition des_tail :: "byte list \<Rightarrow> byte list" where
  "des_tail rest = map (\<lambda>j. if j < length rest then rest ! j else if j = length rest then 0x80 else 0) [0..<8]"

text \<open>The loops over whole blocks, and the last block with its padding.\<close>

function encode_loop :: "(u32 \<times> u32) list \<Rightarrow> byte list \<Rightarrow> byte list" where
  "encode_loop SK text =
     (if length text > 7 then des_crypt SK (take 8 text) @ encode_loop SK (drop 8 text)
      else des_crypt SK (des_tail text))"
  by pat_completeness auto
termination by (relation "measure (\<lambda>(SK, text). length text)") auto

declare encode_loop.simps [simp del]

text \<open>A text of 2G or more overflows the \<open>int\<close> arithmetic of the loops.\<close>

definition ldesencode :: "byte list \<Rightarrow> byte list \<Rightarrow> byte list res" where
  "ldesencode key text =
     res_bind (des_key key) (\<lambda>SK.
     if length text \<ge> 2 ^ 31 then Err Int_overflow else Ok (encode_loop SK text))"

function decode_loop :: "(u32 \<times> u32) list \<Rightarrow> byte list \<Rightarrow> byte list" where
  "decode_loop SK text =
     (if text = [] then [] else des_crypt SK (take 8 text) @ decode_loop SK (drop 8 text))"
  by pat_completeness auto
termination by (relation "measure (\<lambda>(SK, text). length text)") auto

declare decode_loop.simps [simp del]

text \<open>
  The scan for the padding: \<open>i\<close> runs down from \<open>textsz - 1\<close> while \<open>i >= textsz - 8\<close>. Both sides are
  unsigned, so with \<open>textsz = 8\<close> an \<open>i\<close> of -1 passes the test and \<open>buffer[-1]\<close> is read.
\<close>

function padding_loop :: "byte list \<Rightarrow> int \<Rightarrow> nat \<Rightarrow> nat res" where
  "padding_loop buffer i padding =
     (let textsz = length buffer in
      if i < 0 then (if textsz = 8 then Err Out_of_bounds else Ok padding)
      else if i < int textsz - 8 then Ok padding
      else if buffer ! nat i = 0 then padding_loop buffer (i - 1) (padding + 1)
      else if buffer ! nat i = 0x80 then Ok padding
      else Err Lua_error)"
  by pat_completeness auto
termination by (relation "measure (\<lambda>(buffer, i, padding). nat (i + 1))") auto

declare padding_loop.simps [simp del]

definition swap_keys :: "(u32 \<times> u32) list \<Rightarrow> (u32 \<times> u32) list" where
  "swap_keys ESK = rev ESK"

definition ldesdecode :: "byte list \<Rightarrow> byte list \<Rightarrow> byte list res" where
  "ldesdecode key text =
     res_bind (des_key key) (\<lambda>ESK.
     let SK = swap_keys ESK; textsz = length text in
     if textsz mod 8 \<noteq> 0 \<or> textsz = 0 then Err Lua_error
     else if textsz \<ge> 2 ^ 31 then Err Int_overflow
     else
       let buffer = decode_loop SK text in
       res_bind (padding_loop buffer (int textsz - 1) 1) (\<lambda>padding.
       if padding > 8 then Err Lua_error else Ok (take (textsz - padding) buffer)))"

section \<open>Decryption undoes encryption\<close>

lemma swap_bits_twice:
  assumes "drop_bit k (push_bit k m) = m"
  shows "swap_bits k m (swap_bits k m p) = p"
proof (cases p)
  case (Pair X Y)
  have m: "bit m n \<Longrightarrow> n + k < 32" for n
    using arg_cong [OF assms, of "\<lambda>w. bit w n"] by (auto simp: bit_drop_bit_eq bit_push_bit_iff)
  define T where "T = (drop_bit k X XOR Y) AND m"
  have T': "(drop_bit k (X XOR push_bit k T) XOR (Y XOR T)) AND m = T"
    by (rule bit_word_eqI) (auto simp: T_def bit_simps dest: m)
  have "swap_bits k m p = (X XOR push_bit k T, Y XOR T)"
    by (simp only: swap_bits_def Pair prod.case Let_def T_def [symmetric])
  moreover have "swap_bits k m (X XOR push_bit k T, Y XOR T) = ((X XOR push_bit k T) XOR push_bit k T, (Y XOR T) XOR T)"
    by (simp only: swap_bits_def prod.case Let_def T')
  ultimately show ?thesis by (simp add: Pair xor.assoc)
qed

lemma rotate_back:
  assumes "a + b = 32"
  shows "push_bit a (push_bit b Y OR drop_bit a Y) OR drop_bit b (push_bit b Y OR drop_bit a Y) = (Y :: u32)"
proof (rule bit_word_eqI)
  fix n assume "n < LENGTH(32)"
  then have "bit Y n \<longleftrightarrow> (a \<le> n \<and> bit Y (n - a + a)) \<or> (\<not> a \<le> n \<and> bit Y n)" by auto
  then show "bit (push_bit a (push_bit b Y OR drop_bit a Y) OR drop_bit b (push_bit b Y OR drop_bit a Y)) n = bit Y n"
    using assms \<open>n < LENGTH(32)\<close> by (auto simp: bit_push_bit_iff bit_drop_bit_eq bit_or_iff dest: bit_imp_le_length)
qed

lemma rotl1_rotr1 [simp]: "rotl1 (rotr1 X) = X"
  using rotate_back [of 1 31 X] by (simp add: rotl1_def rotr1_def)

lemma swap_bits_back: "swap_bits k m p = q \<Longrightarrow> drop_bit k (push_bit k m) = m \<Longrightarrow> swap_bits k m q = p"
  using swap_bits_twice by blast

lemma des_ip_fp: "DES_IP (DES_FP p) = p"
proof -
  obtain X0 Y0 where p: "p = (X0, Y0)" by (cases p)
  obtain X1 Y1 where s1: "swap_bits 0 0xAAAAAAAA (rotr1 X0, Y0) = (X1, Y1)" by (rule prod.exhaust)
  obtain Y2 X2 where s2: "swap_bits 8 0x00FF00FF (rotr1 Y1, X1) = (Y2, X2)" by (rule prod.exhaust)
  obtain Y3 X3 where s3: "swap_bits 2 0x33333333 (Y2, X2) = (Y3, X3)" by (rule prod.exhaust)
  obtain X4 Y4 where s4: "swap_bits 16 0x0000FFFF (X3, Y3) = (X4, Y4)" by (rule prod.exhaust)
  obtain X5 Y5 where s5: "swap_bits 4 0x0F0F0F0F (X4, Y4) = (X5, Y5)" by (rule prod.exhaust)
  have "DES_FP p = (X5, Y5)" by (simp add: DES_FP_def p s1 s2 s3 s4 s5)
  moreover have "DES_IP (X5, Y5) = p"
    using s1 [THEN swap_bits_back] s2 [THEN swap_bits_back] s3 [THEN swap_bits_back] s4 [THEN swap_bits_back]
      s5 [THEN swap_bits_back] by (simp add: DES_IP_def p)
  ultimately show ?thesis by simp
qed

text \<open>A round is undone by itself, and the rounds by the rounds with the subkeys in reverse.\<close>

lemma round_twice [simp]: "DES_ROUND k X (DES_ROUND k X Y) = Y"
  unfolding DES_ROUND_def Let_def by (simp add: ac_simps)

lemma des_rounds_append:
  "even (length ks) \<Longrightarrow> des_rounds (ks @ ks') p = des_rounds ks' (des_rounds ks p)"
  by (induction ks p rule: des_rounds.induct) (auto simp: Let_def)

lemma des_rounds_rev:
  "even (length ks) \<Longrightarrow> des_rounds ks (X, Y) = (X', Y') \<Longrightarrow> des_rounds (rev ks) (Y', X') = (Y, X)"
  by (induction ks "(X, Y)" arbitrary: X Y rule: des_rounds.induct) (auto simp: Let_def des_rounds_append)

lemma des_fp_ip: "DES_FP (DES_IP p) = p"
proof -
  have "inj DES_FP" by (rule inj_on_inverseI [of _ DES_IP]) (rule des_ip_fp)
  then have "surj DES_FP" by (intro finite_UNIV_inj_surj) simp_all
  then obtain q where "p = DES_FP q" by (metis surjD)
  then show ?thesis by (simp add: des_ip_fp)
qed

lemma length_put [simp]: "length (PUT_UINT32 n) = 4"
  by (simp add: PUT_UINT32_def)

lemma get_put: "GET_UINT32 (b @ PUT_UINT32 n @ r) (length b) = n"
proof (rule bit_word_eqI)
  fix i assume "i < LENGTH(32)"
  then consider "i < 8" | "8 \<le> i" "i < 16" | "16 \<le> i" "i < 24" | "24 \<le> i" "i < 32" by fastforce
  then show "bit (GET_UINT32 (b @ PUT_UINT32 n @ r) (length b)) i = bit n i"
    by cases (auto simp: GET_UINT32_def PUT_UINT32_def nth_append bit_simps)
qed

lemma put_get: "PUT_UINT32 (GET_UINT32 b i) = [b ! i, b ! (i + 1), b ! (i + 2), b ! (i + 3)]"
proof -
  have "ucast (drop_bit 24 (GET_UINT32 b i)) = b ! i" "ucast (drop_bit 16 (GET_UINT32 b i)) = b ! (i + 1)"
    "ucast (drop_bit 8 (GET_UINT32 b i)) = b ! (i + 2)" "ucast (GET_UINT32 b i) = b ! (i + 3)"
    by (rule bit_word_eqI; auto simp: GET_UINT32_def bit_simps dest: bit_imp_le_length)+
  then show ?thesis by (simp add: PUT_UINT32_def)
qed

lemma put_get_block: "length b = 8 \<Longrightarrow> PUT_UINT32 (GET_UINT32 b 0) @ PUT_UINT32 (GET_UINT32 b 4) = b"
  by (simp add: put_get list_eq_iff_nth_eq less_Suc_eq numeral_eq_Suc)

lemma length_crypt [simp]: "length (des_crypt SK b) = 8"
  by (simp add: des_crypt_def split: prod.split)

lemma des_crypt_back:
  assumes "length b = 8" "even (length SK)"
  shows "des_crypt (rev SK) (des_crypt SK b) = b"
proof -
  obtain X0 Y0 where ip: "DES_IP (GET_UINT32 b 0, GET_UINT32 b 4) = (X0, Y0)" by (rule prod.exhaust)
  obtain X1 Y1 where r: "des_rounds SK (X0, Y0) = (X1, Y1)" by (rule prod.exhaust)
  obtain Y2 X2 where fp: "DES_FP (Y1, X1) = (Y2, X2)" by (rule prod.exhaust)
  have c: "des_crypt SK b = PUT_UINT32 Y2 @ PUT_UINT32 X2" by (simp add: des_crypt_def ip r fp)
  have g: "GET_UINT32 (des_crypt SK b) 0 = Y2" "GET_UINT32 (des_crypt SK b) 4 = X2"
    using get_put [of "[]" Y2 "PUT_UINT32 X2"] get_put [of "PUT_UINT32 Y2" X2 "[]"] by (simp_all add: c)
  have "DES_IP (Y2, X2) = (Y1, X1)" using des_ip_fp [of "(Y1, X1)"] by (simp add: fp)
  moreover have "des_rounds (rev SK) (Y1, X1) = (Y0, X0)" by (rule des_rounds_rev [OF assms(2) r])
  moreover have "DES_FP (X0, Y0) = (GET_UINT32 b 0, GET_UINT32 b 4)" using des_fp_ip by (simp add: ip [symmetric])
  ultimately have "des_crypt (rev SK) (des_crypt SK b) = PUT_UINT32 (GET_UINT32 b 0) @ PUT_UINT32 (GET_UINT32 b 4)"
    unfolding des_crypt_def [of "rev SK"] by (simp add: g)
  then show ?thesis using put_get_block [OF assms(1)] by simp
qed

lemma length_ks_loop [simp]: "length (ks_loop i n X Y) = n"
  by (induction i n X Y rule: ks_loop.induct) (auto simp: Let_def)

lemma length_main_ks [simp]: "length (des_main_ks key) = 16"
  by (simp add: des_main_ks_def split: prod.split)

lemma des_tail_eq: "length rest < 8 \<Longrightarrow> des_tail rest = rest @ 0x80 # replicate (7 - length rest) 0"
  by (rule nth_equalityI) (auto simp: des_tail_def nth_append nth_Cons' not_less)

lemma decode_encode:
  "even (length SK) \<Longrightarrow> decode_loop (rev SK) (encode_loop SK text) = text @ 0x80 # replicate (7 - length text mod 8) 0"
proof (induction SK "text" rule: encode_loop.induct)
  case (1 SK t)
  have step: "decode_loop (rev SK) (des_crypt SK b @ r) = b @ decode_loop (rev SK) r" if "length b = 8" for b r
    using that "1.prems" length_crypt [of SK b] by (subst decode_loop.simps) (auto simp: des_crypt_back simp del: length_crypt)
  show ?case
  proof (cases "length t > 7")
    case True
    then have "decode_loop (rev SK) (encode_loop SK t) = take 8 t @ decode_loop (rev SK) (encode_loop SK (drop 8 t))"
      by (subst encode_loop.simps) (simp add: step)
    moreover have "length t mod 8 = length (drop 8 t) mod 8" using True by (simp add: le_mod_geq)
    ultimately show ?thesis using 1 True by simp
  next
    case False
    then show ?thesis
      using step [of "des_tail t" "[]"] by (subst encode_loop.simps) (simp add: des_tail_eq decode_loop.simps [of _ "[]"])
  qed
qed

lemma length_encode: "length (encode_loop SK text) = 8 * (length text div 8 + 1)"
proof (induction SK "text" rule: encode_loop.induct)
  case (1 SK t)
  show ?case
  proof (cases "length t > 7")
    case True
    then have "length t div 8 = Suc (length (drop 8 t) div 8)" by (simp add: le_div_geq)
    with 1 True show ?thesis by (subst encode_loop.simps) simp
  next
    case False
    then show ?thesis by (subst encode_loop.simps) simp
  qed
qed

lemma padding_scan:
  assumes "j \<le> k" "k \<le> 7"
  shows "padding_loop (xs @ 0x80 # replicate k 0) (int (length xs + j)) p = Ok (p + j)"
  using assms(1)
proof (induction j arbitrary: p)
  case 0
  then show ?case using assms(2) by (subst padding_loop.simps) simp
next
  case (Suc j)
  have i: "nat (int (length xs + Suc j)) = length xs + Suc j" "int (length xs + Suc j) - 1 = int (length xs + j)"
    "\<not> int (length xs + Suc j) < 0" "\<not> int (length xs + Suc j) < int (length (xs @ 0x80 # replicate k 0)) - 8"
    using assms(2) by simp_all
  have "(xs @ 0x80 # replicate k 0) ! (length xs + Suc j) = 0" using Suc.prems by (simp add: nth_append)
  then show ?case using Suc.IH [of "p + 1"] Suc.prems unfolding padding_loop.simps [of _ "int (length xs + Suc j)"]
    by (simp only: i Let_def if_False if_True Suc_leD refl) simp
qed

lemma zero_block_scan: "n \<le> 8 \<Longrightarrow> padding_loop (replicate 8 0) (int n - 1) p = Err Out_of_bounds"
proof (induction n arbitrary: p)
  case 0
  then show ?case by (subst padding_loop.simps) simp
next
  case (Suc n)
  then show ?case by (subst padding_loop.simps) simp
qed

section \<open>Properties\<close>

text \<open>C36: what \<open>ldesencode\<close> encrypts with an 8-byte key, \<open>ldesdecode\<close> decrypts with the same key to the same text,
  for texts of every length: the cipher text is the next multiple of eight bytes longer than the text.\<close>

theorem des_roundtrip:
  assumes "length key = 8" "length text + 8 < 2 ^ 31"
  shows "\<exists>c. ldesencode key text = Ok c \<and> length c = 8 * (length text div 8 + 1) \<and> ldesdecode key c = Ok text"
proof (intro exI conjI)
  let ?SK = "des_main_ks key" and ?k = "7 - length text mod 8"
  let ?c = "encode_loop ?SK text" and ?b = "text @ 0x80 # replicate ?k 0"
  show "ldesencode key text = Ok ?c" using assms by (simp add: ldesencode_def des_key_def)
  show len: "length ?c = 8 * (length text div 8 + 1)" by (rule length_encode)
  have b: "decode_loop (rev ?SK) ?c = ?b" by (rule decode_encode) simp
  have n: "8 * (length text div 8 + 1) = length text + 1 + ?k" 
    by presburger
  have e: "int (length ?c) - 1 = int (length text + ?k)" using len n by linarith
  have "padding_loop ?b (int (length ?c) - 1) 1 = Ok (1 + ?k)"
    unfolding e using padding_scan [of ?k ?k "text" 1] by simp
  moreover have "length ?c < 2 ^ 31" using assms(2) len n by linarith
  moreover have "length ?c mod 8 = 0" "length ?c \<noteq> 0" unfolding len by simp_all
  ultimately show "ldesdecode key ?c = Ok text"
    using assms(1) by (simp add: ldesdecode_def des_key_def swap_keys_def b Let_def) (simp add: len n)
qed

theorem des_roundtrip_witness:
  "\<exists>c. ldesencode [1, 2, 3, 4, 5, 6, 7, 8] [104, 101, 108, 108, 111] = Ok c \<and> length c = 8 \<and>
     ldesdecode [1, 2, 3, 4, 5, 6, 7, 8] c = Ok [104, 101, 108, 108, 111]"
  using des_roundtrip [of "[1, 2, 3, 4, 5, 6, 7, 8]" "[104, 101, 108, 108, 111]"] by simp

text \<open>A single encrypted block of zeros makes \<open>ldesdecode\<close> read the byte before its buffer: the scan for the
  padding compares its \<open>int\<close> index with an unsigned bound, and -1 passes.\<close>

lemma des_zero_block:
  assumes "length key = 8"
  shows "ldesdecode key (des_crypt (des_main_ks key) (replicate 8 0)) = Err Out_of_bounds"
proof -
  let ?SK = "des_main_ks key"
  have "decode_loop (rev ?SK) (des_crypt ?SK (replicate 8 0)) = replicate 8 0"
    using des_crypt_back [of "replicate 8 0" ?SK] length_crypt [of ?SK "replicate 8 0"]
    by (subst decode_loop.simps) (auto simp: decode_loop.simps [of _ "[]"] simp del: length_crypt)
  with zero_block_scan [of 8 1] assms show ?thesis
    by (simp add: ldesdecode_def des_key_def swap_keys_def Let_def)
qed

lemma des_zero_block_witness:
  "ldesdecode (replicate 8 1) (des_crypt (des_main_ks (replicate 8 1)) (replicate 8 0)) = Err Out_of_bounds"
  using des_zero_block [of "replicate 8 1"] by simp

end
