(* ===== verification/Skynet_SHA1.thy ===== *)
theory Skynet_SHA1
  imports Skynet_Frames
begin

text \<open>
  SHA-1 and HMAC-SHA1 of \<open>lualib-src/lsha1.c\<close>. The C code expands the message schedule in place in a
  circular block of sixteen words, byte-swapped on the fly, and hashes a stream of updates of any length.
  The specification is that of FIPS 180 and FIPS 198: a padded message, cut into blocks, with a schedule of
  eighty words. The lemmas show that the two agree, for every way the message is cut into updates.
  The code is modelled for a little-endian machine.
\<close>

section \<open>The C code\<close>

type_synonym sha_words = "u32 \<times> u32 \<times> u32 \<times> u32 \<times> u32"

record SHA1_CTX =
  sha_state :: sha_words
  sha_count0 :: u32
  sha_count1 :: u32
  sha_buffer :: "byte list"

definition rol :: "u32 \<Rightarrow> nat \<Rightarrow> u32" where
  "rol value bits = push_bit bits value OR drop_bit (32 - bits) value"

text \<open>\<open>blk0\<close> and \<open>blk\<close>: the word of round \<open>i\<close>, which is also stored back.\<close>

definition blk0 :: "u32 list \<Rightarrow> nat \<Rightarrow> u32" where
  "blk0 l i = (rol (l ! i) 24 AND 0xFF00FF00) OR (rol (l ! i) 8 AND 0x00FF00FF)"

definition blk :: "u32 list \<Rightarrow> nat \<Rightarrow> u32" where
  "blk l i = rol (l ! ((i + 13) mod 16) XOR l ! ((i + 8) mod 16) XOR l ! ((i + 2) mod 16) XOR l ! (i mod 16)) 1"

text \<open>
  The macros \<open>R0\<close> to \<open>R4\<close> add to \<open>z\<close> and rotate \<open>w\<close>. The calls rotate the roles of the five variables; here the
  values move instead, so that the result is listed in the order of the next call.
\<close>

definition R0 :: "u32 list \<Rightarrow> nat \<Rightarrow> sha_words \<Rightarrow> u32 list \<times> sha_words" where
  "R0 l i = (\<lambda>(v, w, x, y, z).
     let b = blk0 l i in
     (l[i := b], z + (((w AND (x XOR y)) XOR y) + b + 0x5A827999 + rol v 5), v, rol w 30, x, y))"

definition R1 :: "u32 list \<Rightarrow> nat \<Rightarrow> sha_words \<Rightarrow> u32 list \<times> sha_words" where
  "R1 l i = (\<lambda>(v, w, x, y, z).
     let b = blk l i in
     (l[i mod 16 := b], z + (((w AND (x XOR y)) XOR y) + b + 0x5A827999 + rol v 5), v, rol w 30, x, y))"

definition R2 :: "u32 list \<Rightarrow> nat \<Rightarrow> sha_words \<Rightarrow> u32 list \<times> sha_words" where
  "R2 l i = (\<lambda>(v, w, x, y, z).
     let b = blk l i in
     (l[i mod 16 := b], z + ((w XOR x XOR y) + b + 0x6ED9EBA1 + rol v 5), v, rol w 30, x, y))"

definition R3 :: "u32 list \<Rightarrow> nat \<Rightarrow> sha_words \<Rightarrow> u32 list \<times> sha_words" where
  "R3 l i = (\<lambda>(v, w, x, y, z).
     let b = blk l i in
     (l[i mod 16 := b], z + ((((w OR x) AND y) OR (w AND x)) + b + 0x8F1BBCDC + rol v 5), v, rol w 30, x, y))"

definition R4 :: "u32 list \<Rightarrow> nat \<Rightarrow> sha_words \<Rightarrow> u32 list \<times> sha_words" where
  "R4 l i = (\<lambda>(v, w, x, y, z).
     let b = blk l i in
     (l[i mod 16 := b], z + ((w XOR x XOR y) + b + 0xCA62C1D6 + rol v 5), v, rol w 30, x, y))"

text \<open>The 80 calls of \<open>SHA1_Transform\<close>.\<close>

definition sha_round :: "nat \<Rightarrow> u32 list \<times> sha_words \<Rightarrow> u32 list \<times> sha_words" where
  "sha_round i = (\<lambda>(l, s).
     if i < 16 then R0 l i s else if i < 20 then R1 l i s else if i < 40 then R2 l i s
     else if i < 60 then R3 l i s else R4 l i s)"

definition le_word :: "byte list \<Rightarrow> nat \<Rightarrow> u32" where
  "le_word b i = ucast (b ! i) OR push_bit 8 (ucast (b ! (i + 1))) OR push_bit 16 (ucast (b ! (i + 2)))
     OR push_bit 24 (ucast (b ! (i + 3)))"

definition add_words :: "sha_words \<Rightarrow> sha_words \<Rightarrow> sha_words" where
  "add_words = (\<lambda>(s0, s1, s2, s3, s4) (a, b, c, d, e). (s0 + a, s1 + b, s2 + c, s3 + d, s4 + e))"

definition SHA1_Transform :: "sha_words \<Rightarrow> byte list \<Rightarrow> sha_words" where
  "SHA1_Transform state buffer =
     (let block = map (\<lambda>i. le_word buffer (4 * i)) [0..<16] in
      add_words state (snd (fold sha_round [0..<80] (block, state))))"

definition sat_SHA1_Init :: "SHA1_CTX \<Rightarrow> SHA1_CTX" where
  "sat_SHA1_Init ctx = ctx\<lparr>sha_state := (0x67452301, 0xEFCDAB89, 0x98BADCFE, 0x10325476, 0xC3D2E1F0),
     sha_count0 := 0, sha_count1 := 0\<rparr>"

text \<open>\<open>memcpy(&buffer[j], data, ...)\<close>. A copy past the end would make the list longer than 64.\<close>

definition blit :: "byte list \<Rightarrow> nat \<Rightarrow> byte list \<Rightarrow> byte list" where
  "blit buffer j data = take j buffer @ data @ drop (j + length data) buffer"

function transform_loop :: "sha_words \<Rightarrow> byte list \<Rightarrow> sha_words \<times> byte list" where
  "transform_loop state data =
     (if length data > 63 then transform_loop (SHA1_Transform state (take 64 data)) (drop 64 data)
      else (state, data))"
  by pat_completeness auto
termination by (relation "measure (\<lambda>(state, data). length data)") auto

declare transform_loop.simps [simp del]

text \<open>\<open>len\<close> is a 64-bit \<open>size_t\<close>: the carry into \<open>count[1]\<close> compares the 32-bit sum with the 64-bit \<open>len << 3\<close>.\<close>

definition sat_SHA1_Update :: "SHA1_CTX \<Rightarrow> byte list \<Rightarrow> SHA1_CTX" where
  "sat_SHA1_Update ctx data =
     (let len = length data;
          j = unat (drop_bit 3 (sha_count0 ctx)) mod 64;
          c0 = sha_count0 ctx + of_nat (8 * len);
          c1 = (if unat c0 < 8 * len mod 2 ^ 64 then sha_count1 ctx + 1 else sha_count1 ctx) + of_nat (len div 2 ^ 29);
          ctx = ctx\<lparr>sha_count0 := c0, sha_count1 := c1\<rparr> in
      if j + len > 63 then
        let i = 64 - j;
            buffer = blit (sha_buffer ctx) j (take i data);
            state = SHA1_Transform (sha_state ctx) buffer;
            (state, rest) = transform_loop state (drop i data) in
        ctx\<lparr>sha_state := state, sha_buffer := blit buffer 0 rest\<rparr>
      else ctx\<lparr>sha_buffer := blit (sha_buffer ctx) j data\<rparr>)"

lemma update_count0: "sha_count0 (sat_SHA1_Update ctx data) = sha_count0 ctx + of_nat (8 * length data)"
  by (simp add: sat_SHA1_Update_def Let_def split: prod.split)

text \<open>How many zero bytes the loop of \<open>sat_SHA1_Final\<close> still has to append.\<close>

definition zeros_left :: "u32 \<Rightarrow> nat" where
  "zeros_left c = (120 - unat c div 8 mod 64) mod 64"

lemma and_field: "c AND push_bit n (mask k) = push_bit n (take_bit k (drop_bit n (c :: u32)))"
  by (rule bit_word_eqI) (auto simp: bit_simps)

lemma unat_56: "unat (w :: u32) = 56 \<longleftrightarrow> w = 56"
  by (auto simp: word_unat_eq_iff)

lemma and_504: "c AND 504 = (448 :: u32) \<longleftrightarrow> unat c div 8 mod 64 = 56"
proof -
  define w where "w = take_bit 6 (drop_bit 3 c)"
  have w: "unat w = unat c div 8 mod 64"
    by (simp add: w_def unsigned_take_bit_eq unsigned_drop_bit_eq take_bit_eq_mod drop_bit_eq_div unat_div_distrib unat_mod_distrib)
  have "c AND 504 = push_bit 3 w"
    using and_field [of c 3 6] by (simp add: mask_eq_exp_minus_1 w_def)
  moreover have "unat w < 64" by (simp add: w)
  then have "unat (push_bit 3 w) = unat w * 8"
    by (simp add: push_bit_eq_mult unat_word_ariths)
  ultimately have "c AND 504 = 448 \<longleftrightarrow> unat w * 8 = 448" by (simp add: word_unat_eq_iff [of _ 448])
  then show ?thesis by (simp add: w)
qed

lemma count_step: "unat (c + 8 :: u32) div 8 mod 64 = (unat c div 8 + 1) mod 64"
proof -
  have "unat (c + 8) = (unat c + 8) mod (8 * 2 ^ 29)" by (simp add: unat_word_ariths)
  then have "unat (c + 8) div 8 = (unat c + 8) div 8 mod 2 ^ 29" by (simp only: mod_mult2_eq)
  moreover have "(unat c + 8) div 8 = unat c div 8 + 1" by simp
  ultimately show ?thesis by (simp add: mod_mod_cancel del: div_add_self2)
qed

lemma zeros_left_eq:
  assumes "y < 64"
  shows "(120 - y) mod 64 = (if y \<le> 56 then 56 - y else 120 - y :: nat)"
proof (cases "y \<le> 56")
  case True
  then have "120 - y = 64 + (56 - y)" by simp
  then have "(120 - y) mod 64 = (56 - y) mod 64" by (metis mod_add_self1)
  then show ?thesis using True by simp
next
  case False
  then show ?thesis using assms by simp
qed

lemma zeros_left_step:
  assumes "c AND 504 \<noteq> (448 :: u32)"
  shows "zeros_left (c + 8) < zeros_left c"
proof -
  define y where "y = unat c div 8 mod 64"
  have y: "y \<noteq> 56" "y < 64" using assms unfolding and_504 y_def by simp_all
  have "unat (c + 8) div 8 mod 64 = (if y = 63 then 0 else y + 1)"
    using y(2) by (simp add: count_step y_def mod_Suc)
  then show ?thesis using y by (auto simp: zeros_left_def y_def [symmetric] zeros_left_eq)
qed
function final_loop :: "SHA1_CTX \<Rightarrow> SHA1_CTX" where
  "final_loop ctx =
     (if sha_count0 ctx AND 504 \<noteq> 448 then final_loop (sat_SHA1_Update ctx [0]) else ctx)"
  by pat_completeness auto
termination
  by (relation "measure (\<lambda>ctx. zeros_left (sha_count0 ctx))") (simp_all add: update_count0 zeros_left_step)

declare final_loop.simps [simp del]

definition word_bytes :: "u32 \<Rightarrow> byte list" where
  "word_bytes w = map (\<lambda>i. ucast (drop_bit ((3 - i) * 8) w)) [0..<4]"

definition sat_SHA1_Final :: "SHA1_CTX \<Rightarrow> byte list \<times> SHA1_CTX" where
  "sat_SHA1_Final ctx =
     (let finalcount = word_bytes (sha_count1 ctx) @ word_bytes (sha_count0 ctx);
          ctx = sat_SHA1_Update ctx [0x80];
          ctx = final_loop ctx;
          ctx = sat_SHA1_Update ctx finalcount;
          (s0, s1, s2, s3, s4) = sha_state ctx;
          digest = word_bytes s0 @ word_bytes s1 @ word_bytes s2 @ word_bytes s3 @ word_bytes s4 in
      (digest, \<lparr>sha_state = (0, 0, 0, 0, 0), sha_count0 = 0, sha_count1 = 0, sha_buffer = replicate 64 0\<rparr>))"

text \<open>The contexts are local variables; \<open>ctx\<close> is what their memory holds before \<open>sat_SHA1_Init\<close>.\<close>

definition lsha1 :: "SHA1_CTX \<Rightarrow> byte list \<Rightarrow> byte list" where
  "lsha1 ctx buffer = fst (sat_SHA1_Final (sat_SHA1_Update (sat_SHA1_Init ctx) buffer))"

definition BLOCKSIZE :: nat where "BLOCKSIZE = 64"

text \<open>\<open>xor_key\<close> with a word of four equal bytes, byte by byte.\<close>

definition xor_key :: "byte list \<Rightarrow> u32 \<Rightarrow> byte list" where
  "xor_key key x = map (\<lambda>i. key ! i XOR ucast (drop_bit (8 * (i mod 4)) x)) [0..<BLOCKSIZE]"

definition lhmac_sha1 :: "SHA1_CTX \<Rightarrow> SHA1_CTX \<Rightarrow> SHA1_CTX \<Rightarrow> byte list \<Rightarrow> byte list \<Rightarrow> byte list" where
  "lhmac_sha1 ctx ctx1 ctx2 key text =
     (let rkey = replicate BLOCKSIZE 0;
          rkey = (if length key > BLOCKSIZE then blit rkey 0 (fst (sat_SHA1_Final (sat_SHA1_Update (sat_SHA1_Init ctx) key)))
                  else blit rkey 0 key);
          rkey = xor_key rkey 0x5c5c5c5c;
          ctx1 = sat_SHA1_Update (sat_SHA1_Init ctx1) rkey;
          rkey = xor_key rkey (0x5c5c5c5c XOR 0x36363636);
          ctx2 = sat_SHA1_Update (sat_SHA1_Init ctx2) rkey;
          ctx2 = sat_SHA1_Update ctx2 text;
          digest2 = fst (sat_SHA1_Final ctx2);
          ctx1 = sat_SHA1_Update ctx1 digest2 in
      fst (sat_SHA1_Final ctx1))"

section \<open>The specification\<close>

text \<open>The functions, constants and schedule of FIPS 180, and the padding of a message.\<close>

definition fips_f :: "nat \<Rightarrow> u32 \<Rightarrow> u32 \<Rightarrow> u32 \<Rightarrow> u32" where
  "fips_f t x y z =
     (if t < 20 then (x AND y) XOR (NOT x AND z)
      else if t < 40 then x XOR y XOR z
      else if t < 60 then (x AND y) XOR (x AND z) XOR (y AND z)
      else x XOR y XOR z)"

definition fips_K :: "nat \<Rightarrow> u32" where
  "fips_K t = (if t < 20 then 0x5A827999 else if t < 40 then 0x6ED9EBA1 else if t < 60 then 0x8F1BBCDC else 0xCA62C1D6)"

definition be_word :: "byte list \<Rightarrow> nat \<Rightarrow> u32" where
  "be_word b i = push_bit 24 (ucast (b ! i)) OR push_bit 16 (ucast (b ! (i + 1))) OR push_bit 8 (ucast (b ! (i + 2)))
     OR ucast (b ! (i + 3))"

fun fips_W :: "byte list \<Rightarrow> nat \<Rightarrow> u32" where
  "fips_W M t =
     (if t < 16 then be_word M (4 * t)
      else rol (fips_W M (t - 3) XOR fips_W M (t - 8) XOR fips_W M (t - 14) XOR fips_W M (t - 16)) 1)"

declare fips_W.simps [simp del]

definition fips_round :: "byte list \<Rightarrow> nat \<Rightarrow> sha_words \<Rightarrow> sha_words" where
  "fips_round M t = (\<lambda>(a, b, c, d, e).
     (rol a 5 + fips_f t b c d + e + fips_K t + fips_W M t, a, rol b 30, c, d))"

definition fips_block :: "sha_words \<Rightarrow> byte list \<Rightarrow> sha_words" where
  "fips_block H M = add_words H (fold (fips_round M) [0..<80] H)"

function absorb :: "sha_words \<Rightarrow> byte list \<Rightarrow> sha_words" where
  "absorb H m = (if length m < 64 then H else absorb (fips_block H (take 64 m)) (drop 64 m))"
  by pat_completeness auto
termination by (relation "measure (\<lambda>(H, m). length m)") auto

declare absorb.simps [simp del]

definition sha_iv :: sha_words where
  "sha_iv = (0x67452301, 0xEFCDAB89, 0x98BADCFE, 0x10325476, 0xC3D2E1F0)"

definition sha_pad :: "byte list \<Rightarrow> byte list" where
  "sha_pad m = m @ 0x80 # replicate ((119 - length m mod 64) mod 64) 0 @ be_bytes 8 (8 * length m)"

definition words_bytes :: "sha_words \<Rightarrow> byte list" where
  "words_bytes = (\<lambda>(a, b, c, d, e). word_bytes a @ word_bytes b @ word_bytes c @ word_bytes d @ word_bytes e)"

definition sha1_spec :: "byte list \<Rightarrow> byte list" where
  "sha1_spec m = words_bytes (absorb sha_iv (sha_pad m))"

section \<open>One block\<close>

lemma choose_eq: "(w AND (x XOR y)) XOR y = (w AND x) XOR (NOT w AND y)" for w x y :: u32
  by (rule bit_word_eqI) (auto simp: bit_simps)

lemma majority_eq: "((w OR x) AND y) OR (w AND x) = (w AND x) XOR (w AND y) XOR (x AND y)" for w x y :: u32
  by (rule bit_word_eqI) (auto simp: bit_simps)

lemma bit_rol: "k \<le> 32 \<Longrightarrow> n < 32 \<Longrightarrow> bit (rol w k) n = (if k \<le> n then bit w (n - k) else bit w (n + 32 - k))"
  by (auto simp: rol_def bit_simps add.commute dest: bit_imp_le_length)

lemma bit_le_word:
  "bit (le_word b i) n \<longleftrightarrow> (if n < 8 then bit (b ! i) n else if n < 16 then bit (b ! (i + 1)) (n - 8)
     else if n < 24 then bit (b ! (i + 2)) (n - 16) else n < 32 \<and> bit (b ! (i + 3)) (n - 24))"
  unfolding le_word_def by (auto simp: bit_simps dest: byte_bit)

lemma bit_be_word:
  "bit (be_word b i) n \<longleftrightarrow> (if n < 8 then bit (b ! (i + 3)) n else if n < 16 then bit (b ! (i + 2)) (n - 8)
     else if n < 24 then bit (b ! (i + 1)) (n - 16) else n < 32 \<and> bit (b ! i) (n - 24))"
  unfolding be_word_def by (auto simp: bit_simps dest: byte_bit)

lemma bit_swap_masks:
  "bit (0xFF00FF00 :: u32) n \<longleftrightarrow> 8 \<le> n \<and> n < 16 \<or> 24 \<le> n \<and> n < 32"
  "bit (0x00FF00FF :: u32) n \<longleftrightarrow> n < 8 \<or> 16 \<le> n \<and> n < 24"
proof -
  have "(0xFF00FF00 :: u32) = push_bit 8 (mask 8) OR push_bit 24 (mask 8)" "(0x00FF00FF :: u32) = mask 8 OR push_bit 16 (mask 8)"
    by (simp_all add: mask_eq_exp_minus_1)
  then show "bit (0xFF00FF00 :: u32) n \<longleftrightarrow> 8 \<le> n \<and> n < 16 \<or> 24 \<le> n \<and> n < 32"
    "bit (0x00FF00FF :: u32) n \<longleftrightarrow> n < 8 \<or> 16 \<le> n \<and> n < 24"
    by (auto simp only: bit_or_iff bit_push_bit_iff bit_mask_iff) auto
qed

lemma byte_swap: "(rol (le_word b i) 24 AND 0xFF00FF00) OR (rol (le_word b i) 8 AND 0x00FF00FF) = be_word b i"
proof (rule bit_word_eqI)
  fix n assume n: "n < LENGTH(32)"
  then consider "n < 8" | "8 \<le> n" "n < 16" | "16 \<le> n" "n < 24" | "24 \<le> n" "n < 32" by fastforce
  then show "bit ((rol (le_word b i) 24 AND 0xFF00FF00) OR (rol (le_word b i) 8 AND 0x00FF00FF)) n = bit (be_word b i) n"
    by cases (auto simp: bit_rol bit_or_iff bit_and_iff bit_swap_masks bit_le_word bit_be_word simp del: bit_numeral_word_iff)
qed

text \<open>The circular block before round \<open>i\<close>: the last sixteen words of the schedule, or words not yet swapped.\<close>

definition sched :: "byte list \<Rightarrow> nat \<Rightarrow> u32 list \<Rightarrow> bool" where
  "sched M i l \<longleftrightarrow> length l = 16 \<and> (\<forall>t<i. i \<le> t + 16 \<longrightarrow> l ! (t mod 16) = fips_W M t) \<and>
     (\<forall>k<16. i \<le> k \<longrightarrow> l ! k = le_word M (4 * k))"

definition sha_word :: "u32 list \<Rightarrow> nat \<Rightarrow> u32" where
  "sha_word l i = (if i < 16 then blk0 l i else blk l i)"

lemma sha_round_eq:
  "sha_round i (l, v, w, x, y, z) =
     (l[i mod 16 := sha_word l i], z + (fips_f i w x y + sha_word l i + fips_K i + rol v 5), v, rol w 30, x, y)"
  unfolding sha_round_def sha_word_def fips_f_def fips_K_def
  by (simp add: R0_def R1_def R2_def R3_def R4_def Let_def choose_eq majority_eq)

lemma sched_word:
  assumes "sched M i l"
  shows "sha_word l i = fips_W M i"
proof (cases "i < 16")
  case True
  with assms have "l ! i = le_word M (4 * i)" by (simp add: sched_def)
  with True show ?thesis by (simp add: sha_word_def blk0_def byte_swap fips_W.simps)
next
  case False
  then obtain j where j: "i = j + 16" by (metis add.commute le_Suc_ex not_less)
  have "l ! (t mod 16) = fips_W M t" if "t < i" "i \<le> t + 16" for t using assms that by (simp add: sched_def)
  then have "l ! ((j + 13) mod 16) = fips_W M (j + 13)" "l ! ((j + 8) mod 16) = fips_W M (j + 8)"
    "l ! ((j + 2) mod 16) = fips_W M (j + 2)" "l ! (j mod 16) = fips_W M j" by (simp_all add: j)
  moreover have "(i + k) mod 16 = (j + k) mod 16" for k
    using mod_add_self2 [of "j + k" 16] by (simp add: j ac_simps)
  note this [of 13] this [of 8] this [of 2] this [of 0]
  ultimately show ?thesis using False by (simp add: sha_word_def blk_def fips_W.simps [of M "j + 16"] j add.commute)
qed

lemma sched_step:
  assumes "sched M i l"
  shows "sched M (Suc i) (l[i mod 16 := sha_word l i])"
proof -
  have far: "t mod 16 \<noteq> i mod 16" if "t < i" "Suc i \<le> t + 16" for t
  proof
    assume "t mod 16 = i mod 16"
    then have "16 dvd i - t" using mod_eq_dvd_iff_nat [of t i 16] less_imp_le [OF that(1)] by metis
    then have "16 \<le> i - t" using that(1) by (intro dvd_imp_le) auto
    with that show False by linarith
  qed
  show ?thesis
    using assms far sched_word [OF assms] unfolding sched_def
    by (fastforce simp: nth_list_update less_Suc_eq)
qed

lemma sched_start: "sched M 0 (map (\<lambda>i. le_word M (4 * i)) [0..<16])"
  by (simp add: sched_def)

lemma rounds_eq:
  assumes "sched M 0 l"
  shows "\<exists>l'. fold sha_round [0..<n] (l, s) = (l', fold (fips_round M) [0..<n] s) \<and> sched M n l'"
proof (induction n)
  case (Suc n)
  then obtain l' where l': "fold sha_round [0..<n] (l, s) = (l', fold (fips_round M) [0..<n] s)" "sched M n l'" by blast
  obtain v w x y z where s: "fold (fips_round M) [0..<n] s = (v, w, x, y, z)" by (rule prod_cases5)
  have "sha_round n (l', v, w, x, y, z) = (l'[n mod 16 := sha_word l' n], fips_round M n (v, w, x, y, z))"
    by (simp only: sha_round_eq sched_word [OF l'(2)] fips_round_def prod.case ac_simps)
  with l' sched_step [OF l'(2)] show ?case by (simp add: s)
qed (simp add: assms)

lemma transform_eq: "SHA1_Transform state buffer = fips_block state buffer"
  using rounds_eq [OF sched_start [of buffer], of 80 state] by (auto simp: SHA1_Transform_def fips_block_def)

section \<open>The stream\<close>

text \<open>The bytes of a message after its last whole block.\<close>

definition rest :: "byte list \<Rightarrow> byte list" where
  "rest m = drop (64 * (length m div 64)) m"

lemma length_rest [simp]: "length (rest m) = length m mod 64"
  by (simp add: rest_def minus_mult_div_eq_mod)

lemma rest_short: "length m < 64 \<Longrightarrow> rest m = m"
  by (simp add: rest_def)

lemma rest_step: "64 \<le> length m \<Longrightarrow> rest (drop 64 m) = rest m"
  by (simp add: rest_def le_div_geq algebra_simps)

lemma absorb_rest: "absorb H (m @ d) = absorb (absorb H m) (rest m @ d) \<and> rest (m @ d) = rest (rest m @ d)"
proof (induction H m rule: absorb.induct)
  case (1 H m)
  show ?case
  proof (cases "length m < 64")
    case True
    then show ?thesis by (simp add: rest_short absorb.simps [of H m])
  next
    case False
    then have "absorb H (m @ d) = absorb (fips_block H (take 64 m)) (drop 64 m @ d)"
      "absorb H m = absorb (fips_block H (take 64 m)) (drop 64 m)" "rest m = rest (drop 64 m)"
      "rest (m @ d) = rest (drop 64 m @ d)"
      using rest_step [of m] rest_step [of "m @ d"] by (simp_all add: absorb.simps [of H])
    with 1 False show ?thesis by simp
  qed
qed

lemma transform_loop_eq: "transform_loop H m = (absorb H m, rest m)"
proof (induction H m rule: transform_loop.induct)
  case (1 H m)
  then show ?case
    by (subst transform_loop.simps, subst absorb.simps) (auto simp: transform_eq rest_short rest_step not_less)
qed

definition sha_inv :: "SHA1_CTX \<Rightarrow> byte list \<Rightarrow> bool" where
  "sha_inv ctx m \<longleftrightarrow> sha_state ctx = absorb sha_iv m \<and> sha_count0 ctx = of_nat (8 * length m) \<and>
     sha_count1 ctx = of_nat (8 * length m div 2 ^ 32) \<and> length (sha_buffer ctx) = 64 \<and>
     take (length m mod 64) (sha_buffer ctx) = rest m"

lemma div_carry:
  fixes x y N :: nat
  assumes "y < N"
  shows "(x + y) div N = x div N + (if (x + y) mod N < y then 1 else 0)"
proof -
  obtain q r where x: "x = q * N + r" and r: "r < N"
    using assms by (metis div_mult_mod_eq mod_less_divisor less_nat_zero_code not_gr_zero)
  have "(r + y) div N = (if N \<le> r + y then 1 else 0)" "(r + y) mod N = (if N \<le> r + y then r + y - N else r + y)"
    using r assms by (auto simp: div_if mod_if)
  moreover have "(x + y) div N = q + (r + y) div N" "(x + y) mod N = (r + y) mod N" "x div N = q"
    using r assms by (simp_all add: x add.assoc)
  ultimately show ?thesis using r assms by auto
qed

lemma count_position: "unat (drop_bit 3 (of_nat (8 * n) :: u32)) mod 64 = n mod 64"
proof -
  have "unat (of_nat (8 * n) :: u32) = 8 * (n mod 2 ^ 29)" 
    by (subst unat_of_nat) (simp add: mult_mod_right)
  then show ?thesis by (simp add: unsigned_drop_bit_eq drop_bit_eq_div take_bit_eq_mod mod_mod_cancel unat_div_distrib)
qed

lemma length_blit: "j + length d \<le> length b \<Longrightarrow> length (blit b j d) = length b"
  by (simp add: blit_def)

lemma update_count1:
  "sha_count1 (sat_SHA1_Update ctx d) =
     (if unat (sha_count0 ctx + of_nat (8 * length d)) < 8 * length d mod 2 ^ 64 then sha_count1 ctx + 1 else sha_count1 ctx)
     + of_nat (length d div 2 ^ 29)"
  by (simp add: sat_SHA1_Update_def Let_def split: prod.split)

lemma update_counts:
  assumes c: "sha_count0 ctx = of_nat (8 * n)" "sha_count1 ctx = of_nat (8 * n div 2 ^ 32)" and len: "length d < 2 ^ 29"
  shows "sha_count0 (sat_SHA1_Update ctx d) = of_nat (8 * (n + length d))"
    "sha_count1 (sat_SHA1_Update ctx d) = of_nat (8 * (n + length d) div 2 ^ 32)"
proof -
  show "sha_count0 (sat_SHA1_Update ctx d) = of_nat (8 * (n + length d))" by (simp add: update_count0 c algebra_simps)
  have small: "8 * length d < 2 ^ 32" using len by simp
  have "sha_count0 ctx + of_nat (8 * length d) = of_nat (8 * n + 8 * length d)" by (simp add: c)
  then have u: "unat (sha_count0 ctx + of_nat (8 * length d)) = (8 * n + 8 * length d) mod 2 ^ 32"
    by (simp only: unat_of_nat) simp
  have l: "8 * length d mod 2 ^ 64 = 8 * length d" "length d div 2 ^ 29 = 0" using len by simp_all
  have "8 * (n + length d) div 2 ^ 32 = 8 * n div 2 ^ 32 + (if (8 * n + 8 * length d) mod 2 ^ 32 < 8 * length d then 1 else 0)"
    using div_carry [OF small, of "8 * n"] by (simp only: distrib_left)
  then show "sha_count1 (sat_SHA1_Update ctx d) = of_nat (8 * (n + length d) div 2 ^ 32)"
    unfolding update_count1 u l c(2) by simp
qed

lemma update_short:
  assumes "unat (drop_bit 3 (sha_count0 ctx)) mod 64 + length d \<le> 63"
  shows "sha_state (sat_SHA1_Update ctx d) = sha_state ctx"
    "sha_buffer (sat_SHA1_Update ctx d) = blit (sha_buffer ctx) (unat (drop_bit 3 (sha_count0 ctx)) mod 64) d"
  using assms by (simp_all add: sat_SHA1_Update_def Let_def)

lemma update_long:
  assumes "unat (drop_bit 3 (sha_count0 ctx)) mod 64 = j" "j + length d > 63"
  shows "sha_state (sat_SHA1_Update ctx d) =
      absorb (fips_block (sha_state ctx) (blit (sha_buffer ctx) j (take (64 - j) d))) (drop (64 - j) d)"
    "sha_buffer (sat_SHA1_Update ctx d) = blit (blit (sha_buffer ctx) j (take (64 - j) d)) 0 (rest (drop (64 - j) d))"
  using assms by (simp_all add: sat_SHA1_Update_def Let_def transform_loop_eq transform_eq)

lemma sha_inv_update:
  assumes inv: "sha_inv ctx m" and len: "length d < 2 ^ 29"
  shows "sha_inv (sat_SHA1_Update ctx d) (m @ d)"
proof -
  define j where "j = length m mod 64"
  define b where "b = sha_buffer ctx"
  have inv': "sha_state ctx = absorb sha_iv m" "sha_count0 ctx = of_nat (8 * length m)"
    "sha_count1 ctx = of_nat (8 * length m div 2 ^ 32)" "length b = 64" "take j b = rest m"
    using inv unfolding sha_inv_def b_def j_def by blast+
  have j: "unat (drop_bit 3 (sha_count0 ctx)) mod 64 = j" "j < 64" "length (rest m) = j"
    unfolding inv'(2) count_position by (simp_all add: j_def)
  have c: "sha_count0 (sat_SHA1_Update ctx d) = of_nat (8 * length (m @ d))"
    "sha_count1 (sat_SHA1_Update ctx d) = of_nat (8 * length (m @ d) div 2 ^ 32)"
    using update_counts [OF inv'(2,3) len] by (simp_all only: length_append)
  have r: "absorb sha_iv (m @ d) = absorb (absorb sha_iv m) (rest m @ d)" "rest (m @ d) = rest (rest m @ d)"
    using absorb_rest by blast+
  have modr: "length (m @ d) mod 64 = length (rest (m @ d))" by simp
  show ?thesis
  proof (cases "j + length d > 63")
    case True
    let ?i = "64 - j"
    have block: "blit b j (take ?i d) = rest m @ take ?i d" "length (rest m @ take ?i d) = 64"
      using True j inv'(4,5) by (simp_all add: blit_def)
    have big: "64 \<le> length (rest m @ d)" "take 64 (rest m @ d) = rest m @ take ?i d" "drop 64 (rest m @ d) = drop ?i d"
      using True j by simp_all
    have "absorb (absorb sha_iv m) (rest m @ d) = absorb (fips_block (absorb sha_iv m) (rest m @ take ?i d)) (drop ?i d)"
      using big by (subst absorb.simps) simp
    moreover have rd: "rest (m @ d) = rest (drop ?i d)" unfolding r(2) using rest_step [OF big(1)] big(3) by simp
    moreover have "length (rest (drop ?i d)) < 64" by simp
    then have "length (blit (rest m @ take ?i d) 0 (rest (drop ?i d))) = 64"
      using length_blit [of 0 "rest (drop ?i d)" "rest m @ take ?i d"] block(2) by linarith
    moreover have "take (length x) (blit y 0 x) = x" for x y by (simp add: blit_def)
    ultimately show ?thesis
      unfolding sha_inv_def modr c update_long [OF j(1) True] r(1) b_def [symmetric] block(1) inv'(1)
      by (simp only: rd refl simp_thms)
  next
    case False
    then have "rest (rest m @ d) = rest m @ d" "absorb (absorb sha_iv m) (rest m @ d) = absorb sha_iv m"
      using j by (simp_all add: rest_short absorb.simps [of _ "rest m @ d"])
    moreover have "blit b j d = rest m @ d @ drop (j + length d) b" by (simp add: blit_def inv'(5))
    moreover have "length (blit b j d) = 64" using False inv'(4) by (simp add: length_blit)
    ultimately show ?thesis
      using False j update_short [of ctx d] c r inv'(1) unfolding sha_inv_def modr by (simp add: b_def)
  qed
qed

lemma sha_inv_init: "length (sha_buffer ctx) = 64 \<Longrightarrow> sha_inv (sat_SHA1_Init ctx) []"
  by (simp add: sha_inv_def sat_SHA1_Init_def sha_iv_def absorb.simps rest_def)

lemma zeros_left_zero: "c AND 504 = 448 \<Longrightarrow> zeros_left c = 0"
  by (simp add: and_504 zeros_left_def)

lemma zeros_left_Suc:
  assumes "c AND 504 \<noteq> (448 :: u32)"
  shows "zeros_left c = Suc (zeros_left (c + 8))"
proof -
  define y where "y = unat c div 8 mod 64"
  have y: "y \<noteq> 56" "y < 64" using assms unfolding and_504 y_def by simp_all
  have "unat (c + 8) div 8 mod 64 = (if y = 63 then 0 else y + 1)"
    using y(2) by (simp add: count_step y_def mod_Suc)
  then show ?thesis using y by (auto simp: zeros_left_def y_def [symmetric] zeros_left_eq)
qed

lemma final_loop_inv: "sha_inv ctx m \<Longrightarrow> sha_inv (final_loop ctx) (m @ replicate (zeros_left (sha_count0 ctx)) 0)"
proof (induction ctx arbitrary: m rule: final_loop.induct)
  case (1 ctx)
  show ?case
  proof (cases "sha_count0 ctx AND 504 = 448")
    case True
    then show ?thesis using "1.prems" by (subst final_loop.simps) (simp add: zeros_left_zero)
  next
    case False
    have "sha_inv (sat_SHA1_Update ctx [0]) (m @ [0])" by (rule sha_inv_update [OF "1.prems"]) simp
    with "1.IH" [OF False, of "m @ [0]"] False show ?thesis
      by (subst final_loop.simps) (simp add: zeros_left_Suc update_count0)
  qed
qed

lemma byte_of_count:
  assumes "k \<le> 24"
  shows "(ucast (drop_bit k (of_nat v :: u32)) :: byte) = of_nat (v div 2 ^ k)"
proof (rule bit_word_eqI)
  fix n assume "n < LENGTH(8)"
  then show "bit (ucast (drop_bit k (of_nat v :: u32)) :: byte) n = bit (of_nat (v div 2 ^ k) :: byte) n"
    using assms by (simp add: bit_simps bit_of_nat_iff) (simp add: bit_iff_odd div_mult2_eq [symmetric] power_add)
qed

lemma word_bytes_of_nat:
  "word_bytes (of_nat v) = [of_nat (v div 2 ^ 24), of_nat (v div 2 ^ 16), of_nat (v div 2 ^ 8), of_nat v]"
  using byte_of_count [of 24 v] byte_of_count [of 16 v] byte_of_count [of 8 v] byte_of_count [of 0 v]
  by (simp add: word_bytes_def upt_rec)

lemma be_bytes_8:
  "be_bytes 8 v = [of_nat (v div 2 ^ 56), of_nat (v div 2 ^ 48), of_nat (v div 2 ^ 40), of_nat (v div 2 ^ 32),
     of_nat (v div 2 ^ 24), of_nat (v div 2 ^ 16), of_nat (v div 2 ^ 8), of_nat v]"
proof -
  have "(8 :: nat) = Suc (Suc (Suc (Suc (Suc (Suc (Suc (Suc 0)))))))" by simp
  then show ?thesis by (simp only: be_bytes.simps) simp
qed

lemma finalcount_bytes: "word_bytes (of_nat (v div 2 ^ 32)) @ word_bytes (of_nat v) = be_bytes 8 v"
  unfolding word_bytes_of_nat be_bytes_8 by (simp add: div_mult2_eq [symmetric])

lemma zeros_of_length: "zeros_left (of_nat (8 * n)) = (120 - n mod 64) mod 64"
  using count_position [of n] by (simp add: zeros_left_def unsigned_drop_bit_eq drop_bit_eq_div unat_div_distrib)

lemma pad_zeros: "(120 - Suc n mod 64) mod 64 = (119 - n mod 64) mod (64 :: nat)"
  by (simp add: mod_Suc)

lemma sha_final:
  assumes "sha_inv ctx m"
  shows "fst (sat_SHA1_Final ctx) = sha1_spec m"
proof -
  have c: "word_bytes (sha_count1 ctx) @ word_bytes (sha_count0 ctx) = be_bytes 8 (8 * length m)"
    using assms finalcount_bytes [of "8 * length m"] by (simp only: sha_inv_def)
  define ctx1 where "ctx1 = sat_SHA1_Update ctx [0x80]"
  have 1: "sha_inv ctx1 (m @ [0x80])" unfolding ctx1_def by (rule sha_inv_update [OF assms]) simp
  then have z: "zeros_left (sha_count0 ctx1) = (119 - length m mod 64) mod 64"
    using zeros_of_length [of "Suc (length m)"] pad_zeros [of "length m"] by (simp only: sha_inv_def) simp
  have "sha_inv (sat_SHA1_Update (final_loop ctx1) (be_bytes 8 (8 * length m))) (sha_pad m)"
    using sha_inv_update [OF final_loop_inv [OF 1], of "be_bytes 8 (8 * length m)"] by (simp add: z sha_pad_def)
  then show ?thesis
    by (simp add: sat_SHA1_Final_def Let_def ctx1_def [symmetric] c sha1_spec_def words_bytes_def sha_inv_def split: prod.splits)
qed

section \<open>Hash functions over streams\<close>

text \<open>
  What the users of a streaming hash rely on: a context that has absorbed a message absorbs more of it with
  every update, and the final call returns the hash of all of it.
\<close>

locale stream_hash =
  fixes inv :: "'c \<Rightarrow> byte list \<Rightarrow> bool" and init :: "'c \<Rightarrow> 'c" and fresh :: "'c \<Rightarrow> bool"
    and update :: "'c \<Rightarrow> byte list \<Rightarrow> 'c" and final :: "'c \<Rightarrow> byte list" and H :: "byte list \<Rightarrow> byte list" and limit :: nat
  assumes init: "fresh c \<Longrightarrow> inv (init c) []"
    and update: "inv c m \<Longrightarrow> length d < limit \<Longrightarrow> inv (update c d) (m @ d)"
    and final: "inv c m \<Longrightarrow> final c = H m"
begin

lemma pieces: "inv c m \<Longrightarrow> \<forall>d\<in>set ds. length d < limit \<Longrightarrow> inv (foldl update c ds) (m @ concat ds)"
proof (induction ds arbitrary: c m)
  case (Cons d ds)
  then show ?case using Cons.IH [OF update [OF Cons.prems(1), of d]] by simp
qed simp

lemma pieces_hash: "fresh c \<Longrightarrow> \<forall>d\<in>set ds. length d < limit \<Longrightarrow> final (foldl update (init c) ds) = H (concat ds)"
  using pieces [OF init] final by fastforce

end

interpretation sha: stream_hash sha_inv sat_SHA1_Init "\<lambda>ctx. length (sha_buffer ctx) = 64" sat_SHA1_Update
  "\<lambda>ctx. fst (sat_SHA1_Final ctx)" sha1_spec "2 ^ 29"
  by unfold_locales (simp_all only: sha_inv_init sha_inv_update sha_final)

section \<open>HMAC\<close>

text \<open>FIPS 198 with SHA-1: the key is hashed when it is longer than a block, and padded with zeros.\<close>

definition hmac_key :: "byte list \<Rightarrow> byte list" where
  "hmac_key key = (let k = (if length key > 64 then sha1_spec key else key) in k @ replicate (64 - length k) 0)"

definition hmac_spec :: "byte list \<Rightarrow> byte list \<Rightarrow> byte list" where
  "hmac_spec key text =
     sha1_spec (map ((XOR) 0x5c) (hmac_key key) @ sha1_spec (map ((XOR) 0x36) (hmac_key key) @ text))"

lemma length_sha1 [simp]: "length (sha1_spec m) = 20"
  by (simp add: sha1_spec_def words_bytes_def word_bytes_def split: prod.split)

lemma length_hmac_key [simp]: "length (hmac_key key) = 64"
  by (simp add: hmac_key_def Let_def)

lemma xor_key_equal_bytes:
  assumes "length k = 64" "\<And>i. i < 4 \<Longrightarrow> ucast (drop_bit (8 * i) x) = (c :: byte)"
  shows "xor_key k x = map ((XOR) c) k"
  using assms by (intro nth_equalityI) (simp_all add: xor_key_def BLOCKSIZE_def xor.commute)

lemma less_4: "i < (4 :: nat) \<Longrightarrow> i = 0 \<or> i = 1 \<or> i = 2 \<or> i = 3"
  by arith

lemma xor_key_outer: "length k = 64 \<Longrightarrow> xor_key k 0x5c5c5c5c = map ((XOR) 0x5c) k"
  by (rule xor_key_equal_bytes) (auto dest!: less_4)

lemma xor_key_inner: "length k = 64 \<Longrightarrow> xor_key (map ((XOR) 0x5c) k) (0x5c5c5c5c XOR 0x36363636) = map ((XOR) 0x36) k"
proof -
  assume "length k = 64"
  then have "xor_key (map ((XOR) 0x5c) k) (0x5c5c5c5c XOR 0x36363636) = map ((XOR) 0x6a) (map ((XOR) 0x5c) k)"
    by (intro xor_key_equal_bytes) (auto dest!: less_4)
  then show ?thesis by (simp add: xor.assoc [symmetric] o_def)
qed

lemma blit_key: "blit (replicate 64 0) 0 k = k @ replicate (64 - length k) 0"
  by (simp add: blit_def)

lemma hmac_rkey:
  assumes "length (sha_buffer ctx) = 64" "length key < 2 ^ 29"
  shows "(if length key > BLOCKSIZE then blit (replicate BLOCKSIZE 0) 0 (fst (sat_SHA1_Final (sat_SHA1_Update (sat_SHA1_Init ctx) key)))
      else blit (replicate BLOCKSIZE 0) 0 key) = hmac_key key"
  using sha.pieces_hash [OF assms(1), of "[key]"] assms(2)
  by (simp add: BLOCKSIZE_def hmac_key_def blit_key)

definition sha_memory :: SHA1_CTX where
  "sha_memory = \<lparr>sha_state = (1, 2, 3, 4, 5), sha_count0 = 6, sha_count1 = 7, sha_buffer = replicate 64 9\<rparr>"

section \<open>Properties\<close>

text \<open>C37: SHA-1 is SHA-1: for every way to cut a message into updates of less than 512MB, and whatever the memory
  of the context held before, the digest is that of FIPS 180 for the whole message.\<close>

theorem sha1_correct:
  assumes "length (sha_buffer ctx) = 64" "\<forall>d\<in>set ds. length d < 2 ^ 29"
  shows "fst (sat_SHA1_Final (foldl sat_SHA1_Update (sat_SHA1_Init ctx) ds)) = sha1_spec (concat ds)"
  by (rule sha.pieces_hash [OF assms])

theorem sha1_correct_witness:
  "fst (sat_SHA1_Final (foldl sat_SHA1_Update (sat_SHA1_Init sha_memory) [[97], [98, 99]])) = sha1_spec [97, 98, 99]"
  using sha1_correct [of sha_memory "[[97], [98, 99]]"] by (simp add: sha_memory_def)

text \<open>C38: \<open>lhmac_sha1\<close> is the HMAC of FIPS 198 for keys shorter and longer than a block.\<close>

theorem hmac_sha1_correct:
  assumes "length (sha_buffer c) = 64" "length (sha_buffer c1) = 64" "length (sha_buffer c2) = 64"
    and "length key < 2 ^ 29" "length text < 2 ^ 29"
  shows "lhmac_sha1 c c1 c2 key text = hmac_spec key text"
proof -
  note rkey = hmac_rkey [OF assms(1,4)]
  let ?o = "map ((XOR) 0x5c) (hmac_key key)" and ?i = "map ((XOR) 0x36) (hmac_key key)"
  have inner: "fst (sat_SHA1_Final (sat_SHA1_Update (sat_SHA1_Update (sat_SHA1_Init c2) ?i) text)) = sha1_spec (?i @ text)"
    using sha.pieces_hash [OF assms(3), of "[?i, text]"] assms(5) by simp
  have "fst (sat_SHA1_Final (sat_SHA1_Update (sat_SHA1_Update (sat_SHA1_Init c1) ?o) (sha1_spec (?i @ text)))) = hmac_spec key text"
    using sha.pieces_hash [OF assms(2), of "[?o, sha1_spec (?i @ text)]"] by (simp add: hmac_spec_def)
  then show ?thesis
    by (simp only: lhmac_sha1_def Let_def rkey xor_key_outer xor_key_inner length_hmac_key inner)
qed

theorem hmac_sha1_correct_witness:
  "lhmac_sha1 sha_memory sha_memory sha_memory [1, 2] [72, 105] = hmac_spec [1, 2] [72, 105]"
  using hmac_sha1_correct [of sha_memory sha_memory sha_memory "[1, 2]" "[72, 105]"] by (simp add: sha_memory_def)

text \<open>One update of 512MB counts a bit length of twice the right one: on a 64-bit machine the test for the carry
  compares a 32-bit sum with a 64-bit number and always succeeds, so the padding, and the digest, is wrong.\<close>

theorem sha1_count_overflow:
  assumes "length d = 2 ^ 29"
  shows "sha_count0 (sat_SHA1_Update (sat_SHA1_Init ctx) d) = 0 \<and> sha_count1 (sat_SHA1_Update (sat_SHA1_Init ctx) d) = 2 \<and>
    8 * length d = 1 * 2 ^ 32"
  using assms unfolding update_count0 update_count1 by (simp add: sat_SHA1_Init_def)

theorem sha1_count_overflow_witness:
  "sha_count1 (sat_SHA1_Update (sat_SHA1_Init sha_memory) (replicate (2 ^ 29) 0)) = 2"
  using sha1_count_overflow [of "replicate (2 ^ 29) 0" sha_memory] by simp

end
