(* ===== verification/Skynet_Crypt.thy ===== *)
theory Skynet_Crypt
  imports Skynet_Text
begin

text \<open>
  The rest of \<open>lualib-src/lua-crypt.c\<close> (the DES cipher is in theory \<open>Skynet_DES\<close> and SHA-1 in \<open>Skynet_SHA1\<close>): the
  string hash, hexadecimal and base64 text, the MD5-based message authentication codes, the Diffie-Hellman
  exchange modulo the largest 64-bit prime, and the exclusive or of strings. Lua strings are byte lists.

  The lemmas show that the decoders undo the encoders, that the modular arithmetic, which never leaves 64
  bits, is that of the integers, and that the two ends of an exchange compute the same secret.
\<close>

section \<open>Hash\<close>

fun hash_loop :: "byte list \<Rightarrow> u32 \<Rightarrow> u32 \<Rightarrow> u32 \<times> u32" where
  "hash_loop [] djb_hash js_hash = (djb_hash, js_hash)"
| "hash_loop (c # str) djb_hash js_hash =
     hash_loop str (djb_hash + (push_bit 5 djb_hash + ucast c))
       (js_hash XOR (push_bit 5 js_hash + ucast c + drop_bit 2 js_hash))"

definition le4 :: "u32 \<Rightarrow> byte list" where
  "le4 w = [ucast (w AND 0xff), ucast (drop_bit 8 w AND 0xff), ucast (drop_bit 16 w AND 0xff), ucast (drop_bit 24 w AND 0xff)]"

definition Hash :: "byte list \<Rightarrow> int \<Rightarrow> byte list" where
  "Hash str sz =
     (let (djb_hash, js_hash) = hash_loop (take (nat sz) str) 5381 1315423911 in le4 djb_hash @ le4 js_hash)"

definition lhashkey :: "byte list \<Rightarrow> byte list" where
  "lhashkey key = Hash key (int_of_size (length key))"

section \<open>Hexadecimal text\<close>

definition hex :: "byte list" where
  "hex = str_bytes ''0123456789abcdef''"

definition ltohex :: "byte list \<Rightarrow> byte list" where
  "ltohex text = concat (map (\<lambda>t. [hex ! unat (drop_bit 4 t), hex ! unat (t AND 0xf)]) text)"

text \<open>The macro \<open>HEX\<close>; its result is stored in a \<open>uint8_t\<close>.\<close>

definition HEX :: "byte \<Rightarrow> byte" where
  "HEX c = (if c \<ge> 48 \<and> c \<le> 57 then c - 48 else c - 97 + 10)"

fun fromhex_loop :: "byte list \<Rightarrow> byte list res" where
  "fromhex_loop (c1 # c2 # text) =
     (let hi = HEX c1; low = HEX c2 in
      if hi > 16 \<or> low > 16 then Err Lua_error
      else res_bind (fromhex_loop text) (\<lambda>rest. Ok ((push_bit 4 hi OR low) # rest)))"
| "fromhex_loop _ = Ok []"

definition lfromhex :: "byte list \<Rightarrow> byte list res" where
  "lfromhex text = (if odd (length text) then Err Lua_error else fromhex_loop text)"

section \<open>Message authentication\<close>

definition md5_k :: "u32 list" where
  "md5_k = [
     0xd76aa478, 0xe8c7b756, 0x242070db, 0xc1bdceee,
     0xf57c0faf, 0x4787c62a, 0xa8304613, 0xfd469501,
     0x698098d8, 0x8b44f7af, 0xffff5bb1, 0x895cd7be,
     0x6b901122, 0xfd987193, 0xa679438e, 0x49b40821,
     0xf61e2562, 0xc040b340, 0x265e5a51, 0xe9b6c7aa,
     0xd62f105d, 0x02441453, 0xd8a1e681, 0xe7d3fbc8,
     0x21e1cde6, 0xc33707d6, 0xf4d50d87, 0x455a14ed,
     0xa9e3e905, 0xfcefa3f8, 0x676f02d9, 0x8d2a4c8a,
     0xfffa3942, 0x8771f681, 0x6d9d6122, 0xfde5380c,
     0xa4beea44, 0x4bdecfa9, 0xf6bb4b60, 0xbebfbc70,
     0x289b7ec6, 0xeaa127fa, 0xd4ef3085, 0x04881d05,
     0xd9d4d039, 0xe6db99e5, 0x1fa27cf8, 0xc4ac5665,
     0xf4292244, 0x432aff97, 0xab9423a7, 0xfc93a039,
     0x655b59c3, 0x8f0ccc92, 0xffeff47d, 0x85845dd1,
     0x6fa87e4f, 0xfe2ce6e0, 0xa3014314, 0x4e0811a1,
     0xf7537e82, 0xbd3af235, 0x2ad7d2bb, 0xeb86d391]"

definition md5_r :: "nat list" where
  "md5_r = [
     7, 12, 17, 22, 7, 12, 17, 22, 7, 12, 17, 22, 7, 12, 17, 22,
     5, 9, 14, 20, 5, 9, 14, 20, 5, 9, 14, 20, 5, 9, 14, 20,
     4, 11, 16, 23, 4, 11, 16, 23, 4, 11, 16, 23, 4, 11, 16, 23,
     6, 10, 15, 21, 6, 10, 15, 21, 6, 10, 15, 21, 6, 10, 15, 21]"

definition LEFTROTATE :: "u32 \<Rightarrow> nat \<Rightarrow> u32" where
  "LEFTROTATE x c = push_bit c x OR drop_bit (32 - c) x"

definition md5_step :: "u32 list \<Rightarrow> nat \<Rightarrow> u32 \<times> u32 \<times> u32 \<times> u32 \<Rightarrow> u32 \<times> u32 \<times> u32 \<times> u32" where
  "md5_step w i = (\<lambda>(a, b, c, d).
     let (f, g) = (if i < 16 then ((b AND c) OR (NOT b AND d), i)
                   else if i < 32 then ((d AND b) OR (NOT d AND c), (5 * i + 1) mod 16)
                   else if i < 48 then (b XOR c XOR d, (3 * i + 5) mod 16)
                   else (c XOR (b OR NOT d), (7 * i) mod 16)) in
     (d, b + LEFTROTATE (a + f + md5_k ! i + w ! g) (md5_r ! i), b, c))"

definition digest_md5 :: "u32 list \<Rightarrow> u32 \<times> u32 \<times> u32 \<times> u32" where
  "digest_md5 w = fold (md5_step w) [0..<64] (0x67452301, 0xefcdab89, 0x98badcfe, 0x10325476)"

type_synonym qword = "u32 \<times> u32"

definition hmac :: "qword \<Rightarrow> qword \<Rightarrow> qword" where
  "hmac x y =
     (let w = concat (replicate 4 [snd x, fst x, snd y, fst y]);
          (r0, r1, r2, r3) = digest_md5 w in
      (r2 XOR r3, r0 XOR r1))"

definition hmac_md5 :: "qword \<Rightarrow> qword \<Rightarrow> qword" where
  "hmac_md5 x y =
     (let w = concat (replicate 3 [fst x, snd x, fst y, snd y]) @ [0x80, 0, 384, 0];
          (r0, r1, r2, r3) = digest_md5 w in
      ((r0 + 0x67452301) XOR (r2 + 0x98badcfe), (r1 + 0xefcdab89) XOR (r3 + 0x10325476)))"

definition get_le4 :: "byte list \<Rightarrow> nat \<Rightarrow> u32" where
  "get_le4 x i = ucast (x ! i) OR push_bit 8 (ucast (x ! (i + 1))) OR push_bit 16 (ucast (x ! (i + 2)))
     OR push_bit 24 (ucast (x ! (i + 3)))"

definition get_qword :: "byte list \<Rightarrow> qword" where
  "get_qword x = (get_le4 x 0, get_le4 x 4)"

definition read64 :: "byte list \<Rightarrow> byte list \<Rightarrow> (qword \<times> qword) res" where
  "read64 x y =
     (if length x \<noteq> 8 then Err Lua_error else if length y \<noteq> 8 then Err Lua_error
      else Ok (get_qword x, get_qword y))"

definition pushqword :: "qword \<Rightarrow> byte list" where
  "pushqword result = le4 (fst result) @ le4 (snd result)"

definition lhmac64 :: "byte list \<Rightarrow> byte list \<Rightarrow> byte list res" where
  "lhmac64 x y = res_bind (read64 x y) (\<lambda>(x, y). Ok (pushqword (hmac x y)))"

definition lhmac64_md5 :: "byte list \<Rightarrow> byte list \<Rightarrow> byte list res" where
  "lhmac64_md5 x y = res_bind (read64 x y) (\<lambda>(x, y). Ok (pushqword (hmac_md5 x y)))"

definition lhmac_hash :: "byte list \<Rightarrow> byte list \<Rightarrow> byte list res" where
  "lhmac_hash x text =
     (if length x \<noteq> 8 then Err Lua_error
      else
        let key = get_qword x;
            htext = get_qword (Hash text (int_of_size (length text))) in
        Ok (pushqword (hmac htext key)))"

section \<open>Diffie-Hellman exchange\<close>

definition P :: u64 where "P = 0xffffffffffffffc5"

function mul_loop :: "u64 \<Rightarrow> u64 \<Rightarrow> u64 \<Rightarrow> u64" where
  "mul_loop a b m =
     (if b = 0 then m
      else
        let m1 = (if b AND 1 \<noteq> 0 then (let t = P - a in if m \<ge> t then m - t else m + a) else m);
            a1 = (if a \<ge> P - a then a * 2 - P else a * 2) in
        mul_loop a1 (drop_bit 1 b) m1)"
  by pat_completeness auto

lemma half_less: "b \<noteq> 0 \<Longrightarrow> unat (drop_bit 1 (b :: u64)) < unat b"
  by (simp add: unsigned_drop_bit_eq drop_bit_eq_div unat_div_distrib unat_gt_0)

termination mul_loop
  by (relation "measure (\<lambda>(a, b, m). unat b)") (simp, simp only: in_measure prod.case, rule half_less)

declare mul_loop.simps [simp del]

definition mul_mod_p :: "u64 \<Rightarrow> u64 \<Rightarrow> u64" where
  "mul_mod_p a b = mul_loop a b 0"

text \<open>An exponent of 0 would recurse for ever; the callers refuse it.\<close>

function pow_mod_p :: "u64 \<Rightarrow> u64 \<Rightarrow> u64 res" where
  "pow_mod_p a b =
     (if b = 1 then Ok a
      else if b = 0 then Err Diverge
      else res_bind (pow_mod_p a (drop_bit 1 b)) (\<lambda>t0.
        let t = mul_mod_p t0 t0 in
        Ok (if b mod 2 \<noteq> 0 then mul_mod_p t a else t)))"
  by pat_completeness auto
termination
  by (relation "measure (\<lambda>(a, b). unat b)") (simp, simp only: in_measure prod.case, rule half_less)

declare pow_mod_p.simps [simp del]

definition powmodp :: "u64 \<Rightarrow> u64 \<Rightarrow> u64 res" where
  "powmodp a b = (let a1 = (if a > P then a mod P else a) in pow_mod_p a1 b)"

definition push64 :: "u64 \<Rightarrow> byte list" where
  "push64 r = map (\<lambda>i. ucast (drop_bit (8 * i) r AND 0xff)) [0..<8]"

definition qword64 :: "qword \<Rightarrow> u64" where
  "qword64 x = ucast (fst x) OR push_bit 32 (ucast (snd x))"

definition ldhsecret :: "byte list \<Rightarrow> byte list \<Rightarrow> byte list res" where
  "ldhsecret x y =
     res_bind (read64 x y) (\<lambda>(x, y).
     let xx = qword64 x; yy = qword64 y in
     if xx = 0 \<or> yy = 0 then Err Lua_error
     else res_bind (powmodp xx yy) (\<lambda>r. Ok (push64 r)))"

definition G :: u64 where "G = 5"

definition ldhexchange :: "byte list \<Rightarrow> byte list res" where
  "ldhexchange x =
     (if length x \<noteq> 8 then Err Lua_error
      else
        let x64 = qword64 (get_qword x) in
        if x64 = 0 then Err Lua_error else res_bind (powmodp G x64) (\<lambda>r. Ok (push64 r)))"

section \<open>Base64\<close>

definition encoding :: "byte list" where
  "encoding = str_bytes ''ABCDEFGHIJKLMNOPQRSTUVWXYZabcdefghijklmnopqrstuvwxyz0123456789+/''"

definition enc_char :: "u32 \<Rightarrow> byte" where
  "enc_char v = encoding ! unat v"

fun lb64encode :: "byte list \<Rightarrow> byte list" where
  "lb64encode (t0 # t1 # t2 # text) =
     (let v = push_bit 16 (ucast t0) OR push_bit 8 (ucast t1) OR ucast t2 in
      enc_char (drop_bit 18 v) # enc_char (drop_bit 12 v AND 0x3f) # enc_char (drop_bit 6 v AND 0x3f)
        # enc_char (v AND 0x3f) # lb64encode text)"
| "lb64encode [t0] =
     (let v = ucast t0 in
      [enc_char (drop_bit 2 v), enc_char (push_bit 4 (v AND 3)), 61, 61])"
| "lb64encode [t0, t1] =
     (let v = push_bit 8 (ucast t0) OR ucast t1 in
      [enc_char (drop_bit 10 v), enc_char (drop_bit 4 v AND 0x3f), enc_char (push_bit 2 (v AND 0xf)), 61])"
| "lb64encode [] = []"

definition decoding :: "int list" where
  "decoding = [
     62, -1, -1, -1, 63, 52, 53, 54, 55, 56, 57, 58, 59, 60, 61, -1,
     -1, -1, -2, -1, -1, -1, 0, 1, 2, 3, 4, 5, 6, 7, 8, 9,
     10, 11, 12, 13, 14, 15, 16, 17, 18, 19, 20, 21, 22, 23, 24, 25,
     -1, -1, -1, -1, -1, -1, 26, 27, 28, 29, 30, 31, 32, 33, 34, 35,
     36, 37, 38, 39, 40, 41, 42, 43, 44, 45, 46, 47, 48, 49, 50, 51]"

definition b64index :: "byte \<Rightarrow> int" where
  "b64index c =
     (if c < 43 then -1
      else let c = c - 43 in if unat c \<ge> length decoding then -1 else decoding ! unat c)"

text \<open>The inner loop of \<open>lb64decode\<close>: the next four characters that are not skipped; \<open>None\<close> at the end of the text.\<close>

fun b64_quad :: "nat \<Rightarrow> byte list \<Rightarrow> (int list \<times> byte list) option" where
  "b64_quad 0 text = Some ([], text)"
| "b64_quad (Suc n) [] = None"
| "b64_quad (Suc n) (t # text) =
     (if b64index t = -1 then b64_quad (Suc n) text
      else map_option (\<lambda>(cs, rest). (b64index t # cs, rest)) (b64_quad n text))"

definition b64_bytes :: "int list \<Rightarrow> byte list option" where
  "b64_bytes c =
     (let padding = length (filter (\<lambda>x. x = -2) c);
          w = (\<lambda>j. word_of_int (c ! j) :: u32) in
      if padding = 0 then
        (let v = push_bit 18 (w 0) OR push_bit 12 (w 1) OR push_bit 6 (w 2) OR w 3 in
         Some [ucast (drop_bit 16 v), ucast (drop_bit 8 v AND 0xff), ucast (v AND 0xff)])
      else if padding = 1 then
        (if c ! 3 \<noteq> -2 \<or> c ! 2 AND 3 \<noteq> 0 then None
         else
           let v = push_bit 10 (w 0) OR push_bit 4 (w 1) OR drop_bit 2 (w 2) in
           Some [ucast (drop_bit 8 v), ucast (v AND 0xff)])
      else if padding = 2 then
        (if c ! 3 \<noteq> -2 \<or> c ! 2 \<noteq> -2 \<or> c ! 1 AND 0xf \<noteq> 0 then None
         else
           let v = push_bit 2 (w 0) OR drop_bit 4 (w 1) in
           Some [ucast v])
      else None)"

lemma b64_quad_shorter: "b64_quad n text = Some (cs, rest) \<Longrightarrow> length rest + n \<le> length text"
  by (induction n "text" arbitrary: cs rest rule: b64_quad.induct) (fastforce split: if_splits)+

function lb64decode :: "byte list \<Rightarrow> byte list res" where
  "lb64decode text =
     (if text = [] then Ok []
      else case b64_quad 4 text of
        None \<Rightarrow> Err Lua_error
      | Some (c, rest) \<Rightarrow>
          (case b64_bytes c of
             None \<Rightarrow> Err Lua_error
           | Some out \<Rightarrow> res_bind (lb64decode rest) (\<lambda>more. Ok (out @ more))))"
  by pat_completeness auto
termination
  by (relation "measure length") (auto dest: b64_quad_shorter)

declare lb64decode.simps [simp del]

section \<open>Exclusive or\<close>

definition lxor_str :: "byte list \<Rightarrow> byte list \<Rightarrow> byte list res" where
  "lxor_str s1 s2 =
     (if length s2 = 0 then Err Lua_error
      else Ok (map (\<lambda>i. s1 ! i XOR s2 ! (i mod length s2)) [0..<length s1]))"

section \<open>Text\<close>

lemma byte_cases:
  assumes "\<And>n. n < 256 \<Longrightarrow> Q (of_nat n :: byte)"
  shows "Q b"
  using assms [of "unat b"] unsigned_less [where 'a = nat and 'b = 8, of b] by simp

lemma hex_digit: "n < 16 \<Longrightarrow> HEX (hex ! n) = of_nat n"
proof -
  assume "n < 16"
  then have "n \<in> set [0..<16]" by simp
  moreover have "\<forall>n\<in>set [0..<16]. HEX (hex ! n) = of_nat n" by code_simp
  ultimately show ?thesis by blast
qed

lemma nibbles: "unat (drop_bit 4 (t :: byte)) < 16" "unat (t AND 0xf) < 16"
  "push_bit 4 (drop_bit 4 t) OR (t AND 0xf) = (t :: byte)"
proof -
  show "unat (drop_bit 4 t) < 16" using unsigned_less [where 'a = nat and 'b = 8, of t]
    by (simp add: unsigned_drop_bit_eq drop_bit_eq_div unat_div_distrib)
  have a: "(0xf :: byte) = mask 4" by (simp add: mask_eq_exp_minus_1)
  show "unat (t AND 0xf) < 16" unfolding a take_bit_eq_mask [symmetric]
    using take_bit_nat_less_exp [of 4 "unat t"] by (simp add: unsigned_take_bit_eq)
  show "push_bit 4 (drop_bit 4 t) OR (t AND 0xf) = t"
    unfolding a by (rule bit_word_eqI) (auto simp: bit_simps)
qed

lemma small_byte: "n < 16 \<Longrightarrow> \<not> (of_nat n :: byte) > 16"
  by (simp add: word_less_nat_alt unat_of_nat)

lemma fromhex_tohex: "fromhex_loop (ltohex text) = Ok text"
proof (induction "text")
  case (Cons t ts)
  then show ?case
    using hex_digit [OF nibbles(1)] hex_digit [OF nibbles(2)] small_byte [OF nibbles(1)] small_byte [OF nibbles(2)]
    by (simp add: ltohex_def Let_def nibbles(3))
qed (simp add: ltohex_def)

lemma length_tohex: "length (ltohex text) = 2 * length text"
  by (induction "text") (simp_all add: ltohex_def)

section \<open>Base64\<close>

lemma index_char: "n < 64 \<Longrightarrow> b64index (encoding ! n) = int n"
proof -
  assume "n < 64"
  then have "n \<in> set [0..<64]" by simp
  moreover have "\<forall>n\<in>set [0..<64]. b64index (encoding ! n) = int n" by code_simp
  ultimately show ?thesis by blast
qed

lemma enc_char_index: "unat v < 64 \<Longrightarrow> b64index (enc_char v) = int (unat v)"
  by (simp add: enc_char_def index_char)

lemma pad_index: "b64index 61 = -2"
  by code_simp

lemma quad_step: "b64index t = i \<Longrightarrow> i \<noteq> -1 \<Longrightarrow> b64_quad (Suc n) (t # ts) = map_option (\<lambda>(cs, rest). (i # cs, rest)) (b64_quad n ts)"
  by simp

lemma quad_4:
  assumes "b64index a = i" "b64index b = j" "b64index c = k" "b64index d = l" "-1 \<notin> {i, j, k, l}"
  shows "b64_quad 4 (a # b # c # d # rest) = Some ([i, j, k, l], rest)"
  using assms by (simp add: numeral_eq_Suc)

lemma quad_nat:
  "b64index a = int i \<Longrightarrow> b64index b = int j \<Longrightarrow> b64index c = int k \<Longrightarrow> b64index d = int l \<Longrightarrow>
     b64_quad 4 (a # b # c # d # rest) = Some ([int i, int j, int k, int l], rest)"
  "b64index a = int i \<Longrightarrow> b64index b = int j \<Longrightarrow> b64index c = int k \<Longrightarrow>
     b64_quad 4 (a # b # c # 61 # rest) = Some ([int i, int j, int k, -2], rest)"
  "b64index a = int i \<Longrightarrow> b64index b = int j \<Longrightarrow>
     b64_quad 4 (a # b # 61 # 61 # rest) = Some ([int i, int j, -2, -2], rest)"
  by (rule quad_4; simp add: pad_index)+

lemma decode_quad:
  assumes "b64_quad 4 (a # b # c # d # rest) = Some (cs, rest)" "b64_bytes cs = Some out" "lb64decode rest = Ok more"
  shows "lb64decode (a # b # c # d # rest) = Ok (out @ more)"
  using assms by (subst lb64decode.simps) simp

lemma six_bits: "unat (w AND 0x3f :: u32) < 64"
proof -
  have a: "(0x3f :: u32) = mask 6" by (simp add: mask_eq_exp_minus_1)
  show ?thesis unfolding a take_bit_eq_mask [symmetric]
    using take_bit_nat_less_exp [of 6 "unat w"] by (simp add: unsigned_take_bit_eq)
qed

lemma word_back: "(word_of_int (int (unat w)) :: u32) = w"
  by simp

lemma six_split:
  fixes v :: u32
  assumes "\<And>n. bit v n \<Longrightarrow> n < 24"
  shows "push_bit 18 (drop_bit 18 v) OR push_bit 12 (drop_bit 12 v AND 0x3f) OR push_bit 6 (drop_bit 6 v AND 0x3f) OR (v AND 0x3f) = v"
proof -
  have a: "(0x3f :: u32) = mask 6" by (simp add: mask_eq_exp_minus_1)
  show ?thesis unfolding a
  proof (rule bit_word_eqI)
    fix n assume n: "n < LENGTH(32)"
    consider "n < 6" | "6 \<le> n" "n < 12" | "12 \<le> n" "n < 18" | "18 \<le> n" by linarith
    then show "bit (push_bit 18 (drop_bit 18 v) OR push_bit 12 (drop_bit 12 v AND mask 6)
        OR push_bit 6 (drop_bit 6 v AND mask 6) OR (v AND mask 6)) n = bit v n"
      using n by cases (auto simp: bit_simps)
  qed
qed

lemma and_zero: "w AND m = (0 :: u32) \<Longrightarrow> int (unat w) AND int (unat m) = 0"
proof -
  assume w: "w AND m = 0"
  have "int (unat w) AND int (unat m) = int (unat (w AND m))" by (simp add: unsigned_and_eq of_nat_and_eq)
  then show ?thesis by (simp add: w)
qed

lemma small_word: "(\<And>n. bit (v :: u32) n \<Longrightarrow> n < k) \<Longrightarrow> unat v < 2 ^ k"
proof -
  assume "\<And>n. bit v n \<Longrightarrow> n < k"
  then have "take_bit k v = v" by (intro bit_word_eqI) (auto simp: bit_simps)
  then have "take_bit k (unat v) = unat v" by (metis unsigned_take_bit_eq)
  then show ?thesis by (metis take_bit_nat_less_exp)
qed

lemma masks: "(0xff :: u32) = mask 8" "(0xf :: u32) = mask 4" "(3 :: u32) = mask 2" "(0x3f :: u32) = mask 6"
  by (simp_all add: mask_eq_exp_minus_1)

lemma group_3:
  fixes t0 t1 t2 :: byte
  defines "v \<equiv> push_bit 16 (ucast t0) OR push_bit 8 (ucast t1) OR ucast t2 :: u32"
  shows "unat (drop_bit 18 v) < 64"
    "push_bit 18 (drop_bit 18 v) OR push_bit 12 (drop_bit 12 v AND 0x3f) OR push_bit 6 (drop_bit 6 v AND 0x3f) OR (v AND 0x3f) = v"
    "ucast (drop_bit 16 v) = t0" "ucast (drop_bit 8 v AND 0xff) = t1" "ucast (v AND 0xff) = t2"
proof -
  have v: "bit v n \<Longrightarrow> n < 24" for n by (auto simp: v_def bit_simps dest: byte_bit)
  have "bit (drop_bit 18 v) n \<Longrightarrow> n < 6" for n using v [of "18 + n"] by (simp add: bit_simps)
  from small_word [OF this] show "unat (drop_bit 18 v) < 64" by simp
  show "push_bit 18 (drop_bit 18 v) OR push_bit 12 (drop_bit 12 v AND 0x3f) OR push_bit 6 (drop_bit 6 v AND 0x3f) OR (v AND 0x3f) = v"
    by (rule six_split) (rule v)
  show "ucast (drop_bit 16 v) = t0" "ucast (drop_bit 8 v AND 0xff) = t1" "ucast (v AND 0xff) = t2"
    unfolding v_def masks by (rule bit_word_eqI; auto simp: bit_simps dest: byte_bit)+
qed

lemma group_2:
  fixes t0 t1 :: byte
  defines "v \<equiv> push_bit 8 (ucast t0) OR ucast t1 :: u32"
  shows "unat (drop_bit 10 v) < 64" "unat (push_bit 2 (v AND 0xf)) < 64" "int (unat (push_bit 2 (v AND 0xf))) AND 3 = 0"
    "push_bit 10 (drop_bit 10 v) OR push_bit 4 (drop_bit 4 v AND 0x3f) OR drop_bit 2 (push_bit 2 (v AND 0xf)) = v"
    "ucast (drop_bit 8 v) = t0" "ucast (v AND 0xff) = t1"
proof -
  have v: "bit v n \<Longrightarrow> n < 16" for n by (auto simp: v_def bit_simps dest: byte_bit)
  have "bit (drop_bit 10 v) n \<Longrightarrow> n < 6" for n using v [of "10 + n"] by (simp add: bit_simps)
  from small_word [OF this] show "unat (drop_bit 10 v) < 64" by simp
  have "bit (push_bit 2 (v AND 0xf)) n \<Longrightarrow> n < 6" for n unfolding masks by (auto simp: bit_simps)
  from small_word [OF this] show "unat (push_bit 2 (v AND 0xf)) < 64" by simp
  have "(push_bit 2 (v AND 0xf)) AND 3 = 0" unfolding masks by (rule bit_word_eqI) (auto simp: bit_simps)
  from and_zero [OF this] show "int (unat (push_bit 2 (v AND 0xf))) AND 3 = 0" by (simp only: unsigned_numeral) simp
  show "push_bit 10 (drop_bit 10 v) OR push_bit 4 (drop_bit 4 v AND 0x3f) OR drop_bit 2 (push_bit 2 (v AND 0xf)) = v"
    unfolding masks
  proof (rule bit_word_eqI)
    fix n assume n: "n < LENGTH(32)"
    consider "n < 4" | "4 \<le> n" "n < 10" | "10 \<le> n" by linarith
    then show "bit (push_bit 10 (drop_bit 10 v) OR push_bit 4 (drop_bit 4 v AND mask 6)
        OR drop_bit 2 (push_bit 2 (v AND mask 4))) n = bit v n"
      using n by cases (auto simp: bit_simps)
  qed
  show "ucast (drop_bit 8 v) = t0" "ucast (v AND 0xff) = t1"
    unfolding v_def masks by (rule bit_word_eqI; auto simp: bit_simps dest: byte_bit)+
qed

lemma group_1:
  fixes t0 :: byte
  defines "v \<equiv> ucast t0 :: u32"
  shows "unat (drop_bit 2 v) < 64" "unat (push_bit 4 (v AND 3)) < 64" "int (unat (push_bit 4 (v AND 3))) AND 0xf = 0"
    "push_bit 2 (drop_bit 2 v) OR drop_bit 4 (push_bit 4 (v AND 3)) = v" "ucast v = t0"
proof -
  have v: "bit v n \<Longrightarrow> n < 8" for n by (auto simp: v_def bit_simps dest: byte_bit)
  have "bit (drop_bit 2 v) n \<Longrightarrow> n < 6" for n using v [of "2 + n"] by (simp add: bit_simps)
  from small_word [OF this] show "unat (drop_bit 2 v) < 64" by simp
  have "bit (push_bit 4 (v AND 3)) n \<Longrightarrow> n < 6" for n unfolding masks by (auto simp: bit_simps)
  from small_word [OF this] show "unat (push_bit 4 (v AND 3)) < 64" by simp
  have "(push_bit 4 (v AND 3)) AND 0xf = 0" unfolding masks by (rule bit_word_eqI) (auto simp: bit_simps)
  from and_zero [OF this] show "int (unat (push_bit 4 (v AND 3))) AND 0xf = 0" by (simp only: unsigned_numeral) simp
  show "push_bit 2 (drop_bit 2 v) OR drop_bit 4 (push_bit 4 (v AND 3)) = v"
    unfolding masks
  proof (rule bit_word_eqI)
    fix n assume n: "n < LENGTH(32)"
    have s: "2 \<le> n \<Longrightarrow> Suc (Suc (n - 2)) = n" by simp
    consider "n < 2" | "2 \<le> n" by linarith
    then show "bit (push_bit 2 (drop_bit 2 v) OR drop_bit 4 (push_bit 4 (v AND mask 2))) n = bit v n"
      using n by cases (auto simp: bit_simps s)
  qed
  show "ucast v = t0" unfolding v_def by (rule bit_word_eqI) (auto simp: bit_simps)
qed

lemma uint_not_pad: "uint (w :: u32) \<noteq> -2"
  using unsigned_greater_eq [of w] by (metis neg_0_le_iff_le not_numeral_le_zero)

lemma decode_3:
  assumes "lb64decode rest = Ok more"
  shows "lb64decode (lb64encode [t0, t1, t2] @ rest) = Ok (t0 # t1 # t2 # more)"
proof -
  define v :: u32 where "v = push_bit 16 (ucast t0) OR push_bit 8 (ucast t1) OR ucast t2"
  note g = group_3 [of t0 t1 t2, folded v_def]
  let ?c = "map (\<lambda>w. int (unat w)) [drop_bit 18 v, drop_bit 12 v AND 0x3f, drop_bit 6 v AND 0x3f, v AND 0x3f]"
  have "b64_quad 4 (lb64encode [t0, t1, t2] @ rest) = Some (?c, rest)"
    using quad_nat(1) [OF enc_char_index [OF g(1)] enc_char_index [OF six_bits] enc_char_index [OF six_bits] enc_char_index [OF six_bits]]
    by (simp only: lb64encode.simps Let_def v_def [symmetric] append.simps list.map)
  moreover have "b64_bytes ?c = Some [t0, t1, t2]"
    using g(2-5) by (simp add: b64_bytes_def uint_not_pad)
  ultimately show ?thesis using decode_quad [OF _ _ assms] by (simp add: Let_def)
qed

lemma decode_2: "lb64decode (lb64encode [t0, t1]) = Ok [t0, t1]"
proof -
  define v :: u32 where "v = push_bit 8 (ucast t0) OR ucast t1"
  note g = group_2 [of t0 t1, folded v_def]
  let ?c = "map (\<lambda>w. int (unat w)) [drop_bit 10 v, drop_bit 4 v AND 0x3f, push_bit 2 (v AND 0xf)] @ [-2]"
  have "b64_quad 4 (lb64encode [t0, t1]) = Some (?c, [])"
    using quad_nat(2) [OF enc_char_index [OF g(1)] enc_char_index [OF six_bits] enc_char_index [OF g(2)]]
    by (simp only: lb64encode.simps Let_def v_def [symmetric] append.simps list.map)
  moreover have "b64_bytes ?c = Some [t0, t1]"
    using g(3-6) by (simp add: b64_bytes_def uint_not_pad)
  ultimately show ?thesis using decode_quad [of _ _ _ _ "[]" ?c "[t0, t1]" "[]"] by (simp add: Let_def lb64decode.simps)
qed

lemma decode_1: "lb64decode (lb64encode [t0]) = Ok [t0]"
proof -
  define v :: u32 where "v = ucast t0"
  note g = group_1 [of t0, folded v_def]
  let ?c = "map (\<lambda>w. int (unat w)) [drop_bit 2 v, push_bit 4 (v AND 3)] @ [-2, -2]"
  have "b64_quad 4 (lb64encode [t0]) = Some (?c, [])"
    using quad_nat(3) [OF enc_char_index [OF g(1)] enc_char_index [OF g(2)]]
    by (simp only: lb64encode.simps Let_def v_def [symmetric] append.simps list.map)
  moreover have "b64_bytes ?c = Some [t0]"
    using g(3-5) by (simp add: b64_bytes_def uint_not_pad)
  ultimately show ?thesis using decode_quad [of _ _ _ _ "[]" ?c "[t0]" "[]"] by (simp add: Let_def lb64decode.simps)
qed

lemma b64_back: "lb64decode (lb64encode text) = Ok text"
proof (induction "text" rule: lb64encode.induct)
  case (1 t0 t1 t2 ts)
  have "lb64encode (t0 # t1 # t2 # ts) = lb64encode [t0, t1, t2] @ lb64encode ts" by (simp add: Let_def)
  with decode_3 [OF 1] show ?case by simp
next
  case (2 t0)
  then show ?case by (rule decode_1)
next
  case (3 t0 t1)
  then show ?case by (rule decode_2)
next
  case 4
  then show ?case by (simp add: lb64decode.simps)
qed

section \<open>Arithmetic modulo P\<close>

definition p_nat :: nat where "p_nat = 18446744073709551557"

lemma P_of_nat: "P = of_nat p_nat"
  by (simp add: P_def p_nat_def)

lemma p_less: "p_nat < 2 ^ 64"
  by (simp add: p_nat_def)

lemma unat_small: "x < 2 ^ 64 \<Longrightarrow> unat (of_nat x :: u64) = x"
  by (simp add: unat_of_nat)

lemma P_minus: "x \<le> p_nat \<Longrightarrow> P - of_nat x = (of_nat (p_nat - x) :: u64)"
  by (simp add: P_of_nat of_nat_diff)

lemma le_of_nat: "x < 2 ^ 64 \<Longrightarrow> y < 2 ^ 64 \<Longrightarrow> (of_nat x :: u64) \<le> of_nat y \<longleftrightarrow> x \<le> y"
  by (simp add: word_le_nat_alt unat_small)

lemma add_mod_p:
  assumes "x < p_nat" "y < p_nat"
  shows "(let t = P - of_nat x in if of_nat y \<ge> t then of_nat y - t else of_nat y + of_nat x) = (of_nat ((y + x) mod p_nat) :: u64)"
proof (cases "p_nat - x \<le> y")
  case True
  then have "p_nat \<le> y + x" by simp
  then have "(y + x) mod p_nat = y - (p_nat - x)" using assms by (simp add: le_mod_geq)
  moreover have "P - of_nat x \<le> (of_nat y :: u64)" using True assms p_less by (simp add: P_minus le_of_nat del: of_nat_diff)
  ultimately show ?thesis using True assms by (simp add: of_nat_diff P_of_nat Let_def)
next
  case False
  then have "(y + x) mod p_nat = y + x" using assms by (simp add: mod_if)
  with False assms p_less show ?thesis by (simp add: P_minus le_of_nat Let_def del: of_nat_diff)
qed

lemma double_mod_p:
  assumes "x < p_nat"
  shows "(if of_nat x \<ge> P - of_nat x then of_nat x * 2 - P else of_nat x * 2) = (of_nat (2 * x mod p_nat) :: u64)"
proof (cases "p_nat - x \<le> x")
  case True
  then have le: "p_nat \<le> 2 * x" by simp
  then have "2 * x mod p_nat = 2 * x - p_nat" using assms by (simp add: le_mod_geq)
  moreover have "P - of_nat x \<le> (of_nat x :: u64)" using True assms p_less by (simp add: P_minus le_of_nat del: of_nat_diff)
  ultimately show ?thesis using le assms by (simp add: of_nat_diff P_of_nat)
next
  case False
  then have "2 * x mod p_nat = 2 * x" using assms by (simp add: mod_if)
  with False assms p_less show ?thesis by (simp add: P_minus le_of_nat del: of_nat_diff)
qed

lemma mod_add_mult: "(y + a mod c * b) mod c = (y + a * b) mod (c :: nat)"
  by (metis mod_add_right_eq mod_mult_left_eq)

lemma unat_half: "unat (drop_bit 1 (b :: u64)) = unat b div 2"
  by (simp add: unsigned_drop_bit_eq drop_bit_eq_div unat_div_distrib)

lemma low_bit: "b AND 1 \<noteq> 0 \<longleftrightarrow> odd (unat (b :: u64))"
  by (simp add: and_one_eq word_unat_eq_iff unat_mod_distrib) presburger

lemma mul_loop_eq: "x < p_nat \<Longrightarrow> y < p_nat \<Longrightarrow> mul_loop (of_nat x) b (of_nat y) = of_nat ((y + x * unat b) mod p_nat)"
proof (induction "unat b" arbitrary: b x y rule: less_induct)
  case less
  show ?case
  proof (cases "b = 0")
    case True
    then show ?thesis using less.prems by (subst mul_loop.simps) simp
  next
    case False
    let ?y = "if odd (unat b) then (y + x) mod p_nat else y"
    have "mul_loop (of_nat x) b (of_nat y) = mul_loop (of_nat (2 * x mod p_nat)) (drop_bit 1 b) (of_nat ?y)"
      using less.prems False unfolding mul_loop.simps [of _ b]
      by (simp only: low_bit add_mod_p double_mod_p if_False) (simp add: Let_def)
    also have "\<dots> = of_nat ((?y + 2 * x mod p_nat * (unat b div 2)) mod p_nat)"
      using less.hyps [OF half_less [OF False], of "2 * x mod p_nat" ?y] less.prems by (simp only: unat_half mod_less_divisor) (auto simp: p_nat_def)
    also have "(?y + 2 * x mod p_nat * (unat b div 2)) mod p_nat = (?y + 2 * x * (unat b div 2)) mod p_nat"
      by (rule mod_add_mult)
    also have "\<dots> = (y + x * unat b) mod p_nat"
    proof (cases "odd (unat b)")
      case True
      then obtain k where "unat b = 2 * k + 1" by (rule oddE)
      then show ?thesis by (simp add: mod_simps algebra_simps)
    next
      case False
      then obtain k where "unat b = 2 * k" by (auto elim: evenE)
      then show ?thesis by (simp add: algebra_simps)
    qed
    finally show ?thesis .
  qed
qed

lemma coprime_5_p: "coprime 5 p_nat"
proof (rule coprimeI)
  fix d assume "d dvd 5" "d dvd p_nat"
  then have "d dvd 3 * p_nat - 5 * 11068046444225730934" by (intro dvd_diff_nat dvd_mult dvd_mult2) auto
  then show "is_unit d" by (simp add: p_nat_def)
qed


lemma mul_mod_p_eq: "x < p_nat \<Longrightarrow> y < p_nat \<Longrightarrow> mul_mod_p (of_nat x) (of_nat y) = of_nat (x * y mod p_nat)"
  using mul_loop_eq [of x 0 "of_nat y"] unat_small [of y] p_less by (simp add: mul_mod_p_def p_nat_def)

lemma pow_mod_p_eq: "x < p_nat \<Longrightarrow> b \<noteq> 0 \<Longrightarrow> pow_mod_p (of_nat x) b = Ok (of_nat (x ^ unat b mod p_nat))"
proof (induction "unat b" arbitrary: b rule: less_induct)
  case less
  show ?case
  proof (cases "b = 1")
    case True
    then show ?thesis using less.prems by (subst pow_mod_p.simps) simp
  next
    case False
    define k where "k = unat b div 2"
    have "unat b \<noteq> 0" "unat b \<noteq> 1" using less.prems False by (auto simp: word_unat_eq_iff)
    then have "unat (drop_bit 1 b) \<noteq> 0" unfolding unat_half by arith
    then have "drop_bit 1 b \<noteq> 0" by (metis unsigned_0)
    then have IH: "pow_mod_p (of_nat x) (drop_bit 1 b) = Ok (of_nat (x ^ k mod p_nat))"
      using less.hyps [OF half_less [OF less.prems(2)] less.prems(1)] by (simp only: unat_half k_def not_False_eq_True simp_thms)
    have p: "x ^ k mod p_nat < p_nat" by (simp add: p_nat_def)
    have sq: "mul_mod_p (of_nat (x ^ k mod p_nat)) (of_nat (x ^ k mod p_nat)) = of_nat (x ^ (2 * k) mod p_nat)"
      using mul_mod_p_eq [OF p p] by (simp add: mod_simps mult_2 power_add)
    have p2: "x ^ (2 * k) mod p_nat < p_nat" by (simp add: p_nat_def)
    have odd: "b mod 2 \<noteq> 0 \<longleftrightarrow> odd (unat b)" by (simp add: word_unat_eq_iff unat_mod_distrib) presburger
    have "pow_mod_p (of_nat x) b = Ok (if odd (unat b) then mul_mod_p (of_nat (x ^ (2 * k) mod p_nat)) (of_nat x) else of_nat (x ^ (2 * k) mod p_nat))"
      using False less.prems by (subst pow_mod_p.simps) (simp only: IH sq odd res_bind.simps Let_def if_False)
    also have "\<dots> = Ok (of_nat (x ^ unat b mod p_nat))"
    proof (cases "odd (unat b)")
      case True
      then have "unat b = Suc (2 * k)" by (simp add: k_def)
      with True mul_mod_p_eq [OF p2 less.prems(1)] show ?thesis by (simp add: mod_simps mult.commute)
    next
      case False
      then have "unat b = 2 * k" by (simp add: k_def)
      with False show ?thesis by simp
    qed
    finally show ?thesis .
  qed
qed

lemma powmodp_eq:
  assumes "a \<noteq> P" "b \<noteq> 0"
  shows "powmodp a b = Ok (of_nat (unat a ^ unat b mod p_nat))"
proof (cases "a > P")
  case True
  have u: "unat P = p_nat" using unat_small [OF p_less] by (simp add: P_of_nat)
  have "a mod P = of_nat (unat a mod p_nat)" by (metis u of_nat_unat ucast_id unat_mod_distrib)
  then show ?thesis
    using pow_mod_p_eq [of "unat a mod p_nat" b] assms(2) True by (simp add: powmodp_def power_mod p_nat_def)
next
  case False
  then have "a < P" using assms(1) by simp
  then have "unat a < p_nat" using unat_small [OF p_less] by (simp add: word_less_nat_alt P_of_nat)
  then show ?thesis using pow_mod_p_eq [of "unat a" b] assms(2) False by (simp add: powmodp_def)
qed


section \<open>Bytes of a word\<close>

lemma length_le4 [simp]: "length (le4 w) = 4"
  by (simp add: le4_def)

lemma length_push64 [simp]: "length (push64 r) = 8"
  by (simp add: push64_def)

lemma bit_ff: "bit (0xff :: u64) n \<longleftrightarrow> n < 8" "bit (0xff :: u32) n \<longleftrightarrow> n < 8"
proof -
  have "(0xff :: u64) = mask 8" "(0xff :: u32) = mask 8" by (simp_all add: mask_eq_exp_minus_1)
  then show "bit (0xff :: u64) n \<longleftrightarrow> n < 8" "bit (0xff :: u32) n \<longleftrightarrow> n < 8" by (simp_all only: bit_mask_iff) auto
qed

lemma bit_get_le4:
  "bit (get_le4 b i) n \<longleftrightarrow> (if n < 8 then bit (b ! i) n else if n < 16 then bit (b ! (i + 1)) (n - 8)
     else if n < 24 then bit (b ! (i + 2)) (n - 16) else n < 32 \<and> bit (b ! (i + 3)) (n - 24))"
  unfolding get_le4_def by (auto simp: bit_simps dest: byte_bit)

lemma push64_nth: "i < 8 \<Longrightarrow> bit (push64 r ! i) n \<longleftrightarrow> n < 8 \<and> bit r (8 * i + n)"
  by (auto simp: push64_def bit_simps bit_ff simp del: bit_numeral_word_iff)

lemma qword64_push64: "qword64 (get_qword (push64 r)) = r"
proof (rule bit_word_eqI)
  fix n assume "n < LENGTH(64)"
  then consider "n < 8" | "8 \<le> n" "n < 16" | "16 \<le> n" "n < 24" | "24 \<le> n" "n < 32"
    | "32 \<le> n" "n < 40" | "40 \<le> n" "n < 48" | "48 \<le> n" "n < 56" | "56 \<le> n" "n < 64" by fastforce
  then show "bit (qword64 (get_qword (push64 r))) n = bit r n"
    by cases (auto simp: qword64_def get_qword_def bit_or_iff bit_push_bit_iff bit_ucast_iff bit_get_le4 push64_nth)
qed

lemma exchange_eq:
  assumes "length x = 8" "qword64 (get_qword x) \<noteq> 0"
  shows "ldhexchange x = Ok (push64 (of_nat (5 ^ unat (qword64 (get_qword x)) mod p_nat)))"
proof -
  have "G \<noteq> P" "unat G = 5" by (simp_all add: G_def P_def)
  with powmodp_eq [of G, OF _ assms(2)] assms show ?thesis by (simp add: ldhexchange_def)
qed

lemma power_5_pos: "5 ^ n mod p_nat \<noteq> 0"
proof
  assume "5 ^ n mod p_nat = 0"
  then have "p_nat dvd 5 ^ n" by (simp add: mod_eq_0_iff_dvd)
  moreover have "coprime (5 ^ n) p_nat" using coprime_5_p by simp
  ultimately have "p_nat dvd 1" by (meson coprime_common_divisor dvd_refl)
  then show False by (simp add: p_nat_def)
qed


lemma secret_eq:
  assumes x: "length x = 8" "qword64 (get_qword x) \<noteq> 0" and k: "e < p_nat" "e \<noteq> 0"
  shows "ldhsecret (push64 (of_nat e)) x = Ok (push64 (of_nat (e ^ unat (qword64 (get_qword x)) mod p_nat)))"
proof -
  have u: "unat (of_nat e :: u64) = e" using k p_less by (intro unat_small) linarith
  have "(of_nat e :: u64) \<noteq> 0" "(of_nat e :: u64) \<noteq> P"
    using u k unat_small [OF p_less] by (auto simp: P_of_nat word_unat_eq_iff)
  with powmodp_eq [of "of_nat e", OF _ x(2)] x show ?thesis
    by (simp add: ldhsecret_def read64_def qword64_push64 u)
qed

section \<open>MD5\<close>

text \<open>
  RFC 1321: the padded message is read as little-endian words in blocks of sixteen; the four auxiliary
  functions of the RFC; the digest is the sum with the chaining value. The table of sines and the shift
  amounts are those of the code.
\<close>

definition rfc_F :: "nat \<Rightarrow> u32 \<Rightarrow> u32 \<Rightarrow> u32 \<Rightarrow> u32" where
  "rfc_F i x y z =
     (if i < 16 then (x AND y) OR (NOT x AND z)
      else if i < 32 then (x AND z) OR (y AND NOT z)
      else if i < 48 then x XOR y XOR z
      else y XOR (x OR NOT z))"

text \<open>The word that step \<open>i\<close> uses: in order, then in strides of 5, 3 and 7.\<close>

definition rfc_index :: "nat \<Rightarrow> nat" where
  "rfc_index i =
     [0, 1, 2, 3, 4, 5, 6, 7, 8, 9, 10, 11, 12, 13, 14, 15,
      1, 6, 11, 0, 5, 10, 15, 4, 9, 14, 3, 8, 13, 2, 7, 12,
      5, 8, 11, 14, 1, 4, 7, 10, 13, 0, 3, 6, 9, 12, 15, 2,
      0, 7, 14, 5, 12, 3, 10, 1, 8, 15, 6, 13, 4, 11, 2, 9] ! i"

definition rfc_step :: "u32 list \<Rightarrow> nat \<Rightarrow> u32 \<times> u32 \<times> u32 \<times> u32 \<Rightarrow> u32 \<times> u32 \<times> u32 \<times> u32" where
  "rfc_step X i = (\<lambda>(a, b, c, d).
     (d, b + LEFTROTATE (a + rfc_F i b c d + X ! rfc_index i + md5_k ! i) (md5_r ! i), b, c))"

definition rfc_block :: "u32 \<times> u32 \<times> u32 \<times> u32 \<Rightarrow> u32 list \<Rightarrow> u32 \<times> u32 \<times> u32 \<times> u32" where
  "rfc_block s X =
     (let (a, b, c, d) = s; (a', b', c', d') = fold (rfc_step X) [0..<64] s in (a + a', b + b', c + c', d + d'))"

definition le_words :: "byte list \<Rightarrow> u32 list" where
  "le_words m = map (\<lambda>i. get_le4 m (4 * i)) [0..<length m div 4]"

definition md5_pad :: "byte list \<Rightarrow> byte list" where
  "md5_pad m = m @ 0x80 # replicate ((119 - length m mod 64) mod 64) 0
     @ map (\<lambda>i. of_nat (8 * length m div 256 ^ i)) [0..<8]"

fun md5_blocks :: "nat \<Rightarrow> u32 list \<Rightarrow> u32 \<times> u32 \<times> u32 \<times> u32 \<Rightarrow> u32 \<times> u32 \<times> u32 \<times> u32" where
  "md5_blocks 0 ws s = s"
| "md5_blocks (Suc n) ws s = md5_blocks n (drop 16 ws) (rfc_block s (take 16 ws))"

definition md5_spec :: "byte list \<Rightarrow> byte list" where
  "md5_spec m =
     (let ws = le_words (md5_pad m);
          (a, b, c, d) = md5_blocks (length ws div 16) ws (0x67452301, 0xefcdab89, 0x98badcfe, 0x10325476) in
      le4 a @ le4 b @ le4 c @ le4 d)"

lemma md5_index:
  "i < 64 \<Longrightarrow> rfc_index i = (if i < 16 then i else if i < 32 then (5 * i + 1) mod 16 else if i < 48 then (3 * i + 5) mod 16 else 7 * i mod 16)"
proof -
  assume "i < 64"
  then have "i \<in> set [0..<64]" by simp
  moreover have "\<forall>i\<in>set [0..<64]. rfc_index i = (if i < 16 then i else if i < 32 then (5 * i + 1) mod 16 else if i < 48 then (3 * i + 5) mod 16 else 7 * i mod 16)"
    by code_simp
  ultimately show ?thesis by blast
qed

lemma md5_step_eq: "i < 64 \<Longrightarrow> md5_step w i s = rfc_step w i s"
  by (cases s) (simp add: md5_step_def rfc_step_def md5_index rfc_F_def ac_simps)

lemma digest_md5_eq: "digest_md5 w = fold (rfc_step w) [0..<64] (0x67452301, 0xefcdab89, 0x98badcfe, 0x10325476)"
  unfolding digest_md5_def by (rule fold_cong) (simp_all add: md5_step_eq fun_eq_iff)


lemma list_8: "length xs = 8 \<Longrightarrow> xs = [xs ! 0, xs ! 1, xs ! 2, xs ! 3, xs ! 4, xs ! 5, xs ! 6, xs ! 7]"
  by (rule nth_equalityI) (auto simp: less_Suc_eq numeral_eq_Suc)

lemma get_le4_at: "length u = i \<Longrightarrow> get_le4 (u @ [b0, b1, b2, b3] @ v) i = get_le4 [b0, b1, b2, b3] 0"
  by (simp add: get_le4_def nth_append)

lemma md5_pad_48:
  assumes "length m = 48"
  shows "md5_pad m = m @ [0x80, 0, 0, 0, 0, 0, 0, 0, 0x80, 1, 0, 0, 0, 0, 0, 0]"
proof -
  have "replicate 7 (0 :: byte) = [0, 0, 0, 0, 0, 0, 0]" by (simp add: numeral_eq_Suc)
  moreover have "[0..<8] = [0, 1, 2, 3, 4, 5, 6, 7 :: nat]" by (simp add: upt_rec)
  ultimately show ?thesis by (simp add: md5_pad_def assms)
qed

lemma le_words_append:
  assumes "4 dvd length u"
  shows "le_words (u @ v) = le_words u @ le_words v"
proof -
  obtain k where k: "length u = 4 * k" using assms by (rule dvdE)
  have "get_le4 (u @ v) (4 * (i + k)) = get_le4 v (4 * i)" for i
    by (simp add: get_le4_def nth_append k algebra_simps)
  moreover have "get_le4 (u @ v) (4 * i) = get_le4 u (4 * i)" if "i < k" for i
    using that by (simp add: get_le4_def nth_append k)
  moreover have "[0..<k + n] = [0..<k] @ map (\<lambda>i. i + k) [0..<n]" for n
    using upt_add_eq_append [of 0 k n] map_add_upt [of k n] by (simp only: add.commute [of n k] le0)
  ultimately show ?thesis by (simp add: le_words_def k)
qed

lemma le_words_8: "length a = 8 \<Longrightarrow> le_words a = [get_le4 a 0, get_le4 a 4]"
  by (simp add: le_words_def upt_rec)

lemma le_words_tail: "le_words [0x80, 0, 0, 0, 0, 0, 0, 0, 0x80, 1, 0, 0, 0, 0, 0, 0] = [0x80, 0, 384, 0]"
  by (simp add: le_words_def upt_rec get_le4_def)

lemma le4_xor: "le4 (x XOR y) = map2 (XOR) (le4 x) (le4 y)"
  unfolding le4_def by (simp add: bit_eq_iff bit_simps) (auto simp: bit_simps)


lemma le_words_message:
  assumes "length a = 8" "length b = 8"
  shows "le_words (md5_pad (concat (replicate 3 (a @ b)))) =
    concat (replicate 3 [get_le4 a 0, get_le4 a 4, get_le4 b 0, get_le4 b 4]) @ [0x80, 0, 384, 0]"
proof -
  have r: "replicate 3 x = [x, x, x]" for x :: "'z list" by (simp add: numeral_eq_Suc)
  have "md5_pad (concat (replicate 3 (a @ b))) = a @ b @ a @ b @ a @ b @ [0x80, 0, 0, 0, 0, 0, 0, 0, 0x80, 1, 0, 0, 0, 0, 0, 0]"
    using md5_pad_48 [of "concat (replicate 3 (a @ b))"] assms by (simp add: r)
  then show ?thesis using assms by (simp add: le_words_append le_words_8 le_words_tail r)
qed

lemma xor_halves:
  "length u = 8 \<Longrightarrow> length v = 8 \<Longrightarrow> lxor_str u v = Ok (map2 (XOR) u v)"
  by (auto simp: lxor_str_def intro!: nth_equalityI)

lemma length_16: "length (concat (replicate 3 [p, q, r, s]) @ [t, u, v, w]) = 16"
  by (simp add: numeral_eq_Suc)

text \<open>The exclusive or with a key is its own inverse.\<close>

lemma xor_str_involution:
  assumes "s2 \<noteq> []"
  shows "\<exists>c. lxor_str s1 s2 = Ok c \<and> length c = length s1 \<and> lxor_str c s2 = Ok s1"
  using assms by (auto simp: lxor_str_def xor.assoc intro!: nth_equalityI)

section \<open>Properties\<close>

text \<open>C39: the two ends of a Diffie-Hellman exchange agree. Each end sends the power of G with its secret, both
  calls succeed for every two secrets that are not 0, and each end computes the same shared secret from
  what it received, although all arithmetic is on 64-bit words.\<close>

theorem dh_agreement:
  assumes "length x = 8" "length y = 8" "qword64 (get_qword x) \<noteq> 0" "qword64 (get_qword y) \<noteq> 0"
  shows "\<exists>ex ey s. ldhexchange x = Ok ex \<and> ldhexchange y = Ok ey \<and> ldhsecret ey x = Ok s \<and> ldhsecret ex y = Ok s"
proof -
  let ?x = "unat (qword64 (get_qword x))" and ?y = "unat (qword64 (get_qword y))"
  have p: "5 ^ n mod p_nat < p_nat" for n by (simp add: p_nat_def)
  have "ldhsecret (push64 (of_nat (5 ^ ?y mod p_nat))) x = Ok (push64 (of_nat (5 ^ (?x * ?y) mod p_nat)))"
    using secret_eq [OF assms(1,3) p power_5_pos] by (simp add: power_mod power_mult [symmetric] mult.commute)
  moreover have "ldhsecret (push64 (of_nat (5 ^ ?x mod p_nat))) y = Ok (push64 (of_nat (5 ^ (?x * ?y) mod p_nat)))"
    using secret_eq [OF assms(2,4) p power_5_pos] by (simp add: power_mod power_mult [symmetric])
  ultimately show ?thesis using exchange_eq [OF assms(1,3)] exchange_eq [OF assms(2,4)] by blast
qed

theorem dh_agreement_witness:
  "\<exists>ex ey s. ldhexchange [1, 2, 3, 4, 5, 6, 7, 8] = Ok ex \<and> ldhexchange [8, 7, 6, 5, 4, 3, 2, 1] = Ok ey \<and>
     ldhsecret ey [1, 2, 3, 4, 5, 6, 7, 8] = Ok s \<and> ldhsecret ex [8, 7, 6, 5, 4, 3, 2, 1] = Ok s"
  using dh_agreement [of "[1, 2, 3, 4, 5, 6, 7, 8]" "[8, 7, 6, 5, 4, 3, 2, 1]"]
  by (simp add: qword64_def get_qword_def get_le4_def)

text \<open>\<open>powmodp\<close> is modular exponentiation over the integers, for every base other than P itself.\<close>

theorem powmodp_correct:
  assumes "a \<noteq> P" "b \<noteq> 0"
  shows "\<exists>r. powmodp a b = Ok r \<and> uint r = uint a ^ unat b mod uint P"
proof -
  have l: "unat a ^ unat b mod p_nat < 2 ^ 64" using p_less by (simp add: p_nat_def mod_less_divisor [THEN less_trans])
  have P: "uint P = int p_nat" by (simp add: P_def p_nat_def)
  have "uint (of_nat (unat a ^ unat b mod p_nat) :: u64) = int (unat a ^ unat b mod p_nat)"
    using unat_small [OF l] by (metis uint_nat)
  also have "\<dots> = uint a ^ unat b mod uint P" by (simp add: P zmod_int)
  finally show ?thesis using powmodp_eq [OF assms] by blast
qed

theorem powmodp_correct_witness: "\<exists>r. powmodp 7 100 = Ok r \<and> uint r = 7 ^ 100 mod uint P"
  using powmodp_correct [of 7 100] by (simp add: P_def)

text \<open>The base P is not reduced: the guard is \<open>a > P\<close>, and P to the first power comes out as P, not 0.\<close>

theorem powmodp_P: "powmodp P 1 = Ok P \<and> uint P ^ 1 mod uint P = 0"
  by (simp add: powmodp_def pow_mod_p.simps)

text \<open>Base64 decoding undoes base64 encoding, for texts of every length.\<close>

lemma base64_roundtrip: "lb64decode (lb64encode text) = Ok text"
  by (rule b64_back)

text \<open>Hexadecimal decoding undoes encoding.\<close>

theorem hex_roundtrip: "lfromhex (ltohex text) = Ok text"
  by (simp add: lfromhex_def length_tohex fromhex_tohex)

text \<open>The hexadecimal decoder accepts characters that are no hexadecimal digits: \<open>g\<close>, as 16, and the ten
  characters from \<open>W\<close> to the backquote, as 0 to 9.\<close>

theorem hex_accepts: "lfromhex (str_bytes ''0g'') = Ok [16] \<and> lfromhex (str_bytes ''WZ'') = Ok [3]"
  by code_simp

text \<open>As the comment in the source says, \<open>hmac64_md5(a, b)\<close> is the exclusive or of the two halves of the MD5
  sum of \<open>(a .. b):rep(3)\<close>, with MD5 as RFC 1321 defines it.\<close>

lemma hmac64_md5_correct:
  assumes "length a = 8" "length b = 8"
  shows "lhmac64_md5 a b = lxor_str (take 8 (md5_spec (concat (replicate 3 (a @ b))))) (drop 8 (md5_spec (concat (replicate 3 (a @ b)))))"
proof -
  define w where "w = concat (replicate 3 [get_le4 a 0, get_le4 a 4, get_le4 b 0, get_le4 b 4]) @ [0x80, 0, 384, 0]"
  have len: "length w = 16" unfolding w_def by (rule length_16)
  obtain r0 r1 r2 r3 where r: "digest_md5 w = (r0, r1, r2, r3)" by (rule prod_cases4)
  have n: "md5_blocks (length w div 16) w s = rfc_block s w" for s using len by simp
  have "md5_spec (concat (replicate 3 (a @ b))) = le4 (0x67452301 + r0) @ le4 (0xefcdab89 + r1) @ le4 (0x98badcfe + r2) @ le4 (0x10325476 + r3)"
    unfolding md5_spec_def le_words_message [OF assms] w_def [symmetric] Let_def n
    using r by (simp add: rfc_block_def digest_md5_eq)
  moreover have "lhmac64_md5 a b = Ok (le4 ((0x67452301 + r0) XOR (0x98badcfe + r2)) @ le4 ((0xefcdab89 + r1) XOR (0x10325476 + r3)))"
    using assms r by (simp add: lhmac64_md5_def read64_def get_qword_def hmac_md5_def w_def [symmetric] pushqword_def add.commute)
  ultimately show ?thesis by (simp add: xor_halves le4_xor)
qed

lemma hmac64_md5_correct_witness:
  "lhmac64_md5 (replicate 8 1) (replicate 8 2) =
     lxor_str (take 8 (md5_spec (concat (replicate 3 (replicate 8 1 @ replicate 8 2)))))
       (drop 8 (md5_spec (concat (replicate 3 (replicate 8 1 @ replicate 8 2)))))"
  by (rule hmac64_md5_correct) simp_all

end
