(* ===== verification/Spec2Isabelle.thy ===== *)
theory Spec2Isabelle
  imports Skynet_Lock Skynet_Turn Skynet_Start Skynet_Net Skynet_Netpack Skynet_Lbuffer Skynet_Seri Skynet_Sproto Skynet_DES Skynet_SHA1 Skynet_Crypt
begin

text \<open>
  A verification library for the C core of skynet 1.2.0, an actor framework: services exchange
  messages through queues, a fixed set of worker threads runs the services whose queues are not empty,
  a timer thread delivers timeouts, a socket thread does the input and output of all connections, and
  services written in C connect the node to clients (the gate) and to other nodes (the harbor). All paths below are under \<open>src/skynet-1.2.0/\<close>.

  \<^bold>\<open>How the code is modelled.\<close> A C struct is a \<open>record\<close>, an enumeration or a set of status macros a
  \<open>datatype\<close>, a \<open>uint32_t\<close> a \<open>32 word\<close>, an array or a buffer a list, a linked chain the list of its
  nodes. An operation takes the state and returns it updated. \<open>'a res\<close> is the result of an operation that
  can stop: a failed \<open>assert\<close>, a NULL or freed pointer, an index outside an array, a read of memory
  never written, a signed overflow and a loop that does not end are values \<open>Err e\<close>, so a theorem that
  an operation returns \<open>Ok\<close> says that none of them happens. Loops whose end is not obvious are
  \<open>partial_function (option)\<close>, where not ending is \<open>None\<close>; loops with a visible measure are \<open>fun\<close> or
  \<open>function\<close> with a termination proof. The only fuel is the recursion bound of the unpacker of Lua values
  (\<open>Skynet_Seri\<close>: one more than the number of bytes, each of which is read at most once; the theorem
  \<open>seri_unpack_total\<close> shows that it is never used up). What the kernel does with a system call of the socket server is a script in
  the state of the model, so a theorem for every state holds for every behaviour of the kernel. The functions a
  service module exports are parameters. Calls that leave a service (\<open>skynet_send\<close>,
  \<open>skynet_socket_send\<close>, \<open>skynet_error\<close>, ...) are returned as lists of events.

  \<^bold>\<open>The theories.\<close>
  \<^item> \<open>Skynet_Prelude\<close>: the machine types, \<open>res\<close>, circular arrays, and the interface \<open>fifo\<close> of a queue with
    the lemmas its clients need; it is interpreted by the service queue, the packet ring of netpack and the
    message rings of the harbor.
  \<^item> \<open>Skynet_MQ\<close> (\<open>skynet-src/skynet_mq.c\<close>): the ring of a service queue with its growth and overload
    mark, the global list of queues, mark and release. A queue is FIFO through every run of operations.
  \<^item> \<open>Skynet_Sched\<close> (\<open>skynet_mq.c\<close> with \<open>skynet_context_message_dispatch\<close> of \<open>skynet_server.c\<close>): the
    threads as an inductive step relation over the locked regions of the queue code. In every reachable
    state no two workers have one queue and no queue with a message is forgotten. A rule is for an operation that returns; that the
    operations do return is shown in \<open>Skynet_Life\<close>, where references to contexts take the place of guards on the queues.
  \<^item> \<open>Skynet_Lock\<close> (\<open>spinlock.h\<close>, \<open>rwlock.h\<close>): the two locks, one step per atomic access. They exclude each other's
    critical regions in every interleaving; this is what lets the other theories take a locked region as one step.
  \<^item> \<open>Skynet_Timer\<close> (\<open>skynet_timer.c\<close>): the hierarchical timing wheel with its 32-bit clock. It refines a
    list of pending timers and an unbounded clock, across the wrap-around.
  \<^item> \<open>Skynet_Handle\<close> (\<open>skynet_handle.c\<close>): the table of handles and the sorted array of names:
    registration, retirement, lookup and naming meet their specification; the cases where registration
    crashes or loses a context are theorems.
  \<^item> \<open>Skynet_Server\<close>, \<open>Skynet_Life\<close>, \<open>Skynet_Dispatch\<close>, \<open>Skynet_Turn\<close> (\<open>skynet_server.c\<close>, \<open>skynet_harbor.c\<close>, \<open>skynet_monitor.c\<close>,
    \<open>skynet_error.c\<close>, \<open>skynet_env.c\<close>): services as contexts with reference counts, sending, the dispatch of messages and
    every text command. \<open>Skynet_Life\<close> has the threads as a step relation over references: a context lives exactly as long as there is
    a reference to it, no assertion of the queue code fails, and what the threads do is a run of \<open>Skynet_Sched\<close>. \<open>Skynet_Dispatch\<close> shows
    that the functions of the code are sequences of these steps and what sending does; \<open>Skynet_Turn\<close> that a whole turn of a worker
    returns, for callbacks that keep their contract.
  \<^item> \<open>Skynet_Start\<close> (\<open>skynet_start.c\<close>): how the threads sleep, are woken and end.
  \<^item> \<open>Skynet_Frames\<close>: the framed byte stream, and the interface \<open>frame_decoder\<close> of a receiver that gets
    the stream in pieces; gate, netpack and harbor interpret it.
  \<^item> \<open>Skynet_Text\<close>: what the services use of the C library for text.
  \<^item> \<open>Skynet_Databuffer\<close>, \<open>Skynet_Hashid\<close>, \<open>Skynet_Gate\<close> (\<open>service-src/databuffer.h\<close>, \<open>hashid.h\<close>,
    \<open>service_gate.c\<close>): receive buffer, table of connections and the gate service. The packets sent are those
    of the stream whatever pieces it arrives in; the table of connections is a bounded dictionary through every sequence of
    operations; the gate fails on a run of messages exactly when a connection of a listening socket that was closed in between is
    reported; a length with its top bit set is a negative size.
  \<^item> \<open>Skynet_Socket\<close>, \<open>Skynet_Sockstream\<close>, \<open>Skynet_Sockslot\<close>, \<open>Skynet_Sockstate\<close> (\<open>socket_server.c\<close>): the slots of the
    sockets, the requests of the other threads, the send lists of two priorities, the direct writes and the events. \<open>Skynet_Sockstream\<close>
    shows that a connection gets whole packages in order; \<open>Skynet_Sockslot\<close> has the invariant of a slot and \<open>Skynet_Sockstate\<close>
    that of the server with its safety, under the limits that \<open>sv_guard\<close> names; lemmas at its end show runs beyond these limits that fail.
  \<^item> \<open>Skynet_Net\<close> (\<open>skynet_socket.c\<close>): the socket server in a node: a report becomes one message of the service that owns the
    socket.
  \<^item> \<open>Skynet_Harbor\<close> (\<open>service-src/service_harbor.c\<close>): the service that links nodes. What is sent by handle, before
    and after the connection, arrives at the other node in order and unchanged as long as the frames are shorter than 16M; the messages of a run
    the service fails on are exactly those that are shorter than the code reads.
  \<^item> \<open>Skynet_Netpack\<close> (\<open>lualib-src/lua-netpack.c\<close>): the packet splitter of the Lua gate.
  \<^item> \<open>Skynet_Lbuffer\<close> (\<open>lualib-src/lua-socket.c\<close>): the receive buffers of Lua sockets as chains of nodes of a shared pool; they
    refine byte strings.
  \<^item> \<open>Skynet_Seri\<close> (\<open>lualib-src/lua-seri.c\<close>): packing and unpacking of Lua values, with the round trip.
  \<^item> \<open>Skynet_Sproto\<close> (\<open>lualib-src/sproto/sproto.c\<close>, \<open>lsproto.c\<close>): the zero packing of sproto messages: format, round trip,
    bounds, and the inputs it reads past.
  \<^item> \<open>Skynet_DES\<close>, \<open>Skynet_SHA1\<close>, \<open>Skynet_Crypt\<close> (\<open>lualib-src/lua-crypt.c\<close>, \<open>lsha1.c\<close>): DES with its
    round trip; SHA-1 and HMAC against their standards through the interface \<open>stream_hash\<close>; the key
    exchange, base64, hexadecimal and MD5 based functions.

  \<^bold>\<open>Where the model is coarser than the code.\<close> Locked regions are single steps (\<open>Skynet_Lock\<close>), and memory is sequentially consistent.
  The creation of a context (registering its handle, storing it and making the queue, \<open>skynet_context_new\<close>) is one step of \<open>Skynet_Life\<close>, so
  a sender that guesses the handle of a service in the middle of its creation is not covered; nor is a module whose release function
  sends, as a Lua finaliser run by \<open>lua_close\<close> can. The counters of a service queue are natural numbers (exact below 2^30
  messages). The lengths of the receive buffer of the gate and of a remote frame of the harbor are not cut to \<open>int\<close> (exact below 2^31 bytes). The
  tails of the chains of write buffers are not separate pointers. Reserving a socket number and sending its request are one step for
  \<open>connect\<close>, \<open>listen\<close> and \<open>udp\<close>. \<open>memcmp\<close> of a command against a literal is taken to stop at the first difference. The depth of the C stack and
  failing allocations are not modelled.

  \<^bold>\<open>Not modelled.\<close> The start-up sequence (\<open>skynet_main.c\<close>, \<open>skynet_start\<close> and \<open>bootstrap\<close>), module loading, log files, the pid
  file, the hooks of the allocator and the wrappers of \<open>epoll\<close> and \<open>kqueue\<close> (input, output and system calls); the services
  \<open>service_logger.c\<close> and \<open>service_snlua.c\<close>; the Lua bindings whose work is in the Lua runtime, among them the schema and the
  codec of sproto, bson and the shared tables; the bundled Lua, lpeg, md5 and pbc; and the Lua scripts.
\<close>

end
